(* ===== verification/Prelude.thy ===== *)
theory Prelude
  imports Main "HOL-Library.Word"
begin

text \<open>
  What every theory of the development shares: the machine integer types, the
  exceptions of \<^verbatim>\<open>src/src/cpsw_error.h\<close>, the state and exception monad in which the
  stateful C++ code is written, the calculus that proves facts about it (\<open>wp\<close>, \<open>pres\<close>),
  and generic lemmas on lists and words.
\<close>

unbundle bit_operations_syntax

section \<open>Integer types\<close>

type_synonym u8 = "8 word"
type_synonym u16 = "16 word"
type_synonym u32 = "32 word"
type_synonym u64 = "64 word"

text \<open>The development's collections: preservation rules, weakest precondition equations,
  byte (de)composition rules and the equations of the ring buffer abstraction.\<close>

named_theorems pres_rules "composition rules of state invariants over the monad"
named_theorems wp_eqs "equations of the weakest precondition transformer"
named_theorems byte_eqs "splitting words into bytes and joining them"

section \<open>Exceptions\<close>

text \<open>
  The classes derived from \<^verbatim>\<open>CPSWError\<close> which the modelled code throws, with the message
  (a literal of the source) where there is one. \<open>BadHeader\<close> is \<^verbatim>\<open>RssiHeader::BadHeader\<close>
  and \<open>InvalidHeader\<close> is \<^verbatim>\<open>CPackHeaderUtil::InvalidHeaderException\<close>. \<open>Undefined\<close> marks
  what has no C++ meaning (dereferencing a null pointer), \<open>Diverges\<close> a loop that does
  not return.
\<close>

datatype exn =
    InternalError string
  | InvalidArgError string
  | ConfigurationError string
  | InvalidPathError string
  | InvalidIdentError string
  | NotDevError string
  | NotFoundError string
  | DuplicateNameError string
  | AddressAlreadyAttachedError string
  | InterfaceNotImplementedError string
  | ConversionError string
  | IOError string
  | MultipleInstantiationError string
  | AddrOutOfRangeError string
  | BadStatusError string u32
  | CPSWError string
  | BadHeader string
  | InvalidHeader
  | Undefined string
  | Diverges

section \<open>The state and exception monad\<close>

text \<open>
  A C++ member function that may throw: from the object's state to the value or the
  exception, and the state at that point (a throw does not undo what was done before).
\<close>

type_synonym ('s, 'a) sem = "'s \<Rightarrow> (exn + 'a) \<times> 's"

definition ret :: "'a \<Rightarrow> ('s, 'a) sem" where
  "ret a = (\<lambda>s. (Inr a, s))"

definition raise :: "exn \<Rightarrow> ('s, 'a) sem" where
  "raise e = (\<lambda>s. (Inl e, s))"

definition bnd :: "('s, 'a) sem \<Rightarrow> ('a \<Rightarrow> ('s, 'b) sem) \<Rightarrow> ('s, 'b) sem" where
  "bnd m f = (\<lambda>s. case m s of (Inl e, t) \<Rightarrow> (Inl e, t) | (Inr a, t) \<Rightarrow> f a t)"

definition andThen :: "('s, unit) sem \<Rightarrow> ('s, 'b) sem \<Rightarrow> ('s, 'b) sem" where
  "andThen m n = bnd m (\<lambda>_. n)"

definition upd :: "('s \<Rightarrow> 's) \<Rightarrow> ('s, unit) sem" where
  "upd f = (\<lambda>s. (Inr (), f s))"

text \<open>\<open>reading f k\<close> hands the value of \<open>f\<close> in the current state to \<open>k\<close>.\<close>

definition reading :: "('s \<Rightarrow> 'x) \<Rightarrow> ('x \<Rightarrow> ('s, 'a) sem) \<Rightarrow> ('s, 'a) sem" where
  "reading f k = (\<lambda>s. k (f s) s)"

definition cond :: "('s \<Rightarrow> bool) \<Rightarrow> ('s, 'a) sem \<Rightarrow> ('s, 'a) sem \<Rightarrow> ('s, 'a) sem" where
  "cond p m n = (\<lambda>s. if p s then m s else n s)"

fun seqs :: "('s, unit) sem list \<Rightarrow> ('s, unit) sem" where
  "seqs [] = ret ()"
| "seqs (m # ms) = andThen m (seqs ms)"

definition tryCatch :: "('s, 'a) sem \<Rightarrow> (exn \<Rightarrow> ('s, 'a) sem option) \<Rightarrow> ('s, 'a) sem" where
  "tryCatch m h = (\<lambda>s. case m s of
      (Inr a, t) \<Rightarrow> (Inr a, t)
    | (Inl e, t) \<Rightarrow> (case h e of None \<Rightarrow> (Inl e, t) | Some k \<Rightarrow> k t))"

text \<open>Lifting a partial step on one component of the state, given its lookup and update.\<close>

definition liftR :: "(exn + 'a) \<Rightarrow> ('s, 'a) sem" where
  "liftR r = (\<lambda>s. (r, s))"

text \<open>Runs a member function of a component: \<open>g\<close> reads the component, \<open>p\<close> writes it back.\<close>

definition zoom :: "('s \<Rightarrow> 't) \<Rightarrow> ('t \<Rightarrow> 's \<Rightarrow> 's) \<Rightarrow> ('t, 'a) sem \<Rightarrow> ('s, 'a) sem" where
  "zoom g p m = (\<lambda>s. case m (g s) of (r, t) \<Rightarrow> (r, p t s))"

lemmas sem_defs = ret_def raise_def bnd_def andThen_def upd_def reading_def cond_def
  tryCatch_def liftR_def

lemma ret_app: "ret a s = (Inr a, s)"
  by (simp add: ret_def)

lemma raise_app: "raise e s = (Inl e, s)"
  by (simp add: raise_def)

lemma upd_app: "upd f s = (Inr (), f s)"
  by (simp add: upd_def)

lemma reading_app: "reading f k s = k (f s) s"
  by (simp add: reading_def)

lemma cond_app: "cond p m n s = (if p s then m s else n s)"
  by (simp add: cond_def)

lemma liftR_app: "liftR r s = (r, s)"
  by (simp add: liftR_def)

lemmas sem_app = ret_app raise_app upd_app reading_app cond_app liftR_app

lemma bnd_assoc: "bnd (bnd m f) g = bnd m (\<lambda>a. bnd (f a) g)"
  by (auto simp: bnd_def fun_eq_iff split: prod.splits sum.splits)

lemma andThen_assoc: "andThen (andThen m n) k = andThen m (andThen n k)"
  by (simp add: andThen_def bnd_assoc)

lemma bnd_Inr: "m s = (Inr a, t) \<Longrightarrow> bnd m f s = f a t"
  by (simp add: bnd_def)

lemma bnd_Inl: "m s = (Inl e, t) \<Longrightarrow> bnd m f s = (Inl e, t)"
  by (simp add: bnd_def)

lemma andThen_Inr: "m s = (Inr (), t) \<Longrightarrow> andThen m n s = n t"
  by (simp add: andThen_def bnd_def)

lemma bnd_ret [simp]: "bnd (ret a) f = f a"
  by (simp add: bnd_def fun_eq_iff sem_app)

lemma bnd_raise [simp]: "bnd (raise e) f = raise e"
  by (simp add: bnd_def fun_eq_iff sem_app)

lemma andThen_upd [simp]: "andThen (upd f) n s = n (f s)"
  by (simp add: andThen_def bnd_def sem_app)

lemma andThen_ret [simp]: "andThen m (ret ()) = m"
  by (auto simp: andThen_def bnd_def fun_eq_iff sem_app split: prod.splits sum.splits)

section \<open>Weakest preconditions\<close>

text \<open>\<open>wp m Q E s\<close>: run from \<open>s\<close>, \<open>m\<close> returns with \<open>Q\<close> or throws with \<open>E\<close>.\<close>

definition wp :: "('s, 'a) sem \<Rightarrow> ('a \<Rightarrow> 's \<Rightarrow> bool) \<Rightarrow> (exn \<Rightarrow> 's \<Rightarrow> bool) \<Rightarrow> 's \<Rightarrow> bool" where
  "wp m Q E s = (case m s of (Inr a, t) \<Rightarrow> Q a t | (Inl e, t) \<Rightarrow> E e t)"

lemma wp_ret [wp_eqs]: "wp (ret a) Q E s = Q a s"
  by (simp add: wp_def sem_app)

lemma wp_raise [wp_eqs]: "wp (raise e) Q E s = E e s"
  by (simp add: wp_def sem_app)

lemma wp_upd [wp_eqs]: "wp (upd f) Q E s = Q () (f s)"
  by (simp add: wp_def sem_app)

lemma wp_bnd [wp_eqs]: "wp (bnd m f) Q E s = wp m (\<lambda>a. wp (f a) Q E) E s"
  by (simp add: wp_def bnd_def split: prod.splits sum.splits)

lemma wp_andThen [wp_eqs]: "wp (andThen m n) Q E s = wp m (\<lambda>_. wp n Q E) E s"
  by (simp add: andThen_def wp_bnd)

lemma wp_reading [wp_eqs]: "wp (reading f k) Q E s = wp (k (f s)) Q E s"
  by (simp add: wp_def sem_app)

lemma wp_cond [wp_eqs]:
  "wp (cond p m n) Q E s = (if p s then wp m Q E s else wp n Q E s)"
  by (simp add: wp_def sem_app)

lemma wp_if [wp_eqs]:
  "wp (if b then m else n) Q E s = (if b then wp m Q E s else wp n Q E s)"
  by simp

lemma wp_seqs_Nil [wp_eqs]: "wp (seqs []) Q E s = Q () s"
  by (simp add: wp_ret)

lemma wp_seqs_Cons [wp_eqs]: "wp (seqs (m # ms)) Q E s = wp m (\<lambda>_. wp (seqs ms) Q E) E s"
  by (simp add: wp_andThen)

lemma wp_liftR [wp_eqs]:
  "wp (liftR r) Q E s = (case r of Inr a \<Rightarrow> Q a s | Inl e \<Rightarrow> E e s)"
  by (simp add: wp_def sem_app split: sum.splits)

lemma wp_tryCatch [wp_eqs]:
  "wp (tryCatch m h) Q E s =
     wp m Q (\<lambda>e t. case h e of None \<Rightarrow> E e t | Some k \<Rightarrow> wp k Q E t) s"
  by (simp add: wp_def tryCatch_def split: prod.splits sum.splits option.splits)

lemma wp_zoom [wp_eqs]:
  "wp (zoom g p m) Q E s = wp m (\<lambda>a t. Q a (p t s)) (\<lambda>e t. E e (p t s)) (g s)"
  by (simp add: wp_def zoom_def split: prod.splits sum.splits)

lemma wp_option [wp_eqs]:
  "wp (case x of None \<Rightarrow> m | Some y \<Rightarrow> n y) Q E s =
     (case x of None \<Rightarrow> wp m Q E s | Some y \<Rightarrow> wp (n y) Q E s)"
  by (cases x) simp_all

lemma wp_mono:
  assumes "wp m Q E s"
    and "\<And>a t. Q a t \<Longrightarrow> Q' a t"
    and "\<And>e t. E e t \<Longrightarrow> E' e t"
  shows "wp m Q' E' s"
  using assms by (auto simp: wp_def split: prod.splits sum.splits)

lemma wp_Inr: "wp m Q E s \<Longrightarrow> m s = (Inr a, t) \<Longrightarrow> Q a t"
  by (simp add: wp_def sem_app)

lemma wp_Inl: "wp m Q E s \<Longrightarrow> m s = (Inl e, t) \<Longrightarrow> E e t"
  by (simp add: wp_def sem_app)

lemma wp_unit_run: "wp m (\<lambda>_. P) (\<lambda>_ _. False) s \<Longrightarrow> \<exists>t. m s = (Inr (), t) \<and> P t"
  by (auto simp: wp_def split: prod.splits sum.splits)

lemma wp_conj: "wp m Q E s \<Longrightarrow> wp m Q' E' s \<Longrightarrow> wp m (\<lambda>a t. Q a t \<and> Q' a t) (\<lambda>e t. E e t \<and> E' e t) s"
  by (auto simp: wp_def split: prod.splits sum.splits)

section \<open>Invariants over the monad\<close>

text \<open>\<open>pres I m\<close>: \<open>m\<close> keeps \<open>I\<close>, whether it returns or throws.\<close>

definition pres :: "('s \<Rightarrow> bool) \<Rightarrow> ('s, 'a) sem \<Rightarrow> bool" where
  "pres I m \<longleftrightarrow> (\<forall>s. I s \<longrightarrow> I (snd (m s)))"

lemma presI: "(\<And>s. I s \<Longrightarrow> I (snd (m s))) \<Longrightarrow> pres I m"
  by (simp add: pres_def sem_app)

lemma presD: "pres I m \<Longrightarrow> I s \<Longrightarrow> I (snd (m s))"
  by (simp add: pres_def sem_app)

lemma presE: "pres I m \<Longrightarrow> I s \<Longrightarrow> m s = (r, t) \<Longrightarrow> I t"
  by (force simp: pres_def)

lemma pres_ret [pres_rules]: "pres I (ret a)"
  by (simp add: pres_def sem_app)

lemma pres_raise [pres_rules]: "pres I (raise e)"
  by (simp add: pres_def sem_app)

lemma pres_liftR [pres_rules]: "pres I (liftR r)"
  by (simp add: pres_def sem_app)

lemma pres_upd: "(\<And>s. I s \<Longrightarrow> I (f s)) \<Longrightarrow> pres I (upd f)"
  by (simp add: pres_def sem_app)

lemma pres_zoom: "(\<And>s. I s \<Longrightarrow> I (p (snd (m (g s))) s)) \<Longrightarrow> pres I (zoom g p m)"
  by (simp add: pres_def zoom_def case_prod_unfold)

lemma pres_sum [pres_rules]:
  "(\<And>e. x = Inl e \<Longrightarrow> pres I (m e)) \<Longrightarrow> (\<And>y. x = Inr y \<Longrightarrow> pres I (n y))
    \<Longrightarrow> pres I (case x of Inl e \<Rightarrow> m e | Inr y \<Rightarrow> n y)"
  by (cases x) simp_all

lemma pres_bnd [pres_rules]: "pres I m \<Longrightarrow> (\<And>a. pres I (f a)) \<Longrightarrow> pres I (bnd m f)"
  by (fastforce simp: pres_def bnd_def split: prod.splits sum.splits)

lemma pres_andThen [pres_rules]: "pres I m \<Longrightarrow> pres I n \<Longrightarrow> pres I (andThen m n)"
  by (simp add: andThen_def pres_bnd)

lemma pres_reading [pres_rules]: "(\<And>x. pres I (k x)) \<Longrightarrow> pres I (reading f k)"
  by (simp add: pres_def sem_app)

lemma pres_cond [pres_rules]: "pres I m \<Longrightarrow> pres I n \<Longrightarrow> pres I (cond p m n)"
  by (simp add: pres_def sem_app)

lemma pres_if [pres_rules]: "(b \<Longrightarrow> pres I m) \<Longrightarrow> (\<not> b \<Longrightarrow> pres I n) \<Longrightarrow> pres I (if b then m else n)"
  by simp

lemma pres_seqs_Nil [pres_rules]: "pres I (seqs [])"
  by (simp add: pres_ret)

lemma pres_seqs_Cons [pres_rules]: "pres I m \<Longrightarrow> pres I (seqs ms) \<Longrightarrow> pres I (seqs (m # ms))"
  by (simp add: pres_andThen)

lemma pres_tryCatch [pres_rules]:
  "pres I m \<Longrightarrow> (\<And>e k. h e = Some k \<Longrightarrow> pres I k) \<Longrightarrow> pres I (tryCatch m h)"
  by (fastforce simp: pres_def tryCatch_def split: prod.splits sum.splits option.splits)

lemma pres_option [pres_rules]:
  "(x = None \<Longrightarrow> pres I m) \<Longrightarrow> (\<And>y. x = Some y \<Longrightarrow> pres I (n y))
    \<Longrightarrow> pres I (case x of None \<Rightarrow> m | Some y \<Rightarrow> n y)"
  by (cases x) simp_all

lemma pres_list [pres_rules]:
  "(x = [] \<Longrightarrow> pres I m) \<Longrightarrow> (\<And>y ys. x = y # ys \<Longrightarrow> pres I (n y ys))
    \<Longrightarrow> pres I (case x of [] \<Rightarrow> m | y # ys \<Rightarrow> n y ys)"
  by (cases x) simp_all

lemma pres_prod [pres_rules]:
  "(\<And>a b. x = (a, b) \<Longrightarrow> pres I (n a b)) \<Longrightarrow> pres I (case x of (a, b) \<Rightarrow> n a b)"
  by (cases x) simp

lemma pres_conj: "pres I m \<Longrightarrow> pres J m \<Longrightarrow> pres (\<lambda>s. I s \<and> J s) m"
  by (simp add: pres_def sem_app)

section \<open>Lists\<close>

lemma nth_drop_add: "i + n < length xs \<Longrightarrow> drop n xs ! i = xs ! (n + i)"
  by simp

lemma list_update_append_left: "i < length xs \<Longrightarrow> (xs @ ys)[i := v] = xs[i := v] @ ys"
  by (simp add: list_update_append1)

lemma take_update_same: "i < n \<Longrightarrow> take n (xs[i := v]) = (take n xs)[i := v]"
  by (rule take_update_swap)

section \<open>Bytes and words\<close>

definition join16 :: "u8 \<Rightarrow> u8 \<Rightarrow> u16" where
  "join16 a b = push_bit 8 (ucast a) OR ucast b"

lemma join16_hi [byte_eqs]: "(ucast (drop_bit 8 (join16 a b)) :: u8) = a"
  by (rule bit_word_eqI) (auto simp: join16_def bit_simps dest: bit_imp_le_length)

lemma join16_lo [byte_eqs]: "(ucast (join16 a b) :: u8) = b"
  by (rule bit_word_eqI) (auto simp: join16_def bit_simps)

lemma join16_split [byte_eqs]: "join16 (ucast (drop_bit 8 (v :: u16))) (ucast v) = v"
proof (rule bit_word_eqI)
  fix n
  assume n: "n < LENGTH(16)"
  then show "bit (join16 (ucast (drop_bit 8 v)) (ucast v)) n = bit v n"
    by (cases "n < 8") (auto simp: join16_def bit_simps)
qed

lemma mask_eq_minus [simp]: "(2 :: 'a::len word) ^ k - 1 = mask k"
  by (simp add: mask_eq_exp_minus_1)

lemma unat_bound: "unat (w :: 'a::len word) < 2 ^ LENGTH('a)"
  by (rule unsigned_less)

lemma unat_compl: "unat (- 1 - (w :: 'a::len word)) = unat (- 1 :: 'a word) - unat w"
  by (rule unat_sub) (rule word_order.extremum)

lemma unat_and_mask: "unat ((w :: 'a::len word) AND mask k) = unat w mod 2 ^ k"
  by (simp add: take_bit_eq_mask [symmetric] unsigned_take_bit_eq flip: take_bit_eq_mod)

lemma unat_of_nat_mod: "unat (of_nat n :: 'a::len word) = n mod 2 ^ LENGTH('a)"
  by (simp add: unat_of_nat take_bit_eq_mod)

lemma mod_add_pow2_le:
  assumes "k \<le> l"
  shows "((a + b) mod 2 ^ l) mod 2 ^ k = (a + b) mod (2 ^ k :: nat)"
  using assms by (simp add: mod_mod_cancel le_imp_power_dvd)

lemma mod_inj_window:
  fixes a i j n :: nat
  assumes "(a + i) mod n = (a + j) mod n" "i < n" "j < n"
  shows "i = j"
proof (cases "i \<le> j")
  case True
  with assms(1) obtain q where "a + j = a + i + n * q"
    by (metis add_left_mono mod_eq_nat1E)
  with assms(3) show ?thesis by (cases q) simp_all
next
  case False
  with assms(1) obtain q where "a + i = a + j + n * q"
    by (metis add_left_mono linear mod_eq_nat1E)
  with assms(2) show ?thesis by (cases q) simp_all
qed

end
