(* ===== verification/Timeout.thy ===== *)
theory Timeout
  imports Prelude
begin

text \<open>
  \<^verbatim>\<open>CTimeout\<close> of \<^verbatim>\<open>src/src/cpsw_api_timeout.h\<close>: a POSIX timespec with a distinguished
  indefinite value. Seconds and nanoseconds (\<^verbatim>\<open>time_t\<close>, \<^verbatim>\<open>long\<close>) are integers; the
  conversions from and to microseconds are on the source's 64-bit unsigned type.
\<close>

datatype timeout = Timeout (tv_sec: int) (tv_nsec: int)

definition INDEFINITE_S :: int where
  "INDEFINITE_S = -1"

definition to_setIndefinite :: timeout where
  "to_setIndefinite = Timeout INDEFINITE_S 0"

definition to_set :: "u64 \<Rightarrow> timeout" where
  "to_set us =
     (if us < 1000000 then Timeout 0 (uint (us * 1000))
      else Timeout (uint (us div 1000000)) (uint ((us mod 1000000) * 1000)))"

definition to_mk :: "int \<Rightarrow> int \<Rightarrow> exn + timeout" where
  "to_mk s ns =
     (if 1000000000 \<le> ns then Inl (InvalidArgError ''Timeout 'ns' must be < 1E9'')
      else Inr (Timeout s ns))"

definition to_getUs :: "timeout \<Rightarrow> u64" where
  "to_getUs t = word_of_int (tv_sec t) * 1000000 + word_of_int (tv_nsec t) div 1000"

definition to_isIndefinite :: "timeout \<Rightarrow> bool" where
  "to_isIndefinite t \<longleftrightarrow> tv_sec t = INDEFINITE_S"

definition to_isNone :: "timeout \<Rightarrow> bool" where
  "to_isNone t \<longleftrightarrow> tv_sec t = 0 \<and> tv_nsec t = 0"

definition to_add :: "timeout \<Rightarrow> timeout \<Rightarrow> timeout" where
  "to_add l r =
     (if to_isIndefinite l then l
      else if to_isIndefinite r then r
      else let s = tv_sec l + tv_sec r; n = tv_nsec l + tv_nsec r
           in if 1000000000 \<le> n then Timeout (s + 1) (n - 1000000000) else Timeout s n)"

definition to_sub :: "timeout \<Rightarrow> timeout \<Rightarrow> timeout" where
  "to_sub l r =
     (if to_isIndefinite l then l
      else if to_isIndefinite r then r
      else let s = tv_sec l - tv_sec r; n = tv_nsec l
           in if n < tv_nsec r then Timeout (s - 1) (n + 1000000000 - tv_nsec r)
              else Timeout s (n - tv_nsec r))"

text \<open>\<^verbatim>\<open>operator <\<close>: the order of the library's class, lexicographic.\<close>

definition to_lt :: "timeout \<Rightarrow> timeout \<Rightarrow> bool" where
  "to_lt l r \<longleftrightarrow> tv_sec l < tv_sec r \<or> (tv_sec l = tv_sec r \<and> tv_nsec l < tv_nsec r)"

lemma timeout_eq_iff: "x = y \<longleftrightarrow> tv_sec x = tv_sec y \<and> tv_nsec x = tv_nsec y"
  by (cases x; cases y) simp

instantiation timeout :: linorder
begin

definition less_timeout :: "timeout \<Rightarrow> timeout \<Rightarrow> bool" where
  "less_timeout l r \<longleftrightarrow> to_lt l r"

definition less_eq_timeout :: "timeout \<Rightarrow> timeout \<Rightarrow> bool" where
  "less_eq_timeout l r \<longleftrightarrow> to_lt l r \<or> l = r"

instance
  by standard (auto simp: less_timeout_def less_eq_timeout_def to_lt_def timeout_eq_iff)

end

section \<open>What a timeout means\<close>

definition to_normal :: "timeout \<Rightarrow> bool" where
  "to_normal t \<longleftrightarrow> 0 \<le> tv_sec t \<and> 0 \<le> tv_nsec t \<and> tv_nsec t < 1000000000"

definition to_ns :: "timeout \<Rightarrow> int" where
  "to_ns t = tv_sec t * 1000000000 + tv_nsec t"

lemma to_normal_definite [simp]: "to_normal t \<Longrightarrow> \<not> to_isIndefinite t"
  by (simp add: to_normal_def to_isIndefinite_def INDEFINITE_S_def)

lemma uint_mult_small:
  fixes a b :: u64
  assumes "uint a * uint b < 2 ^ 64"
  shows "uint (a * b) = uint a * uint b"
  using assms by (simp add: uint_word_ariths)

lemma to_set_fields:
  "tv_sec (to_set us) = uint us div 1000000 \<and> tv_nsec (to_set us) = (uint us mod 1000000) * 1000"
proof (cases "us < 1000000")
  case True
  then have u: "uint us < 1000000" by (simp add: word_less_def)
  moreover have "0 \<le> uint us" by simp
  ultimately show ?thesis
    using True by (simp add: to_set_def uint_mult_small)
next
  case False
  have m: "uint (us mod 1000000) = uint us mod 1000000" by (simp add: uint_mod)
  have "uint (us mod 1000000) < 1000000" by (simp add: m)
  then have "uint ((us mod 1000000) * 1000) = uint (us mod 1000000) * uint (1000 :: u64)"
    by (intro uint_mult_small) simp
  then show ?thesis using False by (simp add: to_set_def m uint_div)
qed

lemma to_set_normal [simp]: "to_normal (to_set us)"
  using to_set_fields [of us] by (simp add: to_normal_def pos_imp_zdiv_nonneg_iff)

lemma to_set_ns: "to_ns (to_set us) = uint us * 1000"
proof -
  have "q * 1000000 + r = u \<Longrightarrow> q * 1000000000 + r * 1000 = u * 1000" for q r u :: int
    by simp
  from this [OF div_mult_mod_eq] show ?thesis
    using to_set_fields [of us] by (simp add: to_ns_def)
qed

lemma to_getUs_set: "to_getUs (to_set us) = us"
proof -
  have "uint us div 1000000 < 2 ^ 64" using uint_bounded [of us] by simp
  then have s: "(word_of_int (tv_sec (to_set us)) :: u64) = us div 1000000"
    by (simp add: to_set_fields word_uint_eq_iff uint_div uint_word_of_int pos_imp_zdiv_nonneg_iff)
  have b: "uint us mod 1000000 < 1000000" by simp
  have "uint (word_of_int (uint us mod 1000000 * 1000) :: u64) = uint us mod 1000000 * 1000"
    using b by (simp only: uint_word_of_int) simp
  then have "uint (word_of_int (tv_nsec (to_set us)) div 1000 :: u64) = uint (us mod 1000000)"
    by (simp add: to_set_fields uint_div uint_mod)
  then have n: "(word_of_int (tv_nsec (to_set us)) div 1000 :: u64) = us mod 1000000"
    by (simp only: word_uint_eq_iff)
  show ?thesis by (simp only: to_getUs_def s n div_mult_mod_eq)
qed

lemma to_getUs_normal:
  assumes "to_normal t" and "tv_sec t * 1000000 + 1000000 < 2 ^ 64"
  shows "uint (to_getUs t) = to_ns t div 1000"
proof -
  from assms have s: "0 \<le> tv_sec t" "tv_sec t < 2 ^ 64" and n: "0 \<le> tv_nsec t" "tv_nsec t < 1000000000"
    by (auto simp: to_normal_def)
  have us: "uint (word_of_int (tv_sec t) :: u64) = tv_sec t"
    using s by (simp add: uint_word_of_int)
  have un: "uint (word_of_int (tv_nsec t) div 1000 :: u64) = tv_nsec t div 1000"
    using n by (simp add: uint_div uint_word_of_int)
  have m: "uint (word_of_int (tv_sec t) * 1000000 :: u64) = tv_sec t * 1000000"
    using us assms(2) by (subst uint_mult_small) simp_all
  have "uint (to_getUs t) = (tv_sec t * 1000000 + tv_nsec t div 1000) mod 2 ^ 64"
    by (simp add: to_getUs_def uint_word_ariths(1) m un)
  also have "\<dots> = tv_sec t * 1000000 + tv_nsec t div 1000"
    using assms(2) s n by (intro mod_pos_pos_trivial) auto
  also have "\<dots> = to_ns t div 1000"
    by (simp add: to_ns_def)
  finally show ?thesis .
qed

lemma to_add_ns:
  "to_normal a \<Longrightarrow> to_normal b \<Longrightarrow> to_normal (to_add a b) \<and> to_ns (to_add a b) = to_ns a + to_ns b"
  by (auto simp: to_add_def to_normal_def to_ns_def Let_def to_isIndefinite_def INDEFINITE_S_def)

lemma to_add_normal [simp]: "to_normal a \<Longrightarrow> to_normal b \<Longrightarrow> to_normal (to_add a b)"
  by (simp add: to_add_ns)

lemma to_sub_ns:
  "to_normal a \<Longrightarrow> to_normal b \<Longrightarrow> to_ns b \<le> to_ns a
    \<Longrightarrow> to_normal (to_sub a b) \<and> to_ns (to_sub a b) = to_ns a - to_ns b"
  by (auto simp: to_sub_def to_normal_def to_ns_def Let_def to_isIndefinite_def INDEFINITE_S_def)

lemma to_ns_inj: "to_normal a \<Longrightarrow> to_normal b \<Longrightarrow> to_ns a = to_ns b \<Longrightarrow> a = b"
proof -
  assume n: "to_normal a" "to_normal b" and e: "to_ns a = to_ns b"
  then have "tv_sec a = tv_sec b" by (auto simp: to_normal_def to_ns_def)
  with e show "a = b" by (simp add: to_ns_def timeout_eq_iff)
qed

lemma to_lt_ns: "to_normal a \<Longrightarrow> to_normal b \<Longrightarrow> a < b \<longleftrightarrow> to_ns a < to_ns b"
  by (auto simp: less_timeout_def to_lt_def to_normal_def to_ns_def)

end
