(* ===== verification/ByteFields.thy ===== *)
theory ByteFields
  imports Prelude
begin

text \<open>
  The interface of a header field stored in a byte buffer: a getter and a setter on a
  range of bytes. The headers of RSSI and of the packetizers interpret it once per field;
  two fields on disjoint ranges do not disturb each other.
\<close>

locale byte_field =
  fixes off :: nat and width :: nat
    and get :: "u8 list \<Rightarrow> 'v"
    and put :: "'v \<Rightarrow> u8 list \<Rightarrow> u8 list"
    and fits :: "'v \<Rightarrow> bool"
  assumes length_put: "length (put v h) = length h"
    and get_put: "off + width \<le> length h \<Longrightarrow> fits v \<Longrightarrow> get (put v h) = v"
    and put_frame: "i < off \<or> off + width \<le> i \<Longrightarrow> put v h ! i = h ! i"
    and get_local: "(\<And>i. off \<le> i \<Longrightarrow> i < off + width \<Longrightarrow> h ! i = h' ! i)
                      \<Longrightarrow> off + width \<le> length h \<Longrightarrow> length h' = length h \<Longrightarrow> get h = get h'"

locale two_byte_fields =
  a: byte_field off1 width1 get1 put1 fits1 + b: byte_field off2 width2 get2 put2 fits2
  for off1 width1 and get1 :: "u8 list \<Rightarrow> 'v" and put1 fits1
    and off2 width2 and get2 :: "u8 list \<Rightarrow> 'w" and put2 fits2 +
  assumes disjoint: "off1 + width1 \<le> off2 \<or> off2 + width2 \<le> off1"
begin

lemma get1_put2: "off1 + width1 \<le> length h \<Longrightarrow> get1 (put2 v h) = get1 h"
  using disjoint by (intro a.get_local) (auto simp: b.length_put intro!: b.put_frame)

lemma get2_put1: "off2 + width2 \<le> length h \<Longrightarrow> get2 (put1 v h) = get2 h"
  using disjoint by (intro b.get_local) (auto simp: a.length_put intro!: a.put_frame)

end

section \<open>Big-endian loads and stores of RSSI headers\<close>

definition ld16be :: "u8 list \<Rightarrow> nat \<Rightarrow> u16" where
  "ld16be h off = join16 (h ! off) (h ! (off + 1))"

definition st16be :: "nat \<Rightarrow> u16 \<Rightarrow> u8 list \<Rightarrow> u8 list" where
  "st16be off v h = h[off := ucast (drop_bit 8 v), off + 1 := ucast v]"

definition join32 :: "u8 \<Rightarrow> u8 \<Rightarrow> u8 \<Rightarrow> u8 \<Rightarrow> u32" where
  "join32 a b c d =
     push_bit 8 (push_bit 8 (push_bit 8 (ucast a) OR ucast b) OR ucast c) OR ucast d"

definition ld32be :: "u8 list \<Rightarrow> nat \<Rightarrow> u32" where
  "ld32be h off = join32 (h ! off) (h ! (off + 1)) (h ! (off + 2)) (h ! (off + 3))"

definition st32be :: "nat \<Rightarrow> u32 \<Rightarrow> u8 list \<Rightarrow> u8 list" where
  "st32be off v h = h[off := ucast (drop_bit 24 v), off + 1 := ucast (drop_bit 16 v),
                      off + 2 := ucast (drop_bit 8 v), off + 3 := ucast v]"

lemma length_st16be [simp]: "length (st16be off v h) = length h"
  by (simp add: st16be_def)

lemma length_st32be [simp]: "length (st32be off v h) = length h"
  by (simp add: st32be_def)

lemma ld16be_st16be [simp]: "off + 2 \<le> length h \<Longrightarrow> ld16be (st16be off v h) off = v"
  by (simp add: ld16be_def st16be_def byte_eqs)

lemma st16be_nth: "i < off \<or> off + 2 \<le> i \<Longrightarrow> st16be off v h ! i = h ! i"
  by (auto simp: st16be_def)

lemma ld16be_cong: "h ! off = h' ! off \<Longrightarrow> h ! (off + 1) = h' ! (off + 1) \<Longrightarrow> ld16be h off = ld16be h' off"
  by (simp add: ld16be_def)

lemma join32_split [byte_eqs]:
  "join32 (ucast (drop_bit 24 v)) (ucast (drop_bit 16 v)) (ucast (drop_bit 8 v)) (ucast v) = v"
proof (rule bit_word_eqI)
  fix n
  assume n: "n < LENGTH(32)"
  consider "n < 8" | "8 \<le> n" "n < 16" | "16 \<le> n" "n < 24" | "24 \<le> n" by linarith
  then show "bit (join32 (ucast (drop_bit 24 v)) (ucast (drop_bit 16 v)) (ucast (drop_bit 8 v))
      (ucast v)) n = bit v n"
    using n by cases (auto simp: join32_def bit_simps)
qed

lemma ld32be_st32be [simp]: "off + 4 \<le> length h \<Longrightarrow> ld32be (st32be off v h) off = v"
  by (simp add: ld32be_def st32be_def byte_eqs)

lemma byte_field_u8:
  "byte_field n 1 (\<lambda>h. h ! n) (\<lambda>v h. h[n := v :: u8]) (\<lambda>_. True)"
  by unfold_locales auto

lemma byte_field_16be:
  "byte_field n 2 (\<lambda>h. ld16be h n) (\<lambda>v. st16be n v) (\<lambda>_. True)"
  by unfold_locales (auto simp: st16be_nth intro!: ld16be_cong)

lemma byte_field_32be:
  "byte_field n 4 (\<lambda>h. ld32be h n) (\<lambda>v. st32be n v) (\<lambda>_. True)"
  by unfold_locales (auto simp: st32be_def ld32be_def byte_eqs)

end
