(* ===== verification/RssiHeader.thy ===== *)
theory RssiHeader
  imports ByteFields
begin

text \<open>
  \<^verbatim>\<open>RssiHeader\<close> and \<^verbatim>\<open>RssiSynHeader\<close> (\<^verbatim>\<open>src/src/cpsw_rssi_proto.h\<close> and \<^verbatim>\<open>.cc\<close>). A header
  is a view of a buffer: the byte list starting at the payload pointer \<^verbatim>\<open>buf_\<close>. The
  constructors are stateful (they write the size byte and clear the spare bytes) and may
  throw \<^verbatim>\<open>BadHeader\<close>; the value they return is \<^verbatim>\<open>chkOk_\<close>.
\<close>

section \<open>Constants\<close>

definition RSSI_VERSION_1 :: u8 where "RSSI_VERSION_1 = 1"
definition FLG_BSY :: u8 where "FLG_BSY = 0x01"
definition FLG_NUL :: u8 where "FLG_NUL = 0x08"
definition FLG_RST :: u8 where "FLG_RST = 0x10"
definition FLG_EAC :: u8 where "FLG_EAC = 0x20"
definition FLG_ACK :: u8 where "FLG_ACK = 0x40"
definition FLG_SYN :: u8 where "FLG_SYN = 0x80"
definition XFL_CHK :: u8 where "XFL_CHK = 0x04"
definition XFL_ONE :: u8 where "XFL_ONE = 0x08"

lemmas flg_defs = FLG_BSY_def FLG_NUL_def FLG_RST_def FLG_EAC_def FLG_ACK_def FLG_SYN_def
  XFL_CHK_def XFL_ONE_def RSSI_VERSION_1_def

datatype hmode = READ | SET

definition minHeaderSize :: nat where
  "minHeaderSize = 8"

definition getSupportedVersion :: u8 where
  "getSupportedVersion = RSSI_VERSION_1"

text \<open>\<^verbatim>\<open>RssiHeader::getHSize(protoVersion)\<close>.\<close>

definition versionHSize :: "u8 \<Rightarrow> exn + nat" where
  "versionHSize v =
     (if RSSI_VERSION_1 \<noteq> v then Inl (InternalError ''Unknown RSSI Version'') else Inr 8)"

section \<open>Fields\<close>

definition getFlags :: "u8 list \<Rightarrow> u8" where "getFlags h = h ! 0"
definition getHSize :: "u8 list \<Rightarrow> u8" where "getHSize h = h ! 1"
definition getSeqNo :: "u8 list \<Rightarrow> u8" where "getSeqNo h = h ! 2"
definition getAckNo :: "u8 list \<Rightarrow> u8" where "getAckNo h = h ! 3"
definition getCheck :: "u8 list \<Rightarrow> u16" where "getCheck h = ld16be h (unat (getHSize h) - 2)"

definition setFlags :: "u8 \<Rightarrow> u8 list \<Rightarrow> u8 list" where "setFlags v h = h[0 := v]"
definition setHSize :: "u8 \<Rightarrow> u8 list \<Rightarrow> u8 list" where "setHSize v h = h[1 := v]"
definition setSeqNo :: "u8 \<Rightarrow> u8 list \<Rightarrow> u8 list" where "setSeqNo v h = h[2 := v]"
definition setAckNo :: "u8 \<Rightarrow> u8 list \<Rightarrow> u8 list" where "setAckNo v h = h[3 := v]"
definition setCheck :: "u16 \<Rightarrow> u8 list \<Rightarrow> u8 list" where
  "setCheck v h = st16be (unat (getHSize h) - 2) v h"

definition isPureAck :: "u8 list \<Rightarrow> bool" where
  "isPureAck h \<longleftrightarrow> getFlags h AND NOT FLG_BSY = FLG_ACK"

text \<open>\<^verbatim>\<open>flags & FLG\<close> as a C++ condition.\<close>

definition hasFlag :: "u8 \<Rightarrow> u8 \<Rightarrow> bool" where
  "hasFlag flg f \<longleftrightarrow> f AND flg \<noteq> 0"

section \<open>Checksum\<close>

text \<open>The two loops of \<^verbatim>\<open>cs()\<close>: the sum of the 16-bit words, then the end-around carry.\<close>

function cs_loop :: "u8 list \<Rightarrow> nat \<Rightarrow> nat \<Rightarrow> u32 \<Rightarrow> u32" where
  "cs_loop h hs i acc =
     (if i < hs then cs_loop h hs (i + 2) (acc + ucast (ld16be h i)) else acc)"
  by pat_completeness auto
termination
  by (relation "measure (\<lambda>(h, hs, i, acc). hs - i)") auto

declare cs_loop.simps [simp del]

lemma carry_decreases:
  assumes "0xffff < (x :: u32)"
  shows "unat ((x AND 0xffff) + drop_bit 16 x) < unat x"
    and "unat ((x AND 0xffff) + drop_bit 16 x) = unat x mod 65536 + unat x div 65536"
proof -
  have m: "unat (x AND 0xffff) = unat x mod 65536"
    using unat_and_mask [of x 16] by (simp add: mask_eq_exp_minus_1)
  have d: "unat (drop_bit 16 x) = unat x div 65536"
    by (simp add: drop_bit_eq_div unat_div)
  have b: "unat x < 2 ^ 32" using unat_bound [of x] by simp
  have s: "unat x mod 65536 + unat x div 65536 < 2 ^ 32" using b by linarith
  show e: "unat ((x AND 0xffff) + drop_bit 16 x) = unat x mod 65536 + unat x div 65536"
    using s by (simp add: unat_word_ariths m d)
  have "0 < unat x div 65536"
    using assms by (simp add: word_less_nat_alt div_greater_zero_iff)
  moreover have "unat x = 65536 * (unat x div 65536) + unat x mod 65536" by simp
  ultimately show "unat ((x AND 0xffff) + drop_bit 16 x) < unat x"
    unfolding e by linarith
qed

function cs_fold :: "u32 \<Rightarrow> u32" where
  "cs_fold x = (if 0xffff < x then cs_fold ((x AND 0xffff) + drop_bit 16 x) else x)"
  by pat_completeness auto
termination
  by (relation "measure unat") (auto intro: carry_decreases(1))

declare cs_fold.simps [simp del]

definition cs :: "u8 list \<Rightarrow> u16" where
  "cs h = ucast (NOT (cs_fold (cs_loop h (unat (getHSize h)) 0 0)) AND 0xffff)"

definition writeChksum :: "u8 list \<Rightarrow> u8 list" where
  "writeChksum h =
     (let h0 = st16be (unat (getHSize h) - 2) 0 h
      in st16be (unat (getHSize h0) - 2) (cs h0) h0)"

section \<open>Constructors\<close>

text \<open>\<^verbatim>\<open>RssiHeader(buf, bufsz, computeChksum, hLen)\<close>, the protected one.\<close>

definition hdr_ini_len :: "nat \<Rightarrow> bool \<Rightarrow> u8 \<Rightarrow> (u8 list, bool) sem" where
  "hdr_ini_len bufsz computeChksum hLen =
     (if bufsz < 2 then raise (BadHeader ''header size > buffer size ?'')
      else andThen (upd (\<lambda>h. if hLen \<noteq> 0 then setHSize hLen h else h))
       (reading getHSize (\<lambda>hs.
         if bufsz < unat hs then raise (BadHeader ''header size > buffer size ?'')
         else if computeChksum
              then (if hLen \<noteq> 0 then ret False else reading cs (\<lambda>c. ret (c = 0)))
              else ret True)))"

text \<open>\<^verbatim>\<open>RssiHeader(buf, bufsz, computeChksum, initMode)\<close>.\<close>

definition hdr_ini :: "nat \<Rightarrow> bool \<Rightarrow> hmode \<Rightarrow> (u8 list, bool) sem" where
  "hdr_ini bufsz computeChksum initMode =
     (if bufsz < 2 then raise (BadHeader ''header size > buffer size ?'')
      else andThen (upd (\<lambda>h. if initMode = SET then setHSize 8 h else h))
       (reading getHSize (\<lambda>hs.
         if bufsz < unat hs then raise (BadHeader ''header size > buffer size ?'')
         else andThen (upd (\<lambda>h. if initMode = SET then h[5 := 0, 4 := 0] else h))
           (if computeChksum
            then (if initMode = SET then ret False else reading cs (\<lambda>c. ret (c = 0)))
            else ret True))))"

section \<open>SYN header\<close>

definition getXflgs :: "u8 list \<Rightarrow> u8" where "getXflgs h = h ! 4"
definition getOssMX :: "u8 list \<Rightarrow> u8" where "getOssMX h = h ! 5"
definition getSgsMX :: "u8 list \<Rightarrow> u16" where "getSgsMX h = ld16be h 6"
definition getRexTO :: "u8 list \<Rightarrow> u16" where "getRexTO h = ld16be h 8"
definition getCakTO :: "u8 list \<Rightarrow> u16" where "getCakTO h = ld16be h 10"
definition getNulTO :: "u8 list \<Rightarrow> u16" where "getNulTO h = ld16be h 12"
definition getRexMX :: "u8 list \<Rightarrow> u8" where "getRexMX h = h ! 14"
definition getCakMX :: "u8 list \<Rightarrow> u8" where "getCakMX h = h ! 15"
definition getOsaMX :: "u8 list \<Rightarrow> u8" where "getOsaMX h = h ! 16"
definition getUnits :: "u8 list \<Rightarrow> u8" where "getUnits h = h ! 17"
definition getConID :: "u8 list \<Rightarrow> u32" where "getConID h = ld32be h 18"
definition getVersn :: "u8 list \<Rightarrow> u8" where "getVersn h = drop_bit 4 (getXflgs h)"

definition setXflgs :: "u8 \<Rightarrow> u8 list \<Rightarrow> u8 list" where "setXflgs v h = h[4 := v]"
definition setOssMX :: "u8 \<Rightarrow> u8 list \<Rightarrow> u8 list" where "setOssMX v h = h[5 := v]"
definition setSgsMX :: "u16 \<Rightarrow> u8 list \<Rightarrow> u8 list" where "setSgsMX v h = st16be 6 v h"
definition setRexTO :: "u16 \<Rightarrow> u8 list \<Rightarrow> u8 list" where "setRexTO v h = st16be 8 v h"
definition setCakTO :: "u16 \<Rightarrow> u8 list \<Rightarrow> u8 list" where "setCakTO v h = st16be 10 v h"
definition setNulTO :: "u16 \<Rightarrow> u8 list \<Rightarrow> u8 list" where "setNulTO v h = st16be 12 v h"
definition setRexMX :: "u8 \<Rightarrow> u8 list \<Rightarrow> u8 list" where "setRexMX v h = h[14 := v]"
definition setCakMX :: "u8 \<Rightarrow> u8 list \<Rightarrow> u8 list" where "setCakMX v h = h[15 := v]"
definition setOsaMX :: "u8 \<Rightarrow> u8 list \<Rightarrow> u8 list" where "setOsaMX v h = h[16 := v]"
definition setUnits :: "u8 \<Rightarrow> u8 list \<Rightarrow> u8 list" where "setUnits v h = h[17 := v]"
definition setConID :: "u32 \<Rightarrow> u8 list \<Rightarrow> u8 list" where "setConID v h = st32be 18 v h"

definition setVersn :: "u8 \<Rightarrow> u8 list \<Rightarrow> u8 list" where
  "setVersn v h = (let prev = getXflgs h AND 0xf in setXflgs (prev OR push_bit 4 v) h)"

definition syn_ini :: "nat \<Rightarrow> bool \<Rightarrow> hmode \<Rightarrow> (u8 list, bool) sem" where
  "syn_ini bufsz computeChksum initMode =
     bnd (hdr_ini_len bufsz False (if initMode = SET then 24 else 0)) (\<lambda>_.
       reading id (\<lambda>h.
         if initMode \<noteq> SET \<and> 24 \<noteq> bufsz \<and> 24 \<noteq> getHSize h
         then raise (BadHeader ''SYN must not have data'')
         else if initMode \<noteq> SET \<and> getVersn h \<noteq> RSSI_VERSION_1
         then raise (BadHeader ''Invalid Protocol Version'')
         else if computeChksum
         then (if initMode = SET then ret False else ret (cs h = 0))
         else ret True))"

lemmas hdr_field_defs = getFlags_def getHSize_def getSeqNo_def getAckNo_def
  setFlags_def setHSize_def setSeqNo_def setAckNo_def
  getXflgs_def getOssMX_def getSgsMX_def getRexTO_def getCakTO_def getNulTO_def
  getRexMX_def getCakMX_def getOsaMX_def getUnits_def getConID_def
  setXflgs_def setOssMX_def setSgsMX_def setRexTO_def setCakTO_def setNulTO_def
  setRexMX_def setCakMX_def setOsaMX_def setUnits_def setConID_def

lemma length_set_fields [simp]:
  "length (setFlags v h) = length h" "length (setHSize v h) = length h"
  "length (setSeqNo v h) = length h" "length (setAckNo v h) = length h"
  "length (setXflgs v h) = length h" "length (setVersn v h) = length h"
  "length (setOssMX v h) = length h" "length (setRexMX v h) = length h"
  "length (setCakMX v h) = length h" "length (setOsaMX v h) = length h"
  "length (setUnits v h) = length h" "length (setSgsMX w h) = length h"
  "length (setRexTO w h) = length h" "length (setCakTO w h) = length h"
  "length (setNulTO w h) = length h" "length (setConID d h) = length h"
  "length (setCheck w h) = length h" "length (writeChksum h) = length h"
  by (simp_all add: hdr_field_defs setVersn_def setCheck_def writeChksum_def Let_def)

section \<open>The checksum is a one's complement sum\<close>

definition hdr_word :: "u8 list \<Rightarrow> nat \<Rightarrow> nat" where
  "hdr_word h k = unat (ld16be h (2 * k))"

lemma hdr_word_le: "hdr_word h k \<le> 65535"
  using unat_bound [of "ld16be h (2 * k)"] by (simp add: hdr_word_def)

lemma cs_loop_sum:
  assumes "unat acc + 65535 * (n - j) < 2 ^ 32" and "j \<le> n"
  shows "unat (cs_loop h (2 * n) (2 * j) acc) = unat acc + (\<Sum>k = j..<n. hdr_word h k)"
  using assms
proof (induction "n - j" arbitrary: j acc)
  case 0
  then show ?case by (subst cs_loop.simps) simp
next
  case (Suc m)
  then have j: "j < n" and m: "m = n - Suc j" by simp_all
  let ?a = "acc + ucast (ld16be h (2 * j))"
  have "unat acc + hdr_word h j < 2 ^ 32"
    using Suc.prems(1) Suc.hyps(2) hdr_word_le [of h j] by (cases "n - j") auto
  then have a: "unat ?a = unat acc + hdr_word h j"
    by (simp add: unat_word_ariths hdr_word_def unsigned_ucast_eq take_bit_eq_mod)
  have "unat ?a + 65535 * (n - Suc j) < 2 ^ 32"
    using Suc.prems(1) Suc.hyps(2) hdr_word_le [of h j] m by (simp add: a)
  then have "unat (cs_loop h (2 * n) (2 * Suc j) ?a) = unat ?a + (\<Sum>k = Suc j..<n. hdr_word h k)"
    using Suc.hyps(1) [OF m, of ?a] j by simp
  then show ?case
    using j by (subst cs_loop.simps) (simp add: a sum.atLeast_Suc_lessThan)
qed

lemma cs_fold_spec:
  "unat (cs_fold x) \<le> 65535 \<and> unat (cs_fold x) mod 65535 = unat x mod 65535
    \<and> (cs_fold x = 0 \<longleftrightarrow> x = 0)"
proof (induction x rule: cs_fold.induct)
  case (1 x)
  show ?case
  proof (cases "0xffff < x")
    case False
    then have "unat x \<le> 65535" by (simp add: not_less word_le_nat_alt)
    with False show ?thesis by (subst (1 2 3) cs_fold.simps) simp
  next
    case True
    let ?y = "(x AND 0xffff) + drop_bit 16 x"
    have y: "unat ?y = unat x mod 65536 + unat x div 65536"
      by (rule carry_decreases(2) [OF True])
    have q: "unat x = 65536 * (unat x div 65536) + unat x mod 65536" by simp
    have "(65535 * (unat x div 65536) + unat ?y) mod 65535 = unat ?y mod 65535" by simp
    moreover have "65535 * (unat x div 65536) + unat ?y = unat x" using y q by linarith
    ultimately have m: "unat ?y mod 65535 = unat x mod 65535" by simp
    have "0 < unat x div 65536" using True by (simp add: word_less_nat_alt div_greater_zero_iff)
    then have "?y \<noteq> 0" using y by (metis add_is_0 not_gr_zero unat_0)
    with "1"[OF True] m True show ?thesis
      by (subst (1 2 3) cs_fold.simps) auto
  qed
qed

lemma unat_cs: "unat (cs h) = 65535 - unat (cs_fold (cs_loop h (unat (getHSize h)) 0 0))"
proof -
  let ?x = "cs_fold (cs_loop h (unat (getHSize h)) 0 0)"
  have m: "(0xffff :: u32) = mask 16" by (simp add: mask_eq_exp_minus_1)
  have "cs h = NOT (ucast ?x)"
    unfolding cs_def m by (rule bit_word_eqI) (auto simp: bit_simps)
  then have "cs h = - 1 - ucast ?x" by (simp add: not_eq_complement)
  moreover have "unat (ucast ?x :: u16) = unat ?x"
    using cs_fold_spec [of "cs_loop h (unat (getHSize h)) 0 0"]
    by (simp add: unsigned_ucast_eq take_bit_eq_mod)
  ultimately show ?thesis
    by (simp add: unat_compl unsigned_minus_1_eq_mask mask_eq_exp_minus_1)
qed

lemma cs_sum:
  assumes "unat (getHSize h) = 2 * n"
  shows "unat (cs_loop h (unat (getHSize h)) 0 0) = (\<Sum>k < n. hdr_word h k)"
proof -
  have "2 * n < 256" using unat_bound [of "getHSize h"] assms by simp
  then have "unat (cs_loop h (2 * n) (2 * 0) 0) = unat (0 :: u32) + (\<Sum>k = 0..<n. hdr_word h k)"
    by (intro cs_loop_sum) simp_all
  then show ?thesis using assms by (simp add: atLeast0LessThan)
qed

text \<open>The sum of the words decides the checksum: it is good iff the sum is positive and a
  multiple of 65535.\<close>

lemma cs_zero_iff:
  assumes "unat (getHSize h) = 2 * n"
  shows "cs h = 0 \<longleftrightarrow> 0 < (\<Sum>k < n. hdr_word h k) \<and> 65535 dvd (\<Sum>k < n. hdr_word h k)"
proof -
  let ?S = "cs_loop h (unat (getHSize h)) 0 0"
  have S: "unat ?S = (\<Sum>k < n. hdr_word h k)" by (rule cs_sum [OF assms])
  note f = cs_fold_spec [of ?S]
  have "cs h = 0 \<longleftrightarrow> unat (cs_fold ?S) = 65535"
    using f by (auto simp: unat_eq_0 [symmetric] unat_cs simp del: unat_eq_0)
  also have "\<dots> \<longleftrightarrow> ?S \<noteq> 0 \<and> unat ?S mod 65535 = 0"
  proof
    assume "unat (cs_fold ?S) = 65535"
    then show "?S \<noteq> 0 \<and> unat ?S mod 65535 = 0" using f by auto
  next
    assume a: "?S \<noteq> 0 \<and> unat ?S mod 65535 = 0"
    then have "unat (cs_fold ?S) \<noteq> 0" "65535 dvd unat (cs_fold ?S)"
      using f by (auto simp: unat_eq_0 dvd_eq_mod_eq_0)
    then show "unat (cs_fold ?S) = 65535" using f by (auto dest: dvd_imp_le)
  qed
  finally show ?thesis
    by (simp add: S [symmetric] dvd_eq_mod_eq_0 unat_gt_0)
qed

lemma hdr_word_st16be:
  assumes "2 * j + 2 \<le> length h"
  shows "hdr_word (st16be (2 * j) v h) k = (if k = j then unat v else hdr_word h k)"
proof (cases "k = j")
  case False
  then have "2 * k + 2 \<le> 2 * j \<or> 2 * j + 2 \<le> 2 * k" by linarith
  then have "ld16be (st16be (2 * j) v h) (2 * k) = ld16be h (2 * k)"
    by (intro ld16be_cong) (auto intro!: st16be_nth)
  with False show ?thesis by (simp add: hdr_word_def)
qed (use assms in \<open>simp add: hdr_word_def\<close>)

lemma getHSize_st16be [simp]: "2 \<le> off \<Longrightarrow> getHSize (st16be off v h) = getHSize h"
  by (simp add: getHSize_def st16be_nth)

lemma sum_one_word:
  assumes "j < (n :: nat)"
  shows "(\<Sum>k < n. if k = j then v else w k) + w j = (\<Sum>k < n. w k) + (v :: nat)"
proof -
  have "(\<Sum>k < n. if k = j then v else w k) = v + (\<Sum>k \<in> {..<n} - {j}. w k)"
    using assms by (subst sum.remove [of "{..<n}" j]) (auto intro!: sum.cong)
  moreover have "(\<Sum>k < n. w k) = w j + (\<Sum>k \<in> {..<n} - {j}. w k)"
    using assms by (simp add: sum.remove [of "{..<n}" j])
  ultimately show ?thesis by simp
qed

text \<open>A header written by \<^verbatim>\<open>writeChksum\<close> passes the check that the receiver makes.\<close>

lemma writeChksum_good:
  assumes hs: "unat (getHSize h) = 2 * n" and n: "2 \<le> n" and l: "2 * n \<le> length h"
  shows "cs (writeChksum h) = 0"
proof -
  obtain m where m: "n = Suc m" "0 < m" using n by (cases n) auto
  let ?z = "st16be (2 * m) 0 h"
  let ?h = "st16be (2 * m) (cs ?z) ?z"
  have w: "writeChksum h = ?h"
    using hs m by (simp add: writeChksum_def Let_def)
  have hz: "unat (getHSize ?z) = 2 * n" and hh: "unat (getHSize ?h) = 2 * n"
    using hs m by simp_all
  let ?S = "\<Sum>k < m. hdr_word h k"
  have sz: "(\<Sum>k < n. hdr_word ?z k) = ?S"
    using l m by (simp add: hdr_word_st16be)
  have sh: "(\<Sum>k < n. hdr_word ?h k) = ?S + unat (cs ?z)"
    using l m by (simp add: hdr_word_st16be)
  let ?F = "unat (cs_fold (cs_loop ?z (unat (getHSize ?z)) 0 0))"
  have c: "unat (cs ?z) = 65535 - ?F" by (rule unat_cs)
  have F: "?F \<le> 65535" "?F mod 65535 = ?S mod 65535" "?F = 0 \<longrightarrow> ?S = 0"
    using cs_fold_spec [of "cs_loop ?z (unat (getHSize ?z)) 0 0"] cs_sum [OF hz] sz
    by (auto simp: unat_eq_0)
  have "(?S + (65535 - ?F)) mod 65535 = (?F mod 65535 + (65535 - ?F)) mod 65535"
    by (simp only: F(2) mod_add_left_eq)
  also have "\<dots> = (?F + (65535 - ?F)) mod 65535" by (simp only: mod_add_left_eq)
  also have "\<dots> = 0" using F(1) by simp
  finally have "65535 dvd ?S + (65535 - ?F)" by (simp add: dvd_eq_mod_eq_0)
  moreover have "0 < ?S + (65535 - ?F)"
  proof (cases "?F = 65535")
    case True
    then have "?F \<noteq> 0" by simp
    have "cs_loop ?z (unat (getHSize ?z)) 0 0 \<noteq> 0"
      using cs_fold_spec [of "cs_loop ?z (unat (getHSize ?z)) 0 0"] \<open>?F \<noteq> 0\<close> by auto
    then have "unat (cs_loop ?z (unat (getHSize ?z)) 0 0) \<noteq> 0" by (simp only: unat_eq_0 not_False_eq_True)
    then have "?S \<noteq> 0" unfolding cs_sum [OF hz] sz by simp
    then show ?thesis by linarith
  next
    case False
    then show ?thesis using F(1) by linarith
  qed
  ultimately show ?thesis by (simp add: w cs_zero_iff [OF hh] sh c)
qed

text \<open>Changing one aligned word of a good header is detected, as long as the size of the header
  is the same, unless 0 and 0xffff (the two zeros of one's complement) are exchanged.\<close>

lemma cs_detects_word:
  assumes hs: "unat (getHSize h) = 2 * n" and l: "2 * n \<le> length h" and j: "j < n"
    and hs': "unat (getHSize (st16be (2 * j) v h)) = 2 * n" and good: "cs h = 0" and v: "v \<noteq> ld16be h (2 * j)"
    and nz: "v \<notin> {0, 0xffff} \<or> ld16be h (2 * j) \<notin> {0, 0xffff}"
  shows "cs (st16be (2 * j) v h) \<noteq> 0"
proof
  let ?h = "st16be (2 * j) v h"
  let ?S = "\<Sum>k < n. hdr_word h k" and ?S' = "\<Sum>k < n. hdr_word ?h k"
  assume "cs ?h = 0"
  then have d': "65535 dvd ?S'" by (simp add: cs_zero_iff [OF hs'])
  have d: "65535 dvd ?S" using good by (simp add: cs_zero_iff [OF hs])
  have "?S' + hdr_word h j = ?S + unat v"
    using sum_one_word [OF j, of "unat v" "hdr_word h"] l j by (simp add: hdr_word_st16be)
  then have "(?S' + hdr_word h j) mod 65535 = (?S + unat v) mod 65535" by simp
  then have e: "hdr_word h j mod 65535 = unat v mod 65535"
    using d d' by (metis add.left_neutral dvd_imp_mod_0 mod_add_left_eq)
  have ne: "hdr_word h j \<noteq> unat v" using v by (auto simp: hdr_word_def word_unat_eq_iff)
  have vle: "unat v \<le> 65535" using unat_bound [of v] by simp
  have "hdr_word h j \<in> {0, 65535} \<and> unat v \<in> {0, 65535}"
    using e ne vle hdr_word_le [of h j]
    by (metis insert_iff le_neq_implies_less mod_less mod_self)
  moreover have "unat (x :: u16) = 65535 \<longleftrightarrow> x = 0xffff" for x
    by (simp add: word_unat_eq_iff)
  ultimately show False
    using nz by (auto simp: hdr_word_def unat_eq_0)
qed

section \<open>The fields do not overlap\<close>

interpretation flagsF: byte_field 0 1 getFlags setFlags "\<lambda>_. True"
  unfolding getFlags_def setFlags_def by (rule byte_field_u8)

interpretation hsizeF: byte_field 1 1 getHSize setHSize "\<lambda>_. True"
  unfolding getHSize_def setHSize_def by (rule byte_field_u8)

interpretation seqnoF: byte_field 2 1 getSeqNo setSeqNo "\<lambda>_. True"
  unfolding getSeqNo_def setSeqNo_def by (rule byte_field_u8)

interpretation acknoF: byte_field 3 1 getAckNo setAckNo "\<lambda>_. True"
  unfolding getAckNo_def setAckNo_def by (rule byte_field_u8)

interpretation rextoF: byte_field 8 2 getRexTO setRexTO "\<lambda>_. True"
  unfolding getRexTO_def setRexTO_def by (rule byte_field_16be)

interpretation conidF: byte_field 18 4 getConID setConID "\<lambda>_. True"
  unfolding getConID_def setConID_def by (rule byte_field_32be)

interpretation flags_ackno: two_byte_fields 0 1 getFlags setFlags "\<lambda>_. True"
    3 1 getAckNo setAckNo "\<lambda>_. True"
  by unfold_locales simp

interpretation seqno_ackno: two_byte_fields 2 1 getSeqNo setSeqNo "\<lambda>_. True"
    3 1 getAckNo setAckNo "\<lambda>_. True"
  by unfold_locales simp

interpretation hsize_ackno: two_byte_fields 1 1 getHSize setHSize "\<lambda>_. True"
    3 1 getAckNo setAckNo "\<lambda>_. True"
  by unfold_locales simp

interpretation seqno_flags: two_byte_fields 2 1 getSeqNo setSeqNo "\<lambda>_. True"
    0 1 getFlags setFlags "\<lambda>_. True"
  by unfold_locales simp

interpretation hsize_flags: two_byte_fields 1 1 getHSize setHSize "\<lambda>_. True"
    0 1 getFlags setFlags "\<lambda>_. True"
  by unfold_locales simp

interpretation hsize_seqno: two_byte_fields 1 1 getHSize setHSize "\<lambda>_. True"
    2 1 getSeqNo setSeqNo "\<lambda>_. True"
  by unfold_locales simp

text \<open>\<^verbatim>\<open>writeChksum\<close> writes the last two bytes of the header only.\<close>

lemma writeChksum_nth:
  assumes "i + 2 < unat (getHSize h) \<or> unat (getHSize h) \<le> i" and "4 \<le> unat (getHSize h)"
  shows "writeChksum h ! i = h ! i"
proof -
  have "i < unat (getHSize h) - 2 \<or> (unat (getHSize h) - 2) + 2 \<le> i" using assms by auto
  then show ?thesis using assms(2) by (simp add: writeChksum_def Let_def st16be_nth)
qed

lemma writeChksum_fields:
  assumes "6 \<le> unat (getHSize h)"
  shows "getFlags (writeChksum h) = getFlags h" "getHSize (writeChksum h) = getHSize h"
    "getSeqNo (writeChksum h) = getSeqNo h" "getAckNo (writeChksum h) = getAckNo h"
  using assms by (auto simp: getFlags_def getHSize_def getSeqNo_def getAckNo_def
      writeChksum_nth [unfolded getHSize_def])

section \<open>A SYN header reads back as written\<close>

text \<open>The fields in the order in which \<^verbatim>\<open>CRssi::sendSYN\<close> writes them.\<close>

record syn_params =
  sp_flags :: u8
  sp_seqNo :: u8
  sp_xflgs :: u8
  sp_ossMX :: u8
  sp_sgsMX :: u16
  sp_osaMX :: u8
  sp_conID :: u32
  sp_rexTO :: u16
  sp_cakTO :: u16
  sp_nulTO :: u16
  sp_rexMX :: u8
  sp_cakMX :: u8
  sp_units :: u8

definition put_syn :: "syn_params \<Rightarrow> u8 list \<Rightarrow> u8 list" where
  "put_syn p h =
     setUnits (sp_units p) (setCakMX (sp_cakMX p) (setRexMX (sp_rexMX p)
    (setNulTO (sp_nulTO p) (setCakTO (sp_cakTO p) (setRexTO (sp_rexTO p)
    (setConID (sp_conID p) (setOsaMX (sp_osaMX p) (setSgsMX (sp_sgsMX p)
    (setOssMX (sp_ossMX p) (setVersn RSSI_VERSION_1 (setXflgs (sp_xflgs p)
    (setSeqNo (sp_seqNo p) (setFlags (sp_flags p) h)))))))))))))"

definition get_syn :: "u8 list \<Rightarrow> syn_params" where
  "get_syn h = \<lparr> sp_flags = getFlags h, sp_seqNo = getSeqNo h, sp_xflgs = getXflgs h AND 0xf,
     sp_ossMX = getOssMX h, sp_sgsMX = getSgsMX h, sp_osaMX = getOsaMX h, sp_conID = getConID h,
     sp_rexTO = getRexTO h, sp_cakTO = getCakTO h, sp_nulTO = getNulTO h,
     sp_rexMX = getRexMX h, sp_cakMX = getCakMX h, sp_units = getUnits h \<rparr>"

lemma length_put_syn [simp]: "length (put_syn p h) = length h"
  by (simp add: put_syn_def)

lemma versn_nibbles:
  assumes "y AND 15 = (y :: u8)"
  shows "(y OR 16) AND 15 = y" "drop_bit 4 (y OR 16) = 1"
proof -
  show "(y OR 16) AND 15 = y" by (simp add: word_ao_dist assms)
  have "drop_bit 4 y = drop_bit 4 (y AND 15)" by (simp add: assms)
  also have "\<dots> = 0" by (simp only: drop_bit_and) simp
  finally show "drop_bit 4 (y OR 16) = 1" by (simp add: drop_bit_or)
qed

lemma get_put_syn:
  assumes "24 \<le> length h" and "sp_xflgs p AND 0xf = sp_xflgs p"
  shows "get_syn (put_syn p h) = p \<and> getVersn (put_syn p h) = RSSI_VERSION_1"
proof -
  have [simp]: "h \<noteq> []" using assms(1) by auto
  have x: "getXflgs (put_syn p h) = sp_xflgs p OR 16"
    using assms by (simp add: put_syn_def hdr_field_defs setVersn_def Let_def st16be_nth
        st32be_def RSSI_VERSION_1_def)
  have "getVersn (put_syn p h) = RSSI_VERSION_1"
    by (simp only: getVersn_def x versn_nibbles(2) [OF assms(2)] RSSI_VERSION_1_def)
  moreover have "getXflgs (put_syn p h) AND 0xf = sp_xflgs p"
    by (simp add: x versn_nibbles(1) [OF assms(2)])
  moreover have "getFlags (put_syn p h) = sp_flags p" "getSeqNo (put_syn p h) = sp_seqNo p"
      "getOssMX (put_syn p h) = sp_ossMX p" "getSgsMX (put_syn p h) = sp_sgsMX p"
      "getOsaMX (put_syn p h) = sp_osaMX p" "getConID (put_syn p h) = sp_conID p"
      "getRexTO (put_syn p h) = sp_rexTO p" "getCakTO (put_syn p h) = sp_cakTO p"
      "getNulTO (put_syn p h) = sp_nulTO p" "getRexMX (put_syn p h) = sp_rexMX p"
      "getCakMX (put_syn p h) = sp_cakMX p" "getUnits (put_syn p h) = sp_units p"
    using assms(1) by (simp_all add: put_syn_def hdr_field_defs setVersn_def Let_def
        ld16be_def st16be_def ld32be_def st32be_def byte_eqs)
  ultimately show ?thesis by (simp add: get_syn_def)
qed

end
