(* ===== verification/Buf.thy ===== *)
theory Buf
  imports Prelude
begin

text \<open>
  Buffers and buffer chains as values (\<^verbatim>\<open>CBufImpl\<close>, \<^verbatim>\<open>CBufChainImpl\<close> of
  \<^verbatim>\<open>src/src/cpsw_buf.cc\<close>): a buffer is its memory \<^verbatim>\<open>data_\<close> with the two offsets
  \<^verbatim>\<open>beg_\<close> and \<^verbatim>\<open>end_\<close>; a chain is the list of its buffers from head to tail. The
  linked representation of a chain and its agreement with this one are in \<open>BufLinks\<close>.
  A payload pointer is its offset into \<^verbatim>\<open>data_\<close>.
\<close>

record buf =
  b_data :: "u8 list"
  b_beg :: nat
  b_end :: nat

definition HEADROOM :: nat where "HEADROOM = 32"
definition TAILROOM :: nat where "TAILROOM = 16"
definition CAPA_ETH_HDR :: nat where "CAPA_ETH_HDR = 128"

definition b_capa :: "buf \<Rightarrow> nat" where "b_capa b = length (b_data b)"
text \<open>\<^verbatim>\<open>size_t\<close> of a difference of \<^verbatim>\<open>unsigned short\<close>: a buffer whose end is before its begin
  has a huge size.\<close>

definition b_size :: "buf \<Rightarrow> nat" where
  "b_size b = (if b_beg b \<le> b_end b then b_end b - b_beg b else 2 ^ 64 - (b_beg b - b_end b))"
definition b_avail :: "buf \<Rightarrow> nat" where "b_avail b = b_capa b - b_end b"
definition b_headroom :: "buf \<Rightarrow> nat" where "b_headroom b = b_beg b"

text \<open>The memory from the payload pointer on, and the payload itself.\<close>

definition b_view :: "buf \<Rightarrow> u8 list" where "b_view b = drop (b_beg b) (b_data b)"
definition b_payload :: "buf \<Rightarrow> u8 list" where "b_payload b = take (b_size b) (b_view b)"

definition b_setView :: "u8 list \<Rightarrow> buf \<Rightarrow> buf" where
  "b_setView v b = b\<lparr>b_data := take (b_beg b) (b_data b) @ v\<rparr>"

definition b_ok :: "buf \<Rightarrow> bool" where
  "b_ok b \<longleftrightarrow> b_beg b \<le> b_end b \<and> b_end b \<le> b_capa b \<and> b_capa b \<le> 65535"

text \<open>A buffer from the free list: whatever its memory \<open>junk\<close> holds, empty.\<close>

definition b_fresh :: "u8 list \<Rightarrow> buf" where
  "b_fresh junk = \<lparr>b_data = junk, b_beg = HEADROOM, b_end = HEADROOM\<rparr>"

section \<open>Operations\<close>

definition b_setSize :: "nat \<Rightarrow> (buf, unit) sem" where
  "b_setSize s = reading id (\<lambda>b.
     let e = (b_beg b + s) mod 2 ^ 32 in
     if b_capa b < e then raise (InvalidArgError ''requested size too big'')
     else upd (\<lambda>b. b\<lparr>b_end := e\<rparr>))"

text \<open>\<open>None\<close> is the null pointer.\<close>

definition b_setPayload :: "int option \<Rightarrow> (buf, unit) sem" where
  "b_setPayload p = (case p of
     None \<Rightarrow> upd (\<lambda>b. b\<lparr>b_beg := 0\<rparr>)
   | Some q \<Rightarrow> reading b_capa (\<lambda>c.
       if q < 0 \<or> int c < q
       then raise (InvalidArgError ''requested payload pointer out of range'')
       else upd (\<lambda>b. b\<lparr>b_beg := nat q, b_end := max (nat q) (b_end b)\<rparr>)))"

definition b_adjPayload :: "int \<Rightarrow> (buf, bool) sem" where
  "b_adjPayload delta = reading id (\<lambda>b.
     if delta + int (b_beg b) < 0 \<or> int (b_end b) - int (b_beg b) < delta then ret False
     else andThen (upd (\<lambda>b. b\<lparr>b_beg := nat ((int (b_beg b) + delta) mod 2 ^ 16)\<rparr>)) (ret True))"

definition b_reinit :: "buf \<Rightarrow> buf" where
  "b_reinit b = b\<lparr>b_beg := HEADROOM, b_end := HEADROOM\<rparr>"

lemma length_view [simp]: "length (b_view b) = b_capa b - b_beg b"
  by (simp add: b_view_def b_capa_def)

lemma b_size_le_view: "b_ok b \<Longrightarrow> b_size b \<le> length (b_view b)"
  by (auto simp: b_ok_def b_size_def)

lemma length_payload [simp]: "b_ok b \<Longrightarrow> length (b_payload b) = b_size b"
  by (simp add: b_payload_def min_absorb2 b_size_le_view del: length_view)

lemma setView_fields [simp]:
  "b_beg (b_setView v b) = b_beg b" "b_end (b_setView v b) = b_end b"
  "b_size (b_setView v b) = b_size b"
  by (simp_all add: b_setView_def b_size_def)

lemma view_setView [simp]: "b_ok b \<Longrightarrow> b_view (b_setView v b) = v"
  by (auto simp: b_view_def b_setView_def b_ok_def b_capa_def)

lemma capa_setView [simp]:
  "b_ok b \<Longrightarrow> length v = length (b_view b) \<Longrightarrow> b_capa (b_setView v b) = b_capa b"
  by (auto simp: b_setView_def b_ok_def b_capa_def b_view_def)

lemma ok_setView [simp]: "b_ok b \<Longrightarrow> length v = length (b_view b) \<Longrightarrow> b_ok (b_setView v b)"
  by (simp add: b_ok_def del: length_view)

lemma b_setSize_ok: "b_ok b \<Longrightarrow> b_beg b + n < 2 ^ 32 \<Longrightarrow> b_setSize n b = (r, b') \<Longrightarrow> b_ok b'"
  by (auto simp: b_setSize_def Let_def sem_app b_ok_def b_capa_def split: if_splits)

section \<open>Chains\<close>

type_synonym chain = "buf list"

definition c_size :: "chain \<Rightarrow> nat" where "c_size c = sum_list (map b_size c)"
definition c_len :: "chain \<Rightarrow> nat" where "c_len c = length c"
definition c_bytes :: "chain \<Rightarrow> u8 list" where "c_bytes c = concat (map b_payload c)"
definition c_ok :: "chain \<Rightarrow> bool" where "c_ok c \<longleftrightarrow> (\<forall>b \<in> set c. b_ok b)"

lemma c_size_simps [simp]: "c_size [] = 0" "c_size (b # c) = b_size b + c_size c"
  "c_size (c @ d) = c_size c + c_size d"
  by (simp_all add: c_size_def)

lemma c_bytes_simps [simp]: "c_bytes [] = []" "c_bytes (b # c) = b_payload b @ c_bytes c"
  "c_bytes (c @ d) = c_bytes c @ c_bytes d"
  by (simp_all add: c_bytes_def)

lemma c_ok_simps [simp]: "c_ok []" "c_ok (b # c) \<longleftrightarrow> b_ok b \<and> c_ok c"
  "c_ok (c @ d) \<longleftrightarrow> c_ok c \<and> c_ok d"
  by (auto simp: c_ok_def)

lemma length_c_bytes: "c_ok c \<Longrightarrow> length (c_bytes c) = c_size c"
  by (induction c) auto

subsection \<open>extract\<close>

text \<open>The first loop of \<^verbatim>\<open>extract\<close> skips the buffers before the offset.\<close>

fun ex_skip :: "chain \<Rightarrow> nat \<Rightarrow> (chain \<times> nat) option" where
  "ex_skip [] off = None"
| "ex_skip (b # c) off =
     (if b_size b \<le> off then ex_skip c (off - b_size b) else Some (b # c, off))"

text \<open>The second loop copies; it runs once before it tests \<^verbatim>\<open>size > 0\<close>.\<close>

fun ex_copy :: "chain \<Rightarrow> nat \<Rightarrow> nat \<Rightarrow> u8 list" where
  "ex_copy [] off n = []"
| "ex_copy (b # c) off n =
     (let l = min (b_size b - off) n;
          now = take l (drop off (b_view b))
      in if 0 < n - l then now @ ex_copy c 0 (n - l) else now)"

text \<open>The bytes written to the destination; \<^verbatim>\<open>extract\<close> returns their number.\<close>

definition c_extract :: "chain \<Rightarrow> nat \<Rightarrow> nat \<Rightarrow> u8 list" where
  "c_extract c off n = (case ex_skip c off of None \<Rightarrow> [] | Some (d, o') \<Rightarrow> ex_copy d o' n)"

lemma ex_skip_spec:
  "c_ok c \<Longrightarrow> (case ex_skip c off of
      None \<Rightarrow> c_size c \<le> off
    | Some (d, o') \<Rightarrow> c_ok d \<and> d \<noteq> [] \<and> o' < b_size (hd d) \<and> drop o' (c_bytes d) = drop off (c_bytes c))"
  by (induction c off rule: ex_skip.induct) (auto split: option.splits)

lemma ex_copy_spec:
  "c_ok c \<Longrightarrow> c \<noteq> [] \<Longrightarrow> off \<le> b_size (hd c) \<Longrightarrow> ex_copy c off n = take n (drop off (c_bytes c))"
proof (induction c off n rule: ex_copy.induct)
  case (2 b c off n)
  let ?l = "min (b_size b - off) n"
  have ok: "b_ok b" "off \<le> b_size b" using "2.prems" by auto
  have now: "take ?l (drop off (b_view b)) = take n (drop off (b_payload b))"
    using ok by (simp add: b_payload_def drop_take min.commute)
  have len: "length (drop off (b_payload b)) = b_size b - off" using ok by simp
  show ?case
  proof (cases "0 < n - ?l")
    case True
    then have l: "?l = b_size b - off" "n - ?l = n - (b_size b - off)" by auto
    have "ex_copy c 0 (n - ?l) = take (n - ?l) (c_bytes c)"
    proof (cases c)
      case (Cons b' c')
      with "2.IH"[OF refl now [symmetric] True] "2.prems" show ?thesis by (simp del: ex_copy.simps)
    qed simp
    with True now l len ok show ?thesis by (simp add: Let_def)
  next
    case False
    then have "n \<le> b_size b - off" by auto
    with False now len ok show ?thesis by (simp add: Let_def)
  qed
qed simp

text \<open>\<^verbatim>\<open>extract\<close> copies the bytes of the chain from the offset on, as many as asked for or as
  there are, across the boundaries of the buffers.\<close>

lemma c_extract_bytes: "c_ok c \<Longrightarrow> c_extract c off n = take n (drop off (c_bytes c))"
proof -
  assume ok: "c_ok c"
  show ?thesis
  proof (cases "ex_skip c off")
    case None
    then have "c_size c \<le> off" using ex_skip_spec [OF ok, of off] by simp
    then show ?thesis using None ok by (simp add: c_extract_def length_c_bytes)
  next
    case (Some p)
    then obtain d o' where p: "ex_skip c off = Some (d, o')" by (cases p) auto
    then have d: "c_ok d" "d \<noteq> []" "o' < b_size (hd d)" "drop o' (c_bytes d) = drop off (c_bytes c)"
      using ex_skip_spec [OF ok, of off] by auto
    then show ?thesis by (simp add: c_extract_def p ex_copy_spec)
  qed
qed

lemma c_extract_bytes_witness:
  "c_extract [\<lparr>b_data = [1, 2, 3, 4], b_beg = 1, b_end = 3\<rparr>, \<lparr>b_data = [5, 6], b_beg = 0, b_end = 2\<rparr>] 1 5
     = [3, 5, 6]"
proof -
  have "c_ok [\<lparr>b_data = [1, 2, 3, 4], b_beg = 1, b_end = 3\<rparr>, \<lparr>b_data = [5, 6], b_beg = 0, b_end = 2\<rparr>]"
    by (simp add: b_ok_def b_capa_def)
  from c_extract_bytes [OF this] show ?thesis
    by (simp add: b_payload_def b_view_def b_size_def)
qed

end
