(* ===== verification/Bufq.thy ===== *)
theory Bufq
  imports Prelude
begin

text \<open>
  The buffer queue (\<^verbatim>\<open>CBufQueue\<close> of \<^verbatim>\<open>src/src/cpsw_bufq.cc\<close>) on the ring of
  \<^verbatim>\<open>src/src/cpsw_queue.h\<close>: two counting semaphores, for the filled and the free slots,
  guard a circular vector. The operations are modelled as one thread sees them, without
  blocking (\<^verbatim>\<open>tryPush\<close>, \<^verbatim>\<open>tryPop\<close>, or a timeout of zero). The interface of a bounded FIFO is
  the locale \<open>bounded_queue\<close>; the ring and the queue are its instances.
\<close>

section \<open>The interface\<close>

datatype 'a qop = QPush 'a | QPop

locale bounded_queue =
  fixes inv :: "'q \<Rightarrow> bool"
    and items :: "'q \<Rightarrow> 'a list"
    and room :: "'q \<Rightarrow> bool"
    and push :: "'a \<Rightarrow> ('q, bool) sem"
    and pop :: "('q, 'a option) sem"
  assumes push_room: "inv q \<Longrightarrow> room q \<Longrightarrow>
      \<exists>q'. push a q = (Inr True, q') \<and> inv q' \<and> items q' = items q @ [a]"
    and push_full: "inv q \<Longrightarrow> \<not> room q \<Longrightarrow> push a q = (Inr False, q)"
    and pop_items: "inv q \<Longrightarrow> items q \<noteq> [] \<Longrightarrow>
      \<exists>q'. pop q = (Inr (Some (hd (items q))), q') \<and> inv q' \<and> items q' = tl (items q)"
    and pop_empty: "inv q \<Longrightarrow> items q = [] \<Longrightarrow> pop q = (Inr None, q)"
begin

text \<open>Runs a sequence of operations; the lists hold what went in and what came out.\<close>

fun run :: "'a qop list \<Rightarrow> 'q \<Rightarrow> 'a list \<times> 'a list \<times> 'q" where
  "run [] q = ([], [], q)"
| "run (QPush a # ops) q =
     (case push a q of (r, q') \<Rightarrow> case run ops q' of (i, out, q'') \<Rightarrow>
        (if r = Inr True then a # i else i, out, q''))"
| "run (QPop # ops) q =
     (case pop q of (r, q') \<Rightarrow> case run ops q' of (i, out, q'') \<Rightarrow>
        (i, (case r of Inr (Some a) \<Rightarrow> a # out | _ \<Rightarrow> out), q''))"

lemma run_fifo:
  assumes "inv q" "run ops q = (i, out, q')"
  shows "inv q' \<and> items q @ i = out @ items q'"
  using assms
proof (induction ops arbitrary: q i out)
  case (Cons p ops)
  show ?case
  proof (cases p)
    case (QPush a)
    show ?thesis
    proof (cases "room q")
      case True
      then show ?thesis
        using Cons push_room [OF Cons.prems(1) True, of a] QPush
        by (fastforce split: prod.splits)
    next
      case False
      then show ?thesis
        using Cons push_full [OF Cons.prems(1) False, of a] QPush
        by (fastforce split: prod.splits)
    qed
  next
    case QPop
    show ?thesis
    proof (cases "items q")
      case Nil
      then show ?thesis
        using Cons pop_empty [OF Cons.prems(1) Nil] QPop
        by (fastforce split: prod.splits)
    next
      case (Cons x xs)
      then show ?thesis
        using Cons.IH Cons.prems pop_items [OF Cons.prems(1)] QPop
        by (fastforce split: prod.splits)
    qed
  qed
qed simp

end

section \<open>The ring of cpsw\_queue.h\<close>

record 'a fifo =
  f_buf :: "'a option list"
  f_rp :: nat
  f_wp :: nat
  f_fl :: nat
  f_sz :: nat

definition fifo_new :: "nat \<Rightarrow> 'a fifo" where
  "fifo_new n = \<lparr>f_buf = replicate n None, f_rp = 0, f_wp = 0, f_fl = 0, f_sz = n\<rparr>"

definition fifo_pop :: "('a fifo, 'a option) sem" where
  "fifo_pop f =
     (if f_fl f = 0 then (Inr None, f)
      else (Inr (f_buf f ! f_rp f),
            f\<lparr>f_rp := (if f_rp f + 1 = f_sz f then 0 else f_rp f + 1), f_fl := f_fl f - 1\<rparr>))"

definition fifo_push :: "'a \<Rightarrow> ('a fifo, bool) sem" where
  "fifo_push p f =
     (if f_fl f = f_sz f then (Inr False, f)
      else (Inr True,
            f\<lparr>f_buf := (f_buf f)[f_wp f := Some p],
              f_wp := (if f_wp f + 1 = f_sz f then 0 else f_wp f + 1), f_fl := f_fl f + 1\<rparr>))"

definition fifo_at :: "'a fifo \<Rightarrow> nat \<Rightarrow> 'a option" where
  "fifo_at f i = f_buf f ! ((f_rp f + i) mod f_sz f)"

definition fifo_ok :: "'a fifo \<Rightarrow> bool" where
  "fifo_ok f \<longleftrightarrow> length (f_buf f) = f_sz f \<and> f_fl f \<le> f_sz f
     \<and> (0 < f_sz f \<longrightarrow> f_rp f < f_sz f \<and> f_wp f = (f_rp f + f_fl f) mod f_sz f)
     \<and> (\<forall>i < f_fl f. fifo_at f i \<noteq> None)"

definition fifo_items :: "'a fifo \<Rightarrow> 'a list" where
  "fifo_items f = map (\<lambda>i. the (fifo_at f i)) [0..<f_fl f]"

definition fifo_room :: "'a fifo \<Rightarrow> bool" where
  "fifo_room f \<longleftrightarrow> f_fl f < f_sz f"

lemma fifo_items_length [simp]: "length (fifo_items f) = f_fl f"
  by (simp add: fifo_items_def)

lemma fifo_items_Nil [simp]: "fifo_items f = [] \<longleftrightarrow> f_fl f = 0"
  by (simp add: fifo_items_def)

lemma wrap_succ: "a < n \<Longrightarrow> (if a + 1 = n then 0 else a + 1) = (a + 1) mod (n :: nat)"
  by simp

lemma fifo_new_ok: "fifo_ok (fifo_new n) \<and> fifo_items (fifo_new n) = []"
  by (simp add: fifo_ok_def fifo_new_def fifo_items_def)

lemma fifo_pop_spec:
  assumes "fifo_ok f" "fifo_items f \<noteq> []"
  shows "\<exists>g. fifo_pop f = (Inr (Some (hd (fifo_items f))), g) \<and> fifo_ok g
    \<and> fifo_items g = tl (fifo_items f) \<and> f_fl g = f_fl f - 1 \<and> f_sz g = f_sz f"
proof -
  have fl: "0 < f_fl f" using assms(2) by (simp)
  have sz: "0 < f_sz f" "f_rp f < f_sz f" "f_wp f = (f_rp f + f_fl f) mod f_sz f"
    using assms(1) fl by (auto simp: fifo_ok_def)
  define g where "g = f\<lparr>f_rp := (f_rp f + 1) mod f_sz f, f_fl := f_fl f - 1\<rparr>"
  have at: "fifo_at g i = fifo_at f (Suc i)" for i
    by (simp add: fifo_at_def g_def mod_simps)
  have h: "f_buf f ! f_rp f = Some (hd (fifo_items f))"
  proof -
    have "fifo_at f 0 \<noteq> None" using assms(1) fl by (simp add: fifo_ok_def)
    moreover have "hd (fifo_items f) = the (fifo_at f 0)"
      using fl by (simp add: fifo_items_def hd_conv_nth del: upt_Suc)
    ultimately show ?thesis using sz(2) by (auto simp: fifo_at_def)
  qed
  have "f_wp g = (f_rp g + f_fl g) mod f_sz g"
  proof -
    have "((f_rp f + 1) mod f_sz f + (f_fl f - 1)) mod f_sz f = (f_rp f + 1 + (f_fl f - 1)) mod f_sz f"
      by (rule mod_add_left_eq)
    then show ?thesis using fl by (simp add: g_def sz(3))
  qed
  then have "fifo_ok g"
    using assms(1) sz fl by (auto simp: fifo_ok_def at) (simp_all add: g_def)
  moreover have "fifo_items g = tl (fifo_items f)"
  proof (rule nth_equalityI)
    fix i
    assume "i < length (fifo_items g)"
    then have i: "i < f_fl g" "Suc i < f_fl f" by (simp_all add: g_def)
    then have "fifo_items g ! i = the (fifo_at g i)" by (simp add: fifo_items_def)
    moreover have "tl (fifo_items f) ! i = fifo_items f ! Suc i" using i(2) by (simp add: nth_tl)
    ultimately show "fifo_items g ! i = tl (fifo_items f) ! i"
      using i(2) by (simp add: at) (simp add: fifo_items_def)
  qed (simp add: g_def)
  moreover have "fifo_pop f = (Inr (Some (hd (fifo_items f))), g)"
    using fl h by (simp only: fifo_pop_def wrap_succ [OF sz(2)] g_def) simp
  ultimately show ?thesis by (simp add: g_def)
qed

lemma fifo_push_spec:
  assumes "fifo_ok f" "fifo_room f"
  shows "\<exists>g. fifo_push a f = (Inr True, g) \<and> fifo_ok g \<and> fifo_items g = fifo_items f @ [a]
    \<and> f_fl g = f_fl f + 1 \<and> f_sz g = f_sz f"
proof -
  have sz: "0 < f_sz f" "f_rp f < f_sz f" "f_wp f = (f_rp f + f_fl f) mod f_sz f" "f_fl f < f_sz f"
      "length (f_buf f) = f_sz f"
    using assms by (auto simp: fifo_ok_def fifo_room_def)
  then have wp: "f_wp f < f_sz f" by simp
  define g where "g = f\<lparr>f_buf := (f_buf f)[f_wp f := Some a], f_wp := (f_wp f + 1) mod f_sz f,
      f_fl := f_fl f + 1\<rparr>"
  have at: "fifo_at g i = (if i = f_fl f then Some a else fifo_at f i)" if "i < f_sz f" for i
  proof (cases "i = f_fl f")
    case False
    then have "f_wp f \<noteq> (f_rp f + i) mod f_sz f" using mod_inj_window that sz(3,4) by metis
    then show ?thesis using False by (simp add: fifo_at_def g_def)
  qed (simp add: fifo_at_def g_def sz(3,5) sz(1))
  have gf: "f_fl g = f_fl f + 1" "f_sz g = f_sz f" "f_rp g = f_rp f" by (simp_all add: g_def)
  have "f_wp g = (f_rp g + f_fl g) mod f_sz g" by (simp add: g_def sz(3) mod_simps)
  moreover have "fifo_at g i \<noteq> None" if "i < f_fl g" for i
    using that at [of i] assms(1) sz(4) by (auto simp: gf fifo_ok_def)
  moreover have "length (f_buf g) = f_sz g" using sz(5) by (simp add: g_def)
  ultimately have "fifo_ok g" using sz gf by (simp add: fifo_ok_def)
  moreover have "fifo_items g = fifo_items f @ [a]"
  proof (rule nth_equalityI)
    fix i
    assume "i < length (fifo_items g)"
    then have "i < f_fl f + 1" by (simp add: gf)
    then show "fifo_items g ! i = (fifo_items f @ [a]) ! i"
      using at [of i] sz(4) by (cases "i = f_fl f") (simp_all add: fifo_items_def gf nth_append)
  qed (simp add: gf)
  moreover have "fifo_push a f = (Inr True, g)"
    using sz(4) by (simp only: fifo_push_def wrap_succ [OF wp] g_def) simp
  ultimately show ?thesis using gf by auto
qed

interpretation fifo: bounded_queue fifo_ok fifo_items fifo_room fifo_push fifo_pop
proof (unfold_locales, goal_cases)
  case (1 q a)
  from fifo_push_spec [OF this, of a] show ?case by auto
next
  case (2 q a)
  then show ?case by (auto simp: fifo_ok_def fifo_room_def fifo_push_def)
next
  case (3 q)
  from fifo_pop_spec [OF this] show ?case by auto
next
  case (4 q)
  then show ?case by (simp add: fifo_pop_def)
qed

section \<open>CEventBufSync and CBufQueue\<close>

record 'a bufq =
  q_n :: nat
  q_isUp :: bool
  q_rd :: int
  q_wr :: int
  q_fifo :: "'a fifo"

text \<open>\<^verbatim>\<open>getSlot\<close> that does not wait: the new count and whether a slot was free. When none is,
  the count goes down and up again.\<close>

definition getSlot :: "int \<Rightarrow> bool \<times> int" where
  "getSlot slots = (if 0 < slots then (True, slots - 1) else (False, slots - 1 + 1))"

definition putSlot :: "int \<Rightarrow> int" where
  "putSlot slots = slots + 1"

definition getAvailSlots :: "int \<Rightarrow> nat" where
  "getAvailSlots v = (if v \<le> 0 then 0 else nat v)"

definition bufq_create :: "nat \<Rightarrow> 'a bufq" where
  "bufq_create n = \<lparr>q_n = n, q_isUp = True, q_rd = 0, q_wr = int n, q_fifo = fifo_new n\<rparr>"

definition bufq_isFull :: "'a bufq \<Rightarrow> bool" where
  "bufq_isFull q \<longleftrightarrow> getAvailSlots (q_wr q) = 0"

definition bufq_isEmpty :: "'a bufq \<Rightarrow> bool" where
  "bufq_isEmpty q \<longleftrightarrow> getAvailSlots (q_rd q) = 0"

definition tryPush :: "'a \<Rightarrow> ('a bufq, bool) sem" where
  "tryPush b q =
     (case getSlot (q_wr q) of
        (False, w) \<Rightarrow> (Inr False, q\<lparr>q_wr := w\<rparr>)
      | (True, w) \<Rightarrow>
          (case fifo_push b (q_fifo q) of
             (Inr True, f) \<Rightarrow> (Inr True, q\<lparr>q_wr := w, q_fifo := f, q_rd := putSlot (q_rd q)\<rparr>)
           | (_, f) \<Rightarrow> (Inl (InternalError ''Queue inconsistency???''),
                       q\<lparr>q_wr := putSlot w, q_fifo := f\<rparr>)))"

definition tryPop :: "('a bufq, 'a option) sem" where
  "tryPop q =
     (case getSlot (q_rd q) of
        (False, r) \<Rightarrow> (Inr None, q\<lparr>q_rd := r\<rparr>)
      | (True, r) \<Rightarrow>
          (case fifo_pop (q_fifo q) of
             (Inr (Some b), f) \<Rightarrow> (Inr (Some b), q\<lparr>q_rd := r, q_fifo := f, q_wr := putSlot (q_wr q)\<rparr>)
           | (_, f) \<Rightarrow> (Inl (InternalError ''FATAL ERROR -- unable to pop even though we decremented the semaphore?''),
                       q\<lparr>q_rd := r, q_fifo := f\<rparr>)))"

text \<open>The loops of \<^verbatim>\<open>shutdown\<close>: eat up writer slots; pop until nothing is left; until all
  slots have been eaten.\<close>

function eat_wr :: "nat \<Rightarrow> int \<Rightarrow> nat \<times> int" where
  "eat_wr wi wr =
     (if fst (getSlot wr) then eat_wr (wi + 1) (snd (getSlot wr)) else (wi, snd (getSlot wr)))"
  by pat_completeness auto
termination
  by (relation "measure (\<lambda>(wi, wr). nat wr)") (auto simp: getSlot_def split: if_splits)

declare eat_wr.simps [simp del]

function pop_all :: "('a bufq, unit) sem" where
  "pop_all q =
     (case tryPop q of
        (Inr (Some b), q') \<Rightarrow> pop_all q'
      | (Inr None, q') \<Rightarrow> (Inr (), q')
      | (Inl e, q') \<Rightarrow> (Inl e, q'))"
  by pat_completeness auto
termination
  by (relation "measure (\<lambda>q. nat (q_rd q))")
    (auto simp: tryPop_def getSlot_def split: if_splits sum.splits option.splits prod.splits)

declare pop_all.simps [simp del]

partial_function (option) shutdown_loop :: "nat \<Rightarrow> 'a bufq \<Rightarrow> ((exn + unit) \<times> 'a bufq) option" where
  "shutdown_loop wi q =
     (if wi < q_n q
      then (case eat_wr wi (q_wr q) of (wi', w) \<Rightarrow>
              (case pop_all (q\<lparr>q_wr := w\<rparr>) of
                 (Inl e, q') \<Rightarrow> Some (Inl e, q')
               | (Inr _, q') \<Rightarrow> shutdown_loop wi' q'))
      else Some (Inr (), q))"

declare shutdown_loop.simps [code]

text \<open>A \<^verbatim>\<open>shutdown\<close> that spins for ever is \<open>None\<close>.\<close>

definition bufq_shutdown :: "'a bufq \<Rightarrow> ((exn + unit) \<times> 'a bufq) option" where
  "bufq_shutdown q =
     (if \<not> q_isUp q then Some (Inr (), q) else shutdown_loop 0 (q\<lparr>q_isUp := False\<rparr>))"

definition bufq_startup :: "'a bufq \<Rightarrow> 'a bufq" where
  "bufq_startup q =
     (if q_isUp q then q
      else q\<lparr>q_isUp := True, q_wr := (putSlot ^^ q_n q) (q_wr q)\<rparr>)"

text \<open>The semaphores count the filled and the free slots; a queue that is shut down is empty
  and has no free slot.\<close>

definition bufq_ok :: "'a bufq \<Rightarrow> bool" where
  "bufq_ok q \<longleftrightarrow> fifo_ok (q_fifo q) \<and> f_sz (q_fifo q) = q_n q \<and> q_rd q = int (f_fl (q_fifo q))
     \<and> q_wr q = (if q_isUp q then int (q_n q) - int (f_fl (q_fifo q)) else 0)
     \<and> (\<not> q_isUp q \<longrightarrow> f_fl (q_fifo q) = 0)"

definition bufq_items :: "'a bufq \<Rightarrow> 'a list" where
  "bufq_items q = fifo_items (q_fifo q)"

lemma bufq_items_Nil [simp]: "bufq_items q = [] \<longleftrightarrow> f_fl (q_fifo q) = 0"
  by (simp add: bufq_items_def)

lemma bufq_create_ok: "bufq_ok (bufq_create n) \<and> bufq_items (bufq_create n) = []"
  using fifo_new_ok [of n]
  by (simp add: bufq_ok_def bufq_create_def bufq_items_def) (simp add: fifo_new_def)

lemma bufq_isEmpty_items: "bufq_ok q \<Longrightarrow> bufq_isEmpty q \<longleftrightarrow> bufq_items q = []"
  by (simp add: bufq_isEmpty_def getAvailSlots_def bufq_ok_def bufq_items_def)

lemma bufq_isFull_items:
  "bufq_ok q \<Longrightarrow> bufq_isFull q \<longleftrightarrow> \<not> q_isUp q \<or> length (bufq_items q) = q_n q"
  by (auto simp: bufq_isFull_def getAvailSlots_def bufq_ok_def bufq_items_def fifo_ok_def)

lemma tryPush_full: "bufq_ok q \<Longrightarrow> bufq_isFull q \<Longrightarrow> tryPush a q = (Inr False, q)"
  by (auto simp: bufq_isFull_def getAvailSlots_def tryPush_def getSlot_def split: if_splits)

lemma tryPush_room:
  assumes "bufq_ok q" "\<not> bufq_isFull q"
  shows "\<exists>q'. tryPush a q = (Inr True, q') \<and> bufq_ok q' \<and> bufq_items q' = bufq_items q @ [a]
    \<and> q_n q' = q_n q \<and> q_isUp q' = q_isUp q"
proof -
  have up: "q_isUp q" "0 < q_wr q"
    using assms by (auto simp: bufq_isFull_def getAvailSlots_def bufq_ok_def split: if_splits)
  then have "fifo_room (q_fifo q)" "fifo_ok (q_fifo q)"
    using assms(1) by (auto simp: bufq_ok_def fifo_room_def)
  from fifo_push_spec [OF this(2,1), of a] obtain g where g: "fifo_push a (q_fifo q) = (Inr True, g)"
      "fifo_ok g" "fifo_items g = fifo_items (q_fifo q) @ [a]" "f_fl g = f_fl (q_fifo q) + 1"
      "f_sz g = f_sz (q_fifo q)"
    by auto
  then show ?thesis
    using up assms(1) by (simp add: tryPush_def getSlot_def putSlot_def bufq_ok_def bufq_items_def)
qed

lemma tryPop_empty: "bufq_ok q \<Longrightarrow> bufq_items q = [] \<Longrightarrow> tryPop q = (Inr None, q)"
  by (simp add: tryPop_def getSlot_def bufq_ok_def bufq_items_def)

lemma tryPop_fifo:
  assumes "fifo_ok (q_fifo q)" "q_rd q = int (f_fl (q_fifo q))" "bufq_items q \<noteq> []"
  shows "\<exists>g. tryPop q = (Inr (Some (hd (bufq_items q))),
            q\<lparr>q_rd := q_rd q - 1, q_fifo := g, q_wr := q_wr q + 1\<rparr>)
    \<and> fifo_ok g \<and> fifo_items g = tl (bufq_items q) \<and> f_fl g = f_fl (q_fifo q) - 1
    \<and> f_sz g = f_sz (q_fifo q)"
proof -
  have "0 < f_fl (q_fifo q)" using assms(3) by (simp add: bufq_items_def)
  then show ?thesis
    using fifo_pop_spec [OF assms(1)] assms(2,3)
    by (auto simp: bufq_items_def tryPop_def getSlot_def putSlot_def)
qed

lemma tryPop_items:
  assumes "bufq_ok q" "bufq_items q \<noteq> []"
  shows "\<exists>q'. tryPop q = (Inr (Some (hd (bufq_items q))), q') \<and> bufq_ok q'
    \<and> bufq_items q' = tl (bufq_items q) \<and> q_n q' = q_n q \<and> q_isUp q' = q_isUp q"
proof -
  have f: "fifo_ok (q_fifo q)" "q_rd q = int (f_fl (q_fifo q))" using assms(1) by (auto simp: bufq_ok_def)
  have "0 < f_fl (q_fifo q)" using assms(2) by (simp add: bufq_items_def)
  with tryPop_fifo [OF f assms(2)] assms show ?thesis
    by (auto simp: bufq_ok_def bufq_items_def)
qed

interpretation bufq: bounded_queue bufq_ok bufq_items "\<lambda>q. \<not> bufq_isFull q" tryPush tryPop
proof (unfold_locales, goal_cases)
  case (1 q a)
  from tryPush_room [OF this, of a] show ?case by auto
next
  case (2 q a)
  then show ?case by (simp add: tryPush_full)
next
  case (3 q)
  from tryPop_items [OF this] show ?case by auto
next
  case (4 q)
  then show ?case by (rule tryPop_empty)
qed

section \<open>shutdown returns and leaves the queue empty\<close>

text \<open>A sequence of operations on a queue: what went in, what came out, and the queue after.\<close>

fun queue_run :: "'a qop list \<Rightarrow> 'a bufq \<Rightarrow> 'a list \<times> 'a list \<times> 'a bufq" where
  "queue_run [] q = ([], [], q)"
| "queue_run (QPush a # ops) q =
     (case tryPush a q of (r, q') \<Rightarrow> case queue_run ops q' of (i, out, q'') \<Rightarrow>
        (if r = Inr True then a # i else i, out, q''))"
| "queue_run (QPop # ops) q =
     (case tryPop q of (r, q') \<Rightarrow> case queue_run ops q' of (i, out, q'') \<Rightarrow>
        (i, (case r of Inr (Some a) \<Rightarrow> a # out | _ \<Rightarrow> out), q''))"

lemma queue_run_eq: "queue_run ops q = bufq.run ops q"
  by (induction ops q rule: queue_run.induct) (auto split: prod.splits sum.splits option.splits)

lemma eat_wr_eq: "eat_wr wi w = (wi + nat w, min w 0)"
proof (induction wi w rule: eat_wr.induct)
  case (1 wi w)
  show ?case
  proof (cases "0 < w")
    case True
    then have "eat_wr wi w = (wi + 1 + nat (w - 1), min (w - 1) 0)"
      using 1 by (subst eat_wr.simps) (simp add: getSlot_def)
    then show ?thesis using True by simp
  qed (subst eat_wr.simps, simp add: getSlot_def)
qed

lemma pop_all_eq:
  assumes "fifo_ok (q_fifo q)" "q_rd q = int (f_fl (q_fifo q))"
  shows "\<exists>g. pop_all q = (Inr (), q\<lparr>q_rd := 0, q_fifo := g,
            q_wr := q_wr q + int (f_fl (q_fifo q))\<rparr>)
    \<and> fifo_ok g \<and> f_fl g = 0 \<and> f_sz g = f_sz (q_fifo q)"
  using assms
proof (induction "f_fl (q_fifo q)" arbitrary: q)
  case 0
  then have "tryPop q = (Inr None, q)" by (simp add: tryPop_def getSlot_def del: One_nat_def)
  with 0 show ?case by (subst pop_all.simps) (auto intro!: exI [of _ "q_fifo q"])
next
  case (Suc n)
  have ne: "bufq_items q \<noteq> []"
    using Suc.hyps(2) by (simp add: bufq_items_def)
  from tryPop_fifo [OF Suc.prems ne] obtain g where g:
      "tryPop q = (Inr (Some (hd (bufq_items q))), q\<lparr>q_rd := q_rd q - 1, q_fifo := g, q_wr := q_wr q + 1\<rparr>)"
      "fifo_ok g" "f_fl g = n" "f_sz g = f_sz (q_fifo q)"
    using Suc.hyps(2) by auto
  let ?q = "q\<lparr>q_rd := q_rd q - 1, q_fifo := g, q_wr := q_wr q + 1\<rparr>"
  have "q_rd ?q = int (f_fl (q_fifo ?q))" using g(3) Suc.prems(2) Suc.hyps(2) by simp
  with Suc.hyps(1) [of ?q] g obtain h where h: "pop_all ?q = (Inr (), ?q\<lparr>q_rd := 0, q_fifo := h,
        q_wr := q_wr ?q + int n\<rparr>)" "fifo_ok h" "f_fl h = 0" "f_sz h = f_sz (q_fifo q)"
    by auto
  moreover have "pop_all q = pop_all ?q" by (subst pop_all.simps) (simp add: g(1))
  moreover have "f_fl (q_fifo q) = Suc n" using Suc.hyps(2) by simp
  ultimately show ?case by (auto intro!: exI [of _ h])
qed

lemma shutdown_spec:
  assumes "bufq_ok q"
  shows "\<exists>q'. bufq_shutdown q = Some (Inr (), q') \<and> bufq_ok q' \<and> \<not> q_isUp q'
    \<and> bufq_items q' = [] \<and> q_n q' = q_n q"
proof (cases "q_isUp q")
  case False
  then show ?thesis
    using assms by (auto simp: bufq_shutdown_def bufq_ok_def bufq_items_def)
next
  case True
  let ?n = "q_n q" and ?l = "f_fl (q_fifo q)"
  have ok: "fifo_ok (q_fifo q)" "q_rd q = int ?l" "q_wr q = int ?n - int ?l" "f_sz (q_fifo q) = ?n" "?l \<le> ?n"
    using assms True by (auto simp: bufq_ok_def fifo_ok_def)
  let ?q = "q\<lparr>q_isUp := False\<rparr>"
  let ?z = "q\<lparr>q_isUp := False, q_wr := 0\<rparr>"
  from pop_all_eq [of ?z] ok obtain g where g: "pop_all ?z = (Inr (), ?z\<lparr>q_rd := 0, q_fifo := g,
      q_wr := int ?l\<rparr>)" "fifo_ok g" "f_fl g = 0" "f_sz g = ?n" by auto
  let ?q1 = "?z\<lparr>q_rd := 0, q_fifo := g, q_wr := int ?l\<rparr>"
  let ?q2 = "?q1\<lparr>q_wr := 0\<rparr>"
  have e2: "pop_all ?q2 = (Inr (), ?q2)"
    by (subst pop_all.simps) (simp add: tryPop_def getSlot_def)
  have s2: "shutdown_loop (?n - ?l) ?q1 = Some (Inr (), if ?l = 0 then ?q1 else ?q2)"
  proof (cases "?l = 0")
    case True
    then show ?thesis by (subst shutdown_loop.simps) simp
  next
    case False
    have "eat_wr (?n - ?l) (int ?l) = (?n, 0)" using ok(5) by (simp add: eat_wr_eq)
    then have "shutdown_loop (?n - ?l) ?q1 = shutdown_loop ?n ?q2"
      using False e2 ok(5) by (subst shutdown_loop.simps) (simp add: less_imp_diff_less)
    then show ?thesis using False by (subst (asm) (2) shutdown_loop.simps) simp
  qed
  have "\<exists>q'. shutdown_loop 0 ?q = Some (Inr (), q') \<and> bufq_ok q' \<and> \<not> q_isUp q'
      \<and> bufq_items q' = [] \<and> q_n q' = ?n"
  proof (cases "?n = 0")
    case True
    then show ?thesis
      using ok assms
      by (subst shutdown_loop.simps) (auto simp: bufq_ok_def bufq_items_def)
  next
    case False
    have "q_wr ?q = int (?n - ?l)" using ok(3) ok(5) by (simp add: of_nat_diff)
    then have "eat_wr 0 (q_wr ?q) = (?n - ?l, 0)"
      unfolding eat_wr_eq by (simp only:) simp
    then have "shutdown_loop 0 ?q = Some (Inr (), if ?l = 0 then ?q1 else ?q2)"
      using False g(1) s2 by (subst shutdown_loop.simps) simp
    then show ?thesis using g ok by (auto simp: bufq_ok_def bufq_items_def)
  qed
  then show ?thesis using True by (simp add: bufq_shutdown_def)
qed

lemma putSlot_pow: "(putSlot ^^ n) w = w + int n"
  by (induction n) (simp_all add: putSlot_def)

lemma startup_spec:
  assumes "bufq_ok q"
  shows "bufq_ok (bufq_startup q) \<and> q_isUp (bufq_startup q) \<and> q_n (bufq_startup q) = q_n q
    \<and> bufq_items (bufq_startup q) = bufq_items q"
  using assms by (auto simp: bufq_ok_def bufq_startup_def putSlot_pow bufq_items_def)

lemma tryPush_ok: "bufq_ok q \<Longrightarrow> bufq_ok (snd (tryPush a q))"
  using tryPush_full [of q a] tryPush_room [of q a] by (cases "bufq_isFull q") auto

lemma tryPop_ok: "bufq_ok q \<Longrightarrow> bufq_ok (snd (tryPop q))"
  using tryPop_empty [of q] tryPop_items [of q] by (cases "bufq_items q = []") auto

end
