(* ===== verification/RssiTimer.thy ===== *)
theory RssiTimer
  imports Timeout
begin

text \<open>
  The RSSI timers (\<^verbatim>\<open>src/src/cpsw_rssi_timer.h\<close>): a doubly linked list, headed by the
  \<^verbatim>\<open>RssiTimerList\<close> element, of the armed timers. The model is the list of the armed timers
  behind the head with their expiration times; a timer is named by its kind.
\<close>

datatype timer_id = RexT | AckT | NulT

type_synonym timers = "(timer_id \<times> timeout) list"

definition timer_cancel :: "timer_id \<Rightarrow> timers \<Rightarrow> timers" where
  "timer_cancel t ts = filter (\<lambda>p. fst p \<noteq> t) ts"

text \<open>The loop of \<^verbatim>\<open>arm_abs\<close>: insert before the first element that expires later, or at the end.\<close>

fun timer_insert :: "timer_id \<Rightarrow> timeout \<Rightarrow> timers \<Rightarrow> timers" where
  "timer_insert t e [] = [(t, e)]"
| "timer_insert t e (p # ts) = (if e < snd p then (t, e) # p # ts else p # timer_insert t e ts)"

definition timer_arm_abs :: "timer_id \<Rightarrow> timeout \<Rightarrow> timers \<Rightarrow> timers" where
  "timer_arm_abs t e ts = timer_insert t e (timer_cancel t ts)"

text \<open>\<open>now\<close> is what \<^verbatim>\<open>clock_gettime\<close> returns.\<close>

definition timer_arm_rel :: "timeout \<Rightarrow> timer_id \<Rightarrow> timeout \<Rightarrow> timers \<Rightarrow> timers" where
  "timer_arm_rel now t e ts = timer_arm_abs t (to_add now e) ts"

definition timer_isArmed :: "timer_id \<Rightarrow> timers \<Rightarrow> bool" where
  "timer_isArmed t ts \<longleftrightarrow> t \<in> fst ` set ts"

definition timer_first :: "timers \<Rightarrow> (timer_id \<times> timeout) option" where
  "timer_first ts = (case ts of [] \<Rightarrow> None | p # _ \<Rightarrow> Some p)"

section \<open>The list is sorted and names each timer once\<close>

definition timers_ok :: "timers \<Rightarrow> bool" where
  "timers_ok ts \<longleftrightarrow> sorted (map snd ts) \<and> distinct (map fst ts)"

lemma timers_ok_Nil [simp]: "timers_ok []"
  by (simp add: timers_ok_def)

lemma set_timer_cancel [simp]: "set (timer_cancel t ts) = {p \<in> set ts. fst p \<noteq> t}"
  by (auto simp: timer_cancel_def)

lemma set_timer_insert [simp]: "set (timer_insert t e ts) = insert (t, e) (set ts)"
  by (induction ts) auto

lemma set_timer_arm_abs: "set (timer_arm_abs t e ts) = insert (t, e) {p \<in> set ts. fst p \<noteq> t}"
  by (simp add: timer_arm_abs_def)

lemma timers_ok_cancel [simp]: "timers_ok ts \<Longrightarrow> timers_ok (timer_cancel t ts)"
  by (auto simp: timers_ok_def timer_cancel_def intro: sorted_filter distinct_map_filter)

lemma timers_ok_insert:
  "timers_ok ts \<Longrightarrow> t \<notin> fst ` set ts \<Longrightarrow> timers_ok (timer_insert t e ts)"
proof (induction ts)
  case (Cons p ts)
  then show ?case
    by (force simp: timers_ok_def)
qed (simp add: timers_ok_def)

lemma timers_ok_arm_abs [simp]: "timers_ok ts \<Longrightarrow> timers_ok (timer_arm_abs t e ts)"
  unfolding timer_arm_abs_def by (rule timers_ok_insert) auto

lemma timers_ok_arm_rel [simp]: "timers_ok ts \<Longrightarrow> timers_ok (timer_arm_rel n t e ts)"
  by (simp add: timer_arm_rel_def)

lemma armed_cancel: "timer_isArmed u (timer_cancel t ts) \<longleftrightarrow> u \<noteq> t \<and> timer_isArmed u ts"
  by (auto simp: timer_isArmed_def)

lemma armed_arm_abs: "timer_isArmed u (timer_arm_abs t e ts) \<longleftrightarrow> u = t \<or> timer_isArmed u ts"
  by (force simp: timer_isArmed_def set_timer_arm_abs image_iff)

lemma armed_arm_rel: "timer_isArmed u (timer_arm_rel n t e ts) \<longleftrightarrow> u = t \<or> timer_isArmed u ts"
  by (simp add: timer_arm_rel_def armed_arm_abs)

lemma not_armed_Nil [simp]: "\<not> timer_isArmed t []"
  by (simp add: timer_isArmed_def)

lemma timer_first_least:
  "timers_ok ts \<Longrightarrow> timer_first ts = Some (t, e) \<Longrightarrow> (t, e) \<in> set ts \<and> (\<forall>(u, x) \<in> set ts. e \<le> x)"
  by (cases ts) (auto simp: timers_ok_def timer_first_def)

lemma timer_first_None: "timer_first ts = None \<longleftrightarrow> ts = []"
  by (cases ts) (simp_all add: timer_first_def)

lemmas timer_armed_eqs = armed_cancel armed_arm_abs armed_arm_rel

end
