(* ===== verification/RssiWindow.thy ===== *)
theory RssiWindow
  imports Prelude
begin

text \<open>
  The two windows of an RSSI connection (\<^verbatim>\<open>CRssi::BufBase\<close>, \<^verbatim>\<open>RingBuf\<close> and
  \<^verbatim>\<open>ReassembleBuf\<close> in \<^verbatim>\<open>src/src/cpsw_rssi.h\<close>): the ring of the segments sent and not yet
  acknowledged, and the buffer that puts received segments in order. Read and write
  positions are free running 32-bit counters, masked on access; sequence numbers are 8
  bits wide. A slot holds a chain (type \<open>'a\<close>) or is empty.
\<close>

record 'a winbase =
  w_capa :: nat
  w_buf :: "'a option list"
  w_rp :: u32
  w_msk :: u32
  w_oldest :: u8

record 'a ring = "'a winbase" +
  w_wp :: u32

record 'a reasm = "'a winbase" +
  w_lim :: u8

section \<open>BufBase\<close>

definition nxtSeqNo :: "u8 \<Rightarrow> u8" where
  "nxtSeqNo s = s + 1"

definition win_pop :: "('a, 'b) winbase_scheme \<Rightarrow> 'a option \<times> ('a, 'b) winbase_scheme" where
  "win_pop w =
     (let i = unat (w_rp w AND w_msk w);
          rval = w_buf w ! i;
          w1 = w\<lparr>w_buf := (w_buf w)[i := None]\<rparr>
      in (rval, if rval \<noteq> None
                then w1\<lparr>w_rp := w_rp w + 1, w_oldest := nxtSeqNo (w_oldest w)\<rparr> else w1))"

definition win_peek :: "('a, 'b) winbase_scheme \<Rightarrow> 'a option" where
  "win_peek w = w_buf w ! unat (w_rp w AND w_msk w)"

definition win_seed :: "u8 \<Rightarrow> ('a, 'b) winbase_scheme \<Rightarrow> ('a, 'b) winbase_scheme" where
  "win_seed s w = w\<lparr>w_oldest := s\<rparr>"

text \<open>\<^verbatim>\<open>purge\<close>: \<^verbatim>\<open>while (pop())\<close>; \<open>None\<close> is a loop that does not end.\<close>

partial_function (option) win_purge ::
    "('a, 'b) winbase_scheme \<Rightarrow> ('a, 'b) winbase_scheme option" where
  "win_purge w =
     (case win_pop w of (rval, w') \<Rightarrow> if rval \<noteq> None then win_purge w' else Some w')"

declare win_purge.simps [code]

section \<open>RingBuf\<close>

definition ring_new :: "nat \<Rightarrow> u8 \<Rightarrow> 'a ring" where
  "ring_new ldsz old = \<lparr>w_capa = 2 ^ ldsz, w_buf = replicate (2 ^ ldsz) None, w_rp = 0,
     w_msk = of_nat (2 ^ ldsz) - 1, w_oldest = old, w_wp = 0\<rparr>"

definition ring_size :: "'a ring \<Rightarrow> nat" where
  "ring_size r = unat (w_wp r - w_rp r)"

text \<open>\<^verbatim>\<open>ack\<close>: the number of segments acknowledged, or -1 for a number outside of the window.\<close>

definition ring_ack :: "u8 \<Rightarrow> 'a ring \<Rightarrow> int \<times> 'a ring" where
  "ring_ack ackNo r =
     (let cumAck = unat (ackNo - w_oldest r + 1)
      in if ring_size r < cumAck then (-1, r)
         else (int cumAck, ((\<lambda>r. snd (win_pop r)) ^^ cumAck) r))"

definition ring_push :: "'a option \<Rightarrow> 'a ring \<Rightarrow> exn + 'a ring" where
  "ring_push b r =
     (if w_capa r < ring_size r then Inl (InternalError ''RingBuf Overflow'')
      else Inr (r\<lparr>w_buf := (w_buf r)[unat (w_wp r AND w_msk r) := b], w_wp := w_wp r + 1\<rparr>))"

fun ring_push_all :: "'a option list \<Rightarrow> 'a ring \<Rightarrow> exn + 'a ring" where
  "ring_push_all [] r = Inr r"
| "ring_push_all (b # bs) r =
     (case ring_push b r of Inl e \<Rightarrow> Inl e | Inr r' \<Rightarrow> ring_push_all bs r')"

text \<open>\<^verbatim>\<open>for ( i=0; i<sz; i++ ) tmp[i] = pop();\<close>\<close>

fun win_pop_n :: "nat \<Rightarrow> ('a, 'b) winbase_scheme \<Rightarrow> 'a option list \<times> ('a, 'b) winbase_scheme" where
  "win_pop_n 0 w = ([], w)"
| "win_pop_n (Suc n) w =
     (case win_pop w of (b, w1) \<Rightarrow> case win_pop_n n w1 of (bs, w2) \<Rightarrow> (b # bs, w2))"

text \<open>\<^verbatim>\<open>for ( capa_=1; capa_ < new_capa; capa_<<=1 );\<close> started at 1.\<close>

function pow2_from :: "nat \<Rightarrow> nat \<Rightarrow> nat" where
  "pow2_from n c = (if 0 < c \<and> c < n then pow2_from n (2 * c) else c)"
  by pat_completeness auto
termination
  by (relation "measure (\<lambda>(n, c). n - c)") auto

declare pow2_from.simps [simp del]

definition vec_resize :: "nat \<Rightarrow> 'a option list \<Rightarrow> 'a option list" where
  "vec_resize n xs = take n xs @ replicate (n - length xs) None"

definition ring_resize :: "nat \<Rightarrow> 'a ring \<Rightarrow> exn + 'a ring" where
  "ring_resize new_capa r =
     (let sz = ring_size r; tmpo = w_oldest r;
          (tmp, r1) = win_pop_n sz r;
          c = pow2_from new_capa 1;
          r2 = win_seed tmpo (r1\<lparr>w_capa := c, w_buf := vec_resize c (w_buf r1), w_rp := 0, w_wp := 0,
                 w_msk := of_nat c - 1\<rparr>)
      in ring_push_all tmp r2)"

text \<open>The iterator visits the slots from the read to the write position.\<close>

definition ring_slot :: "'a ring \<Rightarrow> nat \<Rightarrow> nat" where
  "ring_slot r i = unat ((w_rp r + of_nat i) AND w_msk r)"

section \<open>ReassembleBuf\<close>

definition reasm_new :: "nat \<Rightarrow> nat \<Rightarrow> u8 \<Rightarrow> 'a reasm" where
  "reasm_new ldcapa limit old = \<lparr>w_capa = 2 ^ ldcapa, w_buf = replicate (2 ^ ldcapa) None, w_rp = 0,
     w_msk = of_nat (2 ^ ldcapa) - 1, w_oldest = old,
     w_lim = (if limit \<noteq> 0 then of_nat limit else of_nat (2 ^ ldcapa))\<rparr>"

definition reasm_canAccept :: "u8 \<Rightarrow> 'a reasm \<Rightarrow> bool" where
  "reasm_canAccept seqNo w \<longleftrightarrow> seqNo - w_oldest w < w_lim w"

definition reasm_store :: "u8 \<Rightarrow> 'a option \<Rightarrow> 'a reasm \<Rightarrow> exn + 'a reasm" where
  "reasm_store seqNo b w =
     (let off = seqNo - w_oldest w in
      if off < w_lim w
      then Inr (w\<lparr>w_buf := (w_buf w)[unat ((ucast off + w_rp w) AND w_msk w) := b]\<rparr>)
      else Inl (InternalError ''Send buffer overflow''))"

definition reasm_getLastInOrder :: "'a reasm \<Rightarrow> u8" where
  "reasm_getLastInOrder w = w_oldest w - 1"

text \<open>\<^verbatim>\<open>ReassembleBuf::purge\<close> empties the slots and keeps the position.\<close>

definition reasm_purge :: "'a reasm \<Rightarrow> 'a reasm" where
  "reasm_purge w = w\<lparr>w_buf := replicate (w_capa w) None @ drop (w_capa w) (w_buf w)\<rparr>"

section \<open>The slots in order of sequence numbers\<close>

definition win_ok :: "('a, 'b) winbase_scheme \<Rightarrow> bool" where
  "win_ok w \<longleftrightarrow> (\<exists>k \<le> 8. w_capa w = 2 ^ k \<and> length (w_buf w) = 2 ^ k \<and> w_msk w = mask k)"

text \<open>\<open>win w i\<close>: the slot of sequence number \<open>oldest + i\<close>.\<close>

definition win :: "('a, 'b) winbase_scheme \<Rightarrow> nat \<Rightarrow> 'a option" where
  "win w i = w_buf w ! ((unat (w_rp w) + i) mod w_capa w)"

lemma win_okE:
  assumes "win_ok w"
  obtains k where "k \<le> 8" "w_capa w = 2 ^ k" "length (w_buf w) = 2 ^ k" "w_msk w = mask k"
  using assms by (auto simp: win_ok_def)

lemma win_ok_capa: "win_ok w \<Longrightarrow> 0 < w_capa w \<and> w_capa w \<le> 256 \<and> length (w_buf w) = w_capa w"
proof (erule win_okE)
  fix k :: nat
  assume k: "k \<le> 8" "w_capa w = 2 ^ k" "length (w_buf w) = 2 ^ k"
  have "(2 :: nat) ^ k \<le> 2 ^ 8" using k(1) by (rule power_increasing) simp
  with k show ?thesis by simp
qed

lemma slot_mask:
  assumes "win_ok w"
  shows "unat ((w_rp w + of_nat i) AND w_msk w) = (unat (w_rp w) + i) mod w_capa w"
  using assms
proof (rule win_okE)
  fix k
  assume k: "k \<le> 8" "w_capa w = 2 ^ k" "w_msk w = mask k"
  have "unat (w_rp w + of_nat i) mod 2 ^ k = (unat (w_rp w) + i) mod 2 ^ k"
    using k(1) mod_add_pow2_le [of k 32 "unat (w_rp w)" i]
    by (simp add: unat_word_ariths unat_of_nat_mod mod_add_right_eq)
  then show ?thesis by (simp add: k unat_and_mask)
qed

lemma slot0: "win_ok w \<Longrightarrow> unat (w_rp w AND w_msk w) = unat (w_rp w) mod w_capa w"
  using slot_mask [of w 0] by simp

lemma rp_next:
  assumes "win_ok w"
  shows "(unat (w_rp w + of_nat j) + i) mod w_capa w = (unat (w_rp w) + (j + i)) mod w_capa w"
  using assms
proof (rule win_okE)
  fix k
  assume k: "k \<le> 8" "w_capa w = 2 ^ k"
  have "unat (w_rp w + of_nat j) mod 2 ^ k = (unat (w_rp w) + j) mod 2 ^ k"
    using k(1) mod_add_pow2_le [of k 32 "unat (w_rp w)" j]
    by (simp add: unat_word_ariths unat_of_nat_mod mod_add_right_eq)
  then show ?thesis
    unfolding k(2) by (metis add.assoc mod_add_left_eq)
qed

lemma win_peek_win: "win_ok w \<Longrightarrow> win_peek w = win w 0"
  by (simp add: win_peek_def win_def slot0)

lemma win_update:
  assumes "win_ok w" "i < w_capa w" "j < w_capa w"
  shows "(w_buf w)[(unat (w_rp w) + j) mod w_capa w := b] ! ((unat (w_rp w) + i) mod w_capa w) =
         (if i = j then b else win w i)"
proof (cases "i = j")
  case True
  then show ?thesis using win_ok_capa [OF assms(1)] by simp
next
  case False
  then have "(unat (w_rp w) + j) mod w_capa w \<noteq> (unat (w_rp w) + i) mod w_capa w"
    using mod_inj_window assms(2,3) by metis
  then show ?thesis using False by (simp add: win_def)
qed

lemma win_ok_cong:
  "win_ok w \<Longrightarrow> w_capa v = w_capa w \<Longrightarrow> length (w_buf v) = length (w_buf w) \<Longrightarrow> w_msk v = w_msk w
    \<Longrightarrow> win_ok v"
  by (simp add: win_ok_def)

lemma win_pop_fst: "win_ok w \<Longrightarrow> fst (win_pop w) = win w 0"
  by (simp add: win_pop_def Let_def slot0 win_def)

lemma win_pop_ok [simp]: "win_ok w \<Longrightarrow> win_ok (snd (win_pop w))"
  by (auto simp: win_pop_def Let_def win_ok_def)

lemma win_pop_capa [simp]: "w_capa (snd (win_pop w)) = w_capa w"
  by (simp add: win_pop_def Let_def)

lemma win_pop_None:
  assumes "win_ok w" "win w 0 = None"
  shows "win_pop w = (None, w)"
proof -
  have b: "w_buf w ! (unat (w_rp w) mod w_capa w) = None" using assms by (simp add: win_def)
  then have "(w_buf w)[unat (w_rp w) mod w_capa w := None] = w_buf w"
    by (metis list_update_id)
  then show ?thesis using assms(1) b by (simp add: win_pop_def Let_def slot0)
qed

lemma win_pop_Some:
  assumes "win_ok w" "win w 0 \<noteq> None" "i < w_capa w"
  shows "win (snd (win_pop w)) i = (if Suc i < w_capa w then win w (Suc i) else None)"
    and "w_oldest (snd (win_pop w)) = w_oldest w + 1"
    and "w_rp (snd (win_pop w)) = w_rp w + 1"
proof -
  have p: "snd (win_pop w) = w\<lparr>w_buf := (w_buf w)[unat (w_rp w) mod w_capa w := None],
      w_rp := w_rp w + 1, w_oldest := w_oldest w + 1\<rparr>"
    using assms(1,2) by (simp add: win_pop_def Let_def slot0 win_def nxtSeqNo_def)
  then show "w_oldest (snd (win_pop w)) = w_oldest w + 1" "w_rp (snd (win_pop w)) = w_rp w + 1"
    by simp_all
  have n: "(unat (w_rp w + 1) + i) mod w_capa w = (unat (w_rp w) + Suc i) mod w_capa w"
    using rp_next [OF assms(1), of 1 i] by simp
  have z: "(unat (w_rp w) + 0) mod w_capa w = unat (w_rp w) mod w_capa w" by simp
  have cap: "0 < w_capa w" using win_ok_capa [OF assms(1)] by simp
  show "win (snd (win_pop w)) i = (if Suc i < w_capa w then win w (Suc i) else None)"
  proof (cases "Suc i < w_capa w")
    case True
    then show ?thesis
      using win_update [OF assms(1) True cap, of None] by (simp add: p win_def n)
  next
    case False
    then have "Suc i = w_capa w" using assms(3) by simp
    then have "(unat (w_rp w) + Suc i) mod w_capa w = unat (w_rp w) mod w_capa w" by simp
    then show ?thesis
      using False cap win_ok_capa [OF assms(1)] by (simp add: p win_def n)
  qed
qed

section \<open>The ring is a bounded queue of consecutive sequence numbers\<close>

definition ring_ok :: "'a ring \<Rightarrow> bool" where
  "ring_ok r \<longleftrightarrow> win_ok r \<and> ring_size r \<le> w_capa r
     \<and> (\<forall>i < w_capa r. win r i \<noteq> None \<longleftrightarrow> i < ring_size r)"

definition ring_list :: "'a ring \<Rightarrow> 'a list" where
  "ring_list r = map (\<lambda>i. the (win r i)) [0..<ring_size r]"

lemma length_ring_list [simp]: "length (ring_list r) = ring_size r"
  by (simp add: ring_list_def)

lemma ring_list_nth: "i < ring_size r \<Longrightarrow> ring_list r ! i = the (win r i)"
  by (simp add: ring_list_def)

lemma ring_ok_size: "ring_ok r \<Longrightarrow> ring_size r \<le> w_capa r \<and> w_capa r \<le> 256 \<and> 0 < w_capa r"
  using win_ok_capa [of r] by (auto simp: ring_ok_def)

lemma ring_ok_win: "ring_ok r \<Longrightarrow> i < ring_size r \<Longrightarrow> win r i = Some (ring_list r ! i)"
  by (auto simp: ring_ok_def ring_list_nth)

lemma unat_pred32: "0 < unat (d :: u32) \<Longrightarrow> unat (d - 1) = unat d - 1"
  by (simp add: unat_sub word_le_nat_alt Suc_leI)

lemma unat_succ32: "unat (d :: u32) < 4294967295 \<Longrightarrow> unat (d + 1) = Suc (unat d)"
  by (simp add: unat_word_ariths)

lemma size_after_pop:
  assumes "0 < ring_size r" "w_rp q = w_rp r + 1" "w_wp q = w_wp r"
  shows "ring_size q = ring_size r - 1"
proof -
  have e: "w_wp q - w_rp q = (w_wp r - w_rp r) - 1" using assms(2,3) by simp
  show ?thesis
    using assms(1) unfolding ring_size_def e by (rule unat_pred32)
qed

lemma win_pop_wp [simp]: "w_wp (snd (win_pop r)) = w_wp r"
  by (simp add: win_pop_def Let_def)

lemma ring_pop_nonempty:
  assumes "ring_ok r" "0 < ring_size r"
  shows "fst (win_pop r) = Some (hd (ring_list r))"
    and "ring_ok (snd (win_pop r))"
    and "ring_list (snd (win_pop r)) = tl (ring_list r)"
    and "ring_size (snd (win_pop r)) = ring_size r - 1"
    and "w_oldest (snd (win_pop r)) = w_oldest r + 1"
proof -
  let ?q = "snd (win_pop r)"
  have w: "win_ok r" using assms(1) by (simp add: ring_ok_def)
  have cap: "0 < w_capa r" using win_ok_capa [OF w] by simp
  have ne: "win r 0 \<noteq> None" using assms ring_ok_win by fastforce
  have l: "ring_list r \<noteq> []" using assms(2) by (simp flip: length_greater_0_conv)
  show "fst (win_pop r) = Some (hd (ring_list r))"
    using ring_ok_win [OF assms] l by (simp add: win_pop_fst [OF w] hd_conv_nth)
  show sz: "ring_size ?q = ring_size r - 1"
    by (rule size_after_pop [OF assms(2) win_pop_Some(3) [OF w ne cap]]) simp
  show "w_oldest ?q = w_oldest r + 1" by (rule win_pop_Some(2) [OF w ne cap])
  have wq: "win ?q i = (if Suc i < w_capa r then win r (Suc i) else None)" if "i < w_capa r" for i
    by (rule win_pop_Some(1) [OF w ne that])
  show "ring_ok ?q"
    using assms w sz by (auto simp: ring_ok_def wq)
  show "ring_list ?q = tl (ring_list r)"
  proof (rule nth_equalityI)
    show "length (ring_list ?q) = length (tl (ring_list r))" by (simp add: sz)
    fix i
    assume "i < length (ring_list ?q)"
    then have i: "Suc i < ring_size r" "i < ring_size ?q" by (simp_all add: sz)
    then have "Suc i < w_capa r" using ring_ok_size [OF assms(1)] by linarith
    then show "ring_list ?q ! i = tl (ring_list r) ! i"
      using i by (simp add: ring_list_nth wq nth_tl)
  qed
qed

lemma ring_empty_slot:
  assumes "ring_ok r" "ring_size r = 0"
  shows "win_pop r = (None, r)"
proof -
  have "win r 0 = None" using assms ring_ok_size [OF assms(1)] by (auto simp: ring_ok_def)
  then show ?thesis using assms(1) by (simp add: ring_ok_def win_pop_None)
qed

lemma ring_pops:
  assumes "ring_ok r" "n \<le> ring_size r"
  defines "q \<equiv> ((\<lambda>r. snd (win_pop r)) ^^ n) r"
  shows "ring_ok q \<and> ring_list q = drop n (ring_list r) \<and> ring_size q = ring_size r - n
    \<and> w_oldest q = w_oldest r + of_nat n \<and> w_capa q = w_capa r"
  using assms(2) unfolding q_def
proof (induction n)
  case 0
  then show ?case using assms(1) by simp
next
  case (Suc n)
  let ?q = "((\<lambda>r. snd (win_pop r)) ^^ n) r"
  from Suc have q: "ring_ok ?q" "ring_list ?q = drop n (ring_list r)" "ring_size ?q = ring_size r - n"
      "w_oldest ?q = w_oldest r + of_nat n" "w_capa ?q = w_capa r" "0 < ring_size ?q"
    by auto
  show ?case
    using ring_pop_nonempty [OF q(1) q(6)] q Suc.prems
    by (simp add: tl_drop drop_Suc ac_simps)
qed

lemma ring_ack_spec:
  fixes r :: "'a ring" and ackNo :: u8
  assumes "ring_ok r"
  defines "n \<equiv> unat (ackNo - w_oldest r + 1)"
  shows "if n \<le> ring_size r
     then fst (ring_ack ackNo r) = int n \<and> ring_ok (snd (ring_ack ackNo r))
          \<and> ring_list (snd (ring_ack ackNo r)) = drop n (ring_list r)
          \<and> ring_size (snd (ring_ack ackNo r)) = ring_size r - n
          \<and> w_oldest (snd (ring_ack ackNo r)) = ackNo + 1
          \<and> w_capa (snd (ring_ack ackNo r)) = w_capa r
     else ring_ack ackNo r = (-1, r)"
proof (cases "n \<le> ring_size r")
  case True
  have "w_oldest r + of_nat n = ackNo + 1" by (simp add: n_def)
  then show ?thesis
    using ring_pops [OF assms(1) True] True by (simp add: ring_ack_def n_def Let_def)
qed (simp add: ring_ack_def n_def Let_def)

lemma wp_slot:
  assumes "win_ok r"
  shows "unat (w_wp r AND w_msk r) = (unat (w_rp r) + ring_size r) mod w_capa r"
proof -
  have "w_rp r + of_nat (ring_size r) = w_wp r" by (simp add: ring_size_def)
  then show ?thesis using slot_mask [OF assms, of "ring_size r"] by simp
qed

lemma ring_push_spec:
  assumes "ring_ok r" "ring_size r < w_capa r"
  obtains q where "ring_push (Some b) r = Inr q" "ring_ok q" "ring_list q = ring_list r @ [b]"
    "ring_size q = Suc (ring_size r)" "w_oldest q = w_oldest r" "w_capa q = w_capa r"
proof -
  let ?q = "r\<lparr>w_buf := (w_buf r)[unat (w_wp r AND w_msk r) := Some b], w_wp := w_wp r + 1\<rparr>"
  have w: "win_ok r" using assms(1) by (simp add: ring_ok_def)
  have sz: "ring_size ?q = Suc (ring_size r)"
  proof -
    have e: "w_wp ?q - w_rp ?q = (w_wp r - w_rp r) + 1" by simp
    have "ring_size r < 4294967295" using assms ring_ok_size [OF assms(1)] by simp
    then show ?thesis unfolding ring_size_def e by (rule unat_succ32)
  qed
  have wq: "win ?q i = (if i = ring_size r then Some b else win r i)" if "i < w_capa r" for i
    using win_update [OF w that assms(2), of "Some b"] by (simp add: win_def wp_slot [OF w])
  have ok: "ring_ok ?q"
    using assms w by (auto simp: ring_ok_def sz wq less_Suc_eq elim: win_ok_cong)
  have "ring_list ?q = ring_list r @ [b]"
  proof (rule nth_equalityI)
    fix i
    assume "i < length (ring_list ?q)"
    then have i: "i < Suc (ring_size r)" by (simp add: sz)
    then have "i < w_capa r" using assms(2) by simp
    with i show "ring_list ?q ! i = (ring_list r @ [b]) ! i"
      by (cases "i = ring_size r") (simp_all add: ring_list_nth sz wq nth_append)
  qed (simp add: sz)
  moreover have "ring_push (Some b) r = Inr ?q" using assms(2) by (simp add: ring_push_def)
  ultimately show ?thesis using that ok sz by simp
qed

lemma ring_slot_win: "win_ok r \<Longrightarrow> w_buf r ! ring_slot r i = win r i"
  by (simp add: ring_slot_def slot_mask win_def)

text \<open>Writing to a segment in place, as a retransmission does.\<close>

lemma ring_write_spec:
  fixes r :: "'a ring" and b :: 'a
  assumes "ring_ok r" "i < ring_size r"
  defines "q \<equiv> r\<lparr>w_buf := (w_buf r)[ring_slot r i := Some b]\<rparr>"
  shows "ring_ok q" "ring_list q = (ring_list r)[i := b]" "ring_size q = ring_size r"
    "w_oldest q = w_oldest r" "w_capa q = w_capa r"
proof -
  have w: "win_ok r" using assms(1) by (simp add: ring_ok_def)
  show sz: "ring_size q = ring_size r" and "w_oldest q = w_oldest r" and cap: "w_capa q = w_capa r"
    by (simp_all add: q_def ring_size_def)
  have ic: "i < w_capa r" using assms ring_ok_size [OF assms(1)] by simp
  have wq: "win q j = (if j = i then Some b else win r j)" if "j < w_capa r" for j
    using win_update [OF w that ic, of "Some b"]
    by (simp add: q_def win_def ring_slot_def slot_mask [OF w])
  have "win_ok q" using w by (auto simp: q_def elim: win_ok_cong)
  then show "ring_ok q" using assms(1,2) by (auto simp: ring_ok_def wq sz cap)
  show "ring_list q = (ring_list r)[i := b]"
  proof (rule nth_equalityI)
    fix j
    assume "j < length (ring_list q)"
    then have j: "j < ring_size r" by (simp add: sz)
    then have "j < w_capa r" using ring_ok_size [OF assms(1)] by simp
    with j show "ring_list q ! j = (ring_list r)[i := b] ! j"
      by (simp add: ring_list_nth sz wq nth_list_update)
  qed (simp add: sz)
qed

lemma ring_push_all_spec:
  assumes "ring_ok r" "ring_size r + length bs \<le> w_capa r"
  shows "\<exists>q. ring_push_all (map Some bs) r = Inr q \<and> ring_ok q \<and> ring_list q = ring_list r @ bs
    \<and> w_oldest q = w_oldest r \<and> w_capa q = w_capa r"
  using assms
proof (induction bs arbitrary: r)
  case (Cons b bs)
  from Cons.prems have "ring_size r < w_capa r" by simp
  with Cons.prems(1) obtain q where q: "ring_push (Some b) r = Inr q" "ring_ok q"
      "ring_list q = ring_list r @ [b]" "ring_size q = Suc (ring_size r)" "w_oldest q = w_oldest r"
      "w_capa q = w_capa r"
    by (rule ring_push_spec)
  with Cons.prems Cons.IH [of q] show ?case by auto
qed simp

lemma win_pop_n_ring:
  assumes "ring_ok r" "n \<le> ring_size r"
  shows "fst (win_pop_n n r) = map Some (take n (ring_list r))
    \<and> snd (win_pop_n n r) = ((\<lambda>r. snd (win_pop r)) ^^ n) r"
  using assms
proof (induction n arbitrary: r)
  case (Suc n)
  then have p: "0 < ring_size r" by simp
  note q = ring_pop_nonempty [OF Suc.prems(1) p]
  have "ring_list r \<noteq> []" using p by (simp flip: length_greater_0_conv)
  then have "map Some (take (Suc n) (ring_list r)) =
      Some (hd (ring_list r)) # map Some (take n (tl (ring_list r)))"
    by (cases "ring_list r") simp_all
  with q Suc show ?case
    by (simp add: funpow_Suc_right case_prod_unfold del: funpow.simps)
qed simp

lemma ring_new_ok:
  assumes "k \<le> 8"
  shows "ring_ok (ring_new k old)" "ring_list (ring_new k old) = []"
    "ring_size (ring_new k old) = 0" "w_capa (ring_new k old) = 2 ^ k"
  using assms by (auto simp: ring_ok_def ring_new_def win_ok_def ring_size_def win_def ring_list_def)

lemma pow2_from_spec:
  assumes "0 < c"
  shows "n \<le> pow2_from n c \<and> (\<exists>j. pow2_from n c = c * 2 ^ j \<and> (0 < j \<longrightarrow> c * 2 ^ (j - 1) < n))"
  using assms
proof (induction n c rule: pow2_from.induct)
  case (1 n c)
  show ?case
  proof (cases "c < n")
    case True
    with 1 obtain j where j: "n \<le> pow2_from n (2 * c)" "pow2_from n (2 * c) = 2 * c * 2 ^ j"
        "0 < j \<longrightarrow> 2 * c * 2 ^ (j - 1) < n" by auto
    have "c * 2 ^ (Suc j - 1) < n" using j(3) True by (cases j) (simp_all add: ac_simps)
    with j True 1(2) show ?thesis
      by (subst (1 2) pow2_from.simps) (auto intro!: exI [of _ "Suc j"])
  next
    case False
    then show ?thesis by (subst (1 2) pow2_from.simps) (auto intro!: exI [of _ 0])
  qed
qed

lemma pow2_from_1:
  assumes "n \<le> 256"
  obtains k where "pow2_from n 1 = 2 ^ k" "k \<le> 8" "n \<le> 2 ^ k"
proof -
  from pow2_from_spec [of 1 n] obtain j where j: "n \<le> pow2_from n 1" "pow2_from n 1 = 2 ^ j"
      "0 < j \<longrightarrow> 2 ^ (j - 1) < n" by auto
  have "j \<le> 8"
  proof (rule ccontr)
    assume "\<not> j \<le> 8"
    then have "8 \<le> j - 1" "0 < j" by simp_all
    then have "(2 :: nat) ^ 8 \<le> 2 ^ (j - 1)" by (intro power_increasing) simp_all
    with j(3) \<open>0 < j\<close> assms show False by simp
  qed
  with j that show thesis by simp
qed

text \<open>After popping everything, the slots are all empty, so the vector of the new capacity
  is a fresh ring.\<close>

lemma ring_all_None:
  assumes "ring_ok r" "ring_size r = 0"
  shows "w_buf r = replicate (w_capa r) None"
proof (rule nth_equalityI)
  have w: "win_ok r" using assms(1) by (simp add: ring_ok_def)
  then show len: "length (w_buf r) = length (replicate (w_capa r) None)"
    using win_ok_capa [OF w] by simp
  fix j
  assume "j < length (w_buf r)"
  then have j: "j < w_capa r" using len by simp
  define i where "i = (j + w_capa r - unat (w_rp r) mod w_capa r) mod w_capa r"
  have m: "unat (w_rp r) mod w_capa r < w_capa r" using j by simp
  have "(unat (w_rp r) + i) mod w_capa r = (unat (w_rp r) mod w_capa r
      + (j + w_capa r - unat (w_rp r) mod w_capa r)) mod w_capa r"
    by (simp add: i_def mod_simps)
  also have "unat (w_rp r) mod w_capa r + (j + w_capa r - unat (w_rp r) mod w_capa r) = j + w_capa r"
    using m by linarith
  also have "(j + w_capa r) mod w_capa r = j" using j by simp
  finally have "win r i = w_buf r ! j" by (simp add: win_def)
  moreover have "win r i = None" using assms j by (simp add: ring_ok_def i_def)
  ultimately show "w_buf r ! j = replicate (w_capa r) None ! j" using j by simp
qed

theorem ring_resize_spec:
  assumes "ring_ok r" "n \<le> 256" "ring_size r \<le> n"
  shows "\<exists>q. ring_resize n r = Inr q \<and> ring_ok q \<and> ring_list q = ring_list r
    \<and> w_oldest q = w_oldest r \<and> w_capa q = pow2_from n 1 \<and> n \<le> w_capa q"
proof -
  from pow2_from_1 [OF assms(2)] obtain k where k: "pow2_from n 1 = 2 ^ k" "k \<le> 8" "n \<le> 2 ^ k" .
  define r1 where "r1 = ((\<lambda>r. snd (win_pop r)) ^^ ring_size r) r"
  have r1: "ring_ok r1" "ring_size r1 = 0"
    using ring_pops [OF assms(1), of "ring_size r"] by (auto simp: r1_def)
  have pop: "win_pop_n (ring_size r) r = (map Some (ring_list r), r1)"
    using win_pop_n_ring [OF assms(1), of "ring_size r"] by (simp add: r1_def prod_eq_iff)
  have buf: "vec_resize (2 ^ k) (w_buf r1) = replicate (2 ^ k) None"
    unfolding ring_all_None [OF r1] vec_resize_def
    by (simp add: min_def flip: replicate_add)
  let ?r2 = "win_seed (w_oldest r) (r1\<lparr>w_capa := 2 ^ k, w_buf := replicate (2 ^ k) None,
      w_rp := 0, w_wp := 0, w_msk := of_nat (2 ^ k) - 1\<rparr>)"
  have r2: "?r2 = ring_new k (w_oldest r)" by (simp add: ring_new_def win_seed_def)
  have e: "ring_resize n r = ring_push_all (map Some (ring_list r)) (ring_new k (w_oldest r))"
    unfolding ring_resize_def Let_def pop k(1) prod.case buf r2 ..
  have "w_oldest (ring_new k (w_oldest r)) = w_oldest r" by (simp add: ring_new_def)
  moreover have "ring_size (ring_new k (w_oldest r)) + length (ring_list r)
      \<le> w_capa (ring_new k (w_oldest r))"
    using k assms(3) by (simp add: ring_new_ok)
  ultimately show ?thesis
    using ring_push_all_spec [OF ring_new_ok(1) [OF k(2)], of "w_oldest r" "ring_list r"]
    unfolding e by (auto simp: ring_new_ok k k(1) [simplified])
qed

lemma ring_purge_spec:
  assumes "ring_ok r"
  shows "\<exists>q. win_purge r = Some q \<and> ring_ok q \<and> ring_size q = 0 \<and> w_capa q = w_capa r
    \<and> w_oldest q = w_oldest r + of_nat (ring_size r)"
  using assms
proof (induction "ring_size r" arbitrary: r)
  case 0
  then show ?case
    by (subst win_purge.simps) (simp add: ring_empty_slot)
next
  case (Suc n)
  then have p: "0 < ring_size r" by simp
  note q = ring_pop_nonempty [OF Suc.prems p]
  obtain x where x: "win_pop r = (Some x, snd (win_pop r))"
    using q(1) by (metis prod.collapse)
  have step: "win_purge r = win_purge (snd (win_pop r))"
    by (subst win_purge.simps, subst x) simp
  have n: "n = ring_size (snd (win_pop r))" using Suc.hyps(2) q(4) by simp
  from Suc.hyps(1) [OF n q(2)] obtain t where t: "win_purge (snd (win_pop r)) = Some t" "ring_ok t"
      "ring_size t = 0" "w_capa t = w_capa r"
      "w_oldest t = w_oldest r + 1 + of_nat (ring_size (snd (win_pop r)))"
    unfolding q(5) win_pop_capa by blast
  have "w_oldest t = w_oldest r + of_nat (ring_size r)"
    unfolding t(5) n [symmetric] Suc.hyps(2) [symmetric] by simp
  with t step show ?case by simp
qed

lemma ring_seed_ok:
  "ring_ok r \<Longrightarrow> ring_ok (win_seed s r) \<and> ring_list (win_seed s r) = ring_list r
    \<and> ring_size (win_seed s r) = ring_size r \<and> w_oldest (win_seed s r) = s
    \<and> w_capa (win_seed s r) = w_capa r"
  by (auto simp: win_seed_def ring_ok_def ring_size_def win_def ring_list_def elim: win_ok_cong)

section \<open>The reassembly window\<close>

definition reasm_ok :: "'a reasm \<Rightarrow> bool" where
  "reasm_ok w \<longleftrightarrow> win_ok w \<and> unat (w_lim w) \<le> w_capa w"

lemma reasm_slot:
  assumes "reasm_ok w" "off < w_lim w"
  shows "unat ((ucast off + w_rp w) AND w_msk w) = (unat (w_rp w) + unat off) mod w_capa w"
proof -
  have "(ucast off :: u32) = of_nat (unat off)" by simp
  then show ?thesis
    using slot_mask [of w "unat off"] assms(1) by (simp add: reasm_ok_def add.commute)
qed

text \<open>Storing a segment the window accepts fills the slot of its number and no other.\<close>

lemma reasm_store_spec:
  assumes "reasm_ok w" "reasm_canAccept sq w"
  obtains q where "reasm_store sq b w = Inr q" "reasm_ok q" "w_oldest q = w_oldest w"
    "w_capa q = w_capa w" "w_lim q = w_lim w"
    "\<And>i. i < w_capa w \<Longrightarrow> win q i = (if i = unat (sq - w_oldest w) then b else win w i)"
proof -
  let ?o = "sq - w_oldest w"
  have o: "?o < w_lim w" using assms(2) by (simp add: reasm_canAccept_def)
  then have oc: "unat ?o < w_capa w"
    using assms(1) by (simp add: reasm_ok_def word_less_nat_alt)
  have w: "win_ok w" using assms(1) by (simp add: reasm_ok_def)
  let ?q = "w\<lparr>w_buf := (w_buf w)[unat ((ucast ?o + w_rp w) AND w_msk w) := b]\<rparr>"
  have "reasm_store sq b w = Inr ?q" using o by (simp add: reasm_store_def)
  moreover have "reasm_ok ?q" using assms(1) by (auto simp: reasm_ok_def elim: win_ok_cong)
  moreover have "win ?q i = (if i = unat ?o then b else win w i)" if "i < w_capa w" for i
    using win_update [OF w that oc, of b] by (simp add: win_def reasm_slot [OF assms(1) o])
  ultimately show ?thesis using that by simp
qed

text \<open>The slots in use; popping one leaves one less.\<close>

definition occupied :: "('a, 'b) winbase_scheme \<Rightarrow> nat" where
  "occupied w = length (filter (\<lambda>x. x \<noteq> None) (w_buf w))"

lemma filter_update_None:
  "i < length xs \<Longrightarrow> xs ! i \<noteq> None \<Longrightarrow>
    Suc (length (filter (\<lambda>x. x \<noteq> None) (xs[i := None]))) = length (filter (\<lambda>x. x \<noteq> None) xs)"
proof (induction xs arbitrary: i)
  case (Cons x xs)
  then show ?case by (cases i) auto
qed simp

lemma occupied_pop:
  assumes "win_ok w" "win_peek w \<noteq> None"
  shows "Suc (occupied (snd (win_pop w))) = occupied w"
proof -
  have "unat (w_rp w AND w_msk w) < length (w_buf w)"
    using win_ok_capa [OF assms(1)] by (simp add: slot0 [OF assms(1)])
  then show ?thesis
    using filter_update_None assms(2) by (simp add: occupied_def win_pop_def win_peek_def Let_def)
qed

lemma occupied_le: "win_ok w \<Longrightarrow> occupied w \<le> w_capa w"
  using win_ok_capa [of w] length_filter_le [of "\<lambda>x. x \<noteq> None" "w_buf w"] by (simp add: occupied_def)

lemma reasm_pop_ok: "reasm_ok w \<Longrightarrow> reasm_ok (snd (win_pop w))"
  by (auto simp: reasm_ok_def win_pop_def Let_def intro: win_ok_cong)

lemma reasm_new_ok:
  assumes "k \<le> 8" "n \<le> 2 ^ k" "n < 256"
  shows "reasm_ok (reasm_new k n old)"
proof -
  have "unat (of_nat (2 ^ k) :: u8) \<le> 2 ^ k"
    unfolding unat_of_nat_mod by (rule mod_less_eq_dividend)
  then show ?thesis
    using assms by (auto simp: reasm_ok_def reasm_new_def win_ok_def unat_of_nat_mod)
qed

lemma reasm_purge_spec:
  assumes "reasm_ok w"
  shows "reasm_ok (reasm_purge w)" "i < w_capa w \<Longrightarrow> win (reasm_purge w) i = None"
    "w_oldest (reasm_purge w) = w_oldest w" "w_capa (reasm_purge w) = w_capa w"
  using assms win_ok_capa [of w]
  by (auto simp: reasm_ok_def reasm_purge_def win_def intro: win_ok_cong)

lemma reasm_seed_ok: "reasm_ok w \<Longrightarrow> reasm_ok (win_seed s w)"
  by (auto simp: reasm_ok_def win_seed_def intro: win_ok_cong)

end
