(* ===== verification/Rssi.thy ===== *)
theory Rssi
  imports Timeout RssiHeader Buf Bufq RssiTimer RssiWindow
begin

text \<open>
  The RSSI connection (\<^verbatim>\<open>class CRssi\<close>, \<^verbatim>\<open>src/src/cpsw_rssi.h\<close> and
  \<^verbatim>\<open>src/src/cpsw_rssi.cc\<close>): its configuration, its state and the operations that the
  states of the protocol are written in. A segment is a chain of buffers of which the
  first starts with the header. What the connection uses of its surroundings (the clock,
  fresh memory, the upstream port) is the record \<open>renv\<close>.
\<close>

section \<open>Configuration\<close>

record rcfg =
  cf_ldMaxUnackedSegs :: u8
  cf_outQueueDepth :: nat
  cf_inpQueueDepth :: nat
  cf_rexTimeoutUS :: u64
  cf_cumAckTimeoutUS :: u64
  cf_nulTimeoutUS :: u64
  cf_rexMax :: u8
  cf_cumAckMax :: u8
  cf_forcedSegsMax :: u32

definition UNIT_US :: u32 where "UNIT_US = 1000"
definition UNIT_US_EXP :: u32 where "UNIT_US_EXP = 3"
definition MAX_SEGMENT_SIZE :: nat where "MAX_SEGMENT_SIZE = 1500 - 20 - 8 - 8"

definition rcfg_default :: rcfg where
  "rcfg_default = \<lparr>cf_ldMaxUnackedSegs = 4, cf_outQueueDepth = 0, cf_inpQueueDepth = 0,
     cf_rexTimeoutUS = 100 * 1000, cf_cumAckTimeoutUS = 50 * 1000, cf_nulTimeoutUS = 3000 * 1000,
     cf_rexMax = 15, cf_cumAckMax = 5, cf_forcedSegsMax = 0\<rparr>"

definition assertValid :: "rcfg \<Rightarrow> exn + rcfg" where
  "assertValid c =
     (if 8 \<le> cf_ldMaxUnackedSegs c
      then Inl (ConfigurationError ''RSSI parameter 'ldMaxUnackedSegs' out too big'')
      else if 65536 \<le> cf_rexTimeoutUS c div ucast UNIT_US
      then Inl (ConfigurationError ''RSSI parameter 'retransmissionTimeoutUS' out too big'')
      else if 65536 \<le> cf_cumAckTimeoutUS c div ucast UNIT_US
      then Inl (ConfigurationError ''RSSI parameter 'cumulativeAckTimeoutUS' out too big'')
      else if 65536 \<le> cf_nulTimeoutUS c div ucast UNIT_US
      then Inl (ConfigurationError ''RSSI parameter 'nullTimeoutUS' out too big'')
      else if 65536 \<le> cf_forcedSegsMax c
      then Inl (ConfigurationError ''RSSI parameter 'maxSegmentSize' out too big'')
      else Inr c)"

section \<open>The connection\<close>

datatype rstate = CLOSED | LISTEN | CLNT_WAIT_SYN_ACK | SERV_WAIT_SYN_ACK | PREP_OPEN | OPEN
  | OPEN_OUTWIN_FULL

record rstats =
  outgoingDropped :: u32
  rexSegments :: u32
  rexTimeouts :: u32
  ackTimeouts :: u32
  nulTimeouts :: u32
  connFailed :: u32
  badChecksum :: u32
  badSynDropped :: u32
  badHdrDropped :: u32
  rejectedSegs :: u32
  skippedNULs :: u32
  numSegsAckedByPeer :: u32
  numSegsGivenToUser :: u32
  busyFlagsCountedRx :: u32
  busyFlagsCountedTx :: u32
  busyDeassertRex :: u32

text \<open>
  The surroundings: the clock of the event set, \<^verbatim>\<open>time(NULL)\<close>, what the upstream port has
  received and what it has been given, whether it accepts the n-th segment pushed to it,
  and the bytes the n-th buffer taken from the free list happens to hold.
\<close>

record renv =
  e_now :: timeout
  e_time :: int
  e_rxQ :: "chain list"
  e_tx :: "chain list"
  e_accepts :: "nat \<Rightarrow> bool"
  e_pushes :: nat
  e_mem :: "nat \<Rightarrow> u8 list"
  e_allocs :: nat

record rssi =
  r_cfg :: rcfg
  r_isServer :: bool
  r_mtu :: "int option"
  r_outQ :: "chain bufq"
  r_inpQ :: "chain bufq"
  r_state :: rstate
  r_verifyChecksum :: bool
  r_addChecksum :: bool
  r_timerUnits :: u32
  r_timerUnitExp :: u32
  r_units :: u32
  r_unitExp :: u32
  r_maxUnackedSegs :: nat
  r_rexTO :: timeout
  r_cakTO :: timeout
  r_nulTO :: timeout
  r_rexMX :: u32
  r_cakMX :: int
  r_conID :: u32
  r_peerOssMX :: nat
  r_peerSgsMX :: nat
  r_numRex :: u32
  r_numCak :: int
  r_peerBSY :: bool
  r_reopenDelay :: int
  r_lastSeqSent :: u8
  r_lastSeqRecv :: u8
  r_unAcked :: "chain ring"
  r_unOrdered :: "chain reasm"
  r_timers :: timers
  r_usrI :: bool
  r_usrO :: bool
  r_stats :: rstats
  r_connEvents :: "int list"
  r_env :: renv

definition bump :: "((u32 \<Rightarrow> u32) \<Rightarrow> rstats \<Rightarrow> rstats) \<Rightarrow> (rssi, unit) sem" where
  "bump f = upd (\<lambda>r. r\<lparr>r_stats := f (\<lambda>n. n + 1) (r_stats r)\<rparr>)"

abbreviation onOutQ :: "(chain bufq, 'a) sem \<Rightarrow> (rssi, 'a) sem" where
  "onOutQ \<equiv> zoom r_outQ (\<lambda>q r. r\<lparr>r_outQ := q\<rparr>)"

abbreviation onInpQ :: "(chain bufq, 'a) sem \<Rightarrow> (rssi, 'a) sem" where
  "onInpQ \<equiv> zoom r_inpQ (\<lambda>q r. r\<lparr>r_inpQ := q\<rparr>)"

section \<open>Construction\<close>

definition mkQ :: "nat \<Rightarrow> u8 \<Rightarrow> chain bufq" where
  "mkQ desiredDepth ldMaxUnackedSegs =
     bufq_create (if desiredDepth = 0 then 2 ^ unat ldMaxUnackedSegs + 4 else desiredDepth)"

text \<open>The fields which the constructor does not set keep what the memory holds (\<open>junk\<close>).
  The event handlers are enabled when they are created.\<close>

definition rssi_create :: "bool \<Rightarrow> int option \<Rightarrow> rcfg option \<Rightarrow> rssi \<Rightarrow> exn + rssi" where
  "rssi_create isServer mtuQuerier defaults junk =
     (case (case defaults of None \<Rightarrow> Inr rcfg_default | Some c \<Rightarrow> assertValid c) of
        Inl e \<Rightarrow> Inl e
      | Inr c \<Rightarrow> Inr (junk\<lparr>r_cfg := c, r_isServer := isServer, r_mtu := mtuQuerier,
          r_outQ := mkQ (cf_outQueueDepth c) (cf_ldMaxUnackedSegs c),
          r_inpQ := mkQ (cf_inpQueueDepth c) (cf_ldMaxUnackedSegs c),
          r_state := CLOSED, r_timerUnits := UNIT_US, r_timerUnitExp := UNIT_US_EXP,
          r_maxUnackedSegs := 2 ^ unat (cf_ldMaxUnackedSegs c),
          r_unAcked := ring_new (unat (cf_ldMaxUnackedSegs c)) (w_oldest (r_unAcked junk)),
          r_unOrdered := reasm_new (unat (cf_ldMaxUnackedSegs c)) 0 (w_oldest (r_unOrdered junk)),
          r_timers := [], r_usrI := True, r_usrO := True,
          r_conID := word_of_int (e_time (r_env junk)),
          r_stats := \<lparr>outgoingDropped = 0, rexSegments = 0, rexTimeouts = 0, ackTimeouts = 0,
            nulTimeouts = 0, connFailed = 0, badChecksum = 0, badSynDropped = 0, badHdrDropped = 0,
            rejectedSegs = 0, skippedNULs = 0, numSegsAckedByPeer = 0, numSegsGivenToUser = 0,
            busyFlagsCountedRx = 0, busyFlagsCountedTx = 0, busyDeassertRex = 0\<rparr>,
          r_reopenDelay := 0\<rparr>))"

section \<open>Timers and timeouts\<close>

definition cancelT :: "timer_id \<Rightarrow> (rssi, unit) sem" where
  "cancelT t = upd (\<lambda>r. r\<lparr>r_timers := timer_cancel t (r_timers r)\<rparr>)"

definition armRel :: "timer_id \<Rightarrow> (rssi \<Rightarrow> timeout) \<Rightarrow> (rssi, unit) sem" where
  "armRel t f = upd (\<lambda>r. r\<lparr>r_timers := timer_arm_rel (e_now (r_env r)) t (f r) (r_timers r)\<rparr>)"

definition armAbs :: "timer_id \<Rightarrow> (rssi \<Rightarrow> timeout) \<Rightarrow> (rssi, unit) sem" where
  "armAbs t f = upd (\<lambda>r. r\<lparr>r_timers := timer_arm_abs t (f r) (r_timers r)\<rparr>)"

definition setNulTimeout :: "u64 \<Rightarrow> (rssi, unit) sem" where
  "setNulTimeout us = upd (\<lambda>r. r\<lparr>r_nulTO := to_set (if \<not> r_isServer r then us div 3 else us)\<rparr>)"

definition getNulTimeout :: "rssi \<Rightarrow> u64" where
  "getNulTimeout r =
     (let us = to_getUs (r_nulTO r) in if \<not> r_isServer r then us * 3 else us)"

definition armRexAndNulTimer :: "(rssi, unit) sem" where
  "armRexAndNulTimer =
     cond (\<lambda>r. \<not> r_peerBSY r \<or> \<not> r_isServer r)
       (reading (\<lambda>r. e_now (r_env r)) (\<lambda>now. seqs [
          cond (\<lambda>r. \<not> r_peerBSY r) (armAbs RexT (\<lambda>r. to_add now (r_rexTO r))) (ret ()),
          cond (\<lambda>r. \<not> r_isServer r) (armAbs NulT (\<lambda>r. to_add now (r_nulTO r))) (ret ())]))
       (ret ())"

section \<open>Opening and closing\<close>

definition resetNegotiableParams :: "(rssi, unit) sem" where
  "resetNegotiableParams = seqs [
     upd (\<lambda>r. r\<lparr>r_units := r_timerUnits r, r_unitExp := r_timerUnitExp r,
       r_rexTO := to_set (cf_rexTimeoutUS (r_cfg r)), r_cakTO := to_set (cf_cumAckTimeoutUS (r_cfg r))\<rparr>),
     reading (\<lambda>r. cf_nulTimeoutUS (r_cfg r)) setNulTimeout,
     upd (\<lambda>r. r\<lparr>r_rexMX := ucast (cf_rexMax (r_cfg r)), r_cakMX := uint (cf_cumAckMax (r_cfg r))\<rparr>)]"

definition orDiverge :: "('s \<Rightarrow> ((exn + 'a) \<times> 's) option) \<Rightarrow> ('s, 'a) sem" where
  "orDiverge f = (\<lambda>s. case f s of None \<Rightarrow> (Inl Diverges, s) | Some x \<Rightarrow> x)"

definition purgeUnAcked :: "(rssi, unit) sem" where
  "purgeUnAcked = reading r_unAcked (\<lambda>w. case win_purge w of
      None \<Rightarrow> raise Diverges
    | Some w' \<Rightarrow> upd (\<lambda>r. r\<lparr>r_unAcked := w'\<rparr>))"

definition rssi_close :: "(rssi, unit) sem" where
  "rssi_close = seqs [
     onOutQ (orDiverge bufq_shutdown),
     onInpQ (orDiverge bufq_shutdown),
     upd (\<lambda>r. r\<lparr>r_usrI := False\<rparr>),
     upd (\<lambda>r. r\<lparr>r_usrO := False\<rparr>),
     cancelT AckT, cancelT NulT, cancelT RexT,
     resetNegotiableParams,
     purgeUnAcked,
     upd (\<lambda>r. r\<lparr>r_unOrdered := reasm_purge (r_unOrdered r)\<rparr>),
     upd (\<lambda>r. r\<lparr>r_numRex := 0, r_numCak := 0, r_peerBSY := False, r_verifyChecksum := False,
       r_addChecksum := True, r_peerOssMX := r_maxUnackedSegs r, r_peerSgsMX := MAX_SEGMENT_SIZE,
       r_conID := r_conID r + 1\<rparr>)]"

definition rssi_open :: "(rssi, unit) sem" where
  "rssi_open = upd (\<lambda>r. r\<lparr>r_outQ := bufq_startup (r_outQ r), r_inpQ := bufq_startup (r_inpQ r)\<rparr>)"

definition resetReopenDelay :: "(rssi, unit) sem" where
  "resetReopenDelay = upd (\<lambda>r. r\<lparr>r_reopenDelay := 2\<rparr>)"

definition increaseReopenDelay :: "(rssi, unit) sem" where
  "increaseReopenDelay =
     upd (\<lambda>r. if r_reopenDelay r < 10 then r\<lparr>r_reopenDelay := r_reopenDelay r + 2\<rparr> else r)"

text \<open>The events sent when the state changes are recorded in \<open>r_connEvents\<close>.\<close>

definition CONN_STATE_OPEN :: int where "CONN_STATE_OPEN = 10"
definition CONN_STATE_CLOSED :: int where "CONN_STATE_CLOSED = -1"

fun getConnectionState :: "rstate \<Rightarrow> int" where
  "getConnectionState CLOSED = CONN_STATE_CLOSED"
| "getConnectionState OPEN = CONN_STATE_OPEN"
| "getConnectionState OPEN_OUTWIN_FULL = CONN_STATE_OPEN"
| "getConnectionState _ = 0"

definition changeState :: "rstate \<Rightarrow> (rssi, unit) sem" where
  "changeState newState = upd (\<lambda>r.
     let newConn = getConnectionState newState; oldConn = getConnectionState (r_state r) in
     r\<lparr>r_state := newState,
       r_connEvents := (if newConn \<noteq> 0 \<and> newConn \<noteq> oldConn then r_connEvents r @ [newConn]
                        else r_connEvents r)\<rparr>)"

section \<open>Sending\<close>

definition tryPushUpstream :: "chain \<Rightarrow> (rssi, bool) sem" where
  "tryPushUpstream bc = reading r_env (\<lambda>e.
     let ok = e_accepts e (e_pushes e) in
     andThen (upd (\<lambda>r. r\<lparr>r_env := e\<lparr>e_pushes := e_pushes e + 1,
                 e_tx := (if ok then e_tx e @ [bc] else e_tx e)\<rparr>\<rparr>))
       (ret ok))"

text \<open>\<^verbatim>\<open>sendBuf\<close> finishes the header of the segment and pushes it upstream; its result is the
  segment as it is then (the caller's chain is the same object).\<close>

definition sendBuf :: "chain \<Rightarrow> (rssi, chain) sem" where
  "sendBuf bc = (case bc of
     [] \<Rightarrow> raise (Undefined ''no head'')
   | b # rest \<Rightarrow> reading id (\<lambda>r.
       if r_peerSgsMX r + unat (getHSize (b_view b)) < c_size bc
       then raise (InternalError ''RSSI segment size too large for peer'')
       else
         let full = bufq_isFull (r_outQ r);
             h1 = (if full then setFlags (getFlags (b_view b) OR FLG_BSY) (b_view b) else b_view b);
             h2 = setAckNo (r_lastSeqRecv r) h1;
             h3 = (if r_addChecksum r then writeChksum h2 else h2);
             bc' = b_setView h3 b # rest
         in andThen (if full then bump busyFlagsCountedTx_update else ret ())
           (andThen (upd (\<lambda>r. r\<lparr>r_numCak := 0\<rparr>))
             (andThen (cancelT AckT)
               (bnd (tryPushUpstream bc') (\<lambda>ok.
                 andThen (if \<not> ok then bump outgoingDropped_update else ret ()) (ret bc')))))))"

definition pushUnAcked :: "chain \<Rightarrow> (rssi, unit) sem" where
  "pushUnAcked bc = reading r_unAcked (\<lambda>w. case ring_push (Some bc) w of
     Inl e \<Rightarrow> raise e | Inr w' \<Rightarrow> upd (\<lambda>r. r\<lparr>r_unAcked := w'\<rparr>))"

definition sendBufAndKeepForRetransmission :: "chain \<Rightarrow> (rssi, unit) sem" where
  "sendBufAndKeepForRetransmission bc =
     bnd (sendBuf bc) (\<lambda>bc'. andThen (pushUnAcked bc') armRexAndNulTimer)"

definition sendDAT :: "chain \<Rightarrow> (rssi, unit) sem" where
  "sendDAT bc = (case bc of
     [] \<Rightarrow> raise (Undefined ''no head'')
   | b # rest \<Rightarrow>
      bnd (liftR (versionHSize getSupportedVersion)) (\<lambda>n.
        case b_setPayload (Some (int (b_beg b) - int n)) b of
          (Inl e, _) \<Rightarrow> raise e
        | (Inr _, b1) \<Rightarrow>
          (case hdr_ini (b_size b1) False SET (b_view b1) of
             (Inl e, _) \<Rightarrow> raise e
           | (Inr _, h) \<Rightarrow>
             andThen (upd (\<lambda>r. r\<lparr>r_lastSeqSent := r_lastSeqSent r + 1\<rparr>))
               (reading r_lastSeqSent (\<lambda>sq.
                 sendBufAndKeepForRetransmission
                   (b_setView (setSeqNo sq (setFlags FLG_ACK h)) b1 # rest))))))"

definition newBuf :: "(rssi, buf) sem" where
  "newBuf = reading r_env (\<lambda>e.
     andThen (upd (\<lambda>r. r\<lparr>r_env := e\<lparr>e_allocs := e_allocs e + 1\<rparr>\<rparr>))
       (ret (b_fresh (e_mem e (e_allocs e)))))"

text \<open>A new segment with a header and no data.\<close>

definition ctlSeg :: "u8 \<Rightarrow> (rssi \<Rightarrow> u8) \<Rightarrow> (rssi, chain) sem" where
  "ctlSeg flags sq = bnd newBuf (\<lambda>b.
     case hdr_ini (b_avail b) False SET (b_view b) of
       (Inl e, _) \<Rightarrow> raise e
     | (Inr _, h) \<Rightarrow> reading sq (\<lambda>n.
         let h' = setSeqNo n (setFlags flags h) in
         case b_setSize (unat (getHSize h')) (b_setView h' b) of
           (Inl e, _) \<Rightarrow> raise e
         | (Inr _, b') \<Rightarrow> ret [b']))"

definition incSeqSent :: "(rssi, unit) sem" where
  "incSeqSent = upd (\<lambda>r. r\<lparr>r_lastSeqSent := r_lastSeqSent r + 1\<rparr>)"

definition sendACK :: "(rssi, unit) sem" where
  "sendACK = bnd (ctlSeg FLG_ACK (\<lambda>r. r_lastSeqSent r + 1)) (\<lambda>bc. bnd (sendBuf bc) (\<lambda>_. ret ()))"

definition sendRST :: "(rssi, unit) sem" where
  "sendRST = andThen incSeqSent
     (bnd (ctlSeg (FLG_ACK OR FLG_RST) r_lastSeqSent) (\<lambda>bc. bnd (sendBuf bc) (\<lambda>_. ret ())))"

definition sendNUL :: "(rssi, bool) sem" where
  "sendNUL =
     cond (\<lambda>r. r_peerOssMX r \<le> ring_size (r_unAcked r))
       (andThen (bump skippedNULs_update)
         (andThen (armRel NulT r_nulTO) (andThen sendACK (ret False))))
       (andThen incSeqSent
         (bnd (ctlSeg (FLG_ACK OR FLG_NUL) r_lastSeqSent) (\<lambda>bc.
           andThen (sendBufAndKeepForRetransmission bc) (ret True))))"

text \<open>The size to advertise: forced, or what the querier says less a header, or the default;
  the default also for a size that is not positive.\<close>

definition maxSegSize :: "rssi \<Rightarrow> int" where
  "maxSegSize r =
     (let n = (if cf_forcedSegsMax (r_cfg r) \<noteq> 0 then sint (cf_forcedSegsMax (r_cfg r))
               else case r_mtu r of Some m \<Rightarrow> m - 8 | None \<Rightarrow> int MAX_SEGMENT_SIZE)
      in if n \<le> 0 then int MAX_SEGMENT_SIZE else n)"

definition synParams :: "bool \<Rightarrow> rssi \<Rightarrow> syn_params" where
  "synParams doAck r = \<lparr>
     sp_flags = (if doAck then FLG_SYN OR FLG_ACK else FLG_SYN),
     sp_seqNo = r_lastSeqSent r,
     sp_xflgs = (if r_addChecksum r then XFL_ONE OR XFL_CHK else XFL_ONE),
     sp_ossMX = of_nat (r_maxUnackedSegs r),
     sp_sgsMX = word_of_int (maxSegSize r),
     sp_osaMX = 0,
     sp_conID = r_conID r,
     sp_rexTO = ucast (to_getUs (r_rexTO r) div ucast (r_units r)),
     sp_cakTO = ucast (to_getUs (r_cakTO r) div ucast (r_units r)),
     sp_nulTO = ucast (getNulTimeout r div ucast (r_units r)),
     sp_rexMX = ucast (r_rexMX r),
     sp_cakMX = word_of_int (r_cakMX r),
     sp_units = ucast (r_unitExp r)\<rparr>"

definition initialSeqNo :: "rssi \<Rightarrow> u8" where
  "initialSeqNo r =
     word_of_int (e_time (r_env r)) XOR (if r_isServer r then -1 else 0)"

definition sendSYN :: "bool \<Rightarrow> (rssi, unit) sem" where
  "sendSYN doAck = bnd newBuf (\<lambda>b.
     case syn_ini (b_avail b) False SET (b_view b) of
       (Inl e, _) \<Rightarrow> raise e
     | (Inr _, h) \<Rightarrow>
        andThen (upd (\<lambda>r. r\<lparr>r_lastSeqSent := initialSeqNo r\<rparr>))
          (reading (synParams doAck) (\<lambda>p.
            let h' = put_syn p h in
            andThen (upd (\<lambda>r. r\<lparr>r_unAcked := win_seed (r_lastSeqSent r) (r_unAcked r)\<rparr>))
              (case b_setSize (unat (getHSize h')) (b_setView h' b) of
                 (Inl e, _) \<Rightarrow> raise e
               | (Inr _, b') \<Rightarrow> sendBufAndKeepForRetransmission [b']))))"

section \<open>Acknowledgements and negotiation\<close>

definition processAckNumber :: "u8 \<Rightarrow> u8 \<Rightarrow> (rssi, unit) sem" where
  "processAckNumber flags ackNo =
     (if hasFlag FLG_ACK flags then seqs [
        reading (\<lambda>r. ring_ack ackNo (r_unAcked r)) (\<lambda>(acked, w).
          andThen (upd (\<lambda>r. r\<lparr>r_unAcked := w\<rparr>))
            (if 0 < acked
             then upd (\<lambda>r. r\<lparr>r_numRex := 0, r_stats := numSegsAckedByPeer_update
                    (\<lambda>n. n + word_of_int acked) (r_stats r)\<rparr>)
             else ret ())),
        cond (\<lambda>r. ring_size (r_unAcked r) = 0)
          (andThen (cancelT RexT) (upd (\<lambda>r. r\<lparr>r_numRex := 0\<rparr>))) (ret ())]
      else ret ())"

definition forceACK :: "(rssi, unit) sem" where
  "forceACK = upd (\<lambda>r. r\<lparr>r_numCak := r_cakMX r\<rparr>)"

fun pow10_loop :: "nat \<Rightarrow> u32 \<Rightarrow> u32" where
  "pow10_loop 0 u = u"
| "pow10_loop (Suc n) u = pow10_loop n (u * 10)"

definition growUnAcked :: "(rssi, unit) sem" where
  "growUnAcked = cond (\<lambda>r. w_capa (r_unAcked r) < r_peerOssMX r)
     (reading (\<lambda>r. ring_resize (r_peerOssMX r) (r_unAcked r)) (\<lambda>x. case x of
        Inl e \<Rightarrow> raise e | Inr w \<Rightarrow> upd (\<lambda>r. r\<lparr>r_unAcked := w\<rparr>)))
     (ret ())"

definition acceptParams :: "u8 list \<Rightarrow> (rssi, unit) sem" where
  "acceptParams h =
     (let chk = hasFlag XFL_CHK (getXflgs h); u = pow10_loop (6 - unat (getUnits h)) 1 in seqs [
        upd (\<lambda>r. r\<lparr>r_verifyChecksum := chk, r_addChecksum := chk\<rparr>),
        (if 6 < getUnits h then raise (InternalError ''Cannot handle time units less than 1us'')
         else ret ()),
        upd (\<lambda>r. r\<lparr>r_units := u,
          r_rexTO := to_set (ucast (ucast (getRexTO h) * u)),
          r_cakTO := to_set (ucast (ucast (getCakTO h) * u))\<rparr>),
        setNulTimeout (ucast (ucast (getNulTO h) * u)),
        upd (\<lambda>r. r\<lparr>r_rexMX := ucast (getRexMX h), r_cakMX := uint (getCakMX h)\<rparr>)])"

definition extractConnectionParams :: "u8 list \<Rightarrow> bool \<Rightarrow> (rssi, unit) sem" where
  "extractConnectionParams h acceptNegotiated = seqs [
     upd (\<lambda>r. r\<lparr>r_peerOssMX := unat (getOssMX h)\<rparr>),
     upd (\<lambda>r. r\<lparr>r_peerSgsMX := unat (getSgsMX h)\<rparr>),
     growUnAcked,
     cond (\<lambda>r. acceptNegotiated \<or> \<not> r_isServer r) (acceptParams h) (ret ())]"

end
