(* ===== verification/RssiStates.thy ===== *)
theory RssiStates
  imports Rssi
begin

text \<open>
  The states of the RSSI protocol (\<^verbatim>\<open>src/src/cpsw_rssi_states.cc\<close>): what each of them does
  with a segment from the peer, with data and space from the user, and with the timers.
  The virtual methods take the state they are called on. \<open>advance\<close> is one round of the
  thread; the event it waits for is its argument.
\<close>

datatype revent = EvRx | EvUsrIn | EvUsrOut | EvTimeout

section \<open>Reassembly\<close>

text \<open>The loop ends when no segment is next in order or the output queue is full; the fuel
  bounds it by the number of slots.\<close>

definition stripHeader :: "chain \<Rightarrow> (exn + chain)" where
  "stripHeader bc = (case bc of
     [] \<Rightarrow> Inl (Undefined ''no head'')
   | b # rest \<Rightarrow>
      (case b_setPayload (Some (int (b_beg b) + int (unat (getHSize (b_view b))))) b of
         (Inl e, _) \<Rightarrow> Inl e
       | (Inr _, b') \<Rightarrow> Inr (b' # rest)))"

definition popUnOrdered :: "(rssi, unit) sem" where
  "popUnOrdered = upd (\<lambda>r. r\<lparr>r_unOrdered := snd (win_pop (r_unOrdered r))\<rparr>)"

definition isNul :: "chain \<Rightarrow> bool" where
  "isNul bc \<longleftrightarrow> hasFlag FLG_NUL (getFlags (b_view (hd bc)))"

fun drain_loop :: "nat \<Rightarrow> (rssi, unit) sem" where
  "drain_loop 0 = raise Diverges"
| "drain_loop (Suc n) = reading (\<lambda>r. win_peek (r_unOrdered r)) (\<lambda>p. case p of
     None \<Rightarrow> ret ()
   | Some bc \<Rightarrow>
      if bc = [] then raise (Undefined ''no head'')
      else if isNul bc then andThen popUnOrdered (drain_loop n)
      else cond (\<lambda>r. \<not> bufq_isFull (r_outQ r))
        (andThen popUnOrdered
          (bnd (liftR (stripHeader bc)) (\<lambda>d.
            bnd (onOutQ (tryPush d)) (\<lambda>ok.
              if \<not> ok then raise (InternalError ''RSSI output queue should not be full!'')
              else andThen (bump numSegsGivenToUser_update) (drain_loop n)))))
        (upd (\<lambda>r. r\<lparr>r_usrO := True\<rparr>)))"

definition drain_open :: "(rssi, unit) sem" where
  "drain_open = andThen (reading (\<lambda>r. w_capa (r_unOrdered r) + 1) drain_loop)
     (upd (\<lambda>r. r\<lparr>r_lastSeqRecv := reasm_getLastInOrder (r_unOrdered r)\<rparr>))"

definition drainReassembleBuffer :: "rstate \<Rightarrow> (rssi, unit) sem" where
  "drainReassembleBuffer st = (if st \<in> {OPEN, OPEN_OUTWIN_FULL} then drain_open else ret ())"

section \<open>Data to send\<close>

definition hasBufToSend :: "rstate \<Rightarrow> (rssi, chain option) sem" where
  "hasBufToSend st =
     (if st \<in> {OPEN, OPEN_OUTWIN_FULL}
      then cond (\<lambda>r. ring_size (r_unAcked r) < r_peerOssMX r) (onInpQ tryPop) (ret None)
      else ret None)"

definition sendDatOrAck :: "rstate \<Rightarrow> (rssi, unit) sem" where
  "sendDatOrAck st = bnd (hasBufToSend st) (\<lambda>b. case b of Some bc \<Rightarrow> sendDAT bc | None \<Rightarrow> sendACK)"

section \<open>Retransmission\<close>

text \<open>The iterator goes from the read to the write position; sending writes to the header of
  the segment the slot holds.\<close>

fun rex_loop :: "nat \<Rightarrow> nat \<Rightarrow> (rssi, unit) sem" where
  "rex_loop i 0 = ret ()"
| "rex_loop i (Suc n) = reading r_unAcked (\<lambda>w. case w_buf w ! ring_slot w i of
     None \<Rightarrow> ret ()
   | Some bc \<Rightarrow> andThen (bump rexSegments_update)
       (bnd (sendBuf bc) (\<lambda>bc'.
         andThen (upd (\<lambda>r. r\<lparr>r_unAcked := (r_unAcked r)\<lparr>w_buf :=
             (w_buf (r_unAcked r))[ring_slot (r_unAcked r) i := Some bc']\<rparr>\<rparr>))
           (rex_loop (Suc i) n))))"

definition rexAll :: "(rssi, unit) sem" where
  "rexAll =
     cond (\<lambda>r. 0 < ring_size (r_unAcked r) \<and> w_buf (r_unAcked r) ! ring_slot (r_unAcked r) 0 \<noteq> None)
       (andThen (reading (\<lambda>r. ring_size (r_unAcked r)) (rex_loop 0)) armRexAndNulTimer)
       (ret ())"

definition st_processRetransmissionTimeout :: "(rssi, unit) sem" where
  "st_processRetransmissionTimeout =
     andThen (upd (\<lambda>r. r\<lparr>r_numRex := r_numRex r + 1\<rparr>))
       (cond (\<lambda>r. r_rexMX r < r_numRex r)
         (seqs [bump connFailed_update, sendRST, changeState CLOSED])
         rexAll)"

section \<open>Segments of the peer\<close>

definition wait_extractConnectionParams :: "rstate \<Rightarrow> u8 list \<Rightarrow> (rssi, unit) sem" where
  "wait_extractConnectionParams st h = extractConnectionParams h (st = CLNT_WAIT_SYN_ACK)"

definition seedUnOrdered :: "u8 list \<Rightarrow> (rssi, unit) sem" where
  "seedUnOrdered h = upd (\<lambda>r. r\<lparr>r_lastSeqRecv := getSeqNo h,
     r_unOrdered := win_seed (nxtSeqNo (getSeqNo h)) (r_unOrdered r)\<rparr>)"

definition handleSYN_listen :: "u8 list \<Rightarrow> (rssi, bool) sem" where
  "handleSYN_listen h = andThen (seqs [
     wait_extractConnectionParams LISTEN h,
     seedUnOrdered h,
     sendSYN True,
     upd (\<lambda>r. r\<lparr>r_numCak := r_numCak r - 1\<rparr>),
     changeState SERV_WAIT_SYN_ACK]) (ret True)"

definition handleSYN_clnt :: "u8 list \<Rightarrow> (rssi, bool) sem" where
  "handleSYN_clnt h = andThen (wait_extractConnectionParams CLNT_WAIT_SYN_ACK h)
     (if \<not> hasFlag FLG_ACK (getFlags h)
      then andThen sendRST (andThen (changeState CLOSED) (ret False))
      else andThen (seqs [
        seedUnOrdered h,
        forceACK,
        cond (\<lambda>r. getAckNo h = r_lastSeqSent r) (changeState PREP_OPEN) (ret ())]) (ret True))"

definition handleSYN :: "rstate \<Rightarrow> u8 list \<Rightarrow> (rssi, bool) sem" where
  "handleSYN st h = (case st of
     LISTEN \<Rightarrow> handleSYN_listen h
   | CLNT_WAIT_SYN_ACK \<Rightarrow> handleSYN_clnt h
   | _ \<Rightarrow> andThen forceACK (ret True))"

definition handleOTH_notclosed :: "u8 list \<Rightarrow> bool \<Rightarrow> (rssi, bool) sem" where
  "handleOTH_notclosed h hasPayload =
     (if isPureAck h \<and> \<not> hasPayload
      then andThen (upd (\<lambda>r. r\<lparr>r_numCak := r_numCak r - 1\<rparr>)) (ret True)
      else if hasFlag FLG_NUL (getFlags h)
      then cond (\<lambda>r. r_isServer r \<and> \<not> hasPayload) (andThen forceACK (ret True)) (ret False)
      else if hasFlag FLG_RST (getFlags h) then andThen (changeState CLOSED) (ret True)
      else ret hasPayload)"

definition handleOTH_wait :: "u8 list \<Rightarrow> bool \<Rightarrow> (rssi, bool) sem" where
  "handleOTH_wait h hasPayload =
     cond (\<lambda>r. hasFlag FLG_RST (getFlags h) \<and> reasm_canAccept (getSeqNo h) (r_unOrdered r) \<and> \<not> hasPayload)
       (andThen sendRST (andThen (changeState CLOSED) (ret True)))
       (ret False)"

definition handleOTH :: "rstate \<Rightarrow> u8 list \<Rightarrow> bool \<Rightarrow> (rssi, bool) sem" where
  "handleOTH st h hasPayload =
     (if st \<in> {LISTEN, CLNT_WAIT_SYN_ACK} then handleOTH_wait h hasPayload
      else handleOTH_notclosed h hasPayload)"

definition onBadHeader :: "(rssi, 'a) sem \<Rightarrow> exn \<Rightarrow> (rssi, 'a) sem option" where
  "onBadHeader k e = (case e of BadHeader _ \<Rightarrow> Some k | _ \<Rightarrow> None)"

definition storeUnOrdered :: "u8 \<Rightarrow> chain \<Rightarrow> (rssi, unit) sem" where
  "storeUnOrdered sq bc = reading (\<lambda>r. reasm_store sq (Some bc) (r_unOrdered r)) (\<lambda>x. case x of
     Inl e \<Rightarrow> raise e | Inr w \<Rightarrow> upd (\<lambda>r. r\<lparr>r_unOrdered := w\<rparr>))"

text \<open>Whether the segment has to be acknowledged at once, by timer, or not at all.\<close>

definition rx_ack :: "rstate \<Rightarrow> (rssi, unit) sem" where
  "rx_ack st = seqs [
     upd (\<lambda>r. r\<lparr>r_numCak := r_numCak r + 1\<rparr>),
     cond (\<lambda>r. r_cakMX r < r_numCak r) (sendDatOrAck st)
       (cond (\<lambda>r. r_numCak r = 1) (armRel AckT r_cakTO) (ret ())),
     cond r_isServer (armRel NulT r_nulTO) (ret ())]"

definition rx_busy :: "rstate \<Rightarrow> bool \<Rightarrow> (rssi, unit) sem" where
  "rx_busy st nowBSY = reading r_peerBSY (\<lambda>wasBSY. seqs [
     upd (\<lambda>r. r\<lparr>r_peerBSY := nowBSY\<rparr>),
     (if nowBSY
      then andThen (bump busyFlagsCountedRx_update) (if \<not> wasBSY then cancelT RexT else ret ())
      else ret ()),
     cond (\<lambda>r. wasBSY \<and> \<not> r_peerBSY r \<and> 0 < ring_size (r_unAcked r))
       (andThen (bump busyDeassertRex_update) st_processRetransmissionTimeout)
       (rx_ack st)])"

definition rx_store :: "rstate \<Rightarrow> chain \<Rightarrow> u8 list \<Rightarrow> (rssi, unit) sem" where
  "rx_store st bc h = cond (\<lambda>r. reasm_canAccept (getSeqNo h) (r_unOrdered r))
     (andThen (storeUnOrdered (getSeqNo h) bc) (drainReassembleBuffer st))
     (bump rejectedSegs_update)"

definition rx_accepted :: "rstate \<Rightarrow> chain \<Rightarrow> u8 list \<Rightarrow> bool \<Rightarrow> (rssi, unit) sem" where
  "rx_accepted st bc h hasPayload = seqs [
     processAckNumber (getFlags h) (getAckNo h),
     (if hasPayload \<or> hasFlag FLG_NUL (getFlags h) then rx_store st bc h else ret ()),
     rx_busy st (hasFlag FLG_BSY (getFlags h))]"

definition rx_dispatch :: "rstate \<Rightarrow> buf \<Rightarrow> u8 list \<Rightarrow> bool \<Rightarrow> (rssi, bool) sem" where
  "rx_dispatch st b h hasPayload =
     (if hasFlag FLG_SYN (getFlags h)
      then tryCatch
        (bnd (liftR (fst (syn_ini (b_size b) False READ h))) (\<lambda>_. handleSYN st h))
        (onBadHeader (andThen (bump badSynDropped_update) (ret False)))
      else bnd (handleOTH st h hasPayload) (\<lambda>ok.
        if ok then ret True else andThen (bump rejectedSegs_update) (ret False)))"

definition rx_segment :: "rstate \<Rightarrow> chain \<Rightarrow> (rssi, unit) sem" where
  "rx_segment st bc = (case bc of
     [] \<Rightarrow> raise (Undefined ''no head'')
   | b # rest \<Rightarrow> reading r_verifyChecksum (\<lambda>verify.
       case hdr_ini (b_size b) verify READ (b_view b) of
         (Inl e, _) \<Rightarrow> raise e
       | (Inr chkOk, h) \<Rightarrow>
          if \<not> chkOk then bump badChecksum_update
          else
            let hasPayload = unat (getHSize h) < b_size b in
            bnd (rx_dispatch st b h hasPayload) (\<lambda>go.
              if go then rx_accepted st bc h hasPayload else ret ())))"

definition tryPopUpstream :: "(rssi, chain option) sem" where
  "tryPopUpstream = reading r_env (\<lambda>e. case e_rxQ e of
     [] \<Rightarrow> ret None
   | bc # q \<Rightarrow> andThen (upd (\<lambda>r. r\<lparr>r_env := e\<lparr>e_rxQ := q\<rparr>\<rparr>)) (ret (Some bc)))"

definition handleRx_notclosed :: "rstate \<Rightarrow> (rssi, unit) sem" where
  "handleRx_notclosed st = bnd tryPopUpstream (\<lambda>m. case m of
     None \<Rightarrow> raise (InternalError ''Spurious wakeup ??'')
   | Some bc \<Rightarrow>
      if c_size bc < minHeaderSize then ret ()
      else tryCatch (rx_segment st bc) (onBadHeader (bump badHdrDropped_update)))"

definition handleRx_servWait :: "(rssi, unit) sem" where
  "handleRx_servWait = andThen (handleRx_notclosed SERV_WAIT_SYN_ACK)
     (cond (\<lambda>r. ring_size (r_unAcked r) = 0)
       (seqs [resetReopenDelay, changeState PREP_OPEN, armRel NulT r_nulTO])
       (ret ()))"

definition handleRx_outwinFull :: "(rssi, unit) sem" where
  "handleRx_outwinFull = andThen (handleRx_notclosed OPEN_OUTWIN_FULL)
     (cond (\<lambda>r. ring_size (r_unAcked r) < r_peerOssMX r)
       (andThen (upd (\<lambda>r. r\<lparr>r_usrI := True\<rparr>)) (changeState OPEN))
       (ret ()))"

definition handleRxEvent :: "rstate \<Rightarrow> (rssi, unit) sem" where
  "handleRxEvent st = (case st of
     CLOSED \<Rightarrow> raise (InternalError ''RxEvent unexpected in this state'')
   | SERV_WAIT_SYN_ACK \<Rightarrow> handleRx_servWait
   | OPEN_OUTWIN_FULL \<Rightarrow> handleRx_outwinFull
   | _ \<Rightarrow> handleRx_notclosed st)"

section \<open>The user's queues\<close>

fun usrInput_loop :: "nat \<Rightarrow> (rssi, unit) sem" where
  "usrInput_loop 0 = raise Diverges"
| "usrInput_loop (Suc n) =
     cond (\<lambda>r. ring_size (r_unAcked r) < r_peerOssMX r)
       (bnd (onInpQ tryPop) (\<lambda>b. case b of
          None \<Rightarrow> ret ()
        | Some bc \<Rightarrow> andThen (sendDAT bc) (usrInput_loop n)))
       (andThen (upd (\<lambda>r. r\<lparr>r_usrI := False\<rparr>)) (changeState OPEN_OUTWIN_FULL))"

definition handleUsrInputEvent :: "rstate \<Rightarrow> (rssi, unit) sem" where
  "handleUsrInputEvent st =
     (if st \<in> {OPEN, OPEN_OUTWIN_FULL}
      then reading (\<lambda>r. r_peerOssMX r + 1) usrInput_loop
      else raise (InternalError ''UsrInputEvent unexpected in this state''))"

definition handleUsrOutputEvent :: "rstate \<Rightarrow> (rssi, unit) sem" where
  "handleUsrOutputEvent st =
     (if st \<in> {OPEN, OPEN_OUTWIN_FULL}
      then seqs [
        upd (\<lambda>r. r\<lparr>r_usrO := False\<rparr>),
        drainReassembleBuffer st,
        cond (\<lambda>r. \<not> r_usrO r) sendACK (ret ())]
      else raise (InternalError ''UsrOutputEvent unexpected in this state''))"

section \<open>Timeouts\<close>

definition processRetransmissionTimeout :: "rstate \<Rightarrow> (rssi, unit) sem" where
  "processRetransmissionTimeout st = andThen (bump rexTimeouts_update)
     (if st = CLOSED then raise (InternalError ''RETRANSMISSIONTimeout unexpected in this state'')
      else st_processRetransmissionTimeout)"

definition processAckTimeout :: "rstate \<Rightarrow> (rssi, unit) sem" where
  "processAckTimeout st = andThen (bump ackTimeouts_update)
     (if st \<in> {OPEN, OPEN_OUTWIN_FULL} then sendDatOrAck st
      else raise (InternalError ''ACKTimeout unexpected in this state''))"

definition processNulTimeout :: "rstate \<Rightarrow> (rssi, unit) sem" where
  "processNulTimeout st = andThen (bump nulTimeouts_update)
     (if st \<in> {OPEN, OPEN_OUTWIN_FULL}
      then cond r_isServer
        (seqs [bump connFailed_update, sendRST, changeState CLOSED])
        (bnd sendNUL (\<lambda>ok. if \<not> ok
           then andThen (upd (\<lambda>r. r\<lparr>r_usrI := False\<rparr>)) (changeState OPEN_OUTWIN_FULL)
           else ret ()))
      else raise (InternalError ''NULTimeout unexpected in this state''))"

definition timer_process :: "rstate \<Rightarrow> timer_id \<Rightarrow> (rssi, unit) sem" where
  "timer_process st t = (case t of
     RexT \<Rightarrow> processRetransmissionTimeout st
   | AckT \<Rightarrow> processAckTimeout st
   | NulT \<Rightarrow> processNulTimeout st)"

section \<open>The thread\<close>

definition advance_closed :: "(rssi, unit) sem" where
  "advance_closed = seqs [
     rssi_close,
     rssi_open,
     cond r_isServer (changeState LISTEN)
       (seqs [increaseReopenDelay, sendSYN False, changeState CLNT_WAIT_SYN_ACK])]"

definition advance_notclosed :: "rstate \<Rightarrow> bool \<Rightarrow> revent \<Rightarrow> (rssi, unit) sem" where
  "advance_notclosed st checkTimer ev = reading (\<lambda>r. timer_first (r_timers r)) (\<lambda>t.
     if t = None \<and> checkTimer then raise (InternalError ''RSSI: no timer active!'')
     else case ev of
       EvRx \<Rightarrow> handleRxEvent st
     | EvUsrIn \<Rightarrow> handleUsrInputEvent st
     | EvUsrOut \<Rightarrow> handleUsrOutputEvent st
     | EvTimeout \<Rightarrow> (case t of
          None \<Rightarrow> raise (Undefined ''no timer'')
        | Some (tid, _) \<Rightarrow> andThen (cancelT tid) (timer_process st tid)))"

definition advance_prepOpen :: "(rssi, unit) sem" where
  "advance_prepOpen = andThen (upd (\<lambda>r. r\<lparr>r_usrI := True\<rparr>)) (changeState OPEN)"

definition advance :: "revent \<Rightarrow> (rssi, unit) sem" where
  "advance ev = reading r_state (\<lambda>st. case st of
     CLOSED \<Rightarrow> advance_closed
   | LISTEN \<Rightarrow> advance_notclosed LISTEN False ev
   | PREP_OPEN \<Rightarrow> advance_prepOpen
   | _ \<Rightarrow> advance_notclosed st True ev)"

fun threadBody :: "revent list \<Rightarrow> (rssi, unit) sem" where
  "threadBody [] = ret ()"
| "threadBody (ev # evs) = andThen (advance ev) (threadBody evs)"

definition st_shutdown :: "rstate \<Rightarrow> (rssi, unit) sem" where
  "st_shutdown st = (if st \<in> {CLOSED, LISTEN} then ret () else sendRST)"

definition threadStop :: "(rssi, unit) sem" where
  "threadStop = seqs [
     reading r_state st_shutdown,
     rssi_close,
     upd (\<lambda>r. r\<lparr>r_state := CLOSED\<rparr>)]"

section \<open>Steps\<close>

text \<open>
  A step of the connection: the environment delivers a segment, the user of the connection
  pushes or pops, time passes, or the thread makes a round for an event that is pending.
  A round that throws ends the thread and is no step.
\<close>

definition ev_enabled :: "revent \<Rightarrow> rssi \<Rightarrow> bool" where
  "ev_enabled ev r = (case ev of
     EvRx \<Rightarrow> e_rxQ (r_env r) \<noteq> []
   | EvUsrIn \<Rightarrow> r_usrI r \<and> \<not> bufq_isEmpty (r_inpQ r)
   | EvUsrOut \<Rightarrow> r_usrO r \<and> \<not> bufq_isFull (r_outQ r)
   | EvTimeout \<Rightarrow> (case timer_first (r_timers r) of
        None \<Rightarrow> False | Some (_, d) \<Rightarrow> \<not> to_isIndefinite d \<and> d \<le> e_now (r_env r)))"

inductive rssi_step :: "rssi \<Rightarrow> rssi \<Rightarrow> bool" where
  step_rx: "rssi_step r (r\<lparr>r_env := (r_env r)\<lparr>e_rxQ := e_rxQ (r_env r) @ [bc]\<rparr>\<rparr>)"
| step_tick: "e_now (r_env r) \<le> t \<Longrightarrow> rssi_step r (r\<lparr>r_env := (r_env r)\<lparr>e_now := t, e_time := s\<rparr>\<rparr>)"
| step_push: "tryPush bc (r_inpQ r) = (Inr b, q) \<Longrightarrow> rssi_step r (r\<lparr>r_inpQ := q\<rparr>)"
| step_pop: "tryPop (r_outQ r) = (Inr b, q) \<Longrightarrow> rssi_step r (r\<lparr>r_outQ := q\<rparr>)"
| step_thread: "r_state r \<in> {CLOSED, PREP_OPEN} \<or> ev_enabled ev r \<Longrightarrow> advance ev r = (Inr (), r')
    \<Longrightarrow> rssi_step r r'"

inductive rssi_reach :: "rssi \<Rightarrow> rssi \<Rightarrow> bool" for r0 where
  reach_init: "rssi_reach r0 r0"
| reach_step: "rssi_reach r0 r \<Longrightarrow> rssi_step r r' \<Longrightarrow> rssi_reach r0 r'"

end
