(* ===== verification/RssiInv.thy ===== *)
theory RssiInv
  imports RssiStates
begin

text \<open>
  The invariant of a connection. \<open>sane\<close> holds of every connection: the windows, the queues
  and the timers are well formed. \<open>bounded\<close> holds from the first round of the thread on: the
  ring never holds more segments than the peer allows (one is always allowed, the SYN).
  The exceptions of \<open>bad_exn\<close> report an inconsistency of the connection itself and are never
  thrown from such a state.
\<close>

definition bad_exn :: "exn \<Rightarrow> bool" where
  "bad_exn e \<longleftrightarrow> e \<in> {Diverges, InternalError ''RingBuf Overflow'',
     InternalError ''Send buffer overflow'',
     InternalError ''RSSI output queue should not be full!'',
     InternalError ''Queue inconsistency???'',
     InternalError ''FATAL ERROR -- unable to pop even though we decremented the semaphore?''}"

section \<open>Triples\<close>

definition hoare :: "('s \<Rightarrow> bool) \<Rightarrow> ('s, 'a) sem \<Rightarrow> ('s \<Rightarrow> bool) \<Rightarrow> bool" where
  "hoare P m I \<longleftrightarrow> (\<forall>s. P s \<longrightarrow> wp m (\<lambda>_. I) (\<lambda>e t. \<not> bad_exn e \<and> I t) s)"

abbreviation keeps :: "('s \<Rightarrow> bool) \<Rightarrow> ('s, 'a) sem \<Rightarrow> bool" where
  "keeps I m \<equiv> hoare I m I"

named_theorems keeps_rules "composition rules of kept invariants"

lemma hoareI: "(\<And>s. P s \<Longrightarrow> wp m (\<lambda>_. I) (\<lambda>e t. \<not> bad_exn e \<and> I t) s) \<Longrightarrow> hoare P m I"
  by (simp add: hoare_def)

lemma hoareD: "hoare P m I \<Longrightarrow> P s \<Longrightarrow> wp m (\<lambda>_. I) (\<lambda>e t. \<not> bad_exn e \<and> I t) s"
  by (simp add: hoare_def)

lemma hoare_weaken: "hoare P m I \<Longrightarrow> (\<And>s. P' s \<Longrightarrow> P s) \<Longrightarrow> hoare P' m I"
  by (simp add: hoare_def)

lemma hoare_post: "hoare P m I \<Longrightarrow> (\<And>s. I s \<Longrightarrow> I' s) \<Longrightarrow> hoare P m I'"
  unfolding hoare_def by (blast intro: wp_mono)

lemma hoare_result: "hoare P m I \<Longrightarrow> P s \<Longrightarrow> m s = (r, t) \<Longrightarrow> I t \<and> (\<forall>e. r = Inl e \<longrightarrow> \<not> bad_exn e)"
  by (cases r) (auto simp: hoare_def wp_def)

lemma k_ret [keeps_rules]: "keeps I (ret a)"
  by (simp add: hoare_def wp_eqs)

lemma k_raise [keeps_rules]: "\<not> bad_exn e \<Longrightarrow> keeps I (raise e)"
  by (simp add: hoare_def wp_eqs)

lemma k_upd: "(\<And>s. I s \<Longrightarrow> I (f s)) \<Longrightarrow> keeps I (upd f)"
  by (simp add: hoare_def wp_eqs)

lemma h_bnd: "hoare P m I \<Longrightarrow> (\<And>a. keeps I (f a)) \<Longrightarrow> hoare P (bnd m f) I"
  unfolding hoare_def wp_bnd by (blast intro: wp_mono)

lemma k_bnd [keeps_rules]: "keeps I m \<Longrightarrow> (\<And>a. keeps I (f a)) \<Longrightarrow> keeps I (bnd m f)"
  by (rule h_bnd)

lemma k_andThen [keeps_rules]: "keeps I m \<Longrightarrow> keeps I n \<Longrightarrow> keeps I (andThen m n)"
  by (simp add: andThen_def k_bnd)

lemma h_andThen: "hoare P m I \<Longrightarrow> keeps I n \<Longrightarrow> hoare P (andThen m n) I"
  by (simp add: andThen_def h_bnd)

lemma k_reading [keeps_rules]: "(\<And>x. keeps I (k x)) \<Longrightarrow> keeps I (reading f k)"
  by (simp add: hoare_def wp_eqs)

lemma h_reading: "(\<And>x. hoare (\<lambda>s. P s \<and> f s = x) (k x) I) \<Longrightarrow> hoare P (reading f k) I"
  by (simp add: hoare_def wp_eqs)

lemma k_cond [keeps_rules]: "keeps I m \<Longrightarrow> keeps I n \<Longrightarrow> keeps I (cond p m n)"
  by (simp add: hoare_def wp_eqs)

lemma h_cond: "hoare (\<lambda>s. P s \<and> p s) m I \<Longrightarrow> hoare (\<lambda>s. P s \<and> \<not> p s) n I \<Longrightarrow> hoare P (cond p m n) I"
  by (simp add: hoare_def wp_eqs)

lemma k_if [keeps_rules]: "(b \<Longrightarrow> keeps I m) \<Longrightarrow> (\<not> b \<Longrightarrow> keeps I n) \<Longrightarrow> keeps I (if b then m else n)"
  by simp

lemma k_Nil [keeps_rules]: "keeps I (seqs [])"
  by (simp add: k_ret)

lemma k_Cons [keeps_rules]: "keeps I m \<Longrightarrow> keeps I (seqs ms) \<Longrightarrow> keeps I (seqs (m # ms))"
  by (simp add: k_andThen)

lemma k_option [keeps_rules]: "(x = None \<Longrightarrow> keeps I m) \<Longrightarrow> (\<And>y. x = Some y \<Longrightarrow> keeps I (n y))
    \<Longrightarrow> keeps I (case x of None \<Rightarrow> m | Some y \<Rightarrow> n y)"
  by (cases x) simp_all

lemma k_sum [keeps_rules]: "(\<And>e. x = Inl e \<Longrightarrow> keeps I (m e)) \<Longrightarrow> (\<And>y. x = Inr y \<Longrightarrow> keeps I (n y))
    \<Longrightarrow> keeps I (case x of Inl e \<Rightarrow> m e | Inr y \<Rightarrow> n y)"
  by (cases x) simp_all

lemma k_list [keeps_rules]: "(x = [] \<Longrightarrow> keeps I m) \<Longrightarrow> (\<And>y ys. x = y # ys \<Longrightarrow> keeps I (n y ys))
    \<Longrightarrow> keeps I (case x of [] \<Rightarrow> m | y # ys \<Rightarrow> n y ys)"
  by (cases x) simp_all

lemma k_prod [keeps_rules]: "(\<And>a b. x = (a, b) \<Longrightarrow> keeps I (n a b)) \<Longrightarrow> keeps I (case x of (a, b) \<Rightarrow> n a b)"
  by (cases x) simp

lemma k_liftR [keeps_rules]: "(\<And>e. r = Inl e \<Longrightarrow> \<not> bad_exn e) \<Longrightarrow> keeps I (liftR r)"
  by (cases r) (simp_all add: hoare_def wp_eqs)

lemma h_tryCatch:
  assumes "hoare P m I" "\<And>e k. h e = Some k \<Longrightarrow> keeps I k"
  shows "hoare P (tryCatch m h) I"
proof (rule hoareI, unfold wp_tryCatch)
  fix s
  assume "P s"
  from hoareD [OF assms(1) this]
  show "wp m (\<lambda>_. I) (\<lambda>e t. case h e of None \<Rightarrow> \<not> bad_exn e \<and> I t
      | Some k \<Rightarrow> wp k (\<lambda>_. I) (\<lambda>e t. \<not> bad_exn e \<and> I t) t) s"
    by (rule wp_mono) (auto split: option.splits dest: assms(2) hoareD)
qed

lemmas k_tryCatch [keeps_rules] = h_tryCatch [where P = I and I = I for I]

section \<open>The invariant\<close>

definition sane :: "rssi \<Rightarrow> bool" where
  "sane r \<longleftrightarrow> ring_ok (r_unAcked r) \<and> reasm_ok (r_unOrdered r) \<and> bufq_ok (r_outQ r)
     \<and> bufq_ok (r_inpQ r) \<and> timers_ok (r_timers r) \<and> 0 < r_maxUnackedSegs r
     \<and> r_maxUnackedSegs r \<le> w_capa (r_unAcked r)"

definition bounded :: "rssi \<Rightarrow> bool" where
  "bounded r \<longleftrightarrow> sane r \<and> r_peerOssMX r \<le> w_capa (r_unAcked r)
     \<and> ring_size (r_unAcked r) \<le> max 1 (r_peerOssMX r)"

text \<open>Bounded, in one of the states of \<open>S\<close>, with at most \<open>n\<close> segments in the ring.\<close>

definition binv :: "rstate set \<Rightarrow> nat \<Rightarrow> rssi \<Rightarrow> bool" where
  "binv S n r \<longleftrightarrow> bounded r \<and> r_state r \<in> S \<and> ring_size (r_unAcked r) \<le> n"

lemmas binv_defs = binv_def bounded_def sane_def

text \<open>What sending changes: the statistics, the counter of unacknowledged segments, the timers
  and the surroundings.\<close>

definition txframe :: "rssi \<Rightarrow> rssi \<Rightarrow> bool" where
  "txframe r t \<longleftrightarrow> (timers_ok (r_timers r) \<longrightarrow> timers_ok (r_timers t))
     \<and> r_cfg t = r_cfg r \<and> r_isServer t = r_isServer r \<and> r_mtu t = r_mtu r
     \<and> r_outQ t = r_outQ r \<and> r_inpQ t = r_inpQ r \<and> r_state t = r_state r
     \<and> r_verifyChecksum t = r_verifyChecksum r \<and> r_addChecksum t = r_addChecksum r
     \<and> r_timerUnits t = r_timerUnits r \<and> r_timerUnitExp t = r_timerUnitExp r
     \<and> r_units t = r_units r \<and> r_unitExp t = r_unitExp r
     \<and> r_maxUnackedSegs t = r_maxUnackedSegs r \<and> r_rexTO t = r_rexTO r
     \<and> r_cakTO t = r_cakTO r \<and> r_nulTO t = r_nulTO r \<and> r_rexMX t = r_rexMX r
     \<and> r_cakMX t = r_cakMX r \<and> r_conID t = r_conID r
     \<and> r_peerOssMX t = r_peerOssMX r \<and> r_peerSgsMX t = r_peerSgsMX r
     \<and> r_numRex t = r_numRex r \<and> r_peerBSY t = r_peerBSY r
     \<and> r_reopenDelay t = r_reopenDelay r \<and> r_lastSeqSent t = r_lastSeqSent r
     \<and> r_lastSeqRecv t = r_lastSeqRecv r \<and> r_unAcked t = r_unAcked r
     \<and> r_unOrdered t = r_unOrdered r \<and> r_usrI t = r_usrI r \<and> r_usrO t = r_usrO r
     \<and> r_connEvents t = r_connEvents r"

lemma txframe_refl: "txframe r r"
  by (simp add: txframe_def)

lemma txframe_trans: "txframe r s \<Longrightarrow> txframe s t \<Longrightarrow> txframe r t"
  by (simp add: txframe_def)

lemma binv_txframe: "binv S n r \<Longrightarrow> txframe r t \<Longrightarrow> binv S n t"
  by (simp add: txframe_def binv_defs)

named_theorems txs "operations that only send"

lemma tx_upd: "(\<And>s. txframe r s \<Longrightarrow> txframe r (f s)) \<Longrightarrow> keeps (txframe r) (upd f)"
  by (rule k_upd)

lemma tx_bump [txs]: "keeps (txframe r) (bump f)"
  unfolding bump_def by (rule k_upd) (simp add: txframe_def)

lemma tx_cancelT [txs]: "keeps (txframe r) (cancelT t)"
  unfolding cancelT_def by (rule k_upd) (simp add: txframe_def)

lemma tx_armRel [txs]: "keeps (txframe r) (armRel t f)"
  unfolding armRel_def by (rule k_upd) (simp add: txframe_def)

lemma tx_armAbs [txs]: "keeps (txframe r) (armAbs t f)"
  unfolding armAbs_def by (rule k_upd) (simp add: txframe_def)

lemma tx_numCak [txs]: "keeps (txframe r) (upd (\<lambda>r. r\<lparr>r_numCak := f r\<rparr>))"
  by (rule k_upd) (simp add: txframe_def)

lemma tx_env [txs]: "keeps (txframe r) (upd (\<lambda>r. r\<lparr>r_env := e\<rparr>))"
  by (rule k_upd) (simp add: txframe_def)

lemma tx_forceACK [txs]: "keeps (txframe r) forceACK"
  unfolding forceACK_def by (rule txs)

lemma tx_armRexAndNulTimer [txs]: "keeps (txframe r) armRexAndNulTimer"
  unfolding armRexAndNulTimer_def by (intro keeps_rules txs)

lemma tx_tryPushUpstream [txs]: "keeps (txframe r) (tryPushUpstream bc)"
  unfolding tryPushUpstream_def Let_def by (intro keeps_rules txs)

lemma tx_sendBuf [txs]: "keeps (txframe r) (sendBuf bc)"
  unfolding sendBuf_def Let_def by (intro keeps_rules txs) (simp_all add: bad_exn_def)

lemma tx_newBuf [txs]: "keeps (txframe r) newBuf"
  unfolding newBuf_def by (intro keeps_rules txs)

lemma hdr_ini_exn: "hdr_ini n c m h = (Inl e, h') \<Longrightarrow> \<exists>x. e = BadHeader x"
  by (auto simp: hdr_ini_def sem_app bnd_def andThen_def split: if_splits sum.splits prod.splits)

lemma syn_ini_exn: "syn_ini n c m h = (Inl e, h') \<Longrightarrow> \<exists>x. e = BadHeader x"
  by (auto simp: syn_ini_def sem_app hdr_ini_len_def bnd_def andThen_def split: if_splits sum.splits prod.splits)

lemma b_setSize_exn: "b_setSize n b = (Inl e, b') \<Longrightarrow> e = InvalidArgError ''requested size too big''"
  by (auto simp: b_setSize_def Let_def sem_app split: if_splits)

lemma b_setPayload_exn:
  "b_setPayload p b = (Inl e, b') \<Longrightarrow> e = InvalidArgError ''requested payload pointer out of range''"
  by (auto simp: b_setPayload_def sem_app split: if_splits option.splits)

lemma not_bad [simp]: "\<not> bad_exn (BadHeader x)" "\<not> bad_exn (InvalidArgError x)" "\<not> bad_exn (Undefined x)"
  by (simp_all add: bad_exn_def)

lemma tx_ctlSeg [txs]: "keeps (txframe r) (ctlSeg flags sq)"
  unfolding ctlSeg_def Let_def
  by (intro keeps_rules txs) (auto dest: hdr_ini_exn b_setSize_exn)

lemma tx_sendACK [txs]: "keeps (txframe r) sendACK"
  unfolding sendACK_def by (intro keeps_rules txs)

text \<open>An operation that only sends keeps what does not depend on what sending changes.\<close>

definition txclosed :: "(rssi \<Rightarrow> bool) \<Rightarrow> bool" where
  "txclosed I \<longleftrightarrow> (\<forall>r t. I r \<longrightarrow> txframe r t \<longrightarrow> I t)"

lemma txclosed_binv [simp]: "txclosed (binv S n)"
  using binv_txframe by (auto simp: txclosed_def)

lemma keeps_tx:
  assumes "\<And>r. keeps (txframe r) m" "txclosed I"
  shows "keeps I m"
proof (rule hoareI)
  fix r
  assume i: "I r"
  from hoareD [OF assms(1) txframe_refl [of r]]
  show "wp m (\<lambda>_. I) (\<lambda>e t. \<not> bad_exn e \<and> I t) r"
    by (rule wp_mono) (use assms(2) i in \<open>auto simp: txclosed_def\<close>)
qed

lemma keeps_sendRST:
  assumes "txclosed I" "\<And>r. I r \<Longrightarrow> I (r\<lparr>r_lastSeqSent := r_lastSeqSent r + 1\<rparr>)"
  shows "keeps I sendRST"
  unfolding sendRST_def incSeqSent_def
  by (intro keeps_rules keeps_tx [OF _ assms(1)] txs k_upd assms(2))

section \<open>Sending and keeping a segment\<close>

lemma txframe_unAcked: "txframe r t \<Longrightarrow> txframe (r\<lparr>r_unAcked := q\<rparr>) (t\<lparr>r_unAcked := q\<rparr>)"
  by (simp add: txframe_def)

lemma sendKeep_spec:
  assumes "ring_ok (r_unAcked r)" "ring_size (r_unAcked r) < w_capa (r_unAcked r)"
  shows "wp (sendBufAndKeepForRetransmission bc)
     (\<lambda>_ t. \<exists>bc' q. ring_push (Some bc') (r_unAcked r) = Inr q \<and> txframe (r\<lparr>r_unAcked := q\<rparr>) t)
     (\<lambda>e t. \<not> bad_exn e \<and> txframe r t) r"
proof -
  have noexn: "wp armRexAndNulTimer (\<lambda>_. txframe r') (\<lambda>e t. False) t" if "txframe r' t" for r' t
    using that by (simp add: armRexAndNulTimer_def armAbs_def wp_eqs txframe_def)
  have step: "wp (andThen (pushUnAcked bc') armRexAndNulTimer)
     (\<lambda>_ t. \<exists>bc' q. ring_push (Some bc') (r_unAcked r) = Inr q \<and> txframe (r\<lparr>r_unAcked := q\<rparr>) t)
     (\<lambda>e t. \<not> bad_exn e \<and> txframe r t) t" if t: "txframe r t" for bc' t
  proof -
    from ring_push_spec [OF assms, of bc'] obtain q where
        q: "ring_push (Some bc') (r_unAcked r) = Inr q" by blast
    have e: "r_unAcked t = r_unAcked r" using t by (simp add: txframe_def)
    show ?thesis
      unfolding wp_andThen pushUnAcked_def wp_reading e q sum.case wp_upd
      by (rule wp_mono [OF noexn [OF txframe_unAcked [OF t]]]) (use q in auto)
  qed
  show ?thesis
    unfolding sendBufAndKeepForRetransmission_def wp_bnd
    by (rule wp_mono [OF hoareD [OF tx_sendBuf txframe_refl]]) (erule step, assumption)
qed

lemma binv_push:
  assumes "binv S n r" "ring_push (Some bc) (r_unAcked r) = Inr q"
    and "ring_size (r_unAcked r) < r_peerOssMX r"
  shows "binv S (Suc n) (r\<lparr>r_unAcked := q\<rparr>) \<and> ring_size q = Suc (ring_size (r_unAcked r))"
proof -
  have ok: "ring_ok (r_unAcked r)" "ring_size (r_unAcked r) < w_capa (r_unAcked r)"
    using assms by (auto simp: binv_defs)
  from ring_push_spec [OF ok, of bc] obtain p where p: "ring_push (Some bc) (r_unAcked r) = Inr p"
      "ring_ok p" "ring_size p = Suc (ring_size (r_unAcked r))" "w_capa p = w_capa (r_unAcked r)"
    by blast
  from p(1) assms(2) have "p = q" by simp
  with p assms(1,3) show ?thesis by (auto simp: binv_defs)
qed

lemma sendKeep_binv:
  assumes "binv S n r" "ring_size (r_unAcked r) < r_peerOssMX r"
  shows "wp (sendBufAndKeepForRetransmission bc)
     (\<lambda>_ t. binv S (Suc n) t \<and> ring_size (r_unAcked t) = Suc (ring_size (r_unAcked r))
        \<and> r_peerOssMX t = r_peerOssMX r)
     (\<lambda>e t. \<not> bad_exn e \<and> binv S n t) r"
proof -
  have ok: "ring_ok (r_unAcked r)" "ring_size (r_unAcked r) < w_capa (r_unAcked r)"
    using assms by (auto simp: binv_defs)
  have a: "binv S (Suc n) t \<and> ring_size (r_unAcked t) = Suc (ring_size (r_unAcked r))
        \<and> r_peerOssMX t = r_peerOssMX r"
    if "ring_push (Some bc') (r_unAcked r) = Inr q" "txframe (r\<lparr>r_unAcked := q\<rparr>) t" for bc' q t
  proof -
    note b = binv_push [OF assms(1) that(1) assms(2)]
    have "binv S (Suc n) t" using b that(2) by (blast intro: binv_txframe)
    with b that(2) show ?thesis by (simp add: txframe_def)
  qed
  show ?thesis
    by (rule wp_mono [OF sendKeep_spec [OF ok]]) 
      (elim exE conjE, erule (1) a, simp add: binv_txframe [OF assms(1)])
qed

lemma sendDAT_binv:
  assumes "binv S n r" "ring_size (r_unAcked r) < r_peerOssMX r"
  shows "wp (sendDAT bc)
     (\<lambda>_ t. binv S (Suc n) t \<and> ring_size (r_unAcked t) = Suc (ring_size (r_unAcked r))
        \<and> r_peerOssMX t = r_peerOssMX r)
     (\<lambda>e t. \<not> bad_exn e \<and> binv S n t) r"
proof -
  have b: "binv S n (r\<lparr>r_lastSeqSent := r_lastSeqSent r + 1\<rparr>)"
    using assms(1) by (simp add: binv_defs)
  show ?thesis
    unfolding sendDAT_def
    using assms(1) sendKeep_binv [OF b] assms(2)
    by (auto simp: wp_eqs versionHSize_def getSupportedVersion_def bad_exn_def
        split: list.splits sum.splits prod.splits dest!: hdr_ini_exn b_setPayload_exn)
qed

lemma binv_mono: "binv S n r \<Longrightarrow> S \<subseteq> S' \<Longrightarrow> n \<le> n' \<Longrightarrow> binv S' n' r"
  by (auto simp: binv_def)

lemma binv_256: "binv S n r \<Longrightarrow> binv S 256 r"
  using ring_ok_size [of "r_unAcked r"] by (auto simp: binv_defs)

lemma h_sendDAT: "hoare (\<lambda>r. binv S 256 r \<and> ring_size (r_unAcked r) < r_peerOssMX r) (sendDAT bc) (binv S 256)"
proof (rule hoareI)
  fix r
  assume "binv S 256 r \<and> ring_size (r_unAcked r) < r_peerOssMX r"
  then have "wp (sendDAT bc) (\<lambda>_ t. binv S (Suc 256) t \<and> ring_size (r_unAcked t) = Suc (ring_size (r_unAcked r))
        \<and> r_peerOssMX t = r_peerOssMX r) (\<lambda>e t. \<not> bad_exn e \<and> binv S 256 t) r"
    using sendDAT_binv by blast
  then show "wp (sendDAT bc) (\<lambda>_. binv S 256) (\<lambda>e t. \<not> bad_exn e \<and> binv S 256 t) r"
    by (rule wp_mono) (auto intro: binv_256)
qed

section \<open>The operations of the states\<close>

named_theorems binvs "operations that keep the invariant"

lemmas binv_tx = keeps_tx [OF _ txclosed_binv]

lemma kb_frame [binvs]:
  "keeps (binv S n) (bump f)" "keeps (binv S n) (cancelT t)" "keeps (binv S n) (armRel t d)"
  "keeps (binv S n) forceACK" "keeps (binv S n) sendACK" "keeps (binv S n) armRexAndNulTimer"
  "keeps (binv S n) (upd (\<lambda>r. r\<lparr>r_numCak := g r\<rparr>))"
  by (rule binv_tx; rule txs)+

lemma kb_sendBuf [binvs]: "keeps (binv S n) (sendBuf bc)"
  by (rule binv_tx) (rule txs)

lemma kb_sendRST [binvs]: "keeps (binv S n) sendRST"
  by (rule keeps_sendRST) (simp_all add: binv_defs)

lemma kb_changeState [binvs]: "st \<in> S \<Longrightarrow> keeps (binv S n) (changeState st)"
  unfolding changeState_def Let_def by (rule k_upd) (simp add: binv_defs)

lemma kb_upds [binvs]:
  "keeps (binv S n) (upd (\<lambda>r. r\<lparr>r_usrI := f r\<rparr>))" "keeps (binv S n) (upd (\<lambda>r. r\<lparr>r_usrO := g r\<rparr>))"
  "keeps (binv S n) (upd (\<lambda>r. r\<lparr>r_numRex := h r\<rparr>))"
  "keeps (binv S n) (upd (\<lambda>r. r\<lparr>r_peerBSY := b r\<rparr>))"
  "keeps (binv S n) (upd (\<lambda>r. r\<lparr>r_lastSeqRecv := c r\<rparr>))"
  "keeps (binv S n) (upd (\<lambda>r. r\<lparr>r_env := d r\<rparr>))"
  "keeps (binv S n) resetReopenDelay"
  by (rule k_upd | simp add: binv_defs resetReopenDelay_def)+

lemma kb_processAckNumber [binvs]: "keeps (binv S n) (processAckNumber flags ackNo)"
proof -
  have "wp (reading (\<lambda>r. ring_ack ackNo (r_unAcked r)) (\<lambda>(acked, w).
          andThen (upd (\<lambda>r. r\<lparr>r_unAcked := w\<rparr>))
            (if 0 < acked
             then upd (\<lambda>r. r\<lparr>r_numRex := 0, r_stats := numSegsAckedByPeer_update
                    (\<lambda>n. n + word_of_int acked) (r_stats r)\<rparr>)
             else ret ()))) (\<lambda>_. binv S n) (\<lambda>e t. \<not> bad_exn e \<and> binv S n t) r" if "binv S n r" for r
  proof -
    have ok: "ring_ok (r_unAcked r)" using that by (simp add: binv_defs)
    obtain a w where aw: "ring_ack ackNo (r_unAcked r) = (a, w)" by (cases "ring_ack ackNo (r_unAcked r)")
    from ring_ack_spec [OF ok, of ackNo] have "binv S n (r\<lparr>r_unAcked := w\<rparr>)"
      using that unfolding aw by (auto simp: binv_defs split: if_splits)
    then show ?thesis by (simp add: wp_eqs aw binv_defs)
  qed
  then show ?thesis
    unfolding processAckNumber_def
    by (intro keeps_rules binvs hoareI) (simp_all add: wp_eqs cancelT_def binv_defs)
qed

lemma kb_storeUnOrdered:
  "hoare (\<lambda>r. binv S n r \<and> reasm_canAccept sq (r_unOrdered r)) (storeUnOrdered sq bc) (binv S n)"
proof (rule hoareI)
  fix r
  assume r: "binv S n r \<and> reasm_canAccept sq (r_unOrdered r)"
  then have "reasm_ok (r_unOrdered r)" by (simp add: binv_defs)
  with r obtain q where "reasm_store sq (Some bc) (r_unOrdered r) = Inr q" "reasm_ok q"
    by (metis reasm_store_spec)
  with r show "wp (storeUnOrdered sq bc) (\<lambda>_. binv S n) (\<lambda>e t. \<not> bad_exn e \<and> binv S n t) r"
    by (simp add: storeUnOrdered_def wp_eqs binv_defs)
qed

lemma kb_popUnOrdered [binvs]: "keeps (binv S n) popUnOrdered"
  unfolding popUnOrdered_def by (rule k_upd) (simp add: binv_defs reasm_pop_ok)

lemma kb_tryPopInp [binvs]: "keeps (binv S n) (onInpQ tryPop)"
proof (rule hoareI)
  fix r
  assume r: "binv S n r"
  then have "bufq_ok (r_inpQ r)" by (simp add: binv_defs)
  then have "wp tryPop (\<lambda>_. bufq_ok) (\<lambda>e t. False) (r_inpQ r)"
    using tryPop_empty [of "r_inpQ r"] tryPop_items [of "r_inpQ r"]
    by (cases "bufq_items (r_inpQ r) = []") (auto simp: wp_def)
  then show "wp (onInpQ tryPop) (\<lambda>_. binv S n) (\<lambda>e t. \<not> bad_exn e \<and> binv S n t) r"
    unfolding wp_zoom by (rule wp_mono) (use r in \<open>auto simp: binv_defs\<close>)
qed

lemma wp_pushOut:
  assumes "binv S n r" "\<not> bufq_isFull (r_outQ r)"
  shows "wp (onOutQ (tryPush d)) (\<lambda>ok t. ok \<and> binv S n t \<and> r_unOrdered t = r_unOrdered r)
    (\<lambda>e t. False) r"
proof -
  have "bufq_ok (r_outQ r)" using assms(1) by (simp add: binv_defs)
  from tryPush_room [OF this assms(2), of d] assms(1) show ?thesis
    by (auto simp: zoom_def wp_def binv_defs)
qed

lemma wp_drain_loop:
  assumes "binv S n r" "occupied (r_unOrdered r) < fuel"
  shows "wp (drain_loop fuel) (\<lambda>_. binv S n) (\<lambda>e t. \<not> bad_exn e \<and> binv S n t) r"
  using assms
proof (induction fuel arbitrary: r)
  case (Suc fuel)
  let ?Q = "\<lambda>_. binv S n" and ?E = "\<lambda>e t. \<not> bad_exn e \<and> binv S n t"
  show ?case
  proof (cases "win_peek (r_unOrdered r)")
    case None
    then show ?thesis using Suc.prems unfolding drain_loop.simps wp_reading by (simp add: wp_ret)
  next
    case (Some bc)
    have w: "win_ok (r_unOrdered r)" using Suc.prems(1) by (simp add: binv_defs reasm_ok_def)
    let ?r = "r\<lparr>r_unOrdered := snd (win_pop (r_unOrdered r))\<rparr>"
    have p: "binv S n ?r" using Suc.prems(1) by (simp add: binv_defs reasm_pop_ok)
    have o: "occupied (r_unOrdered t) < fuel" if "r_unOrdered t = r_unOrdered ?r" for t
      using occupied_pop [OF w] Suc.prems(2) Some that by simp
    have next_loop: "wp (drain_loop fuel) ?Q ?E t" if "binv S n t" "r_unOrdered t = r_unOrdered ?r" for t
      by (rule Suc.IH [OF that(1) o [OF that(2)]])
    have nul: "wp (andThen popUnOrdered (drain_loop fuel)) ?Q ?E r"
      by (simp add: wp_eqs popUnOrdered_def next_loop p)
    have push: "wp (andThen popUnOrdered (bnd (liftR (stripHeader bc)) (\<lambda>d.
        bnd (onOutQ (tryPush d)) (\<lambda>ok.
          if \<not> ok then raise (InternalError ''RSSI output queue should not be full!'')
          else andThen (bump numSegsGivenToUser_update) (drain_loop fuel))))) ?Q ?E r"
      if "\<not> bufq_isFull (r_outQ r)"
    proof -
      have f: "\<not> bufq_isFull (r_outQ ?r)" using that by simp
      have b: "wp (bump numSegsGivenToUser_update) (\<lambda>_. wp (drain_loop fuel) ?Q ?E) ?E t"
        if "binv S n t" "r_unOrdered t = r_unOrdered ?r" for t
      proof -
        have "binv S n (t\<lparr>r_stats := x\<rparr>)" for x using that(1) by (simp add: binv_defs)
        then show ?thesis unfolding bump_def wp_upd using that(2) by (intro next_loop) simp_all
      qed
      have "wp (onOutQ (tryPush d)) (\<lambda>ok. wp (if \<not> ok
            then raise (InternalError ''RSSI output queue should not be full!'')
            else andThen (bump numSegsGivenToUser_update) (drain_loop fuel)) ?Q ?E) ?E ?r" for d
        by (rule wp_mono [OF wp_pushOut [OF p f]]) (simp_all add: wp_andThen b)
      moreover have "\<not> bad_exn e" if "stripHeader bc = Inl e" for e
        using that by (auto simp: stripHeader_def split: list.splits prod.splits sum.splits
            dest!: b_setPayload_exn)
      ultimately show ?thesis
        using p by (simp add: wp_andThen wp_bnd wp_liftR popUnOrdered_def wp_upd split: sum.splits)
    qed
    have full: "binv S n (r\<lparr>r_usrO := True\<rparr>)" using Suc.prems(1) by (simp add: binv_defs)
    show ?thesis
      using Some nul push full Suc.prems(1) unfolding drain_loop.simps wp_reading
      by (simp add: wp_if wp_cond wp_raise wp_upd)
  qed
qed simp

lemma kb_drain [binvs]: "keeps (binv S n) (drainReassembleBuffer st)"
proof -
  have "keeps (binv S n) (reading (\<lambda>r. w_capa (r_unOrdered r) + 1) drain_loop)"
  proof (rule hoareI)
    fix r
    assume r: "binv S n r"
    then have "occupied (r_unOrdered r) < w_capa (r_unOrdered r) + 1"
      using occupied_le [of "r_unOrdered r"] by (simp add: binv_defs reasm_ok_def)
    from wp_drain_loop [OF r this]
    show "wp (reading (\<lambda>r. w_capa (r_unOrdered r) + 1) drain_loop) (\<lambda>_. binv S n)
        (\<lambda>e t. \<not> bad_exn e \<and> binv S n t) r"
      by (simp add: wp_reading del: drain_loop.simps)
  qed
  note drain = this
  show ?thesis
    unfolding drainReassembleBuffer_def drain_open_def by (intro k_if k_andThen drain binvs k_ret)
qed

lemma wp_rex_loop:
  assumes "binv S k r" "i + n \<le> ring_size (r_unAcked r)"
  shows "wp (rex_loop i n) (\<lambda>_. binv S k) (\<lambda>e t. \<not> bad_exn e \<and> binv S k t) r"
  using assms
proof (induction n arbitrary: i r)
  case (Suc n)
  let ?E = "\<lambda>e t. \<not> bad_exn e \<and> binv S k t"
  have wrt: "wp (andThen (upd (\<lambda>r. r\<lparr>r_unAcked := (r_unAcked r)\<lparr>w_buf :=
             (w_buf (r_unAcked r))[ring_slot (r_unAcked r) i := Some bc']\<rparr>\<rparr>)) (rex_loop (Suc i) n))
      (\<lambda>_. binv S k) ?E t" if t: "txframe r t" for t bc'
  proof -
    have e: "r_unAcked t = r_unAcked r" using t by (simp add: txframe_def)
    have ok: "ring_ok (r_unAcked r)" "i < ring_size (r_unAcked r)"
      using Suc.prems by (auto simp: binv_defs)
    have "binv S k t" by (rule binv_txframe [OF Suc.prems(1) t])
    with ring_write_spec [OF ok, of bc'] Suc.prems(2) show ?thesis
      unfolding wp_andThen wp_upd by (intro Suc.IH) (simp_all add: binv_defs e)
  qed
  have send: "wp (andThen (bump rexSegments_update) (bnd (sendBuf bc) (\<lambda>bc'.
         andThen (upd (\<lambda>r. r\<lparr>r_unAcked := (r_unAcked r)\<lparr>w_buf :=
             (w_buf (r_unAcked r))[ring_slot (r_unAcked r) i := Some bc']\<rparr>\<rparr>))
           (rex_loop (Suc i) n)))) (\<lambda>_. binv S k) ?E r" for bc
  proof -
    have 1: "wp (sendBuf bc) (\<lambda>_. txframe r) (\<lambda>e t. \<not> bad_exn e \<and> txframe r t) t" if "txframe r t" for t
      using hoareD [OF tx_sendBuf that] .
    show ?thesis
      unfolding wp_andThen wp_bnd
    proof (rule wp_mono [OF hoareD [OF tx_bump txframe_refl]])
      fix t
      assume "txframe r t"
      from 1 [OF this] show "wp (sendBuf bc) (\<lambda>a. wp (upd (\<lambda>r. r\<lparr>r_unAcked := (r_unAcked r)\<lparr>w_buf :=
             (w_buf (r_unAcked r))[ring_slot (r_unAcked r) i := Some a]\<rparr>\<rparr>))
          (\<lambda>_. wp (rex_loop (Suc i) n) (\<lambda>_. binv S k) ?E) ?E) ?E t"
        by (rule wp_mono) (use wrt binv_txframe [OF Suc.prems(1)] in \<open>auto simp: wp_andThen\<close>)
    qed (use binv_txframe [OF Suc.prems(1)] in auto)
  qed
  show ?case
    unfolding rex_loop.simps wp_reading
    using send Suc.prems(1) by (simp add: wp_ret split: option.splits)
qed (simp add: wp_eqs)

lemma kb_rexAll [binvs]: "keeps (binv S n) rexAll"
proof -
  have "keeps (binv S n) (reading (\<lambda>r. ring_size (r_unAcked r)) (rex_loop 0))"
    by (rule hoareI) (simp only: wp_reading, rule wp_rex_loop, simp_all)
  then show ?thesis unfolding rexAll_def by (intro k_cond k_andThen binvs k_ret)
qed

lemma kb_processRex [binvs]: "CLOSED \<in> S \<Longrightarrow> keeps (binv S n) st_processRetransmissionTimeout"
  unfolding st_processRetransmissionTimeout_def by (intro keeps_rules binvs)

text \<open>Data is only sent by a connection that is open, when the window has room.\<close>

definition room_for :: "rstate \<Rightarrow> nat \<Rightarrow> bool" where
  "room_for st n \<longleftrightarrow> (st \<in> {OPEN, OPEN_OUTWIN_FULL} \<longrightarrow> n = 256)"

lemma inpQ_tryPop_frame:
  "wp (onInpQ tryPop) (\<lambda>_ t. r_unAcked t = r_unAcked r \<and> r_peerOssMX t = r_peerOssMX r)
     (\<lambda>_ t. r_unAcked t = r_unAcked r \<and> r_peerOssMX t = r_peerOssMX r) r"
  by (simp add: wp_def zoom_def split: prod.splits sum.splits)

lemma wp_popDat:
  assumes "binv S n r" "ring_size (r_unAcked r) < r_peerOssMX r"
  shows "wp (onInpQ tryPop) (\<lambda>_ t. binv S n t \<and> ring_size (r_unAcked t) < r_peerOssMX t
      \<and> ring_size (r_unAcked t) = ring_size (r_unAcked r) \<and> r_peerOssMX t = r_peerOssMX r)
     (\<lambda>e t. \<not> bad_exn e \<and> binv S n t) r"
  by (rule wp_mono [OF wp_conj [OF hoareD [OF kb_tryPopInp assms(1)] inpQ_tryPop_frame]])
    (use assms(2) in simp_all)

lemma kb_sendDatOrAck [binvs]:
  assumes "room_for st n"
  shows "keeps (binv S n) (sendDatOrAck st)"
proof (cases "st \<in> {OPEN, OPEN_OUTWIN_FULL}")
  case False
  then have "hasBufToSend st = ret None" by (simp add: hasBufToSend_def)
  then show ?thesis unfolding sendDatOrAck_def by (simp add: binvs)
next
  case True
  then have n: "n = 256" using assms by (simp add: room_for_def)
  show ?thesis
  proof (rule hoareI)
    fix r
    assume r: "binv S n r"
    have ack: "wp sendACK (\<lambda>_. binv S n) (\<lambda>e t. \<not> bad_exn e \<and> binv S n t) t" if "binv S n t" for t
      using hoareD [OF kb_frame(5), of S n t] that by simp
    have dat: "wp (sendDAT bc) (\<lambda>_. binv S n) (\<lambda>e t. \<not> bad_exn e \<and> binv S n t) t"
      if "binv S n t" "ring_size (r_unAcked t) < r_peerOssMX t" for t bc
      using hoareD [OF h_sendDAT, of S t] that by (simp add: n)
    show "wp (sendDatOrAck st) (\<lambda>_. binv S n) (\<lambda>e t. \<not> bad_exn e \<and> binv S n t) r"
    proof (cases "ring_size (r_unAcked r) < r_peerOssMX r")
      case room: True
      show ?thesis
        unfolding sendDatOrAck_def wp_bnd hasBufToSend_def if_P [OF True] wp_cond if_P [OF room]
        by (rule wp_mono [OF wp_popDat [OF r room]]) (auto simp: ack dat split: option.splits)
    next
      case False
      then show ?thesis
        using True by (simp add: sendDatOrAck_def wp_bnd hasBufToSend_def wp_cond wp_ret ack r)
    qed
  qed
qed

lemma kb_rx_ack [binvs]: "room_for st n \<Longrightarrow> keeps (binv S n) (rx_ack st)"
  unfolding rx_ack_def by (intro keeps_rules binvs)

lemma kb_rx_busy [binvs]: "room_for st n \<Longrightarrow> CLOSED \<in> S \<Longrightarrow> keeps (binv S n) (rx_busy st b)"
  unfolding rx_busy_def by (intro keeps_rules binvs)

lemma kb_rx_store [binvs]: "keeps (binv S n) (rx_store st bc h)"
  unfolding rx_store_def
proof (rule h_cond)
  show "hoare (\<lambda>s. binv S n s \<and> reasm_canAccept (getSeqNo h) (r_unOrdered s))
      (andThen (storeUnOrdered (getSeqNo h) bc) (drainReassembleBuffer st)) (binv S n)"
    by (intro h_andThen kb_storeUnOrdered binvs)
  show "hoare (\<lambda>s. binv S n s \<and> \<not> reasm_canAccept (getSeqNo h) (r_unOrdered s))
      (bump rejectedSegs_update) (binv S n)"
    by (rule hoare_weaken [OF kb_frame(1)]) simp
qed

lemma kb_rx_accepted [binvs]:
  "room_for st n \<Longrightarrow> CLOSED \<in> S \<Longrightarrow> keeps (binv S n) (rx_accepted st bc h p)"
  unfolding rx_accepted_def by (intro keeps_rules binvs)

lemma kb_handleOTH [binvs]: "CLOSED \<in> S \<Longrightarrow> keeps (binv S n) (handleOTH st h p)"
  unfolding handleOTH_def handleOTH_wait_def handleOTH_notclosed_def by (intro keeps_rules binvs)

lemma kb_seedUnOrdered [binvs]: "keeps (binv S n) (seedUnOrdered h)"
  unfolding seedUnOrdered_def by (rule k_upd) (simp add: binv_defs reasm_seed_ok)

text \<open>Negotiation is only done while the ring holds at most the SYN.\<close>

lemma kb_acceptParams [binvs]: "keeps (binv S n) (acceptParams h)"
  unfolding acceptParams_def Let_def setNulTimeout_def
  by (intro keeps_rules k_upd) (simp_all add: binv_defs bad_exn_def)

lemma h_growUnAcked:
  assumes "n \<le> 1"
  shows "hoare (\<lambda>r. sane r \<and> r_state r \<in> S \<and> ring_size (r_unAcked r) \<le> n \<and> r_peerOssMX r \<le> 255)
     growUnAcked (binv S n)"
proof (rule hoareI)
  fix r
  assume r: "sane r \<and> r_state r \<in> S \<and> ring_size (r_unAcked r) \<le> n \<and> r_peerOssMX r \<le> 255"
  then have ok: "ring_ok (r_unAcked r)" by (simp add: sane_def)
  have s1: "ring_size (r_unAcked r) \<le> Suc 0" using r assms by simp
  show "wp growUnAcked (\<lambda>_. binv S n) (\<lambda>e t. \<not> bad_exn e \<and> binv S n t) r"
  proof (cases "w_capa (r_unAcked r) < r_peerOssMX r")
    case True
    then have "ring_size (r_unAcked r) \<le> r_peerOssMX r" "r_peerOssMX r \<le> 256"
      using r ring_ok_size [OF ok] by auto
    from ring_resize_spec [OF ok this(2,1)] obtain q where q:
        "ring_resize (r_peerOssMX r) (r_unAcked r) = Inr q" "ring_ok q"
        "ring_list q = ring_list (r_unAcked r)" "r_peerOssMX r \<le> w_capa q" by blast
    have "ring_size q = ring_size (r_unAcked r)" using q(3) by (metis length_ring_list)
    with True r q s1 show ?thesis
      by (simp add: growUnAcked_def wp_eqs binv_defs le_max_iff_disj)
  next
    case False
    with r s1 show ?thesis by (simp add: growUnAcked_def wp_eqs binv_defs le_max_iff_disj)
  qed
qed

lemma kb_extract [binvs]:
  assumes "n \<le> 1"
  shows "keeps (binv S n) (extractConnectionParams h acc)"
proof (rule hoareI)
  fix r
  assume "binv S n r"
  then have "sane r' \<and> r_state r' \<in> S \<and> ring_size (r_unAcked r') \<le> n \<and> r_peerOssMX r' \<le> 255"
    if "r' = r\<lparr>r_peerOssMX := unat (getOssMX h), r_peerSgsMX := unat (getSgsMX h)\<rparr>" for r'
    using unat_bound [of "getOssMX h"] that by (simp add: binv_defs)
  from hoareD [OF h_growUnAcked [OF assms] this [OF refl]]
  have "wp growUnAcked (\<lambda>_. binv S n) (\<lambda>e t. \<not> bad_exn e \<and> binv S n t)
      (r\<lparr>r_peerOssMX := unat (getOssMX h), r_peerSgsMX := unat (getSgsMX h)\<rparr>)" .
  then have "wp growUnAcked (\<lambda>_. wp (cond (\<lambda>r. acc \<or> \<not> r_isServer r) (acceptParams h) (ret ()))
      (\<lambda>_. binv S n) (\<lambda>e t. \<not> bad_exn e \<and> binv S n t)) (\<lambda>e t. \<not> bad_exn e \<and> binv S n t)
      (r\<lparr>r_peerOssMX := unat (getOssMX h), r_peerSgsMX := unat (getSgsMX h)\<rparr>)"
    by (rule wp_mono) (rule hoareD [where P = "binv S n"], intro keeps_rules binvs, simp_all)
  then show "wp (extractConnectionParams h acc) (\<lambda>_. binv S n)
        (\<lambda>e t. \<not> bad_exn e \<and> binv S n t) r"
    by (simp add: extractConnectionParams_def wp_andThen wp_upd wp_ret)
qed

lemma kb_handleSYN_clnt [binvs]:
  "n \<le> 1 \<Longrightarrow> {CLOSED, PREP_OPEN} \<subseteq> S \<Longrightarrow> keeps (binv S n) (handleSYN_clnt h)"
  unfolding handleSYN_clnt_def wait_extractConnectionParams_def
  by (intro keeps_rules binvs) auto

lemma sendSYN_binv:
  assumes "binv S 0 r"
  shows "wp (sendSYN a) (\<lambda>_. binv S 1) (\<lambda>e t. \<not> bad_exn e \<and> binv S 0 t) r"
proof -
  let ?E = "\<lambda>e t. \<not> bad_exn e \<and> binv S 0 t"
  have keep: "wp (sendBufAndKeepForRetransmission bc) (\<lambda>_. binv S 1) ?E s" if s: "binv S 0 s" for s bc
  proof -
    have ok: "ring_ok (r_unAcked s)" "ring_size (r_unAcked s) = 0" using s by (auto simp: binv_defs)
    then have lt: "ring_size (r_unAcked s) < w_capa (r_unAcked s)" using ring_ok_size by fastforce
    have push: "binv S 1 t" if "ring_push (Some bc') (r_unAcked s) = Inr q" "txframe (s\<lparr>r_unAcked := q\<rparr>) t"
      for bc' q t
    proof (rule binv_txframe [OF _ that(2)])
      from ring_push_spec [OF ok(1) lt, of bc'] that(1) have "ring_ok q" "ring_size q = 1"
          "w_capa q = w_capa (r_unAcked s)" by (auto simp: ok(2))
      then show "binv S 1 (s\<lparr>r_unAcked := q\<rparr>)" using s by (simp add: binv_defs)
    qed
    show ?thesis
      by (rule wp_mono [OF sendKeep_spec [OF ok(1) lt]])
        (elim exE conjE, erule (1) push, simp add: binv_txframe [OF s])
  qed
  have upds: "binv S 0 (r\<lparr>r_env := e, r_lastSeqSent := q, r_unAcked := win_seed q (r_unAcked r)\<rparr>)"
      "binv S 0 (r\<lparr>r_env := e\<rparr>)" for e q
    using assms ring_seed_ok [of "r_unAcked r" q] by (auto simp: binv_defs)
  show ?thesis
    unfolding sendSYN_def newBuf_def wp_bnd wp_reading wp_andThen wp_upd wp_ret
    by (auto simp: Let_def wp_reading wp_andThen wp_upd wp_raise upds
        split: prod.splits sum.splits dest!: syn_ini_exn b_setSize_exn intro!: keep [unfolded One_nat_def] upds)
qed

section \<open>A listening server\<close>

text \<open>It has nothing to retransmit until it has answered a SYN.\<close>

definition linv :: "rssi \<Rightarrow> bool" where
  "linv r \<longleftrightarrow> binv {LISTEN, CLOSED} 0 r \<or> binv {SERV_WAIT_SYN_ACK, CLOSED} 1 r"

lemma keeps_linv:
  "keeps (binv {LISTEN, CLOSED} 0) m \<Longrightarrow> keeps (binv {SERV_WAIT_SYN_ACK, CLOSED} 1) m \<Longrightarrow> keeps linv m"
  unfolding hoare_def linv_def by (blast intro: wp_mono)

lemma h_handleSYN_listen: "hoare (binv {LISTEN, CLOSED} 0) (handleSYN_listen h) linv"
proof -
  let ?S = "{LISTEN, CLOSED}"
  have syn: "hoare (binv ?S 0) (andThen (sendSYN True) (andThen (upd (\<lambda>r. r\<lparr>r_numCak := r_numCak r - 1\<rparr>))
      (changeState SERV_WAIT_SYN_ACK))) linv"
  proof (rule hoareI, unfold wp_andThen)
    fix r
    assume "binv ?S 0 r"
    from sendSYN_binv [OF this]
    show "wp (sendSYN True) (\<lambda>_. wp (upd (\<lambda>r. r\<lparr>r_numCak := r_numCak r - 1\<rparr>))
          (\<lambda>_. wp (changeState SERV_WAIT_SYN_ACK) (\<lambda>_. linv) (\<lambda>e t. \<not> bad_exn e \<and> linv t))
          (\<lambda>e t. \<not> bad_exn e \<and> linv t)) (\<lambda>e t. \<not> bad_exn e \<and> linv t) r"
      by (rule wp_mono) (simp_all add: wp_upd changeState_def Let_def linv_def binv_defs)
  qed
  have pre: "keeps (binv ?S 0) (andThen (wait_extractConnectionParams LISTEN h) (seedUnOrdered h))"
    unfolding wait_extractConnectionParams_def by (intro keeps_rules binvs) simp
  have e: "handleSYN_listen h = bnd (andThen (andThen (wait_extractConnectionParams LISTEN h) (seedUnOrdered h))
      (andThen (sendSYN True) (andThen (upd (\<lambda>r. r\<lparr>r_numCak := r_numCak r - 1\<rparr>))
      (changeState SERV_WAIT_SYN_ACK)))) (\<lambda>_. ret True)"
    by (simp add: handleSYN_listen_def andThen_def bnd_assoc)
  have fin: "keeps linv (ret True)" by (rule k_ret)
  have mid: "hoare (binv ?S 0) (andThen (andThen (wait_extractConnectionParams LISTEN h) (seedUnOrdered h))
      (andThen (sendSYN True) (andThen (upd (\<lambda>r. r\<lparr>r_numCak := r_numCak r - 1\<rparr>))
      (changeState SERV_WAIT_SYN_ACK)))) linv"
  proof (rule hoareI)
    fix r
    assume "binv ?S 0 r"
    from hoareD [OF pre this] show "wp (andThen (andThen (wait_extractConnectionParams LISTEN h) (seedUnOrdered h))
      (andThen (sendSYN True) (andThen (upd (\<lambda>r. r\<lparr>r_numCak := r_numCak r - 1\<rparr>))
      (changeState SERV_WAIT_SYN_ACK)))) (\<lambda>_. linv) (\<lambda>e t. \<not> bad_exn e \<and> linv t) r"
      by (subst (1) wp_andThen) (erule wp_mono, erule hoareD [OF syn], simp add: linv_def)
  qed
  show ?thesis unfolding e by (rule h_bnd [OF mid fin])
qed

section \<open>Rounds of the thread\<close>

lemma wp_andThen_fun: "wp (andThen m n) Q E = wp m (\<lambda>_. wp n Q E) E"
  by (rule ext) (rule wp_andThen)

lemma wp_orDiverge: "f s = Some (Inr a, t) \<Longrightarrow> wp (orDiverge f) Q E s = Q a t"
  by (simp add: wp_def orDiverge_def)

lemma cancel_all: "timer_cancel RexT (timer_cancel NulT (timer_cancel AckT ts)) = []"
proof -
  have "t = RexT \<or> t = AckT \<or> t = NulT" for t by (cases t) simp_all
  then show ?thesis by (auto simp: timer_cancel_def filter_empty_conv)
qed

lemma rssi_close_spec:
  assumes "sane r"
  shows "wp rssi_close (\<lambda>_ t. sane t \<and> ring_size (r_unAcked t) = 0 \<and> r_peerOssMX t = r_maxUnackedSegs t
      \<and> r_state t = r_state r \<and> r_isServer t = r_isServer r \<and> r_timers t = [] \<and> \<not> r_peerBSY t
      \<and> \<not> r_usrI t \<and> \<not> r_usrO t \<and> bufq_items (r_outQ t) = [] \<and> bufq_items (r_inpQ t) = []
      \<and> (\<forall>i < w_capa (r_unOrdered t). win (r_unOrdered t) i = None)
      \<and> r_maxUnackedSegs t = r_maxUnackedSegs r \<and> r_conID t = r_conID r + 1) (\<lambda>_ _. False) r"
proof -
  have ok: "bufq_ok (r_outQ r)" "bufq_ok (r_inpQ r)" "ring_ok (r_unAcked r)" "reasm_ok (r_unOrdered r)"
    using assms by (auto simp: sane_def)
  from shutdown_spec [OF ok(1)] obtain qo where qo: "bufq_shutdown (r_outQ r) = Some (Inr (), qo)"
      "bufq_ok qo" "bufq_items qo = []" by blast
  from shutdown_spec [OF ok(2)] obtain qi where qi: "bufq_shutdown (r_inpQ r) = Some (Inr (), qi)"
      "bufq_ok qi" "bufq_items qi = []" by blast
  from ring_purge_spec [OF ok(3)] obtain w where w: "win_purge (r_unAcked r) = Some w" "ring_ok w"
      "ring_size w = 0" "w_capa w = w_capa (r_unAcked r)" by blast
  show ?thesis
    using assms qo qi w reasm_purge_spec [OF ok(4)]
    by (simp add: rssi_close_def wp_eqs wp_orDiverge cancelT_def resetNegotiableParams_def
        setNulTimeout_def purgeUnAcked_def cancel_all sane_def)
qed

definition rinv :: "rssi \<Rightarrow> bool" where
  "rinv r \<longleftrightarrow> (case r_state r of
     CLOSED \<Rightarrow> sane r
   | LISTEN \<Rightarrow> binv UNIV 0 r
   | CLNT_WAIT_SYN_ACK \<Rightarrow> binv UNIV 1 r
   | SERV_WAIT_SYN_ACK \<Rightarrow> binv UNIV 1 r
   | _ \<Rightarrow> binv UNIV 256 r)"

lemma rinv_sane: "rinv r \<Longrightarrow> sane r"
  by (auto simp: rinv_def binv_defs split: rstate.splits)

lemma binv_rinv:
  "binv S n r \<Longrightarrow> (LISTEN \<in> S \<Longrightarrow> n = 0) \<Longrightarrow> (CLNT_WAIT_SYN_ACK \<in> S \<or> SERV_WAIT_SYN_ACK \<in> S \<Longrightarrow> n \<le> 1)
    \<Longrightarrow> rinv r"
  using binv_256 [of S n r]
  by (cases "r_state r") (auto simp: rinv_def binv_defs)

lemma linv_rinv: "linv r \<Longrightarrow> rinv r"
  unfolding linv_def by (elim disjE) (rule binv_rinv, assumption, simp, simp)+

lemma kb_env [binvs]: "keeps (binv S n) tryPopUpstream"
  unfolding tryPopUpstream_def by (intro keeps_rules binvs)

lemma onBadHeader_Some: "onBadHeader k e = Some k' \<Longrightarrow> k' = k"
  by (auto simp: onBadHeader_def split: exn.splits)

lemma syn_ini_fst_exn: "fst (syn_ini n c m h) = Inl e \<Longrightarrow> \<not> bad_exn e"
  by (cases "syn_ini n c m h") (auto dest!: syn_ini_exn)

lemma hdr_ini_not_bad: "hdr_ini n c m h = (Inl e, h') \<Longrightarrow> \<not> bad_exn e"
  by (auto dest!: hdr_ini_exn)

lemma h_rx_segment:
  assumes "\<And>h. hoare P (handleSYN st h) I" and "\<And>h p. hoare P (handleOTH st h p) I"
    and "\<And>r. P r \<Longrightarrow> I r" and "\<And>f. keeps I (bump f)" and "\<And>h bc p. keeps I (rx_accepted st bc h p)"
  shows "hoare P (rx_segment st bc) I"
proof -
  have base: "hoare P m I" if "keeps I m" for m :: "(rssi, 'a) sem"
    by (rule hoare_weaken [OF that assms(3)])
  have syn: "hoare P (bnd (liftR (fst (syn_ini k False READ h))) (\<lambda>_. handleSYN st h)) I" for k h
    using assms(1) [of h] assms(3) syn_ini_fst_exn [of k False READ h]
    by (auto simp: hoare_def wp_bnd wp_liftR split: sum.splits)
  have oth: "hoare P (bnd (handleOTH st h p) (\<lambda>ok.
        if ok then ret True else andThen (bump rejectedSegs_update) (ret False))) I" for h p
    by (intro h_bnd assms(2) keeps_rules assms(4))
  have disp: "hoare P (rx_dispatch st b h p) I" for b h p
    unfolding rx_dispatch_def
    using h_tryCatch [OF syn [of "b_size b" h], of "onBadHeader (andThen (bump badSynDropped_update) (ret False))"]
      oth assms(4) by (auto dest!: onBadHeader_Some intro!: keeps_rules)
  have go: "hoare P (bnd (rx_dispatch st b h p) (\<lambda>go. if go then rx_accepted st bc h p else ret ())) I" for b h p
    by (intro h_bnd disp keeps_rules assms(5))
  have head: "hoare P (case hdr_ini (b_size b) v READ (b_view b) of
         (Inl e, _) \<Rightarrow> raise e
       | (Inr chkOk, h) \<Rightarrow>
          if \<not> chkOk then bump badChecksum_update
          else
            let hasPayload = unat (getHSize h) < b_size b in
            bnd (rx_dispatch st b h hasPayload) (\<lambda>go.
              if go then rx_accepted st bc h hasPayload else ret ())) I" for b v
    using go base [OF assms(4)] base [OF k_raise [OF hdr_ini_not_bad]]
    by (auto simp: Let_def split: prod.splits sum.splits)
  have nil: "hoare P (raise (Undefined ''no head'')) I" by (intro base k_raise) simp
  show ?thesis
    unfolding rx_segment_def using nil head
    by (auto split: list.splits intro!: h_reading hoare_weaken [OF head])
qed

lemma h_handleRx:
  assumes "\<And>bc. hoare P (rx_segment st bc) I" "keeps P tryPopUpstream"
    "\<And>r. P r \<Longrightarrow> I r" "\<And>f. keeps I (bump f)"
  shows "hoare P (handleRx_notclosed st) I"
proof -
  have base: "hoare P m I" if "keeps I m" for m :: "(rssi, 'a) sem"
    by (rule hoare_weaken [OF that assms(3)])
  have tc: "hoare P (tryCatch (rx_segment st bc) (onBadHeader (bump badHdrDropped_update))) I" for bc
    by (rule h_tryCatch [OF assms(1)]) (drule onBadHeader_Some, simp add: assms(4))
  have spur: "\<not> bad_exn (InternalError ''Spurious wakeup ??'')" by (simp add: bad_exn_def)
  have rest: "hoare P (case m of None \<Rightarrow> raise (InternalError ''Spurious wakeup ??'')
     | Some bc \<Rightarrow> if c_size bc < minHeaderSize then ret ()
        else tryCatch (rx_segment st bc) (onBadHeader (bump badHdrDropped_update))) I" for m
    using spur tc by (auto split: option.splits intro!: base keeps_rules)
  show ?thesis
    unfolding handleRx_notclosed_def
  proof (rule hoareI, unfold wp_bnd)
    fix r
    assume "P r"
    from hoareD [OF assms(2) this] show "wp tryPopUpstream (\<lambda>m. wp (case m of
        None \<Rightarrow> raise (InternalError ''Spurious wakeup ??'')
      | Some bc \<Rightarrow> if c_size bc < minHeaderSize then ret ()
         else tryCatch (rx_segment st bc) (onBadHeader (bump badHdrDropped_update)))
       (\<lambda>_. I) (\<lambda>e t. \<not> bad_exn e \<and> I t)) (\<lambda>e t. \<not> bad_exn e \<and> I t) r"
      by (rule wp_mono) (auto intro: hoareD [OF rest] assms(3))
  qed
qed

lemma kb_handleRx_notclosed:
  assumes "\<And>h. keeps (binv S n) (handleSYN st h)" "CLOSED \<in> S" "room_for st n"
  shows "keeps (binv S n) (handleRx_notclosed st)"
  by (intro h_handleRx h_rx_segment assms binvs)

lemma kb_usrInput_loop:
  assumes "binv S 256 r" "r_peerOssMX r < ring_size (r_unAcked r) + fuel" "OPEN_OUTWIN_FULL \<in> S"
    "ring_size (r_unAcked r) \<le> r_peerOssMX r \<or> 0 < fuel"
  shows "wp (usrInput_loop fuel) (\<lambda>_. binv S 256) (\<lambda>e t. \<not> bad_exn e \<and> binv S 256 t) r"
  using assms
proof (induction fuel arbitrary: r)
  case (Suc fuel)
  let ?E = "\<lambda>e t. \<not> bad_exn e \<and> binv S 256 t"
  show ?case
  proof (cases "ring_size (r_unAcked r) < r_peerOssMX r")
    case True
    have dat: "wp (andThen (sendDAT bc) (usrInput_loop fuel)) (\<lambda>_. binv S 256) ?E t"
      if t: "binv S 256 t" "ring_size (r_unAcked t) < r_peerOssMX t"
        "ring_size (r_unAcked t) = ring_size (r_unAcked r)" "r_peerOssMX t = r_peerOssMX r" for t bc
      unfolding wp_andThen
    proof (rule wp_mono [OF sendDAT_binv [OF t(1,2)]])
      fix u
      assume "binv S (Suc 256) u \<and> ring_size (r_unAcked u) = Suc (ring_size (r_unAcked t))
        \<and> r_peerOssMX u = r_peerOssMX t"
      with t Suc.prems(2,3) True show "wp (usrInput_loop fuel) (\<lambda>_. binv S 256) ?E u"
        by (intro Suc.IH) (auto intro: binv_256)
    qed simp
    show ?thesis
      unfolding usrInput_loop.simps wp_cond if_P [OF True] wp_bnd
      by (rule wp_mono [OF wp_popDat [OF Suc.prems(1) True]])
        (auto simp: wp_ret dat split: option.splits)
  next
    case False
    have "keeps (binv S 256) (andThen (upd (\<lambda>r. r\<lparr>r_usrI := False\<rparr>)) (changeState OPEN_OUTWIN_FULL))"
      by (intro keeps_rules binvs Suc.prems(3))
    from hoareD [OF this Suc.prems(1)] show ?thesis
      unfolding usrInput_loop.simps wp_cond if_not_P [OF False] .
  qed
qed simp

abbreviation open_states :: "rstate set" where
  "open_states \<equiv> {PREP_OPEN, OPEN, OPEN_OUTWIN_FULL, CLOSED}"

abbreviation syn_states :: "rstate set" where
  "syn_states \<equiv> {CLNT_WAIT_SYN_ACK, SERV_WAIT_SYN_ACK, PREP_OPEN, CLOSED}"

lemma kb_handleUsrInput: "keeps (binv open_states 256) (handleUsrInputEvent st)"
proof -
  have "keeps (binv open_states 256) (reading (\<lambda>r. r_peerOssMX r + 1) usrInput_loop)"
    by (rule hoareI) (simp only: wp_reading, rule kb_usrInput_loop, simp_all)
  then show ?thesis
    unfolding handleUsrInputEvent_def by (intro k_if k_raise) (simp_all add: bad_exn_def)
qed

lemma kb_handleUsrOutput: "keeps (binv S n) (handleUsrOutputEvent st)"
  unfolding handleUsrOutputEvent_def by (intro keeps_rules binvs) (simp_all add: bad_exn_def)

lemma kb_sendNUL: "keeps (binv S 256) sendNUL"
proof -
  have "hoare (\<lambda>r. binv S 256 r \<and> \<not> r_peerOssMX r \<le> ring_size (r_unAcked r))
     (andThen incSeqSent (bnd (ctlSeg (FLG_ACK OR FLG_NUL) r_lastSeqSent) (\<lambda>bc.
           andThen (sendBufAndKeepForRetransmission bc) (ret True)))) (binv S 256)"
  proof (rule hoareI, unfold wp_andThen incSeqSent_def wp_upd wp_bnd)
    fix r
    assume r: "binv S 256 r \<and> \<not> r_peerOssMX r \<le> ring_size (r_unAcked r)"
    let ?r = "r\<lparr>r_lastSeqSent := r_lastSeqSent r + 1\<rparr>"
    let ?E = "\<lambda>e t. \<not> bad_exn e \<and> binv S 256 t"
    have b: "binv S 256 ?r" using r by (simp add: binv_defs)
    have "wp (sendBufAndKeepForRetransmission bc) (\<lambda>_. wp (ret True) (\<lambda>_. binv S 256) ?E) ?E t"
      if t: "txframe ?r t" for t bc
    proof -
      have "binv S 256 t" "ring_size (r_unAcked t) < r_peerOssMX t"
        using binv_txframe [OF b t] r t by (auto simp: txframe_def)
      from sendKeep_binv [OF this] show ?thesis
        by (rule wp_mono) (auto simp: wp_ret intro: binv_256)
    qed
    then show "wp (ctlSeg (FLG_ACK OR FLG_NUL) r_lastSeqSent) (\<lambda>bc.
        wp (sendBufAndKeepForRetransmission bc) (\<lambda>_. wp (ret True) (\<lambda>_. binv S 256) ?E) ?E) ?E ?r"
      by (intro wp_mono [OF hoareD [OF tx_ctlSeg txframe_refl]]) (auto intro: binv_txframe [OF b])
  qed
  moreover have "keeps (binv S 256) (andThen (bump skippedNULs_update)
         (andThen (armRel NulT r_nulTO) (andThen sendACK (ret False))))"
    by (intro keeps_rules binvs)
  then have "hoare (\<lambda>r. binv S 256 r \<and> r_peerOssMX r \<le> ring_size (r_unAcked r))
     (andThen (bump skippedNULs_update) (andThen (armRel NulT r_nulTO) (andThen sendACK (ret False))))
     (binv S 256)"
    by (rule hoare_weaken) simp
  ultimately show ?thesis unfolding sendNUL_def by (rule h_cond [rotated])
qed

lemma kb_timer:
  assumes "CLOSED \<in> S" "room_for st n" "st \<in> {OPEN, OPEN_OUTWIN_FULL} \<Longrightarrow> OPEN_OUTWIN_FULL \<in> S"
  shows "keeps (binv S n) (timer_process st tid)"
proof -
  have nul: "st \<in> {OPEN, OPEN_OUTWIN_FULL} \<Longrightarrow> keeps (binv S n) sendNUL"
    using kb_sendNUL assms(2) by (auto simp: room_for_def)
  have "keeps (binv S n) (processRetransmissionTimeout st)"
    unfolding processRetransmissionTimeout_def
    by (intro keeps_rules binvs assms) (simp add: bad_exn_def)
  moreover have "keeps (binv S n) (processAckTimeout st)"
    unfolding processAckTimeout_def
    by (intro keeps_rules binvs assms) (simp add: bad_exn_def)
  moreover have "keeps (binv S n) (processNulTimeout st)"
    unfolding processNulTimeout_def
    by (intro keeps_rules binvs assms nul) (simp_all add: bad_exn_def)
  ultimately show ?thesis by (simp add: timer_process_def split: timer_id.split)
qed

lemma kb_advance_notclosed:
  assumes "hoare P (handleRxEvent st) I" "keeps P (handleUsrInputEvent st)"
    "keeps P (handleUsrOutputEvent st)" "\<And>tid. keeps P (timer_process st tid)"
    "\<And>tid. keeps P (cancelT tid)" "\<And>r. P r \<Longrightarrow> I r"
  shows "hoare P (advance_notclosed st chk ev) I"
proof -
  have post: "hoare P m I" if "keeps P m" for m :: "(rssi, unit) sem"
    by (rule hoare_post [OF that assms(6)])
  have t: "keeps P (case t of None \<Rightarrow> raise (Undefined ''no timer'')
        | Some (tid, _) \<Rightarrow> andThen (cancelT tid) (timer_process st tid))" for t :: "(timer_id \<times> timeout) option"
    by (auto split: option.splits intro!: keeps_rules assms)
  have none: "keeps P (raise (InternalError ''RSSI: no timer active!''))"
    by (rule k_raise) (simp add: bad_exn_def)
  have "hoare P (if t = None \<and> chk then raise (InternalError ''RSSI: no timer active!'')
     else case ev of EvRx \<Rightarrow> handleRxEvent st | EvUsrIn \<Rightarrow> handleUsrInputEvent st
     | EvUsrOut \<Rightarrow> handleUsrOutputEvent st
     | EvTimeout \<Rightarrow> (case t of None \<Rightarrow> raise (Undefined ''no timer'')
        | Some (tid, _) \<Rightarrow> andThen (cancelT tid) (timer_process st tid))) I"
    for t :: "(timer_id \<times> timeout) option"
    using post [OF none] post [OF t [of t]] assms(1) post [OF assms(2)] post [OF assms(3)]
    by (simp split: revent.split)
  then show ?thesis
    unfolding advance_notclosed_def hoare_def wp_reading by blast
qed

section \<open>Every round keeps the invariant\<close>

lemma h_closed: "hoare (\<lambda>r. sane r \<and> r_state r = CLOSED) advance_closed rinv"
proof (rule hoareI)
  fix r
  assume r: "sane r \<and> r_state r = CLOSED"
  let ?E = "\<lambda>e t. \<not> bad_exn e \<and> rinv t"
  let ?rest = "cond r_isServer (changeState LISTEN)
       (seqs [increaseReopenDelay, sendSYN False, changeState CLNT_WAIT_SYN_ACK])"
  have rest: "wp ?rest (\<lambda>_. rinv) ?E t" if t: "binv {CLOSED} 0 t" for t
  proof (cases "r_isServer t")
    case True
    then show ?thesis
      using t by (simp add: wp_eqs changeState_def Let_def rinv_def binv_defs)
  next
    case False
    let ?t = "if r_reopenDelay t < 10 then t\<lparr>r_reopenDelay := r_reopenDelay t + 2\<rparr> else t"
    have "binv {CLOSED} 0 ?t" using t by (simp add: binv_defs)
    from sendSYN_binv [OF this, of False]
    have "wp (sendSYN False) (\<lambda>_. wp (changeState CLNT_WAIT_SYN_ACK) (\<lambda>_. rinv) ?E) ?E ?t"
      by (rule wp_mono) (auto simp: changeState_def Let_def wp_upd rinv_def binv_defs)
    then show ?thesis
      using False by (simp add: wp_cond wp_andThen increaseReopenDelay_def wp_upd split: if_splits)
  qed
  have "wp rssi_close (\<lambda>_. wp rssi_open (\<lambda>_. wp ?rest (\<lambda>_. rinv) ?E) ?E) ?E r"
  proof (rule wp_mono [OF rssi_close_spec])
    show "sane r" using r by simp
    fix t
    assume t: "sane t \<and> ring_size (r_unAcked t) = 0 \<and> r_peerOssMX t = r_maxUnackedSegs t
      \<and> r_state t = r_state r \<and> r_isServer t = r_isServer r \<and> r_timers t = [] \<and> \<not> r_peerBSY t
      \<and> \<not> r_usrI t \<and> \<not> r_usrO t \<and> bufq_items (r_outQ t) = [] \<and> bufq_items (r_inpQ t) = []
      \<and> (\<forall>i < w_capa (r_unOrdered t). win (r_unOrdered t) i = None)
      \<and> r_maxUnackedSegs t = r_maxUnackedSegs r \<and> r_conID t = r_conID r + 1"
    then have "binv {CLOSED} 0 (t\<lparr>r_outQ := bufq_startup (r_outQ t), r_inpQ := bufq_startup (r_inpQ t)\<rparr>)"
      using r startup_spec by (auto simp: binv_defs)
    then show "wp rssi_open (\<lambda>_. wp ?rest (\<lambda>_. rinv) ?E) ?E t"
      unfolding rssi_open_def wp_upd by (rule rest)
  qed simp
  then show "wp advance_closed (\<lambda>_. rinv) ?E r"
    by (simp add: advance_closed_def wp_andThen_fun)
qed

lemma kb_handleSYN_default:
  "st \<notin> {LISTEN, CLNT_WAIT_SYN_ACK} \<Longrightarrow> keeps (binv S n) (handleSYN st h)"
  by (cases st) (auto simp: handleSYN_def intro!: keeps_rules binvs)

lemma h_listen_rx: "hoare (binv {LISTEN, CLOSED} 0) (handleRxEvent LISTEN) linv"
proof -
  have room: "room_for LISTEN n" for n by (simp add: room_for_def)
  have "hoare (binv {LISTEN, CLOSED} 0) (handleRx_notclosed LISTEN) linv"
  proof (intro h_handleRx h_rx_segment)
    show "hoare (binv {LISTEN, CLOSED} 0) (handleSYN LISTEN h) linv" for h
      using h_handleSYN_listen by (simp add: handleSYN_def)
    show "hoare (binv {LISTEN, CLOSED} 0) (handleOTH LISTEN h p) linv" for h p
      by (rule hoare_post [OF kb_handleOTH]) (simp_all add: linv_def)
    show "keeps linv (rx_accepted LISTEN bc h p)" for bc h p
      by (intro keeps_linv kb_rx_accepted room) simp_all
  qed (simp_all add: linv_def binvs keeps_linv)
  then show ?thesis by (simp add: handleRxEvent_def)
qed

lemma kb_syn_rx:
  assumes "st \<in> {CLNT_WAIT_SYN_ACK, SERV_WAIT_SYN_ACK}"
  shows "keeps (binv syn_states 1) (handleRxEvent st)"
proof -
  have "keeps (binv syn_states 1) (handleSYN st h)" for h
    using assms kb_handleSYN_default [of SERV_WAIT_SYN_ACK syn_states 1 h]
      kb_handleSYN_clnt [of 1 syn_states h]
    by (auto simp: handleSYN_def)
  then have "keeps (binv syn_states 1) (handleRx_notclosed st)"
    using assms by (intro kb_handleRx_notclosed) (auto simp: room_for_def)
  then show ?thesis
    using assms by (auto simp: handleRxEvent_def handleRx_servWait_def intro!: keeps_rules binvs)
qed

lemma kb_open_rx:
  assumes "st \<in> {OPEN, OPEN_OUTWIN_FULL}"
  shows "keeps (binv open_states 256) (handleRxEvent st)"
proof -
  have "keeps (binv open_states 256) (handleRx_notclosed st)"
    using assms by (intro kb_handleRx_notclosed kb_handleSYN_default) (auto simp: room_for_def)
  then show ?thesis
    using assms by (auto simp: handleRxEvent_def handleRx_outwinFull_def intro!: keeps_rules binvs)
qed

lemma not_open_usr:
  assumes "st \<notin> {OPEN, OPEN_OUTWIN_FULL}"
  shows "keeps I (handleUsrInputEvent st)" "keeps I (handleUsrOutputEvent st)"
  using assms by (auto simp: handleUsrInputEvent_def handleUsrOutputEvent_def bad_exn_def intro!: k_raise)

lemma h_advance_listen: "hoare (binv {LISTEN, CLOSED} 0) (advance_notclosed LISTEN chk ev) linv"
  by (intro kb_advance_notclosed h_listen_rx not_open_usr kb_timer binvs)
    (simp_all add: linv_def room_for_def)

lemma kb_advance_syn:
  assumes "st \<in> {CLNT_WAIT_SYN_ACK, SERV_WAIT_SYN_ACK}"
  shows "keeps (binv syn_states 1) (advance_notclosed st chk ev)"
  by (intro kb_advance_notclosed kb_syn_rx not_open_usr kb_timer binvs assms)
    (use assms in \<open>auto simp: room_for_def\<close>)

lemma kb_advance_open:
  assumes "st \<in> {OPEN, OPEN_OUTWIN_FULL}"
  shows "keeps (binv open_states 256) (advance_notclosed st chk ev)"
  by (intro kb_advance_notclosed kb_open_rx kb_handleUsrInput kb_handleUsrOutput kb_timer binvs assms)
    (use assms in \<open>auto simp: room_for_def\<close>)

theorem advance_inv: "hoare rinv (advance ev) rinv"
proof (rule hoareI, unfold advance_def wp_reading)
  fix r
  assume r: "rinv r"
  have post: "wp m (\<lambda>_. rinv) (\<lambda>e t. \<not> bad_exn e \<and> rinv t) r"
    if "hoare P m I" "P r" "\<And>t. I t \<Longrightarrow> rinv t" for P I m
    using hoareD [OF that(1,2)] by (rule wp_mono) (auto intro: that(3))
  have syn: "binv syn_states 1 t \<Longrightarrow> rinv t" for t by (rule binv_rinv, assumption) auto
  have opn: "binv open_states 256 t \<Longrightarrow> rinv t" for t by (rule binv_rinv, assumption) auto
  have prep: "keeps (binv open_states 256) advance_prepOpen"
    unfolding advance_prepOpen_def by (intro keeps_rules binvs) simp
  show "wp (case r_state r of CLOSED \<Rightarrow> advance_closed | LISTEN \<Rightarrow> advance_notclosed LISTEN False ev
      | PREP_OPEN \<Rightarrow> advance_prepOpen | _ \<Rightarrow> advance_notclosed (r_state r) True ev)
     (\<lambda>_. rinv) (\<lambda>e t. \<not> bad_exn e \<and> rinv t) r"
    using r post [OF h_closed] post [OF h_advance_listen _ linv_rinv]
      post [OF kb_advance_syn _ syn] post [OF prep _ opn] post [OF kb_advance_open _ opn]
    by (cases "r_state r") (auto simp: rinv_def binv_def)
qed

lemma rssi_create_inv:
  assumes "rssi_create srv mtu dfl junk = Inr r"
  shows "rinv r \<and> r_state r = CLOSED \<and> r_isServer r = srv"
proof -
  obtain c where c: "(case dfl of None \<Rightarrow> Inr rcfg_default | Some c \<Rightarrow> assertValid c) = Inr c"
    using assms by (auto simp: rssi_create_def split: sum.splits)
  have "cf_ldMaxUnackedSegs c < 8"
    using c by (auto simp: rcfg_default_def assertValid_def split: option.splits if_splits)
  then have k: "unat (cf_ldMaxUnackedSegs c) < 8" by (simp add: word_less_nat_alt)
  then have "unat (cf_ldMaxUnackedSegs c) \<le> 8" by simp
  with assms c show ?thesis
    by (auto simp: rssi_create_def rinv_def sane_def mkQ_def bufq_create_ok ring_new_ok reasm_new_ok)
qed

lemma rinv_step:
  assumes "rinv r" "rssi_step r r'"
  shows "rinv r'"
  using assms(2,1)
proof (cases rule: rssi_step.cases)
  case (step_push bc b q)
  have "bufq_ok (r_inpQ r)" using rinv_sane [OF assms(1)] by (simp add: sane_def)
  then have "bufq_ok q" using tryPush_ok [of "r_inpQ r" bc] step_push(2) by simp
  then show ?thesis using assms(1) step_push(1) by (auto simp: rinv_def binv_defs split: rstate.splits)
next
  case (step_pop b q)
  have "bufq_ok (r_outQ r)" using rinv_sane [OF assms(1)] by (simp add: sane_def)
  then have "bufq_ok q" using tryPop_ok [of "r_outQ r"] step_pop(2) by simp
  then show ?thesis using assms(1) step_pop(1) by (auto simp: rinv_def binv_defs split: rstate.splits)
next
  case (step_thread ev)
  then show ?thesis using hoare_result [OF advance_inv assms(1)] by blast
qed (auto simp: rinv_def binv_defs split: rstate.splits)

lemma rinv_reach: "rssi_reach r0 r \<Longrightarrow> rinv r0 \<Longrightarrow> rinv r"
  by (induction rule: rssi_reach.induct) (auto intro: rinv_step)

end
