(* ===== verification/RssiCtl.thy ===== *)
theory RssiCtl
  imports RssiInv
begin

text \<open>
  The roles of the two sides and the timers. A server never is in a state of a client and
  vice versa, and from the handshake on the NUL timer is armed, so that a connection always
  has a timer to wait for: the thread never finds that no timer is active.
\<close>

text \<open>The buffers of the free list have room for a header.\<close>

definition mem_ok :: "rssi \<Rightarrow> bool" where
  "mem_ok r \<longleftrightarrow> (\<forall>n. 64 \<le> length (e_mem (r_env r) n))"

text \<open>In role \<open>b\<close>, in one of the states of \<open>S\<close>; if \<open>n\<close>, with the NUL timer armed; if \<open>q\<close>,
  with a peer that is not busy.\<close>

definition ctl :: "bool \<Rightarrow> rstate set \<Rightarrow> bool \<Rightarrow> bool \<Rightarrow> rssi \<Rightarrow> bool" where
  "ctl b S n q r \<longleftrightarrow> r_isServer r = b \<and> r_state r \<in> S \<and> (n \<longrightarrow> timer_isArmed NulT (r_timers r))
     \<and> (q \<longrightarrow> \<not> r_peerBSY r) \<and> mem_ok r"

named_theorems ctls "operations that keep role, states and the NUL timer"

lemma mem_ok_cong [simp]:
  "mem_ok (r_state_update f r) = mem_ok r" "mem_ok (r_timers_update g r) = mem_ok r"
  "mem_ok (r_stats_update h r) = mem_ok r" "mem_ok (r_connEvents_update k r) = mem_ok r"
  by (simp_all add: mem_ok_def)

lemma ctl_stats [simp]: "ctl b S n q (r_stats_update f r) = ctl b S n q r"
  by (simp add: ctl_def)

lemma ctl_bump [ctls]: "pres (ctl b S n q) (bump f)"
  unfolding bump_def by (rule pres_upd) (simp add: ctl_def mem_ok_def)

lemma ctl_cancelT [ctls]: "t \<noteq> NulT \<or> \<not> n \<Longrightarrow> pres (ctl b S n q) (cancelT t)"
  unfolding cancelT_def by (rule pres_upd) (auto simp: ctl_def mem_ok_def timer_armed_eqs)

lemma ctl_arm [ctls]: "pres (ctl b S n q) (armRel t f)" "pres (ctl b S n q) (armAbs t f)"
  unfolding armRel_def armAbs_def by (rule pres_upd; simp add: ctl_def mem_ok_def timer_armed_eqs)+

lemma ctl_changeState [ctls]: "st \<in> S \<Longrightarrow> pres (ctl b S n q) (changeState st)"
  unfolding changeState_def Let_def by (rule pres_upd) (simp add: ctl_def mem_ok_def)

lemma ctl_upds [ctls]:
  "pres (ctl b S n q) (upd (\<lambda>r. r\<lparr>r_numCak := f1 r\<rparr>))"
  "pres (ctl b S n q) (upd (\<lambda>r. r\<lparr>r_unAcked := f2 r\<rparr>))"
  "pres (ctl b S n q) (upd (\<lambda>r. r\<lparr>r_unOrdered := f3 r\<rparr>))"
  "pres (ctl b S n q) (upd (\<lambda>r. r\<lparr>r_lastSeqSent := f4 r\<rparr>))"
  "pres (ctl b S n q) (upd (\<lambda>r. r\<lparr>r_lastSeqRecv := f5 r\<rparr>))"
  "pres (ctl b S n q) (upd (\<lambda>r. r\<lparr>r_usrI := f6 r\<rparr>))"
  "pres (ctl b S n q) (upd (\<lambda>r. r\<lparr>r_usrO := f7 r\<rparr>))"
  "pres (ctl b S n q) (upd (\<lambda>r. r\<lparr>r_numRex := f8 r\<rparr>))"
  "pres (ctl b S n False) (upd (\<lambda>r. r\<lparr>r_peerBSY := f9 r\<rparr>))"
  "pres (ctl b S n q) (upd (\<lambda>r. r\<lparr>r_numRex := f8 r, r_stats := f10 r\<rparr>))"
  "pres (ctl b S n q) (upd (\<lambda>r. r\<lparr>r_lastSeqRecv := f5 r, r_unOrdered := f3 r\<rparr>))"
  "pres (ctl b S n q) (upd (\<lambda>r. r\<lparr>r_peerOssMX := f11 r\<rparr>))"
  "pres (ctl b S n q) (upd (\<lambda>r. r\<lparr>r_peerSgsMX := f12 r\<rparr>))"
  "pres (ctl b S n q) (upd (\<lambda>r. r\<lparr>r_verifyChecksum := f13 r, r_addChecksum := f14 r\<rparr>))"
  "pres (ctl b S n q) (upd (\<lambda>r. r\<lparr>r_units := f15 r, r_rexTO := f16 r, r_cakTO := f17 r\<rparr>))"
  "pres (ctl b S n q) (upd (\<lambda>r. r\<lparr>r_nulTO := f18 r\<rparr>))"
  "pres (ctl b S n q) (upd (\<lambda>r. r\<lparr>r_rexMX := f19 r, r_cakMX := f20 r\<rparr>))"
  by (rule pres_upd, simp add: ctl_def mem_ok_def)+

lemma ctl_queues [ctls]:
  "pres (ctl b S n q) (onOutQ m)" "pres (ctl b S n q) (onInpQ m')"
  by (rule pres_zoom, simp add: ctl_def mem_ok_def)+

lemma ctl_forceACK [ctls]: "pres (ctl b S n q) forceACK"
  unfolding forceACK_def by (rule ctls)

lemma ctl_armRexAndNul [ctls]: "pres (ctl b S n q) armRexAndNulTimer"
  unfolding armRexAndNulTimer_def by (intro pres_rules ctls)

lemma ctl_tryPushUpstream [ctls]: "pres (ctl b S n q) (tryPushUpstream bc)"
  by (simp add: pres_def tryPushUpstream_def Let_def sem_app ctl_def mem_ok_def)

lemma ctl_newBuf [ctls]: "pres (ctl b S n q) newBuf"
  by (simp add: pres_def newBuf_def sem_app ctl_def mem_ok_def)

lemma ctl_tryPopUpstream [ctls]: "pres (ctl b S n q) tryPopUpstream"
  by (simp add: pres_def tryPopUpstream_def sem_app ctl_def mem_ok_def split: list.split)

lemma ctl_sendBuf [ctls]: "pres (ctl b S n q) (sendBuf bc)"
  unfolding sendBuf_def Let_def by (intro pres_rules ctls) simp

lemma ctl_sendKeep [ctls]: "pres (ctl b S n q) (sendBufAndKeepForRetransmission bc)"
  unfolding sendBufAndKeepForRetransmission_def pushUnAcked_def by (intro pres_rules ctls)

lemma ctl_sendDAT [ctls]: "pres (ctl b S n q) (sendDAT bc)"
  unfolding sendDAT_def by (intro pres_rules ctls)

lemma ctl_ctlSeg [ctls]: "pres (ctl b S n q) (ctlSeg flags sq)"
  unfolding ctlSeg_def Let_def by (intro pres_rules ctls)

lemma ctl_sends [ctls]: "pres (ctl b S n q) sendACK" "pres (ctl b S n q) sendRST"
  "pres (ctl b S n q) sendNUL" "pres (ctl b S n q) (sendSYN a)"
  unfolding sendACK_def sendRST_def incSeqSent_def sendNUL_def sendSYN_def Let_def
  by (intro pres_rules ctls)+

lemma ctl_processAckNumber [ctls]: "pres (ctl b S n q) (processAckNumber flags a)"
  unfolding processAckNumber_def by (intro pres_rules ctls) simp

lemma ctl_extract [ctls]: "pres (ctl b S n q) (extractConnectionParams h a)"
  unfolding extractConnectionParams_def growUnAcked_def acceptParams_def setNulTimeout_def Let_def
  by (intro pres_rules ctls)

lemma ctl_drain_loop [ctls]: "pres (ctl b S n q) (drain_loop k)"
  by (induction k) (auto simp: popUnOrdered_def intro!: pres_rules ctls)

lemma ctl_drain [ctls]: "pres (ctl b S n q) (drainReassembleBuffer st)"
  unfolding drainReassembleBuffer_def drain_open_def by (intro pres_rules ctls)

lemma ctl_sendDatOrAck [ctls]: "pres (ctl b S n q) (sendDatOrAck st)"
  unfolding sendDatOrAck_def hasBufToSend_def by (intro pres_rules ctls)

lemma ctl_rex_loop [ctls]: "pres (ctl b S n q) (rex_loop i k)"
  by (induction k arbitrary: i) (auto intro!: pres_rules ctls)

lemma ctl_processRex [ctls]: "CLOSED \<in> S \<Longrightarrow> pres (ctl b S n q) st_processRetransmissionTimeout"
  unfolding st_processRetransmissionTimeout_def rexAll_def by (intro pres_rules ctls)

lemma ctl_rx_ack [ctls]: "pres (ctl b S n q) (rx_ack st)"
  unfolding rx_ack_def by (intro pres_rules ctls)

lemma ctl_rx_busy [ctls]: "CLOSED \<in> S \<Longrightarrow> pres (ctl b S n False) (rx_busy st y)"
  unfolding rx_busy_def by (intro pres_rules ctls) simp_all

lemma ctl_rx_store [ctls]: "pres (ctl b S n q) (rx_store st bc h)"
  unfolding rx_store_def storeUnOrdered_def by (intro pres_rules ctls)

lemma ctl_rx_accepted [ctls]: "CLOSED \<in> S \<Longrightarrow> pres (ctl b S n False) (rx_accepted st bc h p)"
  unfolding rx_accepted_def by (intro pres_rules ctls)

lemma ctl_handleOTH [ctls]: "CLOSED \<in> S \<Longrightarrow> pres (ctl b S n q) (handleOTH st h p)"
  unfolding handleOTH_def handleOTH_wait_def handleOTH_notclosed_def by (intro pres_rules ctls)

lemma ctl_handleSYN [ctls]:
  assumes "st = LISTEN \<Longrightarrow> SERV_WAIT_SYN_ACK \<in> S" "{CLOSED, PREP_OPEN} \<subseteq> S"
  shows "pres (ctl b S n q) (handleSYN st h)"
proof -
  have "pres (ctl b S n q) (handleSYN_clnt h)"
    using assms(2) unfolding handleSYN_clnt_def wait_extractConnectionParams_def seedUnOrdered_def
    by (intro pres_rules ctls) auto
  moreover have "SERV_WAIT_SYN_ACK \<in> S \<Longrightarrow> pres (ctl b S n q) (handleSYN_listen h)"
    unfolding handleSYN_listen_def wait_extractConnectionParams_def seedUnOrdered_def
    by (intro pres_rules ctls)
  ultimately show ?thesis
    using assms(1) by (cases st) (auto simp: handleSYN_def intro!: pres_rules ctls)
qed

lemma ctl_rx_segment [ctls]:
  assumes "st = LISTEN \<Longrightarrow> SERV_WAIT_SYN_ACK \<in> S" "{CLOSED, PREP_OPEN} \<subseteq> S"
  shows "pres (ctl b S n False) (rx_segment st bc)"
  unfolding rx_segment_def rx_dispatch_def Let_def
  by (intro pres_rules ctls assms) (use assms(2) in \<open>auto dest!: onBadHeader_Some intro!: pres_rules ctls\<close>)

lemma ctl_handleRx_notclosed [ctls]:
  assumes "st = LISTEN \<Longrightarrow> SERV_WAIT_SYN_ACK \<in> S" "{CLOSED, PREP_OPEN} \<subseteq> S"
  shows "pres (ctl b S n False) (handleRx_notclosed st)"
  unfolding handleRx_notclosed_def
  by (intro pres_rules ctls assms) (auto dest!: onBadHeader_Some intro!: ctls)

lemma ctl_handleRxEvent [ctls]:
  assumes "st = LISTEN \<Longrightarrow> SERV_WAIT_SYN_ACK \<in> S" "{CLOSED, PREP_OPEN, OPEN} \<subseteq> S"
  shows "pres (ctl b S n False) (handleRxEvent st)"
proof -
  have "pres (ctl b S n False) (handleRx_notclosed st)" using assms by (intro ctls) auto
  then show ?thesis
    using assms(2) unfolding handleRxEvent_def handleRx_servWait_def handleRx_outwinFull_def
      resetReopenDelay_def
    by (cases st) (auto intro!: pres_rules ctls pres_upd simp: ctl_def mem_ok_def)
qed

lemma ctl_usrInput_loop [ctls]: "OPEN_OUTWIN_FULL \<in> S \<Longrightarrow> pres (ctl b S n q) (usrInput_loop k)"
  by (induction k) (auto intro!: pres_rules ctls)

lemma ctl_usr [ctls]:
  "OPEN_OUTWIN_FULL \<in> S \<Longrightarrow> pres (ctl b S n q) (handleUsrInputEvent st)"
  "pres (ctl b S n q) (handleUsrOutputEvent st)"
  unfolding handleUsrInputEvent_def handleUsrOutputEvent_def by (intro pres_rules ctls; assumption)+

lemma ctl_timer [ctls]:
  "{CLOSED, OPEN_OUTWIN_FULL} \<subseteq> S \<Longrightarrow> pres (ctl b S n q) (timer_process st t)"
  unfolding timer_process_def processRetransmissionTimeout_def processAckTimeout_def
    processNulTimeout_def
  by (cases t) (auto intro!: pres_rules ctls)

lemma ctl_onlyState: "ctl b S n q r \<Longrightarrow> r_state r \<in> S' \<Longrightarrow> ctl b S' n q r"
  by (simp add: ctl_def)

lemma wp_pres: "pres I m \<Longrightarrow> I s \<Longrightarrow> wp m (\<lambda>_. I) (\<lambda>_. I) s"
  by (auto simp: pres_def wp_def split: prod.splits sum.splits)

section \<open>From LISTEN to SERV\_WAIT\_SYN\_ACK\<close>

lemma b_fresh_avail: "64 \<le> length m \<Longrightarrow> 32 \<le> b_avail (b_fresh m)"
  by (simp add: b_avail_def b_fresh_def b_capa_def HEADROOM_def)

lemma hdr_ini_set_ok: "8 \<le> n \<Longrightarrow> 2 \<le> length h \<Longrightarrow> \<exists>h'. hdr_ini n c SET h = (Inr (\<not> c), h') \<and> getHSize h' = 8"
  by (auto simp: hdr_ini_def sem_app andThen_def bnd_def getHSize_def setHSize_def)

lemma ctlSeg_no_BadHeader:
  assumes "mem_ok r"
  shows "wp (ctlSeg flags sq) (\<lambda>_ _. True) (\<lambda>e _. \<forall>x. e \<noteq> BadHeader x) r"
proof -
  let ?b = "b_fresh (e_mem (r_env r) (e_allocs (r_env r)))"
  have m: "64 \<le> length (e_mem (r_env r) (e_allocs (r_env r)))" using assms by (simp add: mem_ok_def)
  have "2 \<le> length (b_view ?b)" using m by (simp add: b_capa_def b_fresh_def HEADROOM_def)
  moreover have "8 \<le> b_avail ?b" using b_fresh_avail [OF m] by simp
  ultimately obtain h where "hdr_ini (b_avail ?b) False SET (b_view ?b) = (Inr True, h)"
    using hdr_ini_set_ok [of "b_avail ?b" "b_view ?b" False] by auto
  then show ?thesis
    by (auto simp: ctlSeg_def newBuf_def wp_bnd wp_reading wp_andThen wp_upd wp_ret wp_raise Let_def
        split: prod.splits sum.splits dest!: b_setSize_exn)
qed

lemma sendBuf_no_BadHeader: "wp (sendBuf bc) (\<lambda>_ _. True) (\<lambda>e _. \<forall>x. e \<noteq> BadHeader x) r"
  by (auto simp: sendBuf_def Let_def wp_eqs bump_def cancelT_def tryPushUpstream_def split: list.split)

lemma sendACK_no_BadHeader: "mem_ok r \<Longrightarrow> wp sendACK (\<lambda>_ _. True) (\<lambda>e _. \<forall>x. e \<noteq> BadHeader x) r"
  unfolding sendACK_def wp_bnd wp_ret
  by (rule wp_mono [OF ctlSeg_no_BadHeader]) (auto intro: sendBuf_no_BadHeader)

text \<open>A server that has taken a SYN ends the round with the NUL timer armed.\<close>

lemma wp_armRel: "wp (armRel t f) Q E r =
    Q () (r\<lparr>r_timers := timer_arm_rel (e_now (r_env r)) t (f r) (r_timers r)\<rparr>)"
  by (simp add: armRel_def wp_upd)

lemma wp_bump: "wp (bump f) Q E r = Q () (r\<lparr>r_stats := f (\<lambda>n. n + 1) (r_stats r)\<rparr>)"
  by (simp add: bump_def wp_upd)

lemma rx_ack_arms:
  assumes "ctl True S False q r"
  shows "wp (rx_ack LISTEN) (\<lambda>_. ctl True S True q) (\<lambda>e _. \<forall>x. e \<noteq> BadHeader x) r"
proof -
  let ?E = "\<lambda>e _. \<forall>x. e \<noteq> BadHeader x"
  have dat: "sendDatOrAck LISTEN = sendACK" by (simp add: sendDatOrAck_def hasBufToSend_def)
  have arm: "wp (cond r_isServer (armRel NulT r_nulTO) (ret ())) (\<lambda>_. ctl True S True q) ?E t"
    if "ctl True S False q t" for t
    using that by (simp add: wp_eqs armRel_def ctl_def mem_ok_def timer_armed_eqs)
  have ack: "wp sendACK (\<lambda>_. wp (cond r_isServer (armRel NulT r_nulTO) (ret ()))
      (\<lambda>_. ctl True S True q) ?E) ?E t" if t: "ctl True S False q t" for t
  proof (rule wp_mono [OF wp_conj [OF wp_pres [OF ctl_sends(1) t] sendACK_no_BadHeader]])
    show "mem_ok t" using t by (simp add: ctl_def)
  qed (use arm in auto)
  have u: "ctl True S False q (r\<lparr>r_numCak := r_numCak r + 1\<rparr>)"
    using assms by (simp add: ctl_def mem_ok_def)
  show ?thesis
    unfolding rx_ack_def dat
    using ack [OF u] assms
    by (auto simp: wp_andThen_fun wp_upd wp_cond wp_armRel wp_ret ctl_def mem_ok_def timer_armed_eqs)
qed

lemma rx_accepted_listen:
  assumes "ctl True S False True r"
  shows "wp (rx_accepted LISTEN bc h p) (\<lambda>_. ctl True S True False) (\<lambda>e _. \<forall>x. e \<noteq> BadHeader x) r"
proof -
  let ?E = "\<lambda>e _. \<forall>x. e \<noteq> BadHeader x"
  have busy: "wp (rx_busy LISTEN y) (\<lambda>_. ctl True S True False) ?E t" if t: "ctl True S False True t" for t y
  proof -
    have "ctl True S False False (t\<lparr>r_peerBSY := y\<rparr>)"
        "ctl True S False False (t\<lparr>r_peerBSY := y, r_stats := st, r_timers := ts\<rparr>)" for st ts
      using t by (auto simp: ctl_def mem_ok_def)
    from this [THEN rx_ack_arms] show ?thesis
      using t by (cases y) (simp_all add: rx_busy_def wp_eqs bump_def cancelT_def ctl_def)
  qed
  have store: "wp (rx_store LISTEN bc h) (\<lambda>_. ctl True S False True) ?E t" if t: "ctl True S False True t" for t
    using t by (auto simp: rx_store_def storeUnOrdered_def reasm_store_def Let_def wp_eqs bump_def
        drainReassembleBuffer_def ctl_def mem_ok_def)
  have ackno: "wp (processAckNumber f a) (\<lambda>_. ctl True S False True) ?E t"
    if t: "ctl True S False True t" for t f a
    using t by (auto simp: processAckNumber_def Let_def wp_eqs cancelT_def
        ctl_def mem_ok_def split: prod.split)
  have tail: "wp (andThen (if y then rx_store LISTEN bc h else ret ()) (rx_busy LISTEN z))
      (\<lambda>_. ctl True S True False) ?E t" if t: "ctl True S False True t" for t y z
  proof (cases y)
    case True
    have "wp (rx_store LISTEN bc h) (\<lambda>_. wp (rx_busy LISTEN z) (\<lambda>_. ctl True S True False) ?E) ?E t"
      by (rule wp_mono [OF store [OF t]]) (erule busy, simp)
    with True show ?thesis by (simp add: wp_andThen)
  qed (simp add: wp_andThen wp_ret busy [OF t])
  show ?thesis
    unfolding rx_accepted_def seqs.simps andThen_ret
    by (subst wp_andThen) (rule wp_mono [OF ackno [OF assms]], erule tail, simp)
qed

section \<open>Every round keeps role and timer\<close>

definition role_ok :: "rssi \<Rightarrow> bool" where
  "role_ok r \<longleftrightarrow> mem_ok r \<and> (case r_state r of
     CLOSED \<Rightarrow> True
   | LISTEN \<Rightarrow> r_isServer r \<and> \<not> r_peerBSY r
   | CLNT_WAIT_SYN_ACK \<Rightarrow> \<not> r_isServer r \<and> timer_isArmed NulT (r_timers r)
   | SERV_WAIT_SYN_ACK \<Rightarrow> r_isServer r \<and> timer_isArmed NulT (r_timers r)
   | _ \<Rightarrow> timer_isArmed NulT (r_timers r))"

abbreviation serv_states :: "rstate set" where
  "serv_states \<equiv> {SERV_WAIT_SYN_ACK, PREP_OPEN, OPEN, OPEN_OUTWIN_FULL, CLOSED}"

abbreviation clnt_states :: "rstate set" where
  "clnt_states \<equiv> {CLNT_WAIT_SYN_ACK, PREP_OPEN, OPEN, OPEN_OUTWIN_FULL, CLOSED}"

lemma ctl_role_ok:
  "ctl True serv_states True False r \<Longrightarrow> role_ok r"
  "ctl False clnt_states True False r \<Longrightarrow> role_ok r"
  "ctl True {LISTEN, CLOSED} False True r \<Longrightarrow> role_ok r"
  by (auto simp: role_ok_def ctl_def split: rstate.split)

lemma dispatch_listen:
  assumes "ctl True {LISTEN} False True r"
  shows "wp (rx_dispatch LISTEN b h p)
     (\<lambda>go. if go then ctl True {SERV_WAIT_SYN_ACK, CLOSED} False True else ctl True {LISTEN, CLOSED} False True)
     (\<lambda>e t. (\<exists>x. e = BadHeader x) \<longrightarrow> ctl True {LISTEN, CLOSED} False True t) r"
proof -
  let ?Q = "\<lambda>go. if go then ctl True {SERV_WAIT_SYN_ACK, CLOSED} False True
      else ctl True {LISTEN, CLOSED} False True"
  let ?E = "\<lambda>e. ctl True {LISTEN, CLOSED} False True"
  have mono: "ctl True {LISTEN} False True t \<Longrightarrow> ctl True {LISTEN, CLOSED} False True t" for t
    by (simp add: ctl_def)
  have "wp (handleSYN LISTEN h) ?Q ?E r"
  proof -
    have pre: "pres (ctl True {LISTEN} False True) (andThen (wait_extractConnectionParams LISTEN h)
        (andThen (seedUnOrdered h) (andThen (sendSYN True) (upd (\<lambda>r. r\<lparr>r_numCak := r_numCak r - 1\<rparr>)))))"
      unfolding wait_extractConnectionParams_def seedUnOrdered_def by (intro pres_rules ctls)
    have e: "handleSYN LISTEN h = bnd (andThen (wait_extractConnectionParams LISTEN h)
        (andThen (seedUnOrdered h) (andThen (sendSYN True) (upd (\<lambda>r. r\<lparr>r_numCak := r_numCak r - 1\<rparr>)))))
        (\<lambda>_. andThen (changeState SERV_WAIT_SYN_ACK) (ret True))"
      by (simp add: handleSYN_def handleSYN_listen_def andThen_def bnd_assoc)
    show ?thesis
      unfolding e wp_bnd
      by (rule wp_mono [OF wp_pres [OF pre assms]])
        (simp_all add: wp_andThen changeState_def Let_def wp_upd wp_ret ctl_def)
  qed
  moreover have "wp (handleOTH LISTEN h p) ?Q ?E r"
    unfolding handleOTH_def handleOTH_wait_def
    using wp_mono [OF wp_pres [OF ctl_sends(2) assms], of "\<lambda>_. wp (andThen (changeState CLOSED) (ret True)) ?Q ?E" ?E]
      assms
    by (auto simp: wp_cond wp_andThen_fun changeState_def Let_def wp_upd wp_ret ctl_def)
  moreover have "wp (bnd (liftR (fst (syn_ini (b_size b) False READ h))) (\<lambda>_. handleSYN LISTEN h)) ?Q ?E r"
    if "wp (handleSYN LISTEN h) ?Q ?E r"
    using that mono [OF assms] by (auto simp: wp_bnd wp_liftR split: sum.splits)
  moreover have "wp (bnd (handleOTH LISTEN h p) (\<lambda>ok. if ok then ret True
      else andThen (bump rejectedSegs_update) (ret False))) ?Q ?E r" if "wp (handleOTH LISTEN h p) ?Q ?E r"
    unfolding wp_bnd by (rule wp_mono [OF that]) (auto simp: wp_ret wp_andThen bump_def wp_upd)
  ultimately have "wp (bnd (liftR (fst (syn_ini (b_size b) False READ h))) (\<lambda>_. handleSYN LISTEN h)) ?Q ?E r"
      "wp (bnd (handleOTH LISTEN h p) (\<lambda>ok. if ok then ret True
      else andThen (bump rejectedSegs_update) (ret False))) ?Q ?E r" by blast+
  note syn = this(1) and oth = this(2)
  have "wp (tryCatch (bnd (liftR (fst (syn_ini (b_size b) False READ h))) (\<lambda>_. handleSYN LISTEN h))
      (onBadHeader (andThen (bump badSynDropped_update) (ret False)))) ?Q ?E r"
    unfolding wp_tryCatch
    by (rule wp_mono [OF syn])
      (auto simp: onBadHeader_def wp_andThen bump_def wp_upd wp_ret split: option.split exn.split)
  with oth have "wp (rx_dispatch LISTEN b h p) ?Q ?E r" by (simp add: rx_dispatch_def)
  then show ?thesis by (rule wp_mono) simp_all
qed

lemma listen_rx:
  assumes "ctl True {LISTEN} False True r"
  shows "wp (handleRxEvent LISTEN) (\<lambda>_. role_ok) (\<lambda>_ _. True) r"
proof -
  let ?I = "ctl True {LISTEN, CLOSED} False True"
  let ?E = "\<lambda>e t. (\<exists>x. e = BadHeader x) \<longrightarrow> ?I t"
  have acc: "wp (rx_accepted LISTEN bc h p) (\<lambda>_. role_ok) ?E t"
    if "ctl True {SERV_WAIT_SYN_ACK, CLOSED} False True t" for bc h p t
    by (rule wp_mono [OF rx_accepted_listen [OF that]]) (auto simp: role_ok_def ctl_def split: rstate.split)
  have go: "wp (bnd (rx_dispatch LISTEN b h p) (\<lambda>go. if go then rx_accepted LISTEN bc h p else ret ()))
      (\<lambda>_. role_ok) ?E t" if t: "ctl True {LISTEN} False True t" for b h p bc t
    unfolding wp_bnd
    by (rule wp_mono [OF dispatch_listen [OF t]]) (auto simp: acc wp_ret ctl_role_ok split: if_splits)
  have seg: "wp (rx_segment LISTEN bc) (\<lambda>_. role_ok) ?E t" if t: "ctl True {LISTEN} False True t" for bc t
  proof -
    have "?I t" using t by (simp add: ctl_def)
    then show ?thesis
      unfolding rx_segment_def
      using go [OF t] by (auto simp: wp_raise wp_reading bump_def wp_upd Let_def ctl_role_ok
          split: list.split prod.split sum.split)
  qed
  have catch: "wp (tryCatch (rx_segment LISTEN bc) (onBadHeader (bump badHdrDropped_update)))
      (\<lambda>_. role_ok) (\<lambda>_ _. True) t" if t: "ctl True {LISTEN} False True t" for bc t
    unfolding wp_tryCatch
    by (rule wp_mono [OF seg [OF t]])
      (auto simp: onBadHeader_def bump_def wp_upd ctl_role_ok split: option.split exn.split)
  have "wp (handleRx_notclosed LISTEN) (\<lambda>_. role_ok) (\<lambda>_ _. True) r"
    unfolding handleRx_notclosed_def wp_bnd
  proof (rule wp_mono [OF wp_pres [OF ctl_tryPopUpstream assms]])
    fix m t
    assume t: "ctl True {LISTEN} False True t"
    then have "role_ok t" by (simp add: role_ok_def ctl_def)
    with catch [OF t] show "wp (case m of None \<Rightarrow> raise (InternalError ''Spurious wakeup ??'')
        | Some bc \<Rightarrow> if c_size bc < minHeaderSize then ret ()
           else tryCatch (rx_segment LISTEN bc) (onBadHeader (bump badHdrDropped_update)))
        (\<lambda>_. role_ok) (\<lambda>_ _. True) t"
      by (auto simp: wp_raise wp_ret split: option.split)
  qed simp
  then show ?thesis by (simp add: handleRxEvent_def)
qed

lemma wp_pres_seq:
  "pres I m \<Longrightarrow> (\<And>t. I t \<Longrightarrow> wp n Q (\<lambda>_ _. True) t) \<Longrightarrow> I s \<Longrightarrow> wp (andThen m n) Q (\<lambda>_ _. True) s"
  unfolding wp_andThen by (rule wp_mono [OF wp_pres [where I = I]]) simp_all

lemma wp_pres_bnd:
  "pres I m \<Longrightarrow> (\<And>a t. I t \<Longrightarrow> wp (f a) Q (\<lambda>_ _. True) t) \<Longrightarrow> I s \<Longrightarrow> wp (bnd m f) Q (\<lambda>_ _. True) s"
  unfolding wp_bnd by (rule wp_mono [OF wp_pres [where I = I]]) simp_all

lemma close_role:
  assumes "ctl b S False False r"
  shows "wp rssi_close (\<lambda>_. ctl b S False True) (\<lambda>_ _. True) r"
proof -
  have reset: "pres (ctl b S False False) resetNegotiableParams"
    unfolding resetNegotiableParams_def setNulTimeout_def
    by (intro pres_rules pres_upd) (simp_all add: ctl_def mem_ok_def)
  have purge: "pres (ctl b S False False) purgeUnAcked"
    unfolding purgeUnAcked_def by (intro pres_rules ctls)
  note sq = wp_pres_seq [where I = "ctl b S False False"]
  show ?thesis
    unfolding rssi_close_def seqs.simps andThen_ret
    by (intro sq [OF ctl_queues(1)] sq [OF ctl_queues(2)] sq [OF ctl_upds(6)] sq [OF ctl_upds(7)]
        sq [OF ctl_cancelT] sq [OF reset] sq [OF purge] sq [OF ctl_upds(3)] assms)
      (simp_all add: wp_upd ctl_def mem_ok_def)
qed

lemma armNul_client:
  assumes "ctl False S n q r"
  shows "wp armRexAndNulTimer (\<lambda>_. ctl False S True q) (\<lambda>_ _. True) r"
  using assms by (auto simp: armRexAndNulTimer_def armAbs_def wp_eqs ctl_def mem_ok_def timer_armed_eqs)

lemma sendKeep_client:
  assumes "ctl False S n q r"
  shows "wp (sendBufAndKeepForRetransmission bc) (\<lambda>_. ctl False S True q) (\<lambda>_ _. True) r"
proof -
  have "pres (ctl False S n q) (pushUnAcked b)" for b
    unfolding pushUnAcked_def by (intro pres_rules ctls)
  then show ?thesis
    unfolding sendBufAndKeepForRetransmission_def
    by (intro wp_pres_bnd [OF ctl_sendBuf _ assms] wp_pres_seq [OF _ armNul_client])
qed

lemma sendSYN_client:
  assumes "ctl False S n q r"
  shows "wp (sendSYN a) (\<lambda>_. ctl False S True q) (\<lambda>_ _. True) r"
proof -
  have k: "wp (case b_setSize k b of (Inl e, _) \<Rightarrow> raise e
      | (Inr _, b') \<Rightarrow> sendBufAndKeepForRetransmission [b']) (\<lambda>_. ctl False S True q) (\<lambda>_ _. True) t"
    if "ctl False S n q t" for k b t
    using sendKeep_client [OF that] by (auto simp: wp_raise split: prod.split sum.split)
  have "wp (case syn_ini (b_avail b) False SET (b_view b) of
       (Inl e, _) \<Rightarrow> raise e
     | (Inr _, h) \<Rightarrow>
        andThen (upd (\<lambda>r. r\<lparr>r_lastSeqSent := initialSeqNo r\<rparr>))
          (reading (synParams a) (\<lambda>p.
            let h' = put_syn p h in
            andThen (upd (\<lambda>r. r\<lparr>r_unAcked := win_seed (r_lastSeqSent r) (r_unAcked r)\<rparr>))
              (case b_setSize (unat (getHSize h')) (b_setView h' b) of
                 (Inl e, _) \<Rightarrow> raise e
               | (Inr _, b') \<Rightarrow> sendBufAndKeepForRetransmission [b'])))) (\<lambda>_. ctl False S True q) (\<lambda>_ _. True) t"
    if t: "ctl False S n q t" for b t
  proof -
    have "ctl False S n q (t\<lparr>r_lastSeqSent := x, r_unAcked := y\<rparr>)" for x y
      using t by (simp add: ctl_def mem_ok_def)
    from k [OF this] show ?thesis
      by (simp add: wp_raise wp_andThen wp_upd wp_reading Let_def split: prod.split sum.split)
  qed
  then show ?thesis
    unfolding sendSYN_def by (rule wp_pres_bnd [OF ctl_newBuf _ assms])
qed

lemma sendNUL_client:
  assumes "ctl False S False False r"
  shows "wp sendNUL (\<lambda>_. ctl False S True False) (\<lambda>_ _. True) r"
proof -
  have "ctl False S True False (r\<lparr>r_stats := st, r_timers := timer_arm_rel x NulT y (r_timers r)\<rparr>)" for st x y
    using assms by (simp add: ctl_def mem_ok_def timer_armed_eqs)
  from wp_pres [OF ctl_sends(1) this]
  have a: "wp sendACK (\<lambda>_. wp (ret False) (\<lambda>_. ctl False S True False) (\<lambda>_ _. True)) (\<lambda>_ _. True)
     (r\<lparr>r_stats := st, r_timers := timer_arm_rel x NulT y (r_timers r)\<rparr>)" for st x y
    by (rule wp_mono) (simp_all add: wp_ret)
  have inc: "pres (ctl False S False False) incSeqSent" unfolding incSeqSent_def by (rule ctls)
  have "wp (andThen (sendBufAndKeepForRetransmission bc) (ret True)) (\<lambda>_. ctl False S True False) (\<lambda>_ _. True) t"
    if "ctl False S False False t" for bc t
    unfolding wp_andThen by (rule wp_mono [OF sendKeep_client [OF that]]) (simp_all add: wp_ret)
  then have "wp (andThen incSeqSent (bnd (ctlSeg (FLG_ACK OR FLG_NUL) r_lastSeqSent) (\<lambda>bc.
           andThen (sendBufAndKeepForRetransmission bc) (ret True)))) (\<lambda>_. ctl False S True False) (\<lambda>_ _. True) r"
    by (intro wp_pres_seq [OF inc _ assms] wp_pres_bnd [OF ctl_ctlSeg])
  with a show ?thesis
    by (simp add: sendNUL_def wp_cond wp_andThen bump_def wp_upd wp_armRel)
qed

lemma nulTimeout_role:
  assumes "ctl b S False False r" "{CLOSED, OPEN_OUTWIN_FULL} \<subseteq> S"
  shows "wp (processNulTimeout st) (\<lambda>_ t. ctl b S True False t \<or> r_state t = CLOSED \<and> mem_ok t)
    (\<lambda>_ _. True) r"
proof -
  let ?Q = "\<lambda>_ t. ctl b S True False t \<or> r_state t = CLOSED \<and> mem_ok t"
  let ?T = "\<lambda>_ _. True"
  have srv: "wp (seqs [bump connFailed_update, sendRST, changeState CLOSED]) ?Q ?T t"
    if "ctl b S False False t" for t
    unfolding seqs.simps andThen_ret
    by (intro wp_pres_seq [where I = "ctl b S False False", OF ctl_bump]
        wp_pres_seq [where I = "ctl b S False False", OF ctl_sends(2)] that)
      (simp add: changeState_def Let_def wp_upd ctl_def)
  have clnt: "wp (bnd sendNUL (\<lambda>ok. if \<not> ok
         then andThen (upd (\<lambda>r. r\<lparr>r_usrI := False\<rparr>)) (changeState OPEN_OUTWIN_FULL) else ret ())) ?Q ?T t"
    if t: "ctl b S False False t" "\<not> r_isServer t" for t
  proof -
    have b: "b = False" using t by (simp add: ctl_def)
    show ?thesis
      unfolding wp_bnd
      by (rule wp_mono [OF sendNUL_client])
        (use t b assms(2) in \<open>auto simp: wp_andThen wp_upd wp_ret changeState_def Let_def ctl_def mem_ok_def\<close>)
  qed
  have "ctl b S False False (r\<lparr>r_stats := nulTimeouts_update (\<lambda>n. n + 1) (r_stats r)\<rparr>)"
    using assms(1) by simp
  from srv [OF this] clnt [OF this] show ?thesis
    by (simp add: processNulTimeout_def wp_andThen wp_bump wp_cond wp_raise)
qed

lemma notclosed_round:
  assumes "ctl b S True False r" "st \<noteq> LISTEN" "{CLOSED, PREP_OPEN, OPEN, OPEN_OUTWIN_FULL} \<subseteq> S"
  shows "wp (advance_notclosed st chk ev) (\<lambda>_ t. ctl b S True False t \<or> r_state t = CLOSED \<and> mem_ok t)
    (\<lambda>_ _. True) r"
proof -
  let ?Q = "\<lambda>_ t. ctl b S True False t \<or> r_state t = CLOSED \<and> mem_ok t"
  let ?T = "\<lambda>_ _. True"
  have p: "wp m ?Q ?T r" if "pres (ctl b S True False) m" for m :: "(rssi, unit) sem"
    by (rule wp_mono [OF wp_pres [OF that assms(1)]]) simp_all
  have rx: "wp (handleRxEvent st) ?Q ?T r" by (intro p ctls) (use assms(2,3) in auto)
  have ui: "wp (handleUsrInputEvent st) ?Q ?T r" by (intro p ctls) (use assms(3) in auto)
  have uo: "wp (handleUsrOutputEvent st) ?Q ?T r" by (intro p ctls)
  have tm: "wp (andThen (cancelT t) (timer_process st t)) ?Q ?T r" for t
  proof (cases "t = NulT")
    case True
    have "ctl b S False False (r\<lparr>r_timers := x\<rparr>)" for x using assms(1) by (simp add: ctl_def)
    from nulTimeout_role [OF this] True assms(3) show ?thesis
      by (simp add: wp_andThen cancelT_def wp_upd timer_process_def)
  next
    case False
    then show ?thesis using assms(3) by (intro p pres_rules ctls) auto
  qed
  from rx ui uo tm show ?thesis
    by (auto simp: advance_notclosed_def wp_reading wp_raise split: revent.split option.split)
qed

theorem advance_role:
  assumes "role_ok r" "advance ev r = (Inr (), t)"
  shows "role_ok t"
proof -
  let ?T = "\<lambda>_ _. True"
  have mem: "mem_ok r" using assms(1) by (simp add: role_ok_def)
  have "wp (advance ev) (\<lambda>_. role_ok) ?T r"
  proof (cases "r_state r")
    case CLOSED
    let ?b = "r_isServer r"
    have opn: "pres (ctl b S False True) rssi_open" for b S
      unfolding rssi_open_def by (rule pres_upd) (simp add: ctl_def mem_ok_def)
    have inc: "pres (ctl b S False True) increaseReopenDelay" for b S
      unfolding increaseReopenDelay_def by (rule pres_upd) (simp add: ctl_def mem_ok_def)
    have clnt: "wp (andThen (sendSYN False) (changeState CLNT_WAIT_SYN_ACK)) (\<lambda>_. role_ok) ?T u"
      if "ctl False {CLOSED} False True u" for u
      unfolding wp_andThen
      by (rule wp_mono [OF sendSYN_client [OF that]])
        (simp_all add: changeState_def Let_def wp_upd role_ok_def ctl_def)
    have rest: "wp (cond r_isServer (changeState LISTEN)
       (seqs [increaseReopenDelay, sendSYN False, changeState CLNT_WAIT_SYN_ACK])) (\<lambda>_. role_ok) ?T u"
      if u: "ctl ?b {CLOSED} False True u" for u
    proof (cases "r_isServer u")
      case True
      then show ?thesis
        using u by (simp add: wp_cond changeState_def Let_def wp_upd role_ok_def ctl_def)
    next
      case False
      then have "ctl False {CLOSED} False True u" using u by (simp add: ctl_def)
      then have "wp (andThen increaseReopenDelay (andThen (sendSYN False) (changeState CLNT_WAIT_SYN_ACK)))
          (\<lambda>_. role_ok) ?T u"
        by (intro wp_pres_seq [OF inc clnt])
      then show ?thesis using False by (simp add: wp_cond)
    qed
    have "ctl ?b {CLOSED} False False r" using CLOSED mem by (simp add: ctl_def)
    then have "wp rssi_close (\<lambda>_. wp (andThen rssi_open (cond r_isServer (changeState LISTEN)
       (seqs [increaseReopenDelay, sendSYN False, changeState CLNT_WAIT_SYN_ACK]))) (\<lambda>_. role_ok) ?T) ?T r"
      by (intro wp_mono [OF close_role] wp_pres_seq [OF opn rest])
    then show ?thesis
      using CLOSED by (simp add: advance_def wp_reading advance_closed_def wp_andThen_fun)
  next
    case LISTEN
    then have c: "ctl True {LISTEN} False True r" using assms(1) by (simp add: role_ok_def ctl_def)
    have "ctl True {LISTEN, CLOSED} False True (r\<lparr>r_timers := x, r_stats := y\<rparr>)" for x y
      using c by (simp add: ctl_def)
    then have "wp st_processRetransmissionTimeout (\<lambda>_. role_ok) ?T (r\<lparr>r_timers := x, r_stats := y\<rparr>)" for x y
      by (intro wp_mono [OF wp_pres [OF ctl_processRex [where S = "{LISTEN, CLOSED}" and b = True
          and n = False and q = True]]]) (auto simp: ctl_role_ok)
    with listen_rx [OF c] LISTEN show ?thesis
      by (auto simp: advance_def advance_notclosed_def wp_reading wp_raise handleUsrInputEvent_def
          handleUsrOutputEvent_def timer_process_def processRetransmissionTimeout_def
          processAckTimeout_def processNulTimeout_def bump_def wp_andThen wp_upd cancelT_def
          split: revent.split option.split timer_id.split)
  next
    case PREP_OPEN
    then show ?thesis
      using assms(1) by (simp add: advance_def wp_reading advance_prepOpen_def wp_andThen wp_upd
          changeState_def Let_def role_ok_def) (simp add: mem_ok_def)
  next
    case CLNT_WAIT_SYN_ACK
    then have "ctl False clnt_states True False r" using assms(1) by (simp add: role_ok_def ctl_def)
    from notclosed_round [OF this, of CLNT_WAIT_SYN_ACK True ev] CLNT_WAIT_SYN_ACK show ?thesis
      by (simp add: advance_def wp_reading) (erule wp_mono, auto simp: role_ok_def ctl_def split: rstate.split)
  next
    case SERV_WAIT_SYN_ACK
    then have "ctl True serv_states True False r" using assms(1) by (simp add: role_ok_def ctl_def)
    from notclosed_round [OF this, of SERV_WAIT_SYN_ACK True ev] SERV_WAIT_SYN_ACK show ?thesis
      by (simp add: advance_def wp_reading) (erule wp_mono, auto simp: role_ok_def ctl_def split: rstate.split)
  next
    case OPEN
    then have "ctl (r_isServer r) {PREP_OPEN, OPEN, OPEN_OUTWIN_FULL, CLOSED} True False r"
      using assms(1) by (simp add: role_ok_def ctl_def)
    from notclosed_round [OF this, of OPEN True ev] OPEN show ?thesis
      by (simp add: advance_def wp_reading) (erule wp_mono, auto simp: role_ok_def ctl_def)
  next
    case OPEN_OUTWIN_FULL
    then have "ctl (r_isServer r) {PREP_OPEN, OPEN, OPEN_OUTWIN_FULL, CLOSED} True False r"
      using assms(1) by (simp add: role_ok_def ctl_def)
    from notclosed_round [OF this, of OPEN_OUTWIN_FULL True ev] OPEN_OUTWIN_FULL show ?thesis
      by (simp add: advance_def wp_reading) (erule wp_mono, auto simp: role_ok_def ctl_def)
  qed
  from wp_Inr [OF this assms(2)] show ?thesis .
qed

lemma role_step:
  assumes "role_ok r" "rssi_step r r'"
  shows "role_ok r'"
  using assms(2,1)
proof (cases rule: rssi_step.cases)
  case (step_thread ev)
  then show ?thesis using advance_role [OF assms(1)] by blast
qed (auto simp: role_ok_def mem_ok_def split: rstate.splits)

lemma role_reach: "rssi_reach r0 r \<Longrightarrow> role_ok r0 \<Longrightarrow> role_ok r"
  by (induction rule: rssi_reach.induct) (auto intro: role_step)

text \<open>With a timer armed, the list of timers has a first.\<close>

lemma armed_first: "timer_isArmed t ts \<Longrightarrow> timer_first ts \<noteq> None"
  by (auto simp: timer_first_None timer_isArmed_def)

lemma rssi_create_role:
  assumes "rssi_create srv mtu dfl junk = Inr r" "mem_ok junk"
  shows "role_ok r"
proof -
  obtain c where "(case dfl of None \<Rightarrow> Inr rcfg_default | Some c \<Rightarrow> assertValid c) = Inr c"
    using assms by (auto simp: rssi_create_def split: sum.splits)
  with assms show ?thesis by (auto simp: rssi_create_def role_ok_def mem_ok_def)
qed

end
