(* ===== verification/RssiEvents.thy ===== *)
theory RssiEvents
  imports RssiCtl
begin

text \<open>
  What single events do: the header of every segment that is sent, the segments that carry
  no data, the end of a connection after too many retransmissions or a RST of the peer, and
  the two states that do not end it.
\<close>

section \<open>The header of a segment that is sent\<close>

definition hdr_wf :: "u8 list \<Rightarrow> bool" where
  "hdr_wf h \<longleftrightarrow> even (unat (getHSize h)) \<and> 8 \<le> unat (getHSize h) \<and> unat (getHSize h) \<le> length h"

lemma hdr_wf_half: "hdr_wf h \<Longrightarrow> \<exists>n. unat (getHSize h) = 2 * n \<and> 4 \<le> n \<and> 2 * n \<le> length h"
  by (auto simp: hdr_wf_def elim!: evenE)

lemma view_setView_fits [simp]: "b_beg b \<le> b_capa b \<Longrightarrow> b_view (b_setView v b) = v"
  by (simp add: b_view_def b_setView_def b_capa_def)

lemma setFlags_fields [simp]:
  "2 \<le> length h \<Longrightarrow> getHSize (setFlags v h) = getHSize h"
  "2 \<le> length h \<Longrightarrow> getFlags (setFlags v h) = v"
  "getSeqNo (setFlags v h) = getSeqNo h" "0 < i \<Longrightarrow> setFlags v h ! i = h ! i"
  by (auto simp: hdr_field_defs intro!: nth_list_update_eq)

lemma setSeqNo_fields [simp]:
  "getHSize (setSeqNo v h) = getHSize h" "getFlags (setSeqNo v h) = getFlags h"
  "3 \<le> length h \<Longrightarrow> getSeqNo (setSeqNo v h) = v"
  by (auto simp: hdr_field_defs)

lemma setAckNo_fields [simp]:
  "getHSize (setAckNo v h) = getHSize h" "getFlags (setAckNo v h) = getFlags h"
  "getSeqNo (setAckNo v h) = getSeqNo h" "4 \<le> length h \<Longrightarrow> getAckNo (setAckNo v h) = v"
  "3 < i \<Longrightarrow> setAckNo v h ! i = h ! i"
  by (auto simp: hdr_field_defs)

text \<open>What \<open>sendBuf\<close> makes of the header \<open>h\<close>.\<close>

definition sent_header :: "rssi \<Rightarrow> u8 list \<Rightarrow> u8 list" where
  "sent_header r h =
     (let h2 = setAckNo (r_lastSeqRecv r)
            (if bufq_isFull (r_outQ r) then setFlags (getFlags h OR FLG_BSY) h else h)
      in if r_addChecksum r then writeChksum h2 else h2)"

lemma sent_header_spec:
  assumes "hdr_wf h"
  shows "getFlags (sent_header r h) = (if bufq_isFull (r_outQ r) then getFlags h OR FLG_BSY else getFlags h)
    \<and> getHSize (sent_header r h) = getHSize h
    \<and> getSeqNo (sent_header r h) = getSeqNo h \<and> getAckNo (sent_header r h) = r_lastSeqRecv r
    \<and> length (sent_header r h) = length h
    \<and> (r_addChecksum r \<longrightarrow> cs (sent_header r h) = 0)
    \<and> (\<forall>i. unat (getHSize h) \<le> i \<longrightarrow> sent_header r h ! i = h ! i)"
proof -
  let ?h1 = "if bufq_isFull (r_outQ r) then setFlags (getFlags h OR FLG_BSY) h else h"
  let ?h2 = "setAckNo (r_lastSeqRecv r) ?h1"
  have len: "8 \<le> length h" and hs: "8 \<le> unat (getHSize h)" using assms by (auto simp: hdr_wf_def)
  have h2: "getHSize ?h2 = getHSize h" "length ?h2 = length h" "getSeqNo ?h2 = getSeqNo h"
      "getAckNo ?h2 = r_lastSeqRecv r"
      "getFlags ?h2 = (if bufq_isFull (r_outQ r) then getFlags h OR FLG_BSY else getFlags h)"
    using len by simp_all
  have nth: "?h2 ! i = h ! i" if "unat (getHSize h) \<le> i" for i using that hs by simp
  obtain n where n: "unat (getHSize h) = 2 * n" "4 \<le> n" "2 * n \<le> length h"
    using hdr_wf_half [OF assms] by blast
  have good: "cs (writeChksum ?h2) = 0"
    using n h2(1,2) by (intro writeChksum_good [of _ n]) simp_all
  have fields: "getFlags (writeChksum ?h2) = getFlags ?h2" "getHSize (writeChksum ?h2) = getHSize ?h2"
      "getSeqNo (writeChksum ?h2) = getSeqNo ?h2" "getAckNo (writeChksum ?h2) = getAckNo ?h2"
    using hs h2(1) by (simp_all only: writeChksum_fields)
  have wnth: "writeChksum ?h2 ! i = ?h2 ! i" if "unat (getHSize h) \<le> i" for i
    using that hs h2(1) by (intro writeChksum_nth) auto
  have "sent_header r h = (if r_addChecksum r then writeChksum ?h2 else ?h2)"
    by (simp only: sent_header_def Let_def)
  then show ?thesis using h2 nth good fields wnth by (cases "r_addChecksum r") simp_all
qed

text \<open>Sending a segment that is not too large for the peer never fails; the segment is given
  to the upstream port if that accepts it, and counted as dropped if not.\<close>

definition tx_env :: "chain \<Rightarrow> renv \<Rightarrow> renv" where
  "tx_env bc e = e\<lparr>e_pushes := e_pushes e + 1,
     e_tx := (if e_accepts e (e_pushes e) then e_tx e @ [bc] else e_tx e)\<rparr>"

lemma sendBuf_spec:
  assumes "c_size (b # rest) \<le> r_peerSgsMX r + unat (getHSize (b_view b))"
  defines "bc \<equiv> b_setView (sent_header r (b_view b)) b # rest"
  shows "\<exists>s. sendBuf (b # rest) r = (Inr bc, r\<lparr>r_numCak := 0, r_timers := timer_cancel AckT (r_timers r),
    r_env := tx_env bc (r_env r), r_stats := s\<rparr>)"
proof -
  have "fst (sendBuf (b # rest) r) = Inr bc \<and> snd (sendBuf (b # rest) r) =
      r\<lparr>r_numCak := 0, r_timers := timer_cancel AckT (r_timers r), r_env := tx_env bc (r_env r),
        r_stats := r_stats (snd (sendBuf (b # rest) r))\<rparr>"
    using assms(1)
    by (auto simp: sendBuf_def bc_def sent_header_def tx_env_def sem_app bnd_def andThen_def
        bump_def cancelT_def tryPushUpstream_def Let_def not_less)
  then show ?thesis by (metis prod.collapse)
qed


section \<open>Segments without data\<close>

lemma ctlSeg_spec:
  assumes "mem_ok r"
  shows "\<exists>b. ctlSeg flags sq r = (Inr [b], r\<lparr>r_env := (r_env r)\<lparr>e_allocs := e_allocs (r_env r) + 1\<rparr>\<rparr>)
    \<and> hdr_wf (b_view b) \<and> getFlags (b_view b) = flags \<and> unat (getHSize (b_view b)) = 8
    \<and> getSeqNo (b_view b) = sq (r\<lparr>r_env := (r_env r)\<lparr>e_allocs := e_allocs (r_env r) + 1\<rparr>\<rparr>)
    \<and> c_size [b] = 8 \<and> b_beg b \<le> b_capa b"
proof -
  let ?b = "b_fresh (e_mem (r_env r) (e_allocs (r_env r)))"
  let ?r = "r\<lparr>r_env := (r_env r)\<lparr>e_allocs := e_allocs (r_env r) + 1\<rparr>\<rparr>"
  have m: "64 \<le> length (e_mem (r_env r) (e_allocs (r_env r)))" using assms by (simp add: mem_ok_def)
  then have b: "b_beg ?b = 32" "32 \<le> b_capa ?b" "32 \<le> b_avail ?b" "32 \<le> length (b_view ?b)"
    using b_fresh_avail [OF m] by (simp_all add: b_fresh_def HEADROOM_def b_capa_def)
  have l: "length h' = length (b_view ?b)" if "hdr_ini n c SET (b_view ?b) = (Inr y, h')" for n c y h'
    using that by (auto simp: hdr_ini_def sem_app andThen_def bnd_def split: if_splits)
  obtain h where h: "hdr_ini (b_avail ?b) False SET (b_view ?b) = (Inr True, h)" "getHSize h = 8"
    using hdr_ini_set_ok [of "b_avail ?b" "b_view ?b" False] b(3,4) by auto
  let ?h = "setSeqNo (sq ?r) (setFlags flags h)"
  let ?b2 = "(b_setView ?h ?b)\<lparr>b_end := 40\<rparr>"
  have len: "32 \<le> length h" using l [OF h(1)] b(4) by simp
  have cap: "b_capa (b_setView ?h ?b) = b_capa ?b"
    using l [OF h(1)] b by (simp add: b_capa_def b_setView_def)
  have hs: "getHSize ?h = 8" using h(2) len by simp
  have "40 \<le> b_capa ?b" using m by (simp add: b_capa_def b_fresh_def)
  then have sz: "b_setSize (unat (getHSize ?h)) (b_setView ?h ?b) = (Inr (), ?b2)"
    using b(1) hs cap by (simp add: b_setSize_def Let_def sem_app)
  have "ctlSeg flags sq r = (Inr [?b2], ?r)"
    using h(1) sz by (simp add: ctlSeg_def newBuf_def sem_app bnd_def andThen_def Let_def)
  moreover have "b_view ?b2 = ?h"
    using b view_setView_fits [of ?b ?h] by (simp add: b_view_def b_capa_def)
  moreover have "c_size [?b2] = 8" "b_beg ?b2 \<le> b_capa ?b2"
    using b cap by (simp_all add: b_size_def b_capa_def)
  moreover have "hdr_wf ?h" "getFlags ?h = flags" "getSeqNo ?h = sq ?r"
    using hs len by (simp_all add: hdr_wf_def)
  ultimately show ?thesis using hs by (intro exI [of _ ?b2]) simp
qed

text \<open>\<open>sent r t flags sq\<close>: from \<open>r\<close>, one segment without data was given to the upstream
  port (which took it or dropped it) with these flags and this sequence number, acknowledging
  what was received last, and with a good checksum if checksums are in use.\<close>

definition ctl_sent :: "rssi \<Rightarrow> u8 \<Rightarrow> u8 \<Rightarrow> chain \<Rightarrow> bool" where
  "ctl_sent r flags sq bc \<longleftrightarrow> (\<exists>b. bc = [b] \<and> b_size b = 8
     \<and> getFlags (b_view b) = (if bufq_isFull (r_outQ r) then flags OR FLG_BSY else flags)
     \<and> getSeqNo (b_view b) = sq \<and> getAckNo (b_view b) = r_lastSeqRecv r
     \<and> (r_addChecksum r \<longrightarrow> cs (b_view b) = 0))"

lemma ctl_send_spec:
  assumes "mem_ok r"
  shows "\<exists>bc s. bnd (ctlSeg flags sq) (\<lambda>bc. bnd (sendBuf bc) (\<lambda>_. ret ())) r =
      (Inr (), r\<lparr>r_numCak := 0, r_timers := timer_cancel AckT (r_timers r),
        r_env := tx_env bc ((r_env r)\<lparr>e_allocs := e_allocs (r_env r) + 1\<rparr>), r_stats := s\<rparr>)
    \<and> ctl_sent r flags (sq (r\<lparr>r_env := (r_env r)\<lparr>e_allocs := e_allocs (r_env r) + 1\<rparr>\<rparr>)) bc"
proof -
  let ?r = "r\<lparr>r_env := (r_env r)\<lparr>e_allocs := e_allocs (r_env r) + 1\<rparr>\<rparr>"
  obtain b where b: "ctlSeg flags sq r = (Inr [b], ?r)" "hdr_wf (b_view b)" "getFlags (b_view b) = flags"
      "unat (getHSize (b_view b)) = 8" "getSeqNo (b_view b) = sq ?r" "c_size [b] = 8" "b_beg b \<le> b_capa b"
    using ctlSeg_spec [OF assms] by blast
  let ?bc = "[b_setView (sent_header ?r (b_view b)) b]"
  have "c_size [b] \<le> r_peerSgsMX ?r + unat (getHSize (b_view b))" using b(4,6) by simp
  from sendBuf_spec [OF this] obtain s where s: "sendBuf [b] ?r = (Inr ?bc,
      ?r\<lparr>r_numCak := 0, r_timers := timer_cancel AckT (r_timers r),
        r_env := tx_env ?bc (r_env ?r), r_stats := s\<rparr>)" by auto
  have "ctl_sent r flags (sq ?r) ?bc"
    using sent_header_spec [OF b(2), of ?r] b by (auto simp: ctl_sent_def)
  then show ?thesis using b(1) s by (auto simp: bnd_def sem_app)
qed

lemma sendACK_spec:
  assumes "mem_ok r"
  shows "\<exists>bc s. sendACK r = (Inr (), r\<lparr>r_numCak := 0, r_timers := timer_cancel AckT (r_timers r),
        r_env := tx_env bc ((r_env r)\<lparr>e_allocs := e_allocs (r_env r) + 1\<rparr>), r_stats := s\<rparr>)
    \<and> ctl_sent r FLG_ACK (r_lastSeqSent r + 1) bc"
  using ctl_send_spec [OF assms, of FLG_ACK "\<lambda>r. r_lastSeqSent r + 1"] by (simp add: sendACK_def)

lemma sendRST_spec:
  assumes "mem_ok r"
  shows "\<exists>bc s. sendRST r = (Inr (), r\<lparr>r_lastSeqSent := r_lastSeqSent r + 1, r_numCak := 0,
        r_timers := timer_cancel AckT (r_timers r),
        r_env := tx_env bc ((r_env r)\<lparr>e_allocs := e_allocs (r_env r) + 1\<rparr>), r_stats := s\<rparr>)
    \<and> ctl_sent r (FLG_ACK OR FLG_RST) (r_lastSeqSent r + 1) bc"
proof -
  have "mem_ok (r\<lparr>r_lastSeqSent := r_lastSeqSent r + 1\<rparr>)" using assms by (simp add: mem_ok_def)
  from ctl_send_spec [OF this, of "FLG_ACK OR FLG_RST" r_lastSeqSent] show ?thesis
    by (simp add: sendRST_def incSeqSent_def ctl_sent_def)
qed

section \<open>The end of a connection\<close>

lemma rexmit_exhausted:
  assumes "mem_ok r" "st \<noteq> CLOSED" "r_rexMX r < r_numRex r + 1"
  shows "\<exists>r' bc. processRetransmissionTimeout st r = (Inr (), r') \<and> r_state r' = CLOSED
    \<and> e_tx (r_env r') = (if e_accepts (r_env r) (e_pushes (r_env r)) then e_tx (r_env r) @ [bc] else e_tx (r_env r))
    \<and> ctl_sent r (FLG_ACK OR FLG_RST) (r_lastSeqSent r + 1) bc"
proof -
  let ?s = "connFailed_update (\<lambda>n. n + 1) (rexTimeouts_update (\<lambda>n. n + 1) (r_stats r))"
  let ?r = "r\<lparr>r_numRex := r_numRex r + 1, r_stats := ?s\<rparr>"
  have "mem_ok ?r" using assms(1) by (simp add: mem_ok_def)
  from sendRST_spec [OF this] obtain bc s where s: "sendRST ?r = (Inr (), ?r\<lparr>
        r_lastSeqSent := r_lastSeqSent r + 1, r_numCak := 0, r_timers := timer_cancel AckT (r_timers r),
        r_env := tx_env bc ((r_env r)\<lparr>e_allocs := e_allocs (r_env r) + 1\<rparr>), r_stats := s\<rparr>)"
      "ctl_sent r (FLG_ACK OR FLG_RST) (r_lastSeqSent r + 1) bc"
    by (auto simp: ctl_sent_def)
  have "processRetransmissionTimeout st r = andThen sendRST (changeState CLOSED) ?r"
    using assms(2,3)
    by (simp add: processRetransmissionTimeout_def st_processRetransmissionTimeout_def bump_def sem_app)
  then show ?thesis
    using s by (auto simp: andThen_Inr changeState_def Let_def sem_app tx_env_def)
qed

text \<open>C13: When the retransmission timer expires once more than the limit, which is not 0,
  the connection resets the peer (a RST with the next sequence number is handed to the
  upstream port, and sent if that accepts it) and is closed.\<close>

theorem retransmission_limit:
  assumes "mem_ok r" "st \<noteq> CLOSED" "0 < r_rexMX r" "r_rexMX r < r_numRex r + 1"
  shows "\<exists>r' bc. processRetransmissionTimeout st r = (Inr (), r') \<and> r_state r' = CLOSED
    \<and> e_tx (r_env r') = (if e_accepts (r_env r) (e_pushes (r_env r)) then e_tx (r_env r) @ [bc] else e_tx (r_env r))
    \<and> ctl_sent r (FLG_ACK OR FLG_RST) (r_lastSeqSent r + 1) bc"
  using rexmit_exhausted [OF assms(1,2,4)] .

text \<open>A limit of 0, which the comment in \<^verbatim>\<open>src/src/cpsw_rssi_proto.h\<close> (line 172) explains as
  \<^verbatim>\<open>forever\<close>, is no exception in the code: the first expiry closes the connection.\<close>

theorem retransmission_limit_zero:
  assumes "mem_ok r" "st \<noteq> CLOSED" "r_rexMX r = 0" "r_numRex r = 0"
  shows "\<exists>r'. processRetransmissionTimeout st r = (Inr (), r') \<and> r_state r' = CLOSED"
  using rexmit_exhausted [OF assms(1,2)] assms(3,4) by fastforce


section \<open>A RST of the peer\<close>

text \<open>The segment that \<open>sendRST\<close> makes, acknowledging \<open>a\<close>.\<close>

definition rst_segment :: "u8 \<Rightarrow> rssi \<Rightarrow> buf \<Rightarrow> bool" where
  "rst_segment a r b \<longleftrightarrow> b_size b = 8 \<and> unat (getHSize (b_view b)) = 8
     \<and> getFlags (b_view b) = FLG_ACK OR FLG_RST \<and> getAckNo (b_view b) = a
     \<and> (r_verifyChecksum r \<longrightarrow> cs (b_view b) = 0)"

text \<open>How many of the unacknowledged segments \<open>a\<close> acknowledges.\<close>

definition newly_acked :: "u8 \<Rightarrow> rssi \<Rightarrow> nat" where
  "newly_acked a r = unat (a - w_oldest (r_unAcked r) + 1)"

definition quiet :: "rssi \<Rightarrow> bool" where
  "quiet r \<longleftrightarrow> \<not> r_peerBSY r \<and> r_numCak r < r_cakMX r"

lemma rst_flags:
  "\<not> hasFlag FLG_SYN (FLG_ACK OR FLG_RST)" "\<not> hasFlag FLG_NUL (FLG_ACK OR FLG_RST)"
  "hasFlag FLG_RST (FLG_ACK OR FLG_RST)" "hasFlag FLG_ACK (FLG_ACK OR FLG_RST)"
  "\<not> hasFlag FLG_BSY (FLG_ACK OR FLG_RST)" "(FLG_ACK OR FLG_RST) AND NOT FLG_BSY \<noteq> FLG_ACK"
  by (simp_all add: hasFlag_def flg_defs)

lemma ret_andThen [simp]: "andThen (ret ()) m = m"
  by (simp add: andThen_def)

lemma processAck_spec:
  assumes "ring_ok (r_unAcked r)" "hasFlag FLG_ACK f" "newly_acked a r \<le> ring_size (r_unAcked r)"
  shows "wp (processAckNumber f a) (\<lambda>_ t. ring_size (r_unAcked t) = ring_size (r_unAcked r) - newly_acked a r
      \<and> r_state t = r_state r \<and> r_peerBSY t = r_peerBSY r \<and> r_numCak t = r_numCak r
      \<and> r_cakMX t = r_cakMX r \<and> r_peerOssMX t = r_peerOssMX r) (\<lambda>_ _. False) r"
  using assms ring_ack_spec [OF assms(1), of a]
  by (auto simp: processAckNumber_def newly_acked_def wp_eqs cancelT_def split: prod.split)

lemma rx_ack_quiet:
  assumes "r_numCak r < r_cakMX r"
  shows "wp (rx_ack st) (\<lambda>_ t. r_unAcked t = r_unAcked r \<and> r_state t = r_state r
      \<and> r_peerOssMX t = r_peerOssMX r) (\<lambda>_ _. False) r"
  using assms by (simp add: rx_ack_def wp_eqs armRel_def)

lemma rst_accepted:
  assumes "ring_ok (r_unAcked r)" "newly_acked a r \<le> ring_size (r_unAcked r)" "quiet r"
    "getFlags h = FLG_ACK OR FLG_RST" "getAckNo h = a"
  shows "wp (rx_accepted st bc h False) (\<lambda>_ t. r_state t = r_state r
      \<and> ring_size (r_unAcked t) = ring_size (r_unAcked r) - newly_acked a r
      \<and> r_peerOssMX t = r_peerOssMX r) (\<lambda>_ _. False) r"
proof -
  have "wp (rx_busy st False) (\<lambda>_ u. r_state u = r_state r
      \<and> ring_size (r_unAcked u) = ring_size (r_unAcked r) - newly_acked a r
      \<and> r_peerOssMX u = r_peerOssMX r) (\<lambda>_ _. False) t"
    if t: "ring_size (r_unAcked t) = ring_size (r_unAcked r) - newly_acked a r
      \<and> r_state t = r_state r \<and> r_peerBSY t = r_peerBSY r \<and> r_numCak t = r_numCak r
      \<and> r_cakMX t = r_cakMX r \<and> r_peerOssMX t = r_peerOssMX r" for t
  proof -
    have "r_numCak (t\<lparr>r_peerBSY := False\<rparr>) < r_cakMX (t\<lparr>r_peerBSY := False\<rparr>)"
      using t assms(3) by (simp add: quiet_def)
    from wp_mono [OF rx_ack_quiet [OF this, of st]] t assms(3) show ?thesis
      by (simp add: rx_busy_def wp_eqs quiet_def)
  qed
  then show ?thesis
    using assms(4,5) rst_flags
    by (simp add: rx_accepted_def wp_andThen wp_ret)
      (rule wp_mono [OF processAck_spec [OF assms(1) rst_flags(4) assms(2)]], auto)
qed

lemma rst_handled:
  assumes "ring_ok (r_unAcked r)" "newly_acked a r \<le> ring_size (r_unAcked r)" "quiet r"
    "rst_segment a r b" "e_rxQ (r_env r) = [b] # q" "st \<notin> {LISTEN, CLNT_WAIT_SYN_ACK}"
  shows "wp (handleRx_notclosed st) (\<lambda>_ t. r_state t = CLOSED
      \<and> ring_size (r_unAcked t) = ring_size (r_unAcked r) - newly_acked a r
      \<and> r_peerOssMX t = r_peerOssMX r) (\<lambda>_ _. False) r"
proof -
  let ?P = "\<lambda>_ t. r_state t = CLOSED
      \<and> ring_size (r_unAcked t) = ring_size (r_unAcked r) - newly_acked a r
      \<and> r_peerOssMX t = r_peerOssMX r"
  let ?h = "b_view b"
  let ?t = "snd (changeState CLOSED (r\<lparr>r_env := (r_env r)\<lparr>e_rxQ := q\<rparr>\<rparr>))"
  have b: "b_size b = 8" "unat (getHSize ?h) = 8" "getFlags ?h = FLG_ACK OR FLG_RST"
      "getAckNo ?h = a" "r_verifyChecksum r \<longrightarrow> cs ?h = 0"
    using assms(4) by (auto simp: rst_segment_def)
  have ini: "hdr_ini 8 v READ ?h = (Inr (v \<longrightarrow> cs ?h = 0), ?h)" for v
    using b by (simp add: hdr_ini_def sem_app andThen_def bnd_def)
  have oth: "handleOTH st ?h False = andThen (changeState CLOSED) (ret True)"
    using assms(6) b(3) rst_flags by (auto simp: handleOTH_def handleOTH_notclosed_def isPureAck_def)
  have t: "ring_ok (r_unAcked ?t)" "newly_acked a ?t \<le> ring_size (r_unAcked ?t)" "quiet ?t"
      "r_state ?t = CLOSED" "ring_size (r_unAcked ?t) = ring_size (r_unAcked r)"
      "newly_acked a ?t = newly_acked a r" "r_peerOssMX ?t = r_peerOssMX r"
    using assms(1-3) by (simp_all add: changeState_def Let_def sem_app quiet_def newly_acked_def)
  have "wp (rx_accepted st [b] ?h False) ?P (\<lambda>_ _. False) ?t"
    using rst_accepted [OF t(1-3) b(3,4), of st "[b]"] t(4-7) by simp
  then have "wp (rx_segment st [b]) ?P (\<lambda>_ _. False) (r\<lparr>r_env := (r_env r)\<lparr>e_rxQ := q\<rparr>\<rparr>)"
    using b rst_flags oth
    by (auto simp: rx_segment_def rx_dispatch_def ini wp_eqs changeState_def Let_def sem_app)
  then have "wp (tryCatch (rx_segment st [b]) (onBadHeader (bump badHdrDropped_update))) ?P (\<lambda>_ _. False)
      (r\<lparr>r_env := (r_env r)\<lparr>e_rxQ := q\<rparr>\<rparr>)"
    unfolding wp_tryCatch by (rule wp_mono) auto
  then show ?thesis
    using assms(5) b(1) by (simp add: handleRx_notclosed_def tryPopUpstream_def wp_eqs minHeaderSize_def)
qed

text \<open>A RST from the peer closes an open connection.\<close>

theorem rst_closes:
  assumes "ring_ok (r_unAcked r)" "newly_acked a r \<le> ring_size (r_unAcked r)" "quiet r"
    "rst_segment a r b" "e_rxQ (r_env r) = [b] # q"
  shows "\<exists>r'. handleRxEvent OPEN r = (Inr (), r') \<and> r_state r' = CLOSED"
  using rst_handled [OF assms, of OPEN]
  by (auto simp: handleRxEvent_def wp_def split: prod.splits sum.splits)

text \<open>C21: A RST does not end a connection that waits for the ACK of its SYN, nor one that is
  out of window: the handler closes it and then, since the RST has also acknowledged
  segments, sets the state to PREP\_OPEN or OPEN again.\<close>

theorem rst_overridden:
  assumes "ring_ok (r_unAcked r)" "newly_acked a r \<le> ring_size (r_unAcked r)" "quiet r"
    "rst_segment a r b" "e_rxQ (r_env r) = [b] # q"
  shows "(newly_acked a r = ring_size (r_unAcked r)
        \<longrightarrow> (\<exists>r'. handleRxEvent SERV_WAIT_SYN_ACK r = (Inr (), r') \<and> r_state r' = PREP_OPEN))
      \<and> (ring_size (r_unAcked r) - newly_acked a r < r_peerOssMX r
        \<longrightarrow> (\<exists>r'. handleRxEvent OPEN_OUTWIN_FULL r = (Inr (), r') \<and> r_state r' = OPEN))"
proof (intro conjI impI)
  assume n: "newly_acked a r = ring_size (r_unAcked r)"
  have "wp handleRx_servWait (\<lambda>_ t. r_state t = PREP_OPEN) (\<lambda>_ _. False) r"
    unfolding handleRx_servWait_def wp_andThen
    by (rule wp_mono [OF rst_handled [OF assms, of SERV_WAIT_SYN_ACK]])
      (simp_all add: n wp_eqs resetReopenDelay_def changeState_def Let_def armRel_def)
  then show "\<exists>r'. handleRxEvent SERV_WAIT_SYN_ACK r = (Inr (), r') \<and> r_state r' = PREP_OPEN"
    by (auto simp: handleRxEvent_def wp_def split: prod.splits sum.splits)
next
  assume n: "ring_size (r_unAcked r) - newly_acked a r < r_peerOssMX r"
  have "wp handleRx_outwinFull (\<lambda>_ t. r_state t = OPEN) (\<lambda>_ _. False) r"
    unfolding handleRx_outwinFull_def wp_andThen
    by (rule wp_mono [OF rst_handled [OF assms, of OPEN_OUTWIN_FULL]])
      (use n in \<open>simp_all add: wp_eqs changeState_def Let_def\<close>)
  then show "\<exists>r'. handleRxEvent OPEN_OUTWIN_FULL r = (Inr (), r') \<and> r_state r' = OPEN"
    by (auto simp: handleRxEvent_def wp_def split: prod.splits sum.splits)
qed

section \<open>A closed server\<close>

lemma startup_fifo [simp]: "q_fifo (bufq_startup q) = q_fifo q"
  by (simp add: bufq_startup_def)

text \<open>A server whose connection has ended listens again, with empty queues that are up and
  nothing left of the old connection.\<close>

theorem server_listens:
  assumes "sane r" "r_isServer r" "r_state r = CLOSED"
  shows "\<exists>r'. advance ev r = (Inr (), r') \<and> r_state r' = LISTEN \<and> ring_size (r_unAcked r') = 0
    \<and> bufq_items (r_outQ r') = [] \<and> bufq_items (r_inpQ r') = [] \<and> q_isUp (r_outQ r') \<and> q_isUp (r_inpQ r')
    \<and> (\<forall>i < w_capa (r_unOrdered r'). win (r_unOrdered r') i = None) \<and> r_timers r' = []
    \<and> r_conID r' = r_conID r + 1"
proof -
  let ?Q = "\<lambda>_ r'. r_state r' = LISTEN \<and> ring_size (r_unAcked r') = 0
    \<and> bufq_items (r_outQ r') = [] \<and> bufq_items (r_inpQ r') = [] \<and> q_isUp (r_outQ r') \<and> q_isUp (r_inpQ r')
    \<and> (\<forall>i < w_capa (r_unOrdered r'). win (r_unOrdered r') i = None) \<and> r_timers r' = []
    \<and> r_conID r' = r_conID r + 1"
  have "wp advance_closed ?Q (\<lambda>_ _. False) r"
    unfolding advance_closed_def seqs.simps andThen_ret
    by (subst wp_andThen, rule wp_mono [OF rssi_close_spec [OF assms(1)]])
      (use assms(2) startup_spec in \<open>auto simp: wp_eqs rssi_open_def changeState_def Let_def sane_def\<close>)
  then show ?thesis
    using assms(3) by (auto simp: advance_def sem_app wp_def split: prod.splits sum.splits)
qed

section \<open>What a SYN advertises\<close>

lemma div_units:
  assumes "u div 1000 < 65536"
  shows "unat (ucast (u div ucast (1000 :: u32)) :: u16) = unat (u :: u64) div 1000"
proof -
  have "unat (u div 1000) < 65536" using assms by (simp add: word_less_nat_alt)
  then have "unat u div 1000 < 65536" by (simp add: unat_div)
  then show ?thesis by (simp add: unsigned_ucast_eq take_bit_eq_mod unat_div)
qed

text \<open>\<open>assertValid\<close> keeps the size of the window below 256, and a forced size of segments below
  65536.\<close>

lemma advertised_ossMX:
  assumes "assertValid c = Inr c'"
  shows "unat (of_nat (2 ^ unat (cf_ldMaxUnackedSegs c')) :: u8) = 2 ^ unat (cf_ldMaxUnackedSegs c')"
proof -
  have "unat (cf_ldMaxUnackedSegs c') < 8"
    using assms by (auto simp: assertValid_def not_le word_less_nat_alt split: if_splits)
  then have "(2 :: nat) ^ unat (cf_ldMaxUnackedSegs c') < 2 ^ 8" by (rule power_strict_increasing) simp
  then show ?thesis by (simp add: unat_of_nat_mod del: of_nat_power)
qed

lemma advertised_sgsMX:
  assumes "assertValid c = Inr c'" "cf_forcedSegsMax c' \<noteq> 0" "r_cfg r = c'"
  shows "unat (word_of_int (maxSegSize r) :: u16) = unat (cf_forcedSegsMax c')"
proof -
  have f: "unat (cf_forcedSegsMax c') < 65536"
    using assms(1) by (auto simp: assertValid_def not_le word_less_nat_alt split: if_splits)
  have eq: "uint (cf_forcedSegsMax c') = int (unat (cf_forcedSegsMax c'))" by simp
  then have u: "uint (cf_forcedSegsMax c') < 65536" using f by linarith
  have "sint (cf_forcedSegsMax c') = uint (cf_forcedSegsMax c')"
    unfolding sint_uint
    by (rule signed_take_bit_int_eq_self) (use u order_trans [OF _ uint_ge_0 [of "cf_forcedSegsMax c'"]] in simp_all)
  then have "sint (cf_forcedSegsMax c') = int (unat (cf_forcedSegsMax c'))" using eq by linarith
  moreover have "0 < unat (cf_forcedSegsMax c')" using assms(2) by (simp add: unat_gt_0)
  ultimately have "maxSegSize r = int (unat (cf_forcedSegsMax c'))"
    using assms(2,3) eq by (simp add: maxSegSize_def Let_def del: of_nat_unat)
  then show ?thesis
    using f by (simp add: unsigned_ucast_eq take_bit_nat_eq_self)
qed

text \<open>C17: A configuration that \<open>assertValid\<close> accepts is advertised to the peer as it is: the
  timeouts in units of a millisecond, without being cut to the 16 bits of the fields (a
  client's NUL timeout is off by the rounding of its division by 3), the counts of
  retransmissions and of segments acknowledged together, the size of the window, and the
  size of segments, that is what is configured or else what the MTU leaves.\<close>

theorem advertised_params:
  assumes "assertValid (r_cfg r) = Inr c" "r_timerUnits r = UNIT_US"
    "r_maxUnackedSegs r = 2 ^ unat (cf_ldMaxUnackedSegs c)"
    "resetNegotiableParams r = (Inr (), r')"
  shows "unat (sp_rexTO (synParams doAck r')) = unat (cf_rexTimeoutUS c) div 1000
    \<and> unat (sp_cakTO (synParams doAck r')) = unat (cf_cumAckTimeoutUS c) div 1000
    \<and> unat (sp_nulTO (synParams doAck r')) =
        (if r_isServer r then unat (cf_nulTimeoutUS c) else unat (cf_nulTimeoutUS c) div 3 * 3) div 1000
    \<and> sp_rexMX (synParams doAck r') = cf_rexMax c \<and> sp_cakMX (synParams doAck r') = cf_cumAckMax c
    \<and> unat (sp_ossMX (synParams doAck r')) = 2 ^ unat (cf_ldMaxUnackedSegs c)
    \<and> (cf_forcedSegsMax c \<noteq> 0 \<longrightarrow> unat (sp_sgsMX (synParams doAck r')) = unat (cf_forcedSegsMax c))
    \<and> (cf_forcedSegsMax c = 0 \<longrightarrow> (case r_mtu r of
          None \<Rightarrow> unat (sp_sgsMX (synParams doAck r')) = MAX_SEGMENT_SIZE
        | Some m \<Rightarrow> 8 < m \<and> m < 65544 \<longrightarrow> int (unat (sp_sgsMX (synParams doAck r'))) = m - 8))"
proof -
  have c: "c = r_cfg r" "cf_rexTimeoutUS c div 1000 < 65536" "cf_cumAckTimeoutUS c div 1000 < 65536"
      "cf_nulTimeoutUS c div 1000 < 65536"
    using assms(1) by (auto simp: assertValid_def UNIT_US_def not_le split: if_splits)
  let ?n = "cf_nulTimeoutUS c"
  have r': "r_rexTO r' = to_set (cf_rexTimeoutUS c)" "r_cakTO r' = to_set (cf_cumAckTimeoutUS c)"
      "r_nulTO r' = to_set (if r_isServer r then ?n else ?n div 3)" "r_units r' = 1000"
      "r_isServer r' = r_isServer r" "r_rexMX r' = ucast (cf_rexMax c)" "r_cakMX r' = uint (cf_cumAckMax c)"
    using assms(2,4) c(1) by (auto simp: resetNegotiableParams_def setNulTimeout_def sem_app andThen_def bnd_def UNIT_US_def)
  have same: "r_cfg r' = c" "r_mtu r' = r_mtu r" "r_maxUnackedSegs r' = 2 ^ unat (cf_ldMaxUnackedSegs c)"
    using assms(3,4) c(1) by (auto simp: resetNegotiableParams_def setNulTimeout_def sem_app andThen_def bnd_def)
  have small: "unat (?n div 3 * 3) = unat ?n div 3 * 3"
  proof -
    have "unat ?n div 3 * 3 \<le> unat ?n" by simp
    also have "\<dots> < 2 ^ 64" using unat_bound [of ?n] by simp
    finally show ?thesis by (simp add: unat_word_ariths unat_div)
  qed
  have "?n div 3 * 3 div 1000 < 65536"
  proof -
    have "unat (?n div 3 * 3 div 1000) \<le> unat ?n div 1000"
      by (simp add: unat_div small div_le_mono)
    also have "\<dots> < 65536" using c(4) by (simp add: word_less_nat_alt unat_div)
    finally show ?thesis by (simp add: word_less_nat_alt)
  qed
  moreover have "(ucast (ucast x :: u32) :: u8) = x" for x
    by (rule bit_word_eqI) (auto simp: bit_simps)
  moreover have "unat (of_nat (2 ^ unat (cf_ldMaxUnackedSegs c)) :: u8) = 2 ^ unat (cf_ldMaxUnackedSegs c)"
    using advertised_ossMX assms(1) by simp
  moreover have "unat (word_of_int (maxSegSize r') :: u16) = unat (cf_forcedSegsMax c)" if "cf_forcedSegsMax c \<noteq> 0"
    using advertised_sgsMX(1) assms(1) that same(1) by blast
  moreover have "unat (word_of_int (maxSegSize r') :: u16) = MAX_SEGMENT_SIZE"
    if "cf_forcedSegsMax c = 0" "r_mtu r = None"
    using that same(1,2) by (simp add: maxSegSize_def MAX_SEGMENT_SIZE_def)
  moreover have "int (unat (word_of_int (maxSegSize r') :: u16)) = m - 8"
    if "cf_forcedSegsMax c = 0" "r_mtu r = Some m" "8 < m" "m < 65544" for m
  proof -
    have "maxSegSize r' = m - 8" using that same(1,2) by (simp add: maxSegSize_def)
    then show ?thesis
      using that by (simp only: of_nat_unat uint_word_of_int) simp
  qed
  ultimately show ?thesis
    using c(2-4) [THEN div_units] r' small div_units [of "?n div 3 * 3"] same(3)
    by (simp add: synParams_def to_getUs_set getNulTimeout_def Let_def split: option.split)
qed

end
