(* ===== verification/RssiDeliver.thy ===== *)
theory RssiDeliver
  imports RssiInv
begin

text \<open>
  What the receiving side delivers. The reassembly window, fed with segments that arrive in
  any order, several times or not at all, gives each of them out once and in order. An open
  connection moves the segments that are next in order to the user's queue until one is
  missing or the queue is full.
\<close>

section \<open>Exactly once and in order\<close>

text \<open>\<open>Arrive k\<close>: the segment with the absolute number \<open>k\<close> comes in, with the sequence number
  \<open>k\<close> modulo 256; \<open>Deliver\<close>: the next one is taken out if it is there. \<open>f k\<close> is the content of
  segment \<open>k\<close>.\<close>

datatype rop = Arrive nat | Deliver

fun reasm_run :: "(nat \<Rightarrow> 'a) \<Rightarrow> rop list \<Rightarrow> 'a reasm \<Rightarrow> exn + 'a list \<times> 'a reasm" where
  "reasm_run f [] w = Inr ([], w)"
| "reasm_run f (Arrive k # ops) w =
     (if reasm_canAccept (of_nat k) w
      then case reasm_store (of_nat k) (Some (f k)) w of
             Inl e \<Rightarrow> Inl e | Inr w' \<Rightarrow> reasm_run f ops w'
      else reasm_run f ops w)"
| "reasm_run f (Deliver # ops) w =
     (case win_pop w of
        (None, w') \<Rightarrow> reasm_run f ops w'
      | (Some x, w') \<Rightarrow> (case reasm_run f ops w' of
           Inl e \<Rightarrow> Inl e | Inr (xs, v) \<Rightarrow> Inr (x # xs, v)))"

text \<open>What a receiver with a window of \<open>lim\<close> segments is to do, by absolute numbers: \<open>c\<close> is
  the next one in order and \<open>R\<close> those it has taken. One that arrives within the window is
  taken; the next one in order is given out if it was taken. The result is the list of the
  numbers given out, and those taken.\<close>

fun receiver :: "nat \<Rightarrow> rop list \<Rightarrow> nat \<Rightarrow> nat set \<Rightarrow> nat list \<times> nat set" where
  "receiver lim [] c R = ([], R)"
| "receiver lim (Arrive k # ops) c R =
     receiver lim ops c (if c \<le> k \<and> k < c + lim then insert k R else R)"
| "receiver lim (Deliver # ops) c R =
     (if c \<in> R then (case receiver lim ops (c + 1) R of (ks, R') \<Rightarrow> (c # ks, R'))
      else receiver lim ops c R)"

text \<open>No segment is so old, or so far ahead, that its sequence number is taken for another
  one: it is at most \<open>256 - lim\<close> behind the next one in order, and less than 256 ahead.\<close>

fun timely :: "nat \<Rightarrow> rop list \<Rightarrow> nat \<Rightarrow> nat set \<Rightarrow> bool" where
  "timely lim [] c R = True"
| "timely lim (Arrive k # ops) c R =
     (c \<le> k + (256 - lim) \<and> k < c + 256 \<and>
      timely lim ops c (if c \<le> k \<and> k < c + lim then insert k R else R))"
| "timely lim (Deliver # ops) c R = timely lim ops (if c \<in> R then c + 1 else c) R"

text \<open>The receiver gives out consecutive segments, each once.\<close>

lemma receiver_consecutive: "fst (receiver lim ops c R) = [c..<c + length (fst (receiver lim ops c R))]"
proof (induction lim ops c R rule: receiver.induct)
  case (3 lim ops c R)
  obtain ks R' where r: "receiver lim ops (c + 1) R = (ks, R')" by fastforce
  show ?case
  proof (cases "c \<in> R")
    case True
    then have "ks = [c + 1..<c + 1 + length ks]" using 3(1) r by (simp del: upt_Suc)
    moreover have "[c..<c + Suc (length ks)] = c # [c + 1..<c + 1 + length ks]"
      by (simp add: upt_conv_Cons del: upt_Suc)
    ultimately show ?thesis using True r by (simp del: upt_Suc)
  qed (use 3(2) in simp)
qed simp_all

text \<open>The window holds what the receiver has taken and not given out, and nothing else.\<close>

definition holds_from :: "(nat \<Rightarrow> 'a) \<Rightarrow> nat \<Rightarrow> nat set \<Rightarrow> 'a reasm \<Rightarrow> bool" where
  "holds_from f c R w \<longleftrightarrow> reasm_ok w \<and> w_oldest w = of_nat c \<and> (\<forall>k \<in> R. k < c + unat (w_lim w))
     \<and> (\<forall>i < w_capa w. win w i = (if c + i \<in> R then Some (f (c + i)) else None))"

lemma seq_offset:
  assumes "c \<le> k + (256 - unat (l :: u8))" "k < c + 256" "(of_nat k :: u8) - of_nat c < l"
  shows "c \<le> k \<and> unat ((of_nat k :: u8) - of_nat c) = k - c"
proof -
  have ck: "c \<le> k"
  proof (rule ccontr)
    assume "\<not> c \<le> k"
    then have d: "0 < c - k" "c - k \<le> 256 - unat l" using assms(1) by auto
    have l: "unat l < 256" using unat_bound [of l] by simp
    have "(of_nat c :: u8) = of_nat k + of_nat (c - k)"
      using \<open>\<not> c \<le> k\<close> by (simp flip: of_nat_add)
    then have "(of_nat k :: u8) - of_nat c = - of_nat (c - k)" by simp
    moreover have "unat (- of_nat (c - k) :: u8) = (if c - k = 256 then 0 else 256 - (c - k))"
    proof -
      have le: "c - k \<le> 256" using d(2) by simp
      have "(of_nat (256 - (c - k)) :: u8) = of_nat 256 - of_nat (c - k)"
        by (rule of_nat_diff [OF le])
      then have "- of_nat (c - k) = (of_nat (256 - (c - k)) :: u8)" by simp
      then show ?thesis using d(1) by (simp only: unat_of_nat_mod) auto
    qed
    ultimately have "unat ((of_nat k :: u8) - of_nat c) = (if c - k = 256 then 0 else 256 - (c - k))"
      by simp
    moreover have "unat l \<noteq> 0" using assms(3) by (auto simp: word_less_nat_alt)
    ultimately show False using assms(3) d l by (auto simp: word_less_nat_alt split: if_splits)
  qed
  then have "(of_nat k :: u8) - of_nat c = of_nat (k - c)" by simp
  then have "unat ((of_nat k :: u8) - of_nat c) = (k - c) mod 256"
    by (simp only: unat_of_nat_mod) simp
  then show ?thesis using ck assms(2) by simp
qed

lemma reasm_canAccept_window:
  assumes "w_oldest w = of_nat c" "c \<le> k + (256 - unat (w_lim w))" "k < c + 256"
  shows "reasm_canAccept (of_nat k) w \<longleftrightarrow> c \<le> k \<and> k < c + unat (w_lim w)"
proof
  assume "reasm_canAccept (of_nat k) w"
  then have o: "(of_nat k :: u8) - of_nat c < w_lim w" using assms(1) by (simp add: reasm_canAccept_def)
  from seq_offset [OF assms(2,3) o] o show "c \<le> k \<and> k < c + unat (w_lim w)"
    by (auto simp: word_less_nat_alt)
next
  assume k: "c \<le> k \<and> k < c + unat (w_lim w)"
  then have "(of_nat k :: u8) - of_nat c = of_nat (k - c)" by simp
  moreover have "unat (of_nat (k - c) :: u8) \<le> k - c" by (simp only: unat_of_nat_mod mod_less_eq_dividend)
  ultimately show "reasm_canAccept (of_nat k) w"
    using k assms(1) by (auto simp: reasm_canAccept_def word_less_nat_alt)
qed

lemma holds_from_store:
  assumes "holds_from f c R w" "c \<le> k" "k < c + unat (w_lim w)"
  shows "\<exists>q. reasm_store (of_nat k) (Some (f k)) w = Inr q \<and> w_lim q = w_lim w
    \<and> holds_from f c (insert k R) q"
proof -
  have l: "unat (w_lim w) < 256" using unat_bound [of "w_lim w"] by simp
  have w: "reasm_ok w" "w_oldest w = of_nat c" using assms(1) by (auto simp: holds_from_def)
  have t: "c \<le> k + (256 - unat (w_lim w))" "k < c + 256" using assms(2,3) l by auto
  have acc: "reasm_canAccept (of_nat k) w" using reasm_canAccept_window [OF w(2) t] assms(2,3) by simp
  then have o: "unat (of_nat k - w_oldest w) = k - c"
    using seq_offset [OF t] w(2) by (simp add: reasm_canAccept_def)
  from reasm_store_spec [OF w(1) acc, of "Some (f k)"] obtain q where q:
      "reasm_store (of_nat k) (Some (f k)) w = Inr q" "reasm_ok q" "w_oldest q = w_oldest w"
      "w_capa q = w_capa w" "w_lim q = w_lim w"
      "\<And>i. i < w_capa w \<Longrightarrow>
        win q i = (if i = unat (of_nat k - w_oldest w) then Some (f k) else win w i)" by blast
  have "holds_from f c (insert k R) q"
    using assms q(2-5) q(6) o by (auto simp: holds_from_def)
  with q show ?thesis by blast
qed

lemma holds_from_pop:
  assumes "holds_from f c R w"
  shows "win_pop w = (if c \<in> R then Some (f c) else None, snd (win_pop w))"
    "c \<in> R \<Longrightarrow> holds_from f (c + 1) R (snd (win_pop w))" "c \<notin> R \<Longrightarrow> snd (win_pop w) = w"
    "w_lim (snd (win_pop w)) = w_lim w"
proof -
  have w: "reasm_ok w" "win_ok w" "0 < w_capa w" "w_oldest w = of_nat c" "unat (w_lim w) \<le> w_capa w"
    using assms win_ok_capa [of w] by (auto simp: holds_from_def reasm_ok_def)
  have w0: "win w 0 = (if c \<in> R then Some (f c) else None)"
    using assms w(3) unfolding holds_from_def by (metis add_0_right)
  show "win_pop w = (if c \<in> R then Some (f c) else None, snd (win_pop w))"
    using win_pop_fst [OF w(2)] w0 by (metis prod.collapse)
  show lim: "w_lim (snd (win_pop w)) = w_lim w" by (simp add: win_pop_def Let_def)
  show "snd (win_pop w) = w" if "c \<notin> R"
    using win_pop_None [OF w(2)] w0 that by simp
  show "holds_from f (c + 1) R (snd (win_pop w))" if c: "c \<in> R"
  proof -
    have ne: "win w 0 \<noteq> None" using w0 c by simp
    have le: "k < c + w_capa w" if "k \<in> R" for k
      using assms that w(5) unfolding holds_from_def by (meson add_left_mono order_less_le_trans)
    have "win (snd (win_pop w)) i = (if c + 1 + i \<in> R then Some (f (c + 1 + i)) else None)"
      if i: "i < w_capa w" for i
    proof (cases "i + 1 < w_capa w")
      case True
      then have "win (snd (win_pop w)) i = win w (i + 1)"
        using win_pop_Some(1) [OF w(2) ne i] by simp
      then show ?thesis using assms True by (simp add: holds_from_def)
    next
      case False
      then have "c + 1 + i \<notin> R" using le [of "c + 1 + i"] i by auto
      then show ?thesis using win_pop_Some(1) [OF w(2) ne i] False by simp
    qed
    then show ?thesis
      using assms win_pop_Some(2) [OF w(2) ne w(3)] reasm_pop_ok [OF w(1)] win_pop_capa [of w] lim
      by (auto simp: holds_from_def less_Suc_eq)
  qed
qed

text \<open>C3: The reassembly window does what a receiver is to do, segment by segment: a segment
  that arrives within the window is kept, whatever the order and however often it arrives,
  the next one in order is given out as soon as it is there, nothing else is; what comes
  out are consecutive segments from the one that was next, each once, and what was taken
  and not yet given out is still there at the end. This holds as long as no segment is so
  late, or so early, that its 8-bit number is taken for another one.\<close>

theorem reasm_exactly_once:
  assumes "holds_from f c R w" "timely (unat (w_lim w)) ops c R"
    "receiver (unat (w_lim w)) ops c R = (ks, R')"
  shows "\<exists>v. reasm_run f ops w = Inr (map f ks, v) \<and> ks = [c..<c + length ks]
    \<and> holds_from f (c + length ks) R' v"
proof -
  have "\<exists>v. reasm_run f ops w = Inr (map f ks, v) \<and> holds_from f (c + length ks) R' v"
    using assms
  proof (induction ops arbitrary: c R w ks)
    case (Cons p ops)
    have old: "w_oldest w = of_nat c" using Cons.prems(1) by (simp add: holds_from_def)
    show ?case
    proof (cases p)
      case (Arrive k)
      then have acc: "reasm_canAccept (of_nat k) w \<longleftrightarrow> c \<le> k \<and> k < c + unat (w_lim w)"
        using Cons.prems(2) reasm_canAccept_window [OF old] by simp
      show ?thesis
      proof (cases "c \<le> k \<and> k < c + unat (w_lim w)")
        case True
        with holds_from_store [OF Cons.prems(1)] obtain q where
            "reasm_store (of_nat k) (Some (f k)) w = Inr q" "w_lim q = w_lim w"
            "holds_from f c (insert k R) q" by blast
        then show ?thesis using Cons Arrive True acc by auto
      next
        case False
        then show ?thesis using Cons Arrive acc by auto
      qed
    next
      case Deliver
      note pop = holds_from_pop [OF Cons.prems(1)]
      show ?thesis
      proof (cases "c \<in> R")
        case True
        then obtain ls where ls: "receiver (unat (w_lim w)) ops (c + 1) R = (ls, R')" "ks = c # ls"
          using Cons.prems(3) Deliver by (auto split: prod.splits)
        obtain w' where w': "win_pop w = (Some (f c), w')" using pop(1) True by simp
        have "timely (unat (w_lim w)) ops (c + 1) R" using Cons.prems(2) Deliver True by simp
        with Cons.IH [OF pop(2) [OF True]] ls(1) obtain v where
            "reasm_run f ops w' = Inr (map f ls, v)"
            "holds_from f (c + 1 + length ls) R' v" using pop(4) w' by auto
        then show ?thesis using Deliver w' ls(2) by simp
      next
        case False
        then have "win_pop w = (None, w)" using pop(1,3) by simp
        then show ?thesis using Cons Deliver False by simp
      qed
    qed
  qed auto
  moreover have "ks = [c..<c + length ks]" using receiver_consecutive [of "unat (w_lim w)" ops c R] assms(3) by simp
  ultimately show ?thesis by blast
qed

section \<open>Draining the window into the user's queue\<close>

text \<open>The segments that are next in order.\<close>

definition pending :: "('a, 'b) winbase_scheme \<Rightarrow> 'a list" where
  "pending w = map the (takeWhile (\<lambda>x. x \<noteq> None) (map (win w) [0..<w_capa w]))"

text \<open>What a queue with \<open>room\<close> free slots takes of them: how many are consumed, and what is
  put in the queue. NUL segments are dropped; the headers are stripped.\<close>

fun drained :: "nat \<Rightarrow> chain list \<Rightarrow> nat \<times> chain list" where
  "drained room [] = (0, [])"
| "drained room (c # cts) =
     (if isNul c then (case drained room cts of (n, ds) \<Rightarrow> (Suc n, ds))
      else case room of
        0 \<Rightarrow> (0, [])
      | Suc m \<Rightarrow> (case stripHeader c of
          Inl _ \<Rightarrow> (0, [])
        | Inr d \<Rightarrow> (case drained m cts of (n, ds) \<Rightarrow> (Suc n, d # ds))))"

lemma pending_None: "0 < w_capa w \<Longrightarrow> win w 0 = None \<Longrightarrow> pending w = []"
  by (simp add: pending_def upt_conv_Cons)

lemma takeWhile_append_None:
  "takeWhile (\<lambda>x. x \<noteq> None) (xs @ [None]) = takeWhile (\<lambda>x. x \<noteq> None) xs"
  by (induction xs) auto

lemma pending_pop:
  assumes "win_ok w" "win w 0 = Some x"
  shows "pending w = x # pending (snd (win_pop w))"
proof -
  have cap: "0 < w_capa w" using win_ok_capa [OF assms(1)] by simp
  have ne: "win w 0 \<noteq> None" using assms(2) by simp
  let ?q = "snd (win_pop w)"
  obtain n where n: "w_capa w = Suc n" using cap by (cases "w_capa w") auto
  have q: "map (win ?q) [0..<n] = map (win w) [1..<Suc n]"
  proof (rule nth_equalityI)
    fix i
    assume "i < length (map (win ?q) [0..<n])"
    then show "map (win ?q) [0..<n] ! i = map (win w) [1..<Suc n] ! i"
      using win_pop_Some(1) [OF assms(1) ne, of i] n by (simp del: upt_Suc)
  qed simp
  have last: "win ?q n = None" using win_pop_Some(1) [OF assms(1) ne, of n] n by simp
  have "map (win ?q) [0..<w_capa ?q] = map (win w) [1..<Suc n] @ [None]"
    using q last n by simp
  then have "pending ?q = map the (takeWhile (\<lambda>x. x \<noteq> None) (map (win w) [1..<Suc n]))"
    by (simp only: pending_def takeWhile_append_None)
  moreover have "map (win w) [0..<w_capa w] = Some x # map (win w) [1..<Suc n]"
    using assms(2) n by (simp add: upt_conv_Cons del: upt_Suc)
  ultimately show ?thesis by (simp add: pending_def)
qed

definition out_room :: "rssi \<Rightarrow> nat" where
  "out_room r = (if q_isUp (r_outQ r) then q_n (r_outQ r) - length (bufq_items (r_outQ r)) else 0)"

text \<open>Every segment in the window starts with a buffer from which its header can be stripped.\<close>

definition strippable :: "chain \<Rightarrow> bool" where
  "strippable c \<longleftrightarrow> c \<noteq> [] \<and> (case stripHeader c of Inl _ \<Rightarrow> False | Inr _ \<Rightarrow> True)"

lemma out_room_0: "bufq_ok (r_outQ r) \<Longrightarrow> out_room r = 0 \<longleftrightarrow> bufq_isFull (r_outQ r)"
  using bufq_isFull_items [of "r_outQ r"]
  by (auto simp: out_room_def bufq_ok_def bufq_items_def fifo_ok_def)

lemma drain_loop_spec:
  assumes "reasm_ok (r_unOrdered r)" "bufq_ok (r_outQ r)" "occupied (r_unOrdered r) < fuel"
    "\<forall>c \<in> set (pending (r_unOrdered r)). strippable c"
    "drained (out_room r) (pending (r_unOrdered r)) = (n, ds)"
  shows "\<exists>r'. drain_loop fuel r = (Inr (), r') \<and> bufq_items (r_outQ r') = bufq_items (r_outQ r) @ ds
    \<and> w_oldest (r_unOrdered r') = w_oldest (r_unOrdered r) + of_nat n
    \<and> pending (r_unOrdered r') = drop n (pending (r_unOrdered r))
    \<and> (r_usrO r' \<longleftrightarrow> r_usrO r \<or> n < length (pending (r_unOrdered r)))"
  using assms
proof (induction fuel arbitrary: r n ds)
  case (Suc fuel)
  let ?w = "r_unOrdered r"
  have w: "win_ok ?w" "0 < w_capa ?w" using Suc.prems(1) win_ok_capa [of ?w] by (auto simp: reasm_ok_def)
  show ?case
  proof (cases "win ?w 0")
    case None
    then have "pending ?w = []" by (rule pending_None [OF w(2)])
    then show ?thesis
      using Suc.prems(5) None w by (simp add: win_peek_win sem_app)
  next
    case (Some c)
    let ?r = "r\<lparr>r_unOrdered := snd (win_pop ?w)\<rparr>"
    note pp = pending_pop [OF w(1) Some]
    have ne: "win ?w 0 \<noteq> None" using Some by simp
    have peek: "win_peek ?w = Some c" using Some by (simp add: win_peek_win [OF w(1)])
    have c: "c \<noteq> []" "strippable c" using Suc.prems(4) pp by (auto simp: strippable_def)
    have old: "w_oldest (snd (win_pop ?w)) = w_oldest ?w + 1" by (rule win_pop_Some(2) [OF w(1) ne w(2)])
    have occ: "occupied (snd (win_pop ?w)) < fuel"
      using occupied_pop [OF w(1)] peek Suc.prems(3) by simp
    have pend: "\<forall>c \<in> set (pending (snd (win_pop ?w))). strippable c" using Suc.prems(4) pp by simp
    note IH = Suc.IH [of "t" for t]
    show ?thesis
    proof (cases "isNul c")
      case True
      obtain m where m: "drained (out_room r) (pending (snd (win_pop ?w))) = (m, ds)" "n = Suc m"
        using Suc.prems(5) True pp by (auto split: prod.splits)
      have "out_room ?r = out_room r" by (simp add: out_room_def)
      with IH [of ?r m ds] Suc.prems(1,2) reasm_pop_ok occ pend m obtain r' where
          r': "drain_loop fuel ?r = (Inr (), r')" "bufq_items (r_outQ r') = bufq_items (r_outQ r) @ ds"
          "w_oldest (r_unOrdered r') = w_oldest (snd (win_pop ?w)) + of_nat m"
          "pending (r_unOrdered r') = drop m (pending (snd (win_pop ?w)))"
          "r_usrO r' \<longleftrightarrow> r_usrO r \<or> m < length (pending (snd (win_pop ?w)))" by auto
      then show ?thesis
        using True c m(2) old pp peek
        by (simp add: sem_app popUnOrdered_def)
    next
      case False
      show ?thesis
      proof (cases "bufq_isFull (r_outQ r)")
        case True
        then have "out_room r = 0" using out_room_0 Suc.prems(2) by simp
        then have "n = 0" "ds = []" using Suc.prems(5) False pp by auto
        then show ?thesis
          using True False c pp peek by (simp add: sem_app)
      next
        case room: False
        obtain d where d: "stripHeader c = Inr d" using c by (auto simp: strippable_def split: sum.splits)
        from tryPush_room [OF Suc.prems(2) room, of d] obtain q where q:
            "tryPush d (r_outQ r) = (Inr True, q)" "bufq_ok q"
            "bufq_items q = bufq_items (r_outQ r) @ [d]" "q_n q = q_n (r_outQ r)"
            "q_isUp q = q_isUp (r_outQ r)" by blast
        let ?t = "?r\<lparr>r_outQ := q, r_stats := numSegsGivenToUser_update (\<lambda>n. n + 1) (r_stats r)\<rparr>"
        have "out_room r \<noteq> 0" using out_room_0 [OF Suc.prems(2)] room by simp
        then have or: "out_room r = Suc (out_room ?t)"
          using q(3-5) by (auto simp: out_room_def)
        obtain m es where m: "drained (out_room ?t) (pending (snd (win_pop ?w))) = (m, es)"
            "n = Suc m" "ds = d # es"
          using Suc.prems(5) False pp d or by (auto split: prod.splits)
        with IH [of ?t m es] q(2) Suc.prems(1) reasm_pop_ok occ pend obtain r' where
          r': "drain_loop fuel ?t = (Inr (), r')" "bufq_items (r_outQ r') = bufq_items q @ es"
          "w_oldest (r_unOrdered r') = w_oldest (snd (win_pop ?w)) + of_nat m"
          "pending (r_unOrdered r') = drop m (pending (snd (win_pop ?w)))"
          "r_usrO r' \<longleftrightarrow> r_usrO r \<or> m < length (pending (snd (win_pop ?w)))" by auto
        have "drain_loop (Suc fuel) r = drain_loop fuel ?t"
          using peek c False room d q(1)
          by (simp add: sem_app popUnOrdered_def bnd_def zoom_def bump_def)
        with r' m q(3) old pp show ?thesis by simp
      qed
    qed
  qed
qed simp

text \<open>C4: Draining the window moves the segments that are next in order to the user, in order
  and without their headers, dropping NUL segments, until one is missing or the queue is
  full; the rest stays, the last sequence number received is that of the last segment
  taken, and the handler of the output queue is enabled if segments wait for room.\<close>

theorem drain_open_spec:
  assumes "reasm_ok (r_unOrdered r)" "bufq_ok (r_outQ r)"
    "\<forall>c \<in> set (pending (r_unOrdered r)). strippable c"
    "drained (out_room r) (pending (r_unOrdered r)) = (n, ds)"
  shows "\<exists>r'. drain_open r = (Inr (), r') \<and> bufq_items (r_outQ r') = bufq_items (r_outQ r) @ ds
    \<and> w_oldest (r_unOrdered r') = w_oldest (r_unOrdered r) + of_nat n
    \<and> r_lastSeqRecv r' = w_oldest (r_unOrdered r) + of_nat n - 1
    \<and> pending (r_unOrdered r') = drop n (pending (r_unOrdered r))
    \<and> (r_usrO r' \<longleftrightarrow> r_usrO r \<or> n < length (pending (r_unOrdered r)))"
proof -
  have "occupied (r_unOrdered r) < w_capa (r_unOrdered r) + 1"
    using occupied_le [of "r_unOrdered r"] assms(1) by (simp add: reasm_ok_def)
  from drain_loop_spec [OF assms(1,2) this assms(3,4)] show ?thesis
    by (auto simp: drain_open_def andThen_def bnd_def sem_app reasm_getLastInOrder_def
        simp del: drain_loop.simps)
qed

end
