(* ===== verification/Examples.thy ===== *)
theory Examples
  imports RssiEvents RssiDeliver
begin

text \<open>
  Concrete connections and segments, on which the properties of the connection are applied.
\<close>

definition env0 :: renv where
  "env0 = \<lparr>e_now = Timeout 0 0, e_time = 5, e_rxQ = [], e_tx = [], e_accepts = (\<lambda>_. True),
     e_pushes = 0, e_mem = (\<lambda>_. replicate 80 0), e_allocs = 0\<rparr>"

definition stats0 :: rstats where
  "stats0 = \<lparr>outgoingDropped = 0, rexSegments = 0, rexTimeouts = 0, ackTimeouts = 0,
     nulTimeouts = 0, connFailed = 0, badChecksum = 0, badSynDropped = 0, badHdrDropped = 0,
     rejectedSegs = 0, skippedNULs = 0, numSegsAckedByPeer = 0, numSegsGivenToUser = 0,
     busyFlagsCountedRx = 0, busyFlagsCountedTx = 0, busyDeassertRex = 0\<rparr>"

definition junk0 :: rssi where
  "junk0 = \<lparr>r_cfg = rcfg_default, r_isServer = False, r_mtu = None, r_outQ = bufq_create 4,
     r_inpQ = bufq_create 4, r_state = CLOSED, r_verifyChecksum = False, r_addChecksum = True,
     r_timerUnits = 1000, r_timerUnitExp = 3, r_units = 1000, r_unitExp = 3,
     r_maxUnackedSegs = 4, r_rexTO = Timeout 0 0, r_cakTO = Timeout 0 0, r_nulTO = Timeout 0 0,
     r_rexMX = 0, r_cakMX = 3, r_conID = 0, r_peerOssMX = 4, r_peerSgsMX = 1024, r_numRex = 0,
     r_numCak = 0, r_peerBSY = False, r_reopenDelay = 0, r_lastSeqSent = 0, r_lastSeqRecv = 0,
     r_unAcked = ring_new 2 0, r_unOrdered = reasm_new 2 0 0, r_timers = [], r_usrI = False,
     r_usrO = False, r_stats = stats0, r_connEvents = [], r_env = env0\<rparr>"

definition connection :: "bool \<Rightarrow> rssi" where
  "connection isServer = (case rssi_create isServer None (Some rcfg_default) junk0 of
     Inr r \<Rightarrow> r | Inl _ \<Rightarrow> junk0)"

lemma connection_create: "rssi_create b None (Some rcfg_default) junk0 = Inr (connection b)"
  by (simp add: connection_def rssi_create_def assertValid_def rcfg_default_def UNIT_US_def)

lemma junk0_mem: "mem_ok junk0"
  by (simp add: mem_ok_def junk0_def env0_def)

lemma connection_listens: "\<exists>r. rssi_reach (connection True) r \<and> r_state r = LISTEN"
proof -
  let ?r = "connection True"
  have c: "sane ?r" "r_isServer ?r" "r_state ?r = CLOSED"
    using rssi_create_inv [OF connection_create [of True]] rinv_sane by auto
  from server_listens [OF c, of EvRx] obtain r where "advance EvRx ?r = (Inr (), r)" "r_state r = LISTEN"
    by blast
  then show ?thesis
    using c(3) by (blast intro: reach_step reach_init step_thread)
qed

text \<open>A connection with one segment under way, to which a RST comes in.\<close>

definition seg0 :: chain where
  "seg0 = [\<lparr>b_data = [0x40, 8, 0, 0, 0, 0, 0, 0, 7, 9], b_beg = 0, b_end = 10\<rparr>]"

definition rst0 :: buf where
  "rst0 = \<lparr>b_data = [0x50, 8, 0, 0, 0, 0, 0, 0], b_beg = 0, b_end = 8\<rparr>"

definition busy0 :: rssi where
  "busy0 = junk0\<lparr>r_unAcked := (ring_new 2 0)\<lparr>w_buf := [Some seg0, None, None, None], w_wp := 1\<rparr>,
     r_env := env0\<lparr>e_rxQ := [[rst0]]\<rparr>\<rparr>"

lemma busy0_facts:
  "ring_ok (r_unAcked busy0)" "newly_acked 0 busy0 = 1" "ring_size (r_unAcked busy0) = 1"
  "quiet busy0" "rst_segment 0 busy0 rst0" "e_rxQ (r_env busy0) = [rst0] # []"
  "r_peerOssMX busy0 = 4"
  by code_simp+

lemma retransmission_limit_witness:
  "\<exists>r'. processRetransmissionTimeout OPEN (junk0\<lparr>r_rexMX := 3, r_numRex := 3\<rparr>) = (Inr (), r')
     \<and> r_state r' = CLOSED"
proof -
  have "mem_ok (junk0\<lparr>r_rexMX := 3, r_numRex := 3\<rparr>)" using junk0_mem by (simp add: mem_ok_def)
  from retransmission_limit [OF this, of OPEN] show ?thesis by fastforce
qed

lemma retransmission_limit_zero_example:
  "\<exists>r'. processRetransmissionTimeout OPEN junk0 = (Inr (), r') \<and> r_state r' = CLOSED"
  using retransmission_limit_zero [OF junk0_mem, of OPEN] by (simp add: junk0_def)

lemma rst_closes_witness: "\<exists>r'. handleRxEvent OPEN busy0 = (Inr (), r') \<and> r_state r' = CLOSED"
  using rst_closes [of busy0 0 rst0 "[]"] busy0_facts by simp

lemma rst_overridden_witness:
  "(\<exists>r'. handleRxEvent SERV_WAIT_SYN_ACK busy0 = (Inr (), r') \<and> r_state r' = PREP_OPEN)
   \<and> (\<exists>r'. handleRxEvent OPEN_OUTWIN_FULL busy0 = (Inr (), r') \<and> r_state r' = OPEN)"
  using rst_overridden [of busy0 0 rst0 "[]"] busy0_facts by simp

lemma advertised_params_witness:
  "\<exists>r'. resetNegotiableParams (connection False) = (Inr (), r')
     \<and> unat (sp_rexTO (synParams False r')) = 100 \<and> unat (sp_ossMX (synParams False r')) = 16
     \<and> unat (sp_sgsMX (synParams False r')) = 1464"
proof -
  have ok: "assertValid rcfg_default = Inr rcfg_default"
    by (simp add: assertValid_def rcfg_default_def UNIT_US_def)
  then have c: "assertValid (r_cfg (connection False)) = Inr rcfg_default"
    "r_timerUnits (connection False) = UNIT_US"
    "r_maxUnackedSegs (connection False) = 2 ^ unat (cf_ldMaxUnackedSegs rcfg_default)"
    "r_mtu (connection False) = None"
    by (simp_all add: connection_def rssi_create_def)
  obtain r' where r': "resetNegotiableParams (connection False) = (Inr (), r')"
    by (simp add: resetNegotiableParams_def setNulTimeout_def sem_app andThen_def bnd_def)
  from advertised_params [OF c(1-3) r', of False] r' c(4) show ?thesis
    by (auto simp: rcfg_default_def MAX_SEGMENT_SIZE_def)
qed

section \<open>Delivery\<close>

definition window0 :: "nat reasm" where
  "window0 = (reasm_new 2 0 0 :: nat reasm)"

lemma reasm_exactly_once_witness:
  "\<exists>v. reasm_run id [Arrive 1, Deliver, Arrive 0, Arrive 1, Deliver, Arrive 7, Deliver, Deliver] window0
     = Inr ([0, 1], v) \<and> holds_from id 2 {0, 1} v"
proof -
  let ?ops = "[Arrive 1, Deliver, Arrive 0, Arrive 1, Deliver, Arrive 7, Deliver, Deliver]"
  have l: "unat (w_lim window0) = 4" by code_simp
  have h: "holds_from id 0 {} window0"
    using reasm_new_ok [of 2 0 0]
    by (simp add: holds_from_def window0_def) (simp add: reasm_new_def win_def)
  have t: "timely (unat (w_lim window0)) ?ops 0 {}" unfolding l by simp
  have r: "receiver (unat (w_lim window0)) ?ops 0 {} = ([0, 1], {0, 1})" unfolding l by auto
  have n: "0 + length [0 :: nat, 1] = 2" "map id [0 :: nat, 1] = [0, 1]" by simp_all
  from reasm_exactly_once [OF h t r] show ?thesis unfolding n by blast
qed

definition filled0 :: rssi where
  "filled0 = junk0\<lparr>r_unOrdered := (reasm_new 2 0 0)\<lparr>w_buf := [Some seg0, Some [rst0], None, Some seg0]\<rparr>\<rparr>"

lemma drain_open_spec_witness:
  "\<exists>r'. drain_open filled0 = (Inr (), r') \<and> w_oldest (r_unOrdered r') = 2"
proof -
  have f: "reasm_ok (r_unOrdered filled0)" "bufq_ok (r_outQ filled0)"
    "\<forall>c \<in> set (pending (r_unOrdered filled0)). strippable c"
    "fst (drained (out_room filled0) (pending (r_unOrdered filled0))) = 2"
    "w_oldest (r_unOrdered filled0) = 0"
    by code_simp+
  from drain_open_spec [OF f(1-3) prod.collapse [symmetric]] f(4,5) show ?thesis by auto
qed

end
