(* ===== verification/PackHeader.thy ===== *)
theory PackHeader
  imports ByteFields
begin

text \<open>
  The headers of the two packetizers (\<^verbatim>\<open>src/src/cpsw_proto_depack.h\<close> and \<^verbatim>\<open>.cc\<close>): bit
  fields in little-endian order, read and written by \<open>getNum\<close> and \<open>setNum\<close>. The class template
  \<^verbatim>\<open>CPackHeaderBase<T>\<close> is a family of definitions over the record \<open>layout\<close> of the constants
  of \<^verbatim>\<open>T\<close>; its two instances are \<^verbatim>\<open>CAxisFrameHeader\<close> and \<^verbatim>\<open>CDepack2Header\<close>.
\<close>

section \<open>Bit fields\<close>

definition low_mask :: "nat \<Rightarrow> u8" where
  "low_mask n = push_bit n 1 - 1"

text \<open>The bits to preserve in the last byte.\<close>

definition keep_mask :: "nat \<Rightarrow> u8" where
  "keep_mask n = (if NOT (low_mask n) = 0xff then 0 else NOT (low_mask n))"

text \<open>A byte whose bits in the mask \<open>m\<close> stay and whose others are those of \<open>v\<close>.\<close>

definition merge_byte :: "u8 \<Rightarrow> u64 \<Rightarrow> u8 \<Rightarrow> u8" where
  "merge_byte m v b = ucast ((v AND NOT (ucast m)) OR ucast (b AND m))"

text \<open>The loop over the bytes between the first and the last.\<close>

fun setNum_mid :: "nat \<Rightarrow> nat \<Rightarrow> u64 \<Rightarrow> u8 list \<Rightarrow> u64 \<times> u8 list" where
  "setNum_mid i 0 val p = (val, p)"
| "setNum_mid i (Suc n) val p = setNum_mid (i + 1) n (drop_bit 8 val) (p[i := ucast val])"

definition setNum :: "nat \<Rightarrow> nat \<Rightarrow> u64 \<Rightarrow> u8 list \<Rightarrow> u8 list" where
  "setNum bit_offset bit_size val p =
     (let shift = bit_offset mod 8; o' = bit_offset div 8 in
      if bit_size = 0 then p
      else
        let l = (shift + bit_size + 7) div 8;
            mskn = keep_mask ((shift + bit_size) mod 8);
            msk1 = (if l = 1 then low_mask shift OR mskn else low_mask shift);
            v = push_bit shift val;
            p1 = p[o' := merge_byte msk1 v (p ! o')]
        in case setNum_mid (o' + 1) (l - 2) (drop_bit 8 v) p1 of
             (v', p2) \<Rightarrow> if 1 < l then p2[o' + l - 1 := merge_byte mskn v' (p2 ! (o' + l - 1))] else p2)"

text \<open>\<^verbatim>\<open>rval\<close> is a 32-bit variable. The mask \<^verbatim>\<open>(1<<bit_size)-1\<close> has a meaning for fields of
  less than 32 bits.\<close>

fun getNum_loop :: "nat \<Rightarrow> nat \<Rightarrow> u8 list \<Rightarrow> u32 \<Rightarrow> u32" where
  "getNum_loop o' 0 p rval = rval"
| "getNum_loop o' (Suc i) p rval = getNum_loop o' i p (push_bit 8 rval + ucast (p ! (o' + i)))"

definition getNum :: "nat \<Rightarrow> nat \<Rightarrow> u8 list \<Rightarrow> u64" where
  "getNum bit_offset bit_size p =
     (let shift = bit_offset mod 8 in
      if bit_size = 0 then 0
      else ucast (drop_bit shift (getNum_loop (bit_offset div 8) ((shift + bit_size + 7) div 8) p 0)
                  AND (push_bit bit_size 1 - 1)))"

subsection \<open>What they do, bit by bit\<close>

text \<open>Bit \<open>n\<close> of a byte list, counted from the least significant bit of the first byte.\<close>

definition lbit :: "u8 list \<Rightarrow> nat \<Rightarrow> bool" where
  "lbit p n = bit (p ! (n div 8)) (n mod 8)"

lemma low_mask_bit: "bit (low_mask n) j \<longleftrightarrow> j < n \<and> j < 8"
proof -
  have "low_mask n = mask n" by (simp add: low_mask_def push_bit_of_1)
  then show ?thesis by (auto simp: bit_simps)
qed

lemma keep_mask_bit: "n < 8 \<Longrightarrow> bit (keep_mask n) j \<longleftrightarrow> 0 < n \<and> n \<le> j \<and> j < 8"
proof -
  assume n: "n < 8"
  have "(0xff :: u8) = - 1" by simp
  then have ff: "bit (0xff :: u8) j \<longleftrightarrow> j < 8" for j
    by (simp only: bit_simps) simp
  show ?thesis
  proof (cases "n = 0")
    case True
    then have "NOT (low_mask n) = 0xff"
      by (simp add: low_mask_def)
    then show ?thesis using True by (simp add: keep_mask_def)
  next
    case False
    then have "bit (0xff :: u8) 0 \<and> \<not> bit (NOT (low_mask n)) 0"
      by (simp add: bit_simps low_mask_bit ff)
    then have "NOT (low_mask n) \<noteq> 0xff" by metis
    then show ?thesis using False by (auto simp: keep_mask_def bit_simps low_mask_bit)
  qed
qed

lemma merge_byte_bit:
  "j < 8 \<Longrightarrow> bit (merge_byte m v b) j \<longleftrightarrow> (if bit m j then bit b j else bit v j)"
  by (auto simp: merge_byte_def bit_simps)

lemma setNum_mid_spec:
  "i + n \<le> length p \<Longrightarrow>
   fst (setNum_mid i n v p) = drop_bit (8 * n) v \<and> length (snd (setNum_mid i n v p)) = length p
   \<and> (\<forall>k < length p. snd (setNum_mid i n v p) ! k =
        (if i \<le> k \<and> k < i + n then ucast (drop_bit (8 * (k - i)) v) else p ! k))"
proof (induction n arbitrary: i v p)
  case (Suc n)
  let ?p = "p[i := ucast v]"
  have "i + 1 + n \<le> length ?p" using Suc.prems by simp
  note IH = Suc.IH [OF this, of "drop_bit 8 v"]
  have "snd (setNum_mid i (Suc n) v p) ! k =
      (if i \<le> k \<and> k < i + Suc n then ucast (drop_bit (8 * (k - i)) v) else p ! k)" if "k < length p" for k
  proof (cases "k = i")
    case True
    then show ?thesis using IH that by simp
  next
    case False
    show ?thesis
    proof (cases "i + 1 \<le> k \<and> k < i + 1 + n")
      case True
      then have "8 * (k - (i + 1)) + 8 = 8 * (k - i)" by auto
      with True IH that show ?thesis by (simp add: add.commute)
    next
      case outside: False
      then have "\<not> (i \<le> k \<and> k < i + Suc n)" using False by auto
      with outside IH that False show ?thesis by auto
    qed
  qed
  with IH show ?case by (simp add: add.commute)
qed auto

definition field_len :: "nat \<Rightarrow> nat \<Rightarrow> nat" where
  "field_len off n = (off mod 8 + n + 7) div 8"

lemma field_len_spec:
  assumes "0 < n"
  shows "off mod 8 + n = 8 * (field_len off n - 1)
      + (if (off mod 8 + n) mod 8 = 0 then 8 else (off mod 8 + n) mod 8) \<and> 1 \<le> field_len off n"
proof -
  define t q r where "t = off mod 8 + n" and "q = t div 8" and "r = t mod 8"
  have t: "t = 8 * q + r" "r < 8" "0 < t" using assms by (simp_all add: t_def q_def r_def)
  have f: "field_len off n = (t + 7) div 8" by (simp add: field_len_def t_def)
  show ?thesis
  proof (cases "r = 0")
    case True
    then have "field_len off n = q" "1 \<le> q" using t f by simp_all
    then show ?thesis using True t by (simp flip: t_def r_def)
  next
    case False
    then have "field_len off n = q + 1" using t f by simp
    then show ?thesis using False t by (simp flip: t_def r_def)
  qed
qed

lemma setNum_byte:
  fixes off n v p
  defines "s \<equiv> off mod 8" and "b0 \<equiv> off div 8" and "l \<equiv> field_len off n"
  assumes "0 < n" "off + n \<le> 8 * length p" "k < length p"
  shows "length (setNum off n v p) = length p \<and>
    setNum off n v p ! k =
     (if k = b0 then merge_byte (if l = 1 then low_mask s OR keep_mask ((s + n) mod 8) else low_mask s)
                       (push_bit s v) (p ! k)
      else if b0 < k \<and> k < b0 + l - 1 then ucast (drop_bit (8 * (k - b0)) (push_bit s v))
      else if b0 < k \<and> k = b0 + l - 1 then merge_byte (keep_mask ((s + n) mod 8))
                       (drop_bit (8 * (k - b0)) (push_bit s v)) (p ! k)
      else p ! k)"
proof -
  let ?v = "push_bit s v"
  let ?m = "if l = 1 then low_mask s OR keep_mask ((s + n) mod 8) else low_mask s"
  let ?p = "p[b0 := merge_byte ?m ?v (p ! b0)]"
  have l: "1 \<le> l" "b0 + l \<le> length p"
  proof -
    note f = field_len_spec [OF assms(4), of off, folded l_def s_def]
    then show "1 \<le> l" by simp
    have "8 * (l - 1) < s + n" using f by (auto split: if_splits)
    moreover have "off = 8 * b0 + s" by (simp add: b0_def s_def)
    ultimately show "b0 + l \<le> length p" using assms(5) \<open>1 \<le> l\<close> by linarith
  qed
  have len: "b0 + 1 + (l - 2) \<le> length ?p" using l by simp
  note mid = setNum_mid_spec [OF len, of "drop_bit 8 ?v"]
  obtain v' q where q: "setNum_mid (b0 + 1) (l - 2) (drop_bit 8 ?v) ?p = (v', q)" by force
  have e: "setNum off n v p = (if 1 < l then q[b0 + l - 1 := merge_byte (keep_mask ((s + n) mod 8)) v' (q ! (b0 + l - 1))] else q)"
    unfolding setNum_def Let_def
    by (simp only: assms(4) [THEN gr_implies_not0] if_False q [unfolded l_def b0_def s_def field_len_def]
        prod.case s_def b0_def l_def field_len_def)
  have v': "v' = drop_bit 8 (drop_bit (8 * (l - 2)) ?v)" and lq: "length q = length p"
    and qk: "\<And>k. k < length p \<Longrightarrow> q ! k = (if b0 + 1 \<le> k \<and> k < b0 + 1 + (l - 2)
        then ucast (drop_bit (8 * (k - (b0 + 1))) (drop_bit 8 ?v)) else ?p ! k)"
    using mid q by (simp_all add: add.commute)
  have in_mid: "8 * (k - (b0 + 1)) + 8 = 8 * (k - b0)" if "b0 < k" using that by auto
  have last: "8 * (l - 2) + 8 = 8 * (b0 + l - 1 - b0)" if "1 < l" using that by auto
  show ?thesis
  proof (cases "1 < l")
    case True
    then have "v' = drop_bit (8 * (b0 + l - 1 - b0)) ?v" using v' last by (simp add: add.commute)
    then show ?thesis
      using True e lq qk [OF assms(6)] qk [of "b0 + l - 1"] l assms(6) in_mid
      by (auto simp: nth_list_update add.commute)
  next
    case False
    then have "l = 1" using l by simp
    then show ?thesis using e lq qk [OF assms(6)] assms(6) by (auto simp: nth_list_update)
  qed
qed

text \<open>\<open>setNum\<close> replaces the bits of the field and no others.\<close>

lemma setNum_bits:
  assumes "off + n \<le> 8 * length p" "off mod 8 + n \<le> 64"
  shows "length (setNum off n v p) = length p \<and> (\<forall>k < 8 * length p. lbit (setNum off n v p) k =
     (if off \<le> k \<and> k < off + n then bit v (k - off) else lbit p k))"
proof (cases "n = 0")
  case False
  let ?s = "off mod 8" and ?b0 = "off div 8" and ?l = "field_len off n"
  have n: "0 < n" using False by simp
  have "lbit (setNum off n v p) k = (if off \<le> k \<and> k < off + n then bit v (k - off) else lbit p k)"
    if k: "k < 8 * length p" for k
  proof -
    define b j where "b = k div 8" and "j = k mod 8"
    have kb: "k = 8 * b + j" "j < 8" and b: "b < length p" using k by (auto simp: b_def j_def)
    have off: "off = 8 * ?b0 + ?s" "?s < 8" by auto
    note byte = setNum_byte [OF n assms(1) b, THEN conjunct2]
    have e: "(?s + n) mod 8 < 8" by simp
    have pv: "bit (drop_bit (8 * (b - ?b0)) (push_bit ?s v)) j \<longleftrightarrow> off \<le> k \<and> bit v (k - off)"
      if "?b0 \<le> b" "k < off + n"
    proof -
      have i: "8 * (b - ?b0) + j = k - 8 * ?b0" using that(1) kb by auto
      have "k - 8 * ?b0 - ?s = k - off" using off by linarith
      moreover have "?s \<le> k - 8 * ?b0 \<longleftrightarrow> off \<le> k" using off that kb by linarith
      moreover have "k - 8 * ?b0 < 64" using that assms(2) off by linarith
      ultimately show ?thesis by (auto simp: bit_simps i)
    qed
    have l: "?s + n = 8 * (?l - 1) + (if (?s + n) mod 8 = 0 then 8 else (?s + n) mod 8)" "1 \<le> ?l"
      using field_len_spec [OF n, of off] by auto
    define e8 where "e8 = (if (?s + n) mod 8 = 0 then 8 else (?s + n) mod 8)"
    have ln: "?s + n = 8 * (?l - 1) + e8" "0 < e8" "e8 \<le> 8"
      using l(1) e by (auto simp: e8_def intro: less_imp_le)
    consider "b < ?b0" | "b = ?b0" | "?b0 < b" "b < ?b0 + ?l - 1" | "?b0 < b" "b = ?b0 + ?l - 1"
      | "?b0 + ?l \<le> b" using l by linarith
    then show ?thesis
    proof cases
      case 1
      then have "k < off" using kb off by linarith
      with 1 byte show ?thesis by (simp add: lbit_def b_def [symmetric] j_def [symmetric])
    next
      case 2
      show ?thesis
      proof (cases "?s \<le> j \<and> k < off + n")
        case True
        then have "off \<le> k" and jn: "j < ?s + n" using 2 kb off by linarith+
        moreover have "\<not> bit (if ?l = 1 then low_mask ?s OR keep_mask ((?s + n) mod 8) else low_mask ?s) j"
          using True 2 l kb jn by (auto simp: bit_simps low_mask_bit keep_mask_bit split: if_splits)
        ultimately show ?thesis
          using byte 2 True pv kb(2)
          by (simp add: lbit_def b_def [symmetric] j_def [symmetric] merge_byte_bit)
      next
        case False
        then have "\<not> (off \<le> k \<and> k < off + n)" and jn: "j < ?s \<or> ?s + n \<le> j" using 2 kb off by linarith+
        moreover have "bit (if ?l = 1 then low_mask ?s OR keep_mask ((?s + n) mod 8) else low_mask ?s) j"
          using jn 2 l kb by (auto simp: bit_simps low_mask_bit keep_mask_bit split: if_splits)
        ultimately show ?thesis
          using byte 2 kb(2) by (auto simp: lbit_def b_def [symmetric] j_def [symmetric] merge_byte_bit)
      qed
    next
      case 3
      then have "off \<le> k" "k < off + n" using kb off ln l(2) by linarith+
      with 3 byte pv kb(2) show ?thesis
        by (simp add: lbit_def b_def [symmetric] j_def [symmetric] bit_simps)
    next
      case 4
      have "off \<le> k" and "k < off + n \<longleftrightarrow> j < e8" using 4 kb off ln l(2) by linarith+
      moreover have "j < e8 \<longleftrightarrow> \<not> bit (keep_mask ((?s + n) mod 8)) j"
        using kb(2) by (auto simp: keep_mask_bit e8_def)
      ultimately show ?thesis
        using 4 byte pv kb(2)
        by (auto simp: lbit_def b_def [symmetric] j_def [symmetric] merge_byte_bit)
    next
      case 5
      then have "off + n \<le> k" using kb off ln l(2) by linarith
      moreover have "b \<noteq> ?b0" "\<not> b < ?b0 + ?l - 1" "b \<noteq> ?b0 + ?l - 1" using 5 l(2) by linarith+
      ultimately show ?thesis using byte by (simp add: lbit_def b_def [symmetric] j_def [symmetric])
    qed
  qed
  moreover have "length p \<noteq> 0" using assms(1) n by auto
  then have "length (setNum off n v p) = length p"
    using setNum_byte [OF n assms(1), of 0] by simp
  ultimately show ?thesis by blast
qed (auto simp: setNum_def Let_def)

lemma div_mod_8: "x = 8 * q + r \<Longrightarrow> r < 8 \<Longrightarrow> x div 8 = q \<and> x mod 8 = (r :: nat)"
  by simp

lemma getNum_loop_bits:
  "n < 32 \<Longrightarrow> bit (getNum_loop b i p r) n \<longleftrightarrow>
     (if n < 8 * i then lbit p (8 * b + n) else bit r (n - 8 * i))"
proof (induction i arbitrary: r)
  case (Suc i)
  let ?r = "push_bit 8 r + ucast (p ! (b + i))"
  have big: "m < 8" if "bit (p ! (b + i)) m" for m using bit_imp_le_length [OF that] by simp
  have "?r = push_bit 8 r OR ucast (p ! (b + i))"
    by (rule disjunctive_add_eq_or, rule bit_word_eqI) (auto simp: bit_simps dest: big)
  then have r: "bit ?r m \<longleftrightarrow> (if m < 8 then bit (p ! (b + i)) m else bit r (m - 8))" if "m < 32" for m
    using that by (auto simp: bit_simps not_le dest: big)
  show ?case
  proof (cases "n < 8 * i")
    case True
    then show ?thesis using Suc by simp
  next
    case False
    then have m: "n - 8 * i < 32" using Suc.prems by simp
    have "(8 * b + n) div 8 = b + i" "(8 * b + n) mod 8 = n - 8 * i" if "n < 8 * Suc i"
    proof -
      have "8 * b + n = 8 * (b + i) + (n - 8 * i)" "n - 8 * i < 8" using False that by auto
      from div_mod_8 [OF this]
      show "(8 * b + n) div 8 = b + i" "(8 * b + n) mod 8 = n - 8 * i" by blast+
    qed
    note pos = this
    have "bit (getNum_loop b (Suc i) p r) n \<longleftrightarrow> bit ?r (n - 8 * i)"
      using Suc.IH [OF Suc.prems, of ?r] False by simp
    moreover have "n < 8 * Suc i \<longleftrightarrow> n - 8 * i < 8" "n - 8 * i - 8 = n - 8 * Suc i" using False by auto
    ultimately show ?thesis using r [OF m] pos by (simp add: lbit_def del: getNum_loop.simps)
  qed
qed simp

lemma getNum_bits:
  assumes "off mod 8 + n \<le> 32" "n < 32"
  shows "bit (getNum off n p) k \<longleftrightarrow> k < n \<and> lbit p (off + k)"
proof (cases "n = 0")
  case False
  let ?s = "off mod 8" and ?b0 = "off div 8" and ?l = "field_len off n"
  have l: "?s + n \<le> 8 * ?l" using field_len_spec [of n off] False by (auto split: if_splits)
  have m: "(push_bit n 1 - 1 :: u32) = mask n" by (simp add: push_bit_of_1)
  have "8 * ?b0 + (?s + k) = off + k" by simp
  then have "bit (drop_bit ?s (getNum_loop ?b0 ?l p 0)) k \<longleftrightarrow> lbit p (off + k)" if "k < n"
    using that assms l getNum_loop_bits [of "?s + k" ?b0 ?l p 0] by (simp add: bit_simps)
  then show ?thesis
    using False assms(2)
    by (auto simp: getNum_def Let_def m field_len_def [symmetric] bit_simps)
qed (simp add: getNum_def Let_def)

text \<open>A field reads back what was written to it, and writing to another one does not change it.\<close>

lemma getNum_setNum:
  assumes "off + n \<le> 8 * length p" "off mod 8 + n \<le> 32" "n < 32"
  shows "getNum off n (setNum off n v p) = take_bit n v"
  using assms setNum_bits [of off n p v]
  by (intro bit_word_eqI) (auto simp: getNum_bits bit_simps)

lemma getNum_setNum_other:
  assumes "off + n \<le> 8 * length p" "off mod 8 + n \<le> 32" "n < 32"
    "off' + n' \<le> 8 * length p" "off' mod 8 + n' \<le> 64" "off + n \<le> off' \<or> off' + n' \<le> off"
  shows "getNum off n (setNum off' n' v p) = getNum off n p"
  using assms setNum_bits [of off' n' p v]
  by (intro bit_word_eqI) (auto simp: getNum_bits)

section \<open>The common header\<close>

record layout =
  ly_version :: u32
  ly_fragOff :: nat
  ly_fragSize :: nat
  ly_tdestOff :: nat
  ly_tdestSize :: nat
  ly_tidOff :: nat
  ly_tidSize :: nat
  ly_tusr1Off :: nat
  ly_tusr1Size :: nat
  ly_frstBit :: nat
  ly_lastBit :: nat
  ly_tailSize :: nat

definition HEADER_SIZE :: nat where "HEADER_SIZE = 8"

record pack_hdr =
  ph_vers :: u32
  ph_fragNo :: u32
  ph_tDest :: u8
  ph_tId :: u8
  ph_tUsr1 :: u8

definition setSOF :: "layout \<Rightarrow> bool \<Rightarrow> 'a pack_hdr_scheme \<Rightarrow> 'a pack_hdr_scheme" where
  "setSOF ly v h = h\<lparr>ph_tUsr1 := (if v then ph_tUsr1 h OR push_bit (ly_frstBit ly) 1
     else ph_tUsr1 h AND NOT (push_bit (ly_frstBit ly) 1))\<rparr>"

definition getSOF :: "layout \<Rightarrow> 'a pack_hdr_scheme \<Rightarrow> bool" where
  "getSOF ly h \<longleftrightarrow> ph_tUsr1 h AND push_bit (ly_frstBit ly) 1 \<noteq> 0"

definition setFragNo :: "layout \<Rightarrow> u32 \<Rightarrow> 'a pack_hdr_scheme \<Rightarrow> 'a pack_hdr_scheme" where
  "setFragNo ly n h = setSOF ly (n = 0) (h\<lparr>ph_fragNo := n\<rparr>)"

definition ph_new :: "layout \<Rightarrow> u32 \<Rightarrow> u8 \<Rightarrow> pack_hdr" where
  "ph_new ly fragNo tDest = setSOF ly (fragNo = 0)
     \<lparr>ph_vers = ly_version ly, ph_fragNo = fragNo, ph_tDest = tDest, ph_tId = 0, ph_tUsr1 = 0\<rparr>"

definition parseVersion :: "u8 list \<Rightarrow> u32" where
  "parseVersion base = ucast (base ! 0) AND (push_bit 4 1 - 1)"

definition parseHeaderSize :: "layout \<Rightarrow> u8 list \<Rightarrow> exn + nat" where
  "parseHeaderSize ly base =
     (if parseVersion base \<noteq> ly_version ly then Inl InvalidHeader else Inr HEADER_SIZE)"

definition parseTailSize :: "layout \<Rightarrow> u8 list \<Rightarrow> exn + nat" where
  "parseTailSize ly base =
     (if parseVersion base \<noteq> ly_version ly then Inl InvalidHeader else Inr (ly_tailSize ly))"

definition parseTDest :: "layout \<Rightarrow> u8 list \<Rightarrow> nat \<Rightarrow> exn + u8" where
  "parseTDest ly base sz =
     (if parseVersion base \<noteq> ly_version ly \<or> sz < HEADER_SIZE then Inl InvalidHeader
      else if ly_tdestOff ly mod 8 \<noteq> 0 \<or> ly_tdestSize ly \<noteq> 8
      then Inl (InternalError ''Implementation doesn't match header format'')
      else Inr (base ! (ly_tdestOff ly div 8)))"

definition insertTDest :: "layout \<Rightarrow> u8 list \<Rightarrow> nat \<Rightarrow> u8 \<Rightarrow> exn + u8 list" where
  "insertTDest ly base sz tdest =
     (if parseVersion base \<noteq> ly_version ly \<or> sz < HEADER_SIZE then Inl InvalidHeader
      else if ly_tdestOff ly mod 8 \<noteq> 0 \<or> ly_tdestSize ly \<noteq> 8
      then Inl (InternalError ''Implementation doesn't match header format'')
      else Inr (base[ly_tdestOff ly div 8 := tdest]))"

text \<open>The functions on the tail take the bytes from the tail on.\<close>

definition tail_mask :: "layout \<Rightarrow> u8" where
  "tail_mask ly = push_bit (ly_lastBit ly mod 8) 1"

definition parseTailEOF :: "layout \<Rightarrow> u8 list \<Rightarrow> bool" where
  "parseTailEOF ly t \<longleftrightarrow> (t ! (ly_lastBit ly div 8)) AND tail_mask ly \<noteq> 0"

definition insertTailEOF :: "layout \<Rightarrow> bool \<Rightarrow> u8 list \<Rightarrow> u8 list" where
  "insertTailEOF ly eof t = (let i = ly_lastBit ly div 8 in
     t[i := (if eof then t ! i OR tail_mask ly else t ! i AND NOT (tail_mask ly))])"

definition iniTail :: "layout \<Rightarrow> u8 list \<Rightarrow> u8 list" where
  "iniTail ly t = replicate (ly_tailSize ly) 0 @ drop (ly_tailSize ly) t"

text \<open>\<open>sz\<close> is the number of bytes there are. Also a header that is rejected leaves the
  version in the object.\<close>

definition ph_parse :: "layout \<Rightarrow> u8 list \<Rightarrow> nat \<Rightarrow> 'a pack_hdr_scheme \<Rightarrow> bool \<times> 'a pack_hdr_scheme" where
  "ph_parse ly base sz h =
     (if sz < 1 then (False, h)
      else let h1 = h\<lparr>ph_vers := ucast (getNum 0 4 base)\<rparr> in
        if ph_vers h1 \<noteq> ly_version ly then (False, h1)
        else if sz < HEADER_SIZE then (False, h1)
        else (True, h1\<lparr>
          ph_fragNo := ucast (getNum (ly_fragOff ly) (ly_fragSize ly) base),
          ph_tDest := ucast (getNum (ly_tdestOff ly) (ly_tdestSize ly) base),
          ph_tId := ucast (getNum (ly_tidOff ly) (ly_tidSize ly) base),
          ph_tUsr1 := ucast (getNum (ly_tusr1Off ly) (ly_tusr1Size ly) base)\<rparr>))"

definition ph_insert :: "layout \<Rightarrow> 'a pack_hdr_scheme \<Rightarrow> u8 list \<Rightarrow> nat \<Rightarrow> exn + u8 list" where
  "ph_insert ly h base sz =
     (if sz < HEADER_SIZE then Inl (InvalidArgError ''Insufficient space for header'')
      else Inr (
        setNum (ly_tusr1Off ly) (ly_tusr1Size ly) (ucast (ph_tUsr1 h))
       (setNum (ly_tidOff ly) (ly_tidSize ly) (ucast (ph_tId h))
       (setNum (ly_tdestOff ly) (ly_tdestSize ly) (ucast (ph_tDest h))
       (setNum (ly_fragOff ly) (ly_fragSize ly) (ucast (ph_fragNo h))
       (setNum 0 4 (ucast (ph_vers h))
       (replicate HEADER_SIZE 0 @ drop HEADER_SIZE base)))))))"

section \<open>Version 0: AXIS frames\<close>

definition AXIS :: layout where
  "AXIS = \<lparr>ly_version = 0, ly_fragOff = 16, ly_fragSize = 24, ly_tdestOff = 40, ly_tdestSize = 8,
     ly_tidOff = 48, ly_tidSize = 8, ly_tusr1Off = 56, ly_tusr1Size = 8,
     ly_frstBit = 1, ly_lastBit = 7, ly_tailSize = 1\<rparr>"

definition FRAG_MAX :: u32 where "FRAG_MAX = push_bit 24 1 - 1"

record axis_hdr = pack_hdr +
  ax_frameNo :: u32

definition axis_new :: "u32 \<Rightarrow> u32 \<Rightarrow> u8 \<Rightarrow> axis_hdr" where
  "axis_new frameNo fragNo tDest = setSOF AXIS (fragNo = 0)
     \<lparr>ph_vers = 0, ph_fragNo = fragNo, ph_tDest = tDest, ph_tId = 0, ph_tUsr1 = 0, ax_frameNo = frameNo\<rparr>"

definition axis_insert :: "axis_hdr \<Rightarrow> u8 list \<Rightarrow> nat \<Rightarrow> exn + u8 list" where
  "axis_insert h base sz = (case ph_insert AXIS h base sz of
     Inl e \<Rightarrow> Inl e | Inr b \<Rightarrow> Inr (setNum 4 12 (ucast (ax_frameNo h)) b))"

definition axis_parse :: "u8 list \<Rightarrow> nat \<Rightarrow> axis_hdr \<Rightarrow> bool \<times> axis_hdr" where
  "axis_parse base sz h = (case ph_parse AXIS base sz h of
     (False, h') \<Rightarrow> (False, h')
   | (True, h') \<Rightarrow> (True, h'\<lparr>ax_frameNo := ucast (getNum 4 12 base)\<rparr>))"

text \<open>The constructor that reads a header.\<close>

definition axis_of :: "u8 list \<Rightarrow> nat \<Rightarrow> exn + axis_hdr" where
  "axis_of base sz = (case axis_parse base sz (axis_new 0 0 0) of
     (False, _) \<Rightarrow> Inl InvalidHeader | (True, h) \<Rightarrow> Inr h)"

text \<open>Frame numbers: the allocator counts in the upper 12 bits of its 32-bit counter.\<close>

definition newFrameID :: "u32 \<Rightarrow> u32 \<times> u32" where
  "newFrameID ctr = (drop_bit 20 ctr AND (push_bit 12 1 - 1), ctr + push_bit 20 1)"

definition moduloFrameSz :: "u32 \<Rightarrow> u32" where
  "moduloFrameSz i = i AND (push_bit 12 1 - 1)"

definition signExtendFrameNo :: "u32 \<Rightarrow> int" where
  "signExtendFrameNo x = sint (if x AND push_bit 11 1 \<noteq> 0 then x OR NOT (push_bit 12 1 - 1) else x)"

section \<open>Version 2\<close>

definition DEPACK2 :: layout where
  "DEPACK2 = \<lparr>ly_version = 2, ly_fragOff = 32, ly_fragSize = 16, ly_tdestOff = 16, ly_tdestSize = 8,
     ly_tidOff = 24, ly_tidSize = 8, ly_tusr1Off = 8, ly_tusr1Size = 8,
     ly_frstBit = 1, ly_lastBit = 8, ly_tailSize = 8\<rparr>"

definition CRC_NONE :: u32 where "CRC_NONE = 0"
definition CRC_DATA :: u32 where "CRC_DATA = 1"
definition CRC_FULL :: u32 where "CRC_FULL = 2"

record d2_hdr = pack_hdr +
  d2_crcMode :: u32

definition d2_new :: "u32 \<Rightarrow> u8 \<Rightarrow> d2_hdr" where
  "d2_new fragNo tDest = setSOF DEPACK2 (fragNo = 0)
     \<lparr>ph_vers = 2, ph_fragNo = fragNo, ph_tDest = tDest, ph_tId = 0, ph_tUsr1 = 0, d2_crcMode = CRC_FULL\<rparr>"

definition d2_parse :: "u8 list \<Rightarrow> nat \<Rightarrow> d2_hdr \<Rightarrow> bool \<times> d2_hdr" where
  "d2_parse base sz h = (case ph_parse DEPACK2 base sz h of
     (False, h') \<Rightarrow> (False, h')
   | (True, h') \<Rightarrow> (True, h'\<lparr>d2_crcMode := ucast (getNum 4 4 base)\<rparr>))"

definition d2_of :: "u8 list \<Rightarrow> nat \<Rightarrow> exn + d2_hdr" where
  "d2_of base sz = (case d2_parse base sz (d2_new 0 0) of
     (False, _) \<Rightarrow> Inl InvalidHeader | (True, h) \<Rightarrow> Inr h)"

definition d2_insert :: "d2_hdr \<Rightarrow> u8 list \<Rightarrow> nat \<Rightarrow> exn + u8 list" where
  "d2_insert h base sz = (case ph_insert DEPACK2 h base sz of
     Inl e \<Rightarrow> Inl e
   | Inr b \<Rightarrow> Inr (setNum 4 4 (ucast (d2_crcMode h))
       (if ph_fragNo h = 0 then b[63 div 8 := b ! (63 div 8) OR push_bit (63 mod 8) 1] else b)))"

definition d2_isFirst :: "u8 list \<Rightarrow> bool" where
  "d2_isFirst base \<longleftrightarrow> (base ! (63 div 8)) AND push_bit (63 mod 8) 1 \<noteq> 0"

definition parseTUsr2 :: "u8 list \<Rightarrow> u32" where
  "parseTUsr2 t = ucast (getNum 0 8 t)"

definition insertTUsr2 :: "u32 \<Rightarrow> u8 list \<Rightarrow> u8 list" where
  "insertTUsr2 v t = setNum 0 8 (ucast v) t"

definition parseNumLanes :: "u8 list \<Rightarrow> exn + u32" where
  "parseNumLanes t = (let n = ucast (getNum 16 4 t) in if 8 < n then Inl InvalidHeader else Inr n)"

definition insertNumLanes :: "u32 \<Rightarrow> u8 list \<Rightarrow> u8 list" where
  "insertNumLanes v t = setNum 16 4 (ucast v) t"

definition bswap32 :: "u32 \<Rightarrow> u32" where
  "bswap32 v = join32 (ucast v) (ucast (drop_bit 8 v)) (ucast (drop_bit 16 v)) (ucast (drop_bit 24 v))"

definition insertCrc :: "u32 \<Rightarrow> u8 list \<Rightarrow> u8 list" where
  "insertCrc crc t = setNum 32 32 (ucast (bswap32 crc)) t"

definition getTailPadding :: "u32 \<Rightarrow> u32" where
  "getTailPadding sz = (8 - sz) AND (8 - 1)"

definition tailIsAligned :: "u32 \<Rightarrow> bool" where
  "tailIsAligned sz \<longleftrightarrow> sz AND (8 - 1) = 0"

text \<open>Appends the tail to the \<open>sz\<close> bytes in the buffer; the result is how many more there are.\<close>

definition appendTail :: "u8 list \<Rightarrow> u32 \<Rightarrow> bool \<Rightarrow> u8 \<Rightarrow> u8 list \<times> u32" where
  "appendTail b sz eof tUsr2 =
     (let pad = getTailPadding sz;
          numLanes = (if 8 < sz then 8 - pad else 0);
          at = unat sz + unat pad;
          t = insertTailEOF DEPACK2 eof (insertTUsr2 (ucast tUsr2)
               (insertNumLanes numLanes (iniTail DEPACK2 (drop at b))))
      in (take at b @ t, pad + 8))"

section \<open>Headers read back as written\<close>

lemma length_setNum_mid [simp]: "length (snd (setNum_mid i n v p)) = length p"
  by (induction i n v p rule: setNum_mid.induct) simp_all

lemma length_setNum [simp]: "length (setNum off n v p) = length p"
proof (cases "n = 0")
  case False
  have len: "length (case setNum_mid i k w p1 of (v', p2) \<Rightarrow> if c then p2[j v' p2 := x v' p2] else p2) = length p1"
    for i k w p1 c j x
    using length_setNum_mid [of i k w p1] by (cases "setNum_mid i k w p1") simp
  show ?thesis using False by (simp add: setNum_def Let_def len)
qed (simp add: setNum_def Let_def)

lemma setNum_drop:
  assumes "off + n \<le> 8 * m" "m \<le> length p"
  shows "drop m (setNum off n v p) = drop m p"
proof (cases "n = 0")
  case False
  then have n: "0 < n" by simp
  have l: "8 * (field_len off n - 1) < off mod 8 + n" "1 \<le> field_len off n"
    using field_len_spec [OF n, of off] by (auto split: if_splits)
  have o: "off = 8 * (off div 8) + off mod 8" by simp
  show ?thesis
  proof (rule nth_equalityI)
    fix i
    assume "i < length (drop m (setNum off n v p))"
    then have i: "m + i < length p" by simp
    have "off div 8 < m + i" "\<not> m + i < off div 8 + field_len off n - 1" "m + i \<noteq> off div 8 + field_len off n - 1"
      using l o assms(1) by linarith+
    then show "drop m (setNum off n v p) ! i = drop m p ! i"
      using setNum_byte [OF n _ i, of off v] assms i by simp
  qed simp
qed (simp add: setNum_def Let_def)

lemma take_bit_small:
  fixes x :: "'a::len word"
  assumes "x < push_bit n 1" "n < LENGTH('a)"
  shows "take_bit n x = x"
proof -
  have "(2 :: nat) ^ n < 2 ^ LENGTH('a)" using assms(2) by simp
  then have "unat (2 ^ n :: 'a word) = 2 ^ n"
    using unat_of_nat_mod [of "2 ^ n", where 'a = 'a] by simp
  then have "unat x < 2 ^ n" using assms(1) by (simp add: push_bit_of_1 word_less_nat_alt)
  then show ?thesis
    by (simp add: word_unat_eq_iff unsigned_take_bit_eq take_bit_nat_eq_self)
qed

lemma fits_u32:
  assumes "take_bit n x = (x :: u32)" "n \<le> 32"
  shows "(ucast (take_bit n (ucast x :: u64)) :: u32) = x"
proof -
  have "(ucast (take_bit n (ucast x :: u64)) :: u32) = take_bit n x"
    using assms(2) by (intro bit_word_eqI) (auto simp: bit_simps)
  then show ?thesis using assms(1) by simp
qed

lemma fits_u8: "(ucast (take_bit 8 (ucast x :: u64)) :: u8) = (x :: u8)"
  by (rule bit_word_eqI) (auto simp: bit_simps)

lemma axis_insert_parse:
  assumes "8 \<le> length base" "8 \<le> sz" "ph_vers h = 0" "ph_fragNo h \<le> FRAG_MAX" "ax_frameNo h < push_bit 12 1"
  shows "\<exists>b. axis_insert h base sz = Inr b \<and> length b = length base \<and> drop 8 b = drop 8 base
    \<and> axis_parse b sz h' = (True, h)"
proof -
  have f: "take_bit 24 (ph_fragNo h) = ph_fragNo h" "take_bit 12 (ax_frameNo h) = ax_frameNo h"
    using assms(4,5) by (auto intro!: take_bit_small simp: FRAG_MAX_def word_le_nat_alt word_less_nat_alt push_bit_of_1)
  let ?z = "replicate 8 0 @ drop 8 base :: u8 list"
  define b where "b = setNum 4 12 (ucast (ax_frameNo h)) (setNum 56 8 (ucast (ph_tUsr1 h))
    (setNum 48 8 (ucast (ph_tId h)) (setNum 40 8 (ucast (ph_tDest h))
    (setNum 16 24 (ucast (ph_fragNo h)) (setNum 0 4 (ucast (ph_vers h)) ?z)))))"
  have len: "length b = length base" using assms(1) by (simp add: b_def)
  have get: "getNum 0 4 b = take_bit 4 (ucast (ph_vers h))" "getNum 16 24 b = take_bit 24 (ucast (ph_fragNo h))"
    "getNum 40 8 b = take_bit 8 (ucast (ph_tDest h))" "getNum 48 8 b = take_bit 8 (ucast (ph_tId h))"
    "getNum 56 8 b = take_bit 8 (ucast (ph_tUsr1 h))" "getNum 4 12 b = take_bit 12 (ucast (ax_frameNo h))"
    using assms(1) by (simp_all add: b_def getNum_setNum getNum_setNum_other)
  have "drop 8 b = drop 8 base" using assms(1) by (simp add: b_def setNum_drop)
  moreover have "axis_insert h base sz = Inr b"
    using assms(2) by (simp add: axis_insert_def ph_insert_def HEADER_SIZE_def AXIS_def b_def)
  moreover have "axis_parse b sz h' = (True, h)"
    using assms(2,3) f
    by (simp add: axis_parse_def ph_parse_def HEADER_SIZE_def AXIS_def Let_def get fits_u32 fits_u8)
  ultimately show ?thesis using len by blast
qed

text \<open>A version 0 header whose fragment and frame number fit their fields, inserted over any
  memory, reads back as written and leaves what follows it alone.\<close>

theorem axis_roundtrip:
  assumes "8 \<le> length base" "8 \<le> sz" "ph_vers h = 0" "ph_fragNo h \<le> FRAG_MAX" "ax_frameNo h < push_bit 12 1"
  shows "\<exists>b. axis_insert h base sz = Inr b \<and> length b = length base \<and> drop 8 b = drop 8 base
    \<and> axis_parse b sz h' = (True, h)"
  using assms by (rule axis_insert_parse)

lemma axis_roundtrip_witness:
  "\<exists>b. axis_insert (axis_new 7 3 9) (replicate 12 255) 12 = Inr b
    \<and> axis_parse b 12 (axis_new 0 0 0) = (True, axis_new 7 3 9)"
proof -
  have "8 \<le> length (replicate 12 255 :: u8 list)" "8 \<le> (12 :: nat)" "ph_vers (axis_new 7 3 9) = 0"
    "ph_fragNo (axis_new 7 3 9) \<le> FRAG_MAX" "ax_frameNo (axis_new 7 3 9) < push_bit 12 1"
    by (simp_all add: axis_new_def setSOF_def FRAG_MAX_def push_bit_of_1 word_le_nat_alt word_less_nat_alt)
  from axis_roundtrip [OF this] show ?thesis by blast
qed

end
