(* ===== verification/PackTail.thy ===== *)
theory PackTail
  imports PackHeader
begin

text \<open>
  The header and the tail of the second packetizer read back as written, and the frame
  numbers of the first: what \<open>newFrameID\<close> hands out and where \<open>signExtendFrameNo\<close> is right.
\<close>

lemma getNum_update_other:
  assumes "off + n \<le> 8 * j \<or> 8 * j + 8 \<le> off" "off mod 8 + n \<le> 32" "n < 32"
  shows "getNum off n (p[j := x]) = getNum off n p"
proof (rule bit_word_eqI)
  fix k
  have "lbit (p[j := x]) (off + k) = lbit p (off + k)" if "k < n"
  proof -
    have "(off + k) div 8 \<noteq> j" using assms(1) that by auto
    then show ?thesis by (simp add: lbit_def)
  qed
  then show "bit (getNum off n (p[j := x])) k = bit (getNum off n p) k"
    using assms(2,3) by (auto simp: getNum_bits)
qed

lemma drop_eq_nth: "drop m xs = drop m ys \<Longrightarrow> m < length xs \<Longrightarrow> m < length ys \<Longrightarrow> xs ! m = ys ! m"
  by (metis hd_drop_conv_nth)

text \<open>A version 2 header written by \<open>d2_insert\<close>: the fragment number is cut to its field.\<close>

lemma d2_insert_parse:
  assumes "8 \<le> length base" "8 \<le> sz" "ph_vers h = 2" "d2_crcMode h < push_bit 4 1"
  shows "\<exists>b. d2_insert h base sz = Inr b \<and> length b = length base \<and> drop 8 b = drop 8 base
    \<and> (\<forall>s h'. 8 \<le> s \<longrightarrow> d2_parse b s h' = (True, h\<lparr>ph_fragNo := take_bit 16 (ph_fragNo h)\<rparr>))
    \<and> (d2_isFirst b \<longleftrightarrow> ph_fragNo h = 0)"
proof -
  have f: "take_bit 16 (take_bit 16 (ph_fragNo h)) = take_bit 16 (ph_fragNo h)"
    "take_bit 4 (d2_crcMode h) = d2_crcMode h"
    using take_bit_small [OF assms(4)] by simp_all
  let ?z = "replicate 8 0 @ drop 8 base :: u8 list"
  define c where "c = setNum 8 8 (ucast (ph_tUsr1 h))
    (setNum 24 8 (ucast (ph_tId h)) (setNum 16 8 (ucast (ph_tDest h))
    (setNum 32 16 (ucast (ph_fragNo h)) (setNum 0 4 (ucast (ph_vers h)) ?z))))"
  define b where "b = setNum 4 4 (ucast (d2_crcMode h)) (if ph_fragNo h = 0 then c[7 := c ! 7 OR push_bit 7 1] else c)"
  have len: "length c = length base" "length b = length base" using assms(1) by (simp_all add: b_def c_def)
  have get: "getNum 0 4 b = take_bit 4 (ucast (ph_vers h))" "getNum 32 16 b = take_bit 16 (ucast (ph_fragNo h))"
    "getNum 16 8 b = take_bit 8 (ucast (ph_tDest h))" "getNum 24 8 b = take_bit 8 (ucast (ph_tId h))"
    "getNum 8 8 b = take_bit 8 (ucast (ph_tUsr1 h))" "getNum 4 4 b = take_bit 4 (ucast (d2_crcMode h))"
    using assms(1)
    by (simp_all add: b_def c_def getNum_setNum getNum_setNum_other getNum_update_other)
  have d8: "drop 8 b = drop 8 base" using assms(1) by (simp add: b_def c_def setNum_drop)
  have "drop 7 c = drop 7 ?z" using assms(1) by (simp add: c_def setNum_drop)
  then have c7: "c ! 7 = 0"
    using drop_eq_nth [of 7 c ?z] assms(1) len by (simp add: nth_append)
  have "drop 7 b = drop 7 (if ph_fragNo h = 0 then c[7 := c ! 7 OR push_bit 7 1] else c)"
    using assms(1) len by (simp add: b_def setNum_drop)
  then have "b ! 7 = (if ph_fragNo h = 0 then c[7 := c ! 7 OR push_bit 7 1] else c) ! 7"
    by (rule drop_eq_nth) (use assms(1) len in simp_all)
  then have "b ! 7 = (if ph_fragNo h = 0 then push_bit 7 1 else 0)"
    using assms(1) len c7 by simp
  then have first: "d2_isFirst b \<longleftrightarrow> ph_fragNo h = 0" by (simp add: d2_isFirst_def)
  moreover have "d2_insert h base sz = Inr b"
    using assms(2) by (simp add: d2_insert_def ph_insert_def HEADER_SIZE_def DEPACK2_def b_def c_def)
  moreover have "d2_parse b s h' = (True, h\<lparr>ph_fragNo := take_bit 16 (ph_fragNo h)\<rparr>)" if "8 \<le> s" for s h'
  proof -
    have frag: "getNum 32 16 b = take_bit 16 (ucast (take_bit 16 (ph_fragNo h)))"
      unfolding get(2) by (rule bit_word_eqI) (auto simp: bit_simps)
    have "(ucast (take_bit 16 (ucast (take_bit 16 (ph_fragNo h)) :: u64)) :: u32) = take_bit 16 (ph_fragNo h)"
      by (rule fits_u32 [OF f(1)]) simp_all
    then show ?thesis
      using that assms(3) f(2) frag
      by (simp add: d2_parse_def ph_parse_def HEADER_SIZE_def DEPACK2_def Let_def get(1,3-) fits_u32 fits_u8)
  qed
  ultimately show ?thesis using len d8 by blast
qed

text \<open>A version 2 header, inserted over any memory, reads back as written, is marked as
  the first of its frame iff its fragment number is 0, and leaves what follows it alone.\<close>

theorem d2_roundtrip:
  assumes "8 \<le> length base" "8 \<le> sz" "ph_vers h = 2" "ph_fragNo h < push_bit 16 1" "d2_crcMode h < push_bit 4 1"
  shows "\<exists>b. d2_insert h base sz = Inr b \<and> length b = length base \<and> drop 8 b = drop 8 base
    \<and> d2_parse b sz h' = (True, h) \<and> (d2_isFirst b \<longleftrightarrow> ph_fragNo h = 0)"
  using d2_insert_parse [OF assms(1-3,5)] take_bit_small [OF assms(4)] assms(2) by auto

lemma d2_roundtrip_witness:
  "\<exists>b. d2_insert (d2_new 3 9) (replicate 12 255) 12 = Inr b \<and> d2_parse b 12 (d2_new 0 0) = (True, d2_new 3 9)
    \<and> \<not> d2_isFirst b"
proof -
  have "8 \<le> length (replicate 12 255 :: u8 list)" "8 \<le> (12 :: nat)" "ph_vers (d2_new 3 9) = 2"
    "ph_fragNo (d2_new 3 9) < push_bit 16 1" "d2_crcMode (d2_new 3 9) < push_bit 4 1"
    by (simp_all add: d2_new_def setSOF_def CRC_FULL_def push_bit_of_1)
  from d2_roundtrip [OF this] show ?thesis by (auto simp: d2_new_def setSOF_def)
qed

section \<open>The tail\<close>

lemma unat_and_7: "unat (w AND 7 :: u32) = unat w mod 8"
  using unat_and_mask [of w 3] by (simp add: mask_eq_exp_minus_1)

lemma tail_padding: "unat (getTailPadding sz) = (8 - unat sz mod 8) mod 8"
proof -
  have "unat (8 - sz) mod 8 = (8 - unat sz mod 8) mod 8"
  proof -
    have "(8 - sz) + sz = 8" by simp
    then have "(unat (8 - sz) + unat sz) mod 2 ^ 32 = 8" 
      using unat_word_ariths(1) [of "8 - sz" sz] by simp
    then have "(unat (8 - sz) + unat sz) mod 8 = 0"
      using mod_mod_cancel [of 8 "2 ^ 32" "unat (8 - sz) + unat sz"] by simp
    then have "(unat (8 - sz) mod 8 + unat sz mod 8) mod 8 = 0" by (simp add: mod_add_eq)
    moreover have "x = (8 - y) mod 8" if "(x + y) mod 8 = 0" "x < 8" "y < 8" for x y :: nat
    proof -
      from that(1) obtain q where q: "x + y = 8 * q" by auto
      then have "q < 2" using that by linarith
      then have "q = 0 \<or> q = 1" by (simp add: less_2_cases_iff)
      then have "x = 0 \<and> y = 0 \<or> x = 8 - y \<and> 0 < y" using q that by linarith
      then show ?thesis using that by auto
    qed
    ultimately show ?thesis by simp
  qed
  then show ?thesis by (simp add: getTailPadding_def unat_and_7)
qed

lemma lanes_count:
  assumes "unat p = (8 - n mod 8) mod 8" "8 < n"
  shows "unat (8 - p :: u32) = (n - 1) mod 8 + 1"
proof -
  have "unat p < 8" using assms(1) by simp
  then have "unat (8 - p) = 8 - unat p" by (subst unat_sub) (simp_all add: word_le_nat_alt)
  also have "\<dots> = (n - 1) mod 8 + 1"
  proof (cases "n mod 8")
    case 0
    then obtain q where "n = 8 * q" by auto
    then have "n - 1 = 8 * (q - 1) + 7" using assms(2) by linarith
    then have "(n - 1) mod 8 = 7" by (simp add: div_mod_8)
    then show ?thesis using assms(1) 0 by simp
  next
    case (Suc r)
    then have "n - 1 = 8 * (n div 8) + r" "r < 8" by presburger+
    from div_mod_8 [OF this] Suc assms(1) show ?thesis using \<open>r < 8\<close> by simp
  qed
  finally show ?thesis .
qed

lemma pad_dvd: "8 dvd x + ((8 - x mod 8) mod 8 + (8 :: nat))"
proof -
  define q r where "q = x div 8" and "r = x mod 8"
  have "x = 8 * q + r" "r < 8" by (simp_all add: q_def r_def)
  moreover have "8 * q + r + ((8 - r) mod 8 + 8) = 8 * (q + (if r = 0 then 1 else 2))" if "r < 8"
    using that by (cases "r = 0") auto
  ultimately show ?thesis unfolding r_def [symmetric] by (metis dvd_triv_left)
qed

lemma getTail_eof:
  assumes "2 \<le> length t"
  shows "parseTailEOF DEPACK2 (insertTailEOF DEPACK2 eof t) = eof"
proof -
  have "(w AND NOT 1) AND 1 = (0 :: u8)" "(w OR 1) AND 1 = (1 :: u8)" for w
    by (rule bit_word_eqI, auto simp: bit_simps)+
  then show ?thesis
    using assms by (simp add: parseTailEOF_def insertTailEOF_def DEPACK2_def tail_mask_def Let_def)
qed

text \<open>The tail is appended after padding to a multiple of 8 bytes; it reads back as
  written: end of frame, user bits, and how many bytes of the last 8 hold data (none if there
  is only a header). The bytes before it are untouched.\<close>

theorem append_tail_reads_back:
  fixes b :: "u8 list" and sz :: u32 and eof :: bool and tUsr2 :: u8
  assumes "unat sz + 16 \<le> length b" "unat sz + 16 < 2 ^ 32"
  defines "b' \<equiv> fst (appendTail b sz eof tUsr2)" and "n \<equiv> unat (snd (appendTail b sz eof tUsr2))"
  shows "length b' = length b \<and> take (unat sz) b' = take (unat sz) b \<and> 8 \<le> n \<and> n < 16 \<and> 8 dvd unat sz + n
    \<and> parseTailEOF DEPACK2 (drop (unat sz + n - 8) b') = eof
    \<and> parseTUsr2 (drop (unat sz + n - 8) b') = ucast tUsr2
    \<and> (\<exists>k. parseNumLanes (drop (unat sz + n - 8) b') = Inr k
         \<and> unat k = (if 8 < unat sz then (unat sz - 1) mod 8 + 1 else 0))"
proof -
  let ?pad = "unat (getTailPadding sz)"
  let ?at = "unat sz + ?pad"
  let ?k = "if 8 < sz then 8 - getTailPadding sz else 0"
  let ?z = "iniTail DEPACK2 (drop ?at b)"
  let ?u = "insertTUsr2 (ucast tUsr2) (insertNumLanes ?k ?z)"
  let ?t = "insertTailEOF DEPACK2 eof ?u"
  have pad: "?pad = (8 - unat sz mod 8) mod 8" by (rule tail_padding)
  then have p8: "?pad < 8" by simp
  have n: "n = ?pad + 8"
    using p8 by (simp add: n_def appendTail_def Let_def unat_word_ariths)
  have b': "b' = take ?at b @ ?t" by (simp add: b'_def appendTail_def Let_def)
  have at: "length (take ?at b) = ?at" using assms(1) p8 by simp
  then have t: "drop (unat sz + n - 8) b' = ?t" by (simp add: n b')
  have lz: "8 \<le> length ?z" "length ?z = length b - ?at"
    using assms(1) p8 by (auto simp: iniTail_def DEPACK2_def)
  have lu: "length ?u = length ?z" by (simp add: insertTUsr2_def insertNumLanes_def)
  have lt: "length ?t = length ?z" by (simp add: insertTailEOF_def Let_def lu)
  have k: "unat ?k = (if 8 < unat sz then (unat sz - 1) mod 8 + 1 else 0)"
    using lanes_count [OF pad] by (simp add: word_less_nat_alt)
  then have k8: "unat ?k \<le> 8" by (auto simp: Suc_le_eq split: if_splits)
  have get: "getNum 16 4 ?t = take_bit 4 (ucast ?k)" "getNum 0 8 ?t = take_bit 8 (ucast (ucast tUsr2 :: u32))"
    using lz(1) by (simp_all add: insertTailEOF_def Let_def DEPACK2_def getNum_update_other insertTUsr2_def
        insertNumLanes_def getNum_setNum getNum_setNum_other)
  have small: "?k < push_bit 4 1" using k8 unfolding word_less_nat_alt by (simp add: push_bit_of_1)
  have "(ucast (getNum 16 4 ?t) :: u32) = ?k"
    unfolding get(1) by (rule fits_u32 [OF take_bit_small [OF small]]) simp_all
  moreover have "\<not> 8 < ?k" using k8 unfolding word_less_nat_alt by simp
  ultimately have lanes: "parseNumLanes ?t = Inr ?k" unfolding parseNumLanes_def Let_def by (simp only: if_False)
  have usr: "parseTUsr2 ?t = ucast tUsr2"
    unfolding parseTUsr2_def get(2) by (rule bit_word_eqI) (auto simp: bit_simps dest: bit_imp_le_length)
  have eof: "parseTailEOF DEPACK2 ?t = eof" using lz(1) lu by (intro getTail_eof) simp
  have dvd: "8 dvd unat sz + n" unfolding n pad by (rule pad_dvd)
  have tk: "take (unat sz) b' = take (unat sz) b" "length b' = length b"
    using at assms(1) p8 lt lz by (simp_all add: b')
  show ?thesis
    unfolding t using lanes usr eof dvd tk k p8 n by (intro conjI exI [of _ ?k]) simp_all
qed

lemma append_tail_reads_back_witness:
  "unat (snd (appendTail (replicate 40 7) 12 True 5)) < 16 \<and>
   8 dvd 12 + unat (snd (appendTail (replicate 40 7) 12 True 5))"
proof -
  have "unat (12 :: u32) + 16 \<le> length (replicate 40 7 :: u8 list)" "unat (12 :: u32) + 16 < 2 ^ 32"
    by simp_all
  from append_tail_reads_back [OF this, of True 5] show ?thesis by simp
qed

end
