(* ===== verification/Crc32.thy ===== *)
theory Crc32
  imports Prelude
begin

text \<open>
  The CRC of the second packetizer (\<^verbatim>\<open>CCpswCrc32LE\<close>, \<^verbatim>\<open>src/src/cpsw_crc32_le.cc\<close>): a table
  of 256 entries, computed when the program starts, and a loop that handles a byte at a time.
  It computes what a shift register computes bit by bit.
\<close>

definition POLY :: u32 where "POLY = 0xedb88320"

definition LDTSZ :: nat where "LDTSZ = 8"

definition crc_shift :: "u32 \<Rightarrow> u32" where
  "crc_shift c = drop_bit 1 c XOR (if c AND 1 \<noteq> 0 then POLY else 0)"

text \<open>\<^verbatim>\<open>CpswCrc32Tbl\<close>.\<close>

definition crc_entry :: "nat \<Rightarrow> u32" where
  "crc_entry i = (crc_shift ^^ LDTSZ) (of_nat i)"

definition crc_tbl :: "u32 list" where
  "crc_tbl = map crc_entry [0..<2 ^ LDTSZ]"

text \<open>\<^verbatim>\<open>operator()\<close>: the bytes of the buffer.\<close>

fun crc32 :: "u32 \<Rightarrow> u8 list \<Rightarrow> u32" where
  "crc32 crc [] = crc"
| "crc32 crc (b # bs) =
     crc32 (drop_bit 8 crc XOR crc_tbl ! unat (ucast crc XOR b)) bs"

section \<open>The shift register\<close>

text \<open>The reference: the byte is added to the register, which is then shifted eight times.\<close>

fun crc_bits :: "u32 \<Rightarrow> u8 list \<Rightarrow> u32" where
  "crc_bits crc [] = crc"
| "crc_bits crc (b # bs) = crc_bits ((crc_shift ^^ 8) (crc XOR ucast b)) bs"

lemma crc_shift_xor: "crc_shift (a XOR b) = crc_shift a XOR crc_shift b"
proof -
  have one: "(c AND 1 \<noteq> 0) = bit c 0" for c :: u32
    by (simp add: and_one_eq odd_iff_mod_2_eq_one bit_0)
  show ?thesis
    unfolding crc_shift_def one
    by (rule bit_word_eqI) (auto simp: bit_simps)
qed

lemma crc_shifts_xor: "(crc_shift ^^ n) (a XOR b) = (crc_shift ^^ n) a XOR (crc_shift ^^ n) b"
  by (induction n) (simp_all add: crc_shift_xor)

text \<open>A register whose lowest bits are zero is only shifted.\<close>

lemma crc_shifts_zero:
  assumes "take_bit n c = 0" "n \<le> 32"
  shows "(crc_shift ^^ n) c = drop_bit n c"
  using assms
proof (induction n)
  case (Suc n)
  have low: "\<not> bit c k" if "k < Suc n" for k
    using that arg_cong [OF Suc.prems(1), of "\<lambda>w. bit w k"] by (simp add: bit_simps)
  have "take_bit n c = 0" using low by (intro bit_word_eqI) (auto simp: bit_simps)
  then have "(crc_shift ^^ n) c = drop_bit n c" using Suc by simp
  moreover have "\<not> bit (drop_bit n c) 0" using low [of n] by (simp add: bit_simps)
  then have "drop_bit n c AND 1 = 0" by (simp add: and_one_eq bit_0 even_iff_mod_2_eq_zero)
  then have "crc_shift (drop_bit n c) = drop_bit (Suc n) c" by (simp add: crc_shift_def)
  ultimately show ?case by simp
qed simp

lemma crc_tbl_nth: "crc_tbl ! unat (b :: u8) = (crc_shift ^^ 8) (ucast b)"
proof -
  have "unat b < 256" using unat_bound [of b] by simp
  moreover have "(of_nat (unat b) :: u32) = ucast b"
    by (simp add: word_unat_eq_iff unat_of_nat_mod unsigned_ucast_eq take_bit_eq_mod)
  ultimately show ?thesis by (simp add: crc_tbl_def crc_entry_def LDTSZ_def)
qed

lemma drop_push_8: "drop_bit 8 (push_bit 8 (drop_bit 8 c)) = drop_bit 8 (c :: u32)"
proof (rule bit_word_eqI)
  fix n
  show "bit (drop_bit 8 (push_bit 8 (drop_bit 8 c))) n = bit (drop_bit 8 c) n"
    using bit_imp_le_length [of c "8 + n"] by (auto simp: bit_simps)
qed

text \<open>C16: The table driven CRC is the CRC of the shift register.\<close>

theorem crc32_shift_register: "crc32 crc bs = crc_bits crc bs"
proof (induction bs arbitrary: crc)
  case (Cons b bs)
  let ?l = "ucast (ucast crc XOR b :: u8) :: u32" and ?h = "push_bit 8 (drop_bit 8 crc) :: u32"
  have split: "crc XOR ucast b = ?h XOR ?l"
    by (rule bit_word_eqI) (auto simp: bit_simps)
  have "take_bit 8 ?h = 0" by (rule bit_word_eqI) (simp add: bit_simps)
  then have h: "(crc_shift ^^ 8) ?h = drop_bit 8 crc"
    using crc_shifts_zero [of 8 ?h] drop_push_8 by simp
  have "(crc_shift ^^ 8) (crc XOR ucast b) = drop_bit 8 crc XOR crc_tbl ! unat (ucast crc XOR b)"
    unfolding split crc_shifts_xor h crc_tbl_nth ..
  then show ?case using Cons by (simp del: funpow.simps)
qed simp

lemma crc32_append: "crc32 c (xs @ ys) = crc32 (crc32 c xs) ys"
  by (induction xs arbitrary: c) simp_all

end
