(* ===== verification/Depack.thy ===== *)
theory Depack
  imports PackHeader Buf Timeout
begin

text \<open>
  The depacketizer of \<^verbatim>\<open>src/src/cpsw_proto_mod_depack.cc\<close>, version 0: two nested windows
  put fragments that arrive in any order together. A slot of the frame window holds a frame
  (\<open>CFrame\<close>) with the window of its fragments. The thread (\<^verbatim>\<open>threadBody\<close>) is the step
  \<open>dk_round\<close> from one \<^verbatim>\<open>pop\<close> to the next; its argument is the chain popped or \<open>None\<close> when the
  oldest frame timed out. What is pushed downstream is appended to \<open>dk_out\<close>.
\<close>

section \<open>State\<close>

definition NO_FRAME :: u32 where "NO_FRAME = push_bit 24 1"
definition NO_FRAG :: u32 where "NO_FRAG = - 2"

record cframe =
  fr_prod :: "chain option"
  fr_nFrags :: u32
  fr_frameID :: u32
  fr_oldestFrag :: u32
  fr_lastFrag :: u32
  fr_timeout :: timeout
  fr_fragWin :: "chain option list"
  fr_isComplete :: bool
  fr_running :: bool

definition cframe_new :: "nat \<Rightarrow> cframe" where
  "cframe_new winSize = \<lparr>fr_prod = None, fr_nFrags = 0, fr_frameID = NO_FRAME, fr_oldestFrag = 0,
     fr_lastFrag = NO_FRAG, fr_timeout = Timeout 0 0, fr_fragWin = replicate winSize None,
     fr_isComplete = False, fr_running = False\<rparr>"

record drops =
  badHeaderDrops :: u32
  oldFrameDrops :: u32
  newFrameDrops :: u32
  oldFragDrops :: u32
  newFragDrops :: u32
  duplicateFragDrops :: u32
  duplicateLastSeen :: u32
  noLastSeen :: u32
  fragsAccepted :: u32
  framesAccepted :: u32
  oqueueFullDrops :: u32
  evictedFrames :: u32
  incompleteDrops :: u32
  emptyDrops :: u32
  timedOutFrames :: u32
  pastLastDrops :: u32

text \<open>\<open>dk_now\<close> is the real time clock, \<open>dk_isOpen\<close> whether the downstream port is open and
  \<open>dk_queueUp\<close> whether its queue takes the chain (the push waits until there is room; it
  fails when the queue is shut down). \<open>dk_upMTU\<close> is the MTU of the upstream door.\<close>

record depack = drops +
  dk_cachedMTU :: u32
  dk_timeout :: timeout
  dk_frameNo :: u32
  dk_frameWinSize :: u32
  dk_fragWinSize :: u32
  dk_oldestFrame :: u32
  dk_frameWin :: "cframe list"
  dk_now :: timeout
  dk_isOpen :: bool
  dk_queueUp :: bool
  dk_upMTU :: u32
  dk_out :: "chain list"

definition depack_new :: "nat \<Rightarrow> nat \<Rightarrow> timeout \<Rightarrow> timeout \<Rightarrow> bool \<Rightarrow> u32 \<Rightarrow> depack" where
  "depack_new ldFrameWinSize ldFragWinSize tmo now isOpen upMTU =
     \<lparr>badHeaderDrops = 0, oldFrameDrops = 0, newFrameDrops = 0, oldFragDrops = 0, newFragDrops = 0,
      duplicateFragDrops = 0, duplicateLastSeen = 0, noLastSeen = 0, fragsAccepted = 0,
      framesAccepted = 0, oqueueFullDrops = 0, evictedFrames = 0, incompleteDrops = 0,
      emptyDrops = 0, timedOutFrames = 0, pastLastDrops = 0,
      dk_cachedMTU = 0, dk_timeout = tmo, dk_frameNo = 0,
      dk_frameWinSize = push_bit ldFrameWinSize 1, dk_fragWinSize = push_bit ldFragWinSize 1,
      dk_oldestFrame = NO_FRAME,
      dk_frameWin = replicate (2 ^ ldFrameWinSize) (cframe_new (2 ^ ldFragWinSize)),
      dk_now = now, dk_isOpen = isOpen, dk_queueUp = True, dk_upMTU = upMTU, dk_out = []\<rparr>"

definition toFrameIdx :: "depack \<Rightarrow> u32 \<Rightarrow> nat" where
  "toFrameIdx d frameNo = unat (frameNo AND (dk_frameWinSize d - 1))"

definition toFragIdx :: "depack \<Rightarrow> u32 \<Rightarrow> nat" where
  "toFragIdx d fragNo = unat (fragNo AND (dk_fragWinSize d - 1))"

definition dk_frame :: "nat \<Rightarrow> depack \<Rightarrow> cframe" where
  "dk_frame k d = dk_frameWin d ! k"

definition dk_setFrame :: "nat \<Rightarrow> cframe \<Rightarrow> depack \<Rightarrow> depack" where
  "dk_setFrame k f d = d\<lparr>dk_frameWin := (dk_frameWin d)[k := f]\<rparr>"

section \<open>Frames\<close>

definition fr_release :: "cframe \<Rightarrow> cframe" where
  "fr_release f = f\<lparr>fr_prod := None, fr_fragWin := replicate (length (fr_fragWin f)) None,
     fr_nFrags := 0, fr_frameID := NO_FRAME, fr_lastFrag := NO_FRAG, fr_oldestFrag := 0,
     fr_isComplete := False, fr_running := False\<rparr>"

text \<open>The loop of \<^verbatim>\<open>updateChain\<close>: the chain in the oldest slot is moved to the end of the
  product. Every round empties a slot, so that as many rounds as there are slots, and one to
  see the empty one, are enough.\<close>

fun updateChain_loop :: "nat \<Rightarrow> (cframe, unit) sem" where
  "updateChain_loop 0 = raise Diverges"
| "updateChain_loop (Suc n) = reading id (\<lambda>f.
     let idx = unat (fr_oldestFrag f AND (of_nat (length (fr_fragWin f)) - 1)) in
     case fr_fragWin f ! idx of
       None \<Rightarrow> ret ()
     | Some c \<Rightarrow> (case fr_prod f of
         None \<Rightarrow> raise (Undefined ''null chain'')
       | Some p \<Rightarrow> andThen (upd (\<lambda>f. f\<lparr>fr_prod := Some (p @ c), fr_nFrags := fr_nFrags f + 1,
             fr_fragWin := (fr_fragWin f)[idx := None], fr_oldestFrag := fr_oldestFrag f + 1\<rparr>))
           (updateChain_loop n)))"

definition updateChain :: "(cframe, unit) sem" where
  "updateChain = reading id (\<lambda>f. seqs [
     updateChain_loop (Suc (length (fr_fragWin f))),
     cond (\<lambda>f. fr_nFrags f = fr_lastFrag f + 1 \<or> FRAG_MAX = fr_nFrags f)
       (upd (\<lambda>f. f\<lparr>fr_isComplete := True\<rparr>)) (ret ())])"

definition startTimeout :: "nat \<Rightarrow> depack \<Rightarrow> depack" where
  "startTimeout k d = (let f = dk_frame k d in
     if fr_running f then d
     else dk_setFrame k (f\<lparr>fr_timeout := to_add (dk_now d) (dk_timeout d), fr_running := True\<rparr>) d)"

section \<open>Releasing frames\<close>

definition pushDown :: "chain \<Rightarrow> (depack, bool) sem" where
  "pushDown c = reading id (\<lambda>d.
     if \<not> dk_isOpen d then ret True
     else if dk_queueUp d then andThen (upd (\<lambda>d. d\<lparr>dk_out := dk_out d @ [c]\<rparr>)) (ret True)
     else ret False)"

definition releaseOldestFrame :: "bool \<Rightarrow> (depack, bool) sem" where
  "releaseOldestFrame onlyComplete = reading id (\<lambda>d.
     if NO_FRAME = dk_oldestFrame d then ret False
     else let frameIdx = unat (dk_oldestFrame d AND (dk_frameWinSize d - 1));
              frame = dk_frame frameIdx d in
       if (onlyComplete \<and> \<not> fr_isComplete frame) \<or> \<not> fr_running frame then ret False
       else andThen (upd (dk_setFrame frameIdx (fr_release frame)))
        (andThen
          (if fr_isComplete frame then
             (case fr_prod frame of
                None \<Rightarrow> raise (Undefined ''null chain'')
              | Some c \<Rightarrow> bnd (pushDown c) (\<lambda>ok.
                  if \<not> ok then upd (\<lambda>d. d\<lparr>oqueueFullDrops := oqueueFullDrops d + 1\<rparr>)
                  else upd (\<lambda>d. d\<lparr>fragsAccepted := fragsAccepted d + of_nat (c_len c),
                                   framesAccepted := framesAccepted d + 1\<rparr>)))
           else if fr_prod frame \<noteq> None then upd (\<lambda>d. d\<lparr>incompleteDrops := incompleteDrops d + 1\<rparr>)
           else upd (\<lambda>d. d\<lparr>emptyDrops := emptyDrops d + 1\<rparr>))
        (andThen (upd (\<lambda>d. d\<lparr>dk_oldestFrame := moduloFrameSz (dk_oldestFrame d + 1)\<rparr>)) (ret True))))"

text \<open>Every frame released was running and is not any more: as many rounds as there are slots,
  and one, are enough.\<close>

fun releaseFrames_loop :: "nat \<Rightarrow> bool \<Rightarrow> (depack, unit) sem" where
  "releaseFrames_loop 0 oc = raise Diverges"
| "releaseFrames_loop (Suc n) oc =
     bnd (releaseOldestFrame oc) (\<lambda>more. if more then releaseFrames_loop n oc else ret ())"

definition releaseFrames :: "bool \<Rightarrow> (depack, unit) sem" where
  "releaseFrames oc = reading id (\<lambda>d. releaseFrames_loop (Suc (length (dk_frameWin d))) oc)"

text \<open>\<^verbatim>\<open>abs\<close> of an \<^verbatim>\<open>int\<close>, compared to an \<^verbatim>\<open>unsigned\<close>.\<close>

definition frameSync :: "axis_hdr \<Rightarrow> (depack, unit) sem" where
  "frameSync hdr = cond (\<lambda>d. dk_frameWinSize d
       < word_of_int (abs (signExtendFrameNo (ax_frameNo hdr - dk_oldestFrame d))))
     (andThen (releaseFrames False)
        (upd (\<lambda>d. d\<lparr>dk_oldestFrame := moduloFrameSz (ax_frameNo hdr + 1)\<rparr>)))
     (ret ())"

section \<open>Receiving\<close>

text \<open>The head and the tail buffer of a chain that is not empty.\<close>

definition on_head :: "(buf, 'a) sem \<Rightarrow> (chain, 'a) sem" where
  "on_head m = zoom hd (\<lambda>b c. b # tl c) m"

definition on_tail :: "(buf, 'a) sem \<Rightarrow> (chain, 'a) sem" where
  "on_tail m = zoom last (\<lambda>b c. butlast c @ [b]) m"

text \<open>The chain in slot \<open>j\<close> of frame \<open>k\<close>.\<close>

definition on_slot :: "nat \<Rightarrow> nat \<Rightarrow> (chain, 'a) sem \<Rightarrow> (depack, 'a) sem" where
  "on_slot k j m = zoom (\<lambda>d. the (fr_fragWin (dk_frame k d) ! j))
     (\<lambda>c d. dk_setFrame k ((dk_frame k d)\<lparr>fr_fragWin := (fr_fragWin (dk_frame k d))[j := Some c]\<rparr>) d) m"

text \<open>The bytes from the tail on: \<^verbatim>\<open>getPayload() + getSize() - getTailSize()\<close> is \<^verbatim>\<open>end_\<close>
  less the size of the tail.\<close>

definition b_tail :: "buf \<Rightarrow> (exn + u8 list)" where
  "b_tail b = (if b_end b < ly_tailSize AXIS \<or> b_capa b < b_end b then Inl (Undefined ''tail outside of the buffer'')
     else Inr (drop (b_end b - ly_tailSize AXIS) (b_data b)))"

definition pb_eof :: "axis_hdr \<Rightarrow> nat \<Rightarrow> bool \<Rightarrow> depack \<Rightarrow> depack" where
  "pb_eof hdr k eof d =
     (if eof \<or> FRAG_MAX = ph_fragNo hdr then
        (if NO_FRAG \<noteq> fr_lastFrag (dk_frame k d)
         then d\<lparr>duplicateLastSeen := duplicateLastSeen d + 1\<rparr>
         else let d' = dk_setFrame k ((dk_frame k d)\<lparr>fr_lastFrag := ph_fragNo hdr\<rparr>) d in
           if FRAG_MAX = ph_fragNo hdr then d'\<lparr>noLastSeen := noLastSeen d' + 1\<rparr> else d')
      else d)"

text \<open>A new fragment: into the window, header and tail off unless they are the frame's own.\<close>

definition pb_store :: "axis_hdr \<Rightarrow> chain \<Rightarrow> nat \<Rightarrow> nat \<Rightarrow> (depack, unit) sem" where
  "pb_store hdr bc k j = seqs [
     upd (\<lambda>d. dk_setFrame k ((dk_frame k d)\<lparr>fr_fragWin := (fr_fragWin (dk_frame k d))[j := Some bc]\<rparr>) d),
     bnd (liftR (b_tail (last bc))) (\<lambda>t. upd (pb_eof hdr k (parseTailEOF AXIS t))),
     (if ph_fragNo hdr \<noteq> 0
      then on_slot k j (on_head (reading b_beg (\<lambda>q. b_setPayload (Some (int q + int HEADER_SIZE)))))
      else ret ()),
     cond (\<lambda>d. ph_fragNo hdr \<noteq> fr_lastFrag (dk_frame k d))
       (on_slot k j (on_tail (reading b_size (\<lambda>n.
          b_setSize (nat ((int n - int (ly_tailSize AXIS)) mod 2 ^ 64))))))
       (ret ()),
     zoom (dk_frame k) (dk_setFrame k) updateChain]"

text \<open>The loop that starts the timeouts of the older frames in the window.\<close>

fun startTimeouts :: "nat \<Rightarrow> u32 \<Rightarrow> nat \<Rightarrow> (depack, unit) sem" where
  "startTimeouts 0 idx frameIdx = raise Diverges"
| "startTimeouts (Suc n) idx frameIdx =
     (if unat idx \<noteq> frameIdx
      then andThen (upd (startTimeout (unat idx)))
        (reading (\<lambda>d. of_nat (toFrameIdx d (idx + 1))) (\<lambda>i. startTimeouts n i frameIdx))
      else ret ())"

definition pb_frag :: "axis_hdr \<Rightarrow> chain \<Rightarrow> (depack, unit) sem" where
  "pb_frag hdr bc = reading id (\<lambda>d.
     let k = toFrameIdx d (ax_frameNo hdr); j = toFragIdx d (ph_fragNo hdr); frame = dk_frame k d in
     if ph_fragNo hdr < fr_oldestFrag frame then upd (\<lambda>d. d\<lparr>oldFragDrops := oldFragDrops d + 1\<rparr>)
     else if fr_oldestFrag frame + dk_fragWinSize d \<le> ph_fragNo hdr
     then upd (\<lambda>d. d\<lparr>newFragDrops := newFragDrops d + 1\<rparr>)
     else if NO_FRAME = fr_frameID frame then
       seqs [upd (dk_setFrame k (frame\<lparr>fr_prod := Some [], fr_frameID := ax_frameNo hdr\<rparr>)),
             startTimeouts (Suc (length (dk_frameWin d))) (of_nat (toFrameIdx d (dk_oldestFrame d))) k,
             upd (startTimeout k),
             pb_store hdr bc k j]
     else if fr_frameID frame \<noteq> ax_frameNo hdr
     then raise (InternalError ''Frame ID window inconsistency!'')
     else if fr_fragWin frame ! j \<noteq> None
     then upd (\<lambda>d. d\<lparr>duplicateFragDrops := duplicateFragDrops d + 1\<rparr>)
     else if NO_FRAG \<noteq> fr_lastFrag frame \<and> fr_lastFrag frame < ph_fragNo hdr
     then upd (\<lambda>d. d\<lparr>pastLastDrops := pastLastDrops d + 1\<rparr>)
     else pb_store hdr bc k j)"

definition pb_frame :: "axis_hdr \<Rightarrow> chain \<Rightarrow> (depack, unit) sem" where
  "pb_frame hdr bc = reading id (\<lambda>d.
     let relOff = moduloFrameSz (ax_frameNo hdr - dk_oldestFrame d) in
     if dk_frameWinSize d \<le> relOff then
       (if relOff = dk_frameWinSize d then
          andThen (upd (\<lambda>d. d\<lparr>evictedFrames := evictedFrames d + 1\<rparr>))
           (bnd (releaseOldestFrame False) (\<lambda>_. pb_frag hdr bc))
        else andThen (upd (\<lambda>d. d\<lparr>newFrameDrops := newFrameDrops d + 1\<rparr>)) (frameSync hdr))
     else pb_frag hdr bc)"

definition processBuffer :: "chain \<Rightarrow> (depack, unit) sem" where
  "processBuffer bc = (case bc of
     [] \<Rightarrow> raise (Undefined ''null head'')
   | bh # _ \<Rightarrow> (case axis_parse (b_view bh) (b_size bh) (axis_new 0 0 0) of
       (False, _) \<Rightarrow> upd (\<lambda>d. d\<lparr>badHeaderDrops := badHeaderDrops d + 1\<rparr>)
     | (True, hdr) \<Rightarrow> reading dk_oldestFrame (\<lambda>oldest.
         if ax_frameNo hdr < oldest then
           (if NO_FRAME = oldest \<and> 0 = ph_fragNo hdr
            then andThen (upd (\<lambda>d. d\<lparr>dk_oldestFrame := ax_frameNo hdr\<rparr>)) (pb_frame hdr bc)
            else andThen (upd (\<lambda>d. d\<lparr>oldFrameDrops := oldFrameDrops d + 1\<rparr>)) (frameSync hdr))
         else pb_frame hdr bc)))"

section \<open>The thread\<close>

text \<open>How long the thread waits: until the oldest frame times out, if it is running.\<close>

definition dk_waits :: "depack \<Rightarrow> timeout option" where
  "dk_waits d =
     (if NO_FRAME = dk_oldestFrame d then None
      else let frame = dk_frame (toFrameIdx d (dk_oldestFrame d)) d in
        if fr_running frame then Some (fr_timeout frame) else None)"

definition dk_round :: "chain option \<Rightarrow> (depack, unit) sem" where
  "dk_round bufch = (case bufch of
     None \<Rightarrow> bnd (releaseOldestFrame False) (\<lambda>_. seqs [
       upd (\<lambda>d. d\<lparr>timedOutFrames := timedOutFrames d + 1\<rparr>),
       releaseFrames True])
   | Some bc \<Rightarrow> andThen (processBuffer bc) (releaseFrames True))"

end
