(* ===== verification/DepackInv.thy ===== *)
theory DepackInv
  imports Depack
begin

text \<open>
  What the depacketizer hands down, when the fragments that arrive, in any order, with any of
  them lost or repeated, are those of a fixed family: only whole frames.
\<close>

section \<open>Taking a fragment's header and tail off\<close>

definition strip_head :: "buf \<Rightarrow> buf" where "strip_head b = b\<lparr>b_beg := b_beg b + 8\<rparr>"
definition strip_tail :: "buf \<Rightarrow> buf" where "strip_tail b = b\<lparr>b_end := b_end b - 1\<rparr>"

definition strip :: "nat \<Rightarrow> nat \<Rightarrow> chain \<Rightarrow> chain" where
  "strip l k c = (let c1 = (if k \<noteq> 0 then strip_head (hd c) # tl c else c)
     in if k \<noteq> l then butlast c1 @ [strip_tail (last c1)] else c1)"

text \<open>A packet with fragment \<open>k\<close> of frame \<open>f\<close>, \<open>eof\<close> if it is the last.\<close>

definition pkt_ok :: "u32 \<Rightarrow> nat \<Rightarrow> bool \<Rightarrow> chain \<Rightarrow> bool" where
  "pkt_ok f k eof c \<longleftrightarrow> c \<noteq> [] \<and> c_ok c \<and> 8 \<le> b_size (hd c) \<and> 1 \<le> b_size (last c)
     \<and> (length c = 1 \<longrightarrow> 9 \<le> b_size (hd c))
     \<and> (case axis_parse (b_view (hd c)) (b_size (hd c)) (axis_new 0 0 0) of
          (ok, h) \<Rightarrow> ok \<and> ax_frameNo h = f \<and> ph_fragNo h = of_nat k)
     \<and> parseTailEOF AXIS (drop (b_end (last c) - 1) (b_data (last c))) = eof"

text \<open>\<open>pkt f k\<close> is fragment \<open>k\<close> of frame \<open>f\<close>, whose last one is \<open>lst f\<close>.\<close>

definition sent_frag :: "(u32 \<Rightarrow> nat \<Rightarrow> chain) \<Rightarrow> (u32 \<Rightarrow> nat) \<Rightarrow> u32 \<Rightarrow> nat \<Rightarrow> bool" where
  "sent_frag pkt lst f k \<longleftrightarrow> unat f < 4096 \<and> lst f < 2 ^ 24 - 1 \<and> k \<le> lst f \<and> pkt_ok f k (k = lst f) (pkt f k)"

definition whole :: "(u32 \<Rightarrow> nat \<Rightarrow> chain) \<Rightarrow> (u32 \<Rightarrow> nat) \<Rightarrow> u32 \<Rightarrow> nat \<Rightarrow> chain" where
  "whole pkt lst f n = concat (map (\<lambda>k. strip (lst f) k (pkt f k)) [0..<n])"

lemma c_ok_hd: "c_ok c \<Longrightarrow> c \<noteq> [] \<Longrightarrow> b_ok (hd c)" by (cases c) simp_all

lemma c_ok_last: "c_ok c \<Longrightarrow> c \<noteq> [] \<Longrightarrow> b_ok (last c)" by (simp add: c_ok_def)

lemma on_head_strip:
  assumes "c_ok c" "c \<noteq> []" "8 \<le> b_size (hd c)"
  shows "on_head (reading b_beg (\<lambda>q. b_setPayload (Some (int q + int HEADER_SIZE)))) c = (Inr (), strip_head (hd c) # tl c)"
proof -
  have "b_ok (hd c)" using assms by (simp add: c_ok_hd)
  then have "\<not> int (b_capa (hd c)) < int (b_beg (hd c)) + 8" "max (b_beg (hd c) + 8) (b_end (hd c)) = b_end (hd c)"
    using assms(3) by (auto simp: b_ok_def b_size_def split: if_splits)
  then show ?thesis
    by (simp add: on_head_def zoom_def b_setPayload_def sem_app strip_head_def HEADER_SIZE_def nat_add_distrib)
qed

lemma on_tail_strip:
  assumes "b_ok (last c)" "1 \<le> b_size (last c)"
  shows "on_tail (reading b_size (\<lambda>n. b_setSize (nat ((int n - int (ly_tailSize AXIS)) mod 2 ^ 64)))) c
     = (Inr (), butlast c @ [strip_tail (last c)])"
proof -
  let ?b = "last c"
  have sz: "b_size ?b = b_end ?b - b_beg ?b" "b_beg ?b < b_end ?b" "b_end ?b \<le> b_capa ?b" "b_capa ?b \<le> 65535"
    using assms by (auto simp: b_ok_def b_size_def split: if_splits)
  then have "nat ((int (b_size ?b) - 1) mod 2 ^ 64) = b_size ?b - 1" by simp
  moreover have "(b_beg ?b + (b_size ?b - 1)) mod 2 ^ 32 = b_end ?b - 1" using sz by simp
  moreover have "\<not> b_capa ?b < b_end ?b - 1" using sz by simp
  ultimately show ?thesis
    by (simp add: on_tail_def zoom_def b_setSize_def sem_app strip_tail_def AXIS_def)
qed

lemma strip_ne: "c \<noteq> [] \<Longrightarrow> strip l k c \<noteq> []" by (simp add: strip_def Let_def)

lemma payload_strip_head: "b_ok b \<Longrightarrow> 8 \<le> b_size b \<Longrightarrow> b_payload (strip_head b) = drop 8 (b_payload b)"
  by (auto simp: b_payload_def b_view_def strip_head_def b_size_def b_ok_def drop_take add.commute split: if_splits)

lemma payload_strip_tail: "b_ok b \<Longrightarrow> 1 \<le> b_size b \<Longrightarrow> b_payload (strip_tail b) = butlast (b_payload b)"
  by (auto simp: b_payload_def b_view_def strip_tail_def b_size_def b_ok_def butlast_take b_capa_def split: if_splits)

lemma ok_strip_head: "b_ok b \<Longrightarrow> 8 \<le> b_size b \<Longrightarrow> b_ok (strip_head b)"
  by (auto simp: strip_head_def b_size_def b_ok_def b_capa_def split: if_splits)

lemma head_off_last:
  assumes "pkt_ok f k eof c"
  shows "b_ok (last (if n \<noteq> (0 :: nat) then strip_head (hd c) # tl c else c))
    \<and> 1 \<le> b_size (last (if n \<noteq> 0 then strip_head (hd c) # tl c else c))"
proof -
  have p: "c \<noteq> []" "c_ok c" "8 \<le> b_size (hd c)" "1 \<le> b_size (last c)" "length c = 1 \<longrightarrow> 9 \<le> b_size (hd c)"
    using assms by (auto simp: pkt_ok_def)
  obtain b r where c: "c = b # r" using p(1) by (cases c) auto
  have b: "b_ok b" "8 \<le> b_size b" using p c by auto
  show ?thesis
  proof (cases "r = []")
    case True
    then show ?thesis
      using p c b ok_strip_head [OF b] by (auto simp: strip_head_def b_size_def b_ok_def split: if_splits)
  next
    case False
    then show ?thesis using p c c_ok_last [OF p(2,1)] by auto
  qed
qed

text \<open>The bytes that are left.\<close>

lemma strip_bytes:
  assumes "pkt_ok f k eof c"
  shows "c_bytes (strip l k c) = (if k \<noteq> l then butlast else id) (drop (if k \<noteq> 0 then 8 else 0) (c_bytes c))"
proof -
  have p: "c \<noteq> []" "c_ok c" "8 \<le> b_size (hd c)" "1 \<le> b_size (last c)" "length c = 1 \<longrightarrow> 9 \<le> b_size (hd c)"
    using assms by (auto simp: pkt_ok_def)
  define c1 where "c1 = (if k \<noteq> 0 then strip_head (hd c) # tl c else c)"
  obtain b r where c: "c = b # r" using p(1) by (cases c) auto
  have b: "b_ok b" "8 \<le> b_size b" using p c by auto
  have "8 \<le> length (b_payload b)" using b by simp
  then have bytes: "c_bytes c1 = drop (if k \<noteq> 0 then 8 else 0) (c_bytes c)"
    using b by (simp add: c c1_def payload_strip_head)
  have last: "b_ok (last c1) \<and> 1 \<le> b_size (last c1)"
    unfolding c1_def by (rule head_off_last [OF assms])
  have ne: "c1 \<noteq> []" using p(1) by (simp add: c1_def)
  have "c_bytes (butlast c1 @ [strip_tail (last c1)]) = butlast (c_bytes c1)"
  proof -
    have "c_bytes c1 = c_bytes (butlast c1 @ [last c1])" using ne by simp
    moreover have "b_payload (last c1) \<noteq> []"
    proof
      assume "b_payload (last c1) = []"
      then have "length (b_payload (last c1)) = 0" by (rule arg_cong [where f = length, THEN trans]) simp
      moreover have "length (b_payload (last c1)) = b_size (last c1)" using last by (intro length_payload) simp
      ultimately show False using last by linarith
    qed
    ultimately show ?thesis using last by (simp add: payload_strip_tail butlast_append del: append_butlast_last_id)
  qed
  moreover have "strip l k c = (if k \<noteq> l then butlast c1 @ [strip_tail (last c1)] else c1)"
    by (simp add: strip_def c1_def Let_def)
  ultimately show ?thesis using bytes by simp
qed

section \<open>A frame that is being put together\<close>

text \<open>The first \<open>m\<close> fragments of frame \<open>f\<close> are in the product; of the others those in \<open>R\<close> are in the
  window.\<close>

definition frame_at :: "(u32 \<Rightarrow> nat \<Rightarrow> chain) \<Rightarrow> (u32 \<Rightarrow> nat) \<Rightarrow> nat \<Rightarrow> u32 \<Rightarrow> nat set \<Rightarrow> nat \<Rightarrow> cframe \<Rightarrow> bool" where
  "frame_at pkt lst W f R m fr \<longleftrightarrow> fr_frameID fr = f \<and> R \<subseteq> {..lst f} \<and> (\<forall>k < m. k \<in> R)
     \<and> fr_prod fr = Some (whole pkt lst f m) \<and> fr_nFrags fr = of_nat m \<and> fr_oldestFrag fr = of_nat m
     \<and> fr_lastFrag fr = (if lst f \<in> R then of_nat (lst f) else NO_FRAG)
     \<and> length (fr_fragWin fr) = W
     \<and> (\<forall>k \<ge> m. k < m + W \<longrightarrow> fr_fragWin fr ! (k mod W) = (if k \<in> R then Some (strip (lst f) k (pkt f k)) else None))"

lemma and_mask_mod: "unat ((of_nat k :: u32) AND (of_nat (2 ^ b) - 1)) = k mod 2 ^ b" if "b < 32" "k < 2 ^ 32"
  using that by (simp add: unat_and_mask unat_of_nat_mod)

lemma updateChain_loop_spec:
  assumes "frame_at pkt lst W f R m fr" "W = 2 ^ b" "b < 24" "\<forall>k \<in> R. k < m + W" "lst f < 2 ^ 24" "m' \<notin> R"
    "\<forall>k < m'. k \<in> R" "m \<le> m'" "m' - m < n"
  shows "\<exists>fr'. updateChain_loop n fr = (Inr (), fr') \<and> frame_at pkt lst W f R m' fr'
    \<and> fr_isComplete fr' = fr_isComplete fr \<and> fr_running fr' = fr_running fr \<and> fr_timeout fr' = fr_timeout fr"
  using assms
proof (induction n arbitrary: m fr)
  case (Suc n)
  note f = Suc.prems(1) [unfolded frame_at_def]
  have W: "0 < W" using Suc.prems(2) by simp
  have m: "m < 2 ^ 32"
  proof (cases m)
    case (Suc m0)
    then have "m0 \<in> R" using f by simp
    then have "m0 \<le> lst f" using f by auto
    then show ?thesis using Suc Suc.prems(5) by simp
  qed simp
  have idx: "unat (fr_oldestFrag fr AND (of_nat (length (fr_fragWin fr)) - 1)) = m mod W"
    using f Suc.prems(2,3) m and_mask_mod [of b m] by simp
  have slot: "fr_fragWin fr ! (m mod W) = (if m \<in> R then Some (strip (lst f) m (pkt f m)) else None)"
    using f W by simp
  show ?case
  proof (cases "m \<in> R")
    case False
    then have "m = m'" using Suc.prems(7,8) le_neq_implies_less by blast
    with False slot idx Suc.prems(1) show ?thesis by (simp add: sem_app Let_def)
  next
    case True
    let ?fr = "fr\<lparr>fr_prod := Some (whole pkt lst f m @ strip (lst f) m (pkt f m)), fr_nFrags := fr_nFrags fr + 1,
       fr_fragWin := (fr_fragWin fr)[m mod W := None], fr_oldestFrag := fr_oldestFrag fr + 1\<rparr>"
    have lt: "m < m'" using True Suc.prems(6,8) le_neq_implies_less by blast
    have win: "fr_fragWin ?fr ! (k mod W) = (if k \<in> R then Some (strip (lst f) k (pkt f k)) else None)"
      if "m + 1 \<le> k" "k < m + 1 + W" for k
    proof (cases "k = m + W")
      case True
      then have "k \<notin> R" using Suc.prems(4) by auto
      then show ?thesis using True f W by simp
    next
      case False
      then have k: "m \<le> k" "k < m + W" "k \<noteq> m" using that by auto
      have "k mod W \<noteq> m mod W"
      proof
        assume "k mod W = m mod W"
        then have "(m + (k - m)) mod W = (m + 0) mod W" using k(1) by simp
        moreover have "k - m < W" using k(1,2) by linarith
        ultimately have "k - m = 0" using W by (rule mod_inj_window)
        then show False using k by simp
      qed
      then show ?thesis using f k by simp
    qed
    have "frame_at pkt lst W f R (m + 1) ?fr"
      unfolding frame_at_def using f True win by (auto simp: whole_def less_Suc_eq)
    moreover have n: "m' - (m + 1) < n" using Suc.prems(9) lt by linarith
    moreover have "\<forall>k \<in> R. k < m + 1 + W" using Suc.prems(4) by auto
    ultimately obtain fr' where "updateChain_loop n ?fr = (Inr (), fr')" "frame_at pkt lst W f R m' fr'"
      "fr_isComplete fr' = fr_isComplete fr" "fr_running fr' = fr_running fr" "fr_timeout fr' = fr_timeout fr"
      using Suc.IH [of "m + 1" ?fr] Suc.prems lt n by auto
    moreover have "updateChain_loop (Suc n) fr = updateChain_loop n ?fr"
      using idx slot True f by (simp add: sem_app Let_def)
    ultimately show ?thesis by auto
  qed
qed simp

lemma of_nat_32_inj: "m < 2 ^ 32 \<Longrightarrow> n < 2 ^ 32 \<Longrightarrow> (of_nat m :: u32) = of_nat n \<longleftrightarrow> m = n"
  by (simp add: word_of_nat_eq_iff take_bit_nat_eq_self)

lemma small_frag:
  assumes "n < 2 ^ 24 - 1"
  shows "(of_nat n :: u32) \<noteq> FRAG_MAX \<and> (of_nat n :: u32) \<noteq> NO_FRAG \<and> ((of_nat n :: u32) = 0 \<longleftrightarrow> n = 0)"
proof -
  have "(of_nat n :: u32) = of_nat (2 ^ 24 - 1) \<longleftrightarrow> n = 2 ^ 24 - 1"
    "(of_nat n :: u32) = of_nat (2 ^ 32 - 2) \<longleftrightarrow> n = 2 ^ 32 - 2"
    "(of_nat n :: u32) = of_nat 0 \<longleftrightarrow> n = 0"
    by (rule of_nat_32_inj; use assms in simp)+
  moreover have "NO_FRAG = 4294967294" by (simp add: NO_FRAG_def)
  ultimately show ?thesis using assms by (simp add: FRAG_MAX_def push_bit_of_1)
qed

text \<open>Whether fragment \<open>k\<close> has been received is all that matters.\<close>

definition frame_rep :: "(u32 \<Rightarrow> nat \<Rightarrow> chain) \<Rightarrow> (u32 \<Rightarrow> nat) \<Rightarrow> nat \<Rightarrow> u32 \<Rightarrow> nat set \<Rightarrow> cframe \<Rightarrow> bool" where
  "frame_rep pkt lst W f R fr \<longleftrightarrow> (\<exists>m. frame_at pkt lst W f R m fr \<and> m \<notin> R \<and> (\<forall>k \<in> R. k < m + W)
     \<and> (fr_isComplete fr \<longleftrightarrow> R = {..lst f}))"

lemma first_missing: "R \<subseteq> {..l :: nat} \<Longrightarrow> \<exists>m. m \<notin> R \<and> (\<forall>k < m. k \<in> R) \<and> m \<le> l + 1"
proof -
  assume R: "R \<subseteq> {..l}"
  then have "l + 1 \<notin> R" by auto
  then have "(LEAST m. m \<notin> R) \<notin> R \<and> (LEAST m. m \<notin> R) \<le> l + 1" by (metis LeastI Least_le)
  moreover have "k \<in> R" if "k < (LEAST m. m \<notin> R)" for k using not_less_Least [OF that] by simp
  ultimately show ?thesis by blast
qed

lemma updateChain_spec:
  assumes "frame_at pkt lst W f R m fr" "W = 2 ^ b" "b < 24" "\<forall>k \<in> R. k < m + W" "lst f < 2 ^ 24 - 1"
    "\<not> fr_isComplete fr" "R \<noteq> {}"
  shows "\<exists>fr'. updateChain fr = (Inr (), fr') \<and> frame_rep pkt lst W f R fr' \<and> fr_running fr' = fr_running fr"
proof -
  note f = assms(1) [unfolded frame_at_def]
  obtain m' where m': "m' \<notin> R" "\<forall>k < m'. k \<in> R" "m' \<le> lst f + 1" using first_missing [of R "lst f"] f by auto
  have le: "m \<le> m'" using f m'(1) by (meson not_le)
  have "m' \<le> m + W"
  proof (rule ccontr)
    assume "\<not> m' \<le> m + W"
    then have "m + W \<in> R" using m'(2) by simp
    then show False using assms(4) by auto
  qed
  then have n: "m' - m < Suc (length (fr_fragWin fr))" using f le by auto
  have l: "lst f < 2 ^ 24" using assms(5) by simp
  obtain fr' where fr': "updateChain_loop (Suc (length (fr_fragWin fr))) fr = (Inr (), fr')"
    "frame_at pkt lst W f R m' fr'" "fr_isComplete fr' = fr_isComplete fr" "fr_running fr' = fr_running fr"
    using updateChain_loop_spec [OF assms(1,2,3,4) l m'(1,2) le n] by auto
  note f' = fr'(2) [unfolded frame_at_def]
  have full: "R = {..lst f} \<longleftrightarrow> m' = lst f + 1"
  proof
    assume "R = {..lst f}"
    then show "m' = lst f + 1" using m'(1,3) by auto
  next
    assume "m' = lst f + 1"
    then show "R = {..lst f}" using m'(2) f by auto
  qed
  have cmpl: "(fr_nFrags fr' = fr_lastFrag fr' + 1 \<or> FRAG_MAX = fr_nFrags fr') \<longleftrightarrow> R = {..lst f}"
  proof -
    have s: "m' < 2 ^ 24" using m'(3) assms(5) by simp
    have fm: "FRAG_MAX = of_nat (2 ^ 24 - 1)" by (simp add: FRAG_MAX_def push_bit_of_1)
    have nf: "NO_FRAG + 1 = of_nat (2 ^ 32 - 1)" by (simp add: NO_FRAG_def)
    have "FRAG_MAX = fr_nFrags fr' \<longleftrightarrow> m' = 2 ^ 24 - 1"
      unfolding fm using f' s by (subst eq_commute) (simp add: of_nat_32_inj del: of_nat_numeral)
    moreover have "fr_nFrags fr' = fr_lastFrag fr' + 1 \<longleftrightarrow> lst f \<in> R \<and> m' = lst f + 1"
    proof (cases "lst f \<in> R")
      case True
      have "(of_nat m' :: u32) = of_nat (lst f + 1) \<longleftrightarrow> m' = lst f + 1"
        by (rule of_nat_32_inj) (use s assms(5) in simp_all)
      then show ?thesis using f' True by (simp add: add.commute)
    next
      case False
      have "(of_nat m' :: u32) = of_nat (2 ^ 32 - 1) \<longleftrightarrow> m' = 2 ^ 32 - 1"
        by (rule of_nat_32_inj) (use s in simp_all)
      moreover have "fr_lastFrag fr' + 1 = of_nat (2 ^ 32 - 1)" using f' False nf by simp
      moreover have "fr_nFrags fr' = of_nat m'" using f' by simp
      ultimately show ?thesis using False s by (simp only:) simp
    qed
    ultimately show ?thesis using full m'(3) assms(5) by auto
  qed
  let ?fr = "if fr_nFrags fr' = fr_lastFrag fr' + 1 \<or> FRAG_MAX = fr_nFrags fr' then fr'\<lparr>fr_isComplete := True\<rparr> else fr'"
  have "updateChain fr = (Inr (), ?fr)"
    using fr'(1) by (simp add: updateChain_def sem_app andThen_def bnd_def del: updateChain_loop.simps)
  moreover have "frame_at pkt lst W f R m' ?fr" using fr'(2) by (simp add: frame_at_def)
  moreover have "\<forall>k \<in> R. k < m' + W" using assms(4) le by fastforce
  moreover have "fr_isComplete ?fr \<longleftrightarrow> R = {..lst f}" using cmpl fr'(3) assms(6) by simp
  ultimately have "frame_rep pkt lst W f R ?fr" using m'(1) unfolding frame_rep_def by blast
  with \<open>updateChain fr = (Inr (), ?fr)\<close> fr'(4) show ?thesis by auto
qed

end
