(* ===== verification/DepackRun.thy ===== *)
theory DepackRun
  imports DepackInv
begin

text \<open>
  The invariant of the depacketizer's windows, and what follows for a run of the thread: only
  whole frames are handed down, no loop spins, and a frame all of whose fragments arrive in
  the window is handed down.
\<close>

section \<open>One fragment\<close>

lemma setFrame_simps [simp]:
  "length (dk_frameWin (dk_setFrame k f d)) = length (dk_frameWin d)"
  "dk_setFrame k g (dk_setFrame k f d) = dk_setFrame k g d"
  "k < length (dk_frameWin d) \<Longrightarrow> dk_frame k (dk_setFrame k f d) = f"
  "i \<noteq> k \<Longrightarrow> dk_frame i (dk_setFrame k f d) = dk_frame i d"
  "k < length (dk_frameWin d) \<Longrightarrow> dk_setFrame k (dk_frame k d) d = d"
  by (simp_all add: dk_setFrame_def dk_frame_def)

lemma frame_upd_swap: "fr\<lparr>fr_lastFrag := l, fr_fragWin := w\<rparr> = fr\<lparr>fr_fragWin := w, fr_lastFrag := l\<rparr>"
  by simp

lemma on_slot_app:
  assumes "fr_fragWin (dk_frame k d) ! j = Some c" "m c = (Inr (), c')"
  shows "on_slot k j m d
    = (Inr (), dk_setFrame k ((dk_frame k d)\<lparr>fr_fragWin := (fr_fragWin (dk_frame k d))[j := Some c']\<rparr>) d)"
  using assms by (simp add: on_slot_def zoom_def)

lemma seqs_step: "m d = (Inr (), d') \<Longrightarrow> seqs (m # ms) d = seqs ms d'"
  by (simp add: andThen_Inr)

lemma seqs_upd: "seqs (upd g # ms) d = seqs ms (g d)"
  by simp

lemma b_tail_ok: "b_ok b \<Longrightarrow> 1 \<le> b_size b \<Longrightarrow> b_tail b = Inr (drop (b_end b - 1) (b_data b))"
  by (auto simp: b_tail_def AXIS_def b_ok_def b_size_def split: if_splits)

text \<open>The frame once the fragment is in its slot.\<close>

definition with_frag :: "(u32 \<Rightarrow> nat \<Rightarrow> chain) \<Rightarrow> (u32 \<Rightarrow> nat) \<Rightarrow> u32 \<Rightarrow> nat \<Rightarrow> nat \<Rightarrow> cframe \<Rightarrow> cframe" where
  "with_frag pkt lst f n j fr = fr\<lparr>fr_fragWin := (fr_fragWin fr)[j := Some (strip (lst f) n (pkt f n))],
     fr_lastFrag := (if n = lst f then of_nat n else fr_lastFrag fr)\<rparr>"

lemma pb_store_strips:
  assumes p: "sent_frag pkt lst f n" and h: "ph_fragNo hdr = of_nat n"
    and k: "k < length (dk_frameWin d)" and j: "j < length (fr_fragWin (dk_frame k d))"
    and last: "fr_lastFrag (dk_frame k d) = NO_FRAG \<or> (n \<noteq> lst f \<and> fr_lastFrag (dk_frame k d) = of_nat (lst f))"
  shows "pb_store hdr (pkt f n) k j d
    = zoom (dk_frame k) (dk_setFrame k) updateChain (dk_setFrame k (with_frag pkt lst f n j (dk_frame k d)) d)"
proof -
  let ?fr = "dk_frame k d" and ?c = "pkt f n"
  let ?c1 = "if n \<noteq> 0 then strip_head (hd ?c) # tl ?c else ?c"
  let ?l = "if n = lst f then of_nat n else fr_lastFrag ?fr"
  have c: "?c \<noteq> []" "c_ok ?c" "8 \<le> b_size (hd ?c)" "1 \<le> b_size (last ?c)" "length ?c = 1 \<longrightarrow> 9 \<le> b_size (hd ?c)"
    and eof: "parseTailEOF AXIS (drop (b_end (last ?c) - 1) (b_data (last ?c))) = (n = lst f)"
    and n: "n \<le> lst f" "lst f < 2 ^ 24 - 1"
    using p by (auto simp: sent_frag_def pkt_ok_def)
  have fm: "FRAG_MAX \<noteq> ph_fragNo hdr" "NO_FRAG \<noteq> of_nat (lst f)" "ph_fragNo hdr = 0 \<longleftrightarrow> n = 0"
    "(ph_fragNo hdr = of_nat (lst f)) \<longleftrightarrow> n = lst f" "ph_fragNo hdr \<noteq> NO_FRAG"
    using small_frag [of n] small_frag [of "lst f"] of_nat_32_inj [of n "lst f"] n by (auto simp: h)
  define d1 where "d1 = dk_setFrame k (?fr\<lparr>fr_fragWin := (fr_fragWin ?fr)[j := Some ?c]\<rparr>) d"
  define d2 where "d2 = dk_setFrame k (?fr\<lparr>fr_fragWin := (fr_fragWin ?fr)[j := Some ?c], fr_lastFrag := ?l\<rparr>) d"
  define d3 where "d3 = dk_setFrame k (?fr\<lparr>fr_fragWin := (fr_fragWin ?fr)[j := Some ?c1], fr_lastFrag := ?l\<rparr>) d"
  have b: "b_ok (last ?c)" using c c_ok_last by blast
  have 2: "pb_eof hdr k (n = lst f) d1 = d2"
    using fm(1) k last h by (auto simp: pb_eof_def d1_def d2_def)
  have 3: "(if ph_fragNo hdr \<noteq> 0
      then on_slot k j (on_head (reading b_beg (\<lambda>q. b_setPayload (Some (int q + int HEADER_SIZE)))))
      else ret ()) d2 = (Inr (), d3)"
  proof (cases "n = 0")
    case True
    then show ?thesis using fm(3) by (simp add: sem_app d2_def d3_def)
  next
    case False
    have "fr_fragWin (dk_frame k d2) ! j = Some ?c" using k j by (simp add: d2_def)
    then have "on_slot k j (on_head (reading b_beg (\<lambda>q. b_setPayload (Some (int q + int HEADER_SIZE))))) d2
      = (Inr (), dk_setFrame k ((dk_frame k d2)\<lparr>fr_fragWin := (fr_fragWin (dk_frame k d2))[j := Some (strip_head (hd ?c) # tl ?c)]\<rparr>) d2)"
      using on_head_strip [OF c(2,1,3)] by (rule on_slot_app)
    then show ?thesis using False fm(3) k by (simp add: d2_def d3_def frame_upd_swap)
  qed
  have ok1: "b_ok (last ?c1) \<and> 1 \<le> b_size (last ?c1)"
    using p by (intro head_off_last) (auto simp: sent_frag_def)
  have fin: "dk_setFrame k (with_frag pkt lst f n j ?fr) d
     = (if n = lst f then d3 else dk_setFrame k ((dk_frame k d3)\<lparr>fr_fragWin := (fr_fragWin (dk_frame k d3))[j := Some (butlast ?c1 @ [strip_tail (last ?c1)])]\<rparr>) d3)"
    using k by (simp add: with_frag_def d3_def strip_def Let_def frame_upd_swap)
  have lf: "(ph_fragNo hdr \<noteq> fr_lastFrag (dk_frame k d3)) \<longleftrightarrow> n \<noteq> lst f"
    using k last fm h by (auto simp: d3_def)
  have 4: "cond (\<lambda>d. ph_fragNo hdr \<noteq> fr_lastFrag (dk_frame k d))
       (on_slot k j (on_tail (reading b_size (\<lambda>n. b_setSize (nat ((int n - int (ly_tailSize AXIS)) mod 2 ^ 64))))))
       (ret ()) d3 = (Inr (), dk_setFrame k (with_frag pkt lst f n j ?fr) d)"
  proof (cases "n = lst f")
    case True
    then show ?thesis using lf fin by (simp add: sem_app)
  next
    case False
    have "fr_fragWin (dk_frame k d3) ! j = Some ?c1" using k j by (simp add: d3_def)
    then have "on_slot k j (on_tail (reading b_size (\<lambda>n. b_setSize (nat ((int n - int (ly_tailSize AXIS)) mod 2 ^ 64))))) d3
      = (Inr (), dk_setFrame k ((dk_frame k d3)\<lparr>fr_fragWin := (fr_fragWin (dk_frame k d3))[j := Some (butlast ?c1 @ [strip_tail (last ?c1)])]\<rparr>) d3)"
      using on_tail_strip [OF ok1 [THEN conjunct1] ok1 [THEN conjunct2]] by (rule on_slot_app)
    then show ?thesis using False lf fin by (simp add: sem_app)
  qed
  have 1: "bnd (liftR (b_tail (last ?c))) (\<lambda>t. upd (pb_eof hdr k (parseTailEOF AXIS t))) d1 = (Inr (), d2)"
    using b_tail_ok [OF b c(4)] eof 2 by (simp add: bnd_def sem_app)
  have s1: "seqs (bnd (liftR (b_tail (last ?c))) (\<lambda>t. upd (pb_eof hdr k (parseTailEOF AXIS t))) # ms) d1 = seqs ms d2" for ms
    using 1 by (rule seqs_step)
  have s3: "seqs ((if ph_fragNo hdr \<noteq> 0
      then on_slot k j (on_head (reading b_beg (\<lambda>q. b_setPayload (Some (int q + int HEADER_SIZE)))))
      else ret ()) # ms) d2 = seqs ms d3" for ms
    using 3 by (rule seqs_step)
  have s4: "seqs (cond (\<lambda>d. ph_fragNo hdr \<noteq> fr_lastFrag (dk_frame k d))
       (on_slot k j (on_tail (reading b_size (\<lambda>n. b_setSize (nat ((int n - int (ly_tailSize AXIS)) mod 2 ^ 64))))))
       (ret ()) # ms) d3 = seqs ms (dk_setFrame k (with_frag pkt lst f n j ?fr) d)" for ms
    using 4 by (rule seqs_step)
  show ?thesis
    unfolding pb_store_def seqs_upd d1_def [symmetric] s1 s3 s4 by simp
qed

lemma pb_store_spec:
  assumes rep: "frame_rep pkt lst W f R (dk_frame k d)" and p: "sent_frag pkt lst f n"
    and h: "ph_fragNo hdr = of_nat n" and k: "k < length (dk_frameWin d)"
    and W: "W = 2 ^ b" "b \<le> 10"
    and win: "fr_oldestFrag (dk_frame k d) \<le> of_nat n" "\<not> fr_oldestFrag (dk_frame k d) + of_nat W \<le> of_nat n"
    and new: "fr_fragWin (dk_frame k d) ! (n mod W) = None"
  shows "n \<notin> R \<and> (\<exists>fr'. pb_store hdr (pkt f n) k (n mod W) d = (Inr (), dk_setFrame k fr' d)
    \<and> frame_rep pkt lst W f (insert n R) fr' \<and> fr_running fr' = fr_running (dk_frame k d))"
proof -
  let ?fr = "dk_frame k d" and ?fr1 = "with_frag pkt lst f n (n mod W) (dk_frame k d)"
  obtain m where m: "frame_at pkt lst W f R m ?fr" "m \<notin> R" "\<forall>k \<in> R. k < m + W"
    "fr_isComplete ?fr \<longleftrightarrow> R = {..lst f}"
    using rep by (auto simp: frame_rep_def)
  note f = m(1) [unfolded frame_at_def]
  have s: "n \<le> lst f" "lst f < 2 ^ 24 - 1" using p by (auto simp: sent_frag_def)
  have Wb: "0 < W" "W \<le> 2 ^ 10" using W power_increasing [of b 10 "2 :: nat"] by simp_all
  have mb: "m < 2 ^ 24"
  proof (cases m)
    case (Suc m0)
    then have "m0 \<in> R" using f by simp
    then have "m0 \<le> lst f" using f by auto
    then show ?thesis using Suc s by simp
  qed simp
  have un: "unat (of_nat m :: u32) = m" "unat (of_nat n :: u32) = n" "unat (of_nat m + of_nat W :: u32) = m + W"
    using mb s Wb by (simp_all add: unat_of_nat_mod unat_word_ariths)
  have mn: "m \<le> n" "n < m + W"
    using win f un by (simp_all add: word_le_nat_alt)
  then have nR: "n \<notin> R" using f new by auto
  have len: "length (fr_fragWin ?fr) = W" "n mod W < W" using f Wb by simp_all
  have fl: "fr_lastFrag ?fr = (if lst f \<in> R then of_nat (lst f) else NO_FRAG)" using f by simp
  have last: "fr_lastFrag ?fr = NO_FRAG \<or> (n \<noteq> lst f \<and> fr_lastFrag ?fr = of_nat (lst f))"
    using fl nR by (cases "lst f \<in> R") auto
  have at: "frame_at pkt lst W f (insert n R) m ?fr1"
  proof -
    have "fr_fragWin ?fr1 ! (i mod W) = (if i \<in> insert n R then Some (strip (lst f) i (pkt f i)) else None)"
      if i: "m \<le> i" "i < m + W" for i
    proof (cases "i = n")
      case True
      then show ?thesis using len by (simp add: with_frag_def)
    next
      case False
      have "i mod W \<noteq> n mod W"
      proof
        assume "i mod W = n mod W"
        then have "(m + (i - m)) mod W = (m + (n - m)) mod W" using i mn by simp
        then have "i - m = n - m" by (rule mod_inj_window) (use i mn in linarith)+
        then show False using False i mn by simp
      qed
      then show ?thesis using f i False by (simp add: with_frag_def)
    qed
    then show ?thesis using f s nR by (auto simp: frame_at_def with_frag_def)
  qed
  have nc: "\<not> fr_isComplete ?fr1" using m(4) nR s by (auto simp: with_frag_def)
  have b24: "b < 24" using W by simp
  have lt: "\<forall>k \<in> insert n R. k < m + W" using m(3) mn by simp
  obtain fr' where fr': "updateChain ?fr1 = (Inr (), fr')" "frame_rep pkt lst W f (insert n R) fr'"
    "fr_running fr' = fr_running ?fr1"
    using updateChain_spec [OF at W(1) b24 lt s(2) nc] by auto
  have "pb_store hdr (pkt f n) k (n mod W) d = (Inr (), dk_setFrame k fr' d)"
    using pb_store_strips [OF p h k _ last, of "n mod W"] len fr'(1) k by (simp add: zoom_def)
  then show ?thesis using nR fr'(2,3) by (auto simp: with_frag_def)
qed

end
