(* ===== verification/DepackWin.thy ===== *)
theory DepackWin
  imports DepackRun
begin

section \<open>The windows\<close>

definition frame_free :: "nat \<Rightarrow> cframe \<Rightarrow> bool" where
  "frame_free W fr \<longleftrightarrow> fr_frameID fr = NO_FRAME \<and> fr_prod fr = None \<and> fr_nFrags fr = 0 \<and> fr_oldestFrag fr = 0
     \<and> fr_lastFrag fr = NO_FRAG \<and> fr_fragWin fr = replicate W None \<and> \<not> fr_isComplete fr"

definition slot_ok :: "(u32 \<Rightarrow> nat \<Rightarrow> chain) \<Rightarrow> (u32 \<Rightarrow> nat) \<Rightarrow> nat \<Rightarrow> cframe \<Rightarrow> bool" where
  "slot_ok pkt lst W fr \<longleftrightarrow> frame_free W fr \<or> (\<exists>f R. unat f < 4096 \<and> frame_rep pkt lst W f R fr)"

definition depack_inv :: "(u32 \<Rightarrow> nat \<Rightarrow> chain) \<Rightarrow> (u32 \<Rightarrow> nat) \<Rightarrow> nat \<Rightarrow> nat \<Rightarrow> depack \<Rightarrow> bool" where
  "depack_inv pkt lst a b d \<longleftrightarrow> a \<le> 10 \<and> b \<le> 10 \<and> dk_frameWinSize d = of_nat (2 ^ a) \<and> dk_fragWinSize d = of_nat (2 ^ b)
     \<and> length (dk_frameWin d) = 2 ^ a \<and> (\<forall>k < 2 ^ a. slot_ok pkt lst (2 ^ b) (dk_frame k d))
     \<and> (\<forall>c \<in> set (dk_out d). \<exists>f. unat f < 4096 \<and> c = whole pkt lst f (lst f + 1))"

text \<open>The same frame, but for the timer.\<close>

definition same_frame :: "cframe \<Rightarrow> cframe \<Rightarrow> bool" where
  "same_frame fr fr' \<longleftrightarrow> (\<exists>t r. fr' = fr\<lparr>fr_timeout := t, fr_running := r\<rparr>)"

lemma same_frame_rep: "same_frame fr fr' \<Longrightarrow> frame_rep pkt lst W f R fr \<Longrightarrow> frame_rep pkt lst W f R fr'"
  by (auto simp: same_frame_def frame_rep_def frame_at_def)

lemma same_frame_free: "same_frame fr fr' \<Longrightarrow> frame_free W fr \<Longrightarrow> frame_free W fr'"
  by (auto simp: same_frame_def frame_free_def)

lemma same_frame_slot: "same_frame fr fr' \<Longrightarrow> slot_ok pkt lst W fr \<Longrightarrow> slot_ok pkt lst W fr'"
  unfolding slot_ok_def using same_frame_rep same_frame_free by blast

lemma same_frame_refl: "same_frame fr fr"
proof -
  have "fr = fr\<lparr>fr_timeout := fr_timeout fr, fr_running := fr_running fr\<rparr>" by simp
  then show ?thesis unfolding same_frame_def by metis
qed

lemma same_frame_trans: "same_frame a b \<Longrightarrow> same_frame b c \<Longrightarrow> same_frame a c"
  unfolding same_frame_def by clarsimp blast

lemma free_new: "frame_free W (cframe_new W)"
  by (simp add: frame_free_def cframe_new_def)

lemma slot_release: "slot_ok pkt lst W fr \<Longrightarrow> frame_free W (fr_release fr)"
  by (auto simp: slot_ok_def frame_free_def fr_release_def frame_rep_def frame_at_def)

lemma complete_whole:
  assumes "slot_ok pkt lst W fr" "fr_isComplete fr"
  shows "\<exists>f. unat f < 4096 \<and> fr_prod fr = Some (whole pkt lst f (lst f + 1))"
proof -
  obtain f R m where r: "unat f < 4096" "frame_at pkt lst W f R m fr" "m \<notin> R" "R = {..lst f}"
    using assms by (auto simp: slot_ok_def frame_free_def frame_rep_def)
  have m: "\<forall>k < m. k \<in> R" using r(2) by (simp add: frame_at_def)
  have "m = lst f + 1"
  proof (rule le_antisym)
    show "m \<le> lst f + 1"
    proof (rule ccontr)
      assume "\<not> m \<le> lst f + 1"
      then have "lst f + 1 \<in> R" using m by simp
      then show False using r(4) by simp
    qed
    show "lst f + 1 \<le> m" using r(3,4) by simp
  qed
  then show ?thesis using r(1,2) by (auto simp: frame_at_def)
qed

text \<open>The counters and what only the timers need are not in the invariant.\<close>

lemma depack_inv_cong:
  assumes "depack_inv pkt lst a b d" "dk_frameWin d' = dk_frameWin d" "dk_out d' = dk_out d"
    "dk_frameWinSize d' = dk_frameWinSize d" "dk_fragWinSize d' = dk_fragWinSize d"
  shows "depack_inv pkt lst a b d'"
  using assms by (simp add: depack_inv_def dk_frame_def)

lemma depack_inv_setFrame:
  assumes "depack_inv pkt lst a b d" "slot_ok pkt lst (2 ^ b) fr"
  shows "depack_inv pkt lst a b (dk_setFrame k fr d)"
proof -
  have "slot_ok pkt lst (2 ^ b) (dk_frame i (dk_setFrame k fr d))" if "i < 2 ^ a" for i
    using assms that by (cases "i = k") (auto simp: depack_inv_def)
  moreover have "dk_out (dk_setFrame k fr d) = dk_out d" "dk_frameWinSize (dk_setFrame k fr d) = dk_frameWinSize d"
    "dk_fragWinSize (dk_setFrame k fr d) = dk_fragWinSize d" by (simp_all add: dk_setFrame_def)
  ultimately show ?thesis using assms by (simp add: depack_inv_def)
qed

lemma depack_inv_new: "a \<le> 10 \<Longrightarrow> b \<le> 10 \<Longrightarrow> depack_inv pkt lst a b (depack_new a b tmo now isOpen mtu)"
  by (simp add: depack_inv_def depack_new_def dk_frame_def slot_ok_def free_new push_bit_of_1)

lemma idx_lt: "a \<le> 10 \<Longrightarrow> unat (x AND (of_nat (2 ^ a) - 1) :: u32) < 2 ^ a"
  by (simp add: unat_and_mask)

lemma toFrameIdx_lt: "depack_inv pkt lst a b d \<Longrightarrow> toFrameIdx d x < 2 ^ a"
  by (simp add: depack_inv_def toFrameIdx_def unat_and_mask)

subsection \<open>Releasing\<close>

definition running :: "depack \<Rightarrow> nat" where
  "running d = length (filter fr_running (dk_frameWin d))"

lemma filter_update_less:
  "k < length xs \<Longrightarrow> P (xs ! k) \<Longrightarrow> \<not> P y \<Longrightarrow> length (filter P (xs[k := y])) < length (filter P xs)"
proof (induction xs arbitrary: k)
  case (Cons x xs)
  then show ?case by (cases k) auto
qed simp

lemma releaseOldestFrame_spec:
  assumes "depack_inv pkt lst a b d"
  shows "\<exists>r d'. releaseOldestFrame oc d = (Inr r, d') \<and> depack_inv pkt lst a b d'
    \<and> (r \<longrightarrow> running d' < running d) \<and> (\<not> r \<longrightarrow> d' = d) \<and> (\<exists>cs. dk_out d' = dk_out d @ cs)"
proof -
  define k where "k = unat (dk_oldestFrame d AND (dk_frameWinSize d - 1))"
  define fr where "fr = dk_frame k d"
  have kl: "k < 2 ^ a" "k < length (dk_frameWin d)" using assms idx_lt by (auto simp: k_def depack_inv_def)
  have ok: "slot_ok pkt lst (2 ^ b) fr" using assms kl by (simp add: depack_inv_def fr_def)
  show ?thesis
  proof (cases "NO_FRAME = dk_oldestFrame d \<or> (oc \<and> \<not> fr_isComplete fr) \<or> \<not> fr_running fr")
    case True
    then have "releaseOldestFrame oc d = (Inr False, d)"
      by (auto simp: releaseOldestFrame_def sem_app Let_def k_def [symmetric] fr_def [symmetric])
    then show ?thesis using assms by blast
  next
    case False
    let ?d = "dk_setFrame k (fr_release fr) d"
    have inv: "depack_inv pkt lst a b ?d"
      by (rule depack_inv_setFrame [OF assms]) (simp add: slot_ok_def slot_release [OF ok])
    have run: "running ?d < running d"
      unfolding running_def dk_setFrame_def using False kl
      by (simp add: filter_update_less fr_def dk_frame_def fr_release_def)
    define n where "n = (\<lambda>d' :: depack. d'\<lparr>dk_oldestFrame := moduloFrameSz (dk_oldestFrame d' + 1)\<rparr>)"
    have c: "(NO_FRAME = dk_oldestFrame d) = False" "((oc \<and> \<not> fr_isComplete fr) \<or> \<not> fr_running fr) = False"
      using False by simp_all
    have e: "releaseOldestFrame oc d = andThen
          (if fr_isComplete fr then
             (case fr_prod fr of
                None \<Rightarrow> raise (Undefined ''null chain'')
              | Some c \<Rightarrow> bnd (pushDown c) (\<lambda>ok.
                  if \<not> ok then upd (\<lambda>d. d\<lparr>oqueueFullDrops := oqueueFullDrops d + 1\<rparr>)
                  else upd (\<lambda>d. d\<lparr>fragsAccepted := fragsAccepted d + of_nat (c_len c),
                                   framesAccepted := framesAccepted d + 1\<rparr>)))
           else if fr_prod fr \<noteq> None then upd (\<lambda>d. d\<lparr>incompleteDrops := incompleteDrops d + 1\<rparr>)
           else upd (\<lambda>d. d\<lparr>emptyDrops := emptyDrops d + 1\<rparr>))
        (andThen (upd n) (ret True)) ?d"
      unfolding releaseOldestFrame_def reading_app id_apply c(1) if_False Let_def
      by (simp only: k_def [symmetric] fr_def [symmetric] c(2) if_False andThen_upd n_def)
    have out: "dk_out ?d = dk_out d" by (simp add: dk_setFrame_def)
    have goal: "\<exists>r d'. releaseOldestFrame oc d = (Inr r, d') \<and> depack_inv pkt lst a b d'
       \<and> (r \<longrightarrow> running d' < running d) \<and> (\<not> r \<longrightarrow> d' = d) \<and> (\<exists>cs. dk_out d' = dk_out d @ cs)"
      if "releaseOldestFrame oc d = (Inr True, n d')" "depack_inv pkt lst a b d'" "running d' = running ?d"
        "\<exists>cs. dk_out d' = dk_out d @ cs" for d'
    proof -
      have "depack_inv pkt lst a b (n d')" by (rule depack_inv_cong [OF that(2)]) (simp_all add: n_def)
      moreover have "running (n d') = running d'" "dk_out (n d') = dk_out d'" by (simp_all add: running_def n_def)
      ultimately show ?thesis using that run by auto
    qed
    show ?thesis
    proof (cases "fr_isComplete fr")
      case True
      then obtain f where f: "unat f < 4096" "fr_prod fr = Some (whole pkt lst f (lst f + 1))"
        using complete_whole [OF ok] by blast
      let ?c = "whole pkt lst f (lst f + 1)"
      consider "\<not> dk_isOpen ?d" | "dk_isOpen ?d" "dk_queueUp ?d" | "dk_isOpen ?d" "\<not> dk_queueUp ?d" by blast
      then show ?thesis
      proof cases
        case 1
        show ?thesis
          by (rule goal [of "?d\<lparr>fragsAccepted := fragsAccepted ?d + of_nat (c_len ?c), framesAccepted := framesAccepted ?d + 1\<rparr>"])
            (use True f 1 in \<open>simp_all add: e pushDown_def sem_app andThen_def bnd_def running_def out depack_inv_cong [OF inv]\<close>)
      next
        case 2
        let ?d1 = "?d\<lparr>dk_out := dk_out ?d @ [?c]\<rparr>"
        have i1: "depack_inv pkt lst a b ?d1" using inv f(1) by (auto simp: depack_inv_def dk_frame_def)
        show ?thesis
          by (rule goal [of "?d1\<lparr>fragsAccepted := fragsAccepted ?d + of_nat (c_len ?c), framesAccepted := framesAccepted ?d + 1\<rparr>"])
            (use True f 2 in \<open>simp_all add: e pushDown_def sem_app andThen_def bnd_def running_def out depack_inv_cong [OF i1]\<close>)
      next
        case 3
        show ?thesis
          by (rule goal [of "?d\<lparr>oqueueFullDrops := oqueueFullDrops ?d + 1\<rparr>"])
            (use True f 3 in \<open>simp_all add: e pushDown_def sem_app andThen_def bnd_def running_def out depack_inv_cong [OF inv]\<close>)
      qed
    next
      case False
      show ?thesis
      proof (cases "fr_prod fr = None")
        case True
        show ?thesis
          by (rule goal [of "?d\<lparr>emptyDrops := emptyDrops ?d + 1\<rparr>"])
            (use False True in \<open>simp_all add: e sem_app andThen_def bnd_def running_def out depack_inv_cong [OF inv]\<close>)
      next
        case p: False
        show ?thesis
          by (rule goal [of "?d\<lparr>incompleteDrops := incompleteDrops ?d + 1\<rparr>"])
            (use False p in \<open>simp_all add: e sem_app andThen_def bnd_def running_def out depack_inv_cong [OF inv]\<close>)
      qed
    qed
  qed
qed

lemma releaseFrames_loop_spec:
  "depack_inv pkt lst a b d \<Longrightarrow> running d < n \<Longrightarrow>
   \<exists>d'. releaseFrames_loop n oc d = (Inr (), d') \<and> depack_inv pkt lst a b d' \<and> (\<exists>cs. dk_out d' = dk_out d @ cs)"
proof (induction n arbitrary: d)
  case (Suc n)
  obtain r d' where r: "releaseOldestFrame oc d = (Inr r, d')" "depack_inv pkt lst a b d'"
    "r \<longrightarrow> running d' < running d" "\<not> r \<longrightarrow> d' = d" "\<exists>cs. dk_out d' = dk_out d @ cs"
    using releaseOldestFrame_spec [OF Suc.prems(1), of oc] by blast
  show ?case
  proof (cases r)
    case True
    then have "running d' < n" using r(3) Suc.prems(2) by simp
    from Suc.IH [OF r(2) this] show ?thesis using True r(1,5) by (auto simp: bnd_def)
  next
    case False
    then show ?thesis using r by (simp add: bnd_def sem_app)
  qed
qed simp

lemma releaseFrames_spec:
  assumes "depack_inv pkt lst a b d"
  shows "\<exists>d'. releaseFrames oc d = (Inr (), d') \<and> depack_inv pkt lst a b d' \<and> (\<exists>cs. dk_out d' = dk_out d @ cs)"
proof -
  have "running d < Suc (length (dk_frameWin d))"
    by (simp add: running_def le_imp_less_Suc)
  from releaseFrames_loop_spec [OF assms this, of oc] show ?thesis
    by (simp only: releaseFrames_def sem_app id_apply)
qed

subsection \<open>The timers of older frames\<close>

definition only_timers :: "depack \<Rightarrow> depack \<Rightarrow> bool" where
  "only_timers d d' \<longleftrightarrow> d' = d\<lparr>dk_frameWin := dk_frameWin d'\<rparr> \<and> length (dk_frameWin d') = length (dk_frameWin d)
     \<and> (\<forall>k < length (dk_frameWin d). same_frame (dk_frame k d) (dk_frame k d'))"

lemma only_timers_refl: "only_timers d d"
  by (simp add: only_timers_def same_frame_refl)

lemma only_timers_trans:
  assumes "only_timers d d'" "only_timers d' d''"
  shows "only_timers d d''"
proof -
  have "d'' = d'\<lparr>dk_frameWin := dk_frameWin d''\<rparr>" "d' = d\<lparr>dk_frameWin := dk_frameWin d'\<rparr>"
    using assms by (simp_all add: only_timers_def)
  then have "d'' = d\<lparr>dk_frameWin := dk_frameWin d'\<rparr>\<lparr>dk_frameWin := dk_frameWin d''\<rparr>" by simp
  then have "d'' = d\<lparr>dk_frameWin := dk_frameWin d''\<rparr>" by simp
  then show ?thesis using assms same_frame_trans unfolding only_timers_def by (metis (no_types, lifting))
qed

lemma startTimeout_timers: "k < length (dk_frameWin d) \<Longrightarrow> only_timers d (startTimeout k d)"
proof -
  assume k: "k < length (dk_frameWin d)"
  show ?thesis
  proof (cases "fr_running (dk_frame k d)")
    case True
    then show ?thesis by (simp add: startTimeout_def only_timers_refl)
  next
    case False
    let ?fr = "(dk_frame k d)\<lparr>fr_timeout := to_add (dk_now d) (dk_timeout d), fr_running := True\<rparr>"
    have "same_frame (dk_frame i d) (dk_frame i (dk_setFrame k ?fr d))" for i
    proof (cases "i = k")
      case True
      then show ?thesis using k unfolding same_frame_def by auto
    qed (simp add: same_frame_refl)
    then show ?thesis using False by (simp add: startTimeout_def only_timers_def) (simp add: dk_setFrame_def)
  qed
qed

lemma only_timers_inv: "only_timers d d' \<Longrightarrow> depack_inv pkt lst a b d \<Longrightarrow> depack_inv pkt lst a b d'"
proof -
  assume t: "only_timers d d'" and i: "depack_inv pkt lst a b d"
  have e: "d' = d\<lparr>dk_frameWin := dk_frameWin d'\<rparr>" using t by (simp add: only_timers_def)
  have "dk_out d' = dk_out d" "dk_frameWinSize d' = dk_frameWinSize d" "dk_fragWinSize d' = dk_fragWinSize d"
    by (subst e, simp)+
  then show ?thesis using t i same_frame_slot unfolding depack_inv_def only_timers_def by (metis (no_types, lifting))
qed

lemma ring_dist: "i < N \<Longrightarrow> k < N \<Longrightarrow> (k + N - i) mod N = (if i \<le> k then k - i else k + N - i)" for N :: nat
proof (cases "i \<le> k")
  case True
  assume "i < N" "k < N"
  have "k + N - i = (k - i) + N" "k - i < N" using True \<open>k < N\<close> by linarith+
  then show ?thesis using True by (simp only: mod_add_self2 mod_less if_True)
next
  case False
  assume "i < N" "k < N"
  have "k + N - i < N" using False \<open>i < N\<close> by linarith
  then show ?thesis using False by (simp only: mod_less if_False)
qed

lemma ring_closer:
  assumes "i < N" "k < N" "i \<noteq> (k :: nat)"
  shows "(k + N - (i + 1) mod N) mod N < (k + N - i) mod N"
proof (cases "i + 1 = N")
  case True
  then have "(i + 1) mod N = 0" by simp
  then show ?thesis using assms True ring_dist [OF assms(1,2)] ring_dist [of 0 N k] by auto
next
  case False
  then have "(i + 1) mod N = i + 1" "i + 1 < N" using assms by simp_all
  then show ?thesis using assms ring_dist [OF assms(1,2)] ring_dist [of "i + 1" N k] by auto
qed

text \<open>From slot to slot, around the end: the target is reached in time.\<close>

lemma startTimeouts_spec:
  assumes "length (dk_frameWin d) = 2 ^ a" "dk_frameWinSize d = of_nat (2 ^ a)" "a \<le> 10" "i < 2 ^ a" "k < 2 ^ a"
    "(k + 2 ^ a - i) mod 2 ^ a < n"
  shows "\<exists>d'. startTimeouts n (of_nat i) k d = (Inr (), d') \<and> only_timers d d'"
  using assms
proof (induction n arbitrary: d i)
  case (Suc n)
  have "(2 :: nat) ^ a \<le> 2 ^ 10" using Suc.prems(3) power_increasing [of a 10 "2 :: nat"] by simp
  then have small: "i < 2 ^ 32 - 1" using Suc.prems(4) by simp
  then have u: "unat (of_nat i :: u32) = i" by (simp add: unat_of_nat_mod)
  show ?case
  proof (cases "i = k")
    case True
    then show ?thesis using u by (auto simp: sem_app only_timers_refl)
  next
    case False
    let ?d = "startTimeout i d"
    have t: "only_timers d ?d" using startTimeout_timers [of i d] Suc.prems(1,4) by simp
    then have d: "length (dk_frameWin ?d) = 2 ^ a" "dk_frameWinSize ?d = of_nat (2 ^ a)"
      using Suc.prems(1,2) by (simp_all add: only_timers_def startTimeout_def dk_setFrame_def Let_def)
    let ?i = "(i + 1) mod 2 ^ a"
    have nxt: "toFrameIdx ?d (of_nat i + 1) = ?i"
      using d(2) small by (simp add: toFrameIdx_def unat_and_mask unat_word_ariths u)
    have lt: "?i < 2 ^ a" by simp
    have "(k + 2 ^ a - ?i) mod 2 ^ a < (k + 2 ^ a - i) mod 2 ^ a"
      using Suc.prems(4,5) False by (rule ring_closer)
    then have "(k + 2 ^ a - ?i) mod 2 ^ a < n" using Suc.prems(6) by simp
    from Suc.IH [OF d Suc.prems(3) lt Suc.prems(5) this] obtain d' where
      "startTimeouts n (of_nat ?i) k ?d = (Inr (), d')" "only_timers ?d d'" by blast
    moreover have "startTimeouts (Suc n) (of_nat i) k d = startTimeouts n (of_nat ?i) k ?d"
      using False u nxt by (simp add: sem_app)
    ultimately show ?thesis using only_timers_trans [OF t] by auto
  qed
qed simp

subsection \<open>A packet\<close>

definition BAD :: exn where "BAD = InternalError ''Frame ID window inconsistency!''"

text \<open>\<open>safe\<close>: the invariant holds afterwards, and the only exception is the one of an
  inconsistent window.\<close>

definition safe :: "(depack \<Rightarrow> bool) \<Rightarrow> (depack, unit) sem \<Rightarrow> bool" where
  "safe I m \<longleftrightarrow> (\<forall>d. I d \<longrightarrow> wp m (\<lambda>_. I) (\<lambda>e t. I t \<and> e = BAD) d)"

lemma safeI: "(\<And>d. I d \<Longrightarrow> wp m (\<lambda>_. I) (\<lambda>e t. I t \<and> e = BAD) d) \<Longrightarrow> safe I m"
  by (simp add: safe_def)

lemma safeD: "safe I m \<Longrightarrow> I d \<Longrightarrow> wp m (\<lambda>_. I) (\<lambda>e t. I t \<and> e = BAD) d"
  by (simp add: safe_def)

lemma safe_andThen: "safe I m \<Longrightarrow> safe I n \<Longrightarrow> safe I (andThen m n)"
  unfolding safe_def wp_andThen by (blast intro: wp_mono)

lemma safe_upd: "(\<And>d. I d \<Longrightarrow> I (g d)) \<Longrightarrow> safe I (upd g)"
  by (simp add: safe_def wp_upd)

lemma safe_ret: "safe I (ret ())"
  by (simp add: safe_def wp_ret)

lemma wp_returns: "m d = (Inr r, d') \<Longrightarrow> Q r d' \<Longrightarrow> wp m Q E d"
  by (simp add: wp_def)

lemma safe_releaseFrames: "safe (depack_inv pkt lst a b) (releaseFrames oc)"
  by (rule safeI) (use releaseFrames_spec in \<open>fastforce intro: wp_returns\<close>)

lemma safe_frameSync: "safe (depack_inv pkt lst a b) (frameSync hdr)"
proof -
  have "safe (depack_inv pkt lst a b) (upd (\<lambda>d. d\<lparr>dk_oldestFrame := moduloFrameSz (ax_frameNo hdr + 1)\<rparr>))"
    by (rule safe_upd, erule depack_inv_cong) simp_all
  with safe_releaseFrames have "safe (depack_inv pkt lst a b) (andThen (releaseFrames False)
    (upd (\<lambda>d. d\<lparr>dk_oldestFrame := moduloFrameSz (ax_frameNo hdr + 1)\<rparr>)))" by (rule safe_andThen)
  then show ?thesis by (simp add: safe_def frameSync_def wp_cond wp_ret)
qed

lemma frame_rep_empty:
  assumes "frame_free W fr" "0 < W"
  shows "frame_rep pkt lst W f {} (fr\<lparr>fr_prod := Some [], fr_frameID := f\<rparr>)"
  using assms by (auto simp: frame_rep_def frame_at_def frame_free_def whole_def intro!: exI [of _ 0])

lemma toFragIdx_mod: "depack_inv pkt lst a b d \<Longrightarrow> n < 2 ^ 32 \<Longrightarrow> toFragIdx d (of_nat n) = n mod 2 ^ b"
  unfolding toFragIdx_def depack_inv_def by (simp only:) (simp add: unat_and_mask unat_of_nat_mod)

lemma rep_frameID: "frame_rep pkt lst W f R fr \<Longrightarrow> fr_frameID fr = f"
  by (auto simp: frame_rep_def frame_at_def)

lemma rep_lastFrag: "frame_rep pkt lst W f R fr \<Longrightarrow> fr_lastFrag fr = (if lst f \<in> R then of_nat (lst f) else NO_FRAG)"
  unfolding frame_rep_def frame_at_def by blast

lemma frame_not_none: "unat (f :: u32) < 4096 \<Longrightarrow> NO_FRAME \<noteq> f"
  by (auto simp: NO_FRAME_def push_bit_of_1)

text \<open>A fragment in the window, of the frame that owns the slot or of a new one.\<close>

lemma pb_frag_stores:
  assumes inv: "depack_inv pkt lst a b d" and p: "sent_frag pkt lst f n"
    and h: "ax_frameNo hdr = f" "ph_fragNo hdr = of_nat n" and k: "k = toFrameIdx d f"
    and slot: "frame_free (2 ^ b) (dk_frame k d) \<and> R = {}
      \<or> frame_rep pkt lst (2 ^ b) f R (dk_frame k d) \<and> fr_fragWin (dk_frame k d) ! (n mod 2 ^ b) = None"
    and win: "\<not> of_nat n < fr_oldestFrag (dk_frame k d)" "\<not> fr_oldestFrag (dk_frame k d) + dk_fragWinSize d \<le> of_nat n"
  shows "n \<notin> R \<and> (\<exists>d'. pb_frag hdr (pkt f n) d = (Inr (), d') \<and> depack_inv pkt lst a b d'
    \<and> frame_rep pkt lst (2 ^ b) f (insert n R) (dk_frame k d')
    \<and> dk_out d' = dk_out d \<and> dk_oldestFrame d' = dk_oldestFrame d
    \<and> dk_isOpen d' = dk_isOpen d \<and> dk_queueUp d' = dk_queueUp d
    \<and> (\<forall>i < 2 ^ a. i \<noteq> k \<longrightarrow> same_frame (dk_frame i d) (dk_frame i d'))
    \<and> (frame_free (2 ^ b) (dk_frame k d) \<or> fr_running (dk_frame k d) \<longrightarrow> fr_running (dk_frame k d')))"
proof -
  let ?fr = "dk_frame k d" and ?W = "2 ^ b :: nat"
  have n: "n \<le> lst f" "lst f < 2 ^ 24 - 1" "unat f < 4096" using p by (auto simp: sent_frag_def)
  have i: "a \<le> 10" "b \<le> 10" "dk_frameWinSize d = of_nat (2 ^ a)" "dk_fragWinSize d = of_nat ?W"
    "length (dk_frameWin d) = 2 ^ a" using inv by (simp_all add: depack_inv_def)
  have kl: "k < 2 ^ a" "k < length (dk_frameWin d)" using toFrameIdx_lt [OF inv] k i by simp_all
  have j: "toFragIdx d (of_nat n) = n mod ?W" using toFragIdx_mod [OF inv] n by simp
  have fin: "n \<notin> R \<and> (\<exists>d'. pb_store hdr (pkt f n) k (n mod ?W) d2 = (Inr (), d') \<and> depack_inv pkt lst a b d'
      \<and> frame_rep pkt lst ?W f (insert n R) (dk_frame k d') \<and> dk_out d' = dk_out d2
      \<and> dk_oldestFrame d' = dk_oldestFrame d2 \<and> dk_isOpen d' = dk_isOpen d2 \<and> dk_queueUp d' = dk_queueUp d2
      \<and> (\<forall>i. i \<noteq> k \<longrightarrow> dk_frame i d' = dk_frame i d2)
      \<and> (fr_running (dk_frame k d2) \<longrightarrow> fr_running (dk_frame k d')))"
    if d2: "depack_inv pkt lst a b d2" and rep: "frame_rep pkt lst ?W f R (dk_frame k d2)"
      and old: "fr_oldestFrag (dk_frame k d2) = fr_oldestFrag ?fr"
      and none: "fr_fragWin (dk_frame k d2) ! (n mod ?W) = None" for d2
  proof -
    have k2: "k < length (dk_frameWin d2)" using kl d2 by (simp add: depack_inv_def)
    have w: "fr_oldestFrag (dk_frame k d2) \<le> of_nat n" "\<not> fr_oldestFrag (dk_frame k d2) + of_nat ?W \<le> of_nat n"
      using win old i(4) by (simp_all add: not_less)
    from pb_store_spec [OF rep p h(2) k2 refl i(2) w none] obtain fr' where fr': "n \<notin> R"
      "pb_store hdr (pkt f n) k (n mod ?W) d2 = (Inr (), dk_setFrame k fr' d2)"
      "frame_rep pkt lst ?W f (insert n R) fr'" "fr_running fr' = fr_running (dk_frame k d2)" by blast
    have "slot_ok pkt lst ?W fr'" using fr'(3) n(3) by (auto simp: slot_ok_def)
    then have "depack_inv pkt lst a b (dk_setFrame k fr' d2)" by (rule depack_inv_setFrame [OF d2])
    moreover have "dk_out (dk_setFrame k fr' d2) = dk_out d2" "dk_oldestFrame (dk_setFrame k fr' d2) = dk_oldestFrame d2"
      "dk_isOpen (dk_setFrame k fr' d2) = dk_isOpen d2" "dk_queueUp (dk_setFrame k fr' d2) = dk_queueUp d2"
      by (simp_all add: dk_setFrame_def)
    ultimately show ?thesis using fr' k2 by auto
  qed
  have c: "((of_nat n :: u32) < fr_oldestFrag ?fr) = False" "(fr_oldestFrag ?fr + dk_fragWinSize d \<le> of_nat n) = False"
    using win by simp_all
  show ?thesis
  proof (cases "frame_free ?W ?fr")
    case True
    have R: "R = {}"
    proof (rule ccontr)
      assume "R \<noteq> {}"
      then have "frame_rep pkt lst ?W f R ?fr" using slot by simp
      then have "f = NO_FRAME" using rep_frameID True by (auto simp: frame_free_def)
      then show False using frame_not_none [OF n(3)] by simp
    qed
    let ?d0 = "dk_setFrame k (?fr\<lparr>fr_prod := Some [], fr_frameID := f\<rparr>) d"
    let ?o = "toFrameIdx d (dk_oldestFrame d)"
    have id: "(NO_FRAME = fr_frameID ?fr) = True" using True by (simp add: frame_free_def)
    have rep0: "frame_rep pkt lst ?W f {} (dk_frame k ?d0)" using frame_rep_empty [OF True] kl by simp
    have "frame_rep pkt lst ?W f {} (?fr\<lparr>fr_prod := Some [], fr_frameID := f\<rparr>)"
      using frame_rep_empty [OF True] by simp
    then have "slot_ok pkt lst ?W (?fr\<lparr>fr_prod := Some [], fr_frameID := f\<rparr>)"
      using n(3) unfolding slot_ok_def by blast
    then have inv0: "depack_inv pkt lst a b ?d0" by (rule depack_inv_setFrame [OF inv])
    have o: "?o < 2 ^ a" by (rule toFrameIdx_lt [OF inv])
    have "(k + 2 ^ a - ?o) mod 2 ^ a < Suc (length (dk_frameWin d))"
      using i(5) mod_less_divisor [of "2 ^ a" "k + 2 ^ a - ?o"] by (simp del: mod_less_divisor)
    moreover have "length (dk_frameWin ?d0) = 2 ^ a" "dk_frameWinSize ?d0 = of_nat (2 ^ a)"
      using inv0 by (simp_all add: depack_inv_def)
    ultimately obtain d1 where
      d1: "startTimeouts (Suc (length (dk_frameWin d))) (of_nat ?o) k ?d0 = (Inr (), d1)" "only_timers ?d0 d1"
      using startTimeouts_spec i(1) o kl(1) by blast
    let ?d2 = "startTimeout k d1"
    have l1: "k < length (dk_frameWin d1)" using d1(2) kl by (simp add: only_timers_def)
    have t: "only_timers ?d0 ?d2" by (rule only_timers_trans [OF d1(2) startTimeout_timers [OF l1]])
    have same: "same_frame (dk_frame k ?d0) (dk_frame k ?d2)"
    proof -
      have "k < length (dk_frameWin ?d0)" using kl by simp
      then show ?thesis using t unfolding only_timers_def by blast
    qed
    have f2: "frame_rep pkt lst ?W f R (dk_frame k ?d2)" using same_frame_rep [OF same rep0] R by simp
    have s2: "fr_oldestFrag (dk_frame k ?d2) = fr_oldestFrag ?fr" "fr_fragWin (dk_frame k ?d2) ! (n mod ?W) = None"
      using same True kl by (auto simp: same_frame_def frame_free_def)
    have run: "fr_running (dk_frame k ?d2)" using l1 by (simp add: startTimeout_def Let_def)
    have e: "?d2 = ?d0\<lparr>dk_frameWin := dk_frameWin ?d2\<rparr>" using t by (simp add: only_timers_def)
    have eo: "dk_out ?d2 = dk_out d" "dk_oldestFrame ?d2 = dk_oldestFrame d"
      "dk_isOpen ?d2 = dk_isOpen d" "dk_queueUp ?d2 = dk_queueUp d"
      by (subst e, simp add: dk_setFrame_def)+
    have st: "seqs (startTimeouts (Suc (length (dk_frameWin d))) (of_nat ?o) k # ms) ?d0 = seqs ms d1" for ms
      using d1(1) by (rule seqs_step)
    have "pb_frag hdr (pkt f n) d = pb_store hdr (pkt f n) k (n mod ?W) ?d2"
      unfolding pb_frag_def reading_app id_apply Let_def h k [symmetric] j c if_False id if_True seqs_upd st
      by (simp only: seqs.simps andThen_ret)
    moreover have "same_frame (dk_frame i d) (dk_frame i ?d2)" if "i < 2 ^ a" "i \<noteq> k" for i
      using t that i(5) by (auto simp: only_timers_def)
    ultimately show ?thesis using fin [OF only_timers_inv [OF t inv0] f2 s2] run eo by auto
  next
    case False
    then have rep: "frame_rep pkt lst ?W f R ?fr" and none: "fr_fragWin ?fr ! (n mod ?W) = None" using slot by auto
    have id: "fr_frameID ?fr = f" "NO_FRAME \<noteq> fr_frameID ?fr" using rep_frameID [OF rep] frame_not_none n by auto
    have lf: "\<not> (NO_FRAG \<noteq> fr_lastFrag ?fr \<and> fr_lastFrag ?fr < ph_fragNo hdr)"
    proof -
      have "fr_lastFrag ?fr = NO_FRAG \<or> fr_lastFrag ?fr = of_nat (lst f)" using rep_lastFrag [OF rep] by simp
      moreover have "\<not> (of_nat (lst f) :: u32) < of_nat n" using n by (simp add: word_less_nat_alt unat_of_nat_mod)
      ultimately show ?thesis using h by auto
    qed
    have "pb_frag hdr (pkt f n) d = pb_store hdr (pkt f n) k (n mod ?W) d"
      unfolding pb_frag_def reading_app id_apply Let_def h k [symmetric] j c if_False
      using id none lf h by auto
    then show ?thesis using fin [OF inv rep refl none] False same_frame_refl by auto
  qed
qed

lemma safe_pb_frag:
  assumes p: "sent_frag pkt lst f n" and h: "ax_frameNo hdr = f" "ph_fragNo hdr = of_nat n"
  shows "safe (depack_inv pkt lst a b) (pb_frag hdr (pkt f n))"
proof (rule safeI)
  fix d
  assume inv: "depack_inv pkt lst a b d"
  let ?I = "depack_inv pkt lst a b"
  define k where "k = toFrameIdx d f"
  let ?fr = "dk_frame k d" and ?W = "2 ^ b :: nat"
  have n: "n < 2 ^ 32" using p by (auto simp: sent_frag_def)
  have j: "toFragIdx d (of_nat n) = n mod ?W" using toFragIdx_mod [OF inv n] .
  have "slot_ok pkt lst ?W ?fr" using inv toFrameIdx_lt [OF inv] by (simp add: depack_inv_def k_def)
  then obtain R where slot: "frame_free ?W ?fr \<and> R = {} \<or> (\<exists>g. unat g < 4096 \<and> frame_rep pkt lst ?W g R ?fr)"
    by (auto simp: slot_ok_def)
  have drop: "wp (upd g) (\<lambda>_. ?I) (\<lambda>e t. ?I t \<and> e = BAD) d"
    if "dk_frameWin (g d) = dk_frameWin d" "dk_out (g d) = dk_out d" "dk_frameWinSize (g d) = dk_frameWinSize d"
      "dk_fragWinSize (g d) = dk_fragWinSize d" for g
    using depack_inv_cong [OF inv that] by (simp add: wp_upd)
  note unf = pb_frag_def wp_reading id_apply Let_def h(1) k_def [symmetric] h(2) j
  have taken: "frame_free ?W ?fr \<and> R = {} \<or>
      NO_FRAME \<noteq> fr_frameID ?fr \<and> (fr_frameID ?fr = f \<longrightarrow> frame_rep pkt lst ?W f R ?fr)"
    using slot rep_frameID frame_not_none by metis
  consider "of_nat n < fr_oldestFrag ?fr \<or> fr_oldestFrag ?fr + dk_fragWinSize d \<le> of_nat n"
    | "\<not> of_nat n < fr_oldestFrag ?fr" "\<not> fr_oldestFrag ?fr + dk_fragWinSize d \<le> of_nat n"
      "NO_FRAME \<noteq> fr_frameID ?fr" "fr_frameID ?fr \<noteq> f"
    | "\<not> of_nat n < fr_oldestFrag ?fr" "\<not> fr_oldestFrag ?fr + dk_fragWinSize d \<le> of_nat n"
      "NO_FRAME \<noteq> fr_frameID ?fr" "fr_frameID ?fr = f" "fr_fragWin ?fr ! (n mod ?W) \<noteq> None"
    | "\<not> of_nat n < fr_oldestFrag ?fr" "\<not> fr_oldestFrag ?fr + dk_fragWinSize d \<le> of_nat n"
      "frame_free ?W ?fr \<and> R = {} \<or> frame_rep pkt lst ?W f R ?fr \<and> fr_fragWin ?fr ! (n mod ?W) = None"
    using taken by argo
  then show "wp (pb_frag hdr (pkt f n)) (\<lambda>_. ?I) (\<lambda>e t. ?I t \<and> e = BAD) d"
  proof cases
    case 1
    then show ?thesis by (auto simp: unf wp_if intro!: drop)
  next
    case 2
    then show ?thesis using inv by (simp add: unf wp_if wp_raise BAD_def)
  next
    case 3
    then show ?thesis by (auto simp: unf wp_if intro!: drop)
  next
    case 4
    from pb_frag_stores [OF inv p h k_def 4(3,1,2)] show ?thesis by (auto simp: wp_def)
  qed
qed

end
