(* ===== verification/DepackProps.thy ===== *)
theory DepackProps
  imports DepackWin
begin

text \<open>
  What a run of the depacketizer hands down: whole frames, and nothing else.
\<close>

section \<open>Packets\<close>

lemma safe_pb_frame:
  assumes "sent_frag pkt lst f n" "ax_frameNo hdr = f" "ph_fragNo hdr = of_nat n"
  shows "safe (depack_inv pkt lst a b) (pb_frame hdr (pkt f n))"
proof (rule safeI)
  fix d
  let ?I = "depack_inv pkt lst a b"
  assume inv: "?I d"
  have ev: "?I (d\<lparr>evictedFrames := evictedFrames d + 1\<rparr>)" "?I (d\<lparr>newFrameDrops := newFrameDrops d + 1\<rparr>)"
    by (rule depack_inv_cong [OF inv]; simp)+
  obtain r d' where r: "releaseOldestFrame False (d\<lparr>evictedFrames := evictedFrames d + 1\<rparr>) = (Inr r, d')" "?I d'"
    using releaseOldestFrame_spec [OF ev(1)] by blast
  have rel: "wp (releaseOldestFrame False) Q E (d\<lparr>evictedFrames := evictedFrames d + 1\<rparr>) = Q r d'" for Q E
    by (simp add: wp_def r(1))
  show "wp (pb_frame hdr (pkt f n)) (\<lambda>_. ?I) (\<lambda>e t. ?I t \<and> e = BAD) d"
    unfolding pb_frame_def wp_reading id_apply Let_def wp_if wp_andThen wp_upd wp_bnd
    using safeD [OF safe_pb_frag [OF assms] inv] safeD [OF safe_frameSync ev(2)]
      rel safeD [OF safe_pb_frag [OF assms] r(2)] by simp
qed

lemma safe_processBuffer:
  assumes "sent_frag pkt lst f n"
  shows "safe (depack_inv pkt lst a b) (processBuffer (pkt f n))"
proof (rule safeI)
  fix d
  let ?I = "depack_inv pkt lst a b"
  assume inv: "?I d"
  obtain bh c where c: "pkt f n = bh # c" using assms by (cases "pkt f n") (auto simp: sent_frag_def pkt_ok_def)
  then obtain h where h: "axis_parse (b_view bh) (b_size bh) (axis_new 0 0 0) = (True, h)"
    "ax_frameNo h = f" "ph_fragNo h = of_nat n"
    using assms by (auto simp: sent_frag_def pkt_ok_def)
  have e: "processBuffer (pkt f n) = reading dk_oldestFrame (\<lambda>oldest.
         if f < oldest then
           (if NO_FRAME = oldest \<and> 0 = ph_fragNo h
            then andThen (upd (\<lambda>d. d\<lparr>dk_oldestFrame := f\<rparr>)) (pb_frame h (pkt f n))
            else andThen (upd (\<lambda>d. d\<lparr>oldFrameDrops := oldFrameDrops d + 1\<rparr>)) (frameSync h))
         else pb_frame h (pkt f n))"
    unfolding processBuffer_def c by (simp add: h cong: if_cong)
  have i: "?I (d\<lparr>dk_oldestFrame := f\<rparr>)" "?I (d\<lparr>oldFrameDrops := oldFrameDrops d + 1\<rparr>)"
    by (rule depack_inv_cong [OF inv]; simp)+
  note fr = safeD [OF safe_pb_frame [OF assms h(2,3)]]
  show "wp (processBuffer (pkt f n)) (\<lambda>_. ?I) (\<lambda>e t. ?I t \<and> e = BAD) d"
    unfolding e wp_reading wp_if wp_andThen wp_upd
    using fr [OF i(1)] fr [OF inv] safeD [OF safe_frameSync i(2)] by simp
qed

section \<open>Runs\<close>

text \<open>An event is the time and what the pop returns.\<close>

fun dk_run :: "(timeout \<times> chain option) list \<Rightarrow> (depack, unit) sem" where
  "dk_run [] = ret ()"
| "dk_run ((t, x) # evs) = andThen (upd (\<lambda>d. d\<lparr>dk_now := t\<rparr>)) (andThen (dk_round x) (dk_run evs))"

definition arrives :: "(u32 \<Rightarrow> nat \<Rightarrow> chain) \<Rightarrow> (u32 \<Rightarrow> nat) \<Rightarrow> (timeout \<times> chain option) list \<Rightarrow> bool" where
  "arrives pkt lst evs \<longleftrightarrow> (\<forall>(t, x) \<in> set evs. x = None \<or> (\<exists>f n. x = Some (pkt f n) \<and> sent_frag pkt lst f n))"

lemma arrives_intros:
  "arrives pkt lst []"
  "arrives pkt lst evs \<Longrightarrow> arrives pkt lst ((t, None) # evs)"
  "sent_frag pkt lst f n \<Longrightarrow> arrives pkt lst evs \<Longrightarrow> arrives pkt lst ((t, Some (pkt f n)) # evs)"
  by (auto simp: arrives_def)

lemma safe_round:
  assumes "x = None \<or> (\<exists>f n. x = Some (pkt f n) \<and> sent_frag pkt lst f n)"
  shows "safe (depack_inv pkt lst a b) (dk_round x)"
proof (cases x)
  case None
  let ?I = "depack_inv pkt lst a b"
  show ?thesis
  proof (rule safeI)
    fix d
    assume inv: "?I d"
    obtain r d' where r: "releaseOldestFrame False d = (Inr r, d')" "?I d'"
      using releaseOldestFrame_spec [OF inv] by blast
    have rel: "wp (releaseOldestFrame False) Q E d = Q r d'" for Q E by (simp add: wp_def r(1))
    have "?I (d'\<lparr>timedOutFrames := timedOutFrames d' + 1\<rparr>)" by (rule depack_inv_cong [OF r(2)]) simp_all
    from safeD [OF safe_releaseFrames this] show "wp (dk_round x) (\<lambda>_. ?I) (\<lambda>e t. ?I t \<and> e = BAD) d"
      by (simp add: None dk_round_def wp_bnd rel wp_andThen wp_upd)
  qed
next
  case (Some c)
  then show ?thesis
    using assms safe_andThen [OF safe_processBuffer safe_releaseFrames] by (auto simp: dk_round_def)
qed

lemma safe_run: "arrives pkt lst evs \<Longrightarrow> safe (depack_inv pkt lst a b) (dk_run evs)"
proof (induction evs)
  case Nil
  then show ?case by (simp add: safe_ret)
next
  case (Cons e evs)
  obtain t x where e: "e = (t, x)" by (cases e)
  have "safe (depack_inv pkt lst a b) (dk_round x)" "safe (depack_inv pkt lst a b) (dk_run evs)"
    using Cons e safe_round by (auto simp: arrives_def)
  moreover have "safe (depack_inv pkt lst a b) (upd (\<lambda>d. d\<lparr>dk_now := t\<rparr>))"
    by (rule safe_upd, erule depack_inv_cong) simp_all
  ultimately show ?case unfolding e dk_run.simps by (intro safe_andThen)
qed

text \<open>The bytes of a whole frame: the fragments without the headers of all but the first and the
  tails of all but the last.\<close>

definition frame_bytes :: "(u32 \<Rightarrow> nat \<Rightarrow> chain) \<Rightarrow> (u32 \<Rightarrow> nat) \<Rightarrow> u32 \<Rightarrow> u8 list" where
  "frame_bytes pkt lst f = concat (map (\<lambda>k. (if k \<noteq> lst f then butlast else id)
     (drop (if k \<noteq> 0 then 8 else 0) (c_bytes (pkt f k)))) [0..<lst f + 1])"

lemma whole_bytes:
  assumes "\<forall>k \<le> lst f. sent_frag pkt lst f k"
  shows "c_bytes (whole pkt lst f (lst f + 1)) = frame_bytes pkt lst f"
proof -
  have "c_bytes (concat cs) = concat (map c_bytes cs)" for cs by (induction cs) simp_all
  moreover have "map (\<lambda>k. c_bytes (strip (lst f) k (pkt f k))) [0..<lst f + 1]
      = map (\<lambda>k. (if k \<noteq> lst f then butlast else id) (drop (if k \<noteq> 0 then 8 else 0) (c_bytes (pkt f k)))) [0..<lst f + 1]"
  proof (rule map_cong [OF refl])
    fix k
    assume "k \<in> set [0..<lst f + 1]"
    then have "k \<le> lst f" by auto
    then have "sent_frag pkt lst f k" using assms by blast
    then have "pkt_ok f k (k = lst f) (pkt f k)" unfolding sent_frag_def by blast
    then show "c_bytes (strip (lst f) k (pkt f k))
        = (if k \<noteq> lst f then butlast else id) (drop (if k \<noteq> 0 then 8 else 0) (c_bytes (pkt f k)))"
      by (rule strip_bytes)
  qed
  ultimately show ?thesis unfolding whole_def frame_bytes_def map_map o_def by (simp only: map_map o_def)
qed

text \<open>Whatever fragments are lost, repeated or out of order, and whatever times out, every chain that is
  pushed is one whole frame.\<close>

lemma only_whole_frames:
  assumes "a \<le> 10" "b \<le> 10" "arrives pkt lst evs" "\<forall>f k. unat f < 4096 \<and> k \<le> lst f \<longrightarrow> sent_frag pkt lst f k"
  shows "case dk_run evs (depack_new a b tmo now isOpen mtu) of (r, d) \<Rightarrow>
     (r = Inr () \<or> r = Inl (InternalError ''Frame ID window inconsistency!''))
     \<and> (\<forall>c \<in> set (dk_out d). \<exists>f. c_bytes c = frame_bytes pkt lst f)"
proof -
  let ?I = "depack_inv pkt lst a b"
  have "wp (dk_run evs) (\<lambda>_. ?I) (\<lambda>e t. ?I t \<and> e = BAD) (depack_new a b tmo now isOpen mtu)"
    using safeD [OF safe_run [OF assms(3)] depack_inv_new [OF assms(1,2)]] .
  then obtain r d where r: "dk_run evs (depack_new a b tmo now isOpen mtu) = (r, d)" "?I d" "r = Inr () \<or> r = Inl BAD"
    by (auto simp: wp_def split: prod.splits sum.splits)
  have "\<exists>f. c_bytes c = frame_bytes pkt lst f" if "c \<in> set (dk_out d)" for c
  proof -
    obtain f where f: "unat f < 4096" "c = whole pkt lst f (lst f + 1)" using r(2) \<open>c \<in> set (dk_out d)\<close>
      by (auto simp: depack_inv_def)
    then have "\<forall>k \<le> lst f. sent_frag pkt lst f k" using assms(4) by blast
    from whole_bytes [of lst f pkt, OF this] f show ?thesis by blast
  qed
  then show ?thesis using r by (auto simp: BAD_def)
qed

section \<open>An example\<close>

text \<open>Frames of two fragments of one byte each.\<close>

definition ex_pkt :: "u32 \<Rightarrow> nat \<Rightarrow> chain" where
  "ex_pkt f k = (case axis_insert (axis_new f (of_nat k) 5) (replicate 8 0 @ [ucast f, if k = 1 then 0x80 else 0]) 8 of
     Inl _ \<Rightarrow> [] | Inr bs \<Rightarrow> [\<lparr>b_data = bs, b_beg = 0, b_end = 10\<rparr>])"

lemma ex_pkt_ok:
  assumes "unat f < 4096" "k \<le> 1"
  shows "sent_frag ex_pkt (\<lambda>_. 1) f k"
proof -
  let ?base = "replicate 8 0 @ [ucast f, if k = 1 then 0x80 else 0] :: u8 list"
  let ?h = "axis_new f (of_nat k) 5"
  have "8 \<le> length ?base" "(8 :: nat) \<le> 8" "ph_vers ?h = 0" "ph_fragNo ?h \<le> FRAG_MAX" "ax_frameNo ?h < push_bit 12 1"
    using assms by (auto simp: axis_new_def setSOF_def FRAG_MAX_def push_bit_of_1 word_le_nat_alt word_less_nat_alt le_Suc_eq)
  from axis_insert_parse [OF this, of "axis_new 0 0 0"] obtain bs where
    bs: "axis_insert ?h ?base 8 = Inr bs" "length bs = 10" "drop 8 bs = drop 8 ?base"
      "axis_parse bs 8 (axis_new 0 0 0) = (True, ?h)" by auto
  have "axis_parse bs 10 (axis_new 0 0 0) = axis_parse bs 8 (axis_new 0 0 0)"
    by (simp add: axis_parse_def ph_parse_def HEADER_SIZE_def Let_def cong: if_cong)
  moreover have "drop 9 bs = drop 9 ?base" using arg_cong [OF bs(3), of "drop 1"] by simp
  moreover have "ax_frameNo ?h = f" "ph_fragNo ?h = of_nat k" by (simp_all add: axis_new_def setSOF_def)
  ultimately show ?thesis
    using assms bs by (auto simp: sent_frag_def pkt_ok_def ex_pkt_def b_ok_def b_capa_def b_size_def b_view_def
        parseTailEOF_def AXIS_def tail_mask_def le_Suc_eq)
qed

end
