(* ===== verification/DepackLive.thy ===== *)
theory DepackLive
  imports DepackProps
begin

text \<open>
  The other direction: a frame all of whose fragments arrive is handed down. And the case in
  which the window is left inconsistent.
\<close>

section \<open>Every frame whose fragments arrive in the window is handed down\<close>

text \<open>The thread while fragments \<open>R\<close> of the oldest frame have arrived, but not all.\<close>

definition receiving :: "(u32 \<Rightarrow> nat \<Rightarrow> chain) \<Rightarrow> (u32 \<Rightarrow> nat) \<Rightarrow> nat \<Rightarrow> nat \<Rightarrow> u32 \<Rightarrow> nat set \<Rightarrow> depack \<Rightarrow> bool" where
  "receiving pkt lst a b f R d \<longleftrightarrow> depack_inv pkt lst a b d \<and> dk_oldestFrame d = f \<and> dk_isOpen d \<and> dk_queueUp d
     \<and> (frame_free (2 ^ b) (dk_frame (toFrameIdx d f) d) \<and> R = {}
        \<or> frame_rep pkt lst (2 ^ b) f R (dk_frame (toFrameIdx d f) d) \<and> fr_running (dk_frame (toFrameIdx d f) d))"

lemma toFrameIdx_inv: "depack_inv pkt lst a b d \<Longrightarrow> depack_inv pkt lst a b d' \<Longrightarrow> toFrameIdx d' f = toFrameIdx d f"
  by (simp add: toFrameIdx_def depack_inv_def)

lemma processBuffer_receives:
  assumes r: "receiving pkt lst a b f R d" and p: "sent_frag pkt lst f n" and n: "n \<notin> R" "n < 2 ^ b"
  shows "\<exists>d'. processBuffer (pkt f n) d = (Inr (), d') \<and> receiving pkt lst a b f (insert n R) d' \<and> dk_out d' = dk_out d"
proof -
  define k where "k = toFrameIdx d f"
  let ?fr = "dk_frame k d" and ?W = "2 ^ b :: nat"
  have inv: "depack_inv pkt lst a b d" and f: "dk_oldestFrame d = f"
    and slot: "frame_free ?W ?fr \<and> R = {} \<or> frame_rep pkt lst ?W f R ?fr \<and> fr_running ?fr"
    using r by (auto simp: receiving_def k_def)
  have W: "dk_fragWinSize d = of_nat ?W" "?W \<le> 2 ^ 10" "0 < ?W"
    using inv power_increasing [of b 10 "2 :: nat"] by (auto simp: depack_inv_def)
  have nb: "n < 2 ^ 24" "unat f < 4096" using p by (auto simp: sent_frag_def)
  obtain bh c h where c: "pkt f n = bh # c" "axis_parse (b_view bh) (b_size bh) (axis_new 0 0 0) = (True, h)"
    "ax_frameNo h = f" "ph_fragNo h = of_nat n"
    using p by (cases "pkt f n") (auto simp: sent_frag_def pkt_ok_def)
  have "processBuffer (pkt f n) d = pb_frame h (pkt f n) d"
    unfolding processBuffer_def c(1) by (simp add: c f sem_app)
  also have "\<dots> = pb_frag h (pkt f n) d"
  proof -
    have "\<not> dk_frameWinSize d \<le> moduloFrameSz (f - f)"
      using inv by (auto simp: depack_inv_def moduloFrameSz_def)
    then show ?thesis unfolding pb_frame_def reading_app id_apply Let_def c(3) f by simp
  qed
  finally have e: "processBuffer (pkt f n) d = pb_frag h (pkt f n) d" .
  obtain m where m: "fr_oldestFrag ?fr = of_nat m" "m \<le> n" "m < 2 ^ 24"
    "frame_rep pkt lst ?W f R ?fr \<longrightarrow> fr_fragWin ?fr ! (n mod ?W) = None"
  proof (cases "frame_free ?W ?fr")
    case True
    then have "fr_oldestFrag ?fr = of_nat 0" "(0 :: nat) \<le> n" by (simp_all add: frame_free_def)
    moreover have "fr_fragWin ?fr ! (n mod ?W) = None" using True W by (simp add: frame_free_def)
    ultimately show ?thesis using that [of 0] by auto
  next
    case False
    then obtain m where m: "frame_at pkt lst ?W f R m ?fr" "m \<notin> R"
      using slot by (auto simp: frame_rep_def)
    then have mn: "m \<le> n" using n(1) by (auto simp: frame_at_def not_less [symmetric])
    moreover have "fr_fragWin ?fr ! (n mod ?W) = None" using m mn n by (auto simp: frame_at_def)
    moreover have "fr_oldestFrag ?fr = of_nat m" using m by (simp add: frame_at_def)
    ultimately show ?thesis using that [of m] nb by auto
  qed
  have un: "unat (of_nat m :: u32) = m" "unat (of_nat n :: u32) = n" "unat (of_nat m + of_nat ?W :: u32) = m + ?W"
  proof -
    show "unat (of_nat m :: u32) = m" "unat (of_nat n :: u32) = n" using m(3) nb by (simp_all add: unat_of_nat_mod)
    have "unat (of_nat (m + ?W) :: u32) = (m + ?W) mod 2 ^ 32" by (simp only: unat_of_nat_mod len_num1 len_bit0 len_bit1) simp
    also have "\<dots> = m + ?W" by (rule mod_less) (use m(3) W(2) in simp)
    finally show "unat (of_nat m + of_nat ?W :: u32) = m + ?W" by (simp only: of_nat_add)
  qed
  have win: "\<not> of_nat n < fr_oldestFrag ?fr" "\<not> fr_oldestFrag ?fr + dk_fragWinSize d \<le> of_nat n"
    unfolding m(1) W(1) word_less_nat_alt word_le_nat_alt un using m(2) n(2) by linarith+
  have slot2: "frame_free ?W ?fr \<and> R = {} \<or> frame_rep pkt lst ?W f R ?fr \<and> fr_fragWin ?fr ! (n mod ?W) = None"
    using slot m(4) by blast
  from pb_frag_stores [OF inv p c(3,4) k_def slot2 win] obtain d' where d':
    "pb_frag h (pkt f n) d = (Inr (), d')" "depack_inv pkt lst a b d'" "frame_rep pkt lst ?W f (insert n R) (dk_frame k d')"
    "dk_out d' = dk_out d" "dk_oldestFrame d' = dk_oldestFrame d" "dk_isOpen d' = dk_isOpen d" "dk_queueUp d' = dk_queueUp d"
    "frame_free ?W ?fr \<or> fr_running ?fr \<longrightarrow> fr_running (dk_frame k d')" by blast
  have "toFrameIdx d' f = k" using toFrameIdx_inv [OF inv d'(2)] by (simp add: k_def)
  then have "receiving pkt lst a b f (insert n R) d'"
    using d' r slot by (auto simp: receiving_def)
  then show ?thesis using e d' by auto
qed

text \<open>Nothing is released before the last fragment; then the frame is.\<close>

lemma releaseFrames_receiving:
  assumes r: "receiving pkt lst a b f R d" and ne: "R \<noteq> {}" and f: "unat f < 4096"
  shows "if R = {..lst f} then \<exists>d' cs. releaseFrames True d = (Inr (), d') \<and> dk_out d' = dk_out d @ whole pkt lst f (lst f + 1) # cs
       \<and> depack_inv pkt lst a b d'
     else releaseFrames True d = (Inr (), d)"
proof -
  define k where "k = toFrameIdx d f"
  let ?fr = "dk_frame k d"
  have inv: "depack_inv pkt lst a b d" and d: "dk_oldestFrame d = f" "dk_isOpen d" "dk_queueUp d"
    and rep: "frame_rep pkt lst (2 ^ b) f R ?fr" and run: "fr_running ?fr"
    using r ne by (auto simp: receiving_def k_def)
  have kk: "unat (f AND (dk_frameWinSize d - 1)) = k" by (simp add: k_def toFrameIdx_def)
  have nf: "(NO_FRAME = f) = False" using frame_not_none [OF f] by simp
  have cpl: "fr_isComplete ?fr \<longleftrightarrow> R = {..lst f}" using rep by (auto simp: frame_rep_def)
  show ?thesis
  proof (cases "R = {..lst f}")
    case False
    then have "releaseOldestFrame True d = (Inr False, d)"
      by (simp add: releaseOldestFrame_def sem_app d nf kk cpl Let_def)
    then show ?thesis using False by (simp add: releaseFrames_def sem_app bnd_def)
  next
    case True
    have ok: "slot_ok pkt lst (2 ^ b) ?fr" using rep f by (auto simp: slot_ok_def)
    obtain g where g: "fr_prod ?fr = Some (whole pkt lst g (lst g + 1))"
      using complete_whole [OF ok] cpl True by blast
    have prod: "fr_prod ?fr = Some (whole pkt lst f (lst f + 1))"
    proof -
      obtain m where m: "frame_at pkt lst (2 ^ b) f R m ?fr" "m \<notin> R" using rep by (auto simp: frame_rep_def)
      have "m \<le> lst f + 1"
      proof (rule ccontr)
        assume "\<not> m \<le> lst f + 1"
        then have "lst f + 1 \<in> R" using m(1) by (simp add: frame_at_def)
        then show False using True by simp
      qed
      then have "m = lst f + 1" using m(2) True by auto
      then show ?thesis using m(1) by (simp add: frame_at_def)
    qed
    obtain rr d1 where d1: "releaseOldestFrame True d = (Inr rr, d1)" "depack_inv pkt lst a b d1"
      "rr \<longrightarrow> running d1 < running d"
      using releaseOldestFrame_spec [OF inv, of True] by blast
    have out: "rr \<and> dk_out d1 = dk_out d @ [whole pkt lst f (lst f + 1)]"
    proof -
      have "(releaseOldestFrame True d) = (Inr True, snd (releaseOldestFrame True d))
         \<and> dk_out (snd (releaseOldestFrame True d)) = dk_out d @ [whole pkt lst f (lst f + 1)]"
        using d run cpl True prod
        by (simp add: releaseOldestFrame_def sem_app nf kk Let_def pushDown_def andThen_def bnd_def dk_setFrame_def)
      then show ?thesis using d1(1) by auto
    qed
    have "running d1 < length (dk_frameWin d)"
    proof -
      have "running d \<le> length (dk_frameWin d)" by (simp add: running_def)
      then show ?thesis using d1(3) out by linarith
    qed
    from releaseFrames_loop_spec [OF d1(2) this, of True] obtain d2 cs where
      d2: "releaseFrames_loop (length (dk_frameWin d)) True d1 = (Inr (), d2)" "depack_inv pkt lst a b d2" "dk_out d2 = dk_out d1 @ cs" by blast
    have "releaseFrames True d = (Inr (), d2)"
      using d1(1) out d2(1) by (simp add: releaseFrames_def sem_app bnd_def)
    then show ?thesis using True out d2(2,3) by auto
  qed
qed

lemma run_receives:
  assumes "receiving pkt lst a b f R d" "distinct (map snd tns)" "R \<inter> snd ` set tns = {}" "R \<union> snd ` set tns = {..lst f}"
    "tns \<noteq> []" "\<forall>n \<le> lst f. sent_frag pkt lst f n" "lst f < 2 ^ b"
  shows "\<exists>d' cs. dk_run (map (\<lambda>(t, n). (t, Some (pkt f n))) tns) d = (Inr (), d')
    \<and> dk_out d' = dk_out d @ whole pkt lst f (lst f + 1) # cs"
  using assms
proof (induction tns arbitrary: R d)
  case (Cons tn tns)
  obtain t n where tn: "tn = (t, n)" by (cases tn)
  let ?d = "d\<lparr>dk_now := t\<rparr>"
  have "depack_inv pkt lst a b ?d" by (rule depack_inv_cong) (use Cons.prems(1) in \<open>auto simp: receiving_def\<close>)
  then have rd: "receiving pkt lst a b f R ?d"
    using Cons.prems(1) by (auto simp: receiving_def dk_frame_def toFrameIdx_def)
  have n: "n \<notin> R" "n \<le> lst f" using Cons.prems(3,4) tn by auto
  have sf: "sent_frag pkt lst f n" using Cons.prems(6) n by blast
  then have f: "unat f < 4096" by (simp add: sent_frag_def)
  obtain d1 where d1: "processBuffer (pkt f n) ?d = (Inr (), d1)" "receiving pkt lst a b f (insert n R) d1" "dk_out d1 = dk_out d"
    using processBuffer_receives [OF rd sf n(1)] n(2) Cons.prems(7) by auto
  note rel = releaseFrames_receiving [OF d1(2) insert_not_empty f]
  have step: "dk_run (map (\<lambda>(t, n). (t, Some (pkt f n))) (tn # tns)) d
     = andThen (releaseFrames True) (dk_run (map (\<lambda>(t, n). (t, Some (pkt f n))) tns)) d1"
  proof -
    have "dk_run (map (\<lambda>(t, n). (t, Some (pkt f n))) (tn # tns)) d
      = andThen (processBuffer (pkt f n)) (andThen (releaseFrames True) (dk_run (map (\<lambda>(t, n). (t, Some (pkt f n))) tns))) ?d"
      by (simp add: tn dk_round_def andThen_assoc)
    also have "\<dots> = andThen (releaseFrames True) (dk_run (map (\<lambda>(t, n). (t, Some (pkt f n))) tns)) d1"
      using d1(1) by (rule andThen_Inr)
    finally show ?thesis .
  qed
  show ?case
  proof (cases tns)
    case Nil
    then have "insert n R = {..lst f}" using Cons.prems(4) tn by auto
    then obtain d' cs where "releaseFrames True d1 = (Inr (), d')" "dk_out d' = dk_out d1 @ whole pkt lst f (lst f + 1) # cs"
      using rel by auto
    then show ?thesis unfolding step using Nil d1(3) by simp
  next
    case (Cons x xs)
    then have "snd x \<in> {..lst f}" "snd x \<noteq> n" "snd x \<notin> R" using Cons.prems(2,3,4) tn by auto
    then have "insert n R \<noteq> {..lst f}" by auto
    then have "releaseFrames True d1 = (Inr (), d1)" using rel by auto
    then have "dk_run (map (\<lambda>(t, n). (t, Some (pkt f n))) (tn # tns)) d = dk_run (map (\<lambda>(t, n). (t, Some (pkt f n))) tns) d1"
      unfolding step by (rule andThen_Inr)
    moreover have "insert n R \<inter> snd ` set tns = {}" "insert n R \<union> snd ` set tns = {..lst f}"
      using Cons.prems(2,3,4) tn by auto
    ultimately show ?thesis
      using Cons.IH [OF d1(2)] Cons.prems(2,6,7) Cons d1(3) by auto
  qed
qed simp

text \<open>C6: When all fragments of the frame that is due next arrive, in any order, and there are no
  more of them than the fragment window has slots, the frame is handed down.\<close>

theorem depack_delivers:
  assumes "depack_inv pkt lst a b d" "dk_oldestFrame d = f" "frame_free (2 ^ b) (dk_frame (toFrameIdx d f) d)"
    "dk_isOpen d" "dk_queueUp d" "distinct ns" "set ns = {..lst f}" "\<forall>n \<le> lst f. sent_frag pkt lst f n" "lst f < 2 ^ b"
  shows "\<exists>d' c cs. dk_run (map (\<lambda>n. (t, Some (pkt f n))) ns) d = (Inr (), d') \<and> dk_out d' = dk_out d @ c # cs
    \<and> c_bytes c = frame_bytes pkt lst f"
proof -
  let ?tns = "map (\<lambda>n. (t, n)) ns"
  have "receiving pkt lst a b f {} d" using assms by (simp add: receiving_def)
  moreover have "map snd ?tns = ns" "snd ` set ?tns = {..lst f}" by (simp_all add: o_def image_image assms(7))
  moreover have "?tns \<noteq> []" using assms(7) by auto
  ultimately obtain d' cs where "dk_run (map (\<lambda>(t, n). (t, Some (pkt f n))) ?tns) d = (Inr (), d')"
    "dk_out d' = dk_out d @ whole pkt lst f (lst f + 1) # cs"
    using run_receives [of pkt lst a b f "{}" d ?tns] assms by auto
  then show ?thesis using whole_bytes [OF assms(8)] by (simp add: o_def)
qed


lemma depack_delivers_witness:
  "\<exists>d' c cs. dk_run (map (\<lambda>n. (Timeout 0 0, Some (ex_pkt 7 n))) [1, 0])
      ((depack_new 1 1 (Timeout 0 5) (Timeout 0 0) True 1500)\<lparr>dk_oldestFrame := 7\<rparr>) = (Inr (), d')
    \<and> dk_out d' = [c] @ cs \<and> c_bytes c = frame_bytes ex_pkt (\<lambda>_. 1) 7"
proof -
  let ?d = "(depack_new 1 1 (Timeout 0 5) (Timeout 0 0) True 1500)\<lparr>dk_oldestFrame := 7\<rparr>"
  have new: "depack_inv ex_pkt (\<lambda>_. 1) 1 1 (depack_new 1 1 (Timeout 0 5) (Timeout 0 0) True 1500)"
    by (rule depack_inv_new) simp_all
  have "depack_inv ex_pkt (\<lambda>_. 1) 1 1 ?d" by (rule depack_inv_cong [OF new]) simp_all
  moreover have "dk_oldestFrame ?d = 7" "dk_isOpen ?d" "dk_queueUp ?d" "dk_out ?d = []" by (simp_all add: depack_new_def)
  moreover have "toFrameIdx ?d 7 < 2"
    using toFrameIdx_lt [OF \<open>depack_inv ex_pkt (\<lambda>_. 1) 1 1 ?d\<close>, of 7] by simp
  then have "frame_free (2 ^ 1) (dk_frame (toFrameIdx ?d 7) ?d)"
    using free_new [of 2] by (simp add: dk_frame_def depack_new_def)
  moreover have "distinct [1, 0 :: nat]" "set [1, 0 :: nat] = {..1}" by auto
  moreover have "\<forall>n \<le> 1. sent_frag ex_pkt (\<lambda>_. 1) 7 n" using ex_pkt_ok by simp
  ultimately show ?thesis
    using depack_delivers [of ex_pkt "\<lambda>_. 1" 1 1 ?d 7 "[1, 0]" "Timeout 0 0"] by simp
qed

section \<open>An inconsistent window\<close>

lemma packet_hdr:
  assumes "sent_frag pkt lst f n"
  obtains bh c h where "pkt f n = bh # c" "axis_parse (b_view bh) (b_size bh) (axis_new 0 0 0) = (True, h)"
    "ax_frameNo h = f" "ph_fragNo h = of_nat n"
  using assms by (cases "pkt f n") (auto simp: sent_frag_def pkt_ok_def)

lemma processBuffer_frame:
  assumes "sent_frag pkt lst f n" "\<not> f < dk_oldestFrame d"
  obtains h where "processBuffer (pkt f n) d = pb_frame h (pkt f n) d" "ax_frameNo h = f" "ph_fragNo h = of_nat n"
proof -
  obtain bh c h where c: "pkt f n = bh # c" "axis_parse (b_view bh) (b_size bh) (axis_new 0 0 0) = (True, h)"
    "ax_frameNo h = f" "ph_fragNo h = of_nat n" using assms(1) by (rule packet_hdr)
  have "processBuffer (pkt f n) d = pb_frame h (pkt f n) d"
    unfolding processBuffer_def c(1) using assms(2) by (simp add: c sem_app)
  then show ?thesis using that c(3,4) by blast
qed

text \<open>A frame that is one window ahead takes the slot of the oldest one, if that is not
  running: it is not evicted.\<close>

lemma not_evicted:
  assumes inv: "depack_inv pkt lst a b d" and o: "dk_oldestFrame d = u" "unat u + 2 ^ a < 4096"
    and free: "frame_free (2 ^ b) (dk_frame (toFrameIdx d u) d)" "\<not> fr_running (dk_frame (toFrameIdx d u) d)"
    and p: "sent_frag pkt lst (u + of_nat (2 ^ a)) n" "n < 2 ^ b"
  shows "\<exists>d'. processBuffer (pkt (u + of_nat (2 ^ a)) n) d = (Inr (), d') \<and> depack_inv pkt lst a b d'
    \<and> dk_oldestFrame d' = u \<and> frame_rep pkt lst (2 ^ b) (u + of_nat (2 ^ a)) {n} (dk_frame (toFrameIdx d u) d')"
proof -
  let ?f = "u + of_nat (2 ^ a) :: u32" and ?d = "d\<lparr>evictedFrames := evictedFrames d + 1\<rparr>"
  define k where "k = toFrameIdx d u"
  have i: "a \<le> 10" "dk_frameWinSize d = of_nat (2 ^ a)" "dk_fragWinSize d = of_nat (2 ^ b)" "b \<le> 10"
    using inv by (simp_all add: depack_inv_def)
  have pw: "(2 :: nat) ^ a \<le> 2 ^ 10" "(2 :: nat) ^ b \<le> 2 ^ 10"
    using i power_increasing [of a 10 "2 :: nat"] power_increasing [of b 10 "2 :: nat"] by simp_all
  have uw: "unat (of_nat (2 ^ c) :: u32) = 2 ^ c" if "(2 :: nat) ^ c \<le> 2 ^ 10" for c
    unfolding unat_of_nat_mod by (rule mod_less) (use that in simp)
  have uf: "unat ?f = unat u + 2 ^ a"
    unfolding unat_word_ariths uw [OF pw(1)] by (rule mod_less) (use o(2) in simp)
  have nlt: "\<not> ?f < dk_oldestFrame d" using uf o by (simp add: word_less_nat_alt)
  obtain h where h: "processBuffer (pkt ?f n) d = pb_frame h (pkt ?f n) d" "ax_frameNo h = ?f" "ph_fragNo h = of_nat n"
    using processBuffer_frame [OF p(1) nlt] by blast
  have rel: "moduloFrameSz (?f - u) = dk_frameWinSize d"
  proof -
    have "unat (moduloFrameSz (?f - u)) = unat (of_nat (2 ^ a) :: u32) mod 2 ^ 12"
      by (simp only: moduloFrameSz_def add_diff_cancel_left' push_bit_of_1 mask_eq_minus unat_and_mask)
    then have "unat (moduloFrameSz (?f - u)) = unat (dk_frameWinSize d)" using uw [OF pw(1)] pw(1) i(2) by simp
    then show ?thesis by (simp only: word_unat_eq_iff)
  qed
  have idx: "toFrameIdx ?d ?f = k"
  proof -
    have "unat (x AND (of_nat (2 ^ a) - 1) :: u32) = unat x mod 2 ^ a" for x :: u32 by (simp add: unat_and_mask)
    then show ?thesis using uf i(2) by (simp add: toFrameIdx_def k_def)
  qed
  have "releaseOldestFrame False ?d = (Inr False, ?d)"
    using free(2) o(1) by (simp add: releaseOldestFrame_def sem_app Let_def dk_frame_def toFrameIdx_def)
  then have e: "pb_frame h (pkt ?f n) d = pb_frag h (pkt ?f n) ?d"
    unfolding pb_frame_def reading_app id_apply Let_def h(2) o(1) rel by (simp add: bnd_def)
  have invd: "depack_inv pkt lst a b ?d" by (rule depack_inv_cong [OF inv]) simp_all
  have fr: "dk_frame k ?d = dk_frame k d" by (simp add: dk_frame_def)
  have slot: "frame_free (2 ^ b) (dk_frame k ?d) \<and> {} = {} \<or>
    frame_rep pkt lst (2 ^ b) ?f {} (dk_frame k ?d) \<and> fr_fragWin (dk_frame k ?d) ! (n mod 2 ^ b) = None"
    unfolding fr using free(1) by (simp add: k_def)
  have old: "fr_oldestFrag (dk_frame k ?d) = 0" unfolding fr using free(1) by (simp add: k_def frame_free_def)
  have un: "unat (of_nat n :: u32) = n" using p(2) pw by (simp add: unat_of_nat_mod)
  have win: "\<not> of_nat n < fr_oldestFrag (dk_frame k ?d)" "\<not> fr_oldestFrag (dk_frame k ?d) + dk_fragWinSize ?d \<le> of_nat n"
    unfolding old word_le_nat_alt using un p(2) uw [OF pw(2)] i(3) by simp_all
  from pb_frag_stores [OF invd p(1) h(2,3) idx [symmetric] slot win] obtain d' where
    "pb_frag h (pkt ?f n) ?d = (Inr (), d')" "depack_inv pkt lst a b d'" "frame_rep pkt lst (2 ^ b) ?f {n} (dk_frame k d')"
    "dk_oldestFrame d' = dk_oldestFrame ?d" by auto
  then show ?thesis using h(1) e o(1) by (auto simp: k_def)
qed

text \<open>C22: The exception that ``should never happen'' happens: when the frame that is due next has
  not begun to arrive and neither has any after it, the first fragment of the frame one window
  ahead takes its slot. When the frame that was due does come, the thread dies.\<close>

theorem depack_inconsistent:
  assumes "depack_inv pkt lst a b d" "dk_oldestFrame d = u" "unat u + 2 ^ a < 4096"
    "frame_free (2 ^ b) (dk_frame (toFrameIdx d u) d)" "\<not> fr_running (dk_frame (toFrameIdx d u) d)"
    "sent_frag pkt lst (u + of_nat (2 ^ a)) n" "n < 2 ^ b" "0 < lst (u + of_nat (2 ^ a))"
    "sent_frag pkt lst u n'" "0 < n'" "n' < 2 ^ b"
  shows "fst (dk_run [(t, Some (pkt (u + of_nat (2 ^ a)) n)), (t', Some (pkt u n'))] d)
    = Inl (InternalError ''Frame ID window inconsistency!'')"
proof -
  let ?f = "u + of_nat (2 ^ a) :: u32" and ?d = "d\<lparr>dk_now := t\<rparr>" and ?W = "2 ^ b :: nat"
  define k where "k = toFrameIdx d u"
  have invd: "depack_inv pkt lst a b ?d" by (rule depack_inv_cong [OF assms(1)]) simp_all
  have same: "dk_frame j ?d = dk_frame j d" "toFrameIdx ?d x = toFrameIdx d x" for j x
    by (simp_all add: dk_frame_def toFrameIdx_def)
  obtain d1 where d1: "processBuffer (pkt ?f n) ?d = (Inr (), d1)" "depack_inv pkt lst a b d1" "dk_oldestFrame d1 = u"
    "frame_rep pkt lst ?W ?f {n} (dk_frame k d1)"
    using not_evicted [OF invd, of u n] assms by (auto simp: same k_def)
  have fu: "unat u < 4096" "unat ?f < 4096" "?f \<noteq> u" "NO_FRAME \<noteq> ?f"
  proof -
    show "unat u < 4096" "unat ?f < 4096" using assms(6,9) by (simp_all add: sent_frag_def)
    then show "NO_FRAME \<noteq> ?f" by (intro frame_not_none)
    have "(2 :: nat) ^ a < 2 ^ 32" using assms(3) by simp
    then have "unat (of_nat (2 ^ a) :: u32) = 2 ^ a" unfolding unat_of_nat_mod by (intro mod_less) simp
    then have "(of_nat (2 ^ a) :: u32) \<noteq> 0" by (metis power_not_zero unat_0 zero_neq_numeral)
    then show "?f \<noteq> u" by simp
  qed
  have nc: "\<not> fr_isComplete (dk_frame k d1)"
  proof -
    have "{n} \<noteq> {..lst ?f}"
    proof
      assume "{n} = {..lst ?f}"
      then have "0 \<in> {n}" "1 \<in> {n}" using assms(8) by auto
      then show False by simp
    qed
    then show ?thesis using d1(4) by (auto simp: frame_rep_def)
  qed
  have k1: "toFrameIdx d1 u = k" using toFrameIdx_inv [OF assms(1) d1(2)] by (simp add: k_def)
  have "releaseOldestFrame True d1 = (Inr False, d1)"
    using nc k1 d1(3) by (simp add: releaseOldestFrame_def sem_app Let_def toFrameIdx_def)
  then have rel: "releaseFrames True d1 = (Inr (), d1)" by (simp add: releaseFrames_def sem_app bnd_def)
  let ?d1 = "d1\<lparr>dk_now := t'\<rparr>"
  have same1: "dk_frame j ?d1 = dk_frame j d1" "toFrameIdx ?d1 x = toFrameIdx d1 x" for j x
    by (simp_all add: dk_frame_def toFrameIdx_def)
  have nlt: "\<not> u < dk_oldestFrame ?d1" using d1(3) by simp
  obtain h where h: "processBuffer (pkt u n') ?d1 = pb_frame h (pkt u n') ?d1" "ax_frameNo h = u" "ph_fragNo h = of_nat n'"
    using processBuffer_frame [OF assms(9) nlt] by blast
  have "\<not> dk_frameWinSize ?d1 \<le> moduloFrameSz (u - u)"
    using d1(2) by (auto simp: depack_inv_def moduloFrameSz_def)
  then have e: "pb_frame h (pkt u n') ?d1 = pb_frag h (pkt u n') ?d1"
    unfolding pb_frame_def reading_app id_apply Let_def h(2) using d1(3) by simp
  obtain m where m: "fr_oldestFrag (dk_frame k d1) = of_nat m" "m \<le> 1"
  proof -
    obtain m where m: "frame_at pkt lst ?W ?f {n} m (dk_frame k d1)" using d1(4) by (auto simp: frame_rep_def)
    then have "\<forall>k < m. k = n" by (simp add: frame_at_def)
    then have "m \<le> 1"
    proof (rule contrapos_pp)
      assume "\<not> m \<le> 1"
      then have "0 < m" "1 < m" by simp_all
      then show "\<not> (\<forall>k < m. k = n)" by (metis zero_neq_one)
    qed
    then show ?thesis using that m by (simp add: frame_at_def)
  qed
  have b10: "?W \<le> 2 ^ 10" using d1(2) power_increasing [of b 10 "2 :: nat"] by (simp add: depack_inv_def)
  have un: "unat (of_nat n' :: u32) = n'" "unat (of_nat m :: u32) = m" "unat (of_nat m + of_nat ?W :: u32) = m + ?W"
  proof -
    show "unat (of_nat n' :: u32) = n'" "unat (of_nat m :: u32) = m" using assms(11) b10 m(2) by (simp_all add: unat_of_nat_mod)
    have "unat (of_nat (m + ?W) :: u32) = (m + ?W) mod 2 ^ 32" by (simp only: unat_of_nat_mod len_num1 len_bit0 len_bit1) simp
    also have "\<dots> = m + ?W" by (rule mod_less) (use m(2) b10 in simp)
    finally show "unat (of_nat m + of_nat ?W :: u32) = m + ?W" by (simp only: of_nat_add)
  qed
  have fw: "dk_fragWinSize ?d1 = of_nat ?W" using d1(2) by (simp add: depack_inv_def)
  have c: "((of_nat n' :: u32) < of_nat m) = False" "((of_nat m :: u32) + of_nat ?W \<le> of_nat n') = False"
    unfolding word_less_nat_alt word_le_nat_alt un using m(2) assms(10,11) by simp_all
  have id: "fr_frameID (dk_frame k d1) = ?f" using d1(4) by (rule rep_frameID)
  have "pb_frag h (pkt u n') ?d1 = raise BAD ?d1"
    unfolding pb_frag_def reading_app id_apply Let_def h(2,3) same1 k1 m(1) fw c id if_False BAD_def
    using fu by simp
  then have p2: "dk_round (Some (pkt u n')) ?d1 = (Inl BAD, ?d1)"
    using h(1) e by (simp add: dk_round_def andThen_def bnd_def sem_app)
  have "dk_run [(t, Some (pkt ?f n)), (t', Some (pkt u n'))] d = andThen (dk_round (Some (pkt u n'))) (ret ()) ?d1"
    using d1(1) rel by (simp add: dk_round_def andThen_def bnd_def sem_app)
  then show ?thesis using p2 by (simp add: BAD_def)
qed

lemma depack_inconsistent_witness:
  "fst (dk_run [(Timeout 0 0, Some (ex_pkt 3 0)), (Timeout 0 1, Some (ex_pkt 1 1))]
      ((depack_new 1 1 (Timeout 0 5) (Timeout 0 0) True 1500)\<lparr>dk_oldestFrame := 1\<rparr>))
    = Inl (InternalError ''Frame ID window inconsistency!'')"
proof -
  let ?d = "(depack_new 1 1 (Timeout 0 5) (Timeout 0 0) True 1500)\<lparr>dk_oldestFrame := 1\<rparr>"
  have new: "depack_inv ex_pkt (\<lambda>_. 1) 1 1 (depack_new 1 1 (Timeout 0 5) (Timeout 0 0) True 1500)"
    by (rule depack_inv_new) simp_all
  have inv: "depack_inv ex_pkt (\<lambda>_. 1) 1 1 ?d" by (rule depack_inv_cong [OF new]) simp_all
  then have "toFrameIdx ?d 1 < 2" using toFrameIdx_lt [OF inv, of 1] by simp
  then have "dk_frame (toFrameIdx ?d 1) ?d = cframe_new 2" by (simp add: dk_frame_def depack_new_def)
  then have "frame_free (2 ^ 1) (dk_frame (toFrameIdx ?d 1) ?d)" "\<not> fr_running (dk_frame (toFrameIdx ?d 1) ?d)"
    using free_new [of 2] by (simp_all add: cframe_new_def)
  moreover have "sent_frag ex_pkt (\<lambda>_. 1) (1 + of_nat (2 ^ 1)) 0" "sent_frag ex_pkt (\<lambda>_. 1) 1 1"
    by (rule ex_pkt_ok; simp)+
  ultimately show ?thesis
    using depack_inconsistent [OF inv, of 1 0 1 "Timeout 0 0" "Timeout 0 1"] by simp
qed

end
