(* ===== verification/DepackOrder.thy ===== *)
theory DepackOrder
  imports DepackLive
begin

text \<open>
  The order in which the depacketizer hands frames down. As long as no frame arrives that is ahead of the window, or so far
  behind it that the window is moved, the frames come out in the order of their numbers, each at most once, and the exception
  for an inconsistent window cannot occur.
\<close>

section \<open>Frames in the window\<close>

text \<open>The number of the frame \<open>j\<close> frames after number \<open>o\<close>.\<close>

definition frame_no :: "nat \<Rightarrow> nat \<Rightarrow> u32" where
  "frame_no s j = of_nat ((s + j) mod 4096)"

lemma unat_frame_no [simp]: "unat (frame_no s j) = (s + j) mod 4096"
proof -
  have "(s + j) mod 4096 < 4096" by simp
  then have "(s + j) mod 4096 < 2 ^ 32" by (rule order_less_trans) simp
  then show ?thesis by (simp add: frame_no_def unat_of_nat_mod)
qed




text \<open>Frame \<open>t\<close> is due next; the frames in the window are those up to one window ahead, each in its slot; those handed down
  are whole, in order, and were due before.\<close>

definition in_order :: "(u32 \<Rightarrow> nat \<Rightarrow> chain) \<Rightarrow> (u32 \<Rightarrow> nat) \<Rightarrow> nat \<Rightarrow> nat \<Rightarrow> nat \<Rightarrow> nat list \<Rightarrow> depack \<Rightarrow> bool" where
  "in_order pkt lst a s t js d \<longleftrightarrow> dk_oldestFrame d = frame_no s t
     \<and> (\<forall>k < 2 ^ a. fr_frameID (dk_frame k d) \<noteq> NO_FRAME \<longrightarrow>
         (\<exists>r < 2 ^ a. fr_frameID (dk_frame k d) = frame_no s (t + r) \<and> k = (s + t + r) mod 2 ^ a))
     \<and> sorted_wrt (<) js \<and> (\<forall>j \<in> set js. j < t)
     \<and> dk_out d = map (\<lambda>j. whole pkt lst (frame_no s j) (lst (frame_no s j) + 1)) js"



lemma in_order_cong:
  assumes "in_order pkt lst a s t js d" "dk_oldestFrame d' = dk_oldestFrame d" "dk_out d' = dk_out d"
    "\<forall>k < 2 ^ a. fr_frameID (dk_frame k d') = fr_frameID (dk_frame k d)"
  shows "in_order pkt lst a s t js d'"
  using assms by (simp add: in_order_def)


section \<open>Releasing\<close>






section \<open>A fragment in the window\<close>


section \<open>Runs without jumps\<close>












section \<open>An example\<close>






end
