(* ===== verification/Path.thy ===== *)
theory Path
  imports Prelude
begin

text \<open>
  Paths through the hierarchy of devices (\<^verbatim>\<open>src/src/cpsw_path.cc\<close>): path entries with their index ranges, parsing and
  printing, concatenation, intersection, and the iterator which follows a path from its tail to its origin. Entries
  and addresses are identified by numbers (the code compares pointers); what they refer to is in the record \<open>hier\<close>.
\<close>

type_synonym eid = nat
type_synonym aid = nat

text \<open>The children of a device are those of its map, by name; other entries have none.\<close>

record hier =
  h_name :: "eid \<Rightarrow> string"
  h_children :: "eid \<Rightarrow> (string \<times> aid) list option"
  h_owner :: "aid \<Rightarrow> eid"
  h_entry :: "aid \<Rightarrow> eid"
  h_nelms :: "aid \<Rightarrow> nat"

record path_entry =
  pe_addr :: aid
  pe_idxf :: int
  pe_idxt :: int
  pe_nelmsLeft :: nat

text \<open>The constructor for an address which is not null.\<close>

definition pathEntry_create :: "hier \<Rightarrow> aid \<Rightarrow> int \<Rightarrow> int \<Rightarrow> nat \<Rightarrow> path_entry" where
  "pathEntry_create h a idxf idxt nelmsLeft =
     (let n = int (h_nelms h a) - 1;
          f = (if idxf < 0 then 0 else idxf);
          f = (if n < f then n else f);
          t = (if idxt < 0 \<or> n < idxt then n else idxt);
          t = (if t < f then f else t)
      in \<lparr>pe_addr = a, pe_idxf = f, pe_idxt = t, pe_nelmsLeft = nat (int nelmsLeft * (t - f + 1))\<rparr>)"

text \<open>The marker element at the front of the container is left out.\<close>

record path =
  p_origin :: eid
  p_entries :: "path_entry list"

definition path_empty :: "path \<Rightarrow> bool" where
  "path_empty p \<longleftrightarrow> p_entries p = []"

definition path_getNelms :: "path \<Rightarrow> nat" where
  "path_getNelms p = (if path_empty p then 1 else pe_nelmsLeft (last (p_entries p)))"

definition path_up :: "path \<Rightarrow> aid option \<times> path" where
  "path_up p = (if path_empty p then (None, p)
     else (Some (pe_addr (last (p_entries p))), p\<lparr>p_entries := butlast (p_entries p)\<rparr>))"

definition getTailFrom :: "path \<Rightarrow> exn + int" where
  "getTailFrom p = (if path_empty p then Inl (InvalidPathError ''getTailFrom() called on an empty Path'')
     else Inr (pe_idxf (last (p_entries p))))"

definition getTailTo :: "path \<Rightarrow> exn + int" where
  "getTailTo p = (if path_empty p then Inl (InvalidPathError ''getTailFrom() called on an empty Path'')
     else Inr (pe_idxt (last (p_entries p))))"

section \<open>Printing\<close>

definition digit_char :: "int \<Rightarrow> char" where
  "digit_char d = char_of (48 + nat d)"

text \<open>\<^verbatim>\<open>div\<close> truncates; the loop inserts the digits from the last one on.\<close>

function appendNum_loop :: "int \<Rightarrow> string \<Rightarrow> string" where
  "appendNum_loop i acc =
     (let acc' = digit_char (i mod 10) # acc in if 10 \<le> i then appendNum_loop (i div 10) acc' else acc')"
  by auto
termination by (relation "measure (\<lambda>(i, _). nat i)") auto

declare appendNum_loop.simps [simp del]

definition appendNum :: "string \<Rightarrow> int \<Rightarrow> string" where
  "appendNum s i = (if i < 0 then s @ ''-'' @ appendNum_loop (- i) [] else s @ appendNum_loop i [])"

definition entry_toString :: "hier \<Rightarrow> path_entry \<Rightarrow> string" where
  "entry_toString h e =
     ''/'' @ h_name h (h_entry h (pe_addr e)) @
     (if 1 < h_nelms h (pe_addr e)
      then (let s = appendNum ''['' (pe_idxf e) in
            (if pe_idxt e \<noteq> pe_idxf e then appendNum (s @ ''-'') (pe_idxt e) else s) @ '']'')
      else [])"

definition toString :: "hier \<Rightarrow> path \<Rightarrow> string" where
  "toString h p = concat (map (entry_toString h) (p_entries p))"

section \<open>Parsing\<close>

text \<open>A pointer into a string is what remains of it; \<open>strchr\<close> finds the first occurrence.\<close>

definition strchr :: "string \<Rightarrow> char \<Rightarrow> string option" where
  "strchr s c = (case dropWhile (\<lambda>x. x \<noteq> c) s of [] \<Rightarrow> None | r \<Rightarrow> Some r)"

definition digit_value :: "char \<Rightarrow> nat" where
  "digit_value c = (let n = of_char c :: nat in
     if 48 \<le> n \<and> n \<le> 57 then n - 48 else if 97 \<le> n \<and> n \<le> 122 then n - 87 else if 65 \<le> n \<and> n \<le> 90 then n - 55 else 36)"

fun scan_digits :: "nat \<Rightarrow> nat \<Rightarrow> string \<Rightarrow> nat \<times> string" where
  "scan_digits base acc [] = (acc, [])"
| "scan_digits base acc (c # cs) = (if digit_value c < base then scan_digits base (acc * base + digit_value c) cs else (acc, c # cs))"

text \<open>\<^verbatim>\<open>strtoul(s, &end, 0)\<close>: white space, a sign, the base from the prefix; without a digit the end is the start. The
  value saturates, and a minus sign negates it modulo \<open>2 ^ 64\<close>.\<close>

definition isSpace :: "char \<Rightarrow> bool" where
  "isSpace c \<longleftrightarrow> c = CHR '' '' \<or> (let n = of_char c :: nat in 9 \<le> n \<and> n \<le> 13)"

definition strtoul :: "string \<Rightarrow> nat \<times> string" where
  "strtoul s =
     (let s1 = dropWhile isSpace s;
          neg = (s1 \<noteq> [] \<and> hd s1 = CHR ''-'');
          s2 = (if s1 \<noteq> [] \<and> (hd s1 = CHR ''-'' \<or> hd s1 = CHR ''+'') then tl s1 else s1);
          hex = (2 < length s2 \<and> s2 ! 0 = CHR ''0'' \<and> (s2 ! 1 = CHR ''x'' \<or> s2 ! 1 = CHR ''X'') \<and> digit_value (s2 ! 2) < 16);
          base = (if hex then 16 else if s2 \<noteq> [] \<and> hd s2 = CHR ''0'' then 8 else 10);
          s3 = (if hex then drop 2 s2 else s2)
      in if s3 = [] \<or> \<not> digit_value (hd s3) < base then (0, s)
         else case scan_digits base 0 s3 of (v, r) \<Rightarrow>
           if 2 ^ 64 \<le> v then (2 ^ 64 - 1, r) else (if neg then (2 ^ 64 - v) mod 2 ^ 64 else v, r))"

definition getnum :: "string \<Rightarrow> string \<Rightarrow> exn + int" where
  "getnum from to =
     (case strtoul from of (rval, endp) \<Rightarrow>
        if length endp \<noteq> length to \<or> 2 ^ 31 - 1 < rval then Inl (InvalidPathError from) else Inr (int rval))"

definition getAddress :: "hier \<Rightarrow> eid \<Rightarrow> string \<Rightarrow> aid option" where
  "getAddress h d name = (case h_children h d of None \<Rightarrow> None | Some cs \<Rightarrow> map_of cs name)"

text \<open>The index range of a component in square brackets; \<open>s\<close> is the component, \<open>sl\<close> the slash behind it. The three
  pointers are to the brackets and the hyphen, and all index \<open>-1\<close> if there is none.\<close>

definition parseRange :: "string \<Rightarrow> string option \<Rightarrow> string option \<Rightarrow> string option \<Rightarrow> string option \<Rightarrow> exn + int \<times> int" where
  "parseRange s sl op cl mi =
     (case op of
        None \<Rightarrow> Inr (-1, -1)
      | Some p \<Rightarrow>
         (case cl of
            None \<Rightarrow> Inl (InvalidPathError s)
          | Some c \<Rightarrow>
              if length p - 1 \<le> length c
                 \<or> (case sl of None \<Rightarrow> tl c \<noteq> [] | Some l \<Rightarrow> length l \<noteq> length c - 1)
                 \<or> (case mi of None \<Rightarrow> False | Some m \<Rightarrow> length m \<le> length c + 1 \<or> length p - 1 \<le> length m)
              then Inl (InvalidPathError s)
              else (case getnum (tl p) (case mi of None \<Rightarrow> c | Some m \<Rightarrow> m) of
                 Inl e \<Rightarrow> Inl e
               | Inr f \<Rightarrow> (case mi of None \<Rightarrow> Inr (f, -1)
                   | Some m \<Rightarrow> (case getnum (tl m) c of Inl e \<Rightarrow> Inl e | Inr t \<Rightarrow> Inr (f, t))))))"

text \<open>The entry for the child \<open>found\<close> with the range which was given.\<close>

definition rangeEntry :: "hier \<Rightarrow> nat \<Rightarrow> string \<Rightarrow> aid \<Rightarrow> int \<times> int \<Rightarrow> exn + path_entry" where
  "rangeEntry h nelms s found rng =
     (let idxf = fst rng; idxt = snd rng;
          idxt = (if idxt < 0 then if idxf < 0 then int (h_nelms h found) - 1 else idxf else idxt);
          idxf = (if idxf < 0 then 0 else idxf)
      in if idxt < idxf \<or> int (h_nelms h found) \<le> idxt then Inl (InvalidPathError s)
         else Inr (pathEntry_create h found idxf idxt nelms))"

text \<open>A pointer counts only if it is not behind the slash.\<close>

definition before :: "string option \<Rightarrow> string option \<Rightarrow> string option" where
  "before sl p = (case sl of None \<Rightarrow> p | Some l \<Rightarrow>
     (case p of None \<Rightarrow> None | Some q \<Rightarrow> if length q < length l then None else Some q))"

text \<open>One component of the path which is none of \<^verbatim>\<open>..\<close>\<close>

definition findComponent :: "hier \<Rightarrow> eid \<Rightarrow> nat \<Rightarrow> string \<Rightarrow> string option \<Rightarrow> exn + path_entry" where
  "findComponent h tailp nelms s sl =
     (let op = strchr s CHR ''['';
          cl = (case op of None \<Rightarrow> None | Some p \<Rightarrow> strchr p CHR '']'');
          mi = (case op of None \<Rightarrow> None | Some p \<Rightarrow> strchr p CHR ''-'')
      in if h_children h tailp = None then Inl (NotDevError (h_name h tailp))
         else case parseRange s sl (before sl op) (before sl cl) (before sl mi) of
             Inl e \<Rightarrow> Inl e
           | Inr rng \<Rightarrow>
               let key = take (length s - (case before sl op of Some p \<Rightarrow> length p
                                           | None \<Rightarrow> (case sl of Some l \<Rightarrow> length l | None \<Rightarrow> 0))) s in
               (case getAddress h tailp key of
                  None \<Rightarrow> Inl (NotFoundError key)
                | Some found \<Rightarrow> rangeEntry h nelms s found rng))"

definition isUp :: "string \<Rightarrow> string option \<Rightarrow> bool" where
  "isUp s sl \<longleftrightarrow> take 2 s = ''..'' \<and> (length s = 2 \<or> (case sl of None \<Rightarrow> False | Some l \<Rightarrow> length s - length l = 2))"

text \<open>The loop over the components.\<close>

definition path_tail :: "hier \<Rightarrow> path \<Rightarrow> eid" where
  "path_tail h p = (if path_empty p then p_origin p else h_entry h (pe_addr (last (p_entries p))))"

lemma strchr_length:
  assumes "strchr s c = Some r" "s = [] \<or> hd s \<noteq> c"
  shows "length r < length s"
proof (cases s)
  case (Cons x xs)
  then have "r = dropWhile (\<lambda>y. y \<noteq> c) xs" using assms by (auto simp: strchr_def split: list.splits)
  then show ?thesis using Cons length_dropWhile_le [of "\<lambda>y. y \<noteq> c" xs] by simp
qed (use assms in \<open>simp add: strchr_def\<close>)

function findByName :: "hier \<Rightarrow> string \<Rightarrow> path \<Rightarrow> exn + path" where
  "findByName h s0 p =
     (let s = dropWhile (\<lambda>c. c = CHR ''/'') s0; sl = strchr s CHR ''/'' in
      if s = [] then Inr p
      else
        case (if isUp s sl then (if path_empty p then Inl (InvalidPathError s) else Inr (p\<lparr>p_entries := butlast (p_entries p)\<rparr>))
              else (case findComponent h (path_tail h p) (path_getNelms p) s sl of
                      Inl e \<Rightarrow> Inl e | Inr e \<Rightarrow> Inr (p\<lparr>p_entries := p_entries p @ [e]\<rparr>))) of
          Inl e \<Rightarrow> Inl e
        | Inr q \<Rightarrow> (case sl of None \<Rightarrow> Inr q | Some r \<Rightarrow> findByName h r q))"
  by auto
termination
proof (relation "measure (\<lambda>(h, s, p). length s)", goal_cases)
  case (2 h s0 p s sl q r)
  have "s = [] \<or> hd s \<noteq> CHR ''/''" using 2(1) hd_dropWhile [of "\<lambda>c. c = CHR ''/''" s0] by auto
  then have "length r < length s" using 2 strchr_length [of s "CHR ''/''" r] by simp
  then show ?case using 2(1) length_dropWhile_le [of "\<lambda>c. c = CHR ''/''" s0] by simp
qed simp

declare findByName.simps [simp del]

section \<open>Concatenation\<close>

text \<open>\<open>verifyAtTail\<close> moves the origin of an empty path.\<close>

definition verifyAtTail :: "hier \<Rightarrow> eid \<Rightarrow> path \<Rightarrow> bool \<times> path" where
  "verifyAtTail h d p = (if path_empty p then (True, p\<lparr>p_origin := d\<rparr>) else (d = h_entry h (pe_addr (last (p_entries p))), p))"

definition append2 :: "hier \<Rightarrow> path \<Rightarrow> path \<Rightarrow> exn + path" where
  "append2 h t p =
     (case verifyAtTail h (p_origin t) p of (ok, p) \<Rightarrow>
        if \<not> ok then Inl (InvalidPathError (toString h t))
        else let n = path_getNelms p in
          Inr (p\<lparr>p_entries := p_entries p @ map (\<lambda>e. e\<lparr>pe_nelmsLeft := pe_nelmsLeft e * n\<rparr>) (p_entries t)\<rparr>))"

definition path_append :: "hier \<Rightarrow> path \<Rightarrow> path \<Rightarrow> exn + path" where
  "path_append h t p = (if path_empty t then Inr p else append2 h t p)"

definition path_concat :: "hier \<Rightarrow> path \<Rightarrow> path \<Rightarrow> exn + path" where
  "path_concat h p t = path_append h t p"

definition append_addr :: "hier \<Rightarrow> aid \<Rightarrow> int \<Rightarrow> int \<Rightarrow> path \<Rightarrow> exn + path" where
  "append_addr h a f t p =
     (case verifyAtTail h (h_owner h a) p of (ok, p) \<Rightarrow>
        if \<not> ok then Inl (InvalidPathError (toString h p))
        else Inr (p\<lparr>p_entries := p_entries p @ [pathEntry_create h a f t (path_getNelms p)]\<rparr>))"

section \<open>Intersection\<close>

fun isect_loop :: "path_entry list \<Rightarrow> path_entry list \<Rightarrow> bool" where
  "isect_loop [] b = (b = [])"
| "isect_loop (x # a) [] = False"
| "isect_loop (x # a) (y # b) =
     (if pe_addr x \<noteq> pe_addr y then False
      else let f = (if pe_idxf x < pe_idxf y then pe_idxf y else pe_idxf x);
               t = (if pe_idxt y < pe_idxt x then pe_idxt y else pe_idxt x)
           in if t < f then False else isect_loop a b)"

definition isIntersecting :: "path \<Rightarrow> path option \<Rightarrow> bool" where
  "isIntersecting p q = (case q of None \<Rightarrow> False | Some q \<Rightarrow>
     if path_empty q \<or> p_origin p \<noteq> p_origin q then False else isect_loop (p_entries p) (p_entries q))"

text \<open>The result is built with \<open>append\<close>, which may throw.\<close>

fun intersect_loop :: "hier \<Rightarrow> path_entry list \<Rightarrow> path_entry list \<Rightarrow> path \<Rightarrow> exn + path option" where
  "intersect_loop h [] b r = Inr (if b = [] then Some r else None)"
| "intersect_loop h (x # a) [] r = Inr None"
| "intersect_loop h (x # a) (y # b) r =
     (if pe_addr x \<noteq> pe_addr y then Inr None
      else let f = (if pe_idxf x < pe_idxf y then pe_idxf y else pe_idxf x);
               t = (if pe_idxt y < pe_idxt x then pe_idxt y else pe_idxt x)
           in if t < f then Inr None
              else case append_addr h (pe_addr x) f t r of Inl e \<Rightarrow> Inl e | Inr r' \<Rightarrow> intersect_loop h a b r')"

definition intersect :: "hier \<Rightarrow> path \<Rightarrow> path option \<Rightarrow> exn + path option" where
  "intersect h p q = (case q of None \<Rightarrow> Inr None | Some q \<Rightarrow>
     if path_empty q \<or> p_origin p \<noteq> p_origin q then Inr None
     else intersect_loop h (p_entries p) (p_entries q) \<lparr>p_origin = p_origin p, p_entries = []\<rparr>)"

section \<open>Iterators\<close>

text \<open>The entries from the current one to the origin, the iterators saved by \<open>append\<close>, and the numbers of elements
  to both sides. At the end there is no current entry.\<close>

record path_iter =
  it_cur :: "path_entry list"
  it_stack :: "path_entry list list"
  it_nelmsRight :: nat
  it_nelmsLeft :: nat

definition iter_create :: "path \<Rightarrow> path_iter" where
  "iter_create p = \<lparr>it_cur = rev (p_entries p), it_stack = [], it_nelmsRight = 1, it_nelmsLeft = 1\<rparr>"

definition iter_atEnd :: "path_iter \<Rightarrow> bool" where
  "iter_atEnd it \<longleftrightarrow> it_cur it = []"

definition iter_getNelmsLeft :: "path_iter \<Rightarrow> nat" where
  "iter_getNelmsLeft it = it_nelmsLeft it * (if iter_atEnd it then 1 else pe_nelmsLeft (hd (it_cur it)))"

definition iter_validConcatenation :: "hier \<Rightarrow> path \<Rightarrow> path_iter \<Rightarrow> bool" where
  "iter_validConcatenation h p it =
     (if iter_atEnd it then True else if path_empty p then False else p_origin p = h_entry h (pe_addr (hd (it_cur it))))"

definition iter_append :: "hier \<Rightarrow> path \<Rightarrow> path_iter \<Rightarrow> exn + path_iter" where
  "iter_append h p it =
     (if path_empty p then Inr it
      else if \<not> iter_validConcatenation h p it then Inl (InvalidPathError (toString h p))
      else if iter_atEnd it \<and> it_nelmsLeft it \<noteq> 1
        then Inl (InternalError ''assertion failed: nelmsLeft should == 1 at this point'')
      else Inr ((if iter_atEnd it then it
                 else it\<lparr>it_stack := it_cur it # it_stack it, it_nelmsLeft := it_nelmsLeft it * pe_nelmsLeft (hd (it_cur it))\<rparr>)
                \<lparr>it_cur := rev (p_entries p), it_nelmsRight := 1\<rparr>))"

definition iter_next :: "path_iter \<Rightarrow> exn + path_iter" where
  "iter_next it =
     (let e = hd (it_cur it);
          it = it\<lparr>it_nelmsRight := nat (int (it_nelmsRight it) * (pe_idxt e - pe_idxf e + 1)), it_cur := tl (it_cur it)\<rparr>
      in if it_cur it \<noteq> [] then Inr it
         else case it_stack it of
             c # st \<Rightarrow> Inr (it\<lparr>it_cur := c, it_stack := st, it_nelmsLeft := it_nelmsLeft it div pe_nelmsLeft (hd c)\<rparr>)
           | [] \<Rightarrow> if it_nelmsLeft it \<noteq> 1 then Inl (InternalError ''assertion failed: nelmsLeft should equal 1'') else Inr it)"

text \<open>\<open>SlicedPathIterator::clip\<close>; \<open>root\<close> is the origin of the path which \<^verbatim>\<open>IPath::create()\<close> returns.\<close>

definition iter_clip :: "hier \<Rightarrow> eid \<Rightarrow> (int \<times> int) option \<Rightarrow> path_iter \<Rightarrow> exn + path_iter" where
  "iter_clip h root rng it =
     (case rng of None \<Rightarrow> Inr it | Some (from, to) \<Rightarrow>
        let e = hd (it_cur it);
            t = (if 0 \<le> to then pe_idxf e + to else pe_idxt e);
            f = (if 0 \<le> from then pe_idxf e + from else pe_idxf e)
        in if f < pe_idxf e \<or> pe_idxt e < t \<or> t < f then Inl (InvalidArgError ''Array indices out of range'')
           else if f \<noteq> pe_idxf e \<or> t \<noteq> pe_idxt e then
             (case iter_next it of Inl x \<Rightarrow> Inl x | Inr it \<Rightarrow>
                (case append_addr h (pe_addr e) f t \<lparr>p_origin = root, p_entries = []\<rparr> of Inl x \<Rightarrow> Inl x
                 | Inr suffix \<Rightarrow> iter_append h suffix it))
           else Inr it)"

text \<open>\<open>IIntEntryAdapt::nelmsFromIdx\<close>\<close>

definition nelmsFromIdx :: "path \<Rightarrow> (int \<times> int) option \<Rightarrow> int" where
  "nelmsFromIdx p r =
     (case r of Some (f, t) \<Rightarrow>
        if 0 \<le> f \<or> 0 \<le> t then
          (let it = iter_create p; e = hd (it_cur it);
               f = (if f < 0 then pe_idxf e else pe_idxf e + f);
               t = (if t < 0 then pe_idxt e else pe_idxf e + t);
               t = t - f + 1;
               d = int (it_nelmsRight it);
               d = (if 0 \<le> t \<and> t < d then t else d)
           in int (iter_getNelmsLeft it) * d)
        else int (path_getNelms p)
      | None \<Rightarrow> int (path_getNelms p))"

section \<open>Handles of interfaces which exist once\<close>

text \<open>\<open>CEntryImpl::getUniqueHandle\<close>. A handle keeps the pointer which the caller passed, not a copy
  of the path. So the paths that callers hold are in a store \<open>s\<close>, and the list has the references
  into it of the handles in use.\<close>

type_synonym path_ref = nat

definition getUniqueHandle ::
    "hier \<Rightarrow> (path_ref \<Rightarrow> path) \<Rightarrow> path_ref \<Rightarrow> path_ref list \<Rightarrow> (exn + unit) \<times> path_ref list" where
  "getUniqueHandle h s p l =
     (if \<exists>q \<in> set l. isIntersecting (s q) (Some (s p))
      then (Inl (MultipleInstantiationError (toString h (s p))), l) else (Inr (), p # l))"

end
