(* ===== verification/PathProps.thy ===== *)
theory PathProps
  imports Path
begin

text \<open>
  What paths denote: the array elements they select. Operations on paths keep them well-formed, the test for an
  intersection is the one for common elements, \<open>intersect\<close> selects exactly these, and interfaces that may exist once
  never share an element.
\<close>

section \<open>Well-formed hierarchies and paths\<close>

definition count :: "path_entry \<Rightarrow> nat" where
  "count e = nat (pe_idxt e - pe_idxf e + 1)"

definition entry_ok :: "hier \<Rightarrow> path_entry \<Rightarrow> bool" where
  "entry_ok h e \<longleftrightarrow> 0 \<le> pe_idxf e \<and> pe_idxf e \<le> pe_idxt e \<and> pe_idxt e < int (h_nelms h (pe_addr e))"

text \<open>The address \<open>a\<close> is in the map of the device \<open>d\<close>, under the name of its entry.\<close>

definition child_of :: "hier \<Rightarrow> eid \<Rightarrow> aid \<Rightarrow> bool" where
  "child_of h d a \<longleftrightarrow> h_owner h a = d \<and> getAddress h d (h_name h (h_entry h a)) = Some a"

definition hier_ok :: "hier \<Rightarrow> bool" where
  "hier_ok h \<longleftrightarrow> (\<forall>d n a. getAddress h d n = Some a \<longrightarrow> child_of h d a \<and> n = h_name h (h_entry h a) \<and> 0 < h_nelms h a)"

fun chain :: "hier \<Rightarrow> eid \<Rightarrow> nat \<Rightarrow> path_entry list \<Rightarrow> bool" where
  "chain h d n [] = True"
| "chain h d n (e # es) = (child_of h d (pe_addr e) \<and> entry_ok h e \<and> pe_nelmsLeft e = n * count e
     \<and> chain h (h_entry h (pe_addr e)) (pe_nelmsLeft e) es)"

definition path_ok :: "hier \<Rightarrow> path \<Rightarrow> bool" where
  "path_ok h p \<longleftrightarrow> chain h (p_origin p) 1 (p_entries p)"

lemma chain_append:
  "chain h d n (xs @ ys) \<longleftrightarrow> chain h d n xs
     \<and> chain h (if xs = [] then d else h_entry h (pe_addr (last xs))) (if xs = [] then n else pe_nelmsLeft (last xs)) ys"
  by (induction xs arbitrary: d n) auto

lemma chain_entry_ok: "chain h d n es \<Longrightarrow> e \<in> set es \<Longrightarrow> entry_ok h e"
  by (induction es arbitrary: d n) auto

lemma path_ok_snoc:
  "path_ok h (p\<lparr>p_entries := p_entries p @ [e]\<rparr>) \<longleftrightarrow> path_ok h p \<and> child_of h (path_tail h p) (pe_addr e) \<and> entry_ok h e
     \<and> pe_nelmsLeft e = path_getNelms p * count e"
  by (auto simp: path_ok_def chain_append path_tail_def path_getNelms_def path_empty_def)

lemma pathEntry_create_in_range:
  assumes "0 \<le> f" "f \<le> t" "t < int (h_nelms h a)"
  shows "pathEntry_create h a f t n = \<lparr>pe_addr = a, pe_idxf = f, pe_idxt = t, pe_nelmsLeft = n * nat (t - f + 1)\<rparr>"
  using assms by (simp add: pathEntry_create_def Let_def nat_mult_distrib)

lemma pathEntry_create_ok:
  "0 < h_nelms h a \<Longrightarrow> entry_ok h (pathEntry_create h a f t n) \<and> pe_addr (pathEntry_create h a f t n) = a
     \<and> pe_nelmsLeft (pathEntry_create h a f t n) = n * count (pathEntry_create h a f t n)"
  by (auto simp: pathEntry_create_def Let_def entry_ok_def count_def nat_mult_distrib)

section \<open>Operations keep paths well-formed\<close>

lemma rangeEntry_cases:
  assumes "rangeEntry h n s a rng = Inr e"
  obtains f t where "0 \<le> f" "f \<le> t" "t < int (h_nelms h a)" "e = pathEntry_create h a f t n"
proof -
  define f where "f = (if fst rng < 0 then 0 else fst rng)"
  define t where "t = (if snd rng < 0 then if fst rng < 0 then int (h_nelms h a) - 1 else fst rng else snd rng)"
  have "rangeEntry h n s a rng = (if t < f \<or> int (h_nelms h a) \<le> t then Inl (InvalidPathError s) else Inr (pathEntry_create h a f t n))"
    by (simp add: rangeEntry_def Let_def f_def t_def)
  then show thesis using assms that [of f t] by (auto simp: f_def split: if_split_asm)
qed

lemma findComponent_cases:
  assumes "findComponent h d n s sl = Inr e"
  obtains a f t key where "getAddress h d key = Some a" "0 \<le> f" "f \<le> t" "t < int (h_nelms h a)" "e = pathEntry_create h a f t n"
proof -
  obtain key a rng where k: "getAddress h d key = Some a" "rangeEntry h n s a rng = Inr e"
    using assms unfolding findComponent_def Let_def
    by (auto split: if_split_asm option.split_asm [where option = "getAddress h d _"] sum.split_asm)
  from k(2) show thesis by (rule rangeEntry_cases) (use k(1) that in blast)
qed

lemma findComponent_ok:
  assumes "hier_ok h" "path_ok h p" "findComponent h (path_tail h p) (path_getNelms p) s sl = Inr e"
  shows "path_ok h (p\<lparr>p_entries := p_entries p @ [e]\<rparr>)"
proof -
  obtain a f t key where a: "getAddress h (path_tail h p) key = Some a" "0 \<le> f" "f \<le> t" "t < int (h_nelms h a)"
      "e = pathEntry_create h a f t (path_getNelms p)"
    using findComponent_cases [OF assms(3)] by metis
  have "child_of h (path_tail h p) a" using assms(1) a(1) by (simp add: hier_ok_def)
  then show ?thesis
    unfolding path_ok_snoc using assms(2) a by (simp add: pathEntry_create_in_range entry_ok_def count_def)
qed

lemma path_ok_butlast: "path_ok h p \<Longrightarrow> path_ok h (p\<lparr>p_entries := butlast (p_entries p)\<rparr>)"
  by (cases "p_entries p" rule: rev_cases) (simp_all add: path_ok_def chain_append)

lemma findByName_keeps_ok:
  "hier_ok h \<Longrightarrow> path_ok h p \<Longrightarrow> findByName h s p = Inr q \<Longrightarrow> path_ok h q \<and> p_origin q = p_origin p"
proof (induction h s p rule: findByName.induct)
  case (1 h s0 p)
  define s where "s = dropWhile (\<lambda>c. c = CHR ''/'') s0"
  define sl where "sl = strchr s CHR ''/''"
  note eq = findByName.simps [of h s0 p, folded s_def, unfolded Let_def, folded sl_def]
  show ?case
  proof (cases "s = []")
    case True
    then show ?thesis using 1 eq by simp
  next
    case False
    define r where "r = (if isUp s sl then (if path_empty p then Inl (InvalidPathError s) else Inr (p\<lparr>p_entries := butlast (p_entries p)\<rparr>))
              else (case findComponent h (path_tail h p) (path_getNelms p) s sl of
                      Inl e \<Rightarrow> Inl e | Inr e \<Rightarrow> Inr (p\<lparr>p_entries := p_entries p @ [e]\<rparr>)))"
    then obtain p' where p': "r = Inr p'"
      using 1 eq False by (auto split: sum.split_asm)
    have ok: "path_ok h p' \<and> p_origin p' = p_origin p"
      using p' 1 findComponent_ok [OF "1.prems"(1,2)] path_ok_butlast
      by (auto simp: r_def split: if_split_asm sum.split_asm)
    show ?thesis
    proof (cases sl)
      case None
      then show ?thesis using 1 eq False ok p' by (simp add: r_def)
    next
      case (Some x)
      then have "findByName h x p' = Inr q" using 1 eq False p' by (simp add: r_def)
      then show ?thesis
        using "1.IH" [of s sl p' x] 1(2) ok p' False Some unfolding s_def sl_def r_def by auto
    qed
  qed
qed

lemma append_addr_ok:
  assumes "path_ok h p" "getAddress h (h_owner h a) (h_name h (h_entry h a)) = Some a" "0 < h_nelms h a"
    and "append_addr h a f t p = Inr q"
  shows "path_ok h q"
proof (cases "path_empty p")
  case True
  then show ?thesis
    using assms pathEntry_create_ok [OF assms(3), of f t 1]
    by (auto simp: append_addr_def verifyAtTail_def path_ok_def path_empty_def child_of_def path_getNelms_def)
next
  case False
  then have "h_owner h a = path_tail h p" and q: "q = p\<lparr>p_entries := p_entries p @ [pathEntry_create h a f t (path_getNelms p)]\<rparr>"
    using assms(4) by (auto simp: append_addr_def verifyAtTail_def path_tail_def split: if_split_asm)
  then show ?thesis
    using assms(1,2) pathEntry_create_ok [OF assms(3)] unfolding q path_ok_snoc by (auto simp: child_of_def)
qed

text \<open>The entries of a path whose elements are counted from another number on.\<close>

lemma chain_scale:
  "chain h d n es \<Longrightarrow> chain h d (n * k) (map (\<lambda>e. e\<lparr>pe_nelmsLeft := pe_nelmsLeft e * k\<rparr>) es)"
  by (induction es arbitrary: d n) (auto simp: entry_ok_def count_def)

lemma path_append_ok:
  assumes "path_ok h p" "path_ok h t" "path_append h t p = Inr q"
  shows "path_ok h q"
proof (cases "path_empty t")
  case False
  define p' where "p' = snd (verifyAtTail h (p_origin t) p)"
  have v: "path_ok h p'" "path_tail h p' = p_origin t"
    using assms False by (auto simp: p'_def verifyAtTail_def path_ok_def path_empty_def path_tail_def path_append_def append2_def split: if_split_asm)
  have q: "q = p'\<lparr>p_entries := p_entries p' @ map (\<lambda>e. e\<lparr>pe_nelmsLeft := pe_nelmsLeft e * path_getNelms p'\<rparr>) (p_entries t)\<rparr>"
    using assms(3) False by (auto simp: path_append_def append2_def p'_def Let_def split: prod.split_asm if_split_asm)
  have "chain h (p_origin t) (1 * path_getNelms p') (map (\<lambda>e. e\<lparr>pe_nelmsLeft := pe_nelmsLeft e * path_getNelms p'\<rparr>) (p_entries t))"
    by (rule chain_scale) (use assms(2) in \<open>simp add: path_ok_def\<close>)
  then show ?thesis
    using v by (auto simp: q path_ok_def chain_append path_tail_def path_getNelms_def path_empty_def split: if_split_asm)
qed (use assms in \<open>simp add: path_append_def\<close>)

section \<open>Elements\<close>

text \<open>An element is named by the origin, the addresses and one index for each.\<close>

definition elements :: "path \<Rightarrow> (eid \<times> aid list \<times> int list) set" where
  "elements p = {(p_origin p, map pe_addr (p_entries p), ix) | ix. list_all2 (\<lambda>e i. pe_idxf e \<le> i \<and> i \<le> pe_idxt e) (p_entries p) ix}"

definition selects :: "path_entry list \<Rightarrow> int list \<Rightarrow> bool" where
  "selects es ix \<longleftrightarrow> list_all2 (\<lambda>e i. pe_idxf e \<le> i \<and> i \<le> pe_idxt e) es ix"

lemma elements_alt: "(d, as, ix) \<in> elements p \<longleftrightarrow> d = p_origin p \<and> as = map pe_addr (p_entries p) \<and> selects (p_entries p) ix"
  by (auto simp: elements_def selects_def)

lemma isect_loop_iff: "isect_loop a b \<longleftrightarrow> map pe_addr a = map pe_addr b \<and> (\<exists>ix. selects a ix \<and> selects b ix)"
proof (induction a b rule: isect_loop.induct)
  case (1 b)
  then show ?case by (cases b) (auto simp: selects_def)
next
  case (3 x a y b)
  let ?f = "if pe_idxf x < pe_idxf y then pe_idxf y else pe_idxf x" and ?t = "if pe_idxt y < pe_idxt x then pe_idxt y else pe_idxt x"
  have sel: "(\<exists>ix. selects (x # a) ix \<and> selects (y # b) ix) \<longleftrightarrow> ?f \<le> ?t \<and> (\<exists>ix. selects a ix \<and> selects b ix)"
  proof
    assume "\<exists>ix. selects (x # a) ix \<and> selects (y # b) ix"
    then obtain i ix where "selects (x # a) (i # ix)" "selects (y # b) (i # ix)" by (auto simp: selects_def list_all2_Cons1)
    then show "?f \<le> ?t \<and> (\<exists>ix. selects a ix \<and> selects b ix)" by (auto simp: selects_def)
  next
    assume "?f \<le> ?t \<and> (\<exists>ix. selects a ix \<and> selects b ix)"
    then obtain ix where "?f \<le> ?t" "selects a ix" "selects b ix" by blast
    then have "selects (x # a) (?f # ix) \<and> selects (y # b) (?f # ix)" by (auto simp: selects_def split: if_splits)
    then show "\<exists>ix. selects (x # a) ix \<and> selects (y # b) ix" by blast
  qed
  show ?case
    using 3 sel by (auto simp: Let_def)
qed (simp add: selects_def)

lemma isIntersecting_common:
  assumes "\<not> path_empty q"
  shows "isIntersecting p (Some q) \<longleftrightarrow> elements p \<inter> elements q \<noteq> {}"
proof -
  have "elements p \<inter> elements q \<noteq> {} \<longleftrightarrow> (\<exists>d as ix. (d, as, ix) \<in> elements p \<and> (d, as, ix) \<in> elements q)" by auto
  also have "\<dots> \<longleftrightarrow> p_origin p = p_origin q \<and> isect_loop (p_entries p) (p_entries q)"
    by (auto simp: elements_alt isect_loop_iff)
  finally show ?thesis using assms by (auto simp: isIntersecting_def)
qed

section \<open>The intersection\<close>

definition isect_entry :: "nat \<Rightarrow> path_entry \<Rightarrow> path_entry \<Rightarrow> path_entry" where
  "isect_entry n x y =
     (let f = max (pe_idxf x) (pe_idxf y); t = min (pe_idxt x) (pe_idxt y)
      in \<lparr>pe_addr = pe_addr x, pe_idxf = f, pe_idxt = t, pe_nelmsLeft = n * nat (t - f + 1)\<rparr>)"

fun isect_entries :: "nat \<Rightarrow> path_entry list \<Rightarrow> path_entry list \<Rightarrow> path_entry list" where
  "isect_entries n (x # a) (y # b) = isect_entry n x y # isect_entries (pe_nelmsLeft (isect_entry n x y)) a b"
| "isect_entries n _ _ = []"

lemma max_min_code:
  "(if pe_idxf x < pe_idxf y then pe_idxf y else pe_idxf x) = max (pe_idxf x) (pe_idxf y)"
  "(if pe_idxt y < pe_idxt x then pe_idxt y else pe_idxt x) = min (pe_idxt x) (pe_idxt y)"
  by auto

lemma isect_entries_spec:
  "chain h d m a \<Longrightarrow> isect_loop a b \<Longrightarrow> chain h d n (isect_entries n a b) \<and> map pe_addr (isect_entries n a b) = map pe_addr a
     \<and> (\<forall>ix. selects (isect_entries n a b) ix \<longleftrightarrow> selects a ix \<and> selects b ix)"
proof (induction a b arbitrary: d m n rule: isect_loop.induct)
  case (1 b)
  then show ?case by (auto simp: selects_def)
next
  case (3 x a y b)
  let ?e = "isect_entry n x y"
  have st: "pe_addr x = pe_addr y" "max (pe_idxf x) (pe_idxf y) \<le> min (pe_idxt x) (pe_idxt y)" "isect_loop a b"
    using "3.prems"(2) by (auto simp: max_min_code Let_def not_less split: if_split_asm simp del: max.bounded_iff min.bounded_iff)
  have IH: "chain h (h_entry h (pe_addr x)) (pe_nelmsLeft ?e) (isect_entries (pe_nelmsLeft ?e) a b)
     \<and> map pe_addr (isect_entries (pe_nelmsLeft ?e) a b) = map pe_addr a
     \<and> (\<forall>ix. selects (isect_entries (pe_nelmsLeft ?e) a b) ix \<longleftrightarrow> selects a ix \<and> selects b ix)"
    using "3.prems"(1) st
    by (intro "3.IH" [where m = "pe_nelmsLeft x"]) (auto simp: max_min_code Let_def not_less simp del: max.bounded_iff min.bounded_iff)
  have e: "pe_addr ?e = pe_addr x" "pe_idxf ?e = max (pe_idxf x) (pe_idxf y)" "pe_idxt ?e = min (pe_idxt x) (pe_idxt y)"
      "pe_nelmsLeft ?e = n * count ?e"
    by (simp_all add: isect_entry_def Let_def count_def)
  have ok: "entry_ok h ?e" using "3.prems"(1) st(2) e by (auto simp: entry_ok_def)
  have sel: "selects (?e # z) ix \<longleftrightarrow> (\<exists>i r. ix = i # r \<and> pe_idxf ?e \<le> i \<and> i \<le> pe_idxt ?e \<and> selects z r)" for z ix
    by (cases ix) (auto simp: selects_def)
  have sel2: "selects (v # z) ix \<longleftrightarrow> (\<exists>i r. ix = i # r \<and> pe_idxf v \<le> i \<and> i \<le> pe_idxt v \<and> selects z r)" for v z ix
    by (cases ix) (auto simp: selects_def)
  have "\<forall>ix. selects (isect_entries n (x # a) (y # b)) ix \<longleftrightarrow> selects (x # a) ix \<and> selects (y # b) ix"
    using IH e(2,3) by (auto simp: sel2)
  then show ?case using IH ok e "3.prems"(1) by simp
qed simp

lemma intersect_loop_spec:
  "chain h d m a \<Longrightarrow> path_tail h r = d \<Longrightarrow>
   intersect_loop h a b r = Inr (if isect_loop a b then Some (r\<lparr>p_entries := p_entries r @ isect_entries (path_getNelms r) a b\<rparr>) else None)"
proof (induction a b arbitrary: d m r rule: isect_loop.induct)
  case (1 b)
  then show ?case by simp
next
  case (2 x a)
  then show ?case by simp
next
  case (3 x a y b)
  show ?case
  proof (cases "pe_addr x = pe_addr y \<and> max (pe_idxf x) (pe_idxf y) \<le> min (pe_idxt x) (pe_idxt y)")
    case False
    then show ?thesis by (auto simp: max_min_code Let_def)
  next
    case True
    let ?e = "isect_entry (path_getNelms r) x y" and ?f = "max (pe_idxf x) (pe_idxf y)" and ?t = "min (pe_idxt x) (pe_idxt y)"
    let ?r = "r\<lparr>p_entries := p_entries r @ [?e]\<rparr>"
    have own: "h_owner h (pe_addr x) = d" and ok: "entry_ok h x" using "3.prems"(1) by (simp_all add: child_of_def)
    have pc: "pathEntry_create h (pe_addr x) ?f ?t n = isect_entry n x y" for n
      using ok True by (subst pathEntry_create_in_range) (auto simp: entry_ok_def isect_entry_def Let_def)
    have ap: "append_addr h (pe_addr x) ?f ?t r = Inr ?r"
      using own "3.prems"(2) pc
      by (cases "p_entries r = []") (auto simp: append_addr_def verifyAtTail_def path_tail_def path_empty_def path_getNelms_def)
    have tail: "path_tail h ?r = h_entry h (pe_addr x)" "path_getNelms ?r = pe_nelmsLeft ?e"
      by (simp_all add: path_tail_def path_empty_def path_getNelms_def isect_entry_def Let_def)
    have "intersect_loop h a b ?r = Inr (if isect_loop a b then Some (?r\<lparr>p_entries := p_entries ?r @ isect_entries (path_getNelms ?r) a b\<rparr>) else None)"
      using "3.prems"(1) True tail(1) by (intro "3.IH") (auto simp: max_min_code Let_def)
    then show ?thesis using True ap tail(2) by (simp add: max_min_code Let_def)
  qed
qed

text \<open>C25: For well-formed paths \<open>intersect\<close> never throws. It returns a path if and only if the two have an element in
  common, as \<open>isIntersecting\<close> tells, and that path is well-formed and selects exactly the common elements.\<close>

theorem intersect_common_elements:
  assumes ok: "path_ok h p" and q: "\<not> path_empty q"
  shows "\<exists>r. intersect h p (Some q) = Inr r \<and> (r = None \<longleftrightarrow> elements p \<inter> elements q = {})
    \<and> (r = None \<longleftrightarrow> \<not> isIntersecting p (Some q))
    \<and> (case r of None \<Rightarrow> True | Some i \<Rightarrow> path_ok h i \<and> elements i = elements p \<inter> elements q)"
proof -
  let ?l = "isect_loop (p_entries p) (p_entries q)"
  let ?i = "\<lparr>p_origin = p_origin p, p_entries = isect_entries 1 (p_entries p) (p_entries q)\<rparr>"
  have c: "chain h (p_origin p) 1 (p_entries p)" using ok by (simp add: path_ok_def)
  have i: "intersect h p (Some q) = Inr (if p_origin p = p_origin q \<and> ?l then Some ?i else None)"
  proof (cases "p_origin p = p_origin q")
    case True
    then show ?thesis
      using intersect_loop_spec [OF c, of "\<lparr>p_origin = p_origin q, p_entries = []\<rparr>" "p_entries q"] q
      by (simp add: intersect_def path_tail_def path_empty_def path_getNelms_def)
  qed (use q in \<open>simp add: intersect_def\<close>)
  have iff: "isIntersecting p (Some q) \<longleftrightarrow> p_origin p = p_origin q \<and> ?l" using q by (simp add: isIntersecting_def)
  have "path_ok h ?i \<and> elements ?i = elements p \<inter> elements q" if "p_origin p = p_origin q" ?l
  proof -
    note s = isect_entries_spec [OF c that(2), of 1]
    have "map pe_addr (p_entries p) = map pe_addr (p_entries q)" using that(2) by (simp add: isect_loop_iff)
    then have "x \<in> elements ?i \<longleftrightarrow> x \<in> elements p \<inter> elements q" for x
      using s that(1) by (cases x) (auto simp: elements_alt)
    then show ?thesis using s by (auto simp: path_ok_def)
  qed
  then show ?thesis unfolding i using iff isIntersecting_common [OF q, of p] by auto
qed

section \<open>Interfaces which exist once\<close>

text \<open>The stores of paths and lists of handles which come about when callers request handles, successfully or not,
  release them, and change paths, but not one for which a handle is in use.\<close>

inductive handles :: "hier \<Rightarrow> (path_ref \<Rightarrow> path) \<Rightarrow> path_ref list \<Rightarrow> bool" for h where
  none: "handles h s []"
| get: "handles h s l \<Longrightarrow> \<not> path_empty (s p) \<Longrightarrow> handles h s (snd (getUniqueHandle h s p l))"
| drop: "handles h s (l1 @ p # l2) \<Longrightarrow> handles h s (l1 @ l2)"
| change: "handles h s l \<Longrightarrow> q \<notin> set l \<Longrightarrow> handles h (s(q := P)) l"

lemma sorted_wrt_cong_set:
  "(\<And>x y. x \<in> set l \<Longrightarrow> y \<in> set l \<Longrightarrow> P x y = Q x y) \<Longrightarrow> sorted_wrt P l = sorted_wrt Q l"
  by (induction l) auto

lemma handles_inv:
  "handles h s l \<Longrightarrow> (\<forall>p \<in> set l. \<not> path_empty (s p)) \<and> sorted_wrt (\<lambda>p q. elements (s p) \<inter> elements (s q) = {}) l"
proof (induction rule: handles.induct)
  case (get s l p)
  have "elements (s p) \<inter> elements (s q) = {}" if "q \<in> set l" "\<not> isIntersecting (s q) (Some (s p))" for q
    using that isIntersecting_common [OF get.hyps(2), of "s q"] by auto
  then show ?case using get by (auto simp: getUniqueHandle_def)
next
  case (change s l q P)
  have "sorted_wrt (\<lambda>p q'. elements ((s(q := P)) p) \<inter> elements ((s(q := P)) q') = {}) l
      = sorted_wrt (\<lambda>p q'. elements (s p) \<inter> elements (s q') = {}) l"
    by (rule sorted_wrt_cong_set) (use change.hyps(2) in auto)
  then show ?case using change by auto
qed (auto simp: sorted_wrt_append)

text \<open>C26: As long as callers leave alone the paths which they have passed for handles in use, two interfaces in use
  whose paths start at the same device never select the same array element of the same register, whatever sequence of
  requests, failed ones included, of releases and of changes of other paths there has been.\<close>

theorem unique_handles_disjoint:
  assumes "handles h s l" "i < j" "j < length l" "p_origin (s (l ! i)) = p_origin (s (l ! j))"
    "map pe_addr (p_entries (s (l ! i))) = map pe_addr (p_entries (s (l ! j)))"
  shows "\<not> (selects (p_entries (s (l ! i))) ix \<and> selects (p_entries (s (l ! j))) ix)"
proof
  assume "selects (p_entries (s (l ! i))) ix \<and> selects (p_entries (s (l ! j))) ix"
  then have "(p_origin (s (l ! i)), map pe_addr (p_entries (s (l ! i))), ix) \<in> elements (s (l ! i)) \<inter> elements (s (l ! j))"
    using assms(4,5) by (simp add: elements_alt)
  moreover have "elements (s (l ! i)) \<inter> elements (s (l ! j)) = {}"
    using handles_inv [OF assms(1)] sorted_wrt_nth_less [OF _ assms(2,3)] by blast
  ultimately show False by blast
qed

text \<open>C30: A handle is lost when the caller goes on with the path which it has passed: after \<open>up\<close> of that path, a second
  request for the very same elements is granted, which was refused before; so is a request for them through a path that
  starts at another device.\<close>

theorem unique_handle_lost:
  assumes "path_ok h P" "\<not> path_empty P" "p \<noteq> q"
  shows "fst (getUniqueHandle h (s(p := P, q := P)) q (snd (getUniqueHandle h (s(p := P, q := P)) p []))) \<noteq> Inr ()
    \<and> fst (getUniqueHandle h (s(p := snd (path_up P), q := P)) q (snd (getUniqueHandle h (s(p := P, q := P)) p []))) = Inr ()
    \<and> (p_origin Q \<noteq> p_origin P \<longrightarrow>
        fst (getUniqueHandle h (s(p := P, q := Q)) q (snd (getUniqueHandle h (s(p := P, q := P)) p []))) = Inr ())"
proof -
  have "\<exists>ix. selects (p_entries P) ix"
  proof -
    have "\<forall>e \<in> set (p_entries P). pe_idxf e \<le> pe_idxt e"
      using assms(1) chain_entry_ok by (fastforce simp: path_ok_def entry_ok_def)
    then have "selects (p_entries P) (map pe_idxf (p_entries P))"
      by (simp add: selects_def list_all2_map2 list.rel_refl_strong)
    then show ?thesis by blast
  qed
  then have "isIntersecting P (Some P)" using assms(2) by (simp add: isIntersecting_def isect_loop_iff)
  moreover have "\<not> isIntersecting (snd (path_up P)) (Some P)"
  proof -
    have "length (butlast (p_entries P)) \<noteq> length (p_entries P)"
      using assms(2) by (cases "p_entries P") (auto simp: path_empty_def)
    then have "map pe_addr (butlast (p_entries P)) \<noteq> map pe_addr (p_entries P)"
      by (metis length_map)
    then show ?thesis using assms(2) by (simp add: isIntersecting_def path_up_def isect_loop_iff)
  qed
  moreover have "p_origin Q \<noteq> p_origin P \<longrightarrow> \<not> isIntersecting P (Some Q)" by (simp add: isIntersecting_def)
  ultimately show ?thesis using assms(3) by (simp add: getUniqueHandle_def)
qed

section \<open>An instance\<close>

text \<open>A device \<open>0\<close> with an array \<open>a\<close> of four devices, each with one register \<open>r\<close>.\<close>

definition ex_hier :: hier where
  "ex_hier = \<lparr>h_name = (\<lambda>e. if e = 1 then ''a'' else if e = 2 then ''r'' else ''ROOT''),
     h_children = (\<lambda>e. if e = 0 then Some [(''a'', 0)] else if e = 1 then Some [(''r'', 1)] else None),
     h_owner = (\<lambda>a. if a = 0 then 0 else 1), h_entry = (\<lambda>a. if a = 0 then 1 else 2),
     h_nelms = (\<lambda>a. if a = 0 then 4 else 1)\<rparr>"

definition ex_path :: "int \<Rightarrow> int \<Rightarrow> path" where
  "ex_path f t = \<lparr>p_origin = 0, p_entries = [\<lparr>pe_addr = 0, pe_idxf = f, pe_idxt = t, pe_nelmsLeft = nat (t - f + 1)\<rparr>,
     \<lparr>pe_addr = 1, pe_idxf = 0, pe_idxt = 0, pe_nelmsLeft = nat (t - f + 1)\<rparr>]\<rparr>"

lemma ex_path_ok: "0 \<le> f \<Longrightarrow> f \<le> t \<Longrightarrow> t < 4 \<Longrightarrow> path_ok ex_hier (ex_path f t)"
  by (simp add: path_ok_def ex_path_def ex_hier_def child_of_def getAddress_def entry_ok_def count_def)

lemma intersect_common_elements_witness:
  "\<exists>i. intersect ex_hier (ex_path 0 2) (Some (ex_path 1 3)) = Inr (Some i) \<and> elements i = elements (ex_path 0 2) \<inter> elements (ex_path 1 3)"
proof -
  have "isIntersecting (ex_path 0 2) (Some (ex_path 1 3))"
    by (simp add: isIntersecting_def ex_path_def path_empty_def)
  then show ?thesis
    using intersect_common_elements [OF ex_path_ok [of 0 2], of "ex_path 1 3"]
    by (auto simp: path_empty_def ex_path_def split: option.split_asm)
qed

lemma unique_handles_disjoint_witness:
  "\<not> (selects (p_entries (ex_path 2 3)) [1, 0] \<and> selects (p_entries (ex_path 0 1)) [1, 0])"
proof -
  let ?s = "\<lambda>r. if r = 7 then ex_path 0 1 else ex_path 2 3"
  have a: "handles ex_hier ?s [7]"
    using handles.get [OF handles.none, of ?s 7 ex_hier] by (simp add: getUniqueHandle_def path_empty_def ex_path_def)
  have "handles ex_hier ?s [8, 7]"
    using handles.get [OF a, of 8]
    by (simp add: getUniqueHandle_def path_empty_def ex_path_def isIntersecting_def)
  from unique_handles_disjoint [OF this, of 0 1] show ?thesis by (simp add: ex_path_def)
qed

lemma unique_handle_lost_witness:
  "fst (getUniqueHandle ex_hier ((\<lambda>_. ex_path 0 1)(3 := snd (path_up (ex_path 0 1)), 4 := ex_path 0 1)) 4
     (snd (getUniqueHandle ex_hier ((\<lambda>_. ex_path 0 1)(3 := ex_path 0 1, 4 := ex_path 0 1)) 3 []))) = Inr ()"
proof -
  have "path_ok ex_hier (ex_path 0 1)" "\<not> path_empty (ex_path 0 1)" "(3 :: path_ref) \<noteq> 4"
    by (simp_all add: ex_path_ok) (simp add: path_empty_def ex_path_def)
  from unique_handle_lost [OF this, of "\<lambda>_. ex_path 0 1"] show ?thesis by blast
qed

end
