(* ===== verification/PathParse.thy ===== *)
theory PathParse
  imports PathProps
begin

text \<open>
  Printing and parsing: \<open>findByName\<close> reads back what \<open>toString\<close> prints.
\<close>

section \<open>Names\<close>

text \<open>The characters which \<open>CEntryImpl::checkArgs\<close> admits (\<^verbatim>\<open>isalnum\<close> of the C locale).\<close>

definition nameChar :: "char \<Rightarrow> bool" where
  "nameChar c \<longleftrightarrow> (let n = of_char c :: nat in 48 \<le> n \<and> n \<le> 57 \<or> 65 \<le> n \<and> n \<le> 90 \<or> 97 \<le> n \<and> n \<le> 122)
     \<or> c = CHR ''_'' \<or> c = CHR ''-''"

definition checkName :: "string \<Rightarrow> exn + unit" where
  "checkName name = (if list_all nameChar name then Inr () else Inl (InvalidIdentError name))"

definition names_ok :: "hier \<Rightarrow> bool" where
  "names_ok h \<longleftrightarrow> (\<forall>e. h_name h e \<noteq> [] \<and> checkName (h_name h e) = Inr ()) \<and> (\<forall>a. h_nelms h a < 2 ^ 31)"

section \<open>Numbers\<close>

definition dec :: "int \<Rightarrow> string" where
  "dec i = appendNum_loop i []"

lemma appendNum_loop_dec: "appendNum_loop i acc = dec i @ acc"
proof (induction "nat i" arbitrary: i acc rule: less_induct)
  case less
  show ?case
  proof (cases "10 \<le> i")
    case True
    then have "nat (i div 10) < nat i" by simp
    note IH = less [OF this]
    have st: "appendNum_loop i a = appendNum_loop (i div 10) (digit_char (i mod 10) # a)" for a
      using True by (subst appendNum_loop.simps) (simp add: Let_def)
    have "appendNum_loop i acc = dec (i div 10) @ digit_char (i mod 10) # acc" by (simp only: st IH)
    moreover have "dec i = dec (i div 10) @ [digit_char (i mod 10)]" by (simp only: dec_def [of i] st IH)
    ultimately show ?thesis by simp
  qed (simp add: dec_def appendNum_loop.simps [of i] Let_def)
qed

lemma dec_step: "10 \<le> i \<Longrightarrow> dec i = dec (i div 10) @ [digit_char (i mod 10)]"
proof -
  assume "10 \<le> i"
  then have "dec i = appendNum_loop (i div 10) [digit_char (i mod 10)]"
    unfolding dec_def by (subst appendNum_loop.simps) (simp add: Let_def)
  then show ?thesis by (simp add: appendNum_loop_dec)
qed

lemma dec_digit: "i < 10 \<Longrightarrow> dec i = [digit_char (i mod 10)]"
  by (simp add: dec_def appendNum_loop.simps [of i] Let_def)

lemma of_digit_char: "0 \<le> d \<Longrightarrow> d < 10 \<Longrightarrow> (of_char (digit_char d) :: nat) = 48 + nat d"
  by (simp add: digit_char_def of_char_of)

lemma digit_value_char: "0 \<le> d \<Longrightarrow> d < 10 \<Longrightarrow> digit_value (digit_char d) = nat d"
  by (simp add: digit_value_def of_digit_char Let_def nat_le_iff)

lemma dec_chars: "0 \<le> i \<Longrightarrow> \<forall>c \<in> set (dec i). \<exists>d. 0 \<le> d \<and> d < 10 \<and> c = digit_char d"
proof (induction "nat i" arbitrary: i rule: less_induct)
  case less
  show ?case
  proof (cases "10 \<le> i")
    case True
    then have "nat (i div 10) < nat i" "0 \<le> i div 10" by simp_all
    then have "\<forall>c \<in> set (dec (i div 10)). \<exists>d. 0 \<le> d \<and> d < 10 \<and> c = digit_char d" by (rule less(1))
    note IH = this
    have set: "set (dec i) = insert (digit_char (i mod 10)) (set (dec (i div 10)))" by (simp add: dec_step [OF True])
    show ?thesis
    proof
      fix c
      assume "c \<in> set (dec i)"
      then consider "c = digit_char (i mod 10)" | "c \<in> set (dec (i div 10))" using set by blast
      then show "\<exists>d. 0 \<le> d \<and> d < 10 \<and> c = digit_char d"
      proof cases
        case 1
        have "0 \<le> i mod 10" "i mod 10 < 10" by simp_all
        then show ?thesis using 1 by blast
      qed (use IH in blast)
    qed
  next
    case False
    then show ?thesis using less.prems by (auto simp: dec_digit)
  qed
qed

lemma dec_value: "0 \<le> i \<Longrightarrow> foldl (\<lambda>v c. v * 10 + digit_value c) 0 (dec i) = nat i"
proof (induction "nat i" arbitrary: i rule: less_induct)
  case less
  show ?case
  proof (cases "10 \<le> i")
    case True
    then have "nat (i div 10) < nat i" "0 \<le> i div 10" by simp_all
    then have "foldl (\<lambda>v c. v * 10 + digit_value c) 0 (dec (i div 10)) = nat (i div 10)" by (rule less(1))
    moreover have "nat (i div 10) * 10 + nat (i mod 10) = nat i"
      using True by (simp add: nat_div_distrib nat_mod_distrib)
    ultimately show ?thesis using True by (simp add: dec_step digit_value_char)
  next
    case False
    then show ?thesis using less.prems by (simp add: dec_digit digit_value_char)
  qed
qed

lemma dec_head: "0 < i \<Longrightarrow> dec i \<noteq> [] \<and> hd (dec i) \<noteq> CHR ''0''"
proof (induction "nat i" arbitrary: i rule: less_induct)
  case less
  show ?case
  proof (cases "10 \<le> i")
    case True
    then have "nat (i div 10) < nat i" "0 < i div 10" by simp_all
    then have "dec (i div 10) \<noteq> [] \<and> hd (dec (i div 10)) \<noteq> CHR ''0''" by (rule less(1))
    then show ?thesis using True by (simp add: dec_step)
  next
    case False
    have "digit_value (digit_char i) = nat i" using False less.prems by (simp add: digit_value_char)
    then have "digit_char i \<noteq> CHR ''0''" using less.prems by (auto simp: digit_value_def)
    then show ?thesis using False less.prems by (simp add: dec_digit)
  qed
qed

lemma scan_digits_all:
  "\<forall>c \<in> set xs. digit_value c < b \<Longrightarrow> r \<noteq> [] \<Longrightarrow> \<not> digit_value (hd r) < b \<Longrightarrow>
   scan_digits b a (xs @ r) = (foldl (\<lambda>v c. v * b + digit_value c) a xs, r)"
  by (induction xs arbitrary: a) (cases r; simp)+

lemma digit_char_props:
  assumes "0 \<le> d" "d < 10"
  shows "\<not> isSpace (digit_char d)" "digit_char d \<noteq> CHR ''-''" "digit_char d \<noteq> CHR ''+''" "digit_char d \<noteq> CHR ''/''"
    "digit_char d \<noteq> CHR '']''" "digit_char d \<noteq> CHR ''[''"
proof -
  have n: "(of_char (digit_char d) :: nat) \<ge> 48" "(of_char (digit_char d) :: nat) \<le> 57"
    using of_digit_char [OF assms] assms by (simp_all add: nat_le_iff)
  have ne: "(of_char c :: nat) < 48 \<or> 57 < (of_char c :: nat) \<Longrightarrow> digit_char d \<noteq> c" for c
    using n by auto
  have "digit_char d \<noteq> CHR '' ''" by (rule ne) simp
  then show "\<not> isSpace (digit_char d)" using n by (simp add: isSpace_def Let_def)
  show "digit_char d \<noteq> CHR ''-''" by (rule ne) simp
  show "digit_char d \<noteq> CHR ''+''" by (rule ne) simp
  show "digit_char d \<noteq> CHR ''/''" by (rule ne) simp
  show "digit_char d \<noteq> CHR '']''" by (rule ne) simp
  show "digit_char d \<noteq> CHR ''[''" by (rule ne) simp
qed

lemma strtoul_plain:
  assumes "\<not> isSpace x" "x \<noteq> CHR ''-''" "x \<noteq> CHR ''+''" "x = CHR ''0'' \<Longrightarrow> y \<noteq> CHR ''x'' \<and> y \<noteq> CHR ''X''"
    and b: "b = (if x = CHR ''0'' then 8 else 10)" "digit_value x < b" and v: "scan_digits b 0 (x # y # zs) = (v, t)" "\<not> 2 ^ 64 \<le> v"
  shows "strtoul (x # y # zs) = (v, t)"
proof -
  let ?s = "x # y # zs"
  have 1: "dropWhile isSpace ?s = ?s" using assms(1) by simp
  have 2: "\<not> (?s \<noteq> [] \<and> (hd ?s = CHR ''-'' \<or> hd ?s = CHR ''+''))" "(?s \<noteq> [] \<and> hd ?s = CHR ''-'') = False" using assms(2,3) by simp_all
  have 3: "(2 < length ?s \<and> ?s ! 0 = CHR ''0'' \<and> (?s ! 1 = CHR ''x'' \<or> ?s ! 1 = CHR ''X'') \<and> digit_value (?s ! 2) < 16) = False"
    using assms(4) by auto
  have 4: "(if False then 16 else if ?s \<noteq> [] \<and> hd ?s = CHR ''0'' then 8 else 10) = b" using b(1) by simp
  have 5: "\<not> (?s = [] \<or> \<not> digit_value (hd ?s) < b)" using b(2) by simp
  show ?thesis
    unfolding strtoul_def Let_def 1 if_not_P [OF 2(1)] 2(2) 3 if_False 4 [unfolded if_False] if_not_P [OF 5] v(1) prod.case
      if_not_P [OF v(2)] by (rule refl)
qed

lemma strtoul_dec:
  assumes "0 \<le> i" "i < 2 ^ 31" "c = CHR ''-'' \<or> c = CHR '']''"
  shows "strtoul (dec i @ c # r) = (nat i, c # r)"
proof -
  have nd: "digit_value c = 36" using assms(3) by (auto simp: digit_value_def)
  have cx: "c \<noteq> CHR ''x'' \<and> c \<noteq> CHR ''X''" using assms(3) by auto
  show ?thesis
  proof (cases "i = 0")
    case True
    have z: "dec i = [CHR ''0'']"
    proof -
      have "dec i = [char_of (48 :: nat)]" using True by (simp add: dec_digit digit_char_def)
      moreover have "char_of (48 :: nat) = CHR ''0''" by code_simp
      ultimately show ?thesis by simp
    qed
    have d0: "digit_value CHR ''0'' = 0" by (simp add: digit_value_def)
    have "strtoul (CHR ''0'' # c # r) = (0, c # r)"
      by (rule strtoul_plain [where b = 8, OF _ _ _ cx]) (simp_all add: d0 nd isSpace_def)
    then show ?thesis unfolding z using True by simp
  next
    case False
    then have i: "0 < i" using assms(1) by simp
    obtain x xs where x: "dec i = x # xs" using dec_head [OF i] by (cases "dec i") auto
    obtain y zs where y: "xs @ c # r = y # zs" by (cases "xs @ c # r") auto
    have x0: "x \<noteq> CHR ''0''" using dec_head [OF i] x by simp
    obtain d where d: "0 \<le> d" "d < 10" "x = digit_char d" using dec_chars [OF assms(1)] x by auto
    note p = digit_char_props [OF d(1,2), folded d(3)]
    have dv: "\<forall>c \<in> set (dec i). digit_value c < 10"
      using dec_chars [OF assms(1)] by (auto simp: digit_value_char nat_less_iff)
    have sc: "scan_digits 10 0 (x # y # zs) = (nat i, c # r)"
      using scan_digits_all [OF dv, of "c # r" 0] nd dec_value [OF assms(1)] x y by simp
    have lt: "\<not> 2 ^ 64 \<le> nat i" using assms(2) by (simp add: not_le nat_less_iff)
    have "digit_value x < 10" using dv x by simp
    then have "strtoul (x # y # zs) = (nat i, c # r)"
      using x0 by (intro strtoul_plain [where b = 10, OF p(1-3) _ _ _ _ lt]) (simp_all add: sc del: scan_digits.simps)
    then show ?thesis using x y by simp
  qed
qed

lemma getnum_dec:
  assumes "0 \<le> i" "i < 2 ^ 31" "c = CHR ''-'' \<or> c = CHR '']''"
  shows "getnum (dec i @ c # r) (c # r) = Inr i"
  using strtoul_dec [OF assms] assms(1,2) by (auto simp: getnum_def)

section \<open>One component\<close>

text \<open>The index range that is printed behind a name.\<close>

definition range_string :: "hier \<Rightarrow> path_entry \<Rightarrow> string" where
  "range_string h e =
     (if 1 < h_nelms h (pe_addr e)
      then ''['' @ dec (pe_idxf e) @ (if pe_idxt e \<noteq> pe_idxf e then ''-'' @ dec (pe_idxt e) else []) @ '']'' else [])"

lemma entry_toString_eq:
  "entry_ok h e \<Longrightarrow> entry_toString h e = ''/'' @ h_name h (h_entry h (pe_addr e)) @ range_string h e"
  by (auto simp: entry_toString_def range_string_def appendNum_def Let_def entry_ok_def appendNum_loop_dec)

lemma strchr_skip: "c \<notin> set xs \<Longrightarrow> strchr (xs @ ys) c = strchr ys c"
  by (induction xs) (auto simp: strchr_def)

lemma strchr_here: "strchr (c # ys) c = Some (c # ys)"
  by (simp add: strchr_def)

lemma strchr_le: "strchr s c = Some r \<Longrightarrow> length r \<le> length s"
  by (auto simp: strchr_def split: list.splits) (metis length_Cons length_dropWhile_le)

lemma strchr_later: "strchr (x # ys) c = Some r \<Longrightarrow> x \<noteq> c \<Longrightarrow> length r \<le> length ys"
  using strchr_le [of ys c r] by (simp add: strchr_def)

lemma dec_no: "0 \<le> i \<Longrightarrow> c \<in> {CHR ''-'', CHR ''/'', CHR '']'', CHR ''[''} \<Longrightarrow> c \<notin> set (dec i)"
proof
  assume "0 \<le> i" and c: "c \<in> {CHR ''-'', CHR ''/'', CHR '']'', CHR ''[''}" and "c \<in> set (dec i)"
  then obtain d where d: "0 \<le> d" "d < 10" "c = digit_char d" using dec_chars by blast
  show False using digit_char_props(2,4,5,6) [OF d(1,2)] c unfolding d(3) by simp
qed

lemma name_no:
  assumes "names_ok h" "c \<in> {CHR ''/'', CHR '']'', CHR ''['', CHR ''.''}"
  shows "c \<notin> set (h_name h e)"
proof -
  have "list_all nameChar (h_name h e)" using assms(1) by (auto simp: names_ok_def checkName_def split: if_split_asm)
  moreover have "\<not> nameChar c" using assms(2) by (auto simp: nameChar_def)
  ultimately show ?thesis by (auto simp: list_all_iff)
qed

text \<open>What follows a component: nothing, or a slash.\<close>

definition tail_ptr :: "string \<Rightarrow> string option" where
  "tail_ptr R = (if R = [] then None else Some R)"

lemma before_tail:
  assumes "R = [] \<or> hd R = CHR ''/''" "c \<noteq> CHR ''/''"
  shows "before (tail_ptr R) (strchr R c) = None"
proof (cases R)
  case (Cons x ys)
  have "length r < length R" if "strchr R c = Some r" for r
    using strchr_later [of x ys c r] that assms Cons by auto
  then show ?thesis using Cons by (auto simp: before_def tail_ptr_def split: option.splits)
qed (simp add: before_def tail_ptr_def strchr_def)

lemma parseRange_printed:
  assumes ok: "entry_ok h e" and n: "h_nelms h (pe_addr e) < 2 ^ 31" and R: "R = [] \<or> hd R = CHR ''/''"
    and big: "1 < h_nelms h (pe_addr e)"
  defines "P \<equiv> range_string h e @ R"
  shows "parseRange s (tail_ptr R) (Some P) (before (tail_ptr R) (strchr P CHR '']'')) (before (tail_ptr R) (strchr P CHR ''-''))
    = Inr (pe_idxf e, if pe_idxt e = pe_idxf e then -1 else pe_idxt e)"
proof -
  let ?f = "pe_idxf e" and ?t = "pe_idxt e" and ?c = "CHR '']'' # R"
  have r: "0 \<le> ?f" "?f \<le> ?t" "?f < 2 ^ 31" "?t < 2 ^ 31"
    using ok n by (auto simp: entry_ok_def)
  have len: "0 < length (dec i)" if "0 \<le> i" for i
    using that dec_head [of i] dec_digit [of i] by (cases "0 < i") auto
  show ?thesis
  proof (cases "?t = ?f")
    case True
    have P: "P = ''['' @ dec ?f @ ?c" using True big by (simp add: P_def range_string_def)
    have cl: "strchr P CHR '']'' = Some ?c"
      unfolding P using dec_no [OF r(1), of "CHR '']''"] by (simp add: strchr_skip [of _ "dec ?f"] strchr_here strchr_skip [of _ "''[''", simplified])
    have "strchr P CHR ''-'' = strchr R CHR ''-''"
      unfolding P using strchr_skip [of "CHR ''-''" "''['' @ dec ?f @ '']''" R] dec_no [OF r(1), of "CHR ''-''"] by simp
    then have mi: "before (tail_ptr R) (strchr P CHR ''-'') = None" using before_tail [OF R] by simp
    have bc: "before (tail_ptr R) (Some ?c) = Some ?c" by (simp add: before_def tail_ptr_def)
    have g: "getnum (dec ?f @ ?c) ?c = Inr ?f" by (rule getnum_dec) (use r in simp_all)
    show ?thesis
      unfolding cl bc mi parseRange_def using g len [OF r(1)] True by (auto simp: P tail_ptr_def)
  next
    case False
    let ?m = "CHR ''-'' # dec ?t @ ?c"
    have P: "P = ''['' @ dec ?f @ ?m" using False big by (simp add: P_def range_string_def)
    have t0: "0 \<le> ?t" using r by simp
    have cl: "strchr P CHR '']'' = Some ?c"
      unfolding P using strchr_skip [of "CHR '']''" "''['' @ dec ?f @ ''-'' @ dec ?t" ?c] dec_no [OF r(1), of "CHR '']''"]
        dec_no [OF t0, of "CHR '']''"] by (simp add: strchr_here)
    have mi: "strchr P CHR ''-'' = Some ?m"
      unfolding P using strchr_skip [of "CHR ''-''" "''['' @ dec ?f" ?m] dec_no [OF r(1), of "CHR ''-''"] by (simp add: strchr_here)
    have b: "before (tail_ptr R) (Some ?c) = Some ?c" "before (tail_ptr R) (Some ?m) = Some ?m"
      by (simp_all add: before_def tail_ptr_def)
    have g: "getnum (dec ?f @ ?m) ?m = Inr ?f" "getnum (dec ?t @ ?c) ?c = Inr ?t"
      by (rule getnum_dec; use r t0 in simp)+
    show ?thesis
      unfolding cl mi b parseRange_def using g len [OF r(1)] len [OF t0] False by (auto simp: P tail_ptr_def)
  qed
qed

lemma findComponent_printed:
  assumes h: "names_ok h" and ch: "child_of h d (pe_addr e)" and ok: "entry_ok h e" and nl: "pe_nelmsLeft e = n * count e"
    and R: "R = [] \<or> hd R = CHR ''/''"
  shows "findComponent h d n (h_name h (h_entry h (pe_addr e)) @ range_string h e @ R) (tail_ptr R) = Inr e"
proof -
  let ?a = "pe_addr e" let ?nm = "h_name h (h_entry h ?a)" let ?P = "range_string h e @ R" let ?s = "?nm @ ?P"
  have ga: "getAddress h d ?nm = Some ?a" using ch by (simp add: child_of_def)
  then have cn: "h_children h d \<noteq> None" by (auto simp: getAddress_def split: option.splits)
  have n31: "h_nelms h ?a < 2 ^ 31" using h by (simp add: names_ok_def)
  have e: "pathEntry_create h ?a (pe_idxf e) (pe_idxt e) n = e"
    using ok nl by (cases e) (simp add: pathEntry_create_in_range entry_ok_def count_def)
  have op: "strchr ?s CHR ''['' = strchr ?P CHR ''[''" using strchr_skip name_no [OF h] by simp
  show ?thesis
  proof (cases "1 < h_nelms h ?a")
    case True
    have o: "strchr ?P CHR ''['' = Some ?P" using True by (simp add: range_string_def strchr_here)
    have bo: "before (tail_ptr R) (Some ?P) = Some ?P" by (simp add: before_def tail_ptr_def)
    have rng: "rangeEntry h n ?s ?a (pe_idxf e, if pe_idxt e = pe_idxf e then -1 else pe_idxt e) = Inr e"
      using ok e by (auto simp: rangeEntry_def Let_def entry_ok_def)
    show ?thesis
      unfolding findComponent_def Let_def op o option.case bo parseRange_printed [OF ok n31 R True] sum.case
      using cn ga rng by simp
  next
    case False
    then have rs: "range_string h e = []" by (simp add: range_string_def)
    have f0: "pe_idxf e = 0" "pe_idxt e = 0" "h_nelms h ?a = 1" using ok False by (auto simp: entry_ok_def)
    have bo: "before (tail_ptr R) (strchr R CHR ''['') = None" by (rule before_tail [OF R]) simp
    have pr: "parseRange ?s (tail_ptr R) None x y = Inr (-1, -1)" for x y by (simp add: parseRange_def)
    have rng: "rangeEntry h n s ?a (-1, -1) = Inr e" for s using f0 e by (simp add: rangeEntry_def)
    have key: "take (length ?s - (case tail_ptr R of Some l \<Rightarrow> length l | None \<Rightarrow> 0)) ?s = ?nm"
      by (simp add: rs tail_ptr_def)
    show ?thesis
      unfolding findComponent_def Let_def op unfolding rs append_Nil bo
      using cn pr [unfolded rs append_Nil] ga rng key [unfolded rs append_Nil] by simp
  qed
qed

section \<open>The whole path\<close>

lemma findByName_step:
  assumes h: "names_ok h" and ch: "child_of h (path_tail h p) (pe_addr e)" and ok: "entry_ok h e"
    and nl: "pe_nelmsLeft e = path_getNelms p * count e" and R: "R = [] \<or> hd R = CHR ''/''"
  shows "findByName h (entry_toString h e @ R) p =
    (if R = [] then Inr (p\<lparr>p_entries := p_entries p @ [e]\<rparr>) else findByName h R (p\<lparr>p_entries := p_entries p @ [e]\<rparr>))"
proof -
  let ?nm = "h_name h (h_entry h (pe_addr e))" let ?s = "?nm @ range_string h e @ R"
  obtain x xs where x: "?nm = x # xs" using h by (cases ?nm) (auto simp: names_ok_def)
  have nx: "x \<noteq> CHR ''/''" "x \<noteq> CHR ''.''"
    using name_no [OF h, of "CHR ''/''" "h_entry h (pe_addr e)"] name_no [OF h, of "CHR ''.''" "h_entry h (pe_addr e)"] x by auto
  have s: "dropWhile (\<lambda>c. c = CHR ''/'') (entry_toString h e @ R) = ?s"
    using ok nx x by (simp add: entry_toString_eq)
  have rs: "CHR ''/'' \<notin> set (range_string h e)"
    using ok dec_no [of "pe_idxf e" "CHR ''/''"] dec_no [of "pe_idxt e" "CHR ''/''"] by (auto simp: range_string_def entry_ok_def)
  have "strchr ?s CHR ''/'' = strchr R CHR ''/''"
    using strchr_skip [of "CHR ''/''" "?nm @ range_string h e" R] name_no [OF h] rs by simp
  also have "\<dots> = tail_ptr R" using R by (cases R) (auto simp: tail_ptr_def strchr_def)
  finally have sl: "strchr ?s CHR ''/'' = tail_ptr R" .
  have up: "\<not> isUp ?s (tail_ptr R)" using x nx(2) by (simp add: isUp_def)
  have ne: "?s \<noteq> []" using x by simp
  show ?thesis
    unfolding findByName.simps [of h "entry_toString h e @ R"] Let_def s sl if_not_P [OF up] if_not_P [OF ne]
      findComponent_printed [OF h ch ok nl R] sum.case
    by (simp add: tail_ptr_def)
qed

lemma toString_head: "p_entries p = [] \<or> hd (concat (map (entry_toString h) (p_entries p))) = CHR ''/''"
  by (cases "p_entries p") (simp_all add: entry_toString_def)

lemma findByName_entries:
  "names_ok h \<Longrightarrow> chain h (path_tail h p) (path_getNelms p) es \<Longrightarrow> es \<noteq> [] \<Longrightarrow>
   findByName h (concat (map (entry_toString h) es)) p = Inr (p\<lparr>p_entries := p_entries p @ es\<rparr>)"
proof (induction es arbitrary: p)
  case (Cons e es)
  let ?R = "concat (map (entry_toString h) es)" let ?p = "p\<lparr>p_entries := p_entries p @ [e]\<rparr>"
  have R: "?R = [] \<or> hd ?R = CHR ''/''" by (cases es) (simp_all add: entry_toString_def)
  have R0: "?R = [] \<longleftrightarrow> es = []" by (cases es) (simp_all add: entry_toString_def)
  have t: "path_tail h ?p = h_entry h (pe_addr e)" "path_getNelms ?p = pe_nelmsLeft e"
    by (simp_all add: path_tail_def path_getNelms_def path_empty_def)
  have st: "findByName h (entry_toString h e @ ?R) p = (if ?R = [] then Inr ?p else findByName h ?R ?p)"
    using Cons.prems R by (intro findByName_step) auto
  show ?case
  proof (cases "es = []")
    case True
    then show ?thesis using st by simp
  next
    case False
    then have "findByName h ?R ?p = Inr (?p\<lparr>p_entries := p_entries ?p @ es\<rparr>)"
      using Cons.prems t by (intro Cons.IH) auto
    moreover have "?R \<noteq> []" using R0 False by blast
    ultimately have "findByName h (entry_toString h e @ ?R) p = Inr (?p\<lparr>p_entries := p_entries ?p @ es\<rparr>)"
      unfolding st by (simp only: if_False)
    then show ?thesis by simp
  qed
qed simp

text \<open>C24: What \<open>toString\<close> prints of a well-formed path, \<open>findByName\<close> reads back from the origin: the same entries with the
  same index ranges and numbers of elements. Names have the characters that entries admit and are not empty.\<close>

theorem toString_findByName:
  assumes "names_ok h" "path_ok h p"
  shows "findByName h (toString h p) \<lparr>p_origin = p_origin p, p_entries = []\<rparr> = Inr p"
proof (cases "p_entries p = []")
  case True
  then show ?thesis by (cases p) (simp add: toString_def findByName.simps)
next
  case False
  then show ?thesis
    using findByName_entries [OF assms(1), of "\<lparr>p_origin = p_origin p, p_entries = []\<rparr>" "p_entries p"] assms(2)
    by (cases p) (simp add: toString_def path_ok_def path_tail_def path_getNelms_def path_empty_def)
qed

lemma ex_hier_names: "names_ok ex_hier"
  by (simp add: names_ok_def ex_hier_def checkName_def nameChar_def)

lemma toString_findByName_witness:
  "findByName ex_hier (toString ex_hier (ex_path 1 3)) \<lparr>p_origin = 0, p_entries = []\<rparr> = Inr (ex_path 1 3)"
  using toString_findByName [OF ex_hier_names ex_path_ok [of 1 3]] by (simp add: ex_path_def)

end
