(* ===== verification/RegBits.thy ===== *)
theory RegBits
  imports PackHeader
begin

text \<open>
  The three workers with which \<^verbatim>\<open>src/src/cpsw_sval.cc\<close> turns the bytes of a register into those of a
  number and back: \<open>SignExtender\<close>, \<open>Swapper\<close> and \<open>BitShifter\<close>. They work in place on the bytes they are
  given, in the byte order of the host.
\<close>

datatype byteorder = UNKNOWN | LE | BE | NATIVE

section \<open>The workers\<close>

definition signByte :: "nat \<Rightarrow> nat" where "signByte sizeBits = (sizeBits - 1) div 8"
definition signBit :: "nat \<Rightarrow> u8" where "signBit sizeBits = push_bit ((sizeBits - 1) mod 8) 1"
definition signMsk :: "nat \<Rightarrow> u8" where "signMsk sizeBits = signBit sizeBits OR (signBit sizeBits - 1)"

text \<open>\<open>work\<close> with the same buffer for input and output; its first \<open>dbytes\<close> bytes.\<close>

definition se_work :: "byteorder \<Rightarrow> bool \<Rightarrow> nat \<Rightarrow> nat \<Rightarrow> u8 list \<Rightarrow> u8 list" where
  "se_work host isSigned sizeBits dbytes b =
     (let s = (if host = LE then signByte sizeBits else dbytes - 1 - signByte sizeBits);
          rest = (if host = LE then [s + 1..<dbytes] else rev [0..<s])
      in if isSigned \<and> b ! s AND signBit sizeBits \<noteq> 0
         then foldl (\<lambda>b j. b[j := 0xff]) (b[s := b ! s OR NOT (signMsk sizeBits)]) rest
         else foldl (\<lambda>b j. b[j := 0]) (b[s := b ! s AND signMsk sizeBits]) rest)"

text \<open>\<^verbatim>\<open>memcpy\<close> to offset \<open>i\<close>.\<close>

definition put_at :: "nat \<Rightarrow> 'a list \<Rightarrow> 'a list \<Rightarrow> 'a list" where
  "put_at i bs b = take i b @ bs @ drop (i + length bs) b"

definition get_at :: "nat \<Rightarrow> nat \<Rightarrow> 'a list \<Rightarrow> 'a list" where
  "get_at i n b = take n (drop i b)"

fun sw_loop :: "nat \<Rightarrow> nat \<Rightarrow> nat \<Rightarrow> nat \<Rightarrow> u8 list \<Rightarrow> u8 list" where
  "sw_loop 0 wlen jtop jinc b = b"
| "sw_loop (Suc n) wlen jtop jinc b =
     sw_loop n wlen jtop (jinc + wlen)
       (put_at (jtop - jinc) (get_at jinc wlen b) (put_at jinc (get_at (jtop - jinc) wlen b) b))"

definition sw_work :: "nat \<Rightarrow> nat \<Rightarrow> u8 list \<Rightarrow> u8 list" where
  "sw_work nbytes wlen b =
     sw_loop (if 0 < wlen then nbytes div wlen div 2 else 0) wlen (nbytes - wlen) 0 b"

fun sr_loop :: "nat \<Rightarrow> u16 \<Rightarrow> u8 list \<Rightarrow> u8 list" where
  "sr_loop sh tmp [] = []"
| "sr_loop sh tmp (b # bs) =
     (let t = push_bit 8 tmp OR ucast b in ucast (drop_bit sh t) # sr_loop sh t bs)"

definition shiftRight :: "byteorder \<Rightarrow> nat \<Rightarrow> u8 list \<Rightarrow> u8 list" where
  "shiftRight host sh b = (if host = LE then rev (sr_loop sh 0 (rev b)) else sr_loop sh 0 b)"

fun sl_loop :: "nat \<Rightarrow> u16 \<Rightarrow> u8 list \<Rightarrow> u8 list" where
  "sl_loop sh tmp [] = []"
| "sl_loop sh tmp (b # bs) =
     (let t = drop_bit 8 tmp OR push_bit sh (ucast b) in ucast t # sl_loop sh t bs)"

definition shiftLeft :: "byteorder \<Rightarrow> nat \<Rightarrow> u8 list \<Rightarrow> u8 list" where
  "shiftLeft host sh b = (if host = LE then sl_loop sh 0 b else rev (sl_loop sh 0 (rev b)))"

section \<open>What they do, bit by bit\<close>

lemma length_put_at [simp]: "i + length bs \<le> length b \<Longrightarrow> length (put_at i bs b) = length b"
  by (simp add: put_at_def)

lemma length_get_at [simp]: "i + n \<le> length b \<Longrightarrow> length (get_at i n b) = n"
  by (simp add: get_at_def)

lemma nth_put_at:
  assumes "i + length bs \<le> length b" "k < length b"
  shows "put_at i bs b ! k = (if i \<le> k \<and> k < i + length bs then bs ! (k - i) else b ! k)"
  using assms by (auto simp: put_at_def nth_append min_def)

lemma nth_get_at: "i + n \<le> length b \<Longrightarrow> k < n \<Longrightarrow> get_at i n b ! k = b ! (i + k)"
  by (simp add: get_at_def)

lemma byte_eqI: "(\<And>j. j < 8 \<Longrightarrow> bit x j = bit y j) \<Longrightarrow> x = (y :: u8)"
  by (rule bit_word_eqI) simp

lemma lbit_byte: "k < length b \<Longrightarrow> j < 8 \<Longrightarrow> bit (b ! k) j = lbit b (8 * k + j)"
  by (simp add: lbit_def)

lemma bytes_eqI:
  assumes "length x = length y" "\<And>k. k < 8 * length y \<Longrightarrow> lbit x k = lbit y k"
  shows "x = y"
proof (rule nth_equalityI)
  fix i
  assume i: "i < length x"
  show "x ! i = y ! i"
  proof (rule byte_eqI)
    fix j :: nat
    assume "j < 8"
    then show "bit (x ! i) j = bit (y ! i) j"
      using assms i by (simp add: lbit_byte)
  qed
qed (rule assms)

subsection \<open>Shifts\<close>

lemma length_sr_loop [simp]: "length (sr_loop sh t b) = length b"
  by (induction b arbitrary: t) (simp_all add: Let_def)

lemma length_sl_loop [simp]: "length (sl_loop sh t b) = length b"
  by (induction b arbitrary: t) (simp_all add: Let_def)

lemma length_shift [simp]: "length (shiftRight h sh b) = length b" "length (shiftLeft h sh b) = length b"
  by (simp_all add: shiftRight_def shiftLeft_def)

text \<open>The byte at \<open>i\<close> has the upper bits of its own and the lower ones of the byte before.\<close>

lemma sr_loop_nth:
  assumes "sh < 8" "i < length b"
  shows "sr_loop sh t b ! i = ucast (drop_bit sh (push_bit 8 (ucast (if i = 0 then ucast t else b ! (i - 1))) OR ucast (b ! i) :: u16))"
  using assms(2)
proof (induction b arbitrary: t i)
  case (Cons x b)
  show ?case
  proof (cases i)
    case 0
    then show ?thesis using assms(1) by (intro byte_eqI) (auto simp: Let_def bit_simps)
  next
    case (Suc k)
    have "(ucast (push_bit 8 t OR ucast x :: u16) :: u8) = x"
      by (rule byte_eqI) (auto simp: bit_simps)
    then show ?thesis using Suc Cons by (cases k) (simp_all add: Let_def)
  qed
qed simp

lemma sl_loop_nth:
  assumes "sh < 8" "i < length b"
  shows "sl_loop sh t b ! i = ucast (drop_bit 8 (if i = 0 then t else push_bit sh (ucast (b ! (i - 1)))) OR push_bit sh (ucast (b ! i)) :: u16)"
  using assms(2)
proof (induction b arbitrary: t i)
  case (Cons x b)
  show ?case
  proof (cases i)
    case 0
    then show ?thesis by (simp add: Let_def)
  next
    case (Suc k)
    have hi: "drop_bit 8 (drop_bit 8 t OR push_bit sh (ucast x :: u16)) = drop_bit 8 (push_bit sh (ucast x))"
      by (rule bit_word_eqI) (auto simp: bit_simps dest: bit_imp_le_length)
    then show ?thesis using Suc Cons by (cases k) (simp_all add: Let_def)
  qed
qed simp

lemma shiftRight_bits:
  assumes "sh < 8" "k < 8 * length b"
  shows "lbit (shiftRight LE sh b) k \<longleftrightarrow> k + sh < 8 * length b \<and> lbit b (k + sh)"
proof -
  define i j where "i = k div 8" and "j = k mod 8"
  have k: "k = 8 * i + j" "j < 8" "i < length b" using assms(2) by (auto simp: i_def j_def)
  let ?n = "length b"
  have r: "rev b ! (?n - 1 - i) = b ! i" "i + 1 < ?n \<longrightarrow> rev b ! (?n - 1 - i - 1) = b ! (i + 1)"
    using k(3) by (auto simp: rev_nth)
  have "shiftRight LE sh b ! i = sr_loop sh 0 (rev b) ! (?n - 1 - i)"
    using k(3) by (simp add: shiftRight_def rev_nth)
  also have "\<dots> = ucast (drop_bit sh (push_bit 8 (ucast (if i + 1 = ?n then 0 else b ! (i + 1))) OR ucast (b ! i) :: u16))"
    using sr_loop_nth [OF assms(1), of "?n - 1 - i" "rev b" 0] k(3) r by (auto simp: Suc_diff_Suc)
  finally have b: "shiftRight LE sh b ! i = \<dots>" .
  show ?thesis
  proof (cases "j + sh < 8")
    case True
    then have "(k + sh) div 8 = i" "(k + sh) mod 8 = j + sh" "k + sh < 8 * ?n"
      using div_mod_8 [of "k + sh" i "j + sh"] k by auto
    then show ?thesis
      using True by (simp add: lbit_def i_def [symmetric] j_def [symmetric] b) (simp add: bit_simps add.commute)
  next
    case False
    then have e: "(k + sh) div 8 = i + 1" "(k + sh) mod 8 = j + sh - 8" "k + sh < 8 * ?n \<longleftrightarrow> i + 1 < ?n"
      using div_mod_8 [of "k + sh" "i + 1" "j + sh - 8"] k assms(1) by auto
    have "bit (ucast (drop_bit sh (push_bit 8 (ucast x) OR ucast (b ! i) :: u16)) :: u8) j = bit x (j + sh - 8)" for x :: u8
      using False k(2) assms(1) by (auto simp: bit_simps add.commute [of sh j] dest: bit_imp_le_length)
    then show ?thesis
      using e k(3) by (auto simp: lbit_def i_def [symmetric] j_def [symmetric] b)
  qed
qed

lemma shiftLeft_bits:
  assumes "sh < 8" "k < 8 * length b"
  shows "lbit (shiftLeft LE sh b) k \<longleftrightarrow> sh \<le> k \<and> lbit b (k - sh)"
proof -
  define i j where "i = k div 8" and "j = k mod 8"
  have k: "k = 8 * i + j" "j < 8" "i < length b" using assms(2) by (auto simp: i_def j_def)
  have b: "shiftLeft LE sh b ! i = ucast (drop_bit 8 (if i = 0 then 0 else push_bit sh (ucast (b ! (i - 1)))) OR push_bit sh (ucast (b ! i)) :: u16)"
    using sl_loop_nth [OF assms(1) k(3), of 0] by (simp add: shiftLeft_def)
  show ?thesis
  proof (cases "sh \<le> j")
    case True
    then have "(k - sh) div 8 = i" "(k - sh) mod 8 = j - sh" "sh \<le> k"
      using div_mod_8 [of "k - sh" i "j - sh"] k by auto
    moreover have "bit (ucast (drop_bit 8 (push_bit sh (ucast x)) OR push_bit sh (ucast (b ! i)) :: u16) :: u8) j = bit (b ! i) (j - sh)" for x :: u8
      using True k(2) assms(1) by (auto simp: bit_simps dest: bit_imp_le_length)
    from this this [of 0] show ?thesis
      using calculation by (auto simp: lbit_def i_def [symmetric] j_def [symmetric] b)
  next
    case False
    show ?thesis
    proof (cases i)
      case 0
      then have "\<not> bit (shiftLeft LE sh b ! i) j" unfolding b using False by (simp add: bit_simps)
      then show ?thesis
        using False k 0 by (simp add: lbit_def i_def [symmetric] j_def [symmetric])
    next
      case (Suc i')
      have "(k - sh) div 8 = i - 1" "(k - sh) mod 8 = j + 8 - sh" "sh \<le> k"
      proof -
        have "k - sh = 8 * i' + (j + 8 - sh)" "j + 8 - sh < 8" using k False assms(1) Suc by auto
        from div_mod_8 [OF this] show "(k - sh) div 8 = i - 1" "(k - sh) mod 8 = j + 8 - sh" using Suc by simp_all
        show "sh \<le> k" using k Suc assms(1) by simp
      qed
      moreover have "bit (ucast (drop_bit 8 (push_bit sh (ucast x)) OR push_bit sh (ucast (b ! i)) :: u16) :: u8) j = bit x (j + 8 - sh)" for x :: u8
        using False k(2) assms(1) by (auto simp: bit_simps add.commute [of 8 j] dest: bit_imp_le_length)
      note dv = calculation and bt = this [of "b ! (i - 1)"]
      have "bit (shiftLeft LE sh b ! i) j \<longleftrightarrow> bit (b ! (i - 1)) (j + 8 - sh)"
        unfolding b using Suc bt by simp
      then show ?thesis
        using dv by (simp add: lbit_def i_def [symmetric] j_def [symmetric])
    qed
  qed
qed

subsection \<open>Swapping words\<close>

text \<open>Where byte \<open>k\<close> of a number of \<open>m\<close> words goes: to the same place in the mirrored word.\<close>

definition mirror :: "nat \<Rightarrow> nat \<Rightarrow> nat \<Rightarrow> nat" where
  "mirror m w k = (m - 1 - k div w) * w + k mod w"

lemma mirror_word: "k < m * w \<Longrightarrow> mirror m w k div w = m - 1 - k div w \<and> mirror m w k mod w = k mod w \<and> mirror m w k < m * w"
proof -
  assume k: "k < m * w"
  then have w: "0 < w" by (cases w) auto
  have q: "k div w < m" using k w by (simp add: less_mult_imp_div_less mult.commute)
  have lt: "k mod w < w" using w by simp
  have "mirror m w k < (m - 1 - k div w) * w + w" using lt by (simp add: mirror_def)
  also have "\<dots> = (m - k div w) * w" using q by (metis Suc_diff_Suc Suc_pred add.commute diff_Suc_eq_diff_pred diff_commute gr_implies_not0 mult_Suc neq0_conv)
  also have "\<dots> \<le> m * w" by simp
  finally show ?thesis using w lt by (simp add: mirror_def)
qed

lemma mirror_mirror: "k < m * w \<Longrightarrow> mirror m w (mirror m w k) = k"
proof -
  assume k: "k < m * w"
  have w: "0 < w" using k by (cases w) auto
  have q: "k div w < m" using k w by (simp add: less_mult_imp_div_less mult.commute)
  have "m - 1 - (m - 1 - k div w) = k div w" using q by simp
  then show ?thesis
    unfolding mirror_def [of m w "mirror m w k"] using mirror_word [OF k] by simp
qed

definition sw_step :: "nat \<Rightarrow> nat \<Rightarrow> nat \<Rightarrow> u8 list \<Rightarrow> u8 list" where
  "sw_step w i p b = put_at (p * w) (get_at (i * w) w b) (put_at (i * w) (get_at (p * w) w b) b)"

lemma word_range: "0 < w \<Longrightarrow> (i * w \<le> k \<and> k < i * w + w) \<longleftrightarrow> k div w = (i :: nat)"
  by (metis add.commute div_nat_eqI dividend_less_div_times le_add1 mult.commute mult_Suc_right times_div_less_eq_dividend)

lemma sw_step_nth:
  assumes "0 < w" "i < m" "p < m" "m * w \<le> length b" "k < length b" "i \<noteq> p"
  shows "length (sw_step w i p b) = length b \<and> sw_step w i p b ! k =
    (if k div w = p then b ! (i * w + k mod w) else if k div w = i then b ! (p * w + k mod w) else b ! k)"
proof -
  have le: "i * w + w \<le> length b" "p * w + w \<le> length b"
    using assms(2-4) mult_le_mono1 [of "Suc i" m w] mult_le_mono1 [of "Suc p" m w] by (simp_all add: add.commute)
  have mw: "k mod w < w" using assms(1) by simp
  have gi: "get_at (i * w) w b ! (k mod w) = b ! (i * w + k mod w)" by (rule nth_get_at [OF le(1) mw])
  have gp: "get_at (p * w) w b ! (k mod w) = b ! (p * w + k mod w)" by (rule nth_get_at [OF le(2) mw])
  have sub: "k - k div w * w = k mod w" by (simp add: minus_div_mult_eq_mod)
  let ?c = "put_at (i * w) (get_at (p * w) w b) b"
  have lc: "length ?c = length b" using le by simp
  have c: "?c ! k = (if k div w = i then b ! (p * w + k mod w) else b ! k)"
    using nth_put_at [of "i * w" "get_at (p * w) w b" b k] le assms(1,5) word_range [OF assms(1), of i k] sub
    by (auto simp: gp)
  have "sw_step w i p b ! k = (if k div w = p then b ! (i * w + k mod w) else ?c ! k)"
    using nth_put_at [of "p * w" "get_at (i * w) w b" ?c k] le assms(1,5) word_range [OF assms(1), of p k] sub lc
    by (auto simp: sw_step_def gi)
  then show ?thesis using c le by (simp add: sw_step_def)
qed

lemma sw_loop_nth:
  assumes "0 < w" "m * w \<le> length b" "2 * (i + n) \<le> m" "k < length b"
  shows "length (sw_loop n w (m * w - w) (i * w) b) = length b \<and> sw_loop n w (m * w - w) (i * w) b ! k =
    (let q = k div w in if q < m \<and> (i \<le> q \<and> q < i + n \<or> i \<le> m - 1 - q \<and> m - 1 - q < i + n) then b ! mirror m w k else b ! k)"
  using assms
proof (induction n arbitrary: i b)
  case (Suc n)
  let ?p = "m - 1 - i"
  have ip: "i < m" "?p < m" "i \<noteq> ?p" using Suc.prems(3) by auto
  have e: "m * w - w - i * w = ?p * w" by (simp add: diff_mult_distrib)
  have "sw_loop (Suc n) w (m * w - w) (i * w) b = sw_loop n w (m * w - w) (Suc i * w) (sw_step w i ?p b)"
    unfolding sw_loop.simps(2) sw_step_def e by (simp only: mult_Suc add.commute)
  note loop = this
  note st = sw_step_nth [OF Suc.prems(1) ip(1,2) Suc.prems(2) _ ip(3)]
  have len: "length (sw_step w i ?p b) = length b" using st [OF Suc.prems(4)] by simp
  have IH: "length (sw_loop (Suc n) w (m * w - w) (i * w) b) = length b \<and> sw_loop (Suc n) w (m * w - w) (i * w) b ! k =
    (let q = k div w in if q < m \<and> (Suc i \<le> q \<and> q < Suc i + n \<or> Suc i \<le> m - 1 - q \<and> m - 1 - q < Suc i + n)
       then sw_step w i ?p b ! mirror m w k else sw_step w i ?p b ! k)"
    unfolding loop using Suc.IH [of "sw_step w i ?p b" "Suc i"] Suc.prems len by simp
  show ?case
  proof (cases "k div w < m")
    case False
    then have "k div w \<noteq> i" "k div w \<noteq> ?p" using ip by auto
    then show ?thesis using IH False st [OF Suc.prems(4)] by simp
  next
    case True
    then have km: "k < m * w" using Suc.prems(1) by (metis div_less_iff_less_mult)
    note mw = mirror_word [OF km]
    have ml: "mirror m w k < length b" using mw Suc.prems(2) by linarith
    have mir: "mirror m w k = (m - 1 - k div w) * w + k mod w" by (simp add: mirror_def)
    consider "k div w = i" | "k div w = ?p" | "k div w \<noteq> i" "k div w \<noteq> ?p" by blast
    then show ?thesis
    proof cases
      case 1
      then show ?thesis using IH st [OF Suc.prems(4)] ip mir True Suc.prems(3) by (auto simp: Let_def)
    next
      case 2
      then show ?thesis using IH st [OF Suc.prems(4)] ip mir True Suc.prems(3) by (auto simp: Let_def)
    next
      case 3
      then have "m - 1 - k div w \<noteq> i" "m - 1 - k div w \<noteq> ?p" using True ip by auto
      then have "sw_step w i ?p b ! mirror m w k = b ! mirror m w k" using st [OF ml] mw by simp
      moreover have "sw_step w i ?p b ! k = b ! k" using st [OF Suc.prems(4)] 3 by simp
      moreover have "(i \<le> k div w \<and> k div w < i + Suc n \<or> i \<le> m - 1 - k div w \<and> m - 1 - k div w < i + Suc n)
         \<longleftrightarrow> (Suc i \<le> k div w \<and> k div w < Suc i + n \<or> Suc i \<le> m - 1 - k div w \<and> m - 1 - k div w < Suc i + n)"
        using 3 \<open>m - 1 - k div w \<noteq> i\<close> by auto
      ultimately show ?thesis using IH unfolding Let_def by presburger
    qed
  qed
qed (auto simp: Let_def)

lemma sw_work_nth:
  assumes "0 < w" "m * w \<le> length b" "k < length b"
  shows "length (sw_work (m * w) w b) = length b \<and> sw_work (m * w) w b ! k = (if k < m * w then b ! mirror m w k else b ! k)"
proof -
  have n: "m * w div w div 2 = m div 2" using assms(1) by simp
  have "2 * (0 + m div 2) \<le> m" by simp
  from sw_loop_nth [OF assms(1,2) this assms(3)]
  have s: "length (sw_work (m * w) w b) = length b" "sw_work (m * w) w b ! k = (let q = k div w in
     if q < m \<and> (q < m div 2 \<or> m - 1 - q < m div 2) then b ! mirror m w k else b ! k)"
    using assms(1) by (simp_all add: sw_work_def n)
  show ?thesis
  proof (cases "k < m * w")
    case False
    then have "\<not> k div w < m" using assms(1) by (metis div_less_iff_less_mult)
    then show ?thesis using s False by simp
  next
    case True
    then have q: "k div w < m" using assms(1) by (metis div_less_iff_less_mult)
    show ?thesis
    proof (cases "k div w < m div 2 \<or> m - 1 - k div w < m div 2")
      case True
      then show ?thesis using s q \<open>k < m * w\<close> by (simp add: Let_def)
    next
      case False
      then have "m - 1 - k div w = k div w" using q by linarith
      then have "mirror m w k = k" by (simp add: mirror_def)
      then show ?thesis using s q by (simp add: Let_def)
    qed
  qed
qed

lemma length_sw_work: "0 < w \<Longrightarrow> m * w \<le> length b \<Longrightarrow> length (sw_work (m * w) w b) = length b"
  using sw_work_nth [of w m b 0] by (cases b) (auto simp: sw_work_def)

text \<open>Swapping twice gives the number back, and swapping bytes reverses it.\<close>

lemma sw_work_twice: "0 < w \<Longrightarrow> m * w \<le> length b \<Longrightarrow> sw_work (m * w) w (sw_work (m * w) w b) = b"
proof -
  assume a: "0 < w" "m * w \<le> length b"
  note len = length_sw_work [OF a]
  show ?thesis
  proof (rule nth_equalityI)
    show "length (sw_work (m * w) w (sw_work (m * w) w b)) = length b" using a len by (simp add: length_sw_work)
    fix k
    assume "k < length (sw_work (m * w) w (sw_work (m * w) w b))"
    then have k: "k < length b" using a len by (simp add: length_sw_work)
    show "sw_work (m * w) w (sw_work (m * w) w b) ! k = b ! k"
    proof (cases "k < m * w")
      case True
      note mw = mirror_word [OF True]
      have ml: "mirror m w k < length b" using mw a by linarith
      show ?thesis
        using sw_work_nth [of w m "sw_work (m * w) w b" k] sw_work_nth [OF a ml] a len k True mw
        by (simp add: mirror_mirror)
    next
      case False
      then show ?thesis using sw_work_nth [of w m "sw_work (m * w) w b" k] sw_work_nth [OF a k] a len k by simp
    qed
  qed
qed

lemma sw_work_bytes: "sw_work (length b) 1 b = rev b"
proof (rule nth_equalityI)
  have len: "length (sw_work (length b) 1 b) = length b" using length_sw_work [of 1 "length b" b] by simp
  then show "length (sw_work (length b) 1 b) = length (rev b)" by simp
  fix k
  assume "k < length (sw_work (length b) 1 b)"
  then have k: "k < length b" using len by simp
  then show "sw_work (length b) 1 b ! k = rev b ! k"
    using sw_work_nth [of 1 "length b" b k] by (simp add: mirror_def rev_nth)
qed

subsection \<open>Sign extension\<close>

lemma foldl_update_nth:
  "length (foldl (\<lambda>b j. b[j := v]) b js) = length b \<and>
   (k < length b \<longrightarrow> foldl (\<lambda>b j. b[j := v]) b js ! k = (if k \<in> set js then v else b ! k))"
  by (induction js arbitrary: b) auto

lemma length_foldl_update [simp]: "length (foldl (\<lambda>b j. b[j := v]) b js) = length b"
  by (induction js arbitrary: b) auto

lemma length_se_work [simp]: "length (se_work h sg n d b) = length b"
  by (simp add: se_work_def Let_def)

lemma signMsk_bit: "bit (signMsk n) j \<longleftrightarrow> j \<le> (n - 1) mod 8"
proof -
  let ?s = "(n - 1) mod 8"
  have s: "?s < 8" by simp
  have "signBit n - 1 = mask ?s" by (simp add: signBit_def push_bit_of_1)
  then show ?thesis using s by (auto simp: signMsk_def signBit_def bit_simps)
qed

lemma signBit_test: "x AND signBit n \<noteq> 0 \<longleftrightarrow> bit x ((n - 1) mod 8)"
proof -
  have "x AND signBit n = (if bit x ((n - 1) mod 8) then signBit n else 0)"
    by (rule byte_eqI) (auto simp: signBit_def bit_simps)
  moreover have "bit (signBit n) ((n - 1) mod 8)" by (simp add: signBit_def bit_simps)
  then have "signBit n \<noteq> 0" by auto
  ultimately show ?thesis by simp
qed

text \<open>The bits above the number are copies of its sign, or zero.\<close>

lemma se_work_bits:
  assumes "0 < n" "n \<le> 8 * d" "d \<le> length b" "k < 8 * d"
  shows "lbit (se_work LE sg n d b) k \<longleftrightarrow> (if k < n then lbit b k else sg \<and> lbit b (n - 1))"
proof -
  let ?s = "signByte n"
  define i j where "i = k div 8" and "j = k mod 8"
  have k: "k = 8 * i + j" "j < 8" "i < d" using assms(4) by (auto simp: i_def j_def)
  have s: "?s < d" "8 * ?s + (n - 1) mod 8 = n - 1" using assms(1,2) by (auto simp: signByte_def)
  let ?neg = "sg \<and> lbit b (n - 1)"
  have neg: "(sg \<and> b ! ?s AND signBit n \<noteq> 0) \<longleftrightarrow> ?neg" by (simp only: signBit_test lbit_def signByte_def)
  have w: "se_work LE sg n d b ! i = (if i < ?s then b ! i else if i = ?s
      then (if ?neg then b ! ?s OR NOT (signMsk n) else b ! ?s AND signMsk n) else if ?neg then 0xff else 0)"
    using foldl_update_nth [of "0xff" "b[?s := b ! ?s OR NOT (signMsk n)]" "[?s + 1..<d]" i]
      foldl_update_nth [of 0 "b[?s := b ! ?s AND signMsk n]" "[?s + 1..<d]" i] k assms(3)
    by (auto simp: se_work_def Let_def neg nth_list_update)
  have ff: "bit (0xff :: u8) j"
  proof -
    have "(0xff :: u8) = - 1" by simp
    then show ?thesis using k(2) by (simp only: bit_simps) simp
  qed
  have c: "i < ?s \<Longrightarrow> k < n" "?s < i \<Longrightarrow> \<not> k < n" "i = ?s \<Longrightarrow> k < n \<longleftrightarrow> j \<le> (n - 1) mod 8"
    using k s assms(1) mod_less_divisor [of 8 "n - 1"] by linarith+
  show ?thesis
    using c ff k(2) by (auto simp: lbit_def i_def [symmetric] j_def [symmetric] w bit_simps signMsk_bit)
qed

end
