(* ===== verification/Sval.thy ===== *)
theory Sval
  imports RegBits
begin

text \<open>
  Integer fields (\<^verbatim>\<open>src/src/cpsw_sval.cc\<close>): the attributes of \<open>CIntEntryImpl\<close> with their checks, the
  builder, the index range, and the conversions between the bytes of a register and an array of numbers
  in \<open>CGetIntValContext::doComplete\<close> and \<open>IIntEntryAdapt::setVal\<close>. The byte order of the host is a parameter.
\<close>

section \<open>Attributes\<close>

datatype mode = RO | WO | RW

text \<open>\<open>IVal_Base::Encoding\<close>: the code compares the numbers of the enumeration.\<close>

datatype encoding = NONE | ASCII | EBCDIC | UTF_8 | UTF_16 | UTF_32 | ISO_8859 nat | IEEE_754 | CUSTOM nat

record intfield =
  f_isSigned :: bool
  f_lsBit :: int
  f_sizeBits :: u64
  f_mode :: mode
  f_wordSwap :: u32
  f_encoding :: encoding
  f_enum :: bool
  f_configBase :: int
  f_configPrio :: int
  f_locked :: bool
  f_size :: u64

definition b2B :: "u64 \<Rightarrow> u64" where
  "b2B bits = (bits + 7) div 8"

definition computeSize :: "u32 \<Rightarrow> u64 \<Rightarrow> int \<Rightarrow> u64" where
  "computeSize wordSwap sizeBits lsBit =
     (if 0 < wordSwap \<and> ucast wordSwap \<noteq> b2B sizeBits
      then b2B sizeBits + (if lsBit \<noteq> 0 then 1 else 0) else b2B (sizeBits + of_int lsBit))"

definition DFLT_CONFIG_BASE :: int where "DFLT_CONFIG_BASE = 16"
definition DFLT_CONFIG_PRIO_RW :: int where "DFLT_CONFIG_PRIO_RW = 1"
definition CONFIG_PRIO_OFF :: int where "CONFIG_PRIO_OFF = 0"

definition checkConfigBase :: "int \<Rightarrow> exn + int" where
  "checkConfigBase proposed =
     (let p = (if proposed = 0 then DFLT_CONFIG_BASE else proposed)
      in if p \<noteq> 10 \<and> p \<noteq> 16 then Inl (InvalidArgError ''configBase must be 10 or 16'') else Inr p)"

text \<open>The checks of the encoding; \<open>IEEE_754\<close> makes the field a signed one.\<close>

definition isCharEncoding :: "encoding \<Rightarrow> bool" where
  "isCharEncoding e \<longleftrightarrow> e = ASCII \<or> e = EBCDIC \<or> e = UTF_8 \<or>
     (case e of ISO_8859 n \<Rightarrow> 1 \<le> n \<and> n \<le> 16 | _ \<Rightarrow> False)"

definition checkEncoding :: "intfield \<Rightarrow> exn + intfield" where
  "checkEncoding f =
     (if f_encoding f = NONE then Inr f
      else if isCharEncoding (f_encoding f) then
        (if f_sizeBits f \<noteq> 8 then Inl (InvalidArgError ''Character encoding expects 8-bit characters'') else Inr f)
      else if f_encoding f = UTF_16 then
        (if f_sizeBits f \<noteq> 16 then Inl (InvalidArgError ''UTF_16 encoding expects 16-bit characters'') else Inr f)
      else if f_encoding f = UTF_32 then
        (if f_sizeBits f \<noteq> 32 then Inl (InvalidArgError ''UTF_32 encoding expects 32-bit characters'') else Inr f)
      else if f_encoding f = IEEE_754 then
        (if f_sizeBits f \<noteq> 32 \<and> f_sizeBits f \<noteq> 64 then Inl (InvalidArgError ''IEEE_754 encoding expects 32- or 64-bit numbers'')
         else if f_enum f then Inl (InvalidArgError ''IEEE_754 encoding doesn't support enums'')
         else Inr (f\<lparr>f_isSigned := True\<rparr>))
      else Inr f)"

definition checkArgs :: "intfield \<Rightarrow> exn + intfield" where
  "checkArgs f =
     (let byteSize = ucast (b2B (f_sizeBits f)) :: u32 in
      if 7 < f_lsBit f then Inl (InvalidArgError ''lsBit (bit shift) must be in 0..7'')
      else
        let f1 = (if f_wordSwap f = byteSize then f\<lparr>f_wordSwap := 0\<rparr> else f) in
        if 0 < f_wordSwap f1 \<and> byteSize mod f_wordSwap f1 \<noteq> 0 then Inl (InvalidArgError ''wordSwap does not divide size'')
        else if f_sizeBits f1 mod 8 \<noteq> 0 \<and> f_wordSwap f1 \<noteq> 0 \<and> f_mode f1 \<noteq> RO
          then Inl (InvalidArgError ''Word-swap only supported if size % 8 == 0'')
        else case checkEncoding f1 of Inl e \<Rightarrow> Inl e | Inr f2 \<Rightarrow>
          (case checkConfigBase (f_configBase f2) of Inl e \<Rightarrow> Inl e | Inr b \<Rightarrow>
             Inr (f2\<lparr>f_configBase := b, f_size := computeSize (f_wordSwap f2) (f_sizeBits f2) (f_lsBit f2)\<rparr>)))"

definition getDefaultConfigPrio :: "intfield \<Rightarrow> int" where
  "getDefaultConfigPrio f = (if f_mode f = RW then DFLT_CONFIG_PRIO_RW else CONFIG_PRIO_OFF)"

definition setConfigBase :: "int \<Rightarrow> intfield \<Rightarrow> exn + intfield" where
  "setConfigBase proposed f =
     (if f_locked f then Inl (ConfigurationError ''Configuration Error - cannot modify attached device'')
      else case checkConfigBase proposed of Inl e \<Rightarrow> Inl e | Inr b \<Rightarrow> Inr (f\<lparr>f_configBase := b\<rparr>))"

definition setEncoding :: "encoding \<Rightarrow> intfield \<Rightarrow> exn + intfield" where
  "setEncoding proposed f =
     (if f_locked f then Inl (ConfigurationError ''Configuration Error - cannot modify attached device'')
      else Inr (f\<lparr>f_encoding := proposed\<rparr>))"

text \<open>The constructor, followed by the hook \<open>postHook\<close> which sets the default priority and checks the attributes.\<close>

definition intEntry_init :: "u64 \<Rightarrow> bool \<Rightarrow> int \<Rightarrow> mode \<Rightarrow> u32 \<Rightarrow> bool \<Rightarrow> intfield" where
  "intEntry_init sizeBits isSigned lsBit m wordSwap enm =
     \<lparr>f_isSigned = isSigned, f_lsBit = lsBit, f_sizeBits = sizeBits, f_mode = m, f_wordSwap = wordSwap,
      f_encoding = NONE, f_enum = enm, f_configBase = DFLT_CONFIG_BASE, f_configPrio = CONFIG_PRIO_OFF,
      f_locked = False, f_size = computeSize wordSwap sizeBits lsBit\<rparr>"

definition intEntry_postHook :: "intfield \<Rightarrow> exn + intfield" where
  "intEntry_postHook f = checkArgs (f\<lparr>f_configPrio := getDefaultConfigPrio f\<rparr>)"

section \<open>The builder\<close>

record intbuilder =
  b_name :: string
  b_sizeBits :: u64
  b_isSigned :: bool
  b_lsBit :: int
  b_mode :: mode
  b_configPrio :: int
  b_configBase :: int
  b_wordSwap :: u32
  b_encoding :: encoding
  b_enum :: bool

text \<open>\<open>init\<close> leaves \<^verbatim>\<open>enum_\<close> as it is.\<close>

definition builder_init :: "intbuilder \<Rightarrow> intbuilder" where
  "builder_init b = b\<lparr>b_name := [], b_sizeBits := 32, b_lsBit := 0, b_isSigned := False, b_mode := RW,
     b_configPrio := DFLT_CONFIG_PRIO_RW, b_configBase := DFLT_CONFIG_BASE, b_wordSwap := 0, b_encoding := NONE\<rparr>"

definition builder_reset :: "intbuilder \<Rightarrow> intbuilder" where
  "builder_reset b = builder_init b"

definition builder_name :: "string option \<Rightarrow> intbuilder \<Rightarrow> intbuilder" where
  "builder_name n b = b\<lparr>b_name := (case n of None \<Rightarrow> [] | Some s \<Rightarrow> s)\<rparr>"

definition builder_sizeBits :: "u64 \<Rightarrow> intbuilder \<Rightarrow> intbuilder" where
  "builder_sizeBits n b = b\<lparr>b_sizeBits := n\<rparr>"

definition builder_isSigned :: "bool \<Rightarrow> intbuilder \<Rightarrow> intbuilder" where
  "builder_isSigned v b = b\<lparr>b_isSigned := v\<rparr>"

definition builder_lsBit :: "int \<Rightarrow> intbuilder \<Rightarrow> intbuilder" where
  "builder_lsBit v b = b\<lparr>b_lsBit := v\<rparr>"

definition builder_configPrio :: "int \<Rightarrow> intbuilder \<Rightarrow> intbuilder" where
  "builder_configPrio v b = b\<lparr>b_configPrio := v\<rparr>"

definition builder_wordSwap :: "u32 \<Rightarrow> intbuilder \<Rightarrow> intbuilder" where
  "builder_wordSwap v b = b\<lparr>b_wordSwap := v\<rparr>"

definition builder_encoding :: "encoding \<Rightarrow> intbuilder \<Rightarrow> intbuilder" where
  "builder_encoding v b = b\<lparr>b_encoding := v\<rparr>"

definition builder_setEnum :: "bool \<Rightarrow> intbuilder \<Rightarrow> intbuilder" where
  "builder_setEnum v b = b\<lparr>b_enum := v\<rparr>"

definition builder_mode :: "mode \<Rightarrow> intbuilder \<Rightarrow> intbuilder" where
  "builder_mode m b = (if m \<noteq> RW then builder_configPrio CONFIG_PRIO_OFF (b\<lparr>b_mode := m\<rparr>) else b\<lparr>b_mode := m\<rparr>)"

definition builder_configBase :: "int \<Rightarrow> intbuilder \<Rightarrow> exn + intbuilder" where
  "builder_configBase p b = (case checkConfigBase p of Inl e \<Rightarrow> Inl e | Inr v \<Rightarrow> Inr (b\<lparr>b_configBase := v\<rparr>))"

definition build :: "intbuilder \<Rightarrow> exn + intfield" where
  "build b =
     (if b_sizeBits b mod 8 \<noteq> 0 \<and> b_wordSwap b \<noteq> 0 \<and> b_mode b \<noteq> RO
      then Inl (InvalidArgError ''Word-swap only supported if size % 8 == 0 or mode == RO'')
      else case intEntry_postHook (intEntry_init (b_sizeBits b) (b_isSigned b) (b_lsBit b) (b_mode b) (b_wordSwap b) (b_enum b)) of
        Inl e \<Rightarrow> Inl e
      | Inr f \<Rightarrow> (case setEncoding (b_encoding b) f of
          Inl e \<Rightarrow> Inl e
        | Inr g \<Rightarrow> setConfigBase (b_configBase b) (g\<lparr>f_configPrio := b_configPrio b\<rparr>)))"

section \<open>Index ranges\<close>

type_synonym index_range = "int \<times> int"

definition indexRange_create :: "int \<Rightarrow> int \<Rightarrow> exn + index_range" where
  "indexRange_create from to =
     (if 0 \<le> from \<and> 0 \<le> to \<and> to < from then Inl (InvalidArgError ''Invalid index range'') else Inr (from, to))"

definition indexRange_next :: "index_range \<Rightarrow> index_range" where
  "indexRange_next r = (let newFrom = snd r + 1 in (newFrom, newFrom + snd r - fst r))"

section \<open>From registers to numbers\<close>

text \<open>
  The memory is one list of bytes; \<open>c_obufp\<close> and \<open>c_ibufp\<close> are the addresses of the two buffers in it, so
  that the case where both are the buffer of the caller is the one of the code.
\<close>

record getctx =
  c_dbytes :: nat
  c_targetEndian :: byteorder
  c_nelms :: nat
  c_obufp :: nat
  c_ibufp :: nat

abbreviation sbytes :: "intfield \<Rightarrow> nat" where "sbytes f \<equiv> unat (f_size f)"
abbreviation sizeBits :: "intfield \<Rightarrow> nat" where "sizeBits f \<equiv> unat (f_sizeBits f)"
abbreviation lsBit :: "intfield \<Rightarrow> nat" where "lsBit f \<equiv> nat (f_lsBit f)"
abbreviation wlen :: "intfield \<Rightarrow> nat" where "wlen f \<equiv> unat (f_wordSwap f)"

text \<open>\<open>buf\<close> is the buffer of the caller, \<open>tmp\<close> the one which \<open>mkbuf\<close> provides.\<close>

definition getctx_create :: "byteorder \<Rightarrow> intfield \<Rightarrow> nat \<Rightarrow> nat \<Rightarrow> nat \<Rightarrow> nat \<Rightarrow> byteorder \<Rightarrow> getctx" where
  "getctx_create host f buf tmp nelms dbytes target =
     \<lparr>c_dbytes = dbytes, c_targetEndian = (if target = NATIVE then host else target), c_nelms = nelms,
      c_obufp = buf,
      c_ibufp = (if dbytes < sbytes f then tmp else buf)
             + (if sbytes f < dbytes \<and> host = BE then (dbytes - sbytes f) * nelms else 0)\<rparr>"

text \<open>\<open>within p n g\<close> runs the worker \<open>g\<close> on the \<open>n\<close> bytes at \<open>p\<close>.\<close>

definition within :: "nat \<Rightarrow> nat \<Rightarrow> (u8 list \<Rightarrow> u8 list) \<Rightarrow> u8 list \<Rightarrow> u8 list" where
  "within p n g m = put_at p (g (get_at p n m)) m"

definition get_elem :: "byteorder \<Rightarrow> intfield \<Rightarrow> getctx \<Rightarrow> u8 list \<Rightarrow> nat \<Rightarrow> u8 list" where
  "get_elem host f c m i =
     (let d = c_dbytes c; s = sbytes f; n = (sizeBits f + 7) div 8;
          ioff = (if host = BE then s - d else 0);
          noff = (if host = BE then s - n else 0);
          ooff = (if host = BE then d - s else 0);
          ip = c_ibufp c + i * s; op = c_obufp c + i * d;
          m = (if c_targetEndian c \<noteq> host then within ip s (sw_work s 1) m else m);
          m = (if f_lsBit f \<noteq> 0 then within ip s (shiftRight host (lsBit f)) m else m);
          m = (if 0 < wlen f then within (ip + noff) n (sw_work n (wlen f)) m else m);
          m = put_at (op + ooff) (get_at (ip + ioff) (if s \<le> d then s else d) m) m
      in if sizeBits f < 8 * d then within op d (se_work host (f_isSigned f) (sizeBits f) d) m else m)"

definition doComplete :: "byteorder \<Rightarrow> intfield \<Rightarrow> getctx \<Rightarrow> u8 list \<Rightarrow> u8 list" where
  "doComplete host f c m =
     (if c_targetEndian c \<noteq> host \<or> f_lsBit f \<noteq> 0 \<or> sizeBits f < 8 * c_dbytes c \<or> 8 * c_dbytes c < sizeBits f \<or> 0 < wlen f
      then foldl (get_elem host f c) m (if host = BE then [0..<c_nelms c] else rev [0..<c_nelms c])
      else m)"

section \<open>From numbers to registers\<close>

definition set_msk1 :: "intfield \<Rightarrow> byteorder \<Rightarrow> u8" where
  "set_msk1 f target = (if target = BE then keep_mask ((lsBit f + sizeBits f) mod 8) else low_mask (lsBit f))"

definition set_mskn :: "intfield \<Rightarrow> byteorder \<Rightarrow> u8" where
  "set_mskn f target = (if target = BE then low_mask (lsBit f) else keep_mask ((lsBit f + sizeBits f) mod 8))"

text \<open>The element \<open>i\<close> of \<open>ibuf\<close> (of \<open>s\<close> bytes each) is converted to that of \<open>obuf\<close>.\<close>

definition set_elem :: "byteorder \<Rightarrow> intfield \<Rightarrow> byteorder \<Rightarrow> nat \<Rightarrow> u8 list \<Rightarrow> u8 list \<Rightarrow> nat \<Rightarrow> u8 list" where
  "set_elem host f target s ibuf obuf i =
     (let d = sbytes f; n = (sizeBits f + 7) div 8;
          ioff = (if host = BE then s - d else 0);
          noff = (if host = BE then d - n else 0);
          ooff = (if host = BE then d - s else 0);
          ip = i * s; op = i * d;
          o' = put_at (op + ooff) (get_at (ip + ioff) (if s \<le> d then s else d) ibuf) obuf;
          o' = (if 8 * s < sizeBits f then within op d (se_work host (f_isSigned f) (8 * s) d) o' else o');
          o' = (if 0 < wlen f then within (op + noff) n (sw_work n (wlen f)) o' else o');
          o' = (if f_lsBit f \<noteq> 0 then within op d (shiftLeft host (lsBit f)) o' else o')
      in if target \<noteq> host then within op d (sw_work d 1) o' else o')"

record write_args =
  w_src :: "u8 list"
  w_off :: u64
  w_nbytes :: nat
  w_msk1 :: u8
  w_mskn :: u8

text \<open>What \<open>setVal\<close> passes to \<open>write\<close>; \<open>scratch\<close> is the content of the temporary buffer before.\<close>

definition setVal_args :: "byteorder \<Rightarrow> intfield \<Rightarrow> byteorder \<Rightarrow> nat \<Rightarrow> nat \<Rightarrow> u8 list \<Rightarrow> u8 list \<Rightarrow> write_args" where
  "setVal_args host f target0 elsz nelms buf scratch =
     (let target = (if target0 = NATIVE then host else target0);
          need_work = (target \<noteq> host \<or> f_lsBit f \<noteq> 0 \<or> 8 * elsz < sizeBits f \<or> sizeBits f < 8 * elsz \<or> 0 < wlen f)
      in if need_work
         then \<lparr>w_src = foldl (set_elem host f target elsz buf) scratch (if host = BE then [0..<nelms] else rev [0..<nelms]),
               w_off = 0, w_nbytes = sbytes f, w_msk1 = set_msk1 f target, w_mskn = set_mskn f target\<rparr>
         else \<lparr>w_src = buf, w_off = 0, w_nbytes = sbytes f, w_msk1 = 0, w_mskn = 0\<rparr>)"

text \<open>The width of the elements \<open>CScalVal_WOAdapt::setVal(uint64_t)\<close> fills its array with.\<close>

definition setVal_elsz :: "intfield \<Rightarrow> nat" where
  "setVal_elsz f = (if sbytes f \<le> 1 then 1 else if sbytes f \<le> 2 then 2 else if sbytes f \<le> 4 then 4 else 8)"

definition checkNelms :: "nat \<Rightarrow> nat \<Rightarrow> exn + nat" where
  "checkNelms nelms nelmsOnPath =
     (if nelmsOnPath \<le> nelms then Inr nelmsOnPath else Inl (InvalidArgError ''Invalid Argument: buffer too small''))"

end
