(* ===== verification/SvalBits.thy ===== *)
theory SvalBits
  imports Sval
begin

text \<open>
  Where the bits of a number lie in the register, what the conversion of one element does to them, and
  that the elements of an array do not disturb each other although the code may convert them in place.
  The host is little-endian throughout.
\<close>

section \<open>Attributes which passed the checks\<close>

abbreviation nbytes :: "intfield \<Rightarrow> nat" where "nbytes f \<equiv> (sizeBits f + 7) div 8"

definition int_ok :: "intfield \<Rightarrow> bool" where
  "int_ok f \<longleftrightarrow> 0 \<le> f_lsBit f \<and> f_lsBit f \<le> 7 \<and> 0 < sizeBits f
     \<and> (0 < wlen f \<longrightarrow> wlen f dvd nbytes f \<and> (f_mode f \<noteq> RO \<longrightarrow> 8 dvd sizeBits f))
     \<and> sbytes f = (lsBit f + (if 0 < wlen f then 8 * nbytes f else sizeBits f) + 7) div 8"

lemma unat_b2B: "unat x + 7 < 2 ^ 64 \<Longrightarrow> unat (b2B x) = (unat x + 7) div 8"
  by (simp add: b2B_def unat_div unat_word_ariths)

lemma checkEncoding_keeps:
  "checkEncoding f = Inr g \<Longrightarrow> f_lsBit g = f_lsBit f \<and> f_sizeBits g = f_sizeBits f \<and> f_wordSwap g = f_wordSwap f
     \<and> f_mode g = f_mode f \<and> (f_encoding f = IEEE_754 \<longrightarrow> f_isSigned g) \<and> f_encoding g = f_encoding f"
  by (auto simp: checkEncoding_def isCharEncoding_def split: if_splits)

text \<open>The word swap which remains: swapping whole numbers is none.\<close>

definition eff_swap :: "intfield \<Rightarrow> u32" where
  "eff_swap f = (if f_wordSwap f = ucast (b2B (f_sizeBits f)) then 0 else f_wordSwap f)"

lemma checkArgs_cases:
  assumes "checkArgs f = Inr g"
  shows "f_lsBit f \<le> 7 \<and> (0 < eff_swap f \<longrightarrow> ucast (b2B (f_sizeBits f)) mod eff_swap f = 0)
    \<and> (f_sizeBits f mod 8 \<noteq> 0 \<longrightarrow> eff_swap f \<noteq> 0 \<longrightarrow> f_mode f = RO)
    \<and> f_lsBit g = f_lsBit f \<and> f_sizeBits g = f_sizeBits f \<and> f_mode g = f_mode f \<and> f_wordSwap g = eff_swap f
    \<and> f_size g = computeSize (eff_swap f) (f_sizeBits f) (f_lsBit f)"
proof -
  let ?h = "if f_wordSwap f = ucast (b2B (f_sizeBits f)) then f\<lparr>f_wordSwap := 0\<rparr> else f"
  have h: "f_wordSwap ?h = eff_swap f" "f_lsBit ?h = f_lsBit f" "f_sizeBits ?h = f_sizeBits f" "f_mode ?h = f_mode f"
    by (simp_all add: eff_swap_def)
  have c: "f_lsBit f \<le> 7" "0 < eff_swap f \<longrightarrow> ucast (b2B (f_sizeBits f)) mod eff_swap f = 0"
    "f_sizeBits f mod 8 \<noteq> 0 \<longrightarrow> eff_swap f \<noteq> 0 \<longrightarrow> f_mode f = RO"
    using assms unfolding checkArgs_def Let_def h by (auto split: if_split_asm)
  obtain e b where e: "checkEncoding ?h = Inr e"
    and g: "g = e\<lparr>f_configBase := b, f_size := computeSize (f_wordSwap e) (f_sizeBits e) (f_lsBit e)\<rparr>"
    using assms unfolding checkArgs_def Let_def by (auto split: if_split_asm sum.split_asm)
  show ?thesis using c checkEncoding_keeps [OF e] h g by simp
qed

text \<open>The checks establish the invariant of the attributes, for a register of less than 512 MB whose bit
  shift is not negative.\<close>

lemma checkArgs_int_ok:
  assumes c: "checkArgs f = Inr g" and "0 \<le> f_lsBit f" "0 < sizeBits f" "sizeBits f < 2 ^ 32 - 8"
  shows "int_ok g"
proof -
  note k = checkArgs_cases [OF c]
  define n where "n = (sizeBits f + 7) div 8"
  have b: "unat (b2B (f_sizeBits f)) = n" using assms(4) by (simp add: n_def unat_b2B)
  have n32: "n < 2 ^ 32" using assms(4) by (simp add: n_def)
  have b32: "unat (ucast (b2B (f_sizeBits f)) :: u32) = n"
    using b n32 by (simp add: unsigned_ucast_eq take_bit_nat_eq_self)
  define l where "l = nat (f_lsBit f)"
  have l7: "l \<le> 7" "f_lsBit f = int l" using assms(2) k by (auto simp: l_def)
  have one: "8 * ((sizeBits f + 7) div 8 - 1) < sizeBits f" "sizeBits f \<le> 8 * n" using assms(3) by (auto simp: n_def)
  have pos: "0 < x \<longleftrightarrow> x \<noteq> 0" for x :: u32 by (simp add: word_neq_0_conv)
  have sw: "wlen g dvd n \<and> wlen g \<noteq> n" if "0 < wlen g"
  proof -
    have e: "eff_swap f = f_wordSwap g" "0 < eff_swap f" using k that by (auto simp: pos)
    then have "unat (ucast (b2B (f_sizeBits f)) mod eff_swap f :: u32) = 0" using k by simp
    then have "n mod wlen g = 0" using b32 e by (simp add: unat_mod)
    moreover have "eff_swap f \<noteq> ucast (b2B (f_sizeBits f))" using e(2) by (auto simp: eff_swap_def)
    then have "wlen g \<noteq> n" using b32 e by (metis word_unat_eq_iff)
    ultimately show ?thesis by (simp add: dvd_eq_mod_eq_0)
  qed
  have size: "sbytes g = (l + (if 0 < wlen g then 8 * n else sizeBits f) + 7) div 8"
  proof (cases "0 < wlen g")
    case True
    then have gz: "0 < eff_swap f" using k by (auto simp: pos)
    have "unat (ucast (eff_swap f) :: u64) = unat (eff_swap f)"
    proof -
      have "unat (eff_swap f) < 2 ^ 32" using unsigned_less [of "eff_swap f", where 'a = nat] by simp
      then have "take_bit 64 (unat (eff_swap f)) = unat (eff_swap f)" by (simp add: take_bit_nat_eq_self)
      then show ?thesis by (simp add: unsigned_ucast_eq)
    qed
    then have "unat (ucast (eff_swap f) :: u64) = wlen g" using k by simp
    then have "ucast (eff_swap f) \<noteq> b2B (f_sizeBits f)" using sw [OF True] b by metis
    then have "f_size g = b2B (f_sizeBits f) + (if l \<noteq> 0 then 1 else 0)"
      using k gz l7 by (simp add: computeSize_def)
    then have "sbytes g = n + (if l \<noteq> 0 then 1 else 0)"
      using b n32 by (auto simp: unat_word_ariths)
    then show ?thesis using True l7 by auto
  next
    case False
    then have "eff_swap f = 0" using k by (metis gr0I unat_eq_zero)
    then have "f_size g = b2B (f_sizeBits f + of_nat l)"
      using k l7 by (simp add: computeSize_def pos)
    moreover have "unat (f_sizeBits f + of_nat l) = sizeBits f + l"
      using assms(4) l7 by (simp add: unat_word_ariths unat_of_nat)
    ultimately show ?thesis using False assms(4) l7 by (simp add: unat_b2B add.commute)
  qed
  have "8 dvd sizeBits f" if "f_mode g \<noteq> RO" "0 < wlen g"
  proof -
    have "eff_swap f \<noteq> 0" using that(2) k by auto
    then have "f_sizeBits f mod 8 = 0" using k that(1) by metis
    then have "unat (f_sizeBits f mod 8) = 0" by simp
    then show ?thesis by (simp add: unat_mod dvd_eq_mod_eq_0)
  qed
  then show ?thesis
    using k l7 assms(3) sw size by (simp add: int_ok_def n_def)
qed

section \<open>The place of a bit\<close>

text \<open>The byte \<open>q\<close> of the number among those of the shifted register, and the bit \<open>k\<close> of the number in
  the register as it is in memory.\<close>

definition word_pos :: "intfield \<Rightarrow> nat \<Rightarrow> nat" where
  "word_pos f q = (if 0 < wlen f then mirror (nbytes f div wlen f) (wlen f) q else q)"

definition regpos :: "intfield \<Rightarrow> byteorder \<Rightarrow> nat \<Rightarrow> nat" where
  "regpos f target k =
     (let p = lsBit f + 8 * word_pos f (k div 8) + k mod 8
      in if target = BE then 8 * (sbytes f - 1 - p div 8) + p mod 8 else p)"

lemma lbit_at: "j < 8 \<Longrightarrow> lbit b (8 * i + j) = bit (b ! i) j"
  by (simp add: lbit_def)

lemma lbit_rev: "k < 8 * length b \<Longrightarrow> lbit (rev b) k = lbit b (8 * (length b - 1 - k div 8) + k mod 8)"
  by (simp add: lbit_def rev_nth less_mult_imp_div_less mult.commute)

lemma int_ok_size:
  assumes "int_ok f"
  shows "sizeBits f + lsBit f \<le> 8 * sbytes f" "lsBit f \<le> 7" "0 < sizeBits f" "nbytes f \<le> sbytes f" "sizeBits f \<le> 8 * nbytes f"
    "0 < wlen f \<Longrightarrow> 8 * nbytes f + lsBit f \<le> 8 * sbytes f"
    "0 < wlen f \<Longrightarrow> nbytes f div wlen f * wlen f = nbytes f"
  using assms by (auto simp: int_ok_def split: if_splits)

lemma word_pos_less:
  assumes "int_ok f" "q < nbytes f"
  shows "word_pos f q < nbytes f"
proof (cases "0 < wlen f")
  case True
  note m = int_ok_size(7) [OF assms(1) True]
  from mirror_word [of q "nbytes f div wlen f" "wlen f"] show ?thesis
    unfolding m using assms(2) True by (simp add: word_pos_def)
qed (use assms in \<open>simp add: word_pos_def\<close>)

lemma word_pos_twice:
  assumes "int_ok f" "q < nbytes f"
  shows "word_pos f (word_pos f q) = q"
proof (cases "0 < wlen f")
  case True
  note m = int_ok_size(7) [OF assms(1) True]
  show ?thesis
    using mirror_mirror [of q "nbytes f div wlen f" "wlen f"] True assms(2) unfolding m by (simp add: word_pos_def)
qed (simp add: word_pos_def)

text \<open>The bit in the register before the bytes are swapped.\<close>

definition shifted_pos :: "intfield \<Rightarrow> nat \<Rightarrow> nat" where
  "shifted_pos f k = 8 * word_pos f (k div 8) + k mod 8"

lemma shifted_pos_less:
  assumes "int_ok f" "k < sizeBits f"
  shows "shifted_pos f k + lsBit f < 8 * sbytes f" "shifted_pos f k < 8 * nbytes f"
proof -
  note s = int_ok_size [OF assms(1)]
  have q: "k div 8 < nbytes f" using assms(2) by linarith
  from word_pos_less [OF assms(1) q] show n: "shifted_pos f k < 8 * nbytes f"
    using mod_less_divisor [of 8 k] by (simp add: shifted_pos_def)
  show "shifted_pos f k + lsBit f < 8 * sbytes f"
  proof (cases "0 < wlen f")
    case True
    then show ?thesis using n s(6) by linarith
  next
    case False
    then have "shifted_pos f k = k" by (simp add: shifted_pos_def word_pos_def)
    then show ?thesis using s(1) assms(2) by linarith
  qed
qed

lemma regpos_shifted:
  "regpos f target k = (let p = shifted_pos f k + lsBit f in if target = BE then 8 * (sbytes f - 1 - p div 8) + p mod 8 else p)"
  by (simp add: regpos_def shifted_pos_def add.commute add.left_commute)

lemma flip_less: "p < 8 * (n :: nat) \<Longrightarrow> 8 * (n - 1 - p div 8) + p mod 8 < 8 * n"
proof -
  assume p: "p < 8 * n"
  have "8 * (n - 1 - p div 8) + 8 \<le> 8 * n" using p by (cases n) auto
  then show ?thesis using mod_less_divisor [of 8 p] by linarith
qed

lemma regpos_less: "int_ok f \<Longrightarrow> k < sizeBits f \<Longrightarrow> regpos f target k < 8 * sbytes f"
  using flip_less [of "shifted_pos f k + lsBit f" "sbytes f"] shifted_pos_less [of f k] by (simp add: regpos_shifted Let_def)

section \<open>One element\<close>

text \<open>The steps of the conversion before the result is copied, on the bytes of one register.\<close>

definition reg_unpack :: "intfield \<Rightarrow> byteorder \<Rightarrow> u8 list \<Rightarrow> u8 list" where
  "reg_unpack f target b =
     (let b = (if target \<noteq> LE then sw_work (sbytes f) 1 b else b);
          b = (if f_lsBit f \<noteq> 0 then shiftRight LE (lsBit f) b else b)
      in if 0 < wlen f then within 0 (nbytes f) (sw_work (nbytes f) (wlen f)) b else b)"

definition reg_pack :: "intfield \<Rightarrow> byteorder \<Rightarrow> u8 list \<Rightarrow> u8 list" where
  "reg_pack f target b =
     (let b = (if 0 < wlen f then within 0 (nbytes f) (sw_work (nbytes f) (wlen f)) b else b);
          b = (if f_lsBit f \<noteq> 0 then shiftLeft LE (lsBit f) b else b)
      in if target \<noteq> LE then sw_work (sbytes f) 1 b else b)"

lemma length_within:
  "p + n \<le> length m \<Longrightarrow> (\<And>x. length x = n \<Longrightarrow> length (g x) = n) \<Longrightarrow> length (within p n g m) = length m"
  by (simp add: within_def)

lemma within_nth:
  assumes "p + n \<le> length m" "\<And>x. length x = n \<Longrightarrow> length (g x) = n" "k < length m"
  shows "within p n g m ! k = (if p \<le> k \<and> k < p + n then g (get_at p n m) ! (k - p) else m ! k)"
  using assms by (simp add: within_def nth_put_at)

lemma length_swap_words:
  assumes "int_ok f" "0 < wlen f" "length x = nbytes f"
  shows "length (sw_work (nbytes f) (wlen f) x) = nbytes f"
  using length_sw_work [of "wlen f" "nbytes f div wlen f" x] int_ok_size(7) [OF assms(1,2)] assms by simp

lemma swap_words_bits:
  assumes "int_ok f" "0 < wlen f" "length b = sbytes f" "k < 8 * nbytes f"
  shows "length (within 0 (nbytes f) (sw_work (nbytes f) (wlen f)) b) = sbytes f
    \<and> lbit (within 0 (nbytes f) (sw_work (nbytes f) (wlen f)) b) k = lbit b (shifted_pos f k)"
proof -
  let ?q = "k div 8" and ?w = "wlen f" and ?n = "nbytes f"
  note s = int_ok_size [OF assms(1)]
  have le: "0 + ?n \<le> length b" using s(4) assms(3) by simp
  have q: "?q < ?n" using assms(4) by linarith
  have m: "?n div ?w * ?w = ?n" by (rule s(7) [OF assms(2)])
  have len: "length x = ?n \<Longrightarrow> length (sw_work ?n ?w x) = ?n" for x by (rule length_swap_words [OF assms(1,2)])
  have g: "length (get_at 0 ?n b) = ?n" using le by simp
  have qb: "?q < length b" using q le by linarith
  have "sw_work ?n ?w (get_at 0 ?n b) ! ?q = get_at 0 ?n b ! word_pos f ?q"
    using sw_work_nth [of ?w "?n div ?w" "get_at 0 ?n b" ?q] assms(2) q unfolding m g by (simp add: word_pos_def)
  also have "\<dots> = b ! word_pos f ?q"
    using nth_get_at [OF le word_pos_less [OF assms(1) q]] by simp
  finally have nth: "within 0 ?n (sw_work ?n ?w) b ! ?q = b ! word_pos f ?q"
    using within_nth [OF le len qb] q by simp
  show ?thesis
    using length_within [OF le len] assms(3) nth by (simp add: lbit_def shifted_pos_def)
qed

lemma sw_bytes_bits:
  assumes "length b = n" "k < 8 * n"
  shows "length (sw_work n 1 b) = n \<and> lbit (sw_work n 1 b) k = lbit b (8 * (n - 1 - k div 8) + k mod 8)"
  using sw_work_bytes [of b] lbit_rev [of k b] assms by simp

lemma reg_unpack_bits:
  assumes ok: "int_ok f" and t: "target \<in> {LE, BE}" and b: "length b = sbytes f" and k: "k < sizeBits f"
  shows "length (reg_unpack f target b) = sbytes f \<and> lbit (reg_unpack f target b) k = lbit b (regpos f target k)"
proof -
  note s = int_ok_size [OF ok]
  define b1 where "b1 = (if target \<noteq> LE then sw_work (sbytes f) 1 b else b)"
  define b2 where "b2 = (if f_lsBit f \<noteq> 0 then shiftRight LE (lsBit f) b1 else b1)"
  define b3 where "b3 = (if 0 < wlen f then within 0 (nbytes f) (sw_work (nbytes f) (wlen f)) b2 else b2)"
  have r: "reg_unpack f target b = b3" by (simp only: reg_unpack_def Let_def b1_def b2_def b3_def)
  have l1: "length b1 = sbytes f" using sw_bytes_bits [OF b, of 0] b s(1,3) by (auto simp: b1_def)
  have l2: "length b2 = sbytes f" using l1 by (simp add: b2_def)
  have kn: "k < 8 * nbytes f" using k s(5) by linarith
  let ?p = "shifted_pos f k"
  note p = shifted_pos_less [OF ok k]
  have p8: "?p < 8 * sbytes f" using p(1) by simp
  have b1: "lbit b1 (?p + lsBit f) = lbit b (regpos f target k)"
    using sw_bytes_bits [OF b p(1)] t by (auto simp: b1_def regpos_shifted Let_def)
  have b2: "lbit b2 ?p = lbit b1 (?p + lsBit f)"
  proof (cases "f_lsBit f = 0")
    case False
    have "lsBit f < 8" using s(2) by simp
    from shiftRight_bits [OF this, of ?p b1] show ?thesis using False p(1) p8 l1 by (simp add: b2_def)
  qed (simp add: b2_def)
  have "length b3 = sbytes f \<and> lbit b3 k = lbit b2 ?p"
  proof (cases "0 < wlen f")
    case True
    then show ?thesis using swap_words_bits [OF ok True l2 kn] by (simp add: b3_def)
  next
    case False
    then have "?p = k" by (simp add: shifted_pos_def word_pos_def)
    then show ?thesis using False l2 by (simp add: b3_def)
  qed
  then show ?thesis using r b1 b2 by simp
qed

lemma reg_pack_bits:
  assumes ok: "int_ok f" and t: "target \<in> {LE, BE}" and b: "length b = sbytes f" and k: "k < sizeBits f"
  shows "length (reg_pack f target b) = sbytes f \<and> lbit (reg_pack f target b) (regpos f target k) = lbit b k"
proof -
  note s = int_ok_size [OF ok]
  define b1 where "b1 = (if 0 < wlen f then within 0 (nbytes f) (sw_work (nbytes f) (wlen f)) b else b)"
  define b2 where "b2 = (if f_lsBit f \<noteq> 0 then shiftLeft LE (lsBit f) b1 else b1)"
  define b3 where "b3 = (if target \<noteq> LE then sw_work (sbytes f) 1 b2 else b2)"
  have r: "reg_pack f target b = b3" by (simp only: reg_pack_def Let_def b1_def b2_def b3_def)
  let ?p = "shifted_pos f k"
  note p = shifted_pos_less [OF ok k]
  have b1: "length b1 = sbytes f \<and> lbit b1 ?p = lbit b k"
  proof (cases "0 < wlen f")
    case True
    have q: "k div 8 < nbytes f" using k by linarith
    have "shifted_pos f ?p = k" using word_pos_twice [OF ok q] by (simp add: shifted_pos_def)
    then show ?thesis using swap_words_bits [OF ok True b p(2)] True by (simp add: b1_def)
  next
    case False
    then have "?p = k" by (simp add: shifted_pos_def word_pos_def)
    then show ?thesis using False b by (simp add: b1_def)
  qed
  have b2: "length b2 = sbytes f \<and> lbit b2 (?p + lsBit f) = lbit b1 ?p"
  proof (cases "f_lsBit f = 0")
    case False
    have "lsBit f < 8" using s(2) by simp
    from shiftLeft_bits [OF this, of "?p + lsBit f" b1] show ?thesis using False p(1) b1 by (simp add: b2_def)
  qed (simp add: b2_def b1)
  have "length b3 = sbytes f \<and> lbit b3 (regpos f target k) = lbit b2 (?p + lsBit f)"
  proof (cases "target = LE")
    case True
    then show ?thesis using b2 by (simp add: b3_def regpos_shifted Let_def)
  next
    case False
    let ?q = "?p + lsBit f"
    have "?q div 8 < sbytes f" using p(1) by linarith
    then have "8 * (sbytes f - 1 - (8 * (sbytes f - 1 - ?q div 8) + ?q mod 8) div 8) + (8 * (sbytes f - 1 - ?q div 8) + ?q mod 8) mod 8 = ?q"
      by simp
    then show ?thesis
      using False t sw_bytes_bits [of b2 "sbytes f" "regpos f target k"] regpos_less [OF ok k, of target] b2
      by (simp add: b3_def regpos_shifted Let_def)
  qed
  then show ?thesis using r b1 b2 by simp
qed

end
