(* ===== verification/SvalGet.thy ===== *)
theory SvalGet
  imports SvalBits
begin

text \<open>
  \<open>CGetIntValContext::doComplete\<close> on a little-endian host: every number of the array has the bits of its
  register, extended by its sign or cut off, also where the numbers overwrite the registers.
\<close>

section \<open>Workers on a part of memory\<close>

lemma put_put: "length x = length y \<Longrightarrow> p + length y \<le> length m \<Longrightarrow> put_at p x (put_at p y m) = put_at p x m"
  by (simp add: put_at_def)

lemma get_put: "p + length y \<le> length m \<Longrightarrow> n = length y \<Longrightarrow> get_at p n (put_at p y m) = y"
  by (simp add: put_at_def get_at_def)

lemma put_get [simp]: "put_at p (get_at p n m) m = m"
proof -
  have "take n (drop p m) @ drop (p + length (take n (drop p m))) m = drop p m"
  proof (cases "n \<le> length m - p")
    case True
    then have "drop (p + length (take n (drop p m))) m = drop n (drop p m)" by (simp add: add.commute min_def)
    then show ?thesis by (simp only: append_take_drop_id)
  qed simp
  then show ?thesis by (simp only: put_at_def get_at_def append_take_drop_id)
qed

lemma get_within:
  "p + n \<le> length m \<Longrightarrow> (\<And>x. length x = n \<Longrightarrow> length (g x) = n) \<Longrightarrow> get_at p n (within p n g m) = g (get_at p n m)"
  by (simp add: within_def get_put)

lemma within_within:
  assumes "p + n \<le> length m" "\<And>x. length x = n \<Longrightarrow> length (g x) = n" "\<And>x. length x = n \<Longrightarrow> length (h x) = n"
  shows "within p n h (within p n g m) = within p n (\<lambda>x. h (g x)) m"
proof -
  have gw: "get_at p n (within p n g m) = g (get_at p n m)" using get_within [of p n m g] assms by blast
  have "within p n h (within p n g m) = put_at p (h (g (get_at p n m))) (within p n g m)"
    by (simp only: within_def [of p n h] gw)
  also have "\<dots> = put_at p (h (g (get_at p n m))) m"
    unfolding within_def using assms by (intro put_put) simp_all
  finally show ?thesis by (simp only: within_def)
qed

lemma within_prefix:
  assumes "n \<le> s" "p + s \<le> length m" "\<And>x. length x = n \<Longrightarrow> length (g x) = n"
  shows "within p n g m = within p s (within 0 n g) m"
proof (rule nth_equalityI)
  have le: "p + n \<le> length m" using assms(1,2) by simp
  have l: "length (within 0 n g x) = s" if "length x = s" for x
    using length_within [of 0 n x g] assms(1,3) that by simp
  show "length (within p n g m) = length (within p s (within 0 n g) m)"
    using length_within [OF le assms(3)] length_within [OF assms(2) l] by simp
  fix k
  assume "k < length (within p n g m)"
  then have k: "k < length m" using length_within [OF le assms(3)] by simp
  have pre: "get_at 0 n (get_at p s m) = get_at p n m" using assms(1) by (simp add: get_at_def min_def)
  show "within p n g m ! k = within p s (within 0 n g) m ! k"
  proof (cases "p \<le> k \<and> k < p + s")
    case True
    have "within 0 n g (get_at p s m) ! (k - p) = (if k < p + n then g (get_at p n m) ! (k - p) else m ! k)"
      using within_nth [of 0 n "get_at p s m" g "k - p"] assms True pre nth_get_at [OF assms(2), of "k - p"] by auto
    then show ?thesis
      using within_nth [OF le assms(3) k] within_nth [OF assms(2) l k] True by auto
  next
    case False
    then show ?thesis
      using within_nth [OF le assms(3) k] within_nth [OF assms(2) l k] assms(1) by auto
  qed
qed

lemma within_id: "within p n (\<lambda>b. b) m = m"
  by (simp add: within_def)

lemma within_if: "(if c then within p n g m else m) = within p n (\<lambda>b. if c then g b else b) m"
  by (simp add: within_id)

lemma length_reg_steps:
  assumes "int_ok f" "length b = sbytes f"
  shows "length (if t then sw_work (sbytes f) 1 b else b) = sbytes f"
    "length (if t then shiftRight h n b else b) = sbytes f" "length (if t then shiftLeft h n b else b) = sbytes f"
    "length (if 0 < wlen f then within 0 (nbytes f) (sw_work (nbytes f) (wlen f)) b else b) = sbytes f"
proof -
  note s = int_ok_size [OF assms(1)]
  show "length (if t then sw_work (sbytes f) 1 b else b) = sbytes f"
    using length_sw_work [of 1 "sbytes f" b] assms(2) by simp
  show "length (if 0 < wlen f then within 0 (nbytes f) (sw_work (nbytes f) (wlen f)) b else b) = sbytes f"
    using swap_words_bits [OF assms(1) _ assms(2), of 0] s(3,5) assms(2) by auto
qed (simp_all add: assms)

lemma length_reg_unpack: "int_ok f \<Longrightarrow> length b = sbytes f \<Longrightarrow> length (reg_unpack f t b) = sbytes f"
  unfolding reg_unpack_def Let_def by (intro length_reg_steps) simp_all

lemma length_reg_pack: "int_ok f \<Longrightarrow> length b = sbytes f \<Longrightarrow> length (reg_pack f t b) = sbytes f"
  unfolding reg_pack_def Let_def by (intro length_reg_steps) simp_all

section \<open>One element in memory\<close>

lemma unpack_in_memory:
  assumes ok: "int_ok f" and le: "ip + sbytes f \<le> length m"
  shows "(let m = (if t \<noteq> LE then within ip (sbytes f) (sw_work (sbytes f) 1) m else m);
              m = (if f_lsBit f \<noteq> 0 then within ip (sbytes f) (shiftRight LE (lsBit f)) m else m)
          in if 0 < wlen f then within ip (nbytes f) (sw_work (nbytes f) (wlen f)) m else m)
       = within ip (sbytes f) (reg_unpack f t) m"
proof -
  let ?s = "sbytes f" and ?n = "nbytes f"
  define g1 where "g1 = (\<lambda>b. if t \<noteq> LE then sw_work ?s 1 b else b)"
  define g2 where "g2 = (\<lambda>b. if f_lsBit f \<noteq> 0 then shiftRight LE (lsBit f) b else b)"
  define g3 where "g3 = (\<lambda>b. if 0 < wlen f then within 0 ?n (sw_work ?n (wlen f)) b else b)"
  have l: "length b = ?s \<Longrightarrow> length (g1 b) = ?s" "length b = ?s \<Longrightarrow> length (g2 b) = ?s" "length b = ?s \<Longrightarrow> length (g3 b) = ?s" for b
    unfolding g1_def g2_def g3_def using length_reg_steps [OF ok] by blast+
  have ns: "?n \<le> ?s" using int_ok_size [OF ok] by simp
  have sw: "(if 0 < wlen f then within ip ?n (sw_work ?n (wlen f)) x else x) = within ip ?s g3 x" if "length x = length m" for x
    using within_prefix [OF ns, of ip x "sw_work ?n (wlen f)"] length_swap_words [OF ok] le that
    by (simp add: g3_def within_id)
  have 1: "length (within ip ?s g1 m) = length m" using length_within [OF le l(1)] .
  have 2: "length (within ip ?s (\<lambda>x. g2 (g1 x)) m) = length m" using length_within [OF le, of "\<lambda>x. g2 (g1 x)"] l by simp
  have ww: "within ip ?s g2 (within ip ?s g1 m) = within ip ?s (\<lambda>x. g2 (g1 x)) m"
    by (rule within_within [OF le]) (simp_all add: l)
  have "(let m = (if t \<noteq> LE then within ip ?s (sw_work ?s 1) m else m);
             m = (if f_lsBit f \<noteq> 0 then within ip ?s (shiftRight LE (lsBit f)) m else m)
          in if 0 < wlen f then within ip ?n (sw_work ?n (wlen f)) m else m)
     = (let x = within ip ?s g2 (within ip ?s g1 m) in if 0 < wlen f then within ip ?n (sw_work ?n (wlen f)) x else x)"
    unfolding g1_def g2_def by (simp add: within_if [symmetric] within_id)
  also have "\<dots> = within ip ?s g3 (within ip ?s (\<lambda>x. g2 (g1 x)) m)"
    unfolding Let_def ww by (rule sw [OF 2])
  also have "\<dots> = within ip ?s (\<lambda>x. g3 (g2 (g1 x))) m"
    using within_within [OF le, of "\<lambda>x. g2 (g1 x)" g3] l by simp
  also have "(\<lambda>x. g3 (g2 (g1 x))) = reg_unpack f t"
    by (simp add: fun_eq_iff reg_unpack_def g1_def g2_def g3_def Let_def)
  finally show ?thesis .
qed

text \<open>Bit \<open>k\<close> of the number in the register bytes \<open>b\<close>: one of the register, or the sign.\<close>

definition reg_bit :: "intfield \<Rightarrow> byteorder \<Rightarrow> u8 list \<Rightarrow> nat \<Rightarrow> bool" where
  "reg_bit f target b k =
     (if k < sizeBits f then lbit b (regpos f target k) else f_isSigned f \<and> lbit b (regpos f target (sizeBits f - 1)))"

lemma lbit_get_at: "p + n \<le> length m \<Longrightarrow> k < 8 * n \<Longrightarrow> lbit (get_at p n m) k = lbit m (8 * p + k)"
  by (simp add: lbit_def nth_get_at less_mult_imp_div_less mult.commute)

lemma lbit_put_at:
  assumes "p + length x \<le> length m" "k < 8 * length m"
  shows "lbit (put_at p x m) k = (if 8 * p \<le> k \<and> k < 8 * (p + length x) then lbit x (k - 8 * p) else lbit m k)"
proof -
  have k: "k div 8 < length m" using assms(2) by linarith
  have e: "(k - 8 * p) div 8 = k div 8 - p" "(k - 8 * p) mod 8 = k mod 8" if "8 * p \<le> k"
    using that by (auto simp: le_iff_add)
  have "p \<le> k div 8 \<and> k div 8 < p + length x \<longleftrightarrow> 8 * p \<le> k \<and> k < 8 * (p + length x)"
    by (simp add: less_eq_div_iff_mult_less_eq div_less_iff_less_mult mult.commute)
  then show ?thesis using nth_put_at [OF assms(1) k] e by (auto simp: lbit_def)
qed

lemma get_elem_unpack:
  assumes ok: "int_ok f" and le: "c_ibufp c + i * sbytes f + sbytes f \<le> length m"
  shows "get_elem LE f c m i =
    (let s = sbytes f; d = c_dbytes c; ip = c_ibufp c + i * s; op = c_obufp c + i * d;
         m = within ip s (reg_unpack f (c_targetEndian c)) m;
         m = put_at op (get_at ip (if s \<le> d then s else d) m) m
     in if sizeBits f < 8 * d then within op d (se_work LE (f_isSigned f) (sizeBits f) d) m else m)"
  using unpack_in_memory [OF assms, of "c_targetEndian c"] by (simp add: get_elem_def Let_def cong: if_cong)

lemma get_elem_spec:
  assumes ok: "int_ok f" and t: "c_targetEndian c \<in> {LE, BE}"
    and ip: "ip = c_ibufp c + i * sbytes f" and op: "op = c_obufp c + i * c_dbytes c"
    and le: "ip + sbytes f \<le> length m" "op + c_dbytes c \<le> length m"
  shows "length (get_elem LE f c m i) = length m"
    "\<And>k. k < length m \<Longrightarrow> \<not> (ip \<le> k \<and> k < ip + sbytes f) \<Longrightarrow> \<not> (op \<le> k \<and> k < op + c_dbytes c) \<Longrightarrow> get_elem LE f c m i ! k = m ! k"
    "\<And>k. k < 8 * c_dbytes c \<Longrightarrow> lbit (get_at op (c_dbytes c) (get_elem LE f c m i)) k
      = reg_bit f (c_targetEndian c) (get_at ip (sbytes f) m) k"
proof -
  let ?s = "sbytes f" and ?d = "c_dbytes c" and ?t = "c_targetEndian c"
  let ?n = "if ?s \<le> ?d then ?s else ?d"
  define b where "b = get_at ip ?s m"
  define u where "u = reg_unpack f ?t b"
  define m1 where "m1 = within ip ?s (reg_unpack f ?t) m"
  define m2 where "m2 = put_at op (get_at ip ?n m1) m1"
  define m3 where "m3 = (if sizeBits f < 8 * ?d then within op ?d (se_work LE (f_isSigned f) (sizeBits f) ?d) m2 else m2)"
  have e: "get_elem LE f c m i = m3"
    using get_elem_unpack [OF ok, of c i m] le ip op by (simp only: Let_def m1_def m2_def m3_def)
  have lb: "length b = ?s" using le by (simp add: b_def)
  note s = int_ok_size [OF ok]
  note lu = length_reg_unpack [OF ok]
  have l1: "length m1 = length m" unfolding m1_def by (rule length_within [OF le(1) lu])
  have n: "?n \<le> ?s" "?n \<le> ?d" by simp_all
  have g1: "get_at ip ?s m1 = u" unfolding m1_def u_def b_def by (rule get_within [OF le(1) lu])
  have gn: "get_at ip ?n m1 = take ?n u"
    using arg_cong [OF g1, of "take ?n"] n(1) by (simp add: get_at_def min_def)
  have ln: "length (take ?n u) = ?n" using lu [OF lb, of ?t] n(1) by (simp add: u_def)
  have m2: "m2 = put_at op (take ?n u) m1" by (simp add: m2_def gn)
  have opn: "op + length (take ?n u) \<le> length m1" using le(2) n(2) l1 ln by linarith
  have l2: "length m2 = length m" unfolding m2 using opn l1 by simp
  have se: "length (se_work LE (f_isSigned f) (sizeBits f) ?d x) = ?d" if "length x = ?d" for x using that by simp
  have le2: "op + ?d \<le> length m2" using le l2 by simp
  have l3: "length m3 = length m" using length_within [OF le2 se] l2 by (simp add: m3_def)
  then show "length (get_elem LE f c m i) = length m" by (simp add: e)
  show "get_elem LE f c m i ! k = m ! k"
    if k: "k < length m" and o: "\<not> (ip \<le> k \<and> k < ip + ?s)" "\<not> (op \<le> k \<and> k < op + ?d)" for k
  proof -
    have "m1 ! k = m ! k" using within_nth [of ip ?s m "reg_unpack f ?t" k] le(1) lu k o(1) by (simp add: m1_def)
    moreover have "m2 ! k = m1 ! k" unfolding m2 using nth_put_at [OF opn, of k] k l1 o(2) n(2) ln by auto
    moreover have "m3 ! k = m2 ! k" using within_nth [of op ?d m2 "se_work LE (f_isSigned f) (sizeBits f) ?d" k] le2 k l2 o(2) by (auto simp: m3_def)
    ultimately show ?thesis by (simp add: e)
  qed
  let ?x = "get_at op ?d m2"
  have lx: "length ?x = ?d" using le2 by simp
  have x: "lbit ?x k = lbit u k" if k: "k < 8 * ?n" for k
  proof -
    have kd: "k < 8 * ?d" "8 * op + k < 8 * length m1" using k n(2) le(2) l1 by linarith+
    have "lbit ?x k = lbit (put_at op (take ?n u) m1) (8 * op + k)" using lbit_get_at [OF le2 kd(1)] by (simp add: m2)
    also have "\<dots> = lbit (take ?n u) k" using lbit_put_at [OF opn kd(2)] k ln by simp
    also have "\<dots> = lbit u k"
    proof -
      have "k div 8 < ?n" using k by linarith
      then show ?thesis by (simp add: lbit_def)
    qed
    finally show ?thesis .
  qed
  have ub: "lbit u k = lbit b (regpos f ?t k)" if "k < sizeBits f" for k
    using reg_unpack_bits [OF ok t lb that] by (simp add: u_def)
  show "lbit (get_at op ?d (get_elem LE f c m i)) k = reg_bit f ?t (get_at ip ?s m) k" if k: "k < 8 * ?d" for k
  proof (cases "sizeBits f < 8 * ?d")
    case True
    have g3: "get_at op ?d m3 = se_work LE (f_isSigned f) (sizeBits f) ?d ?x"
      using get_within [OF le2 se] True by (simp add: m3_def)
    have n8: "sizeBits f \<le> 8 * ?n" using True s(1) by auto
    have w: "lbit (get_at op ?d m3) k = (if k < sizeBits f then lbit ?x k else f_isSigned f \<and> lbit ?x (sizeBits f - 1))"
      unfolding g3 using True s(3) lx k by (intro se_work_bits) auto
    have "lbit ?x j = lbit b (regpos f ?t j)" if "j < sizeBits f" for j
      using x [of j] ub [OF that] that n8 by linarith
    then show ?thesis using w s(3) by (simp add: e reg_bit_def b_def [symmetric])
  next
    case False
    then have kn: "k < sizeBits f" "k < 8 * ?n" using k s(1) by auto
    have "m3 = m2" using False by (simp add: m3_def)
    then show ?thesis using x [OF kn(2)] ub [OF kn(1)] kn(1) by (simp add: e reg_bit_def b_def [symmetric])
  qed
qed

section \<open>The array\<close>

text \<open>Where the buffers lie: either the registers are read to the start of the buffer of the numbers, which are
  not smaller, or to memory of their own.\<close>

definition layout_ok :: "intfield \<Rightarrow> getctx \<Rightarrow> nat \<Rightarrow> u8 list \<Rightarrow> bool" where
  "layout_ok f c n m \<longleftrightarrow> c_obufp c + n * c_dbytes c \<le> length m \<and> c_ibufp c + n * sbytes f \<le> length m
     \<and> (if sbytes f \<le> c_dbytes c then c_ibufp c = c_obufp c
        else c_obufp c + n * c_dbytes c \<le> c_ibufp c \<or> c_ibufp c + n * sbytes f \<le> c_obufp c)"

definition reg_at :: "intfield \<Rightarrow> getctx \<Rightarrow> nat \<Rightarrow> u8 list \<Rightarrow> u8 list" where
  "reg_at f c i m = get_at (c_ibufp c + i * sbytes f) (sbytes f) m"

definition num_at :: "getctx \<Rightarrow> nat \<Rightarrow> u8 list \<Rightarrow> u8 list" where
  "num_at c i m = get_at (c_obufp c + i * c_dbytes c) (c_dbytes c) m"

lemma get_at_cong:
  assumes "length x = length y" "p + n \<le> length y" "\<And>k. p \<le> k \<Longrightarrow> k < p + n \<Longrightarrow> x ! k = y ! k"
  shows "get_at p n x = get_at p n y"
  using assms by (intro nth_equalityI) (simp_all add: nth_get_at)

lemma elem_range: "i < n \<Longrightarrow> p + i * w + w \<le> p + n * (w :: nat)"
  using mult_le_mono1 [of "Suc i" n w] by simp

lemma get_loop:
  assumes ok: "int_ok f" and t: "c_targetEndian c \<in> {LE, BE}" and lay: "layout_ok f c n m"
  shows "length (foldl (get_elem LE f c) m (rev [0..<n])) = length m
    \<and> (\<forall>k < length m. \<not> (c_ibufp c \<le> k \<and> k < c_ibufp c + n * sbytes f) \<longrightarrow> \<not> (c_obufp c \<le> k \<and> k < c_obufp c + n * c_dbytes c)
         \<longrightarrow> foldl (get_elem LE f c) m (rev [0..<n]) ! k = m ! k)
    \<and> (\<forall>i < n. \<forall>k < 8 * c_dbytes c. lbit (num_at c i (foldl (get_elem LE f c) m (rev [0..<n]))) k
         = reg_bit f (c_targetEndian c) (reg_at f c i m) k)"
  using lay
proof (induction n arbitrary: m)
  case (Suc n)
  let ?s = "sbytes f" and ?d = "c_dbytes c" and ?I = "c_ibufp c" and ?O = "c_obufp c"
  let ?m = "get_elem LE f c m n"
  have le: "?I + n * ?s + ?s \<le> length m" "?O + n * ?d + ?d \<le> length m"
    using Suc.prems by (simp_all add: layout_ok_def add.assoc add.commute [of "n * _"])
  note el = get_elem_spec [OF ok t refl refl le]
  let ?r = "foldl (get_elem LE f c) ?m (rev [0..<n])"
  have r: "foldl (get_elem LE f c) m (rev [0..<Suc n]) = ?r" by simp
  have mono: "?s \<le> ?d \<Longrightarrow> n * ?s \<le> n * ?d" by simp
  have "layout_ok f c n ?m" using Suc.prems by (auto simp: layout_ok_def el(1))
  note IH = Suc.IH [OF this, unfolded el(1)]
  have keep: "get_elem LE f c m n ! k = m ! k"
    if "k < length m" "\<not> (?I + n * ?s \<le> k \<and> k < ?I + n * ?s + ?s)" "\<not> (?O + n * ?d \<le> k \<and> k < ?O + n * ?d + ?d)" for k
    using el(2) that by blast
  have reg: "reg_at f c i ?m = reg_at f c i m" if i: "i < n" for i
    unfolding reg_at_def
  proof (rule get_at_cong [OF el(1)])
    show "?I + i * ?s + ?s \<le> length m" using elem_range [OF i, of ?I ?s] le(1) by linarith
    fix k
    assume k: "?I + i * ?s \<le> k" "k < ?I + i * ?s + ?s"
    have kn: "k < ?I + n * ?s" using k(2) elem_range [OF i, of ?I ?s] by linarith
    have "\<not> (?O + n * ?d \<le> k \<and> k < ?O + n * ?d + ?d)"
    proof (cases "?s \<le> ?d")
      case True
      then have "?I = ?O" using Suc.prems by (simp add: layout_ok_def)
      then show ?thesis using kn mono [OF True] by linarith
    next
      case False
      then show ?thesis using Suc.prems kn k(1) by (auto simp: layout_ok_def split: if_splits)
    qed
    then show "?m ! k = m ! k" using keep kn le(1) by simp
  qed
  have last: "num_at c n ?r = num_at c n ?m"
    unfolding num_at_def
  proof (rule get_at_cong)
    show "length ?r = length ?m" using IH el(1) by simp
    show "?O + n * ?d + ?d \<le> length ?m" using le(2) el(1) by simp
    fix k
    assume k: "?O + n * ?d \<le> k" "k < ?O + n * ?d + ?d"
    have "\<not> (?I \<le> k \<and> k < ?I + n * ?s)" 
    proof (cases "?s \<le> ?d")
      case True
      then have "?I = ?O" using Suc.prems by (simp add: layout_ok_def)
      then show ?thesis using k mono [OF True] by linarith
    next
      case False
      then show ?thesis using Suc.prems k by (auto simp: layout_ok_def split: if_splits)
    qed
    then show "?r ! k = ?m ! k" using IH k le(2) el(1) by simp
  qed
  show ?case unfolding r
  proof (intro conjI allI impI)
    show "length ?r = length m" using IH el(1) by simp
    fix k
    assume "k < length m" "\<not> (?I \<le> k \<and> k < ?I + Suc n * ?s)" "\<not> (?O \<le> k \<and> k < ?O + Suc n * ?d)"
    then show "?r ! k = m ! k" using IH keep [of k] el(1) by auto
  next
    fix i k
    assume i: "i < Suc n" and k: "k < 8 * ?d"
    show "lbit (num_at c i ?r) k = reg_bit f (c_targetEndian c) (reg_at f c i m) k"
    proof (cases "i = n")
      case True
      then show ?thesis using el(3) [OF k] last by (simp add: num_at_def reg_at_def)
    next
      case False
      then show ?thesis using IH reg i k by simp
    qed
  qed
qed simp

lemma doComplete_bits:
  assumes ok: "int_ok f" and t: "target \<in> {LE, BE, NATIVE}"
    and c: "c = getctx_create LE f buf tmp nelms d target" and lay: "layout_ok f c nelms m"
    and i: "i < nelms" and k: "k < 8 * d"
  shows "lbit (num_at c i (doComplete LE f c m)) k = reg_bit f (if target = BE then BE else LE) (reg_at f c i m) k"
proof -
  have ct: "c_targetEndian c = (if target = BE then BE else LE)" "c_dbytes c = d" "c_nelms c = nelms"
    using c t by (auto simp: getctx_create_def)
  have t': "c_targetEndian c \<in> {LE, BE}" by (simp add: ct)
  show ?thesis
  proof (cases "c_targetEndian c \<noteq> LE \<or> f_lsBit f \<noteq> 0 \<or> sizeBits f < 8 * d \<or> 8 * d < sizeBits f \<or> 0 < wlen f")
    case True
    then have "doComplete LE f c m = foldl (get_elem LE f c) m (rev [0..<nelms])"
      by (simp add: doComplete_def ct)
    then show ?thesis using get_loop [OF ok t' lay] i k ct by simp
  next
    case False
    then have no: "c_targetEndian c = LE" "f_lsBit f = 0" "sizeBits f = 8 * d" "wlen f = 0" by auto
    have dn: "doComplete LE f c m = m" using no by (simp add: doComplete_def ct)
    have sd: "sbytes f = d" using ok no by (simp add: int_ok_def)
    then have "c_ibufp c = c_obufp c" using lay by (simp add: layout_ok_def ct)
    then have same: "num_at c i m = reg_at f c i m" by (simp add: num_at_def reg_at_def ct sd)
    have "regpos f LE k = k" by (simp add: regpos_def word_pos_def no)
    then show ?thesis using k no ct same by (simp add: dn reg_bit_def)
  qed
qed

text \<open>C23: After \<open>doComplete\<close> every number of the caller's array is the one of its register: bit \<open>k\<close> is the bit of
  the register at the place given by byte order, word swap and bit shift, or the sign beyond the size of the
  field, for any number of elements and any width of the numbers.\<close>

theorem doComplete_numbers:
  assumes ok: "int_ok f" and t: "target \<in> {LE, BE, NATIVE}"
    and c: "c = getctx_create LE f buf tmp nelms d target" and lay: "layout_ok f c nelms m"
    and i: "i < nelms" and k: "k < 8 * d"
  shows "lbit (num_at c i (doComplete LE f c m)) k = reg_bit f (if target = BE then BE else LE) (reg_at f c i m) k"
  by (rule doComplete_bits [OF ok t c lay i k])

text \<open>Two signed numbers of 12 bits in big-endian registers, shifted by two bits, read into 32-bit numbers: the
  second register holds \<open>-2\<close>.\<close>

definition ex_field :: intfield where
  "ex_field = \<lparr>f_isSigned = True, f_lsBit = 2, f_sizeBits = 12, f_mode = RW, f_wordSwap = 0, f_encoding = NONE,
     f_enum = False, f_configBase = 16, f_configPrio = 1, f_locked = False, f_size = 2\<rparr>"

lemma ex_field_ok: "int_ok ex_field"
  by (simp add: int_ok_def ex_field_def)

definition ex_ctx :: getctx where
  "ex_ctx = getctx_create LE ex_field 0 0 2 4 BE"

lemma doComplete_numbers_witness:
  "lbit (num_at ex_ctx 1 (doComplete LE ex_field ex_ctx [0xff, 0xff, 0x3f, 0xf8, 0, 0, 0, 0])) 31"
proof -
  have lay: "layout_ok ex_field ex_ctx 2 [0xff, 0xff, 0x3f, 0xf8, 0, 0, 0, 0]"
    by (simp add: layout_ok_def ex_ctx_def getctx_create_def ex_field_def)
  have r: "reg_at ex_field ex_ctx 1 [0xff, 0xff, 0x3f, 0xf8, 0, 0, 0, 0] = [0x3f, 0xf8 :: u8]"
    by (simp add: reg_at_def ex_ctx_def getctx_create_def ex_field_def get_at_def)
  have "reg_bit ex_field BE [0x3f, 0xf8] 31"
    by (simp add: reg_bit_def regpos_def word_pos_def lbit_def ex_field_def)
  then show ?thesis
    using doComplete_numbers [OF ex_field_ok _ ex_ctx_def lay, of 1 31] r by simp
qed

end
