(* ===== verification/SvalSet.thy ===== *)
theory SvalSet
  imports SvalGet
begin

text \<open>
  \<open>IIntEntryAdapt::setVal\<close> on a little-endian host: the bits of the register which belong to the field are those of
  the number, and the two bit masks select exactly the other bits of the register.
\<close>

section \<open>One element\<close>

lemma pack_in_memory:
  assumes ok: "int_ok f" and le: "p + sbytes f \<le> length m"
  shows "(let m = (if 0 < wlen f then within p (nbytes f) (sw_work (nbytes f) (wlen f)) m else m);
              m = (if f_lsBit f \<noteq> 0 then within p (sbytes f) (shiftLeft LE (lsBit f)) m else m)
          in if t \<noteq> LE then within p (sbytes f) (sw_work (sbytes f) 1) m else m)
       = within p (sbytes f) (reg_pack f t) m"
proof -
  let ?s = "sbytes f" and ?n = "nbytes f"
  define g1 where "g1 = (\<lambda>b. if 0 < wlen f then within 0 ?n (sw_work ?n (wlen f)) b else b)"
  define g2 where "g2 = (\<lambda>b. if f_lsBit f \<noteq> 0 then shiftLeft LE (lsBit f) b else b)"
  define g3 where "g3 = (\<lambda>b. if t \<noteq> LE then sw_work ?s 1 b else b)"
  have l: "length b = ?s \<Longrightarrow> length (g1 b) = ?s" "length b = ?s \<Longrightarrow> length (g2 b) = ?s" "length b = ?s \<Longrightarrow> length (g3 b) = ?s" for b
    unfolding g1_def g2_def g3_def using length_reg_steps [OF ok] by blast+
  have ns: "?n \<le> ?s" using int_ok_size [OF ok] by simp
  have sw: "(if 0 < wlen f then within p ?n (sw_work ?n (wlen f)) m else m) = within p ?s g1 m"
    using within_prefix [OF ns le, of "sw_work ?n (wlen f)"] length_swap_words [OF ok] by (simp add: g1_def within_id)
  have g21: "within p ?s g2 (within p ?s g1 m) = within p ?s (\<lambda>x. g2 (g1 x)) m"
    by (rule within_within [OF le]) (simp_all add: l)
  have g321: "within p ?s g3 (within p ?s (\<lambda>x. g2 (g1 x)) m) = within p ?s (\<lambda>x. g3 (g2 (g1 x))) m"
    by (rule within_within [OF le]) (simp_all add: l)
  have "(let m = (if 0 < wlen f then within p ?n (sw_work ?n (wlen f)) m else m);
             m = (if f_lsBit f \<noteq> 0 then within p ?s (shiftLeft LE (lsBit f)) m else m)
          in if t \<noteq> LE then within p ?s (sw_work ?s 1) m else m)
     = within p ?s g3 (within p ?s g2 (within p ?s g1 m))"
    unfolding sw g2_def g3_def by (simp add: within_if [symmetric] within_id)
  also have "(\<lambda>x. g3 (g2 (g1 x))) = reg_pack f t"
    by (simp add: fun_eq_iff reg_pack_def g1_def g2_def g3_def Let_def)
  then have "within p ?s g3 (within p ?s g2 (within p ?s g1 m)) = within p ?s (reg_pack f t) m"
    unfolding g21 g321 by simp
  finally show ?thesis .
qed

lemma set_elem_pack:
  assumes ok: "int_ok f" and le: "i * sbytes f + sbytes f \<le> length m" and that: "i * s + s \<le> length ibuf"
  shows "set_elem LE f t s ibuf m i =
    (let d = sbytes f; ip = i * s; op = i * d;
         m1 = put_at op (get_at ip (if s \<le> d then s else d) ibuf) m;
         m2 = (if 8 * s < sizeBits f then within op d (se_work LE (f_isSigned f) (8 * s) d) m1 else m1)
     in within op d (reg_pack f t) m2)"
proof -
  let ?d = "sbytes f" and ?op = "i * sbytes f"
  define m1 where "m1 = put_at ?op (get_at (i * s) (if s \<le> ?d then s else ?d) ibuf) m"
  define m2 where "m2 = (if 8 * s < sizeBits f then within ?op ?d (se_work LE (f_isSigned f) (8 * s) ?d) m1 else m1)"
  have "length m1 = length m" using le that unfolding m1_def by (intro length_put_at) simp
  then have l2: "?op + ?d \<le> length m2" using le by (simp add: m2_def length_within)
  show ?thesis
    using pack_in_memory [OF ok l2, of t] unfolding m2_def m1_def by (simp add: set_elem_def Let_def cong: if_cong)
qed

text \<open>Bit \<open>k\<close> of the number in \<open>v\<close>, taken to be of \<open>s\<close> bytes.\<close>

definition num_bit :: "intfield \<Rightarrow> nat \<Rightarrow> u8 list \<Rightarrow> nat \<Rightarrow> bool" where
  "num_bit f s v k = (if k < 8 * s then lbit v k else f_isSigned f \<and> lbit v (8 * s - 1))"

lemma set_elem_spec:
  assumes ok: "int_ok f" and t: "t \<in> {LE, BE}" and s: "0 < s"
    and le: "i * sbytes f + sbytes f \<le> length m" "i * s + s \<le> length ibuf"
  shows "length (set_elem LE f t s ibuf m i) = length m"
    "\<And>k. k < length m \<Longrightarrow> \<not> (i * sbytes f \<le> k \<and> k < i * sbytes f + sbytes f) \<Longrightarrow> set_elem LE f t s ibuf m i ! k = m ! k"
    "\<And>k. k < sizeBits f \<Longrightarrow> lbit (get_at (i * sbytes f) (sbytes f) (set_elem LE f t s ibuf m i)) (regpos f t k)
       = num_bit f s (get_at (i * s) s ibuf) k"
proof -
  let ?d = "sbytes f" and ?op = "i * sbytes f" and ?ip = "i * s"
  let ?n = "if s \<le> ?d then s else ?d"
  define v where "v = get_at ?ip ?n ibuf"
  define m1 where "m1 = put_at ?op v m"
  define m2 where "m2 = (if 8 * s < sizeBits f then within ?op ?d (se_work LE (f_isSigned f) (8 * s) ?d) m1 else m1)"
  define m3 where "m3 = within ?op ?d (reg_pack f t) m2"
  have e: "set_elem LE f t s ibuf m i = m3"
    unfolding m3_def m2_def m1_def v_def set_elem_pack [OF ok le] Let_def by (rule refl)
  have n: "?n \<le> ?d" "?n \<le> s" by simp_all
  have lv: "length v = ?n" using le(2) n(2) by (simp add: v_def)
  have opn: "?op + length v \<le> length m" using le(1) n(1) lv by linarith
  have l1: "length m1 = length m" unfolding m1_def by (rule length_put_at [OF opn])
  have se: "length (se_work LE (f_isSigned f) (8 * s) ?d x) = ?d" if "length x = ?d" for x using that by simp
  have le1: "?op + ?d \<le> length m1" using le(1) l1 by simp
  have l2: "length m2 = length m" using length_within [OF le1 se] l1 by (simp add: m2_def)
  have le2: "?op + ?d \<le> length m2" using le(1) l2 by simp
  note lp = length_reg_pack [OF ok]
  have l3: "length m3 = length m" using length_within [OF le2 lp] l2 by (simp add: m3_def)
  then show "length (set_elem LE f t s ibuf m i) = length m" by (simp add: e)
  show "set_elem LE f t s ibuf m i ! k = m ! k" if k: "k < length m" and o: "\<not> (?op \<le> k \<and> k < ?op + ?d)" for k
  proof -
    have "m1 ! k = m ! k" unfolding m1_def using nth_put_at [OF opn k] o n(1) lv by auto
    moreover have "m2 ! k = m1 ! k"
      using within_nth [of ?op ?d m1 "se_work LE (f_isSigned f) (8 * s) ?d" k] le1 k l1 o by (auto simp: m2_def)
    moreover have "m3 ! k = m2 ! k" using within_nth [of ?op ?d m2 "reg_pack f t" k] le2 lp k l2 o by (auto simp: m3_def)
    ultimately show ?thesis by (simp add: e)
  qed
  show "lbit (get_at ?op ?d (set_elem LE f t s ibuf m i)) (regpos f t k) = num_bit f s (get_at ?ip s ibuf) k"
    if k: "k < sizeBits f" for k
  proof -
    note sz = int_ok_size [OF ok]
    let ?x = "get_at ?op ?d m1" and ?y = "get_at ?op ?d m2"
    have lx: "length ?x = ?d" "length ?y = ?d" using le1 le2 by simp_all
    have x: "lbit ?x j = lbit (get_at ?ip s ibuf) j" if j: "j < 8 * ?n" for j
    proof -
      have jd: "j < 8 * ?d" "8 * ?op + j < 8 * length m" "j < 8 * s" using j n le(1) by linarith+
      have "lbit ?x j = lbit m1 (8 * ?op + j)" by (rule lbit_get_at [OF le1 jd(1)])
      also have "\<dots> = lbit v j" unfolding m1_def using lbit_put_at [OF opn jd(2)] j lv by simp
      also have "\<dots> = lbit ibuf (8 * ?ip + j)"
        unfolding v_def using le(2) n(2) j by (intro lbit_get_at) auto
      also have "\<dots> = lbit (get_at ?ip s ibuf) j" using lbit_get_at [OF le(2) jd(3)] by simp
      finally show ?thesis .
    qed
    have y: "lbit ?y k = num_bit f s (get_at ?ip s ibuf) k"
    proof (cases "8 * s < sizeBits f")
      case True
      then have sd: "s \<le> ?d" "8 * s \<le> 8 * ?d" using sz(1) by auto
      have "?y = se_work LE (f_isSigned f) (8 * s) ?d ?x" using get_within [OF le1 se] True by (simp add: m2_def)
      then have "lbit ?y k = (if k < 8 * s then lbit ?x k else f_isSigned f \<and> lbit ?x (8 * s - 1))"
        using se_work_bits [of "8 * s" ?d ?x k "f_isSigned f"] s sd lx(1) k sz(1) by simp
      then show ?thesis using x [of k] x [of "8 * s - 1"] sd s by (simp add: num_bit_def)
    next
      case False
      then have "k < 8 * ?n" "k < 8 * s" using k sz(1) by auto
      then show ?thesis using x False by (simp add: num_bit_def m2_def)
    qed
    have "get_at ?op ?d m3 = reg_pack f t ?y" unfolding m3_def by (rule get_within [OF le2 lp])
    then show ?thesis using reg_pack_bits [OF ok t lx(2) k] y by (simp add: e)
  qed
qed

section \<open>The array\<close>

lemma elem_disjoint: "i < (j :: nat) \<Longrightarrow> i * w + w \<le> j * w"
  using mult_le_mono1 [of "Suc i" j w] by simp

lemma set_loop:
  assumes ok: "int_ok f" and t: "t \<in> {LE, BE}" and s: "0 < s"
    and le: "n * sbytes f \<le> length m" "n * s \<le> length ibuf"
  shows "length (foldl (set_elem LE f t s ibuf) m (rev [0..<n])) = length m
    \<and> (\<forall>k < length m. n * sbytes f \<le> k \<longrightarrow> foldl (set_elem LE f t s ibuf) m (rev [0..<n]) ! k = m ! k)
    \<and> (\<forall>i < n. \<forall>k < sizeBits f.
         lbit (get_at (i * sbytes f) (sbytes f) (foldl (set_elem LE f t s ibuf) m (rev [0..<n]))) (regpos f t k)
         = num_bit f s (get_at (i * s) s ibuf) k)"
  using le
proof (induction n arbitrary: m)
  case (Suc n)
  let ?d = "sbytes f"
  let ?m = "set_elem LE f t s ibuf m n"
  let ?r = "foldl (set_elem LE f t s ibuf) ?m (rev [0..<n])"
  have r: "foldl (set_elem LE f t s ibuf) m (rev [0..<Suc n]) = ?r" by simp
  have le: "n * ?d + ?d \<le> length m" "n * s + s \<le> length ibuf" using Suc.prems by (simp_all add: add.commute)
  note el = set_elem_spec [OF ok t s le]
  have IH: "length ?r = length m" "\<And>k. k < length m \<Longrightarrow> n * ?d \<le> k \<Longrightarrow> ?r ! k = ?m ! k"
    "\<And>i k. i < n \<Longrightarrow> k < sizeBits f \<Longrightarrow> lbit (get_at (i * ?d) ?d ?r) (regpos f t k) = num_bit f s (get_at (i * s) s ibuf) k"
    using Suc.IH [of ?m] el(1) le by auto
  have last: "get_at (n * ?d) ?d ?r = get_at (n * ?d) ?d ?m"
    using IH(1,2) le(1) el(1) by (intro get_at_cong) auto
  show ?case unfolding r
  proof (intro conjI allI impI)
    show "length ?r = length m" by (rule IH)
    fix k assume "k < length m" "Suc n * ?d \<le> k"
    then show "?r ! k = m ! k" using IH(2) [of k] el(2) [of k] by auto
  next
    fix i k assume "i < Suc n" and k: "k < sizeBits f"
    then show "lbit (get_at (i * ?d) ?d ?r) (regpos f t k) = num_bit f s (get_at (i * s) s ibuf) k"
      using IH(3) [OF _ k, of i] el(3) [OF k] last by (cases "i = n") auto
  qed
qed simp

section \<open>The masks\<close>

text \<open>A bit of a register of \<open>n\<close> bytes which the two masks preserve.\<close>

definition masked :: "nat \<Rightarrow> u8 \<Rightarrow> u8 \<Rightarrow> nat \<Rightarrow> bool" where
  "masked n msk1 mskn j \<longleftrightarrow> j div 8 = 0 \<and> bit msk1 (j mod 8) \<or> j div 8 = n - 1 \<and> bit mskn (j mod 8)"

lemma masked_field:
  assumes d: "d = (l + z + 7) div 8" and "l < 8" "0 < z" "p < 8 * d"
  shows "masked d (low_mask l) (keep_mask ((l + z) mod 8)) p \<longleftrightarrow> p < l \<or> l + z \<le> p"
proof -
  have a: "p div 8 = 0 \<and> bit (low_mask l) (p mod 8) \<longleftrightarrow> p < l"
    using assms(2) by (auto simp: low_mask_bit)
  have b: "p div 8 = d - 1 \<and> bit (keep_mask ((l + z) mod 8)) (p mod 8) \<longleftrightarrow> l + z \<le> p"
  proof -
    define T r where "T = l + z" and "r = T mod 8"
    have km: "bit (keep_mask r) (p mod 8) \<longleftrightarrow> 0 < r \<and> r \<le> p mod 8"
      by (simp add: keep_mask_bit r_def)
    have dT: "d = (T + 7) div 8" "0 < T" using d assms(3) by (simp_all add: T_def)
    have "p div 8 = d - 1 \<and> 0 < r \<and> r \<le> p mod 8 \<longleftrightarrow> T \<le> p"
    proof (cases "r = 0")
      case True
      then have "T = 8 * d" using dT(1) by (auto simp: r_def)
      then show ?thesis using True assms(4) by auto
    next
      case False
      then have "T + 7 = 8 * (T div 8 + 1) + (r - 1)" "r - 1 < 8" by (auto simp: r_def)
      from div_mod_8 [OF this] have d1: "d - 1 = T div 8" "0 < d" using dT(1) by simp_all
      have T: "T = 8 * (d - 1) + r" using d1 by (simp add: r_def)
      have pd: "p div 8 \<le> d - 1" using assms(4) d1 by linarith
      show ?thesis
      proof (cases "p div 8 = d - 1")
        case True
        then have "p = 8 * (d - 1) + p mod 8" by (metis mult_div_mod_eq)
        then show ?thesis using True False T by linarith
      next
        case pl: False
        then have "p < 8 * (d - 1)" using pd by linarith
        then show ?thesis using pl T by simp
      qed
    qed
    then show ?thesis by (simp add: km T_def [symmetric] r_def [symmetric])
  qed
  show ?thesis unfolding masked_def using a b by blast
qed

text \<open>The masks which \<open>setVal\<close> computes spare exactly the bits which are none of the field.\<close>

lemma set_masks:
  assumes ok: "int_ok f" and m: "f_mode f \<noteq> RO" and t: "t \<in> {LE, BE}" and j: "j < 8 * sbytes f"
  shows "masked (sbytes f) (set_msk1 f t) (set_mskn f t) j \<longleftrightarrow> (\<forall>k < sizeBits f. j \<noteq> regpos f t k)"
proof -
  let ?d = "sbytes f" and ?z = "sizeBits f" and ?l = "lsBit f"
  note s = int_ok_size [OF ok]
  define p where "p = (if t = BE then 8 * (?d - 1 - j div 8) + j mod 8 else j)"
  have jd: "j div 8 < ?d" using j by linarith
  have p: "p < 8 * ?d" using flip_less [OF j] j by (simp add: p_def)
  have z8: "0 < wlen f \<Longrightarrow> ?z = 8 * nbytes f" using ok m by (auto simp: int_ok_def)
  have d: "?d = (?l + ?z + 7) div 8" using ok z8 by (auto simp: int_ok_def)
  have l8: "?l < 8" using s(2) by simp
  have flip: "8 * (?d - 1 - p div 8) + p mod 8 = j" if "t = BE" using that jd by (simp add: p_def)
  have mp: "masked ?d (set_msk1 f t) (set_mskn f t) j \<longleftrightarrow> masked ?d (low_mask ?l) (keep_mask ((?l + ?z) mod 8)) p"
  proof (cases "t = BE")
    case True
    have pd: "p div 8 = ?d - 1 - j div 8" "p mod 8 = j mod 8" using True by (simp_all add: p_def)
    have e: "?d - 1 - j div 8 = 0 \<longleftrightarrow> j div 8 = ?d - 1" "?d - 1 - j div 8 = ?d - 1 \<longleftrightarrow> j div 8 = 0" using jd by auto
    show ?thesis unfolding masked_def pd e using True by (auto simp: set_msk1_def set_mskn_def)
  qed (simp add: masked_def p_def set_msk1_def set_mskn_def)
  have pos: "j = regpos f t k \<longleftrightarrow> p = shifted_pos f k + ?l" if k: "k < ?z" for k
  proof (cases "t = BE")
    case True
    have q: "(shifted_pos f k + ?l) div 8 < ?d" using shifted_pos_less(1) [OF ok k] by linarith
    show ?thesis
    proof
      assume "j = regpos f t k"
      then show "p = shifted_pos f k + ?l" using True q by (simp add: p_def regpos_shifted Let_def)
    next
      assume "p = shifted_pos f k + ?l"
      then show "j = regpos f t k" using flip [OF True] True by (simp add: regpos_shifted Let_def)
    qed
  qed (auto simp: p_def regpos_shifted Let_def)
  have "(\<exists>k < ?z. p = shifted_pos f k + ?l) \<longleftrightarrow> ?l \<le> p \<and> p < ?l + ?z"
  proof
    assume "\<exists>k < ?z. p = shifted_pos f k + ?l"
    then obtain k where k: "k < ?z" "p = shifted_pos f k + ?l" by blast
    have "shifted_pos f k < ?z"
      using shifted_pos_less(2) [OF ok k(1)] z8 k(1) by (cases "0 < wlen f") (simp_all add: shifted_pos_def word_pos_def)
    then show "?l \<le> p \<and> p < ?l + ?z" using k(2) by simp
  next
    assume pl: "?l \<le> p \<and> p < ?l + ?z"
    define k where "k = shifted_pos f (p - ?l)"
    have b: "p - ?l < ?z" using pl by linarith
    then have q: "(p - ?l) div 8 < nbytes f" by linarith
    have "k < ?z"
      using shifted_pos_less(2) [OF ok b] z8 b by (cases "0 < wlen f") (simp_all add: k_def shifted_pos_def word_pos_def)
    moreover have "shifted_pos f k = p - ?l"
      using word_pos_twice [OF ok q] by (simp add: k_def shifted_pos_def)
    ultimately show "\<exists>k < ?z. p = shifted_pos f k + ?l" using pl by auto
  qed
  then show ?thesis
    unfolding mp using masked_field [OF d l8 s(3) p] pos by (auto simp: not_less)
qed

section \<open>What is handed to the device\<close>

definition eff_target :: "byteorder \<Rightarrow> byteorder" where
  "eff_target t = (if t = BE then BE else LE)"

text \<open>The place of bit \<open>j\<close> of element \<open>i\<close> among the arguments of \<open>write\<close>: to be stored, or spared by a mask.\<close>

lemma setVal_args_spec:
  assumes ok: "int_ok f" and m: "f_mode f \<noteq> RO" and t: "t \<in> {LE, BE, NATIVE}" and s: "0 < elsz"
    and le: "length buf = n * elsz" "length scr = n * sbytes f"
    and a: "a = setVal_args LE f t elsz n buf scr"
  shows "length (w_src a) = n * sbytes f" "w_nbytes a = sbytes f" "w_off a = 0"
    "\<And>i k. i < n \<Longrightarrow> k < sizeBits f \<Longrightarrow>
       lbit (get_at (i * sbytes f) (sbytes f) (w_src a)) (regpos f (eff_target t) k) = num_bit f elsz (get_at (i * elsz) elsz buf) k"
    "\<And>j. j < 8 * sbytes f \<Longrightarrow>
       masked (sbytes f) (w_msk1 a) (w_mskn a) j \<longleftrightarrow> (\<forall>k < sizeBits f. j \<noteq> regpos f (eff_target t) k)"
proof -
  let ?t = "if t = NATIVE then LE else t"
  have tt: "?t = eff_target t" "?t \<in> {LE, BE}" using t by (auto simp: eff_target_def)
  let ?work = "?t \<noteq> LE \<or> f_lsBit f \<noteq> 0 \<or> 8 * elsz < sizeBits f \<or> sizeBits f < 8 * elsz \<or> 0 < wlen f"
  have all: "length (w_src a) = n * sbytes f \<and> w_nbytes a = sbytes f \<and> w_off a = 0
    \<and> (\<forall>i < n. \<forall>k < sizeBits f.
       lbit (get_at (i * sbytes f) (sbytes f) (w_src a)) (regpos f (eff_target t) k) = num_bit f elsz (get_at (i * elsz) elsz buf) k)
    \<and> (\<forall>j < 8 * sbytes f. masked (sbytes f) (w_msk1 a) (w_mskn a) j \<longleftrightarrow> (\<forall>k < sizeBits f. j \<noteq> regpos f (eff_target t) k))"
  proof (cases ?work)
    case True
    then have a': "a = \<lparr>w_src = foldl (set_elem LE f ?t elsz buf) scr (rev [0..<n]), w_off = 0, w_nbytes = sbytes f,
        w_msk1 = set_msk1 f ?t, w_mskn = set_mskn f ?t\<rparr>"
      by (simp add: a setVal_args_def Let_def)
    have "n * sbytes f \<le> length scr" "n * elsz \<le> length buf" using le by simp_all
    from set_loop [OF ok tt(2) s this] show ?thesis
      using le set_masks [OF ok m tt(2)] by (simp add: a' tt(1))
  next
    case False
    then have no: "?t = LE" "f_lsBit f = 0" "sizeBits f = 8 * elsz" "wlen f = 0" by auto
    have a': "a = \<lparr>w_src = buf, w_off = 0, w_nbytes = sbytes f, w_msk1 = 0, w_mskn = 0\<rparr>"
      using False by (simp add: a setVal_args_def Let_def)
    have sd: "sbytes f = elsz" using ok no by (simp add: int_ok_def)
    have rp: "regpos f (eff_target t) k = k" for k using no tt(1) by (simp add: regpos_def word_pos_def)
    show ?thesis using le no by (simp add: a' rp sd num_bit_def masked_def)
  qed
  then show "length (w_src a) = n * sbytes f" "w_nbytes a = sbytes f" "w_off a = 0"
    "\<And>i k. i < n \<Longrightarrow> k < sizeBits f \<Longrightarrow>
       lbit (get_at (i * sbytes f) (sbytes f) (w_src a)) (regpos f (eff_target t) k) = num_bit f elsz (get_at (i * elsz) elsz buf) k"
    "\<And>j. j < 8 * sbytes f \<Longrightarrow>
       masked (sbytes f) (w_msk1 a) (w_mskn a) j \<longleftrightarrow> (\<forall>k < sizeBits f. j \<noteq> regpos f (eff_target t) k)"
    by blast+
qed

end
