(* ===== verification/MemDev.thy ===== *)
theory MemDev
  imports RegBits
begin

text \<open>
  The memory device (\<^verbatim>\<open>src/src/cpsw_mem_dev.cc\<close>) with its two families of access functions: by bytes, and by
  aligned words of the width \<open>t\<close> (\<^verbatim>\<open>src/src/cpsw_aligned_mmio.h\<close>). The mapping which \<^verbatim>\<open>mmap\<close> returned
  starts on a page boundary, so that the alignment of an address is that of its offset, and it extends to the end of a page.
\<close>

section \<open>By bytes\<close>

text \<open>\<^verbatim>\<open>(old & msk) | (new & ~msk)\<close>\<close>

definition merge_bits :: "u8 \<Rightarrow> u8 \<Rightarrow> u8 \<Rightarrow> u8" where
  "merge_bits msk old new = (old AND msk) OR (new AND NOT msk)"

definition read_func8 :: "nat \<Rightarrow> nat \<Rightarrow> u8 list \<Rightarrow> u8 list" where
  "read_func8 src n mem = get_at src n mem"

definition write_func8 :: "nat \<Rightarrow> u8 list \<Rightarrow> nat \<Rightarrow> u8 \<Rightarrow> u8 \<Rightarrow> u8 list \<Rightarrow> nat \<times> u8 list" where
  "write_func8 dst src put msk1 mskn mem =
     (let one = (msk1 \<noteq> 0 \<or> mskn \<noteq> 0) \<and> put = 1;
          msk1 = (if one then msk1 OR mskn else msk1);
          mskn = (if one then 0 else mskn);
          mem = (if msk1 \<noteq> 0 then mem[dst := merge_bits msk1 (mem ! dst) (src ! 0)] else mem);
          off = (if msk1 \<noteq> 0 then 1 else 0);
          put = (if msk1 \<noteq> 0 then put - 1 else put);
          src = (if msk1 \<noteq> 0 then drop 1 src else src);
          put = (if mskn \<noteq> 0 then put - 1 else put);
          mem = (if put \<noteq> 0 then put_at (dst + off) (take put src) mem else mem)
      in (put, if mskn \<noteq> 0 then mem[dst + off + put := merge_bits mskn (mem ! (dst + off + put)) (src ! put)] else mem))"

section \<open>By aligned words\<close>

text \<open>The words between the two ends; \<open>a\<close> is the address \<^verbatim>\<open>wad0\<close> and \<open>pos\<close> the place in the destination.\<close>

function read_words :: "nat \<Rightarrow> nat \<Rightarrow> nat \<Rightarrow> nat \<Rightarrow> u8 list \<Rightarrow> u8 list \<Rightarrow> u8 list" where
  "read_words t a wadN pos mem out =
     (if 0 < t \<and> a < wadN then read_words t (a + t) wadN (pos + t) mem (put_at pos (get_at a t mem) out) else out)"
  by auto
termination by (relation "measure (\<lambda>(t, a, e, _). e - a)") auto

declare read_words.simps [simp del]

definition read_aligned :: "nat \<Rightarrow> nat \<Rightarrow> nat \<Rightarrow> u8 list \<Rightarrow> u8 list \<Rightarrow> u8 list" where
  "read_aligned t src n mem out =
     (let off0 = src mod t; wad0 = src - off0; offN = (src + n) mod t; wadN = src + n - offN;
          last = (\<lambda>out. put_at (n - offN) (take offN (get_at wadN t mem)) out)
      in if n = 0 then out
         else if off0 \<noteq> 0 then
           (if offN \<noteq> 0 \<and> wad0 = wadN then put_at 0 (take (offN - off0) (drop off0 (get_at wad0 t mem))) out
            else let out = (if offN \<noteq> 0 then last out else out);
                     out = put_at 0 (drop off0 (get_at wad0 t mem)) out
                 in read_words t (wad0 + t) wadN (t - off0) mem out)
         else read_words t wad0 wadN 0 mem (if offN \<noteq> 0 then last out else out))"

function write_words :: "nat \<Rightarrow> nat \<Rightarrow> nat \<Rightarrow> u8 list \<Rightarrow> u8 list \<Rightarrow> u8 list" where
  "write_words t a wadN src mem =
     (if 0 < t \<and> a < wadN then write_words t (a + t) wadN (drop t src) (put_at a (take t src) mem) else mem)"
  by auto
termination by (relation "measure (\<lambda>(t, a, e, _). e - a)") auto

declare write_words.simps [simp del]

definition write_aligned :: "nat \<Rightarrow> nat \<Rightarrow> u8 list \<Rightarrow> nat \<Rightarrow> u8 \<Rightarrow> u8 \<Rightarrow> u8 list \<Rightarrow> u8 list" where
  "write_aligned t dst src n msk1 mskN mem =
     (let off0 = dst mod t; wad0 = dst - off0; offN = (dst + n - 1) mod t; wadN = dst + n - 1 - offN;
          buf0 = get_at wad0 t mem;
          msk1 = (if n = 1 then msk1 OR mskN else msk1);
          buf0 = buf0[off0 := merge_bits msk1 (buf0 ! off0) (src ! 0)]
      in if n = 0 then mem
         else if wad0 = wadN then
           (let buf0 = (if 1 < n then put_at (off0 + 1) (take (n - 2) (drop 1 src))
                                        (buf0[offN := merge_bits mskN (buf0 ! offN) (src ! (offN - off0))])
                        else buf0)
            in put_at wad0 buf0 mem)
         else
           (let buf0 = put_at (off0 + 1) (take (t - off0 - 1) (drop 1 src)) buf0;
                mem = put_at wad0 buf0 mem;
                bufN = get_at wadN t mem;
                bufN = bufN[offN := merge_bits mskN (bufN ! offN) (src ! (n - 1))];
                bufN = put_at 0 (take offN (drop (n - 1 - offN) src)) bufN;
                mem = put_at wadN bufN mem
            in write_words t (wad0 + t) wadN (drop (t - off0) src) mem))"

section \<open>The address of the device\<close>

text \<open>The mapped memory and the declared size; the access functions are those of the alignment.\<close>

record memdev =
  md_buf :: "u8 list"
  md_size :: u64

definition checkAlign :: "int \<Rightarrow> exn + nat" where
  "checkAlign align =
     (if align = 1 then Inr 1 else if align = 2 then Inr 2 else if align = 4 then Inr 4 else if align = 8 then Inr 8
      else Inl (ConfigurationError ''MemDev - supported address alignment: 1,2,4 or 8 only''))"

text \<open>\<open>dst\<close> is the buffer to read to, none if the caller only asks whether there is data.\<close>

definition memAddress_read :: "nat \<Rightarrow> u64 \<Rightarrow> u32 \<Rightarrow> u8 list option \<Rightarrow> memdev \<Rightarrow> exn + (nat \<times> u8 list)" where
  "memAddress_read align off toget dst md =
     (if md_size md < off + ucast toget then Inl (ConfigurationError ''MemAddress: read out of range'')
      else case dst of None \<Rightarrow> Inr (1, []) | Some d \<Rightarrow>
        if length (md_buf md) < unat off + unat toget then Inl (Undefined ''access outside of the mapping'')
        else Inr (unat toget,
          if align = 1 then put_at 0 (read_func8 (unat off) (unat toget) (md_buf md)) d
          else read_aligned align (unat off) (unat toget) (md_buf md) d))"

definition memAddress_write :: "nat \<Rightarrow> u64 \<Rightarrow> u32 \<Rightarrow> u8 list \<Rightarrow> u8 \<Rightarrow> u8 \<Rightarrow> (memdev, nat) sem" where
  "memAddress_write align off put src msk1 mskn = (\<lambda>md.
     if md_size md < off + ucast put then (Inl (ConfigurationError ''MemAddress: write out of range''), md)
     else if length (md_buf md) < unat off + unat put then (Inl (Undefined ''access outside of the mapping''), md)
     else if align = 1 then
       (case write_func8 (unat off) src (unat put) msk1 mskn (md_buf md) of (r, b) \<Rightarrow> (Inr r, md\<lparr>md_buf := b\<rparr>))
     else (Inr (unat put), md\<lparr>md_buf := write_aligned align (unat off) src (unat put) msk1 mskn (md_buf md)\<rparr>))"

section \<open>What a write does\<close>

text \<open>The reference: byte \<open>i\<close> of the \<open>n\<close> bytes is merged under the masks of the ends.\<close>

definition byte_mask :: "nat \<Rightarrow> u8 \<Rightarrow> u8 \<Rightarrow> nat \<Rightarrow> u8" where
  "byte_mask n msk1 mskn i = (if i = 0 then msk1 else 0) OR (if i = n - 1 then mskn else 0)"

definition masked_write :: "nat \<Rightarrow> u8 list \<Rightarrow> nat \<Rightarrow> u8 \<Rightarrow> u8 \<Rightarrow> u8 list \<Rightarrow> u8 list" where
  "masked_write dst src n msk1 mskn mem =
     put_at dst (map (\<lambda>i. merge_bits (byte_mask n msk1 mskn i) (mem ! (dst + i)) (src ! i)) [0..<n]) mem"

lemma merge_bits_0 [simp]: "merge_bits 0 old new = new"
  by (simp add: merge_bits_def)

lemma merge_bits_bit: "bit (merge_bits m old new) j \<longleftrightarrow> (if bit m j then bit old j else bit new j)"
  by (cases "j < 8") (auto simp: merge_bits_def bit_simps dest: bit_imp_le_length)

lemma length_masked_write: "dst + n \<le> length mem \<Longrightarrow> length (masked_write dst src n msk1 mskn mem) = length mem"
  by (simp add: masked_write_def)

lemma masked_write_nth:
  assumes "dst + n \<le> length mem" "k < length mem"
  shows "masked_write dst src n msk1 mskn mem ! k =
    (if dst \<le> k \<and> k < dst + n then merge_bits (byte_mask n msk1 mskn (k - dst)) (mem ! k) (src ! (k - dst)) else mem ! k)"
  unfolding masked_write_def using nth_put_at [of dst "map _ [0..<n]" mem k] assms by auto

lemma write_func8_masked:
  assumes n: "0 < n" and le: "dst + n \<le> length mem" "n \<le> length src"
  shows "snd (write_func8 dst src n msk1 mskn mem) = masked_write dst src n msk1 mskn mem"
proof -
  define one where "one \<longleftrightarrow> (msk1 \<noteq> 0 \<or> mskn \<noteq> 0) \<and> n = 1"
  define m1 where "m1 = (if one then msk1 OR mskn else msk1)"
  define mn where "mn = (if one then 0 else mskn)"
  define a where "a = (if m1 \<noteq> 0 then 1 else 0 :: nat)"
  define z where "z = (if mn \<noteq> 0 then 1 else 0 :: nat)"
  define p where "p = n - a - z"
  define mem1 where "mem1 = (if m1 \<noteq> 0 then mem[dst := merge_bits m1 (mem ! dst) (src ! 0)] else mem)"
  define src1 where "src1 = (if m1 \<noteq> 0 then drop 1 src else src)"
  define mem2 where "mem2 = (if p \<noteq> 0 then put_at (dst + a) (take p src1) mem1 else mem1)"
  define mem3 where "mem3 = (if mn \<noteq> 0 then mem2[dst + a + p := merge_bits mn (mem2 ! (dst + a + p)) (src1 ! p)] else mem2)"
  have w: "snd (write_func8 dst src n msk1 mskn mem) = mem3"
  proof -
    have "(if mn \<noteq> 0 then (if m1 \<noteq> 0 then n - 1 else n) - 1 else (if m1 \<noteq> 0 then n - 1 else n)) = p"
      by (simp add: p_def a_def z_def)
    then show ?thesis
      unfolding write_func8_def Let_def one_def [symmetric] m1_def [symmetric] mn_def [symmetric]
        src1_def [symmetric] mem1_def [symmetric] a_def [symmetric]
      by (simp only: snd_conv mem2_def mem3_def)
  qed
  have ap: "a + p + z = n"
    using n by (cases "n = 1") (auto simp: p_def a_def z_def mn_def m1_def one_def)
  have s1: "src1 = drop a src" by (simp add: src1_def a_def)
  have l1: "length mem1 = length mem" by (simp add: mem1_def)
  have lt: "length (take p src1) = p" using le(2) ap by (simp add: s1)
  have le1: "dst + a + length (take p src1) \<le> length mem1" using le(1) ap lt l1 by linarith
  have l2: "length mem2 = length mem" using length_put_at [OF le1] l1 by (simp add: mem2_def)
  have l3: "length mem3 = length mem" using l2 by (simp add: mem3_def)
  have n1: "mem1 ! k = (if a = 1 \<and> k = dst then merge_bits m1 (mem ! k) (src ! 0) else mem ! k)" if "k < length mem" for k
    using that by (simp add: mem1_def a_def)
  have n2: "mem2 ! k = (if dst + a \<le> k \<and> k < dst + a + p then src ! (k - dst) else mem1 ! k)" if k: "k < length mem" for k
    using nth_put_at [OF le1, of k] k l1 lt le(2) ap by (auto simp: mem2_def s1)
  have n3: "mem3 ! k = (if z = 1 \<and> k = dst + n - 1 then merge_bits mn (mem2 ! k) (src ! (n - 1)) else mem2 ! k)" if k: "k < length mem" for k
  proof (cases "z = 1")
    case True
    then have e: "dst + a + p = dst + n - 1" "a + p = n - 1" "mn \<noteq> 0" using ap by (auto simp: z_def split: if_splits)
    then have "src1 ! p = src ! (n - 1)" using le(2) n by (simp add: s1)
    then show ?thesis using k e l2 True by (simp add: mem3_def)
  next
    case False
    then show ?thesis by (auto simp: mem3_def z_def split: if_splits)
  qed
  show ?thesis unfolding w
  proof (rule nth_equalityI)
    show "length mem3 = length (masked_write dst src n msk1 mskn mem)"
      using l3 length_masked_write [OF le(1)] by simp
    fix k
    assume "k < length mem3"
    then have k: "k < length mem" using l3 by simp
    show "mem3 ! k = masked_write dst src n msk1 mskn mem ! k"
    proof (cases "dst \<le> k \<and> k < dst + n")
      case False
      then show ?thesis
        using n1 [OF k] n2 [OF k] n3 [OF k] masked_write_nth [OF le(1) k] ap n by auto
    next
      case True
      then obtain i where i: "k = dst + i" "i < n" by (metis add_diff_inverse_nat add_less_cancel_left not_less)
      define y where "y = (if a = 1 \<and> i = 0 then merge_bits m1 (mem ! k) (src ! 0) else mem ! k)"
      define x where "x = (if a \<le> i \<and> i < a + p then src ! i else y)"
      have "mem1 ! k = y" "k - dst = i" "dst + a \<le> k \<longleftrightarrow> a \<le> i" "k < dst + a + p \<longleftrightarrow> i < a + p" "k = dst \<longleftrightarrow> i = 0"
        using n1 [OF k] i(1) by (auto simp: y_def)
      then have "mem2 ! k = x" using n2 [OF k] by (simp add: x_def)
      then have g3: "mem3 ! k = (if z = 1 \<and> i = n - 1 then merge_bits mn x (src ! (n - 1)) else x)"
        using n3 [OF k] i n by auto
      have gw: "masked_write dst src n msk1 mskn mem ! k = merge_bits (byte_mask n msk1 mskn i) (mem ! k) (src ! i)"
        using masked_write_nth [OF le(1) k] i by simp
      show ?thesis
      proof (cases "n = 1")
        case True
        then have z: "z = 0" "m1 = msk1 OR mskn" by (auto simp: z_def mn_def m1_def one_def)
        then have i0: "i = 0" "a + p = 1" using i(2) ap True by auto
        have "masked_write dst src n msk1 mskn mem ! k = merge_bits (msk1 OR mskn) (mem ! k) (src ! 0)"
          using gw True i0 by (simp add: byte_mask_def)
        moreover have "mem3 ! k = x" using g3 z by simp
        ultimately show ?thesis using i0 z by (cases "m1 = 0") (simp_all add: x_def y_def a_def)
      next
        case False
        then have m: "m1 = msk1" "mn = mskn" by (simp_all add: m1_def mn_def one_def)
        have az: "a = (if msk1 = 0 then 0 else 1)" "z = (if mskn = 0 then 0 else 1)" by (simp_all add: a_def z_def m)
        consider "i = 0" | "0 < i" "i = n - 1" | "0 < i" "i < n - 1" using i(2) by linarith
        then show ?thesis
        proof cases
          case 1
          then have "i \<noteq> n - 1" "msk1 = 0 \<Longrightarrow> i < a + p" using False ap i(2) by (auto simp: az split: if_splits)
          then show ?thesis using 1 by (auto simp: g3 gw x_def y_def m az byte_mask_def)
        next
          case 2
          then have "mskn = 0 \<Longrightarrow> i < a + p" "mskn \<noteq> 0 \<Longrightarrow> \<not> i < a + p" "a \<le> i" using ap i(2) by (auto simp: az split: if_splits)
          then show ?thesis using 2 g3 gw by (cases "mskn = 0") (simp_all add: x_def y_def m az(2) byte_mask_def)
        next
          case 3
          then have "a \<le> i" "i < a + p" using ap i(2) by (auto simp: az split: if_splits)
          then show ?thesis using 3 by (simp add: g3 gw x_def byte_mask_def)
        qed
      qed
    qed
  qed
qed

end
