(* ===== verification/MemAligned.thy ===== *)
theory MemAligned
  imports MemDev
begin

text \<open>
  The access by aligned words does the same as the one by bytes: \<open>read_aligned\<close> copies the bytes asked for, and
  \<open>write_aligned\<close> changes the bytes of the reference \<open>masked_write\<close> and no others of the words it stores.
\<close>

section \<open>Words and bytes do the same\<close>

lemma aligned_up: "0 < t \<Longrightarrow> t dvd a \<Longrightarrow> t dvd e \<Longrightarrow> a < e \<Longrightarrow> a + t \<le> (e :: nat)"
  by (metis add.commute dvd_add_right_iff dvd_diff_nat le_add_diff_inverse2 less_imp_le nat_dvd_not_less not_le zero_less_diff le_diff_conv2)

lemma read_words_nth:
  assumes "0 < t" "t dvd a" "t dvd e" "e \<le> length mem" "a \<le> e" "pos + (e - a) \<le> length out"
  shows "length (read_words t a e pos mem out) = length out
    \<and> (\<forall>k < length out. read_words t a e pos mem out ! k = (if pos \<le> k \<and> k < pos + (e - a) then mem ! (a + (k - pos)) else out ! k))"
  using assms
proof (induction t a e pos mem out rule: read_words.induct)
  case (1 t a e pos mem out)
  show ?case
  proof (cases "a < e")
    case False
    then show ?thesis using 1 by (subst (1 2) read_words.simps) auto
  next
    case True
    have up: "a + t \<le> e" by (rule aligned_up) (use 1 True in auto)
    let ?w = "get_at a t mem" and ?o = "put_at pos (get_at a t mem) out"
    have lw: "length ?w = t" using up 1 by simp
    have lo: "pos + length ?w \<le> length out" using lw up 1 by linarith
    have l: "length ?o = length out" by (rule length_put_at [OF lo])
    have IH: "length (read_words t (a + t) e (pos + t) mem ?o) = length out"
      "\<And>k. k < length out \<Longrightarrow> read_words t (a + t) e (pos + t) mem ?o ! k
        = (if pos + t \<le> k \<and> k < pos + t + (e - (a + t)) then mem ! (a + t + (k - (pos + t))) else ?o ! k)"
      using 1 True up l by auto
    have rw: "read_words t a e pos mem out = read_words t (a + t) e (pos + t) mem ?o"
      using True 1 by (subst read_words.simps) simp
    show ?thesis unfolding rw
    proof (intro conjI allI impI)
      show "length (read_words t (a + t) e (pos + t) mem ?o) = length out" by (rule IH)
      fix k
      assume k: "k < length out"
      have o: "?o ! k = (if pos \<le> k \<and> k < pos + t then mem ! (a + (k - pos)) else out ! k)"
      proof (cases "pos \<le> k \<and> k < pos + t")
        case True
        have "a + t \<le> length mem" "k - pos < t" using up 1 True by auto
        from nth_get_at [OF this] show ?thesis using nth_put_at [OF lo k] lw True by simp
      next
        case False
        then show ?thesis using nth_put_at [OF lo k] lw by auto
      qed
      show "read_words t (a + t) e (pos + t) mem ?o ! k
        = (if pos \<le> k \<and> k < pos + (e - a) then mem ! (a + (k - pos)) else out ! k)"
        using IH(2) [OF k] o up by auto
    qed
  qed
qed

lemma word_start: "0 < t \<Longrightarrow> t dvd x - x mod (t :: nat) \<and> x - x mod t \<le> x \<and> x < x - x mod t + t"
  by (simp add: minus_mod_eq_mult_div) (metis add.commute mult.commute dividend_less_div_times)

lemma word_start_mono: "0 < t \<Longrightarrow> x \<le> y \<Longrightarrow> x - x mod t \<le> y - y mod (t :: nat)"
  by (simp add: minus_mod_eq_mult_div div_le_mono)

lemma word_end: "0 < t \<Longrightarrow> t dvd L \<Longrightarrow> x < L \<Longrightarrow> x - x mod t + t \<le> (L :: nat)"
  using word_start [of t x] by (intro aligned_up) auto

lemma read_aligned_nth:
  assumes t: "0 < t" "t dvd length mem" and n: "0 < n" "src + n \<le> length mem" "length out = n"
  shows "read_aligned t src n mem out = get_at src n mem"
proof -
  define off0 wad0 offN wadN where "off0 = src mod t" and "wad0 = src - off0" and "offN = (src + n) mod t" and "wadN = src + n - offN"
  note w0 = word_start [OF t(1), of src, folded off0_def wad0_def]
  note wN = word_start [OF t(1), of "src + n", folded offN_def wadN_def]
  have le0: "wad0 + t \<le> length mem"
    using word_end [OF t, of src] n unfolding off0_def wad0_def by simp
  have leN: "wadN + t \<le> length mem" if "offN \<noteq> 0"
  proof -
    have "src + n \<noteq> length mem" using that t(2) by (auto simp: offN_def)
    then show ?thesis using word_end [OF t, of "src + n"] n unfolding offN_def wadN_def by simp
  qed
  have s0: "src = wad0 + off0" and sN: "src + n = wadN + offN" by (simp_all add: wad0_def off0_def wadN_def offN_def)
  have o: "off0 < t" "offN < t" using t(1) by (simp_all add: off0_def offN_def)
  have mono: "wad0 \<le> wadN" using word_start_mono [OF t(1), of src "src + n"] by (simp add: wad0_def off0_def wadN_def offN_def)
  show ?thesis
  proof (cases "off0 \<noteq> 0 \<and> offN \<noteq> 0 \<and> wad0 = wadN")
    case True
    then have "offN - off0 = n" using s0 sN n(1) by linarith
    moreover have "take n (drop off0 (get_at wad0 t mem)) = get_at src n mem"
      using s0 o(2) calculation by (simp add: get_at_def take_drop [symmetric] drop_take min_def add.commute)
    ultimately have "read_aligned t src n mem out = put_at 0 (get_at src n mem) out"
      using True n unfolding read_aligned_def Let_def off0_def [symmetric] wad0_def [symmetric] offN_def [symmetric] wadN_def [symmetric]
      by simp
    then show ?thesis using n by (simp add: put_at_def)
  next
    case False
    define first where "first = (if off0 = 0 then 0 else t - off0)"
    define out1 where "out1 = (if offN \<noteq> 0 then put_at (n - offN) (take offN (get_at wadN t mem)) out else out)"
    define out2 where "out2 = (if off0 \<noteq> 0 then put_at 0 (drop off0 (get_at wad0 t mem)) out1 else out1)"
    have start: "t dvd src + first" "src + first \<le> wadN"
    proof -
      have "src + first = (if off0 = 0 then wad0 else wad0 + t)" using s0 o by (simp add: first_def)
      moreover have "off0 \<noteq> 0 \<Longrightarrow> wad0 < wadN"
        using False mono s0 sN n(1) by (cases "offN = 0") auto
      then have "off0 \<noteq> 0 \<Longrightarrow> wad0 + t \<le> wadN" using aligned_up [OF t(1)] w0 wN by blast
      ultimately show "t dvd src + first" "src + first \<le> wadN" using w0 mono by auto
    qed
    have fn: "first + offN \<le> n" using start(2) sN by linarith
    have r: "read_aligned t src n mem out = read_words t (src + first) wadN first mem out2"
    proof -
      have "src + first = (if off0 = 0 then wad0 else wad0 + t)" using s0 o by (simp add: first_def)
      then show ?thesis
        using False n unfolding read_aligned_def Let_def off0_def [symmetric] wad0_def [symmetric] offN_def [symmetric] wadN_def [symmetric]
        by (auto simp: out1_def out2_def first_def)
    qed
    have lN: "offN \<noteq> 0 \<Longrightarrow> length (take offN (get_at wadN t mem)) = offN" using leN o by simp
    have p1: "offN \<noteq> 0 \<Longrightarrow> n - offN + length (take offN (get_at wadN t mem)) \<le> length out" using lN n fn by simp
    have l1: "length out1 = n" using length_put_at [OF p1] n by (simp add: out1_def)
    have l0: "length (drop off0 (get_at wad0 t mem)) = t - off0" using le0 by simp
    have p2: "off0 \<noteq> 0 \<Longrightarrow> 0 + length (drop off0 (get_at wad0 t mem)) \<le> length out1"
      using l0 l1 fn by (simp add: first_def)
    have l2: "length out2 = n" using length_put_at [OF p2] l1 by (simp add: out2_def)
    have wl: "wadN \<le> length mem" "first + (wadN - (src + first)) \<le> length out2" using sN n l2 start by linarith+
    have tN: "t dvd wadN" using wN by simp
    note rw = read_words_nth [OF t(1) start(1) tN wl(1) start(2) wl(2)]
    show ?thesis unfolding r
    proof (rule nth_equalityI)
      show "length (read_words t (src + first) wadN first mem out2) = length (get_at src n mem)" using rw l2 n by simp
      fix k
      assume "k < length (read_words t (src + first) wadN first mem out2)"
      then have k: "k < n" using rw l2 by simp
      have g: "get_at src n mem ! k = mem ! (src + k)" by (rule nth_get_at [OF n(2) k])
      consider "k < first" | "first \<le> k" "k < n - offN" | "first \<le> k" "n - offN \<le> k" by linarith
      then show "read_words t (src + first) wadN first mem out2 ! k = get_at src n mem ! k"
      proof cases
        case 1
        then have nz: "off0 \<noteq> 0" "k < t - off0" by (auto simp: first_def split: if_splits)
        have "out2 ! k = drop off0 (get_at wad0 t mem) ! k"
          using nth_put_at [OF p2 [OF nz(1)], of k] nz l0 l1 k by (simp add: out2_def)
        also have "\<dots> = mem ! (wad0 + (off0 + k))" using nth_get_at [OF le0, of "off0 + k"] nz le0 by simp
        finally show ?thesis using rw l2 k 1 g s0 by (simp add: add.assoc)
      next
        case 2
        then have "first \<le> k \<and> k < first + (wadN - (src + first))" using sN start(2) by linarith
        then show ?thesis using rw l2 k g by simp
      next
        case 3
        then have nz: "offN \<noteq> 0" "k - (n - offN) < offN" using k by auto
        have "out2 ! k = out1 ! k"
          using nth_put_at [OF p2, of k] l0 l1 k 3(1) by (auto simp: out2_def first_def)
        also have "\<dots> = take offN (get_at wadN t mem) ! (k - (n - offN))"
          using nth_put_at [OF p1 [OF nz(1)], of k] lN [OF nz(1)] nz n(3) k 3 fn by (simp add: out1_def)
        also have "\<dots> = mem ! (wadN + (k - (n - offN)))"
          using nth_get_at [OF leN [OF nz(1)], of "k - (n - offN)"] nz o by simp
        also have "wadN + (k - (n - offN)) = src + k" using sN 3 fn by linarith
        finally have "out2 ! k = mem ! (src + k)" .
        moreover have "\<not> k < first + (wadN - (src + first))" using sN start(2) 3 by linarith
        ultimately show ?thesis using rw l2 k g by simp
      qed
    qed
  qed
qed

text \<open>Storing the changed copy of a word.\<close>

lemma put_word_nth:
  assumes "a + t \<le> length mem" "length (F (get_at a t mem)) = t" "k < length mem"
  shows "length (put_at a (F (get_at a t mem)) mem) = length mem"
    "put_at a (F (get_at a t mem)) mem ! k = (if a \<le> k \<and> k < a + t then F (get_at a t mem) ! (k - a) else mem ! k)"
  using assms nth_put_at [of a "F (get_at a t mem)" mem k] by simp_all

lemma write_words_nth:
  assumes "0 < t" "t dvd a" "t dvd e" "e \<le> length mem" "a \<le> e" "e - a \<le> length src"
  shows "length (write_words t a e src mem) = length mem
    \<and> (\<forall>k < length mem. write_words t a e src mem ! k = (if a \<le> k \<and> k < e then src ! (k - a) else mem ! k))"
  using assms
proof (induction t a e src mem rule: write_words.induct)
  case (1 t a e src mem)
  show ?case
  proof (cases "a < e")
    case False
    then show ?thesis using 1 by (subst (1 2) write_words.simps) auto
  next
    case True
    have up: "a + t \<le> e" by (rule aligned_up) (use 1 True in auto)
    let ?m = "put_at a (take t src) mem"
    have lw: "length (take t src) = t" using up 1 by simp
    have lo: "a + length (take t src) \<le> length mem" using lw up 1 by linarith
    have l: "length ?m = length mem" by (rule length_put_at [OF lo])
    have IH: "length (write_words t (a + t) e (drop t src) ?m) = length mem"
      "\<And>k. k < length mem \<Longrightarrow> write_words t (a + t) e (drop t src) ?m ! k
        = (if a + t \<le> k \<and> k < e then drop t src ! (k - (a + t)) else ?m ! k)"
      using 1 True up l by auto
    have rw: "write_words t a e src mem = write_words t (a + t) e (drop t src) ?m"
      using True 1 by (subst write_words.simps) simp
    show ?thesis unfolding rw
    proof (intro conjI allI impI)
      show "length (write_words t (a + t) e (drop t src) ?m) = length mem" by (rule IH)
      fix k
      assume k: "k < length mem"
      have m: "?m ! k = (if a \<le> k \<and> k < a + t then src ! (k - a) else mem ! k)"
        using nth_put_at [OF lo k] lw by auto
      have d: "drop t src ! (k - (a + t)) = src ! (k - a)" if "a + t \<le> k" "k < e"
        using that 1 up by simp
      show "write_words t (a + t) e (drop t src) ?m ! k = (if a \<le> k \<and> k < e then src ! (k - a) else mem ! k)"
        using IH(2) [OF k] m d up by auto
    qed
  qed
qed

text \<open>The copies of the first and of the last word.\<close>

definition first_word :: "nat \<Rightarrow> nat \<Rightarrow> u8 list \<Rightarrow> u8 \<Rightarrow> u8 list \<Rightarrow> u8 list" where
  "first_word t off0 src msk1 b = put_at (off0 + 1) (take (t - off0 - 1) (drop 1 src)) (b[off0 := merge_bits msk1 (b ! off0) (src ! 0)])"

definition last_word :: "nat \<Rightarrow> nat \<Rightarrow> u8 list \<Rightarrow> u8 \<Rightarrow> u8 list \<Rightarrow> u8 list" where
  "last_word n offN src mskN b = put_at 0 (take offN (drop (n - 1 - offN) src)) (b[offN := merge_bits mskN (b ! offN) (src ! (n - 1))])"

definition only_word :: "nat \<Rightarrow> nat \<Rightarrow> nat \<Rightarrow> u8 list \<Rightarrow> u8 \<Rightarrow> u8 \<Rightarrow> u8 list \<Rightarrow> u8 list" where
  "only_word n off0 offN src msk1 mskN b =
     (let b' = b[off0 := merge_bits (if n = 1 then msk1 OR mskN else msk1) (b ! off0) (src ! 0)]
      in if 1 < n then put_at (off0 + 1) (take (n - 2) (drop 1 src)) (b'[offN := merge_bits mskN (b' ! offN) (src ! (offN - off0))])
         else b')"

lemma first_word_nth:
  assumes "length b = t" "off0 < t" "t - off0 \<le> length src" "j < t"
  shows "length (first_word t off0 src msk1 b) = t"
    "first_word t off0 src msk1 b ! j = (if j = off0 then merge_bits msk1 (b ! off0) (src ! 0) else if off0 < j then src ! (j - off0) else b ! j)"
proof -
  have l: "off0 + 1 + length (take (t - off0 - 1) (drop 1 src)) = t" using assms by simp
  let ?b = "b[off0 := merge_bits msk1 (b ! off0) (src ! 0)]"
  have le: "off0 + 1 + length (take (t - off0 - 1) (drop 1 src)) \<le> length ?b" using l assms by simp
  show "length (first_word t off0 src msk1 b) = t" unfolding first_word_def using length_put_at [OF le] assms by simp
  show "first_word t off0 src msk1 b ! j = (if j = off0 then merge_bits msk1 (b ! off0) (src ! 0) else if off0 < j then src ! (j - off0) else b ! j)"
    unfolding first_word_def using nth_put_at [OF le, of j] l assms by (auto simp: Suc_diff_Suc)
qed

lemma last_word_nth:
  assumes "length b = t" "offN < t" "offN < n" "n \<le> length src" "j < t"
  shows "length (last_word n offN src mskN b) = t"
    "last_word n offN src mskN b ! j = (if j < offN then src ! (n - 1 - offN + j) else if j = offN then merge_bits mskN (b ! offN) (src ! (n - 1)) else b ! j)"
proof -
  have l: "length (take offN (drop (n - 1 - offN) src)) = offN" using assms by simp
  let ?b = "b[offN := merge_bits mskN (b ! offN) (src ! (n - 1))]"
  have le: "0 + length (take offN (drop (n - 1 - offN) src)) \<le> length ?b" using l assms by simp
  show "length (last_word n offN src mskN b) = t" unfolding last_word_def using length_put_at [OF le] assms by simp
  show "last_word n offN src mskN b ! j = (if j < offN then src ! (n - 1 - offN + j) else if j = offN then merge_bits mskN (b ! offN) (src ! (n - 1)) else b ! j)"
    unfolding last_word_def using nth_put_at [OF le, of j] l assms by auto
qed

lemma only_word_nth:
  assumes "length b = t" "offN = off0 + n - 1" "offN < t" "0 < n" "n \<le> length src" "j < t"
  shows "length (only_word n off0 offN src msk1 mskN b) = t"
    "only_word n off0 offN src msk1 mskN b ! j =
      (if off0 \<le> j \<and> j < off0 + n then merge_bits (byte_mask n msk1 mskN (j - off0)) (b ! j) (src ! (j - off0)) else b ! j)"
proof -
  let ?b = "b[off0 := merge_bits (if n = 1 then msk1 OR mskN else msk1) (b ! off0) (src ! 0)]"
  let ?b2 = "?b[offN := merge_bits mskN (?b ! offN) (src ! (offN - off0))]"
  have l: "length (take (n - 2) (drop 1 src)) = n - 2" using assms by simp
  have le: "1 < n \<Longrightarrow> off0 + 1 + length (take (n - 2) (drop 1 src)) \<le> length ?b2" using l assms by simp
  show "length (only_word n off0 offN src msk1 mskN b) = t"
    unfolding only_word_def Let_def using length_put_at [OF le] assms by simp
  show "only_word n off0 offN src msk1 mskN b ! j =
      (if off0 \<le> j \<and> j < off0 + n then merge_bits (byte_mask n msk1 mskN (j - off0)) (b ! j) (src ! (j - off0)) else b ! j)"
  proof (cases "n = 1")
    case True
    then show ?thesis unfolding only_word_def Let_def using assms by (cases "j = off0") (auto simp: byte_mask_def)
  next
    case False
    then have n: "1 < n" "offN \<noteq> off0" using assms by auto
    have w: "only_word n off0 offN src msk1 mskN b ! j = (if off0 + 1 \<le> j \<and> j < offN then src ! (j - off0) else ?b2 ! j)"
    proof -
      have e: "off0 + 1 + (n - 2) = offN" using n assms(2) by simp
      have "put_at (off0 + 1) (take (n - 2) (drop 1 src)) ?b2 ! j
        = (if off0 + 1 \<le> j \<and> j < offN then take (n - 2) (drop 1 src) ! (j - (off0 + 1)) else ?b2 ! j)"
        using nth_put_at [OF le [OF n(1)], of j] assms(1,6) unfolding l e by simp
      moreover have "take (n - 2) (drop 1 src) ! (j - (off0 + 1)) = src ! (j - off0)" if "off0 + 1 \<le> j" "j < offN"
        using that assms(2,5) n(1) by (simp add: less_diff_conv2 Suc_diff_Suc)
      ultimately show ?thesis using n(1) by (simp add: only_word_def Let_def)
    qed
    have b2: "?b2 ! j = (if j = offN then merge_bits mskN (b ! j) (src ! (n - 1)) else if j = off0 then merge_bits msk1 (b ! j) (src ! 0) else b ! j)"
      using n assms by (auto simp: nth_list_update)
    consider "j = off0" | "j = offN" | "off0 < j" "j < offN" | "j < off0 \<or> offN < j" by linarith
    then show ?thesis
    proof cases
      case 1
      have "?thesis = (merge_bits msk1 (b ! j) (src ! 0) = merge_bits (byte_mask n msk1 mskN 0) (b ! j) (src ! 0))"
        unfolding w b2 using 1 n by simp
      then show ?thesis using n(1) by (simp add: byte_mask_def)
    next
      case 2
      have "j - off0 = n - 1" "off0 \<le> j" "j < off0 + n" using 2 assms(2) n(1) by linarith+
      then show ?thesis unfolding w b2 using 2 n(1) by (simp add: byte_mask_def)
    next
      case 3
      have "j - off0 \<noteq> n - 1" "j - off0 \<noteq> 0" "j < off0 + n" using 3 assms(2) n(1) by linarith+
      then show ?thesis unfolding w using 3 by (simp add: byte_mask_def)
    next
      case 4
      then have "\<not> (off0 \<le> j \<and> j < off0 + n)" "j \<noteq> offN" "j \<noteq> off0" "\<not> (off0 + 1 \<le> j \<and> j < offN)"
        using assms(2) n(1) by linarith+
      then show ?thesis unfolding w b2 by auto
    qed
  qed
qed

lemma write_aligned_masked:
  assumes t: "0 < t" "t dvd length mem" and n: "0 < n" "dst + n \<le> length mem" "n \<le> length src"
  shows "write_aligned t dst src n msk1 mskN mem = masked_write dst src n msk1 mskN mem"
proof -
  define off0 wad0 offN wadN where "off0 = dst mod t" and "wad0 = dst - off0" and "offN = (dst + n - 1) mod t" and "wadN = dst + n - 1 - offN"
  note w0 = word_start [OF t(1), of dst, folded off0_def wad0_def]
  note wN = word_start [OF t(1), of "dst + n - 1", folded offN_def wadN_def]
  have le0: "wad0 + t \<le> length mem" using word_end [OF t, of dst] n unfolding off0_def wad0_def by simp
  have leN: "wadN + t \<le> length mem" using word_end [OF t, of "dst + n - 1"] n unfolding offN_def wadN_def by simp
  have s0: "dst = wad0 + off0" by (simp add: wad0_def off0_def)
  have "offN \<le> dst + n - 1" by (simp only: offN_def mod_less_eq_dividend)
  then have sN: "dst + n - 1 = wadN + offN" by (simp only: wadN_def le_add_diff_inverse2)
  have o: "off0 < t" "offN < t" using t(1) by (simp_all add: off0_def offN_def)
  have mono: "wad0 \<le> wadN"
    using word_start_mono [OF t(1), of dst "dst + n - 1"] n(1) by (simp add: wad0_def off0_def wadN_def offN_def)
  note defs = write_aligned_def Let_def off0_def [symmetric] wad0_def [symmetric] offN_def [symmetric] wadN_def [symmetric]
  note mw = length_masked_write [OF n(2)] masked_write_nth [OF n(2)]
  let ?w0 = "get_at wad0 t mem"
  have lw0: "length ?w0 = t" using le0 by simp
  show ?thesis
  proof (cases "wad0 = wadN")
    case True
    have oN: "offN = off0 + n - 1" using True s0 sN n(1) by linarith
    have e: "write_aligned t dst src n msk1 mskN mem = put_at wad0 (only_word n off0 offN src msk1 mskN ?w0) mem"
      using True n(1) unfolding defs only_word_def by simp
    note ow = only_word_nth [OF lw0 oN o(2) n(1,3)]
    have lo: "length (only_word n off0 offN src msk1 mskN ?w0) = t" by (rule ow(1) [OF o(1)])
    note pw = put_word_nth [OF le0, of "only_word n off0 offN src msk1 mskN", OF lo]
    show ?thesis unfolding e
    proof (rule nth_equalityI)
      show "length (put_at wad0 (only_word n off0 offN src msk1 mskN ?w0) mem) = length (masked_write dst src n msk1 mskN mem)"
        using mw(1) le0 lo by simp
      fix k
      assume "k < length (put_at wad0 (only_word n off0 offN src msk1 mskN ?w0) mem)"
      then have k: "k < length mem" using le0 lo by simp
      show "put_at wad0 (only_word n off0 offN src msk1 mskN ?w0) mem ! k = masked_write dst src n msk1 mskN mem ! k"
      proof (cases "wad0 \<le> k \<and> k < wad0 + t")
        case True
        then obtain j where j: "k = wad0 + j" "j < t" using le_Suc_ex by auto
        have "?w0 ! j = mem ! k" using nth_get_at [OF le0 j(2)] j(1) by simp
        then show ?thesis using pw(2) [OF k] ow(2) [OF j(2)] mw(2) [OF k] j s0 by auto
      next
        case False
        then have "\<not> (dst \<le> k \<and> k < dst + n)" using s0 oN o n(1) by linarith
        then show ?thesis using pw(2) [OF k] mw(2) [OF k, of src msk1 mskN] False by auto
      qed
    qed
  next
    case False
    then have up: "wad0 + t \<le> wadN" using aligned_up [OF t(1), of wad0 wadN] w0 wN mono by simp
    then have n1: "n \<noteq> 1" using s0 sN o by linarith
    define m1 where "m1 = put_at wad0 (first_word t off0 src msk1 ?w0) mem"
    define m2 where "m2 = put_at wadN (last_word n offN src mskN (get_at wadN t m1)) m1"
    have e: "write_aligned t dst src n msk1 mskN mem = write_words t (wad0 + t) wadN (drop (t - off0) src) m2"
      using False n(1) n1 unfolding defs m2_def m1_def first_word_def last_word_def by simp
    have tn: "t - off0 < n" "offN < n" using up s0 sN o by linarith+
    have tl: "t - off0 \<le> length src" using tn n(3) by simp
    note fw = first_word_nth [OF lw0 o(1) tl]
    have lf: "length (first_word t off0 src msk1 ?w0) = t" by (rule fw(1) [OF o(1)])
    have l1: "length m1 = length mem" unfolding m1_def using le0 lf by simp
    have leN1: "wadN + t \<le> length m1" using leN l1 by simp
    have lwN: "length (get_at wadN t m1) = t" using leN1 by simp
    note lw = last_word_nth [OF lwN o(2) tn(2) n(3)]
    have ll: "length (last_word n offN src mskN (get_at wadN t m1)) = t" by (rule lw(1) [OF o(2)])
    have l2: "length m2 = length mem" unfolding m2_def using leN1 ll l1 by simp
    have k1: "m1 ! k = (if wad0 \<le> k \<and> k < wad0 + t then first_word t off0 src msk1 ?w0 ! (k - wad0) else mem ! k)" if "k < length mem" for k
      unfolding m1_def using put_word_nth(2) [OF le0, of "first_word t off0 src msk1", OF lf that] .
    have k2: "m2 ! k = (if wadN \<le> k \<and> k < wadN + t then last_word n offN src mskN (get_at wadN t m1) ! (k - wadN) else m1 ! k)" if "k < length mem" for k
      unfolding m2_def using put_word_nth(2) [OF leN1, of "last_word n offN src mskN", OF ll] that l1 by simp
    have "wadN - (wad0 + t) \<le> n - (t - off0)" using s0 sN up o by linarith
    then have wl: "wadN \<le> length m2" "wadN - (wad0 + t) \<le> length (drop (t - off0) src)" using leN l2 n(3) by auto
    have dv: "t dvd wad0 + t" "t dvd wadN" using w0 wN by simp_all
    note ww = write_words_nth [OF t(1) dv wl(1) up wl(2)]
    show ?thesis unfolding e
    proof (rule nth_equalityI)
      show "length (write_words t (wad0 + t) wadN (drop (t - off0) src) m2) = length (masked_write dst src n msk1 mskN mem)"
        using ww l2 mw(1) by simp
      fix k
      assume "k < length (write_words t (wad0 + t) wadN (drop (t - off0) src) m2)"
      then have k: "k < length mem" using ww l2 by simp
      note mwk = mw(2) [OF k, of src msk1 mskN]
      have r: "write_words t (wad0 + t) wadN (drop (t - off0) src) m2 ! k
        = (if wad0 + t \<le> k \<and> k < wadN then src ! (k - dst) else m2 ! k)"
      proof -
        have "drop (t - off0) src ! (k - (wad0 + t)) = src ! (k - dst)" if "wad0 + t \<le> k"
        proof -
          have "t - off0 + (k - (wad0 + t)) = k - dst" using that s0 o(1) by linarith
          then show ?thesis using tl by simp
        qed
        then show ?thesis using ww k l2 by simp
      qed
      consider "k < wad0" | "wad0 \<le> k" "k < wad0 + t" | "wad0 + t \<le> k" "k < wadN" | "wadN \<le> k" "k < wadN + t" | "wadN + t \<le> k"
        by linarith
      then show "write_words t (wad0 + t) wadN (drop (t - off0) src) m2 ! k = masked_write dst src n msk1 mskN mem ! k"
      proof cases
        case 1
        then have "\<not> dst \<le> k" using s0 by linarith
        then show ?thesis using r k2 [OF k] k1 [OF k] mwk 1 up by simp
      next
        case 2
        then obtain j where j: "k = wad0 + j" "j < t" using le_Suc_ex by auto
        have old: "?w0 ! j = mem ! k" using nth_get_at [OF le0 j(2)] j(1) by simp
        have "m2 ! k = first_word t off0 src msk1 ?w0 ! j" using k2 [OF k] k1 [OF k] 2 j up by simp
        also have "\<dots> = masked_write dst src n msk1 mskN mem ! k"
        proof -
          have c: "dst \<le> k \<longleftrightarrow> off0 \<le> j" "k - dst = j - off0" using j s0 by auto
          have "j - off0 < t - off0" using j(2) o(1) by linarith
          then have kn: "k < dst + n" "j - off0 \<noteq> n - 1" using j s0 tn(1) by linarith+
          show ?thesis
            unfolding mwk fw(2) [OF j(2)] c using kn n1 old by (auto simp: byte_mask_def)
        qed
        finally show ?thesis using r 2 by simp
      next
        case 3
        have c: "dst \<le> k" "k < dst + n" "k - dst \<noteq> 0" "k - dst \<noteq> n - 1" using 3 s0 sN o up by linarith+
        then show ?thesis using r 3 mwk by (simp add: byte_mask_def)
      next
        case 4
        then obtain j where j: "k = wadN + j" "j < t" using le_Suc_ex by auto
        have "get_at wadN t m1 ! j = m1 ! k" using nth_get_at [OF leN1 j(2)] j(1) by simp
        also have "\<dots> = mem ! k" using k1 [OF k] 4 up by simp
        finally have old: "get_at wadN t m1 ! j = mem ! k" .
        have "m2 ! k = last_word n offN src mskN (get_at wadN t m1) ! j" using k2 [OF k] 4 j by simp
        also have "\<dots> = masked_write dst src n msk1 mskN mem ! k"
        proof -
          have c: "dst \<le> k" "k < dst + n \<longleftrightarrow> j \<le> offN" "k - dst \<noteq> 0" "k - dst = n - 1 \<longleftrightarrow> j = offN"
            using j s0 sN up o by linarith+
          have i: "j \<le> offN \<Longrightarrow> n - 1 - offN + j = k - dst" using j sN tn(2) by linarith
          consider "j < offN" | "j = offN" | "offN < j" by linarith
          then show ?thesis
          proof cases
            case 1 then show ?thesis unfolding mwk lw(2) [OF j(2)] using c i by (simp add: byte_mask_def)
          next
            case 2 then show ?thesis unfolding mwk lw(2) [OF j(2)] using c i old by (simp add: byte_mask_def)
          next
            case 3 then show ?thesis unfolding mwk lw(2) [OF j(2)] using c old by simp
          qed
        qed
        finally show ?thesis using r 4 by simp
      next
        case 5
        then have "\<not> k < dst + n" using sN o by linarith
        then show ?thesis using r k2 [OF k] k1 [OF k] mwk 5 up by simp
      qed
    qed
  qed
qed

end
