(* ===== verification/Mmio.thy ===== *)
theory Mmio
  imports SvalSet MemAligned PathProps
begin

text \<open>
  Reading and writing along a path (\<^verbatim>\<open>src/src/cpsw_hub.cc\<close>, \<^verbatim>\<open>src/src/cpsw_mmio_dev.cc\<close>): an address of a
  memory-mapped device adds its offset, repeats the access for each of its array elements and hands it to the next address towards
  the origin, until a memory device does it. An address whose stride is the size of the element makes one access of all.
\<close>

section \<open>Addresses\<close>

datatype cacheable = UNKNOWN_CACHEABLE | NOT_CACHEABLE | WT_CACHEABLE | WB_CACHEABLE

fun cacheable_number :: "cacheable \<Rightarrow> nat" where
  "cacheable_number UNKNOWN_CACHEABLE = 0"
| "cacheable_number NOT_CACHEABLE = 1"
| "cacheable_number WT_CACHEABLE = 2"
| "cacheable_number WB_CACHEABLE = 3"

lemma cacheable_number_inj: "cacheable_number x = cacheable_number y \<longleftrightarrow> x = y"
  by (cases x; cases y) simp_all

instantiation cacheable :: linorder
begin

definition less_eq_cacheable :: "cacheable \<Rightarrow> cacheable \<Rightarrow> bool" where
  "less_eq_cacheable x y \<longleftrightarrow> cacheable_number x \<le> cacheable_number y"

definition less_cacheable :: "cacheable \<Rightarrow> cacheable \<Rightarrow> bool" where
  "less_cacheable x y \<longleftrightarrow> cacheable_number x < cacheable_number y"

instance
  by standard (auto simp: less_eq_cacheable_def less_cacheable_def cacheable_number_inj dest: cacheable_number_inj [THEN iffD1])

end

text \<open>The class of an address: memory-mapped with offset and stride, in a memory device with an alignment, or
  one of the base class, which cannot route accesses.\<close>

datatype akind = MMIOAddr u64 u64 | MemAddr nat | PlainAddr

record iosys =
  io_hier :: hier
  io_kind :: "aid \<Rightarrow> akind"
  io_cacheable :: "eid \<Rightarrow> cacheable"
  io_size :: "eid \<Rightarrow> u64"
  io_root :: eid

definition getEntryCacheable :: "iosys \<Rightarrow> aid \<Rightarrow> cacheable" where
  "getEntryCacheable sys a = io_cacheable sys (h_entry (io_hier sys) a)"

text \<open>\<open>CMMIOAddressImpl::attach\<close>: the stride of an address without one is the size of the child.\<close>

definition STRIDE_AUTO :: u64 where "STRIDE_AUTO = -1"

definition mmio_attach :: "u64 \<Rightarrow> u64 \<Rightarrow> nat \<Rightarrow> string \<Rightarrow> u64 \<Rightarrow> u64 \<Rightarrow> exn + akind" where
  "mmio_attach offset stride nelms name childSize ownerSize =
     (let stride = (if stride = STRIDE_AUTO then childSize else stride)
      in if ownerSize < offset + ucast (of_nat nelms - 1 :: u32) * stride + childSize then Inl (AddrOutOfRangeError name)
         else Inr (MMIOAddr offset stride))"

section \<open>Reading\<close>

text \<open>The buffers of the callers are one list of bytes; \<open>ra_dst\<close> is an address in it.\<close>

record read_args =
  ra_dst :: nat
  ra_nbytes :: nat
  ra_off :: u64

text \<open>A loop whose rounds return numbers to be added; \<open>step\<close> changes the arguments between the rounds.\<close>

fun add_rounds :: "('x \<Rightarrow> ('s, nat) sem) \<Rightarrow> ('x \<Rightarrow> nat \<Rightarrow> 'x) \<Rightarrow> nat \<Rightarrow> 'x \<Rightarrow> ('s, nat) sem" where
  "add_rounds body step 0 x = ret 0"
| "add_rounds body step (Suc n) x = bnd (body x) (\<lambda>r. bnd (add_rounds body step n (step x r)) (\<lambda>rs. ret (r + rs)))"

definition dispatchRead :: "(path_iter \<Rightarrow> 'x \<Rightarrow> ('s, nat) sem) \<Rightarrow> path_iter \<Rightarrow> 'x \<Rightarrow> ('s, nat) sem" where
  "dispatchRead rd it args =
     (case iter_next it of Inl e \<Rightarrow> raise e
      | Inr it' \<Rightarrow> if iter_atEnd it' then raise (ConfigurationError ''Configuration Error: -- unable to dispatch read to parent'')
                  else rd it' args)"

text \<open>\<open>CAddressImpl::read\<close> of a path, where \<open>rd\<close> reads one element.\<close>

definition addr_read :: "(read_args \<Rightarrow> ('s, nat) sem) \<Rightarrow> path_iter \<Rightarrow> read_args \<Rightarrow> ('s, nat) sem" where
  "addr_read rd it args =
     (let e = hd (it_cur it)
      in add_rounds rd (\<lambda>a got. a\<lparr>ra_off := ra_off a + of_nat got, ra_dst := ra_dst a + got\<rparr>)
           (nat (pe_idxt e - pe_idxf e + 1))
           (args\<lparr>ra_off := ra_off args + ucast (of_int (pe_idxf e) * of_nat (ra_nbytes args) :: u32)\<rparr>))"

definition mmio_read :: "iosys \<Rightarrow> (path_iter \<Rightarrow> read_args \<Rightarrow> ('s, nat) sem) \<Rightarrow> u64 \<Rightarrow> u64 \<Rightarrow> path_iter \<Rightarrow> read_args \<Rightarrow> ('s, nat) sem" where
  "mmio_read sys rd offset stride it args =
     (let e = hd (it_cur it);
          dstStride = it_nelmsRight it * ra_nbytes args;
          cnt = nat (pe_idxt e - pe_idxf e + 1);
          one = (of_nat (ra_nbytes args) = stride \<and> WT_CACHEABLE \<le> getEntryCacheable sys (pe_addr e));
          nargs = (if one then args\<lparr>ra_nbytes := ra_nbytes args * cnt mod 2 ^ 32\<rparr> else args);
          nargs = nargs\<lparr>ra_off := ra_off args + (offset + of_int (pe_idxf e) * stride)\<rparr>
      in add_rounds
           (\<lambda>a. case iter_clip (io_hier sys) (io_root sys) (if one then Some (0, 0) else None) it of
                  Inl x \<Rightarrow> raise x | Inr it' \<Rightarrow> dispatchRead rd it' a)
           (\<lambda>a _. a\<lparr>ra_off := ra_off a + stride, ra_dst := ra_dst a + dstStride\<rparr>)
           (if one then 1 else cnt) nargs)"

definition mem_read :: "nat \<Rightarrow> memdev \<Rightarrow> read_args \<Rightarrow> (u8 list, nat) sem" where
  "mem_read align md args = (\<lambda>out.
     if length out < ra_dst args + ra_nbytes args then (Inl (Undefined ''write behind the buffer''), out)
     else case memAddress_read align (ra_off args) (of_nat (ra_nbytes args)) (Some (get_at (ra_dst args) (ra_nbytes args) out)) md of
         Inl e \<Rightarrow> (Inl e, out)
       | Inr (n, b) \<Rightarrow> (Inr n, put_at (ra_dst args) b out))"

text \<open>\<open>Address::read\<close>: the fuel is the number of addresses on the path.\<close>

fun io_read :: "iosys \<Rightarrow> memdev \<Rightarrow> nat \<Rightarrow> path_iter \<Rightarrow> read_args \<Rightarrow> (u8 list, nat) sem" where
  "io_read sys md 0 it args = raise Diverges"
| "io_read sys md (Suc n) it args =
     (case io_kind sys (pe_addr (hd (it_cur it))) of
        MMIOAddr offset stride \<Rightarrow> mmio_read sys (io_read sys md n) offset stride it args
      | MemAddr align \<Rightarrow> addr_read (mem_read align md) it args
      | PlainAddr \<Rightarrow> addr_read (\<lambda>_. raise (ConfigurationError ''Configuration Error: -- unable to route I/O for read'')) it args)"

section \<open>Writing\<close>

text \<open>The arguments of \<open>setVal\<close> with the cacheability of the field; the data are what remains of them.\<close>

record io_write_args = write_args +
  w_cacheable :: cacheable

definition checkWriteAlignmentReqs :: "nat \<Rightarrow> io_write_args \<Rightarrow> exn + unit" where
  "checkWriteAlignmentReqs alignment w =
     (if w_cacheable w < WB_CACHEABLE then
        (if w_msk1 w \<noteq> 0 \<or> w_mskn w \<noteq> 0 then Inl (IOError ''CAddressImpl: Cannot merge bits to non-cacheable area'')
         else if unat (w_off w) mod alignment \<noteq> 0 \<or> w_nbytes w mod alignment \<noteq> 0
           then Inl (IOError ''CAddressImpl: Non-word aligned writes to non-cacheable area not permitted'')
         else Inr ())
      else Inr ())"

definition dispatchWrite :: "(path_iter \<Rightarrow> 'x \<Rightarrow> ('s, nat) sem) \<Rightarrow> path_iter \<Rightarrow> 'x \<Rightarrow> ('s, nat) sem" where
  "dispatchWrite wr it args =
     (case iter_next it of Inl e \<Rightarrow> raise e
      | Inr it' \<Rightarrow> if iter_atEnd it' then raise (ConfigurationError ''Configuration Error: -- unable to dispatch write to parent'')
                  else wr it' args)"

definition addr_write :: "nat \<Rightarrow> (io_write_args \<Rightarrow> ('s, nat) sem) \<Rightarrow> path_iter \<Rightarrow> io_write_args \<Rightarrow> ('s, nat) sem" where
  "addr_write align wr it args =
     (let e = hd (it_cur it)
      in add_rounds (\<lambda>a. case checkWriteAlignmentReqs align a of Inl x \<Rightarrow> raise x | Inr _ \<Rightarrow> wr a)
           (\<lambda>a put. a\<lparr>w_off := w_off a + of_nat put, w_src := drop put (w_src a)\<rparr>)
           (nat (pe_idxt e - pe_idxf e + 1))
           (args\<lparr>w_off := w_off args + ucast (of_int (pe_idxf e) * of_nat (w_nbytes args) :: u32)\<rparr>))"

definition mmio_write :: "iosys \<Rightarrow> (path_iter \<Rightarrow> io_write_args \<Rightarrow> ('s, nat) sem) \<Rightarrow> u64 \<Rightarrow> u64 \<Rightarrow> path_iter \<Rightarrow> io_write_args \<Rightarrow> ('s, nat) sem" where
  "mmio_write sys wr offset stride it args =
     (let e = hd (it_cur it);
          srcStride = it_nelmsRight it * w_nbytes args;
          cnt = nat (pe_idxt e - pe_idxf e + 1);
          one = (of_nat (w_nbytes args) = stride \<and> WB_CACHEABLE \<le> getEntryCacheable sys (pe_addr e)
                 \<and> w_msk1 args = 0 \<and> w_mskn args = 0);
          nargs = (if one then args\<lparr>w_nbytes := w_nbytes args * cnt mod 2 ^ 32\<rparr> else args);
          nargs = nargs\<lparr>w_off := w_off args + (offset + of_int (pe_idxf e) * stride)\<rparr>
      in add_rounds
           (\<lambda>a. case iter_clip (io_hier sys) (io_root sys) (if one then Some (0, 0) else None) it of
                  Inl x \<Rightarrow> raise x | Inr it' \<Rightarrow> dispatchWrite wr it' a)
           (\<lambda>a _. a\<lparr>w_off := w_off a + stride, w_src := drop srcStride (w_src a)\<rparr>)
           (if one then 1 else cnt) nargs)"

definition mem_write :: "nat \<Rightarrow> io_write_args \<Rightarrow> (memdev, nat) sem" where
  "mem_write align w = (\<lambda>md.
     if length (w_src w) < w_nbytes w then (Inl (Undefined ''read behind the buffer''), md)
     else memAddress_write align (w_off w) (of_nat (w_nbytes w)) (w_src w) (w_msk1 w) (w_mskn w) md)"

fun io_write :: "iosys \<Rightarrow> nat \<Rightarrow> path_iter \<Rightarrow> io_write_args \<Rightarrow> (memdev, nat) sem" where
  "io_write sys 0 it args = raise Diverges"
| "io_write sys (Suc n) it args =
     (case io_kind sys (pe_addr (hd (it_cur it))) of
        MMIOAddr offset stride \<Rightarrow> mmio_write sys (io_write sys n) offset stride it args
      | MemAddr align \<Rightarrow> addr_write align (mem_write align) it args
      | PlainAddr \<Rightarrow> addr_write 1 (\<lambda>_. raise (ConfigurationError ''Configuration Error: -- unable to route I/O for write'')) it args)"

section \<open>Values\<close>

definition iter_depth :: "path_iter \<Rightarrow> nat" where
  "iter_depth it = length (it_cur it) + length (concat (it_stack it))"

text \<open>\<open>IIntEntryAdapt::getVal\<close>: the numbers go to the front of \<open>out\<close>, and what lies behind them serves
  as the temporary buffer. The byte order is that of the address.\<close>

definition getVal :: "iosys \<Rightarrow> memdev \<Rightarrow> byteorder \<Rightarrow> byteorder \<Rightarrow> intfield \<Rightarrow> nat \<Rightarrow> nat \<Rightarrow> path_iter \<Rightarrow> (u8 list, nat) sem" where
  "getVal sys md host target f nelms elsz it =
     (case checkNelms nelms (iter_getNelmsLeft it) of Inl e \<Rightarrow> raise e
      | Inr n \<Rightarrow>
          let c = getctx_create host f 0 (elsz * n) n elsz target
          in bnd (io_read sys md (iter_depth it) it \<lparr>ra_dst = c_ibufp c, ra_nbytes = sbytes f, ra_off = 0\<rparr>)
               (\<lambda>_. bnd (upd (doComplete host f c)) (\<lambda>_. ret n)))"

definition setVal_io :: "iosys \<Rightarrow> byteorder \<Rightarrow> byteorder \<Rightarrow> intfield \<Rightarrow> u8 list \<Rightarrow> nat \<Rightarrow> nat \<Rightarrow> u8 list \<Rightarrow> path \<Rightarrow> (int \<times> int) option \<Rightarrow> (memdev, nat) sem" where
  "setVal_io sys host target f buf nelms elsz scratch p rng =
     (case iter_clip (io_hier sys) (io_root sys) rng (iter_create p) of Inl e \<Rightarrow> raise e
      | Inr it \<Rightarrow>
         (case checkNelms nelms (iter_getNelmsLeft it) of Inl e \<Rightarrow> raise e
          | Inr n \<Rightarrow>
              let a = setVal_args host f target elsz n buf scratch;
                  cach = (if f_mode f = WO then NOT_CACHEABLE else getEntryCacheable sys (pe_addr (hd (it_cur it))))
              in bnd (io_write sys (iter_depth it) it (write_args.extend a \<lparr>w_cacheable = cach\<rparr>)) (\<lambda>_. ret n)))"

end
