(* ===== verification/MmioProps.thy ===== *)
theory MmioProps
  imports Mmio
begin

text \<open>
  The elements of an array that a path selects: where in the memory of the device each of them lies, where in the buffer of the
  caller, and that the nested loops of the addresses access exactly these, also where they make one access of many.
\<close>

section \<open>Iterators\<close>

definition consistent :: "path_iter \<Rightarrow> bool" where
  "consistent it \<longleftrightarrow> it_nelmsLeft it = prod_list (map (\<lambda>c. pe_nelmsLeft (hd c)) (it_stack it))
     \<and> (\<forall>c \<in> set (it_stack it). c \<noteq> [] \<and> 0 < pe_nelmsLeft (hd c)) \<and> (it_cur it = [] \<longrightarrow> it_stack it = [])"

text \<open>All entries from the current one to the origin.\<close>

definition flat :: "path_iter \<Rightarrow> path_entry list" where
  "flat it = it_cur it @ concat (it_stack it)"

lemma iter_depth_flat: "iter_depth it = length (flat it)"
  by (simp add: iter_depth_def flat_def)

lemma flat_hd: "it_cur it \<noteq> [] \<Longrightarrow> hd (flat it) = hd (it_cur it)"
  by (simp add: flat_def)

lemma consistent_atEnd: "consistent it \<Longrightarrow> iter_atEnd it \<longleftrightarrow> flat it = []"
  by (auto simp: consistent_def flat_def iter_atEnd_def)

lemma iter_create_flat: "consistent (iter_create p) \<and> flat (iter_create p) = rev (p_entries p)"
  by (simp add: consistent_def flat_def iter_create_def)

lemma iter_next_flat:
  assumes c: "consistent it" and ne: "flat it \<noteq> []"
  shows "\<exists>it'. iter_next it = Inr it' \<and> consistent it' \<and> flat it' = tl (flat it)
    \<and> it_nelmsRight it' = nat (int (it_nelmsRight it) * (pe_idxt (hd (flat it)) - pe_idxf (hd (flat it)) + 1))"
proof -
  have cur: "it_cur it \<noteq> []" using consistent_atEnd [OF c] ne by (simp add: iter_atEnd_def)
  show ?thesis
  proof (cases "tl (it_cur it) = []")
    case False
    then show ?thesis using c cur by (auto simp: iter_next_def consistent_def flat_def Let_def)
  next
    case tl: True
    show ?thesis
    proof (cases "it_stack it")
      case Nil
      then show ?thesis using c cur tl by (auto simp: iter_next_def consistent_def flat_def Let_def)
    next
      case (Cons x st)
      then show ?thesis using c cur tl by (auto simp: iter_next_def consistent_def flat_def Let_def)
    qed
  qed
qed

text \<open>The range that is left of the current entry.\<close>

definition sliced :: "(int \<times> int) option \<Rightarrow> path_entry \<Rightarrow> int \<times> int" where
  "sliced rng e = (case rng of None \<Rightarrow> (pe_idxf e, pe_idxt e)
     | Some (lo, hi) \<Rightarrow> (if 0 \<le> lo then pe_idxf e + lo else pe_idxf e, if 0 \<le> hi then pe_idxf e + hi else pe_idxt e))"

lemma iter_clip_flat:
  assumes c: "consistent it" and fl: "flat it = e # es" and ok: "entry_ok h e"
    and link: "es = [] \<or> h_owner h (pe_addr e) = h_entry h (pe_addr (hd es))" and pos: "es = [] \<or> 0 < pe_nelmsLeft (hd es)"
    and rng: "pe_idxf e \<le> fst (sliced rng e)" "fst (sliced rng e) \<le> snd (sliced rng e)" "snd (sliced rng e) \<le> pe_idxt e"
  shows "\<exists>it' e'. iter_clip h root rng it = Inr it' \<and> consistent it' \<and> flat it' = e' # es \<and> pe_addr e' = pe_addr e
    \<and> (pe_idxf e', pe_idxt e') = sliced rng e \<and> it_nelmsRight it' = (if sliced rng e = (pe_idxf e, pe_idxt e) then it_nelmsRight it else 1)
    \<and> (iter_getNelmsLeft it' = (if sliced rng e = (pe_idxf e, pe_idxt e) then iter_getNelmsLeft it
         else (if es = [] then 1 else prod_list (map (\<lambda>c. pe_nelmsLeft (hd c)) (it_stack it'))) * count e'))"
proof (cases "sliced rng e = (pe_idxf e, pe_idxt e)")
  case True
  have cur: "hd (it_cur it) = e" using fl c consistent_atEnd [OF c] flat_hd [of it] by (auto simp: iter_atEnd_def)
  have "iter_clip h root rng it = Inr it"
    using True ok cur by (auto simp: iter_clip_def sliced_def entry_ok_def Let_def split: option.splits prod.splits)
  then show ?thesis using c fl True by auto
next
  case False
  obtain lo hi where r: "rng = Some (lo, hi)" using False by (cases rng) (auto simp: sliced_def)
  define f t where "f = fst (sliced rng e)" and "t = snd (sliced rng e)"
  have cur: "it_cur it \<noteq> []" "hd (it_cur it) = e"
    using fl c consistent_atEnd [OF c] flat_hd [of it] by (auto simp: iter_atEnd_def)
  obtain it1 where n: "iter_next it = Inr it1" "consistent it1" "flat it1 = es"
    using iter_next_flat [OF c] fl by auto
  define e' where "e' = pathEntry_create h (pe_addr e) f t 1"
  define suf where "suf = \<lparr>p_origin = h_owner h (pe_addr e), p_entries = [e']\<rparr>"
  have ap: "append_addr h (pe_addr e) f t \<lparr>p_origin = root, p_entries = []\<rparr> = Inr suf"
    by (simp add: append_addr_def verifyAtTail_def path_empty_def path_getNelms_def suf_def e'_def)
  have fe: "f = (if 0 \<le> lo then pe_idxf e + lo else pe_idxf e)" "t = (if 0 \<le> hi then pe_idxf e + hi else pe_idxt e)"
    by (simp_all add: f_def t_def sliced_def r)
  have df: "f \<noteq> pe_idxf e \<or> t \<noteq> pe_idxt e" using False by (auto simp: f_def t_def prod_eq_iff)
  have nr: "\<not> (f < pe_idxf e \<or> pe_idxt e < t \<or> t < f)" using rng by (simp add: f_def t_def)
  have clip: "iter_clip h root rng it = iter_append h suf it1"
    unfolding iter_clip_def r option.case prod.case Let_def cur(2) fe [symmetric] if_not_P [OF nr] if_P [OF df] n(1) sum.case ap
    by (rule refl)
  have e': "pe_addr e' = pe_addr e" "pe_idxf e' = f" "pe_idxt e' = t" "pe_nelmsLeft e' = nat (t - f + 1)"
    using rng ok by (simp_all add: e'_def pathEntry_create_in_range f_def t_def entry_ok_def)
  have ne: "\<not> path_empty suf" "rev (p_entries suf) = [e']" by (simp_all add: suf_def path_empty_def)
  show ?thesis
  proof (cases "es = []")
    case True
    then have e1: "it_cur it1 = []" "it_stack it1 = []" "it_nelmsLeft it1 = 1" using n by (simp_all add: flat_def consistent_def)
    have "iter_append h suf it1 = Inr (it1\<lparr>it_cur := [e'], it_nelmsRight := 1\<rparr>)"
      using e1 ne by (simp add: iter_append_def iter_validConcatenation_def iter_atEnd_def)
    then show ?thesis
      using clip e1 e' True False rng by (auto simp: consistent_def flat_def iter_getNelmsLeft_def iter_atEnd_def count_def f_def t_def)
  next
    case False': False
    then have nend: "\<not> iter_atEnd it1" using n consistent_atEnd by blast
    then have c1: "it_cur it1 \<noteq> []" by (simp add: iter_atEnd_def)
    have hd1: "hd (it_cur it1) = hd es" using flat_hd [OF c1] n(3) by simp
    let ?it = "it1\<lparr>it_stack := it_cur it1 # it_stack it1, it_nelmsLeft := it_nelmsLeft it1 * pe_nelmsLeft (hd es), it_cur := [e'], it_nelmsRight := 1\<rparr>"
    have "iter_append h suf it1 = Inr ?it"
      using nend ne link False' hd1 by (simp add: iter_append_def iter_validConcatenation_def suf_def path_empty_def)
    moreover have "consistent ?it" using n(2) c1 hd1 pos False' by (auto simp: consistent_def)
    moreover have "flat ?it = e' # es" using n(3) by (simp add: flat_def)
    moreover have "iter_getNelmsLeft ?it = prod_list (map (\<lambda>c. pe_nelmsLeft (hd c)) (it_stack ?it)) * count e'"
      using n(2) hd1 e' by (simp add: iter_getNelmsLeft_def iter_atEnd_def consistent_def count_def mult.commute)
    ultimately show ?thesis using clip e' False False' by (auto simp: f_def t_def)
  qed
qed

section \<open>Elements of an array\<close>

text \<open>The entries from the field to the memory device, with one index for every address on the way. Element \<open>ix\<close> lies at
  \<open>elem_off\<close> in memory and is number \<open>elem_pos\<close> of the array of the caller, in which the index of the field runs fastest.\<close>

definition mm_offset :: "iosys \<Rightarrow> path_entry \<Rightarrow> u64" where
  "mm_offset sys e = (case io_kind sys (pe_addr e) of MMIOAddr offset stride \<Rightarrow> offset + of_int (pe_idxf e) * stride | _ \<Rightarrow> 0)"

definition mm_stride :: "iosys \<Rightarrow> path_entry \<Rightarrow> u64" where
  "mm_stride sys e = (case io_kind sys (pe_addr e) of MMIOAddr offset stride \<Rightarrow> stride | _ \<Rightarrow> 0)"

fun io_path :: "iosys \<Rightarrow> nat \<Rightarrow> path_entry list \<Rightarrow> bool" where
  "io_path sys al [] = False"
| "io_path sys al [e] = (io_kind sys (pe_addr e) = MemAddr al \<and> pe_idxf e = 0 \<and> pe_idxt e = 0 \<and> 0 < pe_nelmsLeft e)"
| "io_path sys al (e # e' # es) = ((\<exists>offset stride. io_kind sys (pe_addr e) = MMIOAddr offset stride) \<and> entry_ok (io_hier sys) e
     \<and> 0 < pe_nelmsLeft e \<and> h_owner (io_hier sys) (pe_addr e) = h_entry (io_hier sys) (pe_addr e') \<and> io_path sys al (e' # es))"

fun ix_ok :: "path_entry list \<Rightarrow> nat list \<Rightarrow> bool" where
  "ix_ok (e # e' # es) ix = (case ix of [] \<Rightarrow> False | i # r \<Rightarrow> i < count e \<and> ix_ok (e' # es) r)"
| "ix_ok _ ix = (ix = [])"

fun elem_off :: "iosys \<Rightarrow> path_entry list \<Rightarrow> nat list \<Rightarrow> u64" where
  "elem_off sys (e # e' # es) (i # ix) = mm_offset sys e + of_nat i * mm_stride sys e + elem_off sys (e' # es) ix"
| "elem_off sys _ _ = 0"

fun elem_pos :: "path_entry list \<Rightarrow> nat list \<Rightarrow> nat" where
  "elem_pos (e # e' # es) (i # ix) = i + count e * elem_pos (e' # es) ix"
| "elem_pos _ _ = 0"

text \<open>The bytes of all elements of \<open>nb\<close> bytes: place in the buffer, place in memory, and place in the element. The elements of the
  buffer are \<open>nR * nb\<close> bytes apart.\<close>

definition assigns :: "iosys \<Rightarrow> path_entry list \<Rightarrow> nat \<Rightarrow> nat \<Rightarrow> nat \<Rightarrow> u64 \<Rightarrow> (nat \<times> nat \<times> nat) set" where
  "assigns sys es nR nb dst off =
     {(dst + elem_pos es ix * (nR * nb) + r, unat (off + elem_off sys es ix) + r, r) | ix r. ix_ok es ix \<and> r < nb}"

definition in_range :: "iosys \<Rightarrow> path_entry list \<Rightarrow> nat \<Rightarrow> u64 \<Rightarrow> nat \<Rightarrow> bool" where
  "in_range sys es nb off L \<longleftrightarrow> (\<forall>ix. ix_ok es ix \<longrightarrow> unat (off + elem_off sys es ix) + nb \<le> L)"

lemma elem_pos_inj: "ix_ok es ix \<Longrightarrow> ix_ok es iy \<Longrightarrow> elem_pos es ix = elem_pos es iy \<Longrightarrow> ix = iy"
proof (induction es ix arbitrary: iy rule: ix_ok.induct)
  case (1 e e' es ix)
  obtain i r where x: "ix = i # r" "i < count e" "ix_ok (e' # es) r" using 1(2) by (auto split: list.splits)
  obtain j q where y: "iy = j # q" "j < count e" "ix_ok (e' # es) q" using 1(3) by (auto split: list.splits)
  have eq: "i + count e * elem_pos (e' # es) r = j + count e * elem_pos (e' # es) q" using 1(4) x y by simp
  have "i = j" using arg_cong [OF eq, of "\<lambda>n. n mod count e"] x y by simp
  moreover from this have pq: "elem_pos (e' # es) r = elem_pos (e' # es) q" using eq x by simp
  have "r = q" by (rule 1(1) [OF x(1) x(3) y(3) pq])
  ultimately show ?case using x y by simp
qed auto

lemma assigns_functional:
  assumes "0 < nR" "(k, j, r) \<in> assigns sys es nR nb dst off" "(k, j', r') \<in> assigns sys es nR nb dst off"
  shows "j = j' \<and> r = r'"
proof -
  obtain ix where x: "ix_ok es ix" "r < nb" "k = dst + elem_pos es ix * (nR * nb) + r" "j = unat (off + elem_off sys es ix) + r"
    using assms(2) by (auto simp: assigns_def)
  obtain iy where y: "ix_ok es iy" "r' < nb" "k = dst + elem_pos es iy * (nR * nb) + r'" "j' = unat (off + elem_off sys es iy) + r'"
    using assms(3) by (auto simp: assigns_def)
  have lt: "r < nR * nb" "r' < nR * nb" using x(2) y(2) assms(1) by (metis le_trans less_le_trans mult.commute mult_le_mono2 nat_mult_1_right Suc_leI One_nat_def)+
  have eq: "elem_pos es ix * (nR * nb) + r = elem_pos es iy * (nR * nb) + r'" using x(3) y(3) by simp
  have "r = r'" using arg_cong [OF eq, of "\<lambda>n. n mod (nR * nb)"] lt by simp
  moreover from this have "elem_pos es ix = elem_pos es iy" using eq lt(1) x(2) assms(1) by simp
  then have "ix = iy" by (rule elem_pos_inj [OF x(1) y(1)])
  ultimately show ?thesis using x y by simp
qed

lemma assigns_step:
  "assigns sys (e # e' # es) nR nb dst off
   = (\<Union>i < count e. assigns sys (e' # es) (nR * count e) nb (dst + i * (nR * nb)) (off + mm_offset sys e + of_nat i * mm_stride sys e))"
proof -
  have p: "dst + (i + count e * p) * (nR * nb) + r = dst + i * (nR * nb) + p * (nR * count e * nb) + r" for i p r
    by (simp add: algebra_simps)
  show ?thesis
  proof (intro set_eqI iffI)
    fix x
    assume "x \<in> assigns sys (e # e' # es) nR nb dst off"
    then obtain ix r where x: "x = (dst + elem_pos (e # e' # es) ix * (nR * nb) + r, unat (off + elem_off sys (e # e' # es) ix) + r, r)"
        "ix_ok (e # e' # es) ix" "r < nb" by (auto simp: assigns_def)
    then obtain i q where i: "ix = i # q" "i < count e" "ix_ok (e' # es) q" by (auto split: list.splits)
    have "x \<in> assigns sys (e' # es) (nR * count e) nb (dst + i * (nR * nb)) (off + mm_offset sys e + of_nat i * mm_stride sys e)"
      using x i p [of i] by (auto simp: assigns_def add.assoc)
    then show "x \<in> (\<Union>i < count e. assigns sys (e' # es) (nR * count e) nb (dst + i * (nR * nb)) (off + mm_offset sys e + of_nat i * mm_stride sys e))"
      using i by auto
  next
    fix x
    assume "x \<in> (\<Union>i < count e. assigns sys (e' # es) (nR * count e) nb (dst + i * (nR * nb)) (off + mm_offset sys e + of_nat i * mm_stride sys e))"
    then obtain i q r where i: "i < count e" "ix_ok (e' # es) q" "r < nb"
       "x = (dst + i * (nR * nb) + elem_pos (e' # es) q * (nR * count e * nb) + r,
             unat (off + mm_offset sys e + of_nat i * mm_stride sys e + elem_off sys (e' # es) q) + r, r)"
      by (auto simp: assigns_def)
    then have "ix_ok (e # e' # es) (i # q)" "x = (dst + elem_pos (e # e' # es) (i # q) * (nR * nb) + r, unat (off + elem_off sys (e # e' # es) (i # q)) + r, r)"
      using p [of i] by (simp_all add: add.assoc)
    then show "x \<in> assigns sys (e # e' # es) nR nb dst off" using i(3) unfolding assigns_def by blast
  qed
qed

end
