(* ===== verification/MmioRun.thy ===== *)
theory MmioRun
  imports MmioProps
begin

text \<open>
  What the nested loops do. An effect is a set of byte assignments; a locale holds the law by which the effects of the rounds of a loop add
  up, and it is interpreted for reading (bytes copied to the caller's buffer) and for writing (bytes merged into memory).
\<close>

section \<open>Effects\<close>

locale rounds =
  fixes eff :: "'b set \<Rightarrow> 's \<Rightarrow> 's \<Rightarrow> bool"
    and compat :: "'b set \<Rightarrow> bool"
    and good :: "'s \<Rightarrow> bool"
  assumes eff_empty: "eff {} s s"
    and eff_Un: "compat (B \<union> C) \<Longrightarrow> eff B s t \<Longrightarrow> eff C t u \<Longrightarrow> eff (B \<union> C) s u"
    and compat_mono: "compat C \<Longrightarrow> B \<subseteq> C \<Longrightarrow> compat B"
    and eff_good: "eff B s t \<Longrightarrow> good s \<Longrightarrow> good t"
begin

lemma add_rounds_eff:
  assumes "compat (\<Union>i < n. B i)" "good s"
    and "\<And>i s. i < n \<Longrightarrow> good s \<Longrightarrow> \<exists>r t. body (f i) s = (Inr r, t) \<and> eff (B i) s t"
    and "\<And>i r. step (f i) r = f (Suc i)"
  shows "\<exists>r t. add_rounds body step n (f 0) s = (Inr r, t) \<and> eff (\<Union>i < n. B i) s t"
  using assms
proof (induction n arbitrary: f B s)
  case 0
  then show ?case using eff_empty by (simp add: ret_def)
next
  case (Suc n)
  obtain r t where b: "body (f 0) s = (Inr r, t)" "eff (B 0) s t" using Suc.prems(2,3) by blast
  have u: "(\<Union>i < Suc n. B i) = B 0 \<union> (\<Union>i < n. B (Suc i))"
  proof -
    have "{..<Suc n} = insert 0 (Suc ` {..<n})" by (auto simp: image_iff less_Suc_eq_0_disj)
    then show ?thesis by simp
  qed
  have c: "compat (\<Union>i < n. B (Suc i))" by (rule compat_mono [OF Suc.prems(1)]) (auto simp: u)
  have "\<exists>q v. add_rounds body step n (f (Suc 0)) t = (Inr q, v) \<and> eff (\<Union>i < n. B (Suc i)) t v"
    by (rule Suc.IH [where f = "\<lambda>i. f (Suc i)"]) (use c b Suc.prems eff_good in auto)
  then obtain q v where q: "add_rounds body step n (f (Suc 0)) t = (Inr q, v)" "eff (\<Union>i < n. B (Suc i)) t v" by blast
  have "add_rounds body step (Suc n) (f 0) s = (Inr (r + q), v)"
    using b q Suc.prems(4) [of 0 r] by (simp add: bnd_def ret_def)
  moreover have "eff (\<Union>i < Suc n. B i) s v"
    unfolding u by (rule eff_Un [OF _ b(2) q(2)]) (use Suc.prems(1) u in simp)
  ultimately show ?case by blast
qed

end

section \<open>Reading\<close>

definition copied :: "u8 list \<Rightarrow> (nat \<times> nat \<times> nat) set \<Rightarrow> u8 list \<Rightarrow> u8 list \<Rightarrow> bool" where
  "copied buf B out out' \<longleftrightarrow> length out' = length out
     \<and> (\<forall>k j r. (k, j, r) \<in> B \<longrightarrow> k < length out \<and> out' ! k = buf ! j)
     \<and> (\<forall>k < length out. k \<notin> fst ` B \<longrightarrow> out' ! k = out ! k)"

definition one_source :: "(nat \<times> nat \<times> nat) set \<Rightarrow> bool" where
  "one_source B \<longleftrightarrow> (\<forall>k j r j' r'. (k, j, r) \<in> B \<longrightarrow> (k, j', r') \<in> B \<longrightarrow> j = j' \<and> r = r')"

lemma copied_Un:
  assumes "one_source (B \<union> C)" "copied buf B s t" "copied buf C t u"
  shows "copied buf (B \<union> C) s u"
proof -
  have len: "length t = length s" "length u = length s" using assms by (simp_all add: copied_def)
  have "k < length s \<and> u ! k = buf ! j" if "(k, j, r) \<in> B \<union> C" for k j r
  proof (cases "k \<in> fst ` C")
    case True
    then obtain j' r' where "(k, j', r') \<in> C" by auto
    moreover from this have "j = j'" using assms(1) that unfolding one_source_def by blast
    ultimately show ?thesis using assms(3) len by (auto simp: copied_def)
  next
    case False
    then have "(k, j, r) \<in> B" using that by force
    then have "k < length s \<and> t ! k = buf ! j" using assms(2) by (auto simp: copied_def)
    then show ?thesis using assms(3) False len by (simp add: copied_def)
  qed
  moreover have "u ! k = s ! k" if "k < length s" "k \<notin> fst ` (B \<union> C)" for k
    using that assms(2,3) len by (auto simp: copied_def image_Un)
  ultimately show ?thesis using len by (simp add: copied_def)
qed

interpretation rd: rounds "copied buf" one_source "\<lambda>out. length out = N" for buf N
proof
  show "one_source C \<Longrightarrow> B \<subseteq> C \<Longrightarrow> one_source B" for B C unfolding one_source_def by blast
  show "copied buf {} s s" for s by (simp add: copied_def)
  show "copied buf B s t \<Longrightarrow> length s = N \<Longrightarrow> length t = N" for B s t by (simp add: copied_def)
qed (rule copied_Un)

text \<open>Where one access stands for many, the elements of the caller must be next to each other; \<open>c\<close> is the cacheability
  from which on accesses are joined.\<close>

fun once :: "iosys \<Rightarrow> cacheable \<Rightarrow> nat \<Rightarrow> nat \<Rightarrow> path_entry list \<Rightarrow> bool" where
  "once sys c nR nb (e # e' # es) =
     (if of_nat nb = mm_stride sys e \<and> c \<le> getEntryCacheable sys (pe_addr e)
      then nR = 1 \<and> once sys c 1 (nb * count e) (e' # es) else once sys c (nR * count e) nb (e' # es))"
| "once sys c nR nb es = True"

text \<open>The bytes of a contiguous group of elements are those of the elements.\<close>

lemma group_no_wrap:
  assumes "\<And>i. i < c \<Longrightarrow> unat (a + of_nat i * of_nat nb :: u64) + nb \<le> L" "L < 2 ^ 64" "i < c" "0 < nb"
  shows "unat (a + of_nat i * of_nat nb :: u64) = unat a + i * nb"
  using assms(3)
proof (induction i)
  case (Suc i)
  then have IH: "unat (a + of_nat i * of_nat nb) = unat a + i * nb" by simp
  have lt: "unat (a + of_nat i * of_nat nb) + nb < 2 ^ 64" using assms(1) [of i] Suc.prems assms(2) by simp
  have "nb < 2 ^ 64" using lt by simp
  then have nb: "unat (of_nat nb :: u64) = nb" by (simp add: unat_of_nat)
  have e: "a + of_nat (Suc i) * of_nat nb = (a + of_nat i * of_nat nb) + of_nat nb" by (simp add: algebra_simps)
  have "unat (b + of_nat nb) = unat b + nb" if "unat b + nb < 2 ^ 64" for b :: u64
    using that nb by (simp add: unat_plus_if')
  from this [OF lt] show ?case unfolding e using IH by simp
qed simp

lemma count_pos: "entry_ok h e \<Longrightarrow> 0 < count e"
  by (simp add: entry_ok_def count_def)

lemma elem_off_group:
  assumes st: "mm_stride sys e = of_nat nb" and R: "in_range sys (e # e' # es) nb off L" "L < 2 ^ 64" and nb: "0 < nb"
    and q: "ix_ok (e' # es) q" and i: "i < count e"
  shows "unat (off + elem_off sys (e # e' # es) (i # q)) = unat (off + mm_offset sys e + elem_off sys (e' # es) q) + i * nb"
proof -
  let ?a = "off + mm_offset sys e + elem_off sys (e' # es) q"
  have a: "off + elem_off sys (e # e' # es) (j # q) = ?a + of_nat j * of_nat nb" for j
    using st by (simp add: algebra_simps)
  have "unat (?a + of_nat j * of_nat nb) + nb \<le> L" if "j < count e" for j
    using R(1) q that a [of j] unfolding in_range_def by (metis ix_ok.simps(1) list.case(2))
  from group_no_wrap [OF this R(2) i nb] show ?thesis unfolding a by simp
qed

lemma in_range_group:
  assumes "mm_stride sys e = of_nat nb" "in_range sys (e # e' # es) nb off L" "L < 2 ^ 64" "0 < nb" "0 < count e"
  shows "in_range sys (e' # es) (nb * count e) (off + mm_offset sys e) L"
  unfolding in_range_def
proof (intro allI impI)
  fix q
  assume q: "ix_ok (e' # es) q"
  have i: "count e - 1 < count e" using assms(5) by simp
  have "ix_ok (e # e' # es) ((count e - 1) # q)" using q i by simp
  then have "unat (off + elem_off sys (e # e' # es) ((count e - 1) # q)) + nb \<le> L" using assms(2) unfolding in_range_def by blast
  then have "unat (off + mm_offset sys e + elem_off sys (e' # es) q) + (count e - 1) * nb + nb \<le> L"
    using elem_off_group [OF assms(1-4) q i] by simp
  moreover have "(count e - 1) * nb + nb = nb * count e" using assms(5) by (cases "count e") (simp_all add: algebra_simps)
  ultimately show "unat (off + mm_offset sys e + elem_off sys (e' # es) q) + nb * count e \<le> L" by simp
qed

lemma assigns_group:
  assumes st: "mm_stride sys e = of_nat nb" and R: "in_range sys (e # e' # es) nb off L" "L < 2 ^ 64" and nb: "0 < nb"
  shows "(\<lambda>(k, j, r). (k, j)) ` assigns sys (e # e' # es) 1 nb dst off
       = (\<lambda>(k, j, r). (k, j)) ` assigns sys (e' # es) 1 (nb * count e) dst (off + mm_offset sys e)"
proof -
  note g = elem_off_group [OF st R nb]
  show ?thesis
  proof (intro set_eqI iffI)
    fix x
    assume "x \<in> (\<lambda>(k, j, r). (k, j)) ` assigns sys (e # e' # es) 1 nb dst off"
    then obtain ix r where x: "x = (dst + elem_pos (e # e' # es) ix * nb + r, unat (off + elem_off sys (e # e' # es) ix) + r)"
        "ix_ok (e # e' # es) ix" "r < nb" by (auto simp: assigns_def)
    then obtain i q where i: "ix = i # q" "i < count e" "ix_ok (e' # es) q" by (auto split: list.splits)
    have "i * nb + nb \<le> count e * nb" using i(2) mult_le_mono1 [of "Suc i" "count e" nb] by simp
    then have r: "i * nb + r < nb * count e" using x(3) by (simp add: mult.commute)
    have "x = (dst + elem_pos (e' # es) q * (1 * (nb * count e)) + (i * nb + r), unat (off + mm_offset sys e + elem_off sys (e' # es) q) + (i * nb + r))"
      using x(1) g [OF i(3,2)] unfolding i(1) by (simp add: algebra_simps)
    then show "x \<in> (\<lambda>(k, j, r). (k, j)) ` assigns sys (e' # es) 1 (nb * count e) dst (off + mm_offset sys e)"
      using i(3) r unfolding assigns_def by force
  next
    fix x
    assume "x \<in> (\<lambda>(k, j, r). (k, j)) ` assigns sys (e' # es) 1 (nb * count e) dst (off + mm_offset sys e)"
    then obtain q r where x: "ix_ok (e' # es) q" "r < nb * count e"
        "x = (dst + elem_pos (e' # es) q * (1 * (nb * count e)) + r, unat (off + mm_offset sys e + elem_off sys (e' # es) q) + r)"
      by (auto simp: assigns_def)
    define i where "i = r div nb"
    have i: "i < count e" using x(2) by (simp add: i_def less_mult_imp_div_less mult.commute)
    have r: "r = i * nb + r mod nb" "r mod nb < nb" using nb by (simp_all add: i_def)
    have "x = (dst + elem_pos (e # e' # es) (i # q) * (1 * nb) + r mod nb, unat (off + elem_off sys (e # e' # es) (i # q)) + r mod nb)"
      using x(3) g [OF x(1) i] r(1) by (simp add: algebra_simps)
    then show "x \<in> (\<lambda>(k, j, r). (k, j)) ` assigns sys (e # e' # es) 1 nb dst off"
      using x(1) i r(2) unfolding assigns_def by (force simp del: elem_pos.simps elem_off.simps)
  qed
qed

lemma copied_cong: "(\<lambda>(k, j, r). (k, j)) ` B = (\<lambda>(k, j, r). (k, j)) ` C \<Longrightarrow> copied buf B s t = copied buf C s t"
proof -
  assume e: "(\<lambda>(k, j, r). (k, j)) ` B = (\<lambda>(k, j, r). (k, j)) ` C"
  have m: "(\<exists>r. (k, j, r) \<in> X) \<longleftrightarrow> (k, j) \<in> (\<lambda>(k, j, r). (k, j)) ` X" for k j and X :: "(nat \<times> nat \<times> nat) set" by force
  have f: "k \<in> fst ` X \<longleftrightarrow> (\<exists>j. (k, j) \<in> (\<lambda>(k, j, r). (k, j)) ` X)" for k and X :: "(nat \<times> nat \<times> nat) set" by force
  have "copied buf X s t \<longleftrightarrow> length t = length s \<and> (\<forall>k j. (k, j) \<in> (\<lambda>(k, j, r). (k, j)) ` X \<longrightarrow> k < length s \<and> t ! k = buf ! j)
     \<and> (\<forall>k < length s. \<not> (\<exists>j. (k, j) \<in> (\<lambda>(k, j, r). (k, j)) ` X) \<longrightarrow> t ! k = s ! k)" for X
    unfolding copied_def f m [symmetric] by blast
  then show ?thesis using e by simp
qed

end
