(* ===== verification/MmioRead.thy ===== *)
theory MmioRead
  imports MmioRun
begin

text \<open>
  Reading along a path copies every byte of every element which the path selects from its place in memory to its place in the
  buffer of the caller, whether the addresses make one access for each element or one for many.
\<close>

definition mdev_ok :: "nat \<Rightarrow> memdev \<Rightarrow> bool" where
  "mdev_ok al md \<longleftrightarrow> 0 < al \<and> al dvd length (md_buf md) \<and> unat (md_size md) \<le> length (md_buf md) \<and> unat (md_size md) < 2 ^ 32"

lemma mdev_ok_access:
  assumes "mdev_ok al md" "unat off + nb \<le> unat (md_size md)"
  shows "unat (of_nat nb :: u32) = nb" "unat (off + ucast (of_nat nb :: u32)) = unat off + nb" "\<not> md_size md < off + ucast (of_nat nb :: u32)"
    "unat off + nb \<le> length (md_buf md)"
proof -
  show n: "unat (of_nat nb :: u32) = nb" using assms by (simp add: mdev_ok_def unat_of_nat)
  have "unat (ucast (of_nat nb :: u32) :: u64) = nb" using n assms by (simp add: unsigned_ucast_eq take_bit_nat_eq_self_iff mdev_ok_def)
  then show s: "unat (off + ucast (of_nat nb :: u32)) = unat off + nb"
    using assms by (simp add: mdev_ok_def unat_plus_if')
  show "\<not> md_size md < off + ucast (of_nat nb :: u32)" using s assms by (simp add: word_less_nat_alt)
  show "unat off + nb \<le> length (md_buf md)" using assms by (simp add: mdev_ok_def)
qed

lemma mem_read_run:
  assumes m: "mdev_ok al md" "unat off + nb \<le> unat (md_size md)" and nb: "0 < nb" "dst + nb \<le> length out"
  shows "mem_read al md \<lparr>ra_dst = dst, ra_nbytes = nb, ra_off = off\<rparr> out = (Inr nb, put_at dst (get_at (unat off) nb (md_buf md)) out)"
proof -
  note a = mdev_ok_access [OF m]
  let ?g = "get_at (unat off) nb (md_buf md)"
  have lg: "length ?g = nb" using a(4) by (simp add: get_at_def)
  have d: "(if al = 1 then put_at 0 (read_func8 (unat off) nb (md_buf md)) (get_at dst nb out)
     else read_aligned al (unat off) nb (md_buf md) (get_at dst nb out)) = ?g"
  proof (cases "al = 1")
    case True
    then show ?thesis using lg nb by (simp add: read_func8_def put_at_def get_at_def)
  next
    case False
    then show ?thesis using read_aligned_nth [of al "md_buf md" nb "unat off" "get_at dst nb out"] m(1) nb a(4)
      by (simp add: mdev_ok_def get_at_def)
  qed
  show ?thesis using a nb d by (cases "al = 1") (simp_all add: mem_read_def memAddress_read_def)
qed

lemma mem_read_copied:
  assumes m: "mdev_ok al md" "unat off + nb \<le> unat (md_size md)" and nb: "0 < nb" "dst + nb \<le> length out"
  shows "\<exists>out'. mem_read al md \<lparr>ra_dst = dst, ra_nbytes = nb, ra_off = off\<rparr> out = (Inr nb, out')
    \<and> copied (md_buf md) {(dst + r, unat off + r, r) | r. r < nb} out out'"
proof -
  note a = mdev_ok_access [OF m]
  let ?g = "get_at (unat off) nb (md_buf md)"
  have lg: "length ?g = nb" using a(4) by (simp add: get_at_def)
  have "mem_read al md \<lparr>ra_dst = dst, ra_nbytes = nb, ra_off = off\<rparr> out = (Inr nb, put_at dst ?g out)"
    by (rule mem_read_run [OF m nb])
  moreover have "copied (md_buf md) {(dst + r, unat off + r, r) | r. r < nb} out (put_at dst ?g out)"
    unfolding copied_def
  proof (intro conjI allI impI)
    show "length (put_at dst ?g out) = length out" using lg nb by (simp add: put_at_def)
  next
    fix k j r
    assume "(k, j, r) \<in> {(dst + r, unat off + r, r) | r. r < nb}"
    then have "k = dst + r" "j = unat off + r" "r < nb" by auto
    then show "k < length out" "put_at dst ?g out ! k = md_buf md ! j"
      using lg nb a(4) by (auto simp: put_at_def get_at_def nth_append)
  next
    fix k
    assume k: "k < length out" "k \<notin> fst ` {(dst + r, unat off + r, r) | r. r < nb}"
    have "k < dst \<or> dst + nb \<le> k" 
    proof (rule ccontr)
      assume "\<not> ?thesis"
      then have "k = fst (dst + (k - dst), unat off + (k - dst), k - dst)" "k - dst < nb" by auto
      then show False using k(2) by blast
    qed
    then show "put_at dst ?g out ! k = out ! k"
      using lg nb k by (auto simp: put_at_def nth_append)
  qed
  ultimately show ?thesis by blast
qed

section \<open>The nested loops\<close>

lemma sliced_None [simp]: "sliced None e = (pe_idxf e, pe_idxt e)"
  by (simp add: sliced_def)

lemma sliced_first [simp]: "sliced (Some (0, 0)) e = (pe_idxf e, pe_idxf e)"
  by (simp add: sliced_def)

lemma io_path_pos: "io_path sys al (e # es) \<Longrightarrow> 0 < pe_nelmsLeft e"
  by (cases es) auto

lemma io_path_tl: "io_path sys al (e # e' # es) \<Longrightarrow> io_path sys al (e' # es)"
  by simp

text \<open>The iterator which the next address gets, in both cases.\<close>

lemma dispatch_iter:
  assumes c: "consistent it" and fl: "flat it = e # e' # es" and io: "io_path sys al (e # e' # es)"
    and rng: "rng = None \<or> rng = Some (0, 0)"
  shows "\<exists>it' it''. iter_clip (io_hier sys) (io_root sys) rng it = Inr it' \<and> iter_next it' = Inr it'' \<and> consistent it'' \<and> flat it'' = e' # es
    \<and> \<not> iter_atEnd it'' \<and> it_cur it'' \<noteq> [] \<and> hd (it_cur it'') = e'
    \<and> (rng = None \<longrightarrow> it_nelmsRight it'' = it_nelmsRight it * count e)
    \<and> (rng = Some (0, 0) \<longrightarrow> it_nelmsRight it = 1 \<longrightarrow> it_nelmsRight it'' = 1)"
proof -
  have ok: "entry_ok (io_hier sys) e" using io by simp
  have r: "pe_idxf e \<le> fst (sliced rng e)" "fst (sliced rng e) \<le> snd (sliced rng e)" "snd (sliced rng e) \<le> pe_idxt e"
    using rng ok by (auto simp: entry_ok_def)
  obtain it' f where cl: "iter_clip (io_hier sys) (io_root sys) rng it = Inr it'" "consistent it'" "flat it' = f # e' # es"
      "(pe_idxf f, pe_idxt f) = sliced rng e" "it_nelmsRight it' = (if sliced rng e = (pe_idxf e, pe_idxt e) then it_nelmsRight it else 1)"
    using iter_clip_flat [OF c fl ok _ _ r, of "io_root sys"] io io_path_pos [OF io_path_tl [OF io]] by auto
  obtain it'' where n: "iter_next it' = Inr it''" "consistent it''" "flat it'' = e' # es"
      "it_nelmsRight it'' = nat (int (it_nelmsRight it') * (pe_idxt f - pe_idxf f + 1))"
    using iter_next_flat [OF cl(2)] cl(3) by auto
  have ne: "\<not> iter_atEnd it''" using consistent_atEnd [OF n(2)] n(3) by simp
  then have cur: "it_cur it'' \<noteq> []" by (simp add: iter_atEnd_def)
  moreover have "hd (it_cur it'') = e'" using flat_hd [OF cur] n(3) by simp
  moreover have "rng = None \<longrightarrow> it_nelmsRight it'' = it_nelmsRight it * count e"
    using cl(4,5) n(4) ok by (auto simp: count_def nat_mult_distrib entry_ok_def)
  moreover have "rng = Some (0, 0) \<longrightarrow> it_nelmsRight it = 1 \<longrightarrow> it_nelmsRight it'' = 1"
    using cl(4,5) n(4) by auto
  ultimately show ?thesis using cl(1) n ne by blast
qed

lemma hd_flat: "consistent it \<Longrightarrow> flat it = e # es \<Longrightarrow> hd (it_cur it) = e"
  using consistent_atEnd [of it] flat_hd [of it] by (auto simp: iter_atEnd_def)

lemma ix_ok_ex: "io_path sys al es \<Longrightarrow> \<exists>ix. ix_ok es ix"
proof (induction sys al es rule: io_path.induct)
  case (3 sys al e e' es)
  then obtain q where "ix_ok (e' # es) q" "0 < count e" using count_pos by auto
  then have "ix_ok (e # e' # es) (0 # q)" by simp
  then show ?case by blast
qed auto

text \<open>The range of the addresses further on, when there is one access for each element.\<close>

lemma in_range_step:
  "in_range sys (e # e' # es) nb off L \<Longrightarrow> i < count e \<Longrightarrow> in_range sys (e' # es) nb (off + mm_offset sys e + of_nat i * mm_stride sys e) L"
  unfolding in_range_def
proof (intro allI impI)
  fix q
  assume r: "\<forall>ix. ix_ok (e # e' # es) ix \<longrightarrow> unat (off + elem_off sys (e # e' # es) ix) + nb \<le> L" and i: "i < count e" "ix_ok (e' # es) q"
  have "ix_ok (e # e' # es) (i # q)" using i by simp
  with r have "unat (off + elem_off sys (e # e' # es) (i # q)) + nb \<le> L" by blast
  then show "unat (off + mm_offset sys e + of_nat i * mm_stride sys e + elem_off sys (e' # es) q) + nb \<le> L" by (simp add: add.assoc)
qed

definition fits :: "(nat \<times> nat \<times> nat) set \<Rightarrow> nat \<Rightarrow> bool" where
  "fits B n \<longleftrightarrow> (\<forall>k j r. (k, j, r) \<in> B \<longrightarrow> k < n)"

lemma fits_image: "fits B n \<longleftrightarrow> (\<forall>(k, j) \<in> (\<lambda>(k, j, r). (k, j)) ` B. k < n)"
  by (auto simp: fits_def)

lemma fits_UN: "fits (\<Union>i < c. B i) n \<Longrightarrow> i < c \<Longrightarrow> fits (B i) n" for i c :: nat
  unfolding fits_def by blast

lemma one_source_assigns: "0 < nR \<Longrightarrow> one_source (assigns sys es nR nb dst off)"
  unfolding one_source_def using assigns_functional by blast

lemma group_size:
  assumes "io_path sys al (e' # es)" "in_range sys (e' # es) n off L" "L < 2 ^ 32"
  shows "n mod 2 ^ 32 = n"
proof -
  obtain q where "ix_ok (e' # es) q" using ix_ok_ex [OF assms(1)] by blast
  then have "n \<le> L" using assms(2) unfolding in_range_def by (meson add_leD2)
  then show ?thesis using assms(3) by simp
qed

lemma mmio_kind: "io_path sys al (e # e' # es) \<Longrightarrow> \<exists>offset stride. io_kind sys (pe_addr e) = MMIOAddr offset stride
    \<and> mm_stride sys e = stride \<and> mm_offset sys e = offset + of_int (pe_idxf e) * stride"
  by (auto simp: mm_stride_def mm_offset_def)

lemma io_read_mem:
  assumes fl: "consistent it" "flat it = [e]" and io: "io_path sys al [e]" and nb: "0 < nb" and m: "mdev_ok al md"
    and R: "in_range sys [e] nb off (unat (md_size md))" and ft: "fits (assigns sys [e] nR nb dst off) (length out)"
  shows "\<exists>r out'. io_read sys md (Suc n) it \<lparr>ra_dst = dst, ra_nbytes = nb, ra_off = off\<rparr> out = (Inr r, out')
    \<and> copied (md_buf md) (assigns sys [e] nR nb dst off) out out'"
proof -
  have A: "assigns sys [e] nR nb dst off = {(dst + r, unat off + r, r) | r. r < nb}" by (auto simp: assigns_def)
  have "(dst + (nb - 1), unat off + (nb - 1), nb - 1) \<in> assigns sys [e] nR nb dst off" using nb unfolding A by auto
  then have "dst + (nb - 1) < length out" using ft unfolding fits_def by blast
  then have d: "dst + nb \<le> length out" using nb by simp
  have r: "unat off + nb \<le> unat (md_size md)" using R by (simp add: in_range_def)
  obtain out' where o: "mem_read al md \<lparr>ra_dst = dst, ra_nbytes = nb, ra_off = off\<rparr> out = (Inr nb, out')"
      "copied (md_buf md) {(dst + r, unat off + r, r) | r. r < nb} out out'"
    using mem_read_copied [OF m r nb d] by blast
  have "io_read sys md (Suc n) it \<lparr>ra_dst = dst, ra_nbytes = nb, ra_off = off\<rparr> out = (Inr nb, out')"
    using hd_flat [OF fl] io o(1) by (simp add: addr_read_def bnd_def ret_def numeral_2_eq_2)
  then show ?thesis using o(2) A by auto
qed

text \<open>The two ways of the access.\<close>

lemma mmio_read_each:
  assumes "hd (it_cur it) = e" "\<not> (of_nat nb = stride \<and> WT_CACHEABLE \<le> getEntryCacheable sys (pe_addr e))"
  shows "mmio_read sys rd offset stride it \<lparr>ra_dst = dst, ra_nbytes = nb, ra_off = off\<rparr>
    = add_rounds (\<lambda>a. case iter_clip (io_hier sys) (io_root sys) None it of Inl x \<Rightarrow> raise x | Inr it' \<Rightarrow> dispatchRead rd it' a)
        (\<lambda>a _. a\<lparr>ra_off := ra_off a + stride, ra_dst := ra_dst a + it_nelmsRight it * nb\<rparr>) (count e)
        \<lparr>ra_dst = dst, ra_nbytes = nb, ra_off = off + (offset + of_int (pe_idxf e) * stride)\<rparr>"
  using assms(2) unfolding mmio_read_def Let_def assms(1) count_def read_args.simps if_not_P [OF assms(2)] by simp

lemma mmio_read_one:
  assumes "hd (it_cur it) = e" "of_nat nb = stride \<and> WT_CACHEABLE \<le> getEntryCacheable sys (pe_addr e)"
  shows "mmio_read sys rd offset stride it \<lparr>ra_dst = dst, ra_nbytes = nb, ra_off = off\<rparr>
    = (case iter_clip (io_hier sys) (io_root sys) (Some (0, 0)) it of Inl x \<Rightarrow> raise x | Inr it' \<Rightarrow> dispatchRead rd it'
        \<lparr>ra_dst = dst, ra_nbytes = nb * count e mod 2 ^ 32, ra_off = off + (offset + of_int (pe_idxf e) * stride)\<rparr>)"
proof -
  have b: "bnd m (\<lambda>r. bnd (ret 0) (\<lambda>rs. ret (r + rs))) = m" for m :: "('s, nat) sem"
    by (rule ext) (auto simp: bnd_def ret_def split: prod.splits sum.splits)
  show ?thesis
    using assms(2) unfolding mmio_read_def Let_def assms(1) count_def read_args.simps if_P [OF assms(2)] by (simp add: b [simplified] split: sum.split)
qed

theorem io_read_copied:
  assumes "consistent it" "flat it = es" "io_path sys al es" "once sys WT_CACHEABLE (it_nelmsRight it) nb es" "0 < it_nelmsRight it" "0 < nb"
    "mdev_ok al md" "in_range sys es nb off (unat (md_size md))" "fits (assigns sys es (it_nelmsRight it) nb dst off) (length out)" "length es \<le> n"
  shows "\<exists>r out'. io_read sys md n it \<lparr>ra_dst = dst, ra_nbytes = nb, ra_off = off\<rparr> out = (Inr r, out')
    \<and> copied (md_buf md) (assigns sys es (it_nelmsRight it) nb dst off) out out'"
  using assms
proof (induction es arbitrary: it nb off dst out n)
  case (Cons e es)
  obtain m where n: "n = Suc m" using Cons.prems(10) by (cases n) simp_all
  show ?case
  proof (cases es)
    case Nil
    show ?thesis using io_read_mem [of it e sys al nb md off "it_nelmsRight it" dst out m] Cons.prems unfolding n Nil by blast
  next
    case es: (Cons e' fs)
    note p = Cons.prems [unfolded es] and IH = Cons.IH [unfolded es]
    obtain offset stride where k: "io_kind sys (pe_addr e) = MMIOAddr offset stride" "mm_stride sys e = stride"
        "mm_offset sys e = offset + of_int (pe_idxf e) * stride"
      using mmio_kind [OF p(3)] by blast
    have hd: "hd (it_cur it) = e" using hd_flat p(1,2) by blast
    have io: "io_path sys al (e' # fs)" using p(3) by simp
    have cnt: "0 < count e" using p(3) count_pos by auto
    have len: "length (e' # fs) \<le> m" using p(10) n by simp
    let ?one = "of_nat nb = stride \<and> WT_CACHEABLE \<le> getEntryCacheable sys (pe_addr e)"
    have run: "io_read sys md n it \<lparr>ra_dst = dst, ra_nbytes = nb, ra_off = off\<rparr>
      = mmio_read sys (io_read sys md m) offset stride it \<lparr>ra_dst = dst, ra_nbytes = nb, ra_off = off\<rparr>"
      unfolding n using hd k(1) by simp
    show ?thesis
    proof (cases ?one)
      case False
      obtain it' it'' where it: "iter_clip (io_hier sys) (io_root sys) None it = Inr it'" "iter_next it' = Inr it''" "consistent it''"
          "flat it'' = e' # fs" "\<not> iter_atEnd it''" "it_nelmsRight it'' = it_nelmsRight it * count e"
        using dispatch_iter [OF p(1-3), of None] by auto
      have ro: "once sys WT_CACHEABLE (it_nelmsRight it'') nb (e' # fs)"
        using p(4) unfolding it(6) once.simps k(2) if_not_P [OF False] .
      have pos: "0 < it_nelmsRight it''" using it(6) p(5) cnt by simp
      let ?f = "\<lambda>i. \<lparr>ra_dst = dst + i * (it_nelmsRight it * nb), ra_nbytes = nb, ra_off = off + mm_offset sys e + of_nat i * mm_stride sys e\<rparr>"
      let ?B = "\<lambda>i. assigns sys (e' # fs) (it_nelmsRight it'') nb (dst + i * (it_nelmsRight it * nb)) (off + mm_offset sys e + of_nat i * mm_stride sys e)"
      let ?body = "\<lambda>a. case iter_clip (io_hier sys) (io_root sys) None it of Inl x \<Rightarrow> raise x | Inr it' \<Rightarrow> dispatchRead (io_read sys md m) it' a"
      have B: "assigns sys (e # e' # fs) (it_nelmsRight it) nb dst off = (\<Union>i < count e. ?B i)"
        unfolding it(6) by (rule assigns_step)
      have body: "?body a = io_read sys md m it'' a" for a
        using it by (simp add: dispatchRead_def)
      have "\<exists>r t. add_rounds ?body (\<lambda>a _. a\<lparr>ra_off := ra_off a + stride, ra_dst := ra_dst a + it_nelmsRight it * nb\<rparr>) (count e) (?f 0) out = (Inr r, t)
          \<and> copied (md_buf md) (\<Union>i < count e. ?B i) out t"
      proof (rule rd.add_rounds_eff [where f = ?f and B = ?B and N = "length out"])
        show "one_source (\<Union>i < count e. ?B i)" unfolding B [symmetric] by (rule one_source_assigns [OF p(5)])
      next
        fix i :: nat and s :: "u8 list"
        assume i: "i < count e" and s: "length s = length out"
        have "fits (?B i) (length s)" unfolding s by (rule fits_UN [OF p(9) [unfolded B] i])
        from IH [OF it(3,4) io ro pos p(6,7) in_range_step [OF p(8) i] this len]
        show "\<exists>r t. ?body (?f i) s = (Inr r, t) \<and> copied (md_buf md) (?B i) s t" unfolding body .
      qed (simp_all add: k(2) algebra_simps)
      then show ?thesis unfolding run es B mmio_read_each [OF hd False] by (simp add: k(3))
    next
      case True
      then have ro: "it_nelmsRight it = 1" "once sys WT_CACHEABLE 1 (nb * count e) (e' # fs)" using p(4) k by simp_all
      obtain it' it'' where it: "iter_clip (io_hier sys) (io_root sys) (Some (0, 0)) it = Inr it'" "iter_next it' = Inr it''" "consistent it''"
          "flat it'' = e' # fs" "\<not> iter_atEnd it''" "it_nelmsRight it'' = 1"
        using dispatch_iter [OF p(1-3), of "Some (0, 0)"] ro(1) by auto
      have st: "mm_stride sys e = of_nat nb" using True k by simp
      have L: "unat (md_size md) < 2 ^ 64" "unat (md_size md) < 2 ^ 32" using p(7) by (simp_all add: mdev_ok_def)
      have R: "in_range sys (e' # fs) (nb * count e) (off + mm_offset sys e) (unat (md_size md))"
        by (rule in_range_group [OF st p(8) L(1) p(6) cnt])
      note g = assigns_group [OF st p(8) L(1) p(6), of dst]
      have ft: "fits (assigns sys (e' # fs) 1 (nb * count e) dst (off + mm_offset sys e)) (length out)"
        using p(9) unfolding ro(1) fits_image g .
      have "\<exists>r t. io_read sys md m it'' \<lparr>ra_dst = dst, ra_nbytes = nb * count e, ra_off = off + mm_offset sys e\<rparr> out = (Inr r, t)
          \<and> copied (md_buf md) (assigns sys (e' # fs) (it_nelmsRight it'') (nb * count e) dst (off + mm_offset sys e)) out t"
        by (rule IH [OF it(3,4) io _ _ _ p(7) R _ len]) (use ro ft it(6) p(6) cnt in simp_all)
      then obtain r t where o: "io_read sys md m it'' \<lparr>ra_dst = dst, ra_nbytes = nb * count e, ra_off = off + mm_offset sys e\<rparr> out = (Inr r, t)"
          "copied (md_buf md) (assigns sys (e # e' # fs) 1 nb dst off) out t"
        unfolding it(6) copied_cong [OF g] by blast
      have sz: "nb * count e mod 2 ^ 32 = nb * count e" by (rule group_size [OF io R L(2)])
      have "io_read sys md n it \<lparr>ra_dst = dst, ra_nbytes = nb, ra_off = off\<rparr> out = (Inr r, t)"
        unfolding run mmio_read_one [OF hd True] using o(1) it sz k(3) by (simp add: dispatchRead_def)
      then show ?thesis using o(2) unfolding es ro(1) by blast
    qed
  qed
qed simp

end
