(* ===== verification/MmioWrite.thy ===== *)
theory MmioWrite
  imports MmioRead
begin

text \<open>
  Writing along a path stores every byte of every element which the path selects at its place in memory, where the masks spare bits
  of the first and of the last byte of an element, and leaves the rest of the memory alone.
\<close>

section \<open>Effects\<close>

definition stored :: "u8 list \<Rightarrow> nat \<Rightarrow> u8 \<Rightarrow> u8 \<Rightarrow> (nat \<times> nat \<times> nat) set \<Rightarrow> memdev \<Rightarrow> memdev \<Rightarrow> bool" where
  "stored src nb m1 mn B md md' \<longleftrightarrow> md_size md' = md_size md \<and> length (md_buf md') = length (md_buf md)
     \<and> (\<forall>k j r. (k, j, r) \<in> B \<longrightarrow> j < length (md_buf md) \<and> md_buf md' ! j = merge_bits (byte_mask nb m1 mn r) (md_buf md ! j) (src ! k))
     \<and> (\<forall>j < length (md_buf md). j \<notin> (\<lambda>(k, j, r). j) ` B \<longrightarrow> md_buf md' ! j = md_buf md ! j)"

text \<open>No two elements share a byte of the memory.\<close>

definition apart :: "(nat \<times> nat \<times> nat) set \<Rightarrow> bool" where
  "apart B \<longleftrightarrow> (\<forall>k j r k' r'. (k, j, r) \<in> B \<longrightarrow> (k', j, r') \<in> B \<longrightarrow> k = k' \<and> r = r')"

lemma merge_bits_idem [simp]: "merge_bits m (merge_bits m old new) new = merge_bits m old new"
  by (rule bit_eqI) (simp add: merge_bits_bit)

lemma stored_Un:
  assumes "apart (B \<union> C)" "stored src nb m1 mn B s t" "stored src nb m1 mn C t u"
  shows "stored src nb m1 mn (B \<union> C) s u"
proof -
  let ?mg = "\<lambda>r. merge_bits (byte_mask nb m1 mn r)"
  have len: "length (md_buf t) = length (md_buf s)" "length (md_buf u) = length (md_buf s)" "md_size u = md_size s"
    using assms by (simp_all add: stored_def)
  have inB: "j < length (md_buf s) \<and> md_buf t ! j = ?mg r (md_buf s ! j) (src ! k)" if "(k, j, r) \<in> B" for k j r
    using assms(2) that by (simp add: stored_def)
  have inC: "md_buf u ! j = ?mg r (md_buf t ! j) (src ! k) \<and> j < length (md_buf s)" if "(k, j, r) \<in> C" for k j r
    using assms(3) that len by (simp add: stored_def)
  have nB: "md_buf t ! j = md_buf s ! j" if "j < length (md_buf s)" "j \<notin> (\<lambda>(k, j, r). j) ` B" for j
    using assms(2) that by (simp add: stored_def)
  have nC: "md_buf u ! j = md_buf t ! j" if "j < length (md_buf s)" "j \<notin> (\<lambda>(k, j, r). j) ` C" for j
    using assms(3) that len by (simp add: stored_def)
  have uniq: "k = k' \<and> r = r'" if "(k, j, r) \<in> B \<union> C" "(k', j, r') \<in> B \<union> C" for k j r k' r'
    using assms(1) that unfolding apart_def by blast
  have "j < length (md_buf s) \<and> md_buf u ! j = ?mg r (md_buf s ! j) (src ! k)" if m: "(k, j, r) \<in> B \<union> C" for k j r
  proof (cases "j \<in> (\<lambda>(k, j, r). j) ` C")
    case True
    then obtain k' r' where "(k', j, r') \<in> C" by auto
    then have c: "(k, j, r) \<in> C" using uniq [OF m, of k' r'] by blast
    show ?thesis
    proof (cases "j \<in> (\<lambda>(k, j, r). j) ` B")
      case True
      then obtain k' r' where "(k', j, r') \<in> B" by auto
      then have "(k, j, r) \<in> B" using uniq [OF m, of k' r'] by blast
      from inB [OF this] inC [OF c] show ?thesis by simp
    qed (use inC [OF c] nB in simp)
  next
    case False
    then have "(k, j, r) \<in> B" using m by force
    from inB [OF this] nC [OF _ False] show ?thesis by simp
  qed
  moreover have "md_buf u ! j = md_buf s ! j" if "j < length (md_buf s)" "j \<notin> (\<lambda>(k, j, r). j) ` (B \<union> C)" for j
    using that nB nC by (simp add: image_Un)
  ultimately show ?thesis using len by (simp add: stored_def)
qed

interpretation wr: rounds "stored src nb m1 mn" apart "\<lambda>md. md_size md = S \<and> length (md_buf md) = N" for src nb m1 mn S N
proof
  show "apart C \<Longrightarrow> B \<subseteq> C \<Longrightarrow> apart B" for B C unfolding apart_def by blast
  show "stored src nb m1 mn {} s s" for s by (simp add: stored_def)
  show "stored src nb m1 mn B s t \<Longrightarrow> md_size s = S \<and> length (md_buf s) = N \<Longrightarrow> md_size t = S \<and> length (md_buf t) = N" for B s t
    by (simp add: stored_def)
qed (rule stored_Un)

text \<open>Without masks the size of the element does not matter.\<close>

lemma byte_mask_0 [simp]: "byte_mask nb 0 0 r = 0"
  by (simp add: byte_mask_def)

lemma stored_cong:
  assumes e: "(\<lambda>(k, j, r). (k, j)) ` B = (\<lambda>(k, j, r). (k, j)) ` C"
  shows "stored src nb 0 0 B s t = stored src n 0 0 C s t"
proof -
  let ?P = "\<lambda>(k, j, r). (k, j)"
  have m: "(\<forall>k j r. (k, j, r) \<in> X \<longrightarrow> Q k j) \<longleftrightarrow> (\<forall>k j. (k, j) \<in> ?P ` X \<longrightarrow> Q k j)" for Q and X :: "(nat \<times> nat \<times> nat) set" by force
  have f: "j \<in> (\<lambda>(k, j, r). j) ` X \<longleftrightarrow> j \<in> snd ` ?P ` X" for j and X :: "(nat \<times> nat \<times> nat) set" by force
  show ?thesis unfolding stored_def byte_mask_0 merge_bits_0 m f e ..
qed

section \<open>The memory\<close>

lemma mem_write_run:
  assumes m: "mdev_ok al md" "unat off + nb \<le> unat (md_size md)" and nb: "0 < nb" "nb \<le> length src"
  shows "\<exists>r. mem_write al \<lparr>w_src = src, w_off = off, w_nbytes = nb, w_msk1 = m1, w_mskn = mn, w_cacheable = c\<rparr> md
    = (Inr r, md\<lparr>md_buf := masked_write (unat off) src nb m1 mn (md_buf md)\<rparr>)"
proof -
  note a = mdev_ok_access [OF m]
  show ?thesis
  proof (cases "al = 1")
    case True
    then show ?thesis using a nb(2) write_func8_masked [OF nb(1) a(4) nb(2), of m1 mn]
      by (auto simp: mem_write_def memAddress_write_def split: prod.split)
  next
    case False
    then show ?thesis using a nb(2) m(1) nb(1) write_aligned_masked [of al "md_buf md" nb "unat off" src m1 mn]
      by (simp add: mem_write_def memAddress_write_def mdev_ok_def)
  qed
qed

lemma mem_write_stored:
  assumes m: "mdev_ok al md" "unat off + nb \<le> unat (md_size md)" and nb: "0 < nb" "k0 + nb \<le> length src"
  shows "\<exists>r md'. mem_write al \<lparr>w_src = drop k0 src, w_off = off, w_nbytes = nb, w_msk1 = m1, w_mskn = mn, w_cacheable = c\<rparr> md = (Inr r, md')
    \<and> stored src nb m1 mn {(k0 + r, unat off + r, r) | r. r < nb} md md'"
proof -
  note a = mdev_ok_access [OF m]
  let ?b = "masked_write (unat off) (drop k0 src) nb m1 mn (md_buf md)"
  have ld: "nb \<le> length (drop k0 src)" using nb by simp
  have "\<exists>r. mem_write al \<lparr>w_src = drop k0 src, w_off = off, w_nbytes = nb, w_msk1 = m1, w_mskn = mn, w_cacheable = c\<rparr> md
      = (Inr r, md\<lparr>md_buf := ?b\<rparr>)"
    by (rule mem_write_run [OF m nb(1) ld])
  moreover have "stored src nb m1 mn {(k0 + r, unat off + r, r) | r. r < nb} md (md\<lparr>md_buf := ?b\<rparr>)"
    unfolding stored_def
  proof (intro conjI allI impI)
    show "length (md_buf (md\<lparr>md_buf := ?b\<rparr>)) = length (md_buf md)" using length_masked_write [OF a(4)] by simp
  next
    fix k j r
    assume "(k, j, r) \<in> {(k0 + r, unat off + r, r) | r. r < nb}"
    then have "k = k0 + r" "j = unat off + r" "r < nb" by auto
    then show "j < length (md_buf md)" "md_buf (md\<lparr>md_buf := ?b\<rparr>) ! j = merge_bits (byte_mask nb m1 mn r) (md_buf md ! j) (src ! k)"
      using a(4) nb masked_write_nth [OF a(4), of j] by simp_all
  next
    fix j
    assume j: "j < length (md_buf md)" "j \<notin> (\<lambda>(k, j, r). j) ` {(k0 + r, unat off + r, r) | r. r < nb}"
    have "j < unat off \<or> unat off + nb \<le> j"
    proof (rule ccontr)
      assume "\<not> ?thesis"
      then have "j = (\<lambda>(k, j, r). j) (k0 + (j - unat off), unat off + (j - unat off), j - unat off)" "j - unat off < nb" by auto
      then show False using j(2) by blast
    qed
    then show "md_buf (md\<lparr>md_buf := ?b\<rparr>) ! j = md_buf md ! j" using masked_write_nth [OF a(4) j(1)] by auto
  qed simp
  ultimately show ?thesis by blast
qed

section \<open>The nested loops\<close>

text \<open>Where nothing can be merged only whole words are written.\<close>

definition word_aligned :: "iosys \<Rightarrow> nat \<Rightarrow> path_entry list \<Rightarrow> nat \<Rightarrow> u64 \<Rightarrow> bool" where
  "word_aligned sys al es nb off \<longleftrightarrow> al dvd nb \<and> (\<forall>ix. ix_ok es ix \<longrightarrow> al dvd unat (off + elem_off sys es ix))"

definition write_ok :: "iosys \<Rightarrow> nat \<Rightarrow> path_entry list \<Rightarrow> nat \<Rightarrow> u64 \<Rightarrow> bool \<Rightarrow> cacheable \<Rightarrow> bool" where
  "write_ok sys al es nb off masks c \<longleftrightarrow> WB_CACHEABLE \<le> c \<or> \<not> masks \<and> word_aligned sys al es nb off"

lemma word_aligned_step:
  assumes "word_aligned sys al (e # e' # es) nb off" "i < count e"
  shows "word_aligned sys al (e' # es) nb (off + mm_offset sys e + of_nat i * mm_stride sys e)"
  unfolding word_aligned_def
proof (intro conjI allI impI)
  fix q
  assume "ix_ok (e' # es) q"
  then have "ix_ok (e # e' # es) (i # q)" using assms(2) by simp
  then have "al dvd unat (off + elem_off sys (e # e' # es) (i # q))" using assms(1) unfolding word_aligned_def by blast
  then show "al dvd unat (off + mm_offset sys e + of_nat i * mm_stride sys e + elem_off sys (e' # es) q)" by (simp add: add.assoc)
qed (use assms(1) in \<open>simp add: word_aligned_def\<close>)

lemma write_ok_step:
  "write_ok sys al (e # e' # es) nb off b c \<Longrightarrow> i < count e \<Longrightarrow> write_ok sys al (e' # es) nb (off + mm_offset sys e + of_nat i * mm_stride sys e) b c"
  using word_aligned_step unfolding write_ok_def by blast

lemma write_ok_group:
  assumes "write_ok sys al (e # e' # es) nb off b c" "0 < count e"
  shows "write_ok sys al (e' # es) (nb * count e) (off + mm_offset sys e) b c"
  using write_ok_step [OF assms] by (auto simp: write_ok_def word_aligned_def)

lemma checkWriteAlignmentReqs_ok:
  assumes "write_ok sys al [e] nb off (m1 \<noteq> 0 \<or> mn \<noteq> 0) c"
  shows "checkWriteAlignmentReqs al \<lparr>w_src = src, w_off = off, w_nbytes = nb, w_msk1 = m1, w_mskn = mn, w_cacheable = c\<rparr> = Inr ()"
  using assms by (auto simp: checkWriteAlignmentReqs_def write_ok_def word_aligned_def dvd_eq_mod_eq_0)

lemma io_write_mem:
  assumes fl: "consistent it" "flat it = [e]" and io: "io_path sys al [e]" and nb: "0 < nb" and m: "mdev_ok al md" and mg: "write_ok sys al [e] nb off (m1 \<noteq> 0 \<or> mn \<noteq> 0) c"
    and R: "in_range sys [e] nb off (unat (md_size md))" and ft: "fits (assigns sys [e] nR nb k0 off) (length src)"
  shows "\<exists>r md'. io_write sys (Suc n) it \<lparr>w_src = drop k0 src, w_off = off, w_nbytes = nb, w_msk1 = m1, w_mskn = mn, w_cacheable = c\<rparr> md
      = (Inr r, md') \<and> stored src nb m1 mn (assigns sys [e] nR nb k0 off) md md'"
proof -
  have A: "assigns sys [e] nR nb k0 off = {(k0 + r, unat off + r, r) | r. r < nb}" by (auto simp: assigns_def)
  have "(k0 + (nb - 1), unat off + (nb - 1), nb - 1) \<in> assigns sys [e] nR nb k0 off" using nb unfolding A by auto
  then have "k0 + (nb - 1) < length src" using ft unfolding fits_def by blast
  then have d: "k0 + nb \<le> length src" using nb by simp
  have r: "unat off + nb \<le> unat (md_size md)" using R by (simp add: in_range_def)
  let ?w = "\<lparr>w_src = drop k0 src, w_off = off, w_nbytes = nb, w_msk1 = m1, w_mskn = mn, w_cacheable = c\<rparr>"
  obtain q md' where o: "mem_write al ?w md = (Inr q, md')" "stored src nb m1 mn {(k0 + r, unat off + r, r) | r. r < nb} md md'"
    using mem_write_stored [OF m r nb d] by blast
  have "checkWriteAlignmentReqs al ?w = Inr ()" by (rule checkWriteAlignmentReqs_ok [OF mg])
  then have "io_write sys (Suc n) it ?w md = (Inr q, md')"
    using hd_flat [OF fl] io o(1) by (simp add: addr_write_def bnd_def ret_def)
  then show ?thesis using o(2) A by auto
qed

text \<open>The two ways of the access.\<close>

abbreviation wargs :: "u8 list \<Rightarrow> u64 \<Rightarrow> nat \<Rightarrow> u8 \<Rightarrow> u8 \<Rightarrow> cacheable \<Rightarrow> io_write_args" where
  "wargs src off nb m1 mn c \<equiv> \<lparr>w_src = src, w_off = off, w_nbytes = nb, w_msk1 = m1, w_mskn = mn, w_cacheable = c\<rparr>"

abbreviation joined :: "iosys \<Rightarrow> nat \<Rightarrow> u64 \<Rightarrow> u8 \<Rightarrow> u8 \<Rightarrow> path_entry \<Rightarrow> bool" where
  "joined sys nb stride m1 mn e \<equiv> of_nat nb = stride \<and> WB_CACHEABLE \<le> getEntryCacheable sys (pe_addr e) \<and> m1 = 0 \<and> mn = 0"

lemma mmio_write_each:
  assumes "hd (it_cur it) = e" "\<not> joined sys nb stride m1 mn e"
  shows "mmio_write sys wr offset stride it (wargs src off nb m1 mn c)
    = add_rounds (\<lambda>a. case iter_clip (io_hier sys) (io_root sys) None it of Inl x \<Rightarrow> raise x | Inr it' \<Rightarrow> dispatchWrite wr it' a)
        (\<lambda>a _. a\<lparr>w_off := w_off a + stride, w_src := drop (it_nelmsRight it * nb) (w_src a)\<rparr>) (count e)
        (wargs src (off + (offset + of_int (pe_idxf e) * stride)) nb m1 mn c)"
  using assms(2) unfolding mmio_write_def Let_def assms(1) count_def write_args.simps if_not_P [OF assms(2)] by simp

lemma mmio_write_one:
  assumes "hd (it_cur it) = e" "joined sys nb stride m1 mn e"
  shows "mmio_write sys wr offset stride it (wargs src off nb m1 mn c)
    = (case iter_clip (io_hier sys) (io_root sys) (Some (0, 0)) it of Inl x \<Rightarrow> raise x | Inr it' \<Rightarrow> dispatchWrite wr it'
        (wargs src (off + (offset + of_int (pe_idxf e) * stride)) (nb * count e mod 2 ^ 32) m1 mn c))"
proof -
  have b: "bnd m (\<lambda>r. bnd (ret 0) (\<lambda>rs. ret (r + rs))) = m" for m :: "('s, nat) sem"
    by (rule ext) (auto simp: bnd_def ret_def split: prod.splits sum.splits)
  show ?thesis
    using assms(2) unfolding mmio_write_def Let_def assms(1) count_def write_args.simps if_P [OF assms(2)]
    by (simp add: b [simplified] split: sum.split)
qed

text \<open>When no bits are merged accesses are joined, so the elements must be next to each other there.\<close>

definition write_once :: "iosys \<Rightarrow> u8 \<Rightarrow> u8 \<Rightarrow> nat \<Rightarrow> nat \<Rightarrow> path_entry list \<Rightarrow> bool" where
  "write_once sys m1 mn nR nb es \<longleftrightarrow> (m1 = 0 \<and> mn = 0 \<longrightarrow> once sys WB_CACHEABLE nR nb es)"

lemma apart_mono: "apart C \<Longrightarrow> B \<subseteq> C \<Longrightarrow> apart B"
  unfolding apart_def by blast

lemma apart_group:
  assumes e: "(\<lambda>(k, j, r). (k, j)) ` B = (\<lambda>(k, j, r). (k, j)) ` C" and a: "apart B" "one_source C"
  shows "apart C"
  unfolding apart_def
proof (intro allI impI)
  fix k j r k' r'
  assume c: "(k, j, r) \<in> C" "(k', j, r') \<in> C"
  then have "(k, j) \<in> (\<lambda>(k, j, r). (k, j)) ` B" "(k', j) \<in> (\<lambda>(k, j, r). (k, j)) ` B" unfolding e by force+
  then obtain q q' where "(k, j, q) \<in> B" "(k', j, q') \<in> B" by auto
  then have "k = k'" using a(1) unfolding apart_def by blast
  then show "k = k' \<and> r = r'" using c a(2) unfolding one_source_def by blast
qed

theorem io_write_stored:
  assumes "consistent it" "flat it = es" "io_path sys al es" "write_once sys m1 mn (it_nelmsRight it) nb es" "0 < it_nelmsRight it" "0 < nb"
    "mdev_ok al md" "in_range sys es nb off (unat (md_size md))" "fits (assigns sys es (it_nelmsRight it) nb k0 off) (length src)"
    "length es \<le> n" "write_ok sys al es nb off (m1 \<noteq> 0 \<or> mn \<noteq> 0) c" "apart (assigns sys es (it_nelmsRight it) nb k0 off)"
  shows "\<exists>r md'. io_write sys n it (wargs (drop k0 src) off nb m1 mn c) md = (Inr r, md')
    \<and> stored src nb m1 mn (assigns sys es (it_nelmsRight it) nb k0 off) md md'"
  using assms
proof (induction es arbitrary: it nb off k0 md n)
  case (Cons e es)
  obtain m where n: "n = Suc m" using Cons.prems(10) by (cases n) simp_all
  show ?case
  proof (cases es)
    case Nil
    show ?thesis using io_write_mem [of it e sys al nb md off m1 mn c "it_nelmsRight it" k0 src m] Cons.prems unfolding n Nil by blast
  next
    case es: (Cons e' fs)
    note p = Cons.prems [unfolded es] and IH = Cons.IH [unfolded es]
    obtain offset stride where k: "io_kind sys (pe_addr e) = MMIOAddr offset stride" "mm_stride sys e = stride"
        "mm_offset sys e = offset + of_int (pe_idxf e) * stride"
      using mmio_kind [OF p(3)] by blast
    have hd: "hd (it_cur it) = e" using hd_flat p(1,2) by blast
    have io: "io_path sys al (e' # fs)" using p(3) by simp
    have cnt: "0 < count e" using p(3) count_pos by auto
    have len: "length (e' # fs) \<le> m" using p(10) n by simp
    have run: "io_write sys n it (wargs s off nb m1 mn c) = mmio_write sys (io_write sys m) offset stride it (wargs s off nb m1 mn c)" for s
      unfolding n using hd k(1) by simp
    show ?thesis
    proof (cases "joined sys nb stride m1 mn e")
      case False
      obtain it' it'' where it: "iter_clip (io_hier sys) (io_root sys) None it = Inr it'" "iter_next it' = Inr it''" "consistent it''"
          "flat it'' = e' # fs" "\<not> iter_atEnd it''" "it_nelmsRight it'' = it_nelmsRight it * count e"
        using dispatch_iter [OF p(1-3), of None] by auto
      have ro: "write_once sys m1 mn (it_nelmsRight it'') nb (e' # fs)"
        using p(4) False unfolding it(6) write_once_def once.simps k(2) by auto
      have pos: "0 < it_nelmsRight it''" using it(6) p(5) cnt by simp
      let ?f = "\<lambda>i. wargs (drop (k0 + i * (it_nelmsRight it * nb)) src) (off + mm_offset sys e + of_nat i * mm_stride sys e) nb m1 mn c"
      let ?B = "\<lambda>i. assigns sys (e' # fs) (it_nelmsRight it'') nb (k0 + i * (it_nelmsRight it * nb)) (off + mm_offset sys e + of_nat i * mm_stride sys e)"
      let ?body = "\<lambda>a. case iter_clip (io_hier sys) (io_root sys) None it of Inl x \<Rightarrow> raise x | Inr it' \<Rightarrow> dispatchWrite (io_write sys m) it' a"
      have B: "assigns sys (e # e' # fs) (it_nelmsRight it) nb k0 off = (\<Union>i < count e. ?B i)"
        unfolding it(6) by (rule assigns_step)
      have body: "?body a = io_write sys m it'' a" for a
        using it by (simp add: dispatchWrite_def)
      have ap: "apart (\<Union>i < count e. ?B i)" using p(12) unfolding B .
      have "\<exists>r t. add_rounds ?body (\<lambda>a _. a\<lparr>w_off := w_off a + stride, w_src := drop (it_nelmsRight it * nb) (w_src a)\<rparr>) (count e) (?f 0) md = (Inr r, t)
          \<and> stored src nb m1 mn (\<Union>i < count e. ?B i) md t"
      proof (rule wr.add_rounds_eff [where f = ?f and B = ?B and S = "md_size md" and N = "length (md_buf md)"])
        show "apart (\<Union>i < count e. ?B i)" by (rule ap)
      next
        fix i :: nat and s :: memdev
        assume i: "i < count e" and s: "md_size s = md_size md \<and> length (md_buf s) = length (md_buf md)"
        have "mdev_ok al s" "in_range sys (e' # fs) nb (off + mm_offset sys e + of_nat i * mm_stride sys e) (unat (md_size s))"
          using s p(7) in_range_step [OF p(8) i] by (simp_all add: mdev_ok_def)
        from IH [OF it(3,4) io ro pos p(6) this fits_UN [OF p(9) [unfolded B] i] len write_ok_step [OF p(11) i]] apart_mono [OF ap UN_upper, of i] i
        show "\<exists>r t. ?body (?f i) s = (Inr r, t) \<and> stored src nb m1 mn (?B i) s t" unfolding body by simp
      qed (simp_all add: k(2) algebra_simps)
      then show ?thesis unfolding run es B mmio_write_each [OF hd False] by (simp add: k(3))
    next
      case True
      then have ro: "it_nelmsRight it = 1" "write_once sys m1 mn 1 (nb * count e) (e' # fs)" "m1 = 0" "mn = 0"
        using p(4) k by (simp_all add: write_once_def)
      obtain it' it'' where it: "iter_clip (io_hier sys) (io_root sys) (Some (0, 0)) it = Inr it'" "iter_next it' = Inr it''" "consistent it''"
          "flat it'' = e' # fs" "\<not> iter_atEnd it''" "it_nelmsRight it'' = 1"
        using dispatch_iter [OF p(1-3), of "Some (0, 0)"] ro(1) by auto
      have st: "mm_stride sys e = of_nat nb" using True k by simp
      have L: "unat (md_size md) < 2 ^ 64" "unat (md_size md) < 2 ^ 32" using p(7) by (simp_all add: mdev_ok_def)
      have R: "in_range sys (e' # fs) (nb * count e) (off + mm_offset sys e) (unat (md_size md))"
        by (rule in_range_group [OF st p(8) L(1) p(6) cnt])
      note g = assigns_group [OF st p(8) L(1) p(6), of k0]
      have ft: "fits (assigns sys (e' # fs) 1 (nb * count e) k0 (off + mm_offset sys e)) (length src)"
        using p(9) unfolding ro(1) fits_image g .
      have ap: "apart (assigns sys (e' # fs) 1 (nb * count e) k0 (off + mm_offset sys e))"
        by (rule apart_group [OF g p(12) [unfolded ro(1)] one_source_assigns]) simp
      have "\<exists>r t. io_write sys m it'' (wargs (drop k0 src) (off + mm_offset sys e) (nb * count e) m1 mn c) md = (Inr r, t)
          \<and> stored src (nb * count e) m1 mn (assigns sys (e' # fs) (it_nelmsRight it'') (nb * count e) k0 (off + mm_offset sys e)) md t"
        by (rule IH [OF it(3,4) io _ _ _ p(7) R _ len write_ok_group [OF p(11) cnt]]) (use ro ft ap it(6) p(6) cnt in simp_all)
      then obtain r t where o: "io_write sys m it'' (wargs (drop k0 src) (off + mm_offset sys e) (nb * count e) m1 mn c) md = (Inr r, t)"
          "stored src nb 0 0 (assigns sys (e # e' # fs) 1 nb k0 off) md t"
        unfolding it(6) ro(3,4) stored_cong [OF g [symmetric], of src "nb * count e" _ _ nb] by blast
      have sz: "nb * count e mod 2 ^ 32 = nb * count e" by (rule group_size [OF io R L(2)])
      have "io_write sys n it (wargs (drop k0 src) off nb m1 mn c) md = (Inr r, t)"
        unfolding run mmio_write_one [OF hd True] using o(1) it sz k(3) by (simp add: dispatchWrite_def)
      then show ?thesis using o(2) unfolding es ro by blast
    qed
  qed
qed simp

end
