(* ===== verification/MmioVal.thy ===== *)
theory MmioVal
  imports MmioWrite
begin

text \<open>
  Values along a path: reading gives the numbers of the registers which the path selects, writing stores numbers in these registers
  and nowhere else, and what was written is what is read.
\<close>

section \<open>Paths with a range\<close>

lemma clip_cases:
  assumes "iter_clip h root rng (iter_create p) = Inr it"
  shows "it = iter_create p \<or> (\<exists>e. it_cur it = [e] \<and> it_stack it = (if tl (rev (p_entries p)) = [] then [] else [tl (rev (p_entries p))]))"
  using assms
  by (auto simp: iter_clip_def iter_create_def iter_next_def iter_append_def append_addr_def verifyAtTail_def Let_def path_empty_def iter_atEnd_def
           split: option.splits prod.splits if_splits sum.splits)

lemma clip_range:
  assumes "iter_clip h root rng it = Inr it'" "hd (it_cur it) = e" "entry_ok h e"
  shows "pe_idxf e \<le> fst (sliced rng e)" "fst (sliced rng e) \<le> snd (sliced rng e)" "snd (sliced rng e) \<le> pe_idxt e"
  using assms by (auto simp: iter_clip_def sliced_def Let_def entry_ok_def split: option.splits prod.splits if_splits)

lemma chain_left: "chain h d n es \<Longrightarrow> es \<noteq> [] \<Longrightarrow> pe_nelmsLeft (last es) = n * prod_list (map count es)"
proof (induction es arbitrary: d n)
  case (Cons e es)
  then show ?case by (cases "es = []") (auto simp: algebra_simps)
qed simp

lemma chain_tail:
  assumes "chain h d n es" "rev es = e # xs"
  shows "entry_ok h e" "xs \<noteq> [] \<Longrightarrow> pe_nelmsLeft (hd xs) = n * prod_list (map count xs)"
    "pe_nelmsLeft e = n * prod_list (map count (e # xs))"
proof -
  have es: "es = rev xs @ [e]" using assms(2) by (metis rev.simps(2) rev_rev_ident)
  have pr: "prod_list (map count (rev ys)) = prod_list (map count ys)" for ys :: "path_entry list"
    by (simp add: rev_map [symmetric] prod_list.rev)
  show "pe_nelmsLeft e = n * prod_list (map count (e # xs))"
    using chain_left [OF assms(1)] by (simp add: es pr)
  show "entry_ok h e" using assms(1) by (simp add: es chain_append)
  have "chain h d n (rev xs)" using assms(1) by (simp add: es chain_append)
  then show "pe_nelmsLeft (hd xs) = n * prod_list (map count xs)" if "xs \<noteq> []"
    using chain_left [of h d n "rev xs"] that by (simp add: pr last_rev)
qed

text \<open>An iterator over a path, restricted to a range, selects these elements.\<close>

definition path_sel :: "iosys \<Rightarrow> nat \<Rightarrow> path \<Rightarrow> (int \<times> int) option \<Rightarrow> path_iter \<Rightarrow> bool" where
  "path_sel sys al p rng it \<longleftrightarrow> path_ok (io_hier sys) p \<and> io_path sys al (rev (p_entries p))
     \<and> iter_clip (io_hier sys) (io_root sys) rng (iter_create p) = Inr it"

lemma io_path_hd_cong:
  assumes "io_path sys al (e # es)" "pe_addr e' = pe_addr e" "pe_idxf e \<le> pe_idxf e'" "pe_idxf e' \<le> pe_idxt e'" "pe_idxt e' \<le> pe_idxt e"
    "0 < pe_nelmsLeft e'"
  shows "io_path sys al (e' # es)"
  using assms by (cases es) (auto simp: entry_ok_def)

lemma io_path_link:
  assumes "io_path sys al (e # es)"
  shows "es = [] \<or> h_owner (io_hier sys) (pe_addr e) = h_entry (io_hier sys) (pe_addr (hd es))" "es = [] \<or> 0 < pe_nelmsLeft (hd es)"
proof -
  have "h_owner (io_hier sys) (pe_addr e) = h_entry (io_hier sys) (pe_addr e') \<and> 0 < pe_nelmsLeft e'" if "es = e' # fs" for e' fs
    using assms io_path_pos [of sys al e' fs] unfolding that by simp
  then show "es = [] \<or> h_owner (io_hier sys) (pe_addr e) = h_entry (io_hier sys) (pe_addr (hd es))" "es = [] \<or> 0 < pe_nelmsLeft (hd es)"
    by (cases es; simp)+
qed

lemma path_sel_flat:
  assumes "path_sel sys al p rng it"
  shows "consistent it" "io_path sys al (flat it)" "it_nelmsRight it = 1" "iter_getNelmsLeft it = prod_list (map count (flat it))"
proof -
  let ?h = "io_hier sys"
  have a: "path_ok ?h p" "io_path sys al (rev (p_entries p))" "iter_clip ?h (io_root sys) rng (iter_create p) = Inr it"
    using assms by (simp_all add: path_sel_def)
  obtain e es where es: "rev (p_entries p) = e # es" using a(2) by (cases "rev (p_entries p)") auto
  note ch = chain_tail [OF a(1) [unfolded path_ok_def] es]
  have cr: "consistent (iter_create p)" "flat (iter_create p) = e # es" "hd (it_cur (iter_create p)) = e"
    using iter_create_flat [of p] es by (simp_all add: iter_create_def)
  note r = clip_range [OF a(3) cr(3) ch(1)]
  note lk = io_path_link [OF a(2) [unfolded es]]
  obtain e' where e': "consistent it" "flat it = e' # es" "pe_addr e' = pe_addr e" "(pe_idxf e', pe_idxt e') = sliced rng e"
      "it_nelmsRight it = (if sliced rng e = (pe_idxf e, pe_idxt e) then 1 else 1)"
      "iter_getNelmsLeft it = (if sliced rng e = (pe_idxf e, pe_idxt e) then iter_getNelmsLeft (iter_create p)
         else (if es = [] then 1 else prod_list (map (\<lambda>c. pe_nelmsLeft (hd c)) (it_stack it))) * count e')"
    using iter_clip_flat [OF cr(1,2) ch(1) lk r, of "io_root sys"] a(3) by (auto simp: iter_create_def)
  have cnt: "count e' = count e" if "sliced rng e = (pe_idxf e, pe_idxt e)" using e'(4) that by (simp add: count_def)
  show nl: "iter_getNelmsLeft it = prod_list (map count (flat it))"
  proof (cases "sliced rng e = (pe_idxf e, pe_idxt e)")
    case True
    then show ?thesis using e'(2,6) cnt ch(3) es by (simp add: iter_getNelmsLeft_def iter_create_def iter_atEnd_def)
  next
    case False
    have "it_stack it = (if es = [] then [] else [es])"
    proof -
      have "it \<noteq> iter_create p"
      proof
        assume "it = iter_create p"
        then have "e' = e" using cr(2) e'(2) by simp
        then show False using False e'(4) by simp
      qed
      then show ?thesis using clip_cases [OF a(3)] by (auto simp: es)
    qed
    then show ?thesis using e'(2,6) False ch(2) by (auto simp: mult.commute)
  qed
  show "consistent it" by (rule e'(1))
  show "it_nelmsRight it = 1" using e'(5) by simp
  have "0 < prod_list (map count (flat it))"
  proof -
    have "0 < count e'" using r e'(4) by (simp add: count_def prod_eq_iff)
    moreover have "0 < prod_list (map count es)" using lk(2) ch(2) by (cases "es = []") auto
    ultimately show ?thesis using e'(2) by simp
  qed
  then have "0 < iter_getNelmsLeft it" unfolding nl .
  then have "0 < pe_nelmsLeft e'" using hd_flat [OF e'(1,2)] consistent_atEnd [OF e'(1)] e'(2) by (simp add: iter_getNelmsLeft_def)
  then show "io_path sys al (flat it)" unfolding e'(2)
    by (intro io_path_hd_cong [OF a(2) [unfolded es] e'(3)]) (use r e'(4) in \<open>auto simp: prod_eq_iff\<close>)
qed

lemma elem_pos_less: "io_path sys al es \<Longrightarrow> ix_ok es ix \<Longrightarrow> elem_pos es ix < prod_list (map count es)"
proof (induction es arbitrary: ix rule: induct_list012)
  case (2 e)
  then show ?case by (simp add: count_def)
next
  case (3 e e' es)
  obtain i q where i: "ix = i # q" "i < count e" "ix_ok (e' # es) q" using 3(4) by (auto split: list.splits)
  have "elem_pos (e' # es) q < prod_list (map count (e' # es))" using 3(2) [OF _ i(3)] 3(3) by simp
  then have "count e * Suc (elem_pos (e' # es) q) \<le> count e * prod_list (map count (e' # es))"
    by (intro mult_le_mono2) simp
  then have "i + count e * elem_pos (e' # es) q < count e * prod_list (map count (e' # es))"
    using i(2) by (simp only: mult_Suc_right)
  then show ?case by (simp add: i(1))
qed simp

lemma fits_assigns:
  assumes "io_path sys al es" "dst + prod_list (map count es) * nb \<le> n"
  shows "fits (assigns sys es 1 nb dst off) n"
  unfolding fits_def
proof (intro allI impI)
  fix k j r
  assume "(k, j, r) \<in> assigns sys es 1 nb dst off"
  then obtain ix where k: "k = dst + elem_pos es ix * nb + r" "ix_ok es ix" "r < nb" by (auto simp: assigns_def)
  have "Suc (elem_pos es ix) * nb \<le> prod_list (map count es) * nb"
    using elem_pos_less [OF assms(1) k(2)] by (intro mult_le_mono1) simp
  then show "k < n" using k assms(2) by simp
qed

section \<open>Reading numbers\<close>

text \<open>The register of element \<open>ix\<close>, and its number in the array of the caller, \<open>d\<close> bytes each.\<close>

definition reg_mem :: "iosys \<Rightarrow> intfield \<Rightarrow> path_iter \<Rightarrow> memdev \<Rightarrow> nat list \<Rightarrow> u8 list" where
  "reg_mem sys f it md ix = get_at (unat (elem_off sys (flat it) ix)) (sbytes f) (md_buf md)"

definition num_mem :: "path_iter \<Rightarrow> nat \<Rightarrow> u8 list \<Rightarrow> nat list \<Rightarrow> u8 list" where
  "num_mem it d buf ix = get_at (elem_pos (flat it) ix * d) d buf"

definition n_elems :: "path_iter \<Rightarrow> nat" where
  "n_elems it = prod_list (map count (flat it))"

lemma int_ok_sbytes: "int_ok f \<Longrightarrow> 0 < sbytes f"
  by (auto simp: int_ok_def)

lemma getVal_run:
  assumes ok: "int_ok f" and t: "target \<in> {LE, BE, NATIVE}" and sel: "path_sel sys al p rng it" and m: "mdev_ok al md"
    and on: "once sys WT_CACHEABLE 1 (sbytes f) (flat it)" and R: "in_range sys (flat it) (sbytes f) 0 (unat (md_size md))"
    and n: "n_elems it \<le> nelms" and out: "n_elems it * d + n_elems it * sbytes f \<le> length out"
  shows "\<exists>out'. getVal sys md LE target f nelms d it out = (Inr (n_elems it), out')
    \<and> (\<forall>ix k. ix_ok (flat it) ix \<longrightarrow> k < 8 * d \<longrightarrow> lbit (num_mem it d out' ix) k = reg_bit f (eff_target target) (reg_mem sys f it md ix) k)"
proof -
  note sf = path_sel_flat [OF sel]
  let ?n = "n_elems it"
  define c where "c = getctx_create LE f 0 (d * ?n) ?n d target"
  have c: "c_obufp c = 0" "c_ibufp c = (if d < sbytes f then d * ?n else 0)" "c_dbytes c = d"
    by (simp_all add: c_def getctx_create_def)
  have le: "c_ibufp c + ?n * sbytes f \<le> length out" using out c(2) by (auto simp: algebra_simps)
  have lay: "layout_ok f c ?n o'" if "length o' = length out" for o'
    using out that c le by (auto simp: layout_ok_def algebra_simps)
  have cn: "checkNelms nelms (iter_getNelmsLeft it) = Inr ?n" using n sf(4) by (simp add: checkNelms_def n_elems_def)
  have ft: "fits (assigns sys (flat it) (it_nelmsRight it) (sbytes f) (c_ibufp c) 0) (length out)"
    unfolding sf(3) by (rule fits_assigns [OF sf(2)]) (use le in \<open>simp add: n_elems_def\<close>)
  have on': "once sys WT_CACHEABLE (it_nelmsRight it) (sbytes f) (flat it)" "0 < it_nelmsRight it" using on sf(3) by simp_all
  obtain r o1 where rd: "io_read sys md (iter_depth it) it \<lparr>ra_dst = c_ibufp c, ra_nbytes = sbytes f, ra_off = 0\<rparr> out = (Inr r, o1)"
      "copied (md_buf md) (assigns sys (flat it) (it_nelmsRight it) (sbytes f) (c_ibufp c) 0) out o1"
    using io_read_copied [OF sf(1) refl sf(2) on' int_ok_sbytes [OF ok] m R ft order_refl]
    unfolding iter_depth_flat [symmetric] by blast
  have l1: "length o1 = length out" using rd(2) by (simp add: copied_def)
  have reg: "reg_at f c (elem_pos (flat it) ix) o1 = reg_mem sys f it md ix" if ix: "ix_ok (flat it) ix" for ix
  proof (rule nth_equalityI)
    have "elem_pos (flat it) ix < ?n" unfolding n_elems_def by (rule elem_pos_less [OF sf(2) ix])
    then have "Suc (elem_pos (flat it) ix) * sbytes f \<le> ?n * sbytes f" by (intro mult_le_mono1) simp
    then have p: "c_ibufp c + elem_pos (flat it) ix * sbytes f + sbytes f \<le> length o1" using le l1 by simp
    have q: "unat (elem_off sys (flat it) ix) + sbytes f \<le> length (md_buf md)"
    proof -
      have "unat (0 + elem_off sys (flat it) ix) + sbytes f \<le> unat (md_size md)" using R ix unfolding in_range_def by blast
      then show ?thesis using m by (simp add: mdev_ok_def)
    qed
    show "length (reg_at f c (elem_pos (flat it) ix) o1) = length (reg_mem sys f it md ix)"
      using p q by (simp add: reg_at_def reg_mem_def get_at_def)
    fix r
    assume "r < length (reg_at f c (elem_pos (flat it) ix) o1)"
    then have r: "r < sbytes f" by (simp add: reg_at_def get_at_def)
    then have "(c_ibufp c + elem_pos (flat it) ix * sbytes f + r, unat (elem_off sys (flat it) ix) + r, r)
        \<in> assigns sys (flat it) (it_nelmsRight it) (sbytes f) (c_ibufp c) 0"
      using ix by (auto simp: assigns_def sf(3))
    then have "o1 ! (c_ibufp c + elem_pos (flat it) ix * sbytes f + r) = md_buf md ! (unat (elem_off sys (flat it) ix) + r)"
      using rd(2) unfolding copied_def by blast
    then show "reg_at f c (elem_pos (flat it) ix) o1 ! r = reg_mem sys f it md ix ! r"
      using p q r by (simp add: reg_at_def reg_mem_def nth_get_at)
  qed
  have "getVal sys md LE target f nelms d it out = (Inr ?n, doComplete LE f c o1)"
    using cn rd(1) by (simp add: getVal_def Let_def c_def [symmetric] bnd_def upd_def ret_def)
  moreover have "lbit (num_mem it d (doComplete LE f c o1) ix) k = reg_bit f (eff_target target) (reg_mem sys f it md ix) k"
    if "ix_ok (flat it) ix" "k < 8 * d" for ix k
  proof -
    have "elem_pos (flat it) ix < ?n" unfolding n_elems_def by (rule elem_pos_less [OF sf(2) that(1)])
    from doComplete_bits [OF ok t c_def lay [OF l1] this that(2)] reg [OF that(1)] c
    show ?thesis by (simp add: num_at_def num_mem_def eff_target_def)
  qed
  ultimately show ?thesis by blast
qed

section \<open>Writing numbers\<close>

text \<open>Bits of registers in memory.\<close>

definition sel_apart :: "iosys \<Rightarrow> intfield \<Rightarrow> path_iter \<Rightarrow> bool" where
  "sel_apart sys f it \<longleftrightarrow> (\<forall>ix iy. ix_ok (flat it) ix \<longrightarrow> ix_ok (flat it) iy \<longrightarrow> ix \<noteq> iy \<longrightarrow>
     unat (elem_off sys (flat it) ix) + sbytes f \<le> unat (elem_off sys (flat it) iy)
     \<or> unat (elem_off sys (flat it) iy) + sbytes f \<le> unat (elem_off sys (flat it) ix))"

lemma sel_apart_assigns:
  assumes "sel_apart sys f it"
  shows "apart (assigns sys (flat it) nR (sbytes f) k0 0)"
  unfolding apart_def
proof (intro allI impI)
  fix k j r k' r'
  assume a: "(k, j, r) \<in> assigns sys (flat it) nR (sbytes f) k0 0" "(k', j, r') \<in> assigns sys (flat it) nR (sbytes f) k0 0"
  obtain ix where x: "ix_ok (flat it) ix" "r < sbytes f" "j = unat (elem_off sys (flat it) ix) + r" "k = k0 + elem_pos (flat it) ix * (nR * sbytes f) + r"
    using a(1) by (auto simp: assigns_def)
  obtain iy where y: "ix_ok (flat it) iy" "r' < sbytes f" "j = unat (elem_off sys (flat it) iy) + r'" "k' = k0 + elem_pos (flat it) iy * (nR * sbytes f) + r'"
    using a(2) by (auto simp: assigns_def)
  have "ix = iy"
  proof (rule ccontr)
    assume "ix \<noteq> iy"
    then have "unat (elem_off sys (flat it) ix) + sbytes f \<le> unat (elem_off sys (flat it) iy)
        \<or> unat (elem_off sys (flat it) iy) + sbytes f \<le> unat (elem_off sys (flat it) ix)"
      using assms x(1) y(1) unfolding sel_apart_def by blast
    then show False using x(2,3) y(2,3) by linarith
  qed
  then show "k = k' \<and> r = r'" using x y by simp
qed

lemma masked_byte:
  "j < 8 * n \<Longrightarrow> bit (byte_mask n msk1 mskn (j div 8)) (j mod 8) \<longleftrightarrow> masked n msk1 mskn j"
  by (auto simp: byte_mask_def masked_def bit_simps)

definition reg_bits :: "intfield \<Rightarrow> byteorder \<Rightarrow> nat set" where
  "reg_bits f target = {regpos f (eff_target target) k | k. k < sizeBits f}"

definition write_masks :: "intfield \<Rightarrow> byteorder \<Rightarrow> nat \<Rightarrow> bool" where
  "write_masks f target elsz \<longleftrightarrow> (let a = setVal_args LE f target elsz 0 [] [] in w_msk1 a \<noteq> 0 \<or> w_mskn a \<noteq> 0)"

lemma setVal_masks:
  "w_msk1 (setVal_args h f t e n buf scr) = w_msk1 (setVal_args h f t e 0 [] [])"
  "w_mskn (setVal_args h f t e n buf scr) = w_mskn (setVal_args h f t e 0 [] [])"
  by (simp_all add: setVal_args_def Let_def)

definition field_cacheable :: "iosys \<Rightarrow> intfield \<Rightarrow> path_iter \<Rightarrow> cacheable" where
  "field_cacheable sys f it = (if f_mode f = WO then NOT_CACHEABLE else getEntryCacheable sys (pe_addr (hd (it_cur it))))"

lemma setVal_run:
  assumes ok: "int_ok f" and mo: "f_mode f \<noteq> RO" and t: "target \<in> {LE, BE, NATIVE}" and sel: "path_sel sys al p rng it" and m: "mdev_ok al md"
    and s: "0 < elsz" and le: "length buf = n_elems it * elsz" "length scr = n_elems it * sbytes f"
    and ca: "write_ok sys al (flat it) (sbytes f) 0 (write_masks f target elsz) (field_cacheable sys f it)"
    and on: "\<not> write_masks f target elsz \<Longrightarrow> once sys WB_CACHEABLE 1 (sbytes f) (flat it)"
    and R: "in_range sys (flat it) (sbytes f) 0 (unat (md_size md))" and ap: "sel_apart sys f it" and n: "n_elems it \<le> nelms"
  shows "\<exists>md'. setVal_io sys LE target f buf nelms elsz scr p rng md = (Inr (n_elems it), md')
    \<and> mdev_ok al md' \<and> md_size md' = md_size md \<and> length (md_buf md') = length (md_buf md)
    \<and> (\<forall>ix j. ix_ok (flat it) ix \<longrightarrow> j < 8 * sbytes f \<longrightarrow> j \<notin> reg_bits f target \<longrightarrow>
         lbit (reg_mem sys f it md' ix) j = lbit (reg_mem sys f it md ix) j)
    \<and> (\<forall>ix k. ix_ok (flat it) ix \<longrightarrow> k < sizeBits f \<longrightarrow>
         lbit (reg_mem sys f it md' ix) (regpos f (eff_target target) k) = num_bit f elsz (num_mem it elsz buf ix) k)
    \<and> (\<forall>j < length (md_buf md). (\<forall>ix. ix_ok (flat it) ix \<longrightarrow> j < unat (elem_off sys (flat it) ix) \<or> unat (elem_off sys (flat it) ix) + sbytes f \<le> j)
         \<longrightarrow> md_buf md' ! j = md_buf md ! j)"
proof -
  note sf = path_sel_flat [OF sel]
  let ?n = "n_elems it"
  define a where "a = setVal_args LE f target elsz ?n buf scr"
  note sp = setVal_args_spec [OF ok mo t s le a_def]
  let ?A = "assigns sys (flat it) (it_nelmsRight it) (sbytes f) 0 0"
  let ?src = "w_src a"
  let ?eo = "\<lambda>ix. unat (elem_off sys (flat it) ix)"
  have cn: "checkNelms nelms (iter_getNelmsLeft it) = Inr ?n" using n sf(4) by (simp add: checkNelms_def n_elems_def)
  have ft: "fits ?A (length ?src)"
    unfolding sf(3) by (rule fits_assigns [OF sf(2)]) (simp add: sp(1) n_elems_def)
  have msk: "w_msk1 a \<noteq> 0 \<or> w_mskn a \<noteq> 0 \<longleftrightarrow> write_masks f target elsz"
    unfolding write_masks_def Let_def a_def setVal_masks [of LE f target elsz ?n buf scr] ..
  note mg = ca [folded msk]
  have on': "write_once sys (w_msk1 a) (w_mskn a) (it_nelmsRight it) (sbytes f) (flat it)" "0 < it_nelmsRight it"
    using on msk sf(3) by (auto simp: write_once_def)
  obtain r md' where wr: "io_write sys (iter_depth it) it (wargs (drop 0 ?src) 0 (sbytes f) (w_msk1 a) (w_mskn a) (field_cacheable sys f it)) md = (Inr r, md')"
      "stored ?src (sbytes f) (w_msk1 a) (w_mskn a) ?A md md'"
    using io_write_stored [OF sf(1) refl sf(2) on' int_ok_sbytes [OF ok] m R ft order_refl mg sel_apart_assigns [OF ap]]
    unfolding iter_depth_flat [symmetric] by blast
  have clip: "iter_clip (io_hier sys) (io_root sys) rng (iter_create p) = Inr it" using sel by (simp add: path_sel_def)
  have ext: "write_args.extend a \<lparr>w_cacheable = field_cacheable sys f it\<rparr>
      = wargs (drop 0 ?src) 0 (sbytes f) (w_msk1 a) (w_mskn a) (field_cacheable sys f it)"
    using sp(2,3) by (simp add: write_args.defs)
  have run: "setVal_io sys LE target f buf nelms elsz scr p rng md = (Inr ?n, md')"
    using clip cn wr(1) unfolding setVal_io_def field_cacheable_def [symmetric] a_def [symmetric] Let_def
    by (simp add: a_def [symmetric] ext bnd_def ret_def)
  have len: "length (md_buf md') = length (md_buf md)" "md_size md' = md_size md" using wr(2) by (simp_all add: stored_def)
  have byte: "?eo ix + r < length (md_buf md) \<and> md_buf md' ! (?eo ix + r)
      = merge_bits (byte_mask (sbytes f) (w_msk1 a) (w_mskn a) r) (md_buf md ! (?eo ix + r)) (?src ! (elem_pos (flat it) ix * sbytes f + r))"
    if "ix_ok (flat it) ix" "r < sbytes f" for ix r
  proof -
    have "(elem_pos (flat it) ix * sbytes f + r, ?eo ix + r, r) \<in> ?A" using that by (auto simp: assigns_def sf(3))
    then show ?thesis using wr(2) unfolding stored_def by blast
  qed
  have bits: "lbit (reg_mem sys f it md' ix) j = (if masked (sbytes f) (w_msk1 a) (w_mskn a) j then lbit (reg_mem sys f it md ix) j
      else lbit (get_at (elem_pos (flat it) ix * sbytes f) (sbytes f) ?src) j)" if ix: "ix_ok (flat it) ix" and j: "j < 8 * sbytes f" for ix j
  proof -
    have r: "j div 8 < sbytes f" using j by simp
    have "?eo ix + (sbytes f - 1) < length (md_buf md)" using byte [OF ix, of "sbytes f - 1"] int_ok_sbytes [OF ok] by simp
    then have q: "?eo ix + sbytes f \<le> length (md_buf md)" using int_ok_sbytes [OF ok] by simp
    have "elem_pos (flat it) ix < ?n" unfolding n_elems_def by (rule elem_pos_less [OF sf(2) ix])
    then have "Suc (elem_pos (flat it) ix) * sbytes f \<le> ?n * sbytes f" by (intro mult_le_mono1) simp
    then have p: "elem_pos (flat it) ix * sbytes f + sbytes f \<le> length ?src" using sp(1) by simp
    show ?thesis
      using byte [OF ix r] p q r len masked_byte [OF j, of "w_msk1 a" "w_mskn a"]
      by (simp add: lbit_def reg_mem_def nth_get_at merge_bits_bit)
  qed
  have keep: "lbit (reg_mem sys f it md' ix) j = lbit (reg_mem sys f it md ix) j"
    if "ix_ok (flat it) ix" "j < 8 * sbytes f" "j \<notin> reg_bits f target" for ix j
    using bits [OF that(1,2)] sp(5) [OF that(2)] that(3) unfolding reg_bits_def by auto
  have put: "lbit (reg_mem sys f it md' ix) (regpos f (eff_target target) k) = num_bit f elsz (num_mem it elsz buf ix) k"
    if "ix_ok (flat it) ix" "k < sizeBits f" for ix k
  proof -
    have j: "regpos f (eff_target target) k < 8 * sbytes f" by (rule regpos_less [OF ok that(2)])
    have "\<not> masked (sbytes f) (w_msk1 a) (w_mskn a) (regpos f (eff_target target) k)" using sp(5) [OF j] that(2) by blast
    moreover have "elem_pos (flat it) ix < ?n" unfolding n_elems_def by (rule elem_pos_less [OF sf(2) that(1)])
    ultimately show ?thesis using bits [OF that(1) j] sp(4) [OF _ that(2)] by (simp add: num_mem_def)
  qed
  have rest: "md_buf md' ! j = md_buf md ! j"
    if "j < length (md_buf md)" "\<forall>ix. ix_ok (flat it) ix \<longrightarrow> j < ?eo ix \<or> ?eo ix + sbytes f \<le> j" for j
  proof -
    have "j \<notin> (\<lambda>(k, j, r). j) ` ?A" using that(2) by (force simp: assigns_def)
    then show ?thesis using wr(2) that(1) by (simp add: stored_def)
  qed
  have "mdev_ok al md'" using m len by (simp add: mdev_ok_def)
  then show ?thesis using run len keep put rest by blast
qed

end
