(* ===== verification/RegAccess.thy ===== *)
theory RegAccess
  imports MmioVal
begin

text \<open>
  The registers behind a path: what \<open>getVal\<close> reads, what \<open>setVal\<close> changes, and that the one reads what the other wrote. The hypotheses
  say that the field is one which the builder makes, that the path leads from the memory device to the field, that the elements lie
  within the device and apart from each other, and that an access is not joined where the elements are not next to each other.
\<close>

section \<open>An example\<close>

text \<open>A memory device of 64 bytes with two devices, 16 bytes apart, of three registers each; the path selects the last two of both.\<close>

definition ex_dev :: hier where
  "ex_dev = \<lparr>h_name = (\<lambda>e. if e = 1 then ''mmio'' else if e = 2 then ''sub'' else if e = 3 then ''reg'' else ''ROOT''),
     h_children = (\<lambda>e. if e = 0 then Some [(''mmio'', 0)] else if e = 1 then Some [(''sub'', 1)]
        else if e = 2 then Some [(''reg'', 2)] else None),
     h_owner = (\<lambda>a. a), h_entry = (\<lambda>a. a + 1), h_nelms = (\<lambda>a. if a = 0 then 1 else if a = 1 then 2 else 3)\<rparr>"

definition ex_sys :: iosys where
  "ex_sys = \<lparr>io_hier = ex_dev, io_kind = (\<lambda>a. if a = 0 then MemAddr 4 else if a = 1 then MMIOAddr 8 16 else MMIOAddr 2 2),
     io_cacheable = (\<lambda>_. WB_CACHEABLE), io_size = (\<lambda>_. 2), io_root = 0\<rparr>"

definition ex_reg_path :: path where
  "ex_reg_path = \<lparr>p_origin = 0, p_entries = [\<lparr>pe_addr = 0, pe_idxf = 0, pe_idxt = 0, pe_nelmsLeft = 1\<rparr>,
     \<lparr>pe_addr = 1, pe_idxf = 0, pe_idxt = 1, pe_nelmsLeft = 2\<rparr>, \<lparr>pe_addr = 2, pe_idxf = 0, pe_idxt = 2, pe_nelmsLeft = 6\<rparr>]\<rparr>"

definition ex_it :: path_iter where
  "ex_it = \<lparr>it_cur = [\<lparr>pe_addr = 2, pe_idxf = 1, pe_idxt = 2, pe_nelmsLeft = 2\<rparr>],
     it_stack = [[\<lparr>pe_addr = 1, pe_idxf = 0, pe_idxt = 1, pe_nelmsLeft = 2\<rparr>, \<lparr>pe_addr = 0, pe_idxf = 0, pe_idxt = 0, pe_nelmsLeft = 1\<rparr>]],
     it_nelmsRight = 1, it_nelmsLeft = 2\<rparr>"

definition ex_mem :: memdev where
  "ex_mem = \<lparr>md_buf = replicate 64 0x5a, md_size = 64\<rparr>"

lemma ex_path_sel: "path_sel ex_sys 4 ex_reg_path (Some (1, 2)) ex_it"
  by (simp add: path_sel_def path_ok_def ex_sys_def ex_dev_def ex_reg_path_def ex_it_def child_of_def getAddress_def entry_ok_def count_def
      iter_clip_def iter_create_def iter_next_def append_addr_def verifyAtTail_def path_empty_def path_getNelms_def pathEntry_create_def
      iter_append_def iter_validConcatenation_def iter_atEnd_def)

lemma ex_flat: "flat ex_it = [\<lparr>pe_addr = 2, pe_idxf = 1, pe_idxt = 2, pe_nelmsLeft = 2\<rparr>,
    \<lparr>pe_addr = 1, pe_idxf = 0, pe_idxt = 1, pe_nelmsLeft = 2\<rparr>, \<lparr>pe_addr = 0, pe_idxf = 0, pe_idxt = 0, pe_nelmsLeft = 1\<rparr>]"
  by (simp add: flat_def ex_it_def)

lemma ex_n: "n_elems ex_it = 4"
  by (simp add: n_elems_def ex_flat count_def)

lemma ex_ix: "ix_ok (flat ex_it) ix \<Longrightarrow> ix \<in> {[0, 0], [1, 0], [0, 1], [1, 1]}"
  by (auto simp: ex_flat count_def numeral_2_eq_2 less_Suc_eq split: list.splits)

lemma ex_off: "elem_off ex_sys (flat ex_it) [i, j] = 12 + of_nat i * 2 + of_nat j * 16"
  by (simp add: ex_flat ex_sys_def mm_offset_def mm_stride_def)

lemma ex_in_range: "in_range ex_sys (flat ex_it) (sbytes ex_field) 0 (unat (md_size ex_mem))"
proof -
  have "unat (0 + elem_off ex_sys (flat ex_it) ix) + 2 \<le> 64" if "ix_ok (flat ex_it) ix" for ix
    using ex_ix [OF that] by (elim insertE emptyE) (simp_all add: ex_off)
  then show ?thesis by (simp add: in_range_def ex_field_def ex_mem_def)
qed

lemma ex_apart: "sel_apart ex_sys ex_field ex_it"
proof -
  have "unat (elem_off ex_sys (flat ex_it) ix) + 2 \<le> unat (elem_off ex_sys (flat ex_it) iy)
     \<or> unat (elem_off ex_sys (flat ex_it) iy) + 2 \<le> unat (elem_off ex_sys (flat ex_it) ix)"
    if "ix_ok (flat ex_it) ix" "ix_ok (flat ex_it) iy" "ix \<noteq> iy" for ix iy
    using ex_ix [OF that(1)] ex_ix [OF that(2)] that(3) by (elim insertE emptyE) (simp_all add: ex_off)
  then show ?thesis by (simp add: sel_apart_def ex_field_def)
qed

lemma ex_mem_ok: "mdev_ok 4 ex_mem"
  by (simp add: mdev_ok_def ex_mem_def)

lemma ex_once: "once ex_sys WT_CACHEABLE 1 (sbytes ex_field) (flat ex_it)" "once ex_sys WB_CACHEABLE 1 (sbytes ex_field) (flat ex_it)"
  by (simp_all add: ex_flat ex_field_def ex_sys_def mm_stride_def count_def)

lemma ex_cacheable: "write_ok ex_sys 4 (flat ex_it) n 0 b (field_cacheable ex_sys ex_field ex_it)"
  by (simp add: write_ok_def field_cacheable_def ex_field_def getEntryCacheable_def ex_sys_def)

section \<open>The properties\<close>

text \<open>C29: \<open>getVal\<close> on a path succeeds and gives the number of elements which the path selects; the number for each of them is that of
  its register: the bits of the field at the places given by byte order, word swap and bit shift, and the sign above them. The
  arrays may be nested as one likes. The elements of one may be read at once where nothing is interleaved: an address which joins
  its accesses may have no array of more than one element below it that is not joined as well (\<open>once\<close>; otherwise
  \<open>joined_reads_differ\<close> below shows what happens).\<close>

theorem getVal_reads:
  assumes "int_ok f" "target \<in> {LE, BE, NATIVE}" "path_sel sys al p rng it" "mdev_ok al md"
    "once sys WT_CACHEABLE 1 (sbytes f) (flat it)" "in_range sys (flat it) (sbytes f) 0 (unat (md_size md))"
    "n_elems it \<le> nelms" "n_elems it * d + n_elems it * sbytes f \<le> length out"
  shows "\<exists>out'. getVal sys md LE target f nelms d it out = (Inr (n_elems it), out')
    \<and> (\<forall>ix k. ix_ok (flat it) ix \<longrightarrow> k < 8 * d \<longrightarrow> lbit (num_mem it d out' ix) k = reg_bit f (eff_target target) (reg_mem sys f it md ix) k)"
  by (rule getVal_run [OF assms])

lemma getVal_reads_witness:
  "\<exists>out'. getVal ex_sys ex_mem LE BE ex_field 4 4 ex_it (replicate 32 0) = (Inr 4, out')
    \<and> lbit (num_mem ex_it 4 out' [1, 1]) 2 = reg_bit ex_field BE (reg_mem ex_sys ex_field ex_it ex_mem [1, 1]) 2"
proof -
  have "ix_ok (flat ex_it) [1, 1]" by (simp add: ex_flat count_def)
  then show ?thesis
    using getVal_reads [OF ex_field_ok _ ex_path_sel ex_mem_ok ex_once(1) ex_in_range, of BE 4 4 "replicate 32 0"]
    by (auto simp: ex_n ex_field_def eff_target_def)
qed

text \<open>C28: \<open>setVal\<close> on a path succeeds; in the register of each selected element the bits of the field are those of the number of
  the caller, all its other bits and all bytes outside of these registers are what they were.\<close>

theorem setVal_stores:
  assumes "int_ok f" "f_mode f \<noteq> RO" "target \<in> {LE, BE, NATIVE}" "path_sel sys al p rng it" "mdev_ok al md"
    "0 < elsz" "length buf = n_elems it * elsz" "length scr = n_elems it * sbytes f"
    "write_ok sys al (flat it) (sbytes f) 0 (write_masks f target elsz) (field_cacheable sys f it)"
    "\<not> write_masks f target elsz \<Longrightarrow> once sys WB_CACHEABLE 1 (sbytes f) (flat it)"
    "in_range sys (flat it) (sbytes f) 0 (unat (md_size md))" "sel_apart sys f it" "n_elems it \<le> nelms"
  shows "\<exists>md'. setVal_io sys LE target f buf nelms elsz scr p rng md = (Inr (n_elems it), md')
    \<and> (\<forall>ix j. ix_ok (flat it) ix \<longrightarrow> j < 8 * sbytes f \<longrightarrow> j \<notin> reg_bits f target \<longrightarrow>
         lbit (reg_mem sys f it md' ix) j = lbit (reg_mem sys f it md ix) j)
    \<and> (\<forall>ix k. ix_ok (flat it) ix \<longrightarrow> k < sizeBits f \<longrightarrow>
         lbit (reg_mem sys f it md' ix) (regpos f (eff_target target) k) = num_bit f elsz (num_mem it elsz buf ix) k)
    \<and> (\<forall>j < length (md_buf md). (\<forall>ix. ix_ok (flat it) ix \<longrightarrow> j < unat (elem_off sys (flat it) ix) \<or> unat (elem_off sys (flat it) ix) + sbytes f \<le> j)
         \<longrightarrow> md_buf md' ! j = md_buf md ! j)"
  using setVal_run [OF assms] by blast

lemma setVal_stores_witness:
  "\<exists>md'. setVal_io ex_sys LE BE ex_field (replicate 16 0xff) 4 4 (replicate 8 0) ex_reg_path (Some (1, 2)) ex_mem = (Inr 4, md')
    \<and> lbit (reg_mem ex_sys ex_field ex_it md' [0, 1]) (regpos ex_field BE 3) \<and> md_buf md' ! 11 = 0x5a"
proof -
  have i: "ix_ok (flat ex_it) [0, 1]" by (simp add: ex_flat count_def)
  have o: "11 < unat (elem_off ex_sys (flat ex_it) ix) \<or> unat (elem_off ex_sys (flat ex_it) ix) + sbytes ex_field \<le> 11" if "ix_ok (flat ex_it) ix" for ix
    using ex_ix [OF that] by (elim insertE emptyE) (simp_all add: ex_off)
  have b: "num_bit ex_field 4 (num_mem ex_it 4 (replicate 16 0xff) [0, 1]) 3"
    by (simp add: num_bit_def num_mem_def ex_flat count_def get_at_def lbit_def bit_simps)
  have l: "(11 :: nat) < length (md_buf ex_mem)" "md_buf ex_mem ! 11 = 0x5a" "(3 :: nat) < sizeBits ex_field" "eff_target BE = BE"
    by (simp_all add: ex_mem_def ex_field_def eff_target_def)
  obtain md' where r: "setVal_io ex_sys LE BE ex_field (replicate 16 0xff) 4 4 (replicate 8 0) ex_reg_path (Some (1, 2)) ex_mem = (Inr 4, md')"
      "\<And>ix k. ix_ok (flat ex_it) ix \<Longrightarrow> k < sizeBits ex_field \<Longrightarrow>
         lbit (reg_mem ex_sys ex_field ex_it md' ix) (regpos ex_field (eff_target BE) k) = num_bit ex_field 4 (num_mem ex_it 4 (replicate 16 0xff) ix) k"
      "\<And>j. j < length (md_buf ex_mem) \<Longrightarrow> (\<And>ix. ix_ok (flat ex_it) ix \<Longrightarrow> j < unat (elem_off ex_sys (flat ex_it) ix)
         \<or> unat (elem_off ex_sys (flat ex_it) ix) + sbytes ex_field \<le> j) \<Longrightarrow> md_buf md' ! j = md_buf ex_mem ! j"
    using setVal_stores [OF ex_field_ok _ _ ex_path_sel ex_mem_ok _ _ _ ex_cacheable ex_once(2) ex_in_range ex_apart,
        of BE 4 "replicate 16 0xff" "replicate 8 0" 4]
    by (auto simp: ex_n ex_field_def)
  from r(1) r(2) [OF i l(3)] r(3) [OF l(1) o] show ?thesis using b l by auto
qed

text \<open>C27: What \<open>setVal\<close> has written to the registers of a path is what \<open>getVal\<close> reads from it: each number comes back cut to the size of
  the field, with its sign restored, whatever the widths of the numbers which the caller writes and reads. The registers of the
  elements selected must not overlap, and no access, neither the read nor a write without masks, may be joined across interleaved
  arrays (\<open>once\<close>).\<close>

theorem setVal_getVal:
  assumes "int_ok f" "f_mode f \<noteq> RO" "target \<in> {LE, BE, NATIVE}" "path_sel sys al p rng it" "mdev_ok al md"
    "0 < elsz" "length buf = n_elems it * elsz" "length scr = n_elems it * sbytes f"
    "write_ok sys al (flat it) (sbytes f) 0 (write_masks f target elsz) (field_cacheable sys f it)"
    "\<not> write_masks f target elsz \<Longrightarrow> once sys WB_CACHEABLE 1 (sbytes f) (flat it)"
    "in_range sys (flat it) (sbytes f) 0 (unat (md_size md))" "sel_apart sys f it" "n_elems it \<le> nelms"
    and rd: "once sys WT_CACHEABLE 1 (sbytes f) (flat it)" "n_elems it \<le> m" "n_elems it * d + n_elems it * sbytes f \<le> length out"
  shows "\<exists>md' out'. setVal_io sys LE target f buf nelms elsz scr p rng md = (Inr (n_elems it), md')
    \<and> getVal sys md' LE target f m d it out = (Inr (n_elems it), out')
    \<and> (\<forall>ix k. ix_ok (flat it) ix \<longrightarrow> k < 8 * d \<longrightarrow> lbit (num_mem it d out' ix) k =
         (if k < sizeBits f then num_bit f elsz (num_mem it elsz buf ix) k
          else f_isSigned f \<and> num_bit f elsz (num_mem it elsz buf ix) (sizeBits f - 1)))"
proof -
  obtain md' where w: "setVal_io sys LE target f buf nelms elsz scr p rng md = (Inr (n_elems it), md')" "mdev_ok al md'" "md_size md' = md_size md"
      "\<And>ix k. ix_ok (flat it) ix \<Longrightarrow> k < sizeBits f \<Longrightarrow>
         lbit (reg_mem sys f it md' ix) (regpos f (eff_target target) k) = num_bit f elsz (num_mem it elsz buf ix) k"
    using setVal_run [OF assms(1-13)] by blast
  obtain out' where r: "getVal sys md' LE target f m d it out = (Inr (n_elems it), out')"
      "\<And>ix k. ix_ok (flat it) ix \<Longrightarrow> k < 8 * d \<Longrightarrow> lbit (num_mem it d out' ix) k = reg_bit f (eff_target target) (reg_mem sys f it md' ix) k"
    using getVal_run [OF assms(1,3,4) w(2) rd(1) assms(11) [folded w(3)] rd(2,3)] by blast
  have "0 < sizeBits f" using assms(1) by (simp add: int_ok_def)
  then have "lbit (num_mem it d out' ix) k = (if k < sizeBits f then num_bit f elsz (num_mem it elsz buf ix) k
        else f_isSigned f \<and> num_bit f elsz (num_mem it elsz buf ix) (sizeBits f - 1))" if "ix_ok (flat it) ix" "k < 8 * d" for ix k
    using r(2) [OF that] w(4) [OF that(1)] by (simp add: reg_bit_def)
  then show ?thesis using w(1) r(1) by blast
qed

lemma setVal_getVal_witness:
  "\<exists>md' out'. setVal_io ex_sys LE BE ex_field (replicate 12 0 @ replicate 4 0xff) 4 4 (replicate 8 0) ex_reg_path (Some (1, 2)) ex_mem = (Inr 4, md')
    \<and> getVal ex_sys md' LE BE ex_field 4 8 ex_it (replicate 64 0) = (Inr 4, out')
    \<and> lbit (num_mem ex_it 8 out' [1, 1]) 63 \<and> \<not> lbit (num_mem ex_it 8 out' [0, 1]) 63"
proof -
  have i: "ix_ok (flat ex_it) [1, 1]" "ix_ok (flat ex_it) [0, 1]" by (simp_all add: ex_flat count_def)
  have b: "num_bit ex_field 4 (num_mem ex_it 4 (replicate 12 0 @ replicate 4 0xff) [1, 1]) 11"
      "\<not> num_bit ex_field 4 (num_mem ex_it 4 (replicate 12 0 @ replicate 4 0xff) [0, 1]) 11"
    by (simp_all add: num_bit_def num_mem_def ex_flat count_def get_at_def lbit_def bit_simps)
  obtain md' out' where r: "setVal_io ex_sys LE BE ex_field (replicate 12 0 @ replicate 4 0xff) 4 4 (replicate 8 0) ex_reg_path (Some (1, 2)) ex_mem = (Inr 4, md')"
      "getVal ex_sys md' LE BE ex_field 4 8 ex_it (replicate 64 0) = (Inr 4, out')"
      "\<And>ix k. ix_ok (flat ex_it) ix \<Longrightarrow> k < 64 \<Longrightarrow> lbit (num_mem ex_it 8 out' ix) k =
         (if k < 12 then num_bit ex_field 4 (num_mem ex_it 4 (replicate 12 0 @ replicate 4 0xff) ix) k
          else num_bit ex_field 4 (num_mem ex_it 4 (replicate 12 0 @ replicate 4 0xff) ix) 11)"
    using setVal_getVal [OF ex_field_ok _ _ ex_path_sel ex_mem_ok _ _ _ ex_cacheable ex_once(2) ex_in_range ex_apart _ ex_once(1),
        of BE 4 "replicate 12 0 @ replicate 4 0xff" "replicate 8 0" 4 4 8 "replicate 64 0"]
    by (auto simp: ex_n ex_field_def)
  from r(1,2) r(3) [OF i(1), of 63] r(3) [OF i(2), of 63] show ?thesis using b by auto
qed

section \<open>Joined accesses\<close>

text \<open>Three interleaved arrays, or so it seems: the registers of each device are two bytes apart, the devices one byte. Without the
  cache \<open>read\<close> fetches the six bytes one by one; with it, one access is made for the devices although their bytes do not belong next to each
  other in the array of the caller: the reads overwrite each other and the end of the array is not filled.\<close>

definition il_sys :: "cacheable \<Rightarrow> iosys" where
  "il_sys c = \<lparr>io_hier = ex_dev, io_kind = (\<lambda>a. if a = 0 then MemAddr 1 else if a = 1 then MMIOAddr 0 1 else MMIOAddr 0 2),
     io_cacheable = (\<lambda>_. c), io_size = (\<lambda>_. 1), io_root = 0\<rparr>"

definition il_mem :: memdev where
  "il_mem = \<lparr>md_buf = [0, 1, 2, 3, 4, 5], md_size = 6\<rparr>"

definition il_read :: "cacheable \<Rightarrow> (exn + nat) \<times> u8 list" where
  "il_read c = io_read (il_sys c) il_mem (Suc (Suc (Suc 0))) (iter_create ex_reg_path) \<lparr>ra_dst = 0, ra_nbytes = 1, ra_off = 0\<rparr>
     [0xff, 0xff, 0xff, 0xff, 0xff, 0xff]"

lemma add_rounds_numeral: "add_rounds body step (numeral k) x
    = bnd (body x) (\<lambda>r. bnd (add_rounds body step (pred_numeral k) (step x r)) (\<lambda>rs. ret (r + rs)))"
  by (simp add: numeral_eq_Suc)

lemmas il_eval = il_read_def il_sys_def il_mem_def ex_reg_path_def ex_dev_def iter_create_def mmio_read_def dispatchRead_def
  addr_read_def getEntryCacheable_def bnd_def ret_def iter_next_def iter_atEnd_def less_eq_cacheable_def mem_read_def
  memAddress_read_def read_func8_def put_at_def get_at_def iter_clip_def append_addr_def verifyAtTail_def path_empty_def
  path_getNelms_def pathEntry_create_def iter_append_def iter_validConcatenation_def add_rounds_numeral

text \<open>Joined accesses are not equivalent to separate ones: for the interleaved registers above, reading one by one gives
  each register its place in the array, reading joined puts registers in the wrong places and leaves others out.\<close>

theorem joined_reads_differ:
  "il_read NOT_CACHEABLE = (Inr 6, [0, 2, 4, 1, 3, 5]) \<and> il_read WB_CACHEABLE = (Inr 6, [0, 2, 4, 5, 0xff, 0xff])"
  by (simp add: il_eval)

end
