(* ===== verification/SrpModel.thy ===== *)
theory SrpModel
  imports Timeout Mmio
begin

text \<open>
  Register access over the network (\<^verbatim>\<open>src/src/cpsw_srp_addr.cc\<close>, \<^verbatim>\<open>src/src/cpsw_srp_transactions.cc\<close>): requests in
  three versions of the protocol, their answers, retries with a dynamic timeout, large accesses in blocks, and writes
  which merge bits or bytes with what a read has fetched. A message is the list of the bytes of its buffer chain. The device at the other
  end is a parameter: it answers each message with any number of messages.
\<close>

section \<open>The dynamic timeout\<close>

record dyn_timeout =
  dt_maxRndTrip :: timeout
  dt_avgRndTrip :: u64
  dt_dynTimeout :: timeout
  dt_timeoutCap :: u64

definition AVG_SHFT :: nat where "AVG_SHFT = 6"
definition MARG_SHFT :: nat where "MARG_SHFT = 2"
definition CAP_US :: u64 where "CAP_US = 5000"

definition dt_setLastUpdate :: "dyn_timeout \<Rightarrow> dyn_timeout" where
  "dt_setLastUpdate dt =
     (let new_timeout = drop_bit (AVG_SHFT - MARG_SHFT) (dt_avgRndTrip dt);
          new_timeout = (if new_timeout < dt_timeoutCap dt then dt_timeoutCap dt else new_timeout)
      in dt\<lparr>dt_dynTimeout := to_set new_timeout\<rparr>)"

definition dt_reset :: "timeout \<Rightarrow> dyn_timeout \<Rightarrow> dyn_timeout" where
  "dt_reset iniv dt =
     dt_setLastUpdate (dt\<lparr>dt_maxRndTrip := to_set 0, dt_avgRndTrip := push_bit (AVG_SHFT - MARG_SHFT) (to_getUs iniv)\<rparr>)"

definition dt_create :: "timeout \<Rightarrow> dyn_timeout" where
  "dt_create iniv = dt_reset iniv \<lparr>dt_maxRndTrip = to_set 0, dt_avgRndTrip = 0, dt_dynTimeout = to_set 0, dt_timeoutCap = CAP_US\<rparr>"

definition dt_setTimeoutCap :: "u64 \<Rightarrow> dyn_timeout \<Rightarrow> dyn_timeout" where
  "dt_setTimeoutCap cap dt =
     (let dt = dt\<lparr>dt_timeoutCap := cap\<rparr>
      in if to_getUs (dt_dynTimeout dt) < cap then dt\<lparr>dt_dynTimeout := to_set cap\<rparr> else dt)"

definition dt_relax :: "dyn_timeout \<Rightarrow> dyn_timeout" where
  "dt_relax dt =
     dt_setLastUpdate (dt\<lparr>dt_avgRndTrip := dt_avgRndTrip dt
       + (push_bit 1 (to_getUs (dt_dynTimeout dt)) - drop_bit AVG_SHFT (dt_avgRndTrip dt))\<rparr>)"

definition dt_update :: "timeout \<Rightarrow> timeout \<Rightarrow> dyn_timeout \<Rightarrow> dyn_timeout" where
  "dt_update t1 t0 dt =
     (let diff = to_sub t1 t0;
          dt = (if dt_maxRndTrip dt < diff then dt\<lparr>dt_maxRndTrip := diff\<rparr> else dt)
      in dt_setLastUpdate (dt\<lparr>dt_avgRndTrip := dt_avgRndTrip dt
           + (to_getUs diff - drop_bit AVG_SHFT (dt_avgRndTrip dt))\<rparr>))"

section \<open>Words\<close>

definition word_bytes :: "byteorder \<Rightarrow> u32 \<Rightarrow> u8 list" where
  "word_bytes host w =
     (let b = [ucast w, ucast (drop_bit 8 w), ucast (drop_bit 16 w), ucast (drop_bit 24 w)] in if host = BE then rev b else b)"

definition bytes_word :: "byteorder \<Rightarrow> u8 list \<Rightarrow> u32" where
  "bytes_word host b =
     (if host = BE then join32 (b ! 0) (b ! 1) (b ! 2) (b ! 3) else join32 (b ! 3) (b ! 2) (b ! 1) (b ! 0))"

definition swp32 :: "u32 \<Rightarrow> u32" where
  "swp32 w = join32 (ucast w) (ucast (drop_bit 8 w)) (ucast (drop_bit 16 w)) (ucast (drop_bit 24 w))"

definition swpw :: "u8 list \<Rightarrow> u8 list" where
  "swpw b = word_bytes LE (swp32 (bytes_word LE b))"

section \<open>The address\<close>

datatype srp_version = SRP_UDP_NONE | SRP_UDP_V1 | SRP_UDP_V2 | SRP_UDP_V3

fun version_number :: "srp_version \<Rightarrow> int" where
  "version_number SRP_UDP_NONE = -1"
| "version_number SRP_UDP_V1 = 1"
| "version_number SRP_UDP_V2 = 2"
| "version_number SRP_UDP_V3 = 3"

lemma version_number_inj: "version_number x = version_number y \<longleftrightarrow> x = y"
  by (cases x; cases y) simp_all

instantiation srp_version :: linorder
begin

definition less_eq_srp_version :: "srp_version \<Rightarrow> srp_version \<Rightarrow> bool" where
  "less_eq_srp_version x y \<longleftrightarrow> version_number x \<le> version_number y"

definition less_srp_version :: "srp_version \<Rightarrow> srp_version \<Rightarrow> bool" where
  "less_srp_version x y \<longleftrightarrow> version_number x < version_number y"

instance
  by standard (auto simp: less_eq_srp_version_def less_srp_version_def version_number_inj dest: version_number_inj [THEN iffD1])

end

text \<open>What does not change after the construction and \<open>startUp\<close>.\<close>

record srp =
  sr_host :: byteorder
  sr_protoVersion :: srp_version
  sr_usrTimeout :: timeout
  sr_useDynTimeout :: bool
  sr_retryCnt :: nat
  sr_vc :: u8
  sr_tidMsk :: u32
  sr_tidLsb :: u32
  sr_byteResolution :: bool
  sr_maxWordsRx :: nat
  sr_maxWordsTx :: nat
  sr_posted :: bool
  sr_mtu :: nat

text \<open>The state, with the device and the messages that are there to be popped, each with the clock before and after the wait.\<close>

type_synonym rx_msg = "u8 list \<times> timeout \<times> timeout"
type_synonym 'd device = "'d \<Rightarrow> u8 list \<Rightarrow> rx_msg list \<times> 'd"

record 'd srp_state =
  ss_tid :: u32
  ss_dynTimeout :: dyn_timeout
  ss_nRetries :: nat
  ss_nWrites :: nat
  ss_nReads :: nat
  ss_dev :: 'd
  ss_rx :: "rx_msg list"

definition needsHdrSwap :: "srp \<Rightarrow> bool" where
  "needsHdrSwap c \<longleftrightarrow> (if sr_protoVersion c = SRP_UDP_V1 then LE else BE) = sr_host c"

definition needsPayloadSwap :: "srp \<Rightarrow> bool" where
  "needsPayloadSwap c \<longleftrightarrow> sr_protoVersion c = SRP_UDP_V1"

definition srp_getAlignment :: "srp \<Rightarrow> nat" where
  "srp_getAlignment c = (if sr_byteResolution c then 1 else 4)"

definition MAXTXWORDS :: u32 where "MAXTXWORDS = 1024"

text \<open>The part of \<open>startUp\<close> that computes the sizes of blocks.\<close>

definition startUp_maxWords :: "srp_version \<Rightarrow> bool \<Rightarrow> u32 \<Rightarrow> u32 \<times> u32 \<times> u32" where
  "startUp_maxWords version depack mtu =
     (let mtu = (mtu div 8) * 8;
          maxwords = mtu div 4;
          maxwords = (if SRP_UDP_V3 \<le> version then maxwords - 5
                      else let m = maxwords - 2 in if version < SRP_UDP_V2 then m - 1 else m);
          maxwords = maxwords - 1;
          rx = (if version < SRP_UDP_V3 \<or> \<not> depack then maxwords else push_bit 28 1);
          tx = (if MAXTXWORDS < rx then MAXTXWORDS else rx)
      in (mtu, rx, tx))"

definition toTid :: "srp \<Rightarrow> u32 \<Rightarrow> u32" where
  "toTid c bits = bits AND sr_tidMsk c"

definition tidMatch :: "srp \<Rightarrow> u32 \<Rightarrow> u32 \<Rightarrow> bool" where
  "tidMatch c a b \<longleftrightarrow> (a XOR b) AND sr_tidMsk c = 0"

definition getTid :: "srp \<Rightarrow> ('d srp_state, u32) sem" where
  "getTid c = (\<lambda>s. let t = ss_tid s + sr_tidLsb c in (Inr (toTid c t), s\<lparr>ss_tid := t\<rparr>))"

definition msg_extract :: "nat \<Rightarrow> nat \<Rightarrow> u8 list \<Rightarrow> u8 list" where
  "msg_extract off n m = take n (drop off m)"

definition extractTid :: "srp \<Rightarrow> u8 list \<Rightarrow> exn + u32" where
  "extractTid c m =
     (let tidOff = (if sr_protoVersion c = SRP_UDP_V2 then 0 else 4); b = msg_extract tidOff 4 m
      in if b = [] then Inl (InternalError ''No TID found in SRP message'')
         else if length b < 4 then Inl (Undefined ''part of the TID is missing'')
         else let w = bytes_word (sr_host c) b in Inr (toTid c (if needsHdrSwap c then swp32 w else w)))"

definition hdr_bytes :: "srp \<Rightarrow> u32 list \<Rightarrow> u8 list" where
  "hdr_bytes c ws = concat (map (\<lambda>w. word_bytes (sr_host c) (if needsHdrSwap c then swp32 w else w)) ws)"

section \<open>Transactions\<close>

definition push_msg :: "'d device \<Rightarrow> u8 list \<Rightarrow> ('d srp_state, unit) sem" where
  "push_msg dev m = (\<lambda>s. case dev (ss_dev s) m of (rs, d) \<Rightarrow> (Inr (), s\<lparr>ss_dev := d, ss_rx := ss_rx s @ rs\<rparr>))"

text \<open>Popping messages until one has the identifier of the transaction; \<open>None\<close> is a timeout.\<close>

fun pop_tid :: "srp \<Rightarrow> u32 \<Rightarrow> rx_msg list \<Rightarrow> (exn + rx_msg option) \<times> rx_msg list" where
  "pop_tid c tid [] = (Inr None, [])"
| "pop_tid c tid (r # q) =
     (case extractTid c (fst r) of Inl e \<Rightarrow> (Inl e, q)
      | Inr t \<Rightarrow> if tidMatch c t tid then (Inr (Some r), q) else pop_tid c tid q)"

text \<open>The loop over the attempts, which reads and writes share; \<open>n\<close> more attempts are left.\<close>

fun srp_attempts :: "srp \<Rightarrow> 'd device \<Rightarrow> u8 list \<Rightarrow> u32 \<Rightarrow> string \<Rightarrow> nat \<Rightarrow> ('d srp_state, u8 list) sem" where
  "srp_attempts c dev msg tid err n = bnd (push_msg dev msg) (\<lambda>_ s.
     (case pop_tid c tid (ss_rx s) of
        (Inl e, q) \<Rightarrow> (Inl e, s\<lparr>ss_rx := q\<rparr>)
      | (Inr (Some (m, t0, t1)), q) \<Rightarrow>
          (Inr m, s\<lparr>ss_rx := q, ss_dynTimeout := (if sr_useDynTimeout c then dt_update t1 t0 else id) (ss_dynTimeout s)\<rparr>)
      | (Inr None, q) \<Rightarrow>
          let s = s\<lparr>ss_rx := q, ss_dynTimeout := (if sr_useDynTimeout c then dt_relax else id) (ss_dynTimeout s),
                    ss_nRetries := ss_nRetries s + 1\<rparr>
          in (case n of
                0 \<Rightarrow> (Inl (IOError err),
                      s\<lparr>ss_dynTimeout := (if sr_useDynTimeout c then dt_reset (sr_usrTimeout c) else id) (ss_dynTimeout s)\<rparr>)
              | Suc k \<Rightarrow> srp_attempts c dev msg tid err k s)))"

text \<open>A transaction on the port for asynchronous access: there are no retries, the manager completes it with the first answer or
  with a timeout. Every exception is rethrown as an object of the base class.\<close>

definition srp_async :: "srp \<Rightarrow> 'd device \<Rightarrow> u8 list \<Rightarrow> u32 \<Rightarrow> ('d srp_state, u8 list) sem" where
  "srp_async c dev msg tid = (\<lambda>s. case dev (ss_dev s) msg of (rs, d) \<Rightarrow>
     (case pop_tid c tid rs of (Inr (Some (m, _, _)), _) \<Rightarrow> (Inr m, s\<lparr>ss_dev := d\<rparr>)
      | _ \<Rightarrow> (Inl (CPSWError ''asynchronous read''), s\<lparr>ss_dev := d\<rparr>)))"

section \<open>Reading\<close>

definition CMD_READ :: u32 where "CMD_READ = 0"
definition CMD_WRITE :: u32 where "CMD_WRITE = 0x40000000"
definition CMD_READ_V3 :: u32 where "CMD_READ_V3 = 0"
definition CMD_WRITE_V3 :: u32 where "CMD_WRITE_V3 = 0x100"
definition CMD_POSTED_WRITE_V3 :: u32 where "CMD_POSTED_WRITE_V3 = 0x200"
definition PROTO_VERS_3 :: u32 where "PROTO_VERS_3 = 3"

record read_xact =
  rx_tid :: u32
  rx_sbytes :: nat
  rx_headBytes :: nat
  rx_xbuf :: "u32 list"
  rx_expected :: nat
  rx_hdrWords :: nat
  rx_tailBytes :: nat

definition headBytes :: "srp \<Rightarrow> u64 \<Rightarrow> nat" where
  "headBytes c off = (if sr_byteResolution c then 0 else unat off mod 4)"

definition getTotbytes :: "read_xact \<Rightarrow> nat" where
  "getTotbytes x = rx_headBytes x + rx_sbytes x"

definition getNWords :: "read_xact \<Rightarrow> nat" where
  "getNWords x = (getTotbytes x + 3) div 4"

definition read_resetMe :: "srp \<Rightarrow> u32 \<Rightarrow> u64 \<Rightarrow> nat \<Rightarrow> read_xact" where
  "read_resetMe c tid off sz =
     (let head = headBytes c off; tot = head + sz; nWords = (tot + 3) div 4;
          v1 = (if sr_protoVersion c = SRP_UDP_V1 then [push_bit 24 (ucast (sr_vc c))] else []);
          xbuf = (if sr_protoVersion c < SRP_UDP_V3
                  then [tid, (ucast (drop_bit 2 off) AND 0x3fffffff) OR CMD_READ, of_nat nWords - 1, 0]
                  else [CMD_READ_V3 OR PROTO_VERS_3, tid, ucast (if sr_byteResolution c then off else off AND NOT 3),
                        ucast (drop_bit 32 off), (if sr_byteResolution c then of_nat tot else push_bit 2 (of_nat nWords)) - 1])
      in \<lparr>rx_tid = tid, rx_sbytes = sz, rx_headBytes = head, rx_xbuf = v1 @ xbuf,
          rx_expected = (if sr_protoVersion c = SRP_UDP_V1 then 1 else 0) + (if sr_protoVersion c < SRP_UDP_V3 then 3 else 6),
          rx_hdrWords = (if sr_protoVersion c < SRP_UDP_V3 then 2 else 5),
          rx_tailBytes = (if tot mod 4 \<noteq> 0 then 4 - tot mod 4 else 0)\<rparr>)"

definition status_word :: "srp \<Rightarrow> u8 list \<Rightarrow> u32" where
  "status_word c b = (let w = bytes_word (sr_host c) b in if needsHdrSwap c then swp32 w else w)"

text \<open>The swaps of the words at \<open>p\<close>, \<open>p + 4\<close>, ...\<close>

fun swap_words :: "nat \<Rightarrow> nat \<Rightarrow> u8 list \<Rightarrow> u8 list" where
  "swap_words p 0 b = b"
| "swap_words p (Suc n) b = swap_words (p + 4) n (within p 4 swpw b)"

text \<open>\<open>memcpy\<close> into a buffer that may be too short.\<close>

definition put_within :: "nat \<Rightarrow> u8 list \<Rightarrow> u8 list \<Rightarrow> exn + u8 list" where
  "put_within p b out = (if length out < p + length b then Inl (Undefined ''write behind the buffer'') else Inr (put_at p b out))"

definition swap_head :: "read_xact \<Rightarrow> u8 list \<Rightarrow> u8 list \<Rightarrow> nat \<Rightarrow> u8 list \<Rightarrow> exn + u8 list" where
  "swap_head x hdr tail dst out =
     (let head = rx_headBytes x; hoff = 4 - head; sb = rx_sbytes x;
          tmp = get_at (4 * 2) head hdr @
            (if sb < hoff then get_at dst sb out @ take (rx_tailBytes x) tail else get_at dst hoff out)
      in put_within dst (get_at head hoff (swpw tmp)) out)"

definition swap_payload :: "read_xact \<Rightarrow> u8 list \<Rightarrow> u8 list \<Rightarrow> nat \<Rightarrow> u8 list \<Rightarrow> exn + u8 list" where
  "swap_payload x hdr tail dst out =
     (let hoff = (if rx_headBytes x \<noteq> 0 then 4 - rx_headBytes x else 0)
      in case (if rx_headBytes x \<noteq> 0 then swap_head x hdr tail dst out else Inr out) of Inl e \<Rightarrow> Inl e
         | Inr out \<Rightarrow>
           let nw = (rx_sbytes x - hoff) div 4; out = swap_words (dst + hoff) nw out; j = 4 * nw; part = 4 - rx_tailBytes x
           in if rx_tailBytes x \<noteq> 0 \<and> hoff \<le> rx_sbytes x
              then put_within (dst + hoff + j) (take part (swpw (get_at (dst + hoff + j) part out @ tail))) out
              else Inr out)"

definition read_complete :: "srp \<Rightarrow> read_xact \<Rightarrow> u8 list \<Rightarrow> nat \<Rightarrow> u8 list \<Rightarrow> exn + u8 list" where
  "read_complete c x m dst out =
     (let got = length m;
          h1 = (if sr_protoVersion c = SRP_UDP_V1 then 4 else 0);
          hl = rx_hdrWords x * 4 + rx_headBytes x;
          hdr = msg_extract h1 hl m;
          data = msg_extract (h1 + hl) (rx_sbytes x) m;
          tail = msg_extract (h1 + hl + rx_sbytes x) (rx_tailBytes x) m;
          st = msg_extract (h1 + hl + rx_sbytes x + rx_tailBytes x) 4 m
      in case put_within dst data out of Inl e \<Rightarrow> Inl e
         | Inr out \<Rightarrow>
           if got \<noteq> 4 * (getNWords x + rx_expected x) then
             (if got < 4 * rx_expected x then Inl (IOError ''Received message (read response) truncated'')
              else Inl (BadStatusError ''SRP Read terminated with bad status'' (status_word c (msg_extract (got - 4) 4 m))))
           else case (if needsPayloadSwap c then swap_payload x hdr tail dst out else Inr out) of Inl e \<Rightarrow> Inl e
             | Inr out \<Rightarrow>
               let status = status_word c st in if status \<noteq> 0 then Inl (BadStatusError ''reading SRP'' status) else Inr out)"

text \<open>A block: \<open>out\<close> is the buffer of the caller, returned with the bytes at \<open>dst\<close> filled in.\<close>

definition readBlk_unlocked :: "srp \<Rightarrow> 'd device \<Rightarrow> bool \<Rightarrow> u8 list \<Rightarrow> nat \<Rightarrow> u64 \<Rightarrow> nat \<Rightarrow> ('d srp_state, u8 list) sem" where
  "readBlk_unlocked c dev async out dst off sz =
     (if sz = 0 \<and> \<not> async then ret out
      else bnd (getTid c) (\<lambda>tid. let x = read_resetMe c tid off sz; msg = hdr_bytes c (rx_xbuf x)
        in bnd (if async then srp_async c dev msg tid else srp_attempts c dev msg tid ''No response -- timeout'' (sr_retryCnt c))
             (\<lambda>m. case read_complete c x m dst out of Inl e \<Rightarrow> raise (if async then CPSWError ''asynchronous read'' else e) | Inr out \<Rightarrow> ret out)))"

fun read_loop :: "srp \<Rightarrow> 'd device \<Rightarrow> bool \<Rightarrow> nat \<Rightarrow> u8 list \<Rightarrow> nat \<Rightarrow> u64 \<Rightarrow> nat \<Rightarrow> nat \<Rightarrow> nat \<Rightarrow> ('d srp_state, u8 list) sem" where
  "read_loop c dev async 0 out dst off sz nWords head = raise Diverges"
| "read_loop c dev async (Suc k) out dst off sz nWords head =
     (if sr_maxWordsRx c < nWords
      then let nbytes = sr_maxWordsRx c * 4 - head
           in bnd (readBlk_unlocked c dev async out dst off nbytes)
                (\<lambda>out. read_loop c dev async k out (dst + nbytes) (off + of_nat nbytes) (sz - nbytes) (nWords - sr_maxWordsRx c) 0)
      else readBlk_unlocked c dev async out dst off sz)"

definition srp_read :: "srp \<Rightarrow> 'd device \<Rightarrow> bool \<Rightarrow> u8 list \<Rightarrow> nat \<Rightarrow> u64 \<Rightarrow> nat \<Rightarrow> ('d srp_state, u8 list) sem" where
  "srp_read c dev async out dst off sz =
     (if sz = 0 then ret out
      else let head = headBytes c off; nWords = (head + sz + 3) div 4
           in bnd (read_loop c dev async (Suc nWords) out dst off sz nWords head)
                (\<lambda>out. andThen (upd (\<lambda>s. s\<lparr>ss_nReads := ss_nReads s + 1\<rparr>)) (ret out)))"

end
