(* ===== verification/SrpWriteModel.thy ===== *)
theory SrpWriteModel
  imports SrpModel
begin

text \<open>
  Writes over the network, \<open>CSRPAddressImpl::writeBlk_unlocked\<close>: words which the write does not cover as a whole are read first
  and merged, then one message carries the first word, the bytes in between from the memory of the caller, and the last word.
\<close>

section \<open>The message\<close>

text \<open>The buffers which \<open>IBufChain::insert\<close> fills one after the other.\<close>

function chunks :: "nat \<Rightarrow> u8 list \<Rightarrow> u8 list list" where
  "chunks n xs = (if xs = [] then [] else if n = 0 then [xs] else take n xs # chunks n (drop n xs))"
  by pat_completeness auto
termination by (relation "measure (\<lambda>(n, xs). length xs)") auto

declare chunks.simps [simp del]

fun skip_bufs :: "u8 list list \<Rightarrow> nat \<Rightarrow> u8 list list \<times> u8 list list \<times> nat" where
  "skip_bufs [] o1 = ([], [], o1)"
| "skip_bufs (b # bs) o1 = (if length b \<le> o1 then (case skip_bufs bs (o1 - length b) of (sk, r, n) \<Rightarrow> (b # sk, r, n)) else ([], b # bs, o1))"

text \<open>Swapping the words of the payload where they lie in the buffers; \<open>n\<close> bytes are left.\<close>

function swap_bufs :: "u8 list list \<Rightarrow> nat \<Rightarrow> nat \<Rightarrow> u8 list list" where
  "swap_bufs [] o1 n = []"
| "swap_bufs (b # bs) o1 n =
     (if n = 0 then b # bs
      else if o1 + 4 \<le> length b then swap_bufs (within o1 4 swpw b # bs) (o1 + 4) (n - 4)
      else b # swap_bufs bs 0 n)"
  by pat_completeness auto
termination by (relation "measures [\<lambda>(bs, o1, n). length bs, \<lambda>(bs, o1, n). n]") auto

definition assembleXBuf :: "srp \<Rightarrow> u8 list list \<Rightarrow> nat option \<Rightarrow> nat \<Rightarrow> u8 list" where
  "assembleXBuf c iov iov_pld toput =
     (let xchn = chunks (sr_mtu c) (concat iov)
      in case iov_pld of None \<Rightarrow> concat xchn
         | Some i \<Rightarrow> (case skip_bufs xchn (length (concat (take i iov))) of (sk, r, o1) \<Rightarrow> concat (sk @ swap_bufs r o1 toput)))"

section \<open>Merging\<close>

record wplan =
  wp_head :: nat
  wp_tot :: nat
  wp_nWords :: nat
  wp_mergeFirst :: bool
  wp_mergeLast :: bool
  wp_lastInFirst :: bool
  wp_parallel :: bool
  wp_msk1 :: u8

definition wants_merge :: "srp \<Rightarrow> u64 \<Rightarrow> nat \<Rightarrow> u8 \<Rightarrow> u8 \<Rightarrow> bool \<times> bool" where
  "wants_merge c off dbytes msk1 mskn =
     (headBytes c off \<noteq> 0 \<or> msk1 \<noteq> 0,
      \<not> sr_byteResolution c \<and> (headBytes c off + dbytes) mod 4 \<noteq> 0 \<or> mskn \<noteq> 0)"

definition write_plan :: "srp \<Rightarrow> u64 \<Rightarrow> nat \<Rightarrow> u8 \<Rightarrow> u8 \<Rightarrow> wplan" where
  "write_plan c off dbytes msk1 mskn =
     (let head = headBytes c off; tot = head + dbytes; (first, last) = wants_merge c off dbytes msk1 mskn;
          both = first \<and> last; one = both \<and> dbytes = 1; lif = both \<and> dbytes \<noteq> 1 \<and> tot \<le> 4 * (1 + 7)
      in \<lparr>wp_head = head, wp_tot = tot, wp_nWords = (tot + 3) div 4, wp_mergeFirst = first,
          wp_mergeLast = (last \<and> \<not> one \<and> \<not> lif), wp_lastInFirst = lif, wp_parallel = (both \<and> \<not> one \<and> \<not> lif),
          wp_msk1 = (if one then msk1 OR mskn else msk1)\<rparr>)"

text \<open>What is read before the merge: number of bytes and offset.\<close>

definition first_read :: "srp \<Rightarrow> wplan \<Rightarrow> u64 \<Rightarrow> nat \<times> u64" where
  "first_read c p off =
     (if sr_byteResolution c then (if wp_lastInFirst p then wp_tot p else 1, off)
      else (if wp_lastInFirst p then (wp_tot p + 3) div 4 * 4 else 4, off AND NOT 3))"

definition last_read :: "srp \<Rightarrow> u64 \<Rightarrow> nat \<Rightarrow> nat \<times> u64" where
  "last_read c off dbytes =
     (if sr_byteResolution c then (1, off + of_nat dbytes - 1) else (4, (off + of_nat dbytes - 1) AND NOT 3))"

record merge_st =
  mg_first :: "u8 list"
  mg_last :: "u8 list"
  mg_lastByte :: nat
  mg_lastlen :: nat
  mg_mergeLast :: bool
  mg_toput :: int
  mg_remaining :: int

definition merge_begin :: "srp \<Rightarrow> wplan \<Rightarrow> u64 \<Rightarrow> nat \<Rightarrow> u8 list \<Rightarrow> u8 list \<Rightarrow> merge_st" where
  "merge_begin c p off dbytes fw lw =
     (let n = fst (first_read c p off)
      in \<lparr>mg_first = fw, mg_last = lw,
          mg_lastByte = (if sr_byteResolution c then 0 else (wp_tot p - 1) mod 4),
          mg_lastlen = fst (last_read c off dbytes), mg_mergeLast = wp_mergeLast p, mg_toput = int dbytes,
          mg_remaining = int (if wp_tot p \<le> n then wp_tot p else n) - int (wp_head p) - 1\<rparr>)"

definition merge_lif :: "srp \<Rightarrow> wplan \<Rightarrow> u8 list \<Rightarrow> nat \<Rightarrow> u8 \<Rightarrow> merge_st \<Rightarrow> merge_st" where
  "merge_lif c p src dbytes mskn s =
     (let i = wp_tot p - 1
      in if 4 < wp_tot p
         then s\<lparr>mg_last := get_at (i div 4 * 4) 4 (mg_first s), mg_mergeLast := True, mg_lastByte := i mod 4,
                mg_lastlen := (if sr_byteResolution c then i mod 4 + 1 else 4)\<rparr>
         else s\<lparr>mg_lastByte := i, mg_first := (mg_first s)[i := merge_bits mskn (mg_first s ! i) (src ! (dbytes - 1))],
                mg_remaining := mg_remaining s - 1, mg_toput := mg_toput s - 1\<rparr>)"

definition merge_first :: "srp \<Rightarrow> wplan \<Rightarrow> u8 list \<Rightarrow> nat \<Rightarrow> u8 \<Rightarrow> merge_st \<Rightarrow> merge_st" where
  "merge_first c p src dbytes mskn s =
     (let h = wp_head p;
          s = s\<lparr>mg_first := (mg_first s)[h := merge_bits (wp_msk1 p) (mg_first s ! h) (src ! 0)], mg_toput := mg_toput s - 1\<rparr>;
          s = (if wp_lastInFirst p then merge_lif c p src dbytes mskn s else s)
      in if 0 < mg_remaining s
         then s\<lparr>mg_first := put_at (h + 1) (get_at 1 (nat (mg_remaining s)) src) (mg_first s), mg_toput := mg_toput s - mg_remaining s\<rparr>
         else s)"

definition merge_last :: "u8 list \<Rightarrow> nat \<Rightarrow> u8 \<Rightarrow> merge_st \<Rightarrow> merge_st" where
  "merge_last src dbytes mskn s =
     (let i = mg_lastByte s; s = s\<lparr>mg_toput := mg_toput s - 1\<rparr>;
          s = (if 0 < i then s\<lparr>mg_last := put_at 0 (get_at (dbytes - 1 - i) i src) (mg_last s), mg_toput := mg_toput s - int i\<rparr> else s)
      in s\<lparr>mg_last := (mg_last s)[i := merge_bits mskn (mg_last s ! i) (src ! (dbytes - 1))]\<rparr>)"

definition merge_words :: "srp \<Rightarrow> wplan \<Rightarrow> u64 \<Rightarrow> u8 list \<Rightarrow> nat \<Rightarrow> u8 \<Rightarrow> u8 list \<Rightarrow> u8 list \<Rightarrow> merge_st" where
  "merge_words c p off src dbytes mskn fw lw =
     (let s = merge_begin c p off dbytes fw lw;
          s = (if wp_mergeFirst p then merge_first c p src dbytes mskn s else s)
      in if mg_mergeLast s then merge_last src dbytes mskn s else s)"

section \<open>The transaction\<close>

definition is_posted :: "srp \<Rightarrow> bool" where
  "is_posted c \<longleftrightarrow> sr_posted c \<and> SRP_UDP_V3 \<le> sr_protoVersion c"

definition write_xbuf :: "srp \<Rightarrow> wplan \<Rightarrow> u32 \<Rightarrow> u64 \<Rightarrow> u32 list" where
  "write_xbuf c p tid off =
     (if sr_protoVersion c < SRP_UDP_V3
      then (if sr_protoVersion c = SRP_UDP_V1 then [push_bit 24 (ucast (sr_vc c))] else [])
           @ [tid, (ucast (drop_bit 2 off) AND 0x3fffffff) OR CMD_WRITE]
      else [(if is_posted c then CMD_POSTED_WRITE_V3 else CMD_WRITE_V3) OR PROTO_VERS_3, tid,
            ucast (if sr_byteResolution c then off else off AND NOT 3), ucast (drop_bit 32 off),
            (if sr_byteResolution c then of_nat (wp_tot p) else push_bit 2 (of_nat (wp_nWords p))) - 1])"

definition write_expected :: "srp \<Rightarrow> nat" where
  "write_expected c = (if sr_protoVersion c < SRP_UDP_V3 then (if sr_protoVersion c = SRP_UDP_V1 then 4 else 3) else 6)"

definition write_msg :: "srp \<Rightarrow> wplan \<Rightarrow> u32 \<Rightarrow> u64 \<Rightarrow> u8 list \<Rightarrow> merge_st \<Rightarrow> u8 list" where
  "write_msg c p tid off src s =
     (let firstlen = min (fst (first_read c p off)) 4; v1 = needsPayloadSwap c;
          hdr = hdr_bytes c (write_xbuf c p tid off);
          pre = hdr # (if wp_mergeFirst p then [take firstlen (if v1 then within 0 4 swpw (mg_first s) else mg_first s)] else []);
          pld = (if 0 < mg_toput s then [get_at (if wp_mergeFirst p then firstlen - wp_head p else 0) (nat (mg_toput s)) src] else []);
          post = (if mg_mergeLast s then [take (mg_lastlen s) (if v1 then swpw (mg_last s) else mg_last s)] else [])
               @ (if sr_protoVersion c < SRP_UDP_V3 then [word_bytes (sr_host c) 0]
                  else if sr_byteResolution c \<and> wp_tot p mod 4 \<noteq> 0 then [replicate (4 - wp_tot p mod 4) 0] else [])
      in assembleXBuf c (pre @ pld @ post) (if v1 \<and> 0 < mg_toput s then Some (length pre) else None) (nat (mg_toput s)))"

definition write_complete :: "srp \<Rightarrow> nat \<Rightarrow> u8 list \<Rightarrow> exn + unit" where
  "write_complete c nWords m =
     (let got = length m; status = status_word c (msg_extract (got - 4) 4 m)
      in if got \<noteq> 4 * (nWords + write_expected c) then
           (if got < 4 * write_expected c then Inl (IOError ''Received message (write response) truncated'')
            else Inl (BadStatusError ''SRP Write terminated with bad status'' status))
         else if status \<noteq> 0 then Inl (BadStatusError ''writing SRP'' status) else Inr ())"

definition catch :: "('s, 'a) sem \<Rightarrow> ('s, exn + 'a) sem" where
  "catch m = (\<lambda>s. case m s of (r, t) \<Rightarrow> (Inr r, t))"

text \<open>The words that are merged. Reads at both ends go out in parallel, and an error of either shows when both are done.\<close>

definition read_back :: "srp \<Rightarrow> 'd device \<Rightarrow> wplan \<Rightarrow> u64 \<Rightarrow> nat \<Rightarrow> ('d srp_state, u8 list \<times> u8 list) sem" where
  "read_back c dev p off dbytes =
     (let (fn, fo) = first_read c p off; (ln, lo) = last_read c off dbytes;
          rf = (\<lambda>par. if wp_mergeFirst p then srp_read c dev par (replicate fn 0) 0 fo fn else ret []);
          rl = (\<lambda>par. if wp_mergeLast p then srp_read c dev par (replicate ln 0) 0 lo ln else ret [])
      in if wp_parallel p
         then bnd (catch (rf True)) (\<lambda>f. bnd (catch (rl True)) (\<lambda>l.
                case f of Inl e \<Rightarrow> raise e | Inr fw \<Rightarrow> (case l of Inl e \<Rightarrow> raise e | Inr lw \<Rightarrow> ret (fw, lw))))
         else bnd (rf False) (\<lambda>fw. bnd (rl False) (\<lambda>lw. ret (fw, lw))))"

text \<open>The constructor of the transaction object takes another identifier, which is not used.\<close>

definition writeBlk_unlocked :: "srp \<Rightarrow> 'd device \<Rightarrow> cacheable \<Rightarrow> u8 list \<Rightarrow> u64 \<Rightarrow> nat \<Rightarrow> u8 \<Rightarrow> u8 \<Rightarrow> ('d srp_state, nat) sem" where
  "writeBlk_unlocked c dev cach src off dbytes msk1 mskn =
     (if dbytes = 0 then ret 0
      else if (case wants_merge c off dbytes msk1 mskn of (a, b) \<Rightarrow> a \<or> b) \<and> cach < WB_CACHEABLE
        then raise (IOError ''CSRPAddressImpl: Cannot merge bits/bytes to non-cacheable area'')
      else let p = write_plan c off dbytes msk1 mskn
        in bnd (read_back c dev p off dbytes) (\<lambda>(fw, lw).
           bnd (getTid c) (\<lambda>tid. bnd (getTid c) (\<lambda>_.
           let msg = write_msg c p tid off src (merge_words c p off src dbytes mskn fw lw)
           in if is_posted c then bnd (push_msg dev msg) (\<lambda>_. ret dbytes)
              else bnd (srp_attempts c dev msg tid ''Too many retries'' (sr_retryCnt c))
                     (\<lambda>m. case write_complete c (wp_nWords p) m of Inl e \<Rightarrow> raise e | Inr _ \<Rightarrow> ret dbytes)))))"

fun write_loop :: "srp \<Rightarrow> 'd device \<Rightarrow> cacheable \<Rightarrow> nat \<Rightarrow> u8 list \<Rightarrow> u64 \<Rightarrow> nat \<Rightarrow> nat \<Rightarrow> nat \<Rightarrow> u8 \<Rightarrow> u8 \<Rightarrow> ('d srp_state, nat) sem" where
  "write_loop c dev cach 0 src off dbytes nWords head msk1 mskn = raise Diverges"
| "write_loop c dev cach (Suc k) src off dbytes nWords head msk1 mskn =
     (if sr_maxWordsTx c < nWords
      then let nbytes = sr_maxWordsTx c * 4 - head
           in bnd (writeBlk_unlocked c dev cach src off nbytes msk1 0)
                (\<lambda>r. bnd (write_loop c dev cach k (drop nbytes src) (off + of_nat nbytes) (dbytes - nbytes) (nWords - sr_maxWordsTx c) 0 0 mskn)
                  (\<lambda>rs. ret (r + rs)))
      else writeBlk_unlocked c dev cach src off dbytes msk1 mskn)"

definition srp_write :: "srp \<Rightarrow> 'd device \<Rightarrow> io_write_args \<Rightarrow> ('d srp_state, nat) sem" where
  "srp_write c dev w =
     (if w_nbytes w = 0 then ret 0
      else let head = headBytes c (w_off w); nWords = (head + w_nbytes w + 3) div 4
           in bnd (write_loop c dev (w_cacheable w) (Suc nWords) (w_src w) (w_off w) (w_nbytes w) nWords head (w_msk1 w) (w_mskn w))
                (\<lambda>r. andThen (upd (\<lambda>s. s\<lparr>ss_nWrites := ss_nWrites s + 1\<rparr>)) (ret r)))"

end
