(* ===== verification/SrpServer.thy ===== *)
theory SrpServer
  imports SrpWriteModel
begin

text \<open>
  The register server of the test programs, \<open>handleSRP\<close> of \<^verbatim>\<open>src/src/test/udpsrv.c\<close>, on a little-endian host, with one range
  of memory from address 0 on. It is the reference of what the other end of the protocol does.
\<close>

datatype srv_cmd = CMD_NOP | CMD_RD | CMD_WR | CMD_PWR

definition bs32 :: "bool \<Rightarrow> u32 \<Rightarrow> u32" where
  "bs32 v1 x = (if v1 then swp32 x else x)"

definition rbuf_word :: "u8 list \<Rightarrow> nat \<Rightarrow> u32" where
  "rbuf_word m i = bytes_word LE (get_at (4 * i) 4 m)"

definition payload_swap :: "bool \<Rightarrow> u8 list \<Rightarrow> u8 list" where
  "payload_swap v1 b = (if v1 then swap_words 0 (length b div 4) b else b)"

text \<open>The command, its address, the number of bytes, and the first word of the answer.\<close>

definition srv_cmd :: "nat \<Rightarrow> u8 list \<Rightarrow> srv_cmd" where
  "srv_cmd vers m =
     (if vers = 3 then
        (let k = drop_bit 8 (rbuf_word m 0) AND 3
         in if k = 0 then CMD_RD else if k = 1 then CMD_WR else if k = 2 then CMD_PWR else CMD_NOP)
      else if bs32 (vers = 1) (rbuf_word m (if vers = 1 then 2 else 1)) AND 0xc0000000 = 0 then CMD_RD else CMD_WR)"

definition srv_off :: "nat \<Rightarrow> u8 list \<Rightarrow> u64" where
  "srv_off vers m =
     (if vers = 3 then push_bit 32 (ucast (rbuf_word m 3)) OR ucast (rbuf_word m 2)
      else ucast (push_bit 2 (bs32 (vers = 1) (rbuf_word m (if vers = 1 then 2 else 1)))))"

definition srv_expected :: "nat \<Rightarrow> nat" where
  "srv_expected vers = (if vers = 3 then 20 else if vers = 1 then 16 else 12)"

definition srv_ooff :: "nat \<Rightarrow> nat" where
  "srv_ooff vers = (if vers = 3 then 5 else if vers = 1 then 3 else 2)"

definition srv_size :: "nat \<Rightarrow> u8 list \<Rightarrow> nat" where
  "srv_size vers m =
     (let cmd = srv_cmd vers m; szoff = (if vers = 3 then 4 else if vers = 1 then 3 else 2)
      in if vers = 3 \<or> cmd = CMD_RD
         then if cmd = CMD_NOP then 0
              else unat ((bs32 (vers = 1) (rbuf_word m szoff) + 1) * (if vers = 3 then 1 else 4))
         else length m - srv_expected vers)"

definition srv_drop :: "nat \<Rightarrow> u8 list \<Rightarrow> bool" where
  "srv_drop vers m =
     (let got = length m; expected = srv_expected vers
      in case srv_cmd vers m of
           CMD_RD \<Rightarrow> got \<noteq> expected + (if vers = 3 then 0 else 4)
         | CMD_NOP \<Rightarrow> got \<noteq> expected
         | _ \<Rightarrow> got < expected \<or> got mod 4 \<noteq> 0 \<or> (vers = 3 \<and> int ((srv_size vers m + 3) mod 2 ^ 32 div 4 * 4) \<noteq> int got - int expected))"

definition srv_word0 :: "nat \<Rightarrow> bool \<Rightarrow> u8 list \<Rightarrow> u32" where
  "srv_word0 vers byteres m =
     (let w = rbuf_word m 0; w = (if w AND 0xff \<noteq> 3 then (w AND NOT 0xff) OR 3 else w)
      in if vers = 3 then (if byteres then w OR 0x400 else w AND NOT 0x400) else rbuf_word m 0)"

text \<open>What lies behind the request in the buffer of the server is taken as zeros. The result is the answer, if there is one, and
  the memory.\<close>

definition handleSRP :: "nat \<Rightarrow> bool \<Rightarrow> nat \<Rightarrow> u8 list \<Rightarrow> u8 list \<Rightarrow> u8 list option \<times> u8 list" where
  "handleSRP vers byteres rbufsz mem m =
     (if srv_drop vers m then (None, mem)
      else
        let cmd = srv_cmd vers m; off = unat (srv_off vers m); size = srv_size vers m; v1 = (vers = 1);
            ooff = 4 * srv_ooff vers;
            badvers = (vers = 3 \<and> rbuf_word m 0 AND 0xff \<noteq> 3);
            refused = (\<not> byteres \<and> (off mod 4 \<noteq> 0 \<or> size mod 4 \<noteq> 0) \<or> rbufsz < size);
            found = (\<not> badvers \<and> cmd \<noteq> CMD_NOP \<and> \<not> refused \<and> off < length mem);
            exec = (found \<and> off + size \<le> length mem);
            st = (\<not> badvers \<and> cmd \<noteq> CMD_NOP \<and> refused);
            size' = (if st then 0 else size);
            status = (if badvers then 0x800 else 0) OR (if st then 0xff else 0);
            nw = (size' + 3) div 4;
            rbuf = m @ replicate (ooff + 4 * ((size + 3) div 4) + 4 - length m) 0;
            rbuf = put_at 0 (word_bytes LE (srv_word0 vers byteres m)) rbuf;
            rd = get_at off size mem @ get_at (ooff + size) ((size + 3) div 4 * 4 - size) rbuf;
            wr = payload_swap v1 (get_at ooff (length m - srv_expected vers) rbuf);
            rbuf = (if exec then put_at ooff (if cmd = CMD_RD then payload_swap v1 rd else wr) rbuf else rbuf);
            mem = (if exec \<and> cmd \<noteq> CMD_RD then put_at off (take size wr) mem else mem)
        in (if found \<and> cmd = CMD_PWR then None else Some (take (ooff + 4 * nw) rbuf @ word_bytes LE status), mem))"

text \<open>A device with this server at the end of a line that loses messages: the \<open>k\<close>th request or its answer.\<close>

record srv_peer =
  pe_mem :: "u8 list"
  pe_count :: nat

definition server :: "nat \<Rightarrow> bool \<Rightarrow> nat \<Rightarrow> (nat \<Rightarrow> bool) \<Rightarrow> (nat \<Rightarrow> bool) \<Rightarrow> (nat \<Rightarrow> timeout \<times> timeout) \<Rightarrow> srv_peer device" where
  "server vers byteres rbufsz lostReq lostAns clock p m =
     (let k = pe_count p; p = p\<lparr>pe_count := k + 1\<rparr>
      in if lostReq k then ([], p)
         else case handleSRP vers byteres rbufsz (pe_mem p) m of (a, mem) \<Rightarrow>
           ((case a of None \<Rightarrow> [] | Some r \<Rightarrow> if lostAns k then [] else [(r, clock k)]), p\<lparr>pe_mem := mem\<rparr>))"

end
