(* ===== verification/SrpWords.thy ===== *)
theory SrpWords
  imports SrpServer
begin

text \<open>
  Words as bytes, and the swaps of the words of a message: what they do to each byte, also where the message is cut into buffers.
\<close>

section \<open>Words\<close>

lemma join32_bytes:
  "(ucast (join32 a b c d) :: u8) = d" "(ucast (drop_bit 8 (join32 a b c d)) :: u8) = c"
  "(ucast (drop_bit 16 (join32 a b c d)) :: u8) = b" "(ucast (drop_bit 24 (join32 a b c d)) :: u8) = a"
  by (rule byte_eqI, auto simp: join32_def bit_simps dest: bit_imp_le_length)+

lemma swp32_swp32 [simp]: "swp32 (swp32 w) = w"
  by (simp add: swp32_def join32_bytes join32_split)

lemma length_word_bytes [simp]: "length (word_bytes h w) = 4"
  by (simp add: word_bytes_def Let_def)

lemma bytes_word_bytes [simp]: "bytes_word h (word_bytes h w) = w"
  by (simp add: bytes_word_def word_bytes_def join32_split numeral_3_eq_3 numeral_2_eq_2)

lemma list4: "length b = 4 \<Longrightarrow> \<exists>w x y z. b = [w, x, y, z]"
  by (auto simp: numeral_eq_Suc length_Suc_conv)

lemma word_bytes_word: "length b = 4 \<Longrightarrow> word_bytes LE (bytes_word LE b) = b"
  by (drule list4) (auto simp: bytes_word_def word_bytes_def join32_bytes numeral_3_eq_3 numeral_2_eq_2)

lemma swpw_rev: "length b = 4 \<Longrightarrow> swpw b = rev b"
  by (drule list4) (auto simp: swpw_def swp32_def bytes_word_def word_bytes_def join32_bytes numeral_3_eq_3 numeral_2_eq_2)

lemma length_swpw [simp]: "length (swpw b) = 4"
  by (simp add: swpw_def)

lemma length_within_word [simp]: "p + n \<le> length b \<Longrightarrow> (\<And>x. length x = n \<Longrightarrow> length (g x) = n) \<Longrightarrow> length (within p n g b) = length b"
  by (simp add: within_def)

section \<open>Swapping the words of a message\<close>

lemma length_swap_all [simp]: "p + 4 * n \<le> length b \<Longrightarrow> length (swap_words p n b) = length b"
  by (induction p n b rule: swap_words.induct) (simp_all add: algebra_simps)

text \<open>Where byte \<open>k\<close> of swapped words comes from.\<close>

definition swap_pos :: "nat \<Rightarrow> nat" where
  "swap_pos k = k div 4 * 4 + (3 - k mod 4)"

lemma swap_pos_swap_pos [simp]: "swap_pos (swap_pos k) = k"
proof -
  define q r where "q = k div 4" and "r = k mod 4"
  have k: "k = q * 4 + r" "r < 4" by (simp_all add: q_def r_def)
  have "3 - r < 4" by simp
  then have "(q * 4 + (3 - r)) div 4 = q" "(q * 4 + (3 - r)) mod 4 = 3 - r" by (simp_all only: div_mult_self3 mod_mult_self3 div_less mod_less)
  then show ?thesis unfolding swap_pos_def q_def [symmetric] r_def [symmetric] using k by simp
qed

lemma swap_pos_bounds: "k < 4 * n \<Longrightarrow> swap_pos k < 4 * n"
proof -
  assume "k < 4 * n"
  then have "k div 4 < n" by simp
  then have "k div 4 * 4 + 4 \<le> 4 * n" by simp
  then show ?thesis unfolding swap_pos_def by linarith
qed

lemma swap_pos_small: "k < 4 \<Longrightarrow> swap_pos k = 3 - k"
  by (simp add: swap_pos_def)

lemma swap_pos_add: "swap_pos (4 + k) = 4 + swap_pos k"
proof -
  have "(4 + k) div 4 = k div 4 + 1" "(4 + k) mod 4 = k mod 4" by simp_all
  then show ?thesis by (simp only: swap_pos_def) simp
qed

lemma swap_pos_in: "p \<le> k \<Longrightarrow> k < p + 4 * n \<Longrightarrow> p + swap_pos (k - p) < p + 4 * n"
  using swap_pos_bounds [of "k - p" n] by linarith

lemma swap_pos_word: "k < 4 \<Longrightarrow> swap_pos (4 * i + k) = 4 * i + (3 - k)"
  by (simp add: swap_pos_def)

lemma within_swpw_nth:
  assumes "p + 4 \<le> length b" "k < length b"
  shows "within p 4 swpw b ! k = (if p \<le> k \<and> k < p + 4 then b ! (p + (3 - (k - p))) else b ! k)"
proof -
  have l: "length (get_at p 4 b) = 4" using assms(1) by simp
  have "swpw (get_at p 4 b) ! j = b ! (p + (3 - j))" if "j < 4" for j
    using that l assms(1) by (simp add: swpw_rev rev_nth nth_get_at)
  then show ?thesis using assms by (auto simp: within_def nth_put_at)
qed

lemma swap_words_nth:
  assumes "p + 4 * n \<le> length b" "k < length b"
  shows "swap_words p n b ! k = (if p \<le> k \<and> k < p + 4 * n then b ! (p + swap_pos (k - p)) else b ! k)"
  using assms
proof (induction p n b rule: swap_words.induct)
  case (2 p n b)
  let ?b = "within p 4 swpw b"
  have l: "length ?b = length b" using 2(2) by simp
  have IH: "swap_words (p + 4) n ?b ! k = (if p + 4 \<le> k \<and> k < p + 4 + 4 * n then ?b ! (p + 4 + swap_pos (k - (p + 4))) else ?b ! k)"
    using 2 l by simp
  have p4: "p + 4 \<le> length b" using 2(2) by simp
  show ?case
  proof (cases "p + 4 \<le> k \<and> k < p + 4 + 4 * n")
    case True
    then have lt: "swap_pos (k - (p + 4)) < 4 * n" by (intro swap_pos_bounds) linarith
    have e: "p + 4 + swap_pos (k - (p + 4)) = p + swap_pos (k - p)"
    proof -
      define j where "j = k - (p + 4)"
      have "k - p = 4 + j" using True by (simp add: j_def)
      then show ?thesis unfolding j_def [symmetric] by (simp add: swap_pos_add)
    qed
    have "?b ! (p + 4 + swap_pos (k - (p + 4))) = b ! (p + 4 + swap_pos (k - (p + 4)))"
      using within_swpw_nth [OF p4, of "p + 4 + swap_pos (k - (p + 4))"] lt 2(2) by simp
    then show ?thesis using IH True e by simp
  next
    case False
    then have "swap_words p (Suc n) b ! k = ?b ! k" using IH unfolding if_not_P [OF False] by simp
    also have "\<dots> = (if p \<le> k \<and> k < p + 4 then b ! (p + (3 - (k - p))) else b ! k)" by (rule within_swpw_nth [OF p4 2(3)])
    also have "\<dots> = (if p \<le> k \<and> k < p + 4 * Suc n then b ! (p + swap_pos (k - p)) else b ! k)"
    proof (cases "p \<le> k \<and> k < p + 4")
      case True
      then have "swap_pos (k - p) = 3 - (k - p)" by (intro swap_pos_small) linarith
      then show ?thesis using True by simp
    next
      case out: False
      then have "\<not> (p \<le> k \<and> k < p + 4 * Suc n)" using False by auto
      then show ?thesis using out by (simp only: if_False)
    qed
    finally show ?thesis .
  qed
qed auto

lemma swap_words_twice: "p + 4 * n \<le> length b \<Longrightarrow> swap_words p n (swap_words p n b) = b"
proof (rule nth_equalityI)
  fix k
  assume a: "p + 4 * n \<le> length b" and "k < length (swap_words p n (swap_words p n b))"
  then have k: "k < length b" by simp
  show "swap_words p n (swap_words p n b) ! k = b ! k"
  proof (cases "p \<le> k \<and> k < p + 4 * n")
    case True
    then have i: "p + swap_pos (k - p) < p + 4 * n" using swap_pos_in by blast
    then have "swap_words p n b ! (p + swap_pos (k - p)) = b ! (p + swap_pos (p + swap_pos (k - p) - p))"
      using a by (subst swap_words_nth) simp_all
    then show ?thesis using True a k by (simp add: swap_words_nth)
  qed (use a k in \<open>auto simp: swap_words_nth\<close>)
qed simp

lemma swap_words_append: "p + 4 * n \<le> length b \<Longrightarrow> swap_words p n (b @ c) = swap_words p n b @ c"
proof (rule nth_equalityI)
  fix k
  assume a: "p + 4 * n \<le> length b" and "k < length (swap_words p n (b @ c))"
  then have k: "k < length (b @ c)" by simp
  have "p + swap_pos (k - p) < length b" if "k < p + 4 * n" "p \<le> k" using swap_pos_in [OF that(2,1)] a by simp
  then show "swap_words p n (b @ c) ! k = (swap_words p n b @ c) ! k"
    using a k by (auto simp: swap_words_nth nth_append)
qed simp

lemma swap_words_shift: "q + 4 * n \<le> length c \<Longrightarrow> swap_words (length b + q) n (b @ c) = b @ swap_words q n c"
proof (rule nth_equalityI)
  fix k
  assume a: "q + 4 * n \<le> length c" and "k < length (swap_words (length b + q) n (b @ c))"
  then have k: "k < length (b @ c)" by simp
  show "swap_words (length b + q) n (b @ c) ! k = (b @ swap_words q n c) ! k"
    using a k by (auto simp: swap_words_nth nth_append algebra_simps)
qed simp

lemma swap_words_add: "p + 4 * (m + n) \<le> length b \<Longrightarrow> swap_words p (m + n) b = swap_words (p + 4 * m) n (swap_words p m b)"
  by (induction p m b rule: swap_words.induct) (simp_all add: algebra_simps)

text \<open>Swapping two parts is swapping the whole.\<close>

lemma swap_words_append2:
  assumes "length b = 4 * m" "length c = 4 * n"
  shows "swap_words 0 (m + n) (b @ c) = swap_words 0 m b @ swap_words 0 n c"
proof -
  have "swap_words 0 (m + n) (b @ c) = swap_words (4 * m) n (swap_words 0 m b @ c)"
    using assms by (simp add: swap_words_add swap_words_append)
  also have "\<dots> = swap_words 0 m b @ swap_words 0 n c"
    using swap_words_shift [of 0 n c "swap_words 0 m b"] assms by simp
  finally show ?thesis .
qed

lemma swap_words_1: "length b = 4 \<Longrightarrow> swap_words 0 1 b = swpw b"
  by (simp add: within_def put_at_def get_at_def swpw_rev)

section \<open>Buffers\<close>

lemma concat_chunks [simp]: "concat (chunks n xs) = xs"
  by (induction n xs rule: chunks.induct) (subst chunks.simps, simp)

lemma chunks_dvd: "0 < n \<Longrightarrow> 4 dvd n \<Longrightarrow> 4 dvd length xs \<Longrightarrow> b \<in> set (chunks n xs) \<Longrightarrow> 4 dvd length b"
proof (induction n xs rule: chunks.induct)
  case (1 n xs)
  show ?case
  proof (cases "xs = []")
    case True
    then show ?thesis using 1(5) by (simp add: chunks.simps)
  next
    case False
    then have "b = take n xs \<or> b \<in> set (chunks n (drop n xs))" using 1(2,5) chunks.simps [of n xs] by auto
    moreover have "4 dvd length (take n xs)" using 1(3,4) by (simp add: min_def)
    moreover have "4 dvd length (drop n xs)" using 1(3,4) by simp
    ultimately show ?thesis using 1(1) False 1(2,3) by blast
  qed
qed

lemma within_append: "p + 4 \<le> length b \<Longrightarrow> within p 4 swpw (b @ c) = within p 4 swpw b @ c"
  by (simp add: within_def put_at_def get_at_def)

lemma swap_bufs_words:
  "\<forall>b \<in> set bs. 4 dvd length b \<Longrightarrow> 4 dvd o1 \<Longrightarrow> (bs \<noteq> [] \<longrightarrow> o1 \<le> length (hd bs)) \<Longrightarrow> o1 + 4 * n \<le> length (concat bs)
    \<Longrightarrow> concat (swap_bufs bs o1 (4 * n)) = swap_words o1 n (concat bs)"
proof (induction bs o1 "4 * n" arbitrary: n rule: swap_bufs.induct)
  case (1 o1)
  then show ?case by simp
next
  case (2 b bs o1)
  show ?case
  proof (cases n)
    case 0
    then show ?thesis by simp
  next
    case (Suc m)
    show ?thesis
    proof (cases "o1 + 4 \<le> length b")
      case True
      have "concat (swap_bufs (within o1 4 swpw b # bs) (o1 + 4) (4 * m)) = swap_words (o1 + 4) m (concat (within o1 4 swpw b # bs))"
        by (rule 2(1)) (use 2(3-6) True Suc in \<open>auto simp: dvd_add_right_iff\<close>)
      then show ?thesis using Suc True within_append [OF True, of "concat bs"] by simp
    next
      case False
      have o1: "o1 = length b"
      proof -
        have "4 dvd length b" "4 dvd o1" "o1 \<le> length b" using 2(3-5) by auto
        then show ?thesis using False by (auto elim!: dvdE)
      qed
      have "concat (swap_bufs bs 0 (4 * n)) = swap_words 0 n (concat bs)"
        by (rule 2(2)) (use 2(3-6) False Suc o1 in auto)
      then show ?thesis using Suc False o1 swap_words_shift [of 0 n "concat bs" b] 2(6) by simp
    qed
  qed
qed

lemma skip_bufs_concat:
  "skip_bufs bs o1 = (sk, r, o2) \<Longrightarrow> o1 \<le> length (concat bs) \<Longrightarrow>
   concat bs = concat sk @ concat r \<and> length (concat sk) + o2 = o1 \<and> (r \<noteq> [] \<longrightarrow> o2 < length (hd r)) \<and> set r \<subseteq> set bs
   \<and> (\<forall>b \<in> set sk. b \<in> set bs)"
proof (induction bs o1 arbitrary: sk r o2 rule: skip_bufs.induct)
  case (2 b bs o1)
  show ?case
  proof (cases "length b \<le> o1")
    case True
    then obtain sk' where s: "skip_bufs bs (o1 - length b) = (sk', r, o2)" "sk = b # sk'"
      using 2(2) by (auto split: prod.splits)
    have "o1 - length b \<le> length (concat bs)" using 2(3) by simp
    note IH = 2(1) [OF True s(1) this]
    have "length (concat sk') + o2 = o1 - length b" using IH by blast
    then have "length (concat sk) + o2 = o1" using s(2) True by simp
    moreover have "set r \<subseteq> set (b # bs)" "\<forall>x \<in> set sk. x \<in> set (b # bs)" "concat (b # bs) = concat sk @ concat r"
      using IH s(2) by auto
    ultimately show ?thesis using IH by blast
  qed (use 2 in auto)
qed auto

lemma assembleXBuf_swaps:
  assumes mtu: "0 < sr_mtu c" "4 dvd sr_mtu c" and len: "4 dvd length (concat (pre @ pld # post))" "4 dvd length (concat pre)"
    and n: "length pld = 4 * n"
  shows "assembleXBuf c (pre @ pld # post) (Some (length pre)) (4 * n) = concat pre @ swap_words 0 n pld @ concat post"
proof -
  let ?all = "concat (pre @ pld # post)" and ?p = "length (concat pre)"
  obtain sk r o2 where s: "skip_bufs (chunks (sr_mtu c) ?all) ?p = (sk, r, o2)" by (metis prod_cases3)
  have k: "?all = concat sk @ concat r" "length (concat sk) + o2 = ?p" "r \<noteq> [] \<longrightarrow> o2 < length (hd r)"
      "set r \<subseteq> set (chunks (sr_mtu c) ?all)" "\<forall>b \<in> set sk. b \<in> set (chunks (sr_mtu c) ?all)"
  proof -
    have le: "?p \<le> length ?all" by simp
    note k = skip_bufs_concat [OF s, unfolded concat_chunks, OF le]
    show "?all = concat sk @ concat r" "length (concat sk) + o2 = ?p" "r \<noteq> [] \<longrightarrow> o2 < length (hd r)"
      "set r \<subseteq> set (chunks (sr_mtu c) ?all)" "\<forall>b \<in> set sk. b \<in> set (chunks (sr_mtu c) ?all)"
      using k by blast+
  qed
  have dv: "\<forall>b \<in> set r. 4 dvd length b" "\<forall>b \<in> set sk. 4 dvd length b"
    using k(4,5) chunks_dvd [OF mtu len(1)] by auto
  have "4 dvd length (concat sk)" using dv(2) by (induction sk) auto
  then have "4 dvd o2" using len(2) k(2) by (metis dvd_add_right_iff)
  moreover have "length ?all = length (concat sk) + length (concat r)" using k(1) by (metis length_append)
  then have fit: "o2 + 4 * n \<le> length (concat r)" using k(2) n by simp
  ultimately have "concat (swap_bufs r o2 (4 * n)) = swap_words o2 n (concat r)"
    using swap_bufs_words [OF dv(1), of o2 n] k(3) by auto
  then have "assembleXBuf c (pre @ pld # post) (Some (length pre)) (4 * n) = concat sk @ swap_words o2 n (concat r)"
    using s by (simp add: assembleXBuf_def)
  also have "\<dots> = swap_words ?p n ?all"
    using swap_words_shift [OF fit, of "concat sk"] k(1,2) by simp
  also have "\<dots> = concat pre @ swap_words 0 n pld @ concat post"
    using swap_words_shift [of 0 n "pld @ concat post" "concat pre"] swap_words_append [of 0 n pld "concat post"] n by simp
  finally show ?thesis .
qed

lemma assembleXBuf_plain: "assembleXBuf c iov None n = concat iov"
  by (simp add: assembleXBuf_def)

end
