(* ===== verification/SrpReply.thy ===== *)
theory SrpReply
  imports SrpWords
begin

text \<open>
  What the client makes of an answer: the bytes of the caller come out of the payload, also where the first version of
  the protocol sends the words in network order and the access does not begin or end with a word.
\<close>

section \<open>The payload of the first version\<close>

lemma swap_words_all_nth:
  assumes "length Q = 4 * n" "k < 4 * n"
  shows "swap_words 0 n Q ! k = Q ! swap_pos k"
  using assms by (simp add: swap_words_nth)

lemma swap_pos_dvd: "4 dvd e \<Longrightarrow> swap_pos (e + k) = e + swap_pos k"
proof -
  assume "4 dvd e"
  then obtain q where e: "e = 4 * q" by (elim dvdE)
  show ?thesis unfolding e
  proof (induction q)
    case (Suc q)
    have "swap_pos (4 * Suc q + k) = swap_pos (4 + (4 * q + k))" by (simp add: algebra_simps)
    also have "\<dots> = 4 + swap_pos (4 * q + k)" by (rule swap_pos_add)
    finally show ?case using Suc by simp
  qed simp
qed

text \<open>A word of the swapped payload swaps back.\<close>

lemma swpw_word:
  assumes Q: "length Q = 4 * n" and e: "4 dvd e" "e + 4 \<le> 4 * n" and b: "length b = 4" "\<And>k. k < 4 \<Longrightarrow> b ! k = swap_words 0 n Q ! (e + k)"
  shows "k < 4 \<Longrightarrow> swpw b ! k = Q ! (e + k)"
proof -
  assume k: "k < 4"
  have "swpw b ! k = b ! (3 - k)" using b(1) k by (simp add: swpw_rev rev_nth)
  also have "\<dots> = swap_words 0 n Q ! (e + (3 - k))" by (rule b(2)) simp
  also have "\<dots> = Q ! swap_pos (e + (3 - k))" by (rule swap_words_all_nth [OF Q]) (use e k in simp)
  also have "swap_pos (e + (3 - k)) = e + k" unfolding swap_pos_dvd [OF e(1)] using swap_pos_small [of "3 - k"] k by simp
  finally show ?thesis .
qed

lemma put_within_ok: "p + length b \<le> length out \<Longrightarrow> put_within p b out = Inr (put_at p b out)"
  by (simp add: put_within_def)

definition read_tail :: "nat \<Rightarrow> nat" where
  "read_tail tot = (if tot mod 4 \<noteq> 0 then 4 - tot mod 4 else 0)"

text \<open>The three parts of the swap, with \<open>S\<close> the payload as it came and \<open>Q\<close> the bytes of the memory.\<close>

lemma swap_head_spec:
  fixes S Q out :: "u8 list" and N :: nat
  defines "S \<equiv> swap_words 0 N Q"
  assumes Q: "length Q = 4 * N" and x: "rx_headBytes x = h" "rx_sbytes x = n" and h: "0 < h" "h < 4" "4 - h \<le> n" "0 < N"
    and out: "dst + n \<le> length out" "\<And>k. k < n \<Longrightarrow> out ! (dst + k) = S ! (h + k)" and hdr: "get_at 8 h hdr = take h S"
  shows "\<exists>o1. swap_head x hdr tlb dst out = Inr o1 \<and> length o1 = length out
    \<and> (\<forall>k < length out. o1 ! k = (if dst \<le> k \<and> k < dst + (4 - h) then Q ! (h + (k - dst)) else out ! k))"
proof -
  let ?tmp = "take h S @ get_at dst (4 - h) out"
  have SN: "length S = 4 * N" using Q by (simp add: S_def)
  have lt: "length (take h S) = h" using SN h by simp
  have lg: "length (get_at dst (4 - h) out) = 4 - h" using out(1) h by (intro length_get_at) simp
  have tmp: "length ?tmp = 4" using lt lg h by simp
  have tn: "?tmp ! k = S ! (0 + k)" if "k < 4" for k
  proof (cases "k < h")
    case False
    then have "?tmp ! k = out ! (dst + (k - h))" using lt that out(1) h by (simp add: nth_append nth_get_at)
    then show ?thesis using out(2) [of "k - h"] False that h by simp
  qed (use lt in \<open>simp add: nth_append\<close>)
  have sw: "swpw ?tmp ! k = Q ! k" if "k < 4" for k
    using swpw_word [of Q N 0, OF Q dvd_0_right _ tmp [unfolded S_def] tn [unfolded S_def] that] h unfolding S_def by simp
  let ?b = "get_at h (4 - h) (swpw ?tmp)"
  have lb: "length ?b = 4 - h" using h by simp
  have b: "?b ! k = Q ! (h + k)" if "k < 4 - h" for k using that sw [of "h + k"] h by (simp add: nth_get_at)
  have "swap_head x hdr tlb dst out = Inr (put_at dst ?b out)"
    unfolding swap_head_def Let_def x using h hdr lb out(1) by (simp add: put_within_ok)
  moreover have "length (put_at dst ?b out) = length out" using lb out(1) h by simp
  moreover have "put_at dst ?b out ! k = (if dst \<le> k \<and> k < dst + (4 - h) then Q ! (h + (k - dst)) else out ! k)" if "k < length out" for k
    using that lb out(1) h b [of "k - dst"] by (subst nth_put_at) auto
  ultimately show ?thesis by blast
qed

lemma swap_payload_spec:
  fixes S Q out :: "u8 list" and N :: nat
  defines "S \<equiv> swap_words 0 N Q"
  assumes Q: "length Q = 4 * N" and N: "N = (h + n + 3) div 4" "0 < n" and x: "rx_headBytes x = h" "rx_sbytes x = n" "rx_tailBytes x = read_tail (h + n)"
    and h: "h < 4" "0 < h \<Longrightarrow> 4 - h \<le> n"
    and out: "dst + n \<le> length out" "\<And>k. k < n \<Longrightarrow> out ! (dst + k) = S ! (h + k)" and hdr: "get_at 8 h hdr = take h S"
    and tlb: "tlb = get_at (h + n) (read_tail (h + n)) S"
  shows "\<exists>o3. swap_payload x hdr tlb dst out = Inr o3 \<and> length o3 = length out
    \<and> (\<forall>k < length out. o3 ! k = (if dst \<le> k \<and> k < dst + n then Q ! (h + (k - dst)) else out ! k))"
proof -
  define hoff where "hoff = (if h \<noteq> 0 then 4 - h else 0)"
  define m where "m = (n - hoff) div 4"
  define e where "e = h + hoff"
  have hn: "hoff \<le> n" "4 dvd e" "e \<le> 4" using h by (auto simp: hoff_def e_def)
  have tot: "h + n = e + (n - hoff)" using hn by (simp add: e_def)
  have SN: "length S = 4 * N" using Q by (simp add: S_def)
  have N0: "0 < N" "h + n \<le> 4 * N" using N by simp_all
  obtain o1 where o1: "(if h \<noteq> 0 then swap_head x hdr tlb dst out else Inr out) = Inr o1" "length o1 = length out"
      "\<And>k. k < length out \<Longrightarrow> o1 ! k = (if dst \<le> k \<and> k < dst + hoff then Q ! (h + (k - dst)) else out ! k)"
  proof (cases "h = 0")
    case False
    then show ?thesis using that swap_head_spec [OF Q x(1,2) _ h(1) h(2) N0(1) out(1) out(2) [unfolded S_def] hdr [unfolded S_def]]
      by (auto simp: hoff_def)
  next
    case True
    show ?thesis by (rule that [of out]) (auto simp: hoff_def True)
  qed
  let ?o2 = "swap_words (dst + hoff) m o1"
  have fit: "dst + hoff + 4 * m \<le> length o1" using out(1) hn o1(2) by (simp add: m_def)
  have l2: "length ?o2 = length out" using fit o1(2) by simp
  have eN: "e + 4 * m \<le> 4 * N" using tot N0(2) by (simp add: m_def)
  have o2: "?o2 ! k = (if dst \<le> k \<and> k < dst + hoff + 4 * m then Q ! (h + (k - dst)) else out ! k)" if k: "k < length out" for k
  proof (cases "dst + hoff \<le> k \<and> k < dst + hoff + 4 * m")
    case True
    define j where "j = k - (dst + hoff)"
    have j: "j < 4 * m" "k = dst + hoff + j" using True by (auto simp: j_def)
    have sj: "swap_pos j < 4 * m" using j(1) by (rule swap_pos_bounds)
    have "?o2 ! k = o1 ! (dst + hoff + swap_pos j)" using True fit k o1(2) by (simp add: swap_words_nth j_def)
    also have "\<dots> = out ! (dst + (hoff + swap_pos j))" using o1(3) [of "dst + hoff + swap_pos j"] sj fit o1(2) by (simp add: add.assoc)
    also have "\<dots> = S ! (h + (hoff + swap_pos j))" by (rule out(2)) (use sj hn in \<open>simp add: m_def\<close>)
    also have "h + (hoff + swap_pos j) = swap_pos (e + j)" using swap_pos_dvd [OF hn(2)] by (simp add: e_def)
    also have "S ! swap_pos (e + j) = Q ! (e + j)"
      using swap_words_all_nth [OF Q, of "swap_pos (e + j)"] swap_pos_bounds [of "e + j" N] j(1) eN by (simp add: S_def)
    finally show ?thesis using True j(2) by (simp add: e_def add.assoc)
  next
    case False
    then have "?o2 ! k = o1 ! k" using swap_words_nth [OF fit, of k] k o1(2) unfolding if_not_P [OF False] by simp
    then show ?thesis using o1(3) [OF k] False by auto
  qed
  define r where "r = (n - hoff) mod 4"
  have r: "n = hoff + 4 * m + r" "r < 4" using hn(1) by (simp_all add: m_def r_def)
  have tm: "(h + n) mod 4 = r" using tot hn(2) by (simp add: r_def mod_add_eq [symmetric] dvd_eq_mod_eq_0) 
  have rt: "read_tail (h + n) = (if r \<noteq> 0 then 4 - r else 0)" by (simp add: read_tail_def tm)
  show ?thesis
  proof (cases "r = 0")
    case True
    have "swap_payload x hdr tlb dst out = Inr ?o2"
      unfolding swap_payload_def Let_def x hoff_def [symmetric] using o1(1) rt True by (simp add: m_def)
    then show ?thesis using l2 o2 r(1) True by auto
  next
    case False
    define p where "p = dst + hoff + 4 * m"
    let ?tmp = "get_at p r ?o2 @ tlb"
    have pr: "p + r = dst + n" using r(1) by (simp add: p_def)
    have e4: "4 dvd e + 4 * m" "e + 4 * m + 4 \<le> 4 * N"
    proof -
      show "4 dvd e + 4 * m" using hn(2) by simp
      have "e + 4 * m + r \<le> 4 * N" using N0(2) tot r(1) by simp
      then show "e + 4 * m + 4 \<le> 4 * N" using hn(2) False by presburger
    qed
    have he: "h + n = e + 4 * m + r" using tot r(1) by simp
    have tlb': "tlb = get_at (e + 4 * m + r) (4 - r) S" using tlb rt False he by simp
    have lt: "length tlb = 4 - r" unfolding tlb' using e4(2) r(2) SN by (intro length_get_at) simp
    have lg: "length (get_at p r ?o2) = r" using pr out(1) l2 by (intro length_get_at) simp
    have tmp: "length ?tmp = 4" using lt lg r(2) by simp
    have tn: "?tmp ! k = S ! (e + 4 * m + k)" if "k < 4" for k
    proof (cases "k < r")
      case True
      then have "?tmp ! k = ?o2 ! (p + k)" using lg pr out(1) l2 by (simp add: nth_append nth_get_at)
      also have "\<dots> = out ! (dst + (hoff + 4 * m + k))" using o2 [of "p + k"] True pr out(1) by (simp add: p_def add.assoc)
      also have "\<dots> = S ! (h + (hoff + 4 * m + k))" by (rule out(2)) (use True r(1) in simp)
      finally show ?thesis by (simp add: e_def add.assoc)
    next
      case False
      then have "?tmp ! k = get_at (e + 4 * m + r) (4 - r) S ! (k - r)" using lg by (simp add: nth_append tlb')
      also have "\<dots> = S ! (e + 4 * m + r + (k - r))" by (rule nth_get_at) (use e4(2) SN False that in simp_all)
      finally show ?thesis using False by (simp add: add.assoc)
    qed
    let ?b = "take r (swpw ?tmp)"
    have lb: "length ?b = r" using r(2) by simp
    have b: "?b ! k = Q ! (e + 4 * m + k)" if "k < r" for k
      using swpw_word [OF Q e4 tmp [unfolded S_def] tn [unfolded S_def], of k] that r(2) by simp
    have put: "put_within p ?b ?o2 = Inr (put_at p ?b ?o2)" using lb pr out(1) l2 by (intro put_within_ok) simp
    have tb: "rx_tailBytes x = 4 - r" "4 - r \<noteq> 0" "4 - (4 - r) = r" using x(3) rt False r(2) by simp_all
    have "swap_payload x hdr tlb dst out = Inr (put_at p ?b ?o2)"
      unfolding swap_payload_def Let_def x(1,2) hoff_def [symmetric] tb(1,3) o1(1) sum.case m_def [symmetric] p_def [symmetric]
      using hn(1) tb(2) put by simp
    moreover have "length (put_at p ?b ?o2) = length out" using lb pr out(1) l2 by simp
    moreover have "put_at p ?b ?o2 ! k = (if dst \<le> k \<and> k < dst + n then Q ! (h + (k - dst)) else out ! k)" if k: "k < length out" for k
    proof (cases "p \<le> k \<and> k < p + r")
      case True
      then have "put_at p ?b ?o2 ! k = ?b ! (k - p)" using k lb pr out(1) l2 by (subst nth_put_at) simp_all
      also have "\<dots> = Q ! (e + 4 * m + (k - p))" by (rule b) (use True in linarith)
      also have "e + 4 * m + (k - p) = h + (k - dst)" using True by (simp add: p_def e_def)
      finally show ?thesis using True pr by (simp add: p_def)
    next
      case False
      then have "put_at p ?b ?o2 ! k = ?o2 ! k" using k lb pr out(1) l2 by (subst nth_put_at) auto
      then show ?thesis using o2 [OF k] False pr by (auto simp: p_def)
    qed
    ultimately show ?thesis by blast
  qed
qed

end
