(* ===== verification/SrpRequest.thy ===== *)
theory SrpRequest
  imports SrpReply
begin

text \<open>
  What the server understands of a request, and its answer.
\<close>

section \<open>Configurations\<close>

definition srp_ok :: "nat \<Rightarrow> srp \<Rightarrow> bool" where
  "srp_ok vers c \<longleftrightarrow> sr_host c = LE
     \<and> (vers = 1 \<and> sr_protoVersion c = SRP_UDP_V1 \<or> vers = 2 \<and> sr_protoVersion c = SRP_UDP_V2 \<or> vers = 3 \<and> sr_protoVersion c = SRP_UDP_V3)
     \<and> (sr_byteResolution c \<longrightarrow> vers = 3) \<and> 0 < sr_mtu c \<and> 4 dvd sr_mtu c \<and> 0 < sr_maxWordsRx c \<and> 0 < sr_maxWordsTx c"

lemma srp_ok_cases:
  assumes "srp_ok vers c"
  obtains "vers = 1" "sr_protoVersion c = SRP_UDP_V1" "\<not> sr_byteResolution c"
    | "vers = 2" "sr_protoVersion c = SRP_UDP_V2" "\<not> sr_byteResolution c"
    | "vers = 3" "sr_protoVersion c = SRP_UDP_V3"
  using assms by (auto simp: srp_ok_def)

lemma version_lt [simp]:
  "SRP_UDP_V1 < SRP_UDP_V3" "SRP_UDP_V2 < SRP_UDP_V3" "SRP_UDP_V3 \<le> SRP_UDP_V3" "\<not> SRP_UDP_V3 \<le> SRP_UDP_V1" "\<not> SRP_UDP_V3 \<le> SRP_UDP_V2"
  by (simp_all add: less_srp_version_def less_eq_srp_version_def)

text \<open>The bytes which an access moves: from \<open>base\<close> on, \<open>span\<close> bytes.\<close>

definition n_words :: "srp \<Rightarrow> u64 \<Rightarrow> nat \<Rightarrow> nat" where
  "n_words c off n = (headBytes c off + n + 3) div 4"

definition span :: "srp \<Rightarrow> u64 \<Rightarrow> nat \<Rightarrow> nat" where
  "span c off n = (if sr_byteResolution c then n else 4 * n_words c off n)"

definition base :: "srp \<Rightarrow> u64 \<Rightarrow> nat" where
  "base c off = unat off - headBytes c off"

definition reachable_mem :: "nat \<Rightarrow> srp \<Rightarrow> nat \<Rightarrow> u8 list \<Rightarrow> u64 \<Rightarrow> nat \<Rightarrow> bool" where
  "reachable_mem vers c rbufsz mem off n \<longleftrightarrow> base c off + span c off n \<le> length mem \<and> length mem + 4 \<le> 2 ^ 32
     \<and> span c off n \<le> rbufsz"

section \<open>Words of a request\<close>

lemma length_hdr_bytes [simp]: "length (hdr_bytes c ws) = 4 * length ws"
  by (induction ws) (simp_all add: hdr_bytes_def)

lemma hdr_bytes_word:
  assumes "i < length ws" "sr_host c = LE"
  shows "rbuf_word (hdr_bytes c ws @ r) i = (if needsHdrSwap c then swp32 (ws ! i) else ws ! i)"
proof -
  have "get_at (4 * i) 4 (hdr_bytes c ws @ r) = word_bytes LE (if needsHdrSwap c then swp32 (ws ! i) else ws ! i)"
    using assms(1)
  proof (induction ws arbitrary: i)
    case (Cons w ws)
    show ?case
    proof (cases i)
      case 0
      then show ?thesis using assms(2) by (simp add: hdr_bytes_def get_at_def)
    next
      case (Suc j)
      then have "get_at (4 * i) 4 (hdr_bytes c (w # ws) @ r) = get_at (4 * j) 4 (hdr_bytes c ws @ r)"
        by (simp add: hdr_bytes_def get_at_def)
      then show ?thesis using Cons Suc by simp
    qed
  qed simp
  then show ?thesis by (simp add: rbuf_word_def)
qed

lemma srv_word:
  assumes "srp_ok vers c" "i < length ws"
  shows "bs32 (vers = 1) (rbuf_word (hdr_bytes c ws @ r) i) = ws ! i" "vers = 3 \<Longrightarrow> rbuf_word (hdr_bytes c ws @ r) i = ws ! i"
  using assms hdr_bytes_word [of i ws c r] by (auto simp: srp_ok_def bs32_def needsHdrSwap_def)

section \<open>Addresses\<close>

lemma off_and_not_3: "(off :: u64) AND NOT 3 = push_bit 2 (drop_bit 2 off)"
proof (rule bit_word_eqI)
  fix k
  assume "k < LENGTH(64)"
  have e: "(3 :: u64) = mask 2" by (simp add: mask_eq_exp_minus_1)
  have "2 + (k - 2) = k" if "2 \<le> k" using that by simp
  then show "bit (off AND NOT 3) k = bit (push_bit 2 (drop_bit 2 off)) k"
    unfolding e using \<open>k < LENGTH(64)\<close> by (cases "2 \<le> k") (simp_all only: bit_and_iff bit_not_iff_eq bit_mask_iff bit_push_bit_iff bit_drop_bit_eq
      o_apply, auto)
qed

lemma unat_off_and_not_3: "unat ((off :: u64) AND NOT 3) = unat off div 4 * 4"
proof -
  have "unat off div 4 * 4 < 2 ^ 64" using unsigned_less [of off, where 'a = nat] by simp
  moreover have "unat (drop_bit 2 off) = unat off div 4"
    using unsigned_drop_bit_eq [of 2 off, where 'a = nat] unsigned_less [of off, where 'a = nat]
    by (simp add: drop_bit_eq_div take_bit_nat_eq_self)
  then have "unat (push_bit 2 (drop_bit 2 off)) = take_bit 64 (unat off div 4 * 4)"
    using unsigned_push_bit_eq [of 2 "drop_bit 2 off", where 'a = nat] by (simp only: push_bit_eq_mult) simp
  ultimately show ?thesis unfolding off_and_not_3 by (simp only: take_bit_nat_eq_self)
qed

lemma base_div: "\<not> sr_byteResolution c \<Longrightarrow> base c off = unat off div 4 * 4"
  by (simp add: base_def headBytes_def minus_mod_eq_div_mult)

lemma u64_small_bit: "unat (off :: u64) < 2 ^ 32 \<Longrightarrow> 32 \<le> k \<Longrightarrow> \<not> bit off k"
proof -
  assume "unat off < 2 ^ 32" "32 \<le> k"
  then have "unat off < 2 ^ k" using power_increasing [of 32 k "2 :: nat"] by linarith
  then have "\<not> bit (unat off) k" by (simp add: bit_iff_odd)
  then show ?thesis by (simp add: bit_unsigned_iff)
qed

lemma ucast_push_bit_2:
  fixes X :: u32 and off :: u64
  assumes "unat off < 2 ^ 32" "\<And>j. j < 30 \<Longrightarrow> bit X j \<longleftrightarrow> bit off (2 + j)"
  shows "(ucast (push_bit 2 X) :: u64) = push_bit 2 (drop_bit 2 off)"
proof (rule bit_word_eqI)
  fix k
  assume k: "k < LENGTH(64)"
  show "bit (ucast (push_bit 2 X) :: u64) k = bit (push_bit 2 (drop_bit 2 off)) k"
  proof (cases "2 \<le> k")
    case True
    then obtain j where j: "k = 2 + j" by (metis le_add_diff_inverse)
    show ?thesis using k assms(2) [of j] u64_small_bit [OF assms(1), of k] unfolding j
      by (cases "j < 30") (auto simp: bit_simps)
  qed (simp add: bit_simps)
qed

lemma v12_addr:
  fixes off :: u64
  assumes "unat off < 2 ^ 32" "cmd = 0 \<or> cmd = push_bit 30 1"
  shows "unat (ucast (push_bit 2 ((ucast (drop_bit 2 off) AND mask 30) OR cmd :: u32)) :: u64) = unat off div 4 * 4"
proof -
  have "bit ((ucast (drop_bit 2 off) AND mask 30) OR cmd :: u32) j \<longleftrightarrow> bit off (2 + j)" if "j < 30" for j
    using that assms(2) by (auto simp: bit_simps simp del: push_bit_of_1)
  from ucast_push_bit_2 [OF assms(1) this] show ?thesis using unat_off_and_not_3 [of off] by (simp only: off_and_not_3)
qed

lemma mask_30: "(0x3fffffff :: u32) = mask 30"
  by (simp add: mask_eq_exp_minus_1)

lemma bit_30: "(0x40000000 :: u32) = push_bit 30 1"
  by simp

end
