(* ===== verification/SrpAnswer.thy ===== *)
theory SrpAnswer
  imports SrpRequest
begin

text \<open>
  The answer of the server to a request to read, and what the client makes of it: exactly the bytes of the memory.
\<close>

section \<open>The request\<close>

lemma srv_word0:
  assumes "srp_ok vers c" "i < length ws"
  shows "bs32 (vers = 1) (rbuf_word (hdr_bytes c ws) i) = ws ! i" "vers = 3 \<Longrightarrow> rbuf_word (hdr_bytes c ws) i = ws ! i"
  using srv_word [OF assms, of "[]"] by simp_all

lemma unat_words: "4 * k < 2 ^ 32 \<Longrightarrow> unat ((of_nat k - 1 + 1) * 4 :: u32) = 4 * k" "4 * k < 2 ^ 32 \<Longrightarrow> unat (push_bit 2 (of_nat k) - 1 + 1 :: u32) = 4 * k"
proof -
  have "unat (of_nat (4 * k) :: u32) = 4 * k" if "4 * k < 2 ^ 32" using that by (simp add: unat_of_nat del: of_nat_mult)
  moreover have "(of_nat k - 1 + 1) * 4 = (of_nat (4 * k) :: u32)" "push_bit 2 (of_nat k) - 1 + 1 = (of_nat (4 * k) :: u32)"
    by (simp_all add: push_bit_eq_mult)
  ultimately show "4 * k < 2 ^ 32 \<Longrightarrow> unat ((of_nat k - 1 + 1) * 4 :: u32) = 4 * k"
      "4 * k < 2 ^ 32 \<Longrightarrow> unat (push_bit 2 (of_nat k) - 1 + 1 :: u32) = 4 * k"
    by (simp_all only:)
qed

lemma v3_addr: "push_bit 32 (ucast (ucast (drop_bit 32 off) :: u32)) OR ucast (ucast a :: u32) = a" if "drop_bit 32 off = drop_bit 32 a" for off a :: u64
proof (rule bit_word_eqI)
  fix k
  assume k: "k < LENGTH(64)"
  have h: "bit (drop_bit 32 off) j = bit (drop_bit 32 a) j" for j using that by simp
  show "bit (push_bit 32 (ucast (ucast (drop_bit 32 off) :: u32)) OR ucast (ucast a :: u32) :: u64) k = bit a k"
  proof (cases "32 \<le> k")
    case True
    then obtain j where j: "k = 32 + j" by (metis le_add_diff_inverse)
    show ?thesis using k h [of j] unfolding j by (auto simp: bit_simps)
  qed (auto simp: bit_simps)
qed

lemma v3_off:
  "push_bit 32 (ucast (ucast (drop_bit 32 off) :: u32)) OR ucast (ucast (if b then off else off AND NOT 3) :: u32) = (if b then off else off AND NOT 3 :: u64)"
proof (rule v3_addr)
  have "drop_bit 32 off = drop_bit 32 (off AND NOT 3)" unfolding off_and_not_3
    by (rule bit_word_eqI) (auto simp: bit_simps dest: bit_imp_le_length)
  then show "drop_bit 32 off = drop_bit 32 (if b then off else off AND NOT 3)" by simp
qed

lemma unat_base: "unat (if sr_byteResolution c then off else off AND NOT 3) = base c off"
proof (cases "sr_byteResolution c")
  case False
  then show ?thesis unfolding base_div [OF False] by (simp only: if_False unat_off_and_not_3)
qed (simp add: base_def headBytes_def)

lemma head_span: "headBytes c off + n \<le> span c off n"
proof (cases "sr_byteResolution c")
  case False
  have "t \<le> 4 * ((t + 3) div 4)" for t :: nat by simp
  then show ?thesis using False by (simp only: span_def n_words_def if_False)
qed (simp add: span_def headBytes_def)

lemma read_request:
  assumes ok: "srp_ok vers c" and n: "0 < n" and R: "reachable_mem vers c rb mem off n" and m: "m = hdr_bytes c (rx_xbuf (read_resetMe c tid off n))"
  shows "srv_cmd vers m = CMD_RD" "unat (srv_off vers m) = base c off" "srv_size vers m = span c off n" "\<not> srv_drop vers m"
    "length m = (if vers = 2 then 16 else 20)"
    "bs32 (vers = 1) (rbuf_word m (if vers = 2 then 0 else 1)) = tid" "vers = 3 \<Longrightarrow> rbuf_word m 0 = 3"
proof -
  let ?ws = "rx_xbuf (read_resetMe c tid off n)" and ?k = "n_words c off n"
  have bnd: "4 * ?k < 2 ^ 32" if "\<not> sr_byteResolution c" using R that by (simp add: reachable_mem_def span_def)
  have off: "unat off < 2 ^ 32"
  proof -
    have "headBytes c off + n \<le> span c off n" by (rule head_span)
    then have "base c off + (headBytes c off + n) < 2 ^ 32" using R by (simp add: reachable_mem_def)
    moreover have "unat off \<le> base c off + headBytes c off" by (simp add: base_def)
    ultimately show ?thesis by simp
  qed
  have all: "srv_cmd vers m = CMD_RD \<and> unat (srv_off vers m) = base c off \<and> srv_size vers m = span c off n
      \<and> length m = (if vers = 2 then 16 else 20) \<and> bs32 (vers = 1) (rbuf_word m (if vers = 2 then 0 else 1)) = tid
      \<and> (vers = 3 \<longrightarrow> rbuf_word m 0 = 3)"
  proof (cases rule: srp_ok_cases [OF ok])
    case 1
    have ws: "?ws = [push_bit 24 (ucast (sr_vc c)), tid, (ucast (drop_bit 2 off) AND mask 30) OR 0, of_nat ?k - 1, 0]"
      using 1 by (simp add: read_resetMe_def Let_def n_words_def CMD_READ_def mask_30)
    have len: "length m = 20" by (simp add: m ws)
    have w: "bs32 True (rbuf_word m i) = ?ws ! i" if "i < 5" for i
      using srv_word0(1) [OF ok, of i ?ws] that 1(1) by (simp add: m ws)
    have z: "(ucast (drop_bit 2 off) AND mask 30 OR 0) AND 0xc0000000 = (0 :: u32)"
    proof -
      have "(mask 30 :: u32) AND 0xc0000000 = 0" by (simp add: mask_eq_exp_minus_1)
      then show ?thesis by (simp add: and.assoc)
    qed
    have cmd: "srv_cmd vers m = CMD_RD" using w [of 2] z 1(1) unfolding ws by (simp add: srv_cmd_def)
    have "unat (srv_off vers m) = unat off div 4 * 4"
      using w [of 2] v12_addr [OF off, of 0] 1(1) unfolding ws by (simp add: srv_off_def)
    moreover have "srv_size vers m = 4 * ?k" using w [of 3] cmd 1(1) unat_words(1) [OF bnd [OF 1(3)]] unfolding ws
      by (simp add: srv_size_def)
    ultimately show ?thesis using cmd len w [of 1] 1 base_div [OF 1(3)] unfolding ws by (simp add: span_def)
  next
    case 2
    have ws: "?ws = [tid, (ucast (drop_bit 2 off) AND mask 30) OR 0, of_nat ?k - 1, 0]"
      using 2 by (simp add: read_resetMe_def Let_def n_words_def CMD_READ_def mask_30)
    have len: "length m = 16" by (simp add: m ws)
    have w: "bs32 False (rbuf_word m i) = ?ws ! i" if "i < 4" for i
      using srv_word0(1) [OF ok, of i ?ws] that 2(1) by (simp add: m ws)
    have z: "(ucast (drop_bit 2 off) AND mask 30 OR 0) AND 0xc0000000 = (0 :: u32)"
    proof -
      have "(mask 30 :: u32) AND 0xc0000000 = 0" by (simp add: mask_eq_exp_minus_1)
      then show ?thesis by (simp add: and.assoc)
    qed
    have cmd: "srv_cmd vers m = CMD_RD" using w [of 1] z 2(1) unfolding ws by (simp add: srv_cmd_def)
    have "unat (srv_off vers m) = unat off div 4 * 4"
      using w [of 1] v12_addr [OF off, of 0] 2(1) unfolding ws by (simp add: srv_off_def)
    moreover have "srv_size vers m = 4 * ?k" using w [of 2] cmd 2(1) unat_words(1) [OF bnd [OF 2(3)]] unfolding ws
      by (simp add: srv_size_def)
    ultimately show ?thesis using cmd len w [of 0] 2 base_div [OF 2(3)] unfolding ws by (simp add: span_def)
  next
    case 3
    let ?sz = "if sr_byteResolution c then of_nat (headBytes c off + n) else push_bit 2 (of_nat ?k) :: u32"
    have ws: "?ws = [3, tid, ucast (if sr_byteResolution c then off else off AND NOT 3), ucast (drop_bit 32 off), ?sz - 1]"
      using 3 by (simp add: read_resetMe_def Let_def n_words_def CMD_READ_V3_def PROTO_VERS_3_def)
    have len: "length m = 20" by (simp add: m ws)
    have w: "rbuf_word m i = ?ws ! i" if "i < 5" for i
      using srv_word0(2) [OF ok, of i ?ws] that 3(1) by (simp add: m ws)
    have cmd: "srv_cmd vers m = CMD_RD" using w [of 0] 3(1) unfolding ws by (simp add: srv_cmd_def Let_def)
    have "srv_off vers m = (if sr_byteResolution c then off else off AND NOT 3)"
      using w [of 2] w [of 3] 3(1) v3_off [of off "sr_byteResolution c"] unfolding ws by (simp add: srv_off_def)
    then have o: "unat (srv_off vers m) = base c off" using unat_base [of c off] by simp
    have "unat (?sz - 1 + 1) = span c off n"
    proof (cases "sr_byteResolution c")
      case True
      have "n < 2 ^ 32" using R True by (simp add: reachable_mem_def span_def)
      then show ?thesis using True by (simp add: span_def headBytes_def unat_of_nat)
    next
      case False
      then show ?thesis using unat_words(2) [OF bnd [OF False]] by (simp add: span_def)
    qed
    then have "srv_size vers m = span c off n" using w [of 4] cmd 3(1) unfolding ws by (simp add: srv_size_def bs32_def)
    then show ?thesis using cmd o len w [of 0] w [of 1] 3 unfolding ws by (simp add: bs32_def)
  qed
  then show "srv_cmd vers m = CMD_RD" "unat (srv_off vers m) = base c off" "srv_size vers m = span c off n" "\<not> srv_drop vers m"
    "length m = (if vers = 2 then 16 else 20)"
    "bs32 (vers = 1) (rbuf_word m (if vers = 2 then 0 else 1)) = tid" "vers = 3 \<Longrightarrow> rbuf_word m 0 = 3"
    using ok by (auto simp: srv_drop_def srv_expected_def Let_def srp_ok_def)
qed

section \<open>The answer\<close>

text \<open>The parts of an answer: header, payload, status; the client finds its identifier in it.\<close>

definition answer :: "nat \<Rightarrow> srp \<Rightarrow> u32 \<Rightarrow> u8 list \<Rightarrow> u8 list \<Rightarrow> bool" where
  "answer vers c tid P r \<longleftrightarrow> (\<exists>H. r = H @ P @ word_bytes LE 0 \<and> length H = 4 * srv_ooff vers) \<and> extractTid c r = Inr (toTid c tid)"

lemma answerI:
  assumes ok: "srp_ok vers c" and tid: "bs32 (vers = 1) (rbuf_word m (if vers = 2 then 0 else 1)) = tid" and m: "12 \<le> length m"
    and z: "4 * srv_ooff vers \<le> length m + z"
  shows "answer vers c tid P (take (4 * srv_ooff vers) (put_at 0 (word_bytes LE (srv_word0 vers br m)) (m @ replicate z 0)) @ P @ word_bytes LE 0)"
    (is "answer vers c tid P (?H @ P @ _)")
proof -
  let ?rb = "put_at 0 (word_bytes LE (srv_word0 vers br m)) (m @ replicate z 0)"
  have lr: "length ?rb = length m + z" using m by simp
  have H: "length ?H = 4 * srv_ooff vers" using z lr by simp
  have oo: "8 \<le> 4 * srv_ooff vers" "vers \<noteq> 2 \<longrightarrow> 12 \<le> 4 * srv_ooff vers" using ok by (auto simp: srv_ooff_def srp_ok_def)
  define i where "i = (if vers = 2 then 0 else 1 :: nat)"
  have "msg_extract (4 * i) 4 (?H @ P @ word_bytes LE 0) = get_at (4 * i) 4 ?rb"
    using oo H lr by (auto simp: msg_extract_def get_at_def i_def take_drop min_def)
  also have "\<dots> = get_at (4 * i) 4 m"
  proof (cases "vers = 2")
    case True
    have l: "length (get_at 0 4 m) = 4" using m by (intro length_get_at) simp
    have "word_bytes LE (srv_word0 vers br m) = get_at 0 4 m"
      using True word_bytes_word [OF l] by (simp add: srv_word0_def rbuf_word_def)
    then show ?thesis using True m by (simp add: i_def put_at_def get_at_def)
  next
    case False
    then show ?thesis using m by (simp add: i_def put_at_def get_at_def)
  qed
  finally have e: "msg_extract (4 * i) 4 (?H @ P @ word_bytes LE 0) = get_at (4 * i) 4 m" .
  have l4: "length (get_at (4 * i) 4 m) = 4" using m by (intro length_get_at) (simp add: i_def)
  have off: "(if sr_protoVersion c = SRP_UDP_V2 then 0 else 4) = 4 * i" using ok by (auto simp: i_def srp_ok_def)
  have "extractTid c (?H @ P @ word_bytes LE 0)
      = Inr (toTid c (let w = bytes_word (sr_host c) (get_at (4 * i) 4 m) in if needsHdrSwap c then swp32 w else w))"
    unfolding extractTid_def off Let_def e using l4 by auto
  also have "\<dots> = Inr (toTid c tid)"
    using tid ok by (auto simp: rbuf_word_def i_def [symmetric] srp_ok_def needsHdrSwap_def bs32_def split: if_splits)
  finally show ?thesis using H unfolding answer_def by blast
qed

lemma length_payload_swap [simp]: "length (payload_swap v1 b) = length b"
  by (simp add: payload_swap_def)

text \<open>A command which the server executes. \<open>srv_buf\<close> is its buffer with the first word of the answer.\<close>

definition srv_buf :: "nat \<Rightarrow> bool \<Rightarrow> u8 list \<Rightarrow> u8 list" where
  "srv_buf vers br m = put_at 0 (word_bytes LE (srv_word0 vers br m))
     (m @ replicate (4 * srv_ooff vers + 4 * ((srv_size vers m + 3) div 4) + 4 - length m) 0)"

definition srv_written :: "nat \<Rightarrow> bool \<Rightarrow> u8 list \<Rightarrow> u8 list" where
  "srv_written vers br m = payload_swap (vers = 1) (get_at (4 * srv_ooff vers) (length m - srv_expected vers) (srv_buf vers br m))"

lemma handleSRP_run:
  assumes "\<not> srv_drop vers m" "srv_cmd vers m \<noteq> CMD_NOP" "vers = 3 \<longrightarrow> rbuf_word m 0 AND 0xff = 3" "unat (srv_off vers m) = off"
    "srv_size vers m = sz" "br \<or> off mod 4 = 0 \<and> sz mod 4 = 0" "sz \<le> rb" "off < length mem" "off + sz \<le> length mem"
    "oo = 4 * srv_ooff vers" "nw = (sz + 3) div 4"
  shows "handleSRP vers br rb mem m =
    (if srv_cmd vers m = CMD_PWR then None
     else Some (take (oo + 4 * nw) (put_at oo (if srv_cmd vers m = CMD_RD
            then payload_swap (vers = 1) (get_at off sz mem @ get_at (oo + sz) (4 * nw - sz) (srv_buf vers br m))
            else srv_written vers br m) (srv_buf vers br m)) @ word_bytes LE 0),
     if srv_cmd vers m = CMD_RD then mem else put_at off (take sz (srv_written vers br m)) mem)"
proof -
  have b: "(vers = 3 \<and> rbuf_word m 0 AND 0xff \<noteq> 3) = False" using assms(3) by simp
  have r: "(\<not> br \<and> (off mod 4 \<noteq> 0 \<or> sz mod 4 \<noteq> 0) \<or> rb < sz) = False" using assms(6,7) by auto
  have n: "(srv_cmd vers m \<noteq> CMD_NOP) = True" "(off < length mem) = True" "(off + sz \<le> length mem) = True" using assms by simp_all
  have z: "(0 :: u32) OR 0 = 0" by simp
  show ?thesis
    unfolding handleSRP_def Let_def if_not_P [OF assms(1)] assms(4,5) b r n assms(10) [symmetric] assms(11) [symmetric]
      srv_written_def srv_buf_def
    by (simp only: not_False_eq_True simp_thms if_True if_False z mult.commute [of nw 4] mult.commute [of 4 "srv_ooff vers"]) (simp add: assms(11))
qed

lemma read_answer:
  assumes ok: "srp_ok vers c" and br: "sr_byteResolution c \<longrightarrow> br" and n: "0 < n" and R: "reachable_mem vers c rb mem off n"
    and m: "m = hdr_bytes c (rx_xbuf (read_resetMe c tid off n))"
  shows "\<exists>r Q. handleSRP vers br rb mem m = (Some r, mem) \<and> answer vers c tid (payload_swap (vers = 1) Q) r
    \<and> length Q = 4 * n_words c off n \<and> (\<forall>k < n. Q ! (headBytes c off + k) = mem ! (unat off + k))"
proof -
  note q = read_request [OF ok n R m]
  let ?N = "span c off n" and ?b = "base c off" and ?k = "n_words c off n" and ?oo = "4 * srv_ooff vers"
  have k: "(?N + 3) div 4 = ?k" by (simp add: span_def n_words_def headBytes_def)
  have bN: "?b + ?N \<le> length mem" "?N \<le> rb" "0 < ?N" using R n head_span [of c off n] by (auto simp: reachable_mem_def)
  have Nk: "?N \<le> 4 * ?k" using k by linarith
  have al: "br \<or> ?b mod 4 = 0 \<and> ?N mod 4 = 0" using br base_div [of c off] by (auto simp: span_def)
  have m12: "12 \<le> length m" "length m \<le> 20" using q(5) by (auto split: if_splits)
  define rb0 where "rb0 = srv_buf vers br m"
  define Q where "Q = get_at ?b ?N mem @ get_at (?oo + ?N) (4 * ?k - ?N) rb0"
  have lr: "?oo + 4 * ?k + 4 \<le> length rb0" using m12 q(3) k by (simp add: rb0_def srv_buf_def)
  have "length (get_at (?oo + ?N) (4 * ?k - ?N) rb0) = 4 * ?k - ?N" using lr Nk by (intro length_get_at) simp
  moreover have "length (get_at ?b ?N mem) = ?N" using bN by (intro length_get_at) simp
  ultimately have lQ: "length Q = 4 * ?k" using Nk by (simp add: Q_def)
  have Qn: "Q ! (headBytes c off + i) = mem ! (unat off + i)" if "i < n" for i
  proof -
    have h: "headBytes c off + i < ?N" using head_span [of c off n] that by simp
    have "Q ! (headBytes c off + i) = mem ! (?b + (headBytes c off + i))"
      using h bN by (simp add: Q_def nth_append nth_get_at)
    moreover have "headBytes c off \<le> unat off" by (simp add: headBytes_def)
    ultimately show ?thesis by (simp add: base_def add.assoc [symmetric])
  qed
  have v3: "vers = 3 \<longrightarrow> rbuf_word m 0 AND 0xff = 3" using q(7) by simp
  have bl: "?b < length mem" using bN by simp
  have "handleSRP vers br rb mem m = (Some (take (?oo + 4 * ?k) (put_at ?oo (payload_swap (vers = 1) Q) rb0) @ word_bytes LE 0), mem)"
    using handleSRP_run [OF q(4) _ v3 q(2,3) al bN(2) bl bN(1) refl k [symmetric]] q(1) by (simp add: rb0_def Q_def)
  also have "take (?oo + 4 * ?k) (put_at ?oo (payload_swap (vers = 1) Q) rb0) = take ?oo rb0 @ payload_swap (vers = 1) Q"
    using lr lQ by (simp add: put_at_def)
  finally have h: "handleSRP vers br rb mem m = (Some (take ?oo rb0 @ payload_swap (vers = 1) Q @ word_bytes LE 0), mem)" by simp
  have "answer vers c tid (payload_swap (vers = 1) Q) (take ?oo rb0 @ payload_swap (vers = 1) Q @ word_bytes LE 0)"
    unfolding rb0_def srv_buf_def by (rule answerI [OF ok q(6) m12(1)]) simp
  then show ?thesis using h lQ Qn by blast
qed

end
