(* ===== verification/SrpRead.thy ===== *)
theory SrpRead
  imports SrpAnswer
begin

text \<open>
  Reading blocks through a line that loses messages: the bytes of the memory arrive, as long as not too many messages in a row are lost.
\<close>

section \<open>Completing a transaction\<close>

lemma extract_mid:
  assumes "length H = a" "off + n \<le> length P"
  shows "msg_extract (a + off) n (H @ P @ Z) = get_at off n P"
  using assms by (simp add: msg_extract_def get_at_def)

definition clean_start :: "nat \<Rightarrow> srp \<Rightarrow> u64 \<Rightarrow> nat \<Rightarrow> bool" where
  "clean_start vers c off n \<longleftrightarrow> (vers = 1 \<and> headBytes c off \<noteq> 0 \<longrightarrow> 4 - headBytes c off \<le> n)"

lemma read_xact_fields:
  "rx_sbytes (read_resetMe c tid off n) = n" "rx_headBytes (read_resetMe c tid off n) = headBytes c off"
  "rx_tailBytes (read_resetMe c tid off n) = read_tail (headBytes c off + n)" "getNWords (read_resetMe c tid off n) = n_words c off n"
  by (simp_all add: read_resetMe_def Let_def read_tail_def getNWords_def getTotbytes_def n_words_def)

lemma hdr_layout:
  assumes "srp_ok vers c"
  shows "(if sr_protoVersion c = SRP_UDP_V1 then 4 else 0) + (rx_hdrWords (read_resetMe c tid off n) * 4 + h) = 4 * srv_ooff vers + h"
    "rx_expected (read_resetMe c tid off n) = srv_ooff vers + 1"
  using assms by (cases rule: srp_ok_cases; simp add: read_resetMe_def Let_def srv_ooff_def)+

lemma status_zero: "srp_ok vers c \<Longrightarrow> status_word c (word_bytes LE 0) = 0"
proof -
  assume "srp_ok vers c"
  then have "sr_host c = LE" by (simp add: srp_ok_def)
  moreover have "swp32 0 = 0" by (simp add: swp32_def join32_def)
  ultimately show ?thesis by (simp add: status_word_def)
qed

lemma nth_put_at_out:
  "i + length bs \<le> length b \<Longrightarrow> k < length b \<Longrightarrow> \<not> (i \<le> k \<and> k < i + length bs) \<Longrightarrow> put_at i bs b ! k = b ! k"
  using nth_put_at [of i bs b k] by (simp only: if_False)

lemma read_complete_answer:
  assumes ok: "srp_ok vers c" and n: "0 < n" and a: "answer vers c tid (payload_swap (vers = 1) Q) r"
    and Q: "length Q = 4 * n_words c off n" and cl: "clean_start vers c off n" and out: "dst + n \<le> length out"
  shows "read_complete c (read_resetMe c tid off n) r dst out = Inr (put_at dst (get_at (headBytes c off) n Q) out)"
proof -
  let ?x = "read_resetMe c tid off n" and ?h = "headBytes c off" and ?k = "n_words c off n" and ?P = "payload_swap (vers = 1) Q"
  let ?oo = "4 * srv_ooff vers"
  obtain H where r: "r = H @ ?P @ word_bytes LE 0" "length H = ?oo" using a unfolding answer_def by blast
  have h: "?h < 4" by (simp add: headBytes_def)
  have lP: "length ?P = 4 * ?k" using Q by simp
  have hk: "?h + n \<le> 4 * ?k" "?k = (?h + n + 3) div 4" "0 < ?k" using n by (simp_all add: n_words_def)
  have tot: "?h + n + read_tail (?h + n) = 4 * ?k" unfolding hk(2) read_tail_def by presburger
  note f = read_xact_fields [of c tid off n] and hl = hdr_layout [OF ok, of tid off n]
  have e0: "(if sr_protoVersion c = SRP_UDP_V1 then 4 else 0) + (rx_hdrWords ?x * 4 + ?h) = ?oo + ?h" using hl by simp
  have data: "msg_extract (?oo + ?h) n r = get_at ?h n ?P" unfolding r(1) by (rule extract_mid [OF r(2)]) (use hk lP in simp)
  have tail: "msg_extract (?oo + ?h + n) (read_tail (?h + n)) r = get_at (?h + n) (read_tail (?h + n)) ?P"
    unfolding r(1) add.assoc by (rule extract_mid [OF r(2)]) (use tot lP in simp)
  have st: "msg_extract (?oo + ?h + n + read_tail (?h + n)) 4 r = word_bytes LE 0"
  proof -
    have "?oo + ?h + n + read_tail (?h + n) = length (H @ ?P)" using tot lP r(2) by simp
    moreover have "r = (H @ ?P) @ word_bytes LE 0" using r(1) by simp
    ultimately show ?thesis by (simp only: msg_extract_def append_eq_conv_conj [THEN iffD1, OF refl] drop_append) simp
  qed
  have lr: "length r = 4 * (?k + rx_expected ?x)" using r lP by (simp add: hl(2))
  have ld: "length (get_at ?h n ?P) = n" using hk lP by (intro length_get_at) simp
  let ?o1 = "put_at dst (get_at ?h n ?P) out"
  have pw: "put_within dst (get_at ?h n ?P) out = Inr ?o1" using ld out by (intro put_within_ok) simp
  have core: "read_complete c ?x r dst out =
      (case (if needsPayloadSwap c then swap_payload ?x (msg_extract (if sr_protoVersion c = SRP_UDP_V1 then 4 else 0) (rx_hdrWords ?x * 4 + ?h) r)
           (get_at (?h + n) (read_tail (?h + n)) ?P) dst ?o1 else Inr ?o1) of Inl e \<Rightarrow> Inl e | Inr out \<Rightarrow> Inr out)"
    unfolding read_complete_def Let_def f e0 data tail st lr pw status_zero [OF ok] sum.case by (simp split: sum.split)
  show ?thesis
  proof (cases "vers = 1")
    case False
    then have "\<not> needsPayloadSwap c" "?P = Q" using ok by (auto simp: needsPayloadSwap_def srp_ok_def payload_swap_def)
    then show ?thesis using core by simp
  next
    case True
    then have v1: "sr_protoVersion c = SRP_UDP_V1" using ok by (auto simp: srp_ok_def)
    have PS: "?P = swap_words 0 ?k Q" using Q True by (simp add: payload_swap_def)
    have lo1: "length ?o1 = length out" using ld out by simp
    have o1: "?o1 ! (dst + i) = swap_words 0 ?k Q ! (?h + i)" if "i < n" for i
      using that ld out hk lP unfolding PS [symmetric] by (subst nth_put_at) (simp_all add: nth_get_at)
    have hd: "get_at 8 ?h (msg_extract 4 (rx_hdrWords ?x * 4 + ?h) r) = take ?h (swap_words 0 ?k Q)"
    proof -
      have "rx_hdrWords ?x = 2" using v1 by (simp add: read_resetMe_def Let_def)
      moreover have "?oo = 12" using True by (simp add: srv_ooff_def)
      ultimately show ?thesis unfolding PS [symmetric] using r hk lP
        by (simp add: msg_extract_def get_at_def drop_take take_drop min_def)
    qed
    have hc: "0 < ?h \<Longrightarrow> 4 - ?h \<le> n" using cl True by (simp add: clean_start_def)
    obtain o3 where o3: "swap_payload ?x (msg_extract 4 (rx_hdrWords ?x * 4 + ?h) r) (get_at (?h + n) (read_tail (?h + n)) ?P) dst ?o1 = Inr o3"
        "length o3 = length ?o1" "\<forall>k < length ?o1. o3 ! k = (if dst \<le> k \<and> k < dst + n then Q ! (?h + (k - dst)) else ?o1 ! k)"
      using swap_payload_spec [OF Q hk(2) n f(2) f(1) f(3) h hc _ o1 hd refl] out lo1 unfolding PS by auto
    have "o3 = put_at dst (get_at ?h n Q) out"
    proof (rule nth_equalityI)
      have lq: "length (get_at ?h n Q) = n" using hk Q by (intro length_get_at) simp
      show "length o3 = length (put_at dst (get_at ?h n Q) out)" using o3(2) lo1 lq out by simp
      fix k
      assume "k < length o3"
      then have k: "k < length out" using o3(2) lo1 by simp
      show "o3 ! k = put_at dst (get_at ?h n Q) out ! k"
      proof (cases "dst \<le> k \<and> k < dst + n")
        case True
        have "get_at ?h n Q ! (k - dst) = Q ! (?h + (k - dst))" by (rule nth_get_at) (use hk(1) Q True in linarith)+
        then have "put_at dst (get_at ?h n Q) out ! k = Q ! (?h + (k - dst))"
          using k lq out True by (subst nth_put_at) simp_all
        then show ?thesis using o3(3) k lo1 True by simp
      next
        case False
        then have "put_at dst (get_at ?h n Q) out ! k = out ! k" "?o1 ! k = out ! k"
          using k lq ld out nth_put_at_out [of dst "get_at ?h n Q" out k] nth_put_at_out [of dst "get_at ?h n ?P" out k] by simp_all
        moreover have "o3 ! k = ?o1 ! k" using o3(3) [rule_format, of k] k lo1 unfolding if_not_P [OF False] by simp
        ultimately show ?thesis by simp
      qed
    qed
    then show ?thesis using core o3(1) v1 by (simp add: needsPayloadSwap_def)
  qed
qed

section \<open>Attempts\<close>

lemma tidMatch_self: "tidMatch c (toTid c t) (toTid c t)"
  by (simp add: tidMatch_def)

text \<open>The line delivers one of the messages from number \<open>k\<close> on, within \<open>n\<close> more attempts.\<close>

definition alive :: "(nat \<Rightarrow> bool) \<Rightarrow> (nat \<Rightarrow> bool) \<Rightarrow> nat \<Rightarrow> nat \<Rightarrow> bool" where
  "alive lostReq lostAns k n \<longleftrightarrow> (\<exists>i \<le> n. \<not> lostReq (k + i) \<and> \<not> lostAns (k + i))"

lemma alive_next: "alive q a k n \<Longrightarrow> q k \<or> a k \<Longrightarrow> \<exists>m. n = Suc m \<and> alive q a (Suc k) m"
proof -
  assume "alive q a k n" and lost: "q k \<or> a k"
  then obtain i where i: "i \<le> n" "\<not> q (k + i)" "\<not> a (k + i)" unfolding alive_def by blast
  obtain j where j: "i = Suc j" using i lost by (cases i) auto
  then obtain m where m: "n = Suc m" using i(1) by (cases n) auto
  have "j \<le> m \<and> \<not> q (Suc k + j) \<and> \<not> a (Suc k + j)" using i j m by simp
  then show ?thesis using m unfolding alive_def by blast
qed

text \<open>A request which the server answers the same way whenever it comes again. \<open>mem'\<close> is the memory when it has been executed.\<close>

lemma srp_attempts_server:
  assumes ans: "extractTid c r = Inr t" "tidMatch c t tid"
    and srv: "handleSRP vers br rb mem m = (Some r, mem')" "handleSRP vers br rb mem' m = (Some r, mem')"
    and al: "alive lostReq lostAns (pe_count (ss_dev s)) n" and s: "ss_rx s = []" "pe_mem (ss_dev s) \<in> {mem, mem'}"
  shows "\<exists>s'. srp_attempts c (server vers br rb lostReq lostAns clock) m tid err n s = (Inr r, s') \<and> ss_rx s' = []
    \<and> pe_mem (ss_dev s') = mem' \<and> ss_tid s' = ss_tid s \<and> ss_nReads s' = ss_nReads s \<and> ss_nWrites s' = ss_nWrites s"
  using al s
proof (induction n arbitrary: s)
  case (0 s)
  let ?k = "pe_count (ss_dev s)"
  have "\<not> lostReq ?k" "\<not> lostAns ?k" using 0(1) by (simp_all add: alive_def)
  then show ?case using 0(2,3) srv ans
    by (auto simp: bnd_def push_msg_def server_def Let_def split: prod.splits)
next
  case (Suc n s)
  let ?k = "pe_count (ss_dev s)"
  show ?case
  proof (cases "lostReq ?k \<or> lostAns ?k")
    case False
    then show ?thesis using Suc(3,4) srv ans
      by (auto simp: bnd_def push_msg_def server_def Let_def split: prod.splits)
  next
    case True
    have nx: "alive lostReq lostAns (Suc ?k) n" using alive_next [OF Suc(2) True] by auto
    let ?d = "(ss_dev s)\<lparr>pe_count := Suc ?k, pe_mem := (if lostReq ?k then pe_mem (ss_dev s) else mem')\<rparr>"
    have dev: "server vers br rb lostReq lostAns clock (ss_dev s) m = ([], ?d)"
      using True srv Suc(4) by (auto simp: server_def Let_def split: prod.splits)
    let ?s = "s\<lparr>ss_dev := ?d, ss_rx := [], ss_dynTimeout := (if sr_useDynTimeout c then dt_relax else id) (ss_dynTimeout s), ss_nRetries := ss_nRetries s + 1\<rparr>"
    have "srp_attempts c (server vers br rb lostReq lostAns clock) m tid err (Suc n) s
        = srp_attempts c (server vers br rb lostReq lostAns clock) m tid err n ?s"
      using dev Suc(3) by (simp add: bnd_def push_msg_def)
    moreover have "\<exists>s'. srp_attempts c (server vers br rb lostReq lostAns clock) m tid err n ?s = (Inr r, s') \<and> ss_rx s' = []
      \<and> pe_mem (ss_dev s') = mem' \<and> ss_tid s' = ss_tid ?s \<and> ss_nReads s' = ss_nReads ?s \<and> ss_nWrites s' = ss_nWrites ?s"
      by (rule Suc.IH) (use nx Suc(4) in auto)
    ultimately show ?thesis by simp
  qed
qed

section \<open>Blocks\<close>

definition line_ok :: "srp \<Rightarrow> (nat \<Rightarrow> bool) \<Rightarrow> (nat \<Rightarrow> bool) \<Rightarrow> bool" where
  "line_ok c lostReq lostAns \<longleftrightarrow> (\<forall>k. alive lostReq lostAns k (sr_retryCnt c))"

text \<open>Between the calls no message waits and the server holds \<open>mem\<close>.\<close>

definition idle :: "u8 list \<Rightarrow> srv_peer srp_state \<Rightarrow> bool" where
  "idle mem s \<longleftrightarrow> ss_rx s = [] \<and> pe_mem (ss_dev s) = mem"

lemma getTid_run: "getTid c s = (Inr (toTid c (ss_tid s + sr_tidLsb c)), s\<lparr>ss_tid := ss_tid s + sr_tidLsb c\<rparr>)"
  by (simp add: getTid_def Let_def)

lemma toTid_idem [simp]: "toTid c (toTid c t) = toTid c t"
  by (simp add: toTid_def and.assoc)

lemma reachable_bytes:
  assumes "reachable_mem vers c rb mem off n"
  shows "unat off + n \<le> length mem" "length mem < 2 ^ 32"
proof -
  have "headBytes c off \<le> unat off" by (simp add: headBytes_def)
  then show "unat off + n \<le> length mem" "length mem < 2 ^ 32"
    using assms head_span [of c off n] by (auto simp: reachable_mem_def base_def)
qed

text \<open>An asynchronous read has one attempt.\<close>

definition lossless :: "(nat \<Rightarrow> bool) \<Rightarrow> (nat \<Rightarrow> bool) \<Rightarrow> bool" where
  "lossless lostReq lostAns \<longleftrightarrow> (\<forall>k. \<not> lostReq k \<and> \<not> lostAns k)"

lemma srp_async_server:
  assumes "extractTid c r = Inr t" "tidMatch c t tid" "handleSRP vers br rb mem m = (Some r, mem')" "lossless lostReq lostAns"
    "ss_rx s = []" "pe_mem (ss_dev s) = mem"
  shows "\<exists>s'. srp_async c (server vers br rb lostReq lostAns clock) m tid s = (Inr r, s') \<and> ss_rx s' = [] \<and> pe_mem (ss_dev s') = mem'"
  using assms by (auto simp: srp_async_def server_def Let_def lossless_def split: prod.splits)

lemma readBlk_server:
  assumes ok: "srp_ok vers c" and br: "sr_byteResolution c \<longrightarrow> br" and R: "reachable_mem vers c rb mem off n" and n: "0 < n"
    and cl: "clean_start vers c off n" and out: "dst + n \<le> length out" and line: "line_ok c lostReq lostAns" and s: "idle mem s"
    and asy: "a \<longrightarrow> lossless lostReq lostAns"
  shows "\<exists>s'. readBlk_unlocked c (server vers br rb lostReq lostAns clock) a out dst off n s
      = (Inr (put_at dst (get_at (unat off) n mem) out), s') \<and> idle mem s'"
proof -
  define tid where "tid = toTid c (ss_tid s + sr_tidLsb c)"
  let ?s = "s\<lparr>ss_tid := ss_tid s + sr_tidLsb c\<rparr>" and ?x = "read_resetMe c tid off n"
  obtain r Q where r: "handleSRP vers br rb mem (hdr_bytes c (rx_xbuf ?x)) = (Some r, mem)" "answer vers c tid (payload_swap (vers = 1) Q) r"
      "length Q = 4 * n_words c off n" "\<forall>k < n. Q ! (headBytes c off + k) = mem ! (unat off + k)"
    using read_answer [OF ok br n R refl] by blast
  have t: "extractTid c r = Inr tid" using r(2) by (simp add: answer_def tid_def)
  have m: "tidMatch c tid tid" unfolding tid_def by (rule tidMatch_self)
  let ?send = "if a then srp_async c (server vers br rb lostReq lostAns clock) (hdr_bytes c (rx_xbuf ?x)) tid
    else srp_attempts c (server vers br rb lostReq lostAns clock) (hdr_bytes c (rx_xbuf ?x)) tid ''No response -- timeout'' (sr_retryCnt c)"
  have al: "alive lostReq lostAns (pe_count (ss_dev ?s)) (sr_retryCnt c)" using line by (simp add: line_ok_def)
  have s2: "ss_rx ?s = []" "pe_mem (ss_dev ?s) \<in> {mem, mem}" using s by (simp_all add: idle_def)
  obtain s' where a: "?send ?s = (Inr r, s')" "ss_rx s' = []" "pe_mem (ss_dev s') = mem"
  proof (cases a)
    case True
    then show ?thesis using srp_async_server [OF t m r(1) _ s2(1), of lostReq lostAns clock] asy s2(2) that by auto
  next
    case False
    then show ?thesis using srp_attempts_server [OF t m r(1) r(1) al s2] that by fastforce
  qed
  have hk: "headBytes c off + n \<le> length Q" unfolding r(3) n_words_def by simp
  have "get_at (headBytes c off) n Q = get_at (unat off) n mem"
    using r(4) hk reachable_bytes [OF R] by (intro nth_equalityI) (simp_all add: nth_get_at)
  then have "read_complete c ?x r dst out = Inr (put_at dst (get_at (unat off) n mem) out)"
    using read_complete_answer [OF ok n r(2,3) cl out] by simp
  then have "readBlk_unlocked c (server vers br rb lostReq lostAns clock) a out dst off n s = (Inr (put_at dst (get_at (unat off) n mem) out), s')"
    using n a(1) by (cases a) (simp_all add: readBlk_unlocked_def bnd_def getTid_run tid_def [symmetric] Let_def ret_def del: srp_attempts.simps)
  then show ?thesis using a(2,3) by (simp add: idle_def)
qed

lemma put_at_next:
  "dst + (a + b) \<le> length out \<Longrightarrow> src + (a + b) \<le> length mem \<Longrightarrow>
   put_at (dst + a) (get_at (src + a) b mem) (put_at dst (get_at src a mem) out) = put_at dst (get_at src (a + b) mem) out"
proof (rule nth_equalityI)
  assume l: "dst + (a + b) \<le> length out" "src + (a + b) \<le> length mem"
  have g: "length (get_at src a mem) = a" "length (get_at (src + a) b mem) = b" "length (get_at src (a + b) mem) = a + b"
    using l by (simp_all add: get_at_def)
  let ?o = "put_at dst (get_at src a mem) out"
  have lo: "length ?o = length out" using l g by simp
  show "length (put_at (dst + a) (get_at (src + a) b mem) ?o) = length (put_at dst (get_at src (a + b) mem) out)"
    using l g lo by simp
  fix k
  assume "k < length (put_at (dst + a) (get_at (src + a) b mem) ?o)"
  then have k: "k < length out" using l g lo by simp
  consider "dst \<le> k" "k < dst + a" | "dst + a \<le> k" "k < dst + (a + b)" | "k < dst \<or> dst + (a + b) \<le> k" by linarith
  then show "put_at (dst + a) (get_at (src + a) b mem) ?o ! k = put_at dst (get_at src (a + b) mem) out ! k"
  proof cases
    case 1
    then show ?thesis using k l g lo by (simp add: nth_put_at nth_get_at)
  next
    case 2
    then have "src + a + (k - (dst + a)) = src + (k - dst)" by simp
    then show ?thesis using 2 k l g lo by (simp add: nth_put_at nth_get_at)
  next
    case 3
    then show ?thesis using k l g lo by (auto simp: nth_put_at)
  qed
qed

lemma next_block:
  assumes "headBytes c off \<le> 4 * w" "headBytes c off + n = 4 * w + n'" "unat off + n \<le> length mem" "length mem < 2 ^ 32" "nb = w * 4 - headBytes c off"
    "w \<noteq> 0 \<or> headBytes c off = 0"
  shows "unat (off + of_nat nb) = unat off + nb" "n = nb + n'" "headBytes c (off + of_nat nb) = 0"
proof -
  show nn: "n = nb + n'" using assms(1,2,5) by simp
  then have lt: "unat off + nb < 2 ^ 64" "nb < 2 ^ 64" using assms(3,4) by simp_all
  then show u: "unat (off + of_nat nb) = unat off + nb" by (simp add: unat_plus_if' unat_of_nat)
  have "(unat off + nb) mod 4 = 0" if "\<not> sr_byteResolution c"
  proof -
    have "unat off mod 4 \<le> w * 4" "nb = w * 4 - unat off mod 4" using that assms(1,5) by (simp_all add: headBytes_def)
    then show ?thesis by presburger
  qed
  then show "headBytes c (off + of_nat nb) = 0" unfolding headBytes_def u by simp
qed

lemma reachable_split:
  assumes R: "reachable_mem vers c rb mem off n" and n: "headBytes c off + n = 4 * w + n'" "0 < w" "nb = w * 4 - headBytes c off"
  shows "reachable_mem vers c rb mem off nb" "reachable_mem vers c rb mem (off + of_nat nb) n'"
    "unat (off + of_nat nb) = unat off + nb" "n = nb + n'" "headBytes c (off + of_nat nb) = 0" "0 < nb" "n_words c off nb = w"
    "n_words c off n = w + n_words c (off + of_nat nb) n'"
proof -
  have h: "headBytes c off < 4" by (simp add: headBytes_def)
  have hw: "headBytes c off \<le> 4 * w" using h n(2) by simp
  have w0: "w \<noteq> 0 \<or> headBytes c off = 0" using n(2) by simp
  note nx = next_block [OF hw n(1) reachable_bytes [OF R] n(3) w0]
  show "unat (off + of_nat nb) = unat off + nb" "n = nb + n'" "headBytes c (off + of_nat nb) = 0" by (rule nx)+
  show "0 < nb" using h n(2,3) by simp
  have e: "headBytes c off + nb = 4 * w" using n(3) hw by simp
  show k1: "n_words c off nb = w" unfolding n_words_def e by simp
  have "4 * w + n' + 3 = n' + 3 + w * 4" by simp
  then show k2: "n_words c off n = w + n_words c (off + of_nat nb) n'" unfolding n_words_def n(1) nx(3) by simp
  have b: "base c (off + of_nat nb) = base c off + 4 * w"
    unfolding base_def nx(1,3) using e by (simp add: headBytes_def split: if_splits)
  show "reachable_mem vers c rb mem off nb"
    using R k1 k2 nx(2) by (auto simp: reachable_mem_def span_def)
  show "reachable_mem vers c rb mem (off + of_nat nb) n'"
    using R k2 nx(2) e unfolding reachable_mem_def span_def b by (auto simp: headBytes_def split: if_splits)
qed

lemma read_loop_server:
  assumes ok: "srp_ok vers c" and br: "sr_byteResolution c \<longrightarrow> br" and line: "line_ok c lostReq lostAns"
    and asy: "a \<longrightarrow> lossless lostReq lostAns"
  shows "reachable_mem vers c rb mem off n \<Longrightarrow> 0 < n \<Longrightarrow> clean_start vers c off n \<Longrightarrow> dst + n \<le> length out \<Longrightarrow> idle mem s
    \<Longrightarrow> n_words c off n \<le> k \<Longrightarrow>
    \<exists>s'. read_loop c (server vers br rb lostReq lostAns clock) a (Suc k) out dst off n (n_words c off n) (headBytes c off) s
      = (Inr (put_at dst (get_at (unat off) n mem) out), s') \<and> idle mem s'"
proof (induction k arbitrary: off n dst out s)
  case (0 off n dst out s)
  then show ?case using readBlk_server [OF ok br 0(1,2,3,4) line 0(5) asy] by simp
next
  case (Suc k off n dst out s)
  let ?w = "sr_maxWordsRx c"
  show ?case
  proof (cases "?w < n_words c off n")
    case False
    then show ?thesis using readBlk_server [OF ok br Suc.prems(1-4) line Suc.prems(5) asy] by simp
  next
    case True
    define nb where "nb = ?w * 4 - headBytes c off"
    define n' where "n' = headBytes c off + n - 4 * ?w"
    have "4 * ?w < headBytes c off + n" using True unfolding n_words_def by linarith
    then have n': "headBytes c off + n = 4 * ?w + n'" "0 < n'" by (simp_all add: n'_def)
    have w: "0 < ?w" using ok by (simp add: srp_ok_def)
    note sp = reachable_split [OF Suc.prems(1) n'(1) w nb_def]
    have h: "headBytes c off < 4" by (simp add: headBytes_def)
    have cl: "clean_start vers c off nb" unfolding clean_start_def nb_def by (intro impI diff_le_mono) (use w in simp)
    have d1: "dst + nb \<le> length out" using Suc.prems(4) sp(4) by simp
    obtain s1 where s1: "readBlk_unlocked c (server vers br rb lostReq lostAns clock) a out dst off nb s
        = (Inr (put_at dst (get_at (unat off) nb mem) out), s1)" "idle mem s1"
      using readBlk_server [OF ok br sp(1,6) cl d1 line Suc.prems(5) asy] by blast
    let ?o = "put_at dst (get_at (unat off) nb mem) out"
    have bytes: "unat off + n \<le> length mem" using reachable_bytes [OF Suc.prems(1)] by simp
    then have lg: "length (get_at (unat off) nb mem) = nb" using sp(4) by (intro length_get_at) simp
    have cl2: "clean_start vers c (off + of_nat nb) n'" using sp(5) by (simp add: clean_start_def)
    have d2: "dst + nb + n' \<le> length ?o" using Suc.prems(4) sp(4) lg d1 by simp
    have fu: "n_words c (off + of_nat nb) n' \<le> k" using Suc.prems(6) sp(8) w by simp
    obtain s2 where s2: "read_loop c (server vers br rb lostReq lostAns clock) a (Suc k) ?o (dst + nb) (off + of_nat nb) n'
        (n_words c (off + of_nat nb) n') (headBytes c (off + of_nat nb)) s1
        = (Inr (put_at (dst + nb) (get_at (unat (off + of_nat nb)) n' mem) ?o), s2)" "idle mem s2"
      using Suc.IH [OF sp(2) n'(2) cl2 d2 s1(2) fu] by blast
    have fin: "put_at (dst + nb) (get_at (unat (off + of_nat nb)) n' mem) ?o = put_at dst (get_at (unat off) n mem) out"
      unfolding sp(3) sp(4) by (rule put_at_next) (use Suc.prems(4) bytes sp(4) in simp_all)
    have eqs: "n - nb = n'" "n_words c off n - ?w = n_words c (off + of_nat nb) n'" using sp(4,8) by simp_all
    have "read_loop c (server vers br rb lostReq lostAns clock) a (Suc (Suc k)) out dst off n (n_words c off n) (headBytes c off) s
        = (Inr (put_at dst (get_at (unat off) n mem) out), s2)"
      unfolding read_loop.simps(2) [of _ _ _ "Suc k"] if_P [OF True] Let_def nb_def [symmetric] eqs
      using s1(1) s2(1) sp(5) fin by (simp add: bnd_def del: read_loop.simps)
    then show ?thesis using s2(2) by blast
  qed
qed

lemma srp_read_server:
  assumes "srp_ok vers c" "sr_byteResolution c \<longrightarrow> br" "line_ok c lostReq lostAns" "reachable_mem vers c rb mem off n" "clean_start vers c off n"
    "dst + n \<le> length out" "idle mem s" "a \<longrightarrow> lossless lostReq lostAns"
  shows "\<exists>s'. srp_read c (server vers br rb lostReq lostAns clock) a out dst off n s
      = (Inr (put_at dst (get_at (unat off) n mem) out), s') \<and> idle mem s'"
proof (cases "n = 0")
  case True
  then show ?thesis using assms(6,7) by (simp add: srp_read_def ret_def put_at_def get_at_def)
next
  case False
  then obtain s' where "read_loop c (server vers br rb lostReq lostAns clock) a (Suc (n_words c off n)) out dst off n (n_words c off n) (headBytes c off) s
      = (Inr (put_at dst (get_at (unat off) n mem) out), s')" "idle mem s'"
    using read_loop_server [OF assms(1-3,8,4) _ assms(5-7) order_refl] by auto
  then show ?thesis using False
    by (simp add: srp_read_def Let_def n_words_def [symmetric] bnd_def andThen_def upd_def ret_def idle_def del: read_loop.simps)
qed

end
