(* ===== verification/SrpMerge.thy ===== *)
theory SrpMerge
  imports SrpRead
begin

text \<open>
  What a write puts together: the first word, the bytes of the caller, and the last word are the bytes of the range after the
  reference \<open>masked_write\<close>. \<open>B\<close> is what the range holds before.
\<close>

section \<open>The pieces\<close>

lemma masked_write_first:
  assumes B: "h + n \<le> length B" "0 < n" and src: "n \<le> length src"
    and g: "f \<le> length B" "g \<le> f" "h < g" and r: "h + 1 + r \<le> f" "1 + r \<le> n" "min (h + n) g \<le> h + 1 + r"
    and m: "n = 1 \<or> mn = 0 \<or> g < h + n" "m = (if n = 1 then m1 OR mn else m1)"
  shows "take g (put_at (h + 1) (get_at 1 r src) ((take f B)[h := merge_bits m (B ! h) (src ! 0)])) = take g (masked_write h src n m1 mn B)"
proof (rule nth_equalityI)
  let ?F = "(take f B)[h := merge_bits m (B ! h) (src ! 0)]"
  have lF: "length ?F = f" "length (get_at 1 r src) = r" using g src r by simp_all
  have lP: "length (put_at (h + 1) (get_at 1 r src) ?F) = f" using lF r by simp
  then show "length (take g (put_at (h + 1) (get_at 1 r src) ?F)) = length (take g (masked_write h src n m1 mn B))"
    using g B by (simp add: length_masked_write)
  fix k
  assume "k < length (take g (put_at (h + 1) (get_at 1 r src) ?F))"
  then have k: "k < g" "k < f" "k < length B" using lP g by simp_all
  have mw: "masked_write h src n m1 mn B ! k =
      (if h \<le> k \<and> k < h + n then merge_bits (byte_mask n m1 mn (k - h)) (B ! k) (src ! (k - h)) else B ! k)"
    by (rule masked_write_nth [OF B(1) k(3)])
  consider "k < h" | "k = h" | "h < k" "k < h + n" | "h + n \<le> k" by linarith
  then have "put_at (h + 1) (get_at 1 r src) ?F ! k = masked_write h src n m1 mn B ! k"
  proof cases
    case 1
    then show ?thesis using mw k lF r by (simp add: nth_put_at)
  next
    case 2
    have "byte_mask n m1 mn 0 = m" using m(2) B(2) by (auto simp: byte_mask_def)
    then show ?thesis using 2 mw k lF r B by (simp add: nth_put_at)
  next
    case 3
    have "byte_mask n m1 mn (k - h) = 0" using 3 m(1) k by (auto simp: byte_mask_def)
    moreover have kr: "k < h + 1 + r"
    proof -
      have "k < min (h + n) g" using 3 k by simp
      then show ?thesis using r(3) by linarith
    qed
    then have "put_at (h + 1) (get_at 1 r src) ?F ! k = get_at 1 r src ! (k - (h + 1))"
      using 3 k lF r by (subst nth_put_at) simp_all
    moreover have "\<dots> = src ! (1 + (k - (h + 1)))" by (rule nth_get_at) (use 3 kr r src in linarith)+
    moreover have "1 + (k - (h + 1)) = k - h" using 3 by simp
    ultimately show ?thesis using 3 mw by simp
  next
    case 4
    then have "put_at (h + 1) (get_at 1 r src) ?F ! k = ?F ! k" using k lF r by (subst nth_put_at) simp_all
    then show ?thesis using 4 mw k B by simp
  qed
  then show "take g (put_at (h + 1) (get_at 1 r src) ?F) ! k = take g (masked_write h src n m1 mn B) ! k" using k by simp
qed

lemma masked_write_only:
  assumes B: "h + n \<le> f" "f \<le> length B" "1 < n" and src: "n \<le> length src" and i: "i = h + n - 1"
  shows "put_at (h + 1) (get_at 1 (n - 2) src) ((take f B)[h := merge_bits m1 (B ! h) (src ! 0), i := merge_bits mn (B ! i) (src ! (n - 1))])
    = take f (masked_write h src n m1 mn B)"
proof (rule nth_equalityI)
  let ?F = "(take f B)[h := merge_bits m1 (B ! h) (src ! 0), i := merge_bits mn (B ! i) (src ! (n - 1))]"
  have lF: "length ?F = f" "length (get_at 1 (n - 2) src) = n - 2" using B src by simp_all
  have B1: "h + n \<le> length B" using B by simp
  then show "length (put_at (h + 1) (get_at 1 (n - 2) src) ?F) = length (take f (masked_write h src n m1 mn B))"
    using lF B by (simp add: length_masked_write)
  fix k
  assume "k < length (put_at (h + 1) (get_at 1 (n - 2) src) ?F)"
  then have k: "k < f" "k < length B" using lF B by simp_all
  have mw: "masked_write h src n m1 mn B ! k =
      (if h \<le> k \<and> k < h + n then merge_bits (byte_mask n m1 mn (k - h)) (B ! k) (src ! (k - h)) else B ! k)"
    by (rule masked_write_nth [OF B1 k(2)])
  consider "k < h" | "k = h" | "h < k" "k < i" | "k = i" "h < k" | "h + n \<le> k" using i by linarith
  then have "put_at (h + 1) (get_at 1 (n - 2) src) ?F ! k = masked_write h src n m1 mn B ! k"
  proof cases
    case 3
    have "byte_mask n m1 mn (k - h) = 0" using 3 i by (auto simp: byte_mask_def)
    moreover have "k < h + 1 + (n - 2)" using 3 i B by linarith
    then have "put_at (h + 1) (get_at 1 (n - 2) src) ?F ! k = get_at 1 (n - 2) src ! (k - (h + 1))"
      using 3 k lF B by (subst nth_put_at) simp_all
    moreover have "\<dots> = src ! (1 + (k - (h + 1)))" by (rule nth_get_at) (use 3 i B src in linarith)+
    moreover have "1 + (k - (h + 1)) = k - h" using 3 by simp
    moreover have "k < h + n" using 3 i by linarith
    ultimately show ?thesis using 3 mw by simp
  qed (use mw k lF B i in \<open>auto simp: nth_put_at byte_mask_def\<close>)
  then show "put_at (h + 1) (get_at 1 (n - 2) src) ?F ! k = take f (masked_write h src n m1 mn B) ! k" using k by simp
qed

lemma masked_write_last:
  assumes B: "a + i + 1 = h + n" "a + i < length B" "h \<le> a" "0 < n" and src: "n \<le> length src" and m: "m1 = 0 \<or> h < a"
  shows "(put_at 0 (get_at (n - 1 - i) i src) (drop a B))[i := merge_bits mn (B ! (a + i)) (src ! (n - 1))] = drop a (masked_write h src n m1 mn B)"
proof (rule nth_equalityI)
  let ?P = "put_at 0 (get_at (n - 1 - i) i src) (drop a B)"
  have i: "i < n" using B by linarith
  have lg: "length (get_at (n - 1 - i) i src) = i" using i src by (intro length_get_at) simp
  have lP: "length ?P = length B - a" using lg B by simp
  have B1: "h + n \<le> length B" using B by simp
  then show "length (?P[i := merge_bits mn (B ! (a + i)) (src ! (n - 1))]) = length (drop a (masked_write h src n m1 mn B))"
    using lP by (simp add: length_masked_write)
  fix k
  assume "k < length (?P[i := merge_bits mn (B ! (a + i)) (src ! (n - 1))])"
  then have k: "a + k < length B" using lP by simp
  have mw: "masked_write h src n m1 mn B ! (a + k) =
      (if h \<le> a + k \<and> a + k < h + n then merge_bits (byte_mask n m1 mn (a + k - h)) (B ! (a + k)) (src ! (a + k - h)) else B ! (a + k))"
    by (rule masked_write_nth [OF B1 k])
  consider "k < i" | "k = i" | "i < k" by linarith
  then have "?P[i := merge_bits mn (B ! (a + i)) (src ! (n - 1))] ! k = masked_write h src n m1 mn B ! (a + k)"
  proof cases
    case 1
    have "byte_mask n m1 mn (a + k - h) = 0" using 1 B m by (auto simp: byte_mask_def)
    moreover have "?P ! k = get_at (n - 1 - i) i src ! k" using 1 k lg B by (subst nth_put_at) simp_all
    moreover have "\<dots> = src ! (n - 1 - i + k)" by (rule nth_get_at) (use 1 i src in linarith)+
    moreover have "n - 1 - i + k = a + k - h" using B i by simp
    ultimately show ?thesis using 1 mw B by simp
  next
    case 2
    have e: "a + i - h = n - 1" using B by simp
    have "byte_mask n m1 mn (n - 1) = mn" using B m by (auto simp: byte_mask_def)
    then show ?thesis using 2 mw B lP e by simp
  next
    case 3
    then show ?thesis using mw B lg k by (simp add: nth_put_at)
  qed
  then show "?P[i := merge_bits mn (B ! (a + i)) (src ! (n - 1))] ! k = drop a (masked_write h src n m1 mn B) ! k"
    using k B1 by (simp add: length_masked_write)
qed

lemma masked_write_mid:
  assumes B: "h \<le> f" "a \<le> h + n" "h + n \<le> length B" and src: "n \<le> length src" and m: "h < f \<or> m1 = 0" "a < h + n \<or> mn = 0"
  shows "get_at (f - h) (a - f) src = take (a - f) (drop f (masked_write h src n m1 mn B))"
proof (cases "f \<le> a")
  case True
  have l: "length (masked_write h src n m1 mn B) = length B" using B by (simp add: length_masked_write)
  show ?thesis
  proof (rule nth_equalityI)
    have le: "f - h + (a - f) \<le> length src" using True B src by linarith
    then show "length (get_at (f - h) (a - f) src) = length (take (a - f) (drop f (masked_write h src n m1 mn B)))"
      using l B True by simp
    fix k
    assume "k < length (get_at (f - h) (a - f) src)"
    then have k: "k < a - f" using le by simp
    have fk: "f + k < h + n" using k B by linarith
    then have "f + k < length B" using B by simp
    note mw = masked_write_nth [OF B(3) this, of src m1 mn]
    have "byte_mask n m1 mn (f + k - h) = 0" using k B m by (auto simp: byte_mask_def)
    moreover have "get_at (f - h) (a - f) src ! k = src ! (f - h + k)" by (rule nth_get_at [OF le k])
    moreover have "f - h + k = f + k - h" using B by simp
    ultimately show "get_at (f - h) (a - f) src ! k = take (a - f) (drop f (masked_write h src n m1 mn B)) ! k"
      using mw k B l fk by simp
  qed
qed (simp add: get_at_def)

section \<open>The steps of the merge\<close>

lemma put_at_Nil [simp]: "put_at i [] b = b"
  by (simp add: put_at_def)

lemma get_at_none [simp]: "get_at i 0 b = []"
  by (simp add: get_at_def)

lemma merge_first_run:
  assumes "\<not> wp_lastInFirst p" "mg_remaining s = int r"
  shows "merge_first c p src n mn s = s\<lparr>mg_first := put_at (wp_head p + 1) (get_at 1 r src)
      ((mg_first s)[wp_head p := merge_bits (wp_msk1 p) (mg_first s ! wp_head p) (src ! 0)]), mg_toput := mg_toput s - 1 - int r\<rparr>"
  using assms by (cases "r = 0") (simp_all add: merge_first_def Let_def)

lemma merge_first_lif:
  assumes "wp_lastInFirst p" "mg_remaining s' = int r"
    "merge_lif c p src n mn (s\<lparr>mg_first := (mg_first s)[wp_head p := merge_bits (wp_msk1 p) (mg_first s ! wp_head p) (src ! 0)], mg_toput := mg_toput s - 1\<rparr>) = s'"
  shows "merge_first c p src n mn s = s'\<lparr>mg_first := put_at (wp_head p + 1) (get_at 1 r src) (mg_first s'), mg_toput := mg_toput s' - int r\<rparr>"
  unfolding merge_first_def Let_def if_P [OF assms(1)] assms(3) using assms(2) by (cases "r = 0") simp_all

lemma merge_last_run:
  assumes "mg_lastByte s = i" "i \<le> length (mg_last s)" "i \<le> n - 1" "n \<le> length src" "i < length (mg_last s)"
  shows "merge_last src n mn s = s\<lparr>mg_last := (put_at 0 (get_at (n - 1 - i) i src) (mg_last s))[i := merge_bits mn (mg_last s ! i) (src ! (n - 1))],
    mg_toput := mg_toput s - 1 - int i\<rparr>"
proof -
  have lg: "length (get_at (n - 1 - i) i src) = i" using assms by (intro length_get_at) simp
  then have "put_at 0 (get_at (n - 1 - i) i src) (mg_last s) ! i = mg_last s ! i"
    using assms by (subst nth_put_at) simp_all
  then show ?thesis using assms(1) by (cases "i = 0") (simp_all add: merge_last_def Let_def)
qed

text \<open>The invariant of the three parts: the first is done up to \<open>F\<close>, the bytes of the caller go from \<open>F\<close> to \<open>a\<close>, and the last starts
  at \<open>a\<close>.\<close>

definition pieces :: "srp \<Rightarrow> wplan \<Rightarrow> nat \<Rightarrow> nat \<Rightarrow> u8 list \<Rightarrow> u8 list \<Rightarrow> merge_st \<Rightarrow> bool" where
  "pieces c p F a src T s \<longleftrightarrow> F \<le> a \<and> a \<le> length T
    \<and> (wp_mergeFirst p \<longrightarrow> take F (mg_first s) = take F T \<and> F \<le> length (mg_first s)) \<and> (\<not> wp_mergeFirst p \<longrightarrow> F = 0)
    \<and> nat (mg_toput s) = a - F \<and> get_at (F - wp_head p) (a - F) src = take (a - F) (drop F T)
    \<and> (if mg_mergeLast s then mg_last s = drop a T \<and> mg_lastlen s = length T - a else a = length T)
    \<and> (\<not> sr_byteResolution c \<longrightarrow> 4 dvd a \<and> (wp_mergeFirst p \<longrightarrow> F = 4) \<and> (mg_mergeLast s \<longrightarrow> length T - a = 4))"

definition first_len :: "srp \<Rightarrow> wplan \<Rightarrow> u64 \<Rightarrow> nat" where
  "first_len c p off = (if wp_mergeFirst p then min (fst (first_read c p off)) 4 else 0)"

text \<open>What a write with both merges must not be, since then the words in the middle are left out.\<close>

definition collapsed :: "srp \<Rightarrow> u64 \<Rightarrow> nat \<Rightarrow> u8 \<Rightarrow> u8 \<Rightarrow> bool" where
  "collapsed c off n m1 mn \<longleftrightarrow> wants_merge c off n m1 mn = (True, True) \<and> n \<noteq> 1 \<and> 8 < headBytes c off + n \<and> headBytes c off + n \<le> 32"

lemma write_plan_fields:
  "wp_head (write_plan c off n m1 mn) = headBytes c off" "wp_tot (write_plan c off n m1 mn) = headBytes c off + n"
  "wp_nWords (write_plan c off n m1 mn) = n_words c off n" "wp_mergeFirst (write_plan c off n m1 mn) = fst (wants_merge c off n m1 mn)"
  by (simp_all add: write_plan_def Let_def wants_merge_def n_words_def)

section \<open>The whole merge\<close>

lemma span_words: "\<not> sr_byteResolution c \<Longrightarrow> span c off n = 4 * ((headBytes c off + n + 3) div 4)"
  by (simp add: span_def n_words_def)

lemma span_bytes: "sr_byteResolution c \<Longrightarrow> span c off n = n \<and> headBytes c off = 0"
  by (simp add: span_def headBytes_def)

lemma words_up: "(t + 3) div 4 * 4 = t + (if t mod 4 = 0 then 0 else 4 - t mod 4)" for t :: nat
  by presburger

text \<open>The first word, where it is read alone.\<close>

lemma first_done:
  assumes n: "0 < n" and src: "n \<le> length src" and B: "length B = span c off n" and p: "p = write_plan c off n m1 mn"
    and plan: "wp_mergeFirst p" "\<not> wp_lastInFirst p" "n = 1 \<or> mn = 0 \<or> 32 < wp_tot p"
    and fw: "fw = take (fst (first_read c p off)) B"
  shows "\<exists>X. merge_first c p src n mn (merge_begin c p off n fw lw)
      = (merge_begin c p off n fw lw)\<lparr>mg_first := X, mg_toput := int (wp_tot p - min (wp_tot p) (first_len c p off))\<rparr>
    \<and> take (first_len c p off) X = take (first_len c p off) (masked_write (headBytes c off) src n m1 mn B) \<and> first_len c p off \<le> length X"
proof -
  let ?h = "headBytes c off" and ?f = "first_len c p off"
  define r where "r = min (?h + n) ?f - ?h - 1"
  have f: "fst (first_read c p off) = ?f" "?f = (if sr_byteResolution c then 1 else 4)"
    using plan by (auto simp: first_read_def first_len_def)
  have h: "?h < ?f" unfolding f(2) by (simp add: headBytes_def)
  have fB: "?f \<le> length B" using B n span_words [of c off n] span_bytes [of c off n] unfolding f(2) by auto
  have t: "wp_tot p = ?h + n" "wp_head p = ?h" by (simp_all add: p write_plan_fields)
  have r: "?h + 1 + r \<le> ?f" "1 + r \<le> n" "min (?h + n) ?f \<le> ?h + 1 + r" using h n by (auto simp: r_def min_def)
  have hn: "?h + n \<le> length B" using B head_span [of c off n] by simp
  have m: "wp_msk1 p = (if n = 1 then m1 OR mn else m1)"
    using plan(1) unfolding p by (auto simp: write_plan_def Let_def wants_merge_def)
  have c: "n = 1 \<or> mn = 0 \<or> ?f < ?h + n" using plan(3) t f(2) by auto
  let ?s = "merge_begin c p off n fw lw"
  have rem: "mg_remaining ?s = int r"
  proof -
    have "1 + ?h \<le> (if wp_tot p \<le> ?f then wp_tot p else ?f)" using h n t by simp
    moreover have "r = (if wp_tot p \<le> ?f then wp_tot p else ?f) - ?h - 1" by (simp add: r_def t min_def)
    ultimately show ?thesis by (simp add: merge_begin_def Let_def f(1) t)
  qed
  let ?X = "put_at (?h + 1) (get_at 1 r src) ((take ?f B)[?h := merge_bits (wp_msk1 p) (B ! ?h) (src ! 0)])"
  have fh: "fw ! ?h = B ! ?h" unfolding fw f(1) using h by simp
  have "take ?f ?X = take ?f (masked_write ?h src n m1 mn B)"
    by (rule masked_write_first [OF hn n src fB order_refl h r c m])
  moreover have "length (get_at 1 r src) = r" using r(2) src by (intro length_get_at) simp
  then have "length ?X = ?f" using r(1) fB by simp
  moreover have "mg_first ?s = take ?f B" "mg_toput ?s = int n" by (simp_all add: merge_begin_def Let_def fw f(1))
  then have "merge_first c p src n mn ?s = ?s\<lparr>mg_first := ?X, mg_toput := int n - 1 - int r\<rparr>"
    using merge_first_run [OF plan(2) rem, of c src n mn] h t by simp
  moreover have "int n - 1 - int r = int (wp_tot p - min (wp_tot p) ?f)"
    using h n unfolding r_def t by (auto simp: min_def)
  ultimately show ?thesis by (intro exI [of _ ?X]) simp
qed

text \<open>The last word.\<close>

lemma last_done:
  assumes s: "mg_lastByte s = i" "mg_last s = drop a B" and B: "a + i + 1 = h + n" "a + i < length B" "h \<le> a" "0 < n" and src: "n \<le> length src"
    and m: "m1 = 0 \<or> h < a"
  shows "merge_last src n mn s = s\<lparr>mg_last := drop a (masked_write h src n m1 mn B), mg_toput := mg_toput s - 1 - int i\<rparr>"
proof -
  have "merge_last src n mn s = s\<lparr>mg_last := (put_at 0 (get_at (n - 1 - i) i src) (mg_last s))[i := merge_bits mn (mg_last s ! i) (src ! (n - 1))],
      mg_toput := mg_toput s - 1 - int i\<rparr>"
    by (rule merge_last_run [OF s(1)]) (use s B src in simp_all)
  then show ?thesis using masked_write_last [OF B src m, of mn] s(2) B(2) by simp
qed

lemma length_T: "length B = span c off n \<Longrightarrow> length (masked_write (headBytes c off) src n m1 mn B) = span c off n"
  using head_span [of c off n] by (simp add: length_masked_write)

lemma pieces_first_only:
  assumes n: "0 < n" and src: "n \<le> length src" and B: "length B = span c off n" and p: "p = write_plan c off n m1 mn"
    and plan: "wp_mergeFirst p" "\<not> wp_lastInFirst p" "\<not> wp_mergeLast p" and fw: "fw = take (fst (first_read c p off)) B"
  shows "pieces c p (first_len c p off) (length B) src (masked_write (headBytes c off) src n m1 mn B) (merge_words c p off src n mn fw lw)"
proof -
  let ?h = "headBytes c off" and ?f = "first_len c p off" and ?T = "masked_write (headBytes c off) src n m1 mn B"
  have w: "n = 1 \<or> mn = 0" "n \<noteq> 1 \<Longrightarrow> \<not> sr_byteResolution c \<Longrightarrow> (?h + n) mod 4 = 0"
    using plan unfolding p write_plan_def wants_merge_def Let_def by (auto split: if_splits)
  then have c: "n = 1 \<or> mn = 0 \<or> 32 < wp_tot p" by blast
  obtain X where X: "merge_first c p src n mn (merge_begin c p off n fw lw)
      = (merge_begin c p off n fw lw)\<lparr>mg_first := X, mg_toput := int (wp_tot p - min (wp_tot p) ?f)\<rparr>"
      "take ?f X = take ?f ?T" "?f \<le> length X"
    using first_done [OF n src B p plan(1,2) c fw] by blast
  have f: "?f = (if sr_byteResolution c then 1 else 4)" using plan by (auto simp: first_read_def first_len_def)
  have h: "?h < ?f" unfolding f by (simp add: headBytes_def)
  have t: "wp_tot p = ?h + n" "wp_head p = ?h" by (simp_all add: p write_plan_fields)
  have hn: "?h + n \<le> length B" using B head_span [of c off n] by simp
  have l: "length ?T = length B" using length_T [OF B] B by simp
  have fB: "?f \<le> length B" using B n span_words [of c off n] span_bytes [of c off n] unfolding f by auto
  have a: "?h + n - min (?h + n) ?f = length B - ?f" "length B = ?f \<or> length B = ?h + n \<and> mn = 0"
  proof -
    have "length B = ?f \<and> ?h + n \<le> ?f \<or> length B = ?h + n \<and> mn = 0"
    proof (cases "sr_byteResolution c")
      case True
      then show ?thesis using B span_bytes [OF True, of off n] w(1) f n by auto
    next
      case False
      then have "length B = (?h + n + 3) div 4 * 4" using B span_words [OF False, of off n] by simp
      then have L: "length B = ?h + n + (if (?h + n) mod 4 = 0 then 0 else 4 - (?h + n) mod 4)" using words_up [of "?h + n"] by simp
      show ?thesis
      proof (cases "n = 1")
        case True
        then have "?h + n = 1 \<or> ?h + n = 2 \<or> ?h + n = 3 \<or> ?h + n = 4" using h f False by auto
        then show ?thesis using L f False by auto
      qed (use w L False in auto)
    qed
    then show "?h + n - min (?h + n) ?f = length B - ?f" "length B = ?f \<or> length B = ?h + n \<and> mn = 0" using fB by auto
  qed
  have mid: "get_at (?f - ?h) (length B - ?f) src = take (length B - ?f) (drop ?f ?T)"
  proof (cases "length B = ?f")
    case False
    then have "length B \<le> ?h + n" "length B < ?h + n \<or> mn = 0" using a(2) by auto
    then show ?thesis using h hn src by (intro masked_write_mid) auto
  qed simp
  have ml: "mg_mergeLast (merge_begin c p off n fw lw) = False" using plan(3) by (simp add: merge_begin_def Let_def)
  have dv: "\<not> sr_byteResolution c \<Longrightarrow> 4 dvd length B" using B span_words [of c off n] by simp
  show ?thesis unfolding pieces_def merge_words_def Let_def using plan(1) X ml mid l fB a(1) t dv f by simp
qed

lemma last_pos:
  assumes n: "0 < n" and B: "length B = span c off n" and i: "i = (if sr_byteResolution c then 0 else (headBytes c off + n - 1) mod 4)"
  shows "length B - fst (last_read c off n) + i + 1 = headBytes c off + n" "length B - fst (last_read c off n) + i < length B"
    "fst (last_read c off n) \<le> length B" "\<not> sr_byteResolution c \<Longrightarrow> 4 dvd length B - fst (last_read c off n)" "0 < fst (last_read c off n)"
proof -
  have "length B - fst (last_read c off n) + i + 1 = headBytes c off + n \<and> length B - fst (last_read c off n) + i < length B
    \<and> fst (last_read c off n) \<le> length B \<and> (\<not> sr_byteResolution c \<longrightarrow> 4 dvd length B - fst (last_read c off n)) \<and> 0 < fst (last_read c off n)"
  proof (cases "sr_byteResolution c")
    case True
    then show ?thesis using B span_bytes [OF True, of off n] i n by (simp add: last_read_def)
  next
    case False
    define t where "t = headBytes c off + n - 1"
    have t: "headBytes c off + n = t + 1" using n by (simp add: t_def)
    have "(t + 1 + 3) div 4 = t div 4 + 1" by simp
    then have L: "length B = 4 * (t div 4) + 4" using B span_words [OF False, of off n] t by simp
    have "t = 4 * (t div 4) + t mod 4" by simp
    then show ?thesis using L False i t unfolding t_def [symmetric] by (simp add: last_read_def)
  qed
  then show "length B - fst (last_read c off n) + i + 1 = headBytes c off + n" "length B - fst (last_read c off n) + i < length B"
    "fst (last_read c off n) \<le> length B" "\<not> sr_byteResolution c \<Longrightarrow> 4 dvd length B - fst (last_read c off n)" "0 < fst (last_read c off n)" by blast+
qed

lemma pieces_last:
  assumes n: "0 < n" and src: "n \<le> length src" and B: "length B = span c off n" and p: "p = write_plan c off n m1 mn"
    and plan: "\<not> wp_lastInFirst p" "wp_mergeLast p"
    and fw: "wp_mergeFirst p \<longrightarrow> fw = take (fst (first_read c p off)) B" and lw: "lw = drop (length B - fst (last_read c off n)) B"
  shows "pieces c p (first_len c p off) (length B - fst (last_read c off n)) src (masked_write (headBytes c off) src n m1 mn B)
    (merge_words c p off src n mn fw lw)"
proof -
  let ?h = "headBytes c off" and ?f = "first_len c p off" and ?T = "masked_write (headBytes c off) src n m1 mn B"
  let ?a = "length B - fst (last_read c off n)" and ?s0 = "merge_begin c p off n fw lw"
  have w: "wp_mergeFirst p \<Longrightarrow> 32 < ?h + n" "\<not> wp_mergeFirst p \<Longrightarrow> ?h = 0 \<and> m1 = 0"
    using plan unfolding p write_plan_def wants_merge_def Let_def by (auto split: if_splits)
  have t: "wp_tot p = ?h + n" "wp_head p = ?h" by (simp_all add: p write_plan_fields)
  define i where "i = (if sr_byteResolution c then 0 else (?h + n - 1) mod 4)"
  note lp = last_pos [OF n B i_def]
  have f: "?f = (if wp_mergeFirst p then if sr_byteResolution c then 1 else 4 else 0)"
    using plan by (auto simp: first_read_def first_len_def)
  have i4: "i < 4" by (simp add: i_def)
  have fa: "?f \<le> ?a" "?h \<le> ?f" "?h < ?f \<or> m1 = 0" "m1 = 0 \<or> ?h < ?a"
  proof -
    have h4: "?h < 4" "sr_byteResolution c \<Longrightarrow> ?h = 0" by (simp_all add: headBytes_def)
    have "4 \<le> ?a" if "wp_mergeFirst p" using w(1) [OF that] lp(1) i4 by linarith
    then show "?f \<le> ?a" "?h \<le> ?f" "?h < ?f \<or> m1 = 0" "m1 = 0 \<or> ?h < ?a" unfolding f using w(2) h4 by (cases "wp_mergeFirst p"; cases "sr_byteResolution c"; auto)+
  qed
  obtain X where X: "(if wp_mergeFirst p then merge_first c p src n mn ?s0 else ?s0) = ?s0\<lparr>mg_first := X, mg_toput := int (?h + n - ?f)\<rparr>"
      "wp_mergeFirst p \<longrightarrow> take ?f X = take ?f ?T \<and> ?f \<le> length X"
  proof (cases "wp_mergeFirst p")
    case True
    have "min (wp_tot p) ?f = ?f" using w(1) [OF True] fa lp(1) t by simp
    then show ?thesis using first_done [OF n src B p True plan(1) _ fw [rule_format, OF True], of lw] w(1) [OF True] that True t by auto
  next
    case False
    then have "?s0 = ?s0\<lparr>mg_first := fw, mg_toput := int (?h + n - ?f)\<rparr>" using w(2) f by (simp add: merge_begin_def Let_def)
    then show ?thesis using that False by simp
  qed
  let ?s1 = "?s0\<lparr>mg_first := X, mg_toput := int (?h + n - ?f)\<rparr>"
  have s1: "mg_lastByte ?s1 = i" "mg_last ?s1 = drop ?a B" "mg_mergeLast ?s1" "mg_lastlen ?s1 = fst (last_read c off n)"
    using plan(2) lw by (simp_all add: merge_begin_def Let_def i_def t)
  have ha: "?h \<le> ?a" using fa by simp
  have m: "merge_words c p off src n mn fw lw = ?s1\<lparr>mg_last := drop ?a ?T, mg_toput := mg_toput ?s1 - 1 - int i\<rparr>"
    unfolding merge_words_def Let_def X(1) if_P [OF s1(3)] by (rule last_done [OF s1(1,2) lp(1,2) ha n src fa(4)])
  have lT: "length ?T = length B" using length_T [OF B] B by simp
  have hn: "?h + n \<le> length B" using B head_span [of c off n] by simp
  have mid: "get_at (?f - ?h) (?a - ?f) src = take (?a - ?f) (drop ?f ?T)"
    by (rule masked_write_mid [OF fa(2) _ hn src fa(3)]) (use lp(1) in linarith)+
  have tp: "nat (int (?h + n - ?f) - 1 - int i) = ?a - ?f" using lp(1) fa by linarith
  show ?thesis unfolding pieces_def m using X(2) lT lp(3,4) mid fa(1) s1(3,4) t tp f by (auto simp: last_read_def)
qed

lemma pieces_none:
  assumes n: "0 < n" and src: "n \<le> length src" and B: "length B = span c off n" and p: "p = write_plan c off n m1 mn"
    and plan: "\<not> wp_mergeFirst p" "\<not> wp_mergeLast p"
  shows "pieces c p (first_len c p off) (length B) src (masked_write (headBytes c off) src n m1 mn B) (merge_words c p off src n mn fw lw)"
proof -
  let ?h = "headBytes c off" and ?T = "masked_write (headBytes c off) src n m1 mn B"
  have w: "?h = 0" "m1 = 0" "mn = 0" "\<not> sr_byteResolution c \<Longrightarrow> n mod 4 = 0"
    using plan unfolding p write_plan_def wants_merge_def Let_def by (auto split: if_splits)
  have L: "length B = n"
    using B span_bytes [of c off n] span_words [of c off n] w(1,4) words_up [of n] by (cases "sr_byteResolution c") simp_all
  have lT: "length ?T = length B" using length_T [OF B] B by simp
  have hn: "?h + n \<le> length B" using L w by simp
  have f: "first_len c p off = 0" using plan(1) by (simp add: first_len_def)
  have mid: "get_at (0 - ?h) (length B - 0) src = take (length B - 0) (drop 0 ?T)"
    by (rule masked_write_mid [OF _ _ hn src]) (use w L in simp_all)
  have "merge_words c p off src n mn fw lw = merge_begin c p off n fw lw" "mg_toput (merge_begin c p off n fw lw) = int n" "\<not> mg_mergeLast (merge_begin c p off n fw lw)"
    using plan by (simp_all add: merge_words_def merge_begin_def Let_def)
  moreover have "\<not> sr_byteResolution c \<Longrightarrow> 4 dvd length B" using L w by auto
  ultimately show ?thesis unfolding pieces_def f using lT mid plan(1) L p by (simp add: write_plan_fields)
qed

lemma pieces_one_read:
  assumes n: "0 < n" and src: "n \<le> length src" and B: "length B = span c off n" and p: "p = write_plan c off n m1 mn"
    and plan: "wp_lastInFirst p" "wp_tot p \<le> 8" and fw: "fw = take (fst (first_read c p off)) B"
  shows "\<exists>a. pieces c p (first_len c p off) a src (masked_write (headBytes c off) src n m1 mn B) (merge_words c p off src n mn fw lw)"
proof -
  let ?h = "headBytes c off" and ?T = "masked_write (headBytes c off) src n m1 mn B" and ?s0 = "merge_begin c p off n fw lw"
  let ?t = "?h + n"
  have w: "wp_mergeFirst p" "\<not> wp_mergeLast p" "n \<noteq> 1" "wp_msk1 p = m1"
    using plan unfolding p write_plan_def wants_merge_def Let_def by (auto split: if_splits)
  have t: "wp_tot p = ?t" "wp_head p = ?h" by (simp_all add: p write_plan_fields)
  have n1: "1 < n" using n w(3) by simp
  have h4: "?h < 4" by (simp add: headBytes_def)
  have fr: "fst (first_read c p off) = length B"
    using plan(1) B span_bytes [of c off n] span_words [of c off n] t by (simp add: first_read_def)
  then have fwB: "fw = B" using fw by simp
  have hn: "?t \<le> length B" using B head_span [of c off n] by simp
  have lT: "length ?T = length B" using length_T [OF B] B by simp
  have f: "first_len c p off = min (length B) 4" using w(1) fr by (simp add: first_len_def)
  have s0: "mg_first ?s0 = B" "mg_toput ?s0 = int n" "mg_remaining ?s0 = int (n - 1)" "\<not> mg_mergeLast ?s0"
    using fwB w(2) n hn by (simp_all add: merge_begin_def Let_def fr t)
  have up: "\<not> sr_byteResolution c \<Longrightarrow> length B = ?t + (if ?t mod 4 = 0 then 0 else 4 - ?t mod 4)"
    using B span_words [of c off n] words_up [of ?t] by simp
  show ?thesis
  proof (cases "4 < ?t")
    case False
    let ?F = "B[?h := merge_bits m1 (B ! ?h) (src ! 0), ?t - 1 := merge_bits mn (B ! (?t - 1)) (src ! (n - 1))]"
    have LB: "length B \<le> 4" "\<not> sr_byteResolution c \<longrightarrow> length B = 4"
    proof -
      consider "sr_byteResolution c" | "\<not> sr_byteResolution c" "?t = 2 \<or> ?t = 3 \<or> ?t = 4" using False n1 by linarith
      then have "length B \<le> 4 \<and> (\<not> sr_byteResolution c \<longrightarrow> length B = 4)"
      proof cases
        case 1
        then show ?thesis using B span_bytes [OF 1, of off n] False by simp
      next
        case 2
        then show ?thesis using up [OF 2(1)] by auto
      qed
      then show "length B \<le> 4" "\<not> sr_byteResolution c \<longrightarrow> length B = 4" by blast+
    qed
    have ne: "?t - 1 \<noteq> ?h" using n1 by simp
    define s1 where "s1 = ?s0\<lparr>mg_first := B[?h := merge_bits m1 (B ! ?h) (src ! 0)], mg_toput := int n - 1\<rparr>"
    have l: "merge_lif c p src n mn s1 = s1\<lparr>mg_lastByte := ?t - 1, mg_first := ?F, mg_remaining := int (n - 2), mg_toput := int (n - 2)\<rparr>"
      using False n1 ne by (simp add: merge_lif_def Let_def t s1_def s0)
    have s1: "merge_lif c p src n mn (?s0\<lparr>mg_first := (mg_first ?s0)[wp_head p := merge_bits (wp_msk1 p) (mg_first ?s0 ! wp_head p) (src ! 0)],
        mg_toput := mg_toput ?s0 - 1\<rparr>) = s1\<lparr>mg_lastByte := ?t - 1, mg_first := ?F, mg_remaining := int (n - 2), mg_toput := int (n - 2)\<rparr>"
      unfolding s0 w(4) t s1_def [symmetric] by (rule l)
    have "merge_first c p src n mn ?s0 = s1\<lparr>mg_lastByte := ?t - 1, mg_first := put_at (?h + 1) (get_at 1 (n - 2) src) ?F,
        mg_remaining := int (n - 2), mg_toput := 0\<rparr>"
      using merge_first_lif [OF plan(1) _ s1, of "n - 2"] t by simp
    moreover have "put_at (?h + 1) (get_at 1 (n - 2) src) ?F = ?T"
      using masked_write_only [OF hn order_refl n1 src refl, of m1 mn] lT by simp
    ultimately have mf: "merge_first c p src n mn ?s0 = s1\<lparr>mg_lastByte := ?t - 1, mg_first := ?T, mg_remaining := int (n - 2), mg_toput := 0\<rparr>"
      by (simp only:)
    define s2 where "s2 = s1\<lparr>mg_lastByte := ?t - 1, mg_first := ?T, mg_remaining := int (n - 2), mg_toput := 0\<rparr>"
    have s2: "\<not> mg_mergeLast s2" "mg_first s2 = ?T" "mg_toput s2 = 0" using s0(4) by (simp_all add: s2_def s1_def)
    have mw: "merge_words c p off src n mn fw lw = s2"
      unfolding merge_words_def Let_def if_P [OF w(1)] mf s2_def [symmetric] using s2(1) by (simp only: if_False)
    have fl: "first_len c p off = length B" using f LB by simp
    have "pieces c p (first_len c p off) (length B) src ?T (merge_words c p off src n mn fw lw)"
      unfolding mw fl pieces_def s2(2,3) if_not_P [OF s2(1)] lT using w(1) s2(1) LB(2) by (intro conjI impI) simp_all
    then show ?thesis by blast
  next
    case True
    have t8: "?t \<le> 8" using plan(2) t by simp
    have t5: "?t = 5 \<or> ?t = 6 \<or> ?t = 7 \<or> ?t = 8" using True t8 by linarith
    then have d: "(?t - 1) div 4 * 4 = 4" "(?t - 1) mod 4 = ?t - 5" by (elim disjE; simp)+
    have LB: "4 < length B" "length B \<le> 8" "length B = (if sr_byteResolution c then ?t else 8)"
    proof -
      have "\<not> sr_byteResolution c \<Longrightarrow> length B = 8"
        using up t5 by auto
      then show "4 < length B" "length B \<le> 8" "length B = (if sr_byteResolution c then ?t else 8)"
        using B span_bytes [of c off n] True t8 by (cases "sr_byteResolution c"; simp)+
    qed
    let ?F = "B[?h := merge_bits m1 (B ! ?h) (src ! 0)]"
    define s1 where "s1 = ?s0\<lparr>mg_first := ?F, mg_toput := int n - 1\<rparr>"
    have g4: "get_at 4 4 ?F = drop 4 B" using h4 LB by (simp add: get_at_def)
    have l: "merge_lif c p src n mn s1 = s1\<lparr>mg_last := drop 4 B, mg_mergeLast := True, mg_lastByte := ?t - 5,
        mg_lastlen := (if sr_byteResolution c then ?t - 5 + 1 else 4)\<rparr>"
      unfolding merge_lif_def Let_def t d if_P [OF True] using g4 by (simp add: s1_def)
    define P where "P = put_at (?h + 1) (get_at 1 (n - 1) src) ?F"
    define s2 where "s2 = s1\<lparr>mg_last := drop 4 B, mg_mergeLast := True, mg_lastByte := ?t - 5,
        mg_lastlen := (if sr_byteResolution c then ?t - 5 + 1 else 4), mg_first := P, mg_toput := 0\<rparr>"
    have s1: "merge_lif c p src n mn (?s0\<lparr>mg_first := (mg_first ?s0)[wp_head p := merge_bits (wp_msk1 p) (mg_first ?s0 ! wp_head p) (src ! 0)],
        mg_toput := mg_toput ?s0 - 1\<rparr>) = s1\<lparr>mg_last := drop 4 B, mg_mergeLast := True, mg_lastByte := ?t - 5,
        mg_lastlen := (if sr_byteResolution c then ?t - 5 + 1 else 4)\<rparr>"
      unfolding s0 w(4) t s1_def [symmetric] by (rule l)
    have mf: "merge_first c p src n mn ?s0 = s2"
      using merge_first_lif [OF plan(1) _ s1, of "n - 1"] s0 n1 t by (simp add: s1_def s2_def P_def of_nat_diff)
    have lp: "length P = length B" using hn src n1 by (simp add: P_def)
    have tk: "take 4 P = take 4 ?T"
    proof -
      have "take 4 (put_at (?h + 1) (get_at 1 (n - 1) src) ((take (length B) B)[?h := merge_bits m1 (B ! ?h) (src ! 0)])) = take 4 ?T"
        by (rule masked_write_first [OF hn n src order_refl]) (use True LB h4 hn n1 in auto)
      then show ?thesis by (simp add: P_def)
    qed
    have ml: "merge_last src n mn s2 = s2\<lparr>mg_last := drop 4 ?T, mg_toput := mg_toput s2 - 1 - int (?t - 5)\<rparr>"
      by (rule last_done [of s2]) (use True hn h4 n src in \<open>simp_all add: s2_def\<close>)
    have e: "Suc (?t - 5) = ?t - 4" using True by simp
    have ms: "mg_mergeLast s2" by (simp add: s2_def)
    have "pieces c p (first_len c p off) 4 src ?T (merge_words c p off src n mn fw lw)"
      unfolding merge_words_def Let_def if_P [OF w(1)] mf if_P [OF ms] ml
      using LB True e by (simp add: pieces_def s2_def lT f lp tk w(1) t)
    then show ?thesis by blast
  qed
qed

theorem merge_pieces:
  assumes n: "0 < n" and src: "n \<le> length src" and B: "length B = span c off n" and p: "p = write_plan c off n m1 mn"
    and fw: "wp_mergeFirst p \<longrightarrow> fw = take (fst (first_read c p off)) B"
    and lw: "wp_mergeLast p \<longrightarrow> lw = drop (length B - fst (last_read c off n)) B"
    and ok: "\<not> collapsed c off n m1 mn"
  shows "\<exists>a. pieces c p (first_len c p off) a src (masked_write (headBytes c off) src n m1 mn B) (merge_words c p off src n mn fw lw)"
proof -
  have t: "wp_tot p = headBytes c off + n" by (simp add: p write_plan_fields)
  have lif: "wp_lastInFirst p \<Longrightarrow> wp_mergeFirst p \<and> wp_tot p \<le> 8"
    using ok unfolding t unfolding p collapsed_def by (auto simp: write_plan_def Let_def split: prod.splits)
  consider "wp_lastInFirst p" | "\<not> wp_lastInFirst p" "wp_mergeLast p" | "\<not> wp_lastInFirst p" "\<not> wp_mergeLast p" "wp_mergeFirst p"
    | "\<not> wp_mergeLast p" "\<not> wp_mergeFirst p" by blast
  then show ?thesis
  proof cases
    case 1
    then show ?thesis using pieces_one_read [OF n src B p 1] lif fw by blast
  next
    case 2
    then show ?thesis using pieces_last [OF n src B p 2 fw] lw by blast
  next
    case 3
    then show ?thesis using pieces_first_only [OF n src B p 3(3,1,2)] fw by blast
  next
    case 4
    then show ?thesis using pieces_none [OF n src B p 4(2,1)] by blast
  qed
qed

end
