(* ===== verification/SrpMessage.thy ===== *)
theory SrpMessage
  imports SrpMerge
begin

text \<open>
  The message of a write, in pieces copied to the transmit buffers and swapped there by the first version of the protocol, is the
  header and the bytes of the range; and what the server understands of it.
\<close>

section \<open>The payload\<close>

lemma swap_words_append3:
  assumes "length x = 4 * l" "length y = 4 * m" "length z = 4 * n"
  shows "swap_words 0 (l + m + n) (x @ y @ z) = swap_words 0 l x @ swap_words 0 m y @ swap_words 0 n z"
  using swap_words_append2 [of x l "y @ z" "m + n"] swap_words_append2 [of y m z n] assms by (simp add: add.assoc)

text \<open>What follows the payload.\<close>

definition write_post :: "nat \<Rightarrow> srp \<Rightarrow> nat \<Rightarrow> u8 list" where
  "write_post vers c tot = (if vers = 3 then if sr_byteResolution c \<and> tot mod 4 \<noteq> 0 then replicate (4 - tot mod 4) 0 else [] else word_bytes LE 0)"

lemma take_drop3: "f \<le> a \<Longrightarrow> take f T @ take (a - f) (drop f T) @ drop a T = T"
  by (metis append_take_drop_id drop_drop le_add_diff_inverse2)

lemma write_msg_plain:
  assumes ok: "srp_ok vers c" and v: "vers \<noteq> 1" and pc: "pieces c p F a src T s" and F: "F = first_len c p off"
  shows "write_msg c p tid off src s = hdr_bytes c (write_xbuf c p tid off) @ T @ write_post vers c (wp_tot p)"
proof -
  have nv: "needsPayloadSwap c = False" "sr_host c = LE" "(sr_protoVersion c < SRP_UDP_V3) = (vers \<noteq> 3)"
    using ok v by (auto simp: needsPayloadSwap_def srp_ok_def)
  have first: "concat (if wp_mergeFirst p then [take (min (fst (first_read c p off)) 4) (mg_first s)] else []) = take F T"
    using pc F by (auto simp: pieces_def first_len_def)
  have mid: "concat (if 0 < mg_toput s then [get_at (if wp_mergeFirst p then min (fst (first_read c p off)) 4 - wp_head p else 0) (nat (mg_toput s)) src] else [])
      = take (a - F) (drop F T)"
  proof (cases "0 < mg_toput s")
    case True
    have "get_at (F - wp_head p) (a - F) src = take (a - F) (drop F T)" "nat (mg_toput s) = a - F" using pc by (simp_all add: pieces_def)
    then show ?thesis using True F by (auto simp: first_len_def)
  next
    case False
    then have "a - F = 0" using pc by (simp add: pieces_def)
    then show ?thesis using False by simp
  qed
  have last: "concat (if mg_mergeLast s then [take (mg_lastlen s) (mg_last s)] else []) = drop a T" using pc by (auto simp: pieces_def)
  have post: "concat (if vers \<noteq> 3 then [word_bytes LE 0] else if sr_byteResolution c \<and> wp_tot p mod 4 \<noteq> 0 then [replicate (4 - wp_tot p mod 4) 0] else [])
      = write_post vers c (wp_tot p)" by (simp add: write_post_def)
  have fa: "F \<le> a" using pc by (simp add: pieces_def)
  have "write_msg c p tid off src s = hdr_bytes c (write_xbuf c p tid off) @ (take F T @ take (a - F) (drop F T) @ drop a T) @ write_post vers c (wp_tot p)"
    unfolding write_msg_def Let_def nv simp_thms if_False assembleXBuf_plain concat_append concat.simps(2) first mid last post
    by (simp only: append_assoc)
  then show ?thesis by (simp only: take_drop3 [OF fa])
qed

lemma within_swpw_take: "4 \<le> length b \<Longrightarrow> take 4 (within 0 4 swpw b) = swpw (take 4 b)"
  by (simp add: within_def put_at_def get_at_def)

lemma write_msg_swapped:
  assumes ok: "srp_ok 1 c" and pc: "pieces c p F a src T s" and F: "F = first_len c p off" and T: "4 dvd length T"
  shows "write_msg c p tid off src s = hdr_bytes c (write_xbuf c p tid off) @ swap_words 0 (length T div 4) T @ write_post 1 c (wp_tot p)"
proof -
  have v: "needsPayloadSwap c" "sr_host c = LE" "sr_protoVersion c < SRP_UDP_V3" and nb: "\<not> sr_byteResolution c"
    and mtu: "0 < sr_mtu c" "4 dvd sr_mtu c"
    using ok by (auto simp: needsPayloadSwap_def srp_ok_def)
  have fa: "F \<le> a" "a \<le> length T" "4 dvd a" "wp_mergeFirst p \<Longrightarrow> F = 4" "\<not> wp_mergeFirst p \<Longrightarrow> F = 0" "mg_mergeLast s \<Longrightarrow> length T - a = 4"
      "\<not> mg_mergeLast s \<Longrightarrow> a = length T" "nat (mg_toput s) = a - F" "get_at (F - wp_head p) (a - F) src = take (a - F) (drop F T)"
      "wp_mergeFirst p \<Longrightarrow> take F (mg_first s) = take F T \<and> F \<le> length (mg_first s)" "mg_mergeLast s \<Longrightarrow> mg_last s = drop a T \<and> mg_lastlen s = 4"
    using pc nb by (auto simp: pieces_def)
  let ?x = "take F T" and ?y = "take (a - F) (drop F T)" and ?z = "drop a T"
  define l m n where "l = F div 4" and "m = (a - F) div 4" and "n = (length T - a) div 4"
  have d: "4 dvd F" using fa(4,5) by (cases "wp_mergeFirst p") simp_all
  have len: "length ?x = 4 * l" "length ?y = 4 * m" "length ?z = 4 * n" "a - F = 4 * m"
  proof -
    have "4 dvd a - F" "4 dvd length T - a" using d fa(3) T by simp_all
    then show "length ?x = 4 * l" "length ?y = 4 * m" "length ?z = 4 * n" "a - F = 4 * m"
      using d fa(1,2) by (simp_all add: l_def m_def n_def)
  qed
  have "F + (a - F) + (length T - a) = length T" using fa(1,2) by simp
  then have "4 * (l + m + n) = length T" using len fa(1,2) by (simp add: algebra_simps)
  then have tot: "length T div 4 = l + m + n" by simp
  have sw: "swap_words 0 (length T div 4) T = swap_words 0 l ?x @ swap_words 0 m ?y @ swap_words 0 n ?z"
    using swap_words_append3 [OF len(1,2,3)] take_drop3 [OF fa(1), of T] tot by simp
  let ?h = "hdr_bytes c (write_xbuf c p tid off)"
  define pre where "pre = ?h # (if wp_mergeFirst p then [take (min (fst (first_read c p off)) 4) (within 0 4 swpw (mg_first s))] else [])"
  define post where "post = (if mg_mergeLast s then [take (mg_lastlen s) (swpw (mg_last s))] else []) @ [word_bytes LE 0]"
  have first: "concat pre = ?h @ swap_words 0 l ?x"
  proof (cases "wp_mergeFirst p")
    case True
    then have 4: "F = 4" "min (fst (first_read c p off)) 4 = 4" using fa(4) F by (simp_all add: first_len_def)
    have "take 4 (within 0 4 swpw (mg_first s)) = swpw ?x" using fa(10) [OF True] 4 by (simp add: within_swpw_take)
    moreover have "length ?x = 4" using 4 fa by simp
    ultimately show ?thesis using True 4 swap_words_1 [of ?x] by (simp add: pre_def l_def)
  next
    case False
    then show ?thesis using fa(5) by (simp add: pre_def l_def)
  qed
  have last: "concat post = swap_words 0 n ?z @ word_bytes LE 0"
  proof (cases "mg_mergeLast s")
    case True
    then have "n = 1" "mg_last s = ?z" "mg_lastlen s = 4" "length ?z = 4" using fa(6,11) by (simp_all add: n_def)
    then show ?thesis using True swap_words_1 [of ?z] by (simp add: post_def)
  next
    case False
    then show ?thesis using fa(7) by (simp add: post_def n_def)
  qed
  have src: "get_at (if wp_mergeFirst p then min (fst (first_read c p off)) 4 - wp_head p else 0) (a - F) src = ?y"
    using fa(4,5,9) F by (cases "wp_mergeFirst p") (simp_all add: first_len_def)
  have run: "write_msg c p tid off src s
      = assembleXBuf c (pre @ (if 0 < mg_toput s then [?y] else []) @ post) (if 0 < mg_toput s then Some (length pre) else None) (4 * m)"
    unfolding write_msg_def Let_def fa(8) len(4) src [unfolded len(4)] using v by (simp add: pre_def post_def)
  show ?thesis
  proof (cases "0 < mg_toput s")
    case True
    have dv: "4 dvd length (concat (pre @ ?y # post))" "4 dvd length (concat pre)"
      unfolding concat_append concat.simps(2) first last using len by simp_all
    show ?thesis unfolding run using True assembleXBuf_swaps [OF mtu dv len(2)] first last sw by (simp add: write_post_def)
  next
    case False
    then have "m = 0" "a - F = 0" using fa(8) by (simp_all add: m_def)
    then show ?thesis unfolding run using False first last sw by (simp add: assembleXBuf_plain write_post_def split del: if_split)
  qed
qed

lemma write_msg_payload:
  assumes ok: "srp_ok vers c" and pc: "pieces c p (first_len c p off) a src T s" and T: "length T = span c off n"
  shows "write_msg c p tid off src s = hdr_bytes c (write_xbuf c p tid off) @ payload_swap (vers = 1) T @ write_post vers c (wp_tot p)"
proof (cases "vers = 1")
  case False
  then show ?thesis using write_msg_plain [OF ok False pc refl] by (simp add: payload_swap_def)
next
  case True
  have "\<not> sr_byteResolution c" using ok True by (auto simp: srp_ok_def)
  then have "4 dvd length T" unfolding T by (simp add: span_def)
  then show ?thesis using write_msg_swapped [OF _ pc refl] ok True by (simp add: payload_swap_def)
qed

end
