(* ===== verification/SrpStore.thy ===== *)
theory SrpStore
  imports SrpMessage
begin

text \<open>
  What the server makes of a write: it stores the bytes of the range, and answers with the identifier of the request and a good
  status.
\<close>

section \<open>The request\<close>

lemma write_request:
  assumes ok: "srp_ok vers c" and n: "0 < n" and R: "reachable_mem vers c rb mem off n" and P: "length P = span c off n"
    and p: "p = write_plan c off n m1 mn" and m: "m = hdr_bytes c (write_xbuf c p tid off) @ P @ write_post vers c (wp_tot p)"
  shows "srv_cmd vers m = (if is_posted c then CMD_PWR else CMD_WR)" "unat (srv_off vers m) = base c off" "srv_size vers m = span c off n"
    "\<not> srv_drop vers m" "length m = 4 * srv_ooff vers + 4 * n_words c off n + (if vers = 3 then 0 else 4)"
    "bs32 (vers = 1) (rbuf_word m (if vers = 2 then 0 else 1)) = tid" "vers = 3 \<Longrightarrow> rbuf_word m 0 AND 0xff = 3"
proof -
  let ?ws = "write_xbuf c p tid off" and ?k = "n_words c off n" and ?z = "write_post vers c (wp_tot p)"
  have tot: "wp_tot p = headBytes c off + n" "wp_nWords p = ?k" by (simp_all add: p write_plan_fields)
  have hs: "headBytes c off + n \<le> span c off n" by (rule head_span)
  have sp: "span c off n + 4 \<le> 2 ^ 32" using R by (simp add: reachable_mem_def)
  have off: "unat off < 2 ^ 32"
  proof -
    have "base c off + (headBytes c off + n) < 2 ^ 32" using R hs by (simp add: reachable_mem_def)
    moreover have "unat off \<le> base c off + headBytes c off" by (simp add: base_def)
    ultimately show ?thesis by simp
  qed
  have lP: "length P = 4 * ?k" if "\<not> sr_byteResolution c" using P that by (simp add: span_def)
  have w: "bs32 (vers = 1) (rbuf_word m i) = ?ws ! i" "vers = 3 \<Longrightarrow> rbuf_word m i = ?ws ! i" if "i < length ?ws" for i
    using srv_word [OF ok that, of "P @ ?z"] by (simp_all add: m)
  have wr: "((ucast (drop_bit 2 off) AND mask 30) OR 0x40000000) AND 0xc0000000 \<noteq> (0 :: u32)"
  proof -
    have "bit (((ucast (drop_bit 2 off) AND mask 30) OR push_bit 30 1) AND 0xc0000000 :: u32) 30" by (simp add: bit_simps)
    then show ?thesis unfolding bit_30 by (metis bit_0_eq bot_apply bot_bool_def)
  qed
  define A where "A = ((ucast (drop_bit 2 off) AND mask 30) OR 0x40000000 :: u32)"
  have wrA: "(A AND 0xc0000000 = 0) = False" using wr by (simp only: A_def)
  have adr: "unat (ucast (push_bit 2 A) :: u64) = unat off div 4 * 4"
    unfolding A_def by (rule v12_addr [OF off]) (rule disjI2, rule bit_30)
  have all: "srv_cmd vers m = (if is_posted c then CMD_PWR else CMD_WR) \<and> unat (srv_off vers m) = base c off \<and> srv_size vers m = span c off n
      \<and> length m = 4 * srv_ooff vers + 4 * ?k + (if vers = 3 then 0 else 4) \<and> bs32 (vers = 1) (rbuf_word m (if vers = 2 then 0 else 1)) = tid
      \<and> (vers = 3 \<longrightarrow> rbuf_word m 0 AND 0xff = 3)"
  proof (cases rule: srp_ok_cases [OF ok])
    case 1
    have ws: "?ws = [push_bit 24 (ucast (sr_vc c)), tid, A]"
      using 1 by (simp add: write_xbuf_def CMD_WRITE_def mask_30 A_def)
    have len: "length m = 16 + 4 * ?k" using 1 lP by (simp add: m ws write_post_def)
    have a: "bs32 True (rbuf_word m 2) = A" using w(1) [of 2] 1(1) unfolding ws by simp
    then have cmd: "srv_cmd vers m = CMD_WR" unfolding srv_cmd_def 1(1) by (simp add: wrA)
    have "unat (srv_off vers m) = unat off div 4 * 4"
      using a adr 1(1) by (simp add: srv_off_def)
    then show ?thesis using cmd len w(1) [of 1] 1 base_div [OF 1(3)] unfolding ws
      by (simp add: span_def srv_size_def srv_expected_def srv_ooff_def is_posted_def)
  next
    case 2
    have ws: "?ws = [tid, A]"
      using 2 by (simp add: write_xbuf_def CMD_WRITE_def mask_30 A_def)
    have len: "length m = 12 + 4 * ?k" using 2 lP by (simp add: m ws write_post_def)
    have a: "bs32 False (rbuf_word m 1) = A" using w(1) [of 1] 2(1) unfolding ws by simp
    then have cmd: "srv_cmd vers m = CMD_WR" unfolding srv_cmd_def 2(1) by (simp add: wrA)
    have "unat (srv_off vers m) = unat off div 4 * 4"
      using a adr 2(1) by (simp add: srv_off_def)
    then show ?thesis using cmd len w(1) [of 0] 2 base_div [OF 2(3)] unfolding ws
      by (simp add: span_def srv_size_def srv_expected_def srv_ooff_def is_posted_def)
  next
    case 3
    let ?sz = "if sr_byteResolution c then of_nat (wp_tot p) else push_bit 2 (of_nat ?k) :: u32"
    have ws: "?ws = [(if is_posted c then 0x200 else 0x100) OR 3, tid, ucast (if sr_byteResolution c then off else off AND NOT 3),
        ucast (drop_bit 32 off), ?sz - 1]"
      using 3 by (simp add: write_xbuf_def tot CMD_WRITE_V3_def CMD_POSTED_WRITE_V3_def PROTO_VERS_3_def)
    have "length P + length ?z = 4 * ?k"
    proof (cases "sr_byteResolution c")
      case True
      then have "length P + length ?z = n + (if n mod 4 = 0 then 0 else 4 - n mod 4)" "?k = (n + 3) div 4"
        using P 3(1) span_bytes [OF True, of off n] by (simp_all add: write_post_def tot n_words_def)
      then show ?thesis using words_up [of n] by simp
    next
      case False
      then show ?thesis using lP 3(1) by (simp add: write_post_def)
    qed
    then have len: "length m = 20 + 4 * ?k" by (simp add: m ws)
    have cmd: "srv_cmd vers m = (if is_posted c then CMD_PWR else CMD_WR)" using w(2) [of 0] 3(1) unfolding ws
      by (simp add: srv_cmd_def Let_def)
    have "srv_off vers m = (if sr_byteResolution c then off else off AND NOT 3)"
      using w(2) [of 2] w(2) [of 3] 3(1) v3_off [of off "sr_byteResolution c"] unfolding ws by (simp add: srv_off_def)
    then have o: "unat (srv_off vers m) = base c off" using unat_base [of c off] by simp
    have "unat (?sz - 1 + 1) = span c off n"
    proof (cases "sr_byteResolution c")
      case True
      have "n < 2 ^ 32" using sp True by (simp add: span_def)
      then show ?thesis using True by (simp add: span_def headBytes_def unat_of_nat tot)
    next
      case False
      have "4 * ?k < 2 ^ 32" using sp False by (simp add: span_def)
      then show ?thesis using unat_words(2) [of ?k] False by (simp add: span_def)
    qed
    then have "srv_size vers m = span c off n" using w(2) [of 4] cmd 3(1) unfolding ws by (simp add: srv_size_def bs32_def)
    then show ?thesis using cmd o len w(2) [of 0] w(2) [of 1] 3 unfolding ws by (simp add: bs32_def srv_ooff_def)
  qed
  then show "srv_cmd vers m = (if is_posted c then CMD_PWR else CMD_WR)" "unat (srv_off vers m) = base c off" "srv_size vers m = span c off n"
    "length m = 4 * srv_ooff vers + 4 * n_words c off n + (if vers = 3 then 0 else 4)"
    "bs32 (vers = 1) (rbuf_word m (if vers = 2 then 0 else 1)) = tid" "vers = 3 \<Longrightarrow> rbuf_word m 0 AND 0xff = 3" by blast+
  have ex: "srv_expected vers = 4 * srv_ooff vers + (if vers = 3 then 0 else 4)" using ok by (auto simp: srv_expected_def srv_ooff_def srp_ok_def)
  have kk: "(span c off n + 3) mod 2 ^ 32 div 4 * 4 = 4 * ?k"
  proof -
    have "(span c off n + 3) mod 2 ^ 32 = span c off n + 3" using sp by simp
    moreover have "(span c off n + 3) div 4 = ?k" by (simp add: span_def n_words_def headBytes_def)
    ultimately show ?thesis by simp
  qed
  have l4: "length m mod 4 = 0" "srv_expected vers \<le> length m" using all ex by auto
  have sz: "vers = 3 \<Longrightarrow> int ((srv_size vers m + 3) mod 2 ^ 32 div 4 * 4) = int (length m) - int (srv_expected vers)"
    using all ex kk by simp
  have c: "srv_cmd vers m = CMD_WR \<or> srv_cmd vers m = CMD_PWR" using all by auto
  show "\<not> srv_drop vers m"
    unfolding srv_drop_def Let_def using c l4 sz by auto
qed

section \<open>The memory and the answer\<close>

lemma write_answer:
  assumes ok: "srp_ok vers c" and br: "sr_byteResolution c \<longrightarrow> br" and n: "0 < n" and R: "reachable_mem vers c rb mem off n"
    and T: "length T = span c off n" and p: "p = write_plan c off n m1 mn"
    and m: "m = hdr_bytes c (write_xbuf c p tid off) @ payload_swap (vers = 1) T @ write_post vers c (wp_tot p)"
  shows "\<exists>r Q. (\<forall>mem'. length mem' = length mem
      \<longrightarrow> handleSRP vers br rb mem' m = (if is_posted c then None else Some r, put_at (base c off) T mem'))
    \<and> answer vers c tid Q r \<and> length Q = 4 * n_words c off n"
proof -
  let ?P = "payload_swap (vers = 1) T" and ?z = "write_post vers c (wp_tot p)"
  let ?N = "span c off n" and ?b = "base c off" and ?k = "n_words c off n" and ?oo = "4 * srv_ooff vers"
  have lP: "length ?P = ?N" using T by simp
  note q = write_request [OF ok n R lP p m]
  have k: "?k = (?N + 3) div 4" by (simp add: span_def n_words_def headBytes_def)
  have bN: "?b + ?N \<le> length mem" "?N \<le> rb" "0 < ?N" "?b < length mem"
    using R n head_span [of c off n] by (auto simp: reachable_mem_def)
  have al: "br \<or> ?b mod 4 = 0 \<and> ?N mod 4 = 0" using br base_div [of c off] by (auto simp: span_def)
  have ex: "length m - srv_expected vers = 4 * ?k" using q(5) ok by (auto simp: srv_expected_def srv_ooff_def srp_ok_def)
  have Nk: "?N \<le> 4 * ?k" using k by linarith
  have lh: "length (hdr_bytes c (write_xbuf c p tid off)) = ?oo"
    using ok by (auto simp: write_xbuf_def srv_ooff_def srp_ok_def)
  define rb0 where "rb0 = srv_buf vers br m"
  have oo: "8 \<le> ?oo" using ok by (auto simp: srv_ooff_def srp_ok_def)
  have "1 \<le> ?k" using k bN(3) by simp
  then have m12: "12 \<le> length m" unfolding q(5) using oo by linarith
  have lm: "?oo + 4 * ?k \<le> length m" using q(5) by simp
  have lz: "?oo + 4 * ?k + 4 - length m + length m = ?oo + 4 * ?k + 4" using q(5) by (auto split: if_splits)
  have lr: "length rb0 = ?oo + 4 * ?k + 4" using m12 lz k q(3) by (simp add: rb0_def srv_buf_def)
  have gr: "get_at ?oo (4 * ?k) rb0 = get_at ?oo (4 * ?k) m"
  proof (rule nth_equalityI)
    show "length (get_at ?oo (4 * ?k) rb0) = length (get_at ?oo (4 * ?k) m)" using lr lm by simp
    fix i
    assume "i < length (get_at ?oo (4 * ?k) rb0)"
    then have i: "i < 4 * ?k" using lr by simp
    then have "rb0 ! (?oo + i) = m ! (?oo + i)"
      using m12 lm oo unfolding rb0_def srv_buf_def by (subst nth_put_at) (auto simp: nth_append)
    then show "get_at ?oo (4 * ?k) rb0 ! i = get_at ?oo (4 * ?k) m ! i" using i lr lm by (simp add: nth_get_at)
  qed
  have gm: "get_at ?oo (4 * ?k) m = ?P @ take (4 * ?k - ?N) ?z" unfolding m using lh lP Nk by (simp add: get_at_def)
  have wr: "take ?N (srv_written vers br m) = T" "length (srv_written vers br m) = 4 * ?k"
  proof -
    have w: "srv_written vers br m = payload_swap (vers = 1) (?P @ take (4 * ?k - ?N) ?z)"
      unfolding srv_written_def ex rb0_def [symmetric] gr gm ..
    have l: "length (get_at ?oo (4 * ?k) m) = 4 * ?k" using lm by simp
    show "length (srv_written vers br m) = 4 * ?k" unfolding w using l gm by simp
    show "take ?N (srv_written vers br m) = T"
    proof (cases "vers = 1")
      case False
      then show ?thesis unfolding w using T by (simp add: payload_swap_def)
    next
      case True
      then have "\<not> sr_byteResolution c" using ok by (auto simp: srp_ok_def)
      then have N: "?N = 4 * ?k" by (simp add: span_def)
      then have "payload_swap True (payload_swap True T) = T" using T by (simp add: payload_swap_def swap_words_twice)
      then show ?thesis unfolding w using N True T by simp
    qed
  qed
  have v3: "vers = 3 \<longrightarrow> rbuf_word m 0 AND 0xff = 3" using q(7) by blast
  have cmd: "srv_cmd vers m \<noteq> CMD_NOP" "srv_cmd vers m \<noteq> CMD_RD" "srv_cmd vers m = CMD_PWR \<longleftrightarrow> is_posted c" using q(1) by auto
  let ?r = "take ?oo rb0 @ srv_written vers br m @ word_bytes LE 0"
  have cut: "take (?oo + 4 * ?k) (put_at ?oo (srv_written vers br m) rb0) = take ?oo rb0 @ srv_written vers br m"
    using lr wr(2) by (simp add: put_at_def)
  have h: "handleSRP vers br rb mem' m = (if is_posted c then None else Some ?r, put_at ?b T mem')" if "length mem' = length mem" for mem'
    using handleSRP_run [OF q(4) cmd(1) v3 q(2,3) al bN(2) _ _ refl k, of mem'] cmd wr(1) bN(1,4) cut that by (simp add: rb0_def)
  have "answer vers c tid (srv_written vers br m) ?r"
    unfolding rb0_def srv_buf_def by (rule answerI [OF ok q(6) m12]) simp
  then show ?thesis using h wr(2) by blast
qed

end
