(* ===== verification/SrpWrite.thy ===== *)
theory SrpWrite
  imports SrpStore
begin

text \<open>
  Writing through a line that loses messages: the memory of the server becomes what the reference \<open>masked_write\<close> makes of it.
\<close>

section \<open>The reference on blocks\<close>

lemma masked_write_range:
  assumes "h + n \<le> length (get_at b k mem)" "b + k \<le> length mem" "d = b + h"
  shows "put_at b (masked_write h src n m1 mn (get_at b k mem)) mem = masked_write d src n m1 mn mem"
proof (rule nth_equalityI)
  let ?B = "get_at b k mem"
  have lB: "length ?B = k" using assms(2) by simp
  have lT: "length (masked_write h src n m1 mn ?B) = k" using assms(1) lB by (simp add: length_masked_write)
  have le: "d + n \<le> length mem" using assms lB by simp
  show "length (put_at b (masked_write h src n m1 mn ?B) mem) = length (masked_write d src n m1 mn mem)"
    using lT le assms(2) by (simp add: length_masked_write)
  fix j
  assume "j < length (put_at b (masked_write h src n m1 mn ?B) mem)"
  then have j: "j < length mem" using lT assms(2) by simp
  note mw = masked_write_nth [OF le j, of src m1 mn]
  show "put_at b (masked_write h src n m1 mn ?B) mem ! j = masked_write d src n m1 mn mem ! j"
  proof (cases "b \<le> j \<and> j < b + k")
    case True
    then have i: "j - b < length ?B" using lB by linarith
    have "?B ! (j - b) = mem ! j" using True assms(2) by (subst nth_get_at) (simp_all add: less_diff_conv2)
    then have "masked_write h src n m1 mn ?B ! (j - b) = masked_write d src n m1 mn mem ! j"
      using masked_write_nth [OF assms(1) i, of src m1 mn] mw True assms(3) by (auto simp: le_diff_conv2 less_diff_conv2 add.commute)
    then show ?thesis using True j lT assms(2) by (simp add: nth_put_at)
  next
    case False
    then show ?thesis using mw j lT lB assms nth_put_at_out [of b "masked_write h src n m1 mn ?B" mem j] by auto
  qed
qed

lemma masked_write_split:
  assumes "0 < a" "0 < b" "d + (a + b) \<le> length mem" "a + b \<le> length src"
  shows "masked_write (d + a) (drop a src) b 0 mn (masked_write d src a m1 0 mem) = masked_write d src (a + b) m1 mn mem"
proof (rule nth_equalityI)
  let ?m = "masked_write d src a m1 0 mem"
  have l: "length ?m = length mem" using assms by (simp add: length_masked_write)
  show "length (masked_write (d + a) (drop a src) b 0 mn ?m) = length (masked_write d src (a + b) m1 mn mem)"
    using l assms by (simp add: length_masked_write)
  fix k
  assume "k < length (masked_write (d + a) (drop a src) b 0 mn ?m)"
  then have k: "k < length mem" using l assms by (simp add: length_masked_write)
  have A: "?m ! k = (if d \<le> k \<and> k < d + a then merge_bits (byte_mask a m1 0 (k - d)) (mem ! k) (src ! (k - d)) else mem ! k)"
    by (rule masked_write_nth) (use assms k in simp_all)
  have B: "masked_write (d + a) (drop a src) b 0 mn ?m ! k = (if d + a \<le> k \<and> k < d + a + b
      then merge_bits (byte_mask b 0 mn (k - (d + a))) (?m ! k) (drop a src ! (k - (d + a))) else ?m ! k)"
    by (rule masked_write_nth) (use assms k l in simp_all)
  have C: "masked_write d src (a + b) m1 mn mem ! k = (if d \<le> k \<and> k < d + (a + b)
      then merge_bits (byte_mask (a + b) m1 mn (k - d)) (mem ! k) (src ! (k - d)) else mem ! k)"
    by (rule masked_write_nth) (use assms k in simp_all)
  consider "k < d" | "d \<le> k" "k < d + a" | "d + a \<le> k" "k < d + a + b" | "d + a + b \<le> k" by linarith
  then show "masked_write (d + a) (drop a src) b 0 mn ?m ! k = masked_write d src (a + b) m1 mn mem ! k"
  proof cases
    case 2
    then have "byte_mask (a + b) m1 mn (k - d) = byte_mask a m1 0 (k - d)" using assms by (auto simp: byte_mask_def)
    then show ?thesis using 2 A B C by simp
  next
    case 3
    then obtain i where i: "k = d + a + i" "i < b" by (metis le_add_diff_inverse nat_add_left_cancel_less)
    have "byte_mask (a + b) m1 mn (a + i) = byte_mask b 0 mn i" using i assms by (auto simp: byte_mask_def)
    moreover have "drop a src ! i = src ! (a + i)" using assms(4) by simp
    ultimately show ?thesis using 3 A B C i by simp
  qed (use A B C in simp_all)
qed

section \<open>Reading the words to merge\<close>

lemma aligned_read:
  assumes ok: "srp_ok vers c" and br: "sr_byteResolution c \<longrightarrow> br" and line: "line_ok c lostReq lostAns" and s: "idle mem s"
    and asy: "a \<longrightarrow> lossless lostReq lostAns" and h: "headBytes c o1 = 0" and k: "\<not> sr_byteResolution c \<longrightarrow> 4 dvd k"
    and le: "unat o1 + k \<le> length mem" "length mem + 4 \<le> 2 ^ 32" "k \<le> rb"
  shows "\<exists>s'. srp_read c (server vers br rb lostReq lostAns clock) a (replicate k 0) 0 o1 k s = (Inr (get_at (unat o1) k mem), s') \<and> idle mem s'"
proof -
  have sp: "span c o1 k = k"
  proof (cases "sr_byteResolution c")
    case False
    then have "4 dvd k" using k by simp
    then show ?thesis using False h words_up [of k] by (simp add: span_def n_words_def mult.commute)
  qed (simp add: span_def)
  then have R: "reachable_mem vers c rb mem o1 k" using le h by (simp add: reachable_mem_def base_def)
  have cl: "clean_start vers c o1 k" using h by (simp add: clean_start_def)
  have l: "0 + k \<le> length (replicate k (0 :: u8))" by simp
  have e: "put_at 0 (get_at (unat o1) k mem) (replicate k 0) = get_at (unat o1) k mem" using le by (simp add: put_at_def)
  show ?thesis using srp_read_server [OF ok br line R cl l s asy] unfolding e .
qed

text \<open>When a write can be done: the area may be merged, there is no gap in the middle, and what has one attempt is not lost.\<close>

definition merge_ok :: "srp \<Rightarrow> cacheable \<Rightarrow> u64 \<Rightarrow> nat \<Rightarrow> u8 \<Rightarrow> u8 \<Rightarrow> bool" where
  "merge_ok c cach off n m1 mn \<longleftrightarrow> (wants_merge c off n m1 mn \<noteq> (False, False) \<longrightarrow> \<not> cach < WB_CACHEABLE) \<and> \<not> collapsed c off n m1 mn"

definition sure_line :: "srp \<Rightarrow> (nat \<Rightarrow> bool) \<Rightarrow> (nat \<Rightarrow> bool) \<Rightarrow> u64 \<Rightarrow> nat \<Rightarrow> u8 \<Rightarrow> u8 \<Rightarrow> bool" where
  "sure_line c lostReq lostAns off n m1 mn \<longleftrightarrow>
     (is_posted c \<or> wants_merge c off n m1 mn = (True, True) \<and> 32 < headBytes c off + n \<longrightarrow> lossless lostReq lostAns)"

lemma read_back_server:
  assumes ok: "srp_ok vers c" and br: "sr_byteResolution c \<longrightarrow> br" and line: "line_ok c lostReq lostAns" and s: "idle mem s"
    and n: "0 < n" and R: "reachable_mem vers c rb mem off n" and p: "p = write_plan c off n m1 mn"
    and par: "wp_parallel p \<longrightarrow> lossless lostReq lostAns"
    and B: "B = get_at (base c off) (span c off n) mem"
  shows "\<exists>fw lw s'. read_back c (server vers br rb lostReq lostAns clock) p off n s = (Inr (fw, lw), s') \<and> idle mem s'
    \<and> (wp_mergeFirst p \<longrightarrow> fw = take (fst (first_read c p off)) B)
    \<and> (wp_mergeLast p \<longrightarrow> lw = drop (length B - fst (last_read c off n)) B)"
proof -
  let ?dev = "server vers br rb lostReq lostAns clock"
  obtain fn fo where fr: "first_read c p off = (fn, fo)" by (cases "first_read c p off")
  obtain ln lo where lr: "last_read c off n = (ln, lo)" by (cases "last_read c off n")
  have t: "wp_tot p = headBytes c off + n" by (simp add: p write_plan_fields)
  have bm: "base c off + span c off n \<le> length mem" "length mem + 4 \<le> 2 ^ 32" "span c off n \<le> rb" using R by (simp_all add: reachable_mem_def)
  then have lB: "length B = span c off n" by (simp add: B)
  have fo: "fo = (if sr_byteResolution c then off else off AND NOT 3)" using fr by (auto simp: first_read_def split: if_splits)
  have ufo: "unat fo = base c off" unfolding fo by (rule unat_base)
  have hfo: "headBytes c fo = 0" unfolding headBytes_def ufo using base_div [of c off] by simp
  have fn4: "\<not> sr_byteResolution c \<longrightarrow> 4 dvd fn" using fr by (auto simp: first_read_def split: if_splits)
  have fnl: "fn \<le> span c off n"
    using fr n span_words [of c off n] span_bytes [of c off n] by (auto simp: first_read_def t split: if_splits)
  have first: "\<exists>s'. srp_read c ?dev a (replicate fn 0) 0 fo fn s = (Inr (take fn B), s') \<and> idle mem s'"
    if "idle mem s" "a \<longrightarrow> lossless lostReq lostAns" for a s
  proof -
    have "get_at (unat fo) fn mem = take fn B" unfolding ufo B using fnl by (simp add: get_at_def)
    then show ?thesis using aligned_read [OF ok br line that hfo fn4 _ bm(2), of rb clock] fnl bm ufo by simp
  qed
  have u1: "unat (off + of_nat n - 1) = unat off + n - 1"
  proof -
    have le: "unat off + n \<le> length mem" by (rule reachable_bytes [OF R])
    then have lt: "unat off + n < 2 ^ 64" "n < 2 ^ 64" using bm(2) by simp_all
    then have "unat (off + of_nat n) = unat off + n" by (simp add: unat_plus_if' unat_of_nat)
    moreover have "off + of_nat n \<noteq> 0" using calculation n by auto
    ultimately show ?thesis by (simp add: unat_minus_one)
  qed
  have lo: "unat lo = base c off + (span c off n - ln)" "headBytes c lo = 0" "ln \<le> span c off n" "\<not> sr_byteResolution c \<longrightarrow> 4 dvd ln"
  proof -
    have "unat lo = base c off + (span c off n - ln) \<and> headBytes c lo = 0 \<and> ln \<le> span c off n \<and> (\<not> sr_byteResolution c \<longrightarrow> 4 dvd ln)"
    proof (cases "sr_byteResolution c")
      case True
      then show ?thesis using lr n u1 by (auto simp: last_read_def headBytes_def base_def span_def)
    next
      case False
      define q where "q = unat off div 4"
      have o: "unat off = 4 * q + headBytes c off" "base c off = 4 * q" using False by (simp_all add: q_def headBytes_def base_div)
      define t where "t = headBytes c off + n - 1"
      have t: "headBytes c off + n = t + 1" using n by (simp add: t_def)
      have "(t + 1 + 3) div 4 = t div 4 + 1" by simp
      then have L: "span c off n = 4 * (t div 4) + 4" using span_words [OF False, of off n] t by simp
      have "unat off + n - 1 = 4 * q + t" using o(1) n by (simp add: t_def)
      then have "unat lo = (4 * q + t) div 4 * 4" using lr False u1 unat_off_and_not_3 [of "off + of_nat n - 1"] by (auto simp: last_read_def)
      then show ?thesis using L o False lr by (auto simp: last_read_def headBytes_def)
    qed
    then show "unat lo = base c off + (span c off n - ln)" "headBytes c lo = 0" "ln \<le> span c off n" "\<not> sr_byteResolution c \<longrightarrow> 4 dvd ln" by blast+
  qed
  have last: "\<exists>s'. srp_read c ?dev a (replicate ln 0) 0 lo ln s = (Inr (drop (length B - ln) B), s') \<and> idle mem s'"
    if "idle mem s" "a \<longrightarrow> lossless lostReq lostAns" for a s
  proof -
    have "get_at (unat lo) ln mem = drop (length B - ln) B"
      unfolding lB lo(1) B using lo(3) bm(1) by (simp add: get_at_def drop_take add.commute)
    then show ?thesis using aligned_read [OF ok br line that lo(2,4) _ bm(2), of rb clock] lo(1,3) bm by simp
  qed
  define rf where "rf = (\<lambda>a. if wp_mergeFirst p then srp_read c ?dev a (replicate fn 0) 0 fo fn else ret [])"
  define rl where "rl = (\<lambda>a. if wp_mergeLast p then srp_read c ?dev a (replicate ln 0) 0 lo ln else ret [])"
  define fw lw where "fw = (if wp_mergeFirst p then take fn B else [])" and "lw = (if wp_mergeLast p then drop (length B - ln) B else [])"
  obtain s1 where s1: "rf (wp_parallel p) s = (Inr fw, s1)" "idle mem s1"
    using first [OF s par] s by (cases "wp_mergeFirst p") (auto simp: fw_def ret_def rf_def)
  obtain s2 where s2: "rl (wp_parallel p) s1 = (Inr lw, s2)" "idle mem s2"
    using last [OF s1(2) par] s1(2) by (cases "wp_mergeLast p") (auto simp: lw_def ret_def rl_def)
  have rfl: "(if wp_mergeFirst p then srp_read c ?dev a (replicate fn 0) 0 fo fn else ret []) = rf a"
      "(if wp_mergeLast p then srp_read c ?dev a (replicate ln 0) 0 lo ln else ret []) = rl a" for a
    by (simp_all add: rf_def rl_def)
  have "read_back c ?dev p off n s = (Inr (fw, lw), s2)"
  proof (cases "wp_parallel p")
    case True
    then show ?thesis using s1(1) s2(1) unfolding read_back_def fr lr Let_def prod.case if_P [OF True] rfl
      by (simp add: bnd_def catch_def ret_def)
  next
    case False
    then show ?thesis using s1(1) s2(1) unfolding read_back_def fr lr Let_def prod.case if_not_P [OF False] rfl
      by (simp add: bnd_def ret_def)
  qed
  then show ?thesis using s2(2) by (auto simp: fw_def lw_def fr lr)
qed

section \<open>A block\<close>

lemma write_complete_answer:
  assumes ok: "srp_ok vers c" and a: "answer vers c tid Q r" "length Q = 4 * k"
  shows "write_complete c k r = Inr ()"
proof -
  obtain H where r: "r = H @ Q @ word_bytes LE 0" "length H = 4 * srv_ooff vers" using a(1) unfolding answer_def by blast
  have e: "write_expected c = srv_ooff vers + 1" using ok by (auto simp: write_expected_def srv_ooff_def srp_ok_def)
  have "msg_extract (length r - 4) 4 r = word_bytes LE 0" unfolding r(1) by (simp add: msg_extract_def)
  then show ?thesis using r a(2) status_zero [OF ok] by (simp add: write_complete_def Let_def e)
qed

lemma put_at_twice: "i + length b \<le> length x \<Longrightarrow> put_at i b (put_at i b x) = put_at i b x"
  by (simp add: put_at_def)

lemma writeBlk_run:
  fixes dev :: "'d device"
  assumes n: "0 < n" and g: "wants_merge c off n m1 mn \<noteq> (False, False) \<longrightarrow> \<not> cach < WB_CACHEABLE"
    and rb: "read_back c dev (write_plan c off n m1 mn) off n s = (Inr (fw, lw), s1)"
  shows "writeBlk_unlocked c dev cach src off n m1 mn s =
    (let p = write_plan c off n m1 mn; tid = toTid c (ss_tid s1 + sr_tidLsb c);
         msg = write_msg c p tid off src (merge_words c p off src n mn fw lw)
     in if is_posted c then bnd (push_msg dev msg) (\<lambda>_. ret n)
        else bnd (srp_attempts c dev msg tid ''Too many retries'' (sr_retryCnt c))
               (\<lambda>m. case write_complete c (wp_nWords p) m of Inl e \<Rightarrow> raise e | Inr _ \<Rightarrow> ret n))
    (s1\<lparr>ss_tid := ss_tid s1 + sr_tidLsb c + sr_tidLsb c\<rparr>)"
proof -
  have gg: "((case wants_merge c off n m1 mn of (a, b) \<Rightarrow> a \<or> b) \<and> cach < WB_CACHEABLE) = False"
    using g by (auto split: prod.splits)
  have n0: "(n = 0) = False" using n by simp
  have b: "bnd (getTid c) (\<lambda>t. bnd (getTid c) (\<lambda>_. k t)) s1
      = k (toTid c (ss_tid s1 + sr_tidLsb c)) (s1\<lparr>ss_tid := ss_tid s1 + sr_tidLsb c + sr_tidLsb c\<rparr>)"
    for k :: "u32 \<Rightarrow> ('d srp_state, nat) sem"
    by (simp add: bnd_def getTid_run)
  show ?thesis unfolding writeBlk_unlocked_def gg n0 if_False Let_def
    by (simp only: bnd_def [of "read_back c dev (write_plan c off n m1 mn) off n"] rb prod.case sum.case b)
qed

lemma writeBlk_server:
  assumes ok: "srp_ok vers c" and br: "sr_byteResolution c \<longrightarrow> br" and line: "line_ok c lostReq lostAns" and s: "idle mem s"
    and n: "0 < n" and src: "n \<le> length src" and R: "reachable_mem vers c rb mem off n"
    and mg: "merge_ok c cach off n m1 mn" and sure: "sure_line c lostReq lostAns off n m1 mn"
  shows "\<exists>s'. writeBlk_unlocked c (server vers br rb lostReq lostAns clock) cach src off n m1 mn s = (Inr n, s')
    \<and> idle (masked_write (unat off) src n m1 mn mem) s'"
proof -
  let ?dev = "server vers br rb lostReq lostAns clock" and ?h = "headBytes c off"
  define p where "p = write_plan c off n m1 mn"
  define B where "B = get_at (base c off) (span c off n) mem"
  let ?T = "masked_write ?h src n m1 mn B" and ?mem' = "masked_write (unat off) src n m1 mn mem"
  have nc: "\<not> collapsed c off n m1 mn" using mg by (simp add: merge_ok_def)
  have bm: "base c off + span c off n \<le> length mem" using R by (simp add: reachable_mem_def)
  then have lB: "length B = span c off n" by (simp add: B_def)
  have lT: "length ?T = span c off n" by (rule length_T [OF lB])
  have mem': "put_at (base c off) ?T mem = ?mem'"
    unfolding B_def by (rule masked_write_range) (use bm head_span [of c off n] in \<open>auto simp: base_def headBytes_def\<close>)
  have par: "wp_parallel p \<longrightarrow> lossless lostReq lostAns"
    using sure nc unfolding p_def sure_line_def write_plan_def Let_def collapsed_def by (auto split: prod.splits)
  obtain fw lw s1 where rb: "read_back c ?dev p off n s = (Inr (fw, lw), s1)" "idle mem s1"
      "wp_mergeFirst p \<longrightarrow> fw = take (fst (first_read c p off)) B" "wp_mergeLast p \<longrightarrow> lw = drop (length B - fst (last_read c off n)) B"
    using read_back_server [OF ok br line s n R p_def par B_def] by blast
  obtain a where pc: "pieces c p (first_len c p off) a src ?T (merge_words c p off src n mn fw lw)"
    using merge_pieces [OF n src lB p_def rb(3,4) nc] by blast
  define tid where "tid = toTid c (ss_tid s1 + sr_tidLsb c)"
  define msg where "msg = write_msg c p tid off src (merge_words c p off src n mn fw lw)"
  have m: "msg = hdr_bytes c (write_xbuf c p tid off) @ payload_swap (vers = 1) ?T @ write_post vers c (wp_tot p)"
    unfolding msg_def by (rule write_msg_payload [OF ok pc lT])
  obtain r Q where r: "\<forall>x. length x = length mem \<longrightarrow> handleSRP vers br rb x msg = (if is_posted c then None else Some r, put_at (base c off) ?T x)"
      "answer vers c tid Q r" "length Q = 4 * n_words c off n"
    using write_answer [OF ok br n R lT p_def m] by blast
  let ?s = "s1\<lparr>ss_tid := ss_tid s1 + sr_tidLsb c + sr_tidLsb c\<rparr>"
  have s2: "ss_rx ?s = []" "pe_mem (ss_dev ?s) = mem" using rb(2) by (simp_all add: idle_def)
  have le: "base c off + length ?T \<le> length mem" using bm lT by simp
  have h1: "handleSRP vers br rb mem msg = (if is_posted c then None else Some r, ?mem')" using r(1) mem' by simp
  have h2: "handleSRP vers br rb ?mem' msg = (if is_posted c then None else Some r, ?mem')"
    using r(1) mem' put_at_twice [OF le] le by (metis length_put_at)
  have g: "wants_merge c off n m1 mn \<noteq> (False, False) \<longrightarrow> \<not> cach < WB_CACHEABLE" using mg by (simp add: merge_ok_def)
  note run = writeBlk_run [OF n g rb(1) [unfolded p_def]]
  show ?thesis
  proof (cases "is_posted c")
    case True
    then have ll: "lossless lostReq lostAns" using sure by (simp add: sure_line_def)
    have "handleSRP vers br rb (pe_mem (ss_dev s1)) msg = (None, ?mem')" using h1 True s2(2) by simp
    then show ?thesis unfolding run Let_def p_def [symmetric] tid_def [symmetric] msg_def [symmetric] using True s2 ll
      by (auto simp: bnd_def push_msg_def server_def Let_def ret_def lossless_def idle_def)
  next
    case False
    have t: "extractTid c r = Inr tid" using r(2) by (simp add: answer_def tid_def)
    have mt: "tidMatch c tid tid" unfolding tid_def by (rule tidMatch_self)
    have al: "alive lostReq lostAns (pe_count (ss_dev ?s)) (sr_retryCnt c)" using line by (simp add: line_ok_def)
    have hh: "handleSRP vers br rb mem msg = (Some r, ?mem')" "handleSRP vers br rb ?mem' msg = (Some r, ?mem')" using h1 h2 False by simp_all
    have pm: "pe_mem (ss_dev ?s) \<in> {mem, ?mem'}" using s2 by simp
    obtain s' where a: "srp_attempts c ?dev msg tid ''Too many retries'' (sr_retryCnt c) ?s = (Inr r, s')" "ss_rx s' = []" "pe_mem (ss_dev s') = ?mem'"
      using srp_attempts_server [OF t mt hh al s2(1) pm] by blast
    have nw: "wp_nWords p = n_words c off n" by (simp add: p_def write_plan_fields)
    show ?thesis unfolding run Let_def p_def [symmetric] tid_def [symmetric] msg_def [symmetric] nw using False a write_complete_answer [OF ok r(2,3)]
      by (simp add: bnd_def ret_def idle_def del: srp_attempts.simps)
  qed
qed

section \<open>Blocks\<close>

lemma merge_split:
  assumes mg: "merge_ok c cach off n m1 mn" and sure: "sure_line c lostReq lostAns off n m1 mn" and n: "headBytes c off + n = 4 * w + n'" "0 < n'"
    and nb: "nb = w * 4 - headBytes c off" "0 < w" and h2: "headBytes c o2 = 0"
  shows "merge_ok c cach off nb m1 0" "merge_ok c cach o2 n' 0 mn" "sure_line c lostReq lostAns off nb m1 0" "sure_line c lostReq lostAns o2 n' 0 mn"
proof -
  have h: "headBytes c off < 4" by (simp add: headBytes_def)
  have t: "headBytes c off + nb = 4 * w" using nb h by simp
  have w1: "wants_merge c off nb m1 0 = (fst (wants_merge c off n m1 mn), False)" by (simp add: wants_merge_def t)
  have "(4 * w + n') mod 4 = n' mod 4" by simp
  then have w2: "wants_merge c o2 n' 0 mn = (False, snd (wants_merge c off n m1 mn))" by (simp add: wants_merge_def h2 n(1))
  show "merge_ok c cach off nb m1 0" "merge_ok c cach o2 n' 0 mn"
    using mg unfolding merge_ok_def collapsed_def w1 w2 by (cases "wants_merge c off n m1 mn"; auto)+
  show "sure_line c lostReq lostAns off nb m1 0" "sure_line c lostReq lostAns o2 n' 0 mn"
    using sure unfolding sure_line_def w1 w2 by auto
qed

lemma write_loop_server:
  assumes ok: "srp_ok vers c" and br: "sr_byteResolution c \<longrightarrow> br" and line: "line_ok c lostReq lostAns"
  shows "reachable_mem vers c rb mem off n \<Longrightarrow> 0 < n \<Longrightarrow> n \<le> length src \<Longrightarrow> idle mem s \<Longrightarrow> merge_ok c cach off n m1 mn
    \<Longrightarrow> sure_line c lostReq lostAns off n m1 mn \<Longrightarrow> n_words c off n \<le> k \<Longrightarrow>
    \<exists>s'. write_loop c (server vers br rb lostReq lostAns clock) cach (Suc k) src off n (n_words c off n) (headBytes c off) m1 mn s
      = (Inr n, s') \<and> idle (masked_write (unat off) src n m1 mn mem) s'"
proof (induction k arbitrary: off n src m1 mem s)
  case (0 off n src m1 mem s)
  then show ?case using writeBlk_server [OF ok br line 0(4,2,3,1,5,6)] by simp
next
  case (Suc k off n src m1 mem s)
  let ?w = "sr_maxWordsTx c" and ?dev = "server vers br rb lostReq lostAns clock"
  show ?case
  proof (cases "?w < n_words c off n")
    case False
    then show ?thesis using writeBlk_server [OF ok br line Suc.prems(4,2,3,1,5,6)] by simp
  next
    case True
    define nb where "nb = ?w * 4 - headBytes c off"
    define n' where "n' = headBytes c off + n - 4 * ?w"
    have "4 * ?w < headBytes c off + n" using True unfolding n_words_def by linarith
    then have n': "headBytes c off + n = 4 * ?w + n'" "0 < n'" by (simp_all add: n'_def)
    have w: "0 < ?w" using ok by (simp add: srp_ok_def)
    note sp = reachable_split [OF Suc.prems(1) n'(1) w nb_def]
    note ms = merge_split [OF Suc.prems(5,6) n' nb_def w sp(5)]
    have src1: "nb \<le> length src" "n' \<le> length (drop nb src)" using Suc.prems(3) sp(4) by simp_all
    let ?m = "masked_write (unat off) src nb m1 0 mem"
    obtain s1 where s1: "writeBlk_unlocked c ?dev cach src off nb m1 0 s = (Inr nb, s1)" "idle ?m s1"
      using writeBlk_server [OF ok br line Suc.prems(4) sp(6) src1(1) sp(1) ms(1,3)] by blast
    have bytes: "unat off + n \<le> length mem" using reachable_bytes [OF Suc.prems(1)] by simp
    then have lm: "length ?m = length mem" using sp(4) by (simp add: length_masked_write)
    have R2: "reachable_mem vers c rb ?m (off + of_nat nb) n'" using sp(2) lm by (simp add: reachable_mem_def)
    have fu: "n_words c (off + of_nat nb) n' \<le> k" using Suc.prems(7) sp(8) w by simp
    obtain s2 where s2: "write_loop c ?dev cach (Suc k) (drop nb src) (off + of_nat nb) n' (n_words c (off + of_nat nb) n') (headBytes c (off + of_nat nb)) 0 mn s1
        = (Inr n', s2)" "idle (masked_write (unat (off + of_nat nb)) (drop nb src) n' 0 mn ?m) s2"
      using Suc.IH [OF R2 n'(2) src1(2) s1(2) ms(2,4) fu] by blast
    have le: "unat off + (nb + n') \<le> length mem" "nb + n' \<le> length src" using bytes Suc.prems(3) sp(4) by simp_all
    have fin: "masked_write (unat (off + of_nat nb)) (drop nb src) n' 0 mn ?m = masked_write (unat off) src n m1 mn mem"
      using masked_write_split [OF sp(6) n'(2) le, of mn m1] sp(3,4) by simp
    have eqs: "n - nb = n'" "n_words c off n - ?w = n_words c (off + of_nat nb) n'" "nb + n' = n" using sp(4,8) by simp_all
    have "write_loop c ?dev cach (Suc (Suc k)) src off n (n_words c off n) (headBytes c off) m1 mn s = (Inr n, s2)"
      unfolding write_loop.simps(2) [of _ _ _ "Suc k"] if_P [OF True] Let_def nb_def [symmetric] eqs(1,2)
      using s1(1) s2(1) sp(5) eqs(3) by (simp add: bnd_def ret_def del: write_loop.simps)
    then show ?thesis using s2(2) fin by auto
  qed
qed

lemma srp_write_server:
  assumes "srp_ok vers c" "sr_byteResolution c \<longrightarrow> br" "line_ok c lostReq lostAns" "reachable_mem vers c rb mem (w_off w) (w_nbytes w)"
    "w_nbytes w \<le> length (w_src w)" "idle mem s" "merge_ok c (w_cacheable w) (w_off w) (w_nbytes w) (w_msk1 w) (w_mskn w)"
    "sure_line c lostReq lostAns (w_off w) (w_nbytes w) (w_msk1 w) (w_mskn w)"
  shows "\<exists>s'. srp_write c (server vers br rb lostReq lostAns clock) w s = (Inr (w_nbytes w), s')
    \<and> idle (masked_write (unat (w_off w)) (w_src w) (w_nbytes w) (w_msk1 w) (w_mskn w) mem) s'"
proof (cases "w_nbytes w = 0")
  case True
  then show ?thesis using assms(6) by (simp add: srp_write_def ret_def masked_write_def)
next
  case False
  let ?k = "n_words c (w_off w) (w_nbytes w)"
  obtain s' where "write_loop c (server vers br rb lostReq lostAns clock) (w_cacheable w) (Suc ?k) (w_src w) (w_off w) (w_nbytes w) ?k
      (headBytes c (w_off w)) (w_msk1 w) (w_mskn w) s = (Inr (w_nbytes w), s')"
      "idle (masked_write (unat (w_off w)) (w_src w) (w_nbytes w) (w_msk1 w) (w_mskn w) mem) s'"
    using write_loop_server [OF assms(1-4) _ assms(5-8) order_refl] False by auto
  then show ?thesis using False
    by (simp add: srp_write_def Let_def n_words_def [symmetric] bnd_def andThen_def upd_def ret_def idle_def del: write_loop.simps)
qed

end
