(* ===== verification/RegMemory.thy ===== *)
theory RegMemory
  imports MmioWrite
begin

text \<open>
  The interface of register access: whatever a device consists of, to its user it is a memory. The contract is a locale; its
  consequence, proved here once, is that any sequence of accesses gives the results and the memory of the same sequence on a
  list of bytes. The memory device keeps the contract, and the network device does in SrpAccess.
\<close>

section \<open>Sequences of accesses\<close>

datatype reg_op = RegRead u64 nat | RegWrite io_write_args

text \<open>One list of bytes for each access, empty for a write.\<close>

fun run_ops :: "(u64 \<Rightarrow> nat \<Rightarrow> ('s, u8 list) sem) \<Rightarrow> (io_write_args \<Rightarrow> ('s, nat) sem) \<Rightarrow> reg_op list \<Rightarrow> ('s, u8 list list) sem" where
  "run_ops rd wr [] = ret []"
| "run_ops rd wr (RegRead off n # ops) = bnd (rd off n) (\<lambda>x. bnd (run_ops rd wr ops) (\<lambda>xs. ret (x # xs)))"
| "run_ops rd wr (RegWrite w # ops) = bnd (wr w) (\<lambda>_. bnd (run_ops rd wr ops) (\<lambda>xs. ret ([] # xs)))"

definition ref_write :: "io_write_args \<Rightarrow> u8 list \<Rightarrow> u8 list" where
  "ref_write w mem = masked_write (unat (w_off w)) (w_src w) (w_nbytes w) (w_msk1 w) (w_mskn w) mem"

fun ref_ops :: "reg_op list \<Rightarrow> u8 list \<Rightarrow> u8 list list \<times> u8 list" where
  "ref_ops [] mem = ([], mem)"
| "ref_ops (RegRead off n # ops) mem = (case ref_ops ops mem of (xs, m) \<Rightarrow> (get_at (unat off) n mem # xs, m))"
| "ref_ops (RegWrite w # ops) mem = (case ref_ops ops (ref_write w mem) of (xs, m) \<Rightarrow> ([] # xs, m))"

section \<open>The contract\<close>

locale reg_memory =
  fixes inv :: "'s \<Rightarrow> bool" and mem_of :: "'s \<Rightarrow> u8 list" and allowed :: "nat \<Rightarrow> reg_op \<Rightarrow> bool"
    and rd :: "u64 \<Rightarrow> nat \<Rightarrow> ('s, u8 list) sem" and wr :: "io_write_args \<Rightarrow> ('s, nat) sem"
  assumes law_read: "inv s \<Longrightarrow> allowed (length (mem_of s)) (RegRead off n) \<Longrightarrow>
      \<exists>s'. rd off n s = (Inr (get_at (unat off) n (mem_of s)), s') \<and> inv s' \<and> mem_of s' = mem_of s"
    and law_write: "inv s \<Longrightarrow> allowed (length (mem_of s)) (RegWrite w) \<Longrightarrow>
      \<exists>r s'. wr w s = (Inr r, s') \<and> inv s' \<and> mem_of s' = ref_write w (mem_of s)"
    and law_fits: "allowed l (RegWrite w) \<Longrightarrow> unat (w_off w) + w_nbytes w \<le> l"
begin

lemma run_ops_refines:
  "inv s \<Longrightarrow> \<forall>x \<in> set ops. allowed (length (mem_of s)) x \<Longrightarrow>
   \<exists>s'. run_ops rd wr ops s = (Inr (fst (ref_ops ops (mem_of s))), s') \<and> inv s' \<and> mem_of s' = snd (ref_ops ops (mem_of s))"
proof (induction ops arbitrary: s)
  case Nil
  then show ?case by (simp add: ret_def)
next
  case (Cons x ops)
  show ?case
  proof (cases x)
    case (RegRead off n)
    then obtain t where t: "rd off n s = (Inr (get_at (unat off) n (mem_of s)), t)" "inv t" "mem_of t = mem_of s"
      using law_read [OF Cons.prems(1), of off n] Cons.prems(2) by auto
    obtain s' where "run_ops rd wr ops t = (Inr (fst (ref_ops ops (mem_of t))), s')" "inv s'" "mem_of s' = snd (ref_ops ops (mem_of t))"
      using Cons.IH [OF t(2)] Cons.prems(2) t(3) by auto
    then show ?thesis using t by (simp add: RegRead bnd_def ret_def split: prod.split)
  next
    case (RegWrite w)
    then have a: "allowed (length (mem_of s)) (RegWrite w)" using Cons.prems(2) by simp
    then obtain r t where t: "wr w s = (Inr r, t)" "inv t" "mem_of t = ref_write w (mem_of s)"
      using law_write [OF Cons.prems(1)] by blast
    have "length (mem_of t) = length (mem_of s)" unfolding t(3) ref_write_def by (rule length_masked_write [OF law_fits [OF a]])
    then obtain s' where "run_ops rd wr ops t = (Inr (fst (ref_ops ops (mem_of t))), s')" "inv s'" "mem_of s' = snd (ref_ops ops (mem_of t))"
      using Cons.IH [OF t(2)] Cons.prems(2) by auto
    then show ?thesis using t by (simp add: RegWrite bnd_def ret_def split: prod.split)
  qed
qed

end

section \<open>The memory device\<close>

definition memdev_rd :: "nat \<Rightarrow> u64 \<Rightarrow> nat \<Rightarrow> (memdev, u8 list) sem" where
  "memdev_rd al off n md =
     (case mem_read al md \<lparr>ra_dst = 0, ra_nbytes = n, ra_off = off\<rparr> (replicate n 0) of (Inl e, _) \<Rightarrow> (Inl e, md) | (Inr _, b) \<Rightarrow> (Inr b, md))"

fun memdev_allowed :: "nat \<Rightarrow> reg_op \<Rightarrow> bool" where
  "memdev_allowed l (RegRead off n) \<longleftrightarrow> 0 < n \<and> unat off + n \<le> l"
| "memdev_allowed l (RegWrite w) \<longleftrightarrow> 0 < w_nbytes w \<and> w_nbytes w \<le> length (w_src w) \<and> unat (w_off w) + w_nbytes w \<le> l"

definition memdev_inv :: "nat \<Rightarrow> memdev \<Rightarrow> bool" where
  "memdev_inv al md \<longleftrightarrow> mdev_ok al md \<and> unat (md_size md) = length (md_buf md)"

lemma memdev_rd_run:
  assumes "memdev_inv al md" "memdev_allowed (length (md_buf md)) (RegRead off n)"
  shows "memdev_rd al off n md = (Inr (get_at (unat off) n (md_buf md)), md)"
proof -
  have m: "mdev_ok al md" "unat off + n \<le> unat (md_size md)" "0 < n" "0 + n \<le> length (replicate n (0 :: u8))"
    using assms by (simp_all add: memdev_inv_def)
  have "put_at 0 (get_at (unat off) n (md_buf md)) (replicate n 0) = get_at (unat off) n (md_buf md)"
    using assms by (simp add: put_at_def)
  then show ?thesis using mem_read_run [OF m] by (simp add: memdev_rd_def)
qed

lemma mem_write_masked:
  assumes "memdev_inv al md" "memdev_allowed (length (md_buf md)) (RegWrite w)"
  shows "\<exists>r. mem_write al w md = (Inr r, md\<lparr>md_buf := ref_write w (md_buf md)\<rparr>)"
proof -
  have e: "wargs (w_src w) (w_off w) (w_nbytes w) (w_msk1 w) (w_mskn w) (w_cacheable w) = w" by simp
  show ?thesis using mem_write_run [of al md "w_off w" "w_nbytes w" "w_src w" "w_msk1 w" "w_mskn w" "w_cacheable w"] assms
    unfolding e by (simp add: memdev_inv_def ref_write_def)
qed

lemma memdev_inv_write: "memdev_inv al md \<Longrightarrow> memdev_allowed (length (md_buf md)) (RegWrite w) \<Longrightarrow> memdev_inv al (md\<lparr>md_buf := ref_write w (md_buf md)\<rparr>)"
  by (simp add: memdev_inv_def mdev_ok_def ref_write_def length_masked_write)

interpretation memdev: reg_memory "memdev_inv al" md_buf memdev_allowed "memdev_rd al" "mem_write al" for al
proof unfold_locales
  fix s :: memdev and off n
  assume "memdev_inv al s" "memdev_allowed (length (md_buf s)) (RegRead off n)"
  then show "\<exists>s'. memdev_rd al off n s = (Inr (get_at (unat off) n (md_buf s)), s') \<and> memdev_inv al s' \<and> md_buf s' = md_buf s"
    using memdev_rd_run by blast
next
  fix s :: memdev and w
  assume a: "memdev_inv al s" "memdev_allowed (length (md_buf s)) (RegWrite w)"
  then obtain r where "mem_write al w s = (Inr r, s\<lparr>md_buf := ref_write w (md_buf s)\<rparr>)" using mem_write_masked by blast
  then show "\<exists>r s'. mem_write al w s = (Inr r, s') \<and> memdev_inv al s' \<and> md_buf s' = ref_write w (md_buf s)"
    using memdev_inv_write [OF a] by simp
qed simp

end
