(* ===== verification/SrpAccess.thy ===== *)
theory SrpAccess
  imports SrpWrite RegMemory
begin

text \<open>
  The network device as a memory: it keeps the contract of RegMemory, so a sequence of accesses over a line that loses messages
  gives what the same sequence gives on a list of bytes.
\<close>

section \<open>The network device keeps the contract\<close>

text \<open>A configuration, the server's, and the line.\<close>

record srp_link =
  lk_vers :: nat
  lk_cfg :: srp
  lk_byteres :: bool
  lk_rbufsz :: nat
  lk_lostReq :: "nat \<Rightarrow> bool"
  lk_lostAns :: "nat \<Rightarrow> bool"
  lk_clock :: "nat \<Rightarrow> timeout \<times> timeout"

definition link_dev :: "srp_link \<Rightarrow> srv_peer device" where
  "link_dev l = server (lk_vers l) (lk_byteres l) (lk_rbufsz l) (lk_lostReq l) (lk_lostAns l) (lk_clock l)"

definition link_ok :: "srp_link \<Rightarrow> bool" where
  "link_ok l \<longleftrightarrow> srp_ok (lk_vers l) (lk_cfg l) \<and> (sr_byteResolution (lk_cfg l) \<longrightarrow> lk_byteres l)
     \<and> line_ok (lk_cfg l) (lk_lostReq l) (lk_lostAns l)"

definition link_rd :: "srp_link \<Rightarrow> u64 \<Rightarrow> nat \<Rightarrow> (srv_peer srp_state, u8 list) sem" where
  "link_rd l off n = srp_read (lk_cfg l) (link_dev l) False (replicate n 0) 0 off n"

definition link_wr :: "srp_link \<Rightarrow> io_write_args \<Rightarrow> (srv_peer srp_state, nat) sem" where
  "link_wr l w = srp_write (lk_cfg l) (link_dev l) w"

definition in_reach :: "srp_link \<Rightarrow> nat \<Rightarrow> u64 \<Rightarrow> nat \<Rightarrow> bool" where
  "in_reach l len off n \<longleftrightarrow> reachable_mem (lk_vers l) (lk_cfg l) (lk_rbufsz l) (replicate len 0) off n"

fun link_allowed :: "srp_link \<Rightarrow> nat \<Rightarrow> reg_op \<Rightarrow> bool" where
  "link_allowed l len (RegRead off n) \<longleftrightarrow> in_reach l len off n \<and> clean_start (lk_vers l) (lk_cfg l) off n"
| "link_allowed l len (RegWrite w) \<longleftrightarrow> in_reach l len (w_off w) (w_nbytes w) \<and> w_nbytes w \<le> length (w_src w)
     \<and> merge_ok (lk_cfg l) (w_cacheable w) (w_off w) (w_nbytes w) (w_msk1 w) (w_mskn w)
     \<and> sure_line (lk_cfg l) (lk_lostReq l) (lk_lostAns l) (w_off w) (w_nbytes w) (w_msk1 w) (w_mskn w)"

definition link_mem :: "srv_peer srp_state \<Rightarrow> u8 list" where
  "link_mem s = pe_mem (ss_dev s)"

definition link_inv :: "srp_link \<Rightarrow> srv_peer srp_state \<Rightarrow> bool" where
  "link_inv l s \<longleftrightarrow> link_ok l \<and> ss_rx s = []"

lemma in_reach_mem: "in_reach l (length mem) off n \<longleftrightarrow> reachable_mem (lk_vers l) (lk_cfg l) (lk_rbufsz l) mem off n"
  by (simp add: in_reach_def reachable_mem_def)

lemma link_idle: "link_inv l s \<longleftrightarrow> link_ok l \<and> idle (link_mem s) s"
  by (auto simp: link_inv_def link_mem_def idle_def)

lemma link_rd_mem:
  assumes "link_inv l s" "link_allowed l (length (link_mem s)) (RegRead off n)"
  shows "\<exists>s'. link_rd l off n s = (Inr (get_at (unat off) n (link_mem s)), s') \<and> link_inv l s' \<and> link_mem s' = link_mem s"
proof -
  let ?c = "lk_cfg l"
  have ok: "srp_ok (lk_vers l) ?c" "sr_byteResolution ?c \<longrightarrow> lk_byteres l" "line_ok ?c (lk_lostReq l) (lk_lostAns l)"
    and s: "idle (link_mem s) s" using assms(1) by (simp_all add: link_idle link_ok_def)
  have R: "reachable_mem (lk_vers l) ?c (lk_rbufsz l) (link_mem s) off n" and cl: "clean_start (lk_vers l) ?c off n"
    using assms(2) by (simp_all add: in_reach_mem)
  have len: "0 + n \<le> length (replicate n (0 :: u8))" by simp
  have e: "put_at 0 (get_at (unat off) n (link_mem s)) (replicate n 0) = get_at (unat off) n (link_mem s)"
    using reachable_bytes [OF R] by (simp add: put_at_def)
  obtain s' where s': "link_rd l off n s = (Inr (get_at (unat off) n (link_mem s)), s')" "idle (link_mem s) s'"
    using srp_read_server [OF ok R cl len s, of False "lk_clock l"] unfolding e link_rd_def link_dev_def by blast
  then show ?thesis using assms(1) by (auto simp: link_inv_def link_mem_def idle_def)
qed

lemma link_wr_mem:
  assumes "link_inv l s" "link_allowed l (length (link_mem s)) (RegWrite w)"
  shows "\<exists>s'. link_wr l w s = (Inr (w_nbytes w), s') \<and> link_inv l s' \<and> link_mem s' = ref_write w (link_mem s)"
proof -
  let ?c = "lk_cfg l"
  have ok: "srp_ok (lk_vers l) ?c" "sr_byteResolution ?c \<longrightarrow> lk_byteres l" "line_ok ?c (lk_lostReq l) (lk_lostAns l)"
    and s: "idle (link_mem s) s" using assms(1) by (simp_all add: link_idle link_ok_def)
  have R: "reachable_mem (lk_vers l) ?c (lk_rbufsz l) (link_mem s) (w_off w) (w_nbytes w)" and src: "w_nbytes w \<le> length (w_src w)"
    and mg: "merge_ok ?c (w_cacheable w) (w_off w) (w_nbytes w) (w_msk1 w) (w_mskn w)"
    and sure: "sure_line ?c (lk_lostReq l) (lk_lostAns l) (w_off w) (w_nbytes w) (w_msk1 w) (w_mskn w)"
    using assms(2) by (simp_all add: in_reach_mem)
  obtain s' where s': "link_wr l w s = (Inr (w_nbytes w), s')" "idle (ref_write w (link_mem s)) s'"
    using srp_write_server [OF ok R src s mg sure, of "lk_clock l"] unfolding link_wr_def link_dev_def ref_write_def by blast
  then show ?thesis using assms(1) by (auto simp: link_inv_def link_mem_def idle_def)
qed

interpretation srp_link: reg_memory "link_inv l" link_mem "link_allowed l" "link_rd l" "link_wr l" for l
proof unfold_locales
  fix s off n
  assume "link_inv l s" "link_allowed l (length (link_mem s)) (RegRead off n)"
  then show "\<exists>s'. link_rd l off n s = (Inr (get_at (unat off) n (link_mem s)), s') \<and> link_inv l s' \<and> link_mem s' = link_mem s"
    by (rule link_rd_mem)
next
  fix s w
  assume "link_inv l s" "link_allowed l (length (link_mem s)) (RegWrite w)"
  then show "\<exists>r s'. link_wr l w s = (Inr r, s') \<and> link_inv l s' \<and> link_mem s' = ref_write w (link_mem s)"
    using link_wr_mem by blast
next
  fix len w
  assume a: "link_allowed l len (RegWrite w)"
  then have R: "reachable_mem (lk_vers l) (lk_cfg l) (lk_rbufsz l) (replicate len 0) (w_off w) (w_nbytes w)" by (simp add: in_reach_def)
  show "unat (w_off w) + w_nbytes w \<le> len" using reachable_bytes [OF R] by simp
qed

section \<open>Accesses over the line\<close>

text \<open>C34: A read over the network returns the bytes of the memory, for each version of the protocol, each offset and size that the
  server can reach, in as many blocks as it takes and whatever is lost, as long as one of the attempts comes through. (In the first
  version a read which ends within the word where it begins is left out: it overruns its buffer.)\<close>

theorem srp_read_returns:
  assumes "link_ok l" "in_reach l (length mem) off n" "clean_start (lk_vers l) (lk_cfg l) off n" "dst + n \<le> length out" "idle mem s"
  shows "\<exists>s'. srp_read (lk_cfg l) (link_dev l) False out dst off n s = (Inr (put_at dst (get_at (unat off) n mem) out), s') \<and> idle mem s'"
  using assms srp_read_server [of "lk_vers l" "lk_cfg l" "lk_byteres l" "lk_lostReq l" "lk_lostAns l" "lk_rbufsz l" mem off n dst out s False]
  by (simp add: link_ok_def link_dev_def in_reach_mem)

text \<open>C33: A write over the network, with its bits merged at both ends, leaves in the memory exactly what the reference
  \<open>masked_write\<close> leaves, in as many blocks as it takes, also when a request is executed twice since its answer was lost.
  (Left out are the writes whose words in the middle get lost, and the losses on a line without retries.)\<close>

theorem srp_write_stores:
  assumes "link_inv l s" "link_allowed l (length (link_mem s)) (RegWrite w)"
  shows "\<exists>s'. srp_write (lk_cfg l) (link_dev l) w s = (Inr (w_nbytes w), s') \<and> ss_rx s' = []
    \<and> pe_mem (ss_dev s') = masked_write (unat (w_off w)) (w_src w) (w_nbytes w) (w_msk1 w) (w_mskn w) (pe_mem (ss_dev s))"
  using link_wr_mem [OF assms] by (auto simp: link_wr_def link_mem_def link_inv_def ref_write_def)

text \<open>C32: Any sequence of reads and writes over the network, of those which \<open>link_allowed\<close> admits, refines the same sequence on a list of
  bytes: it gives the same results and leaves the same memory. Left out are accesses outside of the memory; reads of the first version
  within one word, which overrun their buffer; writes of at most 32 bytes with both ends merged and words between, which fail; and
  writes with an end to be merged to a field that is not cacheable, which throw. Messages may get lost, as long as one attempt of each
  transaction comes through; but posted writes, and writes above 32 bytes which merge both ends, need a line without losses.\<close>

theorem srp_refines_memory:
  assumes "link_inv l s" "\<forall>x \<in> set ops. link_allowed l (length (link_mem s)) x"
  shows "\<exists>s'. run_ops (link_rd l) (link_wr l) ops s = (Inr (fst (ref_ops ops (link_mem s))), s') \<and> link_mem s' = snd (ref_ops ops (link_mem s))"
  using srp_link.run_ops_refines [OF assms] by blast

end
