(* ===== verification/SrpTimeout.thy ===== *)
theory SrpTimeout
  imports SrpModel
begin

text \<open>
  The dynamic timeout of \<^verbatim>\<open>src/src/cpsw_srp_addr.cc\<close>: an average of the round trips, never below the cap. Each
  answer that does not come raises the bound above by an eighth.
\<close>

datatype dt_event = DtUpdate timeout timeout | DtRelax | DtReset timeout | DtCap u64

fun dt_step :: "dt_event \<Rightarrow> dyn_timeout \<Rightarrow> dyn_timeout" where
  "dt_step (DtUpdate t1 t0) dt = dt_update t1 t0 dt"
| "dt_step DtRelax dt = dt_relax dt"
| "dt_step (DtReset iniv) dt = dt_reset iniv dt"
| "dt_step (DtCap cap) dt = dt_setTimeoutCap cap dt"

definition dt_us :: "dyn_timeout \<Rightarrow> nat" where
  "dt_us dt = unat (to_getUs (dt_dynTimeout dt))"

lemma dt_setLastUpdate_us:
  "dt_us (dt_setLastUpdate dt) = max (unat (drop_bit 4 (dt_avgRndTrip dt))) (unat (dt_timeoutCap dt))"
  by (simp add: dt_us_def dt_setLastUpdate_def Let_def to_getUs_set AVG_SHFT_def MARG_SHFT_def word_less_nat_alt max_def)

lemma dt_setLastUpdate_keeps [simp]:
  "dt_avgRndTrip (dt_setLastUpdate dt) = dt_avgRndTrip dt" "dt_timeoutCap (dt_setLastUpdate dt) = dt_timeoutCap dt"
  by (simp_all add: dt_setLastUpdate_def Let_def)

lemma dt_step_cap: "unat (dt_timeoutCap dt) \<le> dt_us dt \<Longrightarrow> unat (dt_timeoutCap (dt_step e dt)) \<le> dt_us (dt_step e dt)"
  by (cases e) (simp_all add: dt_update_def dt_relax_def dt_reset_def dt_setTimeoutCap_def Let_def dt_setLastUpdate_us,
    simp add: dt_us_def to_getUs_set word_less_nat_alt not_less)


















end
