(* ===== verification/SrpFaults.thy ===== *)
theory SrpFaults
  imports SrpAccess SrpTimeout
begin

text \<open>
  What goes wrong, and how the network device shows it: stale answers, a dead line, and two accesses which it does not do right.
\<close>

section \<open>Stale answers\<close>

lemma pop_tid_match: "pop_tid c tid q = (Inr (Some r), q') \<Longrightarrow> \<exists>t. extractTid c (fst r) = Inr t \<and> tidMatch c t tid"
  by (induction c tid q rule: pop_tid.induct) (auto split: sum.splits if_splits)

text \<open>C35: A transaction is completed with an answer to this transaction only: whatever the device at the other end sends, stale
  answers to transactions that timed out and other messages are skipped.\<close>

theorem srp_attempts_own_answer:
  assumes "srp_attempts c dev msg tid err n s = (Inr m, s')"
  shows "\<exists>t. extractTid c m = Inr t \<and> tidMatch c t tid"
  using assms
proof (induction n arbitrary: s)
  case (0 s)
  then show ?case
    by (auto simp: bnd_def push_msg_def Let_def dest: pop_tid_match split: prod.splits sum.splits option.splits)
next
  case (Suc n s)
  obtain rs d where d: "dev (ss_dev s) msg = (rs, d)" by (cases "dev (ss_dev s) msg")
  obtain x q where pp: "pop_tid c tid (ss_rx s @ rs) = (x, q)" by (cases "pop_tid c tid (ss_rx s @ rs)")
  show ?case
  proof (cases x)
    case (Inl e)
    then show ?thesis using Suc.prems d pp by (simp add: bnd_def push_msg_def)
  next
    case (Inr y)
    show ?thesis
    proof (cases y)
      case None
      then show ?thesis using Suc.prems Suc.IH d pp Inr by (simp add: bnd_def push_msg_def del: srp_attempts.simps add: srp_attempts.simps [of _ _ _ _ _ "Suc n"])
    next
      case (Some r)
      obtain m' t0 t1 where r: "r = (m', t0, t1)" by (cases r)
      then have "m' = m" using Suc.prems d pp Inr Some by (simp add: bnd_def push_msg_def)
      then show ?thesis using pop_tid_match [of c tid "ss_rx s @ rs" r q] pp Inr Some r by simp
    qed
  qed
qed

section \<open>A dead line\<close>

text \<open>What is left of a transaction without an answer, after \<open>k\<close> transmissions.\<close>

definition gave_up :: "srp \<Rightarrow> nat \<Rightarrow> 'd srp_state \<Rightarrow> 'd srp_state \<Rightarrow> bool" where
  "gave_up c k s s' \<longleftrightarrow> ss_rx s' = [] \<and> ss_nRetries s' = ss_nRetries s + k \<and> ss_nReads s' = ss_nReads s \<and> ss_nWrites s' = ss_nWrites s
     \<and> (sr_useDynTimeout c \<longrightarrow> (\<exists>dt. ss_dynTimeout s' = dt_reset (sr_usrTimeout c) dt))"

text \<open>\<open>I\<close> follows the device through the transmissions.\<close>

lemma srp_attempts_silent:
  assumes silent: "\<And>k d. I k d \<Longrightarrow> \<exists>d'. dev d m = ([], d') \<and> I (Suc k) d'"
  shows "I k (ss_dev s) \<Longrightarrow> ss_rx s = [] \<Longrightarrow> \<exists>s'. srp_attempts c dev m tid err n s = (Inl (IOError err), s') \<and> gave_up c (Suc n) s s'
    \<and> I (k + Suc n) (ss_dev s')"
proof (induction n arbitrary: k s)
  case (0 k s)
  obtain d' where d: "dev (ss_dev s) m = ([], d')" "I (Suc k) d'" using silent [OF 0(1)] by blast
  then show ?case using 0 by (auto simp: bnd_def push_msg_def Let_def gave_up_def)
next
  case (Suc n k s)
  obtain d' where d: "dev (ss_dev s) m = ([], d')" "I (Suc k) d'" using silent [OF Suc.prems(1)] by blast
  let ?s = "s\<lparr>ss_dev := d', ss_rx := [],
    ss_dynTimeout := (if sr_useDynTimeout c then dt_relax else id) (ss_dynTimeout s), ss_nRetries := ss_nRetries s + 1\<rparr>"
  have st: "srp_attempts c dev m tid err (Suc n) s = srp_attempts c dev m tid err n ?s"
    unfolding srp_attempts.simps [of _ _ _ _ _ "Suc n"] using Suc.prems d(1)
    by (simp add: bnd_def push_msg_def Let_def del: srp_attempts.simps)
  have "I (Suc k) (ss_dev ?s)" "ss_rx ?s = []" using d(2) by simp_all
  then obtain s' where "srp_attempts c dev m tid err n ?s = (Inl (IOError err), s')" "gave_up c (Suc n) ?s s'" "I (Suc k + Suc n) (ss_dev s')"
    using Suc.IH [of "Suc k" ?s] by blast
  then show ?case unfolding st by (auto simp: gave_up_def)
qed

definition dead_peer :: "(nat \<Rightarrow> bool) \<Rightarrow> srv_peer \<Rightarrow> nat \<Rightarrow> srv_peer \<Rightarrow> bool" where
  "dead_peer lostReq d0 k d \<longleftrightarrow> pe_count d = pe_count d0 + k \<and> ((\<forall>k. lostReq k) \<longrightarrow> pe_mem d = pe_mem d0)"

lemma server_dead:
  assumes "\<forall>k. lostReq k \<or> lostAns k" "dead_peer lostReq d0 k d"
  shows "\<exists>d'. server vers br rb lostReq lostAns clock d m = ([], d') \<and> dead_peer lostReq d0 (Suc k) d'"
proof (cases "lostReq (pe_count d)")
  case True
  then show ?thesis using assms(2) by (simp add: server_def Let_def dead_peer_def)
next
  case False
  then have "lostAns (pe_count d)" using assms(1) by blast
  then have "fst (server vers br rb lostReq lostAns clock d m) = []" "pe_count (snd (server vers br rb lostReq lostAns clock d m)) = pe_count d + 1"
    using False by (auto simp: server_def Let_def split: prod.splits option.splits)
  then show ?thesis using False assms(2) unfolding dead_peer_def by (cases "server vers br rb lostReq lostAns clock d m") auto
qed

text \<open>C36: On a line that delivers no answer a read fails after exactly one transmission and as many retries as configured, with a
  timeout; it returns no data, the counters tell what happened, the adaptive timeout starts afresh, and where no request arrived
  the memory is untouched.\<close>

theorem srp_read_dead_line:
  assumes "\<forall>k. lostReq k \<or> lostAns k" "0 < n" "0 < sr_maxWordsRx c" "ss_rx s = []"
  shows "\<exists>s'. srp_read c (server vers br rb lostReq lostAns clock) False out dst off n s = (Inl (IOError ''No response -- timeout''), s')
    \<and> gave_up c (Suc (sr_retryCnt c)) s s' \<and> pe_count (ss_dev s') = pe_count (ss_dev s) + Suc (sr_retryCnt c)
    \<and> ((\<forall>k. lostReq k) \<longrightarrow> pe_mem (ss_dev s') = pe_mem (ss_dev s))"
proof -
  let ?dev = "server vers br rb lostReq lostAns clock" and ?I = "dead_peer lostReq (ss_dev s)" and ?n = "Suc (sr_retryCnt c)"
  have blk: "\<exists>s'. readBlk_unlocked c ?dev False out dst off k s = (Inl (IOError ''No response -- timeout''), s') \<and> gave_up c ?n s s'
      \<and> ?I ?n (ss_dev s')" if "0 < k" for k
  proof -
    let ?s = "s\<lparr>ss_tid := ss_tid s + sr_tidLsb c\<rparr>" and ?t = "toTid c (ss_tid s + sr_tidLsb c)"
    have i: "?I 0 (ss_dev ?s)" and rx: "ss_rx ?s = []" using assms(4) by (simp_all add: dead_peer_def)
    obtain s' where "srp_attempts c ?dev (hdr_bytes c (rx_xbuf (read_resetMe c ?t off k))) ?t ''No response -- timeout'' (sr_retryCnt c) ?s
        = (Inl (IOError ''No response -- timeout''), s')" "gave_up c ?n ?s s'" "?I (0 + ?n) (ss_dev s')"
      using srp_attempts_silent [of ?I ?dev, OF server_dead [OF assms(1)] i rx] by blast
    then show ?thesis using that
      by (simp add: readBlk_unlocked_def bnd_def getTid_run Let_def gave_up_def del: srp_attempts.simps)
  qed
  let ?nw = "(headBytes c off + n + 3) div 4"
  let ?nb = "if sr_maxWordsRx c < ?nw then sr_maxWordsRx c * 4 - headBytes c off else n"
  have "headBytes c off < 4" by (simp add: headBytes_def)
  then have "0 < ?nb" using assms(2,3) by (cases "sr_maxWordsRx c") auto
  from blk [OF this] obtain s' where b: "readBlk_unlocked c ?dev False out dst off ?nb s = (Inl (IOError ''No response -- timeout''), s')"
      "gave_up c ?n s s'" "?I ?n (ss_dev s')" by blast
  have "read_loop c ?dev False (Suc ?nw) out dst off n ?nw (headBytes c off) s = (Inl (IOError ''No response -- timeout''), s')"
    unfolding read_loop.simps(2) Let_def using b(1) by (simp add: bnd_def del: read_loop.simps split: if_splits)
  then show ?thesis using b(2,3) assms(2) by (simp add: srp_read_def Let_def bnd_def dead_peer_def del: read_loop.simps)
qed

section \<open>Two accesses which go wrong\<close>

text \<open>The message of a write whose words in the middle are left out: two words behind the header.\<close>

lemma length_merge_last:
  "mg_lastByte s < length (mg_last s) \<Longrightarrow> mg_lastByte s \<le> n - 1 \<Longrightarrow> n \<le> length src \<Longrightarrow>
   length (mg_last (merge_last src n mn s)) = length (mg_last s) \<and> mg_toput (merge_last src n mn s) = mg_toput s - 1 - int (mg_lastByte s)
   \<and> mg_first (merge_last src n mn s) = mg_first s \<and> mg_mergeLast (merge_last src n mn s) = mg_mergeLast s
   \<and> mg_lastlen (merge_last src n mn s) = mg_lastlen s"
proof -
  assume a: "mg_lastByte s < length (mg_last s)" "mg_lastByte s \<le> n - 1" "n \<le> length src"
  then have "length (get_at (n - 1 - mg_lastByte s) (mg_lastByte s) src) = mg_lastByte s" by (intro length_get_at) simp
  then show ?thesis using a by (simp add: merge_last_run [OF refl])
qed

lemma collapsed_message:
  assumes nb: "\<not> sr_byteResolution c" and v: "vers = 3" "srp_ok vers c" and col: "collapsed c off n m1 mn" and src: "n \<le> length src"
    and p: "p = write_plan c off n m1 mn" and fw: "length fw = span c off n"
  shows "length (write_msg c p tid off src (merge_words c p off src n mn fw lw)) = 28"
proof -
  let ?h = "headBytes c off" and ?t = "headBytes c off + n" and ?s0 = "merge_begin c p off n fw lw"
  have w: "wants_merge c off n m1 mn = (True, True)" "n \<noteq> 1" "8 < ?t" "?t \<le> 32" using col by (simp_all add: collapsed_def)
  have pl: "wp_mergeFirst p" "wp_lastInFirst p" "\<not> wp_mergeLast p" "wp_tot p = ?t" "wp_head p = ?h"
    using w by (simp_all add: p write_plan_def Let_def)
  have h4: "?h < 4" by (simp add: headBytes_def)
  have n1: "1 < n" using h4 w by linarith
  have fr: "fst (first_read c p off) = span c off n" using pl(2,4) nb span_words [OF nb, of off n] by (simp add: first_read_def)
  have sp: "8 < span c off n" "?t \<le> span c off n" using head_span [of c off n] w(3) by simp_all
  have s0: "mg_first ?s0 = fw" "mg_toput ?s0 = int n" "mg_remaining ?s0 = int (n - 1)"
    using n1 sp pl by (simp_all add: merge_begin_def Let_def fr)
  define s1 where "s1 = ?s0\<lparr>mg_first := (mg_first ?s0)[wp_head p := merge_bits (wp_msk1 p) (mg_first ?s0 ! wp_head p) (src ! 0)],
    mg_toput := mg_toput ?s0 - 1\<rparr>"
  define i where "i = ?t - 1"
  have l: "merge_lif c p src n mn s1 = s1\<lparr>mg_last := get_at (i div 4 * 4) 4 (mg_first s1), mg_mergeLast := True, mg_lastByte := i mod 4, mg_lastlen := 4\<rparr>"
    using w(3) nb pl(4) by (simp add: merge_lif_def Let_def i_def)
  define s2 where "s2 = s1\<lparr>mg_last := get_at (i div 4 * 4) 4 (mg_first s1), mg_mergeLast := True, mg_lastByte := i mod 4, mg_lastlen := 4\<rparr>"
  let ?s3 = "s2\<lparr>mg_first := put_at (wp_head p + 1) (get_at 1 (n - 1) src) (mg_first s2), mg_toput := mg_toput s2 - int (n - 1)\<rparr>"
  have m: "merge_first c p src n mn ?s0 = ?s3"
    by (rule merge_first_lif [OF pl(2)]) (use s0 in \<open>simp add: s2_def s1_def\<close>, use l in \<open>simp only: s1_def s2_def\<close>)
  have i4: "i div 4 * 4 + 4 \<le> span c off n"
  proof -
    have "?t = i + 1" using w(3) by (simp add: i_def)
    moreover have "(i + 1 + 3) div 4 = i div 4 + 1" by simp
    ultimately show ?thesis using span_words [OF nb, of off n] by simp
  qed
  have f: "mg_mergeLast ?s3" "length (mg_last ?s3) = 4" "mg_lastlen ?s3 = 4" "mg_lastByte ?s3 = i mod 4" "mg_toput ?s3 = 0" "length (mg_first ?s3) = span c off n"
    using i4 fw s0 n1 sp(2) src pl(5) by (simp_all add: s2_def s1_def)
  have im: "i mod 4 < 4" "i mod 4 \<le> n - 1"
  proof -
    show "i mod 4 < 4" by simp
    have "4 < n" using w(3) h4 by linarith
    moreover have "i mod 4 < 4" by simp
    ultimately show "i mod 4 \<le> n - 1" by linarith
  qed
  define s4 where "s4 = merge_last src n mn ?s3"
  have s4: "length (mg_last s4) = 4" "mg_toput s4 < 0" "length (mg_first s4) = span c off n" "mg_mergeLast s4" "mg_lastlen s4 = 4"
    using length_merge_last [of ?s3 n src mn] f im src unfolding s4_def by simp_all
  have mw: "merge_words c p off src n mn fw lw = s4"
    unfolding merge_words_def Let_def if_P [OF pl(1)] m if_P [OF f(1)] s4_def ..
  have v3: "sr_protoVersion c = SRP_UDP_V3" "\<not> needsPayloadSwap c" using v by (auto simp: srp_ok_def needsPayloadSwap_def)
  have tp: "(0 < mg_toput s4) = False" using s4(2) by simp
  show ?thesis unfolding mw write_msg_def Let_def tp fr
    using pl(1) s4 sp(1) v3 nb by (simp add: assembleXBuf_plain write_xbuf_def min_def)
qed

lemma collapsed_dropped:
  assumes nb: "\<not> sr_byteResolution c" and v: "vers = 3" "srp_ok vers c" and np: "\<not> is_posted c" and col: "collapsed c off n m1 mn"
    and src: "n \<le> length src" and R: "reachable_mem vers c rb mem off n" and fw: "length fw = span c off n"
  shows "srv_drop vers (write_msg c (write_plan c off n m1 mn) tid off src (merge_words c (write_plan c off n m1 mn) off src n mn fw lw))"
proof -
  define p where "p = write_plan c off n m1 mn"
  define msg where "msg = write_msg c p tid off src (merge_words c p off src n mn fw lw)"
  let ?ws = "write_xbuf c p tid off" and ?k = "n_words c off n"
  have len: "length msg = 28" unfolding msg_def by (rule collapsed_message [OF nb v col src p_def fw])
  have v3: "sr_protoVersion c = SRP_UDP_V3" using v by (simp add: srp_ok_def)
  have ws: "?ws = [0x103, tid, ucast (off AND NOT 3), ucast (drop_bit 32 off), push_bit 2 (of_nat ?k) - 1]"
    using v3 nb np by (simp add: write_xbuf_def CMD_WRITE_V3_def PROTO_VERS_3_def p_def write_plan_fields)
  obtain rest where rest: "msg = hdr_bytes c ?ws @ rest" unfolding msg_def write_msg_def Let_def needsPayloadSwap_def v3
    by (simp add: assembleXBuf_plain)
  have r: "rbuf_word msg i = ?ws ! i" if "i < 5" for i
    unfolding rest using srv_word(2) [OF v(2), of i ?ws rest] that v(1) by (simp add: ws)
  have cmd: "srv_cmd vers msg = CMD_WR" using r [of 0] v(1) unfolding ws by (simp add: srv_cmd_def Let_def)
  have "4 * ?k < 2 ^ 32" using R nb by (simp add: reachable_mem_def span_def)
  then have "srv_size vers msg = 4 * ?k"
    using r [of 4] cmd v(1) unat_words(2) [of ?k] unfolding ws by (simp add: srv_size_def bs32_def)
  moreover have "3 \<le> ?k" "?k \<le> 8" using col unfolding n_words_def collapsed_def by linarith+
  ultimately have "srv_drop vers msg" using cmd len v(1) by (auto simp: srv_drop_def srv_expected_def Let_def)
  then show ?thesis by (simp only: msg_def p_def)
qed

text \<open>C37: A write with bytes to merge in its first and in its last word and with whole words between them, but no more than 32 bytes in
  all, always fails in the third version of the protocol: the words in the middle are left out of the message, the server drops
  it, and after all retries there is an error; nothing is stored. (In the other versions the words which are sent end up in
  the wrong place.)\<close>

theorem srp_collapsed_write_fails:
  assumes l: "link_ok l" "lk_vers l = 3" "\<not> sr_byteResolution (lk_cfg l)" "\<not> is_posted (lk_cfg l)"
    and col: "collapsed (lk_cfg l) (w_off w) (w_nbytes w) (w_msk1 w) (w_mskn w)" and cach: "\<not> w_cacheable w < WB_CACHEABLE"
    and src: "w_nbytes w \<le> length (w_src w)" and one: "n_words (lk_cfg l) (w_off w) (w_nbytes w) \<le> sr_maxWordsTx (lk_cfg l)"
    and R: "in_reach l (length mem) (w_off w) (w_nbytes w)" and s: "idle mem s"
  shows "\<exists>s'. srp_write (lk_cfg l) (link_dev l) w s = (Inl (IOError ''Too many retries''), s') \<and> idle mem s'"
proof -
  let ?c = "lk_cfg l" and ?off = "w_off w" and ?n = "w_nbytes w" and ?dev = "link_dev l"
  define p where "p = write_plan ?c ?off ?n (w_msk1 w) (w_mskn w)"
  define B where "B = get_at (base ?c ?off) (span ?c ?off ?n) mem"
  have ok: "srp_ok (lk_vers l) ?c" "sr_byteResolution ?c \<longrightarrow> lk_byteres l" "line_ok ?c (lk_lostReq l) (lk_lostAns l)"
    using l(1) by (simp_all add: link_ok_def)
  have Rm: "reachable_mem (lk_vers l) ?c (lk_rbufsz l) mem ?off ?n" using R by (simp add: in_reach_mem)
  have w: "wants_merge ?c ?off ?n (w_msk1 w) (w_mskn w) = (True, True)" "8 < headBytes ?c ?off + ?n" "headBytes ?c ?off + ?n \<le> 32" "?n \<noteq> 1"
    using col by (simp_all add: collapsed_def)
  have "headBytes ?c ?off < 4" by (simp add: headBytes_def)
  then have n: "0 < ?n" using w by linarith
  have pl: "wp_mergeFirst p" "wp_lastInFirst p" "\<not> wp_mergeLast p" "\<not> wp_parallel p" "wp_tot p = headBytes ?c ?off + ?n"
    using w by (simp_all add: p_def write_plan_def Let_def)
  have par: "wp_parallel p \<longrightarrow> lossless (lk_lostReq l) (lk_lostAns l)" using pl(4) by blast
  obtain fw lw s1 where rb: "read_back ?c ?dev p ?off ?n s = (Inr (fw, lw), s1)" "idle mem s1"
      "wp_mergeFirst p \<longrightarrow> fw = take (fst (first_read ?c p ?off)) B"
    using read_back_server [OF ok s n Rm p_def par B_def, of "lk_clock l"] unfolding link_dev_def by blast
  have fr: "fst (first_read ?c p ?off) = span ?c ?off ?n"
    using pl(2,5) l(3) span_words [OF l(3), of ?off ?n] by (simp add: first_read_def)
  have "length B = span ?c ?off ?n" using Rm by (simp add: B_def reachable_mem_def)
  then have fw: "length fw = span ?c ?off ?n" using rb(3) pl(1) fr by simp
  define tid where "tid = toTid ?c (ss_tid s1 + sr_tidLsb ?c)"
  define msg where "msg = write_msg ?c p tid ?off (w_src w) (merge_words ?c p ?off (w_src w) ?n (w_mskn w) fw lw)"
  have drop: "srv_drop (lk_vers l) msg"
    unfolding msg_def p_def by (rule collapsed_dropped [OF l(3,2) ok(1) l(4) col src Rm fw])
  have silent: "\<exists>d'. ?dev d msg = ([], d') \<and> pe_mem d' = mem" if "pe_mem d = mem" for d
    using drop that by (simp add: link_dev_def server_def Let_def handleSRP_def)
  let ?s = "s1\<lparr>ss_tid := ss_tid s1 + sr_tidLsb ?c + sr_tidLsb ?c\<rparr>"
  have i: "pe_mem (ss_dev ?s) = mem" "ss_rx ?s = []" using rb(2) by (simp_all add: idle_def)
  obtain s' where a: "srp_attempts ?c ?dev msg tid ''Too many retries'' (sr_retryCnt ?c) ?s = (Inl (IOError ''Too many retries''), s')"
      "gave_up ?c (Suc (sr_retryCnt ?c)) ?s s'" "pe_mem (ss_dev s') = mem"
    using srp_attempts_silent [of "\<lambda>_ d. pe_mem d = mem" ?dev msg 0 ?s, OF silent i] by blast
  have g: "wants_merge ?c ?off ?n (w_msk1 w) (w_mskn w) \<noteq> (False, False) \<longrightarrow> \<not> w_cacheable w < WB_CACHEABLE" using cach by blast
  have blk: "writeBlk_unlocked ?c ?dev (w_cacheable w) (w_src w) ?off ?n (w_msk1 w) (w_mskn w) s = (Inl (IOError ''Too many retries''), s')"
    unfolding writeBlk_run [OF n g rb(1) [unfolded p_def]] Let_def p_def [symmetric] tid_def [symmetric] msg_def [symmetric] if_not_P [OF l(4)]
    using a(1) by (simp add: bnd_def del: srp_attempts.simps)
  have nw: "\<not> sr_maxWordsTx ?c < n_words ?c ?off ?n" using one by simp
  have "write_loop ?c ?dev (w_cacheable w) (Suc (n_words ?c ?off ?n)) (w_src w) ?off ?n (n_words ?c ?off ?n) (headBytes ?c ?off) (w_msk1 w) (w_mskn w) s
      = (Inl (IOError ''Too many retries''), s')"
    unfolding write_loop.simps(2) if_not_P [OF nw] by (rule blk)
  then have "srp_write ?c ?dev w s = (Inl (IOError ''Too many retries''), s')"
    using n by (simp add: srp_write_def Let_def n_words_def [symmetric] bnd_def del: write_loop.simps)
  then show ?thesis using a(2,3) by (simp add: idle_def gave_up_def)
qed

lemma read_complete_overruns:
  assumes ok: "srp_ok 1 c" and n: "0 < n" "headBytes c off \<noteq> 0" "headBytes c off + n < 4" and a: "answer 1 c tid P r" "length P = 4 * n_words c off n"
    and out: "dst + n \<le> length out" "length out < dst + (4 - headBytes c off)"
  shows "read_complete c (read_resetMe c tid off n) r dst out = Inl (Undefined ''write behind the buffer'')"
proof -
  let ?x = "read_resetMe c tid off n" and ?h = "headBytes c off" and ?oo = "4 * srv_ooff 1"
  obtain H where r: "r = H @ P @ word_bytes LE 0" "length H = ?oo" using a(1) unfolding answer_def by blast
  have v1: "sr_protoVersion c = SRP_UDP_V1" "needsPayloadSwap c" using ok by (auto simp: srp_ok_def needsPayloadSwap_def)
  have k: "n_words c off n = 1" using n unfolding n_words_def by simp
  note f = read_xact_fields [of c tid off n] and hl = hdr_layout [OF ok, of tid off n]
  have e0: "(if sr_protoVersion c = SRP_UDP_V1 then 4 else 0) + (rx_hdrWords ?x * 4 + ?h) = ?oo + ?h" using hl by simp
  have data: "msg_extract (?oo + ?h) n r = get_at ?h n P" unfolding r(1) by (rule extract_mid [OF r(2)]) (use n a(2) k in simp)
  have ld: "length (get_at ?h n P) = n" using n a(2) k by (intro length_get_at) simp
  let ?o1 = "put_at dst (get_at ?h n P) out"
  have pw: "put_within dst (get_at ?h n P) out = Inr ?o1" using ld out by (intro put_within_ok) simp
  have lr: "length r = 4 * (n_words c off n + rx_expected ?x)" using r a(2) by (simp add: hl(2))
  have sw: "swap_payload ?x hdr tail dst ?o1 = Inl (Undefined ''write behind the buffer'')" for hdr tail
  proof -
    have "length (get_at ?h (4 - ?h) (swpw b)) = 4 - ?h" for b using n by (intro length_get_at) simp
    then have "swap_head ?x hdr tail dst ?o1 = Inl (Undefined ''write behind the buffer'')"
      using out ld unfolding swap_head_def Let_def f put_within_def by simp
    then show ?thesis using n(2) by (simp add: swap_payload_def Let_def f)
  qed
  show ?thesis unfolding read_complete_def Let_def f e0 data pw sum.case lr if_P [OF v1(2)] sw by simp
qed

text \<open>C38: A read of the first version of the protocol that begins behind the first byte of a word and ends before its last one overruns
  the buffer of the caller, whenever the buffer does not reach to the end of the word.\<close>

theorem srp_v1_read_overruns:
  assumes l: "link_ok l" "lk_vers l = 1" and n: "0 < n" "headBytes (lk_cfg l) off \<noteq> 0" "headBytes (lk_cfg l) off + n < 4"
    and R: "in_reach l (length mem) off n" and out: "dst + n \<le> length out" "length out < dst + (4 - headBytes (lk_cfg l) off)" and s: "idle mem s"
  shows "fst (srp_read (lk_cfg l) (link_dev l) False out dst off n s) = Inl (Undefined ''write behind the buffer'')"
proof -
  let ?c = "lk_cfg l" and ?dev = "link_dev l"
  define tid where "tid = toTid ?c (ss_tid s + sr_tidLsb ?c)"
  let ?s = "s\<lparr>ss_tid := ss_tid s + sr_tidLsb ?c\<rparr>" and ?x = "read_resetMe ?c tid off n"
  have ok: "srp_ok (lk_vers l) ?c" "sr_byteResolution ?c \<longrightarrow> lk_byteres l" "line_ok ?c (lk_lostReq l) (lk_lostAns l)"
    using l(1) by (simp_all add: link_ok_def)
  have Rm: "reachable_mem (lk_vers l) ?c (lk_rbufsz l) mem off n" using R by (simp add: in_reach_mem)
  obtain r Q where r: "handleSRP (lk_vers l) (lk_byteres l) (lk_rbufsz l) mem (hdr_bytes ?c (rx_xbuf ?x)) = (Some r, mem)"
      "answer (lk_vers l) ?c tid (payload_swap (lk_vers l = 1) Q) r" "length Q = 4 * n_words ?c off n"
    using read_answer [OF ok(1,2) n(1) Rm refl] by blast
  have t: "extractTid ?c r = Inr tid" using r(2) by (simp add: answer_def tid_def)
  have m: "tidMatch ?c tid tid" unfolding tid_def by (rule tidMatch_self)
  have al: "alive (lk_lostReq l) (lk_lostAns l) (pe_count (ss_dev ?s)) (sr_retryCnt ?c)" using ok(3) by (simp add: line_ok_def)
  have s2: "ss_rx ?s = []" "pe_mem (ss_dev ?s) \<in> {mem, mem}" using s by (simp_all add: idle_def)
  obtain s' where a: "srp_attempts ?c ?dev (hdr_bytes ?c (rx_xbuf ?x)) tid ''No response -- timeout'' (sr_retryCnt ?c) ?s = (Inr r, s')"
    using srp_attempts_server [OF t m r(1) r(1) al s2] unfolding link_dev_def by blast
  have "read_complete ?c ?x r dst out = Inl (Undefined ''write behind the buffer'')"
    by (rule read_complete_overruns [OF _ n, of tid "payload_swap (lk_vers l = 1) Q"]) (use ok(1) l(2) r(2,3) out in simp_all)
  then have blk: "fst (readBlk_unlocked ?c ?dev False out dst off n s) = Inl (Undefined ''write behind the buffer'')"
    using n(1) a by (simp add: readBlk_unlocked_def bnd_def getTid_run tid_def [symmetric] Let_def raise_def del: srp_attempts.simps)
  have k: "(headBytes ?c off + n + 3) div 4 = 1" using n by simp
  have w: "\<not> sr_maxWordsRx ?c < 1" using ok(1) by (simp add: srp_ok_def)
  have loop: "read_loop ?c ?dev False (Suc 1) out dst off n 1 (headBytes ?c off) s = readBlk_unlocked ?c ?dev False out dst off n s"
    unfolding read_loop.simps(2) if_not_P [OF w] ..
  show ?thesis unfolding srp_read_def Let_def k loop using n(1) blk
    by (cases "readBlk_unlocked ?c ?dev False out dst off n s") (auto simp: bnd_def loop [unfolded One_nat_def] split: sum.splits simp del: read_loop.simps)
qed

end
