(* ===== verification/SrpExamples.thy ===== *)
theory SrpExamples
  imports SrpFaults
begin

text \<open>
  The properties of the network device at work: accesses of 26 and 27 bytes from offset 5 on, in two blocks, over a line that loses the first
  request and the third answer.
\<close>

definition ex_srp :: "srp_version \<Rightarrow> bool \<Rightarrow> srp" where
  "ex_srp v br = \<lparr>sr_host = LE, sr_protoVersion = v, sr_usrTimeout = to_set 1000, sr_useDynTimeout = True, sr_retryCnt = 2, sr_vc = 5,
     sr_tidMsk = 0xffffff, sr_tidLsb = 1, sr_byteResolution = br, sr_maxWordsRx = 4, sr_maxWordsTx = 4, sr_posted = False, sr_mtu = 16\<rparr>"

definition ex_srp_state :: "u8 list \<Rightarrow> srv_peer srp_state" where
  "ex_srp_state mem = \<lparr>ss_tid = 0, ss_dynTimeout = dt_create (to_set 1000), ss_nRetries = 0, ss_nWrites = 0, ss_nReads = 0,
     ss_dev = \<lparr>pe_mem = mem, pe_count = 0\<rparr>, ss_rx = []\<rparr>"

definition ex_link :: "nat \<Rightarrow> srp_version \<Rightarrow> srp_link" where
  "ex_link vers v = \<lparr>lk_vers = vers, lk_cfg = ex_srp v False, lk_byteres = False, lk_rbufsz = 65536, lk_lostReq = (\<lambda>k. k = 0),
     lk_lostAns = (\<lambda>k. k = 2), lk_clock = (\<lambda>_. (to_set 0, to_set 100))\<rparr>"

definition ex_bytes :: "nat \<Rightarrow> u8 list" where
  "ex_bytes n = map of_nat [0..<n]"

lemma ex_link_ok: "link_ok (ex_link 1 SRP_UDP_V1)" "link_ok (ex_link 3 SRP_UDP_V3)"
proof -
  have "alive (\<lambda>k. k = 0) (\<lambda>k. k = 2) k 2" for k
    unfolding alive_def by (cases "k = 0 \<or> k = 2") (auto intro: exI [of _ 1] exI [of _ 0])
  then have l: "line_ok (ex_srp v False) (\<lambda>k. k = 0) (\<lambda>k. k = 2)" for v by (simp add: line_ok_def ex_srp_def)
  then show "link_ok (ex_link 1 SRP_UDP_V1)" "link_ok (ex_link 3 SRP_UDP_V3)"
    by (auto simp: link_ok_def ex_link_def srp_ok_def) (auto simp: ex_srp_def)
qed

text \<open>Properties of SrpAccess at work: version 3, 26 bytes from offset 5 on, in two blocks.\<close>

theorem srp_read_dead_line_witness:
  "\<exists>s'. srp_read (ex_srp SRP_UDP_V3 False) (server 3 False 100 (\<lambda>_. True) (\<lambda>_. False) (\<lambda>_. (to_set 0, to_set 0))) False (replicate 26 0) 0 5 26
      (ex_srp_state (ex_bytes 64)) = (Inl (IOError ''No response -- timeout''), s')
    \<and> gave_up (ex_srp SRP_UDP_V3 False) (Suc 2) (ex_srp_state (ex_bytes 64)) s' \<and> pe_count (ss_dev s') = Suc 2
    \<and> ((\<forall>k. (\<lambda>_. True) k) \<longrightarrow> pe_mem (ss_dev s') = ex_bytes 64)"
  using srp_read_dead_line [of "\<lambda>_. True" "\<lambda>_. False" 26 "ex_srp SRP_UDP_V3 False" "ex_srp_state (ex_bytes 64)" 3 False 100 "\<lambda>_. (to_set 0, to_set 0)"
    "replicate 26 0" 0 5]
  by (simp add: ex_srp_def ex_srp_state_def)

theorem srp_attempts_own_answer_witness:
  "\<exists>t. extractTid ((ex_srp SRP_UDP_V2 False)\<lparr>sr_useDynTimeout := False\<rparr>) [7, 0, 0, 0, 1, 2, 3, 4] = Inr t
    \<and> tidMatch ((ex_srp SRP_UDP_V2 False)\<lparr>sr_useDynTimeout := False\<rparr>) t 7"
proof -
  let ?c = "(ex_srp SRP_UDP_V2 False)\<lparr>sr_useDynTimeout := False\<rparr>"
  let ?dev = "\<lambda>(d :: unit) m. ([([6, 0, 0, 0], to_set 0, to_set 0), ([7, 0, 0, 0, 1, 2, 3, 4], to_set 0, to_set 0)], d)"
  let ?s = "\<lparr>ss_tid = 6, ss_dynTimeout = dt_create (to_set 1000), ss_nRetries = 0, ss_nWrites = 0, ss_nReads = 0, ss_dev = (), ss_rx = []\<rparr>"
  have "srp_attempts ?c ?dev [] 7 [] 0 ?s = (Inr [7, 0, 0, 0, 1, 2, 3, 4], ?s)"
    by (simp add: bnd_def push_msg_def extractTid_def ex_srp_def msg_extract_def bytes_word_def join32_def needsHdrSwap_def toTid_def tidMatch_def)
  from srp_attempts_own_answer [OF this] show ?thesis .
qed

theorem srp_read_returns_witness:
  "\<exists>s'. srp_read (lk_cfg (ex_link 1 SRP_UDP_V1)) (link_dev (ex_link 1 SRP_UDP_V1)) False (replicate 30 0) 2 5 26 (ex_srp_state (ex_bytes 64))
    = (Inr (put_at 2 (get_at (unat (5 :: u64)) 26 (ex_bytes 64)) (replicate 30 0)), s') \<and> idle (ex_bytes 64) s'"
proof (rule srp_read_returns [OF ex_link_ok(1)])
  show "in_reach (ex_link 1 SRP_UDP_V1) (length (ex_bytes 64)) 5 26" "clean_start (lk_vers (ex_link 1 SRP_UDP_V1)) (lk_cfg (ex_link 1 SRP_UDP_V1)) 5 26"
    by (simp_all add: in_reach_def reachable_mem_def base_def span_def n_words_def headBytes_def ex_link_def ex_srp_def ex_bytes_def clean_start_def)
  show "idle (ex_bytes 64) (ex_srp_state (ex_bytes 64))" by (simp add: idle_def ex_srp_state_def)
qed simp

abbreviation ex_write :: "u64 \<Rightarrow> nat \<Rightarrow> u8 \<Rightarrow> u8 \<Rightarrow> io_write_args" where
  "ex_write off n m1 mn \<equiv> \<lparr>w_src = replicate n 0xee, w_off = off, w_nbytes = n, w_msk1 = m1, w_mskn = mn, w_cacheable = WB_CACHEABLE\<rparr>"

lemma ex_write_allowed: "link_allowed (ex_link 3 SRP_UDP_V3) 64 (RegWrite (ex_write 5 27 0xf 0))"
  by (simp add: in_reach_def reachable_mem_def base_def span_def n_words_def headBytes_def ex_link_def ex_srp_def merge_ok_def
      collapsed_def wants_merge_def sure_line_def is_posted_def)

lemma ex_srp_state_mem: "link_mem (ex_srp_state mem) = mem" "ss_rx (ex_srp_state mem) = []" "pe_mem (ss_dev (ex_srp_state mem)) = mem"
  by (simp_all add: link_mem_def ex_srp_state_def)

lemma ex_bytes_length [simp]: "length (ex_bytes n) = n"
  by (simp add: ex_bytes_def)

theorem srp_write_stores_witness:
  "\<exists>s'. srp_write (lk_cfg (ex_link 3 SRP_UDP_V3)) (link_dev (ex_link 3 SRP_UDP_V3)) (ex_write 5 27 0xf 0) (ex_srp_state (ex_bytes 64)) = (Inr 27, s')
    \<and> ss_rx s' = [] \<and> pe_mem (ss_dev s') = masked_write (unat (5 :: u64)) (replicate 27 0xee) 27 0xf 0 (ex_bytes 64)"
  using srp_write_stores [of "ex_link 3 SRP_UDP_V3" "ex_srp_state (ex_bytes 64)" "ex_write 5 27 0xf 0"] ex_link_ok(2) ex_write_allowed
  by (simp add: link_inv_def ex_srp_state_mem)

theorem srp_refines_memory_witness:
  "\<exists>s'. run_ops (link_rd (ex_link 3 SRP_UDP_V3)) (link_wr (ex_link 3 SRP_UDP_V3)) [RegWrite (ex_write 5 27 0xf 0), RegRead 3 9] (ex_srp_state (ex_bytes 64))
    = (Inr (fst (ref_ops [RegWrite (ex_write 5 27 0xf 0), RegRead 3 9] (ex_bytes 64))), s')
    \<and> link_mem s' = snd (ref_ops [RegWrite (ex_write 5 27 0xf 0), RegRead 3 9] (ex_bytes 64))"
proof -
  have "link_allowed (ex_link 3 SRP_UDP_V3) 64 (RegRead 3 9)"
    by (simp add: in_reach_def reachable_mem_def base_def span_def n_words_def headBytes_def ex_link_def ex_srp_def clean_start_def)
  then have a: "\<forall>x \<in> set [RegWrite (ex_write 5 27 0xf 0), RegRead 3 9]. link_allowed (ex_link 3 SRP_UDP_V3) (length (link_mem (ex_srp_state (ex_bytes 64)))) x"
    using ex_write_allowed by (simp del: link_allowed.simps add: ex_srp_state_mem)
  have i: "link_inv (ex_link 3 SRP_UDP_V3) (ex_srp_state (ex_bytes 64))" using ex_link_ok(2) by (simp add: link_inv_def ex_srp_state_mem)
  show ?thesis using srp_refines_memory [OF i a] unfolding ex_srp_state_mem .
qed

theorem srp_collapsed_write_fails_witness:
  "\<exists>s'. srp_write (lk_cfg (ex_link 3 SRP_UDP_V3)) (link_dev (ex_link 3 SRP_UDP_V3)) (ex_write 5 10 0 0) (ex_srp_state (ex_bytes 64))
    = (Inl (IOError ''Too many retries''), s') \<and> idle (ex_bytes 64) s'"
proof (rule srp_collapsed_write_fails [OF ex_link_ok(2)])
  show "in_reach (ex_link 3 SRP_UDP_V3) (length (ex_bytes 64)) (w_off (ex_write 5 10 0 0)) (w_nbytes (ex_write 5 10 0 0))"
    by (simp add: in_reach_def reachable_mem_def base_def span_def n_words_def headBytes_def ex_link_def ex_srp_def)
  show "idle (ex_bytes 64) (ex_srp_state (ex_bytes 64))" by (simp add: idle_def ex_srp_state_def)
qed (simp_all add: ex_link_def ex_srp_def is_posted_def collapsed_def wants_merge_def headBytes_def n_words_def)

theorem srp_v1_read_overruns_witness:
  "fst (srp_read (lk_cfg (ex_link 1 SRP_UDP_V1)) (link_dev (ex_link 1 SRP_UDP_V1)) False [0xff] 0 5 1 (ex_srp_state (ex_bytes 12)))
    = Inl (Undefined ''write behind the buffer'')"
proof (rule srp_v1_read_overruns [OF ex_link_ok(1)])
  show "in_reach (ex_link 1 SRP_UDP_V1) (length (ex_bytes 12)) 5 1"
    by (simp add: in_reach_def reachable_mem_def base_def span_def n_words_def headBytes_def ex_link_def ex_srp_def)
  show "idle (ex_bytes 12) (ex_srp_state (ex_bytes 12))" by (simp add: idle_def ex_srp_state_def)
qed (simp_all add: ex_link_def ex_srp_def headBytes_def)

end
