(* ===== verification/ByteMux.thy ===== *)
theory ByteMux
  imports Buf
begin

text \<open>
  Ports and the demultiplexer with up to 256 virtual channels which the TDEST and the SRP demultiplexers derive
  from: \<^verbatim>\<open>CPortImpl\<close> of \<^verbatim>\<open>src/src/cpsw_proto_mod.cc\<close>, \<^verbatim>\<open>CProtoModByteMux\<close> and \<^verbatim>\<open>CByteMuxPort\<close> of
  \<^verbatim>\<open>src/src/cpsw_proto_mod_bytemux.h\<close>. What a class derived from it has to provide (how the channel is
  found in a message, what a port does with a message) is the locale \<open>demux\<close>.
\<close>

section \<open>Ports\<close>

text \<open>\<open>po_out\<close> holds what was put into the queue of the port, the oldest first; \<open>po_queueUp\<close> tells whether the
  queue takes messages (the push waits until there is room, and fails when the queue is shut down).\<close>

record port =
  po_openCount :: int
  po_hasQueue :: bool
  po_queueUp :: bool
  po_out :: "chain list"

definition port_new :: "nat \<Rightarrow> port" where
  "port_new depth = \<lparr>po_openCount = 0, po_hasQueue = 0 < depth, po_queueUp = True, po_out = []\<rparr>"

definition port_isOpen :: "'a port_scheme \<Rightarrow> bool" where
  "port_isOpen p \<longleftrightarrow> po_openCount p \<noteq> 0"

definition port_open :: "'a port_scheme \<Rightarrow> 'a port_scheme" where
  "port_open p = p\<lparr>po_openCount := po_openCount p + 1\<rparr>"

definition port_pushDownstream :: "chain \<Rightarrow> ('a port_scheme, bool) sem" where
  "port_pushDownstream bc = reading id (\<lambda>p.
     if \<not> port_isOpen p then ret True
     else if po_hasQueue p
     then (if po_queueUp p then andThen (upd (\<lambda>p. p\<lparr>po_out := po_out p @ [bc]\<rparr>)) (ret True) else ret False)
     else raise (InternalError ''cannot push downstream without a queue''))"

text \<open>\<open>CPortImpl::push\<close>: what \<open>processOutput\<close> returns goes upstream, until nothing is left of the chain. The
  arguments are \<open>processOutput\<close>, which gives the part to be sent and the rest, and \<open>push\<close> of the upstream door; a loop
  of more than \<open>n\<close> rounds is \<open>Diverges\<close>.\<close>

fun push_loop :: "(chain \<Rightarrow> ('s, chain \<times> chain option) sem) \<Rightarrow> (chain \<Rightarrow> ('s, bool) sem) \<Rightarrow> nat \<Rightarrow> chain option \<Rightarrow> ('s, bool) sem" where
  "push_loop out up 0 bc = raise Diverges"
| "push_loop out up (Suc n) bc = (case bc of
     None \<Rightarrow> ret True
   | Some c \<Rightarrow> if c_size c = 0 then ret True
       else bnd (out c) (\<lambda>(part, rest). bnd (up part) (\<lambda>ok. if ok then push_loop out up n rest else ret False)))"

section \<open>The demultiplexer\<close>

definition DEST_MIN :: int where "DEST_MIN = 0"
definition DEST_MAX :: int where "DEST_MAX = 255"

text \<open>A slot with a weak pointer that has expired, or was never set, is \<open>None\<close>.\<close>

record 'p bytemux =
  bm_downstream :: "'p option list"
  bm_nPorts :: nat

definition bm_new :: "'p bytemux" where
  "bm_new = \<lparr>bm_downstream = replicate 256 None, bm_nPorts = 0\<rparr>"

definition bm_addPort :: "int \<Rightarrow> 'p \<Rightarrow> (('p, 'a) bytemux_scheme, unit) sem" where
  "bm_addPort dest port = reading bm_downstream (\<lambda>ds.
     if dest < DEST_MIN \<or> DEST_MAX < dest then raise (InvalidArgError ''Virtual channel number out of range'')
     else if ds ! nat dest \<noteq> None then raise (ConfigurationError ''Virtual channel already in use'')
     else upd (\<lambda>m. m\<lparr>bm_downstream := ds[nat (dest - DEST_MIN) := Some port], bm_nPorts := bm_nPorts m + 1\<rparr>))"

definition bm_findPort :: "int \<Rightarrow> ('p, 'a) bytemux_scheme \<Rightarrow> exn + 'p option" where
  "bm_findPort dest m =
     (if dest < DEST_MIN \<or> DEST_MAX < dest then Inl (InvalidArgError ''Destination channel number out of range'')
      else Inr (bm_downstream m ! nat (dest - DEST_MIN)))"

definition bm_port :: "('p, 'a) bytemux_scheme \<Rightarrow> nat \<Rightarrow> 'p option" where
  "bm_port m i = (if i < length (bm_downstream m) then bm_downstream m ! i else None)"

definition bm_setPort :: "nat \<Rightarrow> 'p \<Rightarrow> ('p, 'a) bytemux_scheme \<Rightarrow> ('p, 'a) bytemux_scheme" where
  "bm_setPort i p m = m\<lparr>bm_downstream := (bm_downstream m)[i := Some p]\<rparr>"

text \<open>\<open>pushDown\<close>; the arguments are the virtual \<open>extractDest\<close> and \<open>pushDownstream\<close> of the port.\<close>

definition bm_pushDown ::
  "(chain \<Rightarrow> exn + int) \<Rightarrow> (chain \<Rightarrow> ('p, bool) sem) \<Rightarrow> chain \<Rightarrow> (('p, 'a) bytemux_scheme, bool) sem" where
  "bm_pushDown extractDest portPush bc = bnd (liftR (extractDest bc)) (\<lambda>dest.
     if dest < DEST_MIN then ret False
     else reading (\<lambda>m. bm_downstream m ! nat dest) (\<lambda>prt. case prt of
         None \<Rightarrow> ret False
       | Some p \<Rightarrow> (\<lambda>m. case portPush bc p of (r, p') \<Rightarrow> (r, bm_setPort (nat dest) p' m))))"

text \<open>The thread, for the messages popped from upstream so far: an exception ends it.\<close>

fun bm_thread ::
  "(chain \<Rightarrow> exn + int) \<Rightarrow> (chain \<Rightarrow> ('p, bool) sem) \<Rightarrow> chain list \<Rightarrow> (('p, 'a) bytemux_scheme, unit) sem" where
  "bm_thread extractDest portPush [] = ret ()"
| "bm_thread extractDest portPush (bc # bcs) =
     bnd (bm_pushDown extractDest portPush bc) (\<lambda>_. bm_thread extractDest portPush bcs)"

definition bm_ok :: "('p, 'a) bytemux_scheme \<Rightarrow> bool" where
  "bm_ok m \<longleftrightarrow> length (bm_downstream m) = 256"

lemma bm_new_ok: "bm_ok bm_new \<and> (\<forall>i. bm_port bm_new i = None)"
  by (simp add: bm_ok_def bm_new_def bm_port_def)

lemma bm_setPort_ok [simp]: "bm_ok (bm_setPort i p m) \<longleftrightarrow> bm_ok m"
  by (simp add: bm_ok_def bm_setPort_def)

lemma bm_setPort_port:
  "bm_ok m \<Longrightarrow> i < 256 \<Longrightarrow> bm_port (bm_setPort i p m) j = (if j = i then Some p else bm_port m j)"
  by (simp add: bm_ok_def bm_setPort_def bm_port_def)

lemma bm_thread_append:
  "bm_thread ex pp (xs @ ys) = bnd (bm_thread ex pp xs) (\<lambda>_. bm_thread ex pp ys)"
  by (induction xs) (simp_all add: bnd_assoc)

text \<open>A port is added to a free slot in the range of the channels; the other slots stay as they are.\<close>

lemma bm_addPort_spec:
  assumes "bm_ok m" "0 \<le> dest" "dest \<le> 255" "bm_port m (nat dest) = None"
  shows "\<exists>m'. bm_addPort dest p m = (Inr (), m') \<and> bm_ok m' \<and> bm_nPorts m' = bm_nPorts m + 1
    \<and> (\<forall>i. bm_port m' i = (if i = nat dest then Some p else bm_port m i))"
  using assms by (auto simp: bm_addPort_def sem_app bm_ok_def bm_port_def DEST_MIN_def DEST_MAX_def nat_less_iff)

lemma bm_addPort_refused:
  assumes "bm_ok m" "dest < 0 \<or> 255 < dest \<or> bm_port m (nat dest) \<noteq> None"
  shows "\<exists>e. bm_addPort dest p m = (Inl e, m)"
  using assms by (auto simp: bm_addPort_def sem_app bm_ok_def bm_port_def DEST_MIN_def DEST_MAX_def split: if_splits)

lemma bm_findPort_spec:
  assumes "bm_ok m" "0 \<le> dest" "dest \<le> 255"
  shows "bm_findPort dest m = Inr (bm_port m (nat dest))"
  using assms by (auto simp: bm_findPort_def bm_ok_def bm_port_def DEST_MIN_def DEST_MAX_def nat_less_iff)

section \<open>The interface of the derived classes\<close>

locale demux =
  fixes extractDest :: "chain \<Rightarrow> exn + int"
    and portPush :: "chain \<Rightarrow> ('p, bool) sem"
  assumes dest_range: "extractDest bc = Inr dest \<Longrightarrow> dest \<le> 255"
begin

abbreviation "pushDown \<equiv> bm_pushDown extractDest portPush"
abbreviation "thread \<equiv> bm_thread extractDest portPush"

text \<open>What a port makes of the messages for its channel.\<close>

fun port_run :: "nat \<Rightarrow> chain list \<Rightarrow> 'p \<Rightarrow> 'p" where
  "port_run i [] p = p"
| "port_run i (bc # bcs) p = port_run i bcs (if extractDest bc = Inr (int i) then snd (portPush bc p) else p)"

lemma pushDown_cases:
  assumes "bm_ok m" "extractDest bc = Inr (int i)"
  shows "pushDown bc m = (case bm_port m i of None \<Rightarrow> (Inr False, m)
    | Some p \<Rightarrow> (case portPush bc p of (r, p') \<Rightarrow> (r, bm_setPort i p' m)))"
proof -
  have "i < 256" using dest_range [OF assms(2)] by simp
  then show ?thesis
    using assms by (auto simp: bm_pushDown_def bnd_def sem_app DEST_MIN_def bm_ok_def bm_port_def split: option.splits)
qed

lemma pushDown_port:
  assumes "bm_ok m" "pushDown bc m = (Inr b, m')"
  shows "bm_ok m' \<and> (\<forall>i. bm_port m' i = map_option (port_run i [bc]) (bm_port m i))"
proof (cases "extractDest bc")
  case (Inl e)
  then show ?thesis using assms(2) by (simp add: bm_pushDown_def bnd_def sem_app)
next
  case (Inr d)
  show ?thesis
  proof (cases "d < 0")
    case True
    then have "m' = m" using assms(2) Inr by (auto simp: bm_pushDown_def bnd_def sem_app DEST_MIN_def)
    moreover have "port_run i [bc] = (\<lambda>p. p)" for i using True Inr by auto
    ultimately show ?thesis using assms(1) by (simp add: option.map_ident del: port_run.simps)
  next
    case False
    then obtain k where d: "d = int k" "k < 256" using dest_range [OF Inr] zero_le_imp_eq_int by fastforce
    have eq: "port_run i [bc] = (if i = k then (\<lambda>p. snd (portPush bc p)) else (\<lambda>p. p))" for i
      using Inr d(1) by auto
    show ?thesis
    proof (cases "bm_port m k")
      case None
      then have "m' = m" using pushDown_cases [OF assms(1) Inr [unfolded d(1)]] assms(2) by simp
      then show ?thesis using None assms(1) by (auto simp: eq option.map_ident simp del: port_run.simps)
    next
      case (Some p)
      then have "m' = bm_setPort k (snd (portPush bc p)) m"
        using pushDown_cases [OF assms(1) Inr [unfolded d(1)]] assms(2) by (auto split: prod.splits)
      then show ?thesis
        using Some assms(1) d(2) by (auto simp: eq bm_setPort_port option.map_ident simp del: port_run.simps)
    qed
  qed
qed

text \<open>Each port gets the messages for its channel, in the order in which they come, and nothing else.\<close>

lemma thread_port:
  assumes "bm_ok m" "thread bcs m = (Inr (), m')"
  shows "bm_ok m' \<and> (\<forall>i. bm_port m' i = map_option (port_run i bcs) (bm_port m i))"
  using assms
proof (induction bcs arbitrary: m)
  case Nil
  then show ?case by (auto simp: ret_app option.map_ident)
next
  case (Cons bc bcs)
  then obtain b n where n: "pushDown bc m = (Inr b, n)" "thread bcs n = (Inr (), m')"
    by (auto simp: bnd_def split: prod.splits sum.splits)
  from pushDown_port [OF Cons.prems(1) n(1)] have 1: "bm_ok n" "\<And>i. bm_port n i = map_option (port_run i [bc]) (bm_port m i)"
    by blast+
  from Cons.IH [OF 1(1) n(2)] show ?case by (simp add: 1(2) option.map_comp comp_def)
qed

lemma port_run_other: "(\<And>bc. bc \<in> set bcs \<Longrightarrow> extractDest bc \<noteq> Inr (int i)) \<Longrightarrow> port_run i bcs p = p"
  by (induction bcs) auto

lemma port_run_filter: "port_run i bcs p = port_run i (filter (\<lambda>bc. extractDest bc = Inr (int i)) bcs) p"
  by (induction bcs arbitrary: p) auto

end

end
