(* ===== verification/Tdest2.thy ===== *)
theory Tdest2
  imports ByteMux PackTail Bufq Crc32
begin

text \<open>
  The TDEST demultiplexer of the second packetizer (\<^verbatim>\<open>src/src/cpsw_proto_mod_tdestmux2.cc\<close>): its ports reassemble the
  frames that come from upstream, and a thread (\<^verbatim>\<open>process\<close>) cuts the frames of all ports into fragments and sends them
  upstream, in turn. What is sent is appended to \<open>tm_up\<close>. The memory of a buffer from the free list is an argument.
\<close>

section \<open>Receiving\<close>

record tdest2_port = port +
  tp_dest :: int
  tp_stripHeader :: bool
  tp_inputQueue :: "chain bufq"
  tp_slot :: nat
  tp_assembleBuffer :: "chain option"
  tp_fragNo :: u32
  tp_badHeadersCnt :: u64
  tp_nonSeqFragCnt :: u64
  tp_goodRxFragCnt :: u64
  tp_goodRxFramCnt :: u64

text \<open>The constructor leaves \<^verbatim>\<open>fragNo_\<close> as it is: \<open>junk\<close>.\<close>

definition tp_new :: "int \<Rightarrow> bool \<Rightarrow> nat \<Rightarrow> nat \<Rightarrow> u32 \<Rightarrow> tdest2_port" where
  "tp_new dest stripHeader oQDepth iQDepth junk = port.extend (port_new oQDepth)
     \<lparr>tp_dest = dest, tp_stripHeader = stripHeader, tp_inputQueue = bufq_create iQDepth, tp_slot = 2 ^ 32 - 1,
      tp_assembleBuffer = None, tp_fragNo = junk, tp_badHeadersCnt = 0, tp_nonSeqFragCnt = 0,
      tp_goodRxFragCnt = 0, tp_goodRxFramCnt = 0\<rparr>"

text \<open>The copy of the tail. When the last buffer holds less than the tail the rest is copied from the address of the
  last buffer at an offset which is that of the buffer before it.\<close>

definition rx_tail :: "chain \<Rightarrow> exn + u8 list" where
  "rx_tail bc =
     (let t = last bc; tailsz = b_size t; tailcpy = min 8 tailsz; prevcpy = 8 - tailcpy;
          lo = take tailcpy (drop (tailsz - tailcpy) (b_view t))
      in if prevcpy = 0 then Inr lo
         else if butlast bc = [] then Inl (Undefined ''null buffer'')
         else let prevsz = b_size (last (butlast bc))
           in if prevsz < prevcpy then Inl InvalidHeader
              else if length (b_view t) < prevsz then Inl (Undefined ''read behind the buffer'')
              else Inr (take prevcpy (drop (prevsz - prevcpy) (b_view t)) @ lo))"

text \<open>The loop that trims the tail, over the buffers from the last one on.\<close>

fun rx_strip :: "nat \<Rightarrow> chain \<Rightarrow> exn + chain" where
  "rx_strip n [] = (if n = 0 then Inr [] else Inl (Undefined ''null buffer''))"
| "rx_strip n (t # r) =
     (if n = 0 then Inr (t # r)
      else let l = min n (b_size t)
        in case b_setSize (b_size t - l) t of
             (Inl e, _) \<Rightarrow> Inl e
           | (Inr _, t') \<Rightarrow> map_sum id ((#) t') (rx_strip (n - l) r))"

text \<open>The checks and the trimming of a fragment: whether it is the first and the last one of its frame, its number, and
  what is left of it.\<close>

definition rx_fragment :: "bool \<Rightarrow> chain \<Rightarrow> exn + bool \<times> bool \<times> u32 \<times> chain" where
  "rx_fragment stripHeader bc = (case bc of
     [] \<Rightarrow> Inl (Undefined ''null buffer'')
   | b # r \<Rightarrow>
     (case d2_of (b_view b) (b_size b) of Inl e \<Rightarrow> Inl e
      | Inr hdr \<Rightarrow>
        if c_size bc < 8 + 8 then Inl InvalidHeader
        else let sof = d2_isFirst (b_view b)
          in case rx_tail bc of Inl e \<Rightarrow> Inl e
             | Inr tail \<Rightarrow>
               let eof = parseTailEOF DEPACK2 tail
               in case parseNumLanes tail of Inl e \<Rightarrow> Inl e
                  | Inr numLanes \<Rightarrow>
                    let bc1 = (if stripHeader \<or> \<not> sof then snd (b_adjPayload 8 b) # r else bc)
                    in if stripHeader \<or> \<not> eof
                       then let strip = 2 * 8 - unat numLanes
                         in if c_size bc1 < strip then Inl InvalidHeader
                            else case rx_strip strip (rev bc1) of Inl e \<Rightarrow> Inl e
                              | Inr rc \<Rightarrow> Inr (sof, eof, ph_fragNo hdr, rev rc)
                       else Inr (sof, eof, ph_fragNo hdr, bc1)))"

definition rx_deliver :: "bool \<Rightarrow> (tdest2_port, bool) sem" where
  "rx_deliver eof =
     andThen (upd (\<lambda>p. p\<lparr>tp_goodRxFragCnt := tp_goodRxFragCnt p + 1\<rparr>))
       (if eof
        then reading tp_assembleBuffer (\<lambda>bc.
          andThen (upd (\<lambda>p. p\<lparr>tp_goodRxFramCnt := tp_goodRxFramCnt p + 1, tp_assembleBuffer := None\<rparr>))
            (case bc of None \<Rightarrow> raise (Undefined ''null chain'') | Some c \<Rightarrow> port_pushDownstream c))
        else ret True)"

definition rx_assemble :: "bool \<Rightarrow> bool \<Rightarrow> u32 \<Rightarrow> chain \<Rightarrow> (tdest2_port, bool) sem" where
  "rx_assemble sof eof fragNo bc =
     (if sof then andThen (upd (\<lambda>p. p\<lparr>tp_assembleBuffer := Some bc, tp_fragNo := 0\<rparr>)) (rx_deliver eof)
      else reading id (\<lambda>p. case tp_assembleBuffer p of
          None \<Rightarrow> andThen (upd (\<lambda>p. p\<lparr>tp_nonSeqFragCnt := tp_nonSeqFragCnt p + 1\<rparr>)) (ret True)
        | Some c \<Rightarrow>
          let n = tp_fragNo p + 1
          in if n AND (push_bit 16 1 - 1) \<noteq> fragNo
             then andThen (upd (\<lambda>p. p\<lparr>tp_fragNo := n, tp_nonSeqFragCnt := tp_nonSeqFragCnt p + 1, tp_assembleBuffer := None\<rparr>))
                    (ret True)
             else andThen (upd (\<lambda>p. p\<lparr>tp_assembleBuffer := Some (c @ bc), tp_fragNo := n\<rparr>)) (rx_deliver eof)))"

definition tp_pushDownstream :: "chain \<Rightarrow> (tdest2_port, bool) sem" where
  "tp_pushDownstream bc = reading tp_stripHeader (\<lambda>stripHeader.
     case rx_fragment stripHeader bc of
       Inr (sof, eof, fragNo, bc') \<Rightarrow> rx_assemble sof eof fragNo bc'
     | Inl e \<Rightarrow> if e = InvalidHeader
         then andThen (upd (\<lambda>p. p\<lparr>tp_badHeadersCnt := tp_badHeadersCnt p + 1\<rparr>)) (ret True)
         else raise e)"

definition td2_extractDest :: "chain \<Rightarrow> exn + int" where
  "td2_extractDest bc = (case bc of
     [] \<Rightarrow> Inl (Undefined ''null buffer'')
   | b # _ \<Rightarrow> map_sum id (\<lambda>d. int (unat d)) (parseTDest DEPACK2 (b_view b) (b_size b)))"

interpretation td2: demux td2_extractDest tp_pushDownstream
proof
  fix bc dest
  assume "td2_extractDest bc = Inr dest"
  then obtain d :: u8 where d: "dest = int (unat d)"
    by (auto simp: td2_extractDest_def split: list.splits sum.splits) (metis map_sum.simps old.sum.exhaust sum.sel(2) sum.distinct(1))
  have "unat d < 256" using unat_bound [of d] by simp
  then show "dest \<le> 255" unfolding d by linarith
qed

section \<open>Sending\<close>

record work2 =
  wk_bc :: "chain option"
  wk_fragNo :: u32
  wk_tdest :: int
  wk_inpQueueFill :: int
  wk_stripHeader :: bool
  wk_crc :: u32

definition wk_reset :: "chain \<Rightarrow> work2 \<Rightarrow> work2" where
  "wk_reset bc w = w\<lparr>wk_bc := Some bc, wk_fragNo := 0, wk_crc := - 1\<rparr>"

text \<open>\<open>tm_current\<close> and \<open>tm_noWork\<close> are the local variables of \<^verbatim>\<open>process\<close>; \<open>tm_upOk\<close> is what a push to the upstream
  door returns.\<close>

record tdest2 = "tdest2_port bytemux" +
  tm_work :: "work2 list"
  tm_numWork :: nat
  tm_goodTxFragCnt :: u64
  tm_goodTxFramCnt :: u64
  tm_badHeadersCnt :: u64
  tm_myMTUCached :: u32
  tm_current :: nat
  tm_noWork :: nat
  tm_upOk :: bool
  tm_up :: "chain list"

definition tm_setWork :: "nat \<Rightarrow> work2 \<Rightarrow> tdest2 \<Rightarrow> tdest2" where
  "tm_setWork k w m = m\<lparr>tm_work := (tm_work m)[k := w]\<rparr>"

text \<open>The loop that moves buffers to the chain of a new fragment.\<close>

fun tx_move :: "nat \<Rightarrow> chain \<Rightarrow> chain \<Rightarrow> exn + chain \<times> chain" where
  "tx_move mtu bc [] = Inl (Undefined ''null buffer'')"
| "tx_move mtu bc (b # r) = (if c_size bc + b_size b \<le> mtu then tx_move mtu (bc @ [b]) r else Inr (bc, b # r))"

text \<open>The next fragment and what remains; nothing remains (\<open>None\<close>) after the last one.\<close>

definition tx_take :: "nat \<Rightarrow> chain \<Rightarrow> exn + chain \<times> chain option" where
  "tx_take mtu c =
     (if c_size c \<le> mtu then Inr (c, None)
      else case tx_move mtu [] c of Inl e \<Rightarrow> Inl e
        | Inr (bc, r) \<Rightarrow>
          if bc = [] then Inl (InternalError ''Unable to fragment individual buffers (bufs > MTU)'') else Inr (bc, Some r))"

definition tx_theirs :: "d2_hdr \<Rightarrow> buf \<Rightarrow> exn + d2_hdr" where
  "tx_theirs hdr h = (case d2_of (b_view h) (b_size h) of Inl e \<Rightarrow> Inl e
     | Inr theirs \<Rightarrow> Inr (hdr\<lparr>ph_tUsr1 := ph_tUsr1 theirs, ph_tId := ph_tId theirs\<rparr>))"

definition tx_insert :: "d2_hdr \<Rightarrow> buf \<Rightarrow> exn + buf" where
  "tx_insert hdr h = (case d2_insert hdr (b_view h) (b_size h) of Inl e \<Rightarrow> Inl e | Inr v \<Rightarrow> Inr (b_setView v h))"

text \<open>Changes the memory of the last buffer from the position \<open>at\<close> on.\<close>

definition tx_on_tail :: "nat \<Rightarrow> (u8 list \<Rightarrow> u8 list) \<Rightarrow> chain \<Rightarrow> chain" where
  "tx_on_tail at f c = butlast c @ [(last c)\<lparr>b_data := take at (b_data (last c)) @ f (drop at (b_data (last c)))\<rparr>]"

definition tail_fill :: "u32 \<Rightarrow> u32 \<Rightarrow> bool \<Rightarrow> u8 list \<Rightarrow> u8 list" where
  "tail_fill numLanes tUsr2 eof t =
     insertTailEOF DEPACK2 eof (insertTUsr2 tUsr2 (insertNumLanes numLanes (iniTail DEPACK2 t)))"

text \<open>The chain with room for the tail, the position of the tail in the last buffer, and what goes in. (A chain whose
  own tail is not aligned is dropped: it has already been taken out of its slot, being the last fragment.)\<close>

definition tx_makeTail :: "bool \<Rightarrow> bool \<Rightarrow> u8 list \<Rightarrow> chain \<Rightarrow> exn + chain \<times> nat \<times> u32 \<times> u32" where
  "tx_makeTail stripHeader eof junk bc =
     (let t = last bc
      in if \<not> stripHeader \<and> eof
         then if \<not> tailIsAligned (of_nat (c_size bc)) then Inl InvalidHeader
              else if b_beg t + b_size t < 8 then Inl (Undefined ''tail before the buffer'')
              else let at = b_beg t + b_size t - 8
                in case parseNumLanes (drop at (b_data t)) of Inl e \<Rightarrow> Inl e
                   | Inr numLanes \<Rightarrow> Inr (bc, at, numLanes, parseTUsr2 (drop at (b_data t)))
         else let newSz = of_nat (c_size bc); algn = getTailPadding newSz; tailSz = algn + 8;
                  numLanes = (if newSz + tailSz \<le> 8 + 8 then 0 else 8 - algn)
           in if unat tailSz \<le> b_avail t
              then let tmpSz = b_size t + unat tailSz
                in case b_setSize tmpSz t of (Inl e, _) \<Rightarrow> Inl e
                   | (Inr _, t') \<Rightarrow> Inr (butlast bc @ [t'], b_beg t' + tmpSz - 8, numLanes, 0)
              else case b_setSize (unat tailSz) (b_fresh junk) of (Inl e, _) \<Rightarrow> Inl e
                   | (Inr _, t') \<Rightarrow> Inr (bc @ [t'], b_beg t' + unat algn, numLanes, 0))"

fun crc_bufs :: "u32 \<Rightarrow> nat \<Rightarrow> u8 list list \<Rightarrow> exn + u32" where
  "crc_bufs crc tot [] = Inl (Undefined ''null buffer'')"
| "crc_bufs crc tot (p # ps) =
     (let l = min (length p) tot; crc = crc32 crc (take l p)
      in if 0 < tot - l then crc_bufs crc (tot - l) ps else Inr crc)"

definition tx_crc :: "u32 \<Rightarrow> u32 \<Rightarrow> chain \<Rightarrow> exn + u32" where
  "tx_crc mode crc bc =
     (if mode = CRC_NONE then Inr 0
      else let ps = map b_payload bc
        in if mode = CRC_DATA then crc_bufs crc (c_size bc - (8 + 8)) (drop 8 (hd ps) # tl ps)
           else crc_bufs crc (c_size bc - 4) ps)"

text \<open>From the insertion of the header on.\<close>

definition tx_finish :: "nat \<Rightarrow> u8 list \<Rightarrow> bool \<Rightarrow> d2_hdr \<Rightarrow> chain \<Rightarrow> (tdest2, bool) sem" where
  "tx_finish k junk eof hdr bc = reading (\<lambda>m. tm_work m ! k) (\<lambda>w.
     bnd (liftR (tx_insert hdr (hd bc))) (\<lambda>h.
     bnd (liftR (tx_makeTail (wk_stripHeader w) eof junk (h # tl bc))) (\<lambda>(bc, at, numLanes, tUsr2).
     let bc = tx_on_tail at (tail_fill numLanes tUsr2 eof) bc in
     bnd (liftR (tx_crc (d2_crcMode hdr) (wk_crc w) bc)) (\<lambda>crc.
     let bc = tx_on_tail at (insertCrc (NOT crc)) bc in
     andThen (seqs [upd (tm_setWork k (w\<lparr>wk_crc := crc\<rparr>)),
       cond tm_upOk
         (upd (\<lambda>m. m\<lparr>tm_up := tm_up m @ [bc], tm_goodTxFragCnt := tm_goodTxFragCnt m + 1,
                 tm_goodTxFramCnt := tm_goodTxFramCnt m + (if eof then 1 else 0)\<rparr>))
         (ret ())])
       (ret eof)))))"

text \<open>Sends one fragment of the slot; the result tells whether it was the last one of its frame. \<open>adjPayload\<close> leaves the
  buffer alone when there is no room for a header before the payload; its result is not looked at.\<close>

definition sendFrag :: "u8 list \<Rightarrow> nat \<Rightarrow> (tdest2, bool) sem" where
  "sendFrag junk k = reading (\<lambda>m. (tm_work m ! k, unat (tm_myMTUCached m))) (\<lambda>(w, mtu).
     case wk_bc w of None \<Rightarrow> raise (Undefined ''null chain'')
     | Some c \<Rightarrow> bnd (liftR (tx_take mtu c)) (\<lambda>(bc, rest).
         let eof = (rest = None); hdr = d2_new (wk_fragNo w) (of_int (wk_tdest w));
             w = w\<lparr>wk_bc := rest, wk_fragNo := wk_fragNo w + 1\<rparr>
         in andThen (upd (tm_setWork k w))
              (case bc of [] \<Rightarrow> raise (Undefined ''null buffer'')
               | h # t \<Rightarrow>
                 if \<not> wk_stripHeader w \<and> wk_fragNo w = 1
                 then (case tx_theirs hdr h of
                     Inl e \<Rightarrow> andThen (upd (tm_setWork k (w\<lparr>wk_bc := None\<rparr>)))
                       (andThen (upd (\<lambda>m. m\<lparr>tm_badHeadersCnt := tm_badHeadersCnt m + 1\<rparr>)) (raise e))
                   | Inr hdr \<Rightarrow> tx_finish k junk eof hdr (h # t))
                 else tx_finish k junk eof hdr (snd (b_adjPayload (- 8) h) # t))))"

text \<open>A round of the loop of \<^verbatim>\<open>process\<close>. When no slot had work in a full turn the thread waits until something is
  put into one of the queues.\<close>

definition tm_noWorkHere :: "tdest2 \<Rightarrow> tdest2" where
  "tm_noWorkHere m = m\<lparr>tm_noWork := tm_noWork m + 1\<rparr>"

definition mux_turn :: "tdest2 \<Rightarrow> tdest2" where
  "mux_turn m = (let m = (if tm_noWork m = tm_numWork m then m\<lparr>tm_noWork := 0\<rparr> else m)
     in m\<lparr>tm_current := (if tm_numWork m \<le> tm_current m + 1 then 0 else tm_current m + 1)\<rparr>)"

definition mux_slot :: "u8 list \<Rightarrow> (tdest2, unit) sem" where
  "mux_slot junk = reading (\<lambda>m. (tm_current m, tm_work m ! tm_current m)) (\<lambda>(k, w).
     case wk_bc w of
       Some _ \<Rightarrow> bnd (sendFrag junk k) (\<lambda>_. upd (\<lambda>m. m\<lparr>tm_noWork := 0\<rparr>))
     | None \<Rightarrow> reading (bm_findPort (wk_tdest w)) (\<lambda>r. bnd (liftR r) (\<lambda>q. case q of
           None \<Rightarrow> upd tm_noWorkHere
         | Some p \<Rightarrow> (case tryPop (tp_inputQueue p) of (r, iq) \<Rightarrow>
             andThen (upd (bm_setPort (nat (wk_tdest w)) (p\<lparr>tp_inputQueue := iq\<rparr>)))
               (bnd (liftR r) (\<lambda>bc. case bc of
                  None \<Rightarrow> upd tm_noWorkHere
                | Some c \<Rightarrow> andThen (upd (tm_setWork k (wk_reset c w)))
                    (bnd (sendFrag junk k) (\<lambda>_. upd (\<lambda>m. m\<lparr>tm_noWork := 0\<rparr>)))))))))"

definition mux_round :: "u8 list \<Rightarrow> (tdest2, unit) sem" where
  "mux_round junk = andThen (upd mux_turn) (mux_slot junk)"

section \<open>The ports of the multiplexer\<close>

definition td2_getMTU :: "u32 \<Rightarrow> u32" where
  "td2_getMTU upstream = (let mtu = upstream - (8 + 2 * 8) in if sint mtu < 0 then 0 else mtu)"

text \<open>What is in the slots before they are used is not initialised.\<close>

definition td2_new :: "work2 list \<Rightarrow> bool \<Rightarrow> u32 \<Rightarrow> tdest2" where
  "td2_new junk upOk upMTU = bytemux.extend bm_new
     \<lparr>tm_work = map (\<lambda>w. w\<lparr>wk_bc := None, wk_inpQueueFill := 0\<rparr>) junk, tm_numWork = 0, tm_goodTxFragCnt = 0,
      tm_goodTxFramCnt = 0, tm_badHeadersCnt = 0, tm_myMTUCached = td2_getMTU upMTU, tm_current = 0, tm_noWork = 0,
      tm_upOk = upOk, tm_up = []\<rparr>"

definition td2_addPort :: "int \<Rightarrow> tdest2_port \<Rightarrow> (tdest2, unit) sem" where
  "td2_addPort dest port =
     andThen (bm_addPort dest port)
       (cond (\<lambda>m. length (tm_work m) \<le> tm_numWork m) (raise (Undefined ''slot out of range''))
         (upd (\<lambda>m. let k = tm_numWork m in
            bm_setPort (nat dest) (port\<lparr>tp_slot := k\<rparr>)
              (m\<lparr>tm_work := (tm_work m)[k := (tm_work m ! k)\<lparr>wk_tdest := tp_dest port, wk_stripHeader := tp_stripHeader port\<rparr>],
                 tm_numWork := k + 1\<rparr>))))"

definition td2_createPort :: "int \<Rightarrow> bool \<Rightarrow> nat \<Rightarrow> nat \<Rightarrow> u32 \<Rightarrow> (tdest2, unit) sem" where
  "td2_createPort dest stripHeader oQDepth iQDepth junk =
     td2_addPort dest (tp_new dest stripHeader oQDepth iQDepth junk)"

definition postWork :: "nat \<Rightarrow> tdest2 \<Rightarrow> tdest2" where
  "postWork k m = tm_setWork k ((tm_work m ! k)\<lparr>wk_inpQueueFill := wk_inpQueueFill (tm_work m ! k) + 1\<rparr>) m"

text \<open>\<open>tryPush\<close> of the port in the slot \<open>i\<close> of the demultiplexer, or \<open>push\<close> when it does not have to wait.\<close>

definition tp_tryPush :: "nat \<Rightarrow> chain \<Rightarrow> (tdest2, bool) sem" where
  "tp_tryPush i bc = reading (\<lambda>m. bm_downstream m ! i) (\<lambda>q. case q of
     None \<Rightarrow> raise (Undefined ''null port'')
   | Some p \<Rightarrow>
     if \<not> port_isOpen p then ret False
     else (case tryPush bc (tp_inputQueue p) of (r, iq) \<Rightarrow>
       andThen (upd (bm_setPort i (p\<lparr>tp_inputQueue := iq\<rparr>)))
         (bnd (liftR r) (\<lambda>ok. if ok then andThen (upd (postWork (tp_slot p))) (ret True) else ret False))))"

definition tp_open :: "nat \<Rightarrow> tdest2 \<Rightarrow> tdest2" where
  "tp_open i m = (case bm_downstream m ! i of None \<Rightarrow> m | Some p \<Rightarrow> bm_setPort i (port_open p) m)"

end
