(* ===== verification/Tdest2Rx.thy ===== *)
theory Tdest2Rx
  imports Tdest2
begin

text \<open>
  What the receiving port of the second packetizer makes of a fragment that is laid out as it should be: a header of
  8 bytes, the data, padding, and a tail of 8 bytes in the last buffer.
\<close>

section \<open>Only the first eight bytes of a header matter\<close>

lemma getNum_loop_cong: "(\<And>i. i < n \<Longrightarrow> p ! (k + i) = q ! (k + i)) \<Longrightarrow> getNum_loop k n p r = getNum_loop k n q r"
  by (induction n arbitrary: r) auto

lemma getNum_take:
  assumes "take 8 p = take 8 q" "off div 8 + (off mod 8 + n + 7) div 8 \<le> 8"
  shows "getNum off n p = getNum off n q"
proof -
  have "p ! i = q ! i" if "i < 8" for i using assms(1) that by (metis nth_take)
  then have "getNum_loop (off div 8) ((off mod 8 + n + 7) div 8) p 0 = getNum_loop (off div 8) ((off mod 8 + n + 7) div 8) q 0"
    using assms(2) by (intro getNum_loop_cong) auto
  then show ?thesis by (simp add: getNum_def Let_def)
qed

lemma nth_take_8: "take 8 p = take 8 q \<Longrightarrow> i < 8 \<Longrightarrow> p ! i = q ! i"
  by (metis nth_take)

lemma d2_parse_cong: "take 8 p = take 8 q \<Longrightarrow> d2_parse p s h = d2_parse q s h"
  by (simp add: d2_parse_def ph_parse_def DEPACK2_def Let_def getNum_take [of p q])

lemma d2_of_cong: "take 8 p = take 8 q \<Longrightarrow> d2_of p s = d2_of q s"
  by (simp add: d2_of_def d2_parse_cong [of p q])

lemma d2_isFirst_cong: "take 8 p = take 8 q \<Longrightarrow> d2_isFirst p = d2_isFirst q"
  by (simp add: d2_isFirst_def nth_take_8 [of p q])

lemma bit_u8_less: "bit (b :: u8) n \<Longrightarrow> n < 8"
  using bit_imp_le_length [of b n] by simp

lemma parseVersion_getNum: "parseVersion p = ucast (getNum 0 4 p)"
proof -
  have "(push_bit n 1 - 1 :: u32) = mask n" for n by (simp add: push_bit_of_1)
  note m = this
  show ?thesis
    unfolding parseVersion_def m by (rule bit_word_eqI) (auto simp: getNum_bits lbit_def bit_simps)
qed

lemma getNum_byte: "getNum (8 * k) 8 p = ucast (p ! k)"
proof (rule bit_word_eqI)
  fix n
  show "bit (getNum (8 * k) 8 p) n = bit (ucast (p ! k) :: u64) n" if "n < LENGTH(64)"
    using that bit_u8_less [of "p ! k" n] by (auto simp: getNum_bits lbit_def bit_simps)
qed

lemma ucast_ucast_u8: "ucast (ucast (b :: u8) :: u64) = b"
  by (rule bit_word_eqI) (auto simp: bit_simps)

text \<open>A header that parses gives its destination to the demultiplexer.\<close>

lemma d2_parse_dest:
  assumes "d2_parse p s h = (True, h')"
  shows "parseTDest DEPACK2 p s = Inr (ph_tDest h')"
proof -
  have v: "ucast (getNum 0 4 p) = (2 :: u32)" and s: "8 \<le> s"
    and h': "ph_tDest h' = ucast (getNum 16 8 p)"
    using assms by (auto simp: d2_parse_def ph_parse_def DEPACK2_def HEADER_SIZE_def Let_def split: if_splits prod.splits bool.splits)
  have "ph_tDest h' = p ! 2" unfolding h' using getNum_byte [of 2 p] by (simp add: ucast_ucast_u8)
  then show ?thesis using v s by (simp add: parseTDest_def DEPACK2_def HEADER_SIZE_def parseVersion_getNum)
qed

section \<open>The tail\<close>

lemma parseTailEOF_take: "parseTailEOF DEPACK2 (take 8 t) = parseTailEOF DEPACK2 t"
  by (simp add: parseTailEOF_def DEPACK2_def)

lemma parseNumLanes_take: "parseNumLanes (take 8 t) = parseNumLanes t"
proof -
  have "getNum 16 4 (take 8 t) = getNum 16 4 t" by (rule getNum_take) simp_all
  then show ?thesis by (simp add: parseNumLanes_def)
qed

lemma ly_lastBit_DEPACK2: "ly_lastBit DEPACK2 = 8"
  by (simp add: DEPACK2_def)

lemma iniTail_length: "8 \<le> length t \<Longrightarrow> length (iniTail DEPACK2 t) = length t"
  by (simp add: iniTail_def DEPACK2_def)

lemma tail_fill_length: "8 \<le> length t \<Longrightarrow> length (tail_fill n u eof t) = length t"
  by (simp add: tail_fill_def insertTailEOF_def Let_def insertTUsr2_def insertNumLanes_def iniTail_length)

lemma setNum_drop_8: "off + n \<le> 64 \<Longrightarrow> 8 \<le> length p \<Longrightarrow> off mod 8 + n \<le> 64 \<Longrightarrow> drop 8 (setNum off n v p) = drop 8 p"
  by (rule setNum_drop) auto

lemma tail_fill_drop:
  assumes "8 \<le> length t"
  shows "drop 8 (tail_fill n u eof t) = drop 8 t"
proof -
  have l: "8 \<le> length (iniTail DEPACK2 t)" "8 \<le> length (setNum 16 4 (ucast n) (iniTail DEPACK2 t))"
    using assms by (simp_all add: iniTail_length)
  have "drop 8 (iniTail DEPACK2 t) = drop 8 t" by (simp add: iniTail_def DEPACK2_def)
  then show ?thesis
    using setNum_drop_8 [of 16 4, OF _ l(1), of "ucast n"] setNum_drop_8 [of 0 8, OF _ l(2), of "ucast u"]
    by (simp add: tail_fill_def insertTailEOF_def Let_def insertTUsr2_def insertNumLanes_def ly_lastBit_DEPACK2)
qed

lemma insertCrc_length: "length (insertCrc c t) = length t"
  by (simp add: insertCrc_def)

lemma insertCrc_drop: "8 \<le> length t \<Longrightarrow> drop 8 (insertCrc c t) = drop 8 t"
  unfolding insertCrc_def by (rule setNum_drop_8) simp_all

lemma parseTailEOF_lbit: "parseTailEOF DEPACK2 t = lbit t 8"
  by (simp add: parseTailEOF_def DEPACK2_def tail_mask_def lbit_def and_one_eq odd_iff_mod_2_eq_one bit_0)

text \<open>What \<open>tail_fill\<close> and \<open>insertCrc\<close> write reads back.\<close>

lemma tail_reads_back:
  fixes n u crc :: u32 and eof :: bool
  assumes "8 \<le> length t" "unat n \<le> 8"
  defines "r \<equiv> insertCrc crc (tail_fill n u eof t)"
  shows "parseTailEOF DEPACK2 r = eof" "parseNumLanes r = Inr n"
proof -
  let ?z = "iniTail DEPACK2 t"
  let ?a = "insertTUsr2 u (insertNumLanes n ?z)"
  have len: "length ?z = length t" "length ?a = length t" "length (tail_fill n u eof t) = length t"
    using assms(1) by (simp_all add: iniTail_length insertTUsr2_def insertNumLanes_def tail_fill_length)
  have "lbit r 8 = lbit (tail_fill n u eof t) 8"
    using setNum_bits [of 32 32 "tail_fill n u eof t"] assms(1) len by (simp add: r_def insertCrc_def)
  moreover have "lbit (tail_fill n u eof t) 8 = eof"
    using getTail_eof [of ?a eof] assms(1) len by (simp add: tail_fill_def flip: parseTailEOF_lbit)
  ultimately show "parseTailEOF DEPACK2 r = eof" by (simp add: parseTailEOF_lbit)
  have "getNum 16 4 r = getNum 16 4 (tail_fill n u eof t)"
    using assms(1) len by (simp add: r_def insertCrc_def getNum_setNum_other)
  also have "\<dots> = take_bit 4 (ucast n)"
    using assms(1) len
    by (simp add: tail_fill_def insertTailEOF_def Let_def ly_lastBit_DEPACK2 getNum_update_other insertTUsr2_def
        insertNumLanes_def getNum_setNum getNum_setNum_other)
  finally have g: "getNum 16 4 r = take_bit 4 (ucast n)" .
  have "n < push_bit 4 1" using assms(2) unfolding word_less_nat_alt by (simp add: push_bit_of_1)
  then have "(ucast (getNum 16 4 r) :: u32) = n"
    unfolding g by (intro fits_u32 [OF take_bit_small]) simp_all
  moreover have "\<not> 8 < n" using assms(2) unfolding word_less_nat_alt by simp
  ultimately show "parseNumLanes r = Inr n" by (simp add: parseNumLanes_def Let_def)
qed

section \<open>Buffers\<close>

text \<open>Making a buffer shorter, or its payload begin later or earlier.\<close>

lemma b_size_ok: "b_ok b \<Longrightarrow> b_size b = b_end b - b_beg b \<and> b_beg b + b_size b = b_end b \<and> b_end b \<le> length (b_data b)"
  by (auto simp: b_ok_def b_size_def b_capa_def)

lemma payload_data: "b_ok b \<Longrightarrow> b_payload b = drop (b_beg b) (take (b_end b) (b_data b))"
  by (simp add: b_payload_def b_view_def b_size_ok drop_take)

lemma shrink_buf:
  assumes "b_ok b" "n \<le> b_size b"
  shows "\<exists>b'. b_setSize (b_size b - n) b = (Inr (), b') \<and> b_ok b' \<and> b_size b' = b_size b - n
    \<and> b_payload b' = take (b_size b - n) (b_payload b)"
proof -
  let ?b = "b\<lparr>b_end := b_end b - n\<rparr>"
  note z = b_size_ok [OF assms(1)]
  have c: "b_end b \<le> 65535" "b_beg b \<le> b_end b" using assms(1) z by (auto simp: b_ok_def b_capa_def)
  have e: "b_beg b + (b_size b - n) = b_end b - n" using z assms(2) by linarith
  have "b_end b - n < 2 ^ 32" "\<not> length (b_data b) < b_end b - n" using c z by auto
  then have "b_setSize (b_size b - n) b = (Inr (), ?b)"
    using z e by (simp add: b_setSize_def sem_app Let_def b_capa_def)
  moreover have ok: "b_ok ?b" using assms z by (auto simp: b_ok_def b_capa_def)
  moreover have "b_size ?b = b_size b - n" using b_size_ok [OF ok] z by simp
  moreover have "b_payload ?b = take (b_size b - n) (b_payload b)"
  proof -
    have e': "b_size b - n + b_beg b = b_end b - n" using e by (simp only: add.commute)
    show ?thesis
      by (simp only: payload_data [OF ok] payload_data [OF assms(1)] take_drop take_take e') simp
  qed
  ultimately show ?thesis by blast
qed

lemma advance_buf:
  assumes "b_ok b" "8 \<le> b_size b"
  shows "\<exists>b'. b_adjPayload 8 b = (Inr True, b') \<and> b_ok b' \<and> b_size b' = b_size b - 8 \<and> b_payload b' = drop 8 (b_payload b)"
proof -
  let ?b = "b\<lparr>b_beg := b_beg b + 8\<rparr>"
  note z = b_size_ok [OF assms(1)]
  have c: "b_end b \<le> 65535" using assms(1) z by (auto simp: b_ok_def b_capa_def)
  then have "nat ((int (b_beg b) + 8) mod 2 ^ 16) = b_beg b + 8"
    using z assms(2) by (simp add: nat_mod_distrib nat_add_distrib)
  then have "b_adjPayload 8 b = (Inr True, ?b)"
    using z assms(2) by (simp add: b_adjPayload_def sem_app)
  moreover have ok: "b_ok ?b" using assms z by (auto simp: b_ok_def b_capa_def)
  moreover have "b_size ?b = b_size b - 8" using b_size_ok [OF ok] z by simp
  moreover have "b_payload ?b = drop 8 (b_payload b)"
    by (simp add: payload_data [OF ok] payload_data [OF assms(1)] add.commute)
  ultimately show ?thesis by blast
qed

text \<open>Trimming the tail takes the last bytes off the chain.\<close>

lemma rx_strip_bytes:
  assumes "c_ok r" "n \<le> c_size r"
  shows "\<exists>r'. rx_strip n r = Inr r' \<and> c_ok r' \<and> c_bytes (rev r') = take (c_size r - n) (c_bytes (rev r)) \<and> length r' = length r"
  using assms
proof (induction n r rule: rx_strip.induct)
  case (2 n t r)
  have len: "length (c_bytes (rev r)) = c_size r" using 2(2) by (simp add: length_c_bytes c_ok_def c_size_def rev_map [symmetric])
  show ?case
  proof (cases "n = 0")
    case True
    then show ?thesis using 2(2) len by (simp add: c_ok_def)
  next
    case False
    let ?l = "min n (b_size t)"
    have t: "b_ok t" "c_ok r" using 2(2) by simp_all
    from shrink_buf [OF t(1), of ?l] obtain t' where t': "b_setSize (b_size t - ?l) t = (Inr (), t')" "b_ok t'"
      "b_payload t' = take (b_size t - ?l) (b_payload t)" by auto
    have "n - ?l \<le> c_size r" using 2(3) by auto
    from "2.IH" [OF False refl t'(1) [symmetric] refl t(2) this]
    obtain r' where r': "rx_strip (n - ?l) r = Inr r'" "c_ok r'" "c_bytes (rev r') = take (c_size r - (n - ?l)) (c_bytes (rev r))"
      "length r' = length r" by auto
    have "take (c_size r - (n - ?l)) (c_bytes (rev r)) @ take (b_size t - ?l) (b_payload t)
      = take (b_size t + c_size r - n) (c_bytes (rev r) @ b_payload t)"
    proof (cases "n \<le> b_size t")
      case True
      then show ?thesis using len by simp
    next
      case False
      then show ?thesis using len by (simp add: add.commute)
    qed
    then show ?thesis using False t' r' by simp
  qed
qed auto

section \<open>A fragment as it should be\<close>

definition frag_ok :: "chain \<Rightarrow> int \<Rightarrow> u32 \<Rightarrow> bool \<Rightarrow> bool \<Rightarrow> u8 list \<Rightarrow> bool" where
  "frag_ok f dest fragNo sof eof payload \<longleftrightarrow>
     c_ok f \<and> f \<noteq> [] \<and> 8 \<le> b_size (hd f) \<and> 8 \<le> b_size (last f) \<and> d2_isFirst (b_view (hd f)) = sof
     \<and> (\<exists>hdr. (\<forall>h s. 8 \<le> s \<longrightarrow> d2_parse (b_view (hd f)) s h = (True, hdr)) \<and> ph_fragNo hdr = fragNo \<and> int (unat (ph_tDest hdr)) = dest)
     \<and> (\<exists>H pad T n. c_bytes f = H @ payload @ pad @ T \<and> length H = 8 \<and> length T = 8 \<and> unat n \<le> 8
          \<and> parseTailEOF DEPACK2 T = eof \<and> parseNumLanes T = Inr n \<and> length pad + unat n = 8)"

lemma c_size_rev: "c_size (rev c) = c_size c"
  by (simp add: c_size_def rev_map [symmetric])

lemma c_ok_rev: "c_ok (rev c) = c_ok c"
  by (simp add: c_ok_def)

lemma rx_tail_last:
  assumes "c_ok f" "f \<noteq> []" "8 \<le> b_size (last f)"
  shows "rx_tail f = Inr (drop (c_size f - 8) (c_bytes f))"
proof -
  have f: "f = butlast f @ [last f]" using assms(2) by simp
  then have ok: "b_ok (last f)" "c_ok (butlast f)" using assms(1) by (metis c_ok_simps)+
  have "c_bytes f = c_bytes (butlast f) @ b_payload (last f)" "c_size f = c_size (butlast f) + b_size (last f)"
    by (subst f, simp)+
  then have "drop (c_size f - 8) (c_bytes f) = drop (b_size (last f) - 8) (b_payload (last f))"
    using assms(3) ok by (simp add: length_c_bytes)
  also have "\<dots> = take 8 (drop (b_size (last f) - 8) (b_view (last f)))"
    using assms(3) by (simp add: b_payload_def take_drop)
  finally show ?thesis using assms(3) by (simp add: rx_tail_def Let_def min_absorb1)
qed

lemma rx_fragment_ok:
  assumes "frag_ok f dest fragNo sof eof payload"
  shows "td2_extractDest f = Inr dest"
    and "\<exists>f'. rx_fragment True f = Inr (sof, eof, fragNo, f') \<and> c_ok f' \<and> c_bytes f' = payload"
proof -
  obtain b r where f: "f = b # r" using assms by (cases f) (auto simp: frag_ok_def)
  from assms obtain hdr H pad T n where a: "c_ok f" "8 \<le> b_size b" "8 \<le> b_size (last f)" "d2_isFirst (b_view b) = sof"
    "\<And>h s. 8 \<le> s \<Longrightarrow> d2_parse (b_view b) s h = (True, hdr)" "ph_fragNo hdr = fragNo" "int (unat (ph_tDest hdr)) = dest"
    "c_bytes f = H @ payload @ pad @ T" "length H = 8" "length T = 8" "unat n \<le> 8"
    "parseTailEOF DEPACK2 T = eof" "parseNumLanes T = Inr n" "length pad + unat n = 8"
    by (auto simp: frag_ok_def f)
  have b: "b_ok b" "c_ok r" using a(1) by (simp_all add: f)
  show "td2_extractDest f = Inr dest"
    using d2_parse_dest [OF a(5), OF a(2)] a(7) by (simp add: td2_extractDest_def f)
  have sz: "c_size f = 8 + length payload + length pad + 8"
    using length_c_bytes [OF a(1)] a(8,9,10) by simp
  have "drop (c_size f - 8) (c_bytes f) = T" unfolding a(8) using sz a(9,10) by simp
  then have tl: "rx_tail f = Inr T" using rx_tail_last [OF a(1) _ a(3)] f by simp
  obtain b' where b': "b_adjPayload 8 b = (Inr True, b')" "b_ok b'" "b_size b' = b_size b - 8" "b_payload b' = drop 8 (b_payload b)"
    using advance_buf [OF b(1) a(2)] by blast
  let ?c = "b' # r"
  have c: "c_ok (rev ?c)" "c_size (rev ?c) = length payload + length pad + 8"
    using b b' sz a(2) by (simp_all add: c_ok_rev c_size_rev f c_ok_def del: rev.simps)
  have by8: "c_bytes ?c = payload @ pad @ T"
  proof -
    have "c_bytes ?c = drop 8 (c_bytes f)" using b' a(2) b by (simp add: f)
    then show ?thesis using a(8,9) by simp
  qed
  have "2 * 8 - unat n = length pad + 8" using a(11,14) by simp
  moreover obtain rc where rc: "rx_strip (length pad + 8) (rev ?c) = Inr rc" "c_ok rc"
    "c_bytes (rev rc) = take (c_size (rev ?c) - (length pad + 8)) (c_bytes ?c)"
    using rx_strip_bytes [OF c(1), of "length pad + 8"] c(2) by auto
  moreover have "d2_of (b_view b) (b_size b) = Inr hdr" using a(2,5) by (simp add: d2_of_def)
  moreover have "c_size ?c = length payload + length pad + 8" using c(2) by (simp only: c_size_rev)
  ultimately have "rx_fragment True f = Inr (sof, eof, fragNo, rev rc)"
    using sz tl a(4,6,12,13) b'(1) by (simp add: rx_fragment_def f Let_def del: rev.simps)
  moreover have "c_bytes (rev rc) = payload" unfolding rc(3) by8 c(2) by simp
  moreover have "c_ok (rev rc)" using rc(2) by (simp add: c_ok_rev)
  ultimately show "\<exists>f'. rx_fragment True f = Inr (sof, eof, fragNo, f') \<and> c_ok f' \<and> c_bytes f' = payload"
    by blast
qed

end
