(* ===== verification/Tdest2Tx.thy ===== *)
theory Tdest2Tx
  imports Tdest2Rx
begin

text \<open>
  The fragments which \<open>sendFrag\<close> sends: they are laid out as the receiver expects, carry the next bytes of the frame, fit
  into the MTU of the door upstream, and end in the complement of the CRC of all that was sent of the frame before.
\<close>

section \<open>Cutting\<close>

definition tx_ok :: "nat \<Rightarrow> chain \<Rightarrow> bool" where
  "tx_ok mtu c \<longleftrightarrow> c_ok c \<and> 0 < c_size c \<and> (\<forall>b \<in> set c. b_size b \<le> mtu \<and> 8 \<le> b_beg b)"

lemma tx_move_spec:
  assumes "mtu < c_size bc + c_size c" "c_size bc \<le> mtu"
  shows "\<exists>x y. tx_move mtu bc c = Inr (x, y) \<and> x @ y = bc @ c \<and> c_size x \<le> mtu \<and> y \<noteq> [] \<and> mtu < c_size x + b_size (hd y)"
  using assms
proof (induction mtu bc c rule: tx_move.induct)
  case (2 mtu bc b r)
  show ?case
  proof (cases "c_size bc + b_size b \<le> mtu")
    case True
    with "2.IH" "2.prems" show ?thesis by simp
  next
    case False
    with "2.prems" show ?thesis by simp
  qed
qed simp

lemma tx_take_spec:
  assumes "tx_ok mtu c"
  shows "\<exists>bc rest. tx_take mtu c = Inr (bc, rest) \<and> c = bc @ (case rest of None \<Rightarrow> [] | Some r \<Rightarrow> r)
    \<and> tx_ok mtu bc \<and> c_size bc \<le> mtu \<and> (\<forall>r. rest = Some r \<longrightarrow> tx_ok mtu r)"
proof (cases "c_size c \<le> mtu")
  case True
  then show ?thesis using assms by (simp add: tx_take_def)
next
  case False
  then obtain x y where xy: "tx_move mtu [] c = Inr (x, y)" "x @ y = c" "c_size x \<le> mtu" "y \<noteq> []" "mtu < c_size x + b_size (hd y)"
    using tx_move_spec [of mtu "[]" c] by auto
  have h: "hd y \<in> set c" "b_size (hd y) \<le> c_size y" using xy(2,4) by (auto simp: neq_Nil_conv)
  then have "b_size (hd y) \<le> mtu" using assms by (auto simp: tx_ok_def)
  then have pos: "0 < c_size x" "0 < b_size (hd y)" using xy(3,5) by linarith+
  then have "x \<noteq> []" by auto
  moreover have "tx_ok mtu x" "tx_ok mtu y"
    using assms pos h(2) by (auto simp: tx_ok_def xy(2) [symmetric])
  ultimately show ?thesis using False xy by (auto simp: tx_take_def)
qed

section \<open>The header\<close>

lemma retreat_buf:
  assumes "b_ok b" "8 \<le> b_beg b"
  shows "\<exists>b' j. snd (b_adjPayload (- 8) b) = b' \<and> b_ok b' \<and> b_size b' = b_size b + 8 \<and> length j = 8
    \<and> b_payload b' = j @ b_payload b \<and> b_avail b' = b_avail b \<and> b_beg b' = b_beg b - 8"
proof -
  let ?b = "b\<lparr>b_beg := b_beg b - 8\<rparr>"
  note z = b_size_ok [OF assms(1)]
  have c: "b_end b \<le> 65535" "b_beg b \<le> b_end b" using assms(1) z by (auto simp: b_ok_def b_capa_def)
  have "int (b_beg b) - 8 = int (b_beg b - 8)" "b_beg b - 8 < 2 ^ 16" using assms(2) c by auto
  then have "nat ((int (b_beg b) - 8) mod 2 ^ 16) = b_beg b - 8"
    by (metis mod_less nat_int zmod_int of_nat_numeral of_nat_power)
  then have "snd (b_adjPayload (- 8) b) = ?b"
    using z assms(2) c by (simp add: b_adjPayload_def sem_app)
  moreover have ok: "b_ok ?b" using assms z by (auto simp: b_ok_def b_capa_def)
  moreover have "b_size ?b = b_size b + 8" using b_size_ok [OF ok] z assms(2) c by simp
  moreover obtain j where "length j = 8" "b_payload ?b = j @ b_payload b"
  proof
    have "drop 8 (b_payload ?b) = b_payload b"
      using assms(2) by (simp add: payload_data [OF ok] payload_data [OF assms(1)])
    then show "b_payload ?b = take 8 (b_payload ?b) @ b_payload b" by (metis append_take_drop_id)
    show "length (take 8 (b_payload ?b)) = 8"
      using length_payload [OF ok] \<open>b_size ?b = b_size b + 8\<close> by simp
  qed
  ultimately show ?thesis by (auto simp: b_avail_def b_capa_def)
qed

lemma take_payload: "8 \<le> b_size b \<Longrightarrow> take 8 (b_payload b) = take 8 (b_view b)"
  by (simp add: b_payload_def min_absorb1)

lemma tx_insert_spec:
  assumes "b_ok h" "8 \<le> b_size h" "ph_vers hdr = 2" "d2_crcMode hdr < push_bit 4 1"
  shows "\<exists>h'. tx_insert hdr h = Inr h' \<and> b_ok h' \<and> b_size h' = b_size h \<and> b_beg h' = b_beg h \<and> b_avail h' = b_avail h
    \<and> drop 8 (b_payload h') = drop 8 (b_payload h)
    \<and> (\<forall>s q. 8 \<le> s \<longrightarrow> d2_parse (b_view h') s q = (True, hdr\<lparr>ph_fragNo := take_bit 16 (ph_fragNo hdr)\<rparr>))
    \<and> (d2_isFirst (b_view h') \<longleftrightarrow> ph_fragNo hdr = 0)"
proof -
  have "8 \<le> length (b_view h)" using b_size_le_view [OF assms(1)] assms(2) by simp
  from d2_insert_parse [OF this assms(2-4)] obtain v where v: "d2_insert hdr (b_view h) (b_size h) = Inr v"
    "length v = length (b_view h)" "drop 8 v = drop 8 (b_view h)"
    "\<And>s q. 8 \<le> s \<Longrightarrow> d2_parse v s q = (True, hdr\<lparr>ph_fragNo := take_bit 16 (ph_fragNo hdr)\<rparr>)"
    "d2_isFirst v \<longleftrightarrow> ph_fragNo hdr = 0" by auto
  let ?h = "b_setView v h"
  have ok: "b_ok ?h" "b_view ?h = v" "b_size ?h = b_size h" using assms(1) v(2) by simp_all
  have "drop 8 (b_payload ?h) = drop 8 (b_payload h)"
    using v(3) by (simp add: b_payload_def ok drop_take)
  moreover have "b_avail ?h = b_avail h"
    using capa_setView [OF assms(1) v(2)] by (simp add: b_avail_def)
  ultimately show ?thesis
    using v(1,4,5) ok by (simp add: tx_insert_def)
qed

section \<open>The CRC\<close>

lemma crc_bufs_spec:
  "ps \<noteq> [] \<Longrightarrow> tot \<le> length (concat ps) \<Longrightarrow> crc_bufs crc tot ps = Inr (crc32 crc (take tot (concat ps)))"
proof (induction crc tot ps rule: crc_bufs.induct)
  case (2 crc tot p ps)
  show ?case
  proof (cases "0 < tot - min (length p) tot")
    case True
    then have l: "min (length p) tot = length p" by auto
    then have "ps \<noteq> []" using True "2.prems" by auto
    moreover have "tot - length p \<le> length (concat ps)" using "2.prems" True by simp
    ultimately show ?thesis using "2.IH" [OF refl refl] True l by (simp add: Let_def crc32_append)
  next
    case False
    then show ?thesis by (simp add: Let_def)
  qed
qed simp

lemma tx_crc_full:
  assumes "c_ok c" "c \<noteq> []"
  shows "tx_crc CRC_FULL crc c = Inr (crc32 crc (take (c_size c - 4) (c_bytes c)))"
proof -
  have "c_size c - 4 \<le> length (concat (map b_payload c))" using length_c_bytes [OF assms(1)] by (simp add: c_bytes_def)
  from crc_bufs_spec [OF _ this, of crc] show ?thesis
    using assms(2) by (simp add: tx_crc_def CRC_FULL_def CRC_NONE_def CRC_DATA_def c_bytes_def)
qed

definition crc_be :: "u32 \<Rightarrow> u8 list" where
  "crc_be c = [ucast (drop_bit 24 c), ucast (drop_bit 16 c), ucast (drop_bit 8 c), ucast c]"

lemma insertCrc_bytes:
  assumes "8 \<le> length t"
  shows "take 8 (insertCrc c t) = take 4 t @ crc_be c"
proof -
  have bits: "lbit (insertCrc c t) k = (if 32 \<le> k then bit (ucast (bswap32 c) :: u64) (k - 32) else lbit t k)" if "k < 64" for k
    using setNum_bits [of 32 32 t "ucast (bswap32 c)"] assms that by (simp add: insertCrc_def)
  have nth: "insertCrc c t ! i = (take 4 t @ crc_be c) ! i" if "i < 8" for i
  proof (rule bit_word_eqI)
    fix j
    assume "j < LENGTH(8)"
    then have j: "j < 8" by simp
    then have k: "8 * i + j < 64" "(8 * i + j) div 8 = i" "(8 * i + j) mod 8 = j" using that by auto
    have l: "bit (insertCrc c t ! i) j = lbit (insertCrc c t) (8 * i + j)" using k by (simp add: lbit_def)
    show "bit (insertCrc c t ! i) j = bit ((take 4 t @ crc_be c) ! i) j"
    proof (cases "i < 4")
      case True
      then have "8 * i + j < 32" using j by simp
      then show ?thesis using True assms k unfolding l bits [OF k(1)] by (simp add: lbit_def nth_append)
    next
      case False
      then have "i = 4 \<or> i = 5 \<or> i = 6 \<or> i = 7" using that by auto
      then show ?thesis
        unfolding l bits [OF k(1)] using j assms
        by (elim disjE) (simp_all add: nth_append crc_be_def bswap32_def join32_def bit_simps)
    qed
  qed
  show ?thesis
    by (rule nth_equalityI) (use assms nth in \<open>simp_all add: insertCrc_length crc_be_def\<close>)
qed

section \<open>The tail\<close>

lemma grow_buf:
  assumes "b_ok b" "k \<le> b_avail b"
  shows "\<exists>b' X. b_setSize (b_size b + k) b = (Inr (), b') \<and> b_ok b' \<and> b_size b' = b_size b + k \<and> length X = k
    \<and> b_payload b' = b_payload b @ X \<and> b_view b' = b_view b \<and> b_beg b' = b_beg b \<and> b_end b' = b_end b + k"
proof -
  let ?b = "b\<lparr>b_end := b_end b + k\<rparr>"
  note z = b_size_ok [OF assms(1)]
  have c: "b_end b + k \<le> length (b_data b)" "length (b_data b) \<le> 65535" "b_beg b + (b_size b + k) = b_end b + k"
    using assms z by (auto simp: b_ok_def b_capa_def b_avail_def)
  then have lt: "b_end b + k < 2 ^ 32" by simp
  have "b_setSize (b_size b + k) b = (Inr (), ?b)"
    using c(1) mod_less [OF lt] by (simp add: b_setSize_def sem_app Let_def b_capa_def c(3))
  moreover have ok: "b_ok ?b" using assms z c by (auto simp: b_ok_def b_capa_def)
  moreover have size: "b_size ?b = b_size b + k" using b_size_ok [OF ok] z by simp
  moreover have view: "b_view ?b = b_view b" by (simp add: b_view_def)
  moreover have "b_payload ?b = b_payload b @ take k (drop (b_size b) (b_view b))"
    by (simp add: b_payload_def view size take_add)
  moreover have "length (take k (drop (b_size b) (b_view b))) = k"
    using c z by (simp add: b_capa_def)
  ultimately show ?thesis by (intro exI [of _ ?b] exI [of _ "take k (drop (b_size b) (b_view b))"]) simp
qed

lemma fresh_buf:
  assumes "32 + k \<le> length junk" "length junk \<le> 65535"
  shows "\<exists>b'. b_setSize k (b_fresh junk) = (Inr (), b') \<and> b_ok b' \<and> b_size b' = k \<and> b_beg b' = 32 \<and> b_end b' = 32 + k"
proof -
  let ?b = "b_fresh junk"
  have "b_ok ?b" using assms by (simp add: b_fresh_def b_ok_def b_capa_def HEADROOM_def)
  moreover have "k \<le> b_avail ?b" using assms by (simp add: b_fresh_def b_avail_def b_capa_def HEADROOM_def)
  moreover have "b_size ?b = 0" "b_beg ?b = 32" "b_end ?b = 32" by (simp_all add: b_fresh_def b_size_def HEADROOM_def)
  ultimately show ?thesis using grow_buf [of ?b k] by auto
qed

definition writes_tail :: "(u8 list \<Rightarrow> u8 list) \<Rightarrow> bool" where
  "writes_tail g \<longleftrightarrow> (\<forall>x. 8 \<le> length x \<longrightarrow> length (g x) = length x \<and> drop 8 (g x) = drop 8 x)"

lemma writes_tail_fill: "writes_tail (tail_fill n u eof)"
  by (simp add: writes_tail_def tail_fill_length tail_fill_drop)

lemma writes_tail_crc: "writes_tail (insertCrc c)"
  by (simp add: writes_tail_def insertCrc_length insertCrc_drop)

lemma tx_on_tail_buf:
  assumes "b_ok t" "b_beg t \<le> at" "at + 8 = b_end t" "writes_tail g"
  defines "t' \<equiv> t\<lparr>b_data := take at (b_data t) @ g (drop at (b_data t))\<rparr>"
  shows "b_ok t' \<and> b_size t' = b_size t \<and> b_payload t' = take (b_size t - 8) (b_payload t) @ take 8 (g (drop at (b_data t)))
    \<and> take (at - b_beg t) (b_view t') = take (at - b_beg t) (b_view t) \<and> drop at (b_data t') = g (drop at (b_data t))"
proof -
  note z = b_size_ok [OF assms(1)]
  have l8: "8 \<le> length (drop at (b_data t))" "at \<le> length (b_data t)" using z assms(3) by auto
  then have g: "length (g (drop at (b_data t))) = length (drop at (b_data t))" "drop 8 (g (drop at (b_data t))) = drop 8 (drop at (b_data t))"
    using assms(4) by (auto simp: writes_tail_def)
  have ok: "b_ok t'" using assms(1) g l8 by (auto simp: b_ok_def b_capa_def t'_def)
  have size: "b_size t' = b_size t" by (simp add: t'_def b_size_def)
  have v: "b_view t' = take (at - b_beg t) (b_view t) @ g (drop at (b_data t))"
    using assms(2) l8 by (simp add: t'_def b_view_def drop_take)
  have a: "at - b_beg t = b_size t - 8" "8 \<le> b_size t" using z assms(2,3) by auto
  have lv: "length (take (at - b_beg t) (b_view t)) = b_size t - 8"
    using l8 z a by (simp add: b_capa_def)
  have "b_payload t' = take (b_size t - 8) (b_view t) @ take 8 (g (drop at (b_data t)))"
  proof -
    have "b_payload t' = take (b_size t - 8 + 8) (take (at - b_beg t) (b_view t) @ g (drop at (b_data t)))"
      using a(2) by (simp add: b_payload_def size v)
    then show ?thesis unfolding take_add using lv a(1) by simp
  qed
  also have "take (b_size t - 8) (b_view t) = take (b_size t - 8) (b_payload t)" by (simp add: b_payload_def min_def)
  finally have pay: "b_payload t' = take (b_size t - 8) (b_payload t) @ take 8 (g (drop at (b_data t)))" .
  have "take (at - b_beg t) (b_view t') = take (at - b_beg t) (b_view t)"
    unfolding v a(1) using lv unfolding a(1) by simp
  moreover have "drop at (b_data t') = g (drop at (b_data t))" using l8(2) by (simp add: t'_def)
  ultimately show ?thesis using ok size pay by blast
qed

lemma tx_on_tail_chain:
  assumes "c_ok c" "c \<noteq> []" "b_beg (last c) \<le> at" "at + 8 = b_end (last c)" "writes_tail g"
  defines "c' \<equiv> tx_on_tail at g c"
  shows "c_ok c'" "c' \<noteq> []" "c_size c' = c_size c" "b_size (hd c') = b_size (hd c)" "b_size (last c') = b_size (last c)"
    "c_bytes c' = take (c_size c - 8) (c_bytes c) @ take 8 (g (drop at (b_data (last c))))"
    "b_beg (last c') = b_beg (last c)" "b_end (last c') = b_end (last c)"
    "drop at (b_data (last c')) = g (drop at (b_data (last c)))"
    "(tl c = [] \<Longrightarrow> 16 \<le> b_size (last c)) \<Longrightarrow> take 8 (b_view (hd c')) = take 8 (b_view (hd c))"
proof -
  define i t where "i = butlast c" and "t = last c"
  have c: "c = i @ [t]" using assms(2) by (simp add: i_def t_def)
  have ok: "c_ok i" "b_ok t" using assms(1) by (simp_all add: c)
  have r: "b_beg t \<le> at" "at + 8 = b_end t" using assms(3,4) by (simp_all add: c)
  define t' where "t' = t\<lparr>b_data := take at (b_data t) @ g (drop at (b_data t))\<rparr>"
  note t' = tx_on_tail_buf [OF ok(2) r assms(5), folded t'_def]
  have c': "c' = i @ [t']" by (simp add: c'_def tx_on_tail_def c t'_def)
  show "c_ok c'" "c' \<noteq> []" "c_size c' = c_size c" "b_size (last c') = b_size (last c)"
    "b_beg (last c') = b_beg (last c)" "b_end (last c') = b_end (last c)"
    "drop at (b_data (last c')) = g (drop at (b_data (last c)))"
    using ok t' by (simp_all add: c' c) (simp_all add: t'_def)
  show "b_size (hd c') = b_size (hd c)" using t' by (cases i) (simp_all add: c' c)
  have s8: "8 \<le> b_size t" using b_size_ok [OF ok(2)] r by auto
  then show "c_bytes c' = take (c_size c - 8) (c_bytes c) @ take 8 (g (drop at (b_data (last c))))"
    using t' ok by (simp add: c' c length_c_bytes)
  show "take 8 (b_view (hd c')) = take 8 (b_view (hd c))" if *: "tl c = [] \<Longrightarrow> 16 \<le> b_size (last c)"
  proof (cases i)
    case Nil
    then have "8 \<le> at - b_beg t" using * b_size_ok [OF ok(2)] r by (simp add: c)
    moreover have "take (at - b_beg t) (b_view t') = take (at - b_beg t) (b_view t)" using t' by blast
    ultimately have "take 8 (b_view t') = take 8 (b_view t)" by (metis min_absorb1 take_take)
    then show ?thesis by (simp add: c' c Nil)
  qed (simp add: c' c)
qed

lemma tx_on_tail_twice:
  "at \<le> length (b_data (last c)) \<Longrightarrow> tx_on_tail at g (tx_on_tail at f c) = tx_on_tail at (\<lambda>x. g (f x)) c"
  by (simp add: tx_on_tail_def)

definition junk_ok :: "u8 list \<Rightarrow> bool" where
  "junk_ok junk \<longleftrightarrow> 47 \<le> length junk \<and> length junk \<le> 65535"

lemma makeTail_lanes:
  fixes S :: nat
  defines "algn \<equiv> getTailPadding (of_nat S)"
  assumes "8 < S" "S + 16 < 2 ^ 32"
  defines "n \<equiv> (if of_nat S + (algn + 8) \<le> (8 + 8 :: u32) then 0 else 8 - algn)"
  shows "unat (algn + 8) = unat algn + 8" "unat algn < 8" "unat n \<le> 8" "unat algn + unat n = 8"
proof -
  have p: "unat algn = (8 - S mod 8) mod 8" using tail_padding [of "of_nat S"] assms(3) by (simp add: algn_def unat_of_nat_mod)
  then show 8: "unat algn < 8" by simp
  then show e: "unat (algn + 8) = unat algn + 8" by (simp add: unat_word_ariths)
  have "unat (of_nat S + (algn + 8)) = S + unat algn + 8"
    using assms(3) 8 by (simp add: unat_word_ariths unat_of_nat_mod e)
  then have "\<not> of_nat S + (algn + 8) \<le> (8 + 8 :: u32)" using assms(2) unfolding word_le_nat_alt by simp
  then have "n = 8 - algn" by (simp add: n_def)
  moreover have "unat (8 - algn) = 8 - unat algn"
    using 8 by (subst unat_sub) (simp_all add: word_le_nat_alt)
  ultimately show "unat n \<le> 8" "unat algn + unat n = 8" using 8 by simp_all
qed

lemma makeTail_spec:
  assumes "c_ok c" "c \<noteq> []" "8 < c_size c" "c_size c + 16 < 2 ^ 32" "8 \<le> b_size (hd c)" "junk_ok junk"
  shows "\<exists>c' at n X. tx_makeTail True eof junk c = Inr (c', at, n, 0) \<and> c_ok c' \<and> c' \<noteq> [] \<and> b_beg (last c') \<le> at
    \<and> at + 8 = b_end (last c') \<and> 8 \<le> b_size (hd c') \<and> 8 \<le> b_size (last c') \<and> (tl c' = [] \<longrightarrow> 16 \<le> b_size (last c'))
    \<and> unat n \<le> 8 \<and> length X + unat n = 16 \<and> c_bytes c' = c_bytes c @ X \<and> c_size c' = c_size c + length X
    \<and> take 8 (b_view (hd c')) = take 8 (b_view (hd c)) \<and> length X < 16 \<and> 8 \<le> length X"
proof -
  let ?S = "c_size c"
  define algn where "algn = getTailPadding (of_nat ?S)"
  define n where "n = (if of_nat ?S + (algn + 8) \<le> (8 + 8 :: u32) then 0 else 8 - algn)"
  note l = makeTail_lanes [OF assms(3,4), folded algn_def, folded n_def]
  define i t where "i = butlast c" and "t = last c"
  have c: "c = i @ [t]" using assms(2) by (simp add: i_def t_def)
  have ok: "c_ok i" "b_ok t" using assms(1) by (simp_all add: c)
  have mk: "tx_makeTail True eof junk c = (if unat algn + 8 \<le> b_avail t
      then case b_setSize (b_size t + (unat algn + 8)) t of (Inl e, _) \<Rightarrow> Inl e
         | (Inr _, t') \<Rightarrow> Inr (i @ [t'], b_beg t' + (b_size t + (unat algn + 8)) - 8, n, 0)
      else case b_setSize (unat algn + 8) (b_fresh junk) of (Inl e, _) \<Rightarrow> Inl e
         | (Inr _, t') \<Rightarrow> Inr (c @ [t'], b_beg t' + unat algn, n, 0))"
    unfolding tx_makeTail_def Let_def algn_def [symmetric] n_def [symmetric] l(1) i_def t_def by simp
  have lanes: "unat n \<le> 8" "unat algn + 8 + unat n = 16" "unat algn + 8 < 16" using l by simp_all
  show ?thesis
  proof (cases "unat algn + 8 \<le> b_avail t")
    case True
    from grow_buf [OF ok(2) True] obtain t' X where t': "b_setSize (b_size t + (unat algn + 8)) t = (Inr (), t')" "b_ok t'"
      "b_size t' = b_size t + (unat algn + 8)" "length X = unat algn + 8" "b_payload t' = b_payload t @ X" "b_view t' = b_view t"
      "b_beg t' = b_beg t" "b_end t' = b_end t + (unat algn + 8)" by auto
    have z: "b_beg t + b_size t = b_end t" using b_size_ok [OF ok(2)] by blast
    have "tx_makeTail True eof junk c = Inr (i @ [t'], b_beg t' + (b_size t + (unat algn + 8)) - 8, n, 0)"
      unfolding mk using True t'(1) by simp
    moreover have "tl (i @ [t']) = [] \<longrightarrow> 16 \<le> b_size t'" using assms(5) t'(3) by (cases i) (simp_all add: c)
    moreover have "take 8 (b_view (hd (i @ [t']))) = take 8 (b_view (hd c))" by (cases i) (simp_all add: c t')
    moreover have "8 \<le> b_size (hd (i @ [t']))" using assms(5) t'(3) by (cases i) (simp_all add: c)
    ultimately show ?thesis
      using ok t' z lanes
      by (intro exI [of _ "i @ [t']"] exI [of _ "b_beg t' + (b_size t + (unat algn + 8)) - 8"] exI [of _ n] exI [of _ X])
        (simp add: c)
  next
    case False
    have "32 + (unat algn + 8) \<le> length junk" "length junk \<le> 65535" using assms(6) l(2) by (simp_all add: junk_ok_def)
    from fresh_buf [OF this] obtain t' where t': "b_setSize (unat algn + 8) (b_fresh junk) = (Inr (), t')" "b_ok t'"
      "b_size t' = unat algn + 8" "b_beg t' = 32" "b_end t' = 32 + (unat algn + 8)" by auto
    have "tx_makeTail True eof junk c = Inr (c @ [t'], b_beg t' + unat algn, n, 0)"
      unfolding mk using False t'(1) by simp
    then show ?thesis
      using assms(1,2,5) t' lanes
      by (intro exI [of _ "c @ [t']"] exI [of _ "b_beg t' + unat algn"] exI [of _ n] exI [of _ "b_payload t'"]) simp
  qed
qed

section \<open>A fragment\<close>

text \<open>The chain that \<open>tx_finish\<close> pushes, as a function of the chain with the header.\<close>

lemma fragment_built:
  assumes "c_ok c" "c \<noteq> []" "8 < c_size c" "c_size c + 16 < 2 ^ 32" "8 \<le> b_size (hd c)" "junk_ok junk"
  shows "\<exists>c1 at n crc' f. tx_makeTail True eof junk c = Inr (c1, at, n, 0)
    \<and> tx_crc CRC_FULL crc (tx_on_tail at (tail_fill n 0 eof) c1) = Inr crc'
    \<and> f = tx_on_tail at (insertCrc (NOT crc')) (tx_on_tail at (tail_fill n 0 eof) c1)
    \<and> c_ok f \<and> f \<noteq> [] \<and> 8 \<le> b_size (hd f) \<and> 8 \<le> b_size (last f) \<and> take 8 (b_view (hd f)) = take 8 (b_view (hd c))
    \<and> c_size f < c_size c + 16
    \<and> crc' = crc32 crc (take (c_size f - 4) (c_bytes f)) \<and> drop (c_size f - 4) (c_bytes f) = crc_be (NOT crc')
    \<and> (\<exists>pad T. c_bytes f = c_bytes c @ pad @ T \<and> length T = 8 \<and> unat n \<le> 8 \<and> length pad + unat n = 8
          \<and> parseTailEOF DEPACK2 T = eof \<and> parseNumLanes T = Inr n)"
proof -
  from makeTail_spec [OF assms] obtain c1 at n X where 1: "tx_makeTail True eof junk c = Inr (c1, at, n, 0)" "c_ok c1" "c1 \<noteq> []"
    "b_beg (last c1) \<le> at" "at + 8 = b_end (last c1)" "8 \<le> b_size (hd c1)" "8 \<le> b_size (last c1)"
    "tl c1 = [] \<longrightarrow> 16 \<le> b_size (last c1)" "unat n \<le> 8" "length X + unat n = 16" "c_bytes c1 = c_bytes c @ X"
    "c_size c1 = c_size c + length X" "take 8 (b_view (hd c1)) = take 8 (b_view (hd c))" "length X < 16" "8 \<le> length X" by blast
  have len: "length (c_bytes c) = c_size c" using assms(1) by (rule length_c_bytes)
  define x where "x = drop at (b_data (last c1))"
  have x8: "8 \<le> length x" "at \<le> length (b_data (last c1))"
    using b_size_ok [of "last c1"] 1(2,3,5) by (auto simp: x_def c_ok_def)
  let ?c2 = "tx_on_tail at (tail_fill n 0 eof) c1"
  note 2 = tx_on_tail_chain [OF 1(2-5) writes_tail_fill [of n 0 eof]]
  define crc' where "crc' = crc32 crc (take (c_size ?c2 - 4) (c_bytes ?c2))"
  have crc: "tx_crc CRC_FULL crc ?c2 = Inr crc'" unfolding crc'_def by (rule tx_crc_full [OF 2(1,2)])
  define f where "f = tx_on_tail at (insertCrc (NOT crc')) ?c2"
  have last2: "b_beg (last ?c2) \<le> at" "at + 8 = b_end (last ?c2)" using 1(4,5) 2(7,8) by simp_all
  note 3 = tx_on_tail_chain [OF 2(1,2) last2 writes_tail_crc [of "NOT crc'"], folded f_def]
  let ?y = "tail_fill n 0 eof x" and ?z = "insertCrc (NOT crc') (tail_fill n 0 eof x)"
  have y8: "8 \<le> length ?y" using x8(1) by (simp add: tail_fill_length)
  have dat2: "drop at (b_data (last ?c2)) = ?y" using 2(9) by (simp add: x_def)
  define B where "B = take (c_size c1 - 8) (c_bytes c1)"
  have lB: "length B = c_size c1 - 8" using length_c_bytes [OF 1(2)] by (simp add: B_def)
  have b2: "c_bytes ?c2 = B @ take 8 ?y" using 2(6) by (simp add: B_def x_def)
  have bf: "c_bytes f = B @ take 8 ?z" using 3(6) 2(3) dat2 lB by (simp add: b2)
  have sf: "c_size f = c_size c1" using 3(3) 2(3) by simp
  have z: "take 8 ?z = take 4 ?y @ crc_be (NOT crc')" by (rule insertCrc_bytes [OF y8])
  have s4: "c_size c1 - 4 = length B + 4" using lB 1(12,15) by simp
  have t4: "take (c_size f - 4) (c_bytes f) = B @ take 4 ?y" "drop (c_size f - 4) (c_bytes f) = crc_be (NOT crc')"
    unfolding bf z sf s4 using y8 by simp_all
  have "crc' = crc32 crc (take (c_size f - 4) (c_bytes f))"
    unfolding crc'_def t4(1) b2 2(3) s4 using y8 by (simp add: min_def)
  moreover have "c_bytes f = c_bytes c @ take (length X - 8) X @ take 8 ?z"
    unfolding bf using 1(11,12,15) len by (simp add: B_def)
  moreover have "parseTailEOF DEPACK2 (take 8 ?z) = eof" "parseNumLanes (take 8 ?z) = Inr n"
    using tail_reads_back [OF x8(1) 1(9)] by (simp_all add: parseTailEOF_take parseNumLanes_take)
  moreover have "length (take 8 ?z) = 8" using y8 by (simp add: insertCrc_length)
  moreover have "length (take (length X - 8) X) + unat n = 8" using 1(10,15) by simp
  moreover have "c_size f < c_size c + 16" using sf 1(12,14) by simp
  moreover have "take 8 (b_view (hd f)) = take 8 (b_view (hd c))"
  proof -
    have e: "take 8 (b_view (hd ?c2)) = take 8 (b_view (hd c1))" using 1(8) by (intro 2(10)) simp
    have "tl ?c2 = [] \<Longrightarrow> 16 \<le> b_size (last ?c2)"
    proof -
      assume "tl ?c2 = []"
      then have "tl c1 = []" using 1(3) by (cases c1 rule: rev_cases) (auto simp: tx_on_tail_def tl_append split: list.splits)
      then show ?thesis using 1(8) 2(5) by simp
    qed
    then have "take 8 (b_view (hd f)) = take 8 (b_view (hd ?c2))" by (rule 3(10))
    then show ?thesis using e 1(13) by simp
  qed
  moreover have "8 \<le> b_size (hd f)" "8 \<le> b_size (last f)" using 1(6,7) 2(4,5) 3(4,5) by simp_all
  ultimately show ?thesis
    using 1(1,9) crc f_def 3(1,2) t4(2)
    by - (rule exI [of _ c1], rule exI [of _ at], rule exI [of _ n], rule exI [of _ crc'], rule exI [of _ f], blast)
qed

text \<open>What \<open>sendFrag\<close> does with a slot in which a frame is waiting: it sends a fragment with the next bytes.\<close>

definition tm_sent :: "nat \<Rightarrow> work2 \<Rightarrow> chain \<Rightarrow> bool \<Rightarrow> tdest2 \<Rightarrow> tdest2" where
  "tm_sent k w f eof m = m\<lparr>tm_work := (tm_work m)[k := w], tm_up := tm_up m @ [f],
     tm_goodTxFragCnt := tm_goodTxFragCnt m + 1, tm_goodTxFramCnt := tm_goodTxFramCnt m + (if eof then 1 else 0)\<rparr>"

lemma tx_finish_spec:
  assumes ins: "tx_insert hdr h = Inr h'" and w: "w = tm_work m ! k" "wk_stripHeader w" "tm_upOk m"
    and mk: "tx_makeTail True eof junk (h' # t) = Inr (c1, at, n, 0)"
    and crc: "tx_crc (d2_crcMode hdr) (wk_crc w) (tx_on_tail at (tail_fill n 0 eof) c1) = Inr crc'"
  shows "tx_finish k junk eof hdr (h # t) m
    = (Inr eof, tm_sent k (w\<lparr>wk_crc := crc'\<rparr>) (tx_on_tail at (insertCrc (NOT crc')) (tx_on_tail at (tail_fill n 0 eof) c1)) eof m)"
  using assms
  by (simp add: tx_finish_def reading_app bnd_Inr liftR_app Let_def andThen_def ret_app upd_app cond_app bnd_def
      tm_sent_def tm_setWork_def)

lemma unat_of_int_u8: "0 \<le> d \<Longrightarrow> d \<le> 255 \<Longrightarrow> int (unat (of_int d :: u8)) = d"
  by (simp add: unsigned_of_int take_bit_int_eq_self)

lemma sendFrag_spec:
  assumes w: "w = tm_work m ! k" "k < length (tm_work m)" "wk_bc w = Some c" "wk_stripHeader w" "0 \<le> wk_tdest w" "wk_tdest w \<le> 255"
    and c: "tx_ok (unat (tm_myMTUCached m)) c" and mtu: "unat (tm_myMTUCached m) < 2 ^ 31" and up: "tm_upOk m" and junk: "junk_ok junk"
  shows "\<exists>bc rest f crc'. sendFrag junk k m = (Inr (rest = None),
        tm_sent k (w\<lparr>wk_bc := rest, wk_fragNo := wk_fragNo w + 1, wk_crc := crc'\<rparr>) f (rest = None) m)
    \<and> bc \<noteq> [] \<and> c = bc @ (case rest of None \<Rightarrow> [] | Some r \<Rightarrow> r) \<and> (\<forall>r. rest = Some r \<longrightarrow> tx_ok (unat (tm_myMTUCached m)) r)
    \<and> frag_ok f (wk_tdest w) (take_bit 16 (wk_fragNo w)) (wk_fragNo w = 0) (rest = None) (c_bytes bc)
    \<and> c_size f < unat (tm_myMTUCached m) + 24
    \<and> crc' = crc32 (wk_crc w) (take (c_size f - 4) (c_bytes f)) \<and> drop (c_size f - 4) (c_bytes f) = crc_be (NOT crc')"
proof -
  let ?mtu = "unat (tm_myMTUCached m)"
  from tx_take_spec [OF c] obtain bc rest where t: "tx_take ?mtu c = Inr (bc, rest)" "c = bc @ (case rest of None \<Rightarrow> [] | Some r \<Rightarrow> r)"
    "tx_ok ?mtu bc" "c_size bc \<le> ?mtu" "\<forall>r. rest = Some r \<longrightarrow> tx_ok ?mtu r" by blast
  let ?eof = "rest = None"
  obtain h r where bc: "bc = h # r" using t(3) by (cases bc) (auto simp: tx_ok_def)
  have h: "b_ok h" "8 \<le> b_beg h" "c_ok r" "0 < c_size bc" using t(3) by (simp_all add: tx_ok_def bc)
  from retreat_buf [OF h(1,2)] obtain h1 j where h1: "snd (b_adjPayload (- 8) h) = h1" "b_ok h1" "b_size h1 = b_size h + 8"
    "length j = 8" "b_payload h1 = j @ b_payload h" by blast
  define hdr where "hdr = d2_new (wk_fragNo w) (of_int (wk_tdest w))"
  have hdr: "ph_vers hdr = 2" "d2_crcMode hdr = CRC_FULL" "ph_fragNo hdr = wk_fragNo w" "ph_tDest hdr = of_int (wk_tdest w)"
    by (simp_all add: hdr_def d2_new_def setSOF_def)
  have "8 \<le> b_size h1" "d2_crcMode hdr < push_bit 4 1" using h1(3) hdr(2) by (simp_all add: CRC_FULL_def push_bit_of_1)
  from tx_insert_spec [OF h1(2) this(1) hdr(1) this(2)] obtain h2 where h2: "tx_insert hdr h1 = Inr h2" "b_ok h2" "b_size h2 = b_size h1"
    "drop 8 (b_payload h2) = drop 8 (b_payload h1)"
    "\<And>s q. 8 \<le> s \<Longrightarrow> d2_parse (b_view h2) s q = (True, hdr\<lparr>ph_fragNo := take_bit 16 (ph_fragNo hdr)\<rparr>)"
    "d2_isFirst (b_view h2) \<longleftrightarrow> ph_fragNo hdr = 0" by blast
  let ?c = "h2 # r"
  have cs: "c_ok ?c" "c_size ?c = c_size bc + 8" using h2(2,3) h h1(3) by (simp_all add: bc)
  have H: "c_bytes ?c = take 8 (b_payload h2) @ c_bytes bc" "length (take 8 (b_payload h2)) = 8"
  proof -
    have "drop 8 (b_payload h2) = b_payload h" using h2(4) h1(4,5) by simp
    then have "b_payload h2 = take 8 (b_payload h2) @ b_payload h" by (metis append_take_drop_id)
    then show "c_bytes ?c = take 8 (b_payload h2) @ c_bytes bc" by (simp add: bc)
    show "length (take 8 (b_payload h2)) = 8" using length_payload [OF h2(2)] h2(3) h1(3) by simp
  qed
  have "8 < c_size ?c" "c_size ?c + 16 < 2 ^ 32" "8 \<le> b_size (hd ?c)"
    using cs(2) h(4) t(4) mtu h2(3) h1(3) by simp_all
  from fragment_built [OF cs(1) list.distinct(2) this junk, of ?eof "wk_crc w", unfolded list.sel]
  obtain c1 at n crc' f pad T where f: "tx_makeTail True ?eof junk ?c = Inr (c1, at, n, 0)"
    "tx_crc CRC_FULL (wk_crc w) (tx_on_tail at (tail_fill n 0 ?eof) c1) = Inr crc'"
    "f = tx_on_tail at (insertCrc (NOT crc')) (tx_on_tail at (tail_fill n 0 ?eof) c1)"
    "c_ok f" "f \<noteq> []" "8 \<le> b_size (hd f)" "8 \<le> b_size (last f)" "take 8 (b_view (hd f)) = take 8 (b_view h2)" "c_size f < c_size ?c + 16"
    "crc' = crc32 (wk_crc w) (take (c_size f - 4) (c_bytes f))" "drop (c_size f - 4) (c_bytes f) = crc_be (NOT crc')"
    "c_bytes f = c_bytes ?c @ pad @ T" "length T = 8" "unat n \<le> 8" "length pad + unat n = 8"
    "parseTailEOF DEPACK2 T = ?eof" "parseNumLanes T = Inr n"
    by blast
  have "d2_parse (b_view (hd f)) s q = (True, hdr\<lparr>ph_fragNo := take_bit 16 (wk_fragNo w)\<rparr>)" if "8 \<le> s" for s q
    using h2(5) [OF that, of q] d2_parse_cong [OF f(8), of s q] hdr(3) by simp
  moreover have "d2_isFirst (b_view (hd f)) = (wk_fragNo w = 0)" using h2(6) d2_isFirst_cong [OF f(8)] hdr(3) by simp
  moreover have "int (unat (ph_tDest hdr)) = wk_tdest w" using unat_of_int_u8 [OF w(5,6)] hdr(4) by simp
  moreover have "c_bytes f = take 8 (b_payload h2) @ c_bytes bc @ pad @ T" using f(12) H(1) by simp
  ultimately have ok: "frag_ok f (wk_tdest w) (take_bit 16 (wk_fragNo w)) (wk_fragNo w = 0) ?eof (c_bytes bc)"
    unfolding frag_ok_def using f(4-7,13-17) H(2)
    by (intro conjI exI [of _ "hdr\<lparr>ph_fragNo := take_bit 16 (wk_fragNo w)\<rparr>"] exI [of _ "take 8 (b_payload h2)"]
        exI [of _ pad] exI [of _ T] exI [of _ n]) simp_all
  let ?w = "w\<lparr>wk_bc := rest, wk_fragNo := wk_fragNo w + 1\<rparr>"
  let ?m = "tm_setWork k ?w m"
  have m: "tm_work ?m ! k = ?w" "tm_upOk ?m" using w(2) up by (simp_all add: tm_setWork_def)
  have "tx_finish k junk ?eof hdr (h1 # r) ?m = (Inr ?eof, tm_sent k (?w\<lparr>wk_crc := crc'\<rparr>) f ?eof ?m)"
    unfolding f(3) by (rule tx_finish_spec [OF h2(1) m(1) [symmetric] _ m(2) f(1)]) (use w(4) hdr(2) f(2) in simp_all)
  moreover have "tm_sent k (?w\<lparr>wk_crc := crc'\<rparr>) f ?eof ?m
      = tm_sent k (w\<lparr>wk_bc := rest, wk_fragNo := wk_fragNo w + 1, wk_crc := crc'\<rparr>) f ?eof m"
    by (simp add: tm_sent_def tm_setWork_def)
  moreover have "sendFrag junk k m = tx_finish k junk ?eof hdr (h1 # r) ?m"
    using w(3,4) t(1) h1(1) w(1) [symmetric]
    by (simp add: sendFrag_def reading_app bnd_def liftR_app Let_def bc hdr_def)
  moreover have "c_size f < ?mtu + 24" using f(9) cs(2) t(4) by simp
  moreover have "bc \<noteq> []" by (simp add: bc)
  ultimately show ?thesis using t(2,5) ok f(10,11) by metis
qed

end
