(* ===== verification/Tdest2Link.thy ===== *)
theory Tdest2Link
  imports Tdest2Tx
begin

text \<open>
  The two ends of the second packetizer together: the thread that multiplexes the frames of all ports, and the
  demultiplexer which gets what it sends. Whatever is pushed into the ports arrives, port by port, in order and in one
  piece, however the thread's turns and the pushes interleave.
\<close>

section \<open>One fragment\<close>

lemma take_bit_mask16: "n AND (push_bit 16 1 - 1 :: u32) = take_bit 16 n"
proof -
  have "(push_bit k 1 - 1 :: u32) = mask k" for k by (simp add: push_bit_of_1)
  note m = this
  show ?thesis unfolding m by (simp add: take_bit_eq_mask)
qed

definition port_up :: "tdest2_port \<Rightarrow> bool" where
  "port_up q \<longleftrightarrow> tp_stripHeader q \<and> port_isOpen q \<and> po_hasQueue q \<and> po_queueUp q"

text \<open>How far the frame has come whose number of fragments is \<open>n\<close>, and of which \<open>D\<close> has been received.\<close>

definition part_received :: "u32 \<Rightarrow> tdest2_port \<Rightarrow> u8 list \<Rightarrow> bool" where
  "part_received n q D \<longleftrightarrow> (if n = 0 then D = []
     else \<exists>a. tp_assembleBuffer q = Some a \<and> c_bytes a = D \<and> tp_fragNo q + 1 = n)"

lemma receive_fragment:
  assumes f: "frag_ok f dest (take_bit 16 n) (n = 0) eof payload"
    and q: "port_up q" "part_received n q D"
  shows "\<exists>q'. tp_pushDownstream f q = (Inr True, q') \<and> port_up q'
    \<and> (if eof then map c_bytes (po_out q') = map c_bytes (po_out q) @ [D @ payload]
       else po_out q' = po_out q \<and> (n + 1 \<noteq> 0 \<longrightarrow> part_received (n + 1) q' (D @ payload)))"
proof -
  from rx_fragment_ok(2) [OF f] obtain f' where f': "rx_fragment True f = Inr (n = 0, eof, take_bit 16 n, f')" "c_bytes f' = payload"
    by blast
  let ?p = "q\<lparr>tp_assembleBuffer := Some (if n = 0 then f' else the (tp_assembleBuffer q) @ f'), tp_fragNo := n\<rparr>"
  have step: "tp_pushDownstream f q = rx_deliver eof ?p"
  proof (cases "n = 0")
    case True
    then show ?thesis
      using f' q(1) by (simp add: tp_pushDownstream_def reading_app port_up_def rx_assemble_def)
  next
    case False
    then obtain a where a: "tp_assembleBuffer q = Some a" "tp_fragNo q + 1 = n"
      using q(2) by (auto simp: part_received_def)
    have "n AND (push_bit 16 1 - 1) = take_bit 16 n" by (rule take_bit_mask16)
    then show ?thesis
      using False f' q(1) a
      by (simp only: tp_pushDownstream_def reading_app port_up_def rx_assemble_def sum.case prod.case if_False if_True option.case
          id_def Let_def) (simp add: option.sel)
  qed
  have D: "c_bytes (the (tp_assembleBuffer ?p)) = D @ payload"
    using q(2) f'(2) by (auto simp: part_received_def split: if_splits)
  show ?thesis
  proof (cases eof)
    case True
    then show ?thesis
      using q(1) D unfolding step
      by (simp add: rx_deliver_def reading_app port_pushDownstream_def port_up_def port_isOpen_def bnd_def andThen_def upd_app ret_app)
  next
    case False
    then show ?thesis
      using q(1) D unfolding step
      by (simp add: rx_deliver_def port_up_def port_isOpen_def ret_app part_received_def)
  qed
qed

section \<open>The state of both ends\<close>

abbreviation tm_mtu :: "tdest2 \<Rightarrow> nat" where
  "tm_mtu m \<equiv> unat (tm_myMTUCached m)"

abbreviation tm_dest :: "tdest2 \<Rightarrow> nat \<Rightarrow> nat" where
  "tm_dest m k \<equiv> nat (wk_tdest (tm_work m ! k))"

text \<open>A frame that can be cut: buffers that fit into a fragment, with room for the header.\<close>

definition frame_ok :: "nat \<Rightarrow> chain \<Rightarrow> bool" where
  "frame_ok mtu c \<longleftrightarrow> tx_ok mtu c \<and> length c < 2 ^ 32"

text \<open>The frame of which a slot has sent a part, if there is one.\<close>

definition half_sent :: "nat \<Rightarrow> work2 \<Rightarrow> tdest2_port \<Rightarrow> u8 list list \<Rightarrow> bool" where
  "half_sent mtu w q cur \<longleftrightarrow> (case wk_bc w of None \<Rightarrow> cur = []
     | Some r \<Rightarrow> tx_ok mtu r \<and> wk_fragNo w \<noteq> 0 \<and> unat (wk_fragNo w) + length r < 2 ^ 32
         \<and> (\<exists>D. part_received (wk_fragNo w) q D \<and> cur = [D @ c_bytes r]))"

text \<open>What was pushed into a port is what has come out at the other end, then the frame on its way, then the queue.\<close>

definition chan_inv :: "nat \<Rightarrow> work2 \<Rightarrow> tdest2_port \<Rightarrow> tdest2_port \<Rightarrow> chain list \<Rightarrow> bool" where
  "chan_inv mtu w p q pushed \<longleftrightarrow>
     0 \<le> wk_tdest w \<and> wk_tdest w \<le> 255 \<and> wk_stripHeader w \<and> port_up q \<and> bufq_ok (tp_inputQueue p)
     \<and> (\<forall>c \<in> set (bufq_items (tp_inputQueue p)). frame_ok mtu c)
     \<and> (\<exists>cur. half_sent mtu w q cur
          \<and> map c_bytes pushed = map c_bytes (po_out q) @ cur @ map c_bytes (bufq_items (tp_inputQueue p)))"

definition link_base :: "tdest2 \<Rightarrow> tdest2 \<Rightarrow> bool" where
  "link_base m r \<longleftrightarrow> bm_ok m \<and> bm_ok r \<and> tm_upOk m \<and> tm_mtu m < 2 ^ 31
     \<and> 0 < tm_numWork m \<and> tm_numWork m \<le> length (tm_work m)
     \<and> (\<forall>k < tm_numWork m. \<forall>j < tm_numWork m. tm_dest m k = tm_dest m j \<longrightarrow> k = j)
     \<and> (\<forall>i. bm_port m i \<noteq> None \<longrightarrow> (\<exists>k < tm_numWork m. tm_dest m k = i))"

definition chan_ok :: "tdest2 \<Rightarrow> tdest2 \<Rightarrow> (nat \<Rightarrow> chain list) \<Rightarrow> nat \<Rightarrow> bool" where
  "chan_ok m r A k \<longleftrightarrow> (\<exists>p q. bm_port m (tm_dest m k) = Some p \<and> bm_port r (tm_dest m k) = Some q
     \<and> chan_inv (tm_mtu m) (tm_work m ! k) p q (A (tm_dest m k)))"

definition link_inv :: "tdest2 \<Rightarrow> tdest2 \<Rightarrow> (nat \<Rightarrow> chain list) \<Rightarrow> bool" where
  "link_inv m r A \<longleftrightarrow> link_base m r \<and> (\<forall>k < tm_numWork m. chan_ok m r A k)"

text \<open>How many buffers are still to be sent.\<close>

definition work_len :: "work2 \<Rightarrow> nat" where
  "work_len w = (case wk_bc w of None \<Rightarrow> 0 | Some r \<Rightarrow> length r)"

definition queue_len :: "tdest2_port \<Rightarrow> nat" where
  "queue_len p = sum_list (map length (bufq_items (tp_inputQueue p)))"

definition pending :: "tdest2 \<Rightarrow> nat \<Rightarrow> nat" where
  "pending m k = work_len (tm_work m ! k) + (case bm_port m (tm_dest m k) of None \<Rightarrow> 0 | Some p \<Rightarrow> queue_len p)"

definition tm_total :: "tdest2 \<Rightarrow> nat" where
  "tm_total m = (\<Sum>k < tm_numWork m. pending m k)"

section \<open>Sending\<close>

abbreviation td2_thread :: "chain list \<Rightarrow> (tdest2, unit) sem" where
  "td2_thread \<equiv> bm_thread td2_extractDest tp_pushDownstream"

lemma tm_sent_simps [simp]:
  "tm_up (tm_sent k w f e m) = tm_up m @ [f]" "tm_numWork (tm_sent k w f e m) = tm_numWork m"
  "tm_work (tm_sent k w f e m) = (tm_work m)[k := w]" "bm_downstream (tm_sent k w f e m) = bm_downstream m"
  "tm_myMTUCached (tm_sent k w f e m) = tm_myMTUCached m" "tm_upOk (tm_sent k w f e m) = tm_upOk m"
  by (simp_all add: tm_sent_def)

lemma link_send:
  assumes m: "bm_ok r" "tm_upOk m" "tm_mtu m < 2 ^ 31" "k < length (tm_work m)" "junk_ok junk"
    and w: "w = tm_work m ! k" "wk_bc w = Some c" "tx_ok (tm_mtu m) c" "unat (wk_fragNo w) + length c < 2 ^ 32"
      "wk_stripHeader w" "0 \<le> wk_tdest w" "wk_tdest w \<le> 255"
    and q: "bm_port r (nat (wk_tdest w)) = Some q" "port_up q" "part_received (wk_fragNo w) q D"
  shows "\<exists>e w' f q' cur. sendFrag junk k m = (Inr e, tm_sent k w' f e m) \<and> wk_tdest w' = wk_tdest w \<and> wk_stripHeader w'
    \<and> work_len w' < length c
    \<and> c_size f < tm_mtu m + 24
    \<and> td2_thread [f] r = (Inr (), bm_setPort (nat (wk_tdest w)) q' r) \<and> port_up q' \<and> half_sent (tm_mtu m) w' q' cur
    \<and> map c_bytes (po_out q') @ cur = map c_bytes (po_out q) @ [D @ c_bytes c]"
proof -
  from sendFrag_spec [OF w(1) m(4) w(2,5,6,7,3) m(3,2,5)] obtain bc rest f crc' where
    s: "sendFrag junk k m = (Inr (rest = None), tm_sent k (w\<lparr>wk_bc := rest, wk_fragNo := wk_fragNo w + 1, wk_crc := crc'\<rparr>) f (rest = None) m)"
      "c = bc @ (case rest of None \<Rightarrow> [] | Some x \<Rightarrow> x)" "\<forall>x. rest = Some x \<longrightarrow> tx_ok (tm_mtu m) x"
      "frag_ok f (wk_tdest w) (take_bit 16 (wk_fragNo w)) (wk_fragNo w = 0) (rest = None) (c_bytes bc)"
      "c_size f < tm_mtu m + 24" "bc \<noteq> []" by blast
  let ?w = "w\<lparr>wk_bc := rest, wk_fragNo := wk_fragNo w + 1, wk_crc := crc'\<rparr>"
  from receive_fragment [OF s(4) q(2,3)] obtain q' where q': "tp_pushDownstream f q = (Inr True, q')" "port_up q'"
    "if rest = None then map c_bytes (po_out q') = map c_bytes (po_out q) @ [D @ c_bytes bc]
     else po_out q' = po_out q \<and> (wk_fragNo w + 1 \<noteq> 0 \<longrightarrow> part_received (wk_fragNo w + 1) q' (D @ c_bytes bc))" by blast
  have "td2_extractDest f = Inr (int (nat (wk_tdest w)))" using rx_fragment_ok(1) [OF s(4)] w(6) by simp
  then have thr: "td2_thread [f] r = (Inr (), bm_setPort (nat (wk_tdest w)) q' r)"
    using td2.pushDown_cases [OF m(1), of f "nat (wk_tdest w)"] q(1) q'(1) by (simp add: bnd_def ret_app)
  have "\<exists>cur. half_sent (tm_mtu m) ?w q' cur \<and> map c_bytes (po_out q') @ cur = map c_bytes (po_out q) @ [D @ c_bytes c]"
  proof (cases rest)
    case None
    then show ?thesis using q'(3) s(2) by (simp add: half_sent_def)
  next
    case (Some x)
    have x: "tx_ok (tm_mtu m) x" "x \<noteq> []" using s(3) Some by (auto simp: tx_ok_def)
    have len: "unat (wk_fragNo w) + 1 + length x \<le> unat (wk_fragNo w) + length c"
      using s(2,6) Some by (cases bc) auto
    then have n: "unat (wk_fragNo w + 1) = unat (wk_fragNo w) + 1"
      using w(4) by (simp add: unat_word_ariths)
    then have "wk_fragNo w + 1 \<noteq> 0" by auto
    then show ?thesis
      using q'(3) s(2) Some x len n w(4) by (auto simp: half_sent_def)
  qed
  then obtain cur where "half_sent (tm_mtu m) ?w q' cur" "map c_bytes (po_out q') @ cur = map c_bytes (po_out q) @ [D @ c_bytes c]"
    by blast
  moreover have "wk_tdest ?w = wk_tdest w" "wk_stripHeader ?w" using w(5) by simp_all
  moreover have "work_len ?w < length c" using s(2,6) by (cases rest; cases bc) (simp_all add: work_len_def)
  ultimately show ?thesis using s(1,5) thr q'(2) by blast
qed

section \<open>The steps of the thread and of the users\<close>

text \<open>A step that changes one channel.\<close>

lemma link_update:
  assumes inv: "link_inv m r A" and k: "k < tm_numWork m"
    and m': "bm_ok m'" "tm_upOk m'" "tm_myMTUCached m' = tm_myMTUCached m" "tm_numWork m' = tm_numWork m"
      "length (tm_work m') = length (tm_work m)" "tm_work m' ! k = w'" "wk_tdest w' = wk_tdest (tm_work m ! k)"
      "\<And>i. i < tm_numWork m \<Longrightarrow> i \<noteq> k \<Longrightarrow> tm_work m' ! i = tm_work m ! i"
      "\<And>i. bm_port m' i = (if i = tm_dest m k then Some p' else bm_port m i)"
    and r': "bm_ok r'" "\<And>i. bm_port r' i = (if i = tm_dest m k then Some q' else bm_port r i)"
    and A': "\<And>i. i \<noteq> tm_dest m k \<Longrightarrow> A' i = A i"
    and chan: "chan_inv (tm_mtu m) w' p' q' (A' (tm_dest m k))"
  shows "link_inv m' r' A'"
proof -
  have d: "tm_dest m' i = tm_dest m i" if "i < tm_numWork m" for i using m'(6-8) that by (cases "i = k") simp_all
  have inj: "tm_dest m i \<noteq> tm_dest m k" if "i < tm_numWork m" "i \<noteq> k" for i
    using inv k that by (auto simp: link_inv_def link_base_def)
  have "\<exists>k < tm_numWork m. tm_dest m' k = i" if "bm_port m' i \<noteq> None" for i
  proof (cases "i = tm_dest m k")
    case True
    then show ?thesis using d [OF k] k by blast
  next
    case False
    then have "bm_port m i \<noteq> None" using that m'(9) by simp
    then obtain j where "j < tm_numWork m" "tm_dest m j = i" using inv unfolding link_inv_def link_base_def by blast
    then show ?thesis using d by auto
  qed
  then have "link_base m' r'"
    using inv m' r'(1) d unfolding link_inv_def link_base_def by simp
  moreover have "chan_ok m' r' A' i" if i: "i < tm_numWork m'" for i
  proof (cases "i = k")
    case True
    then show ?thesis
      using chan d [OF k] m'(3,6,9) r'(2) unfolding chan_ok_def by simp
  next
    case False
    then have "chan_ok m r A i" using inv i m'(4) by (simp add: link_inv_def)
    then show ?thesis
      using False i d [of i] inj [of i] m'(3,4,8,9) r'(2) A' unfolding chan_ok_def by simp
  qed
  ultimately show ?thesis using m'(4) by (simp add: link_inv_def)
qed

text \<open>The counters of the thread do not matter.\<close>

definition same_link :: "tdest2 \<Rightarrow> tdest2 \<Rightarrow> bool" where
  "same_link m m' \<longleftrightarrow> bm_downstream m' = bm_downstream m \<and> tm_work m' = tm_work m \<and> tm_numWork m' = tm_numWork m
     \<and> tm_myMTUCached m' = tm_myMTUCached m \<and> tm_upOk m' = tm_upOk m \<and> tm_up m' = tm_up m"

lemma same_link_inv: "same_link m m' \<Longrightarrow> link_inv m' r A = link_inv m r A"
  by (simp add: same_link_def link_inv_def link_base_def chan_ok_def bm_ok_def bm_port_def)

lemma mux_turn_spec: "same_link m (mux_turn m)" "0 < tm_numWork m \<Longrightarrow> tm_current (mux_turn m) < tm_numWork m"
  by (auto simp: same_link_def mux_turn_def Let_def)

lemma mux_round_eq: "mux_round junk m = mux_slot junk (mux_turn m)"
  by (simp add: mux_round_def)

lemma chan_obtain:
  assumes "link_inv m r A" "k < tm_numWork m"
  obtains p q cur where "bm_port m (tm_dest m k) = Some p" "bm_port r (tm_dest m k) = Some q"
    "0 \<le> wk_tdest (tm_work m ! k)" "wk_tdest (tm_work m ! k) \<le> 255" "wk_stripHeader (tm_work m ! k)" "port_up q" "bufq_ok (tp_inputQueue p)"
    "\<forall>c \<in> set (bufq_items (tp_inputQueue p)). frame_ok (tm_mtu m) c" "half_sent (tm_mtu m) (tm_work m ! k) q cur"
    "map c_bytes (A (tm_dest m k)) = map c_bytes (po_out q) @ cur @ map c_bytes (bufq_items (tp_inputQueue p))"
  using assms unfolding link_inv_def chan_ok_def chan_inv_def by blast

lemma link_invD:
  assumes "link_inv m r A"
  shows "bm_ok m" "bm_ok r" "tm_upOk m" "tm_mtu m < 2 ^ 31" "0 < tm_numWork m" "tm_numWork m \<le> length (tm_work m)"
  using assms by (simp_all add: link_inv_def link_base_def)

text \<open>What a step of the sender does to the state of both ends; \<open>new\<close> are the fragments it sends.\<close>

definition link_step :: "tdest2 \<Rightarrow> tdest2 \<Rightarrow> (nat \<Rightarrow> chain list) \<Rightarrow> tdest2 \<Rightarrow> (nat \<Rightarrow> chain list) \<Rightarrow> bool" where
  "link_step m r A m' A' \<longleftrightarrow> (\<exists>new r'. tm_up m' = tm_up m @ new \<and> td2_thread new r = (Inr (), r') \<and> link_inv m' r' A'
     \<and> tm_myMTUCached m' = tm_myMTUCached m \<and> (\<forall>i. bm_port m i \<noteq> None \<longrightarrow> bm_port m' i \<noteq> None)
     \<and> (\<forall>f \<in> set new. c_size f < tm_mtu m + 24))"

lemma link_step_none:
  "link_inv m' r A' \<Longrightarrow> tm_up m' = tm_up m \<Longrightarrow> tm_myMTUCached m' = tm_myMTUCached m
   \<Longrightarrow> (\<And>i. bm_port m i \<noteq> None \<Longrightarrow> bm_port m' i \<noteq> None) \<Longrightarrow> link_step m r A m' A'"
  unfolding link_step_def by (intro exI [of _ "[]"]) (simp add: ret_app)

lemma same_link_port: "same_link m m' \<Longrightarrow> bm_port m' i = bm_port m i"
  by (simp add: same_link_def bm_port_def)

lemma link_step_same: "same_link m n \<Longrightarrow> link_inv m r A \<Longrightarrow> link_step m r A n A"
  by (rule link_step_none) (simp_all add: same_link_inv same_link_port, simp_all add: same_link_def)

lemma same_link_step: "same_link m n \<Longrightarrow> link_step n r A m' A' \<Longrightarrow> link_step m r A m' A'"
  unfolding link_step_def using same_link_port [of m n] by (simp add: same_link_def)

text \<open>A slot with a frame, of which \<open>D\<close> has been received, sends a fragment of it. The slot may just have got it, from the queue
  of its port: \<open>m\<close> is the state before that, \<open>n\<close> the one after it.\<close>

lemma slot_send:
  assumes inv: "link_inv m r A" and k: "k < tm_numWork m" and junk: "junk_ok junk"
    and n: "bm_ok n" "tm_upOk n" "tm_myMTUCached n = tm_myMTUCached m" "tm_numWork n = tm_numWork m" "tm_up n = tm_up m"
      "tm_work n = (tm_work m)[k := w]" "wk_tdest w = wk_tdest (tm_work m ! k)" "wk_stripHeader w"
      "\<And>i. bm_port n i = (if i = tm_dest m k then Some p' else bm_port m i)"
    and w: "wk_bc w = Some c" "tx_ok (tm_mtu m) c" "unat (wk_fragNo w) + length c < 2 ^ 32"
    and q: "bm_port r (tm_dest m k) = Some q" "port_up q" "part_received (wk_fragNo w) q D" "0 \<le> wk_tdest w" "wk_tdest w \<le> 255"
    and p': "bufq_ok (tp_inputQueue p')" "\<forall>x \<in> set (bufq_items (tp_inputQueue p')). frame_ok (tm_mtu m) x"
    and A: "map c_bytes (A (tm_dest m k)) = map c_bytes (po_out q) @ [D @ c_bytes c] @ map c_bytes (bufq_items (tp_inputQueue p'))"
  shows "\<exists>m'. bnd (sendFrag junk k) (\<lambda>_. upd (\<lambda>m. m\<lparr>tm_noWork := 0\<rparr>)) n = (Inr (), m') \<and> link_step m r A m' A
    \<and> tm_current m' = tm_current n \<and> tm_numWork m' = tm_numWork m \<and> pending m' k < length c + queue_len p'
    \<and> (\<forall>i < tm_numWork m. i \<noteq> k \<longrightarrow> pending m' i = pending m i)"
proof -
  note base = link_invD [OF inv]
  have l: "k < length (tm_work m)" "k < length (tm_work n)" "w = tm_work n ! k" using base(6) k n(6) by simp_all
  have "nat (wk_tdest w) = tm_dest m k" "tm_mtu n = tm_mtu m" using n(3,7) by simp_all
  from link_send [of r n k junk w c q D] base(2,4) n(2,3,8) l(2,3) junk w q this
  obtain e w' f q' cur where s: "sendFrag junk k n = (Inr e, tm_sent k w' f e n)" "wk_tdest w' = wk_tdest w" "wk_stripHeader w'"
    "work_len w' < length c" "c_size f < tm_mtu m + 24" "td2_thread [f] r = (Inr (), bm_setPort (tm_dest m k) q' r)" "port_up q'" "half_sent (tm_mtu m) w' q' cur"
    "map c_bytes (po_out q') @ cur = map c_bytes (po_out q) @ [D @ c_bytes c]" by auto
  let ?m = "(tm_sent k w' f e n)\<lparr>tm_noWork := 0\<rparr>" and ?r = "bm_setPort (tm_dest m k) q' r"
  have d256: "tm_dest m k < 256" using q(4,5) n(7) by simp
  have "link_inv ?m ?r A"
  proof (rule link_update [OF inv k, where w' = w' and p' = p' and q' = q'])
    show "tm_work ?m ! i = tm_work m ! i" if "i < tm_numWork m" "i \<noteq> k" for i using n(6) that by simp
    show "bm_port ?m i = (if i = tm_dest m k then Some p' else bm_port m i)" for i
      unfolding n(9) [symmetric] by (simp add: bm_port_def)
    show "bm_port ?r i = (if i = tm_dest m k then Some q' else bm_port r i)" for i
      by (rule bm_setPort_port [OF base(2) d256])
    have "map c_bytes (A (tm_dest m k)) = map c_bytes (po_out q') @ cur @ map c_bytes (bufq_items (tp_inputQueue p'))"
      using A s(9) by simp
    then show "chan_inv (tm_mtu m) w' p' q' (A (tm_dest m k))"
      using s(2,3,7,8) q(4,5) p' unfolding chan_inv_def by auto
    show "bm_ok ?m" using n(1) by (simp add: bm_ok_def)
  qed (use n base(2) s(2) l(1) in simp_all)
  moreover have "bm_port m i \<noteq> None \<longrightarrow> bm_port ?m i \<noteq> None" for i
    using n(9) [of i] by (auto simp: bm_port_def split: if_splits)
  ultimately have "link_step m r A ?m A"
    unfolding link_step_def using n(3,5) s(5,6) by (intro exI [of _ "[f]"] exI [of _ ?r]) simp
  moreover have port: "bm_port ?m i = (if i = tm_dest m k then Some p' else bm_port m i)" for i
    unfolding n(9) [symmetric] by (simp add: bm_port_def)
  have work: "tm_work ?m ! i = (if i = k then w' else tm_work m ! i)" for i using n(6) l(1) by simp
  have "pending ?m k < length c + queue_len p'"
    unfolding pending_def port work using s(2,4) n(7) by simp
  moreover have "pending ?m i = pending m i" if i: "i < tm_numWork m" "i \<noteq> k" for i
  proof -
    have "tm_dest m i \<noteq> tm_dest m k" using inv k i by (auto simp: link_inv_def link_base_def)
    then show ?thesis unfolding pending_def port work using i(2) by simp
  qed
  moreover have "tm_current ?m = tm_current n" "tm_numWork ?m = tm_numWork m" using n(4) by (simp_all add: tm_sent_def)
  ultimately show ?thesis using s(1) by (simp add: bnd_def upd_app)
qed

text \<open>A turn of the thread at a slot with something to send reduces what is left; otherwise it does nothing.\<close>

definition turn_ok :: "nat \<Rightarrow> tdest2 \<Rightarrow> tdest2 \<Rightarrow> bool" where
  "turn_ok k m m' \<longleftrightarrow> tm_current m' = k \<and> tm_numWork m' = tm_numWork m
     \<and> (if pending m k = 0 then same_link m m' else tm_total m' < tm_total m)"

lemma total_less:
  assumes "tm_numWork m' = tm_numWork m" "k < tm_numWork m" "pending m' k < pending m k"
    "\<forall>i < tm_numWork m. i \<noteq> k \<longrightarrow> pending m' i = pending m i"
  shows "tm_total m' < tm_total m"
  unfolding tm_total_def assms(1) by (rule sum_strict_mono_ex1) (use assms(2-4) in \<open>force+\<close>)

lemma mux_slot_step:
  assumes inv: "link_inv m r A" and k: "tm_current m < tm_numWork m" and junk: "junk_ok junk"
  shows "\<exists>m'. mux_slot junk m = (Inr (), m') \<and> link_step m r A m' A \<and> turn_ok (tm_current m) m m'"
proof -
  let ?k = "tm_current m"
  let ?w = "tm_work m ! ?k" and ?d = "tm_dest m ?k"
  note base = link_invD [OF inv]
  from inv k obtain p q cur where c: "bm_port m ?d = Some p" "bm_port r ?d = Some q"
    "0 \<le> wk_tdest ?w" "wk_tdest ?w \<le> 255" "wk_stripHeader ?w" "port_up q" "bufq_ok (tp_inputQueue p)"
    "\<forall>x \<in> set (bufq_items (tp_inputQueue p)). frame_ok (tm_mtu m) x" "half_sent (tm_mtu m) ?w q cur"
    "map c_bytes (A ?d) = map c_bytes (po_out q) @ cur @ map c_bytes (bufq_items (tp_inputQueue p))"
    by (rule chan_obtain)
  have d256: "?d < 256" using c(3,4) by simp
  have l: "?k < length (tm_work m)" using base(6) k by simp
  show ?thesis
  proof (cases "wk_bc ?w")
    case (Some x)
    then obtain D where D: "tx_ok (tm_mtu m) x" "unat (wk_fragNo ?w) + length x < 2 ^ 32" "part_received (wk_fragNo ?w) q D"
      "cur = [D @ c_bytes x]" using c(9) by (auto simp: half_sent_def)
    have "mux_slot junk m = bnd (sendFrag junk ?k) (\<lambda>_. upd (\<lambda>m. m\<lparr>tm_noWork := 0\<rparr>)) m"
      using Some by (simp add: mux_slot_def reading_app)
    moreover have "\<exists>m'. bnd (sendFrag junk ?k) (\<lambda>_. upd (\<lambda>m. m\<lparr>tm_noWork := 0\<rparr>)) m = (Inr (), m') \<and> link_step m r A m' A
      \<and> tm_current m' = tm_current m \<and> tm_numWork m' = tm_numWork m \<and> pending m' ?k < length x + queue_len p
      \<and> (\<forall>i < tm_numWork m. i \<noteq> ?k \<longrightarrow> pending m' i = pending m i)"
      by (rule slot_send [OF inv k junk, where w = ?w and p' = p and q = q and D = D and c = x])
        (use base(1,3) c D Some in simp_all)
    moreover have "pending m ?k = length x + queue_len p" using Some c(1) by (simp add: pending_def work_len_def)
    ultimately show ?thesis using total_less [OF _ k] unfolding turn_ok_def by (metis less_nat_zero_code)
  next
    case None
    have find: "bm_findPort (wk_tdest ?w) m = Inr (Some p)" using bm_findPort_spec [OF base(1) c(3,4)] c(1) by simp
    let ?at = "\<lambda>iq. bm_setPort ?d (p\<lparr>tp_inputQueue := iq\<rparr>) m"
    show ?thesis
    proof (cases "bufq_items (tp_inputQueue p) = []")
      case True
      have "tryPop (tp_inputQueue p) = (Inr None, tp_inputQueue p)" by (rule bufq.pop_empty [OF c(7) True])
      then have "mux_slot junk m = (Inr (), tm_noWorkHere (?at (tp_inputQueue p)))"
        using None find by (simp add: mux_slot_def reading_app bnd_def liftR_app upd_app andThen_def)
      moreover have "bm_setPort ?d p m = m"
        using c(1) d256 by (simp add: bm_setPort_def bm_port_def list_update_same_conv split: if_splits)
      moreover have "same_link m (tm_noWorkHere m)" by (simp add: same_link_def tm_noWorkHere_def)
      moreover have "pending m ?k = 0" using None c(1) unfolding pending_def work_len_def queue_len_def by (simp only: True option.case list.map sum_list.Nil)
      moreover have "tm_current (tm_noWorkHere m) = ?k" "tm_numWork (tm_noWorkHere m) = tm_numWork m" by (simp_all add: tm_noWorkHere_def)
      ultimately show ?thesis using link_step_same [OF _ inv] by (simp add: turn_ok_def)
    next
      case False
      from bufq.pop_items [OF c(7) False] obtain iq where iq: "tryPop (tp_inputQueue p) = (Inr (Some (hd (bufq_items (tp_inputQueue p)))), iq)"
        "bufq_ok iq" "bufq_items iq = tl (bufq_items (tp_inputQueue p))" by blast
      define x where "x = hd (bufq_items (tp_inputQueue p))"
      have items: "bufq_items (tp_inputQueue p) = x # bufq_items iq" using False iq(3) by (simp add: x_def)
      have x: "tx_ok (tm_mtu m) x" "length x < 2 ^ 32" using c(8) items by (simp_all add: frame_ok_def)
      let ?n = "tm_setWork ?k (wk_reset x ?w) (?at iq)"
      have "mux_slot junk m = bnd (sendFrag junk ?k) (\<lambda>_. upd (\<lambda>m. m\<lparr>tm_noWork := 0\<rparr>)) ?n"
        using None find iq(1) by (simp add: mux_slot_def reading_app bnd_def liftR_app upd_app andThen_def x_def)
      moreover have "\<exists>m'. bnd (sendFrag junk ?k) (\<lambda>_. upd (\<lambda>m. m\<lparr>tm_noWork := 0\<rparr>)) ?n = (Inr (), m') \<and> link_step m r A m' A
        \<and> tm_current m' = tm_current ?n \<and> tm_numWork m' = tm_numWork m \<and> pending m' ?k < length x + queue_len (p\<lparr>tp_inputQueue := iq\<rparr>)
        \<and> (\<forall>i < tm_numWork m. i \<noteq> ?k \<longrightarrow> pending m' i = pending m i)"
      proof (rule slot_send [OF inv k junk, where w = "wk_reset x ?w" and p' = "p\<lparr>tp_inputQueue := iq\<rparr>" and q = q and D = "[]" and c = x])
        show "bm_port ?n i = (if i = ?d then Some (p\<lparr>tp_inputQueue := iq\<rparr>) else bm_port m i)" for i
          unfolding bm_setPort_port [OF base(1) d256, of "p\<lparr>tp_inputQueue := iq\<rparr>" i, symmetric]
          by (simp add: tm_setWork_def bm_port_def)
        show "bm_ok ?n" using base(1) by (simp add: tm_setWork_def bm_ok_def bm_setPort_def)
        show "map c_bytes (A ?d) = map c_bytes (po_out q) @ [[] @ c_bytes x] @ map c_bytes (bufq_items (tp_inputQueue (p\<lparr>tp_inputQueue := iq\<rparr>)))"
          using c(9,10) None items by (simp add: half_sent_def)
      qed (use base(3) c x iq(2) items in \<open>simp_all add: tm_setWork_def bm_setPort_def wk_reset_def part_received_def\<close>)
      moreover have "pending m ?k = length x + queue_len (p\<lparr>tp_inputQueue := iq\<rparr>)"
        using None c(1) items by (simp add: pending_def work_len_def queue_len_def)
      moreover have "tm_current ?n = ?k" by (simp add: tm_setWork_def bm_setPort_def)
      ultimately show ?thesis using total_less [OF _ k] unfolding turn_ok_def by (metis less_nat_zero_code)
    qed
  qed
qed

definition next_slot :: "tdest2 \<Rightarrow> nat" where
  "next_slot m = (if tm_numWork m \<le> tm_current m + 1 then 0 else tm_current m + 1)"

lemma mux_turn_current: "tm_current (mux_turn m) = next_slot m"
  by (simp add: mux_turn_def next_slot_def Let_def)

lemma same_link_pending: "same_link m m' \<Longrightarrow> pending m' k = pending m k \<and> tm_total m' = tm_total m"
proof -
  assume s: "same_link m m'"
  have "pending m' k = pending m k" for k
    unfolding pending_def same_link_port [OF s] using s by (simp add: same_link_def)
  then show ?thesis using s by (simp add: tm_total_def same_link_def)
qed

lemma same_link_trans: "same_link m n \<Longrightarrow> same_link n m' \<Longrightarrow> same_link m m'"
  by (simp add: same_link_def)

lemma mux_round_step:
  assumes inv: "link_inv m r A" and junk: "junk_ok junk"
  shows "\<exists>m'. mux_round junk m = (Inr (), m') \<and> link_step m r A m' A \<and> turn_ok (next_slot m) m m'"
proof -
  have 1: "link_inv (mux_turn m) r A" using inv same_link_inv [OF mux_turn_spec(1)] by blast
  have sl: "same_link m (mux_turn m)" by (rule mux_turn_spec)
  have "tm_current (mux_turn m) < tm_numWork (mux_turn m)"
    using mux_turn_spec [of m] link_invD(5) [OF inv] by (simp add: same_link_def)
  from mux_slot_step [OF 1 this junk] obtain m' where m': "mux_round junk m = (Inr (), m')" "link_step (mux_turn m) r A m' A"
    "turn_ok (next_slot m) (mux_turn m) m'" by (auto simp: mux_round_eq mux_turn_current)
  have "turn_ok (next_slot m) m m'"
    using m'(3) same_link_pending [OF sl] same_link_trans [OF sl] sl
    by (auto simp: turn_ok_def same_link_def split: if_splits)
  then show ?thesis using m'(1) same_link_step [OF sl m'(2)] by blast
qed

text \<open>A user pushes a frame.\<close>

lemma postWork_nth:
  "tm_work (postWork s m) ! i = (if i = s \<and> s < length (tm_work m)
     then (tm_work m ! s)\<lparr>wk_inpQueueFill := wk_inpQueueFill (tm_work m ! s) + 1\<rparr> else tm_work m ! i)"
  by (cases "s < length (tm_work m)") (simp_all add: postWork_def tm_setWork_def nth_list_update list_update_beyond)

lemma postWork_inv: "link_inv (postWork s m) r A = link_inv m r A"
proof -
  have w: "wk_bc (tm_work (postWork s m) ! i) = wk_bc (tm_work m ! i)" "wk_fragNo (tm_work (postWork s m) ! i) = wk_fragNo (tm_work m ! i)"
    "wk_tdest (tm_work (postWork s m) ! i) = wk_tdest (tm_work m ! i)" "wk_stripHeader (tm_work (postWork s m) ! i) = wk_stripHeader (tm_work m ! i)"
    for i by (simp_all add: postWork_nth)
  have h: "half_sent mtu (tm_work (postWork s m) ! i) q cur = half_sent mtu (tm_work m ! i) q cur" for mtu i q cur
    unfolding half_sent_def w ..
  have b: "bm_port (postWork s m) i = bm_port m i" "bm_ok (postWork s m) = bm_ok m" for i
    by (simp_all add: bm_port_def bm_ok_def postWork_def tm_setWork_def)
  have "bm_downstream (postWork s m) = bm_downstream m" "tm_numWork (postWork s m) = tm_numWork m" "tm_upOk (postWork s m) = tm_upOk m"
    "tm_myMTUCached (postWork s m) = tm_myMTUCached m" "length (tm_work (postWork s m)) = length (tm_work m)"
    by (simp_all add: postWork_def tm_setWork_def)
  then show ?thesis
    by (simp add: link_inv_def link_base_def chan_ok_def chan_inv_def b h w)
qed

lemma postWork_total: "tm_total (postWork s m) = tm_total m"
proof -
  have p: "bm_port (postWork s m) i = bm_port m i" for i by (simp add: bm_port_def postWork_def tm_setWork_def)
  have "pending (postWork s m) k = pending m k" for k
    unfolding pending_def p by (simp add: postWork_nth work_len_def)
  then show ?thesis by (simp add: tm_total_def postWork_def tm_setWork_def)
qed

lemma push_step:
  assumes inv: "link_inv m r A" and c: "frame_ok (tm_mtu m) c" and i: "bm_port m i \<noteq> None"
  shows "\<exists>ok m'. tp_tryPush i c m = (Inr ok, m') \<and> link_step m r A m' (if ok then A(i := A i @ [c]) else A)
    \<and> tm_numWork m' = tm_numWork m \<and> tm_total m' = tm_total m + (if ok then length c else 0)"
proof -
  note base = link_invD [OF inv]
  obtain k where k: "k < tm_numWork m" "tm_dest m k = i" using inv i unfolding link_inv_def link_base_def by blast
  from inv k(1) obtain p q cur where o: "bm_port m i = Some p" "bm_port r i = Some q"
    "0 \<le> wk_tdest (tm_work m ! k)" "wk_tdest (tm_work m ! k) \<le> 255" "wk_stripHeader (tm_work m ! k)" "port_up q" "bufq_ok (tp_inputQueue p)"
    "\<forall>x \<in> set (bufq_items (tp_inputQueue p)). frame_ok (tm_mtu m) x" "half_sent (tm_mtu m) (tm_work m ! k) q cur"
    "map c_bytes (A i) = map c_bytes (po_out q) @ cur @ map c_bytes (bufq_items (tp_inputQueue p))"
    unfolding k(2) [symmetric] by (rule chan_obtain)
  have i256: "i < 256" using o(3,4) k(2) by auto
  have at: "bm_downstream m ! i = Some p" using o(1) by (simp add: bm_port_def split: if_splits)
  have same: "link_step m r A m A" using inv by (intro link_step_none) simp_all
  show ?thesis
  proof (cases "port_isOpen p")
    case False
    then show ?thesis using at same by (intro exI [of _ False] exI [of _ m]) (simp add: tp_tryPush_def reading_app ret_app)
  next
    case up: True
    show ?thesis
    proof (cases "bufq_isFull (tp_inputQueue p)")
      case True
      have "bm_setPort i p m = m" using o(1) by (simp add: bm_setPort_def bm_port_def list_update_same_conv split: if_splits)
      moreover have "tryPush c (tp_inputQueue p) = (Inr False, tp_inputQueue p)" using bufq.push_full [OF o(7)] True by simp
      ultimately show ?thesis
        using at up same
        by (intro exI [of _ False] exI [of _ m]) (simp add: tp_tryPush_def reading_app andThen_def bnd_def upd_app liftR_app ret_app)
    next
      case False
      from bufq.push_room [OF o(7) this, of c] obtain iq where iq: "tryPush c (tp_inputQueue p) = (Inr True, iq)" "bufq_ok iq"
        "bufq_items iq = bufq_items (tp_inputQueue p) @ [c]" by blast
      let ?p = "p\<lparr>tp_inputQueue := iq\<rparr>"
      let ?n = "bm_setPort i ?p m" and ?A = "A(i := A i @ [c])"
      have run: "tp_tryPush i c m = (Inr True, postWork (tp_slot p) ?n)"
        using at up iq(1) by (simp add: tp_tryPush_def reading_app andThen_def bnd_def upd_app liftR_app ret_app)
      have n: "bm_port ?n j = (if j = i then Some ?p else bm_port m j)" for j by (rule bm_setPort_port [OF base(1) i256])
      have "link_inv ?n r ?A"
      proof (rule link_update [OF inv k(1), where w' = "tm_work m ! k" and p' = ?p and q' = q])
        show "bm_port ?n j = (if j = tm_dest m k then Some ?p else bm_port m j)" for j using n k(2) by simp
        show "bm_port r j = (if j = tm_dest m k then Some q else bm_port r j)" for j using o(2) k(2) by simp
        show "?A j = A j" if "j \<noteq> tm_dest m k" for j using that k(2) by simp
        have "map c_bytes (?A i) = map c_bytes (po_out q) @ cur @ map c_bytes (bufq_items (tp_inputQueue ?p))"
          using o(10) iq(3) by simp
        then show "chan_inv (tm_mtu m) (tm_work m ! k) ?p q (?A (tm_dest m k))"
          using o iq(2,3) c unfolding k(2) chan_inv_def by auto
      qed (use base in \<open>simp_all add: bm_setPort_def\<close>, simp add: bm_ok_def)
      then have "link_inv (postWork (tp_slot p) ?n) r ?A" by (simp only: postWork_inv)
      moreover have "bm_port (postWork (tp_slot p) ?n) j \<noteq> None" if "bm_port m j \<noteq> None" for j
      proof -
        have "bm_port (postWork (tp_slot p) ?n) j = bm_port ?n j" by (simp add: bm_port_def postWork_def tm_setWork_def)
        then show ?thesis using n [of j] that by simp
      qed
      moreover have "tm_up (postWork (tp_slot p) ?n) = tm_up m" "tm_myMTUCached (postWork (tp_slot p) ?n) = tm_myMTUCached m"
        by (simp_all add: postWork_def tm_setWork_def bm_setPort_def)
      ultimately have "link_step m r A (postWork (tp_slot p) ?n) ?A" by (intro link_step_none)
      moreover have "tm_total (postWork (tp_slot p) ?n) = tm_total m + length c"
      proof -
        have "pending ?n j = pending m j + (if j = k then length c else 0)" if "j < tm_numWork m" for j
        proof -
          have "tm_dest m j = i \<longleftrightarrow> j = k" using inv k that by (auto simp: link_inv_def link_base_def)
          then show ?thesis
            using o(1) iq(3) k(2) unfolding pending_def n by (simp add: queue_len_def bm_setPort_def)
        qed
        then have "tm_total ?n = (\<Sum>j < tm_numWork m. pending m j + (if j = k then length c else 0))"
          unfolding tm_total_def by (simp add: bm_setPort_def)
        also have "\<dots> = tm_total m + length c" using k(1) by (simp add: tm_total_def sum.distrib)
        finally show ?thesis by (simp only: postWork_total)
      qed
      moreover have "tm_numWork (postWork (tp_slot p) ?n) = tm_numWork m" by (simp add: postWork_def tm_setWork_def bm_setPort_def)
      ultimately show ?thesis using run by auto
    qed
  qed
qed

end
