(* ===== verification/Tdest2Run.thy ===== *)
theory Tdest2Run
  imports Tdest2Link
begin

text \<open>
  Runs of the two ends of the second packetizer: from the creation of the ports on, frames are pushed and the thread takes
  its turns in any order. What arrives is a prefix of what was pushed, port by port; when the thread has had enough turns,
  everything has arrived.
\<close>

section \<open>Creating the ports\<close>

text \<open>The ports that a program creates and opens: channel, the depths of the queues, and what \<^verbatim>\<open>fragNo_\<close> holds.\<close>

type_synonym port_spec = "int \<times> nat \<times> nat \<times> u32"

fun td2_ports :: "port_spec list \<Rightarrow> (tdest2, unit) sem" where
  "td2_ports [] = ret ()"
| "td2_ports ((d, oq, iq, j) # ps) =
     andThen (td2_createPort d True oq iq j) (andThen (upd (tp_open (nat d))) (td2_ports ps))"

definition td2_start :: "work2 list \<Rightarrow> u32 \<Rightarrow> port_spec list \<Rightarrow> tdest2" where
  "td2_start junk upMTU ps = snd (td2_ports ps (td2_new junk True upMTU))"

definition specs_ok :: "port_spec list \<Rightarrow> bool" where
  "specs_ok ps \<longleftrightarrow> ps \<noteq> [] \<and> distinct (map fst ps) \<and> (\<forall>(d, oq, iq, j) \<in> set ps. 0 \<le> d \<and> d \<le> 255 \<and> 0 < oq)"

definition created :: "int list \<Rightarrow> u32 \<Rightarrow> tdest2 \<Rightarrow> bool" where
  "created ds mtu m \<longleftrightarrow> bm_ok m \<and> length (tm_work m) = 256 \<and> tm_numWork m = length ds \<and> tm_upOk m \<and> tm_up m = []
     \<and> tm_myMTUCached m = mtu \<and> (\<forall>k < 256. wk_bc (tm_work m ! k) = None)
     \<and> (\<forall>k < length ds. wk_tdest (tm_work m ! k) = ds ! k \<and> wk_stripHeader (tm_work m ! k))
     \<and> (\<forall>i. bm_port m i \<noteq> None \<longleftrightarrow> int i \<in> set ds)
     \<and> (\<forall>i p. bm_port m i = Some p \<longrightarrow> port_up p \<and> po_out p = [] \<and> bufq_ok (tp_inputQueue p) \<and> bufq_items (tp_inputQueue p) = [])"

lemma created_length:
  assumes "distinct (ds :: int list)" "\<forall>d \<in> set ds. 0 \<le> d \<and> d \<le> 255" "d \<notin> set ds" "0 \<le> d" "d \<le> 255"
  shows "length ds < 256"
proof -
  have "set ds \<subseteq> {0..255} - {d}" using assms by auto
  then have "card (set ds) \<le> card ({0..255 :: int} - {d})" by (intro card_mono) auto
  then show ?thesis using assms(1,4,5) distinct_card [OF assms(1)] by (simp add: card_Diff_singleton)
qed

lemma create_port:
  assumes m: "created ds mtu m" and ds: "distinct ds" "\<forall>d \<in> set ds. 0 \<le> d \<and> d \<le> 255"
    and d: "d \<notin> set ds" "0 \<le> d" "d \<le> 255" and oq: "0 < oq"
  shows "\<exists>m'. td2_createPort d True oq iq j m = (Inr (), m') \<and> created (ds @ [d]) mtu (tp_open (nat d) m')"
proof -
  let ?p = "tp_new d True oq iq j"
  let ?q = "?p\<lparr>tp_slot := length ds\<rparr>"
  have l: "length ds < 256" by (rule created_length [OF ds d])
  have ok: "bm_ok m" "length (tm_work m) = 256" "tm_numWork m = length ds" using m by (simp_all add: created_def)
  have "int (nat d) \<notin> set ds" using d by simp
  then have "bm_port m (nat d) = None" using m unfolding created_def by blast
  moreover have d256: "nat d < 256" using d by simp
  ultimately have free: "bm_downstream m ! nat d = None" "nat d < length (bm_downstream m)"
    using ok(1) by (simp_all add: bm_port_def bm_ok_def)
  let ?w = "(tm_work m ! length ds)\<lparr>wk_tdest := d, wk_stripHeader := True\<rparr>"
  let ?m = "m\<lparr>bm_downstream := (bm_downstream m)[nat d := Some ?q], bm_nPorts := bm_nPorts m + 1,
              tm_work := (tm_work m)[length ds := ?w], tm_numWork := length ds + 1\<rparr>"
  have "tp_dest ?p = d" "tp_stripHeader ?p" by (simp_all add: tp_new_def port.defs port_new_def)
  then have run: "td2_createPort d True oq iq j m = (Inr (), ?m)"
    using free d ok l
    by (simp add: td2_createPort_def td2_addPort_def bm_addPort_def andThen_def bnd_def reading_app upd_app cond_app raise_app
        DEST_MIN_def DEST_MAX_def Let_def bm_setPort_def)
  let ?o = "port_open ?q"
  have op: "tp_open (nat d) ?m = ?m\<lparr>bm_downstream := (bm_downstream m)[nat d := Some ?o]\<rparr>"
    using free by (simp add: tp_open_def bm_setPort_def)
  have o: "port_up ?o" "po_out ?o = []" "bufq_ok (tp_inputQueue ?o)" "bufq_items (tp_inputQueue ?o) = []"
    using oq
    by (simp_all add: bufq_create_ok [THEN conjunct1] bufq_create_ok [THEN conjunct2, simplified] port_up_def port_open_def port_isOpen_def tp_new_def port.defs port_new_def)
  define n o' where "n = tp_open (nat d) ?m" and "o' = ?o"
  note o = o [folded o'_def]
  have port: "bm_port n i = (if i = nat d then Some o' else bm_port m i)" for i
    using free unfolding n_def op o'_def by (simp add: bm_port_def)
  have work: "tm_work n ! k = (if k = length ds then ?w else tm_work m ! k)" for k
    using l ok unfolding n_def op by simp
  have rest: "bm_ok n" "length (tm_work n) = 256" "tm_numWork n = length (ds @ [d])" "tm_upOk n" "tm_up n = []" "tm_myMTUCached n = mtu"
    using ok m unfolding n_def op by (simp_all add: bm_ok_def created_def)
  have dom: "bm_port n i \<noteq> None \<longleftrightarrow> int i \<in> set (ds @ [d])" for i
    using m d unfolding port created_def by auto
  have none: "wk_bc (tm_work n ! k) = None" if "k < 256" for k using m that l unfolding work created_def by simp
  have slot: "wk_tdest (tm_work n ! k) = (ds @ [d]) ! k \<and> wk_stripHeader (tm_work n ! k)" if "k < length (ds @ [d])" for k
    using m that unfolding work created_def by (auto simp: nth_append)
  have pp: "port_up p \<and> po_out p = [] \<and> bufq_ok (tp_inputQueue p) \<and> bufq_items (tp_inputQueue p) = []" if "bm_port n i = Some p" for i p
  proof (cases "i = nat d")
    case True
    then have "p = o'" using that by (simp add: port)
    then show ?thesis using o by blast
  next
    case False
    then have "bm_port m i = Some p" using that by (simp add: port)
    then show ?thesis using m unfolding created_def by blast
  qed
  have "created (ds @ [d]) mtu n"
    unfolding created_def using rest none slot dom pp by (intro conjI allI impI) blast+
  then show ?thesis using run n_def by blast
qed

lemma create_ports:
  "created ds mtu m \<Longrightarrow> distinct (ds @ map fst ps) \<Longrightarrow> \<forall>d \<in> set ds. 0 \<le> d \<and> d \<le> 255
   \<Longrightarrow> \<forall>(d, oq, iq, j) \<in> set ps. 0 \<le> d \<and> d \<le> 255 \<and> 0 < oq
   \<Longrightarrow> \<exists>m'. td2_ports ps m = (Inr (), m') \<and> created (ds @ map fst ps) mtu m'"
proof (induction ps arbitrary: ds m)
  case Nil
  then show ?case by (simp add: ret_app)
next
  case (Cons x ps)
  obtain d oq iq j where x: "x = (d, oq, iq, j)" by (cases x) auto
  from create_port [OF Cons.prems(1), of d oq iq j] Cons.prems(2-4)
  obtain m' where m': "td2_createPort d True oq iq j m = (Inr (), m')" "created (ds @ [d]) mtu (tp_open (nat d) m')"
    by (auto simp: x)
  have "td2_ports (x # ps) m = td2_ports ps (tp_open (nat d) m')" using m'(1) by (simp add: x andThen_def bnd_def upd_app)
  moreover have "\<exists>m''. td2_ports ps (tp_open (nat d) m') = (Inr (), m'') \<and> created ((ds @ [d]) @ map fst ps) mtu m''"
    by (rule Cons.IH [OF m'(2)]) (use Cons.prems in \<open>auto simp: x\<close>)
  ultimately show ?case by (simp add: x)
qed

lemma start_created:
  assumes "specs_ok ps" "length ws = 256"
  shows "created (map fst ps) (td2_getMTU upMTU) (td2_start ws upMTU ps)"
proof -
  have "created [] (td2_getMTU upMTU) (td2_new ws True upMTU)"
    using assms(2) by (simp add: created_def td2_new_def bytemux.defs bm_new_def bm_ok_def bm_port_def)
  then have "\<exists>m'. td2_ports ps (td2_new ws True upMTU) = (Inr (), m') \<and> created ([] @ map fst ps) (td2_getMTU upMTU) m'"
    by (rule create_ports) (use assms(1) in \<open>simp_all add: specs_ok_def\<close>)
  then show ?thesis by (auto simp: td2_start_def)
qed

lemma sint_negative_iff_bit: "sint (w :: u32) < 0 \<longleftrightarrow> bit w 31"
  using bit_last_iff [of w] by simp

lemma getMTU_small: "unat (td2_getMTU u) < 2 ^ 31"
proof (cases "sint (u - 24) < 0")
  case False
  then have b: "\<not> bit (u - 24) 31" by (simp add: sint_negative_iff_bit)
  have "take_bit 31 (u - 24) = u - 24"
  proof (rule bit_word_eqI)
    fix n
    assume "n < LENGTH(32)"
    then show "bit (take_bit 31 (u - 24)) n = bit (u - 24) n" using b by (cases "n = 31") (auto simp: bit_simps)
  qed
  then have "unat (u - 24) < 2 ^ 31" by (metis unsigned_take_bit_eq take_bit_nat_less_exp)
  then show ?thesis using False by (simp add: td2_getMTU_def Let_def)
qed (simp add: td2_getMTU_def Let_def)

lemma start_link:
  assumes "specs_ok ps" "specs_ok ps'" "map fst ps' = map fst ps" "length ws = 256" "length ws' = 256"
  shows "link_inv (td2_start ws u ps) (td2_start ws' u' ps') (\<lambda>_. [])"
    and "tm_total (td2_start ws u ps) = 0" and "tm_up (td2_start ws u ps) = []"
    and "tm_numWork (td2_start ws u ps) = length ps" "tm_myMTUCached (td2_start ws u ps) = td2_getMTU u"
    and "\<And>i. bm_port (td2_start ws u ps) i \<noteq> None \<longleftrightarrow> int i \<in> fst ` set ps"
proof -
  let ?m = "td2_start ws u ps" and ?r = "td2_start ws' u' ps'" and ?ds = "map fst ps"
  note m = start_created [OF assms(1,4), of u, unfolded created_def]
  note r = start_created [OF assms(2,5), of u', unfolded created_def assms(3)]
  have n: "0 < length ps" "length ps \<le> 256"
  proof -
    show "0 < length ps" using assms(1) by (simp add: specs_ok_def)
    have "set ?ds \<subseteq> {0..255}" using assms(1) by (auto simp: specs_ok_def)
    then have "card (set ?ds) \<le> card {0..255 :: int}" by (intro card_mono) auto
    then show "length ps \<le> 256" using distinct_card [of ?ds] assms(1) by (simp add: specs_ok_def)
  qed
  have d: "tm_dest ?m k = nat (?ds ! k)" "int (nat (?ds ! k)) = ?ds ! k" "?ds ! k \<in> set ?ds"
    "0 \<le> ?ds ! k" "?ds ! k \<le> 255" if "k < length ps" for k
  proof -
    show "tm_dest ?m k = nat (?ds ! k)" using m that by simp
    show "?ds ! k \<in> set ?ds" using that by (intro nth_mem) simp
    then show "int (nat (?ds ! k)) = ?ds ! k" "0 \<le> ?ds ! k" "?ds ! k \<le> 255" using assms(1) by (auto simp: specs_ok_def)
  qed
  have inj: "k = j" if "k < length ps" "j < length ps" "tm_dest ?m k = tm_dest ?m j" for k j
  proof -
    have "?ds ! k = ?ds ! j" using d(1,2) that by metis
    then show ?thesis using assms(1) that nth_eq_iff_index_eq [of ?ds k j] by (simp add: specs_ok_def)
  qed
  have dom: "\<exists>k < length ps. tm_dest ?m k = i" if "bm_port ?m i \<noteq> None" for i
  proof -
    have "int i \<in> set ?ds" using m that by blast
    then obtain k where "k < length ps" "?ds ! k = int i" by (metis in_set_conv_nth length_map)
    then show ?thesis using d(1) by fastforce
  qed
  have chan: "chan_ok ?m ?r (\<lambda>_. []) k" if k: "k < length ps" for k
  proof -
    have "int (tm_dest ?m k) \<in> set ?ds" using d k by simp
    then obtain p q where p: "bm_port ?m (tm_dest ?m k) = Some p" and q: "bm_port ?r (tm_dest ?m k) = Some q" using m r by blast
    have "wk_bc (tm_work ?m ! k) = None" "0 \<le> wk_tdest (tm_work ?m ! k)" "wk_tdest (tm_work ?m ! k) \<le> 255" "wk_stripHeader (tm_work ?m ! k)"
      using m k n(2) d(4,5) [OF k] by simp_all
    moreover have "bufq_ok (tp_inputQueue p)" "bufq_items (tp_inputQueue p) = []" using m p by blast+
    moreover have "port_up q" "po_out q = []" using r q by blast+
    ultimately have "chan_inv (tm_mtu ?m) (tm_work ?m ! k) p q []"
      unfolding chan_inv_def half_sent_def by (simp del: bufq_items_Nil)
    then show ?thesis using p q by (auto simp: chan_ok_def)
  qed
  show "link_inv ?m ?r (\<lambda>_. [])"
    unfolding link_inv_def link_base_def using m r n inj dom chan getMTU_small [of u] by auto
  show "tm_total ?m = 0"
  proof -
    have "pending ?m k = 0" if "k < length ps" for k
    proof -
      have "wk_bc (tm_work ?m ! k) = None" using m that n(2) by simp
      moreover have "bufq_items (tp_inputQueue p) = []" if "bm_port ?m i = Some p" for i p using m that by blast
      ultimately show ?thesis by (auto simp: pending_def work_len_def queue_len_def split: option.split simp del: bufq_items_Nil)
    qed
    then show ?thesis using m by (simp add: tm_total_def)
  qed
  show "tm_up ?m = []" "tm_numWork ?m = length ps" "tm_myMTUCached ?m = td2_getMTU u"
    "\<And>i. bm_port ?m i \<noteq> None \<longleftrightarrow> int i \<in> fst ` set ps" using m by simp_all
qed

end
