(* ===== verification/Tdest2Deliver.thy ===== *)
theory Tdest2Deliver
  imports Tdest2Run
begin

text \<open>
  What arrives through the multiplexer and the demultiplexer of the second packetizer, for any interleaving of the users'
  pushes and the turns of the thread.
\<close>

section \<open>Runs\<close>

text \<open>A user pushes a frame into a port; or the thread has a turn (its argument is the memory of a buffer from the free list).\<close>

datatype td2_event = UserPush nat chain | MuxRound "u8 list"



definition of_port :: "nat \<Rightarrow> (nat \<times> chain) list \<Rightarrow> chain list" where
  "of_port i acc = map snd (filter (\<lambda>(j, c). j = i) acc)"

fun event_ok :: "nat \<Rightarrow> int set \<Rightarrow> td2_event \<Rightarrow> bool" where
  "event_ok mtu ds (UserPush i c) \<longleftrightarrow> int i \<in> ds \<and> frame_ok mtu c"
| "event_ok mtu ds (MuxRound junk) \<longleftrightarrow> junk_ok junk"

lemma of_port_simps [simp]: "of_port i [] = []" "of_port i (a @ b) = of_port i a @ of_port i b"
  "of_port i [(j, c)] = (if j = i then [c] else [])"
  by (simp_all add: of_port_def)







section \<open>Enough turns\<close>







section \<open>What arrives\<close>



lemma event_ok_mtu: "td2_getMTU u = 0 \<Longrightarrow> event_ok (unat (td2_getMTU u)) ds (UserPush i c) \<Longrightarrow> False"
proof -
  assume "td2_getMTU u = 0" "event_ok (unat (td2_getMTU u)) ds (UserPush i c)"
  then have c: "0 < c_size c" "\<forall>b \<in> set c. b_size b = 0" by (simp_all add: frame_ok_def tx_ok_def)
  have "\<forall>b \<in> set c. b_size b = 0 \<Longrightarrow> c_size c = 0" by (induction c) auto
  then show False using c by simp
qed



end
