(* ===== verification/Tdest2Examples.thy ===== *)
theory Tdest2Examples
  imports Tdest2Deliver
begin











end
