(* ===== verification/Tdest2Faults.thy ===== *)
theory Tdest2Faults
  imports Tdest2Rx
begin

text \<open>A fragment that the receiving port of the second packetizer damages: its tail begins in one buffer and ends in the
  next one.\<close>

definition split_buf :: "u8 list \<Rightarrow> buf" where
  "split_buf v = \<lparr>b_data = v @ replicate 28 0, b_beg = 0, b_end = length v\<rparr>"

definition frag_head :: "u8 list" where "frag_head = [0x22, 2, 5, 0, 0, 0, 0, 0x80, 1, 2, 3, 4, 5, 6, 7, 8]"

lemma split_buf_simps [simp]:
  "b_size (split_buf v) = length v" "b_view (split_buf v) = v @ replicate 28 0" "b_payload (split_buf v) = v"
  by (simp_all add: split_buf_def b_size_def b_view_def b_payload_def)

definition whole_frag :: chain where
  "whole_frag = [split_buf (frag_head @ [0, 1, 8, 0, 0, 0, 0, 0])]"

definition split_frag :: chain where
  "split_frag = [split_buf (frag_head @ [0, 1, 8, 0]), split_buf [0, 0, 0, 0]]"

lemma frag_head_length [simp]: "length frag_head = 16" by (simp add: frag_head_def)

lemma split_buf_ok: "length v < 60000 \<Longrightarrow> b_ok (split_buf v)"
  by (simp add: split_buf_def b_ok_def b_capa_def)

lemma frag_head_parse: "\<exists>h. (\<forall>g s. 8 \<le> s \<longrightarrow> d2_parse (frag_head @ r) s g = (True, h)) \<and> ph_fragNo h = 0 \<and> ph_tDest h = 5"
proof -
  have p: "fst (d2_parse frag_head 8 (d2_new 0 0)) \<and> ph_fragNo (snd (d2_parse frag_head 8 (d2_new 0 0))) = 0
    \<and> ph_tDest (snd (d2_parse frag_head 8 (d2_new 0 0))) = 5" by code_simp
  moreover have "d2_parse (frag_head @ r) s g = d2_parse frag_head 8 (d2_new 0 0)" if "8 \<le> s" for g s
  proof -
    have "d2_parse (frag_head @ r) s g = d2_parse frag_head s g" by (rule d2_parse_cong) simp
    also have "\<dots> = d2_parse frag_head 8 (d2_new 0 0)"
      using that p by (auto simp: d2_parse_def ph_parse_def HEADER_SIZE_def DEPACK2_def Let_def)
    finally show ?thesis .
  qed
  ultimately show ?thesis using p by (metis prod.collapse)
qed

lemma frag_head_first: "d2_isFirst (frag_head @ r)"
proof -
  have "d2_isFirst frag_head" by code_simp
  then show ?thesis using d2_isFirst_cong [of "frag_head @ r" frag_head] by simp
qed

lemma whole_frag_received: "\<exists>f. rx_fragment True whole_frag = Inr (True, True, 0, f) \<and> c_bytes f = [1, 2, 3, 4, 5, 6, 7, 8]"
proof -
  let ?T = "[0, 1, 8, 0, 0, 0, 0, 0] :: u8 list"
  have T: "parseTailEOF DEPACK2 ?T" "parseNumLanes ?T = Inr 8" by code_simp+
  obtain h where h: "\<forall>g s. 8 \<le> s \<longrightarrow> d2_parse (b_view (hd whole_frag)) s g = (True, h)" "ph_fragNo h = 0" "ph_tDest h = 5"
    using frag_head_parse [of "?T @ replicate 28 0"] by (auto simp: whole_frag_def)
  have "c_bytes whole_frag = take 8 frag_head @ [1, 2, 3, 4, 5, 6, 7, 8] @ [] @ ?T"
    by (simp add: whole_frag_def frag_head_def)
  then have "frag_ok whole_frag 5 0 True True [1, 2, 3, 4, 5, 6, 7, 8]"
    unfolding frag_ok_def
    using h T frag_head_first by (intro conjI exI [of _ h] exI [of _ "take 8 frag_head"] exI [of _ "[]"] exI [of _ ?T] exI [of _ 8])
      (simp_all add: whole_frag_def split_buf_ok)
  then show ?thesis using rx_fragment_ok by blast
qed

lemma split_frag_received: "\<exists>f. rx_fragment True split_frag = Inr (True, False, 0, f) \<and> c_bytes f = []"
proof -
  have T: "\<not> parseTailEOF DEPACK2 (replicate 8 0)" "parseNumLanes (replicate 8 0) = Inr 0" by code_simp+
  have tl: "rx_tail split_frag = Inr (replicate 8 0)"
    by (simp add: rx_tail_def split_frag_def eval_nat_numeral frag_head_def)
  let ?b = "split_buf (frag_head @ [0, 1, 8, 0])" and ?t = "split_buf [0, 0, 0, 0]"
  obtain h where h: "d2_of (b_view ?b) (b_size ?b) = Inr h" "ph_fragNo h = 0"
    using frag_head_parse [of "[0, 1, 8, 0] @ replicate 28 0"] by (auto simp: d2_of_def)
  have b: "b_ok ?b" "b_ok ?t" "8 \<le> b_size ?b" by (simp_all add: split_buf_ok)
  from advance_buf [OF b(1,3)] obtain b' where b': "b_adjPayload 8 ?b = (Inr True, b')" "b_ok b'" "b_size b' = 12" by auto
  have "c_ok [?t, b']" "16 \<le> c_size [?t, b']" using b b' by simp_all
  from rx_strip_bytes [OF this] obtain rc where rc: "rx_strip 16 [?t, b'] = Inr rc" "c_bytes (rev rc) = []"
    using b' by auto
  have "rx_fragment True split_frag = Inr (True, False, 0, rev rc)"
    using tl T h rc(1) b' frag_head_first by (simp add: rx_fragment_def split_frag_def Let_def)
  then show ?thesis using rc(2) by blast
qed

text \<open>Two fragments with the same bytes: the one in a single buffer comes out whole, the one with its tail in two buffers
  neither as the end of its frame nor with its data.\<close>

lemma split_frag_damaged:
  "c_bytes split_frag = c_bytes whole_frag
    \<and> (\<exists>f. rx_fragment True whole_frag = Inr (True, True, 0, f) \<and> c_bytes f = [1, 2, 3, 4, 5, 6, 7, 8])
    \<and> (\<exists>f. rx_fragment True split_frag = Inr (True, False, 0, f) \<and> c_bytes f = [])"
  using whole_frag_received split_frag_received by (simp add: split_frag_def whole_frag_def)

section \<open>Tails in two buffers\<close>

text \<open>The last eight bytes of a fragment: the tail as it was sent.\<close>

definition sent_tail :: "chain \<Rightarrow> u8 list" where
  "sent_tail c = drop (length (c_bytes c) - 8) (c_bytes c)"

text \<open>The buffer \<open>p\<close> with the end mark changed, when \<open>n\<close> bytes of the tail are in the next buffer.\<close>

definition flip_end :: "nat \<Rightarrow> buf \<Rightarrow> buf" where
  "flip_end n p = p\<lparr>b_data := (b_data p)[b_end p - (7 - n) := b_data p ! (b_end p - (7 - n)) XOR 1]\<rparr>"

lemma rx_fragment_eof: "rx_fragment sh bc = Inr (s, e, n, c) \<Longrightarrow> \<exists>tl. rx_tail bc = Inr tl \<and> e = parseTailEOF DEPACK2 tl"
  by (auto simp: rx_fragment_def Let_def split: list.splits sum.splits if_splits)

lemma flip_end_payload:
  assumes "b_ok p" "n \<le> 6" "8 - n \<le> b_size p"
  shows "b_ok (flip_end n p)" "b_size (flip_end n p) = b_size p"
    "b_payload (flip_end n p) = (b_payload p)[b_size p - (7 - n) := b_payload p ! (b_size p - (7 - n)) XOR 1]"
proof -
  note z = b_size_ok [OF assms(1)]
  show ok: "b_ok (flip_end n p)" and sz: "b_size (flip_end n p) = b_size p"
    using assms(1) by (simp_all add: flip_end_def b_ok_def b_size_def b_capa_def)
  have i: "b_end p - (7 - n) = b_beg p + (b_size p - (7 - n))" "b_size p - (7 - n) < b_size p" using z assms(2,3) by linarith+
  have "b_payload (flip_end n p) = take (b_size p) (drop (b_beg p) ((b_data p)[b_beg p + (b_size p - (7 - n)) :=
      b_data p ! (b_beg p + (b_size p - (7 - n))) XOR 1]))"
    using i(1) sz by (simp add: b_payload_def b_view_def) (simp add: flip_end_def)
  also have "\<dots> = (b_payload p)[b_size p - (7 - n) := b_data p ! (b_beg p + (b_size p - (7 - n))) XOR 1]"
    by (simp add: b_payload_def b_view_def drop_update_swap take_update_swap)
  also have "b_data p ! (b_beg p + (b_size p - (7 - n))) = b_payload p ! (b_size p - (7 - n))"
    using i(2) z by (simp add: b_payload_def b_view_def)
  finally show "b_payload (flip_end n p) = (b_payload p)[b_size p - (7 - n) := b_payload p ! (b_size p - (7 - n)) XOR 1]" .
qed

text \<open>The end mark is the lowest bit of the second byte of the tail.\<close>

lemma sent_tail_split:
  assumes "b_ok p" "b_ok t" "b_size t \<le> 6" "8 - b_size t \<le> b_size p"
  shows "parseTailEOF DEPACK2 (sent_tail (i @ [p, t])) = bit (b_payload p ! (b_size p - (7 - b_size t))) 0"
proof -
  let ?n = "b_size t"
  have l: "length (b_payload p) = b_size p" "length (b_payload t) = ?n" using assms(1,2) length_payload by auto
  have "sent_tail (i @ [p, t]) = drop (b_size p - (8 - ?n)) (b_payload p) @ b_payload t"
    using assms(3,4) l by (simp add: sent_tail_def)
  moreover have "b_size p - (8 - ?n) + 1 = b_size p - (7 - ?n)" "1 < b_size p - (b_size p - (8 - ?n))"
    using assms(3,4) by linarith+
  then have "(drop (b_size p - (8 - ?n)) (b_payload p) @ b_payload t) ! 1 = b_payload p ! (b_size p - (7 - ?n))"
    using l by (simp add: nth_append del: add_Suc_right)
  ultimately show ?thesis by (simp add: parseTailEOF_lbit lbit_def)
qed

text \<open>C39: Of the end mark of a fragment whose tail is spread over two buffers (with the mark in the first of them) the receiver
  sees nothing: when the mark is changed the receiver still reads the same tail, from the memory of the last buffer, and so
  one of the two fragments, which are the same but for their end marks, is taken for what it is not. This holds for whatever
  fragment, wherever the tail is divided before its third byte, and whatever is in the memory.\<close>

theorem tdest2_split_tail:
  assumes "b_ok p" "b_ok t" "b_size t \<le> 6" "8 - b_size t \<le> b_size p" "b_size p \<le> length (b_view t)"
  shows "\<exists>tl. rx_tail (i @ [p, t]) = Inr tl \<and> rx_tail (i @ [flip_end (b_size t) p, t]) = Inr tl
    \<and> tl = take (8 - b_size t) (drop (b_size p - (8 - b_size t)) (b_view t)) @ b_payload t
    \<and> parseTailEOF DEPACK2 (sent_tail (i @ [flip_end (b_size t) p, t])) = (\<not> parseTailEOF DEPACK2 (sent_tail (i @ [p, t])))
    \<and> (\<forall>s e m c s' e' m' c'. rx_fragment sh (i @ [p, t]) = Inr (s, e, m, c)
        \<longrightarrow> rx_fragment sh (i @ [flip_end (b_size t) p, t]) = Inr (s', e', m', c') \<longrightarrow> e = e')"
proof -
  let ?n = "b_size t" and ?p = "flip_end (b_size t) p"
  let ?k = "b_size p - (7 - ?n)"
  note f = flip_end_payload [OF assms(1,3,4)]
  let ?tl = "take (8 - ?n) (drop (b_size p - (8 - ?n)) (b_view t)) @ b_payload t"
  have tl: "rx_tail (i @ [p, t]) = Inr ?tl"
    using assms(3-5) by (simp add: rx_tail_def Let_def butlast_append not_less b_payload_def)
  have same: "rx_tail (i @ [?p, t]) = rx_tail (i @ [p, t])"
    by (simp add: rx_tail_def Let_def butlast_append f(2))
  have "?k < length (b_payload p)" using length_payload [OF assms(1)] assms(3,4) by simp
  then have "bit (b_payload ?p ! ?k) 0 = (\<not> bit (b_payload p ! ?k) 0)"
    unfolding f(3) by (simp add: bit_xor_iff)
  moreover have "parseTailEOF DEPACK2 (sent_tail (i @ [?p, t])) = bit (b_payload ?p ! ?k) 0"
    using sent_tail_split [OF f(1) assms(2,3)] assms(4) unfolding f(2) by blast
  ultimately have "parseTailEOF DEPACK2 (sent_tail (i @ [?p, t])) = (\<not> parseTailEOF DEPACK2 (sent_tail (i @ [p, t])))"
    using sent_tail_split [OF assms(1-4)] by simp
  with tl same show ?thesis by (metis rx_fragment_eof sum.inject(2))
qed

lemma tdest2_split_tail_witness:
  "\<exists>tl. rx_tail split_frag = Inr tl \<and> parseTailEOF DEPACK2 (sent_tail split_frag) \<and> \<not> parseTailEOF DEPACK2 tl"
proof -
  let ?p = "split_buf (frag_head @ [0, 1, 8, 0])" and ?t = "split_buf [0, 0, 0, 0]"
  have e: "b_ok ?p" "b_ok ?t" "b_size ?t \<le> 6" "8 - b_size ?t \<le> b_size ?p" "b_size ?p \<le> length (b_view ?t)"
    by (simp_all add: split_buf_ok)
  have "parseTailEOF DEPACK2 (sent_tail ([] @ [?p, ?t]))"
    using sent_tail_split [OF e(1-4), of "[]"] by (simp add: frag_head_def bit_0)
  moreover have "\<not> parseTailEOF DEPACK2 (replicate 8 0)" by code_simp
  moreover have "rx_tail split_frag = Inr (replicate 8 0)"
    by (simp add: rx_tail_def split_frag_def eval_nat_numeral frag_head_def)
  ultimately show ?thesis using tdest2_split_tail [OF e, of "[]" True] by (auto simp: split_frag_def)
qed

end
