(* ===== verification/DepackTx.thy ===== *)
theory DepackTx
  imports DepackProps Tdest2Tx
begin

text \<open>
  Sending by the packetizer of version 0 (\<open>processOutput\<close> and \<open>push\<close> of \<^verbatim>\<open>src/src/cpsw_proto_mod_depack.cc\<close>): a frame is
  cut where its buffers meet, each part gets a header before it and a tail byte behind it. The memory of buffers from the
  free list is an argument.
\<close>

section \<open>Operations\<close>

text \<open>\<open>px_up\<close> holds what has been pushed to the upstream door, \<open>px_upOk\<close> is what such a push returns, \<open>px_isOpen\<close>
  whether the module itself is open.\<close>

record depack_tx = depack +
  px_isOpen :: bool
  px_upOk :: bool
  px_up :: "chain list"

definition SAFE_MTU :: u32 where "SAFE_MTU = 1024"

definition fitsInMTU :: "u32 \<Rightarrow> (depack_tx, bool) sem" where
  "fitsInMTU sizeBytes =
     (if sizeBytes \<le> SAFE_MTU then ret True
      else andThen (cond (\<lambda>d. dk_cachedMTU d = 0) (upd (\<lambda>d. d\<lparr>dk_cachedMTU := dk_upMTU d\<rparr>)) (ret ()))
        (reading dk_cachedMTU (\<lambda>mtu. ret (sizeBytes \<le> mtu))))"

definition tail_byte :: "bool \<Rightarrow> buf \<Rightarrow> buf" where
  "tail_byte eof b = (let at = b_end b - 1 in
     b\<lparr>b_data := take at (b_data b) @ insertTailEOF AXIS eof (iniTail AXIS (drop at (b_data b)))\<rparr>)"

definition appendTailByte :: "bool \<Rightarrow> u8 list \<Rightarrow> chain \<Rightarrow> (depack_tx, chain) sem" where
  "appendTailByte isEof junk bc = (let b = last bc; new_sz = b_size b + ly_tailSize AXIS in
     bnd (fitsInMTU (of_nat new_sz)) (\<lambda>fits.
       if fits
       then (case b_setSize new_sz b of (Inl e, _) \<Rightarrow> raise e | (Inr _, b) \<Rightarrow> ret (butlast bc @ [tail_byte isEof b]))
       else (case b_setSize (ly_tailSize AXIS) (b_fresh junk) of (Inl e, _) \<Rightarrow> raise e
             | (Inr _, b) \<Rightarrow> ret (bc @ [tail_byte isEof b]))))"

text \<open>The loop that moves buffers to the part to be sent.\<close>

fun px_move :: "nat \<Rightarrow> chain \<Rightarrow> chain \<Rightarrow> (depack_tx, nat \<times> chain \<times> chain) sem" where
  "px_move sz res [] = raise (Undefined ''null buffer'')"
| "px_move sz res (b # r) = bnd (fitsInMTU (of_nat (sz + b_size b))) (\<lambda>fits.
     if fits then px_move (sz + b_size b) (res @ [b]) r else ret (sz, res, b # r))"

text \<open>The header of the next part goes before its first buffer, or, if there is no room, into a buffer of its own.\<close>

definition px_next :: "axis_hdr \<Rightarrow> u8 list \<Rightarrow> chain \<Rightarrow> exn + chain" where
  "px_next hdr1 junk bc = (case bc of
     [] \<Rightarrow> Inl (Undefined ''null buffer'')
   | b # r \<Rightarrow>
     let c = (case b_adjPayload (- int HEADER_SIZE) b of (Inr True, b) \<Rightarrow> b # r | _ \<Rightarrow> b_fresh junk # bc)
     in map_sum id (\<lambda>v. b_setView v (hd c) # tl c) (axis_insert hdr1 (b_view (hd c)) HEADER_SIZE))"

definition px_frameNo :: "axis_hdr \<Rightarrow> (depack_tx, axis_hdr) sem" where
  "px_frameNo hdr =
     (if ph_fragNo hdr = 0
      then (\<lambda>d. case newFrameID (dk_frameNo d) of (f, ctr) \<Rightarrow>
        (Inr (setSOF AXIS True (hdr\<lparr>ax_frameNo := f\<rparr>)), d\<lparr>dk_frameNo := ctr\<rparr>))
      else ret hdr)"

text \<open>The part to be sent, and what is left.\<close>

definition px_processOutput :: "u8 list \<Rightarrow> chain \<Rightarrow> (depack_tx, chain \<times> chain option) sem" where
  "px_processOutput junk bc = (case bc of
     [] \<Rightarrow> raise (Undefined ''null buffer'')
   | h # t \<Rightarrow>
     bnd (liftR (axis_of (b_view h) (b_size h))) (\<lambda>hdr0.
     bnd (px_frameNo hdr0) (\<lambda>hdr.
     bnd (liftR (axis_insert hdr (b_view h) HEADER_SIZE)) (\<lambda>v. let bc = b_setView v h # t in
     bnd (fitsInMTU (of_nat (c_size bc))) (\<lambda>fits.
       if fits then bnd (appendTailByte True junk bc) (\<lambda>res. ret (res, None))
       else bnd (px_move 0 [] bc) (\<lambda>(sz, res, rest).
         if sz = 0 then raise (InternalError ''Depacketizer: Unable to fragment'')
         else bnd (liftR (px_next (setSOF AXIS False (setFragNo AXIS (ph_fragNo hdr0 + 1) hdr)) junk rest)) (\<lambda>rest.
           bnd (appendTailByte False junk res) (\<lambda>res. ret (res, Some rest)))))))))"

definition px_pushUp :: "chain \<Rightarrow> (depack_tx, bool) sem" where
  "px_pushUp bc = cond px_upOk (andThen (upd (\<lambda>d. d\<lparr>px_up := px_up d @ [bc]\<rparr>)) (ret True)) (ret False)"

text \<open>\<open>push\<close>; the loop has at most one round for each buffer, and one to see that nothing is left.\<close>

definition px_retry :: "(depack_tx, bool) sem \<Rightarrow> (depack_tx, bool) sem" where
  "px_retry f = (\<lambda>d. case f d of
       (Inl (InternalError e), d) \<Rightarrow> if dk_cachedMTU d = 0 then (Inl (InternalError e), d) else (Inr False, d\<lparr>dk_cachedMTU := 0\<rparr>)
     | (Inl e, d) \<Rightarrow> (Inl e, d)
     | (Inr rval, d) \<Rightarrow> (Inr rval, if rval then d else d\<lparr>dk_cachedMTU := 0\<rparr>))"

definition px_push :: "u8 list \<Rightarrow> chain \<Rightarrow> (depack_tx, bool) sem" where
  "px_push junk bc = px_retry (cond px_isOpen
     (push_loop (px_processOutput junk) px_pushUp (length bc + 1) (Some bc)) (ret False))"

definition px_tryPush :: "u8 list \<Rightarrow> chain \<Rightarrow> (depack_tx, bool) sem" where
  "px_tryPush junk bc = px_retry (cond px_isOpen
     (push_loop (px_processOutput junk) px_pushUp (length bc + 1) (Some bc)) (ret True))"

definition px_getMTU :: "u32 \<Rightarrow> u32" where
  "px_getMTU upstream = upstream - 8 - 1"

section \<open>The MTU\<close>

definition fits :: "u32 \<Rightarrow> nat \<Rightarrow> bool" where
  "fits mtu n \<longleftrightarrow> n \<le> 1024 \<or> n \<le> unat mtu"

definition cache_ok :: "depack_tx \<Rightarrow> bool" where
  "cache_ok d \<longleftrightarrow> dk_cachedMTU d = 0 \<or> dk_cachedMTU d = dk_upMTU d"

definition cached :: "depack_tx \<Rightarrow> depack_tx \<Rightarrow> bool" where
  "cached d d' \<longleftrightarrow> cache_ok d' \<and> (\<exists>x. d' = d\<lparr>dk_cachedMTU := x\<rparr>)"

lemma cached_same: "cached d d' \<Longrightarrow> dk_upMTU d' = dk_upMTU d \<and> px_up d' = px_up d \<and> px_upOk d' = px_upOk d
  \<and> dk_frameNo d' = dk_frameNo d \<and> px_isOpen d' = px_isOpen d \<and> cache_ok d'"
  by (auto simp: cached_def)

lemma cached_refl: "cache_ok d \<Longrightarrow> cached d d"
  unfolding cached_def by (intro conjI exI [of _ "dk_cachedMTU d"]) simp_all

lemma cached_trans: "cached d d' \<Longrightarrow> cached d' d'' \<Longrightarrow> cached d d''"
  by (auto simp: cached_def)

lemma fitsInMTU_spec:
  assumes "cache_ok d" "n < 2 ^ 32"
  shows "\<exists>d'. fitsInMTU (of_nat n) d = (Inr (fits (dk_upMTU d) n), d') \<and> cached d d'"
proof -
  have u: "unat (of_nat n :: u32) = n" using assms(2) by (simp add: unat_of_nat_mod)
  have le: "(of_nat n :: u32) \<le> m \<longleftrightarrow> n \<le> unat m" for m by (simp add: word_le_nat_alt u)
  show ?thesis
  proof (cases "n \<le> 1024")
    case True
    then show ?thesis using cached_refl [OF assms(1)] by (auto simp: fitsInMTU_def SAFE_MTU_def le fits_def ret_app)
  next
    case False
    let ?d = "if dk_cachedMTU d = 0 then d\<lparr>dk_cachedMTU := dk_upMTU d\<rparr> else d"
    have "cached d ?d" using assms(1) cached_refl by (auto simp: cached_def cache_ok_def)
    moreover have "fitsInMTU (of_nat n) d = (Inr (fits (dk_upMTU d) n), ?d)"
      using False assms(1) by (auto simp: fitsInMTU_def SAFE_MTU_def le fits_def andThen_def bnd_def sem_app cache_ok_def)
    ultimately show ?thesis by blast
  qed
qed

lemma fits_mono: "fits mtu n \<Longrightarrow> m \<le> n \<Longrightarrow> fits mtu m"
  by (auto simp: fits_def)

lemma px_move_spec:
  assumes "cache_ok d" "\<not> fits (dk_upMTU d) (c_size res + c_size c)" "fits (dk_upMTU d) (c_size res)" "c_size res + c_size c < 2 ^ 32"
  shows "\<exists>x y d'. px_move (c_size res) res c d = (Inr (c_size x, x, y), d') \<and> cached d d' \<and> x @ y = res @ c \<and> y \<noteq> []
    \<and> fits (dk_upMTU d) (c_size x) \<and> \<not> fits (dk_upMTU d) (c_size x + b_size (hd y)) \<and> length res \<le> length x"
  using assms
proof (induction c arbitrary: res d)
  case (Cons b c)
  have "c_size res + b_size b < 2 ^ 32" using Cons.prems(4) by simp
  from fitsInMTU_spec [OF Cons.prems(1) this] obtain d1 where d1:
    "fitsInMTU (of_nat (c_size res + b_size b)) d = (Inr (fits (dk_upMTU d) (c_size res + b_size b)), d1)" "cached d d1" by blast
  note same = cached_same [OF d1(2)]
  show ?case
  proof (cases "fits (dk_upMTU d) (c_size res + b_size b)")
    case True
    have sz: "c_size (res @ [b]) = c_size res + b_size b" by simp
    from Cons.IH [of d1 "res @ [b]"] Cons.prems same True obtain x y d2 where
      2: "px_move (c_size (res @ [b])) (res @ [b]) c d1 = (Inr (c_size x, x, y), d2)" "cached d1 d2" "x @ y = (res @ [b]) @ c" "y \<noteq> []"
      "fits (dk_upMTU d) (c_size x)" "\<not> fits (dk_upMTU d) (c_size x + b_size (hd y))" "length (res @ [b]) \<le> length x"
      by (auto simp: add.assoc)
    have "px_move (c_size res) res (b # c) d = (Inr (c_size x, x, y), d2)"
      using d1(1) True 2(1) unfolding sz by (simp add: bnd_def)
    moreover have "x @ y = res @ b # c" using 2(3) by simp
    ultimately show ?thesis using 2(4-7) cached_trans [OF d1(2) 2(2)] by (intro exI [of _ x] exI [of _ y] exI [of _ d2]) simp
  next
    case False
    then have "px_move (c_size res) res (b # c) d = (Inr (c_size res, res, b # c), d1)"
      using d1(1) by (simp add: bnd_def ret_app)
    then show ?thesis using False Cons.prems(3) d1(2) by (intro exI [of _ res] exI [of _ "b # c"] exI [of _ d1]) simp
  qed
qed simp

section \<open>The tail byte\<close>

lemma grow_by_one:
  assumes "b_ok b" "b_end b + 1 \<le> b_capa b"
  shows "\<exists>b'. b_setSize (b_size b + 1) b = (Inr (), b') \<and> b' = b\<lparr>b_end := b_end b + 1\<rparr> \<and> b_ok b' \<and> b_size b' = b_size b + 1"
proof -
  let ?b = "b\<lparr>b_end := b_end b + 1\<rparr>"
  note z = b_size_ok [OF assms(1)]
  have e: "b_beg b + (b_size b + 1) = b_end b + 1" using z by linarith
  have "b_end b + 1 < 2 ^ 32" using assms by (simp add: b_ok_def)
  then have "b_setSize (b_size b + 1) b = (Inr (), ?b)"
    using assms(2) e by (simp add: b_setSize_def sem_app Let_def)
  moreover have ok: "b_ok ?b" using assms by (auto simp: b_ok_def b_capa_def)
  moreover have "b_size ?b = b_size b + 1" using b_size_ok [OF ok] z by simp
  ultimately show ?thesis by blast
qed

lemma tail_byte_spec:
  assumes "b_ok b" "1 \<le> b_size b"
  shows "b_ok (tail_byte eof b)" "b_size (tail_byte eof b) = b_size b"
    "b_payload (tail_byte eof b) = butlast (b_payload b) @ [if eof then 0x80 else 0]"
    "parseTailEOF AXIS (drop (b_end (tail_byte eof b) - 1) (b_data (tail_byte eof b))) = eof"
    "8 < b_size b \<Longrightarrow> take 8 (b_view (tail_byte eof b)) = take 8 (b_view b)"
proof -
  let ?at = "b_end b - 1" and ?x = "if eof then 0x80 else 0 :: u8"
  note z = b_size_ok [OF assms(1)]
  have at: "?at < length (b_data b)" "b_beg b \<le> ?at" using z assms(2) by auto
  then have "b_data b = take ?at (b_data b) @ b_data b ! ?at # drop (Suc ?at) (b_data b)" by (simp add: id_take_nth_drop [symmetric])
  moreover have "insertTailEOF AXIS eof (iniTail AXIS (drop ?at (b_data b))) = ?x # drop (Suc ?at) (b_data b)"
    by (simp add: insertTailEOF_def iniTail_def AXIS_def Let_def tail_mask_def)
  ultimately have d: "tail_byte eof b = b\<lparr>b_data := (b_data b)[?at := ?x]\<rparr>"
    using at(1) by (simp add: tail_byte_def Let_def upd_conv_take_nth_drop)
  show ok: "b_ok (tail_byte eof b)" using assms(1) by (simp add: d b_ok_def b_capa_def)
  show sz: "b_size (tail_byte eof b) = b_size b" by (simp add: d b_size_def)
  have "b_payload (tail_byte eof b) = (b_payload b)[b_size b - 1 := ?x]"
  proof -
    have b: "b_end (tail_byte eof b) = b_end b" "b_beg (tail_byte eof b) = b_beg b"
      "b_data (tail_byte eof b) = (b_data b)[?at := ?x]" by (simp_all add: d)
    have "?at - b_beg b = b_size b - 1" using z by simp
    then show ?thesis
      unfolding payload_data [OF ok] payload_data [OF assms(1)] b take_update_swap drop_update_swap [OF at(2)] by simp
  qed
  also have "\<dots> = butlast (b_payload b) @ [?x]"
    using assms by (simp add: upd_conv_take_nth_drop butlast_conv_take)
  finally show "b_payload (tail_byte eof b) = butlast (b_payload b) @ [?x]" .
  have "drop ?at ((b_data b)[?at := ?x]) = ?x # drop (Suc ?at) (b_data b)"
    using at(1) by (simp add: upd_conv_take_nth_drop)
  then show "parseTailEOF AXIS (drop (b_end (tail_byte eof b) - 1) (b_data (tail_byte eof b))) = eof"
    by (simp add: d parseTailEOF_def AXIS_def tail_mask_def)
  show "take 8 (b_view (tail_byte eof b)) = take 8 (b_view b)" if "8 < b_size b"
    using that z at(2) by (simp add: d b_view_def drop_update_swap)
qed

lemma axis_parse_cong: "take 8 p = take 8 q \<Longrightarrow> 8 \<le> s \<Longrightarrow> 8 \<le> s' \<Longrightarrow> axis_parse p s h = axis_parse q s' h"
  by (simp add: axis_parse_def ph_parse_def AXIS_def Let_def getNum_take [of p q] HEADER_SIZE_def)

lemma appendTail_spec:
  assumes "cache_ok d" "c_ok c" "c \<noteq> []" "8 \<le> b_size (hd c)" "b_end (last c) + 1 \<le> b_capa (last c)" "junk_ok junk"
    and "axis_parse (b_view (hd c)) (b_size (hd c)) (axis_new 0 0 0) = (True, h)" "ax_frameNo h = f" "ph_fragNo h = of_nat k"
  shows "\<exists>c' d'. appendTailByte eof junk c d = (Inr c', d') \<and> cached d d' \<and> pkt_ok f k eof c'
    \<and> c_bytes c' = c_bytes c @ [if eof then 0x80 else 0]
    \<and> axis_parse (b_view (hd c')) (b_size (hd c')) (axis_new 0 0 0) = (True, h)"
proof -
  define i t where "i = butlast c" and "t = last c"
  have c: "c = i @ [t]" using assms(3) by (simp add: i_def t_def)
  have ok: "c_ok i" "b_ok t" "b_end t + 1 \<le> b_capa t" using assms(2,5) by (simp_all add: c)
  have "b_size t \<le> b_end t" "b_end t \<le> 65535" using b_size_ok [OF ok(2)] ok(2) by (auto simp: b_ok_def)
  then have small: "b_size t + 1 < 2 ^ 32" by simp
  from fitsInMTU_spec [OF assms(1) small] obtain d1 where
    d1: "fitsInMTU (of_nat (b_size t + 1)) d = (Inr (fits (dk_upMTU d) (b_size t + 1)), d1)" "cached d d1" by blast
  have ts: "ly_tailSize AXIS = 1" by (simp add: AXIS_def)
  show ?thesis
  proof (cases "fits (dk_upMTU d) (b_size t + 1)")
    case True
    from grow_by_one [OF ok(2,3)] obtain t1 where t1: "b_setSize (b_size t + 1) t = (Inr (), t1)" "t1 = t\<lparr>b_end := b_end t + 1\<rparr>"
      "b_ok t1" "b_size t1 = b_size t + 1" by blast
    let ?t = "tail_byte eof t1"
    have "1 \<le> b_size t1" using t1(4) by simp
    note s = tail_byte_spec [OF t1(3) this]
    have run: "appendTailByte eof junk c d = (Inr (i @ [?t]), d1)"
      using d1(1) True t1(1) by (simp add: appendTailByte_def Let_def c ts bnd_def ret_app)
    have "butlast (b_payload t1) = b_payload t"
      using t1 ok(2) by (simp add: butlast_conv_take) (simp add: b_payload_def b_view_def)
    then have pay: "b_payload ?t = b_payload t @ [if eof then 0x80 else 0]" by (simp add: s(3))
    have hd: "take 8 (b_view (hd (i @ [?t]))) = take 8 (b_view (hd c))" "8 \<le> b_size (hd (i @ [?t]))"
    proof -
      have "b_view t1 = b_view t" by (simp add: t1(2) b_view_def)
      then show "take 8 (b_view (hd (i @ [?t]))) = take 8 (b_view (hd c))"
        using assms(4) s(5) t1(4) by (cases i) (simp_all add: c)
      show "8 \<le> b_size (hd (i @ [?t]))" using assms(4) s(2) t1(4) by (cases i) (simp_all add: c)
    qed
    have parse: "axis_parse (b_view (hd (i @ [?t]))) (b_size (hd (i @ [?t]))) (axis_new 0 0 0) = (True, h)"
      using axis_parse_cong [OF hd(1,2) assms(4)] assms(7) by simp
    have "pkt_ok f k eof (i @ [?t])"
      using ok(1) s t1(4) hd(2) parse assms(4,8,9) by (auto simp: pkt_ok_def c)
    then show ?thesis using run d1(2) pay parse by (intro exI [of _ "i @ [?t]"] exI [of _ d1]) (simp add: c)
  next
    case False
    let ?f = "b_fresh junk"
    have f: "b_ok ?f" "b_end ?f + 1 \<le> b_capa ?f" "b_size ?f = 0"
      using assms(6) by (simp_all add: junk_ok_def b_fresh_def b_ok_def b_capa_def b_size_def HEADROOM_def)
    from grow_by_one [OF f(1,2)] f(3) obtain t1 where t1: "b_setSize 1 ?f = (Inr (), t1)" "b_ok t1" "b_size t1 = 1" by auto
    let ?t = "tail_byte eof t1"
    have "1 \<le> b_size t1" using t1(3) by simp
    note s = tail_byte_spec [OF t1(2) this]
    have run: "appendTailByte eof junk c d = (Inr (c @ [?t]), d1)"
      using d1(1) False t1(1) by (simp add: appendTailByte_def Let_def c ts bnd_def ret_app)
    have "butlast (b_payload t1) = []" using t1 by (simp add: butlast_conv_take)
    then have pay: "b_payload ?t = [if eof then 0x80 else 0]" by (simp add: s(3))
    have hd: "hd (c @ [?t]) = hd c" using assms(3) by simp
    have "pkt_ok f k eof (c @ [?t])"
      using assms s t1(3) unfolding pkt_ok_def hd by (auto simp: Suc_le_eq)
    then show ?thesis using run d1(2) pay hd assms(7) by (intro exI [of _ "c @ [?t]"] exI [of _ d1]) simp
  qed
qed

section \<open>The header of a part\<close>

abbreviation axis_read :: "buf \<Rightarrow> bool \<times> axis_hdr" where
  "axis_read b \<equiv> axis_parse (b_view b) (b_size b) (axis_new 0 0 0)"

definition axis_wf :: "axis_hdr \<Rightarrow> bool" where
  "axis_wf h \<longleftrightarrow> ph_vers h = 0 \<and> ph_fragNo h \<le> FRAG_MAX \<and> ax_frameNo h < push_bit 12 1"

lemma getNum_less:
  assumes "o' mod 8 + n \<le> 32" "n < 32"
  shows "unat (ucast (getNum o' n p) :: u32) < 2 ^ n"
proof -
  have "take_bit n (ucast (getNum o' n p) :: u32) = ucast (getNum o' n p)"
    by (rule bit_word_eqI) (auto simp: bit_simps getNum_bits [OF assms])
  then have "unat (ucast (getNum o' n p) :: u32) = take_bit n (unat (ucast (getNum o' n p) :: u32))"
    by (metis unsigned_take_bit_eq)
  then show ?thesis by (metis take_bit_nat_less_exp)
qed

lemma axis_read_wf:
  assumes "axis_parse p s g = (True, h)"
  shows "axis_wf h"
proof -
  have "unat (ucast (getNum 4 12 p) :: u32) < 2 ^ 12" "unat (ucast (getNum 16 24 p) :: u32) < 2 ^ 24"
    by (rule getNum_less; simp)+
  then show ?thesis
    using assms by (auto simp: axis_parse_def ph_parse_def axis_wf_def AXIS_def FRAG_MAX_def HEADER_SIZE_def Let_def push_bit_of_1
        word_less_nat_alt word_le_nat_alt split: if_splits bool.splits prod.splits)
qed

lemma header_insert:
  assumes "b_ok b" "8 \<le> b_size b" "axis_wf h"
  shows "\<exists>v. axis_insert h (b_view b) HEADER_SIZE = Inr v \<and> b_ok (b_setView v b) \<and> b_capa (b_setView v b) = b_capa b
    \<and> axis_read (b_setView v b) = (True, h) \<and> drop 8 (b_payload (b_setView v b)) = drop 8 (b_payload b)"
proof -
  have l: "8 \<le> length (b_view b)" using b_size_le_view [OF assms(1)] assms(2) by linarith
  from axis_insert_parse [OF l, of HEADER_SIZE h "axis_new 0 0 0"] assms(3) obtain v where
    v: "axis_insert h (b_view b) HEADER_SIZE = Inr v" "length v = length (b_view b)" "drop 8 v = drop 8 (b_view b)"
    "axis_parse v HEADER_SIZE (axis_new 0 0 0) = (True, h)" by (auto simp: axis_wf_def HEADER_SIZE_def)
  let ?b = "b_setView v b"
  have "axis_read ?b = axis_parse v HEADER_SIZE (axis_new 0 0 0)"
    using assms(1,2) by (intro axis_parse_cong) (simp_all add: HEADER_SIZE_def)
  moreover have "drop 8 (b_payload ?b) = drop 8 (b_payload b)"
    using assms(1) v(3) by (simp add: b_payload_def drop_take)
  ultimately show ?thesis using v assms(1) ok_setView [OF assms(1) v(2)] capa_setView [OF assms(1) v(2)] by auto
qed

lemma px_next_spec:
  assumes "b_ok b" "8 \<le> b_beg b" "axis_wf h"
  shows "\<exists>b'. px_next h junk (b # r) = Inr (b' # r) \<and> b_ok b' \<and> b_size b' = b_size b + 8 \<and> b_capa b' = b_capa b \<and> b_end b' = b_end b
    \<and> axis_read b' = (True, h) \<and> drop 8 (b_payload b') = b_payload b"
proof -
  from retreat_buf [OF assms(1,2)] obtain b1 j where b1: "snd (b_adjPayload (- 8) b) = b1" "b_ok b1" "b_size b1 = b_size b + 8"
    "length j = 8" "b_payload b1 = j @ b_payload b" by blast
  have adj: "b_adjPayload (- int HEADER_SIZE) b = (Inr True, b1)"
    using b1(1) assms(1,2) by (auto simp: b_adjPayload_def sem_app HEADER_SIZE_def b_ok_def split: if_splits)
  have keep: "b_end b1 = b_end b" "b_data b1 = b_data b"
    using b1(1) assms(1,2) by (auto simp: b_adjPayload_def sem_app b_ok_def split: if_splits)
  have "8 \<le> b_size b1" using b1(3) by simp
  from header_insert [OF b1(2) this assms(3)] obtain v where v: "axis_insert h (b_view b1) HEADER_SIZE = Inr v" "b_ok (b_setView v b1)"
    "b_capa (b_setView v b1) = b_capa b1" "axis_read (b_setView v b1) = (True, h)"
    "drop 8 (b_payload (b_setView v b1)) = drop 8 (b_payload b1)" by blast
  have "px_next h junk (b # r) = Inr (b_setView v b1 # r)"
    using adj v(1) by (simp add: px_next_def)
  then show ?thesis using v b1 keep by (intro exI [of _ "b_setView v b1"]) (simp add: b_capa_def)
qed

section \<open>A part\<close>

definition px_ok :: "u32 \<Rightarrow> chain \<Rightarrow> bool" where
  "px_ok mtu c \<longleftrightarrow> c \<noteq> [] \<and> c_ok c \<and> 8 \<le> b_size (hd c) \<and> fits mtu (b_size (hd c)) \<and> (\<forall>b \<in> set c. b_end b + 1 \<le> b_capa b)
     \<and> (\<forall>b \<in> set (tl c). 8 \<le> b_beg b \<and> fits mtu (b_size b + 8)) \<and> c_size c + 8 * length c < 2 ^ 32"

definition px_step :: "depack_tx \<Rightarrow> depack_tx \<Rightarrow> bool" where
  "px_step d d' \<longleftrightarrow> cache_ok d' \<and> dk_upMTU d' = dk_upMTU d \<and> px_up d' = px_up d \<and> px_upOk d' = px_upOk d \<and> px_isOpen d' = px_isOpen d"

lemma cached_step: "px_step d d1 \<Longrightarrow> cached d1 d2 \<Longrightarrow> px_step d d2"
  by (auto simp: px_step_def cached_def)

lemma frame_less: "fst (newFrameID x) < push_bit 12 1"
proof -
  have "fst (newFrameID x) = take_bit 12 (drop_bit 20 x)"
    by (simp add: newFrameID_def push_bit_of_1 take_bit_eq_mask mask_eq_exp_minus_1)
  moreover have "unat (take_bit 12 (drop_bit 20 x)) < 2 ^ 12"
    using take_bit_nat_less_exp [of 12 "unat (drop_bit 20 x)"] by (simp only: unsigned_take_bit_eq)
  ultimately show ?thesis by (simp add: word_less_nat_alt push_bit_of_1)
qed

lemma px_frameNo_spec:
  assumes "cache_ok d" "axis_wf h0"
  defines "f \<equiv> if ph_fragNo h0 = 0 then fst (newFrameID (dk_frameNo d)) else ax_frameNo h0"
  shows "\<exists>h d'. px_frameNo h0 d = (Inr h, d') \<and> px_step d d' \<and> axis_wf h \<and> ph_fragNo h = ph_fragNo h0 \<and> ph_tDest h = ph_tDest h0
    \<and> ax_frameNo h = f"
  using assms frame_less [of "dk_frameNo d"]
  by (auto simp: px_frameNo_def px_step_def axis_wf_def setSOF_def cache_ok_def ret_app split: prod.splits)

definition frag_of :: "chain \<Rightarrow> u32 \<Rightarrow> u32 \<Rightarrow> u8 \<Rightarrow> bool" where
  "frag_of c f k t \<longleftrightarrow> (\<exists>h. axis_read (hd c) = (True, h) \<and> ax_frameNo h = f \<and> ph_fragNo h = k \<and> ph_tDest h = t)"

lemma px_processOutput_spec:
  assumes "cache_ok d" "px_ok (dk_upMTU d) c" "junk_ok junk" "k < 2 ^ 24 - 1" "frag_of c g (of_nat k) dst"
  defines "f \<equiv> if k = 0 then fst (newFrameID (dk_frameNo d)) else g"
  shows "\<exists>part rest d'. px_processOutput junk c d = (Inr (part, rest), d') \<and> px_step d d' \<and> pkt_ok f k (rest = None) part
    \<and> frag_of part f (of_nat k) dst
    \<and> (case rest of None \<Rightarrow> drop 8 (c_bytes part) = drop 8 (c_bytes c) @ [0x80]
       | Some r \<Rightarrow> px_ok (dk_upMTU d) r \<and> length r < length c \<and> frag_of r f (of_nat (k + 1)) dst
           \<and> (\<exists>x. drop 8 (c_bytes part) = x @ [0] \<and> drop 8 (c_bytes c) = x @ drop 8 (c_bytes r)))"
proof -
  let ?mtu = "dk_upMTU d"
  obtain b t where c: "c = b # t" using assms(2) by (cases c) (auto simp: px_ok_def)
  have b: "b_ok b" "8 \<le> b_size b" "fits ?mtu (b_size b)" "b_end b + 1 \<le> b_capa b" "c_ok t" "b_size b + c_size t < 2 ^ 32"
    using assms(2) by (auto simp: px_ok_def c)
  obtain h0 where h0: "axis_read b = (True, h0)" "ax_frameNo h0 = g" "ph_fragNo h0 = of_nat k" "ph_tDest h0 = dst"
    using assms(5) by (auto simp: frag_of_def c)
  have uk: "unat (of_nat k :: u32) = k" using assms(4) by (simp add: unat_of_nat_mod)
  have k0: "ph_fragNo h0 = 0 \<longleftrightarrow> k = 0" using uk h0(3) by (metis unat_0 unat_eq_zero)
  from px_frameNo_spec [OF assms(1) axis_read_wf [OF h0(1)]] obtain h d1 where
    h: "px_frameNo h0 d = (Inr h, d1)" "px_step d d1" "axis_wf h" "ph_fragNo h = of_nat k" "ph_tDest h = dst" "ax_frameNo h = f"
    using h0 k0 by (auto simp: f_def)
  from header_insert [OF b(1,2) h(3)] obtain v where v: "axis_insert h (b_view b) HEADER_SIZE = Inr v" "b_ok (b_setView v b)"
    "b_capa (b_setView v b) = b_capa b" "axis_read (b_setView v b) = (True, h)" "drop 8 (b_payload (b_setView v b)) = drop 8 (b_payload b)" by blast
  let ?b = "b_setView v b"
  have d1: "cache_ok d1" "dk_upMTU d1 = ?mtu" using h(2) by (simp_all add: px_step_def)
  have szc: "c_size (?b # t) = b_size b + c_size t" by simp
  from fitsInMTU_spec [OF d1(1) b(6)] obtain d2 where
    d2: "fitsInMTU (of_nat (c_size (?b # t))) d1 = (Inr (fits ?mtu (c_size (?b # t))), d2)" "cached d1 d2" unfolding szc d1(2) by blast
  have d2s: "cache_ok d2" "dk_upMTU d2 = ?mtu" using cached_same [OF d2(2)] d1(2) by simp_all
  have of: "axis_of (b_view b) (b_size b) = Inr h0" using h0(1) by (simp add: axis_of_def)
  have lb: "length (b_payload x) = b_size x" if "b_ok x" for x using that by simp
  have dc: "drop 8 (c_bytes c) = drop 8 (b_payload b) @ c_bytes t" using b(1,2) by (simp add: c)
  show ?thesis
  proof (cases "fits ?mtu (c_size (?b # t))")
    case True
    have "b_end (last (?b # t)) + 1 \<le> b_capa (last (?b # t))"
      using assms(2) v(3) by (cases "t = []") (auto simp: px_ok_def c)
    from appendTail_spec [OF d2s(1), of "?b # t", OF _ _ _ this assms(3), of h f k True] v b h obtain p d3 where
      p: "appendTailByte True junk (?b # t) d2 = (Inr p, d3)" "cached d2 d3" "pkt_ok f k True p" "c_bytes p = c_bytes (?b # t) @ [0x80]"
      "axis_read (hd p) = (True, h)" by auto
    have "px_processOutput junk c d = (Inr (p, None), d3)"
      using of h(1) v(1) d2(1) True p(1) by (simp add: px_processOutput_def c bnd_def sem_app Let_def)
    moreover have "drop 8 (c_bytes p) = drop 8 (c_bytes c) @ [0x80]"
      using p(4) v(2,5) b(2) lb [OF v(2)] by (simp add: dc)
    moreover have "px_step d d3" using cached_step [OF cached_step [OF h(2) d2(2)] p(2)] .
    ultimately show ?thesis
      using p(3,5) h by (intro exI [of _ p] exI [of _ None] exI [of _ d3]) (simp add: frag_of_def)
  next
    case False
    from px_move_spec [OF d2s(1), of "[]" "?b # t"] False d2s(2) b(6) obtain x y d3 where
      m: "px_move 0 [] (?b # t) d2 = (Inr (c_size x, x, y), d3)" "cached d2 d3" "x @ y = ?b # t" "y \<noteq> []"
      "\<not> fits ?mtu (c_size x + b_size (hd y))" by (auto simp: fits_def)
    have "x \<noteq> []" using m(3,5) b(3) by auto
    then obtain x' where x: "x = ?b # x'" "t = x' @ y" using m(3) by (cases x) auto
    obtain q r where y: "y = q # r" using m(4) by (cases y) auto
    have q: "b_ok q" "8 \<le> b_beg q" "fits ?mtu (b_size q + 8)" "b_end q + 1 \<le> b_capa q" "c_ok x'" "c_ok r"
      using assms(2) by (auto simp: px_ok_def c x(2) y)
    let ?h1 = "setSOF AXIS False (setFragNo AXIS (ph_fragNo h0 + 1) h)"
    have k1: "(of_nat k + 1 :: u32) = of_nat (k + 1)" "unat (of_nat (k + 1) :: u32) = k + 1"
    proof -
      show "(of_nat k + 1 :: u32) = of_nat (k + 1)" by simp
      have "k + 1 < 2 ^ 32" using assms(4) by simp
      then show "unat (of_nat (k + 1) :: u32) = k + 1" unfolding unat_of_nat_mod by (intro mod_less) simp
    qed
    have wf1: "axis_wf ?h1"
      using h(3) assms(4) k1 unfolding h0(3) k1(1)
      by (simp add: axis_wf_def setSOF_def setFragNo_def FRAG_MAX_def word_le_nat_alt push_bit_of_1 del: of_nat_add of_nat_Suc)
    have f1: "ax_frameNo ?h1 = f" "ph_fragNo ?h1 = of_nat (k + 1)" "ph_tDest ?h1 = dst"
      using h k1(1) by (simp_all add: setSOF_def setFragNo_def h0(3))
    from px_next_spec [OF q(1,2) wf1] obtain q' where q': "px_next ?h1 junk (q # r) = Inr (q' # r)" "b_ok q'" "b_size q' = b_size q + 8"
      "b_capa q' = b_capa q" "b_end q' = b_end q" "axis_read q' = (True, ?h1)" "drop 8 (b_payload q') = b_payload q" by blast
    have d3s: "cache_ok d3" using cached_same [OF m(2)] by simp
    have "b_end (last x) + 1 \<le> b_capa (last x)"
      using assms(2) v(3) by (cases "x' = []") (auto simp: px_ok_def c x)
    from appendTail_spec [OF d3s, of x, OF _ _ _ this assms(3), of h f k False] v b h q x(1) obtain p d4 where
      p: "appendTailByte False junk x d3 = (Inr p, d4)" "cached d3 d4" "pkt_ok f k False p" "c_bytes p = c_bytes x @ [0]"
      "axis_read (hd p) = (True, h)" by auto
    have "c_size x \<noteq> 0" using b(2) by (simp add: x(1))
    then have "px_processOutput junk c d = (Inr (p, Some (q' # r)), d4)"
      using of h(1) v(1) d2(1) False m(1) q'(1) p(1) by (simp add: px_processOutput_def c bnd_def sem_app Let_def y)
    moreover have "px_step d d4" using cached_step [OF cached_step [OF cached_step [OF h(2) d2(2)] m(2)] p(2)] .
    moreover have "px_ok ?mtu (q' # r)"
      using assms(2) q q' by (auto simp: px_ok_def c x(2) y)
    moreover have "frag_of (q' # r) f (of_nat (k + 1)) dst" using q'(6) f1 by (auto simp: frag_of_def)
    moreover have "drop 8 (c_bytes p) = (drop 8 (b_payload b) @ c_bytes x') @ [0]"
      using p(4) v(2,5) b(2) lb [OF v(2)] by (simp add: x(1))
    moreover have "drop 8 (c_bytes c) = (drop 8 (b_payload b) @ c_bytes x') @ drop 8 (c_bytes (q' # r))"
      using q'(3,7) lb [OF q'(2)] by (simp add: dc x(2) y)
    moreover have "frag_of p f (of_nat k) dst" using p(5) h by (simp add: frag_of_def)
    moreover have "length (q' # r) < length c" by (simp add: c x(2) y)
    ultimately show ?thesis
      using p(3) by (intro exI [of _ p] exI [of _ "Some (q' # r)"] exI [of _ d4]) auto
  qed
qed

section \<open>A frame\<close>

text \<open>What the receiver makes of the parts of a frame: without the headers of all but the first and the tails of all but
  the last.\<close>

fun glue :: "bool \<Rightarrow> chain list \<Rightarrow> u8 list" where
  "glue first [] = []"
| "glue first (p # ps) = (if ps \<noteq> [] then butlast else id) (drop (if first then 0 else 8) (c_bytes p)) @ glue False ps"

lemma glue_frame:
  assumes "\<And>i. i < length ps \<Longrightarrow> pkt f (k + i) = ps ! i" "lst f + 1 = k + length ps"
  shows "concat (map (\<lambda>j. (if j \<noteq> lst f then butlast else id) (drop (if j \<noteq> 0 then 8 else 0) (c_bytes (pkt f j)))) [k..<lst f + 1])
    = glue (k = 0) ps"
  using assms
proof (induction ps arbitrary: k)
  case (Cons p ps)
  have u: "[k..<lst f + 1] = k # [Suc k..<lst f + 1]" by (rule upt_conv_Cons) (use Cons.prems(2) in simp)
  have "pkt f k = p" using Cons.prems(1) [of 0] by simp
  moreover have "k = lst f \<longleftrightarrow> ps = []" using Cons.prems(2) by (cases ps) auto
  moreover have "pkt f (Suc k + i) = ps ! i" if "i < length ps" for i using Cons.prems(1) [of "Suc i"] that by simp
  moreover have "lst f + 1 = Suc k + length ps" using Cons.prems(2) by simp
  ultimately show ?case unfolding u using Cons.IH [of "Suc k"] by simp
qed simp

lemma pkt_ok_len: "pkt_ok f k eof c \<Longrightarrow> 9 \<le> length (c_bytes c)"
proof -
  assume p: "pkt_ok f k eof c"
  then obtain b r where c: "c = b # r" by (cases c) (auto simp: pkt_ok_def)
  show ?thesis
  proof (cases r rule: rev_cases)
    case Nil
    then show ?thesis using p by (simp add: pkt_ok_def c)
  next
    case (snoc i t)
    then show ?thesis using p by (simp add: pkt_ok_def c)
  qed
qed

lemma glue_first:
  assumes "9 \<le> length (c_bytes p)"
  shows "glue True (p # ps) = take 8 (c_bytes p) @ glue False (p # ps)"
proof -
  have "drop 8 (c_bytes p) \<noteq> []" using assms by simp
  then have "butlast (take 8 (c_bytes p) @ drop 8 (c_bytes p)) = take 8 (c_bytes p) @ butlast (drop 8 (c_bytes p))"
    unfolding butlast_append by simp
  then show ?thesis by simp
qed

lemma px_loop_spec:
  assumes "cache_ok d" "px_upOk d" "px_ok (dk_upMTU d) c" "junk_ok junk" "k + length c \<le> 2 ^ 24 - 1" "frag_of c g (of_nat k) dst"
    "length c < n"
  defines "f \<equiv> if k = 0 then fst (newFrameID (dk_frameNo d)) else g"
  shows "\<exists>ps d'. push_loop (px_processOutput junk) px_pushUp n (Some c) d = (Inr True, d') \<and> px_up d' = px_up d @ ps \<and> ps \<noteq> []
    \<and> length ps \<le> length c \<and> (\<forall>i < length ps. pkt_ok f (k + i) (i + 1 = length ps) (ps ! i)) \<and> frag_of (hd ps) f (of_nat k) dst
    \<and> glue False ps = drop 8 (c_bytes c) @ [0x80]"
  using assms(1-7) unfolding f_def
proof (induction n arbitrary: d c k g)
  case (Suc n)
  define f where "f = (if k = 0 then fst (newFrameID (dk_frameNo d)) else g)"
  have c: "c \<noteq> []" "0 < c_size c" using Suc.prems(3) by (cases c; auto simp: px_ok_def)+
  have k: "k < 2 ^ 24 - 1" using Suc.prems(5) c(1) by (cases c) auto
  from px_processOutput_spec [OF Suc.prems(1,3,4) k Suc.prems(6)] obtain p rest d1 where
    o: "px_processOutput junk c d = (Inr (p, rest), d1)" "px_step d d1" "pkt_ok f k (rest = None) p" "frag_of p f (of_nat k) dst"
    and rest: "case rest of None \<Rightarrow> drop 8 (c_bytes p) = drop 8 (c_bytes c) @ [0x80]
       | Some r \<Rightarrow> px_ok (dk_upMTU d) r \<and> length r < length c \<and> frag_of r f (of_nat (k + 1)) dst
           \<and> (\<exists>x. drop 8 (c_bytes p) = x @ [0] \<and> drop 8 (c_bytes c) = x @ drop 8 (c_bytes r))"
    unfolding f_def by blast
  let ?d = "d1\<lparr>px_up := px_up d @ [p]\<rparr>"
  have up: "px_pushUp p d1 = (Inr True, ?d)"
    using o(2) Suc.prems(2) by (simp add: px_pushUp_def px_step_def andThen_def bnd_def sem_app)
  have step: "push_loop (px_processOutput junk) px_pushUp (Suc n) (Some c) d = push_loop (px_processOutput junk) px_pushUp n rest ?d"
    using c o(1) up by (simp add: bnd_def)
  show ?case
  proof (cases rest)
    case None
    obtain m where n: "n = Suc m" using Suc.prems(7) c(1) by (cases n; cases c) auto
    have "push_loop (px_processOutput junk) px_pushUp (Suc n) (Some c) d = (Inr True, ?d)"
      unfolding step by (simp add: None n ret_app)
    moreover have "1 \<le> length c" using c(1) by (cases c) auto
    ultimately show ?thesis
      using o(3,4) rest None unfolding f_def [symmetric] by (intro exI [of _ "[p]"] exI [of _ ?d]) simp
  next
    case (Some r)
    then have r: "px_ok (dk_upMTU d) r" "length r < length c" "frag_of r f (of_nat (k + 1)) dst" using rest by simp_all
    obtain x where x: "drop 8 (c_bytes p) = x @ [0]" "drop 8 (c_bytes c) = x @ drop 8 (c_bytes r)" using rest Some by auto
    have d: "cache_ok ?d" "px_upOk ?d" "px_ok (dk_upMTU ?d) r"
      using o(2) Suc.prems(2) r(1) by (auto simp: px_step_def cache_ok_def)
    have "(k + 1) + length r \<le> 2 ^ 24 - 1" "length r < n" using r(2) Suc.prems(5,7) by linarith+
    from Suc.IH [OF d Suc.prems(4) this(1) r(3) this(2)] obtain ps d' where
      ps: "push_loop (px_processOutput junk) px_pushUp n (Some r) ?d = (Inr True, d')" "px_up d' = (px_up d @ [p]) @ ps" "ps \<noteq> []"
      "length ps \<le> length r" "\<And>i. i < length ps \<Longrightarrow> pkt_ok f ((k + 1) + i) (i + 1 = length ps) (ps ! i)"
      "glue False ps = drop 8 (c_bytes r) @ [0x80]" by auto
    have "\<forall>i < length (p # ps). pkt_ok f (k + i) (i + 1 = length (p # ps)) ((p # ps) ! i)"
    proof (intro allI impI)
      fix i
      assume "i < length (p # ps)"
      then show "pkt_ok f (k + i) (i + 1 = length (p # ps)) ((p # ps) ! i)"
        using o(3) Some ps(3) ps(5) [of "i - 1"] by (cases i) auto
    qed
    moreover have "glue False (p # ps) = drop 8 (c_bytes c) @ [0x80]" using ps(3,6) x by simp
    moreover have "push_loop (px_processOutput junk) px_pushUp (Suc n) (Some c) d = (Inr True, d')"
      unfolding step Some by (rule ps(1))
    ultimately show ?thesis
      using ps(2,4) r(2) o(4) unfolding f_def [symmetric] by (intro exI [of _ "p # ps"] exI [of _ d']) simp
  qed
qed simp

end
