(* ===== verification/TdestMux.thy ===== *)
theory TdestMux
  imports ByteMux DepackTx DepackLive
begin

text \<open>
  The TDEST multiplexer of version 0 (\<^verbatim>\<open>src/src/cpsw_proto_mod_tdestmux.cc\<close>) on top of the packetizer: its ports put
  the header before a frame, with the number of the channel, which the packetizer then repeats in each part; the frames which
  the depacketizer has put together go to the ports by that number.
\<close>

section \<open>Ports\<close>

record tdest_port = port +
  t0_dest :: int
  t0_stripHeader :: bool

definition t0_new :: "int \<Rightarrow> bool \<Rightarrow> nat \<Rightarrow> tdest_port" where
  "t0_new dest stripHeader qDepth = port.extend (port_new qDepth) \<lparr>t0_dest = dest, t0_stripHeader = stripHeader\<rparr>"

definition t0_createPort :: "int \<Rightarrow> bool \<Rightarrow> nat \<Rightarrow> ((tdest_port, 'a) bytemux_scheme, unit) sem" where
  "t0_createPort dest stripHeader qDepth = bm_addPort dest (t0_new dest stripHeader qDepth)"

definition t0_extractDest :: "chain \<Rightarrow> exn + int" where
  "t0_extractDest bc = (case bc of
     [] \<Rightarrow> Inl (Undefined ''null buffer'')
   | b # _ \<Rightarrow> map_sum id (\<lambda>d. int (unat d)) (parseTDest AXIS (b_view b) (b_size b)))"

text \<open>Takes header and tail off.\<close>

definition t0_strip :: "chain \<Rightarrow> exn + chain" where
  "t0_strip bc = (case bc of
     [] \<Rightarrow> Inl (Undefined ''null buffer'')
   | b # r \<Rightarrow>
     (case parseHeaderSize AXIS (b_view b) of Inl e \<Rightarrow> Inl e
      | Inr hsize \<Rightarrow>
        (case parseTailSize AXIS (b_view b) of Inl e \<Rightarrow> Inl e
         | Inr tsize \<Rightarrow>
           (case on_tail (reading b_size (\<lambda>n. b_setSize (nat ((int n - int tsize) mod 2 ^ 64))))
               (snd (b_adjPayload (int hsize) b) # r) of
              (Inl e, _) \<Rightarrow> Inl e
            | (Inr _, c) \<Rightarrow> Inr c))))"

definition t0_pushDownstream :: "chain \<Rightarrow> (tdest_port, bool) sem" where
  "t0_pushDownstream bc = reading t0_stripHeader (\<lambda>s.
     if s then bnd (liftR (t0_strip bc)) port_pushDownstream else port_pushDownstream bc)"

text \<open>What goes upstream, and what is left: nothing. The result of \<open>adjPayload\<close> is not looked at.\<close>

definition t0_processOutput :: "tdest_port \<Rightarrow> chain \<Rightarrow> exn + chain \<times> chain option" where
  "t0_processOutput p bc = (case bc of
     [] \<Rightarrow> Inl (Undefined ''null buffer'')
   | b # r \<Rightarrow>
     map_sum id (\<lambda>b. (b # r, None))
      (if t0_stripHeader p
       then let hdr = (axis_new 0 0 0)\<lparr>ph_tDest := of_int (t0_dest p)\<rparr>; b = snd (b_adjPayload (- int HEADER_SIZE) b)
         in map_sum id (\<lambda>v. b_setView v b) (axis_insert hdr (b_view b) (b_size b))
       else map_sum id (\<lambda>v. b_setView v b) (insertTDest AXIS (b_view b) (b_size b) (of_int (t0_dest p)))))"

interpretation t0: demux t0_extractDest t0_pushDownstream
proof
  fix bc dest
  assume "t0_extractDest bc = Inr dest"
  then obtain d :: u8 where d: "dest = int (unat d)"
    by (auto simp: t0_extractDest_def split: list.splits sum.splits) (metis map_sum.simps old.sum.exhaust sum.sel(2) sum.distinct(1))
  have "unat d < 256" using unat_bound [of d] by simp
  then show "dest \<le> 255" unfolding d by linarith
qed

section \<open>The stack\<close>

text \<open>The multiplexer with the packetizer as its upstream door.\<close>

record stack0 = "tdest_port bytemux" +
  s0_depack :: depack_tx

definition s0_pushUp :: "u8 list \<Rightarrow> chain \<Rightarrow> (stack0, bool) sem" where
  "s0_pushUp junk bc = (\<lambda>s. case px_push junk bc (s0_depack s) of (r, d) \<Rightarrow> (r, s\<lparr>s0_depack := d\<rparr>))"

text \<open>\<open>push\<close> of the port in the slot \<open>i\<close>; the first round of its loop sends all of the frame.\<close>

definition t0_push :: "u8 list \<Rightarrow> nat \<Rightarrow> chain \<Rightarrow> (stack0, bool) sem" where
  "t0_push junk i bc = reading (\<lambda>s. bm_downstream s ! i) (\<lambda>q. case q of
     None \<Rightarrow> raise (Undefined ''null port'')
   | Some p \<Rightarrow> if \<not> port_isOpen p then ret False
       else push_loop (\<lambda>c. liftR (t0_processOutput p c)) (s0_pushUp junk) 2 (Some bc))"

section \<open>Headers and tails\<close>

lemma axis_parse_dest:
  assumes "axis_parse p s g = (True, h)"
  shows "parseTDest AXIS p s = Inr (ph_tDest h)" "parseHeaderSize AXIS p = Inr 8" "parseTailSize AXIS p = Inr 1"
proof -
  have v: "ucast (getNum 0 4 p) = (0 :: u32)" and s: "8 \<le> s" and h: "ph_tDest h = ucast (getNum 40 8 p)"
    using assms by (auto simp: axis_parse_def ph_parse_def AXIS_def HEADER_SIZE_def Let_def split: if_splits prod.splits bool.splits)
  have "ph_tDest h = p ! 5" unfolding h using getNum_byte [of 5 p] by (simp add: ucast_ucast_u8)
  then show "parseTDest AXIS p s = Inr (ph_tDest h)" "parseHeaderSize AXIS p = Inr 8" "parseTailSize AXIS p = Inr 1"
    using v s by (simp_all add: parseTDest_def parseHeaderSize_def parseTailSize_def AXIS_def HEADER_SIZE_def parseVersion_getNum)
qed

lemma t0_strip_spec:
  assumes "c_ok c" "frag_of c f k dst" "8 \<le> b_size (hd c)" "1 \<le> b_size (last c)" "9 \<le> c_size c" "c \<noteq> []"
  shows "\<exists>x. t0_strip c = Inr x \<and> c_ok x \<and> c_bytes x = butlast (drop 8 (c_bytes c))"
proof -
  obtain b r where c: "c = b # r" using assms(6) by (cases c) auto
  obtain h where h: "axis_read b = (True, h)" using assms(2) by (auto simp: frag_of_def c)
  have b: "b_ok b" "8 \<le> b_size b" "c_ok r" using assms(1,3) by (simp_all add: c)
  from advance_buf [OF b(1,2)] obtain b' where b': "b_adjPayload 8 b = (Inr True, b')" "b_ok b'" "b_size b' = b_size b - 8"
    "b_payload b' = drop 8 (b_payload b)" by blast
  let ?c = "b' # r"
  have l: "b_ok (last ?c)" "1 \<le> b_size (last ?c)"
    using assms(4,5) b b' by (auto simp: c c_ok_last)
  let ?x = "butlast ?c @ [strip_tail (last ?c)]"
  have "t0_strip c = Inr ?x"
    using on_tail_strip [OF l] b'(1) axis_parse_dest(2,3) [OF h] by (simp add: t0_strip_def c AXIS_def)
  moreover have "c_bytes ?x = butlast (drop 8 (c_bytes c))"
  proof -
    have "c_bytes ?c = drop 8 (c_bytes c)" using b b' by (simp add: c)
    moreover have "c_bytes ?c = c_bytes (butlast ?c) @ b_payload (last ?c)" by (metis append_butlast_last_id c_bytes_simps(1,2,3) append_Nil2 list.distinct(1))
    moreover have "b_payload (last ?c) \<noteq> []" using l by (metis length_payload list.size(3) not_one_le_zero)
    ultimately show ?thesis using payload_strip_tail [OF l] by (simp add: butlast_append del: butlast.simps last.simps)
  qed
  moreover have "c_ok ?x"
  proof -
    have "b_ok (strip_tail (last ?c))" using l by (auto simp: strip_tail_def b_ok_def b_size_def b_capa_def split: if_splits)
    moreover have "c_ok (butlast ?c)" using b b' by (auto simp: c_ok_def dest: in_set_butlastD)
    ultimately show ?thesis by simp
  qed
  ultimately show ?thesis by blast
qed

section \<open>Sending\<close>

definition t0_ready :: "nat \<Rightarrow> tdest_port \<Rightarrow> bool" where
  "t0_ready i p \<longleftrightarrow> port_isOpen p \<and> po_hasQueue p \<and> po_queueUp p \<and> t0_dest p = int i \<and> t0_stripHeader p"

definition px_ready :: "depack_tx \<Rightarrow> bool" where
  "px_ready d \<longleftrightarrow> cache_ok d \<and> px_upOk d \<and> px_isOpen d"

text \<open>A frame in buffers with room for a header before and a tail behind the payload, each of which fits.\<close>

definition frame0_ok :: "u32 \<Rightarrow> chain \<Rightarrow> bool" where
  "frame0_ok mtu c \<longleftrightarrow> c_ok c \<and> 0 < c_size c \<and> (\<forall>b \<in> set c. 8 \<le> b_beg b \<and> b_end b + 1 \<le> b_capa b \<and> fits mtu (b_size b + 8))
     \<and> length c < 2 ^ 15"

lemma c_size_bound: "c_ok c \<Longrightarrow> c_size c \<le> 65535 * length c"
proof (induction c)
  case (Cons b c)
  have "b_size b \<le> 65535" using Cons.prems b_size_ok [of b] by (auto simp: b_ok_def)
  then show ?case using Cons by simp
qed simp

lemma t0_processOutput_spec:
  assumes "t0_ready i p" "frame0_ok mtu c" "i < 256"
  shows "\<exists>c'. t0_processOutput p c = Inr (c', None) \<and> px_ok mtu c' \<and> frag_of c' 0 0 (of_nat i) \<and> drop 8 (c_bytes c') = c_bytes c
    \<and> length c' = length c"
proof -
  obtain b r where c: "c = b # r" using assms(2) by (cases c) (auto simp: frame0_ok_def)
  have b: "b_ok b" "8 \<le> b_beg b" "b_end b + 1 \<le> b_capa b" "fits mtu (b_size b + 8)" "c_ok r"
    using assms(2) by (auto simp: frame0_ok_def c)
  let ?h = "(axis_new 0 0 0)\<lparr>ph_tDest := of_nat i\<rparr>"
  have h: "axis_wf ?h" "ax_frameNo ?h = 0" "ph_fragNo ?h = 0" "ph_tDest ?h = of_nat i"
    by (simp_all add: axis_wf_def axis_new_def setSOF_def FRAG_MAX_def push_bit_of_1)
  from retreat_buf [OF b(1,2)] obtain b1 j where b1: "snd (b_adjPayload (- 8) b) = b1" "b_ok b1" "b_size b1 = b_size b + 8"
    "length j = 8" "b_payload b1 = j @ b_payload b" by blast
  have keep: "b_end b1 = b_end b" "b_data b1 = b_data b"
    using b1(1) b(1,2) by (auto simp: b_adjPayload_def sem_app b_ok_def split: if_splits)
  have "8 \<le> b_size b1" using b1(3) by simp
  from header_insert [OF b1(2) this h(1)] obtain v where v: "axis_insert ?h (b_view b1) HEADER_SIZE = Inr v" "b_ok (b_setView v b1)"
    "b_capa (b_setView v b1) = b_capa b1" "axis_read (b_setView v b1) = (True, ?h)"
    "drop 8 (b_payload (b_setView v b1)) = drop 8 (b_payload b1)" by blast
  let ?b = "b_setView v b1"
  have "axis_insert ?h (b_view b1) (b_size b1) = Inr v"
    using v(1) b1(3) by (simp add: axis_insert_def ph_insert_def HEADER_SIZE_def)
  then have "t0_processOutput p c = Inr (?b # r, None)"
    using assms(1) b1(1) by (simp add: t0_processOutput_def c t0_ready_def Let_def HEADER_SIZE_def)
  moreover have "c_size (?b # r) + 8 * length (?b # r) < 2 ^ 32"
  proof -
    have "c_size c \<le> 65535 * length c" "length c < 2 ^ 15" using assms(2) c_size_bound by (simp_all add: frame0_ok_def)
    then show ?thesis using b1(3) by (simp add: c)
  qed
  then have "px_ok mtu (?b # r)"
    using assms(2) b v(2,3) b1(3) keep by (simp add: px_ok_def frame0_ok_def c b_capa_def)
  moreover have "frag_of (?b # r) 0 0 (of_nat i)" using v(4) h by (auto simp: frag_of_def)
  moreover have "drop 8 (c_bytes (?b # r)) = c_bytes c"
    using v(2,5) b1 by (simp add: c)
  ultimately show ?thesis by (intro exI [of _ "?b # r"]) (simp add: c)
qed

lemma t0_push_spec:
  assumes "bm_ok s" "bm_port s i = Some p" "t0_ready i p" "px_ready (s0_depack s)" "frame0_ok (dk_upMTU (s0_depack s)) c" "junk_ok junk"
  defines "f \<equiv> fst (newFrameID (dk_frameNo (s0_depack s)))"
  shows "\<exists>ps s'. t0_push junk i c s = (Inr True, s') \<and> px_up (s0_depack s') = px_up (s0_depack s) @ ps \<and> ps \<noteq> [] \<and> length ps \<le> length c
    \<and> (\<forall>k < length ps. pkt_ok f k (k + 1 = length ps) (ps ! k)) \<and> frag_of (hd ps) f 0 (of_nat i)
    \<and> glue False ps = c_bytes c @ [0x80]"
proof -
  let ?d = "s0_depack s"
  have i: "i < 256" "bm_downstream s ! i = Some p" using assms(1,2) by (auto simp: bm_port_def bm_ok_def split: if_splits)
  from t0_processOutput_spec [OF assms(3,5) i(1)] obtain c' where
    c': "t0_processOutput p c = Inr (c', None)" "px_ok (dk_upMTU ?d) c'" "frag_of c' 0 0 (of_nat i)" "drop 8 (c_bytes c') = c_bytes c"
    "length c' = length c" by blast
  have d: "cache_ok ?d" "px_upOk ?d" "px_isOpen ?d" using assms(4) by (simp_all add: px_ready_def)
  have l: "0 + length c' \<le> 2 ^ 24 - 1" using assms(5) c'(5) by (simp add: frame0_ok_def)
  have fr: "frag_of c' 0 (of_nat 0) (of_nat i)" using c'(3) by simp
  from px_loop_spec [OF d(1,2) c'(2) assms(6) l fr, of "length c' + 1"] obtain ps d' where
    ps: "push_loop (px_processOutput junk) px_pushUp (length c' + 1) (Some c') ?d = (Inr True, d')" "px_up d' = px_up ?d @ ps" "ps \<noteq> []"
    "length ps \<le> length c'" "\<forall>k < length ps. pkt_ok f k (k + 1 = length ps) (ps ! k)" "frag_of (hd ps) f 0 (of_nat i)"
    "glue False ps = c_bytes c @ [0x80]" by (auto simp: f_def c'(4))
  let ?s = "s\<lparr>s0_depack := d'\<rparr>"
  have "px_push junk c' ?d = (Inr True, d')"
    using ps(1) d(3) by (simp add: px_push_def px_retry_def cond_app del: push_loop.simps)
  then have "t0_push junk i c s = (Inr True, ?s)"
    using assms(3,5) i(2) c'(1)
    by (simp add: t0_push_def reading_app t0_ready_def frame0_ok_def numeral_2_eq_2 bnd_def sem_app s0_pushUp_def)
  then show ?thesis using ps c'(5) by (intro exI [of _ ps] exI [of _ ?s]) simp
qed

section \<open>Receiving\<close>

text \<open>The depacketizer at the other end, when the frame \<open>f\<close> is due next and has not begun to arrive.\<close>

definition awaits :: "(u32 \<Rightarrow> nat \<Rightarrow> chain) \<Rightarrow> (u32 \<Rightarrow> nat) \<Rightarrow> nat \<Rightarrow> nat \<Rightarrow> u32 \<Rightarrow> depack \<Rightarrow> bool" where
  "awaits pkt lst a b f d \<longleftrightarrow> depack_inv pkt lst a b d \<and> dk_oldestFrame d = f \<and> frame_free (2 ^ b) (dk_frame (toFrameIdx d f) d)
     \<and> dk_isOpen d \<and> dk_queueUp d"

lemma strip_keeps:
  assumes "pkt_ok f k eof c" "frag_of c g j dst"
  shows "c_ok (strip l k c)" "k = 0 \<Longrightarrow> 8 \<le> b_size (hd (strip l k c)) \<and> frag_of (strip l k c) g j dst"
    "k = l \<Longrightarrow> 1 \<le> b_size (last (strip l k c))" "strip l k c \<noteq> []"
proof -
  have p: "c \<noteq> []" "c_ok c" "8 \<le> b_size (hd c)" "1 \<le> b_size (last c)" "length c = 1 \<longrightarrow> 9 \<le> b_size (hd c)"
    using assms(1) by (auto simp: pkt_ok_def)
  define c1 where "c1 = (if k \<noteq> 0 then strip_head (hd c) # tl c else c)"
  have s: "strip l k c = (if k \<noteq> l then butlast c1 @ [strip_tail (last c1)] else c1)" by (simp add: strip_def c1_def Let_def)
  have last: "b_ok (last c1)" "1 \<le> b_size (last c1)" unfolding c1_def using head_off_last [OF assms(1)] by blast+
  have ok1: "c_ok c1" using p ok_strip_head [of "hd c"] by (cases c) (auto simp: c1_def)
  have "b_ok (strip_tail (last c1))" using last by (auto simp: strip_tail_def b_ok_def b_size_def b_capa_def split: if_splits)
  moreover have "c_ok (butlast c1)" using ok1 by (auto simp: c_ok_def dest: in_set_butlastD)
  ultimately show "c_ok (strip l k c)" using ok1 by (simp add: s)
  show "1 \<le> b_size (last (strip l k c))" if "k = l" using last(2) s that by simp
  show "strip l k c \<noteq> []" using p(1) by (auto simp: s c1_def)
  show "8 \<le> b_size (hd (strip l k c)) \<and> frag_of (strip l k c) g j dst" if "k = 0"
  proof (cases "k = l \<or> tl c \<noteq> []")
    case True
    then have "hd (strip l k c) = hd c" using that p(1) by (cases c) (auto simp: strip_def Let_def hd_append)
    then show ?thesis using p(3) assms(2) by (simp add: frag_of_def)
  next
    case False
    then obtain b where c: "c = [b]" using p(1) by (cases c) auto
    have hd: "hd (strip l k c) = strip_tail b" using False that by (simp add: strip_def Let_def c)
    have sz: "9 \<le> b_size b" "b_ok b" using p(2,5) by (simp_all add: c)
    then have "8 \<le> b_size (strip_tail b)" by (auto simp: strip_tail_def b_size_def b_ok_def split: if_splits)
    moreover have "b_view (strip_tail b) = b_view b" by (simp add: strip_tail_def b_view_def)
    moreover have "axis_read (strip_tail b) = axis_read b"
      using calculation sz by (intro axis_parse_cong) simp_all
    ultimately show ?thesis unfolding hd frag_of_def using assms(2) by (simp add: frag_of_def c)
  qed
qed

lemma c_ok_concat: "c_ok (concat cs) \<longleftrightarrow> (\<forall>c \<in> set cs. c_ok c)"
  by (auto simp: c_ok_def)

lemma whole_split: "whole pkt lst f (lst f + 1) = strip (lst f) 0 (pkt f 0) @ concat (map (\<lambda>k. strip (lst f) k (pkt f k)) [1..<lst f + 1])"
  by (simp add: whole_def upt_conv_Cons del: upt_Suc)

lemma whole_snoc: "whole pkt lst f (lst f + 1) = concat (map (\<lambda>k. strip (lst f) k (pkt f k)) [0..<lst f]) @ strip (lst f) (lst f) (pkt f (lst f))"
  by (simp add: whole_def)

lemma pkt_frag_of: "pkt_ok f k eof c \<Longrightarrow> \<exists>g j dst. frag_of c g j dst"
  by (auto simp: pkt_ok_def frag_of_def split: prod.splits)

lemma whole_frame:
  assumes "\<forall>k \<le> lst f. sent_frag pkt lst f k" "frag_of (pkt f 0) g j dst"
  defines "w \<equiv> whole pkt lst f (lst f + 1)"
  shows "c_ok w" "w \<noteq> []" "8 \<le> b_size (hd w)" "frag_of w g j dst" "1 \<le> b_size (last w)"
proof -
  have pk: "pkt_ok f k (k = lst f) (pkt f k)" if "k \<le> lst f" for k using assms(1) that by (auto simp: sent_frag_def)
  note h = strip_keeps [OF pk [of 0] assms(2), of "lst f"]
  obtain g' j' dst' where l: "frag_of (pkt f (lst f)) g' j' dst'" using pkt_frag_of [OF pk] by blast
  note e = strip_keeps [OF pk [of "lst f"] l, of "lst f"]
  show "w \<noteq> []" unfolding w_def whole_split using h(4) by simp
  have hd: "hd w = hd (strip (lst f) 0 (pkt f 0))" unfolding w_def whole_split using h(4) by simp
  show "8 \<le> b_size (hd w)" "frag_of w g j dst" using h(2) by (simp_all add: hd frag_of_def)
  show "1 \<le> b_size (last w)" unfolding w_def whole_snoc using e(3,4) by simp
  have "c_ok (strip (lst f) k (pkt f k))" if "k < lst f + 1" for k
  proof -
    have "k \<le> lst f" using that by simp
    with pkt_frag_of [OF pk] obtain g' j' dst' where "frag_of (pkt f k) g' j' dst'" by blast
    then show ?thesis by (rule strip_keeps(1) [OF pk [OF \<open>k \<le> lst f\<close>]])
  qed
  then show "c_ok w" by (simp add: w_def whole_def c_ok_concat del: upt_Suc)
qed

text \<open>The parts of a frame with the bytes \<open>B\<close>, as they are sent and as they are put together.\<close>

definition parts_of :: "chain list \<Rightarrow> u32 \<Rightarrow> nat \<Rightarrow> u8 list \<Rightarrow> bool" where
  "parts_of ps f i B \<longleftrightarrow> (\<forall>k < length ps. pkt_ok f k (k + 1 = length ps) (ps ! k)) \<and> frag_of (hd ps) f 0 (of_nat i)
     \<and> glue False ps = B @ [0x80] \<and> ps \<noteq> [] \<and> length ps < 2 ^ 24 \<and> unat f < 4096"

lemma parts_whole:
  assumes ps: "parts_of ps f i B" and pkt: "\<forall>k < length ps. pkt f k = ps ! k" and lst: "lst f + 1 = length ps"
  shows "\<forall>k \<le> lst f. sent_frag pkt lst f k" "frag_of (pkt f 0) f 0 (of_nat i)"
    "\<exists>H. length H = 8 \<and> c_bytes (whole pkt lst f (lst f + 1)) = H @ B @ [0x80]"
proof -
  have le: "k \<le> lst f \<longleftrightarrow> k < length ps" for k using lst by linarith
  have "unat f < 4096" "lst f < 2 ^ 24 - 1" using ps lst by (simp_all add: parts_of_def)
  moreover have "pkt_ok f k (k = lst f) (pkt f k)" if "k \<le> lst f" for k
  proof -
    have e: "(k + 1 = length ps) = (k = lst f)" using lst by linarith
    have "pkt_ok f k (k + 1 = length ps) (ps ! k)" using ps that unfolding le parts_of_def by blast
    then show ?thesis unfolding e using pkt that by (simp add: le)
  qed
  ultimately show sent: "\<forall>k \<le> lst f. sent_frag pkt lst f k" by (simp add: sent_frag_def)
  obtain p ps' where p: "ps = p # ps'" using ps by (cases ps) (auto simp: parts_of_def)
  show "frag_of (pkt f 0) f 0 (of_nat i)" using ps pkt by (simp add: p parts_of_def)
  have "pkt_ok f 0 (0 + 1 = length ps) p" using ps unfolding p parts_of_def by fastforce
  then have 9: "9 \<le> length (c_bytes p)" by (rule pkt_ok_len)
  have "c_bytes (whole pkt lst f (lst f + 1)) = glue True ps"
    using whole_bytes [of lst f pkt, OF sent] glue_frame [of ps pkt f 0 lst] pkt lst by (simp add: frame_bytes_def)
  also have "\<dots> = take 8 (c_bytes p) @ B @ [0x80]"
    using glue_first [OF 9, of ps'] ps unfolding p parts_of_def by metis
  finally show "\<exists>H. length H = 8 \<and> c_bytes (whole pkt lst f (lst f + 1)) = H @ B @ [0x80]"
    using 9 by (intro exI [of _ "take 8 (c_bytes p)"]) simp
qed

lemma parts_received:
  assumes d: "awaits pkt lst a b f d" and sent: "\<forall>k \<le> lst f. sent_frag pkt lst f k" and pkt: "\<forall>k < length ps. pkt f k = ps ! k"
    and lst: "lst f + 1 = length ps" "length ps \<le> 2 ^ b" and ns: "distinct ns" "set ns = {..<length ps}"
  shows "\<exists>d' cs. dk_run (map (\<lambda>n. (t, Some (ps ! n))) ns) d = (Inr (), d') \<and> dk_out d' = dk_out d @ whole pkt lst f (lst f + 1) # cs"
proof -
  let ?tns = "map (\<lambda>n. (t, n)) ns"
  have rcv: "receiving pkt lst a b f {} d" using d by (simp add: awaits_def receiving_def)
  have tns: "distinct (map snd ?tns)" "{} \<inter> snd ` set ?tns = {}" "lst f < 2 ^ b" using ns(1) lst by (simp_all add: o_def)
  have "{..lst f} = {..<length ps}" using lst(1) by auto
  then have all: "{} \<union> snd ` set ?tns = {..lst f}" using ns(2) by (simp add: image_image)
  have "0 \<in> set ns" using ns(2) lst(1) by (cases ps) auto
  then have "?tns \<noteq> []" by auto
  from run_receives [OF rcv tns(1,2) all this sent tns(3)] obtain d' cs where
    d': "dk_run (map (\<lambda>(t, n). (t, Some (pkt f n))) ?tns) d = (Inr (), d')" "dk_out d' = dk_out d @ whole pkt lst f (lst f + 1) # cs"
    by blast
  have "map (\<lambda>(t, n). (t, Some (pkt f n))) ?tns = map (\<lambda>n. (t, Some (ps ! n))) ns" using ns(2) pkt by (simp add: o_def)
  then have "dk_run (map (\<lambda>n. (t, Some (ps ! n))) ns) d = (Inr (), d')" using d'(1) by (simp only:)
  then show ?thesis using d'(2) by blast
qed

text \<open>A frame goes to the port of its channel, without header and tail.\<close>

lemma frame_to_port:
  assumes w: "c_ok w" "w \<noteq> []" "8 \<le> b_size (hd w)" "frag_of w f k (of_nat i)" "1 \<le> b_size (last w)"
    and B: "length H = 8" "c_bytes w = H @ B @ [0x80]"
    and m: "bm_ok m" "bm_port m i = Some q" "t0_ready i q"
  shows "\<exists>m' x. bm_pushDown t0_extractDest t0_pushDownstream w (m :: tdest_port bytemux) = (Inr True, m')
    \<and> bm_port m' i = Some (q\<lparr>po_out := po_out q @ [x]\<rparr>) \<and> c_bytes x = B"
proof -
  have i: "i < 256" using m(1,2) by (auto simp: bm_port_def bm_ok_def split: if_splits)
  have sz: "9 \<le> c_size w" using length_c_bytes [OF w(1)] B by simp
  from t0_strip_spec [OF w(1,4,3,5) sz w(2)] obtain x where x: "t0_strip w = Inr x" "c_bytes x = butlast (drop 8 (c_bytes w))" by blast
  have dest: "t0_extractDest w = Inr (int i)"
  proof -
    obtain b0 r0 where b0: "w = b0 # r0" using w(2) by (cases w) auto
    obtain h where "axis_read b0 = (True, h)" "ph_tDest h = of_nat i" using w(4) by (auto simp: frag_of_def b0)
    then show ?thesis using i axis_parse_dest(1) by (simp add: t0_extractDest_def b0 unsigned_of_nat take_bit_nat_eq_self)
  qed
  have "t0_pushDownstream w q = (Inr True, q\<lparr>po_out := po_out q @ [x]\<rparr>)"
    using m(3) x(1) by (simp add: t0_pushDownstream_def t0_ready_def sem_app bnd_def port_pushDownstream_def)
  then have "bm_pushDown t0_extractDest t0_pushDownstream w m = (Inr True, bm_setPort i (q\<lparr>po_out := po_out q @ [x]\<rparr>) m)"
    using t0.pushDown_cases [OF m(1) dest] m(2) by simp
  moreover have "c_bytes x = B" unfolding x(2) B(2) using B(1) by simp
  ultimately show ?thesis using bm_setPort_port [OF m(1) i] by auto
qed

lemma parts_delivered:
  assumes ps: "parts_of ps f i B" and d: "awaits pkt lst a b f d" and pkt: "\<forall>k < length ps. pkt f k = ps ! k"
    and lst: "lst f + 1 = length ps" "length ps \<le> 2 ^ b" and ns: "distinct ns" "set ns = {..<length ps}"
    and m: "bm_ok m" "bm_port m i = Some q" "t0_ready i q"
  shows "\<exists>d' w cs m' x. dk_run (map (\<lambda>n. (t, Some (ps ! n))) ns) d = (Inr (), d') \<and> dk_out d' = dk_out d @ w # cs
    \<and> bm_pushDown t0_extractDest t0_pushDownstream w (m :: tdest_port bytemux) = (Inr True, m')
    \<and> bm_port m' i = Some (q\<lparr>po_out := po_out q @ [x]\<rparr>) \<and> c_bytes x = B"
proof -
  note s = parts_whole [of ps f i B pkt lst, OF ps pkt lst(1)]
  from s(3) obtain H where "length H = 8" "c_bytes (whole pkt lst f (lst f + 1)) = H @ B @ [0x80]" by blast
  from frame_to_port [OF whole_frame [OF s(1,2)] this m] parts_received [OF d s(1) pkt lst ns, of t] show ?thesis by blast
qed

text \<open>C9: A frame that is pushed into a port is cut into parts, and when these arrive at the other end, in any order, the
  depacketizer puts the frame together and the demultiplexer hands it to the port of the same channel, byte by byte as it
  was, without headers and tails. (The frame number is the one which is due, and the window has slots for all parts.)\<close>

theorem stack0_delivers:
  assumes "bm_ok s" "bm_port s i = Some p" "t0_ready i p" "px_ready (s0_depack s)" "frame0_ok (dk_upMTU (s0_depack s)) c" "junk_ok junk"
  shows "\<exists>ps s'. t0_push junk i c s = (Inr True, s') \<and> px_up (s0_depack s') = px_up (s0_depack s) @ ps
    \<and> 0 < length ps \<and> length ps \<le> length c
    \<and> (\<forall>pkt lst a b f d ns t m q.
        f = fst (newFrameID (dk_frameNo (s0_depack s))) \<and> awaits pkt lst a b f d
        \<and> (\<forall>k < length ps. pkt f k = ps ! k) \<and> lst f + 1 = length ps \<and> length ps \<le> 2 ^ b
        \<and> distinct ns \<and> set ns = {..<length ps} \<and> bm_ok m \<and> bm_port m i = Some q \<and> t0_ready i q \<longrightarrow>
        (\<exists>d' w cs m' x. dk_run (map (\<lambda>n. (t, Some (ps ! n))) ns) d = (Inr (), d') \<and> dk_out d' = dk_out d @ w # cs
          \<and> bm_pushDown t0_extractDest t0_pushDownstream w (m :: tdest_port bytemux) = (Inr True, m')
          \<and> bm_port m' i = Some (q\<lparr>po_out := po_out q @ [x]\<rparr>) \<and> c_bytes x = c_bytes c))"
proof -
  let ?f = "fst (newFrameID (dk_frameNo (s0_depack s)))"
  from t0_push_spec [OF assms] obtain ps s' where ps: "t0_push junk i c s = (Inr True, s')"
    "px_up (s0_depack s') = px_up (s0_depack s) @ ps" "ps \<noteq> []" "length ps \<le> length c"
    "\<forall>k < length ps. pkt_ok ?f k (k + 1 = length ps) (ps ! k)" "frag_of (hd ps) ?f 0 (of_nat i)" "glue False ps = c_bytes c @ [0x80]" by blast
  have "unat ?f < 4096" using frame_less by (simp add: word_less_nat_alt push_bit_of_1)
  then have "parts_of ps ?f i (c_bytes c)" using ps(3-7) assms(5) by (simp add: parts_of_def frame0_ok_def)
  from parts_delivered [OF this] ps(1-4) show ?thesis by (intro exI [of _ ps] exI [of _ s']) blast
qed

section \<open>An example\<close>

definition t0_ex_port :: tdest_port where
  "t0_ex_port = port_open (t0_new 5 True 4)"

definition t0_ex_mux :: "tdest_port bytemux" where
  "t0_ex_mux = bm_setPort 5 t0_ex_port bm_new"

definition t0_ex_recv :: depack where
  "t0_ex_recv = (depack_new 1 1 (Timeout 0 5) (Timeout 0 0) True 1100)\<lparr>dk_oldestFrame := 0\<rparr>"

definition t0_ex_send :: stack0 where
  "t0_ex_send = bytemux.extend t0_ex_mux
     \<lparr>s0_depack = depack.extend (depack_new 1 1 (Timeout 0 5) (Timeout 0 0) True 1100) \<lparr>px_isOpen = True, px_upOk = True, px_up = []\<rparr>\<rparr>"

definition t0_ex_frame :: chain where
  "t0_ex_frame = [\<lparr>b_data = replicate 1000 7, b_beg = 100, b_end = 800\<rparr>, \<lparr>b_data = replicate 1000 9, b_beg = 100, b_end = 800\<rparr>]"

lemma t0_ex_port_ready: "t0_ready 5 t0_ex_port \<and> po_out t0_ex_port = []"
  by (simp add: t0_ex_port_def t0_ready_def t0_new_def port.defs port_new_def port_open_def port_isOpen_def)

lemma t0_ex_mux_ok: "bm_ok t0_ex_mux \<and> bm_port t0_ex_mux 5 = Some t0_ex_port"
proof -
  have "bm_ok (bm_new :: tdest_port bytemux)" by (simp add: bm_new_ok)
  then show ?thesis using bm_setPort_port [of bm_new 5 t0_ex_port 5] by (simp add: t0_ex_mux_def)
qed

lemma t0_ex_send_ok: "bm_ok t0_ex_send \<and> bm_port t0_ex_send 5 = Some t0_ex_port \<and> px_ready (s0_depack t0_ex_send)
  \<and> dk_upMTU (s0_depack t0_ex_send) = 1100 \<and> px_up (s0_depack t0_ex_send) = [] \<and> dk_frameNo (s0_depack t0_ex_send) = 0"
  using t0_ex_mux_ok
  by (simp add: t0_ex_send_def bm_ok_def bm_port_def bytemux.defs depack.defs depack_new_def px_ready_def cache_ok_def
      split: if_splits)

lemma t0_ex_frame_ok: "frame0_ok 1100 t0_ex_frame"
  by (simp add: frame0_ok_def t0_ex_frame_def b_ok_def b_capa_def b_size_def fits_def)

lemma t0_ex_recv_awaits: "awaits pkt lst 1 1 0 t0_ex_recv"
proof -
  have new: "depack_inv pkt lst 1 1 (depack_new 1 1 (Timeout 0 5) (Timeout 0 0) True 1100)" by (rule depack_inv_new) simp_all
  have inv: "depack_inv pkt lst 1 1 t0_ex_recv"
    unfolding t0_ex_recv_def by (rule depack_inv_cong [OF new]) simp_all
  have "toFrameIdx t0_ex_recv 0 < 2" using toFrameIdx_lt [OF inv, of 0] by simp
  then have "frame_free (2 ^ 1) (dk_frame (toFrameIdx t0_ex_recv 0) t0_ex_recv)"
    using free_new [of 2] by (simp add: dk_frame_def t0_ex_recv_def depack_new_def)
  then show ?thesis using inv by (simp add: awaits_def t0_ex_recv_def depack_new_def)
qed

lemma stack0_delivers_witness:
  "\<exists>ps s' d' w cs m' q x. t0_push (replicate 60 0) 5 t0_ex_frame t0_ex_send = (Inr True, s') \<and> px_up (s0_depack s') = ps
    \<and> dk_run (map (\<lambda>n. (Timeout 0 0, Some (ps ! n))) (rev [0..<length ps])) t0_ex_recv = (Inr (), d') \<and> dk_out d' = w # cs
    \<and> bm_pushDown t0_extractDest t0_pushDownstream w t0_ex_mux = (Inr True, m')
    \<and> bm_port m' 5 = Some q \<and> po_out q = [x] \<and> c_bytes x = c_bytes t0_ex_frame"
proof -
  let ?c = t0_ex_frame
  have hyps: "bm_ok t0_ex_send" "bm_port t0_ex_send 5 = Some t0_ex_port" "t0_ready 5 t0_ex_port" "px_ready (s0_depack t0_ex_send)"
    "frame0_ok (dk_upMTU (s0_depack t0_ex_send)) ?c" "junk_ok (replicate 60 0)"
    using t0_ex_send_ok t0_ex_port_ready t0_ex_frame_ok by (simp_all add: junk_ok_def)
  from stack0_delivers [OF hyps] obtain ps s' where ps: "t0_push (replicate 60 0) 5 ?c t0_ex_send = (Inr True, s')"
    "px_up (s0_depack s') = px_up (s0_depack t0_ex_send) @ ps" "0 < length ps" "length ps \<le> length ?c"
    and all: "\<forall>pkt lst a b f d ns t m q.
        f = fst (newFrameID (dk_frameNo (s0_depack t0_ex_send))) \<and> awaits pkt lst a b f d
        \<and> (\<forall>k < length ps. pkt f k = ps ! k) \<and> lst f + 1 = length ps \<and> length ps \<le> 2 ^ b
        \<and> distinct ns \<and> set ns = {..<length ps} \<and> bm_ok m \<and> bm_port m 5 = Some q \<and> t0_ready 5 q \<longrightarrow>
        (\<exists>d' w cs m' x. dk_run (map (\<lambda>n. (t, Some (ps ! n))) ns) d = (Inr (), d') \<and> dk_out d' = dk_out d @ w # cs
          \<and> bm_pushDown t0_extractDest t0_pushDownstream w (m :: tdest_port bytemux) = (Inr True, m')
          \<and> bm_port m' 5 = Some (q\<lparr>po_out := po_out q @ [x]\<rparr>) \<and> c_bytes x = c_bytes ?c)" by blast
  let ?ns = "rev [0..<length ps]" and ?lst = "\<lambda>_ :: u32. length ps - 1" and ?pkt = "\<lambda>(_ :: u32) k. ps ! k"
  have "(0 :: u32) = fst (newFrameID (dk_frameNo (s0_depack t0_ex_send)))" using t0_ex_send_ok by (simp add: newFrameID_def)
  moreover have "length ps \<le> 2 ^ 1" using ps(4) by (simp add: t0_ex_frame_def)
  moreover have "distinct ?ns" "set ?ns = {..<length ps}" by auto
  moreover have "?lst 0 + 1 = length ps" using ps(3) by simp
  ultimately obtain d' w cs m' x where *: "dk_run (map (\<lambda>n. (Timeout 0 0, Some (ps ! n))) ?ns) t0_ex_recv = (Inr (), d')"
    "dk_out d' = dk_out t0_ex_recv @ w # cs" "bm_pushDown t0_extractDest t0_pushDownstream w t0_ex_mux = (Inr True, m')"
    "bm_port m' 5 = Some (t0_ex_port\<lparr>po_out := po_out t0_ex_port @ [x]\<rparr>)" "c_bytes x = c_bytes ?c"
    using all [rule_format, of 0 ?pkt ?lst 1 1 t0_ex_recv ?ns t0_ex_mux t0_ex_port "Timeout 0 0"]
      t0_ex_recv_awaits t0_ex_mux_ok t0_ex_port_ready by blast
  have "dk_out t0_ex_recv = []" by (simp add: t0_ex_recv_def depack_new_def)
  then show ?thesis
    using ps(1,2) * t0_ex_send_ok t0_ex_port_ready
    by (intro exI [of _ ps] exI [of _ s'] exI [of _ d'] exI [of _ w] exI [of _ cs] exI [of _ m']
        exI [of _ "t0_ex_port\<lparr>po_out := [x]\<rparr>"] exI [of _ x]) simp
qed

end
