(* ===== verification/SrpMux.thy ===== *)
theory SrpMux
  imports ByteMux SrpWords
begin

text \<open>
  The multiplexer which lets several register devices share a connection
  (\<^verbatim>\<open>src/src/cpsw_proto_mod_srpmux.cc\<close>): it writes the number of the virtual channel over the most significant
  byte of the transaction identifier of a request and sends an answer to the port whose number it carries.
\<close>

section \<open>Messages\<close>

definition vc_off :: "srp_version \<Rightarrow> exn + nat" where
  "vc_off v = (case v of SRP_UDP_V1 \<Rightarrow> Inr 4 | SRP_UDP_V2 \<Rightarrow> Inr 3 | SRP_UDP_V3 \<Rightarrow> Inr 7
     | SRP_UDP_NONE \<Rightarrow> Inl (InternalError ''CSRPPort::processOutput -- unknown protocol version''))"

text \<open>The loop that looks for the buffer which holds the byte, and the assignment to it.\<close>

fun vc_insert :: "u8 \<Rightarrow> nat \<Rightarrow> chain \<Rightarrow> exn + chain" where
  "vc_insert vc off [] = Inl (Undefined ''null buffer'')"
| "vc_insert vc off (b # r) =
     (if b_size b \<le> off then map_sum id ((#) b) (vc_insert vc (off - b_size b) r)
      else Inr (b_setView ((b_view b)[off := vc]) b # r))"

record srp_port = port +
  sp_dest :: int

definition sp_new :: "int \<Rightarrow> nat \<Rightarrow> srp_port" where
  "sp_new dest depth = port.extend (port_new depth) \<lparr>sp_dest = dest\<rparr>"

text \<open>What goes upstream, and what is left of the chain: nothing.\<close>

definition sp_processOutput :: "srp_version \<Rightarrow> srp_port \<Rightarrow> chain \<Rightarrow> exn + chain \<times> chain option" where
  "sp_processOutput v p bc = (case vc_off v of Inl e \<Rightarrow> Inl e
     | Inr off \<Rightarrow>
       if c_size bc \<le> off then Inl (InternalError ''CSRPPort::processOutput -- message too small'')
       else map_sum id (\<lambda>c. (c, None)) (vc_insert (of_int (sp_dest p)) off bc))"

definition sm_extractDest :: "srp_version \<Rightarrow> chain \<Rightarrow> exn + int" where
  "sm_extractDest v bc = (case vc_off v of Inl e \<Rightarrow> Inl e
     | Inr off \<Rightarrow>
       if c_size bc \<le> off then Inr (DEST_MIN - 1)
       else (case c_extract bc off 1 of
           [] \<Rightarrow> Inl (Undefined ''uninitialised channel'')
         | vc # _ \<Rightarrow> if DEST_MAX < int (unat vc) then Inr (DEST_MIN - 1) else Inr (int (unat vc))))"

interpretation sm: demux "sm_extractDest v" "port_pushDownstream :: chain \<Rightarrow> (srp_port, bool) sem" for v
proof
  fix bc dest
  assume "sm_extractDest v bc = Inr dest"
  then show "dest \<le> 255"
    by (auto simp: sm_extractDest_def DEST_MIN_def DEST_MAX_def split: sum.splits if_splits list.splits)
qed

section \<open>The multiplexer\<close>

text \<open>\<open>sm_up\<close> holds what has been pushed to the upstream door, \<open>sm_upOk\<close> is what such a push returns.\<close>

record srpmux = "srp_port bytemux" +
  sm_protoVersion :: srp_version
  sm_upOk :: bool
  sm_up :: "chain list"

definition sm_new :: "srp_version \<Rightarrow> bool \<Rightarrow> srpmux" where
  "sm_new v upOk = bytemux.extend bm_new \<lparr>sm_protoVersion = v, sm_upOk = upOk, sm_up = []\<rparr>"

definition sm_createPort :: "int \<Rightarrow> nat \<Rightarrow> (srpmux, unit) sem" where
  "sm_createPort dest depth = bm_addPort dest (sp_new dest depth)"

definition sm_open :: "nat \<Rightarrow> srpmux \<Rightarrow> srpmux" where
  "sm_open i m = (case bm_downstream m ! i of None \<Rightarrow> m | Some p \<Rightarrow> bm_setPort i (port_open p) m)"

definition sm_pushUp :: "chain \<Rightarrow> (srpmux, bool) sem" where
  "sm_pushUp bc = cond sm_upOk (andThen (upd (\<lambda>m. m\<lparr>sm_up := sm_up m @ [bc]\<rparr>)) (ret True)) (ret False)"

text \<open>\<open>push\<close> of the port in the slot \<open>i\<close>. The first round of its loop sends all of the message.\<close>

definition sp_push :: "nat \<Rightarrow> chain \<Rightarrow> (srpmux, bool) sem" where
  "sp_push i bc = reading (\<lambda>m. (bm_downstream m ! i, sm_protoVersion m)) (\<lambda>(q, v). case q of
     None \<Rightarrow> raise (Undefined ''null port'')
   | Some p \<Rightarrow> if \<not> port_isOpen p then ret False
       else push_loop (\<lambda>c. liftR (sp_processOutput v p c)) sm_pushUp 2 (Some bc))"

section \<open>The byte of the channel\<close>

lemma vc_insert_bytes:
  assumes "c_ok c" "off < c_size c"
  shows "\<exists>c'. vc_insert vc off c = Inr c' \<and> c_ok c' \<and> c_bytes c' = (c_bytes c)[off := vc]"
  using assms
proof (induction c arbitrary: off)
  case (Cons b r)
  have b: "b_ok b" "length (b_payload b) = b_size b" using Cons.prems(1) by simp_all
  show ?case
  proof (cases "b_size b \<le> off")
    case True
    then have "off - b_size b < c_size r" using Cons.prems(2) by simp
    from Cons.IH [OF _ this] Cons.prems(1) obtain r' where
      "vc_insert vc (off - b_size b) r = Inr r'" "c_ok r'" "c_bytes r' = (c_bytes r)[off - b_size b := vc]" by auto
    then show ?thesis using True b by (simp add: list_update_append)
  next
    case False
    have "b_payload (b_setView ((b_view b)[off := vc]) b) = (b_payload b)[off := vc]"
      using b(1) by (simp add: b_payload_def take_update_swap)
    then show ?thesis using False b Cons.prems(1) by (simp add: list_update_append)
  qed
qed simp

lemma extractDest_byte:
  assumes "c_ok c" "vc_off v = Inr off"
  shows "sm_extractDest v c = Inr (if off < length (c_bytes c) then int (unat (c_bytes c ! off)) else - 1)"
proof (cases "c_size c \<le> off")
  case True
  then show ?thesis using assms by (simp add: sm_extractDest_def DEST_MIN_def length_c_bytes)
next
  case False
  then have "c_extract c off 1 = [c_bytes c ! off]"
    using assms(1) by (simp add: c_extract_bytes length_c_bytes take_Suc_conv_app_nth hd_drop_conv_nth take_Suc)
  moreover have "\<not> 255 < uint x" for x :: u8 using uint_bounded [of x] by simp
  ultimately show ?thesis using False assms by (simp add: sm_extractDest_def DEST_MAX_def length_c_bytes)
qed

text \<open>The channel is in the byte of the identifier which a transaction does not use, whatever the order of the bytes.\<close>

definition tid_pos :: "srp_version \<Rightarrow> nat" where
  "tid_pos v = (if v = SRP_UDP_V2 then 0 else 4)"

lemma tid_mask: "(0xFFFFFF :: u32) = mask 24"
  by (simp add: mask_eq_exp_minus_1)

lemma join32_low: "join32 a b c d AND 0xFFFFFF = join32 0 b c d"
  unfolding tid_mask by (rule bit_word_eqI) (auto simp: join32_def bit_simps dest: bit_imp_le_length)

text \<open>Replacing the byte of the channel does not change the identifier which the device sees.\<close>

lemma extractTid_channel:
  assumes "sr_tidMsk c = 0xFFFFFF" "vc_off (sr_protoVersion c) = Inr off" "tid_pos (sr_protoVersion c) + 4 \<le> length m"
    "sr_host c \<in> {LE, BE}"
  shows "extractTid c (m[off := vc]) = extractTid c m"
proof -
  let ?p = "tid_pos (sr_protoVersion c)"
  have off: "off = (if sr_protoVersion c = SRP_UDP_V1 then ?p else ?p + 3)"
    using assms(2) by (cases "sr_protoVersion c") (auto simp: vc_off_def tid_pos_def)
  have l: "length (take 4 (drop ?p m)) = 4" using assms(3) by simp
  then obtain w x y z where b: "take 4 (drop ?p m) = [w, x, y, z]" using list4 by blast
  have "take 4 (drop ?p (m[off := vc])) = (take 4 (drop ?p m))[off - ?p := vc]"
    using off by (simp add: drop_update_swap take_update_swap)
  then have b': "take 4 (drop ?p (m[off := vc])) = (if sr_protoVersion c = SRP_UDP_V1 then [vc, x, y, z] else [w, x, y, vc])"
    unfolding b using off by (auto simp: numeral_3_eq_3)
  have eq: "extractTid c n = Inr (toTid c (if needsHdrSwap c then swp32 (bytes_word (sr_host c) b) else bytes_word (sr_host c) b))"
    if "take 4 (drop ?p n) = b" "length b = 4" for n b
    using that by (auto simp: extractTid_def msg_extract_def tid_pos_def Let_def)
  have "length (if sr_protoVersion c = SRP_UDP_V1 then [vc, x, y, z] else [w, x, y, vc]) = 4" by simp
  from eq [OF b' this] eq [OF b] show ?thesis
    using assms(1,4) by (cases "sr_host c"; cases "sr_protoVersion c")
      (simp_all add: toTid_def bytes_word_def needsHdrSwap_def swp32_def join32_bytes join32_low numeral_3_eq_3 numeral_2_eq_2)
qed

section \<open>Exchanges\<close>

text \<open>The ports that a program creates and opens: channel and depth of the queue.\<close>

fun sm_ports :: "(int \<times> nat) list \<Rightarrow> (srpmux, unit) sem" where
  "sm_ports [] = ret ()"
| "sm_ports ((d, depth) # ps) = andThen (sm_createPort d depth) (andThen (upd (sm_open (nat d))) (sm_ports ps))"

definition sm_start :: "srp_version \<Rightarrow> (int \<times> nat) list \<Rightarrow> srpmux" where
  "sm_start v ps = snd (sm_ports ps (sm_new v True))"

fun sm_requests :: "(nat \<times> chain) list \<Rightarrow> (srpmux, unit) sem" where
  "sm_requests [] = ret ()"
| "sm_requests ((i, c) # rs) = bnd (sp_push i c) (\<lambda>_. sm_requests rs)"

definition sp_ready :: "nat \<Rightarrow> chain list \<Rightarrow> srp_port \<Rightarrow> bool" where
  "sp_ready i out p \<longleftrightarrow> port_isOpen p \<and> po_hasQueue p \<and> po_queueUp p \<and> po_out p = out \<and> sp_dest p = int i"

text \<open>The channels in \<open>ds\<close> have ports, and \<open>out i\<close> is in the queue of port \<open>i\<close>.\<close>

definition sm_ready :: "srp_version \<Rightarrow> int set \<Rightarrow> (nat \<Rightarrow> chain list) \<Rightarrow> srpmux \<Rightarrow> bool" where
  "sm_ready v ds out m \<longleftrightarrow> bm_ok m \<and> sm_protoVersion m = v \<and> sm_upOk m \<and> (\<forall>i. bm_port m i \<noteq> None \<longleftrightarrow> int i \<in> ds)
     \<and> (\<forall>i p. bm_port m i = Some p \<longrightarrow> sp_ready i (out i) p)"

lemma sm_create_open:
  assumes m: "sm_ready v ds (\<lambda>_. []) m" "sm_up m = []" and d: "d \<notin> ds" "0 \<le> d" "d \<le> 255" "0 < depth"
  shows "\<exists>m'. sm_createPort d depth m = (Inr (), m') \<and> sm_ready v (insert d ds) (\<lambda>_. []) (sm_open (nat d) m')
    \<and> sm_up (sm_open (nat d) m') = []"
proof -
  let ?p = "sp_new d depth"
  have ok: "bm_ok m" "int (nat d) \<notin> ds" using m d by (simp_all add: sm_ready_def)
  then have "bm_port m (nat d) = None" using m(1) unfolding sm_ready_def by blast
  then have free: "bm_downstream m ! nat d = None" "nat d < length (bm_downstream m)"
    using ok(1) d by (simp_all add: bm_port_def bm_ok_def nat_less_iff)
  let ?m = "m\<lparr>bm_downstream := (bm_downstream m)[nat d := Some ?p], bm_nPorts := bm_nPorts m + 1\<rparr>"
  have run: "sm_createPort d depth m = (Inr (), ?m)"
    using free d by (simp add: sm_createPort_def bm_addPort_def sem_app DEST_MIN_def DEST_MAX_def)
  have op: "sm_open (nat d) ?m = ?m\<lparr>bm_downstream := (bm_downstream m)[nat d := Some (port_open ?p)]\<rparr>"
    using free by (simp add: sm_open_def bm_setPort_def)
  have p: "sp_ready (nat d) [] (port_open ?p)"
    using d by (simp add: sp_ready_def sp_new_def port.defs port_new_def port_open_def port_isOpen_def)
  have at: "bm_port (sm_open (nat d) ?m) i = (if i = nat d then Some (port_open ?p) else bm_port m i)" for i
    using free unfolding op by (auto simp: bm_port_def)
  have "int i = d \<longleftrightarrow> i = nat d" for i using d(2) by auto
  then have "(bm_port (sm_open (nat d) ?m) i \<noteq> None) = (int i \<in> insert d ds)" for i
    using m(1) unfolding at sm_ready_def by auto
  moreover have "bm_port (sm_open (nat d) ?m) i = Some q \<Longrightarrow> sp_ready i [] q" for i q
    using m(1) p unfolding at sm_ready_def by (auto split: if_splits)
  moreover have "bm_ok (sm_open (nat d) ?m)" "sm_protoVersion (sm_open (nat d) ?m) = v" "sm_upOk (sm_open (nat d) ?m)"
    using m(1) unfolding op by (simp_all add: sm_ready_def bm_ok_def)
  ultimately have "sm_ready v (insert d ds) (\<lambda>_. []) (sm_open (nat d) ?m)" unfolding sm_ready_def by blast
  then show ?thesis using run m(2) op by auto
qed

definition sm_specs_ok :: "(int \<times> nat) list \<Rightarrow> bool" where
  "sm_specs_ok ps \<longleftrightarrow> distinct (map fst ps) \<and> (\<forall>(d, depth) \<in> set ps. 0 \<le> d \<and> d \<le> 255 \<and> 0 < depth)"

lemma sm_ports_ready:
  assumes "sm_specs_ok ps" "sm_ready v ds (\<lambda>_. []) m" "sm_up m = []" "ds \<inter> fst ` set ps = {}"
  shows "\<exists>m'. sm_ports ps m = (Inr (), m') \<and> sm_ready v (ds \<union> fst ` set ps) (\<lambda>_. []) m' \<and> sm_up m' = []"
  using assms
proof (induction ps arbitrary: ds m)
  case (Cons x ps)
  obtain d depth where x: "x = (d, depth)" by (cases x)
  then have d: "d \<notin> ds" "0 \<le> d" "d \<le> 255" "0 < depth" "sm_specs_ok ps" "d \<notin> fst ` set ps"
    using Cons.prems by (auto simp: sm_specs_ok_def)
  from sm_create_open [OF Cons.prems(2,3) d(1-4)] obtain m1 where m1: "sm_createPort d depth m = (Inr (), m1)"
    "sm_ready v (insert d ds) (\<lambda>_. []) (sm_open (nat d) m1)" "sm_up (sm_open (nat d) m1) = []" by blast
  have "insert d ds \<inter> fst ` set ps = {}" using Cons.prems(4) d x by auto
  from Cons.IH [OF d(5) m1(2,3) this] m1(1) show ?case by (simp add: x andThen_def bnd_def sem_app)
qed (simp add: ret_app)

lemma sm_start_ready:
  assumes "sm_specs_ok ps"
  shows "sm_ready v (fst ` set ps) (\<lambda>_. []) (sm_start v ps)" "sm_up (sm_start v ps) = []"
proof -
  have "sm_ready v {} (\<lambda>_. []) (sm_new v True)" "sm_up (sm_new v True) = []"
    by (auto simp: sm_ready_def sm_new_def bm_ok_def bm_new_def bm_port_def bytemux.defs)
  from sm_ports_ready [OF assms this] show "sm_ready v (fst ` set ps) (\<lambda>_. []) (sm_start v ps)" "sm_up (sm_start v ps) = []"
    by (auto simp: sm_start_def)
qed

text \<open>A request goes upstream with the number of its channel in its place.\<close>

definition marked :: "nat \<Rightarrow> nat \<times> chain \<Rightarrow> chain \<Rightarrow> bool" where
  "marked off r c \<longleftrightarrow> c_ok c \<and> c_bytes c = (c_bytes (snd r))[off := of_nat (fst r)]"

lemma sp_push_spec:
  assumes m: "sm_ready v ds out m" and i: "int i \<in> ds" and c: "c_ok c" "vc_off v = Inr off" "off < c_size c"
  shows "\<exists>c'. sp_push i c m = (Inr True, m\<lparr>sm_up := sm_up m @ [c']\<rparr>) \<and> marked off (i, c) c'"
proof -
  obtain p where p: "bm_port m i = Some p" "sp_ready i (out i) p" using m i unfolding sm_ready_def by blast
  from vc_insert_bytes [OF c(1,3)] obtain c' where c': "vc_insert (of_nat i) off c = Inr c'" "c_ok c'"
    "c_bytes c' = (c_bytes c)[off := of_nat i]" by blast
  have out: "sp_processOutput v p c = Inr (c', None)" using p(2) c c' by (simp add: sp_processOutput_def sp_ready_def)
  have "sp_push i c m = push_loop (\<lambda>c. liftR (sp_processOutput v p c)) sm_pushUp 2 (Some c) m"
    using p m by (auto simp: sp_push_def reading_app sp_ready_def sm_ready_def bm_port_def split: if_splits)
  also have "\<dots> = (Inr True, m\<lparr>sm_up := sm_up m @ [c']\<rparr>)"
    using c(3) out m by (simp add: numeral_2_eq_2 bnd_def sm_pushUp_def andThen_def sem_app sm_ready_def)
  finally show ?thesis using c' by (auto simp: marked_def)
qed

lemma sm_ready_up [simp]: "sm_ready v ds out (m\<lparr>sm_up := x\<rparr>) = sm_ready v ds out m"
proof -
  have "bm_port (m\<lparr>sm_up := x\<rparr>) i = bm_port m i" for i by (simp add: bm_port_def)
  then show ?thesis by (simp add: sm_ready_def bm_ok_def)
qed

lemma sm_requests_spec:
  assumes "sm_ready v ds out m" "vc_off v = Inr off" "\<forall>(i, c) \<in> set rs. int i \<in> ds \<and> c_ok c \<and> off < c_size c"
  shows "\<exists>cs. sm_requests rs m = (Inr (), m\<lparr>sm_up := sm_up m @ cs\<rparr>) \<and> list_all2 (marked off) rs cs"
  using assms
proof (induction rs arbitrary: m)
  case (Cons r rs)
  obtain i c where r: "r = (i, c)" by (cases r)
  from sp_push_spec [OF Cons.prems(1) _ _ Cons.prems(2), of i c] Cons.prems(3) r obtain c' where
    c': "sp_push i c m = (Inr True, m\<lparr>sm_up := sm_up m @ [c']\<rparr>)" "marked off r c'" by auto
  have "sm_ready v ds out (m\<lparr>sm_up := sm_up m @ [c']\<rparr>)"
    using Cons.prems(1) by simp
  from Cons.IH [OF this Cons.prems(2)] Cons.prems(3) obtain cs where
    "sm_requests rs (m\<lparr>sm_up := sm_up m @ [c']\<rparr>) = (Inr (), m\<lparr>sm_up := sm_up m @ c' # cs\<rparr>)" "list_all2 (marked off) rs cs" by auto
  then show ?case using c' by (intro exI [of _ "c' # cs"]) (simp add: r bnd_def)
qed (auto simp: ret_app intro: exI [of _ "[]"])

text \<open>An answer goes to the port whose number it carries.\<close>

lemma sm_pushDown_spec:
  assumes m: "sm_ready v ds out m" and c: "c_ok c" "sm_extractDest v c = Inr (int k)"
  shows "\<exists>b m'. bm_pushDown (sm_extractDest v) port_pushDownstream c m = (Inr b, m')
    \<and> sm_ready v ds (\<lambda>i. if i = k \<and> int i \<in> ds then out i @ [c] else out i) m' \<and> sm_up m' = sm_up m"
proof (cases "bm_port m k")
  case None
  then have "int k \<notin> ds" using m unfolding sm_ready_def by blast
  then have "(\<lambda>i. if i = k \<and> int i \<in> ds then out i @ [c] else out i) = out" by auto
  then show ?thesis using sm.pushDown_cases [OF _ c(2), of m] m None
    by (intro exI [of _ False] exI [of _ m]) (simp add: sm_ready_def)
next
  case (Some p)
  then have p: "sp_ready k (out k) p" "int k \<in> ds" "bm_ok m" using m unfolding sm_ready_def by blast+
  have k: "k < 256" using sm.dest_range [OF c(2)] by simp
  let ?p = "p\<lparr>po_out := po_out p @ [c]\<rparr>"
  have "port_pushDownstream c p = (Inr True, ?p)"
    using p(1) by (simp add: port_pushDownstream_def sp_ready_def sem_app)
  then have run: "bm_pushDown (sm_extractDest v) port_pushDownstream c m = (Inr True, bm_setPort k ?p m)"
    using sm.pushDown_cases [OF p(3) c(2)] Some by simp
  have "sp_ready k (out k @ [c]) ?p" using p(1) by (simp add: sp_ready_def port_isOpen_def)
  moreover have "sm_protoVersion (bm_setPort k ?p m) = v" "sm_upOk (bm_setPort k ?p m)" "sm_up (bm_setPort k ?p m) = sm_up m"
    using m by (simp_all add: bm_setPort_def sm_ready_def)
  ultimately show ?thesis
    using run m p k by (intro exI [of _ True] exI [of _ "bm_setPort k ?p m"])
      (auto simp: sm_ready_def bm_setPort_port [OF p(3) k] split: if_splits)
qed

definition goes_to :: "srp_version \<Rightarrow> nat \<Rightarrow> chain \<Rightarrow> bool" where
  "goes_to v i c \<longleftrightarrow> sm_extractDest v c = Inr (int i)"

lemma sm_thread_spec:
  assumes "sm_ready v ds out m" "\<forall>c \<in> set cs. c_ok c \<and> (\<exists>k. goes_to v k c)"
  shows "\<exists>m'. bm_thread (sm_extractDest v) port_pushDownstream cs m = (Inr (), m')
    \<and> sm_ready v ds (\<lambda>i. out i @ (if int i \<in> ds then filter (goes_to v i) cs else [])) m' \<and> sm_up m' = sm_up m"
  using assms
proof (induction cs arbitrary: m out)
  case Nil
  have "(\<lambda>i. out i @ (if int i \<in> ds then filter (goes_to v i) [] else [])) = out" by auto
  then show ?case using Nil(1) by (simp add: ret_app)
next
  case (Cons c cs)
  then obtain k where c: "c_ok c" "goes_to v k c" by auto
  then have dest: "sm_extractDest v c = Inr (int k)" by (simp add: goes_to_def)
  from sm_pushDown_spec [OF Cons.prems(1) c(1) dest] obtain b n where n:
    "bm_pushDown (sm_extractDest v) port_pushDownstream c m = (Inr b, n)" "sm_up n = sm_up m"
    "sm_ready v ds (\<lambda>i. if i = k \<and> int i \<in> ds then out i @ [c] else out i) n" by blast
  have "goes_to v i c \<longleftrightarrow> i = k" for i using dest by (auto simp: goes_to_def)
  then have "(\<lambda>i. (if i = k \<and> int i \<in> ds then out i @ [c] else out i) @ (if int i \<in> ds then filter (goes_to v i) cs else []))
    = (\<lambda>i. out i @ (if int i \<in> ds then filter (goes_to v i) (c # cs) else []))" by auto
  then show ?case using Cons.IH [OF n(3)] Cons.prems(2) n(1,2) by (auto simp: bnd_def)
qed

section \<open>Requests and answers\<close>

text \<open>The bytes of the transaction identifier.\<close>

definition tid_word :: "srp_version \<Rightarrow> chain \<Rightarrow> u8 list" where
  "tid_word v c = take 4 (drop (tid_pos v) (c_bytes c))"

lemma vc_off_pos:
  "vc_off v = Inr off \<Longrightarrow> tid_pos v \<le> off \<and> off < tid_pos v + 4"
  by (cases v) (auto simp: vc_off_def tid_pos_def)

text \<open>An answer that repeats the identifier of a request carries its channel, and the identifier which its sender looks for.\<close>

lemma answer_dest:
  assumes "vc_off v = Inr off" "tid_word v a = tid_word v c" "marked off (i, r) c" "i < 256"
    "c_ok a" "c_ok r" "tid_pos v + 4 \<le> c_size r"
  shows "goes_to v i a"
proof -
  note o = vc_off_pos [OF assms(1)]
  have b: "c_bytes c = (c_bytes r)[off := of_nat i]" using assms(3) by (simp add: marked_def)
  have lr: "length (c_bytes c) = c_size r" using assms(6) b by (simp add: length_c_bytes)
  then have "length (tid_word v c) = 4" using assms(7) by (simp add: tid_word_def)
  then have la: "length (tid_word v a) = 4" by (simp add: assms(2))
  then have l: "off < length (c_bytes a)" using o by (auto simp: tid_word_def)
  have o4: "off - tid_pos v < 4" using o by linarith
  then have "c_bytes a ! off = tid_word v a ! (off - tid_pos v)" using o l by (simp add: tid_word_def)
  also have "\<dots> = c_bytes c ! off" unfolding assms(2) using o o4 lr assms(7) by (simp add: tid_word_def)
  also have "\<dots> = of_nat i" unfolding b using o assms(6,7) by (simp add: length_c_bytes)
  finally have "unat (c_bytes a ! off) = i" using assms(4) by (simp add: unat_of_nat)
  then show ?thesis using l extractDest_byte [OF assms(5,1)] by (simp add: goes_to_def)
qed

lemma extractTid_word:
  "take 4 (drop (tid_pos (sr_protoVersion d)) m) = take 4 (drop (tid_pos (sr_protoVersion d)) m') \<Longrightarrow> extractTid d m = extractTid d m'"
  by (simp only: extractTid_def msg_extract_def tid_pos_def Let_def)

text \<open>The devices that share the connection: the multiplexer does not change what they make of the identifier.\<close>

definition on_link :: "srp_version \<Rightarrow> srp \<Rightarrow> bool" where
  "on_link v d \<longleftrightarrow> sr_protoVersion d = v \<and> sr_tidMsk d = 0xFFFFFF \<and> sr_host d \<in> {LE, BE}"

lemma answer_tid:
  assumes "vc_off v = Inr off" "tid_word v a = tid_word v c" "marked off (i, r) c" "on_link v d" "c_ok r" "tid_pos v + 4 \<le> c_size r"
  shows "extractTid d (c_bytes a) = extractTid d (c_bytes r)"
proof -
  have "extractTid d (c_bytes a) = extractTid d (c_bytes c)"
    using assms(2,4) by (intro extractTid_word) (simp add: tid_word_def on_link_def)
  also have "\<dots> = extractTid d (c_bytes r)"
    using extractTid_channel [of d off "c_bytes r" "of_nat i"] assms by (simp add: marked_def on_link_def length_c_bytes)
  finally show ?thesis .
qed

text \<open>C10: Devices that share a connection are as if each had its own. The request of each goes upstream as it is but for the
  byte of the channel; when the peer answers with the identifiers of the requests, whatever the order and however often, each
  port gets the answers to the requests which were pushed into it, in the order in which they came, and no others; and the
  identifier in an answer is the one its device put into the request.\<close>

theorem srpmux_exchange:
  assumes "sm_specs_ok ps" "v \<noteq> SRP_UDP_NONE"
    and "\<forall>(i, c) \<in> set rs. int i \<in> fst ` set ps \<and> c_ok c \<and> tid_pos v + 4 \<le> c_size c"
  shows "\<exists>off m. vc_off v = Inr off \<and> sm_requests rs (sm_start v ps) = (Inr (), m) \<and> list_all2 (marked off) rs (sm_up m)
    \<and> (\<forall>ans. (\<forall>(n, a) \<in> set ans. n < length rs \<and> c_ok a \<and> tid_word v a = tid_word v (sm_up m ! n)) \<longrightarrow>
        (\<exists>m'. bm_thread (sm_extractDest v) port_pushDownstream (map snd ans) m = (Inr (), m')
          \<and> (\<forall>i. int i \<in> fst ` set ps \<longrightarrow>
               (\<exists>p. bm_port m' i = Some p \<and> po_out p = map snd (filter (\<lambda>(n, a). fst (rs ! n) = i) ans)))
          \<and> (\<forall>(n, a) \<in> set ans. \<forall>d. on_link v d \<longrightarrow> extractTid d (c_bytes a) = extractTid d (c_bytes (snd (rs ! n))))))"
proof -
  obtain off where off: "vc_off v = Inr off" using assms(2) by (cases v) (auto simp: vc_off_def)
  note s = sm_start_ready [OF assms(1), of v]
  have ok: "\<forall>(i, c) \<in> set rs. int i \<in> fst ` set ps \<and> c_ok c \<and> off < c_size c"
    using assms(3) vc_off_pos [OF off] by fastforce
  from sm_requests_spec [OF s(1) off ok] obtain cs where
    cs: "sm_requests rs (sm_start v ps) = (Inr (), (sm_start v ps)\<lparr>sm_up := cs\<rparr>)" "list_all2 (marked off) rs cs"
    by (auto simp: s(2))
  let ?m = "(sm_start v ps)\<lparr>sm_up := cs\<rparr>"
  have rdy: "sm_ready v (fst ` set ps) (\<lambda>_. []) ?m" using s(1) by simp
  have one: "marked off (rs ! n) (cs ! n) \<and> fst (rs ! n) < 256 \<and> c_ok (snd (rs ! n)) \<and> tid_pos v + 4 \<le> c_size (snd (rs ! n))"
    if "n < length rs" for n
  proof -
    have "rs ! n \<in> set rs" using that by simp
    then have r: "int (fst (rs ! n)) \<in> fst ` set ps" "c_ok (snd (rs ! n))" "tid_pos v + 4 \<le> c_size (snd (rs ! n))"
      using assms(3) by (auto simp: case_prod_unfold)
    then have "fst (rs ! n) < 256" using assms(1) by (fastforce simp: sm_specs_ok_def)
    then show ?thesis using r cs(2) that by (simp add: list_all2_conv_all_nth)
  qed
  have "\<exists>m'. bm_thread (sm_extractDest v) port_pushDownstream (map snd ans) ?m = (Inr (), m')
      \<and> (\<forall>i. int i \<in> fst ` set ps \<longrightarrow> (\<exists>p. bm_port m' i = Some p \<and> po_out p = map snd (filter (\<lambda>(n, a). fst (rs ! n) = i) ans)))
      \<and> (\<forall>(n, a) \<in> set ans. \<forall>d. on_link v d \<longrightarrow> extractTid d (c_bytes a) = extractTid d (c_bytes (snd (rs ! n))))"
    if ans: "\<forall>(n, a) \<in> set ans. n < length rs \<and> c_ok a \<and> tid_word v a = tid_word v (cs ! n)" for ans
  proof -
    have dest: "goes_to v (fst (rs ! n)) a" and tid: "on_link v d \<Longrightarrow> extractTid d (c_bytes a) = extractTid d (c_bytes (snd (rs ! n)))"
      if "(n, a) \<in> set ans" for n a d
      using that ans one [of n] answer_dest [OF off, of a "cs ! n" "fst (rs ! n)" "snd (rs ! n)"]
        answer_tid [OF off, of a "cs ! n" "fst (rs ! n)" "snd (rs ! n)" d] by auto
    have "\<forall>c \<in> set (map snd ans). c_ok c \<and> (\<exists>k. goes_to v k c)" using ans dest by fastforce
    from sm_thread_spec [OF rdy this] obtain m' where m': "bm_thread (sm_extractDest v) port_pushDownstream (map snd ans) ?m = (Inr (), m')"
      "sm_ready v (fst ` set ps) (\<lambda>i. if int i \<in> fst ` set ps then filter (goes_to v i) (map snd ans) else []) m'" by auto
    have "filter (goes_to v i) (map snd ans) = map snd (filter (\<lambda>(n, a). fst (rs ! n) = i) ans)" for i
      unfolding filter_map comp_def
      by (intro arg_cong [where f = "map snd"] filter_cong [OF refl]) (use dest in \<open>auto simp: goes_to_def\<close>)
    then have "\<exists>p. bm_port m' i = Some p \<and> po_out p = map snd (filter (\<lambda>(n, a). fst (rs ! n) = i) ans)"
      if "int i \<in> fst ` set ps" for i
      using m'(2) that unfolding sm_ready_def sp_ready_def by (metis option.exhaust)
    then show ?thesis using m'(1) tid by blast
  qed
  then show ?thesis using off cs by (intro exI [of _ off] exI [of _ ?m]) auto
qed

definition sm_ex_req :: "u8 \<Rightarrow> chain" where
  "sm_ex_req x = [\<lparr>b_data = [x, 1], b_beg = 0, b_end = 2\<rparr>, \<lparr>b_data = [9, 2, 3, 4, 5, 6, 7], b_beg = 1, b_end = 7\<rparr>]"

lemma srpmux_exchange_witness:
  "\<exists>m m' p. sm_requests [(1, sm_ex_req 7), (129, sm_ex_req 8)] (sm_start SRP_UDP_V2 [(1, 4), (129, 4)]) = (Inr (), m)
    \<and> bm_thread (sm_extractDest SRP_UDP_V2) port_pushDownstream [sm_up m ! 1, sm_up m ! 0, sm_up m ! 1] m = (Inr (), m')
    \<and> bm_port m' 129 = Some p \<and> po_out p = [sm_up m ! 1, sm_up m ! 1]"
proof -
  let ?ps = "[(1, 4), (129, 4)] :: (int \<times> nat) list" and ?rs = "[(1, sm_ex_req 7), (129, sm_ex_req 8)] :: (nat \<times> chain) list"
  have "sm_specs_ok ?ps" by (simp add: sm_specs_ok_def)
  moreover have "\<forall>(i, c) \<in> set ?rs. int i \<in> fst ` set ?ps \<and> c_ok c \<and> tid_pos SRP_UDP_V2 + 4 \<le> c_size c"
    by (simp add: sm_ex_req_def b_ok_def b_capa_def b_size_def tid_pos_def)
  ultimately obtain off m where m: "sm_requests ?rs (sm_start SRP_UDP_V2 ?ps) = (Inr (), m)" "list_all2 (marked off) ?rs (sm_up m)"
    "\<forall>ans. (\<forall>(n, a) \<in> set ans. n < length ?rs \<and> c_ok a \<and> tid_word SRP_UDP_V2 a = tid_word SRP_UDP_V2 (sm_up m ! n)) \<longrightarrow>
        (\<exists>m'. bm_thread (sm_extractDest SRP_UDP_V2) port_pushDownstream (map snd ans) m = (Inr (), m')
          \<and> (\<forall>i. int i \<in> fst ` set ?ps \<longrightarrow>
               (\<exists>p. bm_port m' i = Some p \<and> po_out p = map snd (filter (\<lambda>(n, a). fst (?rs ! n) = i) ans)))
          \<and> (\<forall>(n, a) \<in> set ans. \<forall>d. on_link SRP_UDP_V2 d \<longrightarrow> extractTid d (c_bytes a) = extractTid d (c_bytes (snd (?rs ! n)))))"
    using srpmux_exchange [of ?ps SRP_UDP_V2 ?rs] by blast
  let ?ans = "[(1, sm_up m ! 1), (0, sm_up m ! 0), (1, sm_up m ! 1)] :: (nat \<times> chain) list"
  have "c_ok (sm_up m ! 0)" "c_ok (sm_up m ! 1)" using list_all2_nthD [OF m(2), of 0] list_all2_nthD [OF m(2), of 1] by (simp_all add: marked_def)
  then have "\<forall>(n, a) \<in> set ?ans. n < length ?rs \<and> c_ok a \<and> tid_word SRP_UDP_V2 a = tid_word SRP_UDP_V2 (sm_up m ! n)"
    by simp
  from m(3) [THEN spec, THEN mp, OF this] obtain m' where m': "bm_thread (sm_extractDest SRP_UDP_V2) port_pushDownstream (map snd ?ans) m = (Inr (), m')"
    "\<forall>i. int i \<in> fst ` set ?ps \<longrightarrow> (\<exists>p. bm_port m' i = Some p \<and> po_out p = map snd (filter (\<lambda>(n, a). fst (?rs ! n) = i) ?ans))" by blast
  have "int 129 \<in> fst ` set ?ps" by simp
  from m'(2) [THEN spec, THEN mp, OF this]
  obtain p where "bm_port m' 129 = Some p" "po_out p = map snd (filter (\<lambda>(n, a). fst (?rs ! n) = 129) ?ans)" by blast
  then show ?thesis using m(1) m'(1) by (intro exI [of _ m] exI [of _ m'] exI [of _ p]) simp
qed

end
