(* ===== verification/Spec2Isabelle.thy ===== *)
theory Spec2Isabelle
  imports Examples PackTail Crc32 DepackOrder PathParse RegAccess SrpExamples Tdest2Examples Tdest2Faults TdestMux SrpMux
begin

text \<open>
  CPSW, the Common Platform SoftWare: registers and streams of a device, found by name in a hierarchy of entries and
  reached through a stack of protocol modules (\<^verbatim>\<open>src/src\<close>). This development models the parts which carry its logic.

  Notation. A member function that may throw is a function from the state of the object to the value or the exception (the
  datatype \<open>exn\<close>, one constructor for each class of \<^verbatim>\<open>cpsw_error.h\<close>) and the state at that point (\<open>sem\<close> in
  Prelude). \<open>wp\<close> and \<open>pres\<close> are its calculus. Functions without state return a sum. Machine integers are words of
  their width where the code relies on the width; counts and sizes that stay far below the width are natural numbers.
  What the code does outside its memory, and loops that do not end, are exceptions of their own (\<open>Undefined\<close>,
  \<open>Diverges\<close>), and the theorems show that they do not occur.

  The RSSI transport (reliable streams over UDP).
  Timeout: \<^verbatim>\<open>cpsw_api_timeout.h\<close>. ByteFields, RssiHeader: the segment header and its checksum,
  \<^verbatim>\<open>cpsw_rssi_proto.h\<close> and \<^verbatim>\<open>.cc\<close>. Buf: chains of buffers, \<^verbatim>\<open>cpsw_buf.cc\<close>. RssiTimer: the sorted
  timer list. RssiWindow: the ring of unacknowledged segments and the reassembly window, \<^verbatim>\<open>cpsw_rssi.h\<close>. Bufq: the
  bounded queues to the user. Rssi: the connection object, \<^verbatim>\<open>cpsw_rssi.cc\<close>. RssiStates: the handlers of all states and
  the rounds of the thread, \<^verbatim>\<open>cpsw_rssi_states.cc\<close>; one round takes the event that ended the wait as an argument, so
  that any interleaving of timeouts, segments and user data is a sequence of rounds. RssiInv and RssiCtl hold
  the invariants of ring, queues and control state, RssiDeliver the receiver which the reassembly window implements and what is drained
  from it, RssiEvents what the handlers do on acknowledgements, resets and timeouts; Examples
  the concrete states of the witnesses. The fuel of the loops is the size of the queue or window they empty, plus one.

  The packetizer (frames in fragments).
  PackHeader, PackTail: the bit fields, headers and tails of both versions, \<^verbatim>\<open>cpsw_proto_depack.cc\<close>. Crc32: the table
  driven CRC against the shift register. Depack: the receiver \<^verbatim>\<open>cpsw_proto_mod_depack.cc\<close> with its window of frames; DepackInv,
  DepackRun, DepackWin, DepackProps: only whole frames are handed down; DepackLive: a frame whose fragments all arrive is
  handed down, and the exception for an inconsistent window is reachable; DepackOrder: as long as no fragment makes the window jump,
  it is not, and the frames come out in order, none twice. DepackTx: the sender, which cuts a frame where its buffers
  meet. The loops over the windows have one unit of fuel more
  than there are slots, and \<open>depack_integrity\<close> shows that this suffices.

  Streams that share a connection. ByteMux: the ports of \<^verbatim>\<open>cpsw_proto_mod.cc\<close> (queue, open count, push loop) and the
  demultiplexer of \<^verbatim>\<open>cpsw_proto_mod_bytemux.h\<close>, with the locale \<open>demux\<close> for modules that route a message by a byte in it.
  Tdest2: the TDEST multiplexer of version 2, \<^verbatim>\<open>cpsw_proto_mod_tdestmux2.cc\<close>. On the sending side the work of the
  ports is cut into fragments with header, tail and CRC, one fragment of each port in turn (\<open>mux_round\<close>); on the receiving side
  fragments are checked, stripped and put together (\<open>tp_pushDownstream\<close>). Tdest2Tx has the layout of a fragment that is sent, Tdest2Rx
  what the receiver does with such a fragment, Tdest2Link the invariant that ties the ports of both ends, Tdest2Run the construction of
  the two modules, Tdest2Deliver the runs: whatever the interleaving of pushes, rounds and reads, each stream arrives
  unchanged and in order, and all of what was accepted once the thread has had enough rounds; Tdest2Examples the concrete runs,
  Tdest2Faults the fragments which the receiver damages (those whose tail is spread over two buffers). The ports of these runs strip the headers. What was put into the queue
  towards the user of a port is the list \<open>po_out\<close>. The condition variable on which \<open>process\<close> waits is not modelled (a round without work changes nothing), a push
  with a timeout is \<open>tryPush\<close>, the contents of buffers from the free list are an argument, and ports, once made, stay.

  TdestMux: the multiplexer of version 0, \<^verbatim>\<open>cpsw_proto_mod_tdestmux.cc\<close>, on top of the packetizer; a frame goes from a port through both
  ends to the port of the same channel. SrpMux: the multiplexer of register devices, \<^verbatim>\<open>cpsw_proto_mod_srpmux.cc\<close>, which keeps
  its channel in a byte of the transaction identifier; each device gets the answers to its own requests. Both are instances of \<open>demux\<close>, too.

  Registers.
  RegBits: sign extension, swapping and shifting of bytes, bit by bit. Sval: the attributes of integer fields with their checks,
  the builder, and the conversions \<open>doComplete\<close> and \<open>setVal\<close>, \<^verbatim>\<open>cpsw_sval.cc\<close>. SvalBits names the place of
  each bit of a number in its register (\<open>regpos\<close>); SvalGet and SvalSet show that the conversions move the bits between these places, and
  that the two masks of a write spare exactly the other bits. MemDev, MemAligned: the memory device, \<^verbatim>\<open>cpsw_mem_dev.cc\<close>,
  and that the access by aligned words (\<^verbatim>\<open>cpsw_aligned_mmio.h\<close>) does what the one by bytes does.

  Access along a path. Mmio: the routing of reads and writes by \<^verbatim>\<open>cpsw_hub.cc\<close> and \<^verbatim>\<open>cpsw_mmio_dev.cc\<close> down to the memory device;
  MmioProps, MmioRun (the locale \<open>rounds\<close> for the loops over array elements), MmioRead, MmioWrite and MmioVal show which byte goes
  where; RegAccess states it for \<open>getVal\<close> and \<open>setVal\<close>. The fuel of the routing is the length of the path.

  Access over the network. SrpModel, SrpWriteModel: \<^verbatim>\<open>cpsw_srp_addr.cc\<close> and \<^verbatim>\<open>cpsw_srp_transactions.cc\<close>, requests and answers in three
  versions of the protocol, retries, the dynamic timeout, blocks, and writes that merge bits into words read before. The device at the other
  end is a parameter, a function from its state and a message to its answers; SrpServer has the reference peer, \<open>handleSRP\<close> of
  \<^verbatim>\<open>test/udpsrv.c\<close>, at the end of a line that loses messages. SrpWords and SrpReply follow the swaps of the first version through
  buffers and answers, SrpRequest and SrpStore what the server understands, SrpMerge the three parts of a write, SrpMessage its message, SrpRead and
  SrpWrite the loops (their fuel is the number of words, and each block takes at least one). RegMemory has the contract of a register
  device (the locale \<open>reg_memory\<close>), kept by the memory device and, in SrpAccess, by the network device. SrpTimeout bounds the timeout and its average, SrpFaults
  has dead lines, stale answers, and two accesses that the code does not do right; SrpExamples the concrete runs. What a read is put
  into is the buffer of the caller; that the header of an unaligned answer of version 3 is up to three bytes longer than the array it is
  copied to is not modelled.

  The hierarchy.
  Path: entries, parsing, printing, concatenation, intersection, iterators, \<^verbatim>\<open>cpsw_path.cc\<close>; entries and addresses are numbers
  and the record \<open>hier\<close> holds what they refer to. PathProps: well-formed paths, the elements they denote, interfaces that exist
  once (their handles hold references to the paths of the callers, as in the code). PathParse: printing and parsing are inverse.

  Not modelled. Asynchronous reads of the user (those a write does for itself are in SrpWriteModel), the matching of ports
  and the assembly of stacks. The YAML configuration (it is read with a library that is not part of the repository), the Python bindings
  (generated code), sockets, threads, locks and condition variables (the operating system), reference counts and free lists
  (buffers are values), test programs and diagnostic output. The conversions of registers are proved for a
  little-endian host; their definitions cover both. Blocking calls are modelled by their result when they return.
\<close>

section \<open>Safety of a connection\<close>

text \<open>C1: In every state that a connection reaches, from its construction on, the ring of
  unacknowledged segments is within its memory; while the connection is not closed, the peer's
  limit fits the ring and not more segments are under way than the limit (or the one SYN).
  A round of the thread never fails because the ring or a queue overflows or a semaphore and
  its queue disagree, and never spins for ever.\<close>

theorem connection_safe:
  assumes "rssi_create srv mtu dfl junk = Inr r0" "rssi_reach r0 r"
  shows "ring_size (r_unAcked r) \<le> w_capa (r_unAcked r)
    \<and> (r_state r \<noteq> CLOSED \<longrightarrow> r_peerOssMX r \<le> w_capa (r_unAcked r)
         \<and> ring_size (r_unAcked r) \<le> max 1 (r_peerOssMX r))
    \<and> (\<forall>ev e r'. advance ev r = (Inl e, r') \<longrightarrow> \<not> bad_exn e)"
proof -
  have inv: "rinv r" using rinv_reach [OF assms(2)] rssi_create_inv [OF assms(1)] by blast
  then have "ring_ok (r_unAcked r)" using rinv_sane by (simp add: sane_def)
  then have "ring_size (r_unAcked r) \<le> w_capa (r_unAcked r)" using ring_ok_size by blast
  moreover have "r_state r \<noteq> CLOSED \<longrightarrow> bounded r"
    using inv by (auto simp: rinv_def binv_def split: rstate.splits)
  moreover have "\<forall>ev e r'. advance ev r = (Inl e, r') \<longrightarrow> \<not> bad_exn e"
    using hoare_result [OF advance_inv inv] by blast
  ultimately show ?thesis by (auto simp: bounded_def)
qed

lemma connection_safe_witness:
  "\<exists>r. rssi_reach (connection True) r \<and> r_state r = LISTEN \<and> ring_size (r_unAcked r) \<le> max 1 (r_peerOssMX r)"
  using connection_listens connection_safe [OF connection_create [of True]] by fastforce

text \<open>C2: A connection keeps its role. A server is never in the client's waiting state, a client
  never listens, and whenever the thread waits with a timeout there is a timer: it never
  stops with \<open>no timer active\<close>.\<close>

theorem connection_roles:
  assumes "rssi_create srv mtu dfl junk = Inr r0" "mem_ok junk" "rssi_reach r0 r"
  shows "(r_state r = CLNT_WAIT_SYN_ACK \<longrightarrow> \<not> r_isServer r)
    \<and> (r_state r \<in> {LISTEN, SERV_WAIT_SYN_ACK} \<longrightarrow> r_isServer r)
    \<and> (r_state r \<notin> {CLOSED, LISTEN} \<longrightarrow> timer_first (r_timers r) \<noteq> None)"
proof -
  have "role_ok r" using role_reach [OF assms(3)] rssi_create_role [OF assms(1,2)] by blast
  then show ?thesis using armed_first by (auto simp: role_ok_def split: rstate.splits)
qed

lemma connection_roles_witness:
  "\<exists>r. rssi_reach (connection True) r \<and> r_state r = LISTEN \<and> r_isServer r"
  using connection_listens connection_roles [OF connection_create [of True] junk0_mem] by fastforce

section \<open>Segments\<close>

text \<open>C11: Every segment that is sent keeps its sequence number and its data, acknowledges the
  last segment received in order, and, if checksums are in use, passes the receiver's check;
  the pending acknowledgement is off. The busy flag is added to its flags when the output
  queue is full; otherwise the flags are those of the segment as it is stored, so that the
  busy flag of an earlier transmission is not taken away.\<close>

theorem sent_segment:
  assumes "hdr_wf (b_view b)" "b_beg b \<le> b_capa b"
    "c_size (b # rest) \<le> r_peerSgsMX r + unat (getHSize (b_view b))"
  shows "\<exists>b' r'. sendBuf (b # rest) r = (Inr (b' # rest), r')
    \<and> getSeqNo (b_view b') = getSeqNo (b_view b) \<and> getAckNo (b_view b') = r_lastSeqRecv r
    \<and> getFlags (b_view b') = (if bufq_isFull (r_outQ r) then getFlags (b_view b) OR FLG_BSY else getFlags (b_view b))
    \<and> (\<forall>i. unat (getHSize (b_view b)) \<le> i \<longrightarrow> b_view b' ! i = b_view b ! i)
    \<and> (r_addChecksum r \<longrightarrow> cs (b_view b') = 0)
    \<and> r_numCak r' = 0 \<and> \<not> timer_isArmed AckT (r_timers r')
    \<and> e_tx (r_env r') = (if e_accepts (r_env r) (e_pushes (r_env r)) then e_tx (r_env r) @ [b' # rest] else e_tx (r_env r))"
proof -
  obtain s where s: "sendBuf (b # rest) r = (Inr (b_setView (sent_header r (b_view b)) b # rest),
      r\<lparr>r_numCak := 0, r_timers := timer_cancel AckT (r_timers r),
        r_env := tx_env (b_setView (sent_header r (b_view b)) b # rest) (r_env r), r_stats := s\<rparr>)"
    using sendBuf_spec [OF assms(3)] by blast
  let ?b = "b_setView (sent_header r (b_view b)) b"
  have v: "b_view ?b = sent_header r (b_view b)" using assms(2) by simp
  show ?thesis
    by (rule exI [of _ ?b], rule exI, rule conjI [OF s])
      (use sent_header_spec [OF assms(1), of r] v in \<open>simp add: tx_env_def timer_armed_eqs\<close>)
qed

lemma sent_segment_witness:
  "\<exists>b' r'. sendBuf seg0 junk0 = (Inr [b'], r') \<and> cs (b_view b') = 0"
proof -
  have "hdr_wf (b_view (hd seg0))" "b_beg (hd seg0) \<le> b_capa (hd seg0)" "seg0 = [hd seg0]"
    "c_size [hd seg0] \<le> r_peerSgsMX junk0 + unat (getHSize (b_view (hd seg0)))" "r_addChecksum junk0"
    by code_simp+
  then show ?thesis using sent_segment [of "hd seg0" "[]" junk0] by metis
qed

text \<open>C14: The receiver accepts a header whose checksum was written by the sender, and rejects
  it when one of its aligned 16-bit words, the first one with the flags included, has
  changed, as long as the byte with the size of the header has not, unless 0 became 0xffff
  or the reverse.\<close>

theorem checksum_detects:
  assumes "hdr_wf h" "length h \<le> n" "2 * j + 2 \<le> unat (getHSize h)"
    "j = 0 \<longrightarrow> ucast v = getHSize h" "v \<noteq> ld16be (writeChksum h) (2 * j)"
    "v \<notin> {0, 0xffff} \<or> ld16be (writeChksum h) (2 * j) \<notin> {0, 0xffff}"
  shows "fst (hdr_ini n True READ (writeChksum h)) = Inr True
    \<and> fst (hdr_ini n True READ (st16be (2 * j) v (writeChksum h))) = Inr False"
proof -
  obtain k where k: "unat (getHSize h) = 2 * k" "4 \<le> k" "2 * k \<le> length h"
    using hdr_wf_half [OF assms(1)] by blast
  let ?w = "writeChksum h"
  have w: "getHSize ?w = getHSize h" using k by (simp add: writeChksum_fields)
  have good: "cs ?w = 0" using k by (intro writeChksum_good [of _ k]) simp_all
  have len: "length ?w = length h" by (simp add: writeChksum_def Let_def)
  have hs: "getHSize (st16be (2 * j) v ?w) = getHSize h"
    using assms(4) w k len by (cases "j = 0") (simp_all add: getHSize_def st16be_def)
  have "cs (st16be (2 * j) v ?w) \<noteq> 0"
    by (rule cs_detects_word [of _ k]) (use assms(3,5,6) k w good hs in simp_all)
  then show ?thesis
    using good w k assms(2) hs by (simp add: hdr_ini_def sem_app andThen_def bnd_def)
qed

lemma checksum_detects_witness:
  "fst (hdr_ini 8 True READ (st16be 2 7 (writeChksum [0x40, 8, 1, 2, 0, 0, 0, 0]))) = Inr False
   \<and> fst (hdr_ini 8 True READ (st16be 0 0x5008 (writeChksum [0x40, 8, 1, 2, 0, 0, 0, 0]))) = Inr False"
proof -
  let ?h = "[0x40, 8, 1, 2, 0, 0, 0, 0] :: u8 list"
  have h: "hdr_wf ?h" "length ?h \<le> 8" by code_simp+
  have "2 * 1 + 2 \<le> unat (getHSize ?h)" "(1 :: nat) = 0 \<longrightarrow> ucast (7 :: u16) = getHSize ?h"
    "(7 :: u16) \<noteq> ld16be (writeChksum ?h) (2 * 1)"
    "(7 :: u16) \<notin> {0, 0xffff} \<or> ld16be (writeChksum ?h) (2 * 1) \<notin> {0, 0xffff}"
    by code_simp+
  note one = checksum_detects [OF h this]
  have "2 * 0 + 2 \<le> unat (getHSize ?h)" "(0 :: nat) = 0 \<longrightarrow> ucast (0x5008 :: u16) = getHSize ?h"
    "(0x5008 :: u16) \<noteq> ld16be (writeChksum ?h) (2 * 0)"
    "(0x5008 :: u16) \<notin> {0, 0xffff} \<or> ld16be (writeChksum ?h) (2 * 0) \<notin> {0, 0xffff}"
    by code_simp+
  from one checksum_detects [OF h this] show ?thesis by simp
qed

text \<open>C15: A SYN header, written over any memory, is accepted by the peer and read as it was
  written, all thirteen fields and the version.\<close>

theorem syn_roundtrip:
  assumes "24 \<le> n" "n \<le> length h" "sp_xflgs p AND 0xf = sp_xflgs p"
  shows "\<exists>h'. syn_ini n c SET h = (Inr (\<not> c), h')
    \<and> syn_ini 24 False READ (put_syn p h') = (Inr True, put_syn p h')
    \<and> get_syn (put_syn p h') = p"
proof -
  let ?h = "setHSize 24 h"
  have "syn_ini n c SET h = (Inr (\<not> c), ?h)"
    using assms(1,2) by (auto simp: syn_ini_def hdr_ini_len_def sem_app andThen_def bnd_def hdr_field_defs)
  moreover have g: "get_syn (put_syn p ?h) = p \<and> getVersn (put_syn p ?h) = RSSI_VERSION_1"
    using assms by (intro get_put_syn) simp_all
  moreover have "getHSize (put_syn p ?h) = 24"
    using assms(1,2) by (auto simp: put_syn_def hdr_field_defs setVersn_def Let_def st16be_nth st32be_def)
  then have "syn_ini 24 False READ (put_syn p ?h) = (Inr True, put_syn p ?h)"
    using g by (simp add: syn_ini_def hdr_ini_len_def sem_app andThen_def bnd_def)
  ultimately show ?thesis by blast
qed

lemma syn_roundtrip_witness:
  "\<exists>h'. get_syn (put_syn (synParams True junk0) h') = synParams True junk0"
proof -
  have "sp_xflgs (synParams True junk0) AND 0xf = sp_xflgs (synParams True junk0)" by code_simp
  with syn_roundtrip [of 24 "replicate 24 0" "synParams True junk0" False] show ?thesis by auto
qed

section \<open>Windows and queues\<close>

text \<open>C12: An acknowledgement in the window removes exactly the segments it acknowledges, the
  oldest first; a repeated one, which acknowledges nothing new, and one outside of the window
  leave the ring as it is. The count of retransmissions is reset when something was
  acknowledged or nothing is left, and only then; the retransmission timer is stopped when
  nothing is left, and no timer changes otherwise.\<close>

theorem ack_removes_prefix:
  assumes "ring_ok (r_unAcked r)" "hasFlag FLG_ACK flags"
  shows "\<exists>r'. processAckNumber flags ackNo r = (Inr (), r') \<and> ring_ok (r_unAcked r')
    \<and> (if newly_acked ackNo r \<le> ring_size (r_unAcked r)
       then ring_list (r_unAcked r') = drop (newly_acked ackNo r) (ring_list (r_unAcked r))
            \<and> w_oldest (r_unAcked r') = ackNo + 1
       else r_unAcked r' = r_unAcked r)
    \<and> r_numRex r' = (if ring_list (r_unAcked r') = [] \<or>
         0 < newly_acked ackNo r \<and> newly_acked ackNo r \<le> ring_size (r_unAcked r)
         then 0 else r_numRex r)
    \<and> r_timers r' = (if ring_list (r_unAcked r') = [] then timer_cancel RexT (r_timers r)
         else r_timers r)"
proof -
  let ?n = "newly_acked ackNo r"
  note ack = ring_ack_spec [OF assms(1), of ackNo, folded newly_acked_def]
  have nil: "ring_list q = [] \<longleftrightarrow> ring_size q = 0" for q :: "chain ring"
    by (metis length_ring_list length_0_conv)
  have "wp (processAckNumber flags ackNo) (\<lambda>_ r'. ring_ok (r_unAcked r')
    \<and> (if ?n \<le> ring_size (r_unAcked r)
       then ring_list (r_unAcked r') = drop ?n (ring_list (r_unAcked r))
            \<and> w_oldest (r_unAcked r') = ackNo + 1
       else r_unAcked r' = r_unAcked r)
    \<and> r_numRex r' = (if ring_list (r_unAcked r') = [] \<or> 0 < ?n \<and> ?n \<le> ring_size (r_unAcked r)
         then 0 else r_numRex r)
    \<and> r_timers r' = (if ring_list (r_unAcked r') = [] then timer_cancel RexT (r_timers r)
         else r_timers r)) (\<lambda>_ _. False) r"
  proof (cases "?n \<le> ring_size (r_unAcked r)")
    case True
    with ack assms(2) show ?thesis
      by (auto simp: processAckNumber_def wp_eqs cancelT_def nil split: prod.split)
  next
    case False
    with ack assms(1,2) show ?thesis
      by (auto simp: processAckNumber_def wp_eqs cancelT_def nil split: prod.split)
  qed
  then show ?thesis by (rule wp_unit_run)
qed

lemma ack_removes_prefix_witness:
  "(\<exists>r'. processAckNumber FLG_ACK 0 busy0 = (Inr (), r') \<and> ring_list (r_unAcked r') = [])
   \<and> (\<exists>r'. processAckNumber FLG_ACK (-1) (busy0\<lparr>r_numRex := 2\<rparr>) = (Inr (), r')
      \<and> length (ring_list (r_unAcked r')) = 1 \<and> r_numRex r' = 2 \<and> r_timers r' = r_timers busy0)"
proof -
  have f: "hasFlag FLG_ACK FLG_ACK" by code_simp
  have n: "newly_acked (-1) (busy0\<lparr>r_numRex := 2\<rparr>) = 0" by code_simp
  have l: "length (ring_list (r_unAcked busy0)) = 1" using busy0_facts by simp
  then have "ring_list (r_unAcked busy0) \<noteq> []" by (metis list.size(3) zero_neq_one)
  with ack_removes_prefix [of "busy0\<lparr>r_numRex := 2\<rparr>" FLG_ACK "-1"] f n l busy0_facts(1)
  have "\<exists>r'. processAckNumber FLG_ACK (-1) (busy0\<lparr>r_numRex := 2\<rparr>) = (Inr (), r')
      \<and> length (ring_list (r_unAcked r')) = 1 \<and> r_numRex r' = 2 \<and> r_timers r' = r_timers busy0"
    by (auto simp del: length_ring_list)
  with f ack_removes_prefix [of busy0 FLG_ACK 0] busy0_facts show ?thesis
    by (fastforce simp: drop_all)
qed

text \<open>C18: Growing the ring of unacknowledged segments for a peer with a larger window keeps the
  segments in it, their order and their numbers; the new size is the next power of two.\<close>

theorem resize_keeps_segments:
  assumes "ring_ok (r :: chain ring)" "n \<le> 256" "ring_size r \<le> n"
  shows "\<exists>q. ring_resize n r = Inr q \<and> ring_ok q \<and> ring_list q = ring_list r
    \<and> w_oldest q = w_oldest r \<and> w_capa q = pow2_from n 1 \<and> n \<le> w_capa q"
  by (rule ring_resize_spec [OF assms])

lemma resize_keeps_segments_witness:
  "\<exists>q. ring_resize 9 (r_unAcked busy0) = Inr q \<and> ring_list q = ring_list (r_unAcked busy0) \<and> 9 \<le> w_capa q"
  using resize_keeps_segments [of "r_unAcked busy0" 9] busy0_facts by auto

text \<open>C19: A queue is first in, first out: whatever pushes and pops are made, what went in after
  what was there is what came out before what is there.\<close>

theorem queue_fifo:
  assumes "bufq_ok q" "queue_run ops q = (i, out, q')"
  shows "bufq_ok q' \<and> bufq_items q @ i = out @ bufq_items q'"
  using assms bufq.run_fifo by (simp add: queue_run_eq)

lemma queue_fifo_witness:
  "\<exists>q. queue_run [QPush ''a'', QPush ''b'', QPop, QPush ''c''] (bufq_create 2)
      = ([''a'', ''b'', ''c''], [''a''], q) \<and> bufq_items q = [''b'', ''c'']"
proof -
  let ?ops = "[QPush ''a'', QPush ''b'', QPop, QPush ''c'']"
  obtain q where q: "queue_run ?ops (bufq_create 2) = ([''a'', ''b'', ''c''], [''a''], q)"
  proof -
    have "fst (queue_run ?ops (bufq_create 2)) = [''a'', ''b'', ''c'']"
      "fst (snd (queue_run ?ops (bufq_create 2))) = [''a'']" by code_simp+
    then show ?thesis using that by (metis prod.collapse)
  qed
  have c: "bufq_ok (bufq_create 2 :: string bufq)" "bufq_items (bufq_create 2 :: string bufq) = []"
    using bufq_create_ok by auto
  from queue_fifo [OF c(1) q, unfolded c(2)] q show ?thesis by (auto simp del: queue_run.simps)
qed

text \<open>C20: Shutting a queue down ends, whatever is in it, with a queue that is empty and refuses
  what is pushed; starting it up again makes room for its full length.\<close>

theorem queue_shutdown:
  assumes "bufq_ok q"
  shows "\<exists>q'. bufq_shutdown q = Some (Inr (), q') \<and> bufq_items q' = [] \<and> tryPush a q' = (Inr False, q')
    \<and> q_isUp (bufq_startup q') \<and> bufq_items (bufq_startup q') = []
    \<and> getAvailSlots (q_wr (bufq_startup q')) = q_n q"
proof -
  obtain q' where q': "bufq_shutdown q = Some (Inr (), q')" "bufq_ok q'" "\<not> q_isUp q'"
      "bufq_items q' = []" "q_n q' = q_n q" using shutdown_spec [OF assms] by blast
  then have "tryPush a q' = (Inr False, q')"
    by (intro tryPush_full) (auto simp: bufq_isFull_def bufq_ok_def getAvailSlots_def)
  moreover have "getAvailSlots (q_wr (bufq_startup q')) = q_n q"
    using q' by (auto simp: bufq_startup_def putSlot_pow bufq_ok_def getAvailSlots_def)
  ultimately show ?thesis using q' startup_spec [OF q'(2)] by simp
qed

lemma queue_shutdown_witness:
  "\<exists>q'. bufq_shutdown (bufq_create 3 :: chain bufq) = Some (Inr (), q') \<and> tryPush [] q' = (Inr False, q')"
  using queue_shutdown [of "bufq_create 3 :: chain bufq" "[]"] bufq_create_ok by blast

text \<open>C31: Arming and cancelling keep the list of timers sorted with each timer in it at most
  once, and the first of the list is one that expires no later than any other.\<close>

theorem timers_sorted:
  assumes "timers_ok ts"
  shows "timers_ok (timer_arm_rel now t e ts) \<and> timers_ok (timer_cancel u ts)
    \<and> timer_isArmed t (timer_arm_rel now t e ts) \<and> \<not> timer_isArmed u (timer_cancel u ts)
    \<and> (\<forall>v x. timer_first (timer_arm_rel now t e ts) = Some (v, x)
         \<longrightarrow> (\<forall>(w, y) \<in> set (timer_arm_rel now t e ts). x \<le> y))"
  using assms timer_first_least [OF timers_ok_arm_rel [OF assms]]
  by (fastforce simp: timer_armed_eqs)

lemma timers_sorted_witness: "timers_ok (timer_arm_rel (Timeout 0 0) RexT (Timeout 1 0) [])"
  using timers_sorted [OF timers_ok_Nil] by blast

end
